(* ===== verification/Topling_Prelude.thy ===== *)
theory Topling_Prelude
  imports Main "HOL-Library.Word"
begin

text \<open>
  Prelude of the development: the fact collections, the result type of the code's
  fallible operations, the heap that \<open>malloc\<close> and \<open>realloc\<close> stand for, and the
  lemmas on lists, division and bits that the component theories share.

  Conventions used by every theory.  The target is the library's main platform: 64 bit,
  little endian, \<open>size_t = bm_uint_t = uint64_t\<close>.  Machine words whose bits matter are
  \<open>64 word\<close>, \<open>32 word\<close>, \<open>8 word\<close>; lengths, capacities and indices, which are
  bounded by the address space, are \<open>nat\<close>, so an address computation of the model does not wrap.
  An exception, a failed VERIFY or a call of \<open>abort\<close> is the left injection of a sum type.
\<close>

unbundle bit_operations_syntax

section \<open>Types and fact collections\<close>

type_synonym u8 = "8 word"
type_synonym u32 = "32 word"
type_synonym u64 = "64 word"

text \<open>
  \<open>word_nth\<close>: how an operation acts on the bits or words of an array;
  \<open>len_simps\<close>: how it acts on lengths and sizes;
  \<open>inv_intros\<close>: that it keeps the invariant of its component.
\<close>

named_theorems word_nth
named_theorems len_simps
named_theorems inv_intros

section \<open>Errors as values\<close>

text \<open>
  \<open>Undefined\<close> is a step the language gives no meaning to (an object read before it is made, a division by
  zero), \<open>Endless\<close> a loop that never leaves.
\<close>

datatype exn =
    Bad_alloc
  | Abort
  | Invalid_argument
  | Out_of_range
  | Logic_error
  | Runtime_error
  | Data_format
  | Undefined
  | Endless

type_synonym 'a res = "exn + 'a"

definition bind_res :: "'a res \<Rightarrow> ('a \<Rightarrow> 'b res) \<Rightarrow> 'b res" where
  "bind_res r f = (case r of Inl e \<Rightarrow> Inl e | Inr x \<Rightarrow> f x)"

lemma bind_res_simps [simp]:
  "bind_res (Inl e) f = Inl e"
  "bind_res (Inr x) f = f x"
  by (simp_all add: bind_res_def)

lemma bind_res_Inr: "bind_res r f = Inr y \<longleftrightarrow> (\<exists>x. r = Inr x \<and> f x = Inr y)"
  by (cases r) auto

lemma bind_res_Inl: "bind_res r f = Inl e \<longleftrightarrow> r = Inl e \<or> (\<exists>x. r = Inr x \<and> f x = Inl e)"
  by (cases r) auto

lemma bind_res_assoc: "bind_res (bind_res r f) g = bind_res r (\<lambda>x. bind_res (f x) g)"
  by (cases r) simp_all

lemma bind_res_total:
  "\<exists>x. r = Inr x \<Longrightarrow> (\<And>x. r = Inr x \<Longrightarrow> \<exists>y. f x = Inr y) \<Longrightarrow> \<exists>y. bind_res r f = Inr y"
  by auto

text \<open>A VERIFY or an assertion in front of the rest of a function.\<close>

definition verify :: "bool \<Rightarrow> 'a res \<Rightarrow> 'a res" where
  "verify b r = (if b then r else Inl Abort)"

lemma verify_simps [simp]: "verify True r = r" "verify False r = Inl Abort"
  by (simp_all add: verify_def)

text \<open>
  \<open>yields G r P\<close>: the result is good and satisfies \<open>P\<close>; only if \<open>G\<close> (memory is granted) fails it may be \<open>Abort\<close>.
\<close>

definition yields :: "bool \<Rightarrow> 'a res \<Rightarrow> ('a \<Rightarrow> bool) \<Rightarrow> bool" where
  "yields G r P = (case r of Inr x \<Rightarrow> P x | Inl e \<Rightarrow> e = Abort \<and> \<not> G)"

lemma yields_Inr [simp]: "yields G (Inr x) P \<longleftrightarrow> P x"
  by (simp add: yields_def)

lemma yields_bind: "yields G r P \<Longrightarrow> (\<And>x. P x \<Longrightarrow> yields G (f x) Q) \<Longrightarrow> yields G (bind_res r f) Q"
  by (cases r) (auto simp: yields_def)

lemma yields_verify: "b \<Longrightarrow> yields G r P \<Longrightarrow> yields G (verify b r) P"
  by simp

lemma yields_mono: "yields G r P \<Longrightarrow> (\<And>x. P x \<Longrightarrow> Q x) \<Longrightarrow> yields G r Q"
  by (cases r) (auto simp: yields_def)

lemma yields_total: "yields G r P \<Longrightarrow> G \<Longrightarrow> \<exists>x. r = Inr x \<and> P x"
  by (cases r) (auto simp: yields_def)

section \<open>The heap behind malloc and realloc\<close>

text \<open>
  \<open>alloc_ok\<close> says which request sizes (in bytes) are granted; \<open>fresh\<close> is the content of
  new memory, one 64 bit word per index, which the C library leaves indeterminate: the theorems
  quantify over it, so none of them depends on memory that was never written.
  \<open>has_valgrind\<close> is the process wide flag \<open>g_Terark_hasValgrind\<close>.
\<close>

record heap_env =
  alloc_ok :: "nat \<Rightarrow> bool"
  fresh :: "nat \<Rightarrow> u64"
  has_valgrind :: bool

definition realloc_words :: "heap_env \<Rightarrow> u64 list \<Rightarrow> nat \<Rightarrow> u64 list option" where
  "realloc_words env ws nbytes =
     (if alloc_ok env nbytes
      then Some (map (\<lambda>i. if i < length ws then ws ! i else fresh env i) [0..<nbytes div 8])
      else None)"

text \<open>A heap that grants every request, for concrete runs.\<close>

definition plain_heap :: heap_env where
  "plain_heap = \<lparr>alloc_ok = (\<lambda>_. True), fresh = (\<lambda>_. 0xA5A5A5A5A5A5A5A5), has_valgrind = False\<rparr>"

lemma plain_heap_ok [simp]: "alloc_ok plain_heap n"
  by (simp add: plain_heap_def)

lemma realloc_words_Some:
  "realloc_words env ws n = Some ws' \<longleftrightarrow>
     alloc_ok env n \<and> ws' = map (\<lambda>i. if i < length ws then ws ! i else fresh env i) [0..<n div 8]"
  by (auto simp: realloc_words_def)

section \<open>Lists\<close>

lemma fold_update_nth:
  assumes "distinct js" and "i < length xs"
  shows "fold (\<lambda>j ys. ys[j := f j]) js xs ! i = (if i \<in> set js then f i else xs ! i)"
  using assms
  by (induction js arbitrary: xs) (auto simp: nth_list_update)

lemma length_fold_update [simp]:
  "length (fold (\<lambda>j ys. ys[j := f j]) js xs) = length xs"
  by (induction js arbitrary: xs) auto

lemma length_fold_update_dep [simp]:
  "length (fold (\<lambda>j ys. ys[g j ys := f j ys]) js xs) = length xs"
  by (induction js arbitrary: xs) auto

lemma map_nth_upt [simp]: "n = length xs \<Longrightarrow> map ((!) xs) [0..<n] = xs"
  by (simp add: map_nth)

lemma filter_upt_split:
  "i \<le> j \<Longrightarrow> j \<le> k \<Longrightarrow> filter P [i..<k] = filter P [i..<j] @ filter P [j..<k]"
  by (metis filter_append le_iff_add upt_add_eq_append)

lemma nth_filter_append_left:
  "r < length (filter P xs) \<Longrightarrow> filter P (xs @ ys) ! r = filter P xs ! r"
  by (simp add: nth_append)

section \<open>Alignment and ceiling division\<close>

text \<open>\<open>(n + a - 1) & ~(a - 1)\<close> for a power of two \<open>a\<close>, on sizes.\<close>

definition align_up :: "nat \<Rightarrow> nat \<Rightarrow> nat" where
  "align_up n a = (n + a - 1) div a * a"

definition ceiled_div :: "nat \<Rightarrow> nat \<Rightarrow> nat" where
  "ceiled_div x y = (x + y - 1) div y"

lemma align_up_dvd [simp]: "a dvd align_up n a"
  by (simp add: align_up_def)

lemma align_up_mod [simp]: "align_up n a mod a = 0"
  by (simp add: align_up_def)

lemma align_up_div: "0 < a \<Longrightarrow> align_up n a div a = ceiled_div n a"
  by (simp add: align_up_def ceiled_div_def)

lemma ceiled_div_mult_ge: "0 < a \<Longrightarrow> n \<le> ceiled_div n a * a"
proof -
  assume a: "0 < a"
  have "n + a - 1 < ((n + a - 1) div a) * a + a"
    using a by (metis add.commute dividend_less_div_times)
  with a show ?thesis by (simp add: ceiled_div_def)
qed

lemma align_up_ge: "0 < a \<Longrightarrow> n \<le> align_up n a"
  using ceiled_div_mult_ge by (simp add: align_up_def ceiled_div_def)

lemma align_up_less: "0 < a \<Longrightarrow> align_up n a < n + a"
  using div_times_less_eq_dividend [of "n + a - 1" a] unfolding align_up_def by linarith

end
