(* ===== verification/Bit_Manip.thy ===== *)
theory Bit_Manip
  imports Topling_Prelude
begin

text \<open>
  Bit level primitives: \<open>src/terark/bitmanip.hpp\<close> (single bits and bit ranges of an array of
  unsigned words, population count, trailing and leading zeros) and the portable \<open>UintSelect1\<close>
  of \<open>src/terark/succinct/rank_select_inline_slow.hpp\<close>.  An array of words is a list; its
  \<open>n\<close>-th bit is \<open>wbit ws n\<close>, least significant bit of a word first, and the lemmas of
  \<open>word_nth\<close> describe every operation by its effect on those bits.
\<close>

section \<open>Bits of an array of words\<close>

definition wbit :: "'a::len word list \<Rightarrow> nat \<Rightarrow> bool" where
  "wbit ws n = bit (ws ! (n div LENGTH('a))) (n mod LENGTH('a))"

definition terark_bit_test :: "'a::len word list \<Rightarrow> nat \<Rightarrow> bool" where
  "terark_bit_test a i =
     (a ! (i div LENGTH('a)) AND push_bit (i mod LENGTH('a)) 1 \<noteq> 0)"

definition terark_bit_set0 :: "'a::len word list \<Rightarrow> nat \<Rightarrow> 'a word list" where
  "terark_bit_set0 a i =
     a[i div LENGTH('a) := a ! (i div LENGTH('a)) AND NOT (push_bit (i mod LENGTH('a)) 1)]"

definition terark_bit_set1 :: "'a::len word list \<Rightarrow> nat \<Rightarrow> 'a word list" where
  "terark_bit_set1 a i =
     a[i div LENGTH('a) := a ! (i div LENGTH('a)) OR push_bit (i mod LENGTH('a)) 1]"

definition terark_bit_set_val :: "'a::len word list \<Rightarrow> nat \<Rightarrow> bool \<Rightarrow> 'a word list" where
  "terark_bit_set_val a i val = (if val then terark_bit_set1 a i else terark_bit_set0 a i)"

lemma and_single_bit_neq_0:
  fixes w :: "'a::len word"
  assumes "i < LENGTH('a)"
  shows "w AND push_bit i 1 \<noteq> 0 \<longleftrightarrow> bit w i"
proof
  assume "w AND push_bit i 1 \<noteq> 0"
  then obtain n where "bit (w AND push_bit i 1) n" by (auto simp: bit_eq_iff)
  then show "bit w i" by (auto simp: bit_simps)
next
  assume "bit w i"
  with assms have "bit (w AND push_bit i 1) i" by (simp add: bit_simps)
  then show "w AND push_bit i 1 \<noteq> 0" by (metis bit_0_eq bot_apply bot_bool_def)
qed

lemma terark_bit_test_wbit [word_nth]:
  "terark_bit_test a i = wbit a i" for a :: "'a::len word list"
  unfolding terark_bit_test_def wbit_def by (rule and_single_bit_neq_0) simp

lemma length_bit_set [len_simps, simp]:
  "length (terark_bit_set0 a i) = length a"
  "length (terark_bit_set1 a i) = length a"
  "length (terark_bit_set_val a i v) = length a"
  by (simp_all add: terark_bit_set0_def terark_bit_set1_def terark_bit_set_val_def)

lemma div_lt_length_iff:
  "0 < L \<Longrightarrow> i div L < length xs \<longleftrightarrow> i < L * length xs"
  by (simp add: div_less_iff_less_mult mult.commute)

lemma mod_eq_div_eq:
  "n div L = i div L \<Longrightarrow> n mod L = i mod L \<Longrightarrow> n = (i::nat)"
  by (metis div_mult_mod_eq)

lemma wbit_set0 [word_nth]:
  fixes a :: "'a::len word list"
  assumes "i < LENGTH('a) * length a"
  shows "wbit (terark_bit_set0 a i) n = (wbit a n \<and> n \<noteq> i)"
  using assms mod_eq_div_eq [of n "LENGTH('a)" i]
  by (auto simp: wbit_def terark_bit_set0_def nth_list_update bit_simps div_lt_length_iff)

lemma wbit_set1 [word_nth]:
  fixes a :: "'a::len word list"
  assumes "i < LENGTH('a) * length a"
  shows "wbit (terark_bit_set1 a i) n = (wbit a n \<or> n = i)"
  using assms mod_eq_div_eq [of n "LENGTH('a)" i]
  by (auto simp: wbit_def terark_bit_set1_def nth_list_update bit_simps div_lt_length_iff)

lemma wbit_set_val [word_nth]:
  fixes a :: "'a::len word list"
  assumes "i < LENGTH('a) * length a"
  shows "wbit (terark_bit_set_val a i v) n = (if n = i then v else wbit a n)"
  using assms by (simp add: terark_bit_set_val_def wbit_set0 wbit_set1)

section \<open>Ranges of bits\<close>

definition bits_range_set0 :: "'a::len word list \<Rightarrow> nat \<Rightarrow> nat \<Rightarrow> 'a word list" where
  "bits_range_set0 data i k =
     (if i = k then data
      else let U = LENGTH('a); j = i div U in
        if j = (k - 1) div U
        then data[j := data ! j AND (NOT (push_bit (i mod U) (- 1)) OR push_bit ((k - 1) mod U) (- 2))]
        else
          let (data, j) = (if i mod U \<noteq> 0
                           then (data[j := data ! j AND NOT (push_bit (i mod U) (- 1))], j + 1)
                           else (data, j));
              data = fold (\<lambda>m ds. ds[m := 0]) [j..<k div U] data;
              j = max j (k div U)
          in if k mod U \<noteq> 0 then data[j := data ! j AND push_bit (k mod U) (- 1)] else data)"

definition bits_range_set1 :: "'a::len word list \<Rightarrow> nat \<Rightarrow> nat \<Rightarrow> 'a word list" where
  "bits_range_set1 data i k =
     (if i = k then data
      else let U = LENGTH('a); j = i div U in
        if j = (k - 1) div U
        then data[j := data ! j OR (push_bit (i mod U) (- 1) AND NOT (push_bit ((k - 1) mod U) (- 2)))]
        else
          let (data, j) = (if i mod U \<noteq> 0
                           then (data[j := data ! j OR push_bit (i mod U) (- 1)], j + 1)
                           else (data, j));
              data = fold (\<lambda>m ds. ds[m := - 1]) [j..<k div U] data;
              j = max j (k div U)
          in if k mod U \<noteq> 0 then data[j := data ! j OR NOT (push_bit (k mod U) (- 1))] else data)"

definition bits_range_set :: "'a::len word list \<Rightarrow> nat \<Rightarrow> nat \<Rightarrow> bool \<Rightarrow> 'a word list" where
  "bits_range_set data i k val = (if val then bits_range_set1 data i k else bits_range_set0 data i k)"

lemma length_bits_range_set [len_simps, simp]:
  "length (bits_range_set0 a i k) = length a"
  "length (bits_range_set1 a i k) = length a"
  "length (bits_range_set a i k v) = length a"
  by (simp_all add: bits_range_set0_def bits_range_set1_def bits_range_set_def Let_def)

text \<open>Positions compare as pairs of a word index and a bit offset.\<close>

lemma pos_less_iff:
  fixes L :: nat
  assumes "0 < L"
  shows "m < n \<longleftrightarrow> m div L < n div L \<or> (m div L = n div L \<and> m mod L < n mod L)"
proof -
  have "m = m div L * L + m mod L" "n = n div L * L + n mod L" by simp_all
  moreover have "m mod L < L" "n mod L < L" using assms by simp_all
  moreover have "a * L + b < c * L + d" if "a < c" "b < L" for a b c d :: nat
  proof -
    have "a * L + b < Suc a * L" using that by simp
    also have "\<dots> \<le> c * L" using that by (intro mult_le_mono1) simp
    finally show ?thesis by simp
  qed
  ultimately show ?thesis by (metis add_less_cancel_left linorder_neqE_nat not_less_iff_gr_or_eq)
qed

lemma pos_le_iff:
  fixes L :: nat
  assumes "0 < L"
  shows "m \<le> n \<longleftrightarrow> m div L < n div L \<or> (m div L = n div L \<and> m mod L \<le> n mod L)"
  using pos_less_iff [OF assms, of n m] by (auto simp: not_less [symmetric])

lemma pos_less_Suc_iff:
  fixes L :: nat
  assumes "0 < L" and "0 < k"
  shows "n < k \<longleftrightarrow> n div L < (k - 1) div L \<or> (n div L = (k - 1) div L \<and> n mod L \<le> (k - 1) mod L)"
  using pos_le_iff [OF assms(1), of n "k - 1"] assms(2) by auto

lemma bit_minus_2_word:
  "bit (- 2 :: 'a::len word) n \<longleftrightarrow> 1 \<le> n \<and> n < LENGTH('a)"
proof -
  have "(- 2 :: 'a word) = NOT 1" by (simp add: not_eq_complement)
  then show ?thesis by (auto simp: bit_simps)
qed

lemma fold_const_nth:
  "i < length xs \<Longrightarrow>
   fold (\<lambda>m ds. ds[m := c]) [j..<k] xs ! i = (if j \<le> i \<and> i < k then c else xs ! i)"
  by (simp add: fold_update_nth)

lemma div_less_if_diff:
  fixes L :: nat
  assumes "i < k" and "i div L \<noteq> (k - 1) div L"
  shows "i div L < k div L"
proof -
  have "i div L \<le> (k - 1) div L" "(k - 1) div L \<le> k div L"
    using assms(1) by (auto intro!: div_le_mono)
  with assms(2) show ?thesis by simp
qed

lemma wbit_bits_range_set0 [word_nth]:
  fixes a :: "'a::len word list"
  assumes "i \<le> k" "n < LENGTH('a) * length a"
  shows "wbit (bits_range_set0 a i k) n \<longleftrightarrow> wbit a n \<and> \<not> (i \<le> n \<and> n < k)"
proof (cases "i = k")
  case True
  then show ?thesis by (simp add: bits_range_set0_def)
next
  case False
  define L where "L = LENGTH('a)"
  have L: "0 < L" by (simp add: L_def)
  define w b where "w = n div L" and "b = n mod L"
  have w: "w < length a" and b: "b < L"
    using assms L by (simp_all add: w_def b_def L_def div_lt_length_iff)
  note fold_defs = L_def [symmetric] w_def [symmetric] b_def [symmetric]
  have ik: "i < k" using assms False by simp
  then have k0: "0 < k" by simp
  show ?thesis
  proof (cases "i div L = (k - 1) div L")
    case True
    then show ?thesis
      unfolding pos_le_iff [OF L, of i n] pos_less_Suc_iff [OF L k0]
      using False w b
      by (cases "w = (k - 1) div L")
        (auto simp: bits_range_set0_def wbit_def Let_def bit_simps bit_minus_2_word fold_defs)
  next
    case diff: False
    then have "i div L < k div L" by (rule div_less_if_diff [OF ik])
    with False diff w b show ?thesis
      unfolding pos_le_iff [OF L, of i n] pos_less_iff [OF L, of n k]
      by (cases "i div L = w")
        (auto simp: bits_range_set0_def wbit_def Let_def nth_list_update bit_simps fold_const_nth fold_defs split: if_splits)
  qed
qed

lemma wbit_bits_range_set1 [word_nth]:
  fixes a :: "'a::len word list"
  assumes "i \<le> k" "n < LENGTH('a) * length a"
  shows "wbit (bits_range_set1 a i k) n \<longleftrightarrow> wbit a n \<or> (i \<le> n \<and> n < k)"
proof (cases "i = k")
  case True
  then show ?thesis by (auto simp: bits_range_set1_def)
next
  case False
  define L where "L = LENGTH('a)"
  have L: "0 < L" by (simp add: L_def)
  define w b where "w = n div L" and "b = n mod L"
  have w: "w < length a" and b: "b < L"
    using assms L by (simp_all add: w_def b_def L_def div_lt_length_iff)
  note fold_defs = L_def [symmetric] w_def [symmetric] b_def [symmetric]
  have ik: "i < k" using assms False by simp
  then have k0: "0 < k" by simp
  show ?thesis
  proof (cases "i div L = (k - 1) div L")
    case True
    then show ?thesis
      unfolding pos_le_iff [OF L, of i n] pos_less_Suc_iff [OF L k0]
      using False w b
      by (cases "w = (k - 1) div L")
        (auto simp: bits_range_set1_def wbit_def Let_def bit_simps bit_minus_2_word fold_defs)
  next
    case diff: False
    then have "i div L < k div L" by (rule div_less_if_diff [OF ik])
    with False diff w b show ?thesis
      unfolding pos_le_iff [OF L, of i n] pos_less_iff [OF L, of n k]
      by (cases "i div L = w")
        (auto simp: bits_range_set1_def wbit_def Let_def nth_list_update bit_simps fold_const_nth fold_defs split: if_splits)
  qed
qed

lemma wbit_bits_range_set [word_nth]:
  fixes a :: "'a::len word list"
  assumes "i \<le> k" "n < LENGTH('a) * length a"
  shows "wbit (bits_range_set a i k v) n \<longleftrightarrow> (if i \<le> n \<and> n < k then v else wbit a n)"
  using assms by (auto simp: bits_range_set_def wbit_bits_range_set0 wbit_bits_range_set1)

end
