(* ===== verification/Bit_Count.thy ===== *)
theory Bit_Count
  imports Bit_Manip
begin

text \<open>
  Counting and selecting bits inside one 64 bit word: the portable branches of
  \<open>fast_popcount64\<close> and \<open>fast_popcount_trail\<close> (\<open>src/terark/bitmanip.hpp\<close>) and of
  \<open>UintSelect1\<close> (\<open>src/terark/succinct/rank_select_inline_slow.hpp\<close>), which add all the
  bits of a word in parallel lanes.  They are proved equal to the obvious specifications
  \<open>popcount\<close> and \<open>is_select\<close>.
\<close>

section \<open>Specification: counting the positions that satisfy a predicate\<close>

definition bcount :: "(nat \<Rightarrow> bool) \<Rightarrow> nat \<Rightarrow> nat \<Rightarrow> nat" where
  "bcount P i j = length (filter P [i..<j])"

definition popcount :: "'a::len word \<Rightarrow> nat" where
  "popcount w = bcount (bit w) 0 LENGTH('a)"

text \<open>\<open>p\<close> is the position of the \<open>r\<close>-th (from 0) element satisfying \<open>P\<close>.\<close>

definition is_select :: "(nat \<Rightarrow> bool) \<Rightarrow> nat \<Rightarrow> nat \<Rightarrow> bool" where
  "is_select P r p \<longleftrightarrow> P p \<and> bcount P 0 p = r"

lemma bcount_empty [simp]: "j \<le> i \<Longrightarrow> bcount P i j = 0"
  by (simp add: bcount_def)

lemma bcount_Suc: "i \<le> j \<Longrightarrow> bcount P i (Suc j) = bcount P i j + of_bool (P j)"
  by (simp add: bcount_def)

lemma bcount_split: "i \<le> j \<Longrightarrow> j \<le> k \<Longrightarrow> bcount P i k = bcount P i j + bcount P j k"
  by (simp add: bcount_def filter_upt_split [of i j k])

lemma bcount_le: "bcount P i j \<le> j - i"
  unfolding bcount_def by (metis length_filter_le length_upt)

lemma bcount_cong:
  "(\<And>n. i \<le> n \<Longrightarrow> n < j \<Longrightarrow> P n = Q n) \<Longrightarrow> bcount P i j = bcount Q i j"
  unfolding bcount_def by (rule arg_cong [where f = length], rule filter_cong) auto

lemma bcount_mono: "i \<le> j \<Longrightarrow> j \<le> k \<Longrightarrow> bcount P i j \<le> bcount P i k"
  using bcount_split [of i j k P] by simp

lemma bcount_shift: "bcount (\<lambda>n. P (n + d)) i j = bcount P (i + d) (j + d)"
proof -
  have "[i + d..<j + d] = map (\<lambda>n. n + d) [i..<j]" by (induction j) auto
  then show ?thesis by (simp add: bcount_def filter_map o_def)
qed

lemma bcount_not: "bcount (\<lambda>n. \<not> P n) i j = (j - i) - bcount P i j"
proof -
  have "length (filter P [i..<j]) + length (filter (\<lambda>n. \<not> P n) [i..<j]) = j - i"
    using sum_length_filter_compl [of P "[i..<j]"] by simp
  then show ?thesis by (simp add: bcount_def)
qed

lemma bcount_add_not: "i \<le> j \<Longrightarrow> bcount P i j + bcount (\<lambda>n. \<not> P n) i j = j - i"
  using bcount_le [of P i j] by (simp add: bcount_not)

lemma is_select_unique:
  assumes "is_select P r p" and "is_select P r q"
  shows "p = q"
proof (rule ccontr)
  assume "p \<noteq> q"
  have less: False if "u < v" "is_select P r u" "is_select P r v" for u v
  proof -
    have "bcount P 0 (Suc u) \<le> bcount P 0 v" using that(1) by (intro bcount_mono) auto
    with that(2,3) show False by (simp add: is_select_def bcount_Suc)
  qed
  from \<open>p \<noteq> q\<close> less [of p q] less [of q p] assms show False by (meson linorder_neqE_nat)
qed

lemma is_select_less: "is_select P r p \<Longrightarrow> p < n \<Longrightarrow> r < bcount P 0 n"
  using bcount_mono [of 0 "Suc p" n P] by (auto simp: is_select_def bcount_Suc)

lemma is_select_bound:
  assumes "is_select P r p" and "r < bcount P 0 n"
  shows "p < n"
proof (rule ccontr)
  assume "\<not> p < n"
  then have "bcount P 0 n \<le> bcount P 0 p" by (intro bcount_mono) auto
  with assms show False by (simp add: is_select_def)
qed

lemma bcount_popcount:
  "m = LENGTH('a) \<Longrightarrow> bcount (bit (w :: 'a::len word)) 0 m = popcount w"
  by (simp add: popcount_def)

lemma popcount_le: "popcount (w :: 'a::len word) \<le> LENGTH('a)"
  using bcount_le [of "bit w" 0 "LENGTH('a)"] by (simp add: popcount_def)

section \<open>Lanes: a number as a vector of k bit fields\<close>

definition lane :: "nat \<Rightarrow> nat \<Rightarrow> nat \<Rightarrow> nat" where
  "lane k x i = take_bit k (drop_bit (k * i) x)"

lemma lane_0: "lane k x 0 = take_bit k x"
  by (simp add: lane_def)

lemma lane_Suc: "lane k x (Suc i) = lane k (drop_bit k x) i"
  by (simp add: lane_def add.commute)

lemma lane_less: "lane k x i < 2 ^ k"
  by (simp add: lane_def)

lemma lane_drop: "lane k (drop_bit (k * j) x) i = lane k x (i + j)"
  by (simp add: lane_def distrib_left add.commute)

lemma lane_and: "lane k (x AND y) i = lane k x i AND lane k y i"
  by (simp add: lane_def)

lemma lane_zero [simp]: "lane k 0 i = 0"
  by (simp add: lane_def)

lemma lane_take: "k * Suc i \<le> m \<Longrightarrow> lane k (take_bit m x) i = lane k x i"
  by (simp add: lane_def drop_bit_take_bit min_absorb1 add_le_imp_le_diff)

lemma lane_beyond: "x < 2 ^ m \<Longrightarrow> m \<le> k * i \<Longrightarrow> lane k x i = 0"
  by (simp add: lane_def drop_bit_eq_div order_less_le_trans power_increasing)

lemma lane_add:
  assumes "\<And>i. lane k x i + lane k y i < 2 ^ k"
  shows "lane k (x + y) i = lane k x i + lane k y i"
  using assms
proof (induction i arbitrary: x y)
  case 0
  have "(x + y) mod 2 ^ k = (x mod 2 ^ k + y mod 2 ^ k) mod 2 ^ k" by (rule mod_add_eq [symmetric])
  also have "\<dots> = x mod 2 ^ k + y mod 2 ^ k"
    using "0" [of 0] by (intro mod_less) (simp add: lane_0 take_bit_eq_mod)
  finally show ?case by (simp only: lane_0 take_bit_eq_mod)
next
  case (Suc i)
  from Suc.prems [of 0] have m: "x mod 2 ^ k + y mod 2 ^ k < 2 ^ k"
    by (simp add: lane_0 take_bit_eq_mod)
  have "(x + y) div 2 ^ k = x div 2 ^ k + y div 2 ^ k"
    using m div_add1_eq [of x y "2 ^ k"] by simp
  then have d: "drop_bit k (x + y) = drop_bit k x + drop_bit k y"
    by (simp add: drop_bit_eq_div)
  show ?case
    unfolding lane_Suc d using Suc.prems [of "Suc _"] by (intro Suc.IH) (simp only: lane_Suc)
qed

lemma lane_sum:
  assumes "finite J" and "\<And>i. (\<Sum>j\<in>J. lane k (f j) i) < 2 ^ k"
  shows "lane k (\<Sum>j\<in>J. f j) i = (\<Sum>j\<in>J. lane k (f j) i)"
  using assms
proof (induction J arbitrary: i)
  case empty
  then show ?case by simp
next
  case (insert a J)
  have b: "(\<Sum>j\<in>J. lane k (f j) i) < 2 ^ k" for i
    using insert.prems [of i] insert.hyps by simp
  have "lane k (f a) i + lane k (sum f J) i < 2 ^ k" for i
    using insert.prems [of i] insert.hyps insert.IH [OF b] by simp
  from lane_add [OF this] insert.hyps insert.IH [OF b] show ?case by simp
qed

lemma lane_eqI:
  assumes "0 < k" and "\<And>i. lane k x i = lane k y i"
  shows "x = y"
proof (rule bit_eqI)
  fix n :: nat
  have "bit z n = bit (lane k z (n div k)) (n mod k)" for z
    using assms(1) by (simp add: lane_def bit_simps add.commute)
  with assms(2) show "bit x n = bit y n" by simp
qed

lemma lane_double: "lane (2 * k) x i = lane k x (2 * i) + 2 ^ k * lane k x (2 * i + 1)"
proof -
  have "take_bit (2 * k) z = take_bit k z + 2 ^ k * take_bit k (drop_bit k z)" for z :: nat
    by (simp add: take_bit_eq_mod drop_bit_eq_div mult_2 power_add mod_mult2_eq)
  from this [of "drop_bit (2 * k * i) x"] show ?thesis
    by (simp add: lane_def algebra_simps)
qed

lemma lane_1: "lane 1 x i = of_bool (bit x i)"
  by (simp add: lane_def take_bit_Suc bit_iff_odd drop_bit_eq_div mod2_eq_if)

section \<open>The parallel sums of the code\<close>

definition swar2 :: "u64 \<Rightarrow> u64" where
  "swar2 x = x - (drop_bit 1 x AND 0x5555555555555555)"

definition swar4 :: "u64 \<Rightarrow> u64" where
  "swar4 a = (a AND 0x3333333333333333) + (drop_bit 2 a AND 0x3333333333333333)"

definition swar8 :: "u64 \<Rightarrow> u64" where
  "swar8 b = (b + drop_bit 4 b) AND 0x0F0F0F0F0F0F0F0F"

definition swar16 :: "u64 \<Rightarrow> u64" where
  "swar16 c = (c + drop_bit 8 c) AND 0x00FF00FF00FF00FF"

definition fast_popcount64 :: "u64 \<Rightarrow> nat" where
  "fast_popcount64 v =
     (let v = swar2 v; v = swar4 v; v = swar8 v in unat (drop_bit 56 (v * 0x0101010101010101)))"

definition fast_popcount_trail :: "u64 \<Rightarrow> nat \<Rightarrow> nat" where
  "fast_popcount_trail x n = fast_popcount64 (x AND NOT (push_bit n (- 1)))"

text \<open>The comparison step of the search: skip \<open>t\<close> ones and \<open>w\<close> bits when the rank allows it.\<close>

definition sel_step :: "nat \<Rightarrow> nat \<Rightarrow> nat \<times> nat \<Rightarrow> nat \<times> nat" where
  "sel_step w t sr = (case sr of (s, r) \<Rightarrow> if t \<le> r then (s + w, r - t) else (s, r))"

definition UintSelect1 :: "u64 \<Rightarrow> nat \<Rightarrow> nat" where
  "UintSelect1 x r =
     (let a = swar2 x; b = swar4 a; c = swar8 b; d = swar16 c;
          (s, r) = sel_step 32 (unat ((drop_bit 16 d + d) AND 255)) (0, r);
          (s, r) = sel_step 16 (unat (drop_bit s d AND 0xFF)) (s, r);
          (s, r) = sel_step 8 (unat (drop_bit s c AND 0xF)) (s, r);
          (s, r) = sel_step 4 (unat (drop_bit s b AND 0x7)) (s, r);
          (s, r) = sel_step 2 (unat (drop_bit s a AND 0x3)) (s, r);
          t = unat (drop_bit s x AND 0x1)
      in if t \<le> r then s + 1 else s)"

subsection \<open>What each lane holds\<close>

lemma lane_const:
  assumes "list_all (\<lambda>i. lane k m i = c) [0..<n]" and "i < n"
  shows "lane k m i = c"
  using assms by (simp add: list_all_iff)

lemma lane_mask2: "i < 32 \<Longrightarrow> lane 2 0x5555555555555555 i = 1"
  by (rule lane_const [of _ _ _ 32]) (simp_all add: lane_def take_bit_eq_mod drop_bit_eq_div upt_conv_Cons)

lemma lane_mask4: "i < 16 \<Longrightarrow> lane 4 0x3333333333333333 i = 3"
  by (rule lane_const [of _ _ _ 16]) (simp_all add: lane_def take_bit_eq_mod drop_bit_eq_div upt_conv_Cons)

lemma lane_mask8: "i < 8 \<Longrightarrow> lane 8 0x0F0F0F0F0F0F0F0F i = 15"
  by (rule lane_const [of _ _ _ 8]) (simp_all add: lane_def take_bit_eq_mod drop_bit_eq_div upt_conv_Cons)

lemma lane_mask16: "i < 4 \<Longrightarrow> lane 16 0x00FF00FF00FF00FF i = 255"
  by (rule lane_const [of _ _ _ 4]) (simp_all add: lane_def take_bit_eq_mod drop_bit_eq_div upt_conv_Cons)

lemma unat_numeral_u64: "unat (numeral n :: u64) = take_bit 64 (numeral n)"
  by (simp add: unsigned_numeral)

lemma unat_less_64: "unat (w :: u64) < 2 ^ 64"
  using unsigned_less [of w] by simp

lemma unat_add_64: "unat (v + w :: u64) = take_bit 64 (unat v + unat w)"
  by (simp add: unat_word_ariths take_bit_eq_mod)

lemma lane_ge_64: "64 \<le> k * i \<Longrightarrow> lane k (unat (w :: u64)) i = 0"
  by (rule lane_beyond [OF unat_less_64])

lemma bit_unat: "bit (unat (w :: u64)) n = bit w n"
  by (simp add: bit_simps)

definition lanes_count :: "nat \<Rightarrow> u64 \<Rightarrow> u64 \<Rightarrow> bool" where
  "lanes_count k v x \<longleftrightarrow> (\<forall>i. lane k (unat v) i = bcount (bit x) (k * i) (k * i + k))"

lemma bcount_ge_64: "64 \<le> i \<Longrightarrow> bcount (bit (x :: u64)) i j = 0"
  unfolding bcount_def by (auto simp: filter_empty_conv dest!: bit_imp_le_length)

lemma unat_and_64: "unat (v AND w :: u64) = unat v AND unat w"
  by (simp add: unsigned_and_eq)

lemma unat_drop_64: "unat (drop_bit n w :: u64) = drop_bit n (unat w)"
  by (simp add: unsigned_drop_bit_eq take_bit_nat_eq_self [OF unat_less_64])

lemma and_mask_lane: "lane (2 * k) z i AND mask k = lane k z (2 * i)"
  by (simp add: lane_def take_bit_eq_mask [symmetric] min_def mult.commute mult.left_commute)

lemma lane_mask_and:
  assumes "lane (2 * k) m i = mask k"
  shows "lane (2 * k) (v AND m) i = lane k v (2 * i)"
  using assms by (simp only: lane_and and_mask_lane)

lemma lane_shift: "lane k (drop_bit k v) i = lane k v (Suc i)"
  using lane_drop [of k 1 v i] by simp

lemma bcount_two: "bcount P i (i + 2 * k) = bcount P i (i + k) + bcount P (i + k) (i + k + k)"
  using bcount_split [of i "i + k" "i + k + k" P] by (simp add: mult_2 add.assoc)

lemma lanes_count_pair:
  assumes "lanes_count k v x"
  shows "lane k (unat v) (2 * i) + lane k (unat v) (Suc (2 * i)) =
           bcount (bit x) (2 * k * i) (2 * k * i + 2 * k)"
proof -
  have e: "k * (2 * i) = 2 * k * i" "k * Suc (2 * i) = 2 * k * i + k" by (simp_all add: algebra_simps)
  have "lane k (unat v) (2 * i) = bcount (bit x) (k * (2 * i)) (k * (2 * i) + k)"
    and "lane k (unat v) (Suc (2 * i)) = bcount (bit x) (k * Suc (2 * i)) (k * Suc (2 * i) + k)"
    using assms unfolding lanes_count_def by blast+
  then show ?thesis unfolding e by (simp only: bcount_two)
qed

lemma lanes_count_bound: "lanes_count k v x \<Longrightarrow> lane k (unat v) i \<le> k"
  using bcount_le [of "bit x" "k * i" "k * i + k"] by (simp add: lanes_count_def)

text \<open>Masking first, as for the lanes that could overflow.\<close>

lemma lanes_count_mask_add:
  assumes v: "lanes_count k v x" and k: "0 < k" and n: "2 * k * n = 64"
    and m: "\<And>i. i < n \<Longrightarrow> lane (2 * k) (unat m) i = mask k"
  shows "lanes_count (2 * k) ((v AND m) + (drop_bit k v AND m)) x"
  unfolding lanes_count_def
proof
  fix i
  let ?s = "(unat v AND unat m) + (drop_bit k (unat v) AND unat m)"
  have u: "unat ((v AND m) + (drop_bit k v AND m)) = take_bit 64 ?s"
    by (simp add: unat_add_64 unat_and_64 unat_drop_64)
  have lo: "lane (2 * k) (unat v AND unat m) j = (if j < n then lane k (unat v) (2 * j) else 0)"
    and hi: "lane (2 * k) (drop_bit k (unat v) AND unat m) j = (if j < n then lane k (unat v) (Suc (2 * j)) else 0)"
    for j
  proof -
    have "lane (2 * k) (unat m) j = 0" if "\<not> j < n"
    proof -
      have "2 * k * n \<le> 2 * k * j" using that by (intro mult_le_mono2) simp
      then show ?thesis by (intro lane_ge_64) (simp add: n)
    qed
    with m [of j] show
      "lane (2 * k) (unat v AND unat m) j = (if j < n then lane k (unat v) (2 * j) else 0)"
      "lane (2 * k) (drop_bit k (unat v) AND unat m) j = (if j < n then lane k (unat v) (Suc (2 * j)) else 0)"
      by (auto simp: lane_mask_and lane_shift) (simp_all add: lane_and)
  qed
  have "lane k (unat v) a + lane k (unat v) b < 2 ^ (2 * k)" for a b
  proof -
    have "lane k (unat v) a + lane k (unat v) b < 2 ^ k + 2 ^ k"
      by (intro add_strict_mono lane_less)
    also have "\<dots> = 2 ^ (k + 1)" by simp
    also have "\<dots> \<le> 2 ^ (2 * k)" using k by (intro power_increasing) auto
    finally show ?thesis .
  qed
  then have s: "lane (2 * k) ?s i = (if i < n then lane k (unat v) (2 * i) + lane k (unat v) (Suc (2 * i)) else 0)"
    by (subst lane_add) (simp_all add: lo hi)
  show "lane (2 * k) (unat ((v AND m) + (drop_bit k v AND m))) i =
          bcount (bit x) (2 * k * i) (2 * k * i + 2 * k)"
  proof (cases "i < n")
    case True
    then have "2 * k * Suc i \<le> 2 * k * n" by (intro mult_le_mono2) simp
    with True show ?thesis unfolding u by (simp add: n lane_take s lanes_count_pair [OF v])
  next
    case False
    then have "2 * k * n \<le> 2 * k * i" by (intro mult_le_mono2) simp
    then show ?thesis by (simp add: n lane_ge_64 bcount_ge_64)
  qed
qed

text \<open>Adding first, for lanes with room for the sum.\<close>

lemma lanes_count_add_mask:
  assumes v: "lanes_count k v x" and k: "2 * k < 2 ^ k" and n: "2 * k * n = 64"
    and m: "\<And>i. i < n \<Longrightarrow> lane (2 * k) (unat m) i = mask k"
  shows "lanes_count (2 * k) ((v + drop_bit k v) AND m) x"
  unfolding lanes_count_def
proof
  fix i
  have "lane k (unat v) j + lane k (drop_bit k (unat v)) j < 2 ^ k" for j
    using lanes_count_bound [OF v, of j] lanes_count_bound [OF v, of "Suc j"] k
    by (simp add: lane_shift)
  then have s: "lane k (unat v + drop_bit k (unat v)) j = lane k (unat v) j + lane k (unat v) (Suc j)" for j
    by (simp add: lane_add lane_shift)
  show "lane (2 * k) (unat ((v + drop_bit k v) AND m)) i =
          bcount (bit x) (2 * k * i) (2 * k * i + 2 * k)"
  proof (cases "i < n")
    case True
    then have le: "2 * k * Suc i \<le> 2 * k * n" by (intro mult_le_mono2) simp
    then have "k * Suc (2 * i) \<le> 64" unfolding n by (simp add: algebra_simps)
    with True show ?thesis
      by (simp add: unat_and_64 unat_add_64 unat_drop_64 lane_mask_and m lane_take s
          lanes_count_pair [OF v])
  next
    case False
    then have "2 * k * n \<le> 2 * k * i" by (intro mult_le_mono2) simp
    then show ?thesis by (simp add: n lane_ge_64 bcount_ge_64)
  qed
qed

lemma lanes_count_swar2: "lanes_count 2 (swar2 x) x"
  unfolding lanes_count_def
proof
  fix i
  let ?m = "0x5555555555555555 :: nat"
  let ?n = "unat x"
  let ?e = "?n AND ?m" and ?o = "drop_bit 1 ?n AND ?m"
  have m0: "lane 2 ?m j = 0" if "\<not> j < 32" for j
    by (rule lane_beyond [of _ 64]) (use that in simp_all)
  have one: "lane 2 z j AND 1 = lane 1 z (2 * j)" for z j
    using and_mask_lane [of 1 z j] by simp
  have n0: "lane 1 ?n j = 0" if "64 \<le> j" for j
    using lane_ge_64 [of 1 j x] that by simp
  have e: "lane 2 ?e j = lane 1 ?n (2 * j)" for j
  proof (cases "j < 32")
    case True
    then show ?thesis by (simp only: lane_and lane_mask2 one)
  next
    case False
    then show ?thesis by (simp add: lane_and m0 n0 [simplified] lane_shift)
  qed
  have o: "lane 2 ?o j = lane 1 ?n (Suc (2 * j))" for j
  proof (cases "j < 32")
    case True
    then show ?thesis by (simp only: lane_and lane_mask2 one lane_shift)
  next
    case False
    then show ?thesis by (simp add: lane_and m0 n0 [simplified] lane_shift)
  qed
  have dbl: "lane 2 z j = lane 1 z (2 * j) + 2 * lane 1 z (Suc (2 * j))" for z j
    using lane_double [of 1 z j] by simp
  have le1: "lane 1 z j \<le> 1" for z j using lane_less [of 1 z j] by simp
  have "lane 2 ?o j + lane 2 ?o j < 2 ^ 2" for j
    using le1 [of ?n "Suc (2 * j)"] unfolding o by simp
  then have oo: "lane 2 (?o + ?o) j = 2 * lane 1 ?n (Suc (2 * j))" for j
    by (subst lane_add) (simp_all only: o mult_2)
  have "lane 2 ?e j + lane 2 (?o + ?o) j < 2 ^ 2" for j
    using le1 [of ?n "2 * j"] le1 [of ?n "Suc (2 * j)"] unfolding e oo by simp
  then have "lane 2 (?e + (?o + ?o)) j = lane 2 ?n j" for j
    by (subst lane_add) (simp_all only: e oo dbl [of ?n])
  then have split: "?e + (?o + ?o) = ?n" by (rule lane_eqI [rotated]) simp
  then have "?o \<le> ?n" by linarith
  moreover have yo: "unat (drop_bit 1 x AND 0x5555555555555555) = ?o"
    by (simp add: unat_and_64 unat_drop_64)
  ultimately have "unat (swar2 x) = ?n - ?o"
    unfolding swar2_def by (subst unat_sub) (simp_all add: word_le_nat_alt)
  then have u: "unat (swar2 x) = ?e + ?o" using split by linarith
  have "lane 2 ?e j + lane 2 ?o j < 2 ^ 2" for j
    using le1 [of ?n "2 * j"] le1 [of ?n "Suc (2 * j)"] unfolding e o by simp
  then have "lane 2 (unat (swar2 x)) i = lane 1 ?n (2 * i) + lane 1 ?n (Suc (2 * i))"
    unfolding u by (subst lane_add) (simp_all only: e o)
  also have "\<dots> = bcount (bit x) (2 * i) (2 * i + 2)"
    by (simp add: lane_1 [unfolded One_nat_def] bit_unat bcount_Suc numeral_2_eq_2)
  finally show "lane 2 (unat (swar2 x)) i = bcount (bit x) (2 * i) (2 * i + 2)" .
qed

lemma lanes_count_swar4: "lanes_count 2 a x \<Longrightarrow> lanes_count 4 (swar4 a) x"
  using lanes_count_mask_add [of 2 a x 16 "0x3333333333333333"] lane_mask4
  by (simp add: swar4_def mask_eq_exp_minus_1)

lemma lanes_count_swar8: "lanes_count 4 b x \<Longrightarrow> lanes_count 8 (swar8 b) x"
  using lanes_count_add_mask [of 4 b x 8 "0x0F0F0F0F0F0F0F0F"] lane_mask8
  by (simp add: swar8_def mask_eq_exp_minus_1)

lemma lanes_count_swar16: "lanes_count 8 c x \<Longrightarrow> lanes_count 16 (swar16 c) x"
  using lanes_count_add_mask [of 8 c x 4 "0x00FF00FF00FF00FF"] lane_mask16
  by (simp add: swar16_def mask_eq_exp_minus_1)

lemmas lanes_count_chain =
  lanes_count_swar2 lanes_count_swar4 lanes_count_swar8 lanes_count_swar16

section \<open>Population count\<close>

lemma sum_bcount: "(\<Sum>i<n. bcount P (k * i) (k * i + k)) = bcount P 0 (k * n)"
proof (induction n)
  case (Suc n)
  then show ?case using bcount_split [of 0 "k * n" "k * n + k" P] by (simp add: add.commute)
qed simp

lemma lane_push: "lane k (push_bit (k * j) v) i = (if j \<le> i then lane k v (i - j) else 0)"
proof -
  have "bit (lane k (push_bit (k * j) v) i) n = bit (if j \<le> i then lane k v (i - j) else 0) n" for n
  proof (cases "j \<le> i")
    case True
    then have le: "k * j \<le> k * i" by (rule mult_le_mono2)
    then have "k * j \<le> k * i + n" "k * i + n - k * j = k * (i - j) + n"
      by (rule trans_le_add1) (use le in \<open>simp add: diff_mult_distrib2\<close>)
    with True show ?thesis by (simp add: lane_def bit_simps)
  next
    case False
    then have "k * Suc i \<le> k * j" by (intro mult_le_mono2) simp
    then show ?thesis using False by (auto simp: lane_def bit_simps)
  qed
  then show ?thesis by (rule bit_eqI)
qed

theorem fast_popcount64_correct: "fast_popcount64 x = popcount x"
proof -
  define v where "v = swar8 (swar4 (swar2 x))"
  have v: "lanes_count 8 v x" unfolding v_def by (intro lanes_count_chain)
  let ?c = "\<Sum>j<8. push_bit (8 * j) (unat v)"
  have c: "unat v * 0x0101010101010101 = ?c"
  proof -
    have "{..<8} = {0, 1, 2, 3, 4, 5, 6, 7 :: nat}" by auto
    then show ?thesis by (simp add: push_bit_eq_mult)
  qed
  have b: "(\<Sum>j<8. lane 8 (push_bit (8 * j) (unat v)) i) < 2 ^ 8" for i
  proof -
    have "(\<Sum>j<8. lane 8 (push_bit (8 * j) (unat v)) i) \<le> (\<Sum>j<8::nat. 8)"
      by (rule sum_mono) (simp add: lane_push lanes_count_bound [OF v])
    then show ?thesis by simp
  qed
  have "fast_popcount64 x = drop_bit 56 (take_bit 64 ?c)"
    by (simp add: fast_popcount64_def Let_def v_def [symmetric] unat_drop_64 unat_word_ariths
        take_bit_eq_mod flip: c)
  also have "\<dots> = lane 8 ?c 7" by (simp add: lane_def drop_bit_take_bit)
  also have "\<dots> = (\<Sum>j<8. lane 8 (push_bit (8 * j) (unat v)) 7)"
    by (rule lane_sum) (use b in simp_all)
  also have "\<dots> = (\<Sum>j<8. lane 8 (unat v) (8 - Suc j))"
    by (rule sum.cong) (auto simp: lane_push)
  also have "\<dots> = (\<Sum>j<8. lane 8 (unat v) j)" by (rule sum.nat_diff_reindex)
  also have "\<dots> = (\<Sum>j<8. bcount (bit x) (8 * j) (8 * j + 8))" using v by (simp add: lanes_count_def)
  also have "\<dots> = popcount x" by (simp add: sum_bcount popcount_def)
  finally show ?thesis .
qed

lemma popcount_and_low:
  assumes "n \<le> 64"
  shows "popcount (x AND mask n :: u64) = bcount (bit x) 0 n"
proof -
  have "bcount (bit (x AND mask n)) 0 64 =
          bcount (bit (x AND mask n)) 0 n + bcount (bit (x AND mask n)) n 64"
    using assms by (intro bcount_split) auto
  also have "bcount (bit (x AND mask n)) n 64 = bcount (\<lambda>_. False) n 64"
    by (rule bcount_cong) (auto simp: bit_simps)
  also have "bcount (bit (x AND mask n)) 0 n = bcount (bit x) 0 n"
    using assms by (intro bcount_cong) (auto simp: bit_simps)
  finally show ?thesis by (simp add: popcount_def bcount_def)
qed

lemma fast_popcount_trail_correct:
  "n < 64 \<Longrightarrow> fast_popcount_trail x n = bcount (bit x) 0 n"
  by (simp add: fast_popcount_trail_def fast_popcount64_correct popcount_and_low)

section \<open>Selection inside a word\<close>

text \<open>
  The search state: \<open>r\<close> more ones to skip from bit \<open>s\<close> on, and the wanted one is among
  the next \<open>w\<close> bits.
\<close>

definition sel_inv :: "u64 \<Rightarrow> nat \<Rightarrow> nat \<Rightarrow> nat \<times> nat \<Rightarrow> bool" where
  "sel_inv x R w sr \<longleftrightarrow>
     (case sr of (s, r) \<Rightarrow> bcount (bit x) 0 s + r = R \<and> r < bcount (bit x) s (s + w) \<and> w dvd s)"

lemma sel_step_inv:
  assumes "sel_inv x R (2 * w) (s, r)" and "t = bcount (bit x) s (s + w)"
  shows "sel_inv x R w (sel_step w t (s, r))"
proof -
  have "bcount (bit x) 0 (s + w) = bcount (bit x) 0 s + bcount (bit x) s (s + w)"
    by (rule bcount_split) auto
  moreover have "w dvd s" using assms(1) by (auto simp: sel_inv_def elim: dvd_mult_right)
  ultimately show ?thesis
    using assms bcount_two [of "bit x" s w] by (auto simp: sel_inv_def sel_step_def)
qed

lemma lanes_count_extract:
  assumes v: "lanes_count k v x" and s: "k dvd s" and m: "m \<le> k" "k < 2 ^ m"
  shows "unat (drop_bit s v AND mask m) = bcount (bit x) s (s + k)"
proof -
  from s obtain i where i: "s = k * i" by (elim dvdE)
  let ?l = "take_bit k (drop_bit s (unat v))"
  have "?l = bcount (bit x) s (s + k)" using v by (simp add: lanes_count_def lane_def i)
  moreover have "?l \<le> k" using lanes_count_bound [OF v, of i] by (simp add: lane_def i)
  then have "take_bit m ?l = ?l" using m by (intro take_bit_nat_eq_self) simp
  moreover have "take_bit m ?l = take_bit m (drop_bit s (unat v))" using m by (simp add: min_def)
  ultimately show ?thesis
    using m by (simp add: take_bit_eq_mask [symmetric] unsigned_take_bit_eq unat_drop_64 min_def)
qed

lemma bit_extract: "unat (drop_bit s x AND mask 1 :: u64) = bcount (bit x) s (s + 1)"
  by (simp add: bcount_Suc and_one_eq bit_iff_odd_drop_bit mod_2_eq_odd)


lemma lanes_count_low32:
  assumes d: "lanes_count 16 d x"
  shows "unat ((drop_bit 16 d + d) AND 255) = bcount (bit x) 0 32"
proof -
  let ?l = "lane 16 (unat d)"
  have pair: "?l 0 + ?l 1 = bcount (bit x) 0 32" using lanes_count_pair [OF d, of 0] by simp
  have le: "?l i \<le> 16" for i using lanes_count_bound [OF d] by simp
  have "lane 16 (drop_bit 16 (unat d)) i + ?l i < 2 ^ 16" for i
    using le [of i] le [of "Suc i"] by (simp add: lane_shift)
  then have s: "lane 16 (drop_bit 16 (unat d) + unat d) 0 = ?l 1 + ?l 0"
    by (subst lane_add) (simp_all add: lane_shift)
  have "unat ((drop_bit 16 d + d) AND mask 8) =
          take_bit 8 (take_bit 16 (drop_bit 16 (unat d) + unat d))"
    by (simp only: take_bit_eq_mask [symmetric] unsigned_take_bit_eq unat_add_64 unat_drop_64)
      (simp add: unat_add_64 unat_drop_64)
  also have "\<dots> = take_bit 8 (?l 1 + ?l 0)" using s by (simp add: lane_0)
  also have "\<dots> = ?l 1 + ?l 0"
    using le [of 0] le [of 1] by (intro take_bit_nat_eq_self) simp
  finally show ?thesis using pair by (simp add: mask_eq_exp_minus_1)
qed

theorem UintSelect1_correct:
  assumes "r < popcount x"
  shows "UintSelect1 x r < 64 \<and> is_select (bit x) r (UintSelect1 x r)"
proof -
  define a where "a = swar2 x"
  define b where "b = swar4 a"
  define c where "c = swar8 b"
  define d where "d = swar16 c"
  have a: "lanes_count 2 a x" and b: "lanes_count 4 b x"
    and c: "lanes_count 8 c x" and d: "lanes_count 16 d x"
    unfolding d_def c_def b_def a_def by (intro lanes_count_chain)+
  note defs = a_def [symmetric] b_def [symmetric] c_def [symmetric] d_def [symmetric]
  obtain s1 r1 where 1: "sel_step 32 (unat ((drop_bit 16 d + d) AND 255)) (0, r) = (s1, r1)"
    by fastforce
  have i1: "sel_inv x r 32 (s1, r1)"
    unfolding 1 [symmetric]
    by (rule sel_step_inv) (use assms in \<open>simp_all add: sel_inv_def popcount_def lanes_count_low32 [OF d]\<close>)
  obtain s2 r2 where 2: "sel_step 16 (unat (drop_bit s1 d AND 0xFF)) (s1, r1) = (s2, r2)"
    by fastforce
  have "unat (drop_bit s1 d AND mask 8) = bcount (bit x) s1 (s1 + 16)"
    by (rule lanes_count_extract [OF d]) (use i1 in \<open>auto simp: sel_inv_def elim: dvd_trans [rotated]\<close>)
  then have i2: "sel_inv x r 16 (s2, r2)"
    unfolding 2 [symmetric] using i1 by (intro sel_step_inv) (simp_all add: mask_eq_exp_minus_1)
  obtain s3 r3 where 3: "sel_step 8 (unat (drop_bit s2 c AND 0xF)) (s2, r2) = (s3, r3)"
    by fastforce
  have "unat (drop_bit s2 c AND mask 4) = bcount (bit x) s2 (s2 + 8)"
    by (rule lanes_count_extract [OF c]) (use i2 in \<open>auto simp: sel_inv_def elim: dvd_trans [rotated]\<close>)
  then have i3: "sel_inv x r 8 (s3, r3)"
    unfolding 3 [symmetric] using i2 by (intro sel_step_inv) (simp_all add: mask_eq_exp_minus_1)
  obtain s4 r4 where 4: "sel_step 4 (unat (drop_bit s3 b AND 0x7)) (s3, r3) = (s4, r4)"
    by fastforce
  have "unat (drop_bit s3 b AND mask 3) = bcount (bit x) s3 (s3 + 4)"
    by (rule lanes_count_extract [OF b]) (use i3 in \<open>auto simp: sel_inv_def elim: dvd_trans [rotated]\<close>)
  then have i4: "sel_inv x r 4 (s4, r4)"
    unfolding 4 [symmetric] using i3 by (intro sel_step_inv) (simp_all add: mask_eq_exp_minus_1)
  obtain s5 r5 where 5: "sel_step 2 (unat (drop_bit s4 a AND 0x3)) (s4, r4) = (s5, r5)"
    by fastforce
  have "unat (drop_bit s4 a AND mask 2) = bcount (bit x) s4 (s4 + 2)"
    by (rule lanes_count_extract [OF a]) (use i4 in \<open>auto simp: sel_inv_def elim: dvd_trans [rotated]\<close>)
  then have i5: "sel_inv x r 2 (s5, r5)"
    unfolding 5 [symmetric] using i4 by (intro sel_step_inv) (simp_all add: mask_eq_exp_minus_1)
  have t: "unat (drop_bit s5 x AND 0x1) = bcount (bit x) s5 (s5 + 1)" using bit_extract by simp
  define s6 where "s6 = fst (sel_step 1 (bcount (bit x) s5 (s5 + 1)) (s5, r5))"
  have "sel_inv x r 1 (sel_step 1 (bcount (bit x) s5 (s5 + 1)) (s5, r5))"
    by (rule sel_step_inv) (use i5 in simp_all)
  then have "is_select (bit x) r s6"
    by (auto simp: sel_inv_def s6_def is_select_def bcount_Suc of_bool_def split: if_splits prod.splits)
  moreover have "UintSelect1 x r = s6"
    unfolding UintSelect1_def Let_def defs 1 2 3 4 5 t prod.case s6_def by (simp add: sel_step_def)
  moreover have "s6 < 64"
    using is_select_bound [OF \<open>is_select (bit x) r s6\<close>, of 64] assms by (simp add: popcount_def)
  ultimately show ?thesis by simp
qed

section \<open>Leading and trailing zeros, and counts over an array of words\<close>

text \<open>
  The compiler builtins behind \<open>fast_ctz\<close> and \<open>fast_clz\<close>; both are undefined at 0, where
  the code does not call them (the model returns the word size).
\<close>

definition fast_ctz :: "'a::len word \<Rightarrow> nat" where
  "fast_ctz x = length (takeWhile (\<lambda>i. \<not> bit x i) [0..<LENGTH('a)])"

definition fast_clz :: "'a::len word \<Rightarrow> nat" where
  "fast_clz x = length (takeWhile (\<lambda>i. \<not> bit x i) (rev [0..<LENGTH('a)]))"

lemma bcount_wbit_word:
  fixes ws :: "'a::len word list"
  assumes "k \<le> LENGTH('a)"
  shows "bcount (wbit ws) (LENGTH('a) * i) (LENGTH('a) * i + k) = bcount (bit (ws ! i)) 0 k"
proof -
  have "bcount (wbit ws) (LENGTH('a) * i) (LENGTH('a) * i + k) =
          bcount (\<lambda>n. wbit ws (n + LENGTH('a) * i)) 0 k"
    by (simp add: bcount_shift add.commute)
  also have "\<dots> = bcount (bit (ws ! i)) 0 k"
    using assms by (intro bcount_cong) (simp add: wbit_def)
  finally show ?thesis .
qed

lemma bcount_wbit_words:
  fixes ws :: "'a::len word list"
  assumes "i \<le> j"
  shows "(\<Sum>k=i..<j. popcount (ws ! k)) = bcount (wbit ws) (LENGTH('a) * i) (LENGTH('a) * j)"
  using assms
proof (induction rule: dec_induct)
  case (step n)
  have "bcount (wbit ws) (LENGTH('a) * i) (LENGTH('a) * Suc n) =
    bcount (wbit ws) (LENGTH('a) * i) (LENGTH('a) * n) +
    bcount (wbit ws) (LENGTH('a) * n) (LENGTH('a) * n + LENGTH('a))"
    using step.hyps by (subst bcount_split [of _ "LENGTH('a) * n"]) (auto simp: add.commute)
  with step show ?case by (simp add: bcount_wbit_word popcount_def)
qed simp

lemma fold_add_sum: "fold (\<lambda>i pc. pc + f i) [i..<j] a = a + (\<Sum>k=i..<j. f k :: nat)"
  by (induction j arbitrary: a) auto

section \<open>Specification: runs\<close>

text \<open>
  \<open>runlen\<close>: how many positions from \<open>i\<close> on, below \<open>j\<close>, satisfy \<open>P\<close> in a row;
  \<open>revlen\<close>: how many do right below \<open>j\<close>.
\<close>

definition runlen :: "(nat \<Rightarrow> bool) \<Rightarrow> nat \<Rightarrow> nat \<Rightarrow> nat" where
  "runlen P i j = length (takeWhile P [i..<j])"

definition revlen :: "(nat \<Rightarrow> bool) \<Rightarrow> nat \<Rightarrow> nat" where
  "revlen P j = length (takeWhile P (rev [0..<j]))"

lemma runlen_le: "runlen P i j \<le> j - i"
  unfolding runlen_def by (metis length_takeWhile_le length_upt)

lemma runlen_in: "k < runlen P i j \<Longrightarrow> P (i + k)"
  using runlen_le [of P i j] nth_length_takeWhile
  by (metis (no_types, lifting) length_takeWhile_le less_le_trans nth_mem nth_upt runlen_def
      set_takeWhileD takeWhile_nth length_upt less_diff_conv add.commute)

lemma runlen_stop: "i + runlen P i j < j \<Longrightarrow> \<not> P (i + runlen P i j)"
  using nth_length_takeWhile [of P "[i..<j]"] by (simp add: runlen_def less_diff_conv add.commute)

lemma runlen_eqI:
  assumes "n \<le> j - i" and "\<And>k. k < n \<Longrightarrow> P (i + k)" and "i + n < j \<Longrightarrow> \<not> P (i + n)"
  shows "runlen P i j = n"
proof (rule linorder_cases [of "runlen P i j" n])
  assume l: "runlen P i j < n"
  then have "i + runlen P i j < j" using assms(1) by simp
  then show ?thesis using runlen_stop assms(2) [OF l] by blast
next
  assume g: "n < runlen P i j"
  then have "i + n < j" using runlen_le [of P i j] by simp
  then show ?thesis using runlen_in [OF g] assms(3) by blast
qed

lemma runlen_empty [simp]: "j \<le> i \<Longrightarrow> runlen P i j = 0"
  by (simp add: runlen_def)

lemma runlen_not: "\<not> P i \<Longrightarrow> runlen P i j = 0"
  by (rule runlen_eqI) auto

lemma runlen_cong: "(\<And>n. i \<le> n \<Longrightarrow> n < j \<Longrightarrow> P n = Q n) \<Longrightarrow> runlen P i j = runlen Q i j"
  unfolding runlen_def by (rule arg_cong [where f = length], rule takeWhile_cong) auto

lemma runlen_shift: "runlen (\<lambda>n. P (n + d)) i j = runlen P (i + d) (j + d)"
proof -
  have "[i + d..<j + d] = map (\<lambda>n. n + d) [i..<j]" by (induction j) auto
  then show ?thesis by (simp add: runlen_def takeWhile_map o_def)
qed

text \<open>A run that stops before \<open>m\<close> is the run up to any later end; one that does not goes on.\<close>

lemma runlen_split:
  assumes "i \<le> m" and "m \<le> j"
  shows "runlen P i j = (if runlen P i m < m - i then runlen P i m else (m - i) + runlen P m j)"
proof (cases "runlen P i m < m - i")
  case True
  then show ?thesis
    using assms runlen_in [of _ P i m] runlen_stop [of i P m] by (intro runlen_eqI) auto
next
  case False
  then have eq: "runlen P i m = m - i" using runlen_le [of P i m] by simp
  have "runlen P i j = (m - i) + runlen P m j"
  proof (rule runlen_eqI)
    show "m - i + runlen P m j \<le> j - i" using runlen_le [of P m j] assms by simp
    show "P (i + k)" if "k < m - i + runlen P m j" for k
    proof (cases "k < m - i")
      case True
      then show ?thesis using runlen_in [of k P i m] eq by simp
    next
      case False
      then have "k - (m - i) < runlen P m j" "m + (k - (m - i)) = i + k" using that assms by linarith+
      then show ?thesis using runlen_in [of "k - (m - i)" P m j] by (simp add: add.commute)
    qed
    show "\<not> P (i + (m - i + runlen P m j))" if "i + (m - i + runlen P m j) < j"
      using runlen_stop [of m P j] that assms by simp
  qed
  with False show ?thesis by simp
qed

lemma runlen_cut: "i \<le> m \<Longrightarrow> m \<le> j \<Longrightarrow> \<not> P m \<Longrightarrow> runlen P i j = runlen P i m"
  using runlen_split [of i m j P] runlen_not [of P m j] runlen_le [of P i m] by auto

lemma fast_ctz_runlen: "fast_ctz (x :: 'a::len word) = runlen (\<lambda>i. \<not> bit x i) 0 LENGTH('a)"
  by (simp add: fast_ctz_def runlen_def)

lemma fast_clz_revlen: "fast_clz (x :: 'a::len word) = revlen (\<lambda>i. \<not> bit x i) LENGTH('a)"
  by (simp add: fast_clz_def revlen_def)

lemma revlen_0 [simp]: "revlen P 0 = 0"
  by (simp add: revlen_def)

lemma revlen_Suc: "revlen P (Suc j) = (if P j then Suc (revlen P j) else 0)"
  by (simp add: revlen_def)

lemma revlen_le: "revlen P j \<le> j"
  by (induction j) (auto simp: revlen_Suc)

lemma revlen_cong: "(\<And>n. n < j \<Longrightarrow> P n = Q n) \<Longrightarrow> revlen P j = revlen Q j"
  by (induction j) (auto simp: revlen_Suc)

lemma revlen_add:
  "revlen P (m + n) =
     (if revlen (\<lambda>k. P (m + k)) n < n then revlen (\<lambda>k. P (m + k)) n else n + revlen P m)"
proof (induction n)
  case (Suc n)
  then show ?case using revlen_le [of "\<lambda>k. P (m + k)" n] by (auto simp: revlen_Suc)
qed simp

lemma revlen_in: "k < revlen P j \<Longrightarrow> P (j - 1 - k)"
proof (induction j arbitrary: k)
  case (Suc j)
  then show ?case by (cases k) (auto simp: revlen_Suc split: if_splits)
qed simp

lemma revlen_stop: "revlen P j < j \<Longrightarrow> \<not> P (j - 1 - revlen P j)"
  by (induction j) (auto simp: revlen_Suc)

section \<open>Properties\<close>

text \<open>C34: The portable \<open>fast_popcount64\<close>, which adds the bits in parallel lanes with wrapping
  64 bit arithmetic, returns the number of one bits of every word, and \<open>fast_popcount_trail\<close>
  the number of one bits below a position.\<close>

theorem popcount_lanes_correct:
  "fast_popcount64 x = length (filter (bit x) [0..<64]) \<and>
   (n < 64 \<longrightarrow> fast_popcount_trail x n = length (filter (bit x) [0..<n]))"
  by (auto simp: fast_popcount64_correct fast_popcount_trail_correct popcount_def bcount_def)

theorem popcount_lanes_correct_witness:
  "fast_popcount64 0xF0F1 = length (filter (bit (0xF0F1 :: u64)) [0..<64]) \<and>
   fast_popcount_trail 0xF0F1 13 = length (filter (bit (0xF0F1 :: u64)) [0..<13])"
  using popcount_lanes_correct [of "0xF0F1" 13] by simp

text \<open>The portable \<open>UintSelect1\<close>, a branching search over the lane counts, returns the
  position of the \<open>r\<close>-th one bit (from 0) of every word that has more than \<open>r\<close> of them.\<close>

theorem UintSelect1_selects:
  assumes "r < fast_popcount64 x"
  shows "UintSelect1 x r < 64 \<and> bit x (UintSelect1 x r) \<and>
    length (filter (bit x) [0..<UintSelect1 x r]) = r"
  using UintSelect1_correct [of r x] assms by (simp add: fast_popcount64_correct is_select_def bcount_def)

theorem UintSelect1_selects_witness:
  "UintSelect1 0x8000000000000010 1 < 64 \<and> bit (0x8000000000000010 :: u64) (UintSelect1 0x8000000000000010 1) \<and>
    length (filter (bit (0x8000000000000010 :: u64)) [0..<UintSelect1 0x8000000000000010 1]) = 1"
  by (rule UintSelect1_selects) code_simp

end
