(* ===== verification/Febitvec.thy ===== *)
theory Febitvec
  imports Bit_Count
begin

text \<open>
  The growable bit vector \<open>febitvec\<close> of \<open>src/terark/bitmap.hpp\<close> and
  \<open>src/terark/bitmap.cpp\<close>: its memory is an array of 64 bit words of which the first
  \<open>m_size\<close> bits are the value; the bits up to \<open>m_capacity\<close> are allocated and unspecified.
  Every member function that allocates takes the heap and returns a result, the others return the
  new state.  The abstraction \<open>febitvec_bits\<close> is the list of the value's bits.
\<close>

section \<open>State\<close>

text \<open>\<open>m_null\<close> says that the pointer \<open>m_words\<close> is NULL; the list is then empty.\<close>

record febitvec =
  m_words :: "u64 list"
  m_null :: bool
  m_size :: nat
  m_capacity :: nat

definition WordBits :: nat where "WordBits = 64"

definition AllocUnitBits :: nat where "AllocUnitBits = 64"

definition febitvec_ok :: "('z) febitvec_scheme \<Rightarrow> bool" where
  "febitvec_ok v \<longleftrightarrow>
     WordBits * length (m_words v) = m_capacity v \<and> m_size v \<le> m_capacity v \<and>
     (m_null v \<longrightarrow> m_words v = [])"

definition febitvec_bits :: "('z) febitvec_scheme \<Rightarrow> bool list" where
  "febitvec_bits v = map (wbit (m_words v)) [0..<m_size v]"

definition num_words :: "('z) febitvec_scheme \<Rightarrow> nat" where
  "num_words v = (m_size v + WordBits - 1) div WordBits"

definition febitvec_mem_size :: "('z) febitvec_scheme \<Rightarrow> nat" where
  "febitvec_mem_size v = align_up (m_size v) AllocUnitBits div 8"

section \<open>Allocation\<close>

definition febitvec_release :: "('z) febitvec_scheme \<Rightarrow> ('z) febitvec_scheme" where
  "febitvec_release v = v\<lparr>m_words := [], m_null := True, m_size := 0, m_capacity := 0\<rparr>"

definition febitvec_null :: febitvec where
  "febitvec_null = \<lparr>m_words = [], m_null = True, m_size = 0, m_capacity = 0\<rparr>"

text \<open>\<open>free\<close> of the words, then the release of the pointer.\<close>

definition febitvec_clear :: "('z) febitvec_scheme \<Rightarrow> ('z) febitvec_scheme" where
  "febitvec_clear v = febitvec_release v"

definition febitvec_erase_all :: "('z) febitvec_scheme \<Rightarrow> ('z) febitvec_scheme" where
  "febitvec_erase_all v = v\<lparr>m_size := 0\<rparr>"

text \<open>Under valgrind the words past the used ones are zeroed.\<close>

definition valgrind_fill :: "heap_env \<Rightarrow> nat \<Rightarrow> nat \<Rightarrow> u64 list \<Rightarrow> u64 list" where
  "valgrind_fill env sz newcap q =
     (if has_valgrind env
      then fold (\<lambda>i ws. ws[i := 0]) [ceiled_div sz WordBits..<newcap div WordBits] q
      else q)"

definition febitvec_reserve ::
  "heap_env \<Rightarrow> ('z) febitvec_scheme \<Rightarrow> nat \<Rightarrow> ('z) febitvec_scheme res" where
  "febitvec_reserve env v newcap =
     (let newcap = align_up newcap AllocUnitBits in
      if newcap > m_capacity v
      then case realloc_words env (m_words v) (newcap div 8) of
             None \<Rightarrow> Inl Bad_alloc
           | Some q \<Rightarrow> Inr (v\<lparr>m_words := valgrind_fill env (m_size v) newcap q,
                             m_null := False, m_capacity := newcap\<rparr>)
      else Inr v)"

text \<open>
  \<open>while (newcap < newsize) newcap *= 2\<close>: the start is at least 64, so the guard
  \<open>0 < newcap\<close>, which only makes the recursion total, always holds.
\<close>

function double_cap_until :: "nat \<Rightarrow> nat \<Rightarrow> nat" where
  "double_cap_until newcap newsize =
     (if newcap < newsize \<and> 0 < newcap then double_cap_until (newcap * 2) newsize else newcap)"
  by pat_completeness auto
termination
  by (relation "measure (\<lambda>(c, n). n - c)") auto

declare double_cap_until.simps [simp del]

definition febitvec_resize_no_init ::
  "heap_env \<Rightarrow> ('z) febitvec_scheme \<Rightarrow> nat \<Rightarrow> ('z) febitvec_scheme res" where
  "febitvec_resize_no_init env v newsize =
     (if m_capacity v < newsize
      then
        let newcap = double_cap_until (max (m_capacity v) AllocUnitBits) newsize in
        case realloc_words env (m_words v) (newcap div 8) of
          None \<Rightarrow> Inl Bad_alloc
        | Some q \<Rightarrow> Inr (v\<lparr>m_words := valgrind_fill env (m_size v) newcap q,
                          m_null := False, m_capacity := newcap, m_size := newsize\<rparr>)
      else Inr (v\<lparr>m_size := newsize\<rparr>))"

definition febitvec_resize ::
  "heap_env \<Rightarrow> ('z) febitvec_scheme \<Rightarrow> nat \<Rightarrow> bool \<Rightarrow> ('z) febitvec_scheme res" where
  "febitvec_resize env v newsize val =
     (let oldsize = m_size v in
      if oldsize = newsize then Inr v
      else bind_res (febitvec_resize_no_init env v newsize) (\<lambda>v.
        Inr (if oldsize < newsize
             then v\<lparr>m_words := bits_range_set (m_words v) oldsize newsize val\<rparr> else v)))"

definition febitvec_grow ::
  "heap_env \<Rightarrow> ('z) febitvec_scheme \<Rightarrow> nat \<Rightarrow> bool \<Rightarrow> ('z) febitvec_scheme res" where
  "febitvec_grow env v cnt val = febitvec_resize env v (m_size v + cnt) val"

definition febitvec_fill :: "('z) febitvec_scheme \<Rightarrow> bool \<Rightarrow> ('z) febitvec_scheme" where
  "febitvec_fill v val =
     v\<lparr>m_words := fold (\<lambda>i ws. ws[i := (if val then - 1 else 0)]) [0..<num_words v] (m_words v)\<rparr>"

definition febitvec_resize_fill ::
  "heap_env \<Rightarrow> ('z) febitvec_scheme \<Rightarrow> nat \<Rightarrow> bool \<Rightarrow> ('z) febitvec_scheme res" where
  "febitvec_resize_fill env v newsize val =
     bind_res (febitvec_resize_no_init env v newsize) (\<lambda>v. Inr (febitvec_fill v val))"

text \<open>
  An empty vector is freed and then falls through to \<open>realloc(NULL, 0)\<close>; a NULL result of
  \<open>realloc\<close> aborts.
\<close>

definition febitvec_shrink_to_fit ::
  "heap_env \<Rightarrow> ('z) febitvec_scheme \<Rightarrow> ('z) febitvec_scheme res" where
  "febitvec_shrink_to_fit env v =
     (if m_null v then Inr v
      else
        let v = (if m_size v = 0 then v\<lparr>m_words := [], m_null := True, m_capacity := 0\<rparr> else v);
            ceiled_bits = align_up (m_size v) AllocUnitBits
        in case realloc_words env (m_words v) (ceiled_bits div 8) of
             None \<Rightarrow> Inl Abort
           | Some p \<Rightarrow> Inr (v\<lparr>m_words := p, m_null := False, m_capacity := ceiled_bits\<rparr>))"

section \<open>Constructors and assignment\<close>

definition febitvec_init :: "heap_env \<Rightarrow> nat \<Rightarrow> bool \<Rightarrow> febitvec res" where
  "febitvec_init env bits val = febitvec_resize env febitvec_null bits val"

definition febitvec_init_padding :: "heap_env \<Rightarrow> nat \<Rightarrow> bool \<Rightarrow> bool \<Rightarrow> febitvec res" where
  "febitvec_init_padding env bits val padding =
     bind_res (febitvec_resize_no_init env febitvec_null bits) (\<lambda>v.
       let nWords = num_words v;
           ws = fold (\<lambda>i ws. ws[i := (if val then - 1 else 0)]) [0..<nWords] (m_words v)
       in Inr (v\<lparr>m_words :=
            (if bits \<noteq> m_capacity v \<and> padding \<noteq> val
             then if padding
                  then ws[nWords - 1 := NOT (drop_bit (m_capacity v - bits) (- 1) - 1)]
                  else ws[nWords - 1 := drop_bit (m_capacity v - bits) (- 1) - 1]
             else ws)\<rparr>))"

definition febitvec_init_no_init :: "heap_env \<Rightarrow> nat \<Rightarrow> febitvec res" where
  "febitvec_init_no_init env bits = febitvec_resize_no_init env febitvec_null bits"

definition febitvec_init_reserve :: "heap_env \<Rightarrow> nat \<Rightarrow> febitvec res" where
  "febitvec_init_reserve env bits = febitvec_reserve env febitvec_null bits"

text \<open>The copy constructor: \<open>AutoFree\<close> allocates nothing for no words.\<close>

definition febitvec_copy_init :: "heap_env \<Rightarrow> ('z) febitvec_scheme \<Rightarrow> febitvec res" where
  "febitvec_copy_init env y =
     (let nWords = align_up (m_size y) AllocUnitBits div WordBits in
      if nWords = 0
      then Inr \<lparr>m_words = [], m_null = True, m_size = m_size y, m_capacity = WordBits * nWords\<rparr>
      else if alloc_ok env (8 * nWords)
      then Inr \<lparr>m_words = take nWords (m_words y), m_null = False, m_size = m_size y,
                m_capacity = WordBits * nWords\<rparr>
      else Inl Bad_alloc)"

text \<open>
  Copy assignment clears the target before it reads the source.  The second definition is the call
  with the same object on both sides, for which the code has no check.
\<close>

definition febitvec_copy_assign :: "heap_env \<Rightarrow> febitvec \<Rightarrow> febitvec \<Rightarrow> febitvec res" where
  "febitvec_copy_assign env x y = febitvec_copy_init env y"

definition febitvec_copy_assign_self :: "heap_env \<Rightarrow> febitvec \<Rightarrow> febitvec res" where
  "febitvec_copy_assign_self env x = (let x = febitvec_clear x in febitvec_copy_init env x)"

text \<open>Moves return the new target and the emptied source.\<close>

definition febitvec_move_init :: "febitvec \<Rightarrow> febitvec \<times> febitvec" where
  "febitvec_move_init y =
     (\<lparr>m_words = m_words y, m_null = m_null y, m_size = m_size y, m_capacity = m_capacity y\<rparr>,
      febitvec_release y)"

definition febitvec_move_assign :: "febitvec \<Rightarrow> febitvec \<Rightarrow> febitvec \<times> febitvec" where
  "febitvec_move_assign x y =
     (x\<lparr>m_words := m_words y, m_null := m_null y, m_size := m_size y, m_capacity := m_capacity y\<rparr>,
      febitvec_release y)"

definition febitvec_swap :: "febitvec \<Rightarrow> febitvec \<Rightarrow> febitvec \<times> febitvec" where
  "febitvec_swap x y = (y, x)"

text \<open>The sub-range constructor: copy the covering words, then shift them down.\<close>

definition febitvec_init_range ::
  "heap_env \<Rightarrow> ('z) febitvec_scheme \<Rightarrow> nat \<Rightarrow> nat \<Rightarrow> febitvec res" where
  "febitvec_init_range env y beg len =
     (if beg + len > m_size y then Inl Out_of_range
      else if len = 0 then Inr febitvec_null
      else
        let begBlock = beg div WordBits;
            endBlock = (beg + len + WordBits - 1) div WordBits;
            numBlock = endBlock - begBlock;
            cap = align_up (WordBits * numBlock) AllocUnitBits;
            capBlock = cap div WordBits
        in if \<not> alloc_ok env (8 * capBlock) then Inl Bad_alloc
        else
          let bits = map (\<lambda>i. if i < numBlock then m_words y ! (begBlock + i) else fresh env i) [0..<capBlock];
              rightShift = beg mod WordBits;
              bits = (if rightShift \<noteq> 0
                then let leftShift = WordBits - rightShift;
                         bits = fold (\<lambda>i p. p[i := drop_bit rightShift (p ! i) OR push_bit leftShift (p ! (i + 1))])
                                  [0..<numBlock - 1] bits
                     in bits[numBlock - 1 := drop_bit rightShift (bits ! (numBlock - 1))]
                else bits)
          in Inr \<lparr>m_words = bits, m_null = False, m_size = len, m_capacity = cap\<rparr>)"

section \<open>Single bits\<close>

definition febitvec_is1 :: "('z) febitvec_scheme \<Rightarrow> nat \<Rightarrow> bool" where
  "febitvec_is1 v i = terark_bit_test (m_words v) i"

definition febitvec_is0 :: "('z) febitvec_scheme \<Rightarrow> nat \<Rightarrow> bool" where
  "febitvec_is0 v i = (\<not> terark_bit_test (m_words v) i)"

definition febitvec_back :: "('z) febitvec_scheme \<Rightarrow> bool" where
  "febitvec_back v = terark_bit_test (m_words v) (m_size v - 1)"

definition febitvec_set0 :: "('z) febitvec_scheme \<Rightarrow> nat \<Rightarrow> ('z) febitvec_scheme" where
  "febitvec_set0 v i = v\<lparr>m_words := terark_bit_set0 (m_words v) i\<rparr>"

definition febitvec_set1 :: "('z) febitvec_scheme \<Rightarrow> nat \<Rightarrow> ('z) febitvec_scheme" where
  "febitvec_set1 v i = v\<lparr>m_words := terark_bit_set1 (m_words v) i\<rparr>"

definition febitvec_set :: "('z) febitvec_scheme \<Rightarrow> nat \<Rightarrow> bool \<Rightarrow> ('z) febitvec_scheme" where
  "febitvec_set v i val = (if val then febitvec_set1 v i else febitvec_set0 v i)"

definition febitvec_push_back_slow_path ::
  "heap_env \<Rightarrow> ('z) febitvec_scheme \<Rightarrow> bool \<Rightarrow> ('z) febitvec_scheme res" where
  "febitvec_push_back_slow_path env v val =
     bind_res (febitvec_resize_no_init env v (m_size v + 1)) (\<lambda>v.
       Inr (v\<lparr>m_words := (m_words v)[m_size v div WordBits := (if val then 1 else 0)]\<rparr>))"

definition febitvec_push_back ::
  "heap_env \<Rightarrow> ('z) febitvec_scheme \<Rightarrow> bool \<Rightarrow> ('z) febitvec_scheme res" where
  "febitvec_push_back env v val =
     (if m_size v < m_capacity v
      then Inr (febitvec_set (v\<lparr>m_size := m_size v + 1\<rparr>) (m_size v) val)
      else febitvec_push_back_slow_path env v val)"

definition febitvec_unchecked_push_back :: "('z) febitvec_scheme \<Rightarrow> bool \<Rightarrow> ('z) febitvec_scheme" where
  "febitvec_unchecked_push_back v val = febitvec_set (v\<lparr>m_size := m_size v + 1\<rparr>) (m_size v) val"

definition febitvec_pop_back :: "('z) febitvec_scheme \<Rightarrow> ('z) febitvec_scheme" where
  "febitvec_pop_back v = v\<lparr>m_size := m_size v - 1\<rparr>"

definition febitvec_ensure_set0 ::
  "heap_env \<Rightarrow> ('z) febitvec_scheme \<Rightarrow> nat \<Rightarrow> ('z) febitvec_scheme res" where
  "febitvec_ensure_set0 env v i =
     (if i < m_size v then Inr (v\<lparr>m_words := terark_bit_set0 (m_words v) i\<rparr>)
      else febitvec_resize env v (i + 1) False)"

definition febitvec_ensure_set1_slow_path ::
  "heap_env \<Rightarrow> ('z) febitvec_scheme \<Rightarrow> nat \<Rightarrow> ('z) febitvec_scheme res" where
  "febitvec_ensure_set1_slow_path env v i =
     bind_res (febitvec_resize env v (i + 1) False) (\<lambda>v.
       Inr (v\<lparr>m_words := terark_bit_set1 (m_words v) i\<rparr>))"

definition febitvec_ensure_set1 ::
  "heap_env \<Rightarrow> ('z) febitvec_scheme \<Rightarrow> nat \<Rightarrow> ('z) febitvec_scheme res" where
  "febitvec_ensure_set1 env v i =
     (if i < m_size v then Inr (v\<lparr>m_words := terark_bit_set1 (m_words v) i\<rparr>)
      else febitvec_ensure_set1_slow_path env v i)"

definition febitvec_ensure_set ::
  "heap_env \<Rightarrow> ('z) febitvec_scheme \<Rightarrow> nat \<Rightarrow> bool \<Rightarrow> ('z) febitvec_scheme res" where
  "febitvec_ensure_set env v i val =
     (if val then febitvec_ensure_set1 env v i else febitvec_ensure_set0 env v i)"

definition febitvec_fast_ensure_set1_slow_path ::
  "heap_env \<Rightarrow> ('z) febitvec_scheme \<Rightarrow> nat \<Rightarrow> ('z) febitvec_scheme res" where
  "febitvec_fast_ensure_set1_slow_path env v i =
     (let oldcap = m_capacity v in
      bind_res (febitvec_resize_no_init env v (i + 1)) (\<lambda>v.
        Inr (v\<lparr>m_words := terark_bit_set1 (bits_range_set0 (m_words v) oldcap (m_capacity v)) i\<rparr>)))"

definition febitvec_fast_ensure_set1 ::
  "heap_env \<Rightarrow> ('z) febitvec_scheme \<Rightarrow> nat \<Rightarrow> ('z) febitvec_scheme res" where
  "febitvec_fast_ensure_set1 env v i =
     (if i < m_capacity v
      then let v = (if m_size v \<le> i then v\<lparr>m_size := i + 1\<rparr> else v)
           in Inr (v\<lparr>m_words := terark_bit_set1 (m_words v) i\<rparr>)
      else febitvec_fast_ensure_set1_slow_path env v i)"

section \<open>Appending\<close>

text \<open>The copy loop of \<open>append\<close>, from index \<open>i\<close> up to \<open>n\<close>.\<close>

function append_loop ::
  "heap_env \<Rightarrow> ('y) febitvec_scheme \<Rightarrow> nat \<Rightarrow> nat \<Rightarrow> ('z) febitvec_scheme \<Rightarrow> ('z) febitvec_scheme res" where
  "append_loop env y i n v =
     (if i < n then bind_res (febitvec_push_back env v (febitvec_is1 y i)) (append_loop env y (i + 1) n)
      else Inr v)"
  by pat_completeness auto
termination
  by (relation "measure (\<lambda>(env, y, i, n, v). n - i)") auto

declare append_loop.simps [simp del]

definition febitvec_append ::
  "heap_env \<Rightarrow> ('z) febitvec_scheme \<Rightarrow> ('y) febitvec_scheme \<Rightarrow> ('z) febitvec_scheme res" where
  "febitvec_append env v y = append_loop env y 0 (m_size y) v"

definition febitvec_append_range ::
  "heap_env \<Rightarrow> ('z) febitvec_scheme \<Rightarrow> ('y) febitvec_scheme \<Rightarrow> nat \<Rightarrow> nat \<Rightarrow> ('z) febitvec_scheme res" where
  "febitvec_append_range env v y beg len = append_loop env y beg (beg + len) v"

section \<open>Basic facts\<close>

lemma length_febitvec_bits [simp, len_simps]: "length (febitvec_bits v) = m_size v"
  by (simp add: febitvec_bits_def)

lemma febitvec_bits_nth [word_nth]: "i < m_size v \<Longrightarrow> febitvec_bits v ! i = wbit (m_words v) i"
  by (simp add: febitvec_bits_def)

lemma febitvec_bits_eqI:
  "m_size v = length bs \<Longrightarrow> (\<And>i. i < m_size v \<Longrightarrow> wbit (m_words v) i = bs ! i) \<Longrightarrow> febitvec_bits v = bs"
  by (auto intro!: nth_equalityI simp: febitvec_bits_nth)

lemma febitvec_ok_bound:
  "febitvec_ok v \<Longrightarrow> i < m_size v \<Longrightarrow> i < 64 * length (m_words v)"
  by (simp add: febitvec_ok_def WordBits_def)

lemma febitvec_ok_cap: "febitvec_ok v \<Longrightarrow> m_capacity v = 64 * length (m_words v)"
  by (simp add: febitvec_ok_def WordBits_def)

lemma num_words_le: "febitvec_ok v \<Longrightarrow> num_words v \<le> length (m_words v)"
  by (auto simp: febitvec_ok_def num_words_def WordBits_def)

lemma double_cap_until_ge: "0 < c \<Longrightarrow> n \<le> double_cap_until c n"
  by (induction c n rule: double_cap_until.induct) (subst double_cap_until.simps, simp)

lemma double_cap_until_ge_start: "c \<le> double_cap_until c n"
proof (induction c n rule: double_cap_until.induct)
  case (1 c n)
  then show ?case by (subst double_cap_until.simps) (auto dest: order_trans [of c "c * 2"])
qed

lemma double_cap_until_dvd: "d dvd c \<Longrightarrow> d dvd double_cap_until c n"
proof (induction c n rule: double_cap_until.induct)
  case (1 c n)
  then show ?case by (subst double_cap_until.simps) auto
qed

lemma double_cap_until_less: "0 < c \<Longrightarrow> c < 2 * n \<Longrightarrow> double_cap_until c n < 2 * n"
proof (induction c n rule: double_cap_until.induct)
  case (1 c n)
  then show ?case by (subst double_cap_until.simps) auto
qed

text \<open>What reallocation does to the bits.\<close>

lemma valgrind_fill_nth:
  "i < length q \<Longrightarrow> valgrind_fill env sz newcap q ! i =
     (if has_valgrind env \<and> ceiled_div sz 64 \<le> i \<and> i < newcap div 64 then 0 else q ! i)"
  by (simp add: valgrind_fill_def fold_update_nth WordBits_def)

lemma length_valgrind_fill [simp]: "length (valgrind_fill env sz newcap q) = length q"
  by (simp add: valgrind_fill_def)

lemma ceiled_div_gt: "n < sz \<Longrightarrow> n div 64 < ceiled_div sz 64"
  unfolding ceiled_div_def by linarith

lemma realloc_bits:
  assumes "realloc_words env ws (newcap div 8) = Some q" and "64 dvd newcap"
    and "64 * length ws \<le> newcap"
  shows "64 * length (valgrind_fill env sz newcap q) = newcap"
    and "n < sz \<Longrightarrow> n < 64 * length ws \<Longrightarrow> wbit (valgrind_fill env sz newcap q) n = wbit ws n"
    and "sz \<le> n \<Longrightarrow> n < 64 * length ws \<Longrightarrow> \<not> wbit ws n \<Longrightarrow> \<not> wbit (valgrind_fill env sz newcap q) n"
proof -
  have len: "length q = newcap div 64"
    using assms by (auto simp: realloc_words_Some div_mult2_eq [symmetric])
  then show "64 * length (valgrind_fill env sz newcap q) = newcap" using assms(2) by simp
  have idx: "n div 64 < length q" "q ! (n div 64) = ws ! (n div 64)" if "n < 64 * length ws"
    using that assms len by (auto simp: realloc_words_Some div_mult2_eq [symmetric] div_less_iff_less_mult nth_map_upt)
  show "wbit (valgrind_fill env sz newcap q) n = wbit ws n" if "n < sz" "n < 64 * length ws"
    using idx [OF that(2)] ceiled_div_gt [OF that(1)] by (simp add: wbit_def valgrind_fill_nth)
  show "\<not> wbit (valgrind_fill env sz newcap q) n"
    if "sz \<le> n" "n < 64 * length ws" "\<not> wbit ws n"
    using idx [OF that(2)] that(3) by (simp add: wbit_def valgrind_fill_nth)
qed

section \<open>Every operation keeps the representation invariant and has its effect on the bits\<close>

lemma febitvec_reserve_ok [inv_intros]:
  assumes "febitvec_ok v" and "febitvec_reserve env v n = Inr v'"
  shows "febitvec_ok v'" and "m_size v' = m_size v" and "n \<le> m_capacity v'"
    and "i < m_size v \<Longrightarrow> wbit (m_words v') i = wbit (m_words v) i"
proof -
  let ?c = "align_up n 64"
  note cap = febitvec_ok_cap [OF assms(1)]
  have ge: "n \<le> ?c" by (rule align_up_ge) simp
  have d: "64 dvd ?c" by simp
  show "febitvec_ok v'" and "m_size v' = m_size v" and "n \<le> m_capacity v'"
    using assms ge cap realloc_bits(1) [OF _ d]
    by (auto simp: febitvec_reserve_def Let_def AllocUnitBits_def febitvec_ok_def WordBits_def
             split: if_splits option.splits)
  show "wbit (m_words v') i = wbit (m_words v) i" if "i < m_size v"
    using assms febitvec_ok_bound [OF assms(1) that] cap that
      realloc_bits(2) [OF _ d]
    by (auto simp: febitvec_reserve_def Let_def AllocUnitBits_def split: if_splits option.splits)
qed

lemma febitvec_resize_no_init_ok [inv_intros]:
  assumes "febitvec_ok v" and "febitvec_resize_no_init env v n = Inr v'"
  shows "febitvec_ok v'" and "m_size v' = n" and "m_capacity v \<le> m_capacity v'"
    and "i < m_size v \<Longrightarrow> wbit (m_words v') i = wbit (m_words v) i"
    and "m_size v \<le> i \<Longrightarrow> i < m_capacity v \<Longrightarrow> \<not> wbit (m_words v) i \<Longrightarrow> \<not> wbit (m_words v') i"
proof -
  note cap = febitvec_ok_cap [OF assms(1)]
  have le: "m_size v \<le> m_capacity v" using assms(1) by (simp add: febitvec_ok_def)
  have *: "febitvec_ok v' \<and> m_size v' = n \<and> m_capacity v \<le> m_capacity v' \<and>
    (i < m_size v \<longrightarrow> wbit (m_words v') i = wbit (m_words v) i) \<and>
    (m_size v \<le> i \<longrightarrow> i < m_capacity v \<longrightarrow> \<not> wbit (m_words v) i \<longrightarrow> \<not> wbit (m_words v') i)" for i
  proof (cases "m_capacity v < n")
    case False
    with assms show ?thesis by (auto simp: febitvec_resize_no_init_def febitvec_ok_def)
  next
    case True
    let ?c = "double_cap_until (max (m_capacity v) 64) n"
    have ge: "n \<le> ?c" by (rule double_cap_until_ge) simp
    have "max (m_capacity v) 64 \<le> ?c" by (rule double_cap_until_ge_start)
    then have cge: "64 * length (m_words v) \<le> ?c" using cap by simp
    have d: "64 dvd ?c" by (rule double_cap_until_dvd) (simp add: cap max_def)
    obtain q where q: "realloc_words env (m_words v) (?c div 8) = Some q"
      and v': "v' = v\<lparr>m_words := valgrind_fill env (m_size v) ?c q, m_null := False,
                       m_capacity := ?c, m_size := n\<rparr>"
      using assms(2) True
      by (auto simp: febitvec_resize_no_init_def Let_def AllocUnitBits_def split: option.splits)
    note r = realloc_bits [OF q d cge]
    show ?thesis using r(1) [of "m_size v"] r(2,3) [where sz = "m_size v" and n = i] ge cge cap le
      unfolding v' febitvec_ok_def WordBits_def by simp
  qed
  show "febitvec_ok v'" and "m_size v' = n" and "m_capacity v \<le> m_capacity v'" using * by simp_all
  show "wbit (m_words v') i = wbit (m_words v) i" if "i < m_size v" using * that by blast
  show "\<not> wbit (m_words v') i" if "m_size v \<le> i" "i < m_capacity v" "\<not> wbit (m_words v) i"
    using * that by blast
qed

text \<open>Allocation is the only way to fail, and with memory granted it does not.\<close>

lemma realloc_words_granted: "alloc_ok env n \<Longrightarrow> \<exists>q. realloc_words env ws n = Some q"
  by (simp add: realloc_words_def)

lemma febitvec_resize_no_init_total:
  assumes "\<And>n. alloc_ok env n"
  shows "\<exists>v'. febitvec_resize_no_init env v n = Inr v'"
  using assms by (simp add: febitvec_resize_no_init_def realloc_words_def Let_def)

lemma febitvec_resize_total:
  "(\<And>n. alloc_ok env n) \<Longrightarrow> \<exists>v'. febitvec_resize env v n b = Inr v'"
  using febitvec_resize_no_init_total [of env v n] by (auto simp: febitvec_resize_def Let_def)

lemma febitvec_resize_no_init_Inl:
  "febitvec_resize_no_init env v n = Inl e \<Longrightarrow> e = Bad_alloc \<and> m_capacity v < n"
  by (auto simp: febitvec_resize_no_init_def Let_def split: if_splits option.splits)

lemma febitvec_words_update [simp]:
  "m_size (v\<lparr>m_words := ws\<rparr>) = m_size v" "m_capacity (v\<lparr>m_words := ws\<rparr>) = m_capacity v"
  by simp_all

lemma febitvec_ok_words [inv_intros]:
  "febitvec_ok v \<Longrightarrow> length ws = length (m_words v) \<Longrightarrow> febitvec_ok (v\<lparr>m_words := ws\<rparr>)"
  by (auto simp: febitvec_ok_def)

lemma febitvec_ok_size [inv_intros]:
  "febitvec_ok v \<Longrightarrow> n \<le> m_capacity v \<Longrightarrow> febitvec_ok (v\<lparr>m_size := n\<rparr>)"
  by (auto simp: febitvec_ok_def)

lemma febitvec_resize_ok [inv_intros]:
  assumes "febitvec_ok v" and "febitvec_resize env v n val = Inr v'"
  shows "febitvec_ok v'" and "febitvec_bits v' = take n (febitvec_bits v) @ replicate (n - m_size v) val"
proof -
  show "febitvec_ok v'"
    using assms
    by (auto simp: febitvec_resize_def Let_def bind_res_Inr
             intro!: febitvec_ok_words dest: febitvec_resize_no_init_ok(1) split: if_splits)
  have size: "m_size v' = n"
    using assms
    by (auto simp: febitvec_resize_def Let_def bind_res_Inr dest: febitvec_resize_no_init_ok(2)
             split: if_splits)
  show "febitvec_bits v' = take n (febitvec_bits v) @ replicate (n - m_size v) val"
  proof (cases "m_size v = n")
    case True
    with assms show ?thesis by (simp add: febitvec_resize_def)
  next
    case False
    then obtain u where u: "febitvec_resize_no_init env v n = Inr u"
      and v': "v' = (if m_size v < n then u\<lparr>m_words := bits_range_set (m_words u) (m_size v) n val\<rparr> else u)"
      using assms(2) by (auto simp: febitvec_resize_def Let_def bind_res_Inr)
    note uok = febitvec_resize_no_init_ok [OF assms(1) u]
    show ?thesis
    proof (rule febitvec_bits_eqI)
      show "m_size v' = length (take n (febitvec_bits v) @ replicate (n - m_size v) val)"
        using size by simp
      fix i assume i: "i < m_size v'"
      then have "i < 64 * length (m_words u)" using size uok febitvec_ok_bound [OF uok(1)] by simp
      with i show "wbit (m_words v') i = (take n (febitvec_bits v) @ replicate (n - m_size v) val) ! i"
        using size v' uok(4)
        by (auto simp: nth_append febitvec_bits_nth wbit_bits_range_set)
    qed
  qed
qed

lemma febitvec_resize_size:
  assumes "febitvec_ok v" and "febitvec_resize env v n val = Inr v'"
  shows "m_size v' = n"
  using arg_cong [OF febitvec_resize_ok(2) [OF assms], of length] by simp

lemma m_size_set [simp, len_simps]:
  "m_size (febitvec_set0 v i) = m_size v" "m_size (febitvec_set1 v i) = m_size v"
  "m_size (febitvec_set v i val) = m_size v"
  by (simp_all add: febitvec_set_def febitvec_set0_def febitvec_set1_def)

lemma febitvec_set_ok [inv_intros]:
  assumes "febitvec_ok v" and "i < m_size v"
  shows "febitvec_ok (febitvec_set v i val)" and "febitvec_bits (febitvec_set v i val) = (febitvec_bits v)[i := val]"
proof -
  show "febitvec_ok (febitvec_set v i val)"
    using assms by (auto simp: febitvec_set_def febitvec_set0_def febitvec_set1_def intro!: febitvec_ok_words)
  show "febitvec_bits (febitvec_set v i val) = (febitvec_bits v)[i := val]"
    using febitvec_ok_bound [OF assms] assms(2)
    by (intro febitvec_bits_eqI; cases val)
      (auto simp: febitvec_set_def febitvec_set0_def febitvec_set1_def wbit_set0 wbit_set1
        nth_list_update febitvec_bits_nth)
qed

lemma febitvec_is1_nth: "i < m_size v \<Longrightarrow> febitvec_is1 v i = febitvec_bits v ! i"
  by (simp add: febitvec_is1_def terark_bit_test_wbit febitvec_bits_nth)

lemma febitvec_is0_nth: "i < m_size v \<Longrightarrow> febitvec_is0 v i = (\<not> febitvec_bits v ! i)"
  by (simp add: febitvec_is0_def terark_bit_test_wbit febitvec_bits_nth)

lemma febitvec_back_last: "0 < m_size v \<Longrightarrow> febitvec_back v = last (febitvec_bits v)"
  by (subst last_conv_nth) (auto simp: febitvec_back_def terark_bit_test_wbit febitvec_bits_nth
      simp flip: length_0_conv)

lemma febitvec_pop_back_ok [inv_intros]:
  assumes "febitvec_ok v"
  shows "febitvec_ok (febitvec_pop_back v)" and "febitvec_bits (febitvec_pop_back v) = butlast (febitvec_bits v)"
proof -
  show "febitvec_ok (febitvec_pop_back v)"
    using assms unfolding febitvec_pop_back_def by (intro febitvec_ok_size) (auto simp: febitvec_ok_def)
  show "febitvec_bits (febitvec_pop_back v) = butlast (febitvec_bits v)"
    by (intro febitvec_bits_eqI) (auto simp: febitvec_pop_back_def nth_butlast febitvec_bits_nth)
qed

lemma febitvec_unchecked_push_back_ok [inv_intros]:
  assumes "febitvec_ok v" and "m_size v < m_capacity v"
  shows "febitvec_ok (febitvec_unchecked_push_back v val)"
    and "febitvec_bits (febitvec_unchecked_push_back v val) = febitvec_bits v @ [val]"
proof -
  let ?u = "v\<lparr>m_size := m_size v + 1\<rparr>"
  have u: "febitvec_ok ?u" using assms by (intro febitvec_ok_size) auto
  have i: "m_size v < m_size ?u" by simp
  show "febitvec_ok (febitvec_unchecked_push_back v val)"
    unfolding febitvec_unchecked_push_back_def by (rule febitvec_set_ok(1) [OF u i])
  show "febitvec_bits (febitvec_unchecked_push_back v val) = febitvec_bits v @ [val]"
    unfolding febitvec_unchecked_push_back_def febitvec_set_ok(2) [OF u i]
    by (intro nth_equalityI) (auto simp: nth_list_update nth_append febitvec_bits_nth less_Suc_eq)
qed

text \<open>The slow path relies on a full vector: the new bit then is bit 0 of a new word.\<close>

lemma full_size_div:
  assumes "febitvec_ok v" and "\<not> m_size v < m_capacity v"
  shows "m_size v = 64 * (m_size v div 64)"
proof -
  have "m_size v = 64 * length (m_words v)"
    using febitvec_ok_cap [OF assms(1)] assms unfolding febitvec_ok_def by linarith
  then show ?thesis by simp
qed

lemma febitvec_push_back_ok [inv_intros]:
  assumes "febitvec_ok v" and "febitvec_push_back env v val = Inr v'"
  shows "febitvec_ok v'" and "febitvec_bits v' = febitvec_bits v @ [val]"
proof -
  have "febitvec_ok v' \<and> febitvec_bits v' = febitvec_bits v @ [val]"
  proof (cases "m_size v < m_capacity v")
    case True
    then show ?thesis
      using febitvec_unchecked_push_back_ok [OF assms(1) True, of val] assms(2)
      by (simp add: febitvec_push_back_def febitvec_unchecked_push_back_def)
  next
    case False
    define k where "k = m_size v div 64"
    have size: "m_size v = 64 * k" using full_size_div [OF assms(1) False] by (simp add: k_def)
    obtain u where u: "febitvec_resize_no_init env v (m_size v + 1) = Inr u"
      and u': "v' = u\<lparr>m_words := (m_words u)[m_size u div 64 := (if val then 1 else 0)]\<rparr>"
      using assms(2) False
      by (auto simp: febitvec_push_back_def febitvec_push_back_slow_path_def bind_res_Inr WordBits_def)
    note uok = febitvec_resize_no_init_ok [OF assms(1) u]
    have "m_size u div 64 = k" using uok(2) size by simp
    then have v': "v' = u\<lparr>m_words := (m_words u)[k := (if val then 1 else 0)]\<rparr>" using u' by simp
    have k: "k < length (m_words u)" using febitvec_ok_bound [OF uok(1), of "64 * k"] uok(2) size by simp
    have "febitvec_ok v'" unfolding v' by (rule febitvec_ok_words [OF uok(1)]) simp
    moreover have "febitvec_bits v' = febitvec_bits v @ [val]"
    proof (rule febitvec_bits_eqI)
      show "m_size v' = length (febitvec_bits v @ [val])" using uok(2) v' by simp
      fix i assume "i < m_size v'"
      then consider "i < 64 * k" | "i = 64 * k" using uok(2) size v' by fastforce
      then show "wbit (m_words v') i = (febitvec_bits v @ [val]) ! i"
      proof cases
        case 1
        then have "i div 64 \<noteq> k" by auto
        then show ?thesis using 1 uok(4) [of i] size v'
          by (simp add: wbit_def nth_append febitvec_bits_nth)
      next
        case 2
        then show ?thesis using k size v' by (simp add: wbit_def nth_append)
      qed
    qed
    ultimately show ?thesis ..
  qed
  then show "febitvec_ok v'" and "febitvec_bits v' = febitvec_bits v @ [val]" by simp_all
qed

lemma febitvec_push_back_total:
  "(\<And>n. alloc_ok env n) \<Longrightarrow> \<exists>v'. febitvec_push_back env v val = Inr v'"
  using febitvec_resize_no_init_total [of env v "m_size v + 1"]
  by (auto simp: febitvec_push_back_def febitvec_push_back_slow_path_def)

lemma append_loop_ok:
  assumes "febitvec_ok v" and "append_loop env y i n v = Inr v'" and "n \<le> m_size y"
  shows "febitvec_ok v' \<and> febitvec_bits v' = febitvec_bits v @ drop i (take n (febitvec_bits y))"
  using assms
proof (induction env y i n v rule: append_loop.induct)
  case (1 env y i n v)
  show ?case
  proof (cases "i < n")
    case True
    then obtain u where u: "febitvec_push_back env v (febitvec_is1 y i) = Inr u"
      and r: "append_loop env y (i + 1) n u = Inr v'"
      using "1.prems"(2) by (subst (asm) append_loop.simps) (auto simp: bind_res_Inr)
    note uok = febitvec_push_back_ok [OF "1.prems"(1) u]
    have "i < m_size y" using True "1.prems"(3) by simp
    then have "drop i (take n (febitvec_bits y)) = febitvec_is1 y i # drop (Suc i) (take n (febitvec_bits y))"
      using True "1.prems"(3) Cons_nth_drop_Suc [of i "take n (febitvec_bits y)"]
      by (simp add: febitvec_is1_nth)
    with "1.IH" [OF True uok(1) r "1.prems"(3)] uok(2) show ?thesis by simp
  next
    case False
    with "1.prems" show ?thesis by (subst (asm) append_loop.simps) simp
  qed
qed

lemma append_loop_total:
  assumes "\<And>n. alloc_ok env n"
  shows "\<exists>v'. append_loop env y i n v = Inr v'"
  using assms
proof (induction env y i n v rule: append_loop.induct)
  case (1 env y i n v)
  then show ?case
    using febitvec_push_back_total [OF "1.prems", of v "febitvec_is1 y i"]
    by (subst append_loop.simps) auto
qed

lemma febitvec_append_ok [inv_intros]:
  assumes "febitvec_ok v" and "febitvec_append env v y = Inr v'"
  shows "febitvec_ok v'" and "febitvec_bits v' = febitvec_bits v @ febitvec_bits y"
  using append_loop_ok [OF assms(1), of env y 0 "m_size y" v'] assms(2)
  by (simp_all add: febitvec_append_def)

lemma febitvec_append_range_ok [inv_intros]:
  assumes "febitvec_ok v" and "febitvec_append_range env v y beg len = Inr v'" and "beg + len \<le> m_size y"
  shows "febitvec_ok v'" and "febitvec_bits v' = febitvec_bits v @ take len (drop beg (febitvec_bits y))"
  using append_loop_ok [OF assms(1), of env y beg "beg + len" v'] assms(2,3)
  by (simp_all add: febitvec_append_range_def take_drop add.commute)

section \<open>Growing sets of integers\<close>

lemma febitvec_ensure_set_ok [inv_intros]:
  assumes "febitvec_ok v" and "febitvec_ensure_set env v i val = Inr v'"
  shows "febitvec_ok v'"
    and "febitvec_bits v' = (febitvec_bits v @ replicate (Suc i - m_size v) False)[i := val]"
proof -
  have "febitvec_ok v' \<and> febitvec_bits v' = (febitvec_bits v @ replicate (Suc i - m_size v) False)[i := val]"
  proof (cases "i < m_size v")
    case True
    then have "v' = febitvec_set v i val"
      using assms(2) by (auto simp: febitvec_ensure_set_def febitvec_ensure_set1_def febitvec_ensure_set0_def
          febitvec_set_def febitvec_set1_def febitvec_set0_def)
    with True show ?thesis using febitvec_set_ok [OF assms(1) True] by simp
  next
    case False
    then obtain u where u: "febitvec_resize env v (i + 1) False = Inr u"
      and v': "v' = (if val then febitvec_set u i val else u)"
      using assms(2) by (auto simp: febitvec_ensure_set_def febitvec_ensure_set1_def febitvec_ensure_set0_def
          febitvec_ensure_set1_slow_path_def bind_res_Inr febitvec_set_def febitvec_set1_def split: if_splits)
    note uok = febitvec_resize_ok [OF assms(1) u] and sz = febitvec_resize_size [OF assms(1) u]
    have eq: "febitvec_bits u = febitvec_bits v @ replicate (Suc i - m_size v) False" using False uok(2) by simp
    have "(febitvec_bits v @ replicate (Suc i - m_size v) False)[i := False] =
      febitvec_bits v @ replicate (Suc i - m_size v) False"
      using False by (intro nth_equalityI) (auto simp: nth_list_update nth_append)
    with eq uok(1) febitvec_set_ok [OF uok(1), of i True] sz v' show ?thesis by (cases val) simp_all
  qed
  then show "febitvec_ok v'"
    and "febitvec_bits v' = (febitvec_bits v @ replicate (Suc i - m_size v) False)[i := val]" by simp_all
qed

text \<open>
  \<open>fast_ensure_set1\<close> relies on a stronger invariant: the allocated bits past the end are zero.
  It keeps it, and then agrees with \<open>ensure_set1\<close>.
\<close>

definition febitvec_tail0 :: "('z) febitvec_scheme \<Rightarrow> bool" where
  "febitvec_tail0 v \<longleftrightarrow> (\<forall>i\<in>{m_size v..<m_capacity v}. \<not> wbit (m_words v) i)"

lemma febitvec_fast_ensure_set1_ok [inv_intros]:
  assumes "febitvec_ok v" and "febitvec_tail0 v" and "febitvec_fast_ensure_set1 env v i = Inr v'"
  shows "febitvec_ok v'" and "febitvec_tail0 v'"
    and "febitvec_bits v' = (febitvec_bits v @ replicate (Suc i - m_size v) False)[i := True]"
proof -
  have "febitvec_ok v' \<and> febitvec_tail0 v' \<and>
    febitvec_bits v' = (febitvec_bits v @ replicate (Suc i - m_size v) False)[i := True]"
  proof (cases "i < m_capacity v")
    case True
    define n where "n = max (m_size v) (Suc i)"
    have n: "n \<le> m_capacity v" using True assms(1) by (simp add: n_def febitvec_ok_def)
    have v': "v' = v\<lparr>m_size := n, m_words := terark_bit_set1 (m_words v) i\<rparr>"
      using assms(3) True by (auto simp: febitvec_fast_ensure_set1_def Let_def n_def max_def)
    have i: "i < 64 * length (m_words v)" using True febitvec_ok_cap [OF assms(1)] by simp
    have "febitvec_ok v'" unfolding v' using assms(1) n by (intro febitvec_ok_words febitvec_ok_size) auto
    moreover have "febitvec_tail0 v'"
      using assms(2) i unfolding v' febitvec_tail0_def n_def by (auto simp: wbit_set1)
    moreover have "febitvec_bits v' = (febitvec_bits v @ replicate (Suc i - m_size v) False)[i := True]"
      using i n assms(2) febitvec_ok_cap [OF assms(1)] unfolding v' febitvec_tail0_def
      by (intro febitvec_bits_eqI)
        (auto simp: n_def wbit_set1 nth_list_update nth_append febitvec_bits_nth)
    ultimately show ?thesis by blast
  next
    case False
    then obtain u where u: "febitvec_resize_no_init env v (i + 1) = Inr u"
      and v': "v' = u\<lparr>m_words := terark_bit_set1 (bits_range_set0 (m_words u) (m_capacity v) (m_capacity u)) i\<rparr>"
      using assms(3) by (auto simp: febitvec_fast_ensure_set1_def febitvec_fast_ensure_set1_slow_path_def
          Let_def bind_res_Inr)
    note uok = febitvec_resize_no_init_ok [OF assms(1) u]
    have sz: "m_size v \<le> m_capacity v" using assms(1) by (simp add: febitvec_ok_def)
    note cap = febitvec_ok_cap [OF uok(1)]
    have i: "i < 64 * length (m_words u)" using febitvec_ok_bound [OF uok(1)] uok(2) by simp
    have bits: "wbit (m_words v') j = (wbit (m_words v) j \<and> j < m_size v \<or> j = i)" if "j < m_capacity u" for j
      using uok(3,4) uok(5) [of j] that i sz False assms(2) cap unfolding v' febitvec_tail0_def
      by (cases "j < m_size v"; cases "j < m_capacity v") (auto simp: wbit_set1 wbit_bits_range_set0)
    have "febitvec_ok v'" unfolding v' by (rule febitvec_ok_words [OF uok(1)]) simp
    moreover have "febitvec_tail0 v'"
      using bits uok(2) False sz by (auto simp: v' febitvec_tail0_def)
    moreover have "febitvec_bits v' = (febitvec_bits v @ replicate (Suc i - m_size v) False)[i := True]"
      using bits i uok(2) False sz cap
      by (intro febitvec_bits_eqI) (auto simp: v' nth_list_update nth_append febitvec_bits_nth)
    ultimately show ?thesis by blast
  qed
  then show "febitvec_ok v'" and "febitvec_tail0 v'"
    and "febitvec_bits v' = (febitvec_bits v @ replicate (Suc i - m_size v) False)[i := True]" by simp_all
qed

end
