(* ===== verification/Febitvec_Ops.thy ===== *)
theory Febitvec_Ops
  imports Febitvec
begin

text \<open>
  The rest of \<open>febitvec\<close>: constructors and shrinking, the word-wise operators, population
  count, runs of equal bits, and the packed unsigned integers of a fixed width that
  \<open>push_uint\<close>, \<open>set_uint\<close> and \<open>get_uint\<close> store in the bits
  (\<open>src/terark/bitmap.hpp\<close>, \<open>src/terark/bitmap.cpp\<close>).
\<close>

section \<open>Operations on whole words\<close>

text \<open>\<open>risk_memcpy\<close> copies the words of a vector of the same size.\<close>

definition febitvec_risk_memcpy ::
  "('z) febitvec_scheme \<Rightarrow> ('y) febitvec_scheme \<Rightarrow> ('z) febitvec_scheme" where
  "febitvec_risk_memcpy v y =
     v\<lparr>m_words := fold (\<lambda>i ws. ws[i := m_words y ! i]) [0..<num_words v] (m_words v)\<rparr>"

text \<open>Both overloads of \<open>copy\<close> throw.\<close>

definition febitvec_copy ::
  "('z) febitvec_scheme \<Rightarrow> nat \<Rightarrow> ('y) febitvec_scheme \<Rightarrow> ('z) febitvec_scheme res" where
  "febitvec_copy v destBeg y = Inl Invalid_argument"

definition febitvec_copy_range ::
  "('z) febitvec_scheme \<Rightarrow> nat \<Rightarrow> ('y) febitvec_scheme \<Rightarrow> nat \<Rightarrow> nat \<Rightarrow> ('z) febitvec_scheme res" where
  "febitvec_copy_range v destBeg y srcBeg len = Inl Invalid_argument"

text \<open>The loop shared by the compound assignments, over the words from \<open>i\<close> up to \<open>j\<close>.\<close>

definition word_loop ::
  "(u64 \<Rightarrow> u64 \<Rightarrow> u64) \<Rightarrow> nat \<Rightarrow> nat \<Rightarrow> u64 list \<Rightarrow> u64 list \<Rightarrow> u64 list" where
  "word_loop f i j ydata xdata = fold (\<lambda>k xs. xs[k := f (xs ! k) (ydata ! k)]) [i..<j] xdata"

definition febitvec_minus ::
  "('z) febitvec_scheme \<Rightarrow> ('y) febitvec_scheme \<Rightarrow> ('z) febitvec_scheme" where
  "febitvec_minus v y =
     v\<lparr>m_words := word_loop (\<lambda>a b. a AND NOT b) 0 (min (num_words v) (num_words y)) (m_words y) (m_words v)\<rparr>"

definition febitvec_xor ::
  "('z) febitvec_scheme \<Rightarrow> ('y) febitvec_scheme \<Rightarrow> ('z) febitvec_scheme" where
  "febitvec_xor v y =
     v\<lparr>m_words := word_loop (XOR) 0 (min (num_words v) (num_words y)) (m_words y) (m_words v)\<rparr>"

definition febitvec_and ::
  "('z) febitvec_scheme \<Rightarrow> ('y) febitvec_scheme \<Rightarrow> ('z) febitvec_scheme" where
  "febitvec_and v y =
     v\<lparr>m_words := word_loop (AND) 0 (min (num_words v) (num_words y)) (m_words y) (m_words v)\<rparr>"

definition febitvec_or ::
  "('z) febitvec_scheme \<Rightarrow> ('y) febitvec_scheme \<Rightarrow> ('z) febitvec_scheme" where
  "febitvec_or v y =
     v\<lparr>m_words := word_loop (OR) 0 (min (num_words v) (num_words y)) (m_words y) (m_words v)\<rparr>"

definition febitvec_block_or ::
  "('z) febitvec_scheme \<Rightarrow> ('y) febitvec_scheme \<Rightarrow> nat \<Rightarrow> nat \<Rightarrow> ('z) febitvec_scheme" where
  "febitvec_block_or v y yblstart blcnt =
     v\<lparr>m_words := word_loop (OR) yblstart (yblstart + blcnt) (m_words y) (m_words v)\<rparr>"

definition febitvec_block_and ::
  "('z) febitvec_scheme \<Rightarrow> ('y) febitvec_scheme \<Rightarrow> nat \<Rightarrow> nat \<Rightarrow> ('z) febitvec_scheme" where
  "febitvec_block_and v y yblstart blcnt =
     v\<lparr>m_words := word_loop (AND) yblstart (yblstart + blcnt) (m_words y) (m_words v)\<rparr>"

definition febitvec_range_set0 :: "('z) febitvec_scheme \<Rightarrow> nat \<Rightarrow> nat \<Rightarrow> ('z) febitvec_scheme" where
  "febitvec_range_set0 v i nbits = v\<lparr>m_words := bits_range_set0 (m_words v) i (i + nbits)\<rparr>"

definition febitvec_range_set1 :: "('z) febitvec_scheme \<Rightarrow> nat \<Rightarrow> nat \<Rightarrow> ('z) febitvec_scheme" where
  "febitvec_range_set1 v i nbits = v\<lparr>m_words := bits_range_set1 (m_words v) i (i + nbits)\<rparr>"

definition febitvec_range_set :: "('z) febitvec_scheme \<Rightarrow> nat \<Rightarrow> nat \<Rightarrow> bool \<Rightarrow> ('z) febitvec_scheme" where
  "febitvec_range_set v i nbits val = v\<lparr>m_words := bits_range_set (m_words v) i (i + nbits) val\<rparr>"

definition febitvec_beg_end_set0 :: "('z) febitvec_scheme \<Rightarrow> nat \<Rightarrow> nat \<Rightarrow> ('z) febitvec_scheme" where
  "febitvec_beg_end_set0 v b e = v\<lparr>m_words := bits_range_set0 (m_words v) b e\<rparr>"

definition febitvec_beg_end_set1 :: "('z) febitvec_scheme \<Rightarrow> nat \<Rightarrow> nat \<Rightarrow> ('z) febitvec_scheme" where
  "febitvec_beg_end_set1 v b e = v\<lparr>m_words := bits_range_set1 (m_words v) b e\<rparr>"

definition febitvec_beg_end_set :: "('z) febitvec_scheme \<Rightarrow> nat \<Rightarrow> nat \<Rightarrow> bool \<Rightarrow> ('z) febitvec_scheme" where
  "febitvec_beg_end_set v b e val = v\<lparr>m_words := bits_range_set (m_words v) b e val\<rparr>"

section \<open>Tests and counts\<close>

definition febitvec_isall0 :: "('z) febitvec_scheme \<Rightarrow> bool" where
  "febitvec_isall0 v =
     (let n = m_size v div WordBits in
      if \<not> list_all (\<lambda>i. m_words v ! i = 0) [0..<n] then False
      else if m_size v mod WordBits = 0 then True
      else m_words v ! n AND (push_bit (m_size v mod WordBits) 1 - 1) = 0)"

definition febitvec_isall1 :: "('z) febitvec_scheme \<Rightarrow> bool" where
  "febitvec_isall1 v =
     (let n = m_size v div WordBits in
      if \<not> list_all (\<lambda>i. - 1 = m_words v ! i) [0..<n] then False
      else if m_size v mod WordBits = 0 then True
      else let allone = push_bit (m_size v mod WordBits) 1 - 1 in m_words v ! n AND allone = allone)"

definition febitvec_popcnt :: "('z) febitvec_scheme \<Rightarrow> nat" where
  "febitvec_popcnt v =
     (if m_size v = 0 then 0
      else
        let n = m_size v div WordBits;
            pc = fold (\<lambda>i pc. pc + fast_popcount64 (m_words v ! i)) [0..<n] 0
        in if m_size v mod WordBits \<noteq> 0
           then pc + fast_popcount_trail (m_words v ! n) (m_size v mod WordBits) else pc)"

definition febitvec_popcnt_blocks :: "('z) febitvec_scheme \<Rightarrow> nat \<Rightarrow> nat \<Rightarrow> nat" where
  "febitvec_popcnt_blocks v blstart blcnt =
     fold (\<lambda>i pc. pc + fast_popcount64 (m_words v ! i)) [blstart..<blstart + blcnt] 0"

section \<open>Runs of equal bits\<close>

text \<open>
  The word loops: \<open>ones_up\<close> adds up the one bits from word \<open>j\<close> on, up to word
  \<open>len\<close>; \<open>ones_down\<close> the ones below word \<open>j\<close>, from the top.
\<close>

function ones_up :: "u64 list \<Rightarrow> nat \<Rightarrow> nat \<Rightarrow> nat \<Rightarrow> nat" where
  "ones_up bits len j s =
     (if j < len
      then let y = NOT (bits ! j) in if y = 0 then ones_up bits len (j + 1) (s + WordBits) else s + fast_ctz y
      else s)"
  by pat_completeness auto
termination by (relation "measure (\<lambda>(bits, len, j, s). len - j)") auto

function zeros_up :: "u64 list \<Rightarrow> nat \<Rightarrow> nat \<Rightarrow> nat \<Rightarrow> nat" where
  "zeros_up bits len j s =
     (if j < len
      then let x = bits ! j in if x = 0 then zeros_up bits len (j + 1) (s + WordBits) else s + fast_ctz x
      else s)"
  by pat_completeness auto
termination by (relation "measure (\<lambda>(bits, len, j, s). len - j)") auto

declare ones_up.simps [simp del] zeros_up.simps [simp del]

fun ones_down :: "u64 list \<Rightarrow> nat \<Rightarrow> nat \<Rightarrow> nat" where
  "ones_down bits 0 s = s"
| "ones_down bits (Suc j) s =
     (let y = NOT (bits ! j) in if y = 0 then ones_down bits j (s + WordBits) else s + fast_clz y)"

fun zeros_down :: "u64 list \<Rightarrow> nat \<Rightarrow> nat \<Rightarrow> nat" where
  "zeros_down bits 0 s = s"
| "zeros_down bits (Suc j) s =
     (let y = bits ! j in if y = 0 then zeros_down bits j (s + WordBits) else s + fast_clz y)"

definition febitvec_one_seq_len :: "('z) febitvec_scheme \<Rightarrow> nat \<Rightarrow> nat" where
  "febitvec_one_seq_len v bitpos =
     (let bits = m_words v; len = num_words v in
      if bitpos mod WordBits \<noteq> 0
      then
        let x = bits ! (bitpos div WordBits) in
        if x AND push_bit (bitpos mod WordBits) 1 = 0 then 0
        else
          let y = NOT (drop_bit (bitpos mod WordBits) x); ctz = fast_ctz y in
          if ctz < WordBits - bitpos mod WordBits then ctz
          else ones_up bits len (bitpos div WordBits + 1) ctz
      else ones_up bits len (bitpos div WordBits) 0)"

definition febitvec_zero_seq_len :: "('z) febitvec_scheme \<Rightarrow> nat \<Rightarrow> nat" where
  "febitvec_zero_seq_len v bitpos =
     (let bits = m_words v; len = num_words v in
      if bitpos mod WordBits \<noteq> 0
      then
        let x = bits ! (bitpos div WordBits) in
        if x AND push_bit (bitpos mod WordBits) 1 \<noteq> 0 then 0
        else
          let y = drop_bit (bitpos mod WordBits) x in
          if y \<noteq> 0 then fast_ctz y
          else zeros_up bits len (bitpos div WordBits + 1) (WordBits - bitpos mod WordBits)
      else zeros_up bits len (bitpos div WordBits) 0)"

text \<open>
  The loop of \<open>fast_one_seq_len\<close> has no bound: a zero bit must follow the run.  The model
  stops at the end of the words, which that condition makes unreachable.
\<close>

definition febitvec_fast_one_seq_len :: "u64 list \<Rightarrow> nat \<Rightarrow> nat" where
  "febitvec_fast_one_seq_len bits bitpos =
     (if bitpos mod WordBits \<noteq> 0
      then
        let x = bits ! (bitpos div WordBits) in
        if x AND push_bit (bitpos mod WordBits) 1 = 0 then 0
        else
          let y = NOT (drop_bit (bitpos mod WordBits) x); ctz = fast_ctz y in
          if ctz < WordBits - bitpos mod WordBits then ctz
          else ones_up bits (length bits) (bitpos div WordBits + 1) ctz
      else ones_up bits (length bits) (bitpos div WordBits) 0)"

definition febitvec_one_seq_revlen :: "('z) febitvec_scheme \<Rightarrow> nat \<Rightarrow> nat" where
  "febitvec_one_seq_revlen v endpos =
     (let bits = m_words v in
      if endpos mod WordBits \<noteq> 0
      then
        let x = bits ! ((endpos - 1) div WordBits) in
        if x AND push_bit ((endpos - 1) mod WordBits) 1 = 0 then 0
        else
          let y = NOT (push_bit (WordBits - endpos mod WordBits) x); clz = fast_clz y in
          if clz < endpos mod WordBits then clz
          else ones_down bits (endpos div WordBits) clz
      else ones_down bits (endpos div WordBits) 0)"

definition febitvec_zero_seq_revlen :: "('z) febitvec_scheme \<Rightarrow> nat \<Rightarrow> nat" where
  "febitvec_zero_seq_revlen v endpos =
     (let bits = m_words v in
      if endpos mod WordBits \<noteq> 0
      then
        let x = bits ! ((endpos - 1) div WordBits) in
        if x AND push_bit ((endpos - 1) mod WordBits) 1 \<noteq> 0 then 0
        else
          let y = push_bit (WordBits - endpos mod WordBits) x in
          if y \<noteq> 0 then fast_clz y
          else zeros_down bits (endpos div WordBits) (endpos mod WordBits)
      else zeros_down bits (endpos div WordBits) 0)"

section \<open>Packed unsigned integers\<close>

definition s_get_uint :: "'a::len word list \<Rightarrow> nat \<Rightarrow> nat \<Rightarrow> 'a word" where
  "s_get_uint base bitpos width =
     (let UintBits = LENGTH('a);
          p = bitpos div UintBits;
          offset = bitpos mod UintBits;
          m = (if width < UintBits then NOT (push_bit width (- 1)) else - 1);
          low = drop_bit offset (base ! p)
      in if offset + width \<le> UintBits then m AND low
         else m AND (low OR push_bit (UintBits - offset) (base ! (p + 1))))"

text \<open>The words after both writes, for a field that lies in them.\<close>

definition set_uint_words :: "'a::len word list \<Rightarrow> nat \<Rightarrow> nat \<Rightarrow> 'a word \<Rightarrow> 'a word list" where
  "set_uint_words base bitpos width val =
     (let UintBits = LENGTH('a);
          p = bitpos div UintBits;
          offset = bitpos mod UintBits
      in if offset + width < UintBits
         then base[p := (base ! p AND (NOT (push_bit offset (- 1)) OR push_bit (offset + width) (- 1)))
                        OR push_bit offset val]
         else
           let base = base[p := (base ! p AND NOT (push_bit offset (- 1))) OR push_bit offset val]
           in if offset + width > UintBits
              then let off2 = (offset + width) mod UintBits
                   in base[p + 1 := (base ! (p + 1) AND push_bit off2 (- 1)) OR drop_bit (UintBits - offset) val]
              else base)"

text \<open>The word of the first bit is read and written in any case, also for a field of no bits.\<close>

definition s_set_uint_tpl :: "'a::len word list \<Rightarrow> nat \<Rightarrow> nat \<Rightarrow> 'a word \<Rightarrow> 'a word list res" where
  "s_set_uint_tpl base bitpos width val =
     verify (width < LENGTH('a) \<longrightarrow> drop_bit width val = 0) (verify (width \<le> LENGTH('a))
       (let p = bitpos div LENGTH('a); offset = bitpos mod LENGTH('a) in
        if p < length base \<and> (offset + width > LENGTH('a) \<longrightarrow> p + 1 < length base)
        then Inr (set_uint_words base bitpos width val) else Inl Undefined))"

definition febitvec_get_uint :: "('z) febitvec_scheme \<Rightarrow> nat \<Rightarrow> nat \<Rightarrow> u64" where
  "febitvec_get_uint v bitpos width = s_get_uint (m_words v) bitpos width"

definition febitvec_get2_uints :: "('z) febitvec_scheme \<Rightarrow> nat \<Rightarrow> nat \<Rightarrow> u64 \<times> u64" where
  "febitvec_get2_uints v bitpos width =
     (s_get_uint (m_words v) bitpos width, s_get_uint (m_words v) (bitpos + width) width)"

definition febitvec_set_uint ::
  "('z) febitvec_scheme \<Rightarrow> nat \<Rightarrow> nat \<Rightarrow> u64 \<Rightarrow> ('z) febitvec_scheme res" where
  "febitvec_set_uint v bitpos width val =
     verify (bitpos + width \<le> m_size v)
       (bind_res (s_set_uint_tpl (m_words v) bitpos width val) (\<lambda>ws. Inr (v\<lparr>m_words := ws\<rparr>)))"

definition febitvec_push_uint ::
  "heap_env \<Rightarrow> ('z) febitvec_scheme \<Rightarrow> nat \<Rightarrow> u64 \<Rightarrow> ('z) febitvec_scheme res" where
  "febitvec_push_uint env v width val =
     verify (width \<le> WordBits)
       (let oldsize = m_size v in
        if oldsize + width \<le> m_capacity v
        then bind_res (s_set_uint_tpl (m_words v) oldsize width val) (\<lambda>ws.
          Inr (v\<lparr>m_words := ws, m_size := m_size v + width\<rparr>))
        else bind_res (febitvec_resize_no_init env v (oldsize + width)) (\<lambda>v.
          bind_res (s_set_uint_tpl (bits_range_set0 (m_words v) oldsize (m_size v)) oldsize width val) (\<lambda>ws.
            Inr (v\<lparr>m_words := ws\<rparr>))))"

section \<open>Counting\<close>

lemma febitvec_popcnt_correct: "febitvec_popcnt v = bcount (wbit (m_words v)) 0 (m_size v)"
proof -
  let ?n = "m_size v div 64"
  have "bcount (wbit (m_words v)) 0 (m_size v) =
    bcount (wbit (m_words v)) 0 (64 * ?n) + bcount (wbit (m_words v)) (64 * ?n) (64 * ?n + m_size v mod 64)"
    by (subst bcount_split [of 0 "64 * ?n"]) auto
  also have "bcount (wbit (m_words v)) 0 (64 * ?n) = (\<Sum>k=0..<?n. popcount (m_words v ! k))"
    using bcount_wbit_words [of 0 ?n "m_words v"] by simp
  also have "bcount (wbit (m_words v)) (64 * ?n) (64 * ?n + m_size v mod 64) =
      bcount (bit (m_words v ! ?n)) 0 (m_size v mod 64)"
    using bcount_wbit_word [of "m_size v mod 64" "m_words v" ?n] by simp
  finally show ?thesis
    by (simp add: febitvec_popcnt_def Let_def WordBits_def fold_add_sum fast_popcount64_correct
        fast_popcount_trail_correct)
qed

lemma bcount_count_list:
  "bcount (wbit (m_words v)) 0 (m_size v) = count_list (febitvec_bits v) True"
proof -
  have "count_list xs True = length (filter id xs)" for xs :: "bool list"
    by (induction xs) auto
  then show ?thesis by (simp add: febitvec_bits_def bcount_def filter_map o_def)
qed

lemma febitvec_popcnt_blocks_correct:
  "febitvec_popcnt_blocks v b n = bcount (wbit (m_words v)) (64 * b) (64 * (b + n))"
  using bcount_wbit_words [of b "b + n" "m_words v"]
  by (simp add: febitvec_popcnt_blocks_def fold_add_sum fast_popcount64_correct)

text \<open>A statement on all bits is one on the whole words and on the rest of the last word.\<close>

lemma all_bits_words:
  fixes ws :: "'a::len word list"
  shows "(\<forall>i < s. P (wbit ws i)) \<longleftrightarrow>
    (\<forall>w < s div LENGTH('a). \<forall>k<LENGTH('a). P (bit (ws ! w) k)) \<and>
    (\<forall>k < s mod LENGTH('a). P (bit (ws ! (s div LENGTH('a))) k))"
proof (intro iffI conjI allI impI)
  fix w k
  assume a: "\<forall>i < s. P (wbit ws i)" and w: "w < s div LENGTH('a)" and k: "k < LENGTH('a)"
  from w k have "w * LENGTH('a) + k < s"
    by (simp add: pos_less_iff [of "LENGTH('a)" _ s])
  with a have "P (wbit ws (w * LENGTH('a) + k))" by blast
  with k show "P (bit (ws ! w) k)" by (simp add: wbit_def)
next
  fix k
  assume a: "\<forall>i < s. P (wbit ws i)" and k: "k < s mod LENGTH('a)"
  have l: "k < LENGTH('a)" by (rule less_trans [OF k]) simp
  with k have "s div LENGTH('a) * LENGTH('a) + k < s"
    by (simp add: pos_less_iff [of "LENGTH('a)" _ s])
  with a have "P (wbit ws (s div LENGTH('a) * LENGTH('a) + k))" by blast
  with l show "P (bit (ws ! (s div LENGTH('a))) k)" by (simp add: wbit_def)
next
  fix i
  assume a: "(\<forall>w < s div LENGTH('a). \<forall>k<LENGTH('a). P (bit (ws ! w) k)) \<and>
    (\<forall>k < s mod LENGTH('a). P (bit (ws ! (s div LENGTH('a))) k))" and i: "i < s"
  then show "P (wbit ws i)"
    using pos_less_iff [of "LENGTH('a)" i s] by (auto simp: wbit_def)
qed

lemma word_eq_0_bits: "(w :: 'a::len word) = 0 \<longleftrightarrow> (\<forall>k<LENGTH('a). \<not> bit w k)"
  by (auto simp: bit_eq_iff dest: bit_imp_le_length)

lemma word_eq_1s_bits: "- 1 = (w :: 'a::len word) \<longleftrightarrow> (\<forall>k<LENGTH('a). bit w k)"
  by (auto simp: bit_eq_iff bit_simps dest: bit_imp_le_length)

lemma low_mask_eq: "push_bit n 1 - 1 = (mask n :: 'a::len word)"
  by (simp add: mask_eq_exp_minus_1 push_bit_eq_mult)

lemma low_mask_bits:
  fixes w :: "'a::len word"
  assumes "n \<le> LENGTH('a)"
  shows "w AND mask n = 0 \<longleftrightarrow> (\<forall>k<n. \<not> bit w k)"
    and "w AND mask n = mask n \<longleftrightarrow> (\<forall>k<n. bit w k)"
proof -
  have l: "k < LENGTH('a)" if "k < n" for k using that assms by simp
  show "w AND mask n = 0 \<longleftrightarrow> (\<forall>k<n. \<not> bit w k)"
    and "w AND mask n = mask n \<longleftrightarrow> (\<forall>k<n. bit w k)"
    using l by (auto simp: bit_eq_iff bit_simps)
qed

lemma febitvec_isall0_correct: "febitvec_isall0 v \<longleftrightarrow> True \<notin> set (febitvec_bits v)"
proof -
  have "True \<notin> set (febitvec_bits v) \<longleftrightarrow> (\<forall>i<m_size v. \<not> wbit (m_words v) i)"
    by (auto simp: febitvec_bits_def)
  also have "\<dots> \<longleftrightarrow> febitvec_isall0 v"
    unfolding all_bits_words [where P = Not] febitvec_isall0_def WordBits_def low_mask_eq
    by (simp add: Let_def list_all_iff low_mask_bits, auto simp: word_eq_0_bits)
  finally show ?thesis ..
qed

lemma febitvec_isall1_correct: "febitvec_isall1 v \<longleftrightarrow> False \<notin> set (febitvec_bits v)"
proof -
  have "False \<notin> set (febitvec_bits v) \<longleftrightarrow> (\<forall>i<m_size v. wbit (m_words v) i)"
    by (auto simp: febitvec_bits_def)
  also have "\<dots> \<longleftrightarrow> febitvec_isall1 v"
    unfolding all_bits_words [where P = "\<lambda>b. b"] febitvec_isall1_def WordBits_def low_mask_eq
    by (simp add: Let_def list_all_iff low_mask_bits, auto simp: word_eq_1s_bits)
  finally show ?thesis ..
qed

section \<open>Runs\<close>

lemma bit_u64_less: "bit (x :: u64) n \<Longrightarrow> n < 64"
  using bit_imp_le_length [of x n] by simp

lemma runlen_wbit_word:
  fixes ws :: "u64 list"
  shows "runlen (\<lambda>i. P (wbit ws i)) (64 * w + b) (64 * w + 64) = runlen (\<lambda>i. P (bit (ws ! w) i)) b 64"
proof -
  have "runlen (\<lambda>i. P (wbit ws i)) (b + 64 * w) (64 + 64 * w) =
    runlen (\<lambda>i. P (wbit ws (i + 64 * w))) b 64"
    by (rule runlen_shift [symmetric])
  also have "\<dots> = runlen (\<lambda>i. P (bit (ws ! w) i)) b 64"
    by (rule runlen_cong) (simp add: wbit_def)
  finally show ?thesis by (simp add: add.commute)
qed

text \<open>A run that starts in word \<open>w\<close> either ends there or goes on with word \<open>w + 1\<close>.\<close>

lemma runlen_next_word:
  fixes ws :: "u64 list"
  assumes "b \<le> 64" and "w < n"
  shows "runlen (\<lambda>i. P (wbit ws i)) (64 * w + b) (64 * n) =
    (if runlen (\<lambda>i. P (bit (ws ! w) i)) b 64 < 64 - b then runlen (\<lambda>i. P (bit (ws ! w) i)) b 64
     else (64 - b) + runlen (\<lambda>i. P (wbit ws i)) (64 * (w + 1)) (64 * n))"
proof -
  have "64 * w + b \<le> 64 * w + 64" "64 * w + 64 \<le> 64 * n" "64 * w + 64 - (64 * w + b) = 64 - b"
    "64 * (w + 1) = 64 * w + 64"
    using assms by auto
  then show ?thesis
    using runlen_split [of "64 * w + b" "64 * w + 64" "64 * n" "\<lambda>i. P (wbit ws i)"]
    by (simp only: runlen_wbit_word)
qed

lemma runlen_all: "runlen P 0 n < n \<longleftrightarrow> \<not> (\<forall>k<n. P k)"
  using runlen_stop [of 0 P n] runlen_in [of _ P 0 n] by (metis add_0 diff_zero le_neq_implies_less runlen_le)

lemma ones_up_runlen:
  "j \<le> len \<Longrightarrow> ones_up bits len j s = s + runlen (wbit bits) (64 * j) (64 * len)"
proof (induction bits len j s rule: ones_up.induct)
  case (1 bits len j s)
  show ?case
  proof (cases "j < len")
    case True
    let ?r = "runlen (bit (bits ! j)) 0 64"
    have ctz: "fast_ctz (NOT (bits ! j)) = ?r"
      unfolding fast_ctz_runlen by (simp, rule runlen_cong) (simp add: bit_simps)
    have z: "NOT (bits ! j) = 0 \<longleftrightarrow> \<not> ?r < 64"
      by (auto simp: runlen_all word_eq_0_bits bit_simps)
    from True "1.IH" [OF True refl] show ?thesis
      using runlen_next_word [of 0 j len "\<lambda>b. b" bits]
      by (subst ones_up.simps) (simp add: Let_def z ctz WordBits_def)
  next
    case False
    then show ?thesis by (subst ones_up.simps) simp
  qed
qed

lemma zeros_up_runlen:
  "j \<le> len \<Longrightarrow> zeros_up bits len j s = s + runlen (\<lambda>i. \<not> wbit bits i) (64 * j) (64 * len)"
proof (induction bits len j s rule: zeros_up.induct)
  case (1 bits len j s)
  show ?case
  proof (cases "j < len")
    case True
    let ?r = "runlen (\<lambda>i. \<not> bit (bits ! j) i) 0 64"
    have ctz: "fast_ctz (bits ! j) = ?r" by (simp add: fast_ctz_runlen)
    have z: "bits ! j = 0 \<longleftrightarrow> \<not> ?r < 64"
      by (auto simp: runlen_all word_eq_0_bits)
    from True "1.IH" [OF True refl] show ?thesis
      using runlen_next_word [of 0 j len Not bits]
      by (subst zeros_up.simps) (simp add: Let_def z ctz WordBits_def)
  next
    case False
    then show ?thesis by (subst zeros_up.simps) simp
  qed
qed

lemma num_words_cover: "64 * (m_size v div 64) \<le> 64 * num_words v" "m_size v \<le> 64 * num_words v"
  by (auto simp: num_words_def WordBits_def)

lemma febitvec_one_seq_len_correct:
  assumes "p < m_size v"
  shows "febitvec_one_seq_len v p = runlen (wbit (m_words v)) p (64 * num_words v)"
proof -
  let ?ws = "m_words v" and ?P = "wbit (m_words v)"
  define w b where "w = p div 64" and "b = p mod 64"
  have p: "p = 64 * w + b" and b: "b < 64" by (simp_all add: w_def b_def)
  have wn: "w + 1 \<le> num_words v"
    using assms b unfolding p num_words_def WordBits_def by linarith
  show ?thesis
  proof (cases "b = 0")
    case True
    with p wn show ?thesis
      by (simp add: febitvec_one_seq_len_def Let_def WordBits_def ones_up_runlen)
  next
    case False
    let ?r = "runlen (bit (?ws ! w)) b 64"
    have r: "runlen ?P p (64 * num_words v) =
        (if ?r < 64 - b then ?r else (64 - b) + runlen ?P (64 * (w + 1)) (64 * num_words v))"
      using b wn runlen_next_word [of b w "num_words v" "\<lambda>b. b" ?ws] unfolding p by simp
    have "fast_ctz (NOT (drop_bit b (?ws ! w))) = runlen (\<lambda>k. bit (?ws ! w) (k + b)) 0 64"
      unfolding fast_ctz_runlen by (simp, rule runlen_cong) (simp add: bit_simps add.commute)
    also have "\<dots> = runlen (bit (?ws ! w)) b (64 + b)" by (simp add: runlen_shift)
    also have "\<dots> = ?r" using b by (intro runlen_cut) (auto dest: bit_imp_le_length)
    finally have ctz: "fast_ctz (NOT (drop_bit b (?ws ! w))) = ?r" .
    have test: "?ws ! w AND push_bit b 1 = 0 \<longleftrightarrow> \<not> bit (?ws ! w) b"
      using and_single_bit_neq_0 [of b "?ws ! w"] b by auto
    have "?r \<le> 64 - b" by (rule runlen_le)
    with False b wn show ?thesis
      using runlen_not [of "bit (?ws ! w)" b 64]
      by (auto simp add: febitvec_one_seq_len_def Let_def WordBits_def w_def [symmetric] b_def [symmetric]
          test [simplified] ctz r ones_up_runlen)
  qed
qed

lemma febitvec_zero_seq_len_correct:
  assumes "p < m_size v"
  shows "febitvec_zero_seq_len v p = runlen (\<lambda>i. \<not> wbit (m_words v) i) p (64 * num_words v)"
proof -
  let ?ws = "m_words v" and ?P = "\<lambda>i. \<not> wbit (m_words v) i"
  define w b where "w = p div 64" and "b = p mod 64"
  have p: "p = 64 * w + b" and b: "b < 64" by (simp_all add: w_def b_def)
  have wn: "w + 1 \<le> num_words v"
    using assms b unfolding p num_words_def WordBits_def by linarith
  show ?thesis
  proof (cases "b = 0")
    case True
    with p wn show ?thesis
      by (simp add: febitvec_zero_seq_len_def Let_def WordBits_def zeros_up_runlen)
  next
    case False
    let ?Q = "\<lambda>i. \<not> bit (?ws ! w) i"
    let ?r = "runlen ?Q b 64"
    have r: "runlen ?P p (64 * num_words v) =
        (if ?r < 64 - b then ?r else (64 - b) + runlen ?P (64 * (w + 1)) (64 * num_words v))"
      using b wn runlen_next_word [of b w "num_words v" Not ?ws] unfolding p by simp
    have nz: "drop_bit b (?ws ! w) \<noteq> 0 \<longleftrightarrow> ?r < 64 - b"
    proof -
      have "drop_bit b (?ws ! w) = 0 \<longleftrightarrow> (\<forall>k<64. \<not> bit (?ws ! w) (b + k))"
        unfolding word_eq_0_bits by (simp add: bit_simps)
      also have "\<dots> \<longleftrightarrow> (\<forall>k<64 - b. \<not> bit (?ws ! w) (b + k))"
        by (auto simp: less_diff_conv add.commute dest: bit_u64_less)
      finally have "drop_bit b (?ws ! w) \<noteq> 0 \<longleftrightarrow> (\<exists>k<64 - b. bit (?ws ! w) (b + k))" by blast
      also have "\<dots> \<longleftrightarrow> ?r < 64 - b"
        using runlen_stop [of b ?Q 64] runlen_in [of _ ?Q b 64] runlen_le [of ?Q b 64]
        by (metis (no_types, lifting) add_diff_cancel_left' le_neq_implies_less less_diff_conv add.commute)
      finally show ?thesis .
    qed
    have ctz: "fast_ctz (drop_bit b (?ws ! w)) = ?r" if "?r < 64 - b"
    proof -
      have "fast_ctz (drop_bit b (?ws ! w)) = runlen (\<lambda>k. ?Q (k + b)) 0 64"
        unfolding fast_ctz_runlen by (simp, rule runlen_cong) (simp add: bit_simps add.commute)
      also have "\<dots> = runlen ?Q b (64 + b)" using runlen_shift [of ?Q b 0 64] by simp
      also have "\<dots> = ?r" using that b runlen_split [of b 64 "64 + b" ?Q] by simp
      finally show ?thesis .
    qed
    have test: "?ws ! w AND push_bit b 1 = 0 \<longleftrightarrow> \<not> bit (?ws ! w) b"
      using and_single_bit_neq_0 [of b "?ws ! w"] b by auto
    have "?r \<le> 64 - b" by (rule runlen_le)
    with False b wn show ?thesis
      using runlen_not [of ?Q b 64] nz ctz
      by (auto simp add: febitvec_zero_seq_len_def Let_def WordBits_def w_def [symmetric] b_def [symmetric]
          test [simplified] r zeros_up_runlen)
  qed
qed

text \<open>The reverse runs: they never look at a bit past \<open>endpos\<close>.\<close>

lemma revlen_next_word:
  fixes ws :: "u64 list"
  assumes "b \<le> 64"
  shows "revlen (\<lambda>i. P (wbit ws i)) (64 * w + b) =
    (if revlen (\<lambda>i. P (bit (ws ! w) i)) b < b then revlen (\<lambda>i. P (bit (ws ! w) i)) b
     else b + revlen (\<lambda>i. P (wbit ws i)) (64 * w))"
proof -
  have "revlen (\<lambda>k. P (wbit ws (64 * w + k))) b = revlen (\<lambda>i. P (bit (ws ! w) i)) b"
    using assms by (intro revlen_cong) (simp add: wbit_def)
  then show ?thesis by (simp only: revlen_add)
qed

lemma revlen_all: "revlen P n < n \<longleftrightarrow> \<not> (\<forall>k<n. P k)"
proof (induction n)
  case (Suc n)
  then show ?case by (auto simp: revlen_Suc less_Suc_eq)
qed simp

lemma ones_down_revlen: "ones_down bits j s = s + revlen (wbit bits) (64 * j)"
proof (induction j arbitrary: s)
  case (Suc j)
  let ?r = "revlen (bit (bits ! j)) 64"
  have clz: "fast_clz (NOT (bits ! j)) = ?r"
    unfolding fast_clz_revlen by (simp, rule revlen_cong) (simp add: bit_simps)
  have z: "NOT (bits ! j) = 0 \<longleftrightarrow> \<not> ?r < 64"
    by (auto simp: revlen_all word_eq_0_bits bit_simps)
  show ?case using Suc.IH [of "s + 64"] revlen_next_word [of 64 "\<lambda>b. b" bits j]
    by (simp add: Let_def z clz WordBits_def add.commute)
qed simp

lemma zeros_down_revlen: "zeros_down bits j s = s + revlen (\<lambda>i. \<not> wbit bits i) (64 * j)"
proof (induction j arbitrary: s)
  case (Suc j)
  let ?r = "revlen (\<lambda>i. \<not> bit (bits ! j) i) 64"
  have clz: "fast_clz (bits ! j) = ?r" by (simp add: fast_clz_revlen)
  have z: "bits ! j = 0 \<longleftrightarrow> \<not> ?r < 64"
    by (auto simp: revlen_all word_eq_0_bits)
  show ?case using Suc.IH [of "s + 64"] revlen_next_word [of 64 Not bits j]
    by (simp add: Let_def z clz WordBits_def add.commute)
qed simp

lemma revlen_top_bits:
  fixes x :: u64
  assumes "b \<le> 64"
  shows "revlen (\<lambda>i. Q (bit (push_bit (64 - b) x) i)) 64 =
    (if revlen (\<lambda>i. Q (bit x i)) b < b then revlen (\<lambda>i. Q (bit x i)) b
     else b + revlen (\<lambda>i. Q False) (64 - b))"
proof -
  have "revlen (\<lambda>k. Q (bit (push_bit (64 - b) x) (64 - b + k))) b = revlen (\<lambda>i. Q (bit x i)) b"
  proof (rule revlen_cong)
    fix n assume "n < b"
    then have "64 - b + n < 64" using assms by linarith
    then show "Q (bit (push_bit (64 - b) x) (64 - b + n)) = Q (bit x n)" by (simp add: bit_push_bit_iff)
  qed
  moreover have "revlen (\<lambda>i. Q (bit (push_bit (64 - b) x) i)) (64 - b) = revlen (\<lambda>i. Q False) (64 - b)"
    by (intro revlen_cong) (auto simp: bit_simps)
  ultimately show ?thesis
    using revlen_add [of "\<lambda>i. Q (bit (push_bit (64 - b) x) i)" "64 - b" b] assms by simp
qed

lemma pred_pos:
  assumes "p mod 64 \<noteq> (0::nat)"
  shows "(p - 1) div 64 = p div 64" and "(p - 1) mod 64 = p mod 64 - 1"
proof -
  have "p - 1 = 64 * (p div 64) + (p mod 64 - 1)"
    using assms div_mult_mod_eq [of p 64] by linarith
  moreover have "p mod 64 - 1 < 64" by (rule less_imp_diff_less) simp
  ultimately show "(p - 1) div 64 = p div 64" and "(p - 1) mod 64 = p mod 64 - 1" by simp_all
qed

lemma revlen_const_True [simp]: "revlen (\<lambda>_. True) n = n"
  by (induction n) (auto simp: revlen_Suc)

lemma revlen_const_False [simp]: "revlen (\<lambda>_. False) n = 0"
  by (induction n) (auto simp: revlen_Suc)

lemma revlen_not: "0 < n \<Longrightarrow> \<not> P (n - 1) \<Longrightarrow> revlen P n = 0"
  by (cases n) (auto simp: revlen_Suc)

lemma febitvec_one_seq_revlen_correct:
  "febitvec_one_seq_revlen v p = revlen (wbit (m_words v)) p"
proof -
  let ?ws = "m_words v"
  define w b where "w = p div 64" and "b = p mod 64"
  have p: "p = 64 * w + b" and b: "b < 64" by (simp_all add: w_def b_def)
  show ?thesis
  proof (cases "b = 0")
    case True
    with p show ?thesis
      by (simp add: febitvec_one_seq_revlen_def Let_def WordBits_def ones_down_revlen)
  next
    case False
    let ?r = "revlen (bit (?ws ! w)) b"
    have clz: "fast_clz (NOT (push_bit (64 - b) (?ws ! w))) = ?r"
    proof -
      have "fast_clz (NOT (push_bit (64 - b) (?ws ! w))) = revlen (\<lambda>i. bit (push_bit (64 - b) (?ws ! w)) i) 64"
        unfolding fast_clz_revlen by (simp, rule revlen_cong) (simp add: bit_simps)
      then show ?thesis using revlen_top_bits [of b "\<lambda>b. b" "?ws ! w"] b revlen_le [of "bit (?ws ! w)" b] by simp
    qed
    have test: "?ws ! w AND push_bit (b - 1) 1 = 0 \<longleftrightarrow> \<not> bit (?ws ! w) (b - 1)"
      using and_single_bit_neq_0 [of "b - 1" "?ws ! w"] less_imp_diff_less [OF b] by auto
    have "?r \<le> b" by (rule revlen_le)
    then show ?thesis
      using False revlen_not [of b "bit (?ws ! w)"] b revlen_next_word [of b "\<lambda>b. b" ?ws w]
        pred_pos [of p]
      by (auto simp: febitvec_one_seq_revlen_def Let_def WordBits_def w_def [symmetric] b_def [symmetric]
          test [simplified] clz ones_down_revlen p [symmetric])
  qed
qed

lemma febitvec_zero_seq_revlen_correct:
  "febitvec_zero_seq_revlen v p = revlen (\<lambda>i. \<not> wbit (m_words v) i) p"
proof -
  let ?ws = "m_words v"
  define w b where "w = p div 64" and "b = p mod 64"
  have p: "p = 64 * w + b" and b: "b < 64" by (simp_all add: w_def b_def)
  show ?thesis
  proof (cases "b = 0")
    case True
    with p show ?thesis
      by (simp add: febitvec_zero_seq_revlen_def Let_def WordBits_def zeros_down_revlen)
  next
    case False
    let ?Q = "\<lambda>i. \<not> bit (?ws ! w) i"
    let ?r = "revlen ?Q b" and ?y = "push_bit (64 - b) (?ws ! w)"
    have rr: "revlen (\<lambda>i. \<not> bit ?y i) 64 = (if ?r < b then ?r else 64)"
      using revlen_top_bits [of b Not "?ws ! w"] b by simp
    have clz: "fast_clz ?y = ?r" if "?r < b" using rr that by (simp add: fast_clz_revlen)
    have nz: "?y = 0 \<longleftrightarrow> \<not> ?r < b"
    proof -
      have "?y = 0 \<longleftrightarrow> \<not> revlen (\<lambda>i. \<not> bit ?y i) 64 < 64"
        unfolding revlen_all by (simp only: word_eq_0_bits) simp
      then show ?thesis using rr b by auto
    qed
    have test: "?ws ! w AND push_bit (b - 1) 1 = 0 \<longleftrightarrow> \<not> bit (?ws ! w) (b - 1)"
      using and_single_bit_neq_0 [of "b - 1" "?ws ! w"] less_imp_diff_less [OF b] by auto
    have "?r \<le> b" by (rule revlen_le)
    then show ?thesis
      using False revlen_not [of b ?Q] b revlen_next_word [of b Not ?ws w] clz nz pred_pos [of p]
      by (auto simp: febitvec_zero_seq_revlen_def Let_def WordBits_def w_def [symmetric] b_def [symmetric]
          test [simplified] zeros_down_revlen p [symmetric])
  qed
qed

section \<open>Packed integers: reading back what was written\<close>

lemma div_add_small:
  fixes L :: nat
  assumes "o' < L" and "k < L"
  shows "(L * i + o' + k) div L = (if o' + k < L then i else i + 1)"
    and "(L * i + o' + k) mod L = (if o' + k < L then o' + k else o' + k - L)"
proof -
  have "(L * i + o' + k) div L = (if o' + k < L then i else i + 1) \<and>
    (L * i + o' + k) mod L = (if o' + k < L then o' + k else o' + k - L)"
  proof (cases "o' + k < L")
    case True
    then show ?thesis by (simp add: add.assoc)
  next
    case False
    define r where "r = o' + k - L"
    have eq: "L * i + o' + k = L * (i + 1) + r" and r: "r < L" using False assms by (auto simp: r_def)
    have "(L * (i + 1) + r) div L = i + 1" "(L * (i + 1) + r) mod L = r"
      using r div_mult_self4 [of L "i + 1" r] mod_mult_self4 [of L "i + 1" r] by simp_all
    with False show ?thesis unfolding eq r_def [symmetric] by simp
  qed
  then show "(L * i + o' + k) div L = (if o' + k < L then i else i + 1)"
    and "(L * i + o' + k) mod L = (if o' + k < L then o' + k else o' + k - L)" by simp_all
qed

lemma bit_s_get_uint [word_nth]:
  fixes ws :: "'a::len word list"
  assumes "width \<le> LENGTH('a)"
  shows "bit (s_get_uint ws p width) k \<longleftrightarrow> k < width \<and> wbit ws (p + k)"
proof (cases "k < LENGTH('a)")
  case False
  with assms show ?thesis by (auto dest: bit_imp_le_length)
next
  case True
  define i b where "i = p div LENGTH('a)" and "b = p mod LENGTH('a)"
  have p: "p = LENGTH('a) * i + b" and b: "b < LENGTH('a)" by (simp_all add: i_def b_def)
  note defs = i_def [symmetric] b_def [symmetric]
  have w: "wbit ws (p + k) = (if b + k < LENGTH('a) then bit (ws ! i) (b + k) else bit (ws ! (i + 1)) (b + k - LENGTH('a)))"
    using div_add_small [OF b True, of i] unfolding p wbit_def by simp
  show ?thesis
    using assms True b unfolding w
    by (auto simp: s_get_uint_def Let_def defs bit_simps add.commute [of k] dest: bit_imp_le_length)
qed

lemma length_s_set_uint [simp, len_simps]: "length (set_uint_words ws p w val) = length ws"
  by (simp add: set_uint_words_def Let_def)

lemma wbit_s_set_uint [word_nth]:
  fixes ws :: "'a::len word list"
  assumes "w \<le> LENGTH('a)" and "p + w \<le> LENGTH('a) * length ws" and "n < LENGTH('a) * length ws"
    and "take_bit w val = val"
  shows "wbit (set_uint_words ws p w val) n = (if p \<le> n \<and> n < p + w then bit val (n - p) else wbit ws n)"
proof -
  define L where "L = LENGTH('a)"
  have L: "0 < L" by (simp add: L_def)
  define i b where "i = p div L" and "b = p mod L"
  have p: "p = L * i + b" and b: "b < L" using L by (simp_all add: i_def b_def)
  define a c where "a = n div L" and "c = n mod L"
  have n: "n = L * a + c" and c: "c < L" using L by (simp_all add: a_def c_def)
  have a: "a < length ws" using assms(3) L unfolding a_def L_def [symmetric] by (simp add: div_lt_length_iff)
  have val: "bit val k \<longleftrightarrow> bit val k \<and> k < w" for k using assms(4) by (metis bit_take_bit_iff)
  note defs = L_def [symmetric] i_def [symmetric] b_def [symmetric] a_def [symmetric] c_def [symmetric]
  consider "a < i" | "a = i" | "a = i + 1" | "i + 1 < a" by linarith
  then show ?thesis
  proof cases
    case 1
    then have "n < p" using pos_less_iff [OF L, of n p] by (simp add: a_def i_def)
    with 1 show ?thesis by (simp add: set_uint_words_def wbit_def Let_def defs)
  next
    case 2
    have cond: "p \<le> n \<longleftrightarrow> b \<le> c" "n < p + w \<longleftrightarrow> c < b + w" "n - p = c - b"
      using 2 unfolding p n by simp_all
    show ?thesis
      using 2 a b c val [of "c - b"] assms(1) unfolding cond
      by (cases "b + w < L"; cases "L < b + w")
        (auto simp: set_uint_words_def wbit_def Let_def defs bit_simps)
  next
    case 3
    have cond: "p \<le> n" "n < p + w \<longleftrightarrow> L + c < b + w" "n - p = L + c - b"
      using 3 b unfolding p n by auto
    have m: "(b + w) mod L = b + w - L" if "L < b + w"
      using that assms(1) b by (simp add: L_def mod_if)
    show ?thesis
      using 3 a b c val [of "L + c - b"] m assms(1) cond
      by (cases "b + w < L"; cases "L < b + w")
        (auto simp: set_uint_words_def wbit_def Let_def defs bit_simps)
  next
    case 4
    then have "L * (i + 2) \<le> L * a" by (intro mult_le_mono2) simp
    then have "p + w \<le> n" using b assms(1) unfolding p n L_def [symmetric] by simp
    with 4 show ?thesis by (simp add: set_uint_words_def wbit_def Let_def defs)
  qed
qed

lemma s_get_set_uint:
  fixes ws :: "'a::len word list"
  assumes "w \<le> LENGTH('a)" and "p + w \<le> LENGTH('a) * length ws" and "take_bit w val = val"
  shows "s_get_uint (set_uint_words ws p w val) p w = val"
proof (rule bit_word_eqI)
  fix k assume "k < LENGTH('a)"
  have "bit val k \<longleftrightarrow> k < w \<and> bit val k" using assms(3) by (metis bit_take_bit_iff)
  then show "bit (s_get_uint (set_uint_words ws p w val) p w) k = bit val k"
    using assms by (auto simp: bit_s_get_uint wbit_s_set_uint)
qed

text \<open>A slot that does not overlap the written one keeps its value.\<close>

lemma s_get_set_uint_other:
  fixes ws :: "'a::len word list"
  assumes "w \<le> LENGTH('a)" and "p + w \<le> LENGTH('a) * length ws" and "take_bit w val = val"
    and "u \<le> LENGTH('a)" and "q + u \<le> LENGTH('a) * length ws" and "q + u \<le> p \<or> p + w \<le> q"
  shows "s_get_uint (set_uint_words ws p w val) q u = s_get_uint ws q u"
proof (rule bit_word_eqI)
  fix k assume "k < LENGTH('a)"
  show "bit (s_get_uint (set_uint_words ws p w val) q u) k = bit (s_get_uint ws q u) k"
    using assms by (auto simp: bit_s_get_uint wbit_s_set_uint)
qed

text \<open>The writes stay in the words, if the field has bits or begins before their end.\<close>

lemma fits_drop_bit: "take_bit w val = val \<Longrightarrow> drop_bit w val = 0"
  for val :: "'a::len word"
  by (rule bit_word_eqI) (metis bit_0_eq bit_drop_bit_eq bit_take_bit_iff bot_apply bot_bool_def comp_apply le_add1 not_le)

lemma s_set_uint_tpl_run:
  fixes ws :: "'a::len word list"
  assumes "w \<le> LENGTH('a)" and "p + w \<le> LENGTH('a) * length ws" and "p < LENGTH('a) * length ws" and "take_bit w val = val"
  shows "s_set_uint_tpl ws p w val = Inr (set_uint_words ws p w val)"
proof -
  define L where "L = LENGTH('a)"
  have L: "0 < L" by (simp add: L_def)
  have "p div L < length ws" using assms(3) L by (simp add: L_def div_lt_length_iff)
  moreover have "p div L + 1 < length ws" if "p mod L + w > L"
  proof -
    have "p = L * (p div L) + p mod L" "L * (p div L + 1) = L * (p div L) + L" "p + w \<le> L * length ws"
      using assms(2) by (simp_all add: L_def)
    with that have "L * (p div L + 1) < L * length ws" by linarith
    then show ?thesis using L by (simp only: mult_less_cancel1)
  qed
  ultimately show ?thesis using assms(1) fits_drop_bit [OF assms(4)] by (simp add: s_set_uint_tpl_def Let_def L_def)
qed

lemma febitvec_set_uint_run:
  assumes "febitvec_ok v" and "w \<le> 64" and "p + w \<le> m_size v" and "p < m_size v" and "take_bit w val = val"
  shows "febitvec_set_uint v p w val = Inr (v\<lparr>m_words := set_uint_words (m_words v) p w val\<rparr>)"
proof -
  have "m_size v \<le> 64 * length (m_words v)" using assms(1) by (auto simp: febitvec_ok_def WordBits_def)
  with assms s_set_uint_tpl_run [of w p "m_words v" val] show ?thesis by (simp add: febitvec_set_uint_def)
qed

lemma febitvec_set_uint_ok [inv_intros]:
  assumes "febitvec_ok v" and "w \<le> 64" and "p + w \<le> m_size v" and "p < m_size v" and "take_bit w val = val"
  shows "\<exists>v'. febitvec_set_uint v p w val = Inr v' \<and> febitvec_ok v' \<and> m_size v' = m_size v \<and>
    febitvec_get_uint v' p w = val \<and>
    febitvec_bits v' = take p (febitvec_bits v) @ map (bit val) [0..<w] @ drop (p + w) (febitvec_bits v)"
proof -
  let ?v = "v\<lparr>m_words := set_uint_words (m_words v) p w val\<rparr>"
  have b: "p + w \<le> 64 * length (m_words v)" using assms by (auto simp: febitvec_ok_def WordBits_def)
  have "febitvec_ok ?v" by (rule febitvec_ok_words [OF assms(1)]) simp
  moreover have "febitvec_get_uint ?v p w = val" using assms b by (simp add: febitvec_get_uint_def s_get_set_uint)
  moreover have "febitvec_bits ?v = take p (febitvec_bits v) @ map (bit val) [0..<w] @ drop (p + w) (febitvec_bits v)"
    using assms b febitvec_ok_bound [OF assms(1)]
    by (intro febitvec_bits_eqI) (auto simp: wbit_s_set_uint nth_append febitvec_bits_nth)
  ultimately show ?thesis using febitvec_set_uint_run [OF assms] by simp
qed

text \<open>Both branches of \<open>push_uint\<close> are \<open>set_uint\<close> on a vector that has the new size already.\<close>

lemma febitvec_push_uint_run:
  assumes "w \<le> 64"
  shows "m_size v + w \<le> m_capacity v \<Longrightarrow>
      febitvec_push_uint env v w val = febitvec_set_uint (v\<lparr>m_size := m_size v + w\<rparr>) (m_size v) w val"
    and "\<not> m_size v + w \<le> m_capacity v \<Longrightarrow> febitvec_push_uint env v w val =
      bind_res (febitvec_resize_no_init env v (m_size v + w)) (\<lambda>u.
        febitvec_set_uint (u\<lparr>m_words := bits_range_set0 (m_words u) (m_size v) (m_size u)\<rparr>) (m_size v) w val)"
proof -
  show "m_size v + w \<le> m_capacity v \<Longrightarrow>
      febitvec_push_uint env v w val = febitvec_set_uint (v\<lparr>m_size := m_size v + w\<rparr>) (m_size v) w val"
    using assms
    by (cases "s_set_uint_tpl (m_words v) (m_size v) w val")
      (simp_all add: febitvec_push_uint_def febitvec_set_uint_def WordBits_def Let_def)
  have "m_size u = m_size v + w" if "febitvec_resize_no_init env v (m_size v + w) = Inr u" for u
    using that by (auto simp: febitvec_resize_no_init_def Let_def split: if_splits option.splits)
  then show "\<not> m_size v + w \<le> m_capacity v \<Longrightarrow> febitvec_push_uint env v w val =
      bind_res (febitvec_resize_no_init env v (m_size v + w)) (\<lambda>u.
        febitvec_set_uint (u\<lparr>m_words := bits_range_set0 (m_words u) (m_size v) (m_size u)\<rparr>) (m_size v) w val)"
    using assms
    by (cases "febitvec_resize_no_init env v (m_size v + w)")
      (simp_all add: febitvec_push_uint_def febitvec_set_uint_def WordBits_def Let_def)
qed

lemma febitvec_push_uint_ok [inv_intros]:
  assumes "febitvec_ok v" and "0 < w" "w \<le> 64" and "take_bit w val = val"
  shows "case febitvec_push_uint env v w val of
      Inr v' \<Rightarrow> febitvec_ok v' \<and> febitvec_bits v' = febitvec_bits v @ map (bit val) [0..<w]
    | Inl e \<Rightarrow> febitvec_resize_no_init env v (m_size v + w) = Inl e"
proof (cases "m_size v + w \<le> m_capacity v")
  case True
  let ?u = "v\<lparr>m_size := m_size v + w\<rparr>"
  have u: "febitvec_ok ?u" using assms(1) True by (intro febitvec_ok_size) auto
  have "take (m_size v) (febitvec_bits ?u) = febitvec_bits v"
    by (intro nth_equalityI) (auto simp: febitvec_bits_nth)
  with febitvec_set_uint_ok [OF u assms(3) _ _ assms(4), of "m_size v"] febitvec_push_uint_run(1) [OF assms(3) True] assms(2)
  show ?thesis by auto
next
  case False
  show ?thesis
  proof (cases "febitvec_resize_no_init env v (m_size v + w)")
    case (Inl e)
    then show ?thesis using febitvec_push_uint_run(2) [OF assms(3) False] by simp
  next
    case (Inr u)
    note uok = febitvec_resize_no_init_ok [OF assms(1) Inr]
    let ?x = "u\<lparr>m_words := bits_range_set0 (m_words u) (m_size v) (m_size u)\<rparr>"
    have x: "febitvec_ok ?x" by (rule febitvec_ok_words [OF uok(1)]) simp
    have "take (m_size v) (febitvec_bits ?x) = febitvec_bits v"
      using uok(2,4) febitvec_ok_bound [OF uok(1)]
      by (intro nth_equalityI) (auto simp: febitvec_bits_nth wbit_bits_range_set0)
    with febitvec_set_uint_ok [OF x assms(3) _ _ assms(4), of "m_size v"] febitvec_push_uint_run(2) [OF assms(3) False]
      uok(2) assms(2) Inr show ?thesis by auto
  qed
qed

text \<open>A field of no bits at the end of a vector whose words are all in use.\<close>

lemma uint_of_no_bits:
  assumes "febitvec_ok v" and "m_size v = m_capacity v"
  shows "febitvec_push_uint env v 0 0 = Inl Undefined" and "febitvec_set_uint v (m_size v) 0 0 = Inl Undefined"
proof -
  have "\<not> m_size v div 64 < length (m_words v)" using assms by (auto simp: febitvec_ok_def WordBits_def)
  then show "febitvec_push_uint env v 0 0 = Inl Undefined" "febitvec_set_uint v (m_size v) 0 0 = Inl Undefined"
    using assms(2) by (simp_all add: febitvec_push_uint_def febitvec_set_uint_def s_set_uint_tpl_def Let_def)
qed

section \<open>Constructors, copies and shrinking\<close>

lemma febitvec_null_ok [simp]: "febitvec_ok febitvec_null" "febitvec_bits febitvec_null = []"
  by (simp_all add: febitvec_ok_def febitvec_null_def febitvec_bits_def)

lemma m_size_null [simp]: "m_size febitvec_null = 0" "m_capacity febitvec_null = 0"
  by (simp_all add: febitvec_null_def)

lemma febitvec_init_ok [inv_intros]:
  assumes "febitvec_init env n val = Inr v"
  shows "febitvec_ok v" and "febitvec_bits v = replicate n val"
  using febitvec_resize_ok [OF febitvec_null_ok(1) assms [unfolded febitvec_init_def]] by simp_all

lemma febitvec_clear_ok [inv_intros]: "febitvec_ok (febitvec_clear v)" "febitvec_bits (febitvec_clear v) = []"
  by (simp_all add: febitvec_clear_def febitvec_release_def febitvec_ok_def febitvec_bits_def)

lemma febitvec_erase_all_ok [inv_intros]:
  "febitvec_ok v \<Longrightarrow> febitvec_ok (febitvec_erase_all v)" "febitvec_bits (febitvec_erase_all v) = []"
  by (simp_all add: febitvec_erase_all_def febitvec_ok_def febitvec_bits_def)

lemma wbit_cong_words:
  fixes ws ws' :: "'a::len word list"
  shows "ws ! (i div LENGTH('a)) = ws' ! (i div LENGTH('a)) \<Longrightarrow> wbit ws i = wbit ws' i"
  by (simp add: wbit_def)

lemma febitvec_copy_init_ok [inv_intros]:
  assumes "febitvec_ok y" and "febitvec_copy_init env y = Inr v"
  shows "febitvec_ok v" and "febitvec_bits v = febitvec_bits y"
proof -
  let ?n = "ceiled_div (m_size y) 64"
  have n: "align_up (m_size y) 64 div 64 = ?n" by (simp add: align_up_div)
  have le: "?n \<le> length (m_words y)" "m_size y \<le> 64 * ?n"
    using assms(1) ceiled_div_mult_ge [of 64 "m_size y"]
    by (auto simp: febitvec_ok_def WordBits_def ceiled_div_def)
  show "febitvec_ok v"
    using assms le by (auto simp: febitvec_copy_init_def febitvec_ok_def WordBits_def AllocUnitBits_def n
        Let_def split: if_splits)
  have tk: "wbit (take ?n (m_words y)) i = wbit (m_words y) i" if "i < m_size y" for i
    using ceiled_div_gt [OF that] by (intro wbit_cong_words) simp
  show "febitvec_bits v = febitvec_bits y"
    using assms(2) le tk
    by (intro febitvec_bits_eqI)
      (auto simp: febitvec_copy_init_def AllocUnitBits_def WordBits_def n Let_def febitvec_bits_nth
        split: if_splits)
qed

text \<open>Assigning a vector to itself frees the words before they are copied: the content is lost.\<close>

lemma febitvec_copy_assign_self_empty:
  "febitvec_copy_assign_self env v = Inr febitvec_null"
  by (simp add: febitvec_copy_assign_self_def febitvec_clear_def febitvec_release_def
      febitvec_copy_init_def febitvec_null_def align_up_def AllocUnitBits_def WordBits_def)

lemma febitvec_shrink_ok [inv_intros]:
  assumes "febitvec_ok v" and "febitvec_shrink_to_fit env v = Inr v'" and "\<not> m_null v"
  shows "febitvec_ok v'" and "febitvec_bits v' = febitvec_bits v" and "m_capacity v' < m_size v + 64"
proof -
  let ?c = "align_up (m_size v) 64"
  have c: "m_size v \<le> ?c" "?c < m_size v + 64" by (simp_all add: align_up_ge align_up_less)
  define u where "u = (if m_size v = 0 then v\<lparr>m_words := [], m_null := True, m_capacity := 0\<rparr> else v)"
  have u: "m_size u = m_size v" by (simp add: u_def)
  obtain q where q: "realloc_words env (m_words u) (?c div 8) = Some q"
    and v': "v' = u\<lparr>m_words := q, m_null := False, m_capacity := ?c\<rparr>"
    using assms(2,3) u by (auto simp: febitvec_shrink_to_fit_def u_def Let_def AllocUnitBits_def split: option.splits)
  have len: "length q = ceiled_div (m_size v) 64"
    using q by (auto simp: realloc_words_Some div_mult2_eq [symmetric] align_up_div)
  have le: "ceiled_div (m_size v) 64 \<le> length (m_words v)"
    using assms(1) by (auto simp: febitvec_ok_def WordBits_def ceiled_div_def)
  have cap: "64 * ceiled_div (m_size v) 64 = ?c" by (simp add: align_up_def ceiled_div_def)
  show "febitvec_ok v'" using len cap c u by (auto simp: v' febitvec_ok_def WordBits_def)
  show "m_capacity v' < m_size v + 64" using c by (simp add: v')
  show "febitvec_bits v' = febitvec_bits v"
  proof (rule febitvec_bits_eqI)
    show "m_size v' = length (febitvec_bits v)" using u by (simp add: v')
    fix i assume i: "i < m_size v'"
    then have w: "i div 64 < length q" using u v' by (simp add: len ceiled_div_gt)
    have "m_words u = m_words v" using i u v' by (auto simp: u_def)
    then have "q ! (i div 64) = m_words v ! (i div 64)"
      using q w le len by (auto simp: realloc_words_Some)
    then show "wbit (m_words v') i = febitvec_bits v ! i"
      using i u v' by (simp add: febitvec_bits_nth wbit_def)
  qed
qed

text \<open>The constructor of a sub-range copies exactly that range of bits.\<close>

lemma nth_fold_shift:
  assumes "n < length p"
  shows "fold (\<lambda>i p. p[i := f (p ! i) (p ! (i + 1))]) [0..<n] p =
    map (\<lambda>i. if i < n then f (p ! i) (p ! (i + 1)) else p ! i) [0..<length p]"
  using assms
proof (induction n)
  case 0
  then show ?case by (simp add: map_nth)
next
  case (Suc n)
  then show ?case by (auto intro!: nth_equalityI simp: nth_list_update less_Suc_eq)
qed

lemma febitvec_init_range_ok [inv_intros]:
  assumes "febitvec_init_range env y beg len = Inr v"
  shows "febitvec_ok v" and "febitvec_bits v = take len (drop beg (febitvec_bits y))"
    and "beg + len \<le> m_size y"
proof -
  show bound: "beg + len \<le> m_size y"
    using assms by (auto simp: febitvec_init_range_def split: if_splits)
  have "febitvec_ok v \<and> febitvec_bits v = take len (drop beg (febitvec_bits y))"
  proof (cases "len = 0")
    case True
    with assms show ?thesis by (auto simp: febitvec_init_range_def split: if_splits)
  next
    case False
    define B r where "B = beg div 64" and "r = beg mod 64"
    define N where "N = (beg + len + 63) div 64 - B"
    have beg: "beg = 64 * B + r" and r: "r < 64" by (simp_all add: B_def r_def)
    have N: "0 < N" "r + len \<le> 64 * N" using False r unfolding N_def beg by auto
    have cap: "align_up (64 * N) 64 = 64 * N" by (simp add: align_up_def)
    define w where "w = (\<lambda>i. m_words y ! (B + i))"
    define bits0 where "bits0 = map w [0..<N]"
    define f where "f = (\<lambda>a b :: u64. drop_bit r a OR push_bit (64 - r) b)"
    define bits1 where "bits1 = (if r \<noteq> 0
        then (fold (\<lambda>i p. p[i := f (p ! i) (p ! (i + 1))]) [0..<N - 1] bits0)
          [N - 1 := drop_bit r (fold (\<lambda>i p. p[i := f (p ! i) (p ! (i + 1))]) [0..<N - 1] bits0 ! (N - 1))]
        else bits0)"
    have v: "v = \<lparr>m_words = bits1, m_null = False, m_size = len, m_capacity = 64 * N\<rparr>"
    proof -
      have "map (\<lambda>i. if i < N then m_words y ! (B + i) else fresh env i) [0..<N] = bits0"
        by (auto simp: bits0_def w_def)
      moreover have num: "(beg + len + 64 - 1) div 64 - B = N" by (simp add: N_def)
      moreover have cap2: "64 * N div 64 = N" by simp
      moreover note assms [unfolded febitvec_init_range_def Let_def WordBits_def AllocUnitBits_def,
          folded B_def r_def, unfolded num cap cap2]
      ultimately show ?thesis using False by (auto simp: bits1_def f_def split: if_splits)
    qed
    have len1: "length bits1 = N" by (simp add: bits1_def bits0_def)
    have nth1: "bits1 ! i = drop_bit r (w i) OR (if r \<noteq> 0 \<and> i < N - 1 then push_bit (64 - r) (w (i + 1)) else 0)"
      if "i < N" for i
      using that N(1) nth_fold_shift [of "N - 1" bits0 f]
      by (auto simp: bits1_def bits0_def f_def nth_list_update)
    have "wbit bits1 n = wbit (m_words y) (beg + n)" if n: "n < len" for n
    proof -
      define i k where "i = n div 64" and "k = n mod 64"
      have nn: "n = 64 * i + k" and k: "k < 64" by (simp_all add: i_def k_def)
      have i: "i < N" using n N unfolding nn by linarith
      have i1: "i < N - 1" if "\<not> r + k < 64" using that n N unfolding nn by linarith
      have "beg + n = 64 * (B + i) + r + k" by (simp add: beg nn)
      then have "wbit (m_words y) (beg + n) = (if r + k < 64 then bit (w i) (r + k) else bit (w (i + 1)) (r + k - 64))"
        using div_add_small [OF r k, of "B + i"] by (simp add: wbit_def w_def)
      moreover have "wbit bits1 n = bit (bits1 ! i) k" by (simp add: wbit_def i_def k_def)
      moreover have "bit (bits1 ! i) k = (if r + k < 64 then bit (w i) (r + k) else bit (w (i + 1)) (r + k - 64))"
        unfolding nth1 [OF i] using i1 k r
        by (auto simp: bit_simps add.commute [of k] dest: bit_u64_less)
      ultimately show ?thesis by simp
    qed
    then have "febitvec_bits v = take len (drop beg (febitvec_bits y))"
      using bound by (intro febitvec_bits_eqI) (auto simp: v febitvec_bits_nth)
    moreover have "febitvec_ok v" using N by (simp add: v febitvec_ok_def len1 WordBits_def)
    ultimately show ?thesis by simp
  qed
  then show "febitvec_ok v" and "febitvec_bits v = take len (drop beg (febitvec_bits y))" by simp_all
qed

section \<open>Word-wise operators and filling\<close>

lemma word_loop_nth [word_nth]:
  assumes "k < length x"
  shows "word_loop f i j y x ! k = (if i \<le> k \<and> k < j then f (x ! k) (y ! k) else x ! k)"
proof -
  have "k < length x \<Longrightarrow> word_loop f i j y x ! k = (if i \<le> k \<and> k < j then f (x ! k) (y ! k) else x ! k) \<and>
    length (word_loop f i j y x) = length x" for k
    by (induction j arbitrary: k) (auto simp: word_loop_def nth_list_update less_Suc_eq)
  with assms show ?thesis by blast
qed

lemma length_word_loop [simp, len_simps]: "length (word_loop f i j y x) = length x"
  by (simp add: word_loop_def)

text \<open>An operator that acts bit by bit acts so on the values, when the right operand is long enough.\<close>

lemma word_loop_bits:
  assumes "febitvec_ok v" and "m_size v \<le> m_size y"
    and "\<And>a b k. k < 64 \<Longrightarrow> bit (f a b) k = F (bit a k) (bit b k)"
  defines "v' \<equiv> v\<lparr>m_words := word_loop f 0 (min (num_words v) (num_words y)) (m_words y) (m_words v)\<rparr>"
  shows "febitvec_ok v' \<and> febitvec_bits v' = map2 F (febitvec_bits v) (take (m_size v) (febitvec_bits y))"
proof
  show "febitvec_ok v'" unfolding v'_def by (rule febitvec_ok_words [OF assms(1)]) simp
  have n: "min (num_words v) (num_words y) = num_words v"
    using assms(2) by (auto simp: num_words_def WordBits_def intro!: div_le_mono)
  show "febitvec_bits v' = map2 F (febitvec_bits v) (take (m_size v) (febitvec_bits y))"
  proof (rule febitvec_bits_eqI)
    show "m_size v' = length (map2 F (febitvec_bits v) (take (m_size v) (febitvec_bits y)))"
      using assms(2) by (simp add: v'_def)
    fix i assume "i < m_size v'"
    then have i: "i < m_size v" by (simp add: v'_def)
    have "i div 64 < num_words v" using i unfolding num_words_def WordBits_def by linarith
    moreover have "i div 64 < length (m_words v)"
      using febitvec_ok_bound [OF assms(1) i] by (simp add: div_less_iff_less_mult mult.commute)
    ultimately have "wbit (m_words v') i = F (wbit (m_words v) i) (wbit (m_words y) i)"
      unfolding v'_def n by (simp add: wbit_def word_loop_nth assms(3))
    then show "wbit (m_words v') i = map2 F (febitvec_bits v) (take (m_size v) (febitvec_bits y)) ! i"
      using i assms(2) by (simp add: febitvec_bits_nth)
  qed
qed

lemma febitvec_minus_ok [inv_intros]:
  "febitvec_ok v \<Longrightarrow> m_size v \<le> m_size y \<Longrightarrow> febitvec_ok (febitvec_minus v y) \<and>
   febitvec_bits (febitvec_minus v y) = map2 (\<lambda>a b. a \<and> \<not> b) (febitvec_bits v) (take (m_size v) (febitvec_bits y))"
  unfolding febitvec_minus_def by (rule word_loop_bits) (auto simp: bit_simps)

lemma febitvec_xor_ok [inv_intros]:
  "febitvec_ok v \<Longrightarrow> m_size v \<le> m_size y \<Longrightarrow> febitvec_ok (febitvec_xor v y) \<and>
   febitvec_bits (febitvec_xor v y) = map2 (\<noteq>) (febitvec_bits v) (take (m_size v) (febitvec_bits y))"
  unfolding febitvec_xor_def by (rule word_loop_bits) (auto simp: bit_simps)

lemma febitvec_and_ok [inv_intros]:
  "febitvec_ok v \<Longrightarrow> m_size v \<le> m_size y \<Longrightarrow> febitvec_ok (febitvec_and v y) \<and>
   febitvec_bits (febitvec_and v y) = map2 (\<and>) (febitvec_bits v) (take (m_size v) (febitvec_bits y))"
  unfolding febitvec_and_def by (rule word_loop_bits) (auto simp: bit_simps)

lemma febitvec_or_ok [inv_intros]:
  "febitvec_ok v \<Longrightarrow> m_size v \<le> m_size y \<Longrightarrow> febitvec_ok (febitvec_or v y) \<and>
   febitvec_bits (febitvec_or v y) = map2 (\<or>) (febitvec_bits v) (take (m_size v) (febitvec_bits y))"
  unfolding febitvec_or_def by (rule word_loop_bits) (auto simp: bit_simps)

lemma febitvec_beg_end_set_ok [inv_intros]:
  assumes "febitvec_ok v" and "b \<le> e" and "e \<le> m_size v"
  shows "febitvec_ok (febitvec_beg_end_set v b e val)"
    and "febitvec_bits (febitvec_beg_end_set v b e val) =
      take b (febitvec_bits v) @ replicate (e - b) val @ drop e (febitvec_bits v)"
proof -
  show "febitvec_ok (febitvec_beg_end_set v b e val)"
    unfolding febitvec_beg_end_set_def by (rule febitvec_ok_words [OF assms(1)]) simp
  show "febitvec_bits (febitvec_beg_end_set v b e val) =
      take b (febitvec_bits v) @ replicate (e - b) val @ drop e (febitvec_bits v)"
    using assms febitvec_ok_bound [OF assms(1)]
    by (intro febitvec_bits_eqI)
      (auto simp: febitvec_beg_end_set_def wbit_bits_range_set nth_append febitvec_bits_nth)
qed

lemma febitvec_fill_ok [inv_intros]:
  assumes "febitvec_ok v"
  shows "febitvec_ok (febitvec_fill v val)" and "febitvec_bits (febitvec_fill v val) = replicate (m_size v) val"
proof -
  show "febitvec_ok (febitvec_fill v val)"
    unfolding febitvec_fill_def by (rule febitvec_ok_words [OF assms]) simp
  have "i div 64 < num_words v" if "i < m_size v" for i
    using that unfolding num_words_def WordBits_def by linarith
  moreover have "i div 64 < length (m_words v)" if "i < m_size v" for i
    using febitvec_ok_bound [OF assms that] by (simp add: div_less_iff_less_mult mult.commute)
  ultimately show "febitvec_bits (febitvec_fill v val) = replicate (m_size v) val"
    by (intro febitvec_bits_eqI) (auto simp: febitvec_fill_def wbit_def fold_const_nth bit_simps)
qed

lemma febitvec_resize_fill_ok [inv_intros]:
  assumes "febitvec_ok v" and "febitvec_resize_fill env v n val = Inr v'"
  shows "febitvec_ok v'" and "febitvec_bits v' = replicate n val"
proof -
  obtain u where u: "febitvec_resize_no_init env v n = Inr u" and v': "v' = febitvec_fill u val"
    using assms(2) by (auto simp: febitvec_resize_fill_def bind_res_Inr)
  note uok = febitvec_resize_no_init_ok(1,2) [OF assms(1) u]
  show "febitvec_ok v'" and "febitvec_bits v' = replicate n val"
    using febitvec_fill_ok [OF uok(1), of val] uok(2) by (simp_all add: v')
qed

text \<open>
  The constructor with padding: for fewer than 64 bits and a padding that differs from the value,
  the subtraction of 1 clears (or sets) the first bit, which belongs to the value.
\<close>

lemma bit_mask_minus_1: "bit (mask (Suc n) - 1 :: u64) k \<longleftrightarrow> 0 < k \<and> k \<le> n \<and> k < 64"
proof -
  have eq: "(mask (Suc n) - 1 :: u64) = push_bit 1 (mask n)"
    unfolding mask_eq_exp_minus_1 push_bit_eq_mult by (simp add: algebra_simps)
  show ?thesis by (subst eq, subst bit_push_bit_iff) (auto simp: bit_simps)
qed

lemma febitvec_init_padding_flips:
  assumes "0 < n" and "n < 64" and "alloc_ok env 8"
  shows "\<exists>v. febitvec_init_padding env n val (\<not> val) = Inr v \<and> febitvec_bits v = (replicate n val)[0 := \<not> val]"
proof -
  have cap: "double_cap_until 64 n = 64" using assms(2) by (subst double_cap_until.simps) simp
  have n1: "ceiled_div n 64 = 1" "(n + 64 - 1) div 64 = 1" using assms(1,2) by (auto simp: ceiled_div_def)
  obtain u where u: "febitvec_resize_no_init env febitvec_null n = Inr u" "m_size u = n" "m_capacity u = 64"
    "length (m_words u) = 1"
    using assms
    by (auto simp: febitvec_resize_no_init_def febitvec_null_def AllocUnitBits_def cap realloc_words_def)
  obtain x where x: "m_words u = [x]" using u(4) by (cases "m_words u") auto
  have m: "drop_bit (64 - n) (- 1 :: u64) = mask (Suc (n - 1))"
    using assms(1,2) by (intro bit_word_eqI) (auto simp: bit_simps)
  have nw: "num_words u = 1" using u(2) n1 by (simp add: num_words_def WordBits_def)
  let ?w = "if val then mask (Suc (n - 1)) - 1 else NOT (mask (Suc (n - 1)) - 1) :: u64"
  have "febitvec_init_padding env n val (\<not> val) = Inr (u\<lparr>m_words := [?w]\<rparr>)"
    using u assms(1,2) nw x unfolding febitvec_init_padding_def Let_def
    by (cases val) (auto simp: m)
  moreover have bm: "bit (mask n - 1 :: u64) i \<longleftrightarrow> 0 < i \<and> i < n" for i
    using bit_mask_minus_1 [of "n - 1" i] assms(1,2) by auto
  moreover have "febitvec_bits (u\<lparr>m_words := [?w]\<rparr>) = (replicate n val)[0 := \<not> val]"
    using assms(1,2) u(2) bm
    by (intro febitvec_bits_eqI) (auto simp: wbit_def nth_list_update bit_not_iff)
  ultimately show ?thesis by blast
qed

end
