(* ===== verification/Array_Spec.thy ===== *)
theory Array_Spec
  imports Topling_Prelude
begin

text \<open>
  What the growing arrays of the library promise their clients, as a locale over their operations: a vector stands
  for a list, grows and shrinks at its end, and is read and written by index.  \<open>valvec\<close> and \<open>febitvec\<close> (an array
  of booleans) are instances.
\<close>

section \<open>Running an array\<close>

text \<open>Pushing a list, and popping a number of elements, each read before it goes.\<close>

fun push_list :: "('q \<Rightarrow> 'a \<Rightarrow> 'q res) \<Rightarrow> 'q \<Rightarrow> 'a list \<Rightarrow> 'q res" where
  "push_list push q [] = Inr q"
| "push_list push q (x # xs) = bind_res (push q x) (\<lambda>q. push_list push q xs)"

fun pop_list :: "('q \<Rightarrow> nat) \<Rightarrow> ('q \<Rightarrow> nat \<Rightarrow> 'a res) \<Rightarrow> ('q \<Rightarrow> 'q res) \<Rightarrow> 'q \<Rightarrow> nat \<Rightarrow> ('q \<times> 'a list) res" where
  "pop_list len get pop q 0 = Inr (q, [])"
| "pop_list len get pop q (Suc k) =
     bind_res (get q (len q - 1)) (\<lambda>x. bind_res (pop q) (\<lambda>q.
       bind_res (pop_list len get pop q k) (\<lambda>(q, xs). Inr (q, x # xs))))"

text \<open>Writing a list from an index on.\<close>

fun put_list :: "('q \<Rightarrow> nat \<Rightarrow> 'a \<Rightarrow> 'q res) \<Rightarrow> 'q \<Rightarrow> nat \<Rightarrow> 'a list \<Rightarrow> 'q res" where
  "put_list put q i [] = Inr q"
| "put_list put q i (x # xs) = bind_res (put q i x) (\<lambda>q. put_list put q (Suc i) xs)"

section \<open>The interface\<close>

locale growing_array =
  fixes holds :: "'q \<Rightarrow> 'a list \<Rightarrow> bool"
    and push :: "'q \<Rightarrow> 'a \<Rightarrow> 'q res"
    and pop :: "'q \<Rightarrow> 'q res"
    and get :: "'q \<Rightarrow> nat \<Rightarrow> 'a res"
    and put :: "'q \<Rightarrow> nat \<Rightarrow> 'a \<Rightarrow> 'q res"
    and len :: "'q \<Rightarrow> nat"
  assumes push: "holds q xs \<Longrightarrow> \<exists>q'. push q x = Inr q' \<and> holds q' (xs @ [x])"
    and pop: "holds q xs \<Longrightarrow> xs \<noteq> [] \<Longrightarrow> \<exists>q'. pop q = Inr q' \<and> holds q' (butlast xs)"
    and get: "holds q xs \<Longrightarrow> i < length xs \<Longrightarrow> get q i = Inr (xs ! i)"
    and put: "holds q xs \<Longrightarrow> i < length xs \<Longrightarrow> \<exists>q'. put q i x = Inr q' \<and> holds q' (xs[i := x])"
    and len: "holds q xs \<Longrightarrow> len q = length xs"
begin

lemma push_list_holds: "holds q xs \<Longrightarrow> \<exists>q'. push_list push q ys = Inr q' \<and> holds q' (xs @ ys)"
proof (induction ys arbitrary: q xs)
  case (Cons y ys)
  obtain q1 where "push q y = Inr q1" "holds q1 (xs @ [y])" using push [OF Cons.prems] by blast
  with Cons.IH [of q1 "xs @ [y]"] show ?case by auto
qed simp

lemma pop_list_holds: "holds q (xs @ ys) \<Longrightarrow> \<exists>q'. pop_list len get pop q (length ys) = Inr (q', rev ys) \<and> holds q' xs"
proof (induction ys arbitrary: q rule: rev_induct)
  case (snoc y ys)
  have h: "holds q ((xs @ ys) @ [y])" using snoc.prems by simp
  have "(xs @ ys) @ [y] \<noteq> []" by simp
  from pop [OF h this] obtain q1 where "pop q = Inr q1" "holds q1 (xs @ ys)" unfolding butlast_snoc by blast
  moreover have "get q (len q - 1) = Inr y" using get [OF h, of "length (xs @ ys)"] len [OF h] by simp
  ultimately show ?case using snoc.IH [of q1] by auto
qed simp

text \<open>The array as a stack: what was pushed comes back in reverse, and what was below is untouched.\<close>

lemma lifo:
  assumes "holds q xs"
  shows "\<exists>q1 q2. push_list push q ys = Inr q1 \<and> pop_list len get pop q1 (length ys) = Inr (q2, rev ys) \<and> holds q2 xs"
  using push_list_holds [OF assms, of ys] pop_list_holds by blast

lemma put_list_holds:
  "holds q xs \<Longrightarrow> i + length ys \<le> length xs \<Longrightarrow>
    \<exists>q'. put_list put q i ys = Inr q' \<and> holds q' (take i xs @ ys @ drop (i + length ys) xs)"
proof (induction ys arbitrary: q xs i)
  case (Cons y ys)
  obtain q1 where q1: "put q i y = Inr q1" "holds q1 (xs[i := y])" using put [OF Cons.prems(1), of i y] Cons.prems(2) by auto
  have "take (Suc i) (xs[i := y]) = take i xs @ [y]" using Cons.prems(2) by (simp add: take_Suc_conv_app_nth)
  with Cons.IH [OF q1(2), of "Suc i"] q1(1) Cons.prems(2) show ?case by auto
qed simp

end

end
