(* ===== verification/Febitvec_Refine.thy ===== *)
theory Febitvec_Refine
  imports Febitvec_Ops Array_Spec
begin

text \<open>
  The contract of \<open>febitvec\<close> as a whole: a program of member calls on one vector refines the
  same program on a list of booleans.  \<open>bv_exec\<close> runs the modelled member function,
  \<open>bv_spec\<close> is its meaning on lists; a call whose precondition (the code's assertion) fails
  has no meaning.
\<close>

section \<open>Programs of member calls\<close>

datatype bv_op =
    Push_back bool
  | Pop_back
  | Set_bit nat bool
  | Ensure_set nat bool
  | Resize nat bool
  | Resize_fill nat bool
  | Reserve nat
  | Fill bool
  | Erase_all
  | Clear
  | Push_uint nat u64
  | Set_uint nat nat u64
  | Set_range nat nat bool

fun bv_exec :: "heap_env \<Rightarrow> febitvec \<Rightarrow> bv_op \<Rightarrow> febitvec res" where
  "bv_exec env v (Push_back b) = febitvec_push_back env v b"
| "bv_exec env v Pop_back = Inr (febitvec_pop_back v)"
| "bv_exec env v (Set_bit i b) = Inr (febitvec_set v i b)"
| "bv_exec env v (Ensure_set i b) = febitvec_ensure_set env v i b"
| "bv_exec env v (Resize n b) = febitvec_resize env v n b"
| "bv_exec env v (Resize_fill n b) = febitvec_resize_fill env v n b"
| "bv_exec env v (Reserve n) = febitvec_reserve env v n"
| "bv_exec env v (Fill b) = Inr (febitvec_fill v b)"
| "bv_exec env v Erase_all = Inr (febitvec_erase_all v)"
| "bv_exec env v Clear = Inr (febitvec_clear v)"
| "bv_exec env v (Push_uint w x) = febitvec_push_uint env v w x"
| "bv_exec env v (Set_uint p w x) = febitvec_set_uint v p w x"
| "bv_exec env v (Set_range b e val) = Inr (febitvec_beg_end_set v b e val)"

text \<open>A field has bits, or begins before the end: \<open>set_uint\<close> writes the word of its first bit in any case.\<close>

fun bv_spec :: "bool list \<Rightarrow> bv_op \<Rightarrow> bool list option" where
  "bv_spec bs (Push_back b) = Some (bs @ [b])"
| "bv_spec bs Pop_back = (if bs = [] then None else Some (butlast bs))"
| "bv_spec bs (Set_bit i b) = (if i < length bs then Some (bs[i := b]) else None)"
| "bv_spec bs (Ensure_set i b) = Some ((bs @ replicate (Suc i - length bs) False)[i := b])"
| "bv_spec bs (Resize n b) = Some (take n bs @ replicate (n - length bs) b)"
| "bv_spec bs (Resize_fill n b) = Some (replicate n b)"
| "bv_spec bs (Reserve n) = Some bs"
| "bv_spec bs (Fill b) = Some (replicate (length bs) b)"
| "bv_spec bs Erase_all = Some []"
| "bv_spec bs Clear = Some []"
| "bv_spec bs (Push_uint w x) =
     (if 0 < w \<and> w \<le> 64 \<and> take_bit w x = x then Some (bs @ map (bit x) [0..<w]) else None)"
| "bv_spec bs (Set_uint p w x) =
     (if w \<le> 64 \<and> take_bit w x = x \<and> p + w \<le> length bs \<and> p < length bs
      then Some (take p bs @ map (bit x) [0..<w] @ drop (p + w) bs) else None)"
| "bv_spec bs (Set_range b e val) =
     (if b \<le> e \<and> e \<le> length bs then Some (take b bs @ replicate (e - b) val @ drop e bs) else None)"

fun bv_run :: "heap_env \<Rightarrow> febitvec \<Rightarrow> bv_op list \<Rightarrow> febitvec res" where
  "bv_run env v [] = Inr v"
| "bv_run env v (c # cs) = bind_res (bv_exec env v c) (\<lambda>v. bv_run env v cs)"

fun bv_spec_run :: "bool list \<Rightarrow> bv_op list \<Rightarrow> bool list option" where
  "bv_spec_run bs [] = Some bs"
| "bv_spec_run bs (c # cs) = (case bv_spec bs c of None \<Rightarrow> None | Some bs \<Rightarrow> bv_spec_run bs cs)"

section \<open>Simulation\<close>

lemma bv_exec_ok:
  assumes "febitvec_ok v" and "bv_spec (febitvec_bits v) c = Some bs" and "bv_exec env v c = Inr v'"
  shows "febitvec_ok v' \<and> febitvec_bits v' = bs"
proof (cases c)
  case (Push_back b)
  with assms febitvec_push_back_ok [OF assms(1)] show ?thesis by auto
next
  case Pop_back
  with assms febitvec_pop_back_ok [OF assms(1)] show ?thesis by (auto split: if_splits)
next
  case (Set_bit i b)
  with assms febitvec_set_ok [OF assms(1)] show ?thesis by (auto split: if_splits)
next
  case (Ensure_set i b)
  with assms febitvec_ensure_set_ok [OF assms(1)] show ?thesis by auto
next
  case (Resize n b)
  with assms febitvec_resize_ok [OF assms(1)] show ?thesis by auto
next
  case (Resize_fill n b)
  with assms febitvec_resize_fill_ok [OF assms(1)] show ?thesis by auto
next
  case (Reserve n)
  with assms have r: "febitvec_reserve env v n = Inr v'" and bs: "bs = febitvec_bits v" by simp_all
  note rok = febitvec_reserve_ok [OF assms(1) r]
  then have "febitvec_bits v' = febitvec_bits v" by (intro febitvec_bits_eqI) (auto simp: febitvec_bits_nth)
  with rok bs show ?thesis by simp
next
  case (Fill b)
  with assms febitvec_fill_ok [OF assms(1)] show ?thesis by auto
next
  case Erase_all
  with assms febitvec_erase_all_ok(1) [OF assms(1)] febitvec_erase_all_ok(2) [of v] show ?thesis by auto
next
  case Clear
  with assms febitvec_clear_ok show ?thesis by auto
next
  case (Push_uint w x)
  with assms(2) have w: "0 < w" "w \<le> 64" "take_bit w x = x" and bs: "bs = febitvec_bits v @ map (bit x) [0..<w]" by (auto split: if_splits)
  show ?thesis using febitvec_push_uint_ok [OF assms(1) w, of env] assms(3) Push_uint bs by simp
next
  case (Set_uint p w x)
  with assms(2) have "w \<le> 64" "p + w \<le> m_size v" "p < m_size v" "take_bit w x = x"
    and "bs = take p (febitvec_bits v) @ map (bit x) [0..<w] @ drop (p + w) (febitvec_bits v)" by (auto split: if_splits)
  with febitvec_set_uint_ok [OF assms(1), of w p x] assms(3) Set_uint show ?thesis by auto
next
  case (Set_range b e val)
  with assms febitvec_beg_end_set_ok [OF assms(1)] show ?thesis by (auto split: if_splits)
qed

lemma bv_exec_total:
  assumes "\<And>n. alloc_ok env n" and ok: "febitvec_ok v" and spec: "bv_spec (febitvec_bits v) c = Some bs"
  shows "\<exists>v'. bv_exec env v c = Inr v'"
proof (cases c)
  case (Push_back b)
  then show ?thesis using febitvec_push_back_total [OF assms(1)] by simp
next
  case (Ensure_set i b)
  then show ?thesis using febitvec_resize_total [OF assms(1), of v "i + 1" False]
    by (auto simp: febitvec_ensure_set_def febitvec_ensure_set1_def febitvec_ensure_set0_def
        febitvec_ensure_set1_slow_path_def)
next
  case (Resize n b)
  then show ?thesis using febitvec_resize_total [OF assms(1)] by simp
next
  case (Resize_fill n b)
  then show ?thesis using febitvec_resize_no_init_total [OF assms(1), of v n]
    by (auto simp: febitvec_resize_fill_def)
next
  case (Reserve n)
  then show ?thesis using assms(1) by (simp add: febitvec_reserve_def realloc_words_def Let_def)
next
  case (Push_uint w x)
  with spec have w: "0 < w" "w \<le> 64" "take_bit w x = x" by (auto split: if_splits)
  show ?thesis using febitvec_push_uint_ok [OF ok w, of env] febitvec_resize_no_init_total [OF assms(1), of v "m_size v + w"] Push_uint
    by (cases "febitvec_push_uint env v w x") auto
next
  case (Set_uint p w x)
  with spec have "w \<le> 64" "p + w \<le> m_size v" "p < m_size v" "take_bit w x = x" by (auto split: if_splits)
  with febitvec_set_uint_ok [OF ok, of w p x] Set_uint show ?thesis by auto
qed simp_all

lemma bv_exec_Inl:
  assumes ok: "febitvec_ok v" and spec: "bv_spec (febitvec_bits v) c = Some bs" and e: "bv_exec env v c = Inl e"
  shows "e = Bad_alloc"
proof (cases c)
  case (Push_uint w x)
  with spec have w: "0 < w" "w \<le> 64" "take_bit w x = x" by (auto split: if_splits)
  show ?thesis using febitvec_push_uint_ok [OF ok w, of env] e Push_uint by (auto dest: febitvec_resize_no_init_Inl)
next
  case (Set_uint p w x)
  with spec have "w \<le> 64" "p + w \<le> m_size v" "p < m_size v" "take_bit w x = x" by (auto split: if_splits)
  with febitvec_set_uint_ok [OF ok, of w p x] Set_uint e show ?thesis by auto
qed (use e in \<open>auto simp: febitvec_push_back_def febitvec_push_back_slow_path_def febitvec_ensure_set_def
      febitvec_ensure_set1_def febitvec_ensure_set0_def febitvec_ensure_set1_slow_path_def
      febitvec_resize_def febitvec_resize_fill_def febitvec_reserve_def
      bind_res_Inl Let_def dest: febitvec_resize_no_init_Inl split: if_splits option.splits\<close>)

text \<open>A run is good and does what the list does, or memory was refused.\<close>

definition simulates :: "heap_env \<Rightarrow> febitvec res \<Rightarrow> bool list \<Rightarrow> bool" where
  "simulates env r bs \<longleftrightarrow> (case r of
     Inr v \<Rightarrow> febitvec_ok v \<and> febitvec_bits v = bs
   | Inl e \<Rightarrow> e = Bad_alloc \<and> (\<exists>n. \<not> alloc_ok env n))"

lemma bv_exec_refines:
  assumes "febitvec_ok v" and "bv_spec (febitvec_bits v) c = Some bs"
  shows "simulates env (bv_exec env v c) bs"
  using bv_exec_ok [OF assms, of env] bv_exec_Inl [OF assms, of env] bv_exec_total [OF _ assms, of env]
  by (cases "bv_exec env v c") (auto simp: simulates_def)

lemma bv_run_refines:
  "febitvec_ok v \<Longrightarrow> bv_spec_run (febitvec_bits v) cs = Some bs \<Longrightarrow> simulates env (bv_run env v cs) bs"
proof (induction cs arbitrary: v)
  case (Cons c cs)
  from Cons.prems(2) obtain bs' where bs': "bv_spec (febitvec_bits v) c = Some bs'" "bv_spec_run bs' cs = Some bs"
    by (auto split: option.splits)
  from bv_exec_refines [OF Cons.prems(1) bs'(1), of env] Cons.IH bs'(2) show ?case
    by (cases "bv_exec env v c") (auto simp: simulates_def)
qed (simp add: simulates_def)

section \<open>The growing array\<close>

text \<open>\<open>febitvec\<close> keeps the contract of \<open>Array_Spec\<close>; its member functions check their indices by assertion only.\<close>

definition bv_holds :: "febitvec \<Rightarrow> bool list \<Rightarrow> bool" where
  "bv_holds v bs \<longleftrightarrow> febitvec_ok v \<and> febitvec_bits v = bs"

definition bv_push :: "heap_env \<Rightarrow> febitvec \<Rightarrow> bool \<Rightarrow> febitvec res" where
  "bv_push env v b = febitvec_push_back (env\<lparr>alloc_ok := (\<lambda>n. True)\<rparr>) v b"

interpretation bv: growing_array bv_holds "bv_push env" "\<lambda>v. Inr (febitvec_pop_back v)" "\<lambda>v i. Inr (febitvec_is1 v i)"
    "\<lambda>v i b. Inr (febitvec_set v i b)" m_size for env
proof unfold_locales
  fix v bs b i
  assume h: "bv_holds v bs"
  then have len: "m_size v = length bs" by (auto simp: bv_holds_def)
  show "m_size v = length bs" by (rule len)
  have "\<exists>v'. febitvec_push_back (env\<lparr>alloc_ok := (\<lambda>n. True)\<rparr>) v b = Inr v'" by (rule febitvec_push_back_total) simp
  then show "\<exists>v'. bv_push env v b = Inr v' \<and> bv_holds v' (bs @ [b])"
    using h febitvec_push_back_ok [of v _ b] by (auto simp: bv_push_def bv_holds_def)
  show "\<exists>v'. Inr (febitvec_pop_back v) = (Inr v' :: febitvec res) \<and> bv_holds v' (butlast bs)"
    using h febitvec_pop_back_ok [of v] by (auto simp: bv_holds_def)
  show "(Inr (febitvec_is1 v i) :: bool res) = Inr (bs ! i)" if "i < length bs"
    using h that len febitvec_is1_nth [of i v] by (auto simp: bv_holds_def)
  show "\<exists>v'. Inr (febitvec_set v i b) = (Inr v' :: febitvec res) \<and> bv_holds v' (bs[i := b])" if "i < length bs"
    using h that len febitvec_set_ok [of v i b] by (auto simp: bv_holds_def)
qed

section \<open>Properties\<close>

text \<open>C1: every program of member calls whose preconditions hold computes on the words of a
  \<open>febitvec\<close> what it computes on the list of its bits, and leaves a well formed vector; the only
  error is a refused allocation, and when memory is granted the program returns.\<close>

theorem febitvec_programs_refine_lists:
  assumes "febitvec_ok v" and "bv_spec_run (febitvec_bits v) cs = Some bs"
  shows "(case bv_run env v cs of
      Inr v' \<Rightarrow> febitvec_ok v' \<and> febitvec_bits v' = bs
    | Inl e \<Rightarrow> e = Bad_alloc \<and> (\<exists>n. \<not> alloc_ok env n))"
  using bv_run_refines [OF assms, of env] by (simp add: simulates_def)

theorem febitvec_programs_refine_lists_witness:
  "case bv_run plain_heap febitvec_null
      [Push_back True, Resize 70 False, Push_uint 4 5, Set_uint 62 4 6, Set_bit 1 True, Pop_back, Set_range 2 5 True] of
      Inr v' \<Rightarrow> febitvec_ok v' \<and> febitvec_bits v' = replicate 5 True @ replicate 58 False @ [True, True] @ replicate 5 False @ [True, False, True]
    | Inl e \<Rightarrow> e = Bad_alloc \<and> (\<exists>n. \<not> alloc_ok plain_heap n)"
  by (rule febitvec_programs_refine_lists) (simp, code_simp)

text \<open>A value of at most 64 bits written at any bit position is read back, also across a word
  boundary, and every slot that does not overlap it keeps its value.\<close>

theorem packed_uint_roundtrip:
  assumes "febitvec_ok v" and "w \<le> 64" and "p + w \<le> m_size v" and "p < m_size v" and "take_bit w val = val"
  shows "\<exists>v'. febitvec_set_uint v p w val = Inr v' \<and> febitvec_get_uint v' p w = val \<and>
    (\<forall>q u. u \<le> 64 \<and> q + u \<le> m_size v \<and> (q + u \<le> p \<or> p + w \<le> q) \<longrightarrow> febitvec_get_uint v' q u = febitvec_get_uint v q u)"
proof -
  have "n \<le> m_size v \<Longrightarrow> n \<le> 64 * length (m_words v)" for n
    using assms(1) by (auto simp: febitvec_ok_def WordBits_def)
  then show ?thesis
    using febitvec_set_uint_ok [OF assms] febitvec_set_uint_run [OF assms] assms
    by (auto simp: febitvec_get_uint_def s_get_set_uint_other)
qed

theorem packed_uint_roundtrip_witness:
  "let v = \<lparr>m_words = [0x123456789ABCDEF0, 0xFFFF], m_null = False, m_size = 100, m_capacity = 128\<rparr> in
    \<exists>v'. febitvec_set_uint v 58 13 0x1555 = Inr v' \<and> febitvec_get_uint v' 58 13 = 0x1555 \<and>
    (\<forall>q u. u \<le> 64 \<and> q + u \<le> m_size v \<and> (q + u \<le> 58 \<or> 58 + 13 \<le> q) \<longrightarrow> febitvec_get_uint v' q u = febitvec_get_uint v q u)"
  unfolding Let_def by (rule packed_uint_roundtrip; code_simp)

text \<open>The sub-range constructor, which copies whole words and shifts them down, yields exactly the
  bits \<open>[beg, beg + len)\<close> of the source, in a well formed vector; a range past the end of the
  source raises \<open>out_of_range\<close>.\<close>

theorem febitvec_subrange:
  "case febitvec_init_range env y beg len of
     Inr v \<Rightarrow> febitvec_ok v \<and> febitvec_bits v = take len (drop beg (febitvec_bits y))
   | Inl e \<Rightarrow> (e = Out_of_range \<and> m_size y < beg + len) \<or> (e = Bad_alloc \<and> (\<exists>n. \<not> alloc_ok env n))"
proof (cases "febitvec_init_range env y beg len")
  case (Inl e)
  then show ?thesis by (auto simp: febitvec_init_range_def Let_def split: if_splits)
next
  case (Inr v)
  then show ?thesis using febitvec_init_range_ok by auto
qed

text \<open>The run lengths that end at a position, counted a word at a time from the top with leading
  zero counts, are the lengths of the longest runs of ones and of zeros right below it.\<close>

theorem febitvec_revlen_correct:
  "febitvec_one_seq_revlen v p = length (takeWhile (wbit (m_words v)) (rev [0..<p])) \<and>
   febitvec_zero_seq_revlen v p = length (takeWhile (\<lambda>i. \<not> wbit (m_words v) i) (rev [0..<p]))"
  by (simp add: febitvec_one_seq_revlen_correct febitvec_zero_seq_revlen_correct revlen_def)

text \<open>\<open>one_seq_len\<close> does not stop at the size of the vector: it counts on into the unused
  bits of the last word, so on a vector of 3 one bits whose last word was filled it returns 64.\<close>

theorem one_seq_len_overruns:
  "case bv_run plain_heap febitvec_null [Resize_fill 3 True] of
     Inr v \<Rightarrow> febitvec_bits v = [True, True, True] \<and> febitvec_one_seq_len v 0 = 64
   | Inl e \<Rightarrow> False"
  by code_simp

text \<open>The constructor with a padding value stores the wrong first bit: with fewer than 64 bits and
  a padding that differs from the value, bit 0 of the new vector is the padding, not the value.\<close>

theorem padding_constructor_flips_bit0:
  assumes "0 < n" and "n < 64" and "alloc_ok env 8"
  shows "\<exists>v. febitvec_init_padding env n val (\<not> val) = Inr v \<and> febitvec_bits v ! 0 = (\<not> val)"
  using febitvec_init_padding_flips [OF assms, of val] assms(1) by auto

theorem padding_constructor_flips_bit0_witness:
  "\<exists>v. febitvec_init_padding plain_heap 5 True (\<not> True) = Inr v \<and> febitvec_bits v ! 0 = (\<not> True)"
  by (rule padding_constructor_flips_bit0) simp_all

text \<open>Assigning a vector to itself loses its content: the words are freed and the size is reset
  before the source, which is the same object, is read.\<close>

theorem self_assignment_loses_bits:
  "\<exists>v'. febitvec_copy_assign_self env v = Inr v' \<and> febitvec_bits v' = []"
  by (simp add: febitvec_copy_assign_self_empty)

text \<open>C36: Four operations do not do on the bits what they should: \<open>one_seq_len\<close> counts on into the unused bits of
  the last word; the constructor with a padding value that differs from the value stores the padding in
  bit 0; and assigning a vector to itself empties it.  A field of no bits is written behind the words of a full vector.\<close>

theorem febitvec_defects:
  assumes "0 < n" and "n < 64" and "alloc_ok env 8"
  shows "(case bv_run plain_heap febitvec_null [Resize_fill 3 True] of
      Inr v \<Rightarrow> febitvec_bits v = [True, True, True] \<and> febitvec_one_seq_len v 0 = 64
    | Inl e \<Rightarrow> False) \<and>
    (\<exists>v. febitvec_init_padding env n val (\<not> val) = Inr v \<and> febitvec_bits v ! 0 = (\<not> val)) \<and>
    (\<exists>v'. febitvec_copy_assign_self env v = Inr v' \<and> febitvec_bits v' = []) \<and>
    (febitvec_ok v \<and> m_size v = m_capacity v \<longrightarrow>
      febitvec_push_uint env v 0 0 = Inl Undefined \<and> febitvec_set_uint v (m_size v) 0 0 = Inl Undefined)"
  using one_seq_len_overruns padding_constructor_flips_bit0 [OF assms] self_assignment_loses_bits uint_of_no_bits by blast

theorem febitvec_defects_witness:
  "(\<exists>v. febitvec_init_padding plain_heap 5 True (\<not> True) = Inr v \<and> febitvec_bits v ! 0 = (\<not> True)) \<and>
   febitvec_push_uint plain_heap febitvec_null 0 0 = Inl Undefined"
  using febitvec_defects [of 5 plain_heap True febitvec_null] by (simp add: febitvec_null_def febitvec_ok_def)

end
