(* ===== verification/Valvec.thy ===== *)
theory Valvec
  imports Topling_Prelude
begin

text \<open>
  The growing array \<open>valvec\<close> of \<open>src/terark/valvec.hpp\<close> and its copy with 32 bit size fields, \<open>valvec32\<close>.

  The memory at \<open>p\<close> is a list of cells, one per element of the capacity \<open>c\<close>; a cell is \<open>None\<close> as long as no
  object was made in it.  The branches for \<open>xallocx\<close> are not compiled (\<open>TERARK_VALVEC_HAS_WEAK_SYMBOL\<close> is
  switched off in \<open>util/function.hpp\<close>).  Assertions are kept.  Reading a cell without an object is \<open>Undefined\<close>,
  and so is a reference into memory that was given back.
\<close>

section \<open>State\<close>

text \<open>
  What the element type and the heap are: whether the destructor does nothing, whether a copy is a copy of the
  bytes, the value made by the default constructor; which capacities \<open>malloc\<close> grants.  \<open>size_field\<close> is what a
  field \<open>n\<close> or \<open>c\<close> holds after a number is stored: the number itself for \<open>valvec\<close>, its last 32 bits for \<open>valvec32\<close>.
\<close>

record 'a vv_env =
  trivial_destructor :: bool
  trivial_copy :: bool
  default_cons :: 'a
  grant :: "nat \<Rightarrow> bool"
  size_field :: "nat \<Rightarrow> nat"

definition field32 :: "nat \<Rightarrow> nat" where
  "field32 x = x mod 2 ^ 32"

record 'a valvec =
  vv_p :: "'a option list"
  vv_null :: bool
  vv_n :: nat
  vv_c :: nat

definition vv_new :: "'a valvec" where
  "vv_new = \<lparr>vv_p = [], vv_null = True, vv_n = 0, vv_c = 0\<rparr>"

text \<open>
  A \<open>param_type\<close> argument: a value, or a reference to an element of the same vector (it is a reference where
  the element is not passed by value).
\<close>

datatype 'a arg = Val 'a | Elem nat

fun get_obj :: "'a option \<Rightarrow> 'a res" where
  "get_obj (Some x) = Inr x"
| "get_obj None = Inl Undefined"

definition read_cell :: "'a valvec \<Rightarrow> nat \<Rightarrow> 'a res" where
  "read_cell v i = (if i < length (vv_p v) then get_obj (vv_p v ! i) else Inl Undefined)"

text \<open>\<open>moved\<close>: the memory that the reference points to may have been given back.\<close>

fun read_arg :: "'a valvec \<Rightarrow> bool \<Rightarrow> 'a arg \<Rightarrow> 'a res" where
  "read_arg v moved (Val x) = Inr x"
| "read_arg v moved (Elem i) = (if moved then Inl Undefined else read_cell v i)"

section \<open>Memory\<close>

text \<open>\<open>new(p+i)T(x)\<close> for the consecutive cells from \<open>i\<close>; memory outside the block is nobody's.\<close>

definition construct_at :: "'a valvec \<Rightarrow> nat \<Rightarrow> 'a list \<Rightarrow> 'a valvec res" where
  "construct_at v i xs =
     (if i + length xs \<le> length (vv_p v)
      then Inr (v\<lparr>vv_p := take i (vv_p v) @ map Some xs @ drop (i + length xs) (vv_p v)\<rparr>)
      else Inl Undefined)"

definition destroy_range :: "'a vv_env \<Rightarrow> 'a valvec \<Rightarrow> nat \<Rightarrow> nat \<Rightarrow> 'a valvec res" where
  "destroy_range env v i j =
     (if trivial_destructor env then Inr v
      else if j \<le> length (vv_p v) \<and> list_all (\<lambda>k. vv_p v ! k \<noteq> None) [i..<j]
      then Inr (v\<lparr>vv_p := take i (vv_p v) @ replicate (j - i) None @ drop (max i j) (vv_p v)\<rparr>)
      else Inl Undefined)"

definition memmove_cells :: "'a valvec \<Rightarrow> nat \<Rightarrow> nat \<Rightarrow> nat \<Rightarrow> 'a valvec res" where
  "memmove_cells v dst src len =
     (if max dst src + len \<le> length (vv_p v)
      then Inr (v\<lparr>vv_p := take dst (vv_p v) @ take len (drop src (vv_p v)) @ drop (dst + len) (vv_p v)\<rparr>)
      else Inl Undefined)"

text \<open>\<open>pa_realloc\<close>: as many cells as asked for, with the old content.\<close>

definition realloc_cells :: "'a option list \<Rightarrow> nat \<Rightarrow> 'a option list" where
  "realloc_cells cs k = take k cs @ replicate (k - length cs) None"

section \<open>Construction and destruction\<close>

definition vv_construct :: "'a vv_env \<Rightarrow> 'a list \<Rightarrow> 'a valvec res" where
  "vv_construct env xs =
     (let count = length xs in
      if count \<noteq> 0 then
        verify (grant env count)
          (Inr \<lparr>vv_p = map Some xs, vv_null = False, vv_n = size_field env count, vv_c = size_field env count\<rparr>)
      else Inr vv_new)"

text \<open>\<open>valvec(sz, val)\<close>, \<open>valvec(sz)\<close>, \<open>valvec(sz, valvec_no_init)\<close>, \<open>valvec(sz, valvec_reserve)\<close>.\<close>

definition vv_fill_new :: "'a vv_env \<Rightarrow> nat \<Rightarrow> 'a \<Rightarrow> 'a valvec res" where
  "vv_fill_new env sz x = vv_construct env (replicate sz x)"

definition vv_default_new :: "'a vv_env \<Rightarrow> nat \<Rightarrow> 'a valvec res" where
  "vv_default_new env sz = vv_construct env (replicate sz (default_cons env))"

definition vv_no_init_new :: "'a vv_env \<Rightarrow> nat \<Rightarrow> 'a valvec res" where
  "vv_no_init_new env sz =
     (if sz \<noteq> 0 then
        verify (grant env sz)
          (Inr \<lparr>vv_p = replicate sz None, vv_null = False, vv_n = size_field env sz, vv_c = size_field env sz\<rparr>)
      else Inr vv_new)"

definition vv_reserve_new :: "'a vv_env \<Rightarrow> nat \<Rightarrow> 'a valvec res" where
  "vv_reserve_new env sz =
     (if sz \<noteq> 0 then
        verify (grant env sz) (Inr \<lparr>vv_p = replicate sz None, vv_null = False, vv_n = 0, vv_c = size_field env sz\<rparr>)
      else Inr vv_new)"

definition destroy_and_free :: "'a vv_env \<Rightarrow> 'a valvec \<Rightarrow> unit res" where
  "destroy_and_free env v =
     verify (\<not> vv_null v) (verify (vv_n v \<le> vv_c v) (bind_res (destroy_range env v 0 (vv_n v)) (\<lambda>_. Inr ())))"

definition vv_destructor :: "'a vv_env \<Rightarrow> 'a valvec \<Rightarrow> unit res" where
  "vv_destructor env v = (if vv_c v \<noteq> 0 then destroy_and_free env v else Inr ())"

definition vv_clear :: "'a vv_env \<Rightarrow> 'a valvec \<Rightarrow> 'a valvec res" where
  "vv_clear env v = bind_res (if vv_c v \<noteq> 0 then destroy_and_free env v else Inr ()) (\<lambda>_. Inr vv_new)"

text \<open>The elements of a vector that is read from.\<close>

definition vv_read :: "'a valvec \<Rightarrow> nat list \<Rightarrow> 'a list res" where
  "vv_read v js = foldr (\<lambda>i r. bind_res (read_cell v i) (\<lambda>x. bind_res r (\<lambda>xs. Inr (x # xs)))) js (Inr [])"

definition vv_copy :: "'a vv_env \<Rightarrow> 'a valvec \<Rightarrow> 'a valvec res" where
  "vv_copy env y = bind_res (vv_read y [0..<vv_n y]) (\<lambda>xs. vv_construct env xs)"

text \<open>The new vector and what is left of the old one.\<close>

definition vv_move :: "'a valvec \<Rightarrow> 'a valvec \<times> 'a valvec" where
  "vv_move y = (y, vv_new)"

definition vv_move_assign :: "'a vv_env \<Rightarrow> bool \<Rightarrow> 'a valvec \<Rightarrow> 'a valvec \<Rightarrow> ('a valvec \<times> 'a valvec) res" where
  "vv_move_assign env same_object x y =
     verify (\<not> same_object) (bind_res (vv_destructor env x) (\<lambda>_. Inr (vv_move y)))"

definition vv_swap :: "'a valvec \<times> 'a valvec \<Rightarrow> 'a valvec \<times> 'a valvec" where
  "vv_swap = (\<lambda>(x, y). (y, x))"

section \<open>Capacity\<close>

definition larger_capacity :: "nat \<Rightarrow> nat" where
  "larger_capacity oldcap = oldcap * 103 div 64"

definition vv_reserve_slow :: "'a vv_env \<Rightarrow> 'a valvec \<Rightarrow> nat \<Rightarrow> 'a valvec res" where
  "vv_reserve_slow env v newcap =
     verify (newcap > vv_c v) (verify (vv_n v \<le> vv_c v) (verify (grant env newcap)
       (if vv_n v \<noteq> 0
        then Inr (v\<lparr>vv_p := realloc_cells (vv_p v) newcap, vv_null := False, vv_c := size_field env newcap\<rparr>)
        else Inr (v\<lparr>vv_p := replicate newcap None, vv_null := False, vv_c := size_field env newcap\<rparr>))))"

definition vv_reserve :: "'a vv_env \<Rightarrow> 'a valvec \<Rightarrow> nat \<Rightarrow> 'a valvec res" where
  "vv_reserve env v newcap =
     verify (vv_n v \<le> vv_c v) (if newcap \<le> vv_c v then Inr v else vv_reserve_slow env v newcap)"

definition ensure_capacity_slow :: "'a vv_env \<Rightarrow> 'a valvec \<Rightarrow> nat \<Rightarrow> 'a valvec res" where
  "ensure_capacity_slow env v min_cap =
     verify (vv_c v < min_cap) (verify (vv_n v \<le> vv_c v)
       (let new_cap = max (larger_capacity (vv_c v)) min_cap in
        verify (grant env new_cap)
          (Inr (v\<lparr>vv_p := realloc_cells (vv_p v) new_cap, vv_null := False, vv_c := size_field env new_cap\<rparr>))))"

definition ensure_capacity :: "'a vv_env \<Rightarrow> 'a valvec \<Rightarrow> nat \<Rightarrow> 'a valvec res" where
  "ensure_capacity env v min_cap =
     verify (vv_n v \<le> vv_c v) (if min_cap \<le> vv_c v then Inr v else ensure_capacity_slow env v min_cap)"

text \<open>The vector and the index that the returned pointer stands for.\<close>

definition ensure_unused :: "'a vv_env \<Rightarrow> 'a valvec \<Rightarrow> nat \<Rightarrow> ('a valvec \<times> nat) res" where
  "ensure_unused env v unused_cap =
     verify (vv_n v \<le> vv_c v)
       (let oldsize = vv_n v in bind_res (ensure_capacity env v (oldsize + unused_cap)) (\<lambda>v. Inr (v, oldsize)))"

function try_capacity_loop :: "'a vv_env \<Rightarrow> 'a valvec \<Rightarrow> nat \<Rightarrow> nat \<Rightarrow> 'a valvec res" where
  "try_capacity_loop env v min_cap cur_cap =
     (if grant env cur_cap
      then Inr (v\<lparr>vv_p := realloc_cells (vv_p v) cur_cap, vv_null := False, vv_c := size_field env cur_cap\<rparr>)
      else if cur_cap \<le> min_cap then Inl Abort
      else try_capacity_loop env v min_cap (min_cap + (cur_cap - min_cap) div 2))"
  by pat_completeness auto
termination by (relation "measure (\<lambda>(env, v, min_cap, cur_cap). cur_cap - min_cap)") auto

declare try_capacity_loop.simps [simp del]

definition try_capacity_slow :: "'a vv_env \<Rightarrow> 'a valvec \<Rightarrow> nat \<Rightarrow> nat \<Rightarrow> 'a valvec res" where
  "try_capacity_slow env v min_cap max_cap =
     verify (vv_c v < min_cap) (verify (vv_n v \<le> vv_c v)
       (try_capacity_loop env v min_cap (if max_cap < min_cap then min_cap else max_cap)))"

definition try_capacity :: "'a vv_env \<Rightarrow> 'a valvec \<Rightarrow> nat \<Rightarrow> nat \<Rightarrow> 'a valvec res" where
  "try_capacity env v min_cap max_cap =
     verify (vv_n v \<le> vv_c v) (if min_cap \<le> vv_c v then Inr v else try_capacity_slow env v min_cap max_cap)"

text \<open>\<open>shrink_to_fit\<close> is content with what it has when \<open>realloc\<close> refuses.\<close>

definition vv_shrink_to_fit :: "'a vv_env \<Rightarrow> 'a valvec \<Rightarrow> 'a valvec res" where
  "vv_shrink_to_fit env v =
     verify (vv_n v \<le> vv_c v)
       (if vv_n v = vv_c v then Inr v
        else if vv_n v \<noteq> 0 then
          Inr (if grant env (vv_n v) then v\<lparr>vv_p := realloc_cells (vv_p v) (vv_n v), vv_c := vv_n v\<rparr> else v)
        else Inr vv_new)"

definition vv_shrink_to_fit_malloc_free :: "'a vv_env \<Rightarrow> 'a valvec \<Rightarrow> 'a valvec res" where
  "vv_shrink_to_fit_malloc_free env v =
     verify (vv_n v \<le> vv_c v)
       (if 0 = vv_c v then Inr v
        else verify (\<not> vv_null v)
         (if 0 = vv_n v then Inr (v\<lparr>vv_p := [], vv_null := True, vv_c := 0\<rparr>)
          else if vv_n v = vv_c v then Inr v
          else if grant env (vv_n v) then Inr (v\<lparr>vv_p := take (vv_n v) (vv_p v), vv_c := vv_n v\<rparr>)
          else vv_shrink_to_fit env v))"

section \<open>Size\<close>

definition vv_resize_slow_fill :: "'a vv_env \<Rightarrow> 'a valvec \<Rightarrow> nat \<Rightarrow> 'a arg \<Rightarrow> 'a valvec res" where
  "vv_resize_slow_fill env v newsize val =
     verify (vv_n v \<le> vv_c v)
       (let oldsize = vv_n v in verify (oldsize \<noteq> newsize)
         (bind_res
           (if \<not> trivial_destructor env \<and> newsize \<le> oldsize then destroy_range env v newsize oldsize
            else verify (oldsize < newsize)
              (bind_res (ensure_capacity env v newsize) (\<lambda>v'.
                bind_res (read_arg v' (newsize > vv_c v) val) (\<lambda>x.
                  construct_at v' oldsize (replicate (newsize - oldsize) x)))))
           (\<lambda>v. Inr (v\<lparr>vv_n := size_field env newsize\<rparr>))))"

definition vv_resize_fill_arg :: "'a vv_env \<Rightarrow> 'a valvec \<Rightarrow> nat \<Rightarrow> 'a arg \<Rightarrow> 'a valvec res" where
  "vv_resize_fill_arg env v newsize val =
     verify (vv_n v \<le> vv_c v)
       (let oldsize = vv_n v in
        if trivial_destructor env \<and> newsize \<le> oldsize then Inr (v\<lparr>vv_n := size_field env newsize\<rparr>)
        else if \<not> trivial_destructor env \<and> newsize = oldsize then Inr v
        else vv_resize_slow_fill env v newsize val)"

definition vv_resize_slow :: "'a vv_env \<Rightarrow> 'a valvec \<Rightarrow> nat \<Rightarrow> 'a valvec res" where
  "vv_resize_slow env v newsize =
     verify (vv_n v \<le> vv_c v)
       (let oldsize = vv_n v in verify (oldsize \<noteq> newsize)
         (bind_res
           (if \<not> trivial_destructor env \<and> newsize \<le> oldsize then destroy_range env v newsize oldsize
            else verify (oldsize < newsize)
              (bind_res (ensure_capacity env v newsize) (\<lambda>v.
                construct_at v oldsize (replicate (newsize - oldsize) (default_cons env)))))
           (\<lambda>v. Inr (v\<lparr>vv_n := size_field env newsize\<rparr>))))"

definition vv_resize :: "'a vv_env \<Rightarrow> 'a valvec \<Rightarrow> nat \<Rightarrow> 'a valvec res" where
  "vv_resize env v newsize =
     verify (vv_n v \<le> vv_c v)
       (let oldsize = vv_n v in
        if trivial_destructor env \<and> newsize \<le> oldsize then Inr (v\<lparr>vv_n := size_field env newsize\<rparr>)
        else if \<not> trivial_destructor env \<and> newsize = oldsize then Inr v
        else vv_resize_slow env v newsize)"

text \<open>\<open>resize_fill\<close>: every element is made anew.\<close>

definition vv_refill_default :: "'a vv_env \<Rightarrow> 'a valvec \<Rightarrow> nat \<Rightarrow> 'a valvec res" where
  "vv_refill_default env v newsize =
     verify (vv_n v \<le> vv_c v)
       (bind_res (ensure_capacity env v newsize) (\<lambda>v. bind_res (destroy_range env v 0 (vv_n v)) (\<lambda>v.
         bind_res (construct_at v 0 (replicate newsize (default_cons env))) (\<lambda>v. Inr (v\<lparr>vv_n := size_field env newsize\<rparr>)))))"

definition vv_refill :: "'a vv_env \<Rightarrow> 'a valvec \<Rightarrow> nat \<Rightarrow> 'a arg \<Rightarrow> 'a valvec res" where
  "vv_refill env v newsize val =
     verify (vv_n v \<le> vv_c v)
       (bind_res (ensure_capacity env v newsize) (\<lambda>v'. bind_res (destroy_range env v' 0 (vv_n v')) (\<lambda>v'.
         bind_res (read_arg v' (newsize > vv_c v) val) (\<lambda>x.
           bind_res (construct_at v' 0 (replicate newsize x)) (\<lambda>v'. Inr (v'\<lparr>vv_n := size_field env newsize\<rparr>))))))"

definition vv_erase_all :: "'a vv_env \<Rightarrow> 'a valvec \<Rightarrow> 'a valvec res" where
  "vv_erase_all env v = bind_res (destroy_range env v 0 (vv_n v)) (\<lambda>v. Inr (v\<lparr>vv_n := 0\<rparr>))"

definition vv_resize_no_init :: "'a vv_env \<Rightarrow> 'a valvec \<Rightarrow> nat \<Rightarrow> 'a valvec res" where
  "vv_resize_no_init env v newsize =
     verify (vv_n v \<le> vv_c v)
       (bind_res (ensure_capacity env v newsize) (\<lambda>v. Inr (v\<lparr>vv_n := size_field env newsize\<rparr>)))"

definition vv_resize0 :: "'a valvec \<Rightarrow> 'a valvec" where
  "vv_resize0 v = v\<lparr>vv_n := 0\<rparr>"

definition vv_trim :: "'a vv_env \<Rightarrow> 'a valvec \<Rightarrow> nat \<Rightarrow> 'a valvec res" where
  "vv_trim env v from_pos =
     verify (from_pos \<le> vv_n v)
       (bind_res (destroy_range env v from_pos (vv_n v)) (\<lambda>v. Inr (v\<lparr>vv_n := size_field env from_pos\<rparr>)))"

section \<open>Insertion\<close>

definition vv_insert :: "'a vv_env \<Rightarrow> 'a valvec \<Rightarrow> nat \<Rightarrow> 'a arg \<Rightarrow> 'a valvec res" where
  "vv_insert env v pos x =
     verify (vv_n v \<le> vv_c v) (verify (pos \<le> vv_n v)
       (bind_res (ensure_capacity env v (size_field env (vv_n v + 1))) (\<lambda>v'.
         bind_res (memmove_cells v' (pos + 1) pos (vv_n v' - pos)) (\<lambda>v'.
           bind_res (read_arg v' (size_field env (vv_n v + 1) > vv_c v) x) (\<lambda>y.
             bind_res (construct_at v' pos [y]) (\<lambda>v'. Inr (v'\<lparr>vv_n := size_field env (vv_n v' + 1)\<rparr>)))))))"

text \<open>The elements come from outside the vector.\<close>

definition vv_insert_range :: "'a vv_env \<Rightarrow> 'a valvec \<Rightarrow> nat \<Rightarrow> 'a list \<Rightarrow> 'a valvec res" where
  "vv_insert_range env v pos xs =
     verify (vv_n v \<le> vv_c v) (verify (pos \<le> vv_n v)
       (let count = length xs in
        bind_res (ensure_capacity env v (vv_n v + count)) (\<lambda>v.
          bind_res (memmove_cells v (pos + count) pos (vv_n v - pos)) (\<lambda>v.
            bind_res (construct_at v pos xs) (\<lambda>v. Inr (v\<lparr>vv_n := size_field env (vv_n v + count)\<rparr>))))))"

definition push_back_slow_default :: "'a vv_env \<Rightarrow> 'a valvec \<Rightarrow> 'a valvec res" where
  "push_back_slow_default env v =
     verify (vv_n v \<le> vv_c v)
       (let oldsize = vv_n v in
        bind_res (ensure_capacity env v (oldsize + 1)) (\<lambda>v.
          bind_res (construct_at v oldsize [default_cons env]) (\<lambda>v. Inr (v\<lparr>vv_n := size_field env (oldsize + 1)\<rparr>))))"

definition push_back_default :: "'a vv_env \<Rightarrow> 'a valvec \<Rightarrow> 'a valvec res" where
  "push_back_default env v =
     verify (vv_n v \<le> vv_c v)
       (let oldsize = vv_n v in
        if oldsize < vv_c v then
          bind_res (construct_at v oldsize [default_cons env]) (\<lambda>v. Inr (v\<lparr>vv_n := size_field env (oldsize + 1)\<rparr>))
        else push_back_slow_default env v)"

text \<open>A reference into the vector is turned into an index before the memory moves.\<close>

definition push_back_slow :: "'a vv_env \<Rightarrow> 'a valvec \<Rightarrow> 'a arg \<Rightarrow> 'a valvec res" where
  "push_back_slow env v x =
     verify (vv_n v \<le> vv_c v)
       (let oldsize = vv_n v in
        bind_res (ensure_capacity env v (oldsize + 1)) (\<lambda>v'.
          bind_res
            (case x of
               Elem idx \<Rightarrow> if idx < oldsize then read_cell v' idx else read_arg v' (oldsize + 1 > vv_c v) x
             | Val y \<Rightarrow> Inr y)
            (\<lambda>y. bind_res (construct_at v' oldsize [y]) (\<lambda>v'. Inr (v'\<lparr>vv_n := size_field env (oldsize + 1)\<rparr>)))))"

definition push_back :: "'a vv_env \<Rightarrow> 'a valvec \<Rightarrow> 'a arg \<Rightarrow> 'a valvec res" where
  "push_back env v x =
     verify (vv_n v \<le> vv_c v)
       (let oldsize = vv_n v in
        if oldsize < vv_c v then
          bind_res (read_arg v False x) (\<lambda>y.
            bind_res (construct_at v oldsize [y]) (\<lambda>v. Inr (v\<lparr>vv_n := size_field env (oldsize + 1)\<rparr>)))
        else push_back_slow env v x)"

text \<open>\<open>append\<close> of a range: a list from outside.\<close>

definition vv_append :: "'a vv_env \<Rightarrow> 'a valvec \<Rightarrow> 'a list \<Rightarrow> 'a valvec res" where
  "vv_append env v xs =
     verify (vv_n v \<le> vv_c v)
       (let newsize = vv_n v + length xs in
        bind_res (ensure_capacity env v newsize) (\<lambda>v.
          bind_res (construct_at v (vv_n v) xs) (\<lambda>v. Inr (v\<lparr>vv_n := size_field env newsize\<rparr>))))"

text \<open>\<open>operator+=\<close> of a vector: the same one is read through its new pointer.\<close>

definition vv_append_vec :: "'a vv_env \<Rightarrow> bool \<Rightarrow> 'a valvec \<Rightarrow> 'a valvec \<Rightarrow> 'a valvec res" where
  "vv_append_vec env same_object v y =
     verify (vv_n v \<le> vv_c v)
       (let newsize = vv_n v + vv_n y in
        bind_res (ensure_capacity env v newsize) (\<lambda>v.
          let y = if same_object then v else y in
          bind_res (vv_read y [0..<vv_n y]) (\<lambda>xs.
            bind_res (construct_at v (vv_n v) xs) (\<lambda>v. Inr (v\<lparr>vv_n := size_field env newsize\<rparr>)))))"

definition unchecked_append :: "'a vv_env \<Rightarrow> 'a valvec \<Rightarrow> 'a list \<Rightarrow> 'a valvec res" where
  "unchecked_append env v xs =
     verify (vv_n v \<le> vv_c v) (verify (length xs \<le> vv_c v - vv_n v)
       (let newsize = vv_n v + length xs in
        bind_res (construct_at v (vv_n v) xs) (\<lambda>v. Inr (v\<lparr>vv_n := size_field env newsize\<rparr>))))"

text \<open>\<open>erase_all\<close>, \<open>reserve\<close>, then the copy.\<close>

definition vv_assign :: "'a vv_env \<Rightarrow> 'a valvec \<Rightarrow> 'a list \<Rightarrow> 'a valvec res" where
  "vv_assign env v xs =
     bind_res (vv_erase_all env v) (\<lambda>v. bind_res (vv_reserve env v (length xs)) (\<lambda>v.
       bind_res (construct_at v 0 xs) (\<lambda>v. Inr (v\<lparr>vv_n := size_field env (length xs)\<rparr>))))"

definition vv_copy_assign :: "'a vv_env \<Rightarrow> bool \<Rightarrow> 'a valvec \<Rightarrow> 'a valvec \<Rightarrow> 'a valvec res" where
  "vv_copy_assign env same_object x y =
     (if same_object then Inr x else bind_res (vv_read y [0..<vv_n y]) (\<lambda>xs. vv_assign env x xs))"

text \<open>Construction and assignment from an input iterator.\<close>

fun push_all :: "'a vv_env \<Rightarrow> 'a valvec \<Rightarrow> 'a list \<Rightarrow> 'a valvec res" where
  "push_all env v [] = Inr v"
| "push_all env v (x # xs) = bind_res (push_back env v (Val x)) (\<lambda>v. push_all env v xs)"

definition vv_construct_input :: "'a vv_env \<Rightarrow> 'a list \<Rightarrow> 'a valvec res" where
  "vv_construct_input env xs = push_all env vv_new xs"

definition vv_assign_input :: "'a vv_env \<Rightarrow> 'a valvec \<Rightarrow> 'a list \<Rightarrow> 'a valvec res" where
  "vv_assign_input env v xs = bind_res (vv_resize env v 0) (\<lambda>v. push_all env v xs)"

definition unchecked_push_back :: "'a vv_env \<Rightarrow> 'a valvec \<Rightarrow> 'a arg \<Rightarrow> 'a valvec res" where
  "unchecked_push_back env v x =
     verify (vv_n v \<le> vv_c v)
       (let oldsize = vv_n v in verify (oldsize < vv_c v)
         (bind_res (read_arg v False x) (\<lambda>y.
           bind_res (construct_at v oldsize [y]) (\<lambda>v. Inr (v\<lparr>vv_n := size_field env (oldsize + 1)\<rparr>)))))"

fun push_n_loop :: "'a vv_env \<Rightarrow> bool \<Rightarrow> 'a valvec \<Rightarrow> nat \<Rightarrow> 'a arg \<Rightarrow> 'a valvec res" where
  "push_n_loop env moved v 0 val = Inr v"
| "push_n_loop env moved v (Suc k) val =
     bind_res (read_arg v moved val) (\<lambda>x.
       bind_res (unchecked_push_back env v (Val x)) (\<lambda>v. push_n_loop env moved v k val))"

definition push_n :: "'a vv_env \<Rightarrow> 'a valvec \<Rightarrow> nat \<Rightarrow> 'a arg \<Rightarrow> 'a valvec res" where
  "push_n env v cnt val =
     verify (vv_n v \<le> vv_c v)
       (let moved = vv_n v + cnt > vv_c v in
        if trivial_copy env then
          let oldsize = vv_n v in
          bind_res (vv_resize_no_init env v (oldsize + cnt)) (\<lambda>v.
            bind_res (read_arg v moved val) (\<lambda>x. construct_at v oldsize (replicate cnt x)))
        else
          bind_res (ensure_capacity env v (vv_n v + cnt)) (\<lambda>v. push_n_loop env moved v cnt val))"

definition grow_capacity :: "'a vv_env \<Rightarrow> 'a valvec \<Rightarrow> nat \<Rightarrow> ('a valvec \<times> nat) res" where
  "grow_capacity env v cnt =
     verify (vv_n v \<le> vv_c v)
       (let oldsize = vv_n v in bind_res (ensure_capacity env v (oldsize + cnt)) (\<lambda>v. Inr (v, oldsize)))"

definition grow_no_init :: "'a vv_env \<Rightarrow> 'a valvec \<Rightarrow> nat \<Rightarrow> ('a valvec \<times> nat) res" where
  "grow_no_init env v cnt =
     verify (vv_n v \<le> vv_c v)
       (let oldsize = vv_n v in bind_res (vv_resize_no_init env v (oldsize + cnt)) (\<lambda>v. Inr (v, oldsize)))"

definition grow_fill :: "'a vv_env \<Rightarrow> 'a valvec \<Rightarrow> nat \<Rightarrow> 'a arg \<Rightarrow> ('a valvec \<times> nat) res" where
  "grow_fill env v cnt x =
     verify (vv_n v \<le> vv_c v)
       (let oldsize = vv_n v in bind_res (vv_resize_fill_arg env v (oldsize + cnt) x) (\<lambda>v. Inr (v, oldsize)))"

definition grow :: "'a vv_env \<Rightarrow> 'a valvec \<Rightarrow> nat \<Rightarrow> ('a valvec \<times> nat) res" where
  "grow env v cnt =
     verify (vv_n v \<le> vv_c v)
       (let oldsize = vv_n v in bind_res (vv_resize env v (oldsize + cnt)) (\<lambda>v. Inr (v, oldsize)))"

definition make_space_no_init :: "'a vv_env \<Rightarrow> 'a valvec \<Rightarrow> nat \<Rightarrow> nat \<Rightarrow> ('a valvec \<times> nat) res" where
  "make_space_no_init env v pos len =
     verify (vv_n v \<le> vv_c v) (verify (pos \<le> vv_n v)
       (let movecnt = vv_n v - pos in
        bind_res (vv_resize_no_init env v (vv_n v + len)) (\<lambda>v.
          bind_res (memmove_cells v (pos + len) pos movecnt) (\<lambda>v. Inr (v, pos)))))"

text \<open>The value is made before the memory moves.\<close>

definition emplace_back_slow :: "'a vv_env \<Rightarrow> 'a valvec \<Rightarrow> 'a arg \<Rightarrow> ('a valvec \<times> nat) res" where
  "emplace_back_slow env v x =
     verify (vv_n v \<le> vv_c v) (verify (vv_n v = vv_c v)
       (bind_res (read_arg v False x) (\<lambda>val.
         bind_res (ensure_capacity_slow env v (size_field env (vv_n v + 1))) (\<lambda>v.
           bind_res (construct_at v (vv_n v) [val]) (\<lambda>v. Inr (v\<lparr>vv_n := size_field env (vv_n v + 1)\<rparr>, vv_n v))))))"

definition emplace_back :: "'a vv_env \<Rightarrow> 'a valvec \<Rightarrow> 'a arg \<Rightarrow> ('a valvec \<times> nat) res" where
  "emplace_back env v x =
     verify (vv_n v \<le> vv_c v)
       (let oldsize = vv_n v in
        if oldsize < vv_c v then
          bind_res (read_arg v False x) (\<lambda>y.
            bind_res (construct_at v oldsize [y]) (\<lambda>v. Inr (v\<lparr>vv_n := size_field env (oldsize + 1)\<rparr>, oldsize)))
        else emplace_back_slow env v x)"

text \<open>The returned reference is \<open>lp[n]\<close> with the new \<open>n\<close>.\<close>

definition unchecked_emplace_back :: "'a vv_env \<Rightarrow> 'a valvec \<Rightarrow> 'a arg \<Rightarrow> ('a valvec \<times> nat) res" where
  "unchecked_emplace_back env v x =
     verify (vv_n v \<le> vv_c v)
       (let oldsize = vv_n v in verify (oldsize < vv_c v)
         (bind_res (read_arg v False x) (\<lambda>y.
           bind_res (construct_at v oldsize [y]) (\<lambda>v. let v = v\<lparr>vv_n := size_field env (oldsize + 1)\<rparr> in Inr (v, vv_n v)))))"

section \<open>Removal\<close>

definition vv_pop_back :: "'a vv_env \<Rightarrow> 'a valvec \<Rightarrow> 'a valvec res" where
  "vv_pop_back env v =
     verify (vv_n v > 0)
       (let newsize = vv_n v - 1 in
        bind_res (destroy_range env v newsize (newsize + 1)) (\<lambda>v. Inr (v\<lparr>vv_n := newsize\<rparr>)))"

definition vv_pop_n :: "'a vv_env \<Rightarrow> 'a valvec \<Rightarrow> nat \<Rightarrow> 'a valvec res" where
  "vv_pop_n env v num =
     verify (num \<le> vv_n v)
       (bind_res (destroy_range env v (vv_n v - num) (vv_n v)) (\<lambda>v. Inr (v\<lparr>vv_n := vv_n v - num\<rparr>)))"

text \<open>The element is moved out; what is left of it is not destroyed.\<close>

definition pop_val :: "'a valvec \<Rightarrow> ('a valvec \<times> 'a) res" where
  "pop_val v =
     verify (vv_n v > 0) (bind_res (read_cell v (vv_n v - 1)) (\<lambda>x. Inr (v\<lparr>vv_n := vv_n v - 1\<rparr>, x)))"

definition vv_erase_i :: "'a vv_env \<Rightarrow> 'a valvec \<Rightarrow> nat \<Rightarrow> nat \<Rightarrow> ('a valvec \<times> nat) res" where
  "vv_erase_i env v pos cnt =
     verify (cnt \<le> vv_n v) (verify (pos \<le> vv_n v) (verify (pos + cnt \<le> vv_n v)
       (bind_res (destroy_range env v pos (pos + cnt)) (\<lambda>v.
         bind_res (memmove_cells v pos (pos + cnt) (vv_n v - cnt - pos)) (\<lambda>v.
           Inr (v\<lparr>vv_n := vv_n v - cnt\<rparr>, pos))))))"

section \<open>Access\<close>

definition vv_get :: "'a valvec \<Rightarrow> nat \<Rightarrow> 'a res" where
  "vv_get v i = verify (i < vv_n v) (read_cell v i)"

definition vv_at :: "'a valvec \<Rightarrow> nat \<Rightarrow> 'a res" where
  "vv_at v i = (if i \<ge> vv_n v then Inl Out_of_range else read_cell v i)"

definition vv_top :: "'a valvec \<Rightarrow> 'a res" where
  "vv_top v = (if 0 = vv_n v then Inl Logic_error else read_cell v (vv_n v - 1))"

definition vv_front :: "'a valvec \<Rightarrow> 'a res" where
  "vv_front v = verify (vv_n v \<noteq> 0) (verify (\<not> vv_null v) (read_cell v 0))"

definition vv_back :: "'a valvec \<Rightarrow> 'a res" where
  "vv_back v = verify (vv_n v \<noteq> 0) (verify (\<not> vv_null v) (read_cell v (vv_n v - 1)))"

definition vv_ende :: "'a valvec \<Rightarrow> nat \<Rightarrow> 'a res" where
  "vv_ende v d = verify (d \<le> vv_n v) (read_cell v (vv_n v - d))"

definition vv_get_2d :: "'a valvec \<Rightarrow> nat \<Rightarrow> nat \<Rightarrow> nat \<Rightarrow> 'a res" where
  "vv_get_2d v colsize row col = (let idx = row * colsize + col in verify (idx < vv_n v) (read_cell v idx))"

text \<open>Assignment to elements: they have to be there, unless copying is copying bytes.\<close>

definition assign_at :: "'a vv_env \<Rightarrow> 'a valvec \<Rightarrow> nat \<Rightarrow> 'a list \<Rightarrow> 'a valvec res" where
  "assign_at env v i xs =
     (if trivial_copy env \<or> list_all (\<lambda>k. k < length (vv_p v) \<and> vv_p v ! k \<noteq> None) [i..<i + length xs]
      then construct_at v i xs else Inl Undefined)"

definition vv_set :: "'a vv_env \<Rightarrow> 'a valvec \<Rightarrow> nat \<Rightarrow> 'a arg \<Rightarrow> 'a valvec res" where
  "vv_set env v i val = verify (i < vv_n v) (bind_res (read_arg v False val) (\<lambda>x. assign_at env v i [x]))"

definition ensure_get :: "'a vv_env \<Rightarrow> 'a valvec \<Rightarrow> nat \<Rightarrow> ('a valvec \<times> 'a) res" where
  "ensure_get env v i =
     (if i < vv_n v then bind_res (read_cell v i) (\<lambda>x. Inr (v, x))
      else bind_res (vv_resize_slow env v (i + 1)) (\<lambda>v. bind_res (read_cell v i) (\<lambda>x. Inr (v, x))))"

definition ensure_set :: "'a vv_env \<Rightarrow> 'a valvec \<Rightarrow> nat \<Rightarrow> 'a arg \<Rightarrow> 'a valvec res" where
  "ensure_set env v i val =
     (if i < vv_n v then vv_set env v i val
      else bind_res (vv_resize_slow env v (i + 1)) (\<lambda>v'.
        bind_res (read_arg v' (i + 1 > vv_c v) val) (\<lambda>x. assign_at env v' i [x])))"

definition vv_fill_range :: "'a vv_env \<Rightarrow> 'a valvec \<Rightarrow> nat \<Rightarrow> nat \<Rightarrow> 'a arg \<Rightarrow> 'a valvec res" where
  "vv_fill_range env v pos cnt val =
     verify (pos \<le> vv_n v) (verify (pos + cnt \<le> vv_n v)
       (if cnt = 0 then Inr v
        else bind_res (read_arg v False val) (\<lambda>x. assign_at env v pos (replicate cnt x))))"

definition vv_fill :: "'a vv_env \<Rightarrow> 'a valvec \<Rightarrow> 'a arg \<Rightarrow> 'a valvec res" where
  "vv_fill env v val =
     (if vv_n v = 0 then Inr v
      else bind_res (read_arg v False val) (\<lambda>x. assign_at env v 0 (replicate (vv_n v) x)))"

section \<open>Comparison\<close>

fun vv_lessThan_loop :: "('a \<Rightarrow> 'a \<Rightarrow> bool) \<Rightarrow> ('a \<Rightarrow> 'a \<Rightarrow> bool) \<Rightarrow> 'a valvec \<Rightarrow> 'a valvec \<Rightarrow> nat list \<Rightarrow> bool res" where
  "vv_lessThan_loop le eq x y [] = Inr (vv_n x < vv_n y)"
| "vv_lessThan_loop le eq x y (i # js) =
     bind_res (read_cell x i) (\<lambda>a. bind_res (read_cell y i) (\<lambda>b.
       if \<not> eq a b then Inr (le a b) else vv_lessThan_loop le eq x y js))"

definition vv_lessThan :: "('a \<Rightarrow> 'a \<Rightarrow> bool) \<Rightarrow> ('a \<Rightarrow> 'a \<Rightarrow> bool) \<Rightarrow> 'a valvec \<Rightarrow> 'a valvec \<Rightarrow> bool res" where
  "vv_lessThan le eq x y = vv_lessThan_loop le eq x y [0..<min (vv_n x) (vv_n y)]"

fun vv_equalTo_loop :: "('a \<Rightarrow> 'a \<Rightarrow> bool) \<Rightarrow> 'a valvec \<Rightarrow> 'a valvec \<Rightarrow> nat list \<Rightarrow> bool res" where
  "vv_equalTo_loop eq x y [] = Inr True"
| "vv_equalTo_loop eq x y (i # js) =
     bind_res (read_cell x i) (\<lambda>a. bind_res (read_cell y i) (\<lambda>b.
       if \<not> eq a b then Inr False else vv_equalTo_loop eq x y js))"

definition vv_equalTo :: "('a \<Rightarrow> 'a \<Rightarrow> bool) \<Rightarrow> 'a valvec \<Rightarrow> 'a valvec \<Rightarrow> bool res" where
  "vv_equalTo eq x y = (if vv_n x \<noteq> vv_n y then Inr False else vv_equalTo_loop eq x y [0..<vv_n x])"

section \<open>Raw access\<close>

definition risk_set_data :: "'a option list \<Rightarrow> 'a valvec" where
  "risk_set_data cells = \<lparr>vv_p = cells, vv_null = False, vv_n = length cells, vv_c = length cells\<rparr>"

definition risk_set_size :: "'a valvec \<Rightarrow> nat \<Rightarrow> 'a valvec" where
  "risk_set_size v k = v\<lparr>vv_n := k\<rparr>"

definition risk_set_capacity :: "'a valvec \<Rightarrow> nat \<Rightarrow> 'a valvec" where
  "risk_set_capacity v k = v\<lparr>vv_c := k\<rparr>"

definition risk_release_ownership :: "'a valvec \<Rightarrow> 'a valvec \<times> 'a option list" where
  "risk_release_ownership v = (vv_new, vv_p v)"

end
