(* ===== verification/Valvec_Laws.thy ===== *)
theory Valvec_Laws
  imports Valvec
begin

text \<open>
  What the operations of \<open>valvec\<close> do to the list of its elements.  \<open>vv_rep v xs\<close> says that \<open>v\<close> is well formed and
  holds \<open>xs\<close>; every law has the form \<open>yields\<close>: with memory the operation succeeds and holds the new list, without
  it aborts and does nothing else.  Laws of operations that store sizes are about vectors whose size fields hold
  what is stored in them (\<open>wide\<close>).
\<close>

section \<open>The elements\<close>

definition vv_rep :: "'a valvec \<Rightarrow> 'a list \<Rightarrow> bool" where
  "vv_rep v xs \<longleftrightarrow> (\<exists>rest. vv_p v = map Some xs @ rest \<and> vv_n v = length xs \<and> vv_c v = length xs + length rest \<and>
     (vv_c v \<noteq> 0 \<longrightarrow> \<not> vv_null v))"

definition vv_list :: "'a valvec \<Rightarrow> 'a list" where
  "vv_list v = map the (take (vv_n v) (vv_p v))"

definition wide :: "'a vv_env \<Rightarrow> bool" where
  "wide env \<longleftrightarrow> (\<forall>k. size_field env k = k)"

abbreviation granted :: "'a vv_env \<Rightarrow> bool" where
  "granted env \<equiv> (\<forall>k. grant env k)"

lemma wideD [simp]: "wide env \<Longrightarrow> size_field env k = k"
  by (simp add: wide_def)

lemma vv_repE:
  assumes "vv_rep v xs"
  obtains rest where "vv_p v = map Some xs @ rest" "vv_n v = length xs" "vv_c v = length xs + length rest"
    "vv_c v \<noteq> 0 \<Longrightarrow> \<not> vv_null v"
  using assms by (auto simp: vv_rep_def)

lemma vv_rep_list: "vv_rep v xs \<Longrightarrow> vv_list v = xs"
  by (auto elim!: vv_repE simp: vv_list_def comp_def)

lemma vv_rep_n: "vv_rep v xs \<Longrightarrow> vv_n v = length xs"
  by (auto elim: vv_repE)

lemma vv_rep_fits: "vv_rep v xs \<Longrightarrow> length xs \<le> vv_c v"
  by (auto elim!: vv_repE)

lemma vv_rep_length: "vv_rep v xs \<Longrightarrow> length (vv_p v) = vv_c v"
  by (auto elim!: vv_repE)

lemma vv_new_rep: "vv_rep vv_new []"
  by (simp add: vv_rep_def vv_new_def)

lemma read_cell_rep: "vv_rep v xs \<Longrightarrow> i < length xs \<Longrightarrow> read_cell v i = Inr (xs ! i)"
  by (auto elim!: vv_repE simp: read_cell_def nth_append)

lemma vv_read_rep: "vv_rep v xs \<Longrightarrow> vv_read v [0..<vv_n v] = Inr xs"
proof -
  assume r: "vv_rep v xs"
  have "vv_read v js = Inr (map (\<lambda>i. xs ! i) js)" if "\<forall>i\<in>set js. i < length xs" for js
    using that by (induction js) (auto simp: vv_read_def read_cell_rep [OF r])
  from this [of "[0..<vv_n v]"] show ?thesis using vv_rep_n [OF r] by (simp add: map_nth)
qed

text \<open>An argument stands for a value as long as the memory stays where it is.\<close>

fun arg_value :: "'a list \<Rightarrow> 'a arg \<Rightarrow> 'a option" where
  "arg_value xs (Val x) = Some x"
| "arg_value xs (Elem i) = (if i < length xs then Some (xs ! i) else None)"

fun is_val :: "'a arg \<Rightarrow> bool" where
  "is_val (Val x) = True"
| "is_val (Elem i) = False"

lemma read_arg_rep: "vv_rep v xs \<Longrightarrow> arg_value xs a = Some x \<Longrightarrow> read_arg v False a = Inr x"
  by (cases a) (auto simp: read_cell_rep split: if_splits)

lemma read_arg_val: "is_val a \<Longrightarrow> arg_value xs a = Some x \<Longrightarrow> read_arg v moved a = Inr x"
  by (cases a) auto

section \<open>Memory\<close>

lemma construct_after:
  assumes "vv_rep v xs" and "length xs + length ys \<le> vv_c v"
  shows "\<exists>v'. construct_at v (length xs) ys = Inr v' \<and> vv_rep (v'\<lparr>vv_n := length xs + length ys\<rparr>) (xs @ ys) \<and>
    vv_c v' = vv_c v \<and> vv_n v' = vv_n v"
  using assms
proof (elim vv_repE)
  fix rest
  assume r: "vv_p v = map Some xs @ rest" "vv_n v = length xs" "vv_c v = length xs + length rest"
    and nn: "vv_c v \<noteq> 0 \<Longrightarrow> \<not> vv_null v" and fits: "length xs + length ys \<le> vv_c v"
  let ?v = "v\<lparr>vv_p := map Some (xs @ ys) @ drop (length ys) rest\<rparr>"
  have "construct_at v (length xs) ys = Inr ?v"
    using r fits by (simp add: construct_at_def)
  moreover have "vv_rep (?v\<lparr>vv_n := length xs + length ys\<rparr>) (xs @ ys)"
    unfolding vv_rep_def by (rule exI [of _ "drop (length ys) rest"]) (use r fits nn in auto)
  ultimately show ?thesis by auto
qed

lemma construct_first:
  assumes "vv_rep v []" and "length ys \<le> vv_c v"
  shows "\<exists>v'. construct_at v 0 ys = Inr v' \<and> vv_rep (v'\<lparr>vv_n := length ys\<rparr>) ys"
  using construct_after [OF assms(1), of ys] assms(2) by auto

lemma construct_over:
  assumes "vv_rep v xs" and "i + length ys \<le> length xs"
  shows "\<exists>v'. construct_at v i ys = Inr v' \<and> vv_rep v' (take i xs @ ys @ drop (i + length ys) xs) \<and> vv_c v' = vv_c v"
  using assms
proof (elim vv_repE)
  fix rest
  assume r: "vv_p v = map Some xs @ rest" "vv_n v = length xs" "vv_c v = length xs + length rest"
    and nn: "vv_c v \<noteq> 0 \<Longrightarrow> \<not> vv_null v" and fits: "i + length ys \<le> length xs"
  let ?v = "v\<lparr>vv_p := map Some (take i xs @ ys @ drop (i + length ys) xs) @ rest\<rparr>"
  have "construct_at v i ys = Inr ?v"
    using r fits by (simp add: construct_at_def take_map drop_map)
  moreover have "vv_rep ?v (take i xs @ ys @ drop (i + length ys) xs)"
    unfolding vv_rep_def by (rule exI [of _ rest]) (use r fits nn in auto)
  ultimately show ?thesis by auto
qed

lemma assign_over:
  assumes "vv_rep v xs" and "i + length ys \<le> length xs"
  shows "\<exists>v'. assign_at env v i ys = Inr v' \<and> vv_rep v' (take i xs @ ys @ drop (i + length ys) xs) \<and> vv_c v' = vv_c v"
proof -
  have "list_all (\<lambda>k. k < length (vv_p v) \<and> vv_p v ! k \<noteq> None) [i..<i + length ys]"
    using assms by (auto elim!: vv_repE simp: list_all_iff nth_append)
  with construct_over [OF assms] show ?thesis by (simp add: assign_at_def)
qed

lemma destroy_middle:
  assumes "vv_rep v xs" and "i \<le> j" and "j \<le> length xs"
  shows "\<exists>mid rest. length mid = j - i \<and> vv_c v = length xs + length rest \<and> (vv_c v \<noteq> 0 \<longrightarrow> \<not> vv_null v) \<and>
    destroy_range env v i j = Inr (v\<lparr>vv_p := map Some (take i xs) @ mid @ map Some (drop j xs) @ rest\<rparr>)"
  using assms(1)
proof (rule vv_repE)
  fix rest
  assume r: "vv_p v = map Some xs @ rest" "vv_n v = length xs" "vv_c v = length xs + length rest"
    and nn: "vv_c v \<noteq> 0 \<Longrightarrow> \<not> vv_null v"
  have split: "xs = take i xs @ take (j - i) (drop i xs) @ drop j xs"
    using assms(2) by (metis append_take_drop_id drop_drop le_add_diff_inverse2)
  show ?thesis
  proof (cases "trivial_destructor env")
    case True
    have "vv_p v = map Some (take i xs) @ map Some (take (j - i) (drop i xs)) @ map Some (drop j xs) @ rest"
      using r(1) split by (metis append.assoc map_append)
    then have "destroy_range env v i j =
        Inr (v\<lparr>vv_p := map Some (take i xs) @ map Some (take (j - i) (drop i xs)) @ map Some (drop j xs) @ rest\<rparr>)"
      using True by (simp add: destroy_range_def)
    with r nn assms(2,3) show ?thesis
      by (intro exI [of _ "map Some (take (j - i) (drop i xs))"] exI [of _ rest]) auto
  next
    case False
    have "list_all (\<lambda>k. vv_p v ! k \<noteq> None) [i..<j]" using r assms(3) by (auto simp: list_all_iff nth_append)
    moreover have "max i j = j" using assms(2) by simp
    ultimately have "destroy_range env v i j =
        Inr (v\<lparr>vv_p := map Some (take i xs) @ replicate (j - i) None @ map Some (drop j xs) @ rest\<rparr>)"
      using False r assms(2,3) by (simp add: destroy_range_def take_map drop_map)
    with r nn assms(2,3) show ?thesis by (intro exI [of _ "replicate (j - i) None"] exI [of _ rest]) auto
  qed
qed

text \<open>The elements from \<open>i\<close> on are destroyed: what is left are the elements before.\<close>

lemma destroy_suffix:
  assumes "vv_rep v xs" and "i \<le> length xs"
  shows "\<exists>v'. destroy_range env v i (length xs) = Inr v' \<and> vv_rep (v'\<lparr>vv_n := i\<rparr>) (take i xs) \<and>
    vv_c v' = vv_c v \<and> vv_n v' = vv_n v"
proof -
  obtain mid rest where m: "length mid = length xs - i" "vv_c v = length xs + length rest" "vv_c v \<noteq> 0 \<longrightarrow> \<not> vv_null v"
      "destroy_range env v i (length xs) = Inr (v\<lparr>vv_p := map Some (take i xs) @ mid @ map Some (drop (length xs) xs) @ rest\<rparr>)"
    using destroy_middle [OF assms order_refl] by blast
  have "vv_rep (v\<lparr>vv_p := map Some (take i xs) @ mid @ rest, vv_n := i\<rparr>) (take i xs)"
    unfolding vv_rep_def by (rule exI [of _ "mid @ rest"]) (use m assms(2) in auto)
  with m(4) show ?thesis by auto
qed

section \<open>Capacity\<close>

lemma realloc_rep:
  assumes "vv_rep v xs" and "length xs \<le> k" and "0 < k"
  shows "vv_rep (v\<lparr>vv_p := realloc_cells (vv_p v) k, vv_null := False, vv_c := k\<rparr>) xs"
  using assms(1)
proof (rule vv_repE)
  fix rest
  assume r: "vv_p v = map Some xs @ rest" "vv_n v = length xs" "vv_c v = length xs + length rest"
  show ?thesis
    unfolding vv_rep_def
    by (rule exI [of _ "take (k - length xs) rest @ replicate (k - length xs - length rest) None"])
      (use r assms in \<open>auto simp: realloc_cells_def\<close>)
qed

lemma vv_reserve_law:
  assumes r: "vv_rep v xs" and w: "wide env"
  shows "yields (granted env) (vv_reserve env v k) (\<lambda>v'. vv_rep v' xs \<and> k \<le> vv_c v' \<and> vv_c v \<le> vv_c v')"
proof (cases "k \<le> vv_c v")
  case True
  with r vv_rep_fits [OF r] vv_rep_n [OF r] show ?thesis by (simp add: vv_reserve_def)
next
  case False
  have "vv_rep (v\<lparr>vv_p := replicate k None, vv_null := False, vv_c := k\<rparr>) xs" if "xs = []"
    using that r by (auto simp: vv_rep_def)
  with False r w vv_rep_fits [OF r] vv_rep_n [OF r] realloc_rep [OF r, of k] show ?thesis
    by (cases "grant env k") (auto simp: vv_reserve_def vv_reserve_slow_def yields_def)
qed

lemma ensure_capacity_slow_law:
  assumes r: "vv_rep v xs" and w: "wide env" and "vv_c v < k"
  shows "yields (granted env) (ensure_capacity_slow env v k)
    (\<lambda>v'. vv_rep v' xs \<and> k \<le> vv_c v' \<and> vv_c v' = max (larger_capacity (vv_c v)) k)"
proof -
  let ?k = "max (larger_capacity (vv_c v)) k"
  have "length xs \<le> ?k" "0 < ?k" using vv_rep_fits [OF r] assms(3) by auto
  from realloc_rep [OF r this] assms(3) vv_rep_fits [OF r] vv_rep_n [OF r] w show ?thesis
    by (cases "grant env ?k") (auto simp: ensure_capacity_slow_def yields_def Let_def)
qed

lemma ensure_capacity_law:
  assumes r: "vv_rep v xs" and w: "wide env"
  shows "yields (granted env) (ensure_capacity env v k) (\<lambda>v'. vv_rep v' xs \<and> k \<le> vv_c v' \<and> vv_n v' = vv_n v \<and>
    vv_c v' = (if k \<le> vv_c v then vv_c v else max (larger_capacity (vv_c v)) k))"
proof (cases "k \<le> vv_c v")
  case True
  with r vv_rep_fits [OF r] vv_rep_n [OF r] show ?thesis by (simp add: ensure_capacity_def)
next
  case False
  then have "vv_c v < k" by simp
  have "yields (granted env) (ensure_capacity_slow env v k) (\<lambda>v'. vv_rep v' xs \<and> k \<le> vv_c v' \<and> vv_n v' = vv_n v \<and>
      vv_c v' = max (larger_capacity (vv_c v)) k)"
    by (rule yields_mono [OF ensure_capacity_slow_law [OF r w \<open>vv_c v < k\<close>]]) (auto simp: vv_rep_n [OF r] vv_rep_n)
  with False vv_rep_fits [OF r] vv_rep_n [OF r] show ?thesis by (simp add: ensure_capacity_def)
qed

lemma try_capacity_loop_law:
  assumes r: "vv_rep v xs" and w: "wide env" and "length xs \<le> a" and "0 < a" and "a \<le> b"
  shows "yields (grant env a) (try_capacity_loop env v a b) (\<lambda>v'. vv_rep v' xs \<and> a \<le> vv_c v' \<and> vv_c v' \<le> b \<and> grant env (vv_c v'))"
  using assms(5)
proof (induction "b - a" arbitrary: b rule: less_induct)
  case less
  show ?case
  proof (cases "grant env b")
    case True
    with realloc_rep [OF r, of b] assms(3,4) less.prems w show ?thesis
      by (simp add: try_capacity_loop.simps [of env v a b])
  next
    case False
    show ?thesis
    proof (cases "b \<le> a")
      case True
      with less.prems have "b = a" by simp
      with False show ?thesis by (simp add: try_capacity_loop.simps [of env v a a] yields_def)
    next
      case nle: False
      let ?b = "a + (b - a) div 2"
      have b: "?b - a < b - a" "a \<le> ?b" "?b \<le> b" using nle by auto
      have "yields (grant env a) (try_capacity_loop env v a ?b) (\<lambda>v'. vv_rep v' xs \<and> a \<le> vv_c v' \<and> vv_c v' \<le> b \<and> grant env (vv_c v'))"
        by (rule yields_mono [OF less.hyps [OF b(1,2)]]) (use b(3) in auto)
      then show ?thesis using False nle by (simp add: try_capacity_loop.simps [of env v a b])
    qed
  qed
qed

lemma try_capacity_law:
  assumes r: "vv_rep v xs" and w: "wide env"
  shows "yields (grant env a) (try_capacity env v a b) (\<lambda>v'. vv_rep v' xs \<and> a \<le> vv_c v' \<and> vv_c v' \<le> max (vv_c v) (max a b))"
proof (cases "a \<le> vv_c v")
  case True
  with r vv_rep_fits [OF r] vv_rep_n [OF r] show ?thesis by (simp add: try_capacity_def)
next
  case False
  then have a: "length xs \<le> a" "0 < a" using vv_rep_fits [OF r] by auto
  have "yields (grant env a) (try_capacity_loop env v a (max a b)) (\<lambda>v'. vv_rep v' xs \<and> a \<le> vv_c v' \<and> vv_c v' \<le> max (vv_c v) (max a b))"
    by (rule yields_mono [OF try_capacity_loop_law [OF r w a]]) auto
  moreover have "(if b < a then a else b) = max a b" by auto
  ultimately show ?thesis
    using False vv_rep_fits [OF r] vv_rep_n [OF r] by (simp add: try_capacity_def try_capacity_slow_def)
qed

lemma vv_shrink_to_fit_law:
  assumes r: "vv_rep v xs"
  shows "\<exists>v'. vv_shrink_to_fit env v = Inr v' \<and> vv_rep v' xs \<and> (granted env \<longrightarrow> vv_c v' = length xs)"
proof (cases "xs = []")
  case True
  with r show ?thesis
    using vv_rep_fits [OF r] vv_rep_n [OF r] vv_new_rep by (auto simp: vv_shrink_to_fit_def vv_new_def)
next
  case False
  have "vv_null v = False" using r False by (auto elim!: vv_repE)
  moreover have "vv_rep (v\<lparr>vv_p := realloc_cells (vv_p v) (length xs), vv_null := False, vv_c := length xs\<rparr>) xs"
    using realloc_rep [OF r order_refl] False by simp
  moreover have "v\<lparr>vv_p := realloc_cells (vv_p v) (length xs), vv_null := vv_null v, vv_c := length xs\<rparr>
      = v\<lparr>vv_p := realloc_cells (vv_p v) (length xs), vv_c := length xs\<rparr>"
    by simp
  ultimately have "vv_rep (v\<lparr>vv_p := realloc_cells (vv_p v) (length xs), vv_c := length xs\<rparr>) xs" by metis
  with r False show ?thesis
    using vv_rep_fits [OF r] vv_rep_n [OF r] by (auto simp: vv_shrink_to_fit_def)
qed

lemma vv_shrink_to_fit_malloc_free_law:
  assumes r: "vv_rep v xs"
  shows "\<exists>v'. vv_shrink_to_fit_malloc_free env v = Inr v' \<and> vv_rep v' xs \<and> (granted env \<longrightarrow> vv_c v' = length xs)"
proof -
  note n = vv_rep_n [OF r] vv_rep_fits [OF r]
  have nn: "vv_c v \<noteq> 0 \<Longrightarrow> \<not> vv_null v" using r by (auto elim!: vv_repE)
  have "vv_rep (v\<lparr>vv_p := take (length xs) (vv_p v), vv_c := length xs\<rparr>) xs"
    using r by (auto elim!: vv_repE simp: vv_rep_def)
  moreover have "vv_rep (v\<lparr>vv_p := [], vv_null := True, vv_c := 0\<rparr>) xs" if "xs = []"
    using that n by (simp add: vv_rep_def)
  ultimately show ?thesis
    using n nn r vv_shrink_to_fit_law [OF r, of env] by (auto simp: vv_shrink_to_fit_malloc_free_def)
qed

section \<open>Size\<close>

text \<open>Growing by elements that are made at the end: the step that most operations share.\<close>

lemma grow_by:
  assumes r: "vv_rep v xs" and w: "wide env"
    and rest: "\<And>v'. vv_rep v' xs \<Longrightarrow> length xs + length ys \<le> vv_c v' \<Longrightarrow> vv_n v' = length xs \<Longrightarrow>
      yields (granted env) (f v') Q"
  shows "yields (granted env) (bind_res (ensure_capacity env v (length xs + length ys)) f) Q"
  by (rule yields_bind [OF ensure_capacity_law [OF r w]]) (use rest vv_rep_n [OF r] in auto)

lemma ensure_then:
  assumes "vv_rep v xs" and "wide env"
    and "\<And>v'. vv_rep v' xs \<Longrightarrow> k \<le> vv_c v' \<Longrightarrow> yields (granted env) (f v') Q"
  shows "yields (granted env) (bind_res (ensure_capacity env v k) f) Q"
  by (rule yields_bind [OF ensure_capacity_law [OF assms(1,2)]]) (use assms(3) in auto)

lemma construct_end:
  assumes "vv_rep v xs" and "length xs + length ys \<le> vv_c v" and "k = length xs + length ys"
  shows "yields G (bind_res (construct_at v (length xs) ys) (\<lambda>v. Inr (v\<lparr>vv_n := k\<rparr>))) (\<lambda>v. vv_rep v (xs @ ys))"
  using construct_after [OF assms(1,2)] assms(3) by auto

lemma vv_trim_law:
  assumes r: "vv_rep v xs" and w: "wide env" and "i \<le> length xs"
  shows "\<exists>v'. vv_trim env v i = Inr v' \<and> vv_rep v' (take i xs)"
  using destroy_suffix [OF r assms(3), of env] assms(3) vv_rep_n [OF r] w by (auto simp: vv_trim_def)

lemma set_n_shorter: "vv_rep v xs \<Longrightarrow> k \<le> length xs \<Longrightarrow> vv_rep (v\<lparr>vv_n := k\<rparr>) (take k xs)"
proof (elim vv_repE)
  fix rest
  assume r: "vv_p v = map Some xs @ rest" "vv_n v = length xs" "vv_c v = length xs + length rest"
    and nn: "vv_c v \<noteq> 0 \<Longrightarrow> \<not> vv_null v" and k: "k \<le> length xs"
  have "map Some xs = map Some (take k xs) @ map Some (drop k xs)" by (metis append_take_drop_id map_append)
  then show "vv_rep (v\<lparr>vv_n := k\<rparr>) (take k xs)"
    unfolding vv_rep_def by (intro exI [of _ "map Some (drop k xs) @ rest"]) (use r nn k in auto)
qed

lemma vv_resize_fill_law:
  assumes r: "vv_rep v xs" and w: "wide env" and a: "arg_value xs a = Some x" "is_val a"
  shows "yields (granted env) (vv_resize_fill_arg env v k a) (\<lambda>v'. vv_rep v' (take k xs @ replicate (k - length xs) x))"
proof (cases "k \<le> length xs")
  case True
  show ?thesis
  proof (cases "trivial_destructor env \<or> k = length xs")
    case t: True
    with True set_n_shorter [OF r, of k] r w vv_rep_n [OF r] vv_rep_fits [OF r] show ?thesis
      by (auto simp: vv_resize_fill_arg_def Let_def)
  next
    case False
    with True destroy_suffix [OF r True, of env] w vv_rep_n [OF r] vv_rep_fits [OF r] show ?thesis
      by (auto simp: vv_resize_fill_arg_def vv_resize_slow_fill_def Let_def)
  qed
next
  case False
  let ?ys = "replicate (k - length xs) x"
  have k: "k = length xs + length ?ys" using False by simp
  have "yields (granted env) (bind_res (ensure_capacity env v (length xs + length ?ys)) (\<lambda>v'.
      bind_res (read_arg v' (k > vv_c v) a) (\<lambda>x. bind_res (construct_at v' (length xs) (replicate (k - length xs) x))
        (\<lambda>v. Inr (v\<lparr>vv_n := size_field env k\<rparr>))))) (\<lambda>v'. vv_rep v' (xs @ ?ys))"
  proof (rule grow_by [OF r w])
    fix v'
    assume "vv_rep v' xs" "length xs + length ?ys \<le> vv_c v'"
    from construct_end [OF this k] show "yields (granted env) (bind_res (read_arg v' (k > vv_c v) a) (\<lambda>x.
        bind_res (construct_at v' (length xs) (replicate (k - length xs) x)) (\<lambda>v. Inr (v\<lparr>vv_n := size_field env k\<rparr>))))
        (\<lambda>v'. vv_rep v' (xs @ ?ys))"
      using w by (simp add: read_arg_val [OF a(2,1)])
  qed
  with False vv_rep_n [OF r] vv_rep_fits [OF r] show ?thesis
    by (auto simp: vv_resize_fill_arg_def vv_resize_slow_fill_def Let_def bind_res_assoc)
qed

lemma grow_construct:
  assumes r: "vv_rep v xs" and w: "wide env" and k: "k = length xs + length ys"
    and f: "\<And>v'. vv_rep v' xs \<Longrightarrow> f v' = bind_res (construct_at v' (length xs) ys) (\<lambda>v. Inr (v\<lparr>vv_n := k\<rparr>))"
  shows "yields (granted env) (bind_res (ensure_capacity env v k) f) (\<lambda>v'. vv_rep v' (xs @ ys))"
  unfolding k by (rule grow_by [OF r w]) (simp add: f k construct_end)

lemma vv_resize_slow_law:
  assumes r: "vv_rep v xs" and w: "wide env" and k: "length xs < k"
  shows "yields (granted env) (vv_resize_slow env v k) (\<lambda>v'. vv_rep v' (xs @ replicate (k - length xs) (default_cons env)))"
proof -
  have "yields (granted env) (bind_res (ensure_capacity env v k) (\<lambda>v'. bind_res (construct_at v' (length xs)
      (replicate (k - length xs) (default_cons env))) (\<lambda>v. Inr (v\<lparr>vv_n := size_field env k\<rparr>))))
      (\<lambda>v'. vv_rep v' (xs @ replicate (k - length xs) (default_cons env)))"
    by (rule grow_construct [OF r w]) (use k w in auto)
  with k vv_rep_n [OF r] vv_rep_fits [OF r] show ?thesis by (simp add: vv_resize_slow_def Let_def bind_res_assoc)
qed

lemma vv_resize_law:
  assumes r: "vv_rep v xs" and w: "wide env"
  shows "yields (granted env) (vv_resize env v k) (\<lambda>v'. vv_rep v' (take k xs @ replicate (k - length xs) (default_cons env)))"
proof (cases "k \<le> length xs")
  case True
  show ?thesis
  proof (cases "trivial_destructor env \<or> k = length xs")
    case t: True
    with True set_n_shorter [OF r, of k] r w vv_rep_n [OF r] vv_rep_fits [OF r] show ?thesis
      by (auto simp: vv_resize_def Let_def)
  next
    case False
    with True destroy_suffix [OF r True, of env] w vv_rep_n [OF r] vv_rep_fits [OF r] show ?thesis
      by (auto simp: vv_resize_def vv_resize_slow_def Let_def)
  qed
next
  case False
  with vv_resize_slow_law [OF r w, of k] vv_rep_n [OF r] vv_rep_fits [OF r] show ?thesis
    by (simp add: vv_resize_def Let_def)
qed

lemma vv_erase_all_law:
  assumes r: "vv_rep v xs"
  shows "\<exists>v'. vv_erase_all env v = Inr v' \<and> vv_rep v' [] \<and> vv_c v' = vv_c v"
  using destroy_suffix [OF r le0, of env] vv_rep_n [OF r] by (auto simp: vv_erase_all_def)

lemma vv_refill_from_empty:
  assumes r: "vv_rep v xs" and "length ys \<le> vv_c v"
  shows "\<exists>v1 v2. destroy_range env v 0 (length xs) = Inr v1 \<and> construct_at v1 0 ys = Inr v2 \<and>
    vv_rep (v2\<lparr>vv_n := length ys\<rparr>) ys"
proof -
  obtain v1 where v1: "destroy_range env v 0 (length xs) = Inr v1" "vv_rep (v1\<lparr>vv_n := 0\<rparr>) []" "vv_c v1 = vv_c v"
    using destroy_suffix [OF r le0, of env] by auto
  obtain v2 where "construct_at (v1\<lparr>vv_n := 0\<rparr>) 0 ys = Inr v2" "vv_rep (v2\<lparr>vv_n := length ys\<rparr>) ys"
    using construct_first [OF v1(2), of ys] v1(3) assms(2) by auto
  moreover have "construct_at (v1\<lparr>vv_n := 0\<rparr>) 0 ys = map_sum id (\<lambda>v. v\<lparr>vv_n := 0\<rparr>) (construct_at v1 0 ys)"
    by (simp add: construct_at_def)
  ultimately show ?thesis using v1(1) by (cases "construct_at v1 0 ys") auto
qed

lemma vv_refill_law:
  assumes r: "vv_rep v xs" and w: "wide env" and a: "arg_value xs a = Some x" "is_val a"
  shows "yields (granted env) (vv_refill env v k a) (\<lambda>v'. vv_rep v' (replicate k x))"
proof -
  have "yields (granted env) (bind_res (destroy_range env v' 0 (vv_n v')) (\<lambda>v'. bind_res (read_arg v' (k > vv_c v) a)
      (\<lambda>x. bind_res (construct_at v' 0 (replicate k x)) (\<lambda>v'. Inr (v'\<lparr>vv_n := size_field env k\<rparr>)))))
      (\<lambda>v'. vv_rep v' (replicate k x))" if "vv_rep v' xs" "k \<le> vv_c v'" for v'
    using vv_refill_from_empty [OF that(1), of "replicate k x" env] that(2) vv_rep_n [OF that(1)] w
    by (auto simp: read_arg_val [OF a(2,1)])
  note step = this
  show ?thesis
    unfolding vv_refill_def by (intro yields_verify ensure_then [OF r w] step) (use vv_rep_n [OF r] vv_rep_fits [OF r] in auto)
qed

lemma vv_refill_default_law:
  assumes r: "vv_rep v xs" and w: "wide env"
  shows "yields (granted env) (vv_refill_default env v k) (\<lambda>v'. vv_rep v' (replicate k (default_cons env)))"
proof -
  have "yields (granted env) (bind_res (destroy_range env v' 0 (vv_n v')) (\<lambda>v'.
      bind_res (construct_at v' 0 (replicate k (default_cons env))) (\<lambda>v'. Inr (v'\<lparr>vv_n := size_field env k\<rparr>))))
      (\<lambda>v'. vv_rep v' (replicate k (default_cons env)))" if "vv_rep v' xs" "k \<le> vv_c v'" for v'
    using vv_refill_from_empty [OF that(1), of "replicate k (default_cons env)" env] that(2) vv_rep_n [OF that(1)] w by auto
  note step = this
  show ?thesis
    unfolding vv_refill_default_def
    by (intro yields_verify ensure_then [OF r w] step) (use vv_rep_n [OF r] vv_rep_fits [OF r] in auto)
qed

section \<open>Insertion\<close>

lemma insert_cells:
  assumes r: "vv_rep v xs" and pos: "pos \<le> length xs" and fits: "length xs + length ys \<le> vv_c v"
  shows "\<exists>v1 v2. memmove_cells v (pos + length ys) pos (length xs - pos) = Inr v1 \<and> vv_n v1 = length xs \<and>
    construct_at v1 pos ys = Inr v2 \<and> vv_n v2 = length xs \<and>
    vv_rep (v2\<lparr>vv_n := length xs + length ys\<rparr>) (take pos xs @ ys @ drop pos xs)"
  using r
proof (rule vv_repE)
  fix rest
  assume p: "vv_p v = map Some xs @ rest" "vv_n v = length xs" "vv_c v = length xs + length rest"
    and nn: "vv_c v \<noteq> 0 \<Longrightarrow> \<not> vv_null v"
  let ?m = "take (pos + length ys) (vv_p v) @ map Some (drop pos xs) @ drop (length ys) rest"
  have "memmove_cells v (pos + length ys) pos (length xs - pos) = Inr (v\<lparr>vv_p := ?m\<rparr>)"
    using p pos fits by (simp add: memmove_cells_def drop_map)
  moreover have "construct_at (v\<lparr>vv_p := ?m\<rparr>) pos ys =
      Inr (v\<lparr>vv_p := map Some (take pos xs @ ys @ drop pos xs) @ drop (length ys) rest\<rparr>)"
  proof -
    have l: "length (take (pos + length ys) (vv_p v)) = pos + length ys" using p pos fits by simp
    have "take pos ?m = map Some (take pos xs)" using l p pos by (simp add: take_map min_def)
    moreover have "drop (pos + length ys) ?m = map Some (drop pos xs) @ drop (length ys) rest" using l by simp
    moreover have "pos + length ys \<le> length ?m" using l by (simp del: length_take)
    ultimately show ?thesis by (simp add: construct_at_def)
  qed
  moreover have "vv_rep (v\<lparr>vv_p := map Some (take pos xs @ ys @ drop pos xs) @ drop (length ys) rest,
      vv_n := length xs + length ys\<rparr>) (take pos xs @ ys @ drop pos xs)"
    unfolding vv_rep_def by (rule exI [of _ "drop (length ys) rest"]) (use p nn fits pos in auto)
  ultimately show ?thesis using p(2) by auto
qed

lemma vv_insert_law:
  assumes r: "vv_rep v xs" and w: "wide env" and pos: "pos \<le> length xs" and a: "arg_value xs a = Some x" "is_val a"
  shows "yields (granted env) (vv_insert env v pos a) (\<lambda>v'. vv_rep v' (take pos xs @ x # drop pos xs))"
proof -
  have "yields (granted env) (bind_res (memmove_cells v' (pos + 1) pos (vv_n v' - pos)) (\<lambda>v'.
      bind_res (read_arg v' (size_field env (vv_n v + 1) > vv_c v) a) (\<lambda>y. bind_res (construct_at v' pos [y]) (\<lambda>v'.
        Inr (v'\<lparr>vv_n := size_field env (vv_n v' + 1)\<rparr>))))) (\<lambda>v'. vv_rep v' (take pos xs @ x # drop pos xs))"
    if "vv_rep v' xs" "length xs + 1 \<le> vv_c v'" for v'
    using insert_cells [OF that(1) pos, of "[x]"] that(2) vv_rep_n [OF that(1)] w
    by (auto simp: read_arg_val [OF a(2,1)])
  note step = this
  show ?thesis
    unfolding vv_insert_def
    by (intro yields_verify ensure_then [OF r w] step) (use vv_rep_n [OF r] vv_rep_fits [OF r] pos w in auto)
qed

lemma vv_insert_range_law:
  assumes r: "vv_rep v xs" and w: "wide env" and pos: "pos \<le> length xs"
  shows "yields (granted env) (vv_insert_range env v pos ys) (\<lambda>v'. vv_rep v' (take pos xs @ ys @ drop pos xs))"
proof -
  have "yields (granted env) (bind_res (memmove_cells v' (pos + length ys) pos (vv_n v' - pos)) (\<lambda>v'.
      bind_res (construct_at v' pos ys) (\<lambda>v'. Inr (v'\<lparr>vv_n := size_field env (vv_n v' + length ys)\<rparr>))))
      (\<lambda>v'. vv_rep v' (take pos xs @ ys @ drop pos xs))"
    if "vv_rep v' xs" "length xs + length ys \<le> vv_c v'" for v'
    using insert_cells [OF that(1) pos that(2)] vv_rep_n [OF that(1)] w by auto
  note step = this
  show ?thesis
    unfolding vv_insert_range_def Let_def
    by (intro yields_verify ensure_then [OF r w] step) (use vv_rep_n [OF r] vv_rep_fits [OF r] pos w in auto)
qed

section \<open>At the end\<close>

lemma push_back_fast:
  assumes "vv_rep v xs" and "length xs < vv_c v"
  shows "yields G (bind_res (construct_at v (length xs) [x]) (\<lambda>v. Inr (v\<lparr>vv_n := length xs + 1\<rparr>))) (\<lambda>v. vv_rep v (xs @ [x]))"
  using construct_end [OF assms(1), of "[x]"] assms(2) by simp

lemma push_back_law:
  assumes r: "vv_rep v xs" and w: "wide env" and a: "arg_value xs a = Some x"
  shows "yields (granted env) (push_back env v a) (\<lambda>v'. vv_rep v' (xs @ [x]))"
proof (cases "length xs < vv_c v")
  case True
  with push_back_fast [OF r True] vv_rep_n [OF r] w read_arg_rep [OF r a] show ?thesis by (simp add: push_back_def Let_def)
next
  case False
  have "(case a of Elem idx \<Rightarrow> if idx < length xs then read_cell v' idx else read_arg v' m a | Val y \<Rightarrow> Inr y) = Inr x"
    if "vv_rep v' xs" for v' m
    using a read_cell_rep [OF that] by (cases a) (auto split: if_splits)
  then have "yields (granted env) (bind_res (ensure_capacity env v (length xs + 1)) (\<lambda>v'.
      bind_res (case a of Elem idx \<Rightarrow> if idx < length xs then read_cell v' idx else read_arg v' (length xs + 1 > vv_c v) a | Val y \<Rightarrow> Inr y)
       (\<lambda>y. bind_res (construct_at v' (length xs) [y]) (\<lambda>v'. Inr (v'\<lparr>vv_n := size_field env (length xs + 1)\<rparr>)))))
      (\<lambda>v'. vv_rep v' (xs @ [x]))"
    by (intro grow_construct [OF r w]) (use w in auto)
  moreover have "vv_c v = length xs" using False vv_rep_fits [OF r] by simp
  ultimately show ?thesis using vv_rep_n [OF r] by (simp add: push_back_def push_back_slow_def Let_def)
qed

lemma push_back_default_law:
  assumes r: "vv_rep v xs" and w: "wide env"
  shows "yields (granted env) (push_back_default env v) (\<lambda>v'. vv_rep v' (xs @ [default_cons env]))"
proof (cases "length xs < vv_c v")
  case True
  with push_back_fast [OF r True] vv_rep_n [OF r] w show ?thesis by (simp add: push_back_default_def Let_def)
next
  case False
  have "yields (granted env) (bind_res (ensure_capacity env v (length xs + 1)) (\<lambda>v'.
      bind_res (construct_at v' (length xs) [default_cons env]) (\<lambda>v'. Inr (v'\<lparr>vv_n := size_field env (length xs + 1)\<rparr>))))
      (\<lambda>v'. vv_rep v' (xs @ [default_cons env]))"
    by (intro grow_construct [OF r w]) (use w in auto)
  moreover have "vv_c v = length xs" using False vv_rep_fits [OF r] by simp
  ultimately show ?thesis using vv_rep_n [OF r] by (simp add: push_back_default_def push_back_slow_default_def Let_def)
qed

lemma emplace_back_law:
  assumes r: "vv_rep v xs" and w: "wide env" and a: "arg_value xs a = Some x"
  shows "yields (granted env) (emplace_back env v a) (\<lambda>(v', i). vv_rep v' (xs @ [x]) \<and> i = length xs)"
proof (cases "length xs < vv_c v")
  case True
  with construct_after [OF r, of "[x]"] vv_rep_n [OF r] w read_arg_rep [OF r a] show ?thesis
    by (auto simp: emplace_back_def Let_def)
next
  case False
  then have c: "vv_c v = length xs" using vv_rep_fits [OF r] by simp
  have "yields (granted env) (bind_res (construct_at v' (vv_n v') [x]) (\<lambda>v. Inr (v\<lparr>vv_n := size_field env (vv_n v + 1)\<rparr>, vv_n v)))
      (\<lambda>(v', i). vv_rep v' (xs @ [x]) \<and> i = length xs)" if "vv_rep v' xs" "length xs + 1 \<le> vv_c v'" for v'
    using construct_after [OF that(1), of "[x]"] that(2) vv_rep_n [OF that(1)] w by auto
  note step = this
  have "yields (granted env) (bind_res (ensure_capacity_slow env v (length xs + 1)) (\<lambda>v.
      bind_res (construct_at v (vv_n v) [x]) (\<lambda>v. Inr (v\<lparr>vv_n := size_field env (vv_n v + 1)\<rparr>, vv_n v))))
      (\<lambda>(v', i). vv_rep v' (xs @ [x]) \<and> i = length xs)"
    by (rule yields_bind [OF ensure_capacity_slow_law [OF r w]]) (use c step in auto)
  with False c vv_rep_n [OF r] w read_arg_rep [OF r a] show ?thesis
    by (simp add: emplace_back_def emplace_back_slow_def Let_def)
qed

lemma unchecked_push_back_law:
  assumes r: "vv_rep v xs" and w: "wide env" and "length xs < vv_c v"
  shows "\<exists>v'. unchecked_push_back env v (Val x) = Inr v' \<and> vv_rep v' (xs @ [x]) \<and> vv_c v' = vv_c v"
  using construct_after [OF r, of "[x]"] assms(3) vv_rep_n [OF r] w by (auto simp: unchecked_push_back_def Let_def)

lemma vv_append_law:
  assumes r: "vv_rep v xs" and w: "wide env"
  shows "yields (granted env) (vv_append env v ys) (\<lambda>v'. vv_rep v' (xs @ ys))"
proof -
  have "yields (granted env) (bind_res (ensure_capacity env v (length xs + length ys)) (\<lambda>v.
      bind_res (construct_at v (vv_n v) ys) (\<lambda>v. Inr (v\<lparr>vv_n := size_field env (length xs + length ys)\<rparr>)))) (\<lambda>v'. vv_rep v' (xs @ ys))"
  proof (rule grow_construct [OF r w refl])
    fix v' assume "vv_rep v' xs"
    from vv_rep_n [OF this] w
    show "bind_res (construct_at v' (vv_n v') ys) (\<lambda>v. Inr (v\<lparr>vv_n := size_field env (length xs + length ys)\<rparr>)) =
      bind_res (construct_at v' (length xs) ys) (\<lambda>v. Inr (v\<lparr>vv_n := length xs + length ys\<rparr>))" by simp
  qed
  with vv_rep_n [OF r] vv_rep_fits [OF r] show ?thesis by (simp add: vv_append_def Let_def)
qed

text \<open>\<open>v += v\<close> works: the pointer is read after the memory has moved.\<close>

lemma vv_append_self_law:
  assumes r: "vv_rep v xs" and w: "wide env"
  shows "yields (granted env) (vv_append_vec env True v v) (\<lambda>v'. vv_rep v' (xs @ xs))"
proof -
  have "yields (granted env) (bind_res (ensure_capacity env v (length xs + length xs)) (\<lambda>v.
      bind_res (vv_read v [0..<vv_n v]) (\<lambda>xs'. bind_res (construct_at v (vv_n v) xs') (\<lambda>v.
        Inr (v\<lparr>vv_n := size_field env (length xs + length xs)\<rparr>))))) (\<lambda>v'. vv_rep v' (xs @ xs))"
  proof (rule grow_construct [OF r w refl])
    fix v' assume "vv_rep v' xs"
    from vv_read_rep [OF this] vv_rep_n [OF this] w
    show "bind_res (vv_read v' [0..<vv_n v']) (\<lambda>xs'. bind_res (construct_at v' (vv_n v') xs') (\<lambda>v.
        Inr (v\<lparr>vv_n := size_field env (length xs + length xs)\<rparr>))) =
      bind_res (construct_at v' (length xs) xs) (\<lambda>v. Inr (v\<lparr>vv_n := length xs + length xs\<rparr>))" by simp
  qed
  with vv_rep_n [OF r] vv_rep_fits [OF r] show ?thesis by (simp add: vv_append_vec_def Let_def)
qed

lemma vv_append_vec_law:
  assumes r: "vv_rep v xs" and s: "vv_rep y ys" and w: "wide env"
  shows "yields (granted env) (vv_append_vec env False v y) (\<lambda>v'. vv_rep v' (xs @ ys))"
proof -
  have "yields (granted env) (bind_res (ensure_capacity env v (length xs + length ys)) (\<lambda>v.
      bind_res (vv_read y [0..<vv_n y]) (\<lambda>xs'. bind_res (construct_at v (vv_n v) xs') (\<lambda>v.
        Inr (v\<lparr>vv_n := size_field env (length xs + length ys)\<rparr>))))) (\<lambda>v'. vv_rep v' (xs @ ys))"
  proof (rule grow_construct [OF r w refl])
    fix v' assume "vv_rep v' xs"
    from vv_read_rep [OF s] vv_rep_n [OF this] w
    show "bind_res (vv_read y [0..<vv_n y]) (\<lambda>xs'. bind_res (construct_at v' (vv_n v') xs') (\<lambda>v.
        Inr (v\<lparr>vv_n := size_field env (length xs + length ys)\<rparr>))) =
      bind_res (construct_at v' (length xs) ys) (\<lambda>v. Inr (v\<lparr>vv_n := length xs + length ys\<rparr>))" by simp
  qed
  with vv_rep_n [OF r] vv_rep_n [OF s] vv_rep_fits [OF r] show ?thesis by (simp add: vv_append_vec_def Let_def)
qed

lemma vv_assign_law:
  assumes r: "vv_rep v xs" and w: "wide env"
  shows "yields (granted env) (vv_assign env v ys) (\<lambda>v'. vv_rep v' ys)"
proof -
  obtain v1 where v1: "vv_erase_all env v = Inr v1" "vv_rep v1 []" using vv_erase_all_law [OF r, of env] by auto
  have "yields (granted env) (bind_res (vv_reserve env v1 (length ys)) (\<lambda>v.
      bind_res (construct_at v 0 ys) (\<lambda>v. Inr (v\<lparr>vv_n := size_field env (length ys)\<rparr>)))) (\<lambda>v'. vv_rep v' ys)"
    by (rule yields_bind [OF vv_reserve_law [OF v1(2) w]]) (use construct_first w in fastforce)
  with v1(1) show ?thesis by (simp add: vv_assign_def)
qed

lemma push_n_loop_law:
  assumes w: "wide env" and a: "is_val a" "arg_value xs a = Some x"
  shows "vv_rep v xs \<Longrightarrow> length xs + k \<le> vv_c v \<Longrightarrow> \<exists>v'. push_n_loop env moved v k a = Inr v' \<and> vv_rep v' (xs @ replicate k x)"
  using a(2)
proof (induction k arbitrary: v xs)
  case (Suc k)
  obtain v1 where v1: "unchecked_push_back env v (Val x) = Inr v1" "vv_rep v1 (xs @ [x])" "vv_c v1 = vv_c v"
    using unchecked_push_back_law [OF Suc.prems(1) w, of x] Suc.prems(2) by auto
  have "arg_value (xs @ [x]) a = Some x" using a(1) Suc.prems(3) by (cases a) auto
  from Suc.IH [OF v1(2) _ this] Suc.prems(2) v1 read_arg_val [OF a(1) Suc.prems(3)] show ?case
    by (auto simp: replicate_app_Cons_same [symmetric])
qed auto

lemma push_n_law:
  assumes r: "vv_rep v xs" and w: "wide env" and a: "arg_value xs a = Some x" "is_val a"
  shows "yields (granted env) (push_n env v k a) (\<lambda>v'. vv_rep v' (xs @ replicate k x))"
proof (cases "trivial_copy env")
  case True
  have "yields (granted env) (bind_res (ensure_capacity env v (length xs + k)) (\<lambda>v'.
      bind_res (read_arg v' m a) (\<lambda>x. construct_at (v'\<lparr>vv_n := length xs + k\<rparr>) (length xs) (replicate k x))))
      (\<lambda>v'. vv_rep v' (xs @ replicate k x))" for m
  proof (rule ensure_then [OF r w])
    fix v' assume v': "vv_rep v' xs" "length xs + k \<le> vv_c v'"
    obtain v2 where "construct_at v' (length xs) (replicate k x) = Inr v2" "vv_rep (v2\<lparr>vv_n := length xs + k\<rparr>) (xs @ replicate k x)"
      using construct_after [OF v'(1), of "replicate k x"] v'(2) by auto
    moreover have "construct_at (v'\<lparr>vv_n := length xs + k\<rparr>) (length xs) (replicate k x) =
        map_sum id (\<lambda>v. v\<lparr>vv_n := length xs + k\<rparr>) (construct_at v' (length xs) (replicate k x))"
      by (simp add: construct_at_def)
    ultimately show "yields (granted env) (bind_res (read_arg v' m a) (\<lambda>x. construct_at (v'\<lparr>vv_n := length xs + k\<rparr>) (length xs) (replicate k x)))
        (\<lambda>v'. vv_rep v' (xs @ replicate k x))"
      by (simp add: read_arg_val [OF a(2,1)])
  qed
  with True vv_rep_n [OF r] vv_rep_fits [OF r] w show ?thesis
    by (simp add: push_n_def Let_def vv_resize_no_init_def bind_res_assoc read_arg_val [OF a(2,1)])
next
  case False
  have "yields (granted env) (push_n_loop env m v' k a) (\<lambda>v'. vv_rep v' (xs @ replicate k x))"
    if "vv_rep v' xs" "length xs + k \<le> vv_c v'" for v' m
    using push_n_loop_law [OF w a(2,1) that, of m] by auto
  note step = this
  have "yields (granted env) (bind_res (ensure_capacity env v (length xs + k)) (\<lambda>v. push_n_loop env m v k a))
      (\<lambda>v'. vv_rep v' (xs @ replicate k x))" for m
    by (rule ensure_then [OF r w step])
  with False vv_rep_n [OF r] vv_rep_fits [OF r] show ?thesis by (simp add: push_n_def Let_def)
qed

lemma push_all_law:
  assumes w: "wide env"
  shows "vv_rep v xs \<Longrightarrow> yields (granted env) (push_all env v ys) (\<lambda>v'. vv_rep v' (xs @ ys))"
proof (induction ys arbitrary: v xs)
  case (Cons y ys)
  show ?case by (simp, rule yields_bind [OF push_back_law [OF Cons.prems w]]) (use Cons.IH in fastforce)+
qed simp

section \<open>Removal and access\<close>

lemma vv_pop_n_law:
  assumes r: "vv_rep v xs" and "k \<le> length xs"
  shows "\<exists>v'. vv_pop_n env v k = Inr v' \<and> vv_rep v' (take (length xs - k) xs)"
  using destroy_suffix [OF r, of "length xs - k" env] assms(2) vv_rep_n [OF r] by (auto simp: vv_pop_n_def)

lemma vv_pop_back_law:
  assumes r: "vv_rep v xs" and "xs \<noteq> []"
  shows "\<exists>v'. vv_pop_back env v = Inr v' \<and> vv_rep v' (butlast xs)"
  using destroy_suffix [OF r, of "length xs - 1" env] assms(2) vv_rep_n [OF r]
  by (cases "length xs") (auto simp: vv_pop_back_def Let_def butlast_conv_take)

lemma pop_val_law:
  assumes r: "vv_rep v xs" and "xs \<noteq> []"
  shows "\<exists>v'. pop_val v = Inr (v', last xs) \<and> vv_rep v' (butlast xs)"
  using set_n_shorter [OF r, of "length xs - 1"] read_cell_rep [OF r, of "length xs - 1"] assms(2) vv_rep_n [OF r]
  by (auto simp: pop_val_def last_conv_nth butlast_conv_take)

lemma vv_erase_i_law:
  assumes r: "vv_rep v xs" and "pos + cnt \<le> length xs"
  shows "\<exists>v'. vv_erase_i env v pos cnt = Inr (v', pos) \<and> vv_rep v' (take pos xs @ drop (pos + cnt) xs)"
proof -
  obtain mid rest where m: "length mid = cnt" "vv_c v = length xs + length rest" "vv_c v \<noteq> 0 \<longrightarrow> \<not> vv_null v"
      "destroy_range env v pos (pos + cnt) =
        Inr (v\<lparr>vv_p := map Some (take pos xs) @ mid @ map Some (drop (pos + cnt) xs) @ rest\<rparr>)"
    using destroy_middle [OF r le_add1 assms(2), of env] by auto
  let ?p = "map Some (take pos xs) @ mid @ map Some (drop (pos + cnt) xs) @ rest"
  let ?q = "map Some (take pos xs @ drop (pos + cnt) xs) @ drop (length xs - cnt) ?p"
  have "take pos ?p = map Some (take pos xs)" using assms(2) by simp
  moreover have "take (length xs - cnt - pos) (drop (pos + cnt) ?p) = map Some (drop (pos + cnt) xs)"
    using assms(2) m(1) by simp
  moreover have "pos + (length xs - cnt - pos) = length xs - cnt" "length xs \<le> length ?p"
    "max pos (pos + cnt) + (length xs - cnt - pos) = length xs"
    using assms(2) m(1) by auto
  ultimately have "memmove_cells (v\<lparr>vv_p := ?p\<rparr>) pos (pos + cnt) (length xs - cnt - pos) = Inr (v\<lparr>vv_p := ?q\<rparr>)"
    by (simp add: memmove_cells_def del: drop_append)
  moreover have "vv_rep (v\<lparr>vv_p := ?q, vv_n := length xs - cnt\<rparr>) (take pos xs @ drop (pos + cnt) xs)"
    unfolding vv_rep_def by (rule exI [of _ "drop (length xs - cnt) ?p"]) (use m assms(2) in auto)
  ultimately show ?thesis using m(4) vv_rep_n [OF r] assms(2) by (simp add: vv_erase_i_def)
qed

lemma vv_set_law:
  assumes r: "vv_rep v xs" and "i < length xs" and a: "arg_value xs a = Some x"
  shows "\<exists>v'. vv_set env v i a = Inr v' \<and> vv_rep v' (xs[i := x])"
  using assign_over [OF r, of i "[x]" env] assms(2) vv_rep_n [OF r] read_arg_rep [OF r a]
  by (auto simp: vv_set_def upd_conv_take_nth_drop)

lemma vv_fill_range_law:
  assumes r: "vv_rep v xs" and "pos + cnt \<le> length xs" and a: "arg_value xs a = Some x"
  shows "\<exists>v'. vv_fill_range env v pos cnt a = Inr v' \<and> vv_rep v' (take pos xs @ replicate cnt x @ drop (pos + cnt) xs)"
  using assign_over [OF r, of pos "replicate cnt x" env] assms(2) vv_rep_n [OF r] read_arg_rep [OF r a] r
  by (cases "cnt = 0") (auto simp: vv_fill_range_def)

lemma vv_fill_law:
  assumes r: "vv_rep v xs" and a: "arg_value xs a = Some x"
  shows "\<exists>v'. vv_fill env v a = Inr v' \<and> vv_rep v' (replicate (length xs) x)"
  using assign_over [OF r, of 0 "replicate (length xs) x" env] vv_rep_n [OF r] read_arg_rep [OF r a] r
  by (cases "xs = []") (auto simp: vv_fill_def)

lemma ensure_set_law:
  assumes r: "vv_rep v xs" and w: "wide env" and a: "arg_value xs a = Some x" "is_val a"
  shows "yields (granted env) (ensure_set env v i a)
    (\<lambda>v'. vv_rep v' ((if i < length xs then xs else xs @ replicate (i + 1 - length xs) (default_cons env))[i := x]))"
proof (cases "i < length xs")
  case True
  with vv_set_law [OF r True a(1), of env] vv_rep_n [OF r] show ?thesis by (auto simp: ensure_set_def)
next
  case False
  let ?ys = "xs @ replicate (i + 1 - length xs) (default_cons env)"
  have "yields (granted env) (bind_res (read_arg v' m a) (\<lambda>x. assign_at env v' i [x])) (\<lambda>v'. vv_rep v' (?ys[i := x]))"
    if "vv_rep v' ?ys" for v' m
    using assign_over [OF that, of i "[x]" env] False
    by (auto simp: read_arg_val [OF a(2,1)] upd_conv_take_nth_drop)
  note step = this
  have "yields (granted env) (bind_res (vv_resize_slow env v (i + 1)) (\<lambda>v'. bind_res (read_arg v' (i + 1 > vv_c v) a)
      (\<lambda>x. assign_at env v' i [x]))) (\<lambda>v'. vv_rep v' (?ys[i := x]))"
    by (rule yields_bind [OF vv_resize_slow_law [OF r w]]) (use False step in auto)
  with False vv_rep_n [OF r] show ?thesis by (simp add: ensure_set_def)
qed

lemma vv_clear_law:
  assumes r: "vv_rep v xs"
  shows "vv_clear env v = Inr vv_new"
proof -
  obtain v1 where "destroy_range env v 0 (length xs) = Inr v1" using destroy_suffix [OF r le0, of env] by auto
  moreover have "vv_c v \<noteq> 0 \<Longrightarrow> \<not> vv_null v" using r by (auto elim!: vv_repE)
  ultimately show ?thesis
    using vv_rep_n [OF r] vv_rep_fits [OF r] by (auto simp: vv_clear_def destroy_and_free_def)
qed

lemma vv_access:
  assumes r: "vv_rep v xs"
  shows "vv_get v i = (if i < length xs then Inr (xs ! i) else Inl Abort)"
    and "vv_at v i = (if i < length xs then Inr (xs ! i) else Inl Out_of_range)"
    and "vv_top v = (if xs = [] then Inl Logic_error else Inr (last xs))"
    and "vv_front v = (if xs = [] then Inl Abort else Inr (hd xs))"
    and "vv_back v = (if xs = [] then Inl Abort else Inr (last xs))"
proof -
  have "vv_c v \<noteq> 0 \<Longrightarrow> \<not> vv_null v" "length xs \<le> vv_c v" using r by (auto elim!: vv_repE)
  then have nn: "xs \<noteq> [] \<Longrightarrow> \<not> vv_null v" by (metis le_zero_eq length_0_conv)
  show "vv_get v i = (if i < length xs then Inr (xs ! i) else Inl Abort)"
    "vv_at v i = (if i < length xs then Inr (xs ! i) else Inl Out_of_range)"
    using vv_rep_n [OF r] read_cell_rep [OF r] by (auto simp: vv_get_def vv_at_def)
  show "vv_top v = (if xs = [] then Inl Logic_error else Inr (last xs))"
    "vv_front v = (if xs = [] then Inl Abort else Inr (hd xs))"
    "vv_back v = (if xs = [] then Inl Abort else Inr (last xs))"
    using vv_rep_n [OF r] read_cell_rep [OF r] nn
    by (auto simp: vv_top_def vv_front_def vv_back_def hd_conv_nth last_conv_nth)
qed

lemma vv_construct_law:
  assumes "wide env"
  shows "yields (granted env) (vv_construct env xs) (\<lambda>v. vv_rep v xs)"
proof (cases "xs = []")
  case True
  then show ?thesis using vv_new_rep by (simp add: vv_construct_def)
next
  case False
  with assms show ?thesis by (cases "grant env (length xs)") (auto simp: vv_construct_def vv_rep_def yields_def Let_def)
qed

lemma vv_copy_law:
  assumes "vv_rep y xs" and "wide env"
  shows "yields (granted env) (vv_copy env y) (\<lambda>v. vv_rep v xs)"
  using vv_construct_law [OF assms(2), of xs] vv_read_rep [OF assms(1)] by (simp add: vv_copy_def)

section \<open>Comparison\<close>

text \<open>The lexicographic comparison of two lists with the given comparisons of elements.\<close>

fun list_less :: "('a \<Rightarrow> 'a \<Rightarrow> bool) \<Rightarrow> ('a \<Rightarrow> 'a \<Rightarrow> bool) \<Rightarrow> 'a list \<Rightarrow> 'a list \<Rightarrow> bool" where
  "list_less le eq xs [] = False"
| "list_less le eq [] (y # ys) = True"
| "list_less le eq (x # xs) (y # ys) = (if \<not> eq x y then le x y else list_less le eq xs ys)"

lemma list_less_lexord: "list_less (<) (=) xs ys \<longleftrightarrow> (xs, ys) \<in> lexord {(x, y). x < y}" for xs :: "'a :: linorder list"
  by (induction "(<) :: 'a \<Rightarrow> 'a \<Rightarrow> bool" "(=) :: 'a \<Rightarrow> 'a \<Rightarrow> bool" xs ys rule: list_less.induct) auto

lemma list_less_Nil: "list_less le eq [] ys \<longleftrightarrow> 0 < length ys"
  by (cases ys) auto

lemma vv_lessThan_loop_law:
  assumes x: "vv_rep x xs" and y: "vv_rep y ys"
  shows "i \<le> min (length xs) (length ys) \<Longrightarrow>
    vv_lessThan_loop le eq x y [i..<min (length xs) (length ys)] = Inr (list_less le eq (drop i xs) (drop i ys))"
proof (induction "min (length xs) (length ys) - i" arbitrary: i)
  case 0
  then have i: "i = min (length xs) (length ys)" by simp
  show ?case
  proof (cases "length xs \<le> length ys")
    case True
    with i show ?thesis using vv_rep_n [OF x] vv_rep_n [OF y] by (auto simp: list_less_Nil)
  next
    case False
    with i show ?thesis using vv_rep_n [OF x] vv_rep_n [OF y] by simp
  qed
next
  case (Suc k)
  have i: "i < min (length xs) (length ys)" using Suc.hyps(2) by (metis zero_less_Suc zero_less_diff)
  then have d: "drop i xs = xs ! i # drop (Suc i) xs" "drop i ys = ys ! i # drop (Suc i) ys"
    "[i..<min (length xs) (length ys)] = i # [Suc i..<min (length xs) (length ys)]"
    using upt_conv_Cons [OF i] by (auto simp: Cons_nth_drop_Suc)
  with Suc.hyps(1) [of "Suc i"] Suc.hyps(2) i read_cell_rep [OF x, of i] read_cell_rep [OF y, of i] show ?case by simp
qed

lemma vv_lessThan_law:
  assumes "vv_rep x xs" and "vv_rep y ys"
  shows "vv_lessThan le eq x y = Inr (list_less le eq xs ys)"
  using vv_lessThan_loop_law [OF assms, of 0] vv_rep_n [OF assms(1)] vv_rep_n [OF assms(2)] by (simp add: vv_lessThan_def)

lemma vv_equalTo_loop_law:
  assumes x: "vv_rep x xs" and y: "vv_rep y ys"
  shows "\<forall>i\<in>set js. i < length xs \<and> i < length ys \<Longrightarrow> vv_equalTo_loop eq x y js = Inr (list_all (\<lambda>i. eq (xs ! i) (ys ! i)) js)"
  by (induction js) (auto simp: read_cell_rep [OF x] read_cell_rep [OF y])

lemma vv_equalTo_law:
  assumes x: "vv_rep x xs" and y: "vv_rep y ys"
  shows "vv_equalTo eq x y = Inr (list_all2 eq xs ys)"
  using vv_equalTo_loop_law [OF assms, of "[0..<length xs]" eq] vv_rep_n [OF x] vv_rep_n [OF y]
  by (auto simp: vv_equalTo_def list_all2_conv_all_nth list_all_iff)

end
