(* ===== verification/Valvec_Refine.thy ===== *)
theory Valvec_Refine
  imports Valvec_Laws Array_Spec
begin

text \<open>
  \<open>valvec\<close> as a whole: a program of member calls does to the vector what it does to a list (\<open>valvec_programs_refine_lists\<close>);
  the vector is a growing array in the sense of \<open>Array_Spec\<close>; pushing costs a constant number of copies per element;
  and the corners where references into the vector, the returned reference or the 32 bit size fields go wrong.
\<close>

section \<open>Programs of member calls\<close>

datatype 'a vv_op =
    V_push "'a arg"
  | V_push_default
  | V_emplace "'a arg"
  | V_insert nat "'a arg"
  | V_insert_range nat "'a list"
  | V_append "'a list"
  | V_append_self
  | V_push_n nat "'a arg"
  | V_resize nat "'a arg"
  | V_resize_default nat
  | V_refill nat "'a arg"
  | V_refill_default nat
  | V_pop
  | V_pop_n nat
  | V_pop_val
  | V_erase nat nat
  | V_trim nat
  | V_erase_all
  | V_clear
  | V_set nat "'a arg"
  | V_ensure_set nat "'a arg"
  | V_fill_range nat nat "'a arg"
  | V_fill "'a arg"
  | V_assign "'a list"
  | V_assign_input "'a list"
  | V_reserve nat
  | V_ensure_capacity nat
  | V_shrink
  | V_shrink_malloc_free

fun vv_exec :: "'a vv_env \<Rightarrow> 'a valvec \<Rightarrow> 'a vv_op \<Rightarrow> 'a valvec res" where
  "vv_exec env v (V_push a) = push_back env v a"
| "vv_exec env v V_push_default = push_back_default env v"
| "vv_exec env v (V_emplace a) = bind_res (emplace_back env v a) (\<lambda>(v, _). Inr v)"
| "vv_exec env v (V_insert pos a) = vv_insert env v pos a"
| "vv_exec env v (V_insert_range pos ys) = vv_insert_range env v pos ys"
| "vv_exec env v (V_append ys) = vv_append env v ys"
| "vv_exec env v V_append_self = vv_append_vec env True v v"
| "vv_exec env v (V_push_n k a) = push_n env v k a"
| "vv_exec env v (V_resize k a) = vv_resize_fill_arg env v k a"
| "vv_exec env v (V_resize_default k) = vv_resize env v k"
| "vv_exec env v (V_refill k a) = vv_refill env v k a"
| "vv_exec env v (V_refill_default k) = vv_refill_default env v k"
| "vv_exec env v V_pop = vv_pop_back env v"
| "vv_exec env v (V_pop_n k) = vv_pop_n env v k"
| "vv_exec env v V_pop_val = bind_res (pop_val v) (\<lambda>(v, _). Inr v)"
| "vv_exec env v (V_erase pos k) = bind_res (vv_erase_i env v pos k) (\<lambda>(v, _). Inr v)"
| "vv_exec env v (V_trim k) = vv_trim env v k"
| "vv_exec env v V_erase_all = vv_erase_all env v"
| "vv_exec env v V_clear = vv_clear env v"
| "vv_exec env v (V_set i a) = vv_set env v i a"
| "vv_exec env v (V_ensure_set i a) = ensure_set env v i a"
| "vv_exec env v (V_fill_range pos k a) = vv_fill_range env v pos k a"
| "vv_exec env v (V_fill a) = vv_fill env v a"
| "vv_exec env v (V_assign ys) = vv_assign env v ys"
| "vv_exec env v (V_assign_input ys) = vv_assign_input env v ys"
| "vv_exec env v (V_reserve k) = vv_reserve env v k"
| "vv_exec env v (V_ensure_capacity k) = ensure_capacity env v k"
| "vv_exec env v V_shrink = vv_shrink_to_fit env v"
| "vv_exec env v V_shrink_malloc_free = vv_shrink_to_fit_malloc_free env v"

text \<open>
  The value of an argument for the operations that may be given a reference into the vector, and for those that may
  not.
\<close>

definition value_only :: "'a arg \<Rightarrow> 'a option" where
  "value_only a = (case a of Val x \<Rightarrow> Some x | Elem i \<Rightarrow> None)"

fun vv_spec :: "'a \<Rightarrow> 'a list \<Rightarrow> 'a vv_op \<Rightarrow> 'a list option" where
  "vv_spec d xs (V_push a) = map_option (\<lambda>x. xs @ [x]) (arg_value xs a)"
| "vv_spec d xs V_push_default = Some (xs @ [d])"
| "vv_spec d xs (V_emplace a) = map_option (\<lambda>x. xs @ [x]) (arg_value xs a)"
| "vv_spec d xs (V_insert pos a) =
     (if pos \<le> length xs then map_option (\<lambda>x. take pos xs @ x # drop pos xs) (value_only a) else None)"
| "vv_spec d xs (V_insert_range pos ys) = (if pos \<le> length xs then Some (take pos xs @ ys @ drop pos xs) else None)"
| "vv_spec d xs (V_append ys) = Some (xs @ ys)"
| "vv_spec d xs V_append_self = Some (xs @ xs)"
| "vv_spec d xs (V_push_n k a) = map_option (\<lambda>x. xs @ replicate k x) (value_only a)"
| "vv_spec d xs (V_resize k a) = map_option (\<lambda>x. take k xs @ replicate (k - length xs) x) (value_only a)"
| "vv_spec d xs (V_resize_default k) = Some (take k xs @ replicate (k - length xs) d)"
| "vv_spec d xs (V_refill k a) = map_option (\<lambda>x. replicate k x) (value_only a)"
| "vv_spec d xs (V_refill_default k) = Some (replicate k d)"
| "vv_spec d xs V_pop = (if xs \<noteq> [] then Some (butlast xs) else None)"
| "vv_spec d xs (V_pop_n k) = (if k \<le> length xs then Some (take (length xs - k) xs) else None)"
| "vv_spec d xs V_pop_val = (if xs \<noteq> [] then Some (butlast xs) else None)"
| "vv_spec d xs (V_erase pos k) = (if pos + k \<le> length xs then Some (take pos xs @ drop (pos + k) xs) else None)"
| "vv_spec d xs (V_trim k) = (if k \<le> length xs then Some (take k xs) else None)"
| "vv_spec d xs V_erase_all = Some []"
| "vv_spec d xs V_clear = Some []"
| "vv_spec d xs (V_set i a) = (if i < length xs then map_option (\<lambda>x. xs[i := x]) (arg_value xs a) else None)"
| "vv_spec d xs (V_ensure_set i a) =
     map_option (\<lambda>x. (if i < length xs then xs else xs @ replicate (i + 1 - length xs) d)[i := x]) (value_only a)"
| "vv_spec d xs (V_fill_range pos k a) =
     (if pos + k \<le> length xs then map_option (\<lambda>x. take pos xs @ replicate k x @ drop (pos + k) xs) (arg_value xs a) else None)"
| "vv_spec d xs (V_fill a) = map_option (\<lambda>x. replicate (length xs) x) (arg_value xs a)"
| "vv_spec d xs (V_assign ys) = Some ys"
| "vv_spec d xs (V_assign_input ys) = Some ys"
| "vv_spec d xs (V_reserve k) = Some xs"
| "vv_spec d xs (V_ensure_capacity k) = Some xs"
| "vv_spec d xs V_shrink = Some xs"
| "vv_spec d xs V_shrink_malloc_free = Some xs"

fun vv_run :: "'a vv_env \<Rightarrow> 'a valvec \<Rightarrow> 'a vv_op list \<Rightarrow> 'a valvec res" where
  "vv_run env v [] = Inr v"
| "vv_run env v (c # cs) = bind_res (vv_exec env v c) (\<lambda>v. vv_run env v cs)"

fun vv_spec_run :: "'a \<Rightarrow> 'a list \<Rightarrow> 'a vv_op list \<Rightarrow> 'a list option" where
  "vv_spec_run d xs [] = Some xs"
| "vv_spec_run d xs (c # cs) = (case vv_spec d xs c of None \<Rightarrow> None | Some xs \<Rightarrow> vv_spec_run d xs cs)"

section \<open>Simulation\<close>

lemma value_only_Some: "value_only a = Some x \<Longrightarrow> arg_value xs a = Some x \<and> is_val a"
  by (cases a) (auto simp: value_only_def)

lemma exists_yields: "\<exists>v'. r = Inr v' \<and> P v' \<Longrightarrow> yields G r P"
  by auto

lemma vv_assign_input_law:
  assumes r: "vv_rep v xs" and w: "wide env"
  shows "yields (granted env) (vv_assign_input env v ys) (\<lambda>v'. vv_rep v' ys)"
  unfolding vv_assign_input_def
  by (rule yields_bind [OF vv_resize_law [OF r w]]) (use push_all_law [OF w, of _ "[]"] in auto)

lemma vv_exec_refines:
  assumes r: "vv_rep v xs" and w: "wide env" and s: "vv_spec (default_cons env) xs c = Some ys"
  shows "yields (granted env) (vv_exec env v c) (\<lambda>v'. vv_rep v' ys)"
proof (cases c)
  case (V_push a)
  with s push_back_law [OF r w] show ?thesis by auto
next
  case V_push_default
  with s push_back_default_law [OF r w] show ?thesis by auto
next
  case (V_emplace a)
  with s obtain x where "arg_value xs a = Some x" "ys = xs @ [x]" by auto
  with emplace_back_law [OF r w] have "yields (granted env) (emplace_back env v a) (\<lambda>(v', i). vv_rep v' ys \<and> i = length xs)" by simp
  then show ?thesis unfolding V_emplace by (auto intro: yields_bind)
next
  case (V_insert pos a)
  with s vv_insert_law [OF r w] show ?thesis by (auto dest: value_only_Some [of _ _ xs] split: if_splits)
next
  case (V_insert_range pos zs)
  with s vv_insert_range_law [OF r w] show ?thesis by (auto split: if_splits)
next
  case (V_append zs)
  with s vv_append_law [OF r w] show ?thesis by auto
next
  case V_append_self
  with s vv_append_self_law [OF r w] show ?thesis by auto
next
  case (V_push_n k a)
  with s push_n_law [OF r w] show ?thesis by (auto dest: value_only_Some [of _ _ xs])
next
  case (V_resize k a)
  with s vv_resize_fill_law [OF r w] show ?thesis by (auto dest: value_only_Some [of _ _ xs])
next
  case (V_resize_default k)
  with s vv_resize_law [OF r w] show ?thesis by auto
next
  case (V_refill k a)
  with s vv_refill_law [OF r w] show ?thesis by (auto dest: value_only_Some [of _ _ xs])
next
  case (V_refill_default k)
  with s vv_refill_default_law [OF r w] show ?thesis by auto
next
  case V_pop
  with s vv_pop_back_law [OF r] show ?thesis by (auto intro: exists_yields split: if_splits)
next
  case (V_pop_n k)
  with s vv_pop_n_law [OF r] show ?thesis by (auto intro: exists_yields split: if_splits)
next
  case V_pop_val
  with s pop_val_law [OF r] show ?thesis by (auto split: if_splits)
next
  case (V_erase pos k)
  with s vv_erase_i_law [OF r, of pos k env] show ?thesis by (auto split: if_splits)
next
  case (V_trim k)
  with s vv_trim_law [OF r w] show ?thesis by (auto intro: exists_yields split: if_splits)
next
  case V_erase_all
  with s vv_erase_all_law [OF r, of env] show ?thesis by auto
next
  case V_clear
  with s vv_clear_law [OF r, of env] vv_new_rep show ?thesis by auto
next
  case (V_set i a)
  with s vv_set_law [OF r] show ?thesis by (auto intro: exists_yields split: if_splits)
next
  case (V_ensure_set i a)
  with s ensure_set_law [OF r w] show ?thesis by (auto dest: value_only_Some [of _ _ xs])
next
  case (V_fill_range pos k a)
  with s vv_fill_range_law [OF r] show ?thesis by (auto intro: exists_yields split: if_splits)
next
  case (V_fill a)
  with s vv_fill_law [OF r] show ?thesis by (auto intro: exists_yields)
next
  case (V_assign zs)
  with s vv_assign_law [OF r w] show ?thesis by auto
next
  case (V_assign_input zs)
  with s vv_assign_input_law [OF r w] show ?thesis by auto
next
  case (V_reserve k)
  with s yields_mono [OF vv_reserve_law [OF r w]] show ?thesis by auto
next
  case (V_ensure_capacity k)
  with s yields_mono [OF ensure_capacity_law [OF r w]] show ?thesis by auto
next
  case V_shrink
  with s vv_shrink_to_fit_law [OF r, of env] show ?thesis by auto
next
  case V_shrink_malloc_free
  with s vv_shrink_to_fit_malloc_free_law [OF r, of env] show ?thesis by auto
qed

lemma vv_run_refines:
  "vv_rep v xs \<Longrightarrow> wide env \<Longrightarrow> vv_spec_run (default_cons env) xs cs = Some ys \<Longrightarrow>
    yields (granted env) (vv_run env v cs) (\<lambda>v'. vv_rep v' ys)"
proof (induction cs arbitrary: v xs)
  case (Cons c cs)
  from Cons.prems(3) obtain zs where z: "vv_spec (default_cons env) xs c = Some zs" "vv_spec_run (default_cons env) zs cs = Some ys"
    by (auto split: option.splits)
  show ?case
    by simp (rule yields_bind [OF vv_exec_refines [OF Cons.prems(1,2) z(1)]], rule Cons.IH [OF _ Cons.prems(2) z(2)])
qed simp

section \<open>The growing array\<close>

text \<open>A heap that grants everything, and the operations of the interface on it.\<close>

definition vv_granting :: "'a vv_env \<Rightarrow> 'a vv_env" where
  "vv_granting env = env\<lparr>grant := (\<lambda>k. True), size_field := (\<lambda>k. k)\<rparr>"

lemma vv_granting_simps [simp]: "wide (vv_granting env)" "granted (vv_granting env)"
  by (simp_all add: vv_granting_def wide_def)

definition vv_push :: "'a vv_env \<Rightarrow> 'a valvec \<Rightarrow> 'a \<Rightarrow> 'a valvec res" where
  "vv_push env v x = push_back (vv_granting env) v (Val x)"

definition vv_put :: "'a vv_env \<Rightarrow> 'a valvec \<Rightarrow> nat \<Rightarrow> 'a \<Rightarrow> 'a valvec res" where
  "vv_put env v i x = vv_set (vv_granting env) v i (Val x)"

interpretation vv: growing_array vv_rep "vv_push env" "vv_pop_back env" vv_get "vv_put env" vv_n for env
proof unfold_locales
  fix v :: "'a valvec" and xs x i
  assume r: "vv_rep v xs"
  show "\<exists>v'. vv_push env v x = Inr v' \<and> vv_rep v' (xs @ [x])"
    unfolding vv_push_def
    by (rule yields_total [OF push_back_law [OF r vv_granting_simps(1)] vv_granting_simps(2)]) simp
  show "vv_n v = length xs" by (rule vv_rep_n [OF r])
  show "\<exists>v'. vv_pop_back env v = Inr v' \<and> vv_rep v' (butlast xs)" if "xs \<noteq> []"
    using vv_pop_back_law [OF r that] .
  show "vv_get v i = Inr (xs ! i)" if "i < length xs" using vv_access(1) [OF r, of i] that by simp
  show "\<exists>v'. vv_put env v i x = Inr v' \<and> vv_rep v' (xs[i := x])" if "i < length xs"
    unfolding vv_put_def by (rule vv_set_law [OF r that]) simp
qed

section \<open>The cost of growing\<close>

text \<open>How many elements \<open>realloc\<close> has to keep while a list is pushed one by one.\<close>

fun push_copies :: "'a vv_env \<Rightarrow> 'a valvec \<Rightarrow> 'a list \<Rightarrow> nat" where
  "push_copies env v [] = 0"
| "push_copies env v (x # xs) =
     (if vv_n v < vv_c v then 0 else vv_n v) +
     (case push_back env v (Val x) of Inr v' \<Rightarrow> push_copies env v' xs | Inl _ \<Rightarrow> 0)"

lemma larger_capacity_third: "4 * c \<le> 3 * max (larger_capacity c) (c + 1)"
proof (cases "c \<le> 3")
  case True
  then have "4 * c \<le> 3 * (c + 1)" by simp
  then show ?thesis by (meson le_trans max.cobounded2 mult_le_mono2)
next
  case False
  have "c * 103 = 64 * (c * 103 div 64) + c * 103 mod 64" "c * 103 mod 64 < 64" by simp_all
  with False have "4 * c \<le> 3 * (c * 103 div 64)" by linarith
  then show ?thesis by (simp add: larger_capacity_def max_def)
qed

lemma push_back_capacity:
  assumes r: "vv_rep v xs" and w: "wide env" and s: "push_back env v (Val x) = Inr v'"
  shows "vv_c v' = (if length xs < vv_c v then vv_c v else max (larger_capacity (vv_c v)) (vv_c v + 1))"
proof (cases "length xs < vv_c v")
  case True
  with s construct_after [OF r, of "[x]"] vv_rep_n [OF r] show ?thesis by (auto simp: push_back_def Let_def)
next
  case False
  have c: "vv_c v = length xs" using False vv_rep_fits [OF r] by simp
  obtain v1 where v1: "ensure_capacity env v (length xs + 1) = Inr v1" "vv_rep v1 xs"
      "vv_c v1 = max (larger_capacity (vv_c v)) (length xs + 1)"
    using s ensure_capacity_law [OF r w, of "length xs + 1"] c vv_rep_n [OF r]
    by (cases "ensure_capacity env v (length xs + 1)") (auto simp: push_back_def push_back_slow_def Let_def)
  with s construct_after [OF v1(2), of "[x]"] vv_rep_n [OF r] False c show ?thesis
    by (auto simp: push_back_def push_back_slow_def Let_def)
qed

lemma push_copies_bound:
  "vv_rep v xs \<Longrightarrow> wide env \<Longrightarrow> t \<le> 3 * vv_c v \<Longrightarrow> t \<le> 4 * length xs \<Longrightarrow> t + push_copies env v ys \<le> 4 * (length xs + length ys)"
proof (induction ys arbitrary: v xs t)
  case (Cons y ys)
  let ?copied = "if vv_n v < vv_c v then 0 else vv_n v"
  note n = vv_rep_n [OF Cons.prems(1)] and c = vv_rep_fits [OF Cons.prems(1)]
  have copied: "t + ?copied \<le> 4 * length (xs @ [y])"
    using Cons.prems(3,4) n c by auto
  show ?case
  proof (cases "push_back env v (Val y)")
    case (Inl e)
    with copied show ?thesis by simp
  next
    case (Inr v')
    have rep: "vv_rep v' (xs @ [y])"
      using push_back_law [OF Cons.prems(1,2), of "Val y" y] Inr by simp
    have "t + ?copied \<le> 3 * vv_c v'"
      using push_back_capacity [OF Cons.prems(1,2) Inr] larger_capacity_third [of "vv_c v"] Cons.prems(3) n c by auto
    from Cons.IH [OF rep Cons.prems(2) this copied] Inr show ?thesis by simp
  qed
qed simp

section \<open>References into the vector\<close>

text \<open>After the elements from \<open>pos\<close> on have moved up, a reference behind \<open>pos\<close> is to the element before.\<close>

lemma read_after_memmove:
  assumes r: "vv_rep v xs" and "pos < i" and "i < length xs" and "length xs < vv_c v"
  shows "\<exists>v'. memmove_cells v (pos + 1) pos (length xs - pos) = Inr v' \<and> read_cell v' i = Inr (xs ! (i - 1))"
  using r
proof (rule vv_repE)
  fix rest
  assume p: "vv_p v = map Some xs @ rest" "vv_n v = length xs" "vv_c v = length xs + length rest"
  let ?p = "take (pos + 1) (vv_p v) @ map Some (drop pos xs) @ drop 1 rest"
  have m: "memmove_cells v (pos + 1) pos (length xs - pos) = Inr (v\<lparr>vv_p := ?p\<rparr>)"
    using p assms by (cases rest) (simp_all add: memmove_cells_def drop_map)
  have l: "length (take (pos + 1) (vv_p v)) = pos + 1" using p assms by simp
  have "?p ! i = (map Some (drop pos xs) @ drop 1 rest) ! (i - (pos + 1))"
    by (subst nth_append, unfold l) (use assms(2) in simp)
  also have "\<dots> = Some (xs ! (i - 1))"
  proof -
    have "i - Suc pos < length xs - pos" using assms(2,3) by linarith
    with assms(2,3) show ?thesis by (simp add: nth_append)
  qed
  finally have e: "?p ! i = Some (xs ! (i - 1))" .
  have "i < length ?p" using l assms(2,3) by (simp del: length_take)
  with m e show ?thesis by (simp add: read_cell_def del: length_append)
qed

definition full32 :: nat where
  "full32 = 2700000000"

definition full_vector :: "'a \<Rightarrow> 'a valvec" where
  "full_vector x = \<lparr>vv_p = replicate full32 (Some x), vv_null = False, vv_n = full32, vv_c = full32\<rparr>"

lemma full_vector_grows_small:
  assumes "granted env" and "size_field env = field32"
  shows "\<exists>v'. push_back env (full_vector x) (Val y) = Inr v' \<and> vv_n v' = 2700000001 \<and> vv_c v' = 50345204"
proof -
  have big: "max (larger_capacity full32) (full32 + 1) = 4345312500" by (simp add: larger_capacity_def full32_def)
  have "length (realloc_cells (replicate full32 (Some x)) 4345312500) = 4345312500"
    by (simp add: realloc_cells_def full32_def)
  with assms big show ?thesis
    by (simp add: push_back_def push_back_slow_def ensure_capacity_def ensure_capacity_slow_def full_vector_def Let_def
        construct_at_def full32_def field32_def)
qed

section \<open>Properties\<close>

text \<open>C4: every program of member calls, with arguments that may refer to elements of the vector itself where the
  code allows it, acts on the vector as on a list; without memory it aborts, and it does nothing else.\<close>

theorem valvec_programs_refine_lists:
  assumes "vv_rep v xs" and "wide env" and "vv_spec_run (default_cons env) xs cs = Some ys"
  shows "(granted env \<longrightarrow> (\<exists>v'. vv_run env v cs = Inr v' \<and> vv_rep v' ys \<and> vv_list v' = ys)) \<and>
    (\<forall>e. vv_run env v cs = Inl e \<longrightarrow> e = Abort \<and> \<not> granted env)"
  using vv_run_refines [OF assms] by (cases "vv_run env v cs") (auto simp: yields_def vv_rep_list)

definition nat_vec_env :: "nat vv_env" where
  "nat_vec_env = \<lparr>trivial_destructor = False, trivial_copy = False, default_cons = 0, grant = (\<lambda>k. True), size_field = (\<lambda>k. k)\<rparr>"

lemma nat_vec_env_ok: "wide nat_vec_env" "granted nat_vec_env" "default_cons nat_vec_env = 0"
  by (simp_all add: nat_vec_env_def wide_def)

lemma valvec_programs_refine_lists_witness:
  "\<exists>v. vv_run nat_vec_env vv_new [V_push (Val 4), V_push (Elem 0), V_insert 1 (Val 7), V_append_self, V_erase 0 2, V_ensure_set 5 (Val 9)] = Inr v \<and>
     vv_list v = [4, 4, 7, 4, 0, 9]"
proof -
  have "vv_spec_run (default_cons nat_vec_env) []
      [V_push (Val 4), V_push (Elem 0), V_insert 1 (Val 7), V_append_self, V_erase 0 2, V_ensure_set 5 (Val 9)] = Some [4, 4, 7, 4, 0, 9]"
    by (simp add: nat_vec_env_ok value_only_def numeral_eq_Suc)
  from valvec_programs_refine_lists [OF vv_new_rep nat_vec_env_ok(1) this] nat_vec_env_ok(2) show ?thesis by blast
qed

text \<open>Reading.  Elements are read by index, at both ends and as a copy; \<open>at\<close> and \<open>top\<close> throw where there is no
  element and the others fail their assertion; \<open>==\<close> is equality of the lists and \<open><\<close> their lexicographic order.\<close>

theorem valvec_reads:
  fixes xs ys :: "'a :: linorder list"
  assumes r: "vv_rep v xs" and s: "vv_rep w ys"
  shows "vv_get v i = (if i < length xs then Inr (xs ! i) else Inl Abort) \<and>
    vv_at v i = (if i < length xs then Inr (xs ! i) else Inl Out_of_range) \<and>
    vv_top v = (if xs = [] then Inl Logic_error else Inr (last xs)) \<and>
    vv_front v = (if xs = [] then Inl Abort else Inr (hd xs)) \<and>
    vv_back v = (if xs = [] then Inl Abort else Inr (last xs)) \<and>
    (xs \<noteq> [] \<longrightarrow> (\<exists>v'. pop_val v = Inr (v', last xs) \<and> vv_rep v' (butlast xs))) \<and>
    vv_equalTo (=) v w = Inr (xs = ys) \<and>
    vv_lessThan (<) (=) v w = Inr ((xs, ys) \<in> lexord {(x, y). x < y})"
proof -
  have "vv_equalTo (=) v w = Inr (xs = ys)" using vv_equalTo_law [OF r s, of "(=)"] by (simp add: list.rel_eq)
  moreover have "vv_lessThan (<) (=) v w = Inr ((xs, ys) \<in> lexord {(x, y). x < y})"
    using vv_lessThan_law [OF r s, of "(<)" "(=)"] by (simp add: list_less_lexord)
  ultimately show ?thesis using vv_access [OF r] pop_val_law [OF r] by simp
qed

lemma valvec_reads_witness:
  "vv_at (vv_new :: nat valvec) 0 = Inl Out_of_range \<and> vv_equalTo (=) (vv_new :: nat valvec) vv_new = Inr True"
proof -
  have "vv_rep (vv_new :: nat valvec) []" by (rule vv_new_rep)
  from valvec_reads [OF this this, of 0] show ?thesis by simp
qed

text \<open>C35: Growth.  Pushing a list one by one makes \<open>realloc\<close> keep at most four elements per element pushed;
  \<open>try_capacity\<close> ends and finds a capacity that is granted, if only the smallest is.\<close>

theorem valvec_growth_cost:
  assumes r: "vv_rep v xs" and w: "wide env"
  shows "push_copies env v ys \<le> 4 * (length xs + length ys) \<and>
    (grant env a \<longrightarrow> (\<exists>v'. try_capacity env v a b = Inr v' \<and> vv_rep v' xs \<and> a \<le> vv_c v' \<and> vv_c v' \<le> max (vv_c v) (max a b)))"
  using push_copies_bound [OF r w, of 0 ys] yields_total [OF try_capacity_law [OF r w, of a b]] by simp

lemma valvec_growth_cost_witness:
  "push_copies nat_vec_env vv_new [1, 2, 3, 4, 5, 6, 7] \<le> 28"
  using valvec_growth_cost [OF vv_new_rep nat_vec_env_ok(1), of "[1, 2, 3, 4, 5, 6, 7]"] by simp

text \<open>What goes wrong.  \<open>insert\<close> of a reference to an element behind the position inserts the element before it; in
  a full vector \<open>insert\<close> and \<open>resize\<close> read a reference into memory that was given back (\<open>push_back\<close> and
  \<open>emplace_back\<close> take care of both); \<open>unchecked_emplace_back\<close> returns a reference behind the new element; and a
  \<open>valvec32\<close> that grows beyond \<open>2^32\<close> keeps the remainder as its capacity, less than its size.\<close>

theorem valvec_defects:
  assumes r: "vv_rep v xs" and w: "wide env" and g: "granted env" and i: "i < length xs"
  shows "(\<forall>pos<i. length xs < vv_c v \<longrightarrow>
      (\<exists>v'. vv_insert env v pos (Elem i) = Inr v' \<and> vv_rep v' (take pos xs @ xs ! (i - 1) # drop pos xs))) \<and>
    (length xs = vv_c v \<longrightarrow> vv_insert env v 0 (Elem i) = Inl Undefined \<and>
      vv_resize_fill_arg env v (length xs + 1) (Elem i) = Inl Undefined \<and>
      (\<exists>v'. push_back env v (Elem i) = Inr v' \<and> vv_rep v' (xs @ [xs ! i]))) \<and>
    (length xs < vv_c v \<longrightarrow>
      (\<exists>v'. unchecked_emplace_back env v (Val x) = Inr (v', length xs + 1) \<and> vv_rep v' (xs @ [x]))) \<and>
    (\<exists>v'. push_back (env\<lparr>size_field := field32\<rparr>) (full_vector x) (Val x) = Inr v' \<and> vv_c v' < vv_n v')"
proof (intro conjI allI impI)
  fix pos
  assume pos: "pos < i" and room: "length xs < vv_c v"
  obtain v1 where v1: "memmove_cells v (pos + 1) pos (length xs - pos) = Inr v1" "read_cell v1 i = Inr (xs ! (i - 1))"
    using read_after_memmove [OF r pos i room] by blast
  have "pos \<le> length xs" "length xs + length [xs ! (i - 1)] \<le> vv_c v" using pos i room by auto
  from insert_cells [OF r this] v1 obtain v2 where "construct_at v1 pos [xs ! (i - 1)] = Inr v2" "vv_n v2 = length xs"
      "vv_rep (v2\<lparr>vv_n := length xs + 1\<rparr>) (take pos xs @ xs ! (i - 1) # drop pos xs)"
    by auto
  with v1 room pos i w vv_rep_n [OF r]
  show "\<exists>v'. vv_insert env v pos (Elem i) = Inr v' \<and> vv_rep v' (take pos xs @ xs ! (i - 1) # drop pos xs)"
    by (simp add: vv_insert_def ensure_capacity_def)
next
  assume full: "length xs = vv_c v"
  have grown: "\<exists>v'. ensure_capacity env v (length xs + 1) = Inr v' \<and> vv_rep v' xs \<and> length xs + 1 \<le> vv_c v'"
    using yields_total [OF ensure_capacity_law [OF r w] g] by blast
  then obtain v1 where v1: "ensure_capacity env v (length xs + 1) = Inr v1" "vv_rep v1 xs" "length xs + 1 \<le> vv_c v1" by blast
  from insert_cells [OF v1(2), of 0 "[xs ! i]"] v1(3)
  obtain v2 where "memmove_cells v1 1 0 (length xs) = Inr v2" by auto
  with v1 w vv_rep_n [OF r] vv_rep_n [OF v1(2)] full show "vv_insert env v 0 (Elem i) = Inl Undefined"
    by (simp add: vv_insert_def)
  from v1 w vv_rep_n [OF r] full show "vv_resize_fill_arg env v (length xs + 1) (Elem i) = Inl Undefined"
    by (simp add: vv_resize_fill_arg_def vv_resize_slow_fill_def)
  show "\<exists>v'. push_back env v (Elem i) = Inr v' \<and> vv_rep v' (xs @ [xs ! i])"
    by (rule yields_total [OF push_back_law [OF r w] g]) (use i in simp)
next
  assume "length xs < vv_c v"
  then show "\<exists>v'. unchecked_emplace_back env v (Val x) = Inr (v', length xs + 1) \<and> vv_rep v' (xs @ [x])"
    using construct_after [OF r, of "[x]"] vv_rep_n [OF r] w by (auto simp: unchecked_emplace_back_def Let_def)
next
  show "\<exists>v'. push_back (env\<lparr>size_field := field32\<rparr>) (full_vector x) (Val x) = Inr v' \<and> vv_c v' < vv_n v'"
    using full_vector_grows_small [of "env\<lparr>size_field := field32\<rparr>" x x] g by auto
qed

lemma valvec_defects_witness:
  "\<exists>v. vv_insert nat_vec_env \<lparr>vv_p = [Some 5, Some 6, Some 7, None], vv_null = False, vv_n = 3, vv_c = 4\<rparr> 0 (Elem 2) = Inr v \<and>
     vv_rep v [6, 5, 6, 7]"
proof -
  have "vv_rep \<lparr>vv_p = [Some 5, Some 6, Some 7, None], vv_null = False, vv_n = 3, vv_c = 4\<rparr> [5, 6, 7 :: nat]"
    by (simp add: vv_rep_def)
  from conjunct1 [OF valvec_defects [OF this nat_vec_env_ok(1,2), of 2]] show ?thesis by (auto dest: spec [of _ 0])
qed

end
