(* ===== verification/Word_Mem.thy ===== *)
theory Word_Mem
  imports Febitvec_Ops
begin

text \<open>
  Memory as the code sees it through casted pointers: an array of 64 bit words that is read and
  written at byte offsets, least significant byte first, in units of 1, 2, 4 or 8 bytes, aligned or
  not.  The succinct dictionaries keep their caches in the words behind their bits, and their
  \<open>risk_mmap_from\<close> finds them there again.
\<close>

section \<open>Loads and stores\<close>

definition load_bytes :: "u64 list \<Rightarrow> nat \<Rightarrow> nat \<Rightarrow> u64" where
  "load_bytes ws off n = s_get_uint ws (8 * off) (8 * n)"

definition store_bytes :: "u64 list \<Rightarrow> nat \<Rightarrow> nat \<Rightarrow> u64 \<Rightarrow> u64 list" where
  "store_bytes ws off n val = set_uint_words ws (8 * off) (8 * n) (take_bit (8 * n) val)"

lemma length_store_bytes [simp, len_simps]: "length (store_bytes ws off n val) = length ws"
  by (simp add: store_bytes_def)

lemma bit_load_bytes [word_nth]:
  "n \<le> 8 \<Longrightarrow> bit (load_bytes ws off n) k \<longleftrightarrow> k < 8 * n \<and> wbit ws (8 * off + k)"
  by (simp add: load_bytes_def bit_s_get_uint)

lemma wbit_store_bytes [word_nth]:
  assumes "n \<le> 8" and "off + n \<le> 8 * length ws" and "i < 64 * length ws"
  shows "wbit (store_bytes ws off n val) i =
    (if 8 * off \<le> i \<and> i < 8 * (off + n) then bit val (i - 8 * off) else wbit ws i)"
  using assms by (auto simp: store_bytes_def wbit_s_set_uint bit_take_bit_iff)

lemma load_store_same:
  assumes "n \<le> 8" and "off + n \<le> 8 * length ws"
  shows "load_bytes (store_bytes ws off n val) off n = take_bit (8 * n) val"
  using assms by (simp add: load_bytes_def store_bytes_def s_get_set_uint)

lemma load_store_other:
  assumes "n \<le> 8" and "off + n \<le> 8 * length ws" and "m \<le> 8" and "pos + m \<le> 8 * length ws"
    and "pos + m \<le> off \<or> off + n \<le> pos"
  shows "load_bytes (store_bytes ws off n val) pos m = load_bytes ws pos m"
  using assms unfolding load_bytes_def store_bytes_def
  by (intro s_get_set_uint_other) auto

lemma load_bytes_cong:
  assumes "n \<le> 8" and "\<And>i. 8 * off \<le> i \<Longrightarrow> i < 8 * (off + n) \<Longrightarrow> wbit ws i = wbit ws' i"
  shows "load_bytes ws off n = load_bytes ws' off n"
  using assms by (intro bit_word_eqI) (auto simp: bit_load_bytes)

lemma load_bytes_word: "load_bytes ws (8 * i) 8 = ws ! i"
  by (rule bit_word_eqI) (simp add: bit_load_bytes wbit_def)

text \<open>Numbers: what is stored is the value modulo the size of the field.\<close>

definition load_nat :: "u64 list \<Rightarrow> nat \<Rightarrow> nat \<Rightarrow> nat" where
  "load_nat ws off n = unat (load_bytes ws off n)"

definition store_nat :: "u64 list \<Rightarrow> nat \<Rightarrow> nat \<Rightarrow> nat \<Rightarrow> u64 list" where
  "store_nat ws off n x = store_bytes ws off n (of_nat x)"

lemma length_store_nat [simp, len_simps]: "length (store_nat ws off n x) = length ws"
  by (simp add: store_nat_def)

lemma load_store_nat_same:
  assumes "n \<le> 8" and "off + n \<le> 8 * length ws" and "x < 2 ^ (8 * n)"
  shows "load_nat (store_nat ws off n x) off n = x"
proof -
  have "x < 2 ^ 64" using assms(1,3) power_increasing [of "8 * n" 64 "2::nat"] by simp
  then have "unat (of_nat x :: u64) = x" by (simp add: unat_of_nat take_bit_nat_eq_self)
  with assms show ?thesis
    by (simp add: load_nat_def store_nat_def load_store_same unsigned_take_bit_eq take_bit_nat_eq_self)
qed

lemma load_store_nat_other:
  assumes "n \<le> 8" and "off + n \<le> 8 * length ws" and "m \<le> 8" and "pos + m \<le> 8 * length ws"
    and "pos + m \<le> off \<or> off + n \<le> pos"
  shows "load_nat (store_nat ws off n x) pos m = load_nat ws pos m"
  using assms by (simp add: load_nat_def store_nat_def load_store_other)

lemma wbit_store_nat_other:
  assumes "n \<le> 8" and "off + n \<le> 8 * length ws" and "i < 64 * length ws"
    and "i < 8 * off \<or> 8 * (off + n) \<le> i"
  shows "wbit (store_nat ws off n x) i = wbit ws i"
  using assms by (auto simp: store_nat_def wbit_store_bytes)

lemma nth_store_nat_other:
  assumes "n \<le> 8" and "off + n \<le> 8 * length ws" and "k < length ws"
    and "8 * k + 8 \<le> off \<or> off + n \<le> 8 * k"
  shows "store_nat ws off n x ! k = ws ! k"
proof (rule bit_word_eqI)
  fix b assume "b < LENGTH(64)"
  then have b: "b < 64" by simp
  have w: "wbit us (64 * k + b) = bit (us ! k) b" for us :: "u64 list"
    using b by (simp add: wbit_def)
  have "wbit (store_nat ws off n x) (64 * k + b) = wbit ws (64 * k + b)"
    using assms b by (intro wbit_store_nat_other) auto
  then show "bit (store_nat ws off n x ! k) b = bit (ws ! k) b" by (simp add: w)
qed

lemma load_nat_cong:
  "n \<le> 8 \<Longrightarrow> (\<And>i. 8 * off \<le> i \<Longrightarrow> i < 8 * (off + n) \<Longrightarrow> wbit ws i = wbit ws' i) \<Longrightarrow>
   load_nat ws off n = load_nat ws' off n"
  unfolding load_nat_def by (rule arg_cong [where f = unat], rule load_bytes_cong)

lemma load_nat_less: "n \<le> 8 \<Longrightarrow> load_nat ws off n < 2 ^ (8 * n)"
proof -
  assume n: "n \<le> 8"
  have "take_bit (8 * n) (load_bytes ws off n) = load_bytes ws off n"
    using n by (intro bit_word_eqI) (auto simp: bit_take_bit_iff bit_load_bytes)
  then show ?thesis unfolding load_nat_def by (metis take_bit_nat_less_exp unsigned_take_bit_eq)
qed

text \<open>A field that is zero is zero in its first bytes.\<close>

lemma load_nat_prefix_0:
  assumes "load_nat ws off n = 0" and "m \<le> n" and "n \<le> 8"
  shows "load_nat ws off m = 0"
proof -
  have z: "load_bytes ws off n = 0" using assms(1) by (simp add: load_nat_def unsigned_eq_0_iff)
  have "load_bytes ws off m = 0"
  proof (rule bit_word_eqI)
    fix k assume "k < LENGTH(64)"
    show "bit (load_bytes ws off m) k = bit (0 :: u64) k"
      using assms(2,3) bit_load_bytes [of n ws off k] by (auto simp: z bit_load_bytes)
  qed
  then show ?thesis by (simp add: load_nat_def)
qed

end
