(* ===== verification/Rank_Select_Spec.thy ===== *)
theory Rank_Select_Spec
  imports Word_Mem
begin

text \<open>
  What a succinct bit dictionary promises (\<open>src/terark/succinct\<close>): rank counts the ones (zeros) below
  a position, select finds the position of the r-th one (zero).  The locales state that contract;
  every client lemma is proved once from it, and each dictionary of the code is an interpretation.
  The second half holds what the implementations share: the binary search for a line, the linear
  scan for it, and the step from a line to a bit of one of its words.
\<close>

section \<open>The contract\<close>

locale rank_dict =
  fixes ok :: "'s \<Rightarrow> bool"
    and sz :: "'s \<Rightarrow> nat"
    and bits :: "'s \<Rightarrow> nat \<Rightarrow> bool"
    and rank1 :: "'s \<Rightarrow> nat \<Rightarrow> nat"
    and rank0 :: "'s \<Rightarrow> nat \<Rightarrow> nat"
  assumes rank1_count: "ok s \<Longrightarrow> i \<le> sz s \<Longrightarrow> rank1 s i = bcount (bits s) 0 i"
    and rank0_count: "ok s \<Longrightarrow> i \<le> sz s \<Longrightarrow> rank0 s i = bcount (\<lambda>n. \<not> bits s n) 0 i"
begin

lemma rank_sum: "ok s \<Longrightarrow> i \<le> sz s \<Longrightarrow> rank0 s i + rank1 s i = i"
  using bcount_add_not [of 0 i "bits s"] by (simp add: rank1_count rank0_count)

lemma rank1_Suc: "ok s \<Longrightarrow> i < sz s \<Longrightarrow> rank1 s (Suc i) = rank1 s i + of_bool (bits s i)"
  by (simp add: rank1_count bcount_Suc)

lemma rank1_mono: "ok s \<Longrightarrow> i \<le> j \<Longrightarrow> j \<le> sz s \<Longrightarrow> rank1 s i \<le> rank1 s j"
  by (simp add: rank1_count bcount_mono)

lemma bits_from_rank: "ok s \<Longrightarrow> i < sz s \<Longrightarrow> bits s i \<longleftrightarrow> rank1 s i < rank1 s (Suc i)"
  by (simp add: rank1_Suc)

end

locale rank_select_dict = rank_dict +
  fixes select1 :: "'a \<Rightarrow> nat \<Rightarrow> nat"
    and select0 :: "'a \<Rightarrow> nat \<Rightarrow> nat"
    and max_rank1 :: "'a \<Rightarrow> nat"
    and max_rank0 :: "'a \<Rightarrow> nat"
  assumes max_rank1_count: "ok s \<Longrightarrow> max_rank1 s = bcount (bits s) 0 (sz s)"
    and max_rank0_count: "ok s \<Longrightarrow> max_rank0 s = bcount (\<lambda>n. \<not> bits s n) 0 (sz s)"
    and select1_is: "ok s \<Longrightarrow> r < max_rank1 s \<Longrightarrow> is_select (bits s) r (select1 s r)"
    and select0_is: "ok s \<Longrightarrow> r < max_rank0 s \<Longrightarrow> is_select (\<lambda>n. \<not> bits s n) r (select0 s r)"
begin

lemma select1_less: "ok s \<Longrightarrow> r < max_rank1 s \<Longrightarrow> select1 s r < sz s"
  using is_select_bound [OF select1_is] by (simp add: max_rank1_count)

lemma select0_less: "ok s \<Longrightarrow> r < max_rank0 s \<Longrightarrow> select0 s r < sz s"
  using is_select_bound [OF select0_is] by (simp add: max_rank0_count)

lemma max_rank_sum: "ok s \<Longrightarrow> max_rank0 s + max_rank1 s = sz s"
  using bcount_add_not [of 0 "sz s" "bits s"] by (simp add: max_rank1_count max_rank0_count)

text \<open>Rank and select are inverse to each other, on either side.\<close>

lemma rank1_select1: "ok s \<Longrightarrow> r < max_rank1 s \<Longrightarrow> rank1 s (select1 s r) = r"
  using select1_is [of s r] select1_less [of s r] by (simp add: rank1_count is_select_def)

lemma rank0_select0: "ok s \<Longrightarrow> r < max_rank0 s \<Longrightarrow> rank0 s (select0 s r) = r"
  using select0_is [of s r] select0_less [of s r] by (simp add: rank0_count is_select_def)

lemma bits_select1: "ok s \<Longrightarrow> r < max_rank1 s \<Longrightarrow> bits s (select1 s r)"
  using select1_is by (simp add: is_select_def)

lemma bits_select0: "ok s \<Longrightarrow> r < max_rank0 s \<Longrightarrow> \<not> bits s (select0 s r)"
  using select0_is by (simp add: is_select_def)

lemma rank1_less_max: "ok s \<Longrightarrow> i < sz s \<Longrightarrow> bits s i \<Longrightarrow> rank1 s i < max_rank1 s"
  using bcount_mono [of 0 "Suc i" "sz s" "bits s"] by (simp add: rank1_count max_rank1_count bcount_Suc)

lemma select1_rank1: "ok s \<Longrightarrow> i < sz s \<Longrightarrow> bits s i \<Longrightarrow> select1 s (rank1 s i) = i"
  using select1_is [OF _ rank1_less_max, of s i]
  by (intro is_select_unique [of "bits s" "rank1 s i"]) (auto simp: rank1_count is_select_def)

lemma select1_galois:
  assumes "ok s" and "r < max_rank1 s" and "i \<le> sz s"
  shows "rank1 s i \<le> r \<longleftrightarrow> i \<le> select1 s r"
proof
  assume "i \<le> select1 s r"
  then show "rank1 s i \<le> r"
    using rank1_mono [of s i "select1 s r"] select1_less [of s r] rank1_select1 [of s r] assms by simp
next
  assume r: "rank1 s i \<le> r"
  show "i \<le> select1 s r"
  proof (rule ccontr)
    assume "\<not> i \<le> select1 s r"
    then have "rank1 s (Suc (select1 s r)) \<le> rank1 s i" using assms by (intro rank1_mono) auto
    with r assms show False
      using rank1_Suc [of s "select1 s r"] select1_less [of s r] bits_select1 [of s r] rank1_select1 [of s r]
      by simp
  qed
qed

lemma select1_strict_mono:
  assumes "ok s" and "r < q" and "q < max_rank1 s"
  shows "select1 s r < select1 s q"
  using select1_galois [of s r "select1 s q"] rank1_select1 [of s q] select1_less [of s q] assms by simp

end

section \<open>Searching the lines\<close>

text \<open>
  The binary search every dictionary runs over its line ranks, for the first line whose rank \<open>f\<close> is
  above \<open>r\<close>.
\<close>

function upper_bound_loop :: "(nat \<Rightarrow> nat) \<Rightarrow> nat \<Rightarrow> nat \<Rightarrow> nat \<Rightarrow> nat" where
  "upper_bound_loop f lo hi r =
     (if lo < hi
      then let mid = (lo + hi) div 2 in
        if f mid \<le> r then upper_bound_loop f (mid + 1) hi r else upper_bound_loop f lo mid r
      else lo)"
  by pat_completeness auto
termination
  by (relation "measure (\<lambda>(f, lo, hi, r). hi - lo)") auto

declare upper_bound_loop.simps [simp del]

lemma upper_bound_loop_between:
  assumes "\<And>i j. lo \<le> i \<Longrightarrow> i \<le> j \<Longrightarrow> j < hi \<Longrightarrow> f i \<le> f j" and "lo \<le> hi"
  shows "lo \<le> upper_bound_loop f lo hi r \<and> upper_bound_loop f lo hi r \<le> hi \<and>
    (\<forall>i. lo \<le> i \<longrightarrow> i < upper_bound_loop f lo hi r \<longrightarrow> f i \<le> r) \<and>
    (\<forall>i. upper_bound_loop f lo hi r \<le> i \<longrightarrow> i < hi \<longrightarrow> r < f i)"
  using assms
proof (induction f lo hi r rule: upper_bound_loop.induct)
  case (1 f lo hi r)
  show ?case
  proof (cases "lo < hi")
    case False
    with "1.prems" show ?thesis by (subst (1 2 3 4) upper_bound_loop.simps) auto
  next
    case True
    define mid where "mid = (lo + hi) div 2"
    have mid: "lo \<le> mid" "mid < hi" using True by (auto simp: mid_def)
    note mono = "1.prems"(1)
    show ?thesis
    proof (cases "f mid \<le> r")
      case le: True
      have eq: "upper_bound_loop f lo hi r = upper_bound_loop f (mid + 1) hi r"
        using True le by (subst upper_bound_loop.simps) (simp add: Let_def mid_def)
      have low: "f i \<le> r" if "lo \<le> i" "i \<le> mid" for i using mono [of i mid] that mid le by auto
      have "mid + 1 \<le> upper_bound_loop f (mid + 1) hi r \<and> upper_bound_loop f (mid + 1) hi r \<le> hi \<and>
        (\<forall>i. mid + 1 \<le> i \<longrightarrow> i < upper_bound_loop f (mid + 1) hi r \<longrightarrow> f i \<le> r) \<and>
        (\<forall>i. upper_bound_loop f (mid + 1) hi r \<le> i \<longrightarrow> i < hi \<longrightarrow> r < f i)"
        using True mid le by (intro "1.IH"(1) [OF True mid_def]) (auto intro: mono)
      then show ?thesis unfolding eq using low mid
        by (metis (no_types, lifting) Suc_eq_plus1 le_trans not_less_eq_eq trans_le_add1)
    next
      case gt: False
      have eq: "upper_bound_loop f lo hi r = upper_bound_loop f lo mid r"
        using True gt by (subst upper_bound_loop.simps) (simp add: Let_def mid_def)
      have high: "r < f i" if "mid \<le> i" "i < hi" for i using mono [of mid i] that mid gt by auto
      have "lo \<le> upper_bound_loop f lo mid r \<and> upper_bound_loop f lo mid r \<le> mid \<and>
        (\<forall>i. lo \<le> i \<longrightarrow> i < upper_bound_loop f lo mid r \<longrightarrow> f i \<le> r) \<and>
        (\<forall>i. upper_bound_loop f lo mid r \<le> i \<longrightarrow> i < mid \<longrightarrow> r < f i)"
        using True mid gt by (intro "1.IH"(2) [OF True mid_def]) (auto intro: mono)
      then show ?thesis unfolding eq using high mid by (meson le_trans less_imp_le not_le)
    qed
  qed
qed

text \<open>
  The first line above \<open>r\<close> in a range that contains it.  \<open>f\<close> is the rank at the start of a line, so
  it is monotone; \<open>lo\<close> and \<open>hi\<close> may be any bounds around the answer.
\<close>

definition first_above :: "(nat \<Rightarrow> nat) \<Rightarrow> nat \<Rightarrow> nat \<Rightarrow> bool" where
  "first_above f r p \<longleftrightarrow> r < f p \<and> (\<forall>i<p. f i \<le> r)"

lemma first_above_unique: "first_above f r p \<Longrightarrow> first_above f r q \<Longrightarrow> p = q"
  unfolding first_above_def by (meson linorder_neqE_nat not_less)

lemma upper_bound_first_above:
  assumes "\<And>i j. i \<le> j \<Longrightarrow> j \<le> n \<Longrightarrow> f i \<le> f j" and "first_above f r p"
    and "lo \<le> p" and "p \<le> hi" and "hi \<le> n + 1" and "p \<le> n"
  shows "upper_bound_loop f lo hi r = p"
proof -
  let ?u = "upper_bound_loop f lo hi r"
  have u: "lo \<le> ?u" "?u \<le> hi" "\<And>i. lo \<le> i \<Longrightarrow> i < ?u \<Longrightarrow> f i \<le> r" "\<And>i. ?u \<le> i \<Longrightarrow> i < hi \<Longrightarrow> r < f i"
    using upper_bound_loop_between [of lo hi f r] assms by (auto intro: assms(1))
  show ?thesis
  proof (rule linorder_cases [of ?u p])
    assume "?u < p"
    then show ?thesis using u(4) [of ?u] assms(2,4) by (auto simp: first_above_def)
  next
    assume "p < ?u"
    then show ?thesis using u(3) [of p] assms(2,3) by (auto simp: first_above_def)
  qed
qed

text \<open>The linear scan has no bound of its own: not finding the line is not returning.\<close>

partial_function (option) scan_above :: "(nat \<Rightarrow> nat) \<Rightarrow> nat \<Rightarrow> nat \<Rightarrow> nat option" where
  "scan_above f lo r = (if f lo \<le> r then scan_above f (lo + 1) r else Some lo)"

lemma scan_above_first:
  assumes "first_above f r p" and "lo \<le> p"
  shows "scan_above f lo r = Some p"
  using assms(2)
proof (induction rule: inc_induct)
  case base
  with assms(1) show ?case by (subst scan_above.simps) (simp add: first_above_def)
next
  case (step n)
  with assms(1) show ?case by (subst scan_above.simps) (simp add: first_above_def)
qed

lemma first_above_exists:
  fixes f :: "nat \<Rightarrow> nat"
  assumes "f 0 \<le> r" and "r < f n"
  shows "\<exists>p. first_above f r p \<and> 0 < p \<and> p \<le> n"
proof -
  define p where "p = (LEAST p. r < f p)"
  have p: "r < f p" unfolding p_def using assms(2) by (rule LeastI)
  have "p \<le> n" unfolding p_def using assms(2) by (rule Least_le)
  moreover have "\<forall>i<p. f i \<le> r" unfolding p_def by (meson not_less not_less_Least)
  moreover have "0 < p" using p assms(1) by (cases p) auto
  ultimately show ?thesis using p by (auto simp: first_above_def)
qed

section \<open>From a line to a bit\<close>

lemma bcount_word_pred:
  fixes x :: u64
  assumes "\<And>k. k < 64 \<Longrightarrow> bit x k = Q (64 * w + k)" and "k \<le> 64"
  shows "bcount Q (64 * w) (64 * w + k) = bcount (bit x) 0 k"
proof -
  have "bcount Q (0 + 64 * w) (k + 64 * w) = bcount (\<lambda>n. Q (n + 64 * w)) 0 k"
    by (rule bcount_shift [symmetric])
  also have "\<dots> = bcount (bit x) 0 k"
    using assms by (intro bcount_cong) (auto simp: add.commute)
  finally show ?thesis by (simp add: add.commute)
qed

lemma word_select:
  fixes x :: u64
  assumes "\<And>k. k < 64 \<Longrightarrow> bit x k = Q (64 * w + k)"
    and "bcount Q 0 (64 * w) \<le> r" and "r < bcount Q 0 (64 * w + 64)"
  shows "is_select Q r (64 * w + UintSelect1 x (r - bcount Q 0 (64 * w)))"
proof -
  let ?d = "r - bcount Q 0 (64 * w)"
  have split: "bcount Q 0 (64 * w + k) = bcount Q 0 (64 * w) + bcount (bit x) 0 k" if "k \<le> 64" for k
    using bcount_split [of 0 "64 * w" "64 * w + k" Q] bcount_word_pred [of x Q w k] assms(1) that by simp
  have "?d < popcount x" using split [of 64] assms(2,3) by (simp add: popcount_def)
  then have s: "UintSelect1 x ?d < 64" "is_select (bit x) ?d (UintSelect1 x ?d)"
    using UintSelect1_correct by blast+
  then show ?thesis
    using split [of "UintSelect1 x ?d"] assms(1) [of "UintSelect1 x ?d"] assms(2)
    by (simp add: is_select_def)
qed

lemma line_rank_mono: "i \<le> j \<Longrightarrow> bcount P 0 (L * i) \<le> bcount P 0 (L * j)"
  by (intro bcount_mono) auto

lemma wbit_word: "k < 64 \<Longrightarrow> wbit ws (64 * w + k) = bit (ws ! w) k" for ws :: "u64 list"
  by (simp add: wbit_def)

lemma wbit_not_word: "k < 64 \<Longrightarrow> bit (NOT (ws ! w)) k = (\<not> wbit ws (64 * w + k))" for ws :: "u64 list"
  by (simp add: wbit_def bit_not_iff)

text \<open>The ones of a line of \<open>n\<close> words.\<close>

lemma line_popcount:
  fixes ws :: "u64 list"
  shows "(\<Sum>j=0..<n. popcount (ws ! (i * n + j))) = bcount (wbit ws) (64 * n * i) (64 * n * (i + 1))"
proof -
  have "(\<Sum>j=0..<n. popcount (ws ! (i * n + j))) = (\<Sum>k=i * n..<i * n + n. popcount (ws ! k))"
    using sum.shift_bounds_nat_ivl [of "\<lambda>k. popcount (ws ! k)" 0 "i * n" n] by (simp add: add.commute)
  also have "\<dots> = bcount (wbit ws) (64 * (i * n)) (64 * (i * n + n))"
    using bcount_wbit_words [of "i * n" "i * n + n" ws] by simp
  finally show ?thesis by (simp add: algebra_simps)
qed

text \<open>The loop over the words of a line that looks for the word holding the wanted bit.\<close>

fun sel_word_loop :: "(nat \<Rightarrow> u64) \<Rightarrow> nat list \<Rightarrow> nat \<Rightarrow> nat \<Rightarrow> nat option" where
  "sel_word_loop w [] hit r = None"
| "sel_word_loop w (i # is) hit r =
     (let bm = w i; upper = hit + fast_popcount64 bm in
      if r < upper then Some (i * WordBits + UintSelect1 bm (r - hit)) else sel_word_loop w is upper r)"

lemma sel_word_loop_select:
  assumes "\<And>i k. i < n \<Longrightarrow> k < 64 \<Longrightarrow> bit (w i) k = Q (64 * (W + i) + k)"
    and "bcount Q 0 (64 * (W + m)) \<le> r" and "r < bcount Q 0 (64 * (W + n))" and "m \<le> n"
  shows "\<exists>p. sel_word_loop w [m..<n] (bcount Q 0 (64 * (W + m))) r = Some p \<and> is_select Q r (64 * W + p)"
  using assms(4,2)
proof (induction rule: inc_induct)
  case base
  with assms(3) show ?case by simp
next
  case (step m)
  let ?hit = "bcount Q 0 (64 * (W + m))"
  have bits: "bit (w m) k = Q (64 * (W + m) + k)" if "k < 64" for k
    using that step.hyps assms(1) by simp
  have up: "?hit + fast_popcount64 (w m) = bcount Q 0 (64 * (W + Suc m))"
    using bcount_split [of 0 "64 * (W + m)" "64 * (W + m) + 64" Q] bcount_word_pred [of "w m" Q "W + m" 64] bits
    by (simp add: fast_popcount64_correct bcount_popcount algebra_simps)
  show ?case
  proof (cases "r < bcount Q 0 (64 * (W + Suc m))")
    case True
    have "is_select Q r (64 * (W + m) + UintSelect1 (w m) (r - ?hit))"
      using True step.prems by (intro word_select bits) (simp_all add: algebra_simps)
    moreover have "sel_word_loop w [m..<n] ?hit r = Some (m * 64 + UintSelect1 (w m) (r - ?hit))"
      using step.hyps True [folded up] by (subst upt_conv_Cons) (simp_all add: Let_def WordBits_def)
    ultimately show ?thesis by (simp add: algebra_simps)
  next
    case False
    then have "sel_word_loop w [m..<n] ?hit r = sel_word_loop w [Suc m..<n] (bcount Q 0 (64 * (W + Suc m))) r"
      using step.hyps False [folded up] unfolding up [symmetric] by (subst upt_conv_Cons) (simp_all add: Let_def)
    with step.IH False show ?thesis by simp
  qed
qed

lemma line_select:
  assumes "\<And>i k. i < n \<Longrightarrow> k < 64 \<Longrightarrow> bit (w i) k = Q (64 * (n * l + i) + k)"
    and "bcount Q 0 (64 * n * l) \<le> r" and "r < bcount Q 0 (64 * n * Suc l)"
  shows "\<exists>p. sel_word_loop w [0..<n] (bcount Q 0 (64 * n * l)) r = Some p \<and> is_select Q r (64 * n * l + p)"
proof -
  have e: "64 * (n * l + 0) = 64 * n * l" "64 * (n * l + n) = 64 * n * Suc l" "64 * (n * l) = 64 * n * l" by simp_all
  show ?thesis
    using sel_word_loop_select [of n w Q "n * l" 0 r, unfolded e, OF assms] by simp
qed

text \<open>The step from a line to the word \<open>t\<close> of it, by the counts of ones before each word of the line.\<close>

lemma pick_word:
  fixes x :: u64
  assumes "\<And>k. k < 64 \<Longrightarrow> bit x k = Q (64 * (n * l + t) + k)"
    and "bcount Q 0 (64 * n * l) + bcount Q (64 * n * l) (64 * n * l + 64 * t) \<le> r"
    and "r < bcount Q 0 (64 * n * l) + bcount Q (64 * n * l) (64 * n * l + 64 * Suc t)"
  shows "is_select Q r (64 * n * l + 64 * t +
    UintSelect1 x (r - (bcount Q 0 (64 * n * l) + bcount Q (64 * n * l) (64 * n * l + 64 * t))))"
proof -
  have split: "bcount Q 0 (64 * n * l) + bcount Q (64 * n * l) (64 * n * l + m) = bcount Q 0 (64 * n * l + m)" for m
    using bcount_split [of 0 "64 * n * l" "64 * n * l + m" Q] by simp
  have e: "64 * n * l + 64 * t = 64 * (n * l + t)" "64 * n * l + 64 * Suc t = 64 * (n * l + t) + 64"
    by (simp_all add: algebra_simps)
  show ?thesis
    using word_select [of x Q "n * l + t" r] assms(1) assms(2,3) [unfolded split, unfolded e]
    unfolding split unfolding e by blast
qed

end
