(* ===== verification/Select_Table.thy ===== *)
theory Select_Table
  imports Rank_Select_Spec
begin

text \<open>
  The select acceleration of the separated dictionaries (\<open>rank_select_se_256.cpp\<close>,
  \<open>rank_select_se_512.cpp\<close>): entry \<open>j\<close> of the table is the first line whose rank reaches \<open>j\<close> times
  the line size, so the two entries around a rank enclose the line that holds it.  The table lives in
  memory, with entries of \<open>w\<close> bytes from byte offset \<open>sel\<close> on.
\<close>

section \<open>Filling the table\<close>

text \<open>\<open>while (rank of line k < m) ++k\<close>, which only stops at a line that reaches \<open>m\<close>.\<close>

partial_function (option) scan_reach :: "(nat \<Rightarrow> nat) \<Rightarrow> nat \<Rightarrow> nat \<Rightarrow> nat option" where
  "scan_reach f k m = (if f k < m then scan_reach f (k + 1) m else Some k)"

fun sel_fill :: "(u64 list \<Rightarrow> nat \<Rightarrow> nat) \<Rightarrow> nat \<Rightarrow> nat \<Rightarrow> nat \<Rightarrow> nat list \<Rightarrow> u64 list \<Rightarrow> u64 list option" where
  "sel_fill f L w sel [] ws = Some ws"
| "sel_fill f L w sel (j # js) ws =
     (let k = load_nat ws (sel + w * (j - 1)) w in
      case scan_reach (f ws) k (L * j) of
        None \<Rightarrow> None
      | Some k \<Rightarrow> sel_fill f L w sel js (store_nat ws (sel + w * j) w k))"

definition sel_build ::
  "(u64 list \<Rightarrow> nat \<Rightarrow> nat) \<Rightarrow> nat \<Rightarrow> nat \<Rightarrow> nat \<Rightarrow> nat \<Rightarrow> nat \<Rightarrow> u64 list \<Rightarrow> u64 list option" where
  "sel_build f L w sel slots nlines ws =
     (let ws = store_nat ws (sel + w * 0) w 0 in
      case sel_fill f L w sel [1..<slots] ws of
        None \<Rightarrow> None
      | Some ws \<Rightarrow> Some (store_nat ws (sel + w * slots) w nlines))"

text \<open>
  Both tables, behind each other from the byte \<open>select_index\<close> on, each only if it is asked for; the
  result has their positions.
\<close>

definition sel_tables ::
  "(u64 list \<Rightarrow> nat \<Rightarrow> nat) \<Rightarrow> (u64 list \<Rightarrow> nat \<Rightarrow> nat) \<Rightarrow> nat \<Rightarrow> nat \<Rightarrow> bool \<Rightarrow> bool \<Rightarrow>
   nat \<Rightarrow> nat \<Rightarrow> nat \<Rightarrow> nat \<Rightarrow> u64 list \<Rightarrow> (u64 list \<times> nat option \<times> nat option) option" where
  "sel_tables f0 f1 L w speed_select0 speed_select1 select_index slots0 slots1 nlines ws =
     (case (if speed_select0 then sel_build f0 L w select_index slots0 nlines ws else Some ws) of
        None \<Rightarrow> None
      | Some ws \<Rightarrow>
        let sel0 = (if speed_select0 then Some select_index else None);
            select_index = (if speed_select0 then select_index + w * (slots0 + 1) else select_index)
        in case (if speed_select1 then sel_build f1 L w select_index slots1 nlines ws else Some ws) of
             None \<Rightarrow> None
           | Some ws \<Rightarrow> Some (ws, sel0, if speed_select1 then Some select_index else None))"

section \<open>What a filled table says\<close>

definition reaches :: "(nat \<Rightarrow> nat) \<Rightarrow> nat \<Rightarrow> nat \<Rightarrow> bool" where
  "reaches g m k \<longleftrightarrow> (\<forall>i<k. g i < m) \<and> m \<le> g k"

definition sel_table_ok :: "(nat \<Rightarrow> nat) \<Rightarrow> nat \<Rightarrow> (nat \<Rightarrow> nat) \<Rightarrow> nat \<Rightarrow> nat \<Rightarrow> bool" where
  "sel_table_ok g L tab slots n \<longleftrightarrow>
     (\<forall>j < slots. tab j \<le> n \<and> reaches g (L * j) (tab j)) \<and> tab slots = n"

lemma sel_table_encloses:
  assumes "sel_table_ok g L tab slots n" and "0 < L" and "first_above g r p" and "p \<le> n" and "r div L < slots"
  shows "tab (r div L) \<le> p" and "p \<le> tab (r div L + 1)" and "tab (r div L + 1) \<le> n"
proof -
  let ?j = "r div L"
  have j: "L * ?j \<le> r" "r < L * (?j + 1)"
    using assms(2) by (simp_all add: mult.commute dividend_less_times_div)
  have "tab ?j \<le> n" "reaches g (L * ?j) (tab ?j)" using assms by (auto simp: sel_table_ok_def)
  then show "tab ?j \<le> p"
    using j assms(3) unfolding reaches_def first_above_def by (meson le_less_trans not_le order.strict_trans)
  show "p \<le> tab (?j + 1)" "tab (?j + 1) \<le> n"
  proof -
    have "p \<le> tab (?j + 1) \<and> tab (?j + 1) \<le> n"
    proof (cases "?j + 1 < slots")
      case True
      then have "tab (?j + 1) \<le> n" "L * (?j + 1) \<le> g (tab (?j + 1))"
        using assms(1) by (auto simp: sel_table_ok_def reaches_def)
      with j assms(3) show ?thesis unfolding first_above_def by (meson le_less_trans not_le order.strict_trans1)
    next
      case False
      with assms(5) have "?j + 1 = slots" by simp
      with assms(1,4) show ?thesis by (simp add: sel_table_ok_def)
    qed
    then show "p \<le> tab (?j + 1)" "tab (?j + 1) \<le> n" by simp_all
  qed
qed

section \<open>Filling terminates and fills it right\<close>

lemma scan_reach_Some:
  assumes "reaches f m p" and "k \<le> p"
  shows "scan_reach f k m = Some p"
  using assms(2)
proof (induction rule: inc_induct)
  case base
  with assms(1) show ?case by (subst scan_reach.simps) (simp add: reaches_def)
next
  case (step n)
  with assms(1) show ?case by (subst scan_reach.simps) (simp add: reaches_def)
qed

lemma reaches_exists:
  fixes g :: "nat \<Rightarrow> nat"
  assumes "m \<le> g n"
  shows "\<exists>p\<le>n. reaches g m p"
proof -
  define p where "p = (LEAST p. m \<le> g p)"
  have "m \<le> g p" unfolding p_def using assms by (rule LeastI)
  moreover have "p \<le> n" unfolding p_def using assms by (rule Least_le)
  moreover have "\<forall>i<p. g i < m" unfolding p_def by (meson not_le not_less_Least)
  ultimately show ?thesis by (auto simp: reaches_def)
qed

lemma reaches_mono: "reaches g m p \<Longrightarrow> reaches g m' q \<Longrightarrow> m \<le> m' \<Longrightarrow> p \<le> q"
  unfolding reaches_def by (meson le_less_trans not_le order.trans)

text \<open>
  \<open>f\<close> reads the rank of a line from the memory in front of the table; while the table is written it
  keeps the values \<open>g\<close>.
\<close>

definition same_below :: "nat \<Rightarrow> u64 list \<Rightarrow> u64 list \<Rightarrow> bool" where
  "same_below off ws ws' \<longleftrightarrow> length ws' = length ws \<and> (\<forall>i<8 * off. wbit ws' i = wbit ws i)"

lemma same_below_refl [simp]: "same_below off ws ws"
  by (simp add: same_below_def)

lemma same_below_trans: "same_below off a b \<Longrightarrow> same_below off b c \<Longrightarrow> same_below off a c"
  by (simp add: same_below_def)

lemma same_below_mono: "same_below off a b \<Longrightarrow> off' \<le> off \<Longrightarrow> same_below off' a b"
  by (auto simp: same_below_def)

lemma same_below_store:
  "w \<le> 8 \<Longrightarrow> pos + w \<le> 8 * length ws \<Longrightarrow> off \<le> pos \<Longrightarrow> same_below off ws (store_nat ws pos w x)"
  unfolding same_below_def by (simp add: wbit_store_nat_other)

lemma same_below_load: "same_below off a b \<Longrightarrow> n \<le> 8 \<Longrightarrow> pos + n \<le> off \<Longrightarrow> load_nat b pos n = load_nat a pos n"
  by (rule load_nat_cong) (auto simp: same_below_def)

lemma same_below_nth: "same_below off a b \<Longrightarrow> 8 * k + 8 \<le> off \<Longrightarrow> b ! k = a ! k"
proof (rule bit_word_eqI)
  fix n assume s: "same_below off a b" "8 * k + 8 \<le> off" and n: "n < LENGTH(64)"
  then have "wbit b (64 * k + n) = wbit a (64 * k + n)" by (auto simp: same_below_def)
  with n show "bit (b ! k) n = bit (a ! k) n" by (simp add: wbit_def)
qed

lemma sel_fill_ok:
  assumes f: "\<And>us. same_below sel ws0 us \<Longrightarrow> (\<forall>k\<le>n. f us k = g k)"
    and len: "w \<le> 8" "sel + w * slots \<le> 8 * length ws0" and n: "n < 2 ^ (8 * w)"
    and top: "\<And>j. j < slots \<Longrightarrow> L * j \<le> g n"
    and m: "1 \<le> m" "m \<le> slots"
    and st: "same_below sel ws0 ws" "\<forall>j<m. load_nat ws (sel + w * j) w \<le> n \<and> reaches g (L * j) (load_nat ws (sel + w * j) w)"
  shows "\<exists>ws'. sel_fill f L w sel [m..<slots] ws = Some ws' \<and> same_below sel ws0 ws' \<and>
    (\<forall>j < slots. load_nat ws' (sel + w * j) w \<le> n \<and> reaches g (L * j) (load_nat ws' (sel + w * j) w))"
  using m(2,1) st
proof (induction arbitrary: ws rule: inc_induct)
  case base
  then show ?case by simp
next
  case (step m)
  let ?k0 = "load_nat ws (sel + w * (m - 1)) w"
  obtain p where p: "p \<le> n" "reaches g (L * m) p" using reaches_exists [of "L * m" g n] top [of m] step.hyps by auto
  have m1: "m - 1 < m" using step.prems(1) by simp
  then have k0: "?k0 \<le> n" "reaches g (L * (m - 1)) ?k0" using step.prems(3) by simp_all
  then have le: "?k0 \<le> p" using reaches_mono [OF _ p(2)] by simp
  have fp: "reaches (f ws) (L * m) p"
    using p f [OF step.prems(2)] by (auto simp: reaches_def)
  let ?us = "store_nat ws (sel + w * m) w p"
  have "w * m + w \<le> w * slots" using step.hyps by (metis Suc_leI mult_le_mono2 mult_Suc_right add.commute)
  then have off: "sel + w * m + w \<le> 8 * length ws" using step.prems(2) len by (simp add: same_below_def)
  have sb: "same_below sel ws0 ?us"
    using step.prems(2) same_below_store [OF len(1) off, of sel p] by (auto elim: same_below_trans)
  have tab: "load_nat ?us (sel + w * j) w = (if j = m then p else load_nat ws (sel + w * j) w)" if "j < Suc m" for j
  proof (cases "j = m")
    case True
    then show ?thesis using off len(1) p(1) n by (simp add: load_store_nat_same)
  next
    case False
    then have "w * j + w \<le> w * m" using that by (metis Suc_leI less_SucE mult_le_mono2 mult_Suc_right add.commute)
    then have "load_nat ?us (sel + w * j) w = load_nat ws (sel + w * j) w"
      using off len(1) by (intro load_store_nat_other) auto
    with False show ?thesis by simp
  qed
  have "\<forall>j<Suc m. load_nat ?us (sel + w * j) w \<le> n \<and> reaches g (L * j) (load_nat ?us (sel + w * j) w)"
    using tab step.prems(3) p by (auto simp: less_Suc_eq)
  from step.IH [OF _ sb this] show ?case
    using step.hyps by (subst upt_conv_Cons) (simp_all add: Let_def scan_reach_Some [OF fp le, unfolded One_nat_def])
qed

lemma sel_build_ok:
  assumes f: "\<And>us. same_below sel ws us \<Longrightarrow> (\<forall>k\<le>n. f us k = g k)"
    and len: "w \<le> 8" "sel + w * (slots + 1) \<le> 8 * length ws" and n: "n < 2 ^ (8 * w)"
    and top: "\<And>j. j < slots \<Longrightarrow> L * j \<le> g n"
  shows "\<exists>ws'. sel_build f L w sel slots n ws = Some ws' \<and> same_below sel ws ws' \<and>
    sel_table_ok g L (\<lambda>j. load_nat ws' (sel + w * j) w) slots n"
proof -
  let ?us = "store_nat ws (sel + w * 0) w 0"
  have off: "sel + w * 0 + w \<le> 8 * length ws" using len by simp
  have sb: "same_below sel ws ?us" using same_below_store [OF len(1) off, of sel 0] by simp
  have zero: "load_nat ?us (sel + w * 0) w = 0" using off len(1) by (intro load_store_nat_same) auto
  have "\<exists>xs. sel_fill f L w sel [1..<slots] ?us = Some xs \<and> same_below sel ws xs \<and>
    (\<forall>j < slots. load_nat xs (sel + w * j) w \<le> n \<and> reaches g (L * j) (load_nat xs (sel + w * j) w))"
  proof (cases "slots = 0")
    case True
    with sb show ?thesis by auto
  next
    case False
    have len': "sel + w * slots \<le> 8 * length ws" using len(2) by simp
    show ?thesis
      by (rule sel_fill_ok [OF f len(1) len' n top]) (use False sb zero in \<open>auto simp: reaches_def\<close>)
  qed
  then obtain xs where xs: "sel_fill f L w sel [1..<slots] ?us = Some xs" "same_below sel ws xs"
    "\<And>j. j < slots \<Longrightarrow> load_nat xs (sel + w * j) w \<le> n \<and> reaches g (L * j) (load_nat xs (sel + w * j) w)"
    by blast
  let ?ys = "store_nat xs (sel + w * slots) w n"
  have off2: "sel + w * slots + w \<le> 8 * length xs" using len xs(2) by (simp add: same_below_def)
  have "load_nat ?ys (sel + w * slots) w = n" using off2 len(1) n by (intro load_store_nat_same) auto
  moreover have "load_nat ?ys (sel + w * j) w = load_nat xs (sel + w * j) w" if "j < slots" for j
  proof -
    have "w * j + w \<le> w * slots" using that by (metis Suc_leI mult_le_mono2 mult_Suc_right add.commute)
    then show ?thesis using off2 len(1) by (intro load_store_nat_other) auto
  qed
  ultimately have "sel_table_ok g L (\<lambda>j. load_nat ?ys (sel + w * j) w) slots n"
    using xs(3) by (simp add: sel_table_ok_def)
  moreover have "same_below sel ws ?ys"
    using same_below_trans [OF xs(2) same_below_store [OF len(1) off2, of sel n]] by simp
  ultimately show ?thesis using xs(1) by (auto simp: sel_build_def Let_def)
qed

lemma sel_table_cong:
  assumes "sel_table_ok g L tab slots n" and "\<And>k. k \<le> n \<Longrightarrow> g' k = g k" and "\<And>j. j \<le> slots \<Longrightarrow> tab' j = tab j"
  shows "sel_table_ok g' L tab' slots n"
proof -
  have "tab' j \<le> n \<and> reaches g' (L * j) (tab' j)" if j: "j < slots" for j
  proof -
    have t: "tab j \<le> n" "reaches g (L * j) (tab j)" "tab' j = tab j"
      using assms(1,3) j by (auto simp: sel_table_ok_def)
    have "g' i = g i" if "i \<le> tab j" for i using that t(1) assms(2) by simp
    with t show ?thesis by (simp add: reaches_def)
  qed
  then show ?thesis using assms(1,3) by (simp add: sel_table_ok_def)
qed

lemma sel_tables_ok:
  fixes ws :: "u64 list"
  assumes sel1_def: "sel1 = sel + (if b0 then w * (slots0 + 1) else 0)"
    and f: "\<And>us. same_below sel ws us \<Longrightarrow> (\<forall>k\<le>n. f0 us k = g0 k) \<and> (\<forall>k\<le>n. f1 us k = g1 k)"
    and w: "w \<le> 8" and n: "n < 2 ^ (8 * w)" and len: "sel1 + (if b1 then w * (slots1 + 1) else 0) \<le> 8 * length ws"
    and top: "\<And>j. j < slots0 \<Longrightarrow> L * j \<le> g0 n" "\<And>j. j < slots1 \<Longrightarrow> L * j \<le> g1 n"
  shows "\<exists>ws'. sel_tables f0 f1 L w b0 b1 sel slots0 slots1 n ws =
      Some (ws', if b0 then Some sel else None, if b1 then Some sel1 else None) \<and> same_below sel ws ws' \<and>
    (b0 \<longrightarrow> sel_table_ok g0 L (\<lambda>j. load_nat ws' (sel + w * j) w) slots0 n) \<and>
    (b1 \<longrightarrow> sel_table_ok g1 L (\<lambda>j. load_nat ws' (sel1 + w * j) w) slots1 n)"
proof -
  have le: "sel \<le> sel1" by (simp add: sel1_def)
  have "\<exists>us. (if b0 then sel_build f0 L w sel slots0 n ws else Some ws) = Some us \<and> same_below sel ws us \<and>
    (b0 \<longrightarrow> sel_table_ok g0 L (\<lambda>j. load_nat us (sel + w * j) w) slots0 n)"
  proof (cases b0)
    case True
    have l0: "sel + w * (slots0 + 1) \<le> 8 * length ws" using len True by (simp add: sel1_def)
    have "\<forall>k\<le>n. f0 us k = g0 k" if "same_below sel ws us" for us using f [OF that] by blast
    from sel_build_ok [of sel ws, OF this w l0 n top(1)] True show ?thesis by simp
  qed simp
  then obtain us where us: "(if b0 then sel_build f0 L w sel slots0 n ws else Some ws) = Some us" "same_below sel ws us"
    "b0 \<Longrightarrow> sel_table_ok g0 L (\<lambda>j. load_nat us (sel + w * j) w) slots0 n" by blast
  have "\<exists>xs. (if b1 then sel_build f1 L w sel1 slots1 n us else Some us) = Some xs \<and> same_below sel1 us xs \<and>
    (b1 \<longrightarrow> sel_table_ok g1 L (\<lambda>j. load_nat xs (sel1 + w * j) w) slots1 n)"
  proof (cases b1)
    case True
    have l1: "sel1 + w * (slots1 + 1) \<le> 8 * length us" using len True us(2) by (simp add: same_below_def)
    have "\<forall>k\<le>n. f1 xs k = g1 k" if "same_below sel1 us xs" for xs
      using f [of xs] same_below_trans [OF us(2) same_below_mono [OF that le]] by blast
    from sel_build_ok [of sel1 us, OF this w l1 n top(2)] True show ?thesis by simp
  qed simp
  then obtain xs where xs: "(if b1 then sel_build f1 L w sel1 slots1 n us else Some us) = Some xs" "same_below sel1 us xs"
    "b1 \<Longrightarrow> sel_table_ok g1 L (\<lambda>j. load_nat xs (sel1 + w * j) w) slots1 n" by blast
  have "sel_table_ok g0 L (\<lambda>j. load_nat xs (sel + w * j) w) slots0 n" if b0
  proof (rule sel_table_cong [OF us(3) [OF that]])
    fix j assume "j \<le> slots0"
    then have "w * j + w \<le> w * (slots0 + 1)" by simp
    then show "load_nat xs (sel + w * j) w = load_nat us (sel + w * j) w"
      using that by (intro same_below_load [OF xs(2) w]) (simp add: sel1_def)
  qed simp
  moreover have "same_below sel ws xs" using us(2) same_below_mono [OF xs(2) le] by (rule same_below_trans)
  moreover have "sel_tables f0 f1 L w b0 b1 sel slots0 slots1 n ws =
      Some (xs, if b0 then Some sel else None, if b1 then Some sel1 else None)"
    using us(1) xs(1) unfolding sel_tables_def Let_def sel1_def by (cases b0; cases b1) simp_all
  ultimately show ?thesis using xs(3) by blast
qed

lemma slots_top:
  fixes L :: nat
  assumes "0 < L" and "j < ceiled_div m L"
  shows "L * j < m"
proof -
  have "j * L + L \<le> ceiled_div m L * L" using assms(2) by (metis Suc_leI mult_Suc mult_le_mono1 add.commute)
  moreover have "ceiled_div m L * L < m + L" using align_up_less [OF assms(1), of m] by (simp add: align_up_def ceiled_div_def)
  ultimately show ?thesis by (simp add: mult.commute)
qed

lemma slots_cover: "0 < L \<Longrightarrow> r < m \<Longrightarrow> r div L < ceiled_div m L"
  using ceiled_div_mult_ge [of L m] by (simp add: div_less_iff_less_mult)

section \<open>Finding the line of a rank\<close>

lemma line_search:
  assumes f: "\<And>k. k \<le> n \<Longrightarrow> f k = bcount Q 0 (L * k)" and r: "r < bcount Q 0 (L * n)"
    and rng: "\<And>p. first_above f r p \<Longrightarrow> p \<le> n \<Longrightarrow> lo \<le> p \<and> p \<le> hi \<and> hi \<le> n + 1"
  shows "\<exists>l<n. upper_bound_loop f lo hi r = Suc l \<and> scan_above f lo r = Some (Suc l) \<and>
    bcount Q 0 (L * l) \<le> r \<and> r < bcount Q 0 (L * Suc l)"
proof -
  have zero: "f 0 \<le> r" using f [of 0] by simp
  have top: "r < f n" using f [of n] r by simp
  obtain p where p: "first_above f r p" "0 < p" "p \<le> n" using first_above_exists [of f, OF zero top] by blast
  then obtain l where l: "p = Suc l" by (cases p) auto
  note b = rng [OF p(1,3)]
  have "upper_bound_loop f lo hi r = p"
    by (rule upper_bound_first_above [where n = n]) (use p b f line_rank_mono [of _ _ Q L] in auto)
  moreover have "scan_above f lo r = Some p" using scan_above_first [OF p(1)] b by blast
  moreover have "bcount Q 0 (L * l) \<le> r" "r < bcount Q 0 (L * Suc l)"
    using p f [of l] f [of "Suc l"] by (auto simp: l first_above_def)
  ultimately show ?thesis using l p(3) by auto
qed

text \<open>Both ranges a select starts from enclose the line: the whole vector, and two table entries.\<close>

lemma whole_range:
  "p \<le> ceiled_div m L \<Longrightarrow> 1 < L \<Longrightarrow> 0 \<le> p \<and> p \<le> (m + L + 1) div L \<and> (m + L + 1) div L \<le> ceiled_div m L + 1"
proof -
  assume p: "p \<le> ceiled_div m L" and L: "1 < L"
  have "ceiled_div m L \<le> (m + L + 1) div L" unfolding ceiled_div_def by (rule div_le_mono) simp
  moreover have "(m + L + 1) div L \<le> (m + L - 1 + L) div L" using L by (intro div_le_mono) simp
  moreover have "(m + L - 1 + L) div L = ceiled_div m L + 1"
    using L div_add_self2 [of L "m + L - 1"] unfolding ceiled_div_def by simp
  ultimately show ?thesis using p by simp
qed

section \<open>Growing the memory of a dictionary\<close>

lemma febitvec_reserve_words:
  assumes "febitvec_ok v" and "febitvec_reserve env v n = Inr v'" and "\<not> has_valgrind env"
  shows "length (m_words v) \<le> length (m_words v') \<and> (\<forall>i<64 * length (m_words v). wbit (m_words v') i = wbit (m_words v) i)"
proof (cases "align_up n 64 > m_capacity v")
  case False
  with assms show ?thesis by (simp add: febitvec_reserve_def Let_def AllocUnitBits_def)
next
  case True
  let ?c = "align_up n 64"
  obtain q where q: "realloc_words env (m_words v) (?c div 8) = Some q" "v' = v\<lparr>m_words := q, m_null := False, m_capacity := ?c\<rparr>"
    using assms True by (auto simp: febitvec_reserve_def Let_def AllocUnitBits_def valgrind_fill_def split: option.splits)
  have c: "64 * length (m_words v) \<le> ?c" using febitvec_ok_cap [OF assms(1)] True by simp
  have d: "64 dvd ?c" by simp
  note r = realloc_bits [OF q(1) d c]
  have "64 * length q = ?c" using r(1) [where sz = 0] assms(3) by (simp add: valgrind_fill_def)
  moreover have "wbit q i = wbit (m_words v) i" if "i < 64 * length (m_words v)" for i
    using r(2) [where n = i and sz = "Suc i"] that assms(3) by (simp add: valgrind_fill_def)
  ultimately show ?thesis using q(2) True febitvec_ok_cap [OF assms(1)] by simp
qed

lemma febitvec_reserve_fields:
  assumes "febitvec_reserve env v n = Inr v'"
  shows "\<exists>ws b c. v' = v\<lparr>m_words := ws, m_null := b, m_capacity := c\<rparr>"
proof (cases "align_up n 64 > m_capacity v")
  case True
  with assms show ?thesis
    by (auto simp: febitvec_reserve_def Let_def AllocUnitBits_def split: option.splits)
next
  case False
  with assms have "v' = v" by (simp add: febitvec_reserve_def Let_def AllocUnitBits_def)
  then show ?thesis
    by (intro exI [of _ "m_words v"] exI [of _ "m_null v"] exI [of _ "m_capacity v"]) simp
qed

lemma febitvec_reserve_error: "febitvec_reserve env v n = Inl e \<Longrightarrow> e = Bad_alloc"
  by (auto simp: febitvec_reserve_def Let_def split: if_splits option.splits)

lemma febitvec_shrink_error: "febitvec_shrink_to_fit env v = Inl e \<Longrightarrow> e = Abort"
  by (auto simp: febitvec_shrink_to_fit_def Let_def split: if_splits option.splits)

end
