(* ===== verification/Rank_Select_Simple.thy ===== *)
theory Rank_Select_Simple
  imports Rank_Select_Spec
begin

text \<open>
  The simplest dictionaries: \<open>rank_select_allzero\<close> and \<open>rank_select_allone\<close>, which store only a
  size, and \<open>rank_select_simple\<close>, a bit vector with one 32 bit rank per line of 256 bits in the words
  behind the bits (\<open>src/terark/succinct/rank_select_simple.hpp\<close>, \<open>rank_select_simple.cpp\<close>).
\<close>

section \<open>Constant dictionaries\<close>

text \<open>Both classes hold one \<open>size_t\<close>; a memory image of them is that one word.\<close>

record rank_select_allzero = az_size :: nat

record rank_select_allone = ao_size :: nat

definition SIZE_MAX :: nat where "SIZE_MAX = 2 ^ 64 - 1"

definition allzero_clear :: "rank_select_allzero \<Rightarrow> rank_select_allzero" where
  "allzero_clear s = s\<lparr>az_size := 0\<rparr>"
definition allzero_mmap :: "u64 list \<Rightarrow> rank_select_allzero" where
  "allzero_mmap base = \<lparr>az_size = unat (base ! 0)\<rparr>"
definition allzero_resize :: "rank_select_allzero \<Rightarrow> nat \<Rightarrow> rank_select_allzero" where
  "allzero_resize s n = s\<lparr>az_size := n\<rparr>"
definition allzero_rank0 :: "rank_select_allzero \<Rightarrow> nat \<Rightarrow> nat" where "allzero_rank0 s bitpos = bitpos"
definition allzero_rank1 :: "rank_select_allzero \<Rightarrow> nat \<Rightarrow> nat" where "allzero_rank1 s bitpos = 0"
definition allzero_select0 :: "rank_select_allzero \<Rightarrow> nat \<Rightarrow> nat" where "allzero_select0 s i = i"
definition allzero_select1 :: "rank_select_allzero \<Rightarrow> nat \<Rightarrow> nat" where "allzero_select1 s i = SIZE_MAX"
definition allzero_max_rank0 :: "rank_select_allzero \<Rightarrow> nat" where "allzero_max_rank0 s = az_size s"
definition allzero_max_rank1 :: "rank_select_allzero \<Rightarrow> nat" where "allzero_max_rank1 s = 0"
definition allzero_is1 :: "rank_select_allzero \<Rightarrow> nat \<Rightarrow> bool" where "allzero_is1 s i = False"
definition allzero_zero_seq_len :: "rank_select_allzero \<Rightarrow> nat \<Rightarrow> nat" where
  "allzero_zero_seq_len s bitpos = az_size s - bitpos"
definition allzero_zero_seq_revlen :: "rank_select_allzero \<Rightarrow> nat \<Rightarrow> nat" where
  "allzero_zero_seq_revlen s bitpos = bitpos"

definition allone_clear :: "rank_select_allone \<Rightarrow> rank_select_allone" where
  "allone_clear s = s\<lparr>ao_size := 0\<rparr>"
definition allone_mmap :: "u64 list \<Rightarrow> rank_select_allone" where
  "allone_mmap base = \<lparr>ao_size = unat (base ! 0)\<rparr>"
definition allone_resize :: "rank_select_allone \<Rightarrow> nat \<Rightarrow> rank_select_allone" where
  "allone_resize s n = s\<lparr>ao_size := n\<rparr>"
definition allone_rank0 :: "rank_select_allone \<Rightarrow> nat \<Rightarrow> nat" where "allone_rank0 s bitpos = 0"
definition allone_rank1 :: "rank_select_allone \<Rightarrow> nat \<Rightarrow> nat" where "allone_rank1 s bitpos = bitpos"
definition allone_select0 :: "rank_select_allone \<Rightarrow> nat \<Rightarrow> nat" where "allone_select0 s i = SIZE_MAX"
definition allone_select1 :: "rank_select_allone \<Rightarrow> nat \<Rightarrow> nat" where "allone_select1 s i = i"
definition allone_max_rank0 :: "rank_select_allone \<Rightarrow> nat" where "allone_max_rank0 s = 0"
definition allone_max_rank1 :: "rank_select_allone \<Rightarrow> nat" where "allone_max_rank1 s = ao_size s"
definition allone_is1 :: "rank_select_allone \<Rightarrow> nat \<Rightarrow> bool" where "allone_is1 s i = True"
definition allone_one_seq_len :: "rank_select_allone \<Rightarrow> nat \<Rightarrow> nat" where
  "allone_one_seq_len s bitpos = ao_size s - bitpos"
definition allone_one_seq_revlen :: "rank_select_allone \<Rightarrow> nat \<Rightarrow> nat" where
  "allone_one_seq_revlen s bitpos = bitpos"

lemma bcount_True [simp]: "bcount (\<lambda>_. True) i j = j - i"
  by (simp add: bcount_def)

lemma bcount_False [simp]: "bcount (\<lambda>_. False) i j = 0"
  by (simp add: bcount_def)

interpretation allzero: rank_select_dict "\<lambda>_. True" az_size allzero_is1 allzero_rank1 allzero_rank0
    allzero_select1 allzero_select0 allzero_max_rank1 allzero_max_rank0
  by unfold_locales
    (simp_all add: allzero_is1_def [abs_def] allzero_rank1_def allzero_rank0_def allzero_select0_def
      allzero_max_rank1_def allzero_max_rank0_def is_select_def)

interpretation allone: rank_select_dict "\<lambda>_. True" ao_size allone_is1 allone_rank1 allone_rank0
    allone_select1 allone_select0 allone_max_rank1 allone_max_rank0
  by unfold_locales
    (simp_all add: allone_is1_def [abs_def] allone_rank1_def allone_rank0_def allone_select1_def
      allone_max_rank1_def allone_max_rank0_def is_select_def)

section \<open>rank_select_simple\<close>

text \<open>
  The cache pointer is kept as its byte offset from \<open>m_words\<close>, \<open>None\<close> for NULL; \<open>simple_cache\<close> reads
  the 32 bit rank of a line through it.
\<close>

record rank_select_simple = febitvec +
  rss_rank_cache :: "nat option"
  rss_max_rank0 :: nat
  rss_max_rank1 :: nat

definition LineBits :: nat where "LineBits = 256"

definition LineWords :: nat where "LineWords = LineBits div WordBits"

definition simple_extend :: "febitvec \<Rightarrow> rank_select_simple" where
  "simple_extend v = febitvec.extend v (rank_select_simple.fields None 0 0)"

definition rank_select_check_overflow :: "nat \<Rightarrow> unit res" where
  "rank_select_check_overflow n = (if n > 2 ^ 32 - 1 then Inl Abort else Inr ())"

definition simple_init :: "heap_env \<Rightarrow> nat \<Rightarrow> bool \<Rightarrow> rank_select_simple res" where
  "simple_init env n val =
     bind_res (febitvec_init env n val) (\<lambda>v.
     bind_res (rank_select_check_overflow (m_size v)) (\<lambda>_. Inr (simple_extend v)))"

text \<open>These two check the size before they set it: the check never fails.\<close>

definition simple_init_no_init :: "heap_env \<Rightarrow> nat \<Rightarrow> rank_select_simple res" where
  "simple_init_no_init env n =
     bind_res (rank_select_check_overflow (m_size febitvec_null)) (\<lambda>_.
     bind_res (febitvec_resize_no_init env febitvec_null n) (\<lambda>v. Inr (simple_extend v)))"

definition simple_init_reserve :: "heap_env \<Rightarrow> nat \<Rightarrow> rank_select_simple res" where
  "simple_init_reserve env n =
     bind_res (rank_select_check_overflow (m_size febitvec_null)) (\<lambda>_.
     bind_res (febitvec_reserve env febitvec_null n) (\<lambda>v. Inr (simple_extend v)))"

text \<open>The copy takes all words of the source and points its cache behind the used words.\<close>

definition simple_copy_init :: "heap_env \<Rightarrow> rank_select_simple \<Rightarrow> rank_select_simple res" where
  "simple_copy_init env y =
     bind_res (febitvec_reserve env febitvec_null (m_capacity y)) (\<lambda>v.
       let v = v\<lparr>m_size := m_size y,
                m_words := fold (\<lambda>i ws. ws[i := m_words y ! i]) [0..<m_capacity y div WordBits] (m_words v)\<rparr>
       in Inr (if rss_rank_cache y \<noteq> None
               then (simple_extend v)\<lparr>rss_rank_cache := Some (8 * num_words v),
                      rss_max_rank0 := rss_max_rank0 y, rss_max_rank1 := rss_max_rank1 y\<rparr>
               else simple_extend v))"

definition simple_release :: "rank_select_simple \<Rightarrow> rank_select_simple" where
  "simple_release v = febitvec_release (v\<lparr>rss_rank_cache := None, rss_max_rank0 := 0, rss_max_rank1 := 0\<rparr>)"

definition simple_clear :: "rank_select_simple \<Rightarrow> rank_select_simple" where
  "simple_clear v = febitvec_clear (v\<lparr>rss_rank_cache := None, rss_max_rank0 := 0, rss_max_rank1 := 0\<rparr>)"

definition simple_move :: "rank_select_simple \<Rightarrow> rank_select_simple \<times> rank_select_simple" where
  "simple_move y = (y, simple_release y)"

definition simple_swap :: "rank_select_simple \<Rightarrow> rank_select_simple \<Rightarrow> rank_select_simple \<times> rank_select_simple" where
  "simple_swap x y = (y, x)"

definition simple_mmap_from :: "u64 list \<Rightarrow> rank_select_simple" where
  "simple_mmap_from base =
     (let len = 8 * length base;
          bits = load_nat base (len - 4) 4;
          ceiled_bits = align_up bits LineBits;
          cache = 8 * (ceiled_bits div WordBits);
          max_rank1 = load_nat base (cache + 4 * (ceiled_bits div LineBits)) 4
      in \<lparr>m_words = base, m_null = False, m_size = bits, m_capacity = len * 8,
          rss_rank_cache = Some cache, rss_max_rank0 = bits - max_rank1, rss_max_rank1 = max_rank1\<rparr>)"

definition simple_shrink_to_fit :: "heap_env \<Rightarrow> rank_select_simple \<Rightarrow> rank_select_simple res" where
  "simple_shrink_to_fit env v = febitvec_shrink_to_fit env v"

text \<open>One line: store the rank before it, then add up its words.\<close>

definition simple_cache_line :: "nat \<Rightarrow> nat \<Rightarrow> u64 list \<times> nat \<Rightarrow> u64 list \<times> nat" where
  "simple_cache_line cache i st =
     (case st of (ws, Rank1) \<Rightarrow>
       let ws = store_nat ws (cache + 4 * i) 4 Rank1
       in (ws, fold (\<lambda>j R. R + fast_popcount64 (ws ! (i * LineWords + j))) [0..<LineWords] Rank1))"

definition simple_build_cache :: "heap_env \<Rightarrow> rank_select_simple \<Rightarrow> rank_select_simple res" where
  "simple_build_cache env v =
     bind_res (rank_select_check_overflow (m_size v)) (\<lambda>_.
     if m_null v then Inr v
     else
       let ceiled_bits = align_up (m_size v) LineBits; nlines = ceiled_bits div LineBits in
       bind_res (simple_shrink_to_fit env v) (\<lambda>v.
       bind_res (febitvec_reserve env v (ceiled_bits + 32 * (nlines + 2))) (\<lambda>v.
         let bits = bits_range_set0 (m_words v) (m_size v) ceiled_bits;
             cache = 8 * (ceiled_bits div WordBits);
             (ws, Rank1) = fold (simple_cache_line cache) [0..<nlines] (bits, 0);
             ws = store_nat ws (cache + 4 * nlines) 4 Rank1;
             ws = store_nat ws (m_capacity v div 8 - 4) 4 (m_size v)
         in Inr (v\<lparr>m_words := ws, rss_rank_cache := Some cache, rss_max_rank1 := Rank1,
                   rss_max_rank0 := m_size v - Rank1\<rparr>))))"

definition simple_mem_size :: "rank_select_simple \<Rightarrow> nat" where
  "simple_mem_size v = m_capacity v div 8"

definition simple_cache :: "rank_select_simple \<Rightarrow> nat \<Rightarrow> nat" where
  "simple_cache v i = load_nat (m_words v) (the (rss_rank_cache v) + 4 * i) 4"

definition simple_fast_rank1 :: "u64 list \<Rightarrow> (nat \<Rightarrow> nat) \<Rightarrow> nat \<Rightarrow> nat" where
  "simple_fast_rank1 bits rankCache bitpos =
     (let line_wordpos = bitpos div LineBits * LineBits div WordBits;
          line_word_idxupp = bitpos div WordBits;
          rank = rankCache (bitpos div LineBits);
          rank = fold (\<lambda>i r. r + fast_popcount64 (bits ! i)) [line_wordpos..<line_word_idxupp] rank
      in if bitpos mod WordBits \<noteq> 0
         then rank + fast_popcount_trail (bits ! line_word_idxupp) (bitpos mod WordBits)
         else rank)"

definition simple_fast_rank0 :: "u64 list \<Rightarrow> (nat \<Rightarrow> nat) \<Rightarrow> nat \<Rightarrow> nat" where
  "simple_fast_rank0 bits rankCache bitpos = bitpos - simple_fast_rank1 bits rankCache bitpos"

text \<open>The static select functions throw.\<close>

definition simple_fast_select0 :: "u64 list \<Rightarrow> (nat \<Rightarrow> nat) \<Rightarrow> nat \<Rightarrow> nat res" where
  "simple_fast_select0 bits rankCache r = Inl Invalid_argument"

definition simple_fast_select1 :: "u64 list \<Rightarrow> (nat \<Rightarrow> nat) \<Rightarrow> nat \<Rightarrow> nat res" where
  "simple_fast_select1 bits rankCache r = Inl Invalid_argument"

definition simple_rank1 :: "rank_select_simple \<Rightarrow> nat \<Rightarrow> nat" where
  "simple_rank1 v bitpos =
     (let line_wordpos = bitpos div LineBits * LineBits div WordBits;
          line_word_idxupp = bitpos div WordBits;
          rank = simple_cache v (bitpos div LineBits);
          bits = m_words v;
          rank = fold (\<lambda>i r. r + fast_popcount64 (bits ! i)) [line_wordpos..<line_word_idxupp] rank
      in if bitpos mod WordBits \<noteq> 0
         then rank + fast_popcount_trail (bits ! line_word_idxupp) (bitpos mod WordBits)
         else rank)"

definition simple_rank0 :: "rank_select_simple \<Rightarrow> nat \<Rightarrow> nat" where
  "simple_rank0 v bitpos = bitpos - simple_rank1 v bitpos"

definition simple_select1 :: "rank_select_simple \<Rightarrow> nat \<Rightarrow> nat" where
  "simple_select1 v rank =
     (let nLines = (m_size v + LineBits - 1) div LineBits;
          lo = upper_bound_loop (simple_cache v) 0 nLines rank;
          hit = simple_cache v (lo - 1)
      in case sel_word_loop (\<lambda>i. m_words v ! (LineWords * (lo - 1) + i)) [0..<LineWords] hit rank of
           Some p \<Rightarrow> LineBits * (lo - 1) + p
         | None \<Rightarrow> SIZE_MAX)"

definition simple_select0 :: "rank_select_simple \<Rightarrow> nat \<Rightarrow> nat" where
  "simple_select0 v rank =
     (let nLines = (m_size v + LineBits - 1) div LineBits;
          lo = upper_bound_loop (\<lambda>mid. LineBits * mid - simple_cache v mid) 0 nLines rank;
          hit = LineBits * (lo - 1) - simple_cache v (lo - 1)
      in case sel_word_loop (\<lambda>i. NOT (m_words v ! (LineWords * (lo - 1) + i))) [0..<LineWords] hit rank of
           Some p \<Rightarrow> LineBits * (lo - 1) + p
         | None \<Rightarrow> SIZE_MAX)"

definition simple_isall0 :: "rank_select_simple \<Rightarrow> bool" where
  "simple_isall0 v \<longleftrightarrow> rss_max_rank1 v = 0"

definition simple_isall1 :: "rank_select_simple \<Rightarrow> bool" where
  "simple_isall1 v \<longleftrightarrow> rss_max_rank0 v = 0"

definition simple_excess1 :: "rank_select_simple \<Rightarrow> nat \<Rightarrow> u64" where
  "simple_excess1 v bp = 2 * of_nat (simple_rank1 v bp) - of_nat bp"

section \<open>A built dictionary\<close>

text \<open>
  What \<open>build_cache\<close> establishes and every query relies on: the bits past the end are zero up to the
  end of the last line, and entry \<open>i\<close> of the cache counts the ones before line \<open>i\<close>.
\<close>

definition simple_lines :: "('z) febitvec_scheme \<Rightarrow> nat" where
  "simple_lines v = ceiled_div (m_size v) 256"

definition simple_ok :: "rank_select_simple \<Rightarrow> bool" where
  "simple_ok v \<longleftrightarrow> febitvec_ok v \<and> m_size v < 2 ^ 32 \<and>
     rss_rank_cache v = Some (32 * simple_lines v) \<and>
     32 * simple_lines v + 4 * (simple_lines v + 2) \<le> 8 * length (m_words v) \<and>
     (\<forall>i. m_size v \<le> i \<longrightarrow> i < 256 * simple_lines v \<longrightarrow> \<not> wbit (m_words v) i) \<and>
     (\<forall>i\<le> simple_lines v. simple_cache v i = bcount (wbit (m_words v)) 0 (256 * i)) \<and>
     rss_max_rank1 v = bcount (wbit (m_words v)) 0 (m_size v) \<and>
     rss_max_rank0 v = m_size v - rss_max_rank1 v \<and>
     load_nat (m_words v) (8 * length (m_words v) - 4) 4 = m_size v"

lemma lines_cover: "m_size v \<le> 256 * simple_lines v"
  using ceiled_div_mult_ge [of 256 "m_size v"] by (simp add: simple_lines_def mult.commute)

lemma bcount_zero_tail:
  assumes "\<And>i. n \<le> i \<Longrightarrow> i < m \<Longrightarrow> \<not> P i" and "n \<le> m"
  shows "bcount P 0 m = bcount P 0 n"
proof -
  have "bcount P n m = bcount (\<lambda>_. False) n m" using assms(1) by (intro bcount_cong) auto
  then show ?thesis using bcount_split [of 0 n m P] assms(2) by simp
qed

lemma bcount_ones_tail:
  assumes "\<And>i. n \<le> i \<Longrightarrow> i < m \<Longrightarrow> P i" and "n \<le> m"
  shows "bcount P 0 m = bcount P 0 n + (m - n)"
proof -
  have "bcount P n m = bcount (\<lambda>_. True) n m" using assms(1) by (intro bcount_cong) auto
  then show ?thesis using bcount_split [of 0 n m P] assms(2) by simp
qed

text \<open>Rank: the cached line, the whole words of the line before the position, the rest of its word.\<close>

lemma line_prefix_rank:
  fixes ws :: "u64 list"
  assumes "r0 = bcount (wbit ws) 0 (256 * (p div 256))"
  shows "(let rank = fold (\<lambda>i r. r + fast_popcount64 (ws ! i)) [p div 256 * 256 div 64..<p div 64] r0
          in if p mod 64 \<noteq> 0 then rank + fast_popcount_trail (ws ! (p div 64)) (p mod 64) else rank) =
    bcount (wbit ws) 0 p"
proof -
  have a: "p div 256 * 256 div 64 = 4 * (p div 256)" "4 * (p div 256) \<le> p div 64" by linarith+
  have "(\<Sum>k=4 * (p div 256)..<p div 64. popcount (ws ! k)) =
      bcount (wbit ws) (256 * (p div 256)) (64 * (p div 64))"
    using bcount_wbit_words [OF a(2), of ws] by simp
  then have "fold (\<lambda>i r. r + fast_popcount64 (ws ! i)) [p div 256 * 256 div 64..<p div 64] r0 =
      bcount (wbit ws) 0 (64 * (p div 64))"
    using assms a bcount_split [of 0 "256 * (p div 256)" "64 * (p div 64)" "wbit ws"]
    by (simp add: fold_add_sum fast_popcount64_correct)
  moreover have "bcount (wbit ws) 0 p = bcount (wbit ws) 0 (64 * (p div 64)) + bcount (bit (ws ! (p div 64))) 0 (p mod 64)"
    using bcount_split [of 0 "64 * (p div 64)" "64 * (p div 64) + p mod 64" "wbit ws"]
      bcount_wbit_word [of "p mod 64" ws "p div 64"] by simp
  ultimately show ?thesis by (simp add: Let_def fast_popcount_trail_correct)
qed

lemma simple_rank1_correct:
  assumes "simple_ok v" and "p \<le> m_size v"
  shows "simple_rank1 v p = bcount (wbit (m_words v)) 0 p"
proof -
  have "p div 256 \<le> simple_lines v" using assms(2) lines_cover [of v] by linarith
  then have "simple_cache v (p div 256) = bcount (wbit (m_words v)) 0 (256 * (p div 256))"
    using assms(1) by (simp add: simple_ok_def)
  from line_prefix_rank [OF this] show ?thesis
    by (auto simp: simple_rank1_def LineBits_def WordBits_def Let_def split: if_splits)
qed

lemma simple_fast_rank1_eq: "simple_fast_rank1 (m_words v) (simple_cache v) p = simple_rank1 v p"
  by (simp add: simple_fast_rank1_def simple_rank1_def Let_def)

lemma simple_select1_correct:
  assumes ok: "simple_ok v" and r: "r < rss_max_rank1 v"
  shows "is_select (wbit (m_words v)) r (simple_select1 v r)"
proof -
  let ?P = "wbit (m_words v)" and ?n = "simple_lines v"
  let ?R = "\<lambda>i. bcount ?P 0 (256 * i)"
  have cache: "simple_cache v i = ?R i" if "i \<le> ?n" for i using ok that by (simp add: simple_ok_def)
  have nl: "(m_size v + 256 - 1) div 256 = ?n" by (simp add: simple_lines_def ceiled_div_def)
  have "rss_max_rank1 v \<le> ?R ?n"
    using ok lines_cover [of v] by (auto simp: simple_ok_def intro: bcount_mono)
  with r have top: "r < simple_cache v ?n" using cache by simp
  have zero: "simple_cache v 0 \<le> r" using cache [of 0] by simp
  from first_above_exists [of "simple_cache v", OF zero top] obtain p
    where p: "first_above (simple_cache v) r p" "0 < p" "p \<le> ?n" by blast
  then obtain l where l: "p = Suc l" by (cases p) auto
  have lo: "upper_bound_loop (simple_cache v) 0 ?n r = Suc l"
    by (rule upper_bound_first_above [where n = ?n]) (use p l cache line_rank_mono [of _ _ ?P 256] in auto)
  have hit: "simple_cache v l = ?R l" "?R l \<le> r" "r < ?R (Suc l)"
    using p l cache [of l] cache [of "Suc l"] by (auto simp: first_above_def)
  have "\<exists>q. sel_word_loop (\<lambda>i. m_words v ! (4 * l + i)) [0..<4] (bcount ?P 0 (64 * 4 * l)) r = Some q \<and>
      is_select ?P r (64 * 4 * l + q)"
    by (rule line_select) (use hit in \<open>simp_all only: wbit_word, simp_all\<close>)
  then show ?thesis
    unfolding simple_select1_def Let_def LineBits_def LineWords_def WordBits_def nl lo
    using hit(1) by auto
qed

lemma simple_select0_correct:
  assumes ok: "simple_ok v" and r: "r < rss_max_rank0 v"
  shows "is_select (\<lambda>i. \<not> wbit (m_words v) i) r (simple_select0 v r)"
proof -
  let ?P = "\<lambda>i. \<not> wbit (m_words v) i" and ?n = "simple_lines v"
  let ?f = "\<lambda>mid. 256 * mid - simple_cache v mid"
  let ?R = "\<lambda>i. bcount ?P 0 (256 * i)"
  have cache: "?f i = ?R i" if "i \<le> ?n" for i using ok that by (simp add: simple_ok_def bcount_not)
  have nl: "(m_size v + 256 - 1) div 256 = ?n" by (simp add: simple_lines_def ceiled_div_def)
  have "rss_max_rank0 v = bcount ?P 0 (m_size v)" using ok by (simp add: simple_ok_def bcount_not)
  also have "\<dots> \<le> ?R ?n" using lines_cover [of v] by (intro bcount_mono) auto
  finally have top: "r < ?f ?n" using cache r by simp
  have zero: "?f 0 \<le> r" by simp
  from first_above_exists [of ?f, OF zero top] obtain p
    where p: "first_above ?f r p" "0 < p" "p \<le> ?n" by blast
  then obtain l where l: "p = Suc l" by (cases p) auto
  have lo: "upper_bound_loop (?f) 0 ?n r = Suc l"
    by (rule upper_bound_first_above [where n = ?n]) (use p l cache line_rank_mono [of _ _ ?P 256] in auto)
  have hit: "?f l = ?R l" "?R l \<le> r" "r < ?R (Suc l)"
    using p l cache [of l] cache [of "Suc l"] by (auto simp: first_above_def)
  have "\<exists>q. sel_word_loop (\<lambda>i. NOT (m_words v ! (4 * l + i))) [0..<4] (bcount ?P 0 (64 * 4 * l)) r = Some q \<and>
      is_select ?P r (64 * 4 * l + q)"
    by (rule line_select) (use hit in \<open>simp_all only: wbit_not_word, simp_all\<close>)
  then show ?thesis
    unfolding simple_select0_def Let_def LineBits_def LineWords_def WordBits_def nl lo
    using hit(1) by auto
qed

interpretation simple: rank_select_dict simple_ok m_size "\<lambda>v. wbit (m_words v)" simple_rank1 simple_rank0
    simple_select1 simple_select0 rss_max_rank1 rss_max_rank0
  by unfold_locales
    (simp_all add: simple_rank1_correct simple_select1_correct simple_select0_correct simple_rank0_def
      bcount_not, simp_all add: simple_ok_def)

section \<open>Building the cache\<close>

lemma simple_cache_fold:
  fixes ws0 :: "u64 list"
  assumes len: "32 * n + 4 * (n + 2) \<le> 8 * length ws0"
    and small: "\<And>i. i \<le> n \<Longrightarrow> bcount (wbit ws0) 0 (256 * i) < 2 ^ 32"
    and k: "k \<le> n"
  shows "case fold (simple_cache_line (32 * n)) [0..<k] (ws0, 0) of (ws, R) \<Rightarrow>
    length ws = length ws0 \<and> (\<forall>i<256 * n. wbit ws i = wbit ws0 i) \<and> R = bcount (wbit ws0) 0 (256 * k) \<and>
    (\<forall>i<k. load_nat ws (32 * n + 4 * i) 4 = bcount (wbit ws0) 0 (256 * i))"
  using k
proof (induction k)
  case 0
  then show ?case by simp
next
  case (Suc k)
  obtain ws R where st: "fold (simple_cache_line (32 * n)) [0..<k] (ws0, 0) = (ws, R)" by fastforce
  from Suc st have IH: "length ws = length ws0" "\<And>i. i < 256 * n \<Longrightarrow> wbit ws i = wbit ws0 i"
    "R = bcount (wbit ws0) 0 (256 * k)" "\<And>i. i < k \<Longrightarrow> load_nat ws (32 * n + 4 * i) 4 = bcount (wbit ws0) 0 (256 * i)"
    by auto
  define us where "us = store_nat ws (32 * n + 4 * k) 4 R"
  have off: "32 * n + 4 * k + 4 \<le> 8 * length ws" using len Suc.prems IH(1) by simp
  have ub: "wbit us i = wbit ws0 i" if "i < 256 * n" for i
    using that off IH(2) unfolding us_def by (subst wbit_store_nat_other) auto
  have e: "256 * (k + 1) \<le> 256 * n" using Suc.prems by simp
  have "(\<Sum>j=0..<4. popcount (us ! (k * 4 + j))) = bcount (wbit us) (256 * k) (256 * (k + 1))"
    using line_popcount [where n = 4 and i = k and ws = us] by simp
  also have "\<dots> = bcount (wbit ws0) (256 * k) (256 * (k + 1))"
    using e by (intro bcount_cong ub) auto
  finally have sum: "R + (\<Sum>j=0..<4. popcount (us ! (k * 4 + j))) = bcount (wbit ws0) 0 (256 * (k + 1))"
    using bcount_split [of 0 "256 * k" "256 * (k + 1)" "wbit ws0"] IH(3) by simp
  have res: "fold (simple_cache_line (32 * n)) [0..<Suc k] (ws0, 0) =
      (us, R + (\<Sum>j=0..<4. popcount (us ! (k * 4 + j))))"
    by (simp only: upt_Suc_append fold_append o_apply st le0)
      (simp add: simple_cache_line_def Let_def LineWords_def LineBits_def WordBits_def fold_add_sum
        fast_popcount64_correct us_def)
  have ld: "load_nat us (32 * n + 4 * i) 4 = bcount (wbit ws0) 0 (256 * i)" if "i < Suc k" for i
  proof (cases "i = k")
    case True
    then show ?thesis using off small [of k] Suc.prems IH(3) unfolding us_def by (simp add: load_store_nat_same)
  next
    case False
    with that have "load_nat us (32 * n + 4 * i) 4 = load_nat ws (32 * n + 4 * i) 4"
      using off unfolding us_def by (intro load_store_nat_other) auto
    with False that IH(4) show ?thesis by simp
  qed
  show ?case unfolding res prod.case using IH(1) ub sum ld by (simp add: us_def)
qed

lemma simple_build_cache_ok:
  assumes "febitvec_ok v" and "\<not> m_null v" and "simple_build_cache env v = Inr v'"
  shows "simple_ok v'" and "febitvec_bits v' = febitvec_bits v"
proof -
  let ?n = "simple_lines v"
  have ceil: "align_up (m_size v) 256 = 256 * ?n" by (simp add: align_up_def simple_lines_def ceiled_div_def)
  have size: "m_size v \<le> 2 ^ 32 - 1"
    using assms(3) by (auto simp: simple_build_cache_def rank_select_check_overflow_def split: if_splits)
  obtain a where a: "febitvec_shrink_to_fit env v = Inr a"
    and b0: "bind_res (febitvec_reserve env a (256 * ?n + 32 * (?n + 2))) (\<lambda>v.
         let bits = bits_range_set0 (m_words v) (m_size v) (256 * ?n);
             (ws, Rank1) = fold (simple_cache_line (32 * ?n)) [0..<?n] (bits, 0);
             ws = store_nat ws (32 * ?n + 4 * ?n) 4 Rank1;
             ws = store_nat ws (m_capacity v div 8 - 4) 4 (m_size v)
         in Inr (v\<lparr>m_words := ws, rss_rank_cache := Some (32 * ?n), rss_max_rank1 := Rank1,
                   rss_max_rank0 := m_size v - Rank1\<rparr>)) = Inr v'"
    using assms(2,3) size
    by (auto simp: simple_build_cache_def rank_select_check_overflow_def simple_shrink_to_fit_def
        LineBits_def WordBits_def ceil bind_res_Inr Let_def)
  note aok = febitvec_shrink_ok [OF assms(1) a assms(2)]
  have as: "m_size a = m_size v" using arg_cong [OF aok(2), of length] by simp
  obtain b where b: "febitvec_reserve env a (256 * ?n + 32 * (?n + 2)) = Inr b" using b0 by (auto simp: bind_res_Inr)
  note bok = febitvec_reserve_ok [OF aok(1) b]
  have bs: "m_size b = m_size v" using bok(2) as by simp
  have cap: "m_capacity b = 64 * length (m_words b)" using bok(1) by (rule febitvec_ok_cap)
  define ws0 where "ws0 = bits_range_set0 (m_words b) (m_size v) (256 * ?n)"
  have len0: "length ws0 = length (m_words b)" by (simp add: ws0_def)
  have len: "32 * ?n + 4 * (?n + 2) \<le> 8 * length ws0" using bok(3) cap len0 by simp
  have w0: "wbit ws0 i = (wbit (m_words v) i \<and> i < m_size v)" if "i < 256 * ?n" for i
  proof -
    have "wbit (m_words b) i = wbit (m_words v) i" if "i < m_size v"
      using that bok(4) [of i] aok(2) as febitvec_bits_nth [of i a] febitvec_bits_nth [of i v] by simp
    then show ?thesis
      using that len len0 lines_cover [of v] unfolding ws0_def by (subst wbit_bits_range_set0) auto
  qed
  have total: "bcount (wbit ws0) 0 (256 * ?n) = bcount (wbit ws0) 0 (m_size v)"
    using w0 lines_cover [of v] by (intro bcount_zero_tail) auto
  have small: "bcount (wbit ws0) 0 (256 * i) < 2 ^ 32" if "i \<le> ?n" for i
    using line_rank_mono [OF that, of "wbit ws0" 256] total bcount_le [of "wbit ws0" 0 "m_size v"] size by simp
  obtain ws R where st: "fold (simple_cache_line (32 * ?n)) [0..<?n] (ws0, 0) = (ws, R)" by fastforce
  have f: "length ws = length ws0" "\<And>i. i < 256 * ?n \<Longrightarrow> wbit ws i = wbit ws0 i"
    "R = bcount (wbit ws0) 0 (256 * ?n)"
    "\<And>i. i < ?n \<Longrightarrow> load_nat ws (32 * ?n + 4 * i) 4 = bcount (wbit ws0) 0 (256 * i)"
    using simple_cache_fold [OF len small le_refl] unfolding st prod.case by auto
  define us where "us = store_nat ws (32 * ?n + 4 * ?n) 4 R"
  define xs where "xs = store_nat us (8 * length ws0 - 4) 4 (m_size v)"
  have v': "v' = b\<lparr>m_words := xs, rss_rank_cache := Some (32 * ?n), rss_max_rank1 := R,
                   rss_max_rank0 := m_size v - R\<rparr>"
    using b0 b cap unfolding b bind_res_simps bs ws0_def [symmetric] Let_def st
    by (simp add: us_def xs_def len0)
  have lx: "length xs = length ws0" "length us = length ws0" by (simp_all add: xs_def us_def f)
  have bx: "wbit xs i = wbit ws0 i" if "i < 256 * ?n" for i
  proof -
    have "wbit xs i = wbit us i"
      unfolding xs_def using len that lx by (intro wbit_store_nat_other) auto
    also have "\<dots> = wbit ws i"
      unfolding us_def using len that f(1) by (intro wbit_store_nat_other) auto
    finally show ?thesis using f(2) [OF that] by simp
  qed
  have cx: "load_nat xs (32 * ?n + 4 * i) 4 = bcount (wbit ws0) 0 (256 * i)" if "i \<le> ?n" for i
  proof -
    have "load_nat xs (32 * ?n + 4 * i) 4 = load_nat us (32 * ?n + 4 * i) 4"
      unfolding xs_def using len that lx by (intro load_store_nat_other) auto
    also have "\<dots> = bcount (wbit ws0) 0 (256 * i)"
    proof (cases "i = ?n")
      case True
      then show ?thesis using f(1,3) len small [of ?n] unfolding us_def by (simp add: load_store_nat_same)
    next
      case False
      with that have "load_nat us (32 * ?n + 4 * i) 4 = load_nat ws (32 * ?n + 4 * i) 4"
        unfolding us_def using len f(1) by (intro load_store_nat_other) auto
      with False that f(4) show ?thesis by simp
    qed
    finally show ?thesis .
  qed
  have cong: "bcount (wbit xs) 0 m = bcount (wbit ws0) 0 m" if "m \<le> 256 * ?n" for m
    using that bx by (intro bcount_cong) auto
  have szx: "load_nat xs (8 * length ws0 - 4) 4 = m_size v"
    unfolding xs_def using len size lx by (subst load_store_nat_same) auto
  have n': "simple_lines v' = ?n" by (simp add: v' simple_lines_def bs)
  show "simple_ok v'"
  proof -
    have "febitvec_ok v'" using bok(1) lx len0 by (auto simp: v' febitvec_ok_def)
    moreover have "simple_cache v' i = bcount (wbit xs) 0 (256 * i)" if "i \<le> ?n" for i
      using cx [OF that] cong [of "256 * i"] that by (simp add: simple_cache_def v')
    moreover have "R = bcount (wbit xs) 0 (m_size v)"
      using f(3) total cong [of "m_size v"] lines_cover [of v] by simp
    ultimately show ?thesis
      unfolding simple_ok_def n' using len lx len0 bx w0 size szx bs by (auto simp: v')
  qed
  show "febitvec_bits v' = febitvec_bits v"
    using bx w0 lines_cover [of v] bs
    by (intro febitvec_bits_eqI) (auto simp: v' febitvec_bits_nth)
qed

lemma simple_mmap_image:
  assumes "simple_ok v" and "\<not> m_null v"
  shows "simple_mmap_from (m_words v) = v"
proof -
  have "align_up (m_size v) 256 = 256 * simple_lines v"
    by (simp add: align_up_def simple_lines_def ceiled_div_def)
  moreover have "simple_cache v (simple_lines v) = bcount (wbit (m_words v)) 0 (m_size v)"
    using assms(1) bcount_zero_tail [of "m_size v" "256 * simple_lines v" "wbit (m_words v)"] lines_cover [of v]
    by (simp add: simple_ok_def)
  ultimately show ?thesis
    using assms by (simp add: simple_mmap_from_def simple_ok_def Let_def LineBits_def WordBits_def
        simple_cache_def febitvec_ok_cap)
qed

text \<open>When memory is granted, only the size limit can stop the construction.\<close>

lemma febitvec_shrink_total: "(\<And>n. alloc_ok env n) \<Longrightarrow> \<exists>v'. febitvec_shrink_to_fit env v = Inr v'"
  by (auto simp: febitvec_shrink_to_fit_def realloc_words_def Let_def)

lemma febitvec_reserve_total: "(\<And>n. alloc_ok env n) \<Longrightarrow> \<exists>v'. febitvec_reserve env v n = Inr v'"
  by (simp add: febitvec_reserve_def realloc_words_def Let_def)

lemma simple_build_cache_total:
  assumes "\<And>n. alloc_ok env n" and "m_size v < 2 ^ 32"
  shows "\<exists>v'. simple_build_cache env v = Inr v'"
proof (cases "m_null v")
  case True
  then show ?thesis using assms(2) by (simp add: simple_build_cache_def rank_select_check_overflow_def)
next
  case False
  then show ?thesis
    using assms(2) unfolding simple_build_cache_def rank_select_check_overflow_def simple_shrink_to_fit_def Let_def
    by (auto intro!: bind_res_total febitvec_shrink_total febitvec_reserve_total assms(1) split: prod.split)
qed

section \<open>The copy constructor\<close>

text \<open>
  The copy looks for its cache behind the used words, where the source has the zero bits that fill
  up its last line.  As far as these reach, the cache of the copy reads zero.
\<close>

lemma load_nat_zero:
  "n \<le> 8 \<Longrightarrow> (\<And>i. 8 * off \<le> i \<Longrightarrow> i < 8 * (off + n) \<Longrightarrow> \<not> wbit ws i) \<Longrightarrow> load_nat ws off n = 0"
proof -
  assume a: "n \<le> 8" "\<And>i. 8 * off \<le> i \<Longrightarrow> i < 8 * (off + n) \<Longrightarrow> \<not> wbit ws i"
  then have "load_bytes ws off n = 0" by (intro bit_word_eqI) (auto simp: bit_load_bytes)
  then show ?thesis by (simp add: load_nat_def)
qed

lemma simple_copy_words:
  assumes "febitvec_ok y" and "simple_copy_init env y = Inr v"
  shows "m_words v = m_words y" and "m_size v = m_size y" and "m_capacity v = m_capacity y"
proof -
  have cap: "align_up (m_capacity y) 64 = m_capacity y"
    using febitvec_ok_cap [OF assms(1)] by (simp add: align_up_def)
  obtain u where u: "febitvec_reserve env febitvec_null (m_capacity y) = Inr u"
    using assms(2) by (auto simp: simple_copy_init_def bind_res_Inr)
  have uc: "m_capacity u = m_capacity y"
    using u cap by (auto simp: febitvec_reserve_def AllocUnitBits_def Let_def split: if_splits option.splits)
  have "febitvec_ok u" using febitvec_reserve_ok(1) [OF febitvec_null_ok(1) u] .
  then have ul: "length (m_words u) = length (m_words y)"
    using febitvec_ok_cap [of u] febitvec_ok_cap [OF assms(1)] uc by simp
  have "fold (\<lambda>i ws. ws[i := m_words y ! i]) [0..<m_capacity y div WordBits] (m_words u) = m_words y"
    using febitvec_ok_cap [OF assms(1)] ul
    by (intro nth_equalityI) (auto simp: fold_update_nth WordBits_def)
  then show "m_words v = m_words y" and "m_size v = m_size y" and "m_capacity v = m_capacity y"
    using assms(2) u uc by (auto simp: simple_copy_init_def Let_def simple_extend_def febitvec.defs rank_select_simple.defs)
qed

lemma simple_copy_rank1:
  assumes ok: "simple_ok y" and v: "simple_copy_init env y = Inr v"
    and gap: "8 * num_words y + 4 * simple_lines y \<le> 32 * simple_lines y"
    and p: "p \<le> m_size y" "p div 256 < simple_lines y"
  shows "simple_rank1 v p = bcount (wbit (m_words y)) (256 * (p div 256)) p"
proof -
  have fok: "febitvec_ok y" and zero: "\<And>i. m_size y \<le> i \<Longrightarrow> i < 256 * simple_lines y \<Longrightarrow> \<not> wbit (m_words y) i"
    using ok by (auto simp: simple_ok_def)
  note w = simple_copy_words [OF fok v]
  have nw: "m_size y \<le> 64 * num_words y" by (rule num_words_cover)
  have c: "rss_rank_cache v = Some (8 * num_words y)"
    using ok v w(2) by (auto simp: simple_ok_def simple_copy_init_def bind_res_Inr Let_def simple_extend_def
        febitvec.defs rank_select_simple.defs num_words_def)
  have "simple_cache v (p div 256) = 0"
    unfolding simple_cache_def c option.sel w(1)
    using gap p(2) nw by (intro load_nat_zero zero) auto
  moreover have "bcount (wbit (m_words y)) 0 p =
      bcount (wbit (m_words y)) 0 (256 * (p div 256)) + bcount (wbit (m_words y)) (256 * (p div 256)) p"
    by (rule bcount_split) auto
  moreover have F: "simple_rank1 u p = simple_cache u (p div 256) +
      (simple_rank1 u p - simple_cache u (p div 256))" "simple_rank1 u p - simple_cache u (p div 256) =
      (\<Sum>k = 4 * (p div 256)..<p div 64. fast_popcount64 (m_words u ! k)) +
      (if p mod 64 \<noteq> 0 then fast_popcount_trail (m_words u ! (p div 64)) (p mod 64) else 0)" for u
    by (simp_all add: simple_rank1_def LineBits_def WordBits_def Let_def fold_add_sum)
  moreover have "simple_cache y (p div 256) = bcount (wbit (m_words y)) 0 (256 * (p div 256))"
    using ok p(2) by (simp add: simple_ok_def)
  ultimately show ?thesis
    using simple_rank1_correct [OF ok p(1)] F(2) [of v] F(2) [of y] F(1) [of v] F(1) [of y] unfolding w(1) by linarith
qed

text \<open>Counting in the list of the bits.\<close>

lemma count_list_bits:
  assumes "p \<le> m_size v"
  shows "count_list (take p (febitvec_bits v)) True = bcount (wbit (m_words v)) 0 p"
    and "count_list (take p (febitvec_bits v)) False = bcount (\<lambda>n. \<not> wbit (m_words v) n) 0 p"
proof -
  have t: "take p (febitvec_bits v) = map (wbit (m_words v)) [0..<p]"
    using assms by (intro nth_equalityI) (auto simp: febitvec_bits_nth)
  have c: "count_list xs True = length (filter id xs)" "count_list xs False = length (filter Not xs)" for xs :: "bool list"
    by (induction xs) auto
  show "count_list (take p (febitvec_bits v)) True = bcount (wbit (m_words v)) 0 p"
    "count_list (take p (febitvec_bits v)) False = bcount (\<lambda>n. \<not> wbit (m_words v) n) 0 p"
    by (simp_all add: t c bcount_def filter_map o_def)
qed

lemma count_all_bits:
  "count_list (febitvec_bits v) True = bcount (wbit (m_words v)) 0 (m_size v)"
  "count_list (febitvec_bits v) False = bcount (\<lambda>n. \<not> wbit (m_words v) n) 0 (m_size v)"
  using count_list_bits [of "m_size v" v] by (simp_all add: febitvec_bits_def)

section \<open>Properties\<close>

text \<open>C5: a dictionary built by \<open>rank_select_simple\<close> keeps the bits of the vector, and its queries are
  those of the bit sequence: rank1 counts the ones and rank0 the zeros below a position, select1 and select0 find the
  r-th one and zero, and rank and select are inverse to each other.\<close>

theorem simple_build_queries:
  assumes "febitvec_ok v" and "\<not> m_null v" and "simple_build_cache env v = Inr d"
  shows "febitvec_bits d = febitvec_bits v \<and>
    (\<forall>p\<le>m_size d. simple_rank1 d p = count_list (take p (febitvec_bits v)) True) \<and>
    (\<forall>r<rss_max_rank1 d. simple_select1 d r < m_size d \<and> febitvec_bits v ! simple_select1 d r \<and>
       simple_rank1 d (simple_select1 d r) = r) \<and>
    (\<forall>r<rss_max_rank0 d. simple_select0 d r < m_size d \<and> \<not> febitvec_bits v ! simple_select0 d r \<and>
       simple_rank0 d (simple_select0 d r) = r) \<and>
    (\<forall>i<m_size d. febitvec_bits v ! i \<longrightarrow> simple_select1 d (simple_rank1 d i) = i) \<and>
    (\<forall>p\<le>m_size d. simple_rank0 d p = count_list (take p (febitvec_bits v)) False) \<and>
    rss_max_rank1 d = count_list (febitvec_bits v) True \<and> rss_max_rank0 d = count_list (febitvec_bits v) False"
proof -
  note ok = simple_build_cache_ok [OF assms]
  show ?thesis
    using ok(1) simple.select1_less [OF ok(1)] simple.select0_less [OF ok(1)]
      simple.bits_select1 [OF ok(1)] simple.bits_select0 [OF ok(1)] simple.rank1_select1 [OF ok(1)]
      simple.rank0_select0 [OF ok(1)] simple.select1_rank1 [OF ok(1)] simple.rank1_count [OF ok(1)]
      simple.rank0_count [OF ok(1)] simple.max_rank1_count [OF ok(1)] simple.max_rank0_count [OF ok(1)]
    by (simp add: ok(2) [symmetric] febitvec_bits_nth count_list_bits count_all_bits)
qed

definition simple_sample :: rank_select_simple where
  "simple_sample = \<lparr>m_words = [0xB], m_null = False, m_size = 4, m_capacity = 64,
     rss_rank_cache = None, rss_max_rank0 = 0, rss_max_rank1 = 0\<rparr>"

lemma simple_sample_ok:
  "febitvec_ok simple_sample" "\<not> m_null simple_sample"
  "febitvec_bits simple_sample = [True, True, False, True]"
  "\<exists>d. simple_build_cache plain_heap simple_sample = Inr d"
  by (code_simp, code_simp, code_simp, rule simple_build_cache_total) (simp_all add: simple_sample_def)

theorem simple_build_queries_witness:
  "\<exists>d. simple_build_cache plain_heap simple_sample = Inr d \<and>
     febitvec_bits d = [True, True, False, True] \<and> simple_rank1 d 4 = 3"
proof -
  obtain d where d: "simple_build_cache plain_heap simple_sample = Inr d" using simple_sample_ok(4) by blast
  note q = simple_build_queries [OF simple_sample_ok(1,2) d]
  then have b: "febitvec_bits d = [True, True, False, True]" by (simp add: simple_sample_ok)
  have "m_size d = 4" using length_febitvec_bits [of d] unfolding b by simp
  with q have "simple_rank1 d 4 = count_list (take 4 [True, True, False, True]) True"
    by (simp add: simple_sample_ok(3))
  with d b show ?thesis by simp
qed

text \<open>The memory of a built \<open>rank_select_simple\<close>, mapped again with \<open>risk_mmap_from\<close>, is the same
  dictionary: size, cache position and both maximal ranks are recovered from the words alone.\<close>

theorem simple_mmap_roundtrip:
  assumes "febitvec_ok v" and "\<not> m_null v" and "simple_build_cache env v = Inr d"
  shows "simple_mmap_from (m_words d) = d\<lparr>m_null := False\<rparr> \<and> 8 * length (m_words d) = simple_mem_size d"
proof -
  note ok = simple_build_cache_ok(1) [OF assms]
  have "simple_ok (d\<lparr>m_null := False\<rparr>)" using ok by (auto simp: simple_ok_def febitvec_ok_def simple_lines_def simple_cache_def)
  from simple_mmap_image [OF this] have "simple_mmap_from (m_words d) = d\<lparr>m_null := False\<rparr>" by simp
  moreover have "8 * length (m_words d) = simple_mem_size d"
    using ok by (simp add: simple_ok_def simple_mem_size_def febitvec_ok_cap)
  ultimately show ?thesis by blast
qed

theorem simple_mmap_roundtrip_witness:
  "\<exists>d. simple_build_cache plain_heap simple_sample = Inr d \<and>
     simple_mmap_from (m_words d) = d\<lparr>m_null := False\<rparr> \<and> 8 * length (m_words d) = simple_mem_size d"
proof -
  obtain d where d: "simple_build_cache plain_heap simple_sample = Inr d" using simple_sample_ok(4) by blast
  with simple_mmap_roundtrip [OF simple_sample_ok(1,2) d] show ?thesis by blast
qed

text \<open>The copy constructor of \<open>rank_select_simple\<close> yields a broken dictionary: it points the cache at
  the words behind the used ones, not behind the last line of 256 bits.  For 300 one bits the source
  counts 300 ones below position 300 and its copy, which has the same bits, counts 44.\<close>

theorem simple_copy_breaks_rank:
  "\<exists>y v. simple_ok y \<and> simple_copy_init plain_heap y = Inr v \<and> febitvec_bits v = febitvec_bits y \<and>
     m_size y = 300 \<and> simple_rank1 y 300 = 300 \<and> simple_rank1 v 300 = 44"
proof -
  obtain b where b: "febitvec_init plain_heap 300 True = Inr b"
    using febitvec_resize_total [of plain_heap febitvec_null 300 True] by (auto simp: febitvec_init_def)
  note bok = febitvec_init_ok [OF b]
  have mb: "m_size b = 300" using arg_cong [OF bok(2), of length] by simp
  define x where "x = (simple_extend b)\<lparr>m_null := False\<rparr>"
  have x: "febitvec_ok x" "\<not> m_null x" "m_size x = 300" "febitvec_bits x = replicate 300 True"
    using bok mb
    by (auto simp: x_def simple_extend_def febitvec.defs rank_select_simple.defs febitvec_ok_def febitvec_bits_def)
  obtain y where y: "simple_build_cache plain_heap x = Inr y"
    using simple_build_cache_total [of plain_heap x] x(3) by auto
  note yok = simple_build_cache_ok [OF x(1,2) y]
  have sz: "m_size y = 300" using arg_cong [OF yok(2), of length] x(3) by simp
  obtain v where v: "simple_copy_init plain_heap y = Inr v"
    using febitvec_reserve_total [of plain_heap febitvec_null "m_capacity y"] by (auto simp: simple_copy_init_def Let_def)
  have fok: "febitvec_ok y" using yok(1) by (simp add: simple_ok_def)
  have one: "wbit (m_words y) i" if "i < 300" for i
    using yok(2) x(4) febitvec_bits_nth [of i y] that sz by simp
  have "bcount (wbit (m_words y)) a 300 = 300 - a" for a
    using bcount_cong [of a 300 "wbit (m_words y)" "\<lambda>_. True"] one by simp
  moreover have "simple_lines y = 2" "num_words y = 5"
    using sz by (simp_all add: simple_lines_def ceiled_div_def num_words_def WordBits_def)
  ultimately have "simple_rank1 v 300 = 44" "simple_rank1 y 300 = 300"
    using simple_copy_rank1 [OF yok(1) v, of 300] simple_rank1_correct [OF yok(1), of 300] sz by simp_all
  moreover have "febitvec_bits v = febitvec_bits y"
    using simple_copy_words [OF fok v] by (simp add: febitvec_bits_def)
  ultimately show ?thesis using yok(1) v sz by blast
qed

end
