(* ===== verification/Rank_Select_SE256.thy ===== *)
theory Rank_Select_SE256
  imports Select_Table Rank_Select_Simple
begin

text \<open>
  \<open>rank_select_se\<close> (also \<open>rank_select_se_256\<close>, \<open>src/terark/succinct/rank_select_se_256.hpp\<close> and
  \<open>.cpp\<close>): lines of 256 bits, a separate array of 8 byte \<open>RankCache\<close> entries (a 32 bit rank of the line
  and four 8 bit ranks of its words), and optional select tables behind it.  The branches for AVX512
  are not modelled.  Pointers into the words are byte offsets.
\<close>

section \<open>State\<close>

record rank_select_se = febitvec +
  se_rank_cache :: "nat option"
  se_sel0_cache :: "nat option"
  se_sel1_cache :: "nat option"
  se_max_rank0 :: nat
  se_max_rank1 :: nat

text \<open>The fields of the entry \<open>i\<close> of a \<open>RankCache\<close> array at byte offset \<open>rc\<close>.\<close>

definition se_lev1 :: "nat \<Rightarrow> u64 list \<Rightarrow> nat \<Rightarrow> nat" where
  "se_lev1 rc ws i = load_nat ws (rc + 8 * i) 4"

definition se_lev2 :: "nat \<Rightarrow> u64 list \<Rightarrow> nat \<Rightarrow> nat \<Rightarrow> nat" where
  "se_lev2 rc ws i j = load_nat ws (rc + 8 * i + 4 + j) 1"

definition se_nullize_cache :: "rank_select_se \<Rightarrow> rank_select_se" where
  "se_nullize_cache v = v\<lparr>se_rank_cache := None, se_sel0_cache := None, se_sel1_cache := None,
     se_max_rank0 := 0, se_max_rank1 := 0\<rparr>"

definition se_extend :: "febitvec \<Rightarrow> rank_select_se" where
  "se_extend v = febitvec.extend v (rank_select_se.fields None None None 0 0)"

definition se_init :: "heap_env \<Rightarrow> nat \<Rightarrow> bool \<Rightarrow> rank_select_se res" where
  "se_init env n val =
     bind_res (febitvec_init env n val) (\<lambda>v.
     bind_res (rank_select_check_overflow n) (\<lambda>_. Inr (se_extend v)))"

definition se_init_no_init :: "heap_env \<Rightarrow> nat \<Rightarrow> rank_select_se res" where
  "se_init_no_init env n =
     bind_res (rank_select_check_overflow n) (\<lambda>_.
     bind_res (febitvec_resize_no_init env febitvec_null n) (\<lambda>v. Inr (se_extend v)))"

definition se_init_reserve :: "heap_env \<Rightarrow> nat \<Rightarrow> rank_select_se res" where
  "se_init_reserve env n =
     bind_res (rank_select_check_overflow n) (\<lambda>_.
     bind_res (febitvec_reserve env febitvec_null n) (\<lambda>v. Inr (se_extend v)))"

definition se_copy_init :: "heap_env \<Rightarrow> rank_select_se \<Rightarrow> rank_select_se res" where
  "se_copy_init env y =
     bind_res (febitvec_reserve env febitvec_null (m_capacity y)) (\<lambda>v.
       let v = v\<lparr>m_size := m_size y,
                m_words := fold (\<lambda>i ws. ws[i := m_words y ! i]) [0..<m_capacity y div WordBits] (m_words v)\<rparr>
       in Inr ((se_extend v)\<lparr>se_rank_cache := se_rank_cache y, se_sel0_cache := se_sel0_cache y,
                se_sel1_cache := se_sel1_cache y, se_max_rank0 := se_max_rank0 y,
                se_max_rank1 := se_max_rank1 y\<rparr>))"

definition se_clear :: "rank_select_se \<Rightarrow> rank_select_se" where
  "se_clear v = febitvec_clear (se_nullize_cache v)"

definition se_erase_all :: "rank_select_se \<Rightarrow> rank_select_se" where
  "se_erase_all v = febitvec_erase_all (se_nullize_cache v)"

definition se_resize_fill :: "heap_env \<Rightarrow> rank_select_se \<Rightarrow> nat \<Rightarrow> bool \<Rightarrow> rank_select_se res" where
  "se_resize_fill env v newsize val = febitvec_resize_fill env (se_nullize_cache v) newsize val"

definition se_release :: "rank_select_se \<Rightarrow> rank_select_se" where
  "se_release v = febitvec_release (se_nullize_cache v)"

definition se_copy_assign :: "heap_env \<Rightarrow> rank_select_se \<Rightarrow> rank_select_se \<Rightarrow> rank_select_se res" where
  "se_copy_assign env x y = se_copy_init env y"

definition se_move :: "rank_select_se \<Rightarrow> rank_select_se \<times> rank_select_se" where
  "se_move y = (y, se_release y)"

definition se_swap :: "rank_select_se \<Rightarrow> rank_select_se \<Rightarrow> rank_select_se \<times> rank_select_se" where
  "se_swap x y = (y, x)"

definition se_shrink_to_fit :: "heap_env \<Rightarrow> rank_select_se \<Rightarrow> rank_select_se res" where
  "se_shrink_to_fit env v = febitvec_shrink_to_fit env v"

definition se_mem_size :: "rank_select_se \<Rightarrow> nat" where
  "se_mem_size v = m_capacity v div 8"

definition se_mmap_from :: "u64 list \<Rightarrow> rank_select_se" where
  "se_mmap_from base =
     (let len = 8 * length base;
          flags = load_bytes base (len - 8) 8;
          sz = unat (drop_bit 8 flags);
          ceiled_bits = align_up sz LineBits;
          nlines = ceiled_bits div LineBits;
          rank_cache = 8 * (ceiled_bits div WordBits);
          max_rank1 = se_lev1 rank_cache base nlines;
          max_rank0 = sz - max_rank1;
          select0_slots = (max_rank0 + LineBits - 1) div LineBits;
          select_index = rank_cache + 8 * (nlines + 1);
          (sel0, select_index) =
            (if flags AND push_bit 0 1 \<noteq> 0 then (Some select_index, select_index + 4 * (select0_slots + 1))
             else (None, select_index));
          sel1 = (if flags AND push_bit 1 1 \<noteq> 0 then Some select_index else None)
      in \<lparr>m_words = base, m_null = False, m_size = sz, m_capacity = len * 8,
          se_rank_cache = Some rank_cache, se_sel0_cache = sel0, se_sel1_cache = sel1,
          se_max_rank0 = max_rank0, se_max_rank1 = max_rank1\<rparr>)"

section \<open>Building the cache\<close>

text \<open>One word of a line, then one line.\<close>

definition se_cache_word :: "nat \<Rightarrow> nat \<Rightarrow> nat \<Rightarrow> u64 list \<times> nat \<Rightarrow> u64 list \<times> nat" where
  "se_cache_word rc i j st =
     (case st of (ws, r) \<Rightarrow>
       let ws = store_nat ws (rc + 8 * i + 4 + j) 1 r in (ws, r + fast_popcount64 (ws ! (i * 4 + j))))"

definition se_cache_line :: "nat \<Rightarrow> nat \<Rightarrow> u64 list \<times> nat \<Rightarrow> u64 list \<times> nat" where
  "se_cache_line rc i st =
     (case st of (ws, Rank1) \<Rightarrow>
       let ws = store_nat ws (rc + 8 * i) 4 Rank1;
           (ws, r) = fold (se_cache_word rc i) [0..<4] (ws, 0)
       in (ws, Rank1 + r))"

text \<open>
  The second half makes room for the select tables and the flags, fills them, and sets the fields.
  The result is \<open>None\<close> when it does not return: the loops that fill the tables stop only at a line
  whose rank is large enough.
\<close>

definition se_build_select ::
  "heap_env \<Rightarrow> rank_select_se \<Rightarrow> bool \<Rightarrow> bool \<Rightarrow> nat \<Rightarrow> nat \<Rightarrow> nat \<Rightarrow> rank_select_se res option" where
  "se_build_select env v speed_select0 speed_select1 rc nlines Rank1 =
     (let max_rank0 = m_size v - Rank1;
          max_rank1 = Rank1;
          select0_slots = (max_rank0 + LineBits - 1) div LineBits;
          select1_slots = (max_rank1 + LineBits - 1) div LineBits;
          u32_slots = ((if speed_select0 then select0_slots + 1 else 0)
                     + (if speed_select1 then select1_slots + 1 else 0) + 1) div 2 * 2;
          flag_as_u32_slots = 2
      in case febitvec_reserve env v (m_capacity v + 32 * (u32_slots + flag_as_u32_slots)) of
        Inl e \<Rightarrow> Some (Inl e)
      | Inr v \<Rightarrow>
        (case sel_tables (\<lambda>ws k. k * LineBits - se_lev1 rc ws k) (se_lev1 rc) LineBits 4 speed_select0 speed_select1
            (rc + 8 * (nlines + 1)) select0_slots select1_slots nlines (m_words v) of
          None \<Rightarrow> None
        | Some (ws, sel0, sel1) \<Rightarrow>
          let flags = push_bit 8 (of_nat (m_size v)) OR push_bit 1 (of_bool speed_select1)
                      OR push_bit 0 (of_bool speed_select0);
              ws = store_bytes ws (8 * (m_capacity v div WordBits) - 8) 8 flags
          in Some (Inr (v\<lparr>m_words := ws, se_rank_cache := Some rc, se_sel0_cache := sel0,
               se_sel1_cache := sel1, se_max_rank0 := max_rank0, se_max_rank1 := max_rank1\<rparr>))))"

definition se_build_cache ::
  "heap_env \<Rightarrow> rank_select_se \<Rightarrow> bool \<Rightarrow> bool \<Rightarrow> rank_select_se res option" where
  "se_build_cache env v speed_select0 speed_select1 =
     (if rank_select_check_overflow (m_size v) \<noteq> Inr () then Some (Inl Abort)
      else if m_null v then Some (Inr v)
      else case se_shrink_to_fit env v of Inl e \<Rightarrow> Some (Inl e) | Inr v \<Rightarrow>
        let ceiled_bits = align_up (m_size v) LineBits;
            nlines = ceiled_bits div LineBits
        in case febitvec_reserve env v (ceiled_bits + (nlines + 1) * 8 * 8) of
          Inl e \<Rightarrow> Some (Inl e)
        | Inr v \<Rightarrow>
          let ws = bits_range_set0 (m_words v) (m_size v) ceiled_bits;
              rc = 8 * (ceiled_bits div WordBits);
              (ws, Rank1) = fold (se_cache_line rc) [0..<nlines] (ws, 0);
              ws = store_nat ws (rc + 8 * nlines) 4 Rank1;
              ws = store_nat ws (rc + 8 * nlines + 4) 4 0
          in se_build_select env (v\<lparr>m_words := ws\<rparr>) speed_select0 speed_select1 rc nlines Rank1)"

section \<open>Queries\<close>

definition se_rc :: "rank_select_se \<Rightarrow> nat" where "se_rc v = the (se_rank_cache v)"

definition se_fast_rank1 :: "u64 list \<Rightarrow> (nat \<Rightarrow> nat) \<Rightarrow> (nat \<Rightarrow> nat \<Rightarrow> nat) \<Rightarrow> nat \<Rightarrow> nat" where
  "se_fast_rank1 bits lev1 lev2 bitpos =
     lev1 (bitpos div LineBits) + lev2 (bitpos div LineBits) (bitpos div 64 mod 4) +
     fast_popcount_trail (bits ! (bitpos div 64)) (bitpos mod 64)"

definition se_fast_rank0 :: "u64 list \<Rightarrow> (nat \<Rightarrow> nat) \<Rightarrow> (nat \<Rightarrow> nat \<Rightarrow> nat) \<Rightarrow> nat \<Rightarrow> nat" where
  "se_fast_rank0 bits lev1 lev2 bitpos = bitpos - se_fast_rank1 bits lev1 lev2 bitpos"

definition se_rank1 :: "rank_select_se \<Rightarrow> nat \<Rightarrow> nat" where
  "se_rank1 v bitpos =
     se_lev1 (se_rc v) (m_words v) (bitpos div LineBits) +
     se_lev2 (se_rc v) (m_words v) (bitpos div LineBits) (bitpos div 64 mod 4) +
     fast_popcount_trail (m_words v ! (bitpos div 64)) (bitpos mod 64)"

definition se_rank0 :: "rank_select_se \<Rightarrow> nat \<Rightarrow> nat" where
  "se_rank0 v bitpos = bitpos - se_rank1 v bitpos"

text \<open>The end of every select: from the line before \<open>lo\<close> to the bit, by the ranks of its words.\<close>

definition se_pick1 :: "u64 list \<Rightarrow> (nat \<Rightarrow> nat) \<Rightarrow> (nat \<Rightarrow> nat \<Rightarrow> nat) \<Rightarrow> nat \<Rightarrow> nat \<Rightarrow> nat" where
  "se_pick1 bits lev1 lev2 lo Rank1 =
     (let pBit64 = (\<lambda>k. bits ! (LineWords * (lo - 1) + k));
          line_bitpos = (lo - 1) * LineBits;
          hit = lev1 (lo - 1);
          lev2 = lev2 (lo - 1)
      in if Rank1 < hit + lev2 2
         then if Rank1 < hit + lev2 1
              then line_bitpos + UintSelect1 (pBit64 0) (Rank1 - hit)
              else line_bitpos + 64 * 1 + UintSelect1 (pBit64 1) (Rank1 - (hit + lev2 1))
         else if Rank1 < hit + lev2 3
              then line_bitpos + 64 * 2 + UintSelect1 (pBit64 2) (Rank1 - (hit + lev2 2))
              else line_bitpos + 64 * 3 + UintSelect1 (pBit64 3) (Rank1 - (hit + lev2 3)))"

definition se_pick0 :: "u64 list \<Rightarrow> (nat \<Rightarrow> nat) \<Rightarrow> (nat \<Rightarrow> nat \<Rightarrow> nat) \<Rightarrow> nat \<Rightarrow> nat \<Rightarrow> nat" where
  "se_pick0 bits lev1 lev2 lo Rank0 =
     (let pBit64 = (\<lambda>k. bits ! (LineWords * (lo - 1) + k));
          line_bitpos = (lo - 1) * LineBits;
          hit = LineBits * (lo - 1) - lev1 (lo - 1);
          lev2 = lev2 (lo - 1)
      in if Rank0 < hit + 64 * 2 - lev2 2
         then if Rank0 < hit + 64 * 1 - lev2 1
              then line_bitpos + UintSelect1 (NOT (pBit64 0)) (Rank0 - hit)
              else line_bitpos + 64 * 1 + UintSelect1 (NOT (pBit64 1)) (Rank0 - (hit + 64 * 1 - lev2 1))
         else if Rank0 < hit + 64 * 3 - lev2 3
              then line_bitpos + 64 * 2 + UintSelect1 (NOT (pBit64 2)) (Rank0 - (hit + 64 * 2 - lev2 2))
              else line_bitpos + 64 * 3 + UintSelect1 (NOT (pBit64 3)) (Rank0 - (hit + 64 * 3 - lev2 3)))"

text \<open>The line of a rank: by the select table if there is one, else in the whole range.\<close>

definition se_select0_upper_bound_line_safe :: "rank_select_se \<Rightarrow> nat \<Rightarrow> nat" where
  "se_select0_upper_bound_line_safe v Rank0 =
     (let (lo, hi) = (case se_sel0_cache v of
            Some s \<Rightarrow> (load_nat (m_words v) (s + 4 * (Rank0 div LineBits)) 4,
                       load_nat (m_words v) (s + 4 * (Rank0 div LineBits + 1)) 4)
          | None \<Rightarrow> (0, (m_size v + LineBits + 1) div LineBits))
      in upper_bound_loop (\<lambda>mid. LineBits * mid - se_lev1 (se_rc v) (m_words v) mid) lo hi Rank0)"

definition se_select1_upper_bound_line_safe :: "rank_select_se \<Rightarrow> nat \<Rightarrow> nat" where
  "se_select1_upper_bound_line_safe v Rank1 =
     (let (lo, hi) = (case se_sel1_cache v of
            Some s \<Rightarrow> (load_nat (m_words v) (s + 4 * (Rank1 div LineBits)) 4,
                       load_nat (m_words v) (s + 4 * (Rank1 div LineBits + 1)) 4)
          | None \<Rightarrow> (0, (m_size v + LineBits + 1) div LineBits))
      in upper_bound_loop (se_lev1 (se_rc v) (m_words v)) lo hi Rank1)"

definition se_select0 :: "rank_select_se \<Rightarrow> nat \<Rightarrow> nat" where
  "se_select0 v Rank0 =
     (let lo = se_select0_upper_bound_line_safe v Rank0
      in se_pick0 (m_words v) (se_lev1 (se_rc v) (m_words v)) (se_lev2 (se_rc v) (m_words v)) lo Rank0)"

definition se_select1 :: "rank_select_se \<Rightarrow> nat \<Rightarrow> nat" where
  "se_select1 v Rank1 =
     (let lo = se_select1_upper_bound_line_safe v Rank1
      in se_pick1 (m_words v) (se_lev1 (se_rc v) (m_words v)) (se_lev2 (se_rc v) (m_words v)) lo Rank1)"

text \<open>
  The static versions get the arrays as arguments; on a short range they scan line by line, without
  looking at its end.
\<close>

definition se_select0_upper_bound_line :: "(nat \<Rightarrow> nat) \<Rightarrow> (nat \<Rightarrow> nat) \<Rightarrow> nat \<Rightarrow> nat option" where
  "se_select0_upper_bound_line sel0 lev1 Rank0 =
     (let lo = sel0 (Rank0 div LineBits); hi = sel0 (Rank0 div LineBits + 1); f = (\<lambda>k. LineBits * k - lev1 k) in
      if hi - lo < 32 then scan_above f lo Rank0 else Some (upper_bound_loop f lo hi Rank0))"

definition se_select1_upper_bound_line :: "(nat \<Rightarrow> nat) \<Rightarrow> (nat \<Rightarrow> nat) \<Rightarrow> nat \<Rightarrow> nat option" where
  "se_select1_upper_bound_line sel1 lev1 Rank1 =
     (let lo = sel1 (Rank1 div LineBits); hi = sel1 (Rank1 div LineBits + 1) in
      if hi - lo < 32 then scan_above lev1 lo Rank1 else Some (upper_bound_loop lev1 lo hi Rank1))"

definition se_fast_select0 ::
  "u64 list \<Rightarrow> (nat \<Rightarrow> nat) \<Rightarrow> (nat \<Rightarrow> nat) \<Rightarrow> (nat \<Rightarrow> nat \<Rightarrow> nat) \<Rightarrow> nat \<Rightarrow> nat option" where
  "se_fast_select0 bits sel0 lev1 lev2 Rank0 =
     map_option (\<lambda>lo. se_pick0 bits lev1 lev2 lo Rank0) (se_select0_upper_bound_line sel0 lev1 Rank0)"

definition se_fast_select1 ::
  "u64 list \<Rightarrow> (nat \<Rightarrow> nat) \<Rightarrow> (nat \<Rightarrow> nat) \<Rightarrow> (nat \<Rightarrow> nat \<Rightarrow> nat) \<Rightarrow> nat \<Rightarrow> nat option" where
  "se_fast_select1 bits sel1 lev1 lev2 Rank1 =
     map_option (\<lambda>lo. se_pick1 bits lev1 lev2 lo Rank1) (se_select1_upper_bound_line sel1 lev1 Rank1)"

definition se_isall0 :: "rank_select_se \<Rightarrow> bool" where "se_isall0 v \<longleftrightarrow> se_max_rank1 v = 0"

definition se_isall1 :: "rank_select_se \<Rightarrow> bool" where "se_isall1 v \<longleftrightarrow> se_max_rank0 v = 0"

definition se_excess1 :: "rank_select_se \<Rightarrow> nat \<Rightarrow> u64" where
  "se_excess1 v bp = 2 * of_nat (se_rank1 v bp) - of_nat bp"

section \<open>A built dictionary\<close>

definition se_cache_ok :: "nat \<Rightarrow> u64 list \<Rightarrow> nat \<Rightarrow> bool" where
  "se_cache_ok rc ws n \<longleftrightarrow>
     (\<forall>i\<le>n. se_lev1 rc ws i = bcount (wbit ws) 0 (256 * i)) \<and>
     (\<forall>i<n. \<forall>j<4. se_lev2 rc ws i j = bcount (wbit ws) (256 * i) (256 * i + 64 * j)) \<and>
     se_lev2 rc ws n 0 = 0"

definition se_sel0_ok :: "rank_select_se \<Rightarrow> bool" where
  "se_sel0_ok v \<longleftrightarrow> (\<forall>s. se_sel0_cache v = Some s \<longrightarrow>
     sel_table_ok (\<lambda>k. 256 * k - se_lev1 (se_rc v) (m_words v) k) 256 (\<lambda>j. load_nat (m_words v) (s + 4 * j) 4)
       (ceiled_div (se_max_rank0 v) 256) (simple_lines v))"

definition se_sel1_ok :: "rank_select_se \<Rightarrow> bool" where
  "se_sel1_ok v \<longleftrightarrow> (\<forall>s. se_sel1_cache v = Some s \<longrightarrow>
     sel_table_ok (se_lev1 (se_rc v) (m_words v)) 256 (\<lambda>j. load_nat (m_words v) (s + 4 * j) 4)
       (ceiled_div (se_max_rank1 v) 256) (simple_lines v))"

definition se_ok :: "rank_select_se \<Rightarrow> bool" where
  "se_ok v \<longleftrightarrow> febitvec_ok v \<and> m_size v < 2 ^ 32 \<and>
     se_rank_cache v = Some (32 * simple_lines v) \<and>
     (\<forall>i. m_size v \<le> i \<longrightarrow> i < 256 * simple_lines v \<longrightarrow> \<not> wbit (m_words v) i) \<and>
     se_cache_ok (32 * simple_lines v) (m_words v) (simple_lines v) \<and>
     se_max_rank1 v = bcount (wbit (m_words v)) 0 (m_size v) \<and>
     se_max_rank0 v = m_size v - se_max_rank1 v \<and> se_sel0_ok v \<and> se_sel1_ok v"

lemma se_ok_rc: "se_ok v \<Longrightarrow> se_rc v = 32 * simple_lines v"
  by (simp add: se_ok_def se_rc_def)

lemma se_ok_lev1:
  "se_ok v \<Longrightarrow> i \<le> simple_lines v \<Longrightarrow> se_lev1 (se_rc v) (m_words v) i = bcount (wbit (m_words v)) 0 (256 * i)"
  by (simp add: se_ok_rc) (simp add: se_ok_def se_cache_ok_def)

lemma se_ok_lev2:
  "se_ok v \<Longrightarrow> i < simple_lines v \<Longrightarrow> j < 4 \<Longrightarrow>
   se_lev2 (se_rc v) (m_words v) i j = bcount (wbit (m_words v)) (256 * i) (256 * i + 64 * j)"
  by (simp add: se_ok_rc) (simp add: se_ok_def se_cache_ok_def)

lemma se_rank1_correct:
  assumes "se_ok v" and "p \<le> m_size v"
  shows "se_rank1 v p = bcount (wbit (m_words v)) 0 p"
proof -
  let ?P = "wbit (m_words v)"
  define i j k where "i = p div 256" and "j = p div 64 mod 4" and "k = p mod 64"
  have i: "i \<le> simple_lines v" using assms(2) lines_cover [of v] unfolding i_def by linarith
  have "i = p div 64 div 4" by (simp add: i_def div_mult2_eq [symmetric])
  then have q: "p div 64 = 4 * i + j" by (simp add: j_def)
  then have p1: "p = 256 * i + 64 * j + k" using mult_div_mod_eq [of 64 p] unfolding k_def by linarith
  have kj: "k < 64" "j < 4" by (simp_all add: k_def j_def)
  note p = p1 q kj
  have "se_lev2 (se_rc v) (m_words v) i j = bcount ?P (256 * i) (256 * i + 64 * j)"
  proof (cases "i < simple_lines v")
    case True
    then show ?thesis using se_ok_lev2 [OF assms(1)] p(4) by simp
  next
    case False
    then have "i = simple_lines v" using i by simp
    then have "i = simple_lines v" "j = 0" using p(1) assms(2) lines_cover [of v] by linarith+
    then show ?thesis using assms(1) se_ok_rc [OF assms(1)] by (simp add: se_ok_def se_cache_ok_def)
  qed
  moreover have "bcount ?P 0 p = bcount ?P 0 (256 * i) + bcount ?P (256 * i) (256 * i + 64 * j) +
      bcount ?P (64 * (4 * i + j)) (64 * (4 * i + j) + k)"
    using bcount_split [of 0 "256 * i" p ?P] bcount_split [of "256 * i" "256 * i + 64 * j" p ?P] p(1) by (simp add: algebra_simps)
  moreover have "bcount ?P (64 * (4 * i + j)) (64 * (4 * i + j) + k) = fast_popcount_trail (m_words v ! (p div 64)) k"
    using bcount_wbit_word [of k "m_words v" "4 * i + j"] p(2,3) by (simp add: fast_popcount_trail_correct)
  ultimately show ?thesis
    using se_ok_lev1 [OF assms(1) i] unfolding se_rank1_def LineBits_def i_def [symmetric] j_def [symmetric] k_def [symmetric]
    by simp
qed

lemma se_fast_rank1_eq:
  "se_fast_rank1 (m_words v) (se_lev1 (se_rc v) (m_words v)) (se_lev2 (se_rc v) (m_words v)) p = se_rank1 v p"
  by (simp add: se_fast_rank1_def se_rank1_def)

lemma se_pick1_correct:
  assumes ok: "se_ok v" and l: "l < simple_lines v"
    and r: "bcount (wbit (m_words v)) 0 (256 * l) \<le> r" "r < bcount (wbit (m_words v)) 0 (256 * Suc l)"
  shows "is_select (wbit (m_words v)) r
    (se_pick1 (m_words v) (se_lev1 (se_rc v) (m_words v)) (se_lev2 (se_rc v) (m_words v)) (Suc l) r)"
proof -
  let ?P = "wbit (m_words v)"
  define c where "c = (\<lambda>t. bcount ?P (64 * 4 * l) (64 * 4 * l + 64 * t))"
  define h where "h = bcount ?P 0 (64 * 4 * l)"
  have lev: "se_lev1 (se_rc v) (m_words v) l = h" "\<And>j. j < 4 \<Longrightarrow> se_lev2 (se_rc v) (m_words v) l j = c j"
    using se_ok_lev1 [OF ok, of l] se_ok_lev2 [OF ok l] l by (simp_all add: c_def h_def)
  have ends: "h \<le> r" "r < h + c 4" "c 0 = 0"
    using r bcount_split [of 0 "256 * l" "256 * l + 256" ?P] by (simp_all add: c_def h_def algebra_simps)
  have pick: "is_select ?P r (l * 256 + 64 * t + UintSelect1 (m_words v ! (4 * l + t)) (r - (h + c t)))"
    if "h + c t \<le> r" "r < h + c (t + 1)" for t
  proof -
    have "is_select ?P r (64 * 4 * l + 64 * t + UintSelect1 (m_words v ! (4 * l + t)) (r - (h + c t)))"
      unfolding c_def h_def
      by (rule pick_word, simp only: wbit_word) (use that in \<open>simp_all add: c_def h_def\<close>)
    then show ?thesis by (simp add: mult.commute)
  qed
  have P0: "is_select ?P r (l * 256 + UintSelect1 (m_words v ! (4 * l + 0)) (r - h))" if "r < h + c 1"
    using pick [of 0] that ends by simp
  have P1: "is_select ?P r (l * 256 + 64 * 1 + UintSelect1 (m_words v ! (4 * l + 1)) (r - (h + c 1)))"
    if "\<not> r < h + c 1" "r < h + c 2"
    using pick [of 1] that by (simp add: numeral_2_eq_2)
  have P2: "is_select ?P r (l * 256 + 64 * 2 + UintSelect1 (m_words v ! (4 * l + 2)) (r - (h + c 2)))"
    if "\<not> r < h + c 2" "r < h + c 3"
    using pick [of 2] that by simp
  have P3: "is_select ?P r (l * 256 + 64 * 3 + UintSelect1 (m_words v ! (4 * l + 3)) (r - (h + c 3)))"
    if "\<not> r < h + c 3"
    using pick [of 3] that ends by simp
  have L: "se_lev2 (se_rc v) (m_words v) l 1 = c 1" "se_lev2 (se_rc v) (m_words v) l 2 = c 2"
    "se_lev2 (se_rc v) (m_words v) l 3 = c 3" by (rule lev(2), simp)+
  have W: "256 div 64 = (4::nat)" by simp
  show ?thesis
    unfolding se_pick1_def Let_def LineBits_def LineWords_def WordBits_def diff_Suc_1 lev(1) L W
    using P0 P1 P2 P3 by (simp only: if_split) blast
qed

lemma se_pick0_correct:
  assumes ok: "se_ok v" and l: "l < simple_lines v"
    and r: "bcount (\<lambda>i. \<not> wbit (m_words v) i) 0 (256 * l) \<le> r"
      "r < bcount (\<lambda>i. \<not> wbit (m_words v) i) 0 (256 * Suc l)"
  shows "is_select (\<lambda>i. \<not> wbit (m_words v) i) r
    (se_pick0 (m_words v) (se_lev1 (se_rc v) (m_words v)) (se_lev2 (se_rc v) (m_words v)) (Suc l) r)"
proof -
  let ?P = "\<lambda>i. \<not> wbit (m_words v) i"
  define c where "c = (\<lambda>t. bcount ?P (64 * 4 * l) (64 * 4 * l + 64 * t))"
  define h where "h = bcount ?P 0 (64 * 4 * l)"
  have lev1: "256 * l - se_lev1 (se_rc v) (m_words v) l = h"
    using se_ok_lev1 [OF ok, of l] l by (simp add: h_def bcount_not)
  have lev2: "h + 64 * j - se_lev2 (se_rc v) (m_words v) l j = h + c j" if "j < 4" for j
    using se_ok_lev2 [OF ok l that] bcount_le [of "wbit (m_words v)" "256 * l" "256 * l + 64 * j"]
    by (simp add: c_def bcount_not)
  have ends: "h \<le> r" "r < h + c 4" "c 0 = 0"
    using r bcount_split [of 0 "256 * l" "256 * l + 256" ?P] by (simp_all add: c_def h_def algebra_simps)
  have pick: "is_select ?P r (l * 256 + 64 * t + UintSelect1 (NOT (m_words v ! (4 * l + t))) (r - (h + c t)))"
    if "h + c t \<le> r" "r < h + c (t + 1)" for t
  proof -
    have "is_select ?P r (64 * 4 * l + 64 * t + UintSelect1 (NOT (m_words v ! (4 * l + t))) (r - (h + c t)))"
      unfolding c_def h_def
      by (rule pick_word, simp only: wbit_not_word) (use that in \<open>simp_all add: c_def h_def\<close>)
    then show ?thesis by (simp add: mult.commute)
  qed
  have P0: "is_select ?P r (l * 256 + UintSelect1 (NOT (m_words v ! (4 * l + 0))) (r - h))" if "r < h + c 1"
    using pick [of 0] that ends by simp
  have P1: "is_select ?P r (l * 256 + 64 * 1 + UintSelect1 (NOT (m_words v ! (4 * l + 1))) (r - (h + c 1)))"
    if "\<not> r < h + c 1" "r < h + c 2"
    using pick [of 1] that by (simp add: numeral_2_eq_2)
  have P2: "is_select ?P r (l * 256 + 64 * 2 + UintSelect1 (NOT (m_words v ! (4 * l + 2))) (r - (h + c 2)))"
    if "\<not> r < h + c 2" "r < h + c 3"
    using pick [of 2] that by simp
  have P3: "is_select ?P r (l * 256 + 64 * 3 + UintSelect1 (NOT (m_words v ! (4 * l + 3))) (r - (h + c 3)))"
    if "\<not> r < h + c 3"
    using pick [of 3] that ends by simp
  have L: "h + 64 * 1 - se_lev2 (se_rc v) (m_words v) l 1 = h + c 1"
    "h + 64 * 2 - se_lev2 (se_rc v) (m_words v) l 2 = h + c 2"
    "h + 64 * 3 - se_lev2 (se_rc v) (m_words v) l 3 = h + c 3" by (rule lev2, simp)+
  have W: "256 div 64 = (4::nat)" by simp
  show ?thesis
    unfolding se_pick0_def Let_def LineBits_def LineWords_def WordBits_def diff_Suc_1 lev1 L W
    using P0 P1 P2 P3 by (simp only: if_split) blast
qed

section \<open>Select\<close>

lemma se_max_ranks:
  assumes "se_ok v"
  shows "se_max_rank1 v \<le> bcount (wbit (m_words v)) 0 (256 * simple_lines v)"
    and "se_max_rank0 v = bcount (\<lambda>i. \<not> wbit (m_words v) i) 0 (m_size v)"
    and "se_max_rank0 v \<le> bcount (\<lambda>i. \<not> wbit (m_words v) i) 0 (256 * simple_lines v)"
proof -
  show "se_max_rank1 v \<le> bcount (wbit (m_words v)) 0 (256 * simple_lines v)"
    using assms lines_cover [of v] by (auto simp: se_ok_def intro: bcount_mono)
  show z: "se_max_rank0 v = bcount (\<lambda>i. \<not> wbit (m_words v) i) 0 (m_size v)"
    using assms by (simp add: se_ok_def bcount_not)
  show "se_max_rank0 v \<le> bcount (\<lambda>i. \<not> wbit (m_words v) i) 0 (256 * simple_lines v)"
    unfolding z using lines_cover [of v] by (intro bcount_mono) auto
qed

lemma se_lev1_zeros:
  "se_ok v \<Longrightarrow> k \<le> simple_lines v \<Longrightarrow>
   256 * k - se_lev1 (se_rc v) (m_words v) k = bcount (\<lambda>i. \<not> wbit (m_words v) i) 0 (256 * k)"
  by (simp add: se_ok_lev1 bcount_not)

lemma se_sel1_range:
  assumes "se_ok v" and "r < se_max_rank1 v" and "se_sel1_cache v = Some s"
    and "first_above (se_lev1 (se_rc v) (m_words v)) r p" and "p \<le> simple_lines v"
  shows "load_nat (m_words v) (s + 4 * (r div 256)) 4 \<le> p \<and> p \<le> load_nat (m_words v) (s + 4 * (r div 256 + 1)) 4 \<and>
    load_nat (m_words v) (s + 4 * (r div 256 + 1)) 4 \<le> simple_lines v + 1"
proof -
  have t: "sel_table_ok (se_lev1 (se_rc v) (m_words v)) 256 (\<lambda>j. load_nat (m_words v) (s + 4 * j) 4)
       (ceiled_div (se_max_rank1 v) 256) (simple_lines v)"
    using assms(1,3) unfolding se_ok_def se_sel1_ok_def by blast
  have "r div 256 < ceiled_div (se_max_rank1 v) 256" using assms(2) by (intro slots_cover) simp
  from sel_table_encloses [OF t _ assms(4,5) this] show ?thesis by simp
qed

lemma se_sel0_range:
  assumes "se_ok v" and "r < se_max_rank0 v" and "se_sel0_cache v = Some s"
    and "first_above (\<lambda>k. 256 * k - se_lev1 (se_rc v) (m_words v) k) r p" and "p \<le> simple_lines v"
  shows "load_nat (m_words v) (s + 4 * (r div 256)) 4 \<le> p \<and> p \<le> load_nat (m_words v) (s + 4 * (r div 256 + 1)) 4 \<and>
    load_nat (m_words v) (s + 4 * (r div 256 + 1)) 4 \<le> simple_lines v + 1"
proof -
  have t: "sel_table_ok (\<lambda>k. 256 * k - se_lev1 (se_rc v) (m_words v) k) 256 (\<lambda>j. load_nat (m_words v) (s + 4 * j) 4)
       (ceiled_div (se_max_rank0 v) 256) (simple_lines v)"
    using assms(1,3) unfolding se_ok_def se_sel0_ok_def by blast
  have "r div 256 < ceiled_div (se_max_rank0 v) 256" using assms(2) by (intro slots_cover) simp
  from sel_table_encloses [OF t _ assms(4,5) this] show ?thesis by simp
qed

lemma se_whole_range:
  "p \<le> simple_lines v \<Longrightarrow> 0 \<le> p \<and> p \<le> (m_size v + 256 + 1) div 256 \<and> (m_size v + 256 + 1) div 256 \<le> simple_lines v + 1"
  unfolding simple_lines_def by (rule whole_range) simp_all

lemma se_select1_correct:
  assumes ok: "se_ok v" and r: "r < se_max_rank1 v"
  shows "is_select (wbit (m_words v)) r (se_select1 v r)"
proof -
  let ?f = "se_lev1 (se_rc v) (m_words v)"
  have top: "r < bcount (wbit (m_words v)) 0 (256 * simple_lines v)" using se_max_ranks(1) [OF ok] r by simp
  have "\<exists>l < simple_lines v. se_select1_upper_bound_line_safe v r = Suc l \<and>
    bcount (wbit (m_words v)) 0 (256 * l) \<le> r \<and> r < bcount (wbit (m_words v)) 0 (256 * Suc l)"
  proof (cases "se_sel1_cache v")
    case None
    show ?thesis
      using line_search [of "simple_lines v" ?f, OF se_ok_lev1 [OF ok] top se_whole_range] None
      by (auto simp: se_select1_upper_bound_line_safe_def LineBits_def)
  next
    case (Some s)
    show ?thesis
      using line_search [of "simple_lines v" ?f, OF se_ok_lev1 [OF ok] top se_sel1_range [OF ok r Some]] Some
      by (auto simp: se_select1_upper_bound_line_safe_def LineBits_def)
  qed
  then obtain l where l: "l < simple_lines v" "se_select1_upper_bound_line_safe v r = Suc l"
    "bcount (wbit (m_words v)) 0 (256 * l) \<le> r" "r < bcount (wbit (m_words v)) 0 (256 * Suc l)" by blast
  from se_pick1_correct [OF ok l(1,3,4)] l(2) show ?thesis by (simp add: se_select1_def Let_def)
qed

lemma se_select0_correct:
  assumes ok: "se_ok v" and r: "r < se_max_rank0 v"
  shows "is_select (\<lambda>i. \<not> wbit (m_words v) i) r (se_select0 v r)"
proof -
  let ?f = "\<lambda>k. 256 * k - se_lev1 (se_rc v) (m_words v) k" and ?Q = "\<lambda>i. \<not> wbit (m_words v) i"
  have top: "r < bcount ?Q 0 (256 * simple_lines v)" using se_max_ranks(3) [OF ok] r by simp
  have "\<exists>l < simple_lines v. se_select0_upper_bound_line_safe v r = Suc l \<and>
    bcount ?Q 0 (256 * l) \<le> r \<and> r < bcount ?Q 0 (256 * Suc l)"
  proof (cases "se_sel0_cache v")
    case None
    show ?thesis
      using line_search [of "simple_lines v" ?f, OF se_lev1_zeros [OF ok] top se_whole_range] None
      by (auto simp: se_select0_upper_bound_line_safe_def LineBits_def)
  next
    case (Some s)
    show ?thesis
      using line_search [of "simple_lines v" ?f, OF se_lev1_zeros [OF ok] top se_sel0_range [OF ok r Some]] Some
      by (auto simp: se_select0_upper_bound_line_safe_def LineBits_def)
  qed
  then obtain l where l: "l < simple_lines v" "se_select0_upper_bound_line_safe v r = Suc l"
    "bcount ?Q 0 (256 * l) \<le> r" "r < bcount ?Q 0 (256 * Suc l)" by blast
  from se_pick0_correct [OF ok l(1,3,4)] l(2) show ?thesis by (simp add: se_select0_def Let_def)
qed

interpretation se256: rank_select_dict se_ok m_size "\<lambda>v. wbit (m_words v)" se_rank1 se_rank0
    se_select1 se_select0 se_max_rank1 se_max_rank0
  by unfold_locales
    (simp_all add: se_rank1_correct se_select1_correct se_select0_correct se_rank0_def bcount_not,
      simp_all add: se_ok_def)

text \<open>The static functions, given the arrays of a built dictionary, return, and what the members return.\<close>

lemma se_fast_select1_eq:
  assumes ok: "se_ok v" and r: "r < se_max_rank1 v" and s: "se_sel1_cache v = Some s"
  shows "se_fast_select1 (m_words v) (\<lambda>j. load_nat (m_words v) (s + 4 * j) 4) (se_lev1 (se_rc v) (m_words v))
    (se_lev2 (se_rc v) (m_words v)) r = Some (se_select1 v r)"
proof -
  have top: "r < bcount (wbit (m_words v)) 0 (256 * simple_lines v)" using se_max_ranks(1) [OF ok] r by simp
  show ?thesis
    using line_search [of "simple_lines v" "se_lev1 (se_rc v) (m_words v)", OF se_ok_lev1 [OF ok] top se_sel1_range [OF ok r s]] s
    by (auto simp: se_fast_select1_def se_select1_upper_bound_line_def se_select1_def
        se_select1_upper_bound_line_safe_def LineBits_def Let_def)
qed

lemma se_fast_select0_eq:
  assumes ok: "se_ok v" and r: "r < se_max_rank0 v" and s: "se_sel0_cache v = Some s"
  shows "se_fast_select0 (m_words v) (\<lambda>j. load_nat (m_words v) (s + 4 * j) 4) (se_lev1 (se_rc v) (m_words v))
    (se_lev2 (se_rc v) (m_words v)) r = Some (se_select0 v r)"
proof -
  let ?f = "\<lambda>k. 256 * k - se_lev1 (se_rc v) (m_words v) k" and ?Q = "\<lambda>i. \<not> wbit (m_words v) i"
  have top: "r < bcount ?Q 0 (256 * simple_lines v)" using se_max_ranks(3) [OF ok] r by simp
  show ?thesis
    using line_search [of "simple_lines v" ?f, OF se_lev1_zeros [OF ok] top se_sel0_range [OF ok r s]] s
    by (auto simp: se_fast_select0_def se_select0_upper_bound_line_def se_select0_def
        se_select0_upper_bound_line_safe_def LineBits_def Let_def)
qed

section \<open>Building the cache\<close>

lemma se_cache_word_fold:
  fixes ws0 :: "u64 list"
  assumes len: "rc + 8 * i + 8 \<le> 8 * length ws0" and rc: "32 * (i + 1) \<le> rc" and m: "m \<le> 4"
  shows "case fold (se_cache_word rc i) [0..<m] (ws0, 0) of (ws, r) \<Rightarrow>
    same_below (rc + 8 * i + 4) ws0 ws \<and> r = bcount (wbit ws0) (256 * i) (256 * i + 64 * m) \<and>
    (\<forall>j<m. se_lev2 rc ws i j = bcount (wbit ws0) (256 * i) (256 * i + 64 * j))"
  using m
proof (induction m)
  case 0
  then show ?case by simp
next
  case (Suc m)
  obtain ws r where st: "fold (se_cache_word rc i) [0..<m] (ws0, 0) = (ws, r)" by fastforce
  from Suc st have IH: "same_below (rc + 8 * i + 4) ws0 ws" "r = bcount (wbit ws0) (256 * i) (256 * i + 64 * m)"
    "\<And>j. j < m \<Longrightarrow> se_lev2 rc ws i j = bcount (wbit ws0) (256 * i) (256 * i + 64 * j)" by auto
  have lw: "length ws = length ws0" using IH(1) by (simp add: same_below_def)
  define us where "us = store_nat ws (rc + 8 * i + 4 + m) 1 r"
  have off: "rc + 8 * i + 4 + m + 1 \<le> 8 * length ws" using len Suc.prems lw by simp
  have sb: "same_below (rc + 8 * i + 4) ws0 us"
    unfolding us_def using IH(1) same_below_store [of 1 "rc + 8 * i + 4 + m" ws "rc + 8 * i + 4" r] off
    by (auto elim: same_below_trans)
  have r: "r < 2 ^ 8"
    using IH(2) bcount_le [of "wbit ws0" "256 * i" "256 * i + 64 * m"] Suc.prems by simp
  have word: "us ! (i * 4 + m) = ws0 ! (i * 4 + m)"
    by (rule same_below_nth [OF sb]) (use rc Suc.prems in simp)
  have "bcount (wbit ws0) (256 * i) (256 * i + 64 * Suc m) =
      bcount (wbit ws0) (256 * i) (256 * i + 64 * m) + popcount (ws0 ! (i * 4 + m))"
    using bcount_split [of "256 * i" "256 * i + 64 * m" "256 * i + 64 * m + 64" "wbit ws0"]
      bcount_wbit_word [of 64 ws0 "i * 4 + m"]
    by (simp add: bcount_popcount algebra_simps)
  then have sum: "r + fast_popcount64 (us ! (i * 4 + m)) = bcount (wbit ws0) (256 * i) (256 * i + 64 * Suc m)"
    using IH(2) word by (simp add: fast_popcount64_correct)
  have lev: "se_lev2 rc us i j = bcount (wbit ws0) (256 * i) (256 * i + 64 * j)" if "j < Suc m" for j
  proof (cases "j = m")
    case True
    then show ?thesis using off r IH(2) unfolding us_def se_lev2_def by (simp add: load_store_nat_same)
  next
    case False
    with that have "se_lev2 rc us i j = se_lev2 rc ws i j"
      using off unfolding us_def se_lev2_def by (intro load_store_nat_other) auto
    with False that IH(3) show ?thesis by simp
  qed
  have res: "fold (se_cache_word rc i) [0..<Suc m] (ws0, 0) = (us, r + fast_popcount64 (us ! (i * 4 + m)))"
    using st by (simp add: se_cache_word_def Let_def us_def)
  show ?case unfolding res prod.case using sb sum lev by blast
qed

lemma se_cache_line_fold:
  fixes ws0 :: "u64 list"
  assumes len: "32 * n + 8 * n \<le> 8 * length ws0" and k: "k \<le> n"
    and small: "\<And>i. i \<le> n \<Longrightarrow> bcount (wbit ws0) 0 (256 * i) < 2 ^ 32"
  shows "case fold (se_cache_line (32 * n)) [0..<k] (ws0, 0) of (ws, R) \<Rightarrow>
    same_below (32 * n) ws0 ws \<and> R = bcount (wbit ws0) 0 (256 * k) \<and>
    (\<forall>i<k. se_lev1 (32 * n) ws i = bcount (wbit ws0) 0 (256 * i) \<and>
      (\<forall>j<4. se_lev2 (32 * n) ws i j = bcount (wbit ws0) (256 * i) (256 * i + 64 * j)))"
  using k
proof (induction k)
  case 0
  then show ?case by simp
next
  case (Suc k)
  let ?rc = "32 * n"
  obtain ws R where st: "fold (se_cache_line ?rc) [0..<k] (ws0, 0) = (ws, R)" by fastforce
  from Suc st have IH: "same_below ?rc ws0 ws" "R = bcount (wbit ws0) 0 (256 * k)"
    "\<And>i. i < k \<Longrightarrow> se_lev1 ?rc ws i = bcount (wbit ws0) 0 (256 * i)"
    "\<And>i j. i < k \<Longrightarrow> j < 4 \<Longrightarrow> se_lev2 ?rc ws i j = bcount (wbit ws0) (256 * i) (256 * i + 64 * j)" by auto
  have lw: "length ws = length ws0" using IH(1) by (simp add: same_below_def)
  define us where "us = store_nat ws (?rc + 8 * k) 4 R"
  have off: "?rc + 8 * k + 8 \<le> 8 * length ws" using len Suc.prems lw by simp
  have su: "same_below (?rc + 8 * k) ws us"
    unfolding us_def using off by (intro same_below_store) auto
  obtain xs r where sx: "fold (se_cache_word ?rc k) [0..<4] (us, 0) = (xs, r)" by fastforce
  have "?rc + 8 * k + 8 \<le> 8 * length us" using off by (simp add: us_def)
  from se_cache_word_fold [OF this _ order_refl] sx Suc.prems
  have W: "same_below (?rc + 8 * k + 4) us xs" "r = bcount (wbit us) (256 * k) (256 * k + 256)"
    "\<And>j. j < 4 \<Longrightarrow> se_lev2 ?rc xs k j = bcount (wbit us) (256 * k) (256 * k + 64 * j)" by auto
  have sx2: "same_below (?rc + 8 * k) ws xs" using su same_below_mono [OF W(1), of "?rc + 8 * k"] by (auto elim: same_below_trans)
  have all: "same_below ?rc ws0 xs" using IH(1) same_below_mono [OF sx2, of ?rc] by (auto elim: same_below_trans)
  have bu: "wbit us i = wbit ws0 i" if "i < 256 * n" for i
    using that IH(1) su by (simp add: same_below_def)
  have cong: "bcount (wbit us) (256 * k) m = bcount (wbit ws0) (256 * k) m" if "m \<le> 256 * (k + 1)" for m
    using that Suc.prems bu by (intro bcount_cong) auto
  have R: "R + r = bcount (wbit ws0) 0 (256 * Suc k)"
    using IH(2) W(2) cong [of "256 * k + 256"] bcount_split [of 0 "256 * k" "256 * k + 256" "wbit ws0"]
    by (simp add: add.commute)
  have lev1: "se_lev1 ?rc xs i = bcount (wbit ws0) 0 (256 * i)" if "i < Suc k" for i
  proof (cases "i = k")
    case True
    have "se_lev1 ?rc xs k = se_lev1 ?rc us k"
      unfolding se_lev1_def by (rule same_below_load [OF W(1)]) auto
    also have "\<dots> = R"
      using off small [of k] Suc.prems IH(2) unfolding us_def se_lev1_def by (intro load_store_nat_same) auto
    finally show ?thesis using True IH(2) by simp
  next
    case False
    with that have "se_lev1 ?rc xs i = se_lev1 ?rc ws i"
      unfolding se_lev1_def by (intro same_below_load [OF sx2]) auto
    with False that IH(3) show ?thesis by simp
  qed
  have lev2: "se_lev2 ?rc xs i j = bcount (wbit ws0) (256 * i) (256 * i + 64 * j)" if "i < Suc k" "j < 4" for i j
  proof (cases "i = k")
    case True
    then show ?thesis using W(3) [OF that(2)] cong [of "256 * k + 64 * j"] that(2) by simp
  next
    case False
    with that have "se_lev2 ?rc xs i j = se_lev2 ?rc ws i j"
      unfolding se_lev2_def by (intro same_below_load [OF sx2]) auto
    with False that IH(4) show ?thesis by simp
  qed
  have res: "fold (se_cache_line ?rc) [0..<Suc k] (ws0, 0) = (xs, R + r)"
    using st sx by (simp add: se_cache_line_def Let_def us_def)
  show ?case unfolding res prod.case using all R lev1 lev2 by blast
qed

text \<open>The cache is a function of the memory up to its end.\<close>

lemma se_cache_ok_cong:
  assumes "se_cache_ok (32 * n) ws n" and "\<And>i. i < 8 * (32 * n + 8 * (n + 1)) \<Longrightarrow> wbit ws' i = wbit ws i"
  shows "se_cache_ok (32 * n) ws' n"
proof -
  have ld: "load_nat ws' pos m = load_nat ws pos m" if "m \<le> 8" "pos + m \<le> 32 * n + 8 * (n + 1)" for pos m
    using that by (intro load_nat_cong assms(2)) auto
  have bc: "bcount (wbit ws') a b = bcount (wbit ws) a b" if "b \<le> 256 * n" for a b
    using that by (intro bcount_cong assms(2)) auto
  have "se_lev1 (32 * n) ws' i = se_lev1 (32 * n) ws i" if "i \<le> n" for i
    unfolding se_lev1_def using that by (intro ld) auto
  moreover have "se_lev2 (32 * n) ws' i j = se_lev2 (32 * n) ws i j" if "i \<le> n" "j < 4" for i j
    unfolding se_lev2_def using that by (intro ld) auto
  moreover have "bcount (wbit ws') 0 (256 * i) = bcount (wbit ws) 0 (256 * i)" if "i \<le> n" for i
    using that by (intro bc) simp
  moreover have "bcount (wbit ws') (256 * i) (256 * i + 64 * j) = bcount (wbit ws) (256 * i) (256 * i + 64 * j)"
    if "i < n" "j < 4" for i j
    using that by (intro bc) simp
  ultimately show ?thesis using assms(1) by (simp add: se_cache_ok_def)
qed

text \<open>
  What the two passes over the lines leave: the ranks up to and with the sentinel behind the last line.
\<close>

lemma se_cache_sentinel:
  fixes ws0 :: "u64 list"
  assumes len: "32 * n + 8 * (n + 1) \<le> 8 * length ws0"
    and small: "\<And>i. i \<le> n \<Longrightarrow> bcount (wbit ws0) 0 (256 * i) < 2 ^ 32"
    and st: "fold (se_cache_line (32 * n)) [0..<n] (ws0, 0) = (ws, R)"
    and xs: "xs = store_nat (store_nat ws (32 * n + 8 * n) 4 R) (32 * n + 8 * n + 4) 4 0"
  shows "same_below (32 * n) ws0 xs" and "R = bcount (wbit ws0) 0 (256 * n)" and "se_cache_ok (32 * n) xs n"
proof -
  have len1: "32 * n + 8 * n \<le> 8 * length ws0" using len by simp
  have f: "same_below (32 * n) ws0 ws" "R = bcount (wbit ws0) 0 (256 * n)"
    "\<And>i. i < n \<Longrightarrow> se_lev1 (32 * n) ws i = bcount (wbit ws0) 0 (256 * i)"
    "\<And>i j. i < n \<Longrightarrow> j < 4 \<Longrightarrow> se_lev2 (32 * n) ws i j = bcount (wbit ws0) (256 * i) (256 * i + 64 * j)"
    using se_cache_line_fold [OF len1 order_refl small] unfolding st prod.case by auto
  have lw: "length ws = length ws0" using f(1) by (simp add: same_below_def)
  let ?us = "store_nat ws (32 * n + 8 * n) 4 R"
  have su: "same_below (32 * n + 8 * n) ws ?us" using len lw by (intro same_below_store) auto
  have sx: "same_below (32 * n + 8 * n + 4) ?us xs" unfolding xs using len lw by (intro same_below_store) auto
  have swx: "same_below (32 * n + 8 * n) ws xs"
    using su same_below_mono [OF sx, of "32 * n + 8 * n"] by (auto elim: same_below_trans)
  show all: "same_below (32 * n) ws0 xs"
    using f(1) same_below_mono [OF swx, of "32 * n"] by (auto elim: same_below_trans)
  show "R = bcount (wbit ws0) 0 (256 * n)" by (rule f(2))
  have bc: "bcount (wbit xs) a b = bcount (wbit ws0) a b" if "b \<le> 256 * n" for a b
    using that all by (intro bcount_cong) (auto simp: same_below_def)
  have lev1: "se_lev1 (32 * n) xs i = bcount (wbit ws0) 0 (256 * i)" if "i \<le> n" for i
  proof (cases "i = n")
    case True
    have "se_lev1 (32 * n) xs n = se_lev1 (32 * n) ?us n"
      unfolding se_lev1_def by (rule same_below_load [OF sx]) auto
    also have "\<dots> = R" using len lw small [of n] f(2) unfolding se_lev1_def by (intro load_store_nat_same) auto
    finally show ?thesis using True f(2) by simp
  next
    case False
    with that have "se_lev1 (32 * n) xs i = se_lev1 (32 * n) ws i"
      unfolding se_lev1_def by (intro same_below_load [OF swx]) auto
    with False that f(3) show ?thesis by simp
  qed
  have lev2: "se_lev2 (32 * n) xs i j = bcount (wbit ws0) (256 * i) (256 * i + 64 * j)" if "i < n" "j < 4" for i j
  proof -
    from that have "se_lev2 (32 * n) xs i j = se_lev2 (32 * n) ws i j"
      unfolding se_lev2_def by (intro same_below_load [OF swx]) auto
    with that f(4) show ?thesis by simp
  qed
  have "load_nat xs (32 * n + 8 * n + 4) 4 = 0"
    unfolding xs using len lw by (intro load_store_nat_same) auto
  then have "load_nat xs (32 * n + 8 * n + 4) 1 = 0" by (rule load_nat_prefix_0) simp_all
  then have "se_lev2 (32 * n) xs n 0 = 0" by (simp add: se_lev2_def)
  then show "se_cache_ok (32 * n) xs n" using lev1 lev2 bc by (auto simp: se_cache_ok_def)
qed

text \<open>Where the parts of the cache are: enough to find them again from the words alone.\<close>

definition se_placed :: "bool \<Rightarrow> bool \<Rightarrow> rank_select_se \<Rightarrow> bool" where
  "se_placed b0 b1 d \<longleftrightarrow>
     (let sel = 32 * simple_lines d + 8 * (simple_lines d + 1) in
      se_sel0_cache d = (if b0 then Some sel else None) \<and>
      se_sel1_cache d =
        (if b1 then Some (sel + (if b0 then 4 * (ceiled_div (se_max_rank0 d) 256 + 1) else 0)) else None) \<and>
      load_bytes (m_words d) (8 * length (m_words d) - 8) 8 =
        push_bit 8 (of_nat (m_size d)) OR push_bit 1 (of_bool b1) OR push_bit 0 (of_bool b0))"

lemma se_finish_ok:
  fixes c :: rank_select_se and b0 b1 :: bool
  defines "n \<equiv> simple_lines c" and "R \<equiv> bcount (wbit (m_words c)) 0 (m_size c)"
  defines "s0 \<equiv> ceiled_div (m_size c - R) 256" and "s1 \<equiv> ceiled_div R 256"
  assumes ok: "febitvec_ok c" "m_size c < 2 ^ 32" "se_cache_ok (32 * n) (m_words c) n"
    and tail: "\<And>i. m_size c \<le> i \<Longrightarrow> i < 256 * n \<Longrightarrow> \<not> wbit (m_words c) i"
    and len: "32 * n + 8 * (n + 1) + (if b0 then 4 * (s0 + 1) else 0) + (if b1 then 4 * (s1 + 1) else 0) + 8
      \<le> 8 * length (m_words c)"
    and fl: "fl = push_bit 8 (of_nat (m_size c)) OR push_bit 1 (of_bool b1) OR push_bit 0 (of_bool b0)"
  shows "\<exists>ws sel0 sel1. sel_tables (\<lambda>ws k. k * 256 - se_lev1 (32 * n) ws k) (se_lev1 (32 * n)) 256 4 b0 b1
       (32 * n + 8 * (n + 1)) s0 s1 n (m_words c) = Some (ws, sel0, sel1) \<and>
     (\<forall>d. d = c\<lparr>m_words := store_bytes ws (8 * length (m_words c) - 8) 8 fl, se_rank_cache := Some (32 * n),
        se_sel0_cache := sel0, se_sel1_cache := sel1, se_max_rank0 := m_size c - R, se_max_rank1 := R\<rparr> \<longrightarrow>
       se_ok d \<and> febitvec_bits d = febitvec_bits c \<and> se_placed b0 b1 d)"
proof -
  let ?sel = "32 * n + 8 * (n + 1)"
  let ?g1 = "\<lambda>k. bcount (wbit (m_words c)) 0 (256 * k)" and ?g0 = "\<lambda>k. k * 256 - bcount (wbit (m_words c)) 0 (256 * k)"
  define sel1 where "sel1 = ?sel + (if b0 then 4 * (s0 + 1) else 0)"
  have size: "m_size c \<le> 256 * n" by (simp add: n_def lines_cover)
  have R: "?g1 n = R" unfolding R_def using size tail by (intro bcount_zero_tail) auto
  have lev: "se_lev1 (32 * n) us k = ?g1 k" if "same_below ?sel (m_words c) us" "k \<le> n" for us k
  proof -
    have "se_lev1 (32 * n) us k = se_lev1 (32 * n) (m_words c) k"
      unfolding se_lev1_def using that(2) by (intro same_below_load [OF that(1)]) auto
    with ok(3) that(2) show ?thesis by (simp add: se_cache_ok_def)
  qed
  have "n < 2 ^ 32" using ok(2) size lines_cover [of c] unfolding n_def simple_lines_def ceiled_div_def by linarith
  then have n: "n < 2 ^ (8 * 4)" by simp
  have t0: "256 * j \<le> ?g0 n" if "j < s0" for j
    using slots_top [of 256 j "m_size c - R"] that size R by (simp add: s0_def)
  have t1: "256 * j \<le> ?g1 n" if "j < s1" for j
    using slots_top [of 256 j R] that R by (simp add: s1_def)
  have l: "sel1 + (if b1 then 4 * (s1 + 1) else 0) \<le> 8 * length (m_words c)" using len by (simp add: sel1_def)
  obtain ws where ws: "sel_tables (\<lambda>ws k. k * 256 - se_lev1 (32 * n) ws k) (se_lev1 (32 * n)) 256 4 b0 b1 ?sel s0 s1 n (m_words c)
      = Some (ws, if b0 then Some ?sel else None, if b1 then Some sel1 else None)"
    and sb: "same_below ?sel (m_words c) ws"
    and tab0: "b0 \<Longrightarrow> sel_table_ok ?g0 256 (\<lambda>j. load_nat ws (?sel + 4 * j) 4) s0 n"
    and tab1: "b1 \<Longrightarrow> sel_table_ok ?g1 256 (\<lambda>j. load_nat ws (sel1 + 4 * j) 4) s1 n"
    using sel_tables_ok [OF sel1_def, of "m_words c" n "\<lambda>ws k. k * 256 - se_lev1 (32 * n) ws k" ?g0 "se_lev1 (32 * n)" ?g1
        b1 s1 256, OF _ _ n l t0 t1] lev by auto
  define xs where "xs = store_bytes ws (8 * length (m_words c) - 8) 8 fl"
  have lw: "length ws = length (m_words c)" "length xs = length (m_words c)" using sb by (simp_all add: xs_def same_below_def)
  have keep: "wbit xs i = wbit ws i" if "i < 64 * length (m_words c) - 64" for i
    using that lw len unfolding xs_def by (subst wbit_store_bytes) auto
  have below: "wbit xs i = wbit (m_words c) i" if "i < 8 * ?sel" for i
    using that keep [of i] len sb by (simp add: same_below_def)
  have ld: "load_nat xs pos 4 = load_nat ws pos 4" if "pos + 4 + 8 \<le> 8 * length (m_words c)" for pos
    using that by (intro load_nat_cong keep) auto
  define d where "d = c\<lparr>m_words := xs, se_rank_cache := Some (32 * n), se_sel0_cache := if b0 then Some ?sel else None,
    se_sel1_cache := if b1 then Some sel1 else None, se_max_rank0 := m_size c - R, se_max_rank1 := R\<rparr>"
  have dl: "simple_lines d = n" by (simp add: d_def n_def simple_lines_def)
  have fok: "febitvec_ok d" using ok(1) lw by (auto simp: d_def febitvec_ok_def)
  have cache: "se_cache_ok (32 * n) xs n" by (rule se_cache_ok_cong [OF ok(3) below]) auto
  have Rd: "bcount (wbit xs) 0 (m_size c) = R" unfolding R_def using size below by (intro bcount_cong) auto
  have levx: "se_lev1 (32 * n) xs k = ?g1 k" if "k \<le> n" for k
    using that below lw by (intro lev) (auto simp: same_below_def)
  have "se_sel0_ok d" unfolding se_sel0_ok_def
  proof (intro allI impI)
    fix s assume "se_sel0_cache d = Some s"
    then have b: b0 and s: "s = ?sel" by (auto simp: d_def split: if_splits)
    have "sel_table_ok (\<lambda>k. 256 * k - se_lev1 (32 * n) xs k) 256 (\<lambda>j. load_nat xs (?sel + 4 * j) 4) s0 n"
      using len b by (intro sel_table_cong [OF tab0 [OF b]] ld) (auto simp: levx)
    then show "sel_table_ok (\<lambda>k. 256 * k - se_lev1 (se_rc d) (m_words d) k) 256 (\<lambda>j. load_nat (m_words d) (s + 4 * j) 4)
       (ceiled_div (se_max_rank0 d) 256) (simple_lines d)"
      by (simp add: dl s se_rc_def s0_def) (simp add: d_def)
  qed
  moreover have "se_sel1_ok d" unfolding se_sel1_ok_def
  proof (intro allI impI)
    fix s assume "se_sel1_cache d = Some s"
    then have b: b1 and s: "s = sel1" by (auto simp: d_def split: if_splits)
    have "sel_table_ok (se_lev1 (32 * n) xs) 256 (\<lambda>j. load_nat xs (sel1 + 4 * j) 4) s1 n"
      using len b by (intro sel_table_cong [OF tab1 [OF b]] ld) (auto simp: levx sel1_def)
    then show "sel_table_ok (se_lev1 (se_rc d) (m_words d)) 256 (\<lambda>j. load_nat (m_words d) (s + 4 * j) 4)
       (ceiled_div (se_max_rank1 d) 256) (simple_lines d)"
      by (simp add: dl s se_rc_def s1_def) (simp add: d_def)
  qed
  ultimately have sok: "se_ok d"
    using fok ok(2) cache Rd tail below size by (simp add: se_ok_def dl) (simp add: d_def)
  have bits: "febitvec_bits d = febitvec_bits c"
    using below size by (intro febitvec_bits_eqI) (simp_all add: d_def febitvec_bits_nth)
  have "take_bit 64 fl = fl" by (rule bit_word_eqI) (simp add: bit_take_bit_iff)
  then have "load_bytes xs (8 * length xs - 8) 8 = fl"
    using len lw unfolding xs_def by (simp add: load_store_same)
  then have "se_placed b0 b1 d"
    unfolding se_placed_def dl fl Let_def by (simp add: d_def sel1_def s0_def)
  with sok bits ws show ?thesis by (auto simp: d_def xs_def)
qed

text \<open>The second half on a cache of ranks, and then the whole.\<close>

lemma se_build_select_ok:
  fixes b :: rank_select_se and b0 b1 :: bool
  defines "n \<equiv> simple_lines b" and "R \<equiv> bcount (wbit (m_words b)) 0 (m_size b)"
  assumes ok: "febitvec_ok b" "m_size b < 2 ^ 32" "se_cache_ok (32 * n) (m_words b) n"
    and tail: "\<And>i. m_size b \<le> i \<Longrightarrow> i < 256 * n \<Longrightarrow> \<not> wbit (m_words b) i"
    and len: "32 * n + 8 * (n + 1) \<le> 8 * length (m_words b)" and env: "\<not> has_valgrind env"
  shows "case se_build_select env b b0 b1 (32 * n) n R of None \<Rightarrow> False | Some (Inl e) \<Rightarrow> e = Bad_alloc
    | Some (Inr d) \<Rightarrow> se_ok d \<and> febitvec_bits d = febitvec_bits b \<and> se_placed b0 b1 d"
proof -
  define s0 s1 where "s0 = ceiled_div (m_size b - R) 256" and "s1 = ceiled_div R 256"
  define u where "u = ((if b0 then s0 + 1 else 0) + (if b1 then s1 + 1 else 0) + 1) div 2 * 2"
  have run: "se_build_select env b b0 b1 (32 * n) n R =
    (case febitvec_reserve env b (m_capacity b + 32 * (u + 2)) of Inl e \<Rightarrow> Some (Inl e)
     | Inr c \<Rightarrow> (case sel_tables (\<lambda>ws k. k * 256 - se_lev1 (32 * n) ws k) (se_lev1 (32 * n)) 256 4 b0 b1
         (32 * n + 8 * (n + 1)) s0 s1 n (m_words c) of None \<Rightarrow> None
       | Some (ws, sel0, sel1) \<Rightarrow> Some (Inr (c\<lparr>m_words := store_bytes ws (8 * (m_capacity c div 64) - 8) 8
           (push_bit 8 (of_nat (m_size c)) OR push_bit 1 (of_bool b1) OR push_bit 0 (of_bool b0)),
           se_rank_cache := Some (32 * n), se_sel0_cache := sel0, se_sel1_cache := sel1,
           se_max_rank0 := m_size b - R, se_max_rank1 := R\<rparr>))))"
    unfolding se_build_select_def LineBits_def WordBits_def Let_def s0_def s1_def u_def ceiled_div_def by (rule refl)
  show ?thesis
  proof (cases "febitvec_reserve env b (m_capacity b + 32 * (u + 2))")
    case (Inl e)
    then show ?thesis unfolding run using febitvec_reserve_error [OF Inl] by simp
  next
    case c: (Inr c)
    note cok = febitvec_reserve_ok [OF ok(1) c]
    note cw = febitvec_reserve_words [OF ok(1) c env]
    have cs: "m_size c = m_size b" "simple_lines c = n" using cok(2) by (simp_all add: n_def simple_lines_def)
    have capc: "m_capacity c = 64 * length (m_words c)" using cok(1) by (rule febitvec_ok_cap)
    have bx: "wbit (m_words c) i = wbit (m_words b) i" if "i < 8 * (32 * n + 8 * (n + 1))" for i
      using cw that len by simp
    have size: "m_size b \<le> 256 * n" by (simp add: n_def lines_cover)
    have Rc: "R = bcount (wbit (m_words c)) 0 (m_size b)"
      unfolding R_def using bx size by (intro bcount_cong) auto
    have fin: "32 * n + 8 * (n + 1) + (if b0 then 4 * (s0 + 1) else 0) + (if b1 then 4 * (s1 + 1) else 0) + 8
      \<le> 8 * length (m_words c)"
      using cok(3) capc febitvec_ok_cap [OF ok(1)] len unfolding u_def by (cases b0; cases b1) simp_all
    from se_finish_ok [of c b0 b1, unfolded cs Rc [symmetric] s0_def [symmetric] s1_def [symmetric],
        OF cok(1) ok(2) se_cache_ok_cong [OF ok(3) bx] _ fin refl]
    obtain ys sel0 sel1 where ys: "sel_tables (\<lambda>ws k. k * 256 - se_lev1 (32 * n) ws k) (se_lev1 (32 * n)) 256 4 b0 b1
         (32 * n + 8 * (n + 1)) s0 s1 n (m_words c) = Some (ys, sel0, sel1)"
      and D: "\<And>d. d = c\<lparr>m_words := store_bytes ys (8 * length (m_words c) - 8) 8
           (push_bit 8 (of_nat (m_size b)) OR push_bit 1 (of_bool b1) OR push_bit 0 (of_bool b0)),
           se_rank_cache := Some (32 * n), se_sel0_cache := sel0, se_sel1_cache := sel1,
           se_max_rank0 := m_size b - R, se_max_rank1 := R\<rparr> \<Longrightarrow>
        se_ok d \<and> febitvec_bits d = febitvec_bits c \<and> se_placed b0 b1 d"
      using bx tail by (auto simp del: One_nat_def)
    have "febitvec_bits c = febitvec_bits b"
      using bx cs size by (intro febitvec_bits_eqI) (auto simp: febitvec_bits_nth)
    moreover have "8 * (m_capacity c div 64) - 8 = 8 * length (m_words c) - 8" by (simp add: capc)
    ultimately show ?thesis
      unfolding run c sum.case ys option.case prod.case cs(1) using D [OF refl] by (simp only:)
  qed
qed

lemma se_build_cache_run:
  fixes v :: rank_select_se
  defines "n \<equiv> simple_lines v"
  assumes "febitvec_ok v" and "\<not> m_null v" and size: "m_size v < 2 ^ 32"
    and a: "febitvec_shrink_to_fit env v = Inr a" and b: "febitvec_reserve env a (256 * n + (n + 1) * 8 * 8) = Inr b"
  shows "\<exists>xs. febitvec_ok (b\<lparr>m_words := xs\<rparr>) \<and> m_size b = m_size v \<and> 32 * n + 8 * (n + 1) \<le> 8 * length xs \<and>
    (\<forall>i<256 * n. wbit xs i = (wbit (m_words v) i \<and> i < m_size v)) \<and> se_cache_ok (32 * n) xs n \<and>
    se_build_cache env v b0 b1 =
      se_build_select env (b\<lparr>m_words := xs\<rparr>) b0 b1 (32 * n) n (bcount (wbit xs) 0 (m_size v))"
proof -
  have ceil: "align_up (m_size v) 256 = 256 * n" by (simp add: align_up_def n_def simple_lines_def ceiled_div_def)
  have cover: "m_size v \<le> 256 * n" by (simp add: n_def lines_cover)
  note aok = febitvec_shrink_ok [OF assms(2) a assms(3)]
  have as: "m_size a = m_size v" using arg_cong [OF aok(2), of length] by simp
  note bok = febitvec_reserve_ok [OF aok(1) b]
  have bs: "m_size b = m_size v" using bok(2) as by simp
  have cap: "m_capacity b = 64 * length (m_words b)" using bok(1) by (rule febitvec_ok_cap)
  define ws0 where "ws0 = bits_range_set0 (m_words b) (m_size v) (256 * n)"
  have len: "32 * n + 8 * (n + 1) \<le> 8 * length ws0" using bok(3) cap by (simp add: ws0_def)
  have w0: "wbit ws0 i = (wbit (m_words v) i \<and> i < m_size v)" if "i < 256 * n" for i
  proof -
    have "wbit (m_words b) i = wbit (m_words v) i" if "i < m_size v"
      using that bok(4) [of i] aok(2) as febitvec_bits_nth [of i a] febitvec_bits_nth [of i v] by simp
    then show ?thesis using that len cover unfolding ws0_def by (subst wbit_bits_range_set0) auto
  qed
  have total: "bcount (wbit ws0) 0 (256 * n) = bcount (wbit ws0) 0 (m_size v)"
    using w0 cover by (intro bcount_zero_tail) auto
  have small: "bcount (wbit ws0) 0 (256 * i) < 2 ^ 32" if "i \<le> n" for i
    using line_rank_mono [OF that, of "wbit ws0" 256] total bcount_le [of "wbit ws0" 0 "m_size v"] size by simp
  obtain ws R where st: "fold (se_cache_line (32 * n)) [0..<n] (ws0, 0) = (ws, R)" by fastforce
  define xs where "xs = store_nat (store_nat ws (32 * n + 8 * n) 4 R) (32 * n + 8 * n + 4) 4 0"
  note C = se_cache_sentinel [OF len small st xs_def]
  have lx: "length xs = length (m_words b)" "\<And>i. i < 256 * n \<Longrightarrow> wbit xs i = wbit ws0 i"
    using C(1) by (simp_all add: same_below_def ws0_def)
  have "bcount (wbit ws0) 0 (m_size v) = bcount (wbit xs) 0 (m_size v)"
    using lx(2) cover by (intro bcount_cong) auto
  then have R: "bcount (wbit xs) 0 (m_size v) = R" using C(2) total by simp
  have "febitvec_ok (b\<lparr>m_words := xs\<rparr>)" using bok(1) lx(1) by (auto simp: febitvec_ok_def)
  moreover have "se_build_cache env v b0 b1 = se_build_select env (b\<lparr>m_words := xs\<rparr>) b0 b1 (32 * n) n R"
    using size assms(3) a b st
    unfolding se_build_cache_def rank_select_check_overflow_def se_shrink_to_fit_def LineBits_def WordBits_def Let_def
    by (simp add: as bs ceil ws0_def [symmetric] xs_def)
  ultimately show ?thesis using bs len w0 lx C(3) by (intro exI [of _ xs]) (simp add: R ws0_def)
qed

lemma se_build_cache_ok:
  assumes "febitvec_ok v" and "\<not> m_null v" and env: "\<not> has_valgrind env"
  shows "case se_build_cache env v b0 b1 of None \<Rightarrow> False | Some (Inl e) \<Rightarrow> e = Abort \<or> e = Bad_alloc
    | Some (Inr d) \<Rightarrow> se_ok d \<and> febitvec_bits d = febitvec_bits v \<and> se_placed b0 b1 d"
proof (cases "m_size v < 2 ^ 32")
  case False
  then show ?thesis by (simp add: se_build_cache_def rank_select_check_overflow_def)
next
  case size: True
  let ?n = "simple_lines v"
  have ceil: "align_up (m_size v) 256 = 256 * ?n" by (simp add: align_up_def simple_lines_def ceiled_div_def)
  show ?thesis
  proof (cases "febitvec_shrink_to_fit env v")
    case (Inl e)
    then show ?thesis using size assms(2) febitvec_shrink_error [OF Inl]
      by (simp add: se_build_cache_def rank_select_check_overflow_def se_shrink_to_fit_def)
  next
    case a: (Inr a)
    have as: "m_size a = m_size v" using febitvec_shrink_ok(2) [OF assms(1) a assms(2)] by (metis length_febitvec_bits)
    show ?thesis
    proof (cases "febitvec_reserve env a (256 * ?n + (?n + 1) * 8 * 8)")
      case (Inl e)
      then show ?thesis using size assms(2) a as febitvec_reserve_error [OF Inl]
        by (simp add: se_build_cache_def rank_select_check_overflow_def se_shrink_to_fit_def LineBits_def ceil Let_def)
    next
      case b: (Inr b)
      from se_build_cache_run [OF assms(1,2) size a b, of b0 b1] obtain xs where
        X: "febitvec_ok (b\<lparr>m_words := xs\<rparr>)" "m_size b = m_size v" "32 * ?n + 8 * (?n + 1) \<le> 8 * length xs"
          "\<And>i. i < 256 * ?n \<Longrightarrow> wbit xs i = (wbit (m_words v) i \<and> i < m_size v)" "se_cache_ok (32 * ?n) xs ?n"
        and run: "se_build_cache env v b0 b1 =
          se_build_select env (b\<lparr>m_words := xs\<rparr>) b0 b1 (32 * ?n) ?n (bcount (wbit xs) 0 (m_size v))" by blast
      have "simple_lines (b\<lparr>m_words := xs\<rparr>) = ?n" using X(2) by (simp add: simple_lines_def)
      moreover have "febitvec_bits (b\<lparr>m_words := xs\<rparr>) = febitvec_bits v"
        using X(2,4) lines_cover [of v] by (intro febitvec_bits_eqI) (auto simp: febitvec_bits_nth)
      ultimately show ?thesis
        using se_build_select_ok [of "b\<lparr>m_words := xs\<rparr>" env b0 b1] X size env
        by (auto simp: run split: option.splits sum.splits)
    qed
  qed
qed

section \<open>Mapping a built dictionary\<close>

lemma se_flags:
  fixes m :: nat and b0 b1 :: bool
  defines "fl \<equiv> push_bit 8 (of_nat m) OR push_bit 1 (of_bool b1) OR push_bit 0 (of_bool b0) :: u64"
  assumes "m < 2 ^ 56"
  shows "unat (drop_bit 8 fl) = m" and "fl AND push_bit 0 1 \<noteq> 0 \<longleftrightarrow> b0" and "fl AND push_bit 1 1 \<noteq> 0 \<longleftrightarrow> b1"
proof -
  have m: "unat (of_nat m :: u64) = m" using assms(2) by (simp add: unat_of_nat take_bit_nat_eq_self)
  have hi: "\<not> bit (of_nat m :: u64) k" if "56 \<le> k" for k
  proof -
    have "take_bit 56 m = m" using assms(2) by (simp add: take_bit_nat_eq_self)
    then have "\<not> bit m k" using that bit_take_bit_iff [of 56 m k] by simp
    then show ?thesis by (simp add: bit_simps)
  qed
  have "drop_bit 8 fl = of_nat m"
  proof (rule bit_word_eqI)
    fix k assume "k < LENGTH(64)"
    then show "bit (drop_bit 8 fl) k = bit (of_nat m :: u64) k"
      using hi [of k] by (cases "k < 56") (auto simp: fl_def bit_simps)
  qed
  then show "unat (drop_bit 8 fl) = m" using m by simp
  have 0: "bit fl 0 = b0" and 1: "bit fl 1 = b1" by (auto simp: fl_def bit_simps)
  show "fl AND push_bit 0 1 \<noteq> 0 \<longleftrightarrow> b0" using 0 by (simp add: and_one_eq odd_iff_mod_2_eq_one [symmetric] bit_0)
  have "fl AND push_bit 1 1 = (if bit fl 1 then push_bit 1 1 else 0)"
    by (rule bit_word_eqI) (auto simp: bit_simps)
  then show "fl AND push_bit 1 1 \<noteq> 0 \<longleftrightarrow> b1" using 1 by simp
qed

lemma se_total: "se_ok v \<Longrightarrow> bcount (wbit (m_words v)) 0 (256 * simple_lines v) = se_max_rank1 v"
  using lines_cover [of v] unfolding se_ok_def by (metis bcount_zero_tail)

lemma se_mmap_image:
  assumes ok: "se_ok d" and pl: "se_placed b0 b1 d" and "\<not> m_null d"
  shows "se_mmap_from (m_words d) = d"
proof -
  let ?n = "simple_lines d"
  have size: "m_size d < 2 ^ 56" using ok by (simp add: se_ok_def)
  have ceil: "align_up (m_size d) 256 = 256 * ?n" by (simp add: align_up_def simple_lines_def ceiled_div_def)
  have fl: "load_bytes (m_words d) (8 * length (m_words d) - 8) 8 =
      push_bit 8 (of_nat (m_size d)) OR push_bit 1 (of_bool b1) OR push_bit 0 (of_bool b0)"
    using pl by (simp add: se_placed_def Let_def)
  have R: "se_lev1 (32 * ?n) (m_words d) ?n = se_max_rank1 d"
    using se_ok_lev1 [OF ok order_refl] se_total [OF ok] by (simp add: se_ok_rc [OF ok])
  have cap: "m_capacity d = 64 * length (m_words d)" using ok by (simp add: se_ok_def febitvec_ok_cap)
  have f: "se_rank_cache d = Some (32 * ?n)" "se_max_rank0 d = m_size d - se_max_rank1 d"
    using ok by (simp_all add: se_ok_def)
  show ?thesis
    using pl assms(3) f cap
    unfolding se_mmap_from_def Let_def LineBits_def WordBits_def fl se_flags [OF size] ceil se_placed_def
    by (cases b0; cases b1) (simp_all add: R ceiled_div_def)
qed

text \<open>When memory is granted, only the size limit can stop the construction.\<close>

lemma se_build_cache_granted:
  assumes "febitvec_ok v" and "\<not> has_valgrind env" and "\<And>n. alloc_ok env n" and "m_size v < 2 ^ 32"
  shows "\<exists>d. se_build_cache env v b0 b1 = Some (Inr d)"
proof (cases "m_null v")
  case True
  then show ?thesis using assms(4) by (simp add: se_build_cache_def rank_select_check_overflow_def)
next
  case False
  obtain a where a: "febitvec_shrink_to_fit env v = Inr a" using febitvec_shrink_total [OF assms(3)] by blast
  obtain b where b: "febitvec_reserve env a (256 * simple_lines v + (simple_lines v + 1) * 8 * 8) = Inr b"
    using febitvec_reserve_total [OF assms(3)] by blast
  from se_build_cache_run [OF assms(1) False assms(4) a b, of b0 b1] obtain c R where
    run: "se_build_cache env v b0 b1 = se_build_select env c b0 b1 (32 * simple_lines v) (simple_lines v) R" by blast
  obtain e where e: "febitvec_reserve env c n = Inr (e n)" for n
    using febitvec_reserve_total [OF assms(3), of c] by metis
  have "se_build_cache env v b0 b1 \<noteq> Some (Inl x)" for x
    unfolding run se_build_select_def Let_def e sum.case by (auto split: option.splits prod.splits)
  then show ?thesis
    using se_build_cache_ok [OF assms(1) False assms(2), of b0 b1] by (auto split: option.splits sum.splits)
qed

section \<open>Properties\<close>

text \<open>C6: a dictionary built by \<open>rank_select_se\<close>, with or without select tables, keeps the bits of
  the vector; rank1 counts the ones and rank0 the zeros below a position, select1 and select0 find the r-th one and zero,
  and rank and select are inverse to each other.\<close>

theorem se_build_queries:
  assumes "febitvec_ok v" and "\<not> m_null v" and "\<not> has_valgrind env" and "se_build_cache env v b0 b1 = Some (Inr d)"
  shows "febitvec_bits d = febitvec_bits v \<and>
    (\<forall>p\<le>m_size d. se_rank1 d p = count_list (take p (febitvec_bits v)) True) \<and>
    (\<forall>r < se_max_rank1 d. se_select1 d r < m_size d \<and> febitvec_bits v ! se_select1 d r \<and>
       se_rank1 d (se_select1 d r) = r) \<and>
    (\<forall>r < se_max_rank0 d. se_select0 d r < m_size d \<and> \<not> febitvec_bits v ! se_select0 d r \<and>
       se_rank0 d (se_select0 d r) = r) \<and>
    (\<forall>i<m_size d. febitvec_bits v ! i \<longrightarrow> se_select1 d (se_rank1 d i) = i) \<and>
    (\<forall>p\<le>m_size d. se_rank0 d p = count_list (take p (febitvec_bits v)) False) \<and>
    se_max_rank1 d = count_list (febitvec_bits v) True \<and> se_max_rank0 d = count_list (febitvec_bits v) False"
proof -
  have ok: "se_ok d" "febitvec_bits d = febitvec_bits v"
    using se_build_cache_ok [OF assms(1-3), of b0 b1] assms(4) by simp_all
  show ?thesis
    using ok(1) se256.select1_less [OF ok(1)] se256.select0_less [OF ok(1)]
      se256.bits_select1 [OF ok(1)] se256.bits_select0 [OF ok(1)] se256.rank1_select1 [OF ok(1)]
      se256.rank0_select0 [OF ok(1)] se256.select1_rank1 [OF ok(1)] se256.rank1_count [OF ok(1)]
      se256.rank0_count [OF ok(1)] se256.max_rank1_count [OF ok(1)] se256.max_rank0_count [OF ok(1)]
    by (simp add: ok(2) [symmetric] febitvec_bits_nth count_list_bits count_all_bits)
qed

text \<open>C12: when memory is granted and the vector has less than 2^32 bits, building the caches of
  \<open>rank_select_se\<close> returns a dictionary: the loops that fill the select tables stop.\<close>

theorem se_build_total:
  assumes "febitvec_ok v" and "\<not> has_valgrind env" and "\<And>n. alloc_ok env n" and "m_size v < 2 ^ 32"
  shows "\<exists>d. se_build_cache env v b0 b1 = Some (Inr d)"
  using assms by (rule se_build_cache_granted)

definition se_sample :: rank_select_se where
  "se_sample = \<lparr>m_words = [0xB], m_null = False, m_size = 4, m_capacity = 64,
     se_rank_cache = None, se_sel0_cache = None, se_sel1_cache = None, se_max_rank0 = 0, se_max_rank1 = 0\<rparr>"

lemma se_sample_ok:
  "febitvec_ok se_sample" "\<not> m_null se_sample" "m_size se_sample < 2 ^ 32"
  "febitvec_bits se_sample = [True, True, False, True]" "\<not> has_valgrind plain_heap"
  by (code_simp, code_simp, simp add: se_sample_def, code_simp, simp add: plain_heap_def)

theorem se_build_total_witness:
  "\<exists>d. se_build_cache plain_heap se_sample True True = Some (Inr d)"
  by (rule se_build_total [OF se_sample_ok(1,5) plain_heap_ok se_sample_ok(3)])

theorem se_build_queries_witness:
  "\<exists>d. se_build_cache plain_heap se_sample True True = Some (Inr d) \<and>
     febitvec_bits d = [True, True, False, True] \<and> se_rank1 d 4 = 3"
proof -
  obtain d where d: "se_build_cache plain_heap se_sample True True = Some (Inr d)"
    using se_build_cache_granted [OF se_sample_ok(1,5) plain_heap_ok se_sample_ok(3)] by blast
  note q = se_build_queries [OF se_sample_ok(1,2,5) d]
  then have b: "febitvec_bits d = [True, True, False, True]" by (simp add: se_sample_ok)
  have "m_size d = 4" using length_febitvec_bits [of d] unfolding b by simp
  with q have "se_rank1 d 4 = count_list (take 4 [True, True, False, True]) True"
    by (simp add: se_sample_ok(4))
  with d b show ?thesis by simp
qed

text \<open>The memory of a built \<open>rank_select_se\<close>, mapped again, is the same dictionary: size, cache,
  select tables and maximal ranks are recovered from the words alone, for each choice of tables.\<close>

theorem se_mmap_roundtrip:
  assumes "febitvec_ok v" and "\<not> m_null v" and "\<not> has_valgrind env" and "se_build_cache env v b0 b1 = Some (Inr d)"
  shows "se_mmap_from (m_words d) = d\<lparr>m_null := False\<rparr> \<and> 8 * length (m_words d) = se_mem_size d"
proof -
  have ok: "se_ok d" "se_placed b0 b1 d"
    using se_build_cache_ok [OF assms(1-3), of b0 b1] assms(4) by simp_all
  have "se_ok (d\<lparr>m_null := False\<rparr>)" "se_placed b0 b1 (d\<lparr>m_null := False\<rparr>)"
    using ok by (auto simp: se_ok_def febitvec_ok_def simple_lines_def se_placed_def se_sel0_ok_def se_sel1_ok_def se_rc_def)
  from se_mmap_image [OF this] have "se_mmap_from (m_words d) = d\<lparr>m_null := False\<rparr>" by simp
  moreover have "8 * length (m_words d) = se_mem_size d"
    using ok by (simp add: se_ok_def se_mem_size_def febitvec_ok_cap)
  ultimately show ?thesis by blast
qed

theorem se_mmap_roundtrip_witness:
  "\<exists>d. se_build_cache plain_heap se_sample True False = Some (Inr d) \<and>
     se_mmap_from (m_words d) = d\<lparr>m_null := False\<rparr> \<and> 8 * length (m_words d) = se_mem_size d"
proof -
  obtain d where d: "se_build_cache plain_heap se_sample True False = Some (Inr d)"
    using se_build_cache_granted [OF se_sample_ok(1,5) plain_heap_ok se_sample_ok(3)] by blast
  with se_mmap_roundtrip [OF se_sample_ok(1,2,5) d] show ?thesis by blast
qed

section \<open>Building under valgrind\<close>

text \<open>
  With the environment variable \<open>Terark_hasValgrind\<close> set, \<open>reserve\<close> zeroes every word behind the
  bits, and the second \<open>reserve\<close> of the construction does so with the cache that has just been filled.
\<close>

lemma se_valgrind_words:
  assumes "febitvec_ok v" and "\<not> m_null v" and env: "has_valgrind env" "\<And>n. alloc_ok env n" and size: "m_size v < 2 ^ 32"
  shows "\<exists>d. se_build_cache env v False False = Some (Inr d) \<and> febitvec_bits d = febitvec_bits v \<and>
    se_rank_cache d = Some (32 * simple_lines v) \<and>
    (\<forall>i. 256 * simple_lines v \<le> i \<longrightarrow> i < 320 * simple_lines v + 64 \<longrightarrow> \<not> wbit (m_words d) i)"
proof -
  let ?n = "simple_lines v"
  obtain a where a: "febitvec_shrink_to_fit env v = Inr a" using febitvec_shrink_total [OF env(2)] by blast
  obtain b where b: "febitvec_reserve env a (256 * ?n + (?n + 1) * 8 * 8) = Inr b"
    using febitvec_reserve_total [OF env(2)] by blast
  from se_build_cache_run [OF assms(1,2) size a b, of False False] obtain xs R where
    X: "febitvec_ok (b\<lparr>m_words := xs\<rparr>)" "m_size b = m_size v" "32 * ?n + 8 * (?n + 1) \<le> 8 * length xs"
      "\<And>i. i < 256 * ?n \<Longrightarrow> wbit xs i = (wbit (m_words v) i \<and> i < m_size v)"
    and run: "se_build_cache env v False False =
      se_build_select env (b\<lparr>m_words := xs\<rparr>) False False (32 * ?n) ?n R" by blast
  let ?c = "m_capacity b + 64"
  have cap: "m_capacity b = 64 * length xs" using febitvec_ok_cap [OF X(1)] by simp
  then have al: "align_up ?c 64 = ?c" "?c div 64 = length xs + 1" by (simp_all add: align_up_def)
  obtain q where q: "realloc_words env xs (?c div 8) = Some q" using realloc_words_granted [OF env(2)] by blast
  define ws where "ws = valgrind_fill env (m_size v) ?c q"
  have "64 dvd ?c" "64 * length xs \<le> ?c" using cap by simp_all
  note r = realloc_bits [OF q this, where sz = "m_size v"]
  have lws: "length ws = length xs + 1" using r(1) cap by (simp add: ws_def)
  have res: "febitvec_reserve env (b\<lparr>m_words := xs\<rparr>) ?c = Inr (b\<lparr>m_words := ws, m_null := False, m_capacity := ?c\<rparr>)"
    using q X(2) by (simp add: febitvec_reserve_def AllocUnitBits_def al ws_def Let_def)
  define fl where "fl = (push_bit 8 (of_nat (m_size b)) :: u64)"
  have d: "se_build_cache env v False False = Some (Inr (b\<lparr>m_words := store_bytes ws (8 * length xs) 8 fl,
      m_null := False, m_capacity := ?c, se_rank_cache := Some (32 * ?n), se_sel0_cache := None, se_sel1_cache := None,
      se_max_rank0 := m_size b - R, se_max_rank1 := R\<rparr>))" (is "_ = Some (Inr ?d)")
    unfolding run se_build_select_def Let_def sel_tables_def using res
    by (simp add: WordBits_def al fl_def)
  have store: "wbit (m_words ?d) i = wbit ws i" if "i < 64 * length xs" for i
    using that lws by (simp add: wbit_store_bytes)
  have cover: "m_size v \<le> 256 * ?n" by (rule lines_cover)
  have zero: "\<not> wbit ws i" if "256 * ?n \<le> i" "i < 64 * length xs" for i
  proof -
    have "(m_size v + 64 - 1) div 64 \<le> (64 * (4 * ?n) + 63) div 64" using cover by (intro div_le_mono) simp
    also have "\<dots> = 4 * ?n" by simp
    also have "\<dots> \<le> i div 64" using that by simp
    finally have "ceiled_div (m_size v) 64 \<le> i div 64" "i div 64 < length q"
      using that lws by (simp_all add: ceiled_div_def ws_def)
    moreover have "i div 64 < ?c div 64" using that(2) al(2) by (simp add: less_mult_imp_div_less mult.commute less_Suc_eq)
    ultimately show ?thesis using env(1) by (simp add: wbit_def ws_def valgrind_fill_nth)
  qed
  have "febitvec_bits ?d = febitvec_bits v"
  proof (rule febitvec_bits_eqI)
    fix i assume "i < m_size ?d"
    then have i: "i < m_size v" "i < 64 * length xs" using X(2,3) cover by simp_all
    then have "wbit (m_words ?d) i = wbit xs i" using store r(2) by (simp add: ws_def)
    then show "wbit (m_words ?d) i = febitvec_bits v ! i" using X(4) i cover by (simp add: febitvec_bits_nth)
  qed (use X(2) in simp)
  moreover have "\<not> wbit (m_words ?d) i" if "256 * ?n \<le> i" "i < 320 * ?n + 64" for i
    using that zero store X(3) by simp
  ultimately show ?thesis using d by (intro exI [of _ ?d]) simp
qed

text \<open>With \<open>Terark_hasValgrind\<close> set, \<open>rank_select_se\<close> builds a broken dictionary: for 300 one
  bits, all allocations granted, it counts 44 ones below position 300.\<close>

theorem se_valgrind_breaks_rank:
  "\<exists>v d. let env = plain_heap\<lparr>has_valgrind := True\<rparr> in
     febitvec_ok v \<and> \<not> m_null v \<and> se_build_cache env v False False = Some (Inr d) \<and>
     febitvec_bits v = replicate 300 True \<and> febitvec_bits d = febitvec_bits v \<and> se_rank1 d 300 = 44"
proof -
  let ?env = "plain_heap\<lparr>has_valgrind := True\<rparr>"
  obtain u where u: "febitvec_init plain_heap 300 True = Inr u"
    using febitvec_resize_total [of plain_heap febitvec_null 300 True] by (auto simp: febitvec_init_def)
  note uok = febitvec_init_ok [OF u]
  have mu: "m_size u = 300" using arg_cong [OF uok(2), of length] by simp
  define v where "v = (se_extend u)\<lparr>m_null := False\<rparr>"
  have v: "febitvec_ok v" "\<not> m_null v" "m_size v = 300" "febitvec_bits v = replicate 300 True"
    using uok mu by (auto simp: v_def se_extend_def febitvec.defs rank_select_se.defs febitvec_ok_def febitvec_bits_def)
  have n: "simple_lines v = 2" by (simp add: simple_lines_def ceiled_div_def v(3))
  have al: "alloc_ok ?env n" for n by simp
  obtain d where d: "se_build_cache ?env v False False = Some (Inr d)" "febitvec_bits d = febitvec_bits v"
    "se_rank_cache d = Some 64" "\<And>i. 512 \<le> i \<Longrightarrow> i < 704 \<Longrightarrow> \<not> wbit (m_words d) i"
    using se_valgrind_words [OF v(1,2) _ al, unfolded n] v(3) by auto
  have one: "wbit (m_words d) i" if "i < 300" for i
  proof -
    have "m_size d = 300" using arg_cong [OF d(2), of length] v(3) by simp
    then show ?thesis using that d(2) v(4) febitvec_bits_nth [of i d] by simp
  qed
  have "se_lev1 64 (m_words d) 1 = 0" "se_lev2 64 (m_words d) 1 0 = 0"
    unfolding se_lev1_def se_lev2_def by (intro load_nat_zero d(4); simp)+
  moreover have "fast_popcount_trail (m_words d ! 4) 44 = 44"
    using bcount_wbit_word [of 44 "m_words d" 4] bcount_cong [of 256 300 "wbit (m_words d)" "\<lambda>_. True"] one
    by (simp add: fast_popcount_trail_correct)
  ultimately have "se_rank1 d 300 = 44" by (simp add: se_rank1_def se_rc_def d(3) LineBits_def)
  with v d show ?thesis unfolding Let_def by blast
qed

end
