(* ===== verification/Rank_Select_SE512.thy ===== *)
theory Rank_Select_SE512
  imports Rank_Select_SE256
begin

text \<open>
  \<open>rank_select_se_512_tpl\<close> (\<open>src/terark/succinct/rank_select_se_512.hpp\<close> and \<open>.cpp\<close>): lines of 512
  bits and a separate array of packed entries, each a rank of \<open>w\<close> bytes (the template argument:
  4 in \<open>rank_select_se_512_32\<close>, 8 in \<open>rank_select_se_512_64\<close>) and a 64 bit word with seven counts of
  9 bits.  Every operation takes \<open>w\<close>.  The branches for AVX512 are not modelled.
\<close>

section \<open>Seven counts in a word\<close>

definition rank512 :: "u64 \<Rightarrow> nat \<Rightarrow> nat" where
  "rank512 bm64 i = unat (drop_bit ((i - 1) * 9) bm64 AND 511)"

definition get_bits_64 :: "u64 \<Rightarrow> nat \<Rightarrow> nat \<Rightarrow> nat" where
  "get_bits_64 x k width = (if k \<noteq> 0 then unat (drop_bit ((k - 1) * width) x AND (push_bit width 1 - 1)) else 0)"

section \<open>State\<close>

definition LineBits512 :: nat where "LineBits512 = 512"
definition LineWords512 :: nat where "LineWords512 = LineBits512 div WordBits"

record rank_select_se_512 = febitvec +
  s5_rank_cache :: "nat option"
  s5_sel0_cache :: "nat option"
  s5_sel1_cache :: "nat option"
  s5_max_rank0 :: nat
  s5_max_rank1 :: nat

text \<open>The entry \<open>i\<close> of a \<open>RankCache512\<close> array at byte offset \<open>rc\<close>, packed to \<open>w + 8\<close> bytes.\<close>

definition s5_base :: "nat \<Rightarrow> nat \<Rightarrow> u64 list \<Rightarrow> nat \<Rightarrow> nat" where
  "s5_base w rc ws i = load_nat ws (rc + (w + 8) * i) w"

definition s5_rela :: "nat \<Rightarrow> nat \<Rightarrow> u64 list \<Rightarrow> nat \<Rightarrow> u64" where
  "s5_rela w rc ws i = load_bytes ws (rc + (w + 8) * i + w) 8"

definition s5_check_overflow :: "nat \<Rightarrow> nat \<Rightarrow> unit res" where
  "s5_check_overflow w n = (if w = 4 then rank_select_check_overflow n else Inr ())"

definition s5_nullize_cache :: "rank_select_se_512 \<Rightarrow> rank_select_se_512" where
  "s5_nullize_cache v = v\<lparr>s5_rank_cache := None, s5_sel0_cache := None, s5_sel1_cache := None,
     s5_max_rank0 := 0, s5_max_rank1 := 0\<rparr>"

definition s5_extend :: "febitvec \<Rightarrow> rank_select_se_512" where
  "s5_extend v = febitvec.extend v (rank_select_se_512.fields None None None 0 0)"

definition s5_init :: "heap_env \<Rightarrow> nat \<Rightarrow> nat \<Rightarrow> bool \<Rightarrow> rank_select_se_512 res" where
  "s5_init env w n val =
     bind_res (febitvec_init env n val) (\<lambda>v.
     bind_res (s5_check_overflow w (m_size v)) (\<lambda>_. Inr (s5_extend v)))"

definition s5_init_no_init :: "heap_env \<Rightarrow> nat \<Rightarrow> nat \<Rightarrow> rank_select_se_512 res" where
  "s5_init_no_init env w n =
     bind_res (s5_check_overflow w (m_size febitvec_null)) (\<lambda>_.
     bind_res (febitvec_resize_no_init env febitvec_null n) (\<lambda>v. Inr (s5_extend v)))"

definition s5_init_reserve :: "heap_env \<Rightarrow> nat \<Rightarrow> nat \<Rightarrow> rank_select_se_512 res" where
  "s5_init_reserve env w n =
     bind_res (s5_check_overflow w (m_size febitvec_null)) (\<lambda>_.
     bind_res (febitvec_reserve env febitvec_null n) (\<lambda>v. Inr (s5_extend v)))"

text \<open>
  The copied pointers keep their byte distance to the words: the code subtracts and adds pointers to
  entries of \<open>w + 8\<close> bytes, which gives that distance back also where it is no multiple of 12.
\<close>

definition s5_copy_init :: "heap_env \<Rightarrow> rank_select_se_512 \<Rightarrow> rank_select_se_512 res" where
  "s5_copy_init env y =
     bind_res (febitvec_reserve env febitvec_null (m_capacity y)) (\<lambda>v.
       let v = v\<lparr>m_size := m_size y,
                m_words := fold (\<lambda>i ws. ws[i := m_words y ! i]) [0..<m_capacity y div WordBits] (m_words v)\<rparr>
       in Inr ((s5_extend v)\<lparr>s5_rank_cache := s5_rank_cache y, s5_sel0_cache := s5_sel0_cache y,
                s5_sel1_cache := s5_sel1_cache y, s5_max_rank0 := s5_max_rank0 y,
                s5_max_rank1 := s5_max_rank1 y\<rparr>))"

definition s5_copy_assign :: "heap_env \<Rightarrow> rank_select_se_512 \<Rightarrow> rank_select_se_512 \<Rightarrow> rank_select_se_512 res" where
  "s5_copy_assign env x y = s5_copy_init env y"

definition s5_clear :: "rank_select_se_512 \<Rightarrow> rank_select_se_512" where
  "s5_clear v = febitvec_clear (s5_nullize_cache v)"

definition s5_release :: "rank_select_se_512 \<Rightarrow> rank_select_se_512" where
  "s5_release v = febitvec_release (s5_nullize_cache v)"

definition s5_move :: "rank_select_se_512 \<Rightarrow> rank_select_se_512 \<times> rank_select_se_512" where
  "s5_move y = (y, s5_release y)"

definition s5_swap :: "rank_select_se_512 \<Rightarrow> rank_select_se_512 \<Rightarrow> rank_select_se_512 \<times> rank_select_se_512" where
  "s5_swap x y = (y, x)"

definition s5_shrink_to_fit :: "heap_env \<Rightarrow> rank_select_se_512 \<Rightarrow> rank_select_se_512 res" where
  "s5_shrink_to_fit env v = febitvec_shrink_to_fit env v"

definition s5_mem_size :: "rank_select_se_512 \<Rightarrow> nat" where
  "s5_mem_size v = m_capacity v div 8"

definition s5_mmap_from :: "nat \<Rightarrow> u64 list \<Rightarrow> rank_select_se_512" where
  "s5_mmap_from w base =
     (let len = 8 * length base;
          flags = load_bytes base (len - 8) 8;
          sz = unat (drop_bit 8 flags);
          ceiled_bits = align_up sz LineBits512;
          nlines = ceiled_bits div LineBits512;
          rank_cache = 8 * (ceiled_bits div WordBits);
          max_rank1 = s5_base w rank_cache base nlines;
          max_rank0 = sz - max_rank1;
          select0_slots = (max_rank0 + LineBits512 - 1) div LineBits512;
          select_index = rank_cache + (w + 8) * (nlines + 1);
          (sel0, select_index) =
            (if flags AND push_bit 0 1 \<noteq> 0 then (Some select_index, select_index + w * (select0_slots + 1))
             else (None, select_index));
          sel1 = (if flags AND push_bit 1 1 \<noteq> 0 then Some select_index else None)
      in \<lparr>m_words = base, m_null = False, m_size = sz, m_capacity = len * 8,
          s5_rank_cache = Some rank_cache, s5_sel0_cache = sel0, s5_sel1_cache = sel1,
          s5_max_rank0 = max_rank0, s5_max_rank1 = max_rank1\<rparr>)"

section \<open>Building the cache\<close>

definition s5_cache_word :: "u64 list \<Rightarrow> nat \<Rightarrow> nat \<Rightarrow> nat \<times> u64 \<Rightarrow> nat \<times> u64" where
  "s5_cache_word ws i j st =
     (case st of (r, rela) \<Rightarrow>
       let r = r + fast_popcount64 (ws ! (i * (LineBits512 div 64) + j)) in (r, rela OR push_bit (j * 9) (of_nat r)))"

definition s5_cache_line :: "nat \<Rightarrow> nat \<Rightarrow> nat \<Rightarrow> u64 list \<times> nat \<Rightarrow> u64 list \<times> nat" where
  "s5_cache_line w rc i st =
     (case st of (ws, Rank1) \<Rightarrow>
       let (r, rela) = fold (s5_cache_word ws i) [0..<LineBits512 div 64] (0, 0);
           rela = rela AND drop_bit 1 (- 1);
           ws = store_nat ws (rc + (w + 8) * i) w Rank1;
           ws = store_bytes ws (rc + (w + 8) * i + w) 8 rela
       in (ws, Rank1 + r))"

text \<open>\<open>std::fill\<close> of bytes with 0.\<close>

definition zero_bytes :: "u64 list \<Rightarrow> nat \<Rightarrow> nat \<Rightarrow> u64 list" where
  "zero_bytes ws start finish = fold (\<lambda>i ws. store_nat ws i 1 0) [start..<finish] ws"

definition s5_build_select ::
  "heap_env \<Rightarrow> nat \<Rightarrow> rank_select_se_512 \<Rightarrow> bool \<Rightarrow> bool \<Rightarrow> nat \<Rightarrow> nat \<Rightarrow> nat \<Rightarrow> rank_select_se_512 res option" where
  "s5_build_select env w v speed_select0 speed_select1 rc nlines Rank1 =
     (let max_rank0 = m_size v - Rank1;
          max_rank1 = Rank1;
          select0_slots = (max_rank0 + LineBits512 - 1) div LineBits512;
          select1_slots = (max_rank1 + LineBits512 - 1) div LineBits512;
          u32_slots = (1 + (if speed_select0 then select0_slots + 1 else 0) * (w div 4)
                         + (if speed_select1 then select1_slots + 1 else 0) * (w div 4)) div 2 * 2;
          flag_as_u32_slots = 2
      in case febitvec_reserve env v (m_capacity v + 32 * (u32_slots + flag_as_u32_slots)) of
        Inl e \<Rightarrow> Some (Inl e)
      | Inr v \<Rightarrow>
        let ws = zero_bytes (m_words v) (rc + (w + 8) * (nlines + 1)) (8 * (m_capacity v div WordBits))
        in (case sel_tables (\<lambda>ws k. k * LineBits512 - s5_base w rc ws k) (s5_base w rc) LineBits512 w
              speed_select0 speed_select1 (rc + (w + 8) * (nlines + 1)) select0_slots select1_slots nlines ws of
            None \<Rightarrow> None
          | Some (ws, sel0, sel1) \<Rightarrow>
            let flags = push_bit 8 (of_nat (m_size v)) OR push_bit 1 (of_bool speed_select1)
                        OR push_bit 0 (of_bool speed_select0);
                ws = store_bytes ws (8 * (m_capacity v div WordBits) - 8) 8 flags
            in Some (Inr (v\<lparr>m_words := ws, s5_rank_cache := Some rc, s5_sel0_cache := sel0,
                 s5_sel1_cache := sel1, s5_max_rank0 := max_rank0, s5_max_rank1 := max_rank1\<rparr>))))"

definition s5_build_cache ::
  "heap_env \<Rightarrow> nat \<Rightarrow> rank_select_se_512 \<Rightarrow> bool \<Rightarrow> bool \<Rightarrow> rank_select_se_512 res option" where
  "s5_build_cache env w v speed_select0 speed_select1 =
     (if s5_check_overflow w (m_size v) \<noteq> Inr () then Some (Inl Abort)
      else if m_null v then Some (Inr v)
      else case s5_shrink_to_fit env v of Inl e \<Rightarrow> Some (Inl e) | Inr v \<Rightarrow>
        let ceiled_bits = align_up (m_size v) LineBits512;
            nlines = ceiled_bits div LineBits512
        in case febitvec_reserve env v (ceiled_bits + (nlines + 1) * (w + 8) * 8) of
          Inl e \<Rightarrow> Some (Inl e)
        | Inr v \<Rightarrow>
          let ws = bits_range_set0 (m_words v) (m_size v) ceiled_bits;
              rc = 8 * (ceiled_bits div WordBits);
              (ws, Rank1) = fold (s5_cache_line w rc) [0..<nlines] (ws, 0);
              ws = store_nat ws (rc + (w + 8) * nlines) w Rank1;
              ws = store_bytes ws (rc + (w + 8) * nlines + w) 8 0
          in s5_build_select env w (v\<lparr>m_words := ws\<rparr>) speed_select0 speed_select1 rc nlines Rank1)"

section \<open>Queries\<close>

definition s5_rc :: "rank_select_se_512 \<Rightarrow> nat" where "s5_rc v = the (s5_rank_cache v)"

definition s5_fast_rank1 :: "u64 list \<Rightarrow> (nat \<Rightarrow> nat) \<Rightarrow> (nat \<Rightarrow> u64) \<Rightarrow> nat \<Rightarrow> nat" where
  "s5_fast_rank1 bits base rela bitpos =
     (let k = bitpos mod 512 div 64;
          tail = fast_popcount_trail (bits ! (bitpos div 64)) (bitpos mod 64)
      in base (bitpos div 512) + tail + get_bits_64 (rela (bitpos div 512)) k 9)"

definition s5_fast_rank0 :: "u64 list \<Rightarrow> (nat \<Rightarrow> nat) \<Rightarrow> (nat \<Rightarrow> u64) \<Rightarrow> nat \<Rightarrow> nat" where
  "s5_fast_rank0 bits base rela bitpos = bitpos - s5_fast_rank1 bits base rela bitpos"

definition s5_rank1 :: "nat \<Rightarrow> rank_select_se_512 \<Rightarrow> nat \<Rightarrow> nat" where
  "s5_rank1 w v bitpos =
     (let k = bitpos mod 512 div 64;
          tail = fast_popcount_trail (m_words v ! (bitpos div 64)) (bitpos mod 64)
      in s5_base w (s5_rc v) (m_words v) (bitpos div 512) + tail +
         get_bits_64 (s5_rela w (s5_rc v) (m_words v) (bitpos div 512)) k 9)"

definition s5_rank0 :: "nat \<Rightarrow> rank_select_se_512 \<Rightarrow> nat \<Rightarrow> nat" where
  "s5_rank0 w v bitpos = bitpos - s5_rank1 w v bitpos"

text \<open>The decision tree over the eight words of a line: \<open>below n\<close> says that the wanted bit is in front
  of the word \<open>n\<close>.\<close>

definition pick_of_8 :: "(nat \<Rightarrow> bool) \<Rightarrow> nat \<Rightarrow> (nat \<Rightarrow> nat) \<Rightarrow> nat" where
  "pick_of_8 below first nth64 =
     (if below 4
      then if below 2
           then if below 1 then first else nth64 1
           else if below 3 then nth64 2 else nth64 3
      else if below 6
           then if below 5 then nth64 4 else nth64 5
           else if below 7 then nth64 6 else nth64 7)"

definition s5_pick1 :: "u64 list \<Rightarrow> (nat \<Rightarrow> nat) \<Rightarrow> (nat \<Rightarrow> u64) \<Rightarrow> nat \<Rightarrow> nat \<Rightarrow> nat" where
  "s5_pick1 bits base rela lo Rank1 =
     (let pBit64 = (\<lambda>k. bits ! (LineWords512 * (lo - 1) + k));
          hit = base (lo - 1);
          line_bitpos = (lo - 1) * LineBits512;
          rcRela = rela (lo - 1)
      in pick_of_8 (\<lambda>n. Rank1 < hit + rank512 rcRela n)
           (line_bitpos + UintSelect1 (pBit64 0) (Rank1 - hit))
           (\<lambda>n. line_bitpos + 64 * n + UintSelect1 (pBit64 n) (Rank1 - (hit + rank512 rcRela n))))"

definition s5_pick0 :: "u64 list \<Rightarrow> (nat \<Rightarrow> nat) \<Rightarrow> (nat \<Rightarrow> u64) \<Rightarrow> nat \<Rightarrow> nat \<Rightarrow> nat" where
  "s5_pick0 bits base rela lo Rank0 =
     (let pBit64 = (\<lambda>k. bits ! (LineWords512 * (lo - 1) + k));
          hit = LineBits512 * (lo - 1) - base (lo - 1);
          line_bitpos = (lo - 1) * LineBits512;
          rcRela = rela (lo - 1)
      in pick_of_8 (\<lambda>n. Rank0 < hit + 64 * n - rank512 rcRela n)
           (line_bitpos + UintSelect1 (NOT (pBit64 0)) (Rank0 - hit))
           (\<lambda>n. line_bitpos + 64 * n + UintSelect1 (NOT (pBit64 n)) (Rank0 - (hit + 64 * n - rank512 rcRela n))))"

definition s5_load_select_cache :: "(nat \<Rightarrow> nat) \<Rightarrow> nat \<Rightarrow> nat \<times> nat" where
  "s5_load_select_cache select_cache r = (select_cache (r div LineBits512), select_cache (r div LineBits512 + 1))"

definition s5_load_select0_cache_safe :: "nat \<Rightarrow> rank_select_se_512 \<Rightarrow> nat \<Rightarrow> nat \<times> nat" where
  "s5_load_select0_cache_safe w v Rank0 =
     (case s5_sel0_cache v of
        Some s \<Rightarrow> s5_load_select_cache (\<lambda>j. load_nat (m_words v) (s + w * j) w) Rank0
      | None \<Rightarrow> (0, (m_size v + LineBits512 + 1) div LineBits512))"

definition s5_load_select1_cache_safe :: "nat \<Rightarrow> rank_select_se_512 \<Rightarrow> nat \<Rightarrow> nat \<times> nat" where
  "s5_load_select1_cache_safe w v Rank1 =
     (case s5_sel1_cache v of
        Some s \<Rightarrow> s5_load_select_cache (\<lambda>j. load_nat (m_words v) (s + w * j) w) Rank1
      | None \<Rightarrow> (0, (m_size v + LineBits512 + 1) div LineBits512))"

definition s5_select0_upper_bound_line :: "nat \<times> nat \<Rightarrow> (nat \<Rightarrow> nat) \<Rightarrow> nat \<Rightarrow> nat option" where
  "s5_select0_upper_bound_line rng base Rank0 =
     (let (lo, hi) = rng; f = (\<lambda>k. LineBits512 * k - base k) in
      if hi - lo < 32 then scan_above f lo Rank0 else Some (upper_bound_loop f lo hi Rank0))"

definition s5_select1_upper_bound_line :: "nat \<times> nat \<Rightarrow> (nat \<Rightarrow> nat) \<Rightarrow> nat \<Rightarrow> nat option" where
  "s5_select1_upper_bound_line rng base Rank1 =
     (let (lo, hi) = rng in
      if hi - lo < 32 then scan_above base lo Rank1 else Some (upper_bound_loop base lo hi Rank1))"

definition s5_fast_select0 ::
  "u64 list \<Rightarrow> (nat \<Rightarrow> nat) \<Rightarrow> (nat \<Rightarrow> nat) \<Rightarrow> (nat \<Rightarrow> u64) \<Rightarrow> nat \<Rightarrow> nat option" where
  "s5_fast_select0 bits sel0 base rela Rank0 =
     map_option (\<lambda>lo. s5_pick0 bits base rela lo Rank0)
       (s5_select0_upper_bound_line (s5_load_select_cache sel0 Rank0) base Rank0)"

definition s5_fast_select1 ::
  "u64 list \<Rightarrow> (nat \<Rightarrow> nat) \<Rightarrow> (nat \<Rightarrow> nat) \<Rightarrow> (nat \<Rightarrow> u64) \<Rightarrow> nat \<Rightarrow> nat option" where
  "s5_fast_select1 bits sel1 base rela Rank1 =
     map_option (\<lambda>lo. s5_pick1 bits base rela lo Rank1)
       (s5_select1_upper_bound_line (s5_load_select_cache sel1 Rank1) base Rank1)"

definition s5_select0 :: "nat \<Rightarrow> rank_select_se_512 \<Rightarrow> nat \<Rightarrow> nat option" where
  "s5_select0 w v Rank0 =
     map_option (\<lambda>lo. s5_pick0 (m_words v) (s5_base w (s5_rc v) (m_words v)) (s5_rela w (s5_rc v) (m_words v)) lo Rank0)
       (s5_select0_upper_bound_line (s5_load_select0_cache_safe w v Rank0) (s5_base w (s5_rc v) (m_words v)) Rank0)"

definition s5_select1 :: "nat \<Rightarrow> rank_select_se_512 \<Rightarrow> nat \<Rightarrow> nat option" where
  "s5_select1 w v Rank1 =
     map_option (\<lambda>lo. s5_pick1 (m_words v) (s5_base w (s5_rc v) (m_words v)) (s5_rela w (s5_rc v) (m_words v)) lo Rank1)
       (s5_select1_upper_bound_line (s5_load_select1_cache_safe w v Rank1) (s5_base w (s5_rc v) (m_words v)) Rank1)"

definition s5_isall0 :: "rank_select_se_512 \<Rightarrow> bool" where "s5_isall0 v \<longleftrightarrow> s5_max_rank1 v = 0"

definition s5_isall1 :: "rank_select_se_512 \<Rightarrow> bool" where "s5_isall1 v \<longleftrightarrow> s5_max_rank0 v = 0"

definition s5_excess1 :: "nat \<Rightarrow> rank_select_se_512 \<Rightarrow> nat \<Rightarrow> u64" where
  "s5_excess1 w v bp = 2 * of_nat (s5_rank1 w v bp) - of_nat bp"

section \<open>The packed counts\<close>

lemma nat_bit_less: "\<not> bit (c :: nat) k" if "c < 2 ^ m" "m \<le> k"
proof -
  have "take_bit m c = c" using that(1) by (simp add: take_bit_nat_eq_self)
  then show ?thesis using that(2) bit_take_bit_iff [of m c k] by simp
qed

lemma field9:
  fixes x :: u64 and c :: "nat \<Rightarrow> nat"
  assumes x: "\<And>n. n < 63 \<Longrightarrow> bit x n = bit (c (n div 9 + 1)) (n mod 9)" and t: "t < 7" and c: "c (t + 1) < 512"
  shows "unat (drop_bit (t * 9) x AND 511) = c (t + 1)"
proof -
  have "drop_bit (t * 9) x AND 511 = of_nat (c (t + 1))"
  proof (rule bit_word_eqI)
    fix k assume k: "k < LENGTH(64)"
    have m: "511 = (mask 9 :: u64)" by (simp add: mask_eq_exp_minus_1)
    show "bit (drop_bit (t * 9) x AND 511) k = bit (of_nat (c (t + 1)) :: u64) k"
    proof (cases "k < 9")
      case True
      then have "t * 9 + k < 63" "(t * 9 + k) div 9 = t" "(t * 9 + k) mod 9 = k" using t by simp_all
      with x [of "t * 9 + k"] True k show ?thesis by (simp add: m bit_simps)
    next
      case False
      then show ?thesis using nat_bit_less [of "c (t + 1)" 9 k] c by (simp add: m bit_simps)
    qed
  qed
  then show ?thesis using c by (simp add: unat_of_nat take_bit_nat_eq_self)
qed

lemma rank512_field:
  fixes x :: u64 and c :: "nat \<Rightarrow> nat"
  assumes x: "\<And>n. n < 63 \<Longrightarrow> bit x n = bit (c (n div 9 + 1)) (n mod 9)"
    and c: "\<And>t. t < 8 \<Longrightarrow> c t < 512" "c 0 = 0"
  shows "1 \<le> t \<Longrightarrow> t < 8 \<Longrightarrow> rank512 x t = c t" and "t < 8 \<Longrightarrow> get_bits_64 x t 9 = c t"
proof -
  show r: "rank512 x t = c t" if "1 \<le> t" "t < 8" for t
    using field9 [OF x, of "t - 1"] that c(1) [of t] by (simp add: rank512_def)
  have "get_bits_64 x t 9 = rank512 x t" if "t \<noteq> 0"
    using that by (simp add: get_bits_64_def rank512_def)
  then show "t < 8 \<Longrightarrow> get_bits_64 x t 9 = c t"
    using r [of t] c(2) by (cases "t = 0") (simp_all add: get_bits_64_def)
qed

lemma s5_rela_fold:
  fixes ws :: "u64 list" and i :: nat
  defines "c \<equiv> \<lambda>t. bcount (wbit ws) (512 * i) (512 * i + 64 * t)"
  assumes "m \<le> 8"
  shows "case fold (s5_cache_word ws i) [0..<m] (0, 0) of (r, rela) \<Rightarrow> r = c m \<and>
    (\<forall>n<63. bit rela n = (n div 9 < m \<and> bit (c (n div 9 + 1)) (n mod 9)))"
  using assms(2)
proof (induction m)
  case 0
  then show ?case by (simp add: c_def)
next
  case (Suc m)
  obtain r rela where st: "fold (s5_cache_word ws i) [0..<m] (0, 0) = (r, rela)" by fastforce
  from Suc st have IH: "r = c m" "\<And>n. n < 63 \<Longrightarrow> bit rela n = (n div 9 < m \<and> bit (c (n div 9 + 1)) (n mod 9))"
    by auto
  have "c (Suc m) = c m + popcount (ws ! (i * 8 + m))"
    using bcount_split [of "512 * i" "512 * i + 64 * m" "512 * i + 64 * m + 64" "wbit ws"]
      bcount_wbit_word [of 64 ws "i * 8 + m"]
    by (simp add: c_def bcount_popcount algebra_simps)
  then have r: "r + fast_popcount64 (ws ! (i * 8 + m)) = c (Suc m)" using IH(1) by (simp add: fast_popcount64_correct)
  have "bit (rela OR push_bit (m * 9) (of_nat (c (Suc m)))) n =
      (n div 9 < Suc m \<and> bit (c (n div 9 + 1)) (n mod 9))" if n: "n < 63" for n
  proof -
    consider "n div 9 < m" | "n div 9 = m" | "m < n div 9" by linarith
    then show ?thesis
    proof cases
      case 1
      then show ?thesis using IH(2) [OF n] by (auto simp: bit_simps)
    next
      case 2
      then have "m * 9 \<le> n" "n - m * 9 = n mod 9" by (auto simp: minus_div_mult_eq_mod [symmetric])
      moreover have "n mod 9 < 64" using mod_less_divisor [of 9 n] by linarith
      ultimately show ?thesis using 2 IH(2) [OF n] n by (simp add: bit_simps)
    next
      case 3
      then have "9 \<le> n - m * 9" "Suc m < 8" using n by linarith+
      moreover have "c (Suc m) < 2 ^ 9"
        using bcount_le [of "wbit ws" "512 * i" "512 * i + 64 * Suc m"] \<open>Suc m < 8\<close> by (simp add: c_def)
      ultimately have "\<not> bit (c (Suc m)) (n - m * 9)" by (intro nat_bit_less)
      with 3 show ?thesis using IH(2) [OF n] by (simp add: bit_simps)
    qed
  qed
  moreover have W: "512 div 64 = (8::nat)" by simp
  have "s5_cache_word ws i m (r, rela) = (c (Suc m), rela OR push_bit (m * 9) (of_nat (c (Suc m))))"
    unfolding s5_cache_word_def Let_def LineBits512_def prod.case W r by (rule refl)
  then have "fold (s5_cache_word ws i) [0..<Suc m] (0, 0) = (c (Suc m), rela OR push_bit (m * 9) (of_nat (c (Suc m))))"
    using st by simp
  ultimately show ?case by simp
qed

section \<open>The word of a line\<close>

lemma pick_of_8_select:
  fixes x :: "nat \<Rightarrow> u64" and Q :: "nat \<Rightarrow> bool" and l :: nat
  defines "h \<equiv> bcount Q 0 (512 * l)" and "c \<equiv> \<lambda>t. bcount Q (512 * l) (512 * l + 64 * t)"
  assumes x: "\<And>t k. t < 8 \<Longrightarrow> k < 64 \<Longrightarrow> bit (x t) k = Q (64 * (8 * l + t) + k)"
    and r: "h \<le> r" "r < bcount Q 0 (512 * Suc l)"
    and below: "\<And>n. 1 \<le> n \<Longrightarrow> n < 8 \<Longrightarrow> below n = (r < h + c n)"
    and "first": "fst64 = l * 512 + UintSelect1 (x 0) (r - h)"
    and nth: "\<And>n. 1 \<le> n \<Longrightarrow> n < 8 \<Longrightarrow> nth64 n = l * 512 + 64 * n + UintSelect1 (x n) (r - (h + c n))"
  shows "is_select Q r (pick_of_8 below fst64 nth64)"
proof -
  have ends: "r < h + c 8" "c 0 = 0"
    using r bcount_split [of 0 "512 * l" "512 * l + 512" Q] by (simp_all add: c_def h_def algebra_simps)
  have pick: "is_select Q r (l * 512 + 64 * t + UintSelect1 (x t) (r - (h + c t)))"
    if "h + c t \<le> r" "r < h + c (t + 1)" "t < 8" for t
  proof -
    have "is_select Q r (64 * 8 * l + 64 * t + UintSelect1 (x t) (r - (bcount Q 0 (64 * 8 * l) + bcount Q (64 * 8 * l) (64 * 8 * l + 64 * t))))"
      by (rule pick_word) (use that x in \<open>simp_all add: c_def h_def\<close>)
    then show ?thesis by (simp add: mult.commute c_def h_def)
  qed
  have P0: "is_select Q r fst64" if "r < h + c 1"
    using pick [of 0] that ends r by (simp add: "first")
  have P: "is_select Q r (nth64 t)" if "\<not> r < h + c t" "r < h + c (t + 1)" "1 \<le> t" "t < 8" for t
    using pick [of t] that by (simp add: nth)
  have b: "below 1 = (r < h + c 1)" "below 2 = (r < h + c 2)" "below 3 = (r < h + c 3)" "below 4 = (r < h + c 4)"
    "below 5 = (r < h + c 5)" "below 6 = (r < h + c 6)" "below 7 = (r < h + c 7)" by (simp_all add: below)
  note Q = P [of 1, unfolded one_add_one] P [of 2] P [of 3] P [of 4] P [of 5] P [of 6] P [of 7]
  show ?thesis
    unfolding pick_of_8_def b using P0 Q ends(1) by (simp only: if_split) (simp del: One_nat_def)
qed

section \<open>A built dictionary\<close>

definition s5_lines :: "('z) febitvec_scheme \<Rightarrow> nat" where
  "s5_lines v = ceiled_div (m_size v) 512"

definition s5_cache_ok :: "nat \<Rightarrow> nat \<Rightarrow> u64 list \<Rightarrow> nat \<Rightarrow> bool" where
  "s5_cache_ok w rc ws n \<longleftrightarrow>
     (\<forall>i\<le>n. s5_base w rc ws i = bcount (wbit ws) 0 (512 * i)) \<and>
     (\<forall>i<n. \<forall>j<63. bit (s5_rela w rc ws i) j =
        bit (bcount (wbit ws) (512 * i) (512 * i + 64 * (j div 9 + 1))) (j mod 9)) \<and>
     s5_rela w rc ws n = 0"

definition s5_sel0_ok :: "nat \<Rightarrow> rank_select_se_512 \<Rightarrow> bool" where
  "s5_sel0_ok w v \<longleftrightarrow> (\<forall>s. s5_sel0_cache v = Some s \<longrightarrow>
     sel_table_ok (\<lambda>k. 512 * k - s5_base w (s5_rc v) (m_words v) k) 512 (\<lambda>j. load_nat (m_words v) (s + w * j) w)
       (ceiled_div (s5_max_rank0 v) 512) (s5_lines v))"

definition s5_sel1_ok :: "nat \<Rightarrow> rank_select_se_512 \<Rightarrow> bool" where
  "s5_sel1_ok w v \<longleftrightarrow> (\<forall>s. s5_sel1_cache v = Some s \<longrightarrow>
     sel_table_ok (s5_base w (s5_rc v) (m_words v)) 512 (\<lambda>j. load_nat (m_words v) (s + w * j) w)
       (ceiled_div (s5_max_rank1 v) 512) (s5_lines v))"

definition s5_ok :: "nat \<Rightarrow> rank_select_se_512 \<Rightarrow> bool" where
  "s5_ok w v \<longleftrightarrow> febitvec_ok v \<and> w \<in> {4, 8} \<and> m_size v < 2 ^ (8 * w) \<and>
     s5_rank_cache v = Some (64 * s5_lines v) \<and>
     (\<forall>i. m_size v \<le> i \<longrightarrow> i < 512 * s5_lines v \<longrightarrow> \<not> wbit (m_words v) i) \<and>
     s5_cache_ok w (64 * s5_lines v) (m_words v) (s5_lines v) \<and>
     s5_max_rank1 v = bcount (wbit (m_words v)) 0 (m_size v) \<and>
     s5_max_rank0 v = m_size v - s5_max_rank1 v \<and> s5_sel0_ok w v \<and> s5_sel1_ok w v"

lemma s5_cover: "m_size v \<le> 512 * s5_lines v"
  using ceiled_div_mult_ge [of 512 "m_size v"] by (simp add: s5_lines_def mult.commute)

lemma s5_ok_rc: "s5_ok w v \<Longrightarrow> s5_rc v = 64 * s5_lines v"
  by (simp add: s5_ok_def s5_rc_def)

lemma s5_ok_base:
  "s5_ok w v \<Longrightarrow> i \<le> s5_lines v \<Longrightarrow> s5_base w (s5_rc v) (m_words v) i = bcount (wbit (m_words v)) 0 (512 * i)"
  by (simp add: s5_ok_rc) (simp add: s5_ok_def s5_cache_ok_def)

lemma s5_ok_rela:
  fixes v :: rank_select_se_512
  assumes "s5_ok w v" and "i < s5_lines v"
  shows "1 \<le> t \<Longrightarrow> t < 8 \<Longrightarrow> rank512 (s5_rela w (s5_rc v) (m_words v) i) t =
      bcount (wbit (m_words v)) (512 * i) (512 * i + 64 * t)"
    and "t < 8 \<Longrightarrow> get_bits_64 (s5_rela w (s5_rc v) (m_words v) i) t 9 =
      bcount (wbit (m_words v)) (512 * i) (512 * i + 64 * t)"
proof -
  let ?c = "\<lambda>t. bcount (wbit (m_words v)) (512 * i) (512 * i + 64 * t)"
  have x: "bit (s5_rela w (s5_rc v) (m_words v) i) j = bit (?c (j div 9 + 1)) (j mod 9)" if "j < 63" for j
    using assms that by (simp add: s5_ok_rc) (simp add: s5_ok_def s5_cache_ok_def)
  have c: "?c t < 512" if "t < 8" for t
    using bcount_le [of "wbit (m_words v)" "512 * i" "512 * i + 64 * t"] that by simp
  show "1 \<le> t \<Longrightarrow> t < 8 \<Longrightarrow> rank512 (s5_rela w (s5_rc v) (m_words v) i) t = ?c t"
    using rank512_field(1) [of "s5_rela w (s5_rc v) (m_words v) i" ?c, OF x c] by simp
  show "t < 8 \<Longrightarrow> get_bits_64 (s5_rela w (s5_rc v) (m_words v) i) t 9 = ?c t"
    using rank512_field(2) [of "s5_rela w (s5_rc v) (m_words v) i" ?c, OF x c] by simp
qed

lemma s5_rank1_correct:
  assumes "s5_ok w v" and "p \<le> m_size v"
  shows "s5_rank1 w v p = bcount (wbit (m_words v)) 0 p"
proof -
  let ?P = "wbit (m_words v)"
  define i j k where "i = p div 512" and "j = p mod 512 div 64" and "k = p mod 64"
  have i: "i \<le> s5_lines v" using assms(2) s5_cover [of v] unfolding i_def by linarith
  have j: "j < 8" unfolding j_def by (simp add: div_less_iff_less_mult)
  have "p mod 512 div 64 * 64 + p mod 512 mod 64 = p mod 512" "p mod 512 mod 64 = p mod 64"
    "p div 512 * 512 + p mod 512 = p" by (simp_all only: div_mult_mod_eq, simp add: mod_mod_cancel)
  then have p: "p = 512 * i + 64 * j + k" unfolding i_def j_def k_def by linarith
  have k: "k < 64" by (simp add: k_def)
  have q: "p div 64 = 8 * i + j" using p k by simp
  have "get_bits_64 (s5_rela w (s5_rc v) (m_words v) i) j 9 = bcount ?P (512 * i) (512 * i + 64 * j)"
  proof (cases "i < s5_lines v")
    case True
    then show ?thesis using s5_ok_rela(2) [OF assms(1)] j by simp
  next
    case False
    then have "i = s5_lines v" "j = 0" using i p assms(2) s5_cover [of v] by linarith+
    then show ?thesis by (simp add: get_bits_64_def)
  qed
  moreover have "bcount ?P 0 p = bcount ?P 0 (512 * i) + bcount ?P (512 * i) (512 * i + 64 * j) +
      bcount ?P (64 * (8 * i + j)) (64 * (8 * i + j) + k)"
    using bcount_split [of 0 "512 * i" p ?P] bcount_split [of "512 * i" "512 * i + 64 * j" p ?P] p by (simp add: algebra_simps)
  moreover have "bcount ?P (64 * (8 * i + j)) (64 * (8 * i + j) + k) = fast_popcount_trail (m_words v ! (p div 64)) k"
    using bcount_wbit_word [of k "m_words v" "8 * i + j"] q k by (simp add: fast_popcount_trail_correct)
  ultimately show ?thesis
    using s5_ok_base [OF assms(1) i] unfolding s5_rank1_def Let_def i_def [symmetric] j_def [symmetric] k_def [symmetric]
    by simp
qed

lemma s5_fast_rank1_eq:
  "s5_fast_rank1 (m_words v) (s5_base w (s5_rc v) (m_words v)) (s5_rela w (s5_rc v) (m_words v)) p = s5_rank1 w v p"
  by (simp add: s5_fast_rank1_def s5_rank1_def)

lemma s5_pick1_correct:
  assumes ok: "s5_ok w v" and l: "l < s5_lines v"
    and r: "bcount (wbit (m_words v)) 0 (512 * l) \<le> r" "r < bcount (wbit (m_words v)) 0 (512 * Suc l)"
  shows "is_select (wbit (m_words v)) r
    (s5_pick1 (m_words v) (s5_base w (s5_rc v) (m_words v)) (s5_rela w (s5_rc v) (m_words v)) (Suc l) r)"
proof -
  have x: "bit (m_words v ! (8 * l + t)) k = wbit (m_words v) (64 * (8 * l + t) + k)" if "k < 64" for t k
    using that by (simp only: wbit_word)
  show ?thesis
    unfolding s5_pick1_def Let_def LineBits512_def LineWords512_def WordBits_def diff_Suc_1
    by (rule pick_of_8_select [where x = "\<lambda>t. m_words v ! (8 * l + t)", OF x r])
      (use l in \<open>simp_all add: s5_ok_base [OF ok] s5_ok_rela(1) [OF ok l] del: One_nat_def\<close>)
qed

lemma s5_pick0_correct:
  assumes ok: "s5_ok w v" and l: "l < s5_lines v"
    and r: "bcount (\<lambda>i. \<not> wbit (m_words v) i) 0 (512 * l) \<le> r"
      "r < bcount (\<lambda>i. \<not> wbit (m_words v) i) 0 (512 * Suc l)"
  shows "is_select (\<lambda>i. \<not> wbit (m_words v) i) r
    (s5_pick0 (m_words v) (s5_base w (s5_rc v) (m_words v)) (s5_rela w (s5_rc v) (m_words v)) (Suc l) r)"
proof -
  let ?P = "\<lambda>i. \<not> wbit (m_words v) i"
  have h: "512 * l - s5_base w (s5_rc v) (m_words v) l = bcount ?P 0 (512 * l)"
    using s5_ok_base [OF ok, of l] l by (simp add: bcount_not)
  have c: "bcount ?P 0 (512 * l) + 64 * t - rank512 (s5_rela w (s5_rc v) (m_words v) l) t =
      bcount ?P 0 (512 * l) + bcount ?P (512 * l) (512 * l + 64 * t)" if "1 \<le> t" "t < 8" for t
    using s5_ok_rela(1) [OF ok l that] bcount_le [of "wbit (m_words v)" "512 * l" "512 * l + 64 * t"]
    by (simp add: bcount_not)
  show ?thesis
    unfolding s5_pick0_def Let_def LineBits512_def LineWords512_def WordBits_def diff_Suc_1 h
    by (rule pick_of_8_select [where x = "\<lambda>t. NOT (m_words v ! (8 * l + t))", OF _ r])
      (use c in \<open>simp_all add: wbit_not_word del: One_nat_def\<close>)
qed

section \<open>Select\<close>

lemma s5_max_ranks:
  assumes "s5_ok w v"
  shows "s5_max_rank1 v \<le> bcount (wbit (m_words v)) 0 (512 * s5_lines v)"
    and "s5_max_rank0 v \<le> bcount (\<lambda>i. \<not> wbit (m_words v) i) 0 (512 * s5_lines v)"
proof -
  show "s5_max_rank1 v \<le> bcount (wbit (m_words v)) 0 (512 * s5_lines v)"
    using assms s5_cover [of v] by (auto simp: s5_ok_def intro: bcount_mono)
  have "s5_max_rank0 v = bcount (\<lambda>i. \<not> wbit (m_words v) i) 0 (m_size v)"
    using assms by (simp add: s5_ok_def bcount_not)
  then show "s5_max_rank0 v \<le> bcount (\<lambda>i. \<not> wbit (m_words v) i) 0 (512 * s5_lines v)"
    using s5_cover [of v] by (simp add: bcount_mono)
qed

lemma s5_base_zeros:
  "s5_ok w v \<Longrightarrow> k \<le> s5_lines v \<Longrightarrow>
   512 * k - s5_base w (s5_rc v) (m_words v) k = bcount (\<lambda>i. \<not> wbit (m_words v) i) 0 (512 * k)"
  by (simp add: s5_ok_base bcount_not)

text \<open>The range a select starts from encloses the line.\<close>

lemma s5_sel1_range:
  assumes "s5_ok w v" and "r < s5_max_rank1 v" and "s5_load_select1_cache_safe w v r = (lo, hi)"
    and "first_above (s5_base w (s5_rc v) (m_words v)) r p" and "p \<le> s5_lines v"
  shows "lo \<le> p \<and> p \<le> hi \<and> hi \<le> s5_lines v + 1"
proof (cases "s5_sel1_cache v")
  case None
  then show ?thesis
    using assms(3,5) whole_range [of p "m_size v" 512]
    by (simp add: s5_load_select1_cache_safe_def LineBits512_def s5_lines_def)
next
  case (Some s)
  have t: "sel_table_ok (s5_base w (s5_rc v) (m_words v)) 512 (\<lambda>j. load_nat (m_words v) (s + w * j) w)
       (ceiled_div (s5_max_rank1 v) 512) (s5_lines v)"
    using assms(1) Some unfolding s5_ok_def s5_sel1_ok_def by blast
  have "r div 512 < ceiled_div (s5_max_rank1 v) 512" using assms(2) by (intro slots_cover) simp
  from sel_table_encloses [OF t _ assms(4,5) this] show ?thesis
    using assms(3) Some by (auto simp: s5_load_select1_cache_safe_def s5_load_select_cache_def LineBits512_def)
qed

lemma s5_sel0_range:
  assumes "s5_ok w v" and "r < s5_max_rank0 v" and "s5_load_select0_cache_safe w v r = (lo, hi)"
    and "first_above (\<lambda>k. 512 * k - s5_base w (s5_rc v) (m_words v) k) r p" and "p \<le> s5_lines v"
  shows "lo \<le> p \<and> p \<le> hi \<and> hi \<le> s5_lines v + 1"
proof (cases "s5_sel0_cache v")
  case None
  then show ?thesis
    using assms(3,5) whole_range [of p "m_size v" 512]
    by (simp add: s5_load_select0_cache_safe_def LineBits512_def s5_lines_def)
next
  case (Some s)
  have t: "sel_table_ok (\<lambda>k. 512 * k - s5_base w (s5_rc v) (m_words v) k) 512 (\<lambda>j. load_nat (m_words v) (s + w * j) w)
       (ceiled_div (s5_max_rank0 v) 512) (s5_lines v)"
    using assms(1) Some unfolding s5_ok_def s5_sel0_ok_def by blast
  have "r div 512 < ceiled_div (s5_max_rank0 v) 512" using assms(2) by (intro slots_cover) simp
  from sel_table_encloses [OF t _ assms(4,5) this] show ?thesis
    using assms(3) Some by (auto simp: s5_load_select0_cache_safe_def s5_load_select_cache_def LineBits512_def)
qed

lemma s5_select1_correct:
  assumes ok: "s5_ok w v" and r: "r < s5_max_rank1 v"
  shows "\<exists>p. s5_select1 w v r = Some p \<and> is_select (wbit (m_words v)) r p"
proof -
  obtain lo hi where rng: "s5_load_select1_cache_safe w v r = (lo, hi)" by fastforce
  have top: "r < bcount (wbit (m_words v)) 0 (512 * s5_lines v)" using s5_max_ranks(1) [OF ok] r by simp
  from line_search [OF s5_ok_base [OF ok] top s5_sel1_range [OF ok r rng]] obtain l where
    l: "l < s5_lines v" "upper_bound_loop (s5_base w (s5_rc v) (m_words v)) lo hi r = Suc l"
      "scan_above (s5_base w (s5_rc v) (m_words v)) lo r = Some (Suc l)"
      "bcount (wbit (m_words v)) 0 (512 * l) \<le> r" "r < bcount (wbit (m_words v)) 0 (512 * Suc l)" by blast
  from s5_pick1_correct [OF ok l(1,4,5)] l(2,3) show ?thesis
    by (simp add: s5_select1_def rng s5_select1_upper_bound_line_def)
qed

lemma s5_select0_correct:
  assumes ok: "s5_ok w v" and r: "r < s5_max_rank0 v"
  shows "\<exists>p. s5_select0 w v r = Some p \<and> is_select (\<lambda>i. \<not> wbit (m_words v) i) r p"
proof -
  let ?f = "\<lambda>k. 512 * k - s5_base w (s5_rc v) (m_words v) k" and ?Q = "\<lambda>i. \<not> wbit (m_words v) i"
  obtain lo hi where rng: "s5_load_select0_cache_safe w v r = (lo, hi)" by fastforce
  have top: "r < bcount ?Q 0 (512 * s5_lines v)" using s5_max_ranks(2) [OF ok] r by simp
  from line_search [OF s5_base_zeros [OF ok] top s5_sel0_range [OF ok r rng]] obtain l where
    l: "l < s5_lines v" "upper_bound_loop ?f lo hi r = Suc l" "scan_above ?f lo r = Some (Suc l)"
      "bcount ?Q 0 (512 * l) \<le> r" "r < bcount ?Q 0 (512 * Suc l)" by blast
  from s5_pick0_correct [OF ok l(1,4,5)] l(2,3) show ?thesis
    by (simp add: s5_select0_def rng s5_select0_upper_bound_line_def LineBits512_def Let_def)
qed

interpretation se512: rank_select_dict "s5_ok w" m_size "\<lambda>v. wbit (m_words v)" "s5_rank1 w" "s5_rank0 w"
    "\<lambda>v r. the (s5_select1 w v r)" "\<lambda>v r. the (s5_select0 w v r)" s5_max_rank1 s5_max_rank0
  for w
proof unfold_locales
  fix v :: rank_select_se_512 and r
  assume ok: "s5_ok w v"
  show "r < s5_max_rank1 v \<Longrightarrow> is_select (wbit (m_words v)) r (the (s5_select1 w v r))"
    using s5_select1_correct [OF ok, of r] by auto
  show "r < s5_max_rank0 v \<Longrightarrow> is_select (\<lambda>i. \<not> wbit (m_words v) i) r (the (s5_select0 w v r))"
    using s5_select0_correct [OF ok, of r] by auto
qed (simp_all add: s5_rank1_correct s5_rank0_def bcount_not, simp_all add: s5_ok_def)

text \<open>The static functions, given the arrays of a built dictionary, compute what the members compute.\<close>

lemma s5_fast_select_eq:
  shows "s5_sel1_cache v = Some s \<Longrightarrow>
      s5_fast_select1 (m_words v) (\<lambda>j. load_nat (m_words v) (s + w * j) w) (s5_base w (s5_rc v) (m_words v))
        (s5_rela w (s5_rc v) (m_words v)) r = s5_select1 w v r"
    and "s5_sel0_cache v = Some s \<Longrightarrow>
      s5_fast_select0 (m_words v) (\<lambda>j. load_nat (m_words v) (s + w * j) w) (s5_base w (s5_rc v) (m_words v))
        (s5_rela w (s5_rc v) (m_words v)) r = s5_select0 w v r"
  by (simp_all add: s5_fast_select1_def s5_select1_def s5_load_select1_cache_safe_def
      s5_fast_select0_def s5_select0_def s5_load_select0_cache_safe_def)

section \<open>Building the cache\<close>

lemma same_below_store_bytes:
  "w \<le> 8 \<Longrightarrow> pos + w \<le> 8 * length ws \<Longrightarrow> off \<le> pos \<Longrightarrow> same_below off ws (store_bytes ws pos w x)"
  unfolding same_below_def by (simp add: wbit_store_bytes)

lemma same_below_load_bytes:
  "same_below off a b \<Longrightarrow> n \<le> 8 \<Longrightarrow> pos + n \<le> off \<Longrightarrow> load_bytes b pos n = load_bytes a pos n"
  by (rule load_bytes_cong) (auto simp: same_below_def)

lemma zero_bytes_same_below:
  assumes "b \<le> 8 * length ws"
  shows "same_below a ws (zero_bytes ws a b)"
proof (cases "a \<le> b")
  case True
  then show ?thesis using assms
  proof (induction rule: dec_induct)
    case (step n)
    then show ?case
      using same_below_store [of 1 n "zero_bytes ws a n" a 0]
      by (auto simp: zero_bytes_def same_below_def)
  qed (simp add: zero_bytes_def)
qed (simp add: zero_bytes_def)

lemma s5_entry_store:
  fixes us :: "u64 list" and ws :: "u64 list"
  assumes w: "w \<in> {4, 8}" and len: "rc + (w + 8) * i + w + 8 \<le> 8 * length ws" and R: "R < 2 ^ (8 * w)"
    and us: "us = store_bytes (store_nat ws (rc + (w + 8) * i) w R) (rc + (w + 8) * i + w) 8 x"
  shows "same_below (rc + (w + 8) * i) ws us" and "s5_base w rc us i = R" and "s5_rela w rc us i = x"
proof -
  let ?o = "rc + (w + 8) * i"
  have w8: "w \<le> 8" using w by auto
  define ts where "ts = store_nat ws ?o w R"
  have lt: "length ts = length ws" by (simp add: ts_def)
  have a: "same_below ?o ws ts" unfolding ts_def using w8 len by (intro same_below_store) auto
  have b: "same_below (?o + w) ts us" unfolding us ts_def [symmetric] using len lt by (intro same_below_store_bytes) auto
  show "same_below ?o ws us" using a same_below_mono [OF b, of ?o] by (auto elim: same_below_trans)
  have "s5_base w rc us i = s5_base w rc ts i"
    unfolding s5_base_def using w8 by (intro same_below_load [OF b]) auto
  also have "\<dots> = R" unfolding s5_base_def ts_def using w8 len R by (intro load_store_nat_same) auto
  finally show "s5_base w rc us i = R" .
  have "take_bit 64 x = x" by (rule bit_word_eqI) (simp add: bit_take_bit_iff)
  then show "s5_rela w rc us i = x"
    unfolding s5_rela_def us ts_def [symmetric] using len lt by (simp add: load_store_same)
qed

lemma s5_entry_other:
  assumes "same_below (rc + (w + 8) * n) ws us" and "i < n" and "w \<le> 8"
  shows "s5_base w rc us i = s5_base w rc ws i" and "s5_rela w rc us i = s5_rela w rc ws i"
proof -
  have "(w + 8) * i + (w + 8) \<le> (w + 8) * n" using assms(2) by (metis Suc_leI mult_le_mono2 mult_Suc_right add.commute)
  then show "s5_base w rc us i = s5_base w rc ws i" "s5_rela w rc us i = s5_rela w rc ws i"
    unfolding s5_base_def s5_rela_def using assms(3)
    by (auto intro!: same_below_load [OF assms(1)] same_below_load_bytes [OF assms(1)])
qed

lemma s5_cache_line_fold:
  fixes ws0 :: "u64 list"
  assumes w: "w \<in> {4, 8}" and len: "64 * n + (w + 8) * n \<le> 8 * length ws0" and k: "k \<le> n"
    and small: "\<And>i. i \<le> n \<Longrightarrow> bcount (wbit ws0) 0 (512 * i) < 2 ^ (8 * w)"
  shows "case fold (s5_cache_line w (64 * n)) [0..<k] (ws0, 0) of (ws, R) \<Rightarrow>
    same_below (64 * n) ws0 ws \<and> R = bcount (wbit ws0) 0 (512 * k) \<and>
    (\<forall>i<k. s5_base w (64 * n) ws i = bcount (wbit ws0) 0 (512 * i) \<and>
      (\<forall>j<63. bit (s5_rela w (64 * n) ws i) j =
         bit (bcount (wbit ws0) (512 * i) (512 * i + 64 * (j div 9 + 1))) (j mod 9)))"
  using k
proof (induction k)
  case 0
  then show ?case by simp
next
  case (Suc k)
  let ?rc = "64 * n"
  have w8: "w \<le> 8" using w by auto
  obtain ws R where st: "fold (s5_cache_line w ?rc) [0..<k] (ws0, 0) = (ws, R)" by fastforce
  from Suc st have IH: "same_below ?rc ws0 ws" "R = bcount (wbit ws0) 0 (512 * k)"
    "\<And>i. i < k \<Longrightarrow> s5_base w ?rc ws i = bcount (wbit ws0) 0 (512 * i)"
    "\<And>i j. i < k \<Longrightarrow> j < 63 \<Longrightarrow> bit (s5_rela w ?rc ws i) j =
       bit (bcount (wbit ws0) (512 * i) (512 * i + 64 * (j div 9 + 1))) (j mod 9)" by auto
  have lw: "length ws = length ws0" using IH(1) by (simp add: same_below_def)
  have bw: "wbit ws i = wbit ws0 i" if "i < 512 * n" for i using that IH(1) by (simp add: same_below_def)
  have cong: "bcount (wbit ws) (512 * k) m = bcount (wbit ws0) (512 * k) m" if "m \<le> 512 * (k + 1)" for m
    using that Suc.prems bw by (intro bcount_cong) auto
  obtain r x where sx: "fold (s5_cache_word ws k) [0..<8] (0, 0) = (r, x)" by fastforce
  have X: "r = bcount (wbit ws0) (512 * k) (512 * k + 512)"
    "\<And>j. j < 63 \<Longrightarrow> bit x j = bit (bcount (wbit ws0) (512 * k) (512 * k + 64 * (j div 9 + 1))) (j mod 9)"
    using s5_rela_fold [of 8 ws k] cong unfolding sx by auto
  define y where "y = x AND drop_bit 1 (- 1)"
  have y: "bit y j = bit x j" if "j < 63" for j using that by (simp add: y_def bit_simps)
  define us where "us = store_bytes (store_nat ws (?rc + (w + 8) * k) w R) (?rc + (w + 8) * k + w) 8 y"
  have "(w + 8) * k + (w + 8) \<le> (w + 8) * n" using Suc.prems by (metis Suc_le_eq Suc_leI mult_le_mono2 mult_Suc_right add.commute)
  then have off: "?rc + (w + 8) * k + w + 8 \<le> 8 * length ws" using len lw by simp
  have Rs: "R < 2 ^ (8 * w)" using IH(2) small [of k] Suc.prems by simp
  note E = s5_entry_store [OF w off Rs us_def]
  note O = s5_entry_other [OF E(1) _ w8]
  have all: "same_below ?rc ws0 us" using IH(1) same_below_mono [OF E(1), of ?rc] by (auto elim: same_below_trans)
  have "R + r = bcount (wbit ws0) 0 (512 * Suc k)"
    using IH(2) X(1) bcount_split [of 0 "512 * k" "512 * k + 512" "wbit ws0"] by (simp add: add.commute)
  moreover have "s5_base w ?rc us i = bcount (wbit ws0) 0 (512 * i)" if "i < Suc k" for i
    using that O(1) [of i] E(2) IH(2,3) by (cases "i = k") auto
  moreover have "bit (s5_rela w ?rc us i) j = bit (bcount (wbit ws0) (512 * i) (512 * i + 64 * (j div 9 + 1))) (j mod 9)"
    if "i < Suc k" "j < 63" for i j
    using that O(2) [of i] E(3) X(2) y IH(4) by (cases "i = k") auto
  moreover have "fold (s5_cache_line w ?rc) [0..<Suc k] (ws0, 0) = (us, R + r)"
    using st sx by (simp add: s5_cache_line_def Let_def us_def y_def LineBits512_def)
  ultimately show ?case using all by simp
qed

lemma s5_field_le: "i < n \<Longrightarrow> j < 63 \<Longrightarrow> 512 * i + 64 * (j div 9 + 1) \<le> 512 * n" for i j n :: nat
proof -
  assume "i < n" "j < 63"
  moreover define q where "q = j div 9"
  ultimately have "q \<le> 6" "Suc i \<le> n" by (auto simp: div_le_mono)
  then show ?thesis unfolding q_def [symmetric] by simp
qed

lemma s5_cache_ok_cong:
  assumes "s5_cache_ok w (64 * n) ws n" and "w \<le> 8" and "\<And>i. i < 8 * (64 * n + (w + 8) * (n + 1)) \<Longrightarrow> wbit ws' i = wbit ws i"
  shows "s5_cache_ok w (64 * n) ws' n"
proof -
  have le: "(w + 8) * i + (w + 8) \<le> (w + 8) * (n + 1)" if "i \<le> n" for i
    using that by (metis Suc_eq_plus1 Suc_le_mono mult_le_mono2 mult_Suc_right add.commute)
  have bc: "bcount (wbit ws') a b = bcount (wbit ws) a b" if "b \<le> 512 * n" for a b
    using that by (intro bcount_cong assms(3)) auto
  have "s5_base w (64 * n) ws' i = s5_base w (64 * n) ws i" if "i \<le> n" for i
    unfolding s5_base_def by (rule load_nat_cong [OF assms(2)], rule assms(3))
      (use le [OF that] in \<open>simp only: distrib_left distrib_right\<close>)
  moreover have "s5_rela w (64 * n) ws' i = s5_rela w (64 * n) ws i" if "i \<le> n" for i
    unfolding s5_rela_def by (rule load_bytes_cong [OF order_refl], rule assms(3))
      (use le [OF that] in \<open>simp only: distrib_left distrib_right\<close>)
  moreover have "bcount (wbit ws') 0 (512 * i) = bcount (wbit ws) 0 (512 * i)" if "i \<le> n" for i
    using that by (intro bc) simp
  moreover have "bcount (wbit ws') (512 * i) (512 * i + 64 * (j div 9 + 1)) = bcount (wbit ws) (512 * i) (512 * i + 64 * (j div 9 + 1))"
    if "i < n" "j < 63" for i j
    using that by (intro bc s5_field_le)
  ultimately show ?thesis using assms(1) by (simp add: s5_cache_ok_def)
qed

lemma s5_cache_sentinel:
  fixes ws0 :: "u64 list"
  assumes w: "w \<in> {4, 8}" and len: "64 * n + (w + 8) * (n + 1) \<le> 8 * length ws0"
    and small: "\<And>i. i \<le> n \<Longrightarrow> bcount (wbit ws0) 0 (512 * i) < 2 ^ (8 * w)"
    and st: "fold (s5_cache_line w (64 * n)) [0..<n] (ws0, 0) = (ws, R)"
    and xs: "xs = store_bytes (store_nat ws (64 * n + (w + 8) * n) w R) (64 * n + (w + 8) * n + w) 8 0"
  shows "same_below (64 * n) ws0 xs" and "R = bcount (wbit ws0) 0 (512 * n)" and "s5_cache_ok w (64 * n) xs n"
proof -
  have w8: "w \<le> 8" using w by auto
  have len1: "64 * n + (w + 8) * n \<le> 8 * length ws0" using len by simp
  have f: "same_below (64 * n) ws0 ws" "R = bcount (wbit ws0) 0 (512 * n)"
    "\<And>i. i < n \<Longrightarrow> s5_base w (64 * n) ws i = bcount (wbit ws0) 0 (512 * i)"
    "\<And>i j. i < n \<Longrightarrow> j < 63 \<Longrightarrow> bit (s5_rela w (64 * n) ws i) j =
       bit (bcount (wbit ws0) (512 * i) (512 * i + 64 * (j div 9 + 1))) (j mod 9)"
    using s5_cache_line_fold [OF w len1 order_refl small] unfolding st prod.case by auto
  have lw: "length ws = length ws0" using f(1) by (simp add: same_below_def)
  have off: "64 * n + (w + 8) * n + w + 8 \<le> 8 * length ws" using len lw by simp
  have Rs: "R < 2 ^ (8 * w)" using f(2) small [of n] by simp
  note E = s5_entry_store [OF w off Rs xs]
  note O = s5_entry_other [OF E(1) _ w8]
  show all: "same_below (64 * n) ws0 xs" using f(1) same_below_mono [OF E(1), of "64 * n"] by (auto elim: same_below_trans)
  show "R = bcount (wbit ws0) 0 (512 * n)" by (rule f(2))
  have bc: "bcount (wbit xs) a b = bcount (wbit ws0) a b" if "b \<le> 512 * n" for a b
    using that all by (intro bcount_cong) (auto simp: same_below_def)
  have "s5_base w (64 * n) xs i = bcount (wbit xs) 0 (512 * i)" if "i \<le> n" for i
    using that O(1) [of i] E(2) f(2,3) bc by (cases "i = n") auto
  moreover have "bit (s5_rela w (64 * n) xs i) j = bit (bcount (wbit xs) (512 * i) (512 * i + 64 * (j div 9 + 1))) (j mod 9)"
    if "i < n" "j < 63" for i j
    using that O(2) [of i] f(4) bc [OF s5_field_le [OF that]] by simp
  ultimately show "s5_cache_ok w (64 * n) xs n" using E(3) by (simp add: s5_cache_ok_def)
qed

text \<open>Where the parts of the cache are: enough to find them again from the words alone.\<close>

definition s5_placed :: "nat \<Rightarrow> bool \<Rightarrow> bool \<Rightarrow> rank_select_se_512 \<Rightarrow> bool" where
  "s5_placed w b0 b1 d \<longleftrightarrow>
     (let sel = 64 * s5_lines d + (w + 8) * (s5_lines d + 1) in
      s5_sel0_cache d = (if b0 then Some sel else None) \<and>
      s5_sel1_cache d =
        (if b1 then Some (sel + (if b0 then w * (ceiled_div (s5_max_rank0 d) 512 + 1) else 0)) else None) \<and>
      load_bytes (m_words d) (8 * length (m_words d) - 8) 8 =
        push_bit 8 (of_nat (m_size d)) OR push_bit 1 (of_bool b1) OR push_bit 0 (of_bool b0))"

lemma s5_finish_ok:
  fixes c :: rank_select_se_512 and b0 b1 :: bool
  defines "n \<equiv> s5_lines c" and "R \<equiv> bcount (wbit (m_words c)) 0 (m_size c)"
  defines "s0 \<equiv> ceiled_div (m_size c - R) 512" and "s1 \<equiv> ceiled_div R 512"
  assumes w: "w \<in> {4, 8}" and sel: "sel = 64 * n + (w + 8) * (n + 1)"
    and ok: "febitvec_ok c" "m_size c < 2 ^ (8 * w)" "s5_cache_ok w (64 * n) (m_words c) n"
    and tail: "\<And>i. m_size c \<le> i \<Longrightarrow> i < 512 * n \<Longrightarrow> \<not> wbit (m_words c) i"
    and len: "sel + (if b0 then w * (s0 + 1) else 0) + (if b1 then w * (s1 + 1) else 0) + 8 \<le> 8 * length (m_words c)"
    and fl: "fl = push_bit 8 (of_nat (m_size c)) OR push_bit 1 (of_bool b1) OR push_bit 0 (of_bool b0)"
  shows "\<exists>ws sel0 sel1. sel_tables (\<lambda>ws k. k * 512 - s5_base w (64 * n) ws k) (s5_base w (64 * n)) 512 w b0 b1
       sel s0 s1 n (m_words c) = Some (ws, sel0, sel1) \<and>
     (\<forall>d. d = c\<lparr>m_words := store_bytes ws (8 * length (m_words c) - 8) 8 fl, s5_rank_cache := Some (64 * n),
        s5_sel0_cache := sel0, s5_sel1_cache := sel1, s5_max_rank0 := m_size c - R, s5_max_rank1 := R\<rparr> \<longrightarrow>
       s5_ok w d \<and> febitvec_bits d = febitvec_bits c \<and> s5_placed w b0 b1 d)"
proof -
  have w8: "w \<le> 8" using w by auto
  let ?g1 = "\<lambda>k. bcount (wbit (m_words c)) 0 (512 * k)" and ?g0 = "\<lambda>k. k * 512 - bcount (wbit (m_words c)) 0 (512 * k)"
  define sel1 where "sel1 = sel + (if b0 then w * (s0 + 1) else 0)"
  have size: "m_size c \<le> 512 * n" by (simp add: n_def s5_cover)
  have R: "?g1 n = R" unfolding R_def using size tail by (intro bcount_zero_tail) auto
  have entry: "64 * n + (w + 8) * k + w \<le> sel" if "k \<le> n" for k
    using mult_le_mono2 [OF that, of "w + 8"] unfolding sel by (simp only: distrib_left distrib_right)
  have lev: "s5_base w (64 * n) us k = ?g1 k" if "same_below sel (m_words c) us" "k \<le> n" for us k
  proof -
    have "s5_base w (64 * n) us k = s5_base w (64 * n) (m_words c) k"
      unfolding s5_base_def by (rule same_below_load [OF that(1) w8 entry [OF that(2)]])
    with ok(3) that(2) show ?thesis by (simp add: s5_cache_ok_def)
  qed
  have "n \<le> m_size c" unfolding n_def s5_lines_def ceiled_div_def by linarith
  then have n: "n < 2 ^ (8 * w)" using ok(2) by simp
  have t0: "512 * j \<le> ?g0 n" if "j < s0" for j
    using slots_top [of 512 j "m_size c - R"] that size R by (simp add: s0_def)
  have t1: "512 * j \<le> ?g1 n" if "j < s1" for j
    using slots_top [of 512 j R] that R by (simp add: s1_def)
  have l: "sel1 + (if b1 then w * (s1 + 1) else 0) \<le> 8 * length (m_words c)" using len by (simp add: sel1_def)
  obtain ws where ws: "sel_tables (\<lambda>ws k. k * 512 - s5_base w (64 * n) ws k) (s5_base w (64 * n)) 512 w b0 b1 sel s0 s1 n (m_words c)
      = Some (ws, if b0 then Some sel else None, if b1 then Some sel1 else None)"
    and sb: "same_below sel (m_words c) ws"
    and tab0: "b0 \<Longrightarrow> sel_table_ok ?g0 512 (\<lambda>j. load_nat ws (sel + w * j) w) s0 n"
    and tab1: "b1 \<Longrightarrow> sel_table_ok ?g1 512 (\<lambda>j. load_nat ws (sel1 + w * j) w) s1 n"
    using sel_tables_ok [OF sel1_def, of "m_words c" n "\<lambda>ws k. k * 512 - s5_base w (64 * n) ws k" ?g0 "s5_base w (64 * n)" ?g1
        b1 s1 512, OF _ w8 n l t0 t1] lev by auto
  define xs where "xs = store_bytes ws (8 * length (m_words c) - 8) 8 fl"
  have lw: "length ws = length (m_words c)" "length xs = length (m_words c)" using sb by (simp_all add: xs_def same_below_def)
  have keep: "wbit xs i = wbit ws i" if "i < 64 * length (m_words c) - 64" for i
    using that lw len unfolding xs_def by (subst wbit_store_bytes) auto
  have below: "wbit xs i = wbit (m_words c) i" if "i < 8 * sel" for i
    using that keep [of i] len sb by (simp add: same_below_def)
  have ld: "load_nat xs (t + w * j) w = load_nat ws (t + w * j) w"
    if "t + w * (s + 1) + 8 \<le> 8 * length (m_words c)" "j \<le> s" for t j s
  proof (rule load_nat_cong [OF w8], rule keep)
    fix i assume "i < 8 * (t + w * j + w)"
    moreover have "w * j \<le> w * s" using that(2) by (rule mult_le_mono2)
    moreover have "t + (w * s + w) + 8 \<le> 8 * length (m_words c)" using that(1) by (simp add: add.commute)
    ultimately have "i + 64 < 64 * length (m_words c)" by arith
    then show "i < 64 * length (m_words c) - 64" by simp
  qed
  define d where "d = c\<lparr>m_words := xs, s5_rank_cache := Some (64 * n), s5_sel0_cache := if b0 then Some sel else None,
    s5_sel1_cache := if b1 then Some sel1 else None, s5_max_rank0 := m_size c - R, s5_max_rank1 := R\<rparr>"
  have dl: "s5_lines d = n" by (simp add: d_def n_def s5_lines_def)
  have fok: "febitvec_ok d" using ok(1) lw by (auto simp: d_def febitvec_ok_def)
  have cache: "s5_cache_ok w (64 * n) xs n" using below unfolding sel by (rule s5_cache_ok_cong [OF ok(3) w8])
  have low: "512 * n \<le> 8 * sel" by (simp add: sel)
  have Rd: "bcount (wbit xs) 0 (m_size c) = R" unfolding R_def using size below low by (intro bcount_cong) auto
  have levx: "s5_base w (64 * n) xs k = ?g1 k" if "k \<le> n" for k
    using that below lw by (intro lev) (auto simp: same_below_def)
  have "s5_sel0_ok w d" unfolding s5_sel0_ok_def
  proof (intro allI impI)
    fix s assume "s5_sel0_cache d = Some s"
    then have b: b0 and s: "s = sel" by (auto simp: d_def split: if_splits)
    have "sel_table_ok (\<lambda>k. 512 * k - s5_base w (64 * n) xs k) 512 (\<lambda>j. load_nat xs (sel + w * j) w) s0 n"
      by (rule sel_table_cong [OF tab0 [OF b]]) (use len b in \<open>auto simp: levx intro!: ld [of sel s0]\<close>)
    then show "sel_table_ok (\<lambda>k. 512 * k - s5_base w (s5_rc d) (m_words d) k) 512 (\<lambda>j. load_nat (m_words d) (s + w * j) w)
       (ceiled_div (s5_max_rank0 d) 512) (s5_lines d)"
      by (simp add: dl s s5_rc_def s0_def) (simp add: d_def)
  qed
  moreover have "s5_sel1_ok w d" unfolding s5_sel1_ok_def
  proof (intro allI impI)
    fix s assume "s5_sel1_cache d = Some s"
    then have b: b1 and s: "s = sel1" by (auto simp: d_def split: if_splits)
    have fit: "sel1 + w * (s1 + 1) + 8 \<le> 8 * length (m_words c)" using len b by (simp add: sel1_def)
    have "sel_table_ok (s5_base w (64 * n) xs) 512 (\<lambda>j. load_nat xs (sel1 + w * j) w) s1 n"
      by (rule sel_table_cong [OF tab1 [OF b] levx ld [OF fit]])
    then show "sel_table_ok (s5_base w (s5_rc d) (m_words d)) 512 (\<lambda>j. load_nat (m_words d) (s + w * j) w)
       (ceiled_div (s5_max_rank1 d) 512) (s5_lines d)"
      by (simp add: dl s s5_rc_def s1_def) (simp add: d_def)
  qed
  ultimately have sok: "s5_ok w d"
    using fok ok(2) cache Rd tail below size low w by (simp add: s5_ok_def dl) (simp add: d_def)
  have bits: "febitvec_bits d = febitvec_bits c"
    using below size low by (intro febitvec_bits_eqI) (simp_all add: d_def febitvec_bits_nth)
  have "take_bit 64 fl = fl" by (rule bit_word_eqI) (simp add: bit_take_bit_iff)
  then have "load_bytes xs (8 * length xs - 8) 8 = fl"
    using len lw unfolding xs_def by (simp add: load_store_same)
  then have "s5_placed w b0 b1 d"
    unfolding s5_placed_def dl fl Let_def sel [symmetric] by (simp add: d_def sel1_def s0_def)
  with sok bits ws show ?thesis by (auto simp: d_def xs_def)
qed

lemma s5_tail_fit:
  "64 * n + p \<le> 8 * lb \<Longrightarrow> a + b \<le> 4 * u \<Longrightarrow> cap = 64 * lb \<Longrightarrow> cap + 32 * (u + 2) \<le> 64 * lc \<Longrightarrow>
   64 * n + p + a + b + 8 \<le> 8 * lc" for n p lb a b u cap lc :: nat
  by simp

lemma s5_build_select_ok:
  fixes b :: rank_select_se_512 and b0 b1 :: bool
  defines "n \<equiv> s5_lines b" and "R \<equiv> bcount (wbit (m_words b)) 0 (m_size b)"
  assumes w: "w \<in> {4, 8}" and ok: "febitvec_ok b" "m_size b < 2 ^ (8 * w)" "s5_cache_ok w (64 * n) (m_words b) n"
    and tail: "\<And>i. m_size b \<le> i \<Longrightarrow> i < 512 * n \<Longrightarrow> \<not> wbit (m_words b) i"
    and len: "64 * n + (w + 8) * (n + 1) \<le> 8 * length (m_words b)" and env: "\<not> has_valgrind env"
  shows "case s5_build_select env w b b0 b1 (64 * n) n R of None \<Rightarrow> False | Some (Inl e) \<Rightarrow> e = Bad_alloc
    | Some (Inr d) \<Rightarrow> s5_ok w d \<and> febitvec_bits d = febitvec_bits b \<and> s5_placed w b0 b1 d"
proof -
  define s0 s1 where "s0 = ceiled_div (m_size b - R) 512" and "s1 = ceiled_div R 512"
  define sel where "sel = 64 * n + (w + 8) * (n + 1)"
  define u where "u = (1 + (if b0 then s0 + 1 else 0) * (w div 4) + (if b1 then s1 + 1 else 0) * (w div 4)) div 2 * 2"
  have run: "s5_build_select env w b b0 b1 (64 * n) n R =
    (case febitvec_reserve env b (m_capacity b + 32 * (u + 2)) of Inl e \<Rightarrow> Some (Inl e)
     | Inr c \<Rightarrow> (case sel_tables (\<lambda>ws k. k * 512 - s5_base w (64 * n) ws k) (s5_base w (64 * n)) 512 w b0 b1
         sel s0 s1 n (zero_bytes (m_words c) sel (8 * (m_capacity c div 64))) of None \<Rightarrow> None
       | Some (ws, sel0, sel1) \<Rightarrow> Some (Inr (c\<lparr>m_words := store_bytes ws (8 * (m_capacity c div 64) - 8) 8
           (push_bit 8 (of_nat (m_size c)) OR push_bit 1 (of_bool b1) OR push_bit 0 (of_bool b0)),
           s5_rank_cache := Some (64 * n), s5_sel0_cache := sel0, s5_sel1_cache := sel1,
           s5_max_rank0 := m_size b - R, s5_max_rank1 := R\<rparr>))))"
    unfolding s5_build_select_def LineBits512_def WordBits_def Let_def s0_def s1_def u_def sel_def ceiled_div_def by (rule refl)
  show ?thesis
  proof (cases "febitvec_reserve env b (m_capacity b + 32 * (u + 2))")
    case (Inl e)
    then show ?thesis unfolding run using febitvec_reserve_error [OF Inl] by simp
  next
    case r: (Inr r)
    note rok = febitvec_reserve_ok [OF ok(1) r]
    note rw = febitvec_reserve_words [OF ok(1) r env]
    have capr: "m_capacity r = 64 * length (m_words r)" using rok(1) by (rule febitvec_ok_cap)
    define c where "c = r\<lparr>m_words := zero_bytes (m_words r) sel (8 * (m_capacity r div 64))\<rparr>"
    have z: "same_below sel (m_words r) (m_words c)"
      unfolding c_def by (simp add: zero_bytes_same_below capr)
    then have lc: "length (m_words c) = length (m_words r)" by (simp add: same_below_def)
    have cok: "febitvec_ok c" using rok(1) lc by (auto simp: febitvec_ok_def c_def)
    have cs: "m_size c = m_size b" "s5_lines c = n" using rok(2) by (simp_all add: n_def s5_lines_def c_def)
    have bx: "wbit (m_words c) i = wbit (m_words b) i" if "i < 8 * (64 * n + (w + 8) * (n + 1))" for i
      using that rw len z by (simp add: same_below_def sel_def)
    have size: "m_size b \<le> 512 * n" by (simp add: n_def s5_cover)
    have Rc: "R = bcount (wbit (m_words c)) 0 (m_size b)"
      unfolding R_def using bx size by (intro bcount_cong) auto
    have "m_capacity b + 32 * (u + 2) \<le> 64 * length (m_words c)" using rok(3) capr lc by simp
    moreover have "m_capacity b = 64 * length (m_words b)" by (rule febitvec_ok_cap [OF ok(1)])
    moreover have "(if b0 then w * (s0 + 1) else 0) + (if b1 then w * (s1 + 1) else 0) \<le> 4 * u"
      using w unfolding u_def by (cases b0; cases b1) (auto simp: algebra_simps)
    ultimately have fin: "sel + (if b0 then w * (s0 + 1) else 0) + (if b1 then w * (s1 + 1) else 0) + 8 \<le> 8 * length (m_words c)"
      unfolding sel_def by (intro s5_tail_fit [OF len])
    from s5_finish_ok [of w sel c b0 b1, unfolded cs Rc [symmetric] s0_def [symmetric] s1_def [symmetric],
        OF w sel_def cok ok(2) s5_cache_ok_cong [OF ok(3) _ bx] _ fin refl]
    obtain ys sel0 sel1 where ys: "sel_tables (\<lambda>ws k. k * 512 - s5_base w (64 * n) ws k) (s5_base w (64 * n)) 512 w b0 b1
         sel s0 s1 n (m_words c) = Some (ys, sel0, sel1)"
      and D: "\<And>d. d = c\<lparr>m_words := store_bytes ys (8 * length (m_words c) - 8) 8
           (push_bit 8 (of_nat (m_size b)) OR push_bit 1 (of_bool b1) OR push_bit 0 (of_bool b0)),
           s5_rank_cache := Some (64 * n), s5_sel0_cache := sel0, s5_sel1_cache := sel1,
           s5_max_rank0 := m_size b - R, s5_max_rank1 := R\<rparr> \<Longrightarrow>
        s5_ok w d \<and> febitvec_bits d = febitvec_bits c \<and> s5_placed w b0 b1 d"
      using bx tail w by (auto simp del: One_nat_def)
    have bits: "febitvec_bits c = febitvec_bits b"
      using bx cs size by (intro febitvec_bits_eqI) (auto simp: febitvec_bits_nth)
    have "sel_tables (\<lambda>ws k. k * 512 - s5_base w (64 * n) ws k) (s5_base w (64 * n)) 512 w b0 b1
         sel s0 s1 n (zero_bytes (m_words r) sel (8 * (m_capacity r div 64))) = Some (ys, sel0, sel1)"
      using ys by (simp add: c_def)
    moreover have "8 * (m_capacity r div 64) - 8 = 8 * length (m_words c) - 8" "m_size r = m_size b"
      using capr lc rok(2) by simp_all
    ultimately show ?thesis
      unfolding run r sum.case using D [OF refl] bits by (simp only: option.case prod.case sum.case) (simp add: c_def)
  qed
qed

lemma s5_build_cache_run:
  fixes v :: rank_select_se_512
  defines "n \<equiv> s5_lines v"
  assumes w: "w \<in> {4, 8}" and "febitvec_ok v" and "\<not> m_null v" and size: "m_size v < 2 ^ (8 * w)"
    and a: "febitvec_shrink_to_fit env v = Inr a" and b: "febitvec_reserve env a (512 * n + (n + 1) * (w + 8) * 8) = Inr b"
  shows "\<exists>xs. febitvec_ok (b\<lparr>m_words := xs\<rparr>) \<and> m_size b = m_size v \<and> 64 * n + (w + 8) * (n + 1) \<le> 8 * length xs \<and>
    (\<forall>i<512 * n. wbit xs i = (wbit (m_words v) i \<and> i < m_size v)) \<and> s5_cache_ok w (64 * n) xs n \<and>
    s5_build_cache env w v b0 b1 =
      s5_build_select env w (b\<lparr>m_words := xs\<rparr>) b0 b1 (64 * n) n (bcount (wbit xs) 0 (m_size v))"
proof -
  have ceil: "align_up (m_size v) 512 = 512 * n" by (simp add: align_up_def n_def s5_lines_def ceiled_div_def)
  have cover: "m_size v \<le> 512 * n" by (simp add: n_def s5_cover)
  note aok = febitvec_shrink_ok [OF assms(3) a assms(4)]
  have as: "m_size a = m_size v" using arg_cong [OF aok(2), of length] by simp
  note bok = febitvec_reserve_ok [OF aok(1) b]
  have bs: "m_size b = m_size v" using bok(2) as by simp
  have cap: "m_capacity b = 64 * length (m_words b)" using bok(1) by (rule febitvec_ok_cap)
  define ws0 where "ws0 = bits_range_set0 (m_words b) (m_size v) (512 * n)"
  have "(n + 1) * (w + 8) = (w + 8) * (n + 1)" by (rule mult.commute)
  then have "512 * n + (w + 8) * (n + 1) * 8 \<le> 64 * length ws0" using bok(3) cap by (simp only: ws0_def length_bits_range_set)
  then have len: "64 * n + (w + 8) * (n + 1) \<le> 8 * length ws0" by simp
  then have len': "512 * n \<le> 64 * length (m_words b)" by (simp add: ws0_def)
  have w0: "wbit ws0 i = (wbit (m_words v) i \<and> i < m_size v)" if "i < 512 * n" for i
  proof -
    have "wbit (m_words b) i = wbit (m_words v) i" if "i < m_size v"
      using that bok(4) [of i] aok(2) as febitvec_bits_nth [of i a] febitvec_bits_nth [of i v] by simp
    then show ?thesis using that len' cover unfolding ws0_def by (subst wbit_bits_range_set0) auto
  qed
  have total: "bcount (wbit ws0) 0 (512 * n) = bcount (wbit ws0) 0 (m_size v)"
    using w0 cover by (intro bcount_zero_tail) auto
  have small: "bcount (wbit ws0) 0 (512 * i) < 2 ^ (8 * w)" if "i \<le> n" for i
    using line_rank_mono [OF that, of "wbit ws0" 512] total bcount_le [of "wbit ws0" 0 "m_size v"] size by simp
  obtain ws R where st: "fold (s5_cache_line w (64 * n)) [0..<n] (ws0, 0) = (ws, R)" by fastforce
  define xs where "xs = store_bytes (store_nat ws (64 * n + (w + 8) * n) w R) (64 * n + (w + 8) * n + w) 8 0"
  note C = s5_cache_sentinel [OF w len small st xs_def]
  have lx: "length xs = length (m_words b)" "\<And>i. i < 512 * n \<Longrightarrow> wbit xs i = wbit ws0 i"
    using C(1) by (simp_all add: same_below_def ws0_def)
  have "bcount (wbit ws0) 0 (m_size v) = bcount (wbit xs) 0 (m_size v)"
    using lx(2) cover by (intro bcount_cong) auto
  then have R: "bcount (wbit xs) 0 (m_size v) = R" using C(2) total by simp
  have "febitvec_ok (b\<lparr>m_words := xs\<rparr>)" using bok(1) lx(1) by (auto simp: febitvec_ok_def)
  moreover have "s5_check_overflow w (m_size v) = Inr ()"
    using size by (auto simp: s5_check_overflow_def rank_select_check_overflow_def)
  then have "s5_build_cache env w v b0 b1 = s5_build_select env w (b\<lparr>m_words := xs\<rparr>) b0 b1 (64 * n) n R"
    using assms(4) a b st
    unfolding s5_build_cache_def s5_shrink_to_fit_def LineBits512_def WordBits_def Let_def
    by (simp add: as bs ceil ws0_def [symmetric] xs_def)
  moreover have "64 * n + (w + 8) * (n + 1) \<le> 8 * length xs" using len lx(1) by (simp add: ws0_def)
  ultimately show ?thesis using bs w0 lx(2) C(3) by (intro exI [of _ xs] conjI) (simp_all only: R, simp)
qed

lemma s5_build_cache_ok:
  assumes w: "w \<in> {4, 8}" and "febitvec_ok v" and "\<not> m_null v" and env: "\<not> has_valgrind env" and size8: "m_size v < 2 ^ 64"
  shows "case s5_build_cache env w v b0 b1 of None \<Rightarrow> False | Some (Inl e) \<Rightarrow> e = Abort \<or> e = Bad_alloc
    | Some (Inr d) \<Rightarrow> s5_ok w d \<and> febitvec_bits d = febitvec_bits v \<and> s5_placed w b0 b1 d"
proof (cases "s5_check_overflow w (m_size v) = Inr ()")
  case False
  then show ?thesis by (simp add: s5_build_cache_def)
next
  case chk: True
  then have size: "m_size v < 2 ^ (8 * w)"
    using w size8 by (auto simp: s5_check_overflow_def rank_select_check_overflow_def split: if_splits)
  let ?n = "s5_lines v"
  have ceil: "align_up (m_size v) 512 = 512 * ?n" by (simp add: align_up_def s5_lines_def ceiled_div_def)
  show ?thesis
  proof (cases "febitvec_shrink_to_fit env v")
    case (Inl e)
    then show ?thesis using chk assms(3) febitvec_shrink_error [OF Inl]
      by (simp add: s5_build_cache_def s5_shrink_to_fit_def)
  next
    case a: (Inr a)
    have as: "m_size a = m_size v" using febitvec_shrink_ok(2) [OF assms(2) a assms(3)] by (metis length_febitvec_bits)
    show ?thesis
    proof (cases "febitvec_reserve env a (512 * ?n + (?n + 1) * (w + 8) * 8)")
      case (Inl e)
      then show ?thesis using chk assms(3) a as febitvec_reserve_error [OF Inl]
        by (simp add: s5_build_cache_def s5_shrink_to_fit_def LineBits512_def ceil Let_def)
    next
      case b: (Inr b)
      from s5_build_cache_run [OF w assms(2,3) size a b, of b0 b1] obtain xs where
        X: "febitvec_ok (b\<lparr>m_words := xs\<rparr>)" "m_size b = m_size v" "64 * ?n + (w + 8) * (?n + 1) \<le> 8 * length xs"
          "\<And>i. i < 512 * ?n \<Longrightarrow> wbit xs i = (wbit (m_words v) i \<and> i < m_size v)" "s5_cache_ok w (64 * ?n) xs ?n"
        and run: "s5_build_cache env w v b0 b1 =
          s5_build_select env w (b\<lparr>m_words := xs\<rparr>) b0 b1 (64 * ?n) ?n (bcount (wbit xs) 0 (m_size v))" by blast
      have "s5_lines (b\<lparr>m_words := xs\<rparr>) = ?n" using X(2) by (simp add: s5_lines_def)
      moreover have "febitvec_bits (b\<lparr>m_words := xs\<rparr>) = febitvec_bits v"
        using X(2,4) s5_cover [of v] by (intro febitvec_bits_eqI) (auto simp: febitvec_bits_nth)
      ultimately show ?thesis
        using s5_build_select_ok [OF w, of "b\<lparr>m_words := xs\<rparr>" env b0 b1] X size env
        by (auto simp: run split: option.splits sum.splits)
    qed
  qed
qed

text \<open>When memory is granted, only the size limit of the 32 bit version can stop the construction.\<close>

lemma s5_build_cache_granted:
  assumes w: "w \<in> {4, 8}" and "febitvec_ok v" and "\<not> has_valgrind env" and "\<And>n. alloc_ok env n" and "m_size v < 2 ^ (8 * w)"
  shows "\<exists>d. s5_build_cache env w v b0 b1 = Some (Inr d)"
proof (cases "m_null v")
  case True
  then show ?thesis using assms(5) by (auto simp: s5_build_cache_def s5_check_overflow_def rank_select_check_overflow_def)
next
  case False
  obtain a where a: "febitvec_shrink_to_fit env v = Inr a" using febitvec_shrink_total [OF assms(4)] by blast
  obtain b where b: "febitvec_reserve env a (512 * s5_lines v + (s5_lines v + 1) * (w + 8) * 8) = Inr b"
    using febitvec_reserve_total [OF assms(4)] by blast
  from s5_build_cache_run [OF w assms(2) False assms(5) a b, of b0 b1] obtain c R where
    run: "s5_build_cache env w v b0 b1 = s5_build_select env w c b0 b1 (64 * s5_lines v) (s5_lines v) R" by blast
  obtain e where e: "febitvec_reserve env c n = Inr (e n)" for n
    using febitvec_reserve_total [OF assms(4), of c] by metis
  have "s5_build_cache env w v b0 b1 \<noteq> Some (Inl x)" for x
    unfolding run s5_build_select_def Let_def e sum.case by (auto split: option.splits prod.splits)
  moreover have "m_size v < 2 ^ 64" using w assms(5) by auto
  ultimately show ?thesis
    using s5_build_cache_ok [OF w assms(2) False assms(3), of b0 b1] by (auto split: option.splits sum.splits)
qed

section \<open>Mapping a built dictionary\<close>

lemma s5_total: "s5_ok w v \<Longrightarrow> bcount (wbit (m_words v)) 0 (512 * s5_lines v) = s5_max_rank1 v"
  using s5_cover [of v] unfolding s5_ok_def by (metis bcount_zero_tail)

lemma s5_mmap_image:
  assumes ok: "s5_ok w d" and pl: "s5_placed w b0 b1 d" and "\<not> m_null d" and size: "m_size d < 2 ^ 56"
  shows "s5_mmap_from w (m_words d) = d"
proof -
  let ?n = "s5_lines d"
  have ceil: "align_up (m_size d) 512 = 512 * ?n" by (simp add: align_up_def s5_lines_def ceiled_div_def)
  have fl: "load_bytes (m_words d) (8 * length (m_words d) - 8) 8 =
      push_bit 8 (of_nat (m_size d)) OR push_bit 1 (of_bool b1) OR push_bit 0 (of_bool b0)"
    using pl by (simp add: s5_placed_def Let_def)
  have R: "s5_base w (64 * ?n) (m_words d) ?n = s5_max_rank1 d"
    using s5_ok_base [OF ok order_refl] s5_total [OF ok] by (simp add: s5_ok_rc [OF ok])
  have cap: "m_capacity d = 64 * length (m_words d)" using ok by (simp add: s5_ok_def febitvec_ok_cap)
  have f: "s5_rank_cache d = Some (64 * ?n)" "s5_max_rank0 d = m_size d - s5_max_rank1 d"
    using ok by (simp_all add: s5_ok_def)
  show ?thesis
    using pl assms(3) f cap
    unfolding s5_mmap_from_def Let_def LineBits512_def WordBits_def fl se_flags [OF size] ceil s5_placed_def
    by (cases b0; cases b1) (simp_all add: R ceiled_div_def)
qed

section \<open>Properties\<close>

text \<open>C7: a dictionary built by \<open>rank_select_se_512\<close>, with 32 or 64 bit ranks and with or without
  select tables, keeps the bits of the vector; rank1 counts the ones and rank0 the zeros below a position, select1 and
  select0 return the position of the r-th one and zero, and rank and select are inverse to each other.\<close>

theorem s5_build_queries:
  assumes "w \<in> {4, 8}" and "febitvec_ok v" and "\<not> m_null v" and "\<not> has_valgrind env" and "m_size v < 2 ^ 64"
    and "s5_build_cache env w v b0 b1 = Some (Inr d)"
  shows "febitvec_bits d = febitvec_bits v \<and>
    (\<forall>p\<le>m_size d. s5_rank1 w d p = count_list (take p (febitvec_bits v)) True) \<and>
    (\<forall>r < s5_max_rank1 d. \<exists>p < m_size d. s5_select1 w d r = Some p \<and> febitvec_bits v ! p \<and> s5_rank1 w d p = r) \<and>
    (\<forall>r < s5_max_rank0 d. \<exists>p < m_size d. s5_select0 w d r = Some p \<and> \<not> febitvec_bits v ! p \<and> s5_rank0 w d p = r) \<and>
    (\<forall>i<m_size d. febitvec_bits v ! i \<longrightarrow> s5_select1 w d (s5_rank1 w d i) = Some i) \<and>
    (\<forall>p\<le>m_size d. s5_rank0 w d p = count_list (take p (febitvec_bits v)) False) \<and>
    s5_max_rank1 d = count_list (febitvec_bits v) True \<and> s5_max_rank0 d = count_list (febitvec_bits v) False"
proof -
  have ok: "s5_ok w d" "febitvec_bits d = febitvec_bits v"
    using s5_build_cache_ok [OF assms(1-5), of b0 b1] assms(6) by simp_all
  have sel: "s5_select1 w d r = Some (the (s5_select1 w d r))" if "r < s5_max_rank1 d" for r
    using s5_select1_correct [OF ok(1) that] by auto
  have sel0: "s5_select0 w d r = Some (the (s5_select0 w d r))" if "r < s5_max_rank0 d" for r
    using s5_select0_correct [OF ok(1) that] by auto
  have "s5_select1 w d (s5_rank1 w d i) = Some i" if "i < m_size d" "wbit (m_words d) i" for i
    using sel [of "s5_rank1 w d i"] se512.select1_rank1 [OF ok(1) that] se512.rank1_less_max [OF ok(1) that] by simp
  moreover have "\<exists>p < m_size d. s5_select1 w d r = Some p \<and> wbit (m_words d) p \<and> s5_rank1 w d p = r"
    if "r < s5_max_rank1 d" for r
    using sel [OF that] se512.select1_less [OF ok(1) that] se512.bits_select1 [OF ok(1) that] se512.rank1_select1 [OF ok(1) that] by blast
  moreover have "\<exists>p < m_size d. s5_select0 w d r = Some p \<and> \<not> wbit (m_words d) p \<and> s5_rank0 w d p = r"
    if "r < s5_max_rank0 d" for r
    using sel0 [OF that] se512.select0_less [OF ok(1) that] se512.bits_select0 [OF ok(1) that] se512.rank0_select0 [OF ok(1) that] by blast
  ultimately show ?thesis
    using se512.rank1_count [OF ok(1)] se512.rank0_count [OF ok(1)] se512.max_rank1_count [OF ok(1)] se512.max_rank0_count [OF ok(1)]
    by (simp add: ok(2) [symmetric] febitvec_bits_nth count_list_bits count_all_bits cong: conj_cong)
qed

definition s5_sample :: rank_select_se_512 where
  "s5_sample = \<lparr>m_words = [0xB], m_null = False, m_size = 4, m_capacity = 64,
     s5_rank_cache = None, s5_sel0_cache = None, s5_sel1_cache = None, s5_max_rank0 = 0, s5_max_rank1 = 0\<rparr>"

lemma s5_sample_ok:
  "febitvec_ok s5_sample" "\<not> m_null s5_sample" "m_size s5_sample = 4"
  "febitvec_bits s5_sample = [True, True, False, True]"
  by (code_simp, code_simp, simp add: s5_sample_def, code_simp)

theorem s5_build_queries_witness:
  "\<exists>d. s5_build_cache plain_heap 4 s5_sample True True = Some (Inr d) \<and>
     febitvec_bits d = [True, True, False, True] \<and> s5_rank1 4 d 4 = 3"
proof -
  obtain d where d: "s5_build_cache plain_heap 4 s5_sample True True = Some (Inr d)"
    using s5_build_cache_granted [OF _ s5_sample_ok(1) se_sample_ok(5) plain_heap_ok, of 4 True True] by (auto simp: s5_sample_ok)
  have q: "febitvec_bits d = febitvec_bits s5_sample \<and>
      (\<forall>p\<le>m_size d. s5_rank1 4 d p = count_list (take p (febitvec_bits s5_sample)) True)"
    using s5_build_queries [OF _ s5_sample_ok(1,2) se_sample_ok(5) _ d] by (simp add: s5_sample_ok)
  then have b: "febitvec_bits d = [True, True, False, True]" by (simp add: s5_sample_ok)
  have "m_size d = 4" using length_febitvec_bits [of d] unfolding b by simp
  with q have "s5_rank1 4 d 4 = count_list (take 4 [True, True, False, True]) True"
    by (simp add: s5_sample_ok(4))
  with d b show ?thesis by simp
qed

text \<open>Building and mapping \<open>rank_select_se_512\<close>: when memory is granted and the vector has less than
  2^32 bits for 32 bit ranks, less than 2^56 for 64 bit ranks, the construction returns, and mapping the
  memory of the result yields the same dictionary, for each choice of tables.\<close>

theorem s5_build_mmap_roundtrip:
  assumes "w \<in> {4, 8}" and "febitvec_ok v" and "\<not> m_null v" and "\<not> has_valgrind env" and "\<And>n. alloc_ok env n"
    and "m_size v < (if w = 4 then 2 ^ 32 else 2 ^ 56)"
  shows "\<exists>d. s5_build_cache env w v b0 b1 = Some (Inr d) \<and> s5_mmap_from w (m_words d) = d\<lparr>m_null := False\<rparr> \<and>
    8 * length (m_words d) = s5_mem_size d"
proof -
  have sz: "m_size v < 2 ^ (8 * w)" "m_size v < 2 ^ 64" "m_size v < 2 ^ 56" using assms(1,6) by auto
  obtain d where d: "s5_build_cache env w v b0 b1 = Some (Inr d)"
    using s5_build_cache_granted [OF assms(1,2,4,5) sz(1)] by blast
  have ok: "s5_ok w d" "s5_placed w b0 b1 d" "febitvec_bits d = febitvec_bits v"
    using s5_build_cache_ok [OF assms(1-4) sz(2), of b0 b1] d by simp_all
  have "m_size d < 2 ^ 56" using arg_cong [OF ok(3), of length] sz(3) by simp
  moreover have "s5_ok w (d\<lparr>m_null := False\<rparr>)" "s5_placed w b0 b1 (d\<lparr>m_null := False\<rparr>)"
    using ok by (auto simp: s5_ok_def febitvec_ok_def s5_lines_def s5_placed_def s5_sel0_ok_def s5_sel1_ok_def s5_rc_def)
  ultimately have "s5_mmap_from w (m_words d) = d\<lparr>m_null := False\<rparr>"
    using s5_mmap_image [of w "d\<lparr>m_null := False\<rparr>" b0 b1] by simp
  moreover have "8 * length (m_words d) = s5_mem_size d"
    using ok by (simp add: s5_ok_def s5_mem_size_def febitvec_ok_cap)
  ultimately show ?thesis using d by blast
qed

theorem s5_build_mmap_roundtrip_witness:
  "\<exists>d. s5_build_cache plain_heap 8 s5_sample False True = Some (Inr d) \<and>
     s5_mmap_from 8 (m_words d) = d\<lparr>m_null := False\<rparr> \<and> 8 * length (m_words d) = s5_mem_size d"
  by (rule s5_build_mmap_roundtrip [OF _ s5_sample_ok(1,2) se_sample_ok(5) plain_heap_ok])
    (simp_all add: s5_sample_ok)

text \<open>The size check of the constructor \<open>rank_select_se_512(n, valvec_no_init)\<close> never fires: it looks
  at the size before the vector has it.  A vector of 2^32 bits is made, and \<open>build_cache\<close> dies on it,
  where \<open>rank_select_se\<close> refuses the size at once.\<close>

theorem s5_init_check_is_void:
  "\<exists>v. s5_init_no_init plain_heap 4 (2 ^ 32) = Inr v \<and> m_size v = 2 ^ 32 \<and>
     s5_build_cache plain_heap 4 v False False = Some (Inl Abort) \<and> se_init_no_init plain_heap (2 ^ 32) = Inl Abort"
proof -
  obtain b where b: "febitvec_resize_no_init plain_heap febitvec_null (2 ^ 32) = Inr b"
    using febitvec_resize_no_init_total [OF plain_heap_ok] by blast
  have "m_size b = 2 ^ 32" using febitvec_resize_no_init_ok(2) [OF febitvec_null_ok(1) b] .
  then have m: "m_size (s5_extend b) = 2 ^ 32"
    by (simp add: s5_extend_def febitvec.defs rank_select_se_512.defs)
  have "s5_init_no_init plain_heap 4 (2 ^ 32) = Inr (s5_extend b)"
    unfolding s5_init_no_init_def b by (simp add: s5_check_overflow_def rank_select_check_overflow_def febitvec_null_def)
  moreover have "s5_build_cache plain_heap 4 (s5_extend b) False False = Some (Inl Abort)"
    unfolding s5_build_cache_def m by (simp add: s5_check_overflow_def rank_select_check_overflow_def)
  moreover have "se_init_no_init plain_heap (2 ^ 32) = Inl Abort"
    by (simp add: se_init_no_init_def rank_select_check_overflow_def)
  ultimately show ?thesis using m by blast
qed

end
