(* ===== verification/Var_Int.thy ===== *)
theory Var_Int
  imports Topling_Prelude
begin

text \<open>
  Variable length integers (\<open>src/terark/io/var_int.hpp\<close>, \<open>var_int.cpp\<close> and \<open>var_int_inline.hpp\<close>): groups of
  seven bits with a continuation flag, the 30 and 61 bit formats whose first bits are the number of
  extra bytes, the mapping of signed to unsigned integers, and reading backwards.  A buffer that is
  read is the list of its bytes from the read position on, and a read returns the bytes behind the
  integer; reading past the last byte is \<open>Out_of_range\<close> (the stream versions throw there, for the
  pointer versions it is undefined).  A save returns the bytes it writes.  The branches for MSVC and
  for big endian machines are not modelled.
\<close>

section \<open>Seven bits at a time\<close>

definition var_uint_maxshift :: "nat \<Rightarrow> nat" where
  "var_uint_maxshift sizeof = (if sizeof = 4 then 28 else 63)"

function gg_load_var_uint_loop :: "nat \<Rightarrow> nat \<Rightarrow> 'a::len word \<Rightarrow> u8 list \<Rightarrow> ('a word \<times> u8 list) res" where
  "gg_load_var_uint_loop maxshift shift x p =
     (if shift \<le> maxshift
      then case p of
             [] \<Rightarrow> Inl Out_of_range
           | c # p \<Rightarrow>
             let b = ucast c; x = x OR push_bit shift (b AND 0x7F)
             in if b AND 0x80 = 0 then Inr (x, p) else gg_load_var_uint_loop maxshift (shift + 7) x p
      else Inl Runtime_error)"
  by pat_completeness auto
termination
  by (relation "measure (\<lambda>(m, s, x, p). length p)") auto

declare gg_load_var_uint_loop.simps [simp del]

definition gg_load_var_uint :: "u8 list \<Rightarrow> ('a::len word \<times> u8 list) res" where
  "gg_load_var_uint buf = gg_load_var_uint_loop (var_uint_maxshift (LENGTH('a) div 8)) 0 0 buf"

lemma unat_drop_div: "unat (drop_bit n x) = unat x div 2 ^ n"
  by (subst unat_drop_bit_eq) (rule drop_bit_eq_div)

function gg_save_var_uint :: "'a::len word \<Rightarrow> u8 list" where
  "gg_save_var_uint x =
     (let b = ucast (x AND 0x7F); x = drop_bit 7 x
      in if x \<noteq> 0 then (b OR 0x80) # gg_save_var_uint x else [b])"
  by pat_completeness auto
termination
proof (relation "measure unat")
  fix x xa :: "'a word" and b :: u8
  assume xa: "xa = drop_bit 7 x" and nz: "xa \<noteq> 0"
  have "unat xa = unat x div 2 ^ 7" unfolding xa by (rule unat_drop_div)
  moreover have "unat x \<noteq> 0" using xa nz by (auto simp: unsigned_eq_0_iff)
  ultimately show "(xa, x) \<in> measure unat" by simp
qed simp

declare gg_save_var_uint.simps [simp del]

definition load_var_uint32 :: "u8 list \<Rightarrow> (u32 \<times> u8 list) res" where "load_var_uint32 buf = gg_load_var_uint buf"
definition load_var_uint64 :: "u8 list \<Rightarrow> (u64 \<times> u8 list) res" where "load_var_uint64 buf = gg_load_var_uint buf"
definition save_var_uint32 :: "u32 \<Rightarrow> u8 list" where "save_var_uint32 x = gg_save_var_uint x"
definition save_var_uint64 :: "u64 \<Rightarrow> u8 list" where "save_var_uint64 x = gg_save_var_uint x"

text \<open>The macro \<open>FAST_READ_VAR_UINT32\<close>, at most five bytes into a \<open>size_t\<close>, without a check of the last.\<close>

fun fast_read_var_uint32_step :: "nat \<Rightarrow> nat \<Rightarrow> u64 \<Rightarrow> u8 list \<Rightarrow> (u64 \<times> u8 list) res" where
  "fast_read_var_uint32_step n shift result [] = Inl Out_of_range"
| "fast_read_var_uint32_step n shift result (c # pos) =
     (let tmp = ucast c; result = result OR push_bit shift (tmp AND 0x7F)
      in if tmp AND 0x80 \<noteq> 0 \<and> 0 < n then fast_read_var_uint32_step (n - 1) (shift + 7) result pos
         else Inr (result, pos))"

definition fast_read_var_uint32 :: "u8 list \<Rightarrow> (u64 \<times> u8 list) res" where
  "fast_read_var_uint32 pos = fast_read_var_uint32_step 4 0 0 pos"

section \<open>Signed integers\<close>

text \<open>The lowest bit is the sign; the least integer, whose negation does not exist, is 1.\<close>

definition min_int :: "'a::len word" where "min_int = push_bit (LENGTH('a) - 1) 1"

definition var_int_s2u :: "'a::len word \<Rightarrow> 'a word" where
  "var_int_s2u x =
     (if x <s 0 then if min_int = x then 1 else push_bit 1 (- x) OR 1
      else push_bit 1 x)"

definition var_int_u2s :: "'a::len word \<Rightarrow> 'a word" where
  "var_int_u2s u =
     (if u AND 1 \<noteq> 0 then if 0 = drop_bit 1 u then min_int else - drop_bit 1 u
      else drop_bit 1 u)"

definition load_var_int :: "u8 list \<Rightarrow> ('a::len word \<times> u8 list) res" where
  "load_var_int buf = bind_res (gg_load_var_uint buf) (\<lambda>(x, p). Inr (var_int_u2s x, p))"

definition save_var_int :: "'a::len word \<Rightarrow> u8 list" where
  "save_var_int x = gg_save_var_uint (var_int_s2u x)"

section \<open>30 and 61 bits, the length in front\<close>

text \<open>Little endian value of the first \<open>n\<close> bytes; the code reads them as one word.\<close>

fun le_word :: "u8 list \<Rightarrow> 'a::len word" where
  "le_word [] = 0"
| "le_word (b # bs) = ucast b OR push_bit 8 (le_word bs)"

definition gg_load_var_uint30 :: "u8 list \<Rightarrow> (u32 \<times> u8 list) res" where
  "gg_load_var_uint30 buf =
     (if length buf < 4 then Inl Out_of_range
      else let x = le_word (take 4 buf);
               n = unat (x AND 3);
               x = x AND drop_bit (24 - n * 8) 0xFFFFFFFF
           in Inr (drop_bit 2 x, drop (n + 1) buf))"

definition gg_load_var_uint61 :: "u8 list \<Rightarrow> (u64 \<times> u8 list) res" where
  "gg_load_var_uint61 buf =
     (if length buf < 8 then Inl Out_of_range
      else let x = le_word (take 8 buf);
               n = unat (x AND 7);
               x = x AND drop_bit (56 - n * 8) 0xFFFFFFFFFFFFFFFF
           in Inr (drop_bit 3 x, drop (n + 1) buf))"

text \<open>The versions for streams read byte by byte, the last one first into the high bits.\<close>

definition gg_load_var_uint30_slow :: "u8 list \<Rightarrow> (u32 \<times> u8 list) res" where
  "gg_load_var_uint30_slow s =
     (case s of [] \<Rightarrow> Inl Out_of_range
      | c # s \<Rightarrow>
        let x = ucast c; n = unat (x AND 3) in
        if length s < n then Inl Out_of_range
        else let y = fold (\<lambda>b y. push_bit 8 y OR ucast b) (take n s) 0
             in Inr (drop_bit 2 (x OR push_bit 8 y), drop n s))"

definition gg_load_var_uint61_slow :: "u8 list \<Rightarrow> (u64 \<times> u8 list) res" where
  "gg_load_var_uint61_slow s =
     (case s of [] \<Rightarrow> Inl Out_of_range
      | c # s \<Rightarrow>
        let x = ucast c; n = unat (x AND 7) in
        if length s < n then Inl Out_of_range
        else let y = fold (\<lambda>b y. push_bit 8 y OR ucast b) (take n s) 0
             in Inr (drop_bit 3 (x OR push_bit 8 y), drop n s))"

text \<open>\<open>assert\<close> fails with \<open>Abort\<close> when the code is compiled with assertions.\<close>

definition gg_save_var_uint30 :: "bool \<Rightarrow> u32 \<Rightarrow> u8 list res" where
  "gg_save_var_uint30 asserts x =
     (if asserts \<and> \<not> x < push_bit 30 1 then Inl Abort
      else let x = push_bit 2 x; byte = (\<lambda>k. ucast (drop_bit (8 * k) x)) in
        Inr (if x AND 0xFFFF0000 = 0
             then if x AND 0xFF00 = 0 then [ucast x]
                  else [ucast (x OR 1), byte 1]
             else if x AND 0xFF000000 = 0 then [ucast (x OR 2), byte 1, byte 2]
                  else [ucast (x OR 3), byte 1, byte 2, byte 3]))"

definition gg_save_var_uint61 :: "bool \<Rightarrow> u64 \<Rightarrow> u8 list res" where
  "gg_save_var_uint61 asserts x =
     (if asserts \<and> \<not> x < push_bit 30 1 then Inl Abort
      else let x = push_bit 3 x; byte = (\<lambda>k. ucast (drop_bit (8 * k) x)) in
        Inr (if x AND 0xFFFFFFFF00000000 = 0
             then if x AND 0xFFFF0000 = 0
                  then if x AND 0xFF00 = 0 then [ucast x]
                       else [ucast (x OR 1), byte 1]
                  else if x AND 0xFF000000 = 0 then [ucast (x OR 2), byte 1, byte 2]
                       else [ucast (x OR 3), byte 1, byte 2, byte 3]
             else if x AND 0xFFFF000000000000 = 0
                  then if x AND 0x0000FF0000000000 = 0 then [ucast (x OR 4), byte 1, byte 2, byte 3, byte 4]
                       else [ucast (x OR 5), byte 1, byte 2, byte 3, byte 4, byte 5]
                  else if x AND 0xFF00000000000000 = 0
                       then [ucast (x OR 6), byte 1, byte 2, byte 3, byte 4, byte 5, byte 6]
                       else [ucast (x OR 7), byte 1, byte 2, byte 3, byte 4, byte 5, byte 6, byte 7]))"

definition load_var_int30 :: "u8 list \<Rightarrow> (u32 \<times> u8 list) res" where
  "load_var_int30 buf = bind_res (gg_load_var_uint30 buf) (\<lambda>(x, p). Inr (var_int_u2s x, p))"
definition load_var_int61 :: "u8 list \<Rightarrow> (u64 \<times> u8 list) res" where
  "load_var_int61 buf = bind_res (gg_load_var_uint61 buf) (\<lambda>(x, p). Inr (var_int_u2s x, p))"
definition save_var_int30 :: "bool \<Rightarrow> u32 \<Rightarrow> u8 list res" where
  "save_var_int30 asserts x = gg_save_var_uint30 asserts (var_int_s2u x)"
definition save_var_int61 :: "bool \<Rightarrow> u64 \<Rightarrow> u8 list res" where
  "save_var_int61 asserts x = gg_save_var_uint61 asserts (var_int_s2u x)"

section \<open>Reading backwards\<close>

text \<open>
  The bytes before the position, last one first; the result has the bytes in front of the integer, in
  the same order.  \<open>limit\<close> is the bound on the shift that only the 64 bit version has.
\<close>

fun reverse_get_loop :: "nat option \<Rightarrow> 'a::len word \<Rightarrow> nat \<Rightarrow> u8 list \<Rightarrow> 'a word \<times> nat \<times> u8 list" where
  "reverse_get_loop limit x shift [] = (x, shift, [])"
| "reverse_get_loop limit x shift (b # p) =
     (if (case limit of Some m \<Rightarrow> shift < m | None \<Rightarrow> True) \<and> b AND 0x80 \<noteq> 0
      then reverse_get_loop limit (push_bit 7 x OR ucast (b AND 0x7F)) (shift + 7) p
      else (x, shift, b # p))"

definition reverse_get :: "nat option \<Rightarrow> u8 list \<Rightarrow> ('a::len word \<times> u8 list) res" where
  "reverse_get limit cur =
     (case cur of [] \<Rightarrow> Inl Out_of_range
      | c # p \<Rightarrow>
        let (x, shift, p) = reverse_get_loop limit 0 0 p
        in Inr (x OR push_bit shift (ucast c), p))"

definition reverse_get_var_uint32 :: "u8 list \<Rightarrow> (u32 \<times> u8 list) res" where
  "reverse_get_var_uint32 cur = reverse_get None cur"
definition reverse_get_var_uint64 :: "u8 list \<Rightarrow> (u64 \<times> u8 list) res" where
  "reverse_get_var_uint64 cur = reverse_get (Some 56) cur"
definition reverse_get_var_int32 :: "u8 list \<Rightarrow> (u32 \<times> u8 list) res" where
  "reverse_get_var_int32 cur = bind_res (reverse_get_var_uint32 cur) (\<lambda>(x, p). Inr (var_int_u2s x, p))"
definition reverse_get_var_int64 :: "u8 list \<Rightarrow> (u64 \<times> u8 list) res" where
  "reverse_get_var_int64 cur = bind_res (reverse_get_var_uint64 cur) (\<lambda>(x, p). Inr (var_int_u2s x, p))"

section \<open>Round trips of the seven bit format\<close>

text \<open>The simplifier reads bits of word numerals on integers.\<close>

lemma bit_80: "bit (0x80 :: int) n \<longleftrightarrow> n = 7"
proof -
  have e: "0x80 = (push_bit 7 1 :: int)" by simp
  show ?thesis unfolding e by (simp only: bit_push_bit_iff bit_1_iff) auto
qed

lemma bit_7F: "bit (0x7F :: int) n \<longleftrightarrow> n < 7"
proof -
  have e: "0x7F = (mask 7 :: int)" by (simp add: mask_eq_exp_minus_1)
  show ?thesis unfolding e by (simp add: bit_mask_iff)
qed

lemma flag_byte:
  fixes x :: "'a::len word"
  defines "b \<equiv> ucast (x AND 0x7F) :: u8"
  shows "ucast (b OR 0x80) AND 0x7F = take_bit 7 x" and "ucast b AND 0x7F = take_bit 7 x"
    and "8 \<le> LENGTH('a) \<Longrightarrow> ucast (b OR 0x80) AND 0x80 \<noteq> (0 :: 'a word)" and "ucast b AND 0x80 = (0 :: 'a word)"
proof -
  show "ucast (b OR 0x80) AND 0x7F = take_bit 7 x" "ucast b AND 0x7F = take_bit 7 x"
    unfolding b_def by (rule bit_word_eqI; auto simp: bit_simps bit_80 bit_7F)+
  show "ucast b AND 0x80 = (0 :: 'a word)"
    unfolding b_def by (rule bit_word_eqI) (auto simp: bit_simps bit_80 bit_7F)
  assume "8 \<le> LENGTH('a)"
  then have "bit (ucast (b OR 0x80) AND 0x80 :: 'a word) 7"
    by (simp add: bit_simps bit_80)
  then show "ucast (b OR 0x80) AND 0x80 \<noteq> (0 :: 'a word)" by auto
qed

lemma load_save_loop:
  fixes x :: "'a::len word"
  assumes "8 \<le> LENGTH('a)" and "k \<le> m" and "unat x < 2 ^ (7 * (m + 1 - k))"
  shows "gg_load_var_uint_loop (7 * m) (7 * k) acc (gg_save_var_uint x @ rest) = Inr (acc OR push_bit (7 * k) x, rest)"
  using assms(2,3)
proof (induction x arbitrary: acc k rule: gg_save_var_uint.induct)
  case (1 x)
  note f = flag_byte [of x]
  have le: "7 * k \<le> 7 * m" using "1.prems"(1) by simp
  show ?case
  proof (cases "drop_bit 7 x = 0")
    case True
    then have x: "take_bit 7 x = x" using bits_ident [of 7 x] by simp
    show ?thesis
      using True unfolding gg_save_var_uint.simps [of x] Let_def
      by (subst gg_load_var_uint_loop.simps) (simp only: Let_def list.case append.simps f(2,4) x le if_True if_False simp_thms)
  next
    case False
    have u: "unat (drop_bit 7 x) = unat x div 2 ^ 7" by (rule unat_drop_div)
    have "unat x div 2 ^ 7 \<noteq> 0" using False u by (metis unsigned_eq_0_iff)
    then have "2 ^ 7 \<le> unat x" by (simp add: div_eq_0_iff)
    then have "(2::nat) ^ 7 < 2 ^ (7 * (m + 1 - k))" using "1.prems"(2) by linarith
    then have k: "Suc k \<le> m" using power_less_imp_less_exp [of "2::nat" 7 "7 * (m + 1 - k)"] by linarith
    have "2 ^ (7 * (m + 1 - k)) = (2::nat) ^ (7 * (m + 1 - Suc k)) * 2 ^ 7"
      using k unfolding power_add [symmetric] by (intro arg_cong [where f = "\<lambda>n. 2 ^ n"]) simp
    then have "unat (drop_bit 7 x) < 2 ^ (7 * (m + 1 - Suc k))"
      using "1.prems"(2) unfolding u by (simp add: div_less_iff_less_mult)
    from "1.IH" [OF refl refl False k this]
    have IH: "gg_load_var_uint_loop (7 * m) (7 * k + 7) acc' (gg_save_var_uint (drop_bit 7 x) @ rest) =
        Inr (acc' OR push_bit (7 * k + 7) (drop_bit 7 x), rest)" for acc'
      by (simp add: add.commute)
    have "push_bit (7 * k) (take_bit 7 x) OR push_bit (7 * k + 7) (drop_bit 7 x) = push_bit (7 * k) x"
    proof (rule bit_word_eqI)
      fix n
      have "7 + (n - (7 * k + 7)) = n - 7 * k" if "7 * k + 7 \<le> n" using that by simp
      then show "bit (push_bit (7 * k) (take_bit 7 x) OR push_bit (7 * k + 7) (drop_bit 7 x)) n = bit (push_bit (7 * k) x) n"
        by (cases "n < 7 * k + 7") (auto simp: bit_simps)
    qed
    then have e: "(acc OR push_bit (7 * k) (take_bit 7 x)) OR push_bit (7 * k + 7) (drop_bit 7 x) = acc OR push_bit (7 * k) x"
      by (simp only: or.assoc)
    then show ?thesis
      using False f(3) [OF assms(1)] unfolding gg_save_var_uint.simps [of x] Let_def
      by (subst gg_load_var_uint_loop.simps) (simp only: Let_def list.case append.simps f(1) IH le e if_True if_False simp_thms)
  qed
qed

lemma load_save_var_uint:
  fixes x :: "'a::len word"
  assumes "LENGTH('a) = 32 \<or> LENGTH('a) = 64"
  shows "gg_load_var_uint (gg_save_var_uint x @ rest) = Inr (x, rest)"
proof -
  define m where "m = (if LENGTH('a) = 32 then 4 else 9 :: nat)"
  have m: "var_uint_maxshift (LENGTH('a) div 8) = 7 * m" "8 \<le> LENGTH('a)" "LENGTH('a) \<le> 7 * (m + 1)"
    using assms by (auto simp: m_def var_uint_maxshift_def)
  have "unat x < 2 ^ LENGTH('a)" by (rule unsigned_less)
  also have "\<dots> \<le> 2 ^ (7 * (m + 1))" using m(3) by (rule power_increasing) simp
  finally have "unat x < 2 ^ (7 * (m + 1 - 0))" by simp
  from load_save_loop [OF m(2) le0 this, of 0 rest] show ?thesis
    by (simp add: gg_load_var_uint_def m(1))
qed

text \<open>Every group but the last has the flag, and there are as many as the value needs.\<close>

lemma byte_80: "(b :: u8) AND 0x80 \<noteq> 0 \<longleftrightarrow> bit b 7"
proof -
  have e: "b AND 0x80 = push_bit 7 (of_bool (bit b 7))"
  proof (rule bit_word_eqI)
    fix n assume "n < LENGTH(8)"
    then show "bit (b AND 0x80) n = bit (push_bit 7 (of_bool (bit b 7)) :: u8) n"
      by (cases "n = 7") (auto simp: bit_simps bit_80)
  qed
  show ?thesis unfolding e by simp
qed

lemma length_save_var_uint: "1 \<le> n \<Longrightarrow> length (gg_save_var_uint x) \<le> n \<longleftrightarrow> unat x < 2 ^ (7 * n)"
proof (induction x arbitrary: n rule: gg_save_var_uint.induct)
  case (1 x)
  have z: "drop_bit 7 x = 0 \<longleftrightarrow> unat x < 2 ^ 7"
    using unat_drop_div [of 7 x] by (metis div_eq_0_iff unsigned_eq_0_iff power_not_zero zero_neq_numeral)
  show ?case
  proof (cases "drop_bit 7 x = 0")
    case True
    then have "unat x < 2 ^ 7" using z by simp
    also have "\<dots> \<le> 2 ^ (7 * n)" using "1.prems" by (intro power_increasing) auto
    finally show ?thesis using True "1.prems" by (subst gg_save_var_uint.simps) (simp add: Let_def)
  next
    case False
    show ?thesis
    proof (cases "n = 1")
      case True
      have "length (gg_save_var_uint x) \<noteq> 1" "gg_save_var_uint x \<noteq> []"
        using False gg_save_var_uint.simps [of "drop_bit 7 x"]
        by (simp_all add: gg_save_var_uint.simps [of x] Let_def)
      then show ?thesis using True False z by (cases "gg_save_var_uint x") auto
    next
      case n: False
      have "unat x < 2 ^ (7 * n) \<longleftrightarrow> unat x div 2 ^ 7 < 2 ^ (7 * (n - 1))"
      proof -
        have "7 * n = 7 * (n - 1) + 7" using "1.prems" by simp
        then have "(2::nat) ^ (7 * n) = 2 ^ (7 * (n - 1)) * 2 ^ 7" by (metis power_add)
        then show ?thesis by (simp add: div_less_iff_less_mult)
      qed
      then show ?thesis
        using "1.IH" [OF refl refl False, of "n - 1"] False n "1.prems" unat_drop_div [of 7 x]
        by (subst gg_save_var_uint.simps) (auto simp: Let_def le_diff_conv2)
    qed
  qed
qed

section \<open>Every input\<close>

definition flagged :: "u8 \<Rightarrow> bool" where "flagged b \<longleftrightarrow> b AND 0x80 \<noteq> 0"

lemma flagged_bit: "flagged b \<longleftrightarrow> bit b 7"
  by (simp add: flagged_def byte_80)

lemma ucast_flagged: "8 \<le> LENGTH('a) \<Longrightarrow> ucast b AND 0x80 = (0 :: 'a::len word) \<longleftrightarrow> \<not> flagged b"
proof -
  assume "8 \<le> LENGTH('a)"
  have e: "ucast b AND 0x80 = (push_bit 7 (of_bool (bit b 7)) :: 'a word)"
  proof (rule bit_word_eqI)
    fix n assume "n < LENGTH('a)"
    then show "bit (ucast b AND 0x80 :: 'a word) n = bit (push_bit 7 (of_bool (bit b 7)) :: 'a word) n"
      by (cases "n = 7") (auto simp: bit_simps bit_80)
  qed
  have "bit (push_bit 7 1 :: 'a word) 7" using \<open>8 \<le> LENGTH('a)\<close> by (simp only: bit_push_bit_iff bit_1_iff) simp
  then have "push_bit 7 1 \<noteq> (0 :: 'a word)" by (metis bit_0_eq bot_apply bot_bool_def)
  then show ?thesis unfolding e flagged_bit by simp
qed

text \<open>The value of the groups from \<open>shift\<close> on.\<close>

fun group_value :: "nat \<Rightarrow> u8 list \<Rightarrow> 'a::len word" where
  "group_value s [] = 0"
| "group_value s (b # bs) = push_bit s (ucast b AND 0x7F) OR group_value (s + 7) bs"

lemma load_loop_spec:
  fixes acc :: "'a::len word"
  assumes L: "8 \<le> LENGTH('a)"
  shows "gg_load_var_uint_loop (7 * m) (7 * k) acc bs =
    (let n = length (takeWhile flagged bs) in
     if m < k + n then Inl Runtime_error
     else if n = length bs then Inl Out_of_range
     else Inr (acc OR group_value (7 * k) (take (n + 1) bs), drop (n + 1) bs))"
proof (induction bs arbitrary: k acc)
  case Nil
  then show ?case by (subst gg_load_var_uint_loop.simps) simp
next
  case (Cons b bs)
  have e: "7 * (k + 1) = 7 * k + 7" by simp
  have IH: "gg_load_var_uint_loop (7 * m) (7 * k + 7) acc bs =
    (let n = length (takeWhile flagged bs) in
     if m < k + 1 + n then Inl Runtime_error
     else if n = length bs then Inl Out_of_range
     else Inr (acc OR group_value (7 * k + 7) (take (n + 1) bs), drop (n + 1) bs))" for acc :: "'a word"
    using Cons.IH [of "k + 1" acc] unfolding e .
  show ?case
  proof (cases "m < k")
    case True
    then show ?thesis by (subst gg_load_var_uint_loop.simps) (simp add: Let_def)
  next
    case False
    then have le: "7 * k \<le> 7 * m" by simp
    show ?thesis
    proof (cases "flagged b")
      case True
      with False show ?thesis
        by (subst gg_load_var_uint_loop.simps)
          (simp only: le if_True if_False list.case Let_def ucast_flagged [OF L] simp_thms IH, simp add: or.assoc)
    next
      case nf: False
      with False show ?thesis
        by (subst gg_load_var_uint_loop.simps)
          (simp only: le if_True list.case Let_def ucast_flagged [OF L] simp_thms takeWhile.simps if_False, simp)
    qed
  qed
qed

lemma load_var_uint_spec:
  assumes "LENGTH('a) = 32 \<or> LENGTH('a) = 64"
  shows "(gg_load_var_uint bs :: ('a::len word \<times> u8 list) res) =
    (let n = length (takeWhile flagged bs) in
     if (if LENGTH('a) = 32 then 5 else 10) \<le> n then Inl Runtime_error
     else if n = length bs then Inl Out_of_range
     else Inr (group_value 0 (take (n + 1) bs), drop (n + 1) bs))"
proof -
  have L: "8 \<le> LENGTH('a)" using assms by auto
  have m: "var_uint_maxshift (LENGTH('a) div 8) = 7 * (if LENGTH('a) = 32 then 4 else 9)"
    using assms by (auto simp: var_uint_maxshift_def)
  show ?thesis
    unfolding gg_load_var_uint_def m using load_loop_spec [OF L, of "if LENGTH('a) = 32 then 4 else 9" 0 0 bs]
    by (auto simp: Let_def)
qed

lemma flagged_save_step:
  "flagged (ucast (x AND 0x7F) OR 0x80)" "\<not> flagged (ucast (x AND 0x7F) :: u8)" for x :: "'a::len word"
  by (simp_all add: flagged_bit bit_simps bit_80 bit_7F)

lemma fast_read_step:
  "fast_read_var_uint32_step n s acc bs = gg_load_var_uint_loop (s + 7 * n) s acc bs"
  if "length (takeWhile flagged bs) \<le> n"
  using that
proof (induction n s acc bs rule: fast_read_var_uint32_step.induct)
  case (1 n s acc)
  then show ?case by (subst gg_load_var_uint_loop.simps) simp
next
  case (2 n s acc c bs)
  have le: "s \<le> s + 7 * n" by simp
  have L: "8 \<le> LENGTH(64)" by simp
  show ?case
  proof (cases "flagged c")
    case True
    with 2(2) have n: "0 < n" "length (takeWhile flagged bs) \<le> n - 1" by auto
    then have e: "s + 7 + 7 * (n - 1) = s + 7 * n" by simp
    have "ucast c AND 0x80 \<noteq> (0 :: 64 word) \<and> 0 < n" using True n(1) ucast_flagged [OF L, of c] by simp
    from 2(1) [OF refl refl this n(2)] show ?thesis
      using True n(1) unfolding e
      by (subst gg_load_var_uint_loop.simps)
        (simp only: fast_read_var_uint32_step.simps le if_True if_False list.case Let_def ucast_flagged [OF L] simp_thms)
  next
    case False
    then show ?thesis
      by (subst gg_load_var_uint_loop.simps)
        (simp only: fast_read_var_uint32_step.simps le if_True if_False list.case Let_def ucast_flagged [OF L] simp_thms)
  qed
qed

section \<open>Signed integers\<close>

lemma bit_double: "bit (push_bit 1 x) n \<longleftrightarrow> 0 < n \<and> n < LENGTH('a) \<and> bit x (n - 1)" for x :: "'a::len word"
  by (simp only: bit_push_bit_iff) (auto simp: possible_bit_word)

lemma bit_half: "bit (drop_bit 1 x) n \<longleftrightarrow> bit x (n + 1)" for x :: "'a::len word"
  by (simp only: bit_drop_bit_eq o_apply) (simp add: add.commute)

lemma drop_push_1: "\<not> bit y (LENGTH('a) - 1) \<Longrightarrow> drop_bit 1 (push_bit 1 y) = y" for y :: "'a::len word"
proof (rule bit_word_eqI)
  fix n assume y: "\<not> bit y (LENGTH('a) - 1)" and n: "n < LENGTH('a)"
  have "n + 1 < LENGTH('a) \<or> n = LENGTH('a) - 1" using n by arith
  then show "bit (drop_bit 1 (push_bit 1 y)) n = bit y n"
    using y by (auto simp only: bit_half bit_double) auto
qed

lemma drop_push_or_1: "drop_bit 1 (push_bit 1 y OR 1) = drop_bit 1 (push_bit 1 y)" for y :: "'a::len word"
  by (rule bit_word_eqI) (simp only: bit_half bit_or_iff bit_1_iff, simp)

lemma neg_top: "x <s 0 \<longleftrightarrow> bit x (LENGTH('a) - 1)" for x :: "'a::len word"
  by (simp add: word_sless_alt bit_last_iff)

lemma neg_of_neg:
  fixes x :: "'a::len word"
  assumes "x <s 0" and "x \<noteq> min_int"
  shows "\<not> bit (- x) (LENGTH('a) - 1)"
proof -
  have p: "unat y < 2 ^ (LENGTH('a) - 1) \<longleftrightarrow> \<not> bit y (LENGTH('a) - 1)" for y :: "'a word"
  proof -
    have "bit y (LENGTH('a) - 1) \<longleftrightarrow> odd (unat y div 2 ^ (LENGTH('a) - 1))"
      by (simp only: bit_iff_odd [of "unat y", symmetric] bit_unsigned_iff) simp
    moreover have "unat y < 2 * 2 ^ (LENGTH('a) - 1)"
      using unsigned_less [of y] by (metis One_nat_def Suc_pred len_gt_0 power_Suc)
    then have "unat y div 2 ^ (LENGTH('a) - 1) < 2" by (simp add: div_less_iff_less_mult)
    ultimately show ?thesis by (cases "unat y div 2 ^ (LENGTH('a) - 1)") (auto simp: div_eq_0_iff)
  qed
  have top: "2 ^ (LENGTH('a) - 1) \<le> unat x" using assms(1) p [of x] by (simp add: neg_top)
  have "unat (min_int :: 'a word) = 2 ^ (LENGTH('a) - 1)"
    unfolding min_int_def by (rule bit_eqI) (auto simp: bit_unsigned_iff bit_push_bit_iff bit_1_iff bit_exp_iff)
  then have ne: "unat x \<noteq> 2 ^ (LENGTH('a) - 1)" using assms(2) by (metis word_unat_eq_iff)
  have two: "(2::nat) ^ LENGTH('a) = 2 * 2 ^ (LENGTH('a) - 1)" by (metis One_nat_def Suc_pred len_gt_0 power_Suc)
  have "x \<noteq> 0" using top by (metis unsigned_0 not_le zero_less_numeral zero_less_power)
  then have "0 < unat x" by (metis gr0I unsigned_eq_0_iff)
  have "(of_nat (2 ^ LENGTH('a) - unat x) :: 'a word) = - x"
    using unsigned_less [of x] by (simp add: of_nat_diff less_imp_le)
  then have "unat (- x) = unat (of_nat (2 ^ LENGTH('a) - unat x) :: 'a word)" by simp
  also have "\<dots> = 2 ^ LENGTH('a) - unat x"
    using \<open>0 < unat x\<close> by (simp add: unat_of_nat take_bit_nat_eq_self)
  finally have "unat (- x) = 2 ^ LENGTH('a) - unat x" .
  moreover have "unat x < 2 ^ LENGTH('a)" by (rule unsigned_less)
  ultimately have "unat (- x) < 2 ^ (LENGTH('a) - 1)" using top ne two by simp
  then show ?thesis using p [of "- x"] by simp
qed

lemma var_int_u2s_s2u [simp]: "var_int_u2s (var_int_s2u x) = x" for x :: "'a::len word"
proof (cases "x <s 0")
  case False
  then have t: "\<not> bit x (LENGTH('a) - 1)" by (simp add: neg_top)
  have "push_bit 1 x AND 1 = 0" by (rule bit_word_eqI) (simp only: bit_and_iff bit_double bit_1_iff bit_0_eq bot_apply bot_bool_def, auto)
  then show ?thesis using False drop_push_1 [OF t] by (simp add: var_int_s2u_def var_int_u2s_def)
next
  case neg: True
  show ?thesis
  proof (cases "x = min_int")
    case True
    have "drop_bit 1 (1 :: 'a word) = 0" by (rule bit_word_eqI) (simp only: bit_half bit_1_iff bit_0_eq bot_apply bot_bool_def, auto)
    then show ?thesis using True neg by (simp add: var_int_s2u_def var_int_u2s_def)
  next
    case False
    have "(push_bit 1 (- x) OR 1) AND 1 = 1" by (rule bit_word_eqI) (simp only: bit_and_iff bit_or_iff bit_double bit_1_iff, auto)
    moreover have "- x \<noteq> 0" using neg by auto
    ultimately show ?thesis
      using neg False drop_push_1 [OF neg_of_neg [OF neg False]] drop_push_or_1 [of "- x"]
      by (simp add: var_int_s2u_def var_int_u2s_def)
  qed
qed

section \<open>The formats with the length in front\<close>

lemma bit_le_word:
  "bit (le_word bs :: 'a::len word) n \<longleftrightarrow> n < LENGTH('a) \<and> n div 8 < length bs \<and> bit (bs ! (n div 8)) (n mod 8)"
proof (induction bs arbitrary: n)
  case (Cons b bs)
  show ?case
  proof (cases "n < 8")
    case True
    then show ?thesis by (auto simp: bit_simps)
  next
    case False
    then have "n div 8 = Suc ((n - 8) div 8)" "n mod 8 = (n - 8) mod 8"
      by (simp_all add: le_div_geq le_mod_geq)
    moreover have "\<not> bit b n" using False bit_imp_le_length [of b n] by auto
    ultimately show ?thesis using False Cons.IH [of "n - 8"] by (auto simp: bit_simps)
  qed
qed simp

definition prefix_bytes :: "'a::len word \<Rightarrow> nat \<Rightarrow> u8 list" where
  "prefix_bytes y n = ucast (y OR of_nat n) # map (\<lambda>k. ucast (drop_bit (8 * k) y)) [1..<n + 1]"

lemma bit_small: "n < 2 ^ t \<Longrightarrow> t \<le> k \<Longrightarrow> \<not> bit (of_nat n :: 'a::len word) k"
proof -
  assume a: "n < 2 ^ t" "t \<le> k"
  have "take_bit t n = n" using a(1) by (simp add: take_bit_nat_eq_self)
  then have "\<not> bit n k" using a(2) by (metis bit_take_bit_iff not_le)
  then show ?thesis by (simp add: bit_simps)
qed

lemma prefix_bytes_nth:
  fixes y :: "'a::len word"
  assumes "n < 2 ^ t" and "t \<le> 8" and "k \<le> n" and "j < 8"
  shows "bit (prefix_bytes y n ! k) j \<longleftrightarrow> bit (y OR of_nat n) (8 * k + j)"
proof (cases k)
  case 0
  then show ?thesis using assms(4) by (auto simp: prefix_bytes_def bit_simps)
next
  case (Suc i)
  have "prefix_bytes y n ! k = ucast (drop_bit (8 * k) y)" using assms(3) Suc by (simp add: prefix_bytes_def del: upt_Suc)
  moreover have "\<not> bit (of_nat n :: 'a word) (8 * k + j)"
    by (rule bit_small [OF assms(1)]) (use assms(2) Suc in simp)
  ultimately show ?thesis using assms(4) by (auto simp: bit_simps)
qed

text \<open>What the word read from the buffer is, and what is left after masking.\<close>

lemma prefix_word:
  fixes y :: "'a::len word"
  assumes L: "LENGTH('a) = 8 * N" "N = 2 ^ t" "t \<le> 3" and n: "n < N" and low: "\<forall>k < t. \<not> bit y k"
    and high: "\<forall>k \<ge> 8 * (n + 1). \<not> bit y k" and len: "N \<le> length (prefix_bytes y n @ rest)"
  defines "x \<equiv> le_word (take N (prefix_bytes y n @ rest)) :: 'a word"
  shows "unat (x AND mask t) = n" and "x AND drop_bit (8 * (N - 1) - n * 8) (- 1) = y OR of_nat n"
    and "drop_bit t (y OR of_nat n) = drop_bit t y" and "drop (n + 1) (prefix_bytes y n @ rest) = rest"
proof -
  have lp: "length (prefix_bytes y n) = n + 1" by (simp add: prefix_bytes_def)
  have n2: "n < 2 ^ t" using n L by simp
  have bx: "bit x k \<longleftrightarrow> bit (y OR of_nat n) k" if "k < 8 * (n + 1)" for k
  proof -
    have k: "k div 8 \<le> n" "k mod 8 < 8" "8 * (k div 8) + k mod 8 = k" using that by simp_all
    have "k < 8 * N" using that n by simp
    then have "bit x k \<longleftrightarrow> bit (prefix_bytes y n ! (k div 8)) (k mod 8)"
      using k(1) len lp n L(1) by (simp add: x_def bit_le_word nth_append)
    also have "\<dots> \<longleftrightarrow> bit (y OR of_nat n) k"
      using prefix_bytes_nth [OF n2 _ k(1,2), of y] L(3) k(3) by simp
    finally show ?thesis .
  qed
  have t8: "t < 8 * (n + 1)" using L(3) by simp
  have "x AND mask t = of_nat n"
  proof (rule bit_word_eqI)
    fix k assume k: "k < LENGTH('a)"
    show "bit (x AND mask t) k = bit (of_nat n :: 'a word) k"
      using bx [of k] t8 low [rule_format, of k] bit_small [OF n2, of k, where 'a = 'a] k
      by (cases "k < t") (auto simp: bit_and_iff bit_or_iff bit_mask_iff)
  qed
  moreover have "t \<le> LENGTH('a)" using L n by simp
  then have "(2::nat) ^ t \<le> 2 ^ LENGTH('a)" by (rule power_increasing) simp
  then have "n < 2 ^ LENGTH('a)" by (rule less_le_trans [OF n2])
  ultimately show "unat (x AND mask t) = n" by (simp add: unat_of_nat take_bit_nat_eq_self)
  show "x AND drop_bit (8 * (N - 1) - n * 8) (- 1) = y OR of_nat n"
  proof (rule bit_word_eqI)
    fix k assume k: "k < LENGTH('a)"
    have "k + (8 * (N - 1) - n * 8) < LENGTH('a) \<longleftrightarrow> k < 8 * (n + 1)" using n L(1) by auto
    then have "bit (drop_bit (8 * (N - 1) - n * 8) (- 1 :: 'a word)) k \<longleftrightarrow> k < 8 * (n + 1)"
      by (auto simp: bit_simps add.commute)
    then show "bit (x AND drop_bit (8 * (N - 1) - n * 8) (- 1)) k = bit (y OR of_nat n) k"
      using bx [of k] high [rule_format, of k] bit_small [OF n2, of k, where 'a = 'a] t8 by (auto simp: bit_and_iff bit_or_iff)
  qed
  show "drop_bit t (y OR of_nat n) = drop_bit t y"
  proof (rule bit_word_eqI)
    fix k show "bit (drop_bit t (y OR of_nat n)) k = bit (drop_bit t y) k"
      using bit_small [OF n2, of "t + k", where 'a = 'a] by (simp add: bit_drop_bit_eq bit_or_iff)
  qed
  show "drop (n + 1) (prefix_bytes y n @ rest) = rest" using lp by simp
qed

text \<open>What a test against a run of ones says.\<close>

lemma and_run_0: "y AND push_bit s (mask w) = 0 \<longleftrightarrow> (\<forall>k < w. \<not> bit y (s + k))" for y :: "'a::len word"
proof
  assume a: "y AND push_bit s (mask w) = 0"
  show "\<forall>k < w. \<not> bit y (s + k)"
  proof (intro allI impI notI)
    fix k assume k: "k < w" "bit y (s + k)"
    then have "bit (y AND push_bit s (mask w)) (s + k)"
      using bit_imp_le_length [OF k(2)] by (auto simp: bit_and_iff bit_push_bit_iff bit_mask_iff possible_bit_word)
    then show False using a by simp
  qed
next
  assume a: "\<forall>k < w. \<not> bit y (s + k)"
  show "y AND push_bit s (mask w) = 0"
  proof (rule bit_word_eqI)
    fix n show "bit (y AND push_bit s (mask w)) n = bit (0 :: 'a word) n"
      using a [rule_format, of "n - s"] by (auto simp: bit_and_iff bit_push_bit_iff bit_mask_iff)
  qed
qed

lemma run_0_high:
  "y AND push_bit s (mask w) = 0 \<Longrightarrow> (\<And>k. s + w \<le> k \<Longrightarrow> \<not> bit y k) \<Longrightarrow> s \<le> k \<Longrightarrow> \<not> bit y k" for y :: "'a::len word"
proof -
  assume a: "y AND push_bit s (mask w) = 0" "\<And>k. s + w \<le> k \<Longrightarrow> \<not> bit y k" "s \<le> k"
  show "\<not> bit y k"
  proof (cases "s + w \<le> k")
    case False
    then have "k - s < w" "s + (k - s) = k" using a(3) by auto
    then show ?thesis using a(1) unfolding and_run_0 by metis
  qed (use a(2) in auto)
qed

lemma save_prefix30:
  assumes "x < 2 ^ 30"
  obtains n where "n < 4" "gg_save_var_uint30 asserts x = Inr (prefix_bytes (push_bit 2 x) n)"
    "\<forall>k \<ge> 8 * (n + 1). \<not> bit (push_bit 2 x) k"
proof -
  define y where "y = push_bit 2 x"
  have m: "0xFFFF0000 = (push_bit 16 (mask 16) :: u32)" "0xFF00 = (push_bit 8 (mask 8) :: u32)"
    "0xFF000000 = (push_bit 24 (mask 8) :: u32)" by (simp_all add: mask_eq_exp_minus_1)
  have top: "\<not> bit y k" if "32 \<le> k" for k using bit_imp_le_length [of y k] that by auto
  have ok: "x < push_bit 30 1" using assms by simp
  have r: "gg_save_var_uint30 asserts x =
     Inr (if y AND push_bit 16 (mask 16) = 0
          then if y AND push_bit 8 (mask 8) = 0 then prefix_bytes y 0 else prefix_bytes y 1
          else if y AND push_bit 24 (mask 8) = 0 then prefix_bytes y 2 else prefix_bytes y 3)"
    unfolding gg_save_var_uint30_def Let_def y_def [symmetric] m using ok
    by (simp only: simp_thms if_False, simp add: prefix_bytes_def upt_rec)
  consider "y AND push_bit 16 (mask 16) = 0" "y AND push_bit 8 (mask 8) = 0"
    | "y AND push_bit 16 (mask 16) = 0" "y AND push_bit 8 (mask 8) \<noteq> 0"
    | "y AND push_bit 16 (mask 16) \<noteq> 0" "y AND push_bit 24 (mask 8) = 0"
    | "y AND push_bit 16 (mask 16) \<noteq> 0" "y AND push_bit 24 (mask 8) \<noteq> 0" by blast
  then show thesis
  proof cases
    case 1
    have h: "\<not> bit y k" if "16 \<le> k" for k by (rule run_0_high [OF 1(1) _ that]) (use top in simp)
    have "\<not> bit y k" if "8 \<le> k" for k by (rule run_0_high [OF 1(2) _ that]) (use h in simp)
    then show thesis using that [of 0] r 1 by (simp add: y_def)
  next
    case 2
    have "\<not> bit y k" if "16 \<le> k" for k by (rule run_0_high [OF 2(1) _ that]) (use top in simp)
    then show thesis using that [of 1] r 2 by (simp add: y_def)
  next
    case 3
    have "\<not> bit y k" if "24 \<le> k" for k by (rule run_0_high [OF 3(2) _ that]) (use top in simp)
    then show thesis using that [of 2] r 3 by (simp add: y_def)
  next
    case 4
    then show thesis using that [of 3] r top by (simp add: y_def)
  qed
qed

lemma save_prefix61:
  assumes "x < 2 ^ 61" and "\<not> asserts \<or> x < 2 ^ 30"
  obtains n where "n < 8" "gg_save_var_uint61 asserts x = Inr (prefix_bytes (push_bit 3 x) n)"
    "\<forall>k \<ge> 8 * (n + 1). \<not> bit (push_bit 3 x) k"
proof -
  define y where "y = push_bit 3 x"
  note out = that
  define Z where "Z = (\<lambda>s w. y AND push_bit s (mask w) = 0)"
  have m: "0xFFFFFFFF00000000 = (push_bit 32 (mask 32) :: u64)" "0xFFFF0000 = (push_bit 16 (mask 16) :: u64)"
    "0xFF00 = (push_bit 8 (mask 8) :: u64)" "0xFF000000 = (push_bit 24 (mask 8) :: u64)"
    "0xFFFF000000000000 = (push_bit 48 (mask 16) :: u64)" "0x0000FF0000000000 = (push_bit 40 (mask 8) :: u64)"
    "0xFF00000000000000 = (push_bit 56 (mask 8) :: u64)" by (simp_all add: mask_eq_exp_minus_1)
  have top: "\<not> bit y k" if "64 \<le> k" for k using bit_imp_le_length [of y k] that by auto
  have ok: "\<not> (asserts \<and> \<not> x < push_bit 30 1)" using assms(2) by auto
  have r: "gg_save_var_uint61 asserts x = Inr (prefix_bytes y
     (if Z 32 32 then if Z 16 16 then if Z 8 8 then 0 else 1 else if Z 24 8 then 2 else 3
      else if Z 48 16 then if Z 40 8 then 4 else 5 else if Z 56 8 then 6 else 7))"
    unfolding gg_save_var_uint61_def Let_def y_def [symmetric] m Z_def using ok
    by (simp only: simp_thms if_False if_distrib [of "prefix_bytes y"], simp add: prefix_bytes_def upt_rec)
  have h: "\<not> bit y k" if "Z s w" "\<And>k. s + w \<le> k \<Longrightarrow> \<not> bit y k" "s \<le> k" for s w k
    using that unfolding Z_def by (rule run_0_high)
  have h32: "\<not> bit y k" if "Z 32 32" "32 \<le> k" for k by (rule h [OF that(1) _ that(2)]) (use top in simp)
  have h16: "\<not> bit y k" if "Z 32 32" "Z 16 16" "16 \<le> k" for k by (rule h [OF that(2) _ that(3)]) (use h32 that in simp)
  have h8: "\<not> bit y k" if "Z 32 32" "Z 16 16" "Z 8 8" "8 \<le> k" for k by (rule h [OF that(3) _ that(4)]) (use h16 that in simp)
  have h24: "\<not> bit y k" if "Z 32 32" "Z 24 8" "24 \<le> k" for k by (rule h [OF that(2) _ that(3)]) (use h32 that in simp)
  have h48: "\<not> bit y k" if "Z 48 16" "48 \<le> k" for k by (rule h [OF that(1) _ that(2)]) (use top in simp)
  have h40: "\<not> bit y k" if "Z 48 16" "Z 40 8" "40 \<le> k" for k by (rule h [OF that(2) _ that(3)]) (use h48 that in simp)
  have h56: "\<not> bit y k" if "Z 56 8" "56 \<le> k" for k by (rule h [OF that(1) _ that(2)]) (use top in simp)
  have fin: thesis if "gg_save_var_uint61 asserts x = Inr (prefix_bytes y n)" "n < 8" "\<And>k. 8 * (n + 1) \<le> k \<Longrightarrow> \<not> bit y k" for n
    using that(1,3) unfolding y_def by (intro out [OF that(2)]) auto
  consider "Z 32 32" "Z 16 16" "Z 8 8"
    | "Z 32 32" "Z 16 16" "\<not> Z 8 8"
    | "Z 32 32" "\<not> Z 16 16" "Z 24 8"
    | "Z 32 32" "\<not> Z 16 16" "\<not> Z 24 8"
    | "\<not> Z 32 32" "Z 48 16" "Z 40 8"
    | "\<not> Z 32 32" "Z 48 16" "\<not> Z 40 8"
    | "\<not> Z 32 32" "\<not> Z 48 16" "Z 56 8"
    | "\<not> Z 32 32" "\<not> Z 48 16" "\<not> Z 56 8" by blast
  then show thesis
  proof cases
    case 1
    show thesis by (rule fin [of 0]) (use r 1 h8 in simp_all)
  next
    case 2
    show thesis by (rule fin [of 1]) (use r 2 h16 in simp_all)
  next
    case 3
    show thesis by (rule fin [of 2]) (use r 3 h24 in simp_all)
  next
    case 4
    show thesis by (rule fin [of 3]) (use r 4 h32 in simp_all)
  next
    case 5
    show thesis by (rule fin [of 4]) (use r 5 h40 in simp_all)
  next
    case 6
    show thesis by (rule fin [of 5]) (use r 6 h48 in simp_all)
  next
    case 7
    show thesis by (rule fin [of 6]) (use r 7 h56 in simp_all)
  next
    case 8
    show thesis by (rule fin [of 7]) (use r 8 top in simp_all)
  qed
qed

lemma push_small: "unat x < 2 ^ n \<Longrightarrow> n + s \<le> LENGTH('a) \<Longrightarrow> drop_bit s (push_bit s x) = x" for x :: "'a::len word"
proof (rule bit_word_eqI)
  fix k assume a: "unat x < 2 ^ n" "n + s \<le> LENGTH('a)"
  have "\<not> bit x k" if "n \<le> k" for k
    using bit_small [OF a(1) that, where 'a = 'a] by simp
  then show "bit (drop_bit s (push_bit s x)) k = bit x k"
    using a(2) by (cases "n \<le> k") (auto simp: bit_simps)
qed

lemma load_save_30:
  assumes "x < 2 ^ 30" and "gg_save_var_uint30 asserts x = Inr bs" and "4 \<le> length (bs @ rest)"
  shows "gg_load_var_uint30 (bs @ rest) = Inr (x, rest)"
proof -
  from assms(1) obtain n where n: "n < 4" "gg_save_var_uint30 asserts x = Inr (prefix_bytes (push_bit 2 x) n)"
    "\<forall>k \<ge> 8 * (n + 1). \<not> bit (push_bit 2 x) k" by (rule save_prefix30 [where asserts = asserts])
  have bs: "bs = prefix_bytes (push_bit 2 x) n" using n(2) assms(2) by simp
  have low: "\<forall>k < 2. \<not> bit (push_bit 2 x) k" by (simp add: bit_push_bit_iff)
  have "LENGTH(32) = 8 * 4" "(4 :: nat) = 2 ^ 2" "(2 :: nat) \<le> 3" by simp_all
  note w = prefix_word [where 'a = 32, OF this n(1) low n(3), of rest, folded bs, OF assms(3)]
  have m: "mask 2 = (3 :: u32)" "(- 1 :: u32) = 0xFFFFFFFF" "8 * (4 - 1) = (24 :: nat)" by (simp_all add: mask_eq_exp_minus_1)
  have "unat x < 2 ^ 30" using assms(1) by (simp add: word_less_nat_alt)
  then have "drop_bit 2 (push_bit 2 x) = x" by (rule push_small) simp
  then show ?thesis
    using assms(3) w [unfolded m] unfolding gg_load_var_uint30_def Let_def by (simp only: if_False not_less [symmetric] simp_thms)
qed

lemma load_save_61:
  assumes "x < 2 ^ 61" and "gg_save_var_uint61 asserts x = Inr bs" and "8 \<le> length (bs @ rest)"
  shows "gg_load_var_uint61 (bs @ rest) = Inr (x, rest)"
proof -
  have "\<not> asserts \<or> x < 2 ^ 30" using assms(2) unfolding gg_save_var_uint61_def
    by (cases asserts; cases "x < push_bit 30 1") (simp_all only: simp_thms if_True sum.distinct, simp)
  with assms(1) obtain n where n: "n < 8" "gg_save_var_uint61 asserts x = Inr (prefix_bytes (push_bit 3 x) n)"
    "\<forall>k \<ge> 8 * (n + 1). \<not> bit (push_bit 3 x) k" by (rule save_prefix61)
  have bs: "bs = prefix_bytes (push_bit 3 x) n" using n(2) assms(2) by simp
  have low: "\<forall>k < 3. \<not> bit (push_bit 3 x) k" by (simp add: bit_push_bit_iff)
  have "LENGTH(64) = 8 * 8" "(8 :: nat) = 2 ^ 3" "(3 :: nat) \<le> 3" by simp_all
  note w = prefix_word [where 'a = 64, OF this n(1) low n(3), of rest, folded bs, OF assms(3)]
  have m: "mask 3 = (7 :: u64)" "(- 1 :: u64) = 0xFFFFFFFFFFFFFFFF" "8 * (8 - 1) = (56 :: nat)" by (simp_all add: mask_eq_exp_minus_1)
  have "unat x < 2 ^ 61" using assms(1) by (simp add: word_less_nat_alt)
  then have "drop_bit 3 (push_bit 3 x) = x" by (rule push_small) simp
  then show ?thesis
    using assms(3) w [unfolded m] unfolding gg_load_var_uint61_def Let_def by (simp only: if_False not_less [symmetric] simp_thms)
qed

section \<open>Reading backwards\<close>

lemma group_value_shift: "group_value (s + 7) l = push_bit 7 (group_value s l)"
proof (induction l arbitrary: s)
  case (Cons b l)
  have "push_bit (s + 7) y = push_bit 7 (push_bit s y)" for y :: "'a word" by (simp only: push_bit_push_bit add.commute)
  then show ?case by (simp only: group_value.simps Cons.IH push_bit_or)
qed simp

lemma group_value_append: "group_value s (l @ r) = group_value s l OR group_value (s + 7 * length l) r"
  by (induction l arbitrary: s) (simp_all add: or.assoc add.assoc)

lemma reverse_get_flags:
  assumes "\<forall>b \<in> set l. flagged b" and "\<And>m. limit = Some m \<Longrightarrow> s + 7 * length l < m + 7"
  shows "reverse_get_loop limit x s (l @ p) =
    reverse_get_loop limit (fold (\<lambda>b x. push_bit 7 x OR ucast (b AND 0x7F)) l x) (s + 7 * length l) p"
  using assms
proof (induction l arbitrary: x s)
  case (Cons b l)
  have "b AND 0x80 \<noteq> 0" using Cons.prems(1) by (simp add: flagged_def)
  moreover have "case limit of Some m \<Rightarrow> s < m | None \<Rightarrow> True" using Cons.prems(2) by (cases limit) auto
  moreover have "s + 7 + 7 * length l < m + 7" if "limit = Some m" for m using Cons.prems(2) [OF that] by simp
  ultimately show ?case
    using Cons.IH [of "s + 7"] Cons.prems(1) by (simp add: add.assoc)
qed simp

lemma ucast_and_7F: "ucast (b AND 0x7F) = (ucast b AND 0x7F :: 'a::len word)" for b :: u8
  by (rule bit_word_eqI) (auto simp: bit_simps bit_7F)

lemma fold_groups: "fold (\<lambda>b x. push_bit 7 x OR ucast (b AND 0x7F)) (rev l) 0 = (group_value 0 l :: 'a::len word)"
  unfolding foldr_conv_fold [symmetric]
proof (induction l)
  case (Cons b l)
  have "push_bit 0 (ucast b AND 0x7F :: 'a word) OR group_value (0 + 7) l = push_bit 7 (group_value 0 l) OR ucast (b AND 0x7F)"
    by (simp only: group_value_shift push_bit_0_id id_apply ucast_and_7F or.commute)
  then show ?case by (simp only: foldr.simps o_apply Cons.IH group_value.simps)
qed simp

lemma save_shape:
  obtains l c where "gg_save_var_uint x = l @ [c]" "\<forall>b \<in> set l. flagged b" "\<not> flagged c"
proof (induction x arbitrary: thesis rule: gg_save_var_uint.induct)
  case (1 x)
  show ?case
  proof (cases "drop_bit 7 x = 0")
    case True
    show ?thesis
      by (rule "1.prems" [of "[]" "ucast (x AND 0x7F)"])
        (use True flagged_save_step(2) [of x] in \<open>simp_all add: gg_save_var_uint.simps [of x] Let_def\<close>)
  next
    case False
    from "1.IH" [OF refl refl False] obtain l c where
      "gg_save_var_uint (drop_bit 7 x) = l @ [c]" "\<forall>b \<in> set l. flagged b" "\<not> flagged c" by blast
    then show ?thesis
      using "1.prems" [of "(ucast (x AND 0x7F) OR 0x80) # l" c] False flagged_save_step(1) [of x]
      by (simp add: gg_save_var_uint.simps [of x] Let_def)
  qed
qed

lemma reverse_get_save:
  fixes x :: "'a::len word"
  assumes L: "LENGTH('a) = 32 \<or> LENGTH('a) = 64"
    and p: "p = [] \<or> \<not> flagged (hd p) \<or> limit = Some (7 * (length (gg_save_var_uint x) - 1))"
    and lim: "\<And>m. limit = Some m \<Longrightarrow> 7 * length (gg_save_var_uint x) < m + 14"
  shows "reverse_get limit (rev (gg_save_var_uint x) @ p) = Inr (x, p)"
proof -
  obtain l c where sv: "gg_save_var_uint x = l @ [c]" "\<forall>b \<in> set l. flagged b" "\<not> flagged c" by (rule save_shape)
  have tw: "takeWhile flagged (l @ [c]) = l" using sv(2,3) by (simp add: takeWhile_append)
  have "gg_load_var_uint (l @ [c]) = Inr (x, [])" using load_save_var_uint [OF L, of x "[]"] by (simp add: sv(1))
  then have x: "x = group_value 0 (l @ [c])"
    unfolding load_var_uint_spec [OF L] tw by (auto simp: Let_def split: if_splits)
  have "ucast c AND 0x7F = (ucast c :: 'a word)"
  proof (rule bit_word_eqI)
    fix n show "bit (ucast c AND 0x7F :: 'a word) n = bit (ucast c :: 'a word) n"
      using sv(3) bit_imp_le_length [of c n] by (cases "n = 7") (auto simp: bit_simps bit_7F flagged_bit)
  qed
  then have x': "x = group_value 0 l OR push_bit (7 * length l) (ucast c)"
    using x by (simp add: group_value_append)
  have "reverse_get_loop limit y (7 * length l) p = (y, 7 * length l, p)" for y :: "'a word"
    using p sv(1) by (cases p) (auto simp: flagged_def)
  moreover have "7 * length l < m + 7" if "limit = Some m" for m using lim [OF that] by (simp add: sv(1))
  then have "reverse_get_loop limit (0 :: 'a word) 0 (rev l @ p) = reverse_get_loop limit (group_value 0 l) (7 * length l) p"
    using reverse_get_flags [of "rev l" limit 0 "0 :: 'a word" p] sv(2) by (simp add: fold_groups)
  ultimately have "reverse_get limit (rev (l @ [c]) @ p) = Inr (group_value 0 l OR push_bit (7 * length l) (ucast c) :: 'a word, p)"
    by (simp add: reverse_get_def)
  then show ?thesis by (simp only: sv(1) x'[symmetric])
qed

lemma unat_up: "unat (ucast y :: u64) = unat y" for y :: u32
proof -
  have "unat y < 2 ^ LENGTH(32)" by (rule unsigned_less)
  then show ?thesis by (simp add: unsigned_ucast_eq take_bit_nat_eq_self)
qed

lemma save_ucast: "gg_save_var_uint (ucast x :: u64) = gg_save_var_uint x" for x :: u32
proof (induction x rule: gg_save_var_uint.induct)
  case (1 x)
  have a: "ucast ((ucast x :: u64) AND 0x7F) = (ucast (x AND 0x7F) :: u8)"
    by (rule bit_word_eqI) (auto simp: bit_simps bit_7F)
  have d: "drop_bit 7 (ucast x :: u64) = ucast (drop_bit 7 x)"
    by (rule bit_word_eqI) (auto simp: bit_simps dest: bit_imp_le_length)
  have z: "ucast (drop_bit 7 x) = (0 :: u64) \<longleftrightarrow> drop_bit 7 x = 0" by (metis unat_up unsigned_eq_0_iff)
  show ?case
    using "1.IH" [OF refl refl]
    unfolding gg_save_var_uint.simps [of x] gg_save_var_uint.simps [of "ucast x :: u64"] Let_def a d z by simp
qed

lemma fast_read_save: "fast_read_var_uint32 (gg_save_var_uint x @ r) = Inr (ucast x, r)" for x :: u32
proof -
  obtain l c where sv: "gg_save_var_uint x = l @ [c]" "\<forall>b \<in> set l. flagged b" "\<not> flagged c" by (rule save_shape)
  have "unat x < 2 ^ LENGTH(32)" by (rule unsigned_less)
  then have u: "unat x < 2 ^ (7 * 5)" by simp
  then have "length (gg_save_var_uint x) \<le> 5" by (subst length_save_var_uint) simp_all
  then have "length (takeWhile flagged (gg_save_var_uint x @ r)) \<le> 4"
    using sv(2,3) by (simp add: sv(1) takeWhile_append)
  note fast_read_step [OF this, of 0 0]
  moreover have "unat (ucast x :: u64) < 2 ^ (7 * (4 + 1 - 0))" using u by (simp add: unat_up)
  note load_save_loop [OF _ _ this, where acc = 0 and rest = r]
  ultimately show ?thesis by (simp add: fast_read_var_uint32_def save_ucast)
qed

section \<open>Properties\<close>

text \<open>C13: Every 32 and 64 bit integer, unsigned or signed, comes back from its encoding, and the position
  is behind it; the unrolled macro \<open>FAST_READ_VAR_UINT32\<close> reads a 32 bit integer as \<open>load_var_uint32\<close> does.\<close>

theorem var_int_roundtrip:
  "load_var_uint32 (save_var_uint32 x @ rest) = Inr (x, rest) \<and>
   load_var_uint64 (save_var_uint64 y @ rest) = Inr (y, rest) \<and>
   load_var_int (save_var_int x @ rest) = Inr (x, rest) \<and>
   load_var_int (save_var_int y @ rest) = Inr (y, rest) \<and>
   fast_read_var_uint32 (save_var_uint32 x @ rest) = Inr (ucast x, rest)"
  by (simp_all add: fast_read_save load_var_uint32_def load_var_uint64_def save_var_uint32_def save_var_uint64_def
      load_var_int_def save_var_int_def load_save_var_uint)

text \<open>An encoding has at most \<open>n\<close> bytes exactly if the value has at most \<open>7 n\<close> bits; so a 32 bit value
  takes at most five bytes and a 64 bit value at most ten.\<close>

theorem var_int_length:
  "(length (save_var_uint32 x) \<le> Suc n \<longleftrightarrow> unat x < 2 ^ (7 * Suc n)) \<and>
   (length (save_var_uint64 y) \<le> Suc n \<longleftrightarrow> unat y < 2 ^ (7 * Suc n)) \<and>
   length (save_var_uint32 x) \<le> 5 \<and> length (save_var_uint64 y) \<le> 10"
proof -
  have l: "1 \<le> Suc n" by simp
  have "unat x < 2 ^ LENGTH(32)" "unat y < 2 ^ LENGTH(64)" by (rule unsigned_less)+
  then have "length (gg_save_var_uint x) \<le> 5" "length (gg_save_var_uint y) \<le> 10"
    by (subst length_save_var_uint, simp, simp)+
  then show ?thesis
    unfolding save_var_uint32_def save_var_uint64_def by (intro conjI length_save_var_uint [OF l])
qed

text \<open>C30: Reading is defined on every input: with \<open>n\<close> leading bytes that have the continuation flag, it
  throws if \<open>n\<close> is five (ten for 64 bits) or more, runs off the end if there is no other byte, and gives
  the value of the \<open>n + 1\<close> groups otherwise.\<close>

theorem var_uint_load_total:
  "load_var_uint32 bs =
    (let n = length (takeWhile flagged bs) in
     if 5 \<le> n then Inl Runtime_error else if n = length bs then Inl Out_of_range
     else Inr (group_value 0 (take (n + 1) bs), drop (n + 1) bs)) \<and>
   load_var_uint64 bs =
    (let n = length (takeWhile flagged bs) in
     if 10 \<le> n then Inl Runtime_error else if n = length bs then Inl Out_of_range
     else Inr (group_value 0 (take (n + 1) bs), drop (n + 1) bs))"
  unfolding load_var_uint32_def load_var_uint64_def by (intro conjI; subst load_var_uint_spec; simp)

text \<open>Integers below \<open>2 ^ 30\<close> and \<open>2 ^ 61\<close> come back from the formats with the length in front, when the
  bytes the fast versions read behind the integer exist.\<close>

theorem var_uint30_61_roundtrip:
  assumes "x < 2 ^ 30" and "y < 2 ^ 61" and "7 \<le> length rest"
  shows "(\<exists>bs. gg_save_var_uint30 asserts x = Inr bs \<and> gg_load_var_uint30 (bs @ rest) = Inr (x, rest)) \<and>
    (\<exists>bs. gg_save_var_uint61 False y = Inr bs \<and> gg_load_var_uint61 (bs @ rest) = Inr (y, rest))"
proof (rule conjI)
  obtain n where n: "gg_save_var_uint30 asserts x = Inr (prefix_bytes (push_bit 2 x) n)"
    using save_prefix30 [OF assms(1)] by metis
  from load_save_30 [OF assms(1) n, of rest] n assms(3)
  show "\<exists>bs. gg_save_var_uint30 asserts x = Inr bs \<and> gg_load_var_uint30 (bs @ rest) = Inr (x, rest)"
    by (auto simp: prefix_bytes_def)
next
  obtain n where n: "gg_save_var_uint61 False y = Inr (prefix_bytes (push_bit 3 y) n)"
    using save_prefix61 [OF assms(2), of False] by metis
  from load_save_61 [OF assms(2) n, of rest] n assms(3)
  show "\<exists>bs. gg_save_var_uint61 False y = Inr bs \<and> gg_load_var_uint61 (bs @ rest) = Inr (y, rest)"
    by (auto simp: prefix_bytes_def)
qed

theorem var_uint30_61_roundtrip_witness:
  "\<exists>bs. gg_save_var_uint61 False (2 ^ 60) = Inr bs \<and>
     gg_load_var_uint61 (bs @ [1, 2, 3, 4, 5, 6, 7]) = Inr (2 ^ 60, [1, 2, 3, 4, 5, 6, 7])"
  by (rule var_uint30_61_roundtrip [of 0, THEN conjunct2]) simp_all

text \<open>Reading backwards finds the integer that ends at the position, if what is before it does not end in a
  byte with the flag; for 64 bits if the value is below \<open>2 ^ 63\<close>.\<close>

theorem reverse_get_roundtrip:
  assumes "p = [] \<or> \<not> flagged (hd p)" and "y < 2 ^ 63"
  shows "reverse_get_var_uint32 (rev (save_var_uint32 x) @ p) = Inr (x, p) \<and>
    reverse_get_var_uint64 (rev (save_var_uint64 y) @ p) = Inr (y, p)"
proof (rule conjI)
  show "reverse_get_var_uint32 (rev (save_var_uint32 x) @ p) = Inr (x, p)"
    unfolding reverse_get_var_uint32_def save_var_uint32_def by (rule reverse_get_save) (use assms in simp_all)
next
  have "unat y < 2 ^ (7 * 9)" using assms(2) by (simp add: word_less_nat_alt)
  then have "length (gg_save_var_uint y) \<le> 9" by (subst length_save_var_uint) simp_all
  then show "reverse_get_var_uint64 (rev (save_var_uint64 y) @ p) = Inr (y, p)"
    unfolding reverse_get_var_uint64_def save_var_uint64_def by (intro reverse_get_save) (use assms in auto)
qed

theorem reverse_get_roundtrip_witness:
  "reverse_get_var_uint64 (rev (save_var_uint64 300) @ [5, 0x81]) = Inr (300, [5, 0x81])"
  by (rule reverse_get_roundtrip [THEN conjunct2]) (simp_all add: flagged_def)

text \<open>Both readers of the formats with the length in front, as words of the bytes they use.\<close>

lemma fast_prefix_word:
  assumes L: "LENGTH('a) = 8 * N" "t \<le> 8" and n: "n < N" and len: "N \<le> length (c # u)"
  defines "x \<equiv> le_word (take N (c # u)) :: 'a::len word"
  shows "x AND mask t = ucast c AND mask t" and "x AND drop_bit (8 * (N - 1) - n * 8) (- 1) = le_word (c # take n u)"
proof -
  show "x AND mask t = ucast c AND mask t"
  proof (rule bit_word_eqI)
    fix k assume k: "k < LENGTH('a)"
    show "bit (x AND mask t) k = bit (ucast c AND mask t :: 'a word) k"
    proof (cases "k < t")
      case True
      with L n k len show ?thesis by (simp add: x_def bit_le_word bit_and_iff bit_unsigned_iff)
    qed (simp add: bit_and_iff bit_mask_iff)
  qed
  show "x AND drop_bit (8 * (N - 1) - n * 8) (- 1) = le_word (c # take n u)"
  proof (rule bit_word_eqI)
    fix k assume k: "k < LENGTH('a)"
    have "k + (8 * (N - 1) - n * 8) < LENGTH('a) \<longleftrightarrow> k < 8 * (n + 1)" using n L(1) by auto
    then have m: "bit (drop_bit (8 * (N - 1) - n * 8) (- 1 :: 'a word)) k \<longleftrightarrow> k < 8 * (n + 1)"
      by (auto simp: bit_simps add.commute)
    have i: "k div 8 < length (c # take n u) \<longleftrightarrow> k < 8 * (n + 1)" using n len by auto
    have "(c # take n u) ! (k div 8) = take N (c # u) ! (k div 8)" if "k < 8 * (n + 1)"
      using that n len by (cases "k div 8") auto
    then show "bit (x AND drop_bit (8 * (N - 1) - n * 8) (- 1)) k = bit (le_word (c # take n u) :: 'a word) k"
      using k L(1) n len unfolding bit_and_iff m x_def bit_le_word i by (auto simp del: le_word.simps)
  qed
qed

lemma unat_low_bits: "t \<le> 8 \<Longrightarrow> 8 \<le> LENGTH('a) \<Longrightarrow> unat (ucast c AND mask t :: 'a::len word) = unat (c AND mask t)" for c :: u8
proof -
  assume t: "t \<le> 8" "8 \<le> LENGTH('a)"
  have "ucast c AND mask t = (ucast (c AND mask t) :: 'a word)"
    using t by (intro bit_word_eqI) (auto simp: bit_simps)
  moreover have "unat (ucast (c AND mask t) :: 'a word) = unat (c AND mask t)"
  proof -
    have "unat (c AND mask t) < 2 ^ LENGTH(8)" by (rule unsigned_less)
    also have "\<dots> \<le> 2 ^ LENGTH('a)" using t(2) by (intro power_increasing) simp_all
    finally show ?thesis by (simp add: unsigned_ucast_eq take_bit_nat_eq_self)
  qed
  ultimately show ?thesis by simp
qed

lemma fold_bytes: "fold (\<lambda>b y. push_bit 8 y OR ucast b) bs 0 = (le_word (rev bs) :: 'a::len word)"
  by (induction bs rule: rev_induct) (simp_all add: or.commute)

lemma le_word_prefix_eq:
  assumes "t \<le> 8" and "length a = length b" and "8 * (length a + 1) \<le> LENGTH('a)"
  shows "drop_bit t (le_word (c # a) :: 'a::len word) = drop_bit t (le_word (c # b)) \<longleftrightarrow> a = b"
proof
  assume e: "drop_bit t (le_word (c # a) :: 'a word) = drop_bit t (le_word (c # b))"
  show "a = b"
  proof (rule nth_equalityI)
    fix i assume i: "i < length a"
    show "a ! i = b ! i"
    proof (rule bit_word_eqI)
      fix j assume j: "j < LENGTH(8)"
      define k where "k = 8 * (i + 1) + j"
      have k: "k < LENGTH('a)" "t \<le> k" "k div 8 = Suc i" using i j assms by (simp_all add: k_def)
      have m: "k mod 8 = j" using j unfolding k_def by (subst mod_mult_self4) simp
      have "bit (drop_bit t (le_word (c # a) :: 'a word)) (k - t) = bit (drop_bit t (le_word (c # b) :: 'a word)) (k - t)"
        using e by simp
      then show "bit (a ! i) j = bit (b ! i) j"
        using i k m assms(2) by (simp add: bit_drop_bit_eq bit_le_word del: le_word.simps)
    qed
  qed (rule assms(2))
qed simp

lemma load_var_uint30_forms:
  assumes "3 \<le> length s"
  shows "gg_load_var_uint30 (c # s) = Inr (drop_bit 2 (le_word (c # take (unat (c AND 3)) s)), drop (unat (c AND 3)) s)"
    and "gg_load_var_uint30_slow (c # s) = Inr (drop_bit 2 (le_word (c # rev (take (unat (c AND 3)) s))), drop (unat (c AND 3)) s)"
proof -
  have m: "mask 2 = (3 :: u32)" "mask 2 = (3 :: u8)" "(- 1 :: u32) = 0xFFFFFFFF" by (simp_all add: mask_eq_exp_minus_1)
  define n where "n = unat (c AND 3)"
  have n: "unat (ucast c AND 3 :: u32) = n" using unat_low_bits [where 'a = 32, of 2 c] unfolding m n_def by simp
  have "c AND 3 \<le> 3" by (rule word_and_le1)
  then have n3: "n \<le> 3" by (simp add: n_def word_le_nat_alt)
  note f = fast_prefix_word [where 'a = 32, of 4 2 n c s, unfolded m]
  have "le_word (take 4 (c # s)) AND (3 :: u32) = ucast c AND 3"
    "le_word (take 4 (c # s)) AND drop_bit (24 - n * 8) (0xFFFFFFFF :: u32) = le_word (c # take n s)"
    using f n3 assms by (simp_all del: le_word.simps take_Suc_Cons)
  then show "gg_load_var_uint30 (c # s) = Inr (drop_bit 2 (le_word (c # take (unat (c AND 3)) s)), drop (unat (c AND 3)) s)"
    using assms n unfolding gg_load_var_uint30_def Let_def n_def [symmetric] by (simp del: le_word.simps take_Suc_Cons)
  show "gg_load_var_uint30_slow (c # s) = Inr (drop_bit 2 (le_word (c # rev (take (unat (c AND 3)) s))), drop (unat (c AND 3)) s)"
    using assms n n3 unfolding gg_load_var_uint30_slow_def Let_def n_def [symmetric] fold_bytes by simp
qed

lemma load_var_uint61_forms:
  assumes "7 \<le> length s"
  shows "gg_load_var_uint61 (c # s) = Inr (drop_bit 3 (le_word (c # take (unat (c AND 7)) s)), drop (unat (c AND 7)) s)"
    and "gg_load_var_uint61_slow (c # s) = Inr (drop_bit 3 (le_word (c # rev (take (unat (c AND 7)) s))), drop (unat (c AND 7)) s)"
proof -
  have m: "mask 3 = (7 :: u64)" "mask 3 = (7 :: u8)" "(- 1 :: u64) = 0xFFFFFFFFFFFFFFFF" by (simp_all add: mask_eq_exp_minus_1)
  define n where "n = unat (c AND 7)"
  have n: "unat (ucast c AND 7 :: u64) = n" using unat_low_bits [where 'a = 64, of 3 c] unfolding m n_def by simp
  have "c AND 7 \<le> 7" by (rule word_and_le1)
  then have n7: "n \<le> 7" by (simp add: n_def word_le_nat_alt)
  note f = fast_prefix_word [where 'a = 64, of 8 3 n c s, unfolded m]
  have "le_word (take 8 (c # s)) AND (7 :: u64) = ucast c AND 7"
    "le_word (take 8 (c # s)) AND drop_bit (56 - n * 8) (0xFFFFFFFFFFFFFFFF :: u64) = le_word (c # take n s)"
    using f n7 assms by (simp_all del: le_word.simps take_Suc_Cons)
  then show "gg_load_var_uint61 (c # s) = Inr (drop_bit 3 (le_word (c # take (unat (c AND 7)) s)), drop (unat (c AND 7)) s)"
    using assms n unfolding gg_load_var_uint61_def Let_def n_def [symmetric] by (simp del: le_word.simps take_Suc_Cons)
  show "gg_load_var_uint61_slow (c # s) = Inr (drop_bit 3 (le_word (c # rev (take (unat (c AND 7)) s))), drop (unat (c AND 7)) s)"
    using assms n n7 unfolding gg_load_var_uint61_slow_def Let_def n_def [symmetric] fold_bytes by simp
qed

text \<open>From \<open>2 ^ 63\<close> on an encoding has ten bytes, and reading backwards stops after nine.\<close>

lemma reverse_get_long:
  assumes "2 ^ 63 \<le> x"
  shows "\<exists>g bs. save_var_uint64 x = g # bs \<and> length bs = 9 \<and>
    reverse_get_var_uint64 (rev (save_var_uint64 x) @ p) = Inr (drop_bit 7 x, g # p)"
proof -
  have big: "2 ^ 63 \<le> unat x" using assms by (simp add: word_le_nat_alt)
  have small: "unat x < 2 ^ 64" using unsigned_less [of x] by simp
  have "\<not> length (gg_save_var_uint x) \<le> 9" using big by (subst length_save_var_uint) simp_all
  moreover have "length (gg_save_var_uint x) \<le> 10" using small by (subst length_save_var_uint) simp_all
  ultimately have len: "length (gg_save_var_uint x) = 10" by simp
  have "unat (drop_bit 7 x) \<noteq> 0" using big unat_drop_div [of 7 x] by simp
  then have nz: "drop_bit 7 x \<noteq> 0" by auto
  define g where "g = (ucast (x AND 0x7F) OR 0x80 :: u8)"
  have sv: "gg_save_var_uint x = g # gg_save_var_uint (drop_bit 7 x)"
    using nz by (simp add: gg_save_var_uint.simps [of x] Let_def g_def)
  with len have l9: "length (gg_save_var_uint (drop_bit 7 x)) = 9" by simp
  have "reverse_get (Some 56) (rev (gg_save_var_uint (drop_bit 7 x)) @ g # p) = Inr (drop_bit 7 x, g # p)"
    using l9 by (intro reverse_get_save) simp_all
  with sv l9 show ?thesis by (simp add: save_var_uint64_def reverse_get_var_uint64_def)
qed

text \<open>C37: What the readers and writers get wrong.  On every buffer the byte by byte readers of the formats with the
  length in front read what the fast ones would if the extra bytes came in the opposite order, and agree with them only
  where these read the same both ways.  Reading backwards loses the first group of every value from \<open>2 ^ 63\<close> on.  With
  assertions, \<open>gg_save_var_uint61\<close> aborts for every value from \<open>2 ^ 30\<close> on.\<close>

theorem var_int_defects:
  "(\<forall>c s. 3 \<le> length s \<longrightarrow> (let n = unat (c AND 3) in
      gg_load_var_uint30_slow (c # s) = gg_load_var_uint30 (c # rev (take n s) @ drop n s) \<and>
      (gg_load_var_uint30_slow (c # s) = gg_load_var_uint30 (c # s) \<longleftrightarrow> rev (take n s) = take n s))) \<and>
   (\<forall>c s. 7 \<le> length s \<longrightarrow> (let n = unat (c AND 7) in
      gg_load_var_uint61_slow (c # s) = gg_load_var_uint61 (c # rev (take n s) @ drop n s) \<and>
      (gg_load_var_uint61_slow (c # s) = gg_load_var_uint61 (c # s) \<longleftrightarrow> rev (take n s) = take n s))) \<and>
   (\<forall>x p. 2 ^ 63 \<le> x \<longrightarrow> (\<exists>g bs. save_var_uint64 x = g # bs \<and> length bs = 9 \<and>
      reverse_get_var_uint64 (rev (save_var_uint64 x) @ p) = Inr (drop_bit 7 x, g # p))) \<and>
   (\<forall>x. 2 ^ 30 \<le> x \<longrightarrow> gg_save_var_uint61 True x = Inl Abort)"
proof (intro conjI allI impI)
  fix c :: u8 and s :: "u8 list"
  assume s: "3 \<le> length s"
  define n where "n = unat (c AND 3)"
  have "c AND 3 \<le> 3" by (rule word_and_le1)
  then have n: "n \<le> length s" "8 * (n + 1) \<le> LENGTH(32)" using s by (simp_all add: n_def word_le_nat_alt)
  have r: "3 \<le> length (rev (take n s) @ drop n s)" using s by simp
  show "let n = unat (c AND 3) in
      gg_load_var_uint30_slow (c # s) = gg_load_var_uint30 (c # rev (take n s) @ drop n s) \<and>
      (gg_load_var_uint30_slow (c # s) = gg_load_var_uint30 (c # s) \<longleftrightarrow> rev (take n s) = take n s)"
    unfolding Let_def n_def [symmetric] load_var_uint30_forms [OF r, of c, folded n_def] load_var_uint30_forms [OF s, of c, folded n_def]
    using n le_word_prefix_eq [where 'a = 32, of 2 "rev (take n s)" "take n s" c] by (simp del: le_word.simps)
next
  fix c :: u8 and s :: "u8 list"
  assume s: "7 \<le> length s"
  define n where "n = unat (c AND 7)"
  have "c AND 7 \<le> 7" by (rule word_and_le1)
  then have n: "n \<le> length s" "8 * (n + 1) \<le> LENGTH(64)" using s by (simp_all add: n_def word_le_nat_alt)
  have r: "7 \<le> length (rev (take n s) @ drop n s)" using s by simp
  show "let n = unat (c AND 7) in
      gg_load_var_uint61_slow (c # s) = gg_load_var_uint61 (c # rev (take n s) @ drop n s) \<and>
      (gg_load_var_uint61_slow (c # s) = gg_load_var_uint61 (c # s) \<longleftrightarrow> rev (take n s) = take n s)"
    unfolding Let_def n_def [symmetric] load_var_uint61_forms [OF r, of c, folded n_def] load_var_uint61_forms [OF s, of c, folded n_def]
    using n le_word_prefix_eq [where 'a = 64, of 3 "rev (take n s)" "take n s" c] by (simp del: le_word.simps)
next
  fix x :: u64 and p
  assume "2 ^ 63 \<le> x"
  then show "\<exists>g bs. save_var_uint64 x = g # bs \<and> length bs = 9 \<and>
      reverse_get_var_uint64 (rev (save_var_uint64 x) @ p) = Inr (drop_bit 7 x, g # p)"
    by (rule reverse_get_long)
next
  fix x :: u64
  assume "2 ^ 30 \<le> x"
  then show "gg_save_var_uint61 True x = Inl Abort" by (simp add: gg_save_var_uint61_def not_less)
qed

text \<open>\<open>2 ^ 14\<close> is written as 02 00 01 and read as 64.\<close>

theorem var_int_defects_witness:
  "gg_save_var_uint30 True (2 ^ 14) = Inr [2, 0, 1] \<and> gg_load_var_uint30_slow [2, 0, 1, 0] = Inr (2 ^ 6, [0]) \<and>
   gg_load_var_uint30_slow [2, 0, 1, 0] \<noteq> gg_load_var_uint30 [2, 0, 1, 0] \<and>
   reverse_get_var_uint64 (rev (save_var_uint64 (2 ^ 63 + 1))) = Inr (2 ^ 56, [0x81]) \<and>
   gg_save_var_uint61 True (2 ^ 30) = Inl Abort"
proof (intro conjI)
  note d = var_int_defects
  have n: "unat ((2 :: u8) AND 3) = 2" by simp
  have l: "3 \<le> length [0, 1, 0 :: u8]" and t: "take 2 [0, 1, 0 :: u8] = [0, 1]" "drop 2 [0, 1, 0 :: u8] = [0]" by simp_all
  note w = d [THEN conjunct1, rule_format, OF l, of 2, unfolded Let_def n t]
  have a: "gg_load_var_uint30_slow [2, 0, 1, 0] = gg_load_var_uint30 [2, 1, 0, 0]" using w [THEN conjunct1] by simp
  show "gg_load_var_uint30_slow [2, 0, 1, 0] \<noteq> gg_load_var_uint30 [2, 0, 1, 0]" unfolding w [THEN conjunct2] by simp
  have "gg_load_var_uint30 [2, 1, 0, 0] = Inr (2 ^ 6, [0])" by code_simp
  with a show "gg_load_var_uint30_slow [2, 0, 1, 0] = Inr (2 ^ 6, [0])" by simp
  show "gg_save_var_uint30 True (2 ^ 14) = Inr [2, 0, 1]" by code_simp
  have "save_var_uint64 (2 ^ 63 + 1) = [0x81, 0x80, 0x80, 0x80, 0x80, 0x80, 0x80, 0x80, 0x80, 1]"
    unfolding save_var_uint64_def by (simp add: gg_save_var_uint.simps Let_def)
  moreover have "drop_bit 7 (2 ^ 63 + 1) = (2 ^ 56 :: u64)" by simp
  moreover have "(2 ^ 63 :: u64) \<le> 2 ^ 63 + 1" by simp
  ultimately show "reverse_get_var_uint64 (rev (save_var_uint64 (2 ^ 63 + 1))) = Inr (2 ^ 56, [0x81])"
    using d [THEN conjunct2, THEN conjunct2, THEN conjunct1, rule_format, of "2 ^ 63 + 1" "[]"] by auto
  show "gg_save_var_uint61 True (2 ^ 30) = Inl Abort"
    by (rule d [THEN conjunct2, THEN conjunct2, THEN conjunct2, rule_format]) simp
qed

end
