(* ===== verification/Fifo_Spec.thy ===== *)
theory Fifo_Spec
  imports Topling_Prelude
begin

text \<open>
  What a first-in first-out queue promises, and the arithmetic of ring buffers that the queue
  components share: positions modulo the capacity, the mask of a power of two, and how writing a cell
  and moving the head act on the rotated array.
\<close>

section \<open>Sequences of operations\<close>

datatype 'a qop = Push 'a | Pop

text \<open>
  The specification: the elements that the pops return, in order, and what is left; undefined when a
  pop finds the list empty or a push needs more room than \<open>fits\<close> allows.
\<close>

fun spec_run :: "(nat \<Rightarrow> bool) \<Rightarrow> 'a list \<Rightarrow> 'a qop list \<Rightarrow> ('a list \<times> 'a list) option" where
  "spec_run fits xs [] = Some ([], xs)"
| "spec_run fits xs (Push x # ops) =
     (if fits (Suc (length xs)) then spec_run fits (xs @ [x]) ops else None)"
| "spec_run fits [] (Pop # ops) = None"
| "spec_run fits (x # xs) (Pop # ops) = map_option (\<lambda>(out, ys). (x # out, ys)) (spec_run fits xs ops)"

fun pushed :: "'a qop list \<Rightarrow> 'a list" where
  "pushed [] = []"
| "pushed (Push x # ops) = x # pushed ops"
| "pushed (Pop # ops) = pushed ops"

lemma spec_run_fifo: "spec_run fits xs ops = Some (out, ys) \<Longrightarrow> out @ ys = xs @ pushed ops"
  by (induction fits xs ops arbitrary: out ys rule: spec_run.induct) (auto split: if_splits)

text \<open>The same operations on a queue, the front read before it is popped.\<close>

fun run_ops ::
  "('q \<Rightarrow> 'a \<Rightarrow> 'q res) \<Rightarrow> ('q \<Rightarrow> 'a res) \<Rightarrow> ('q \<Rightarrow> 'q res) \<Rightarrow> 'q \<Rightarrow> 'a qop list \<Rightarrow> ('a list \<times> 'q) res" where
  "run_ops push front pop q [] = Inr ([], q)"
| "run_ops push front pop q (Push x # ops) = bind_res (push q x) (\<lambda>q. run_ops push front pop q ops)"
| "run_ops push front pop q (Pop # ops) =
     bind_res (front q) (\<lambda>x. bind_res (pop q) (\<lambda>q.
       bind_res (run_ops push front pop q ops) (\<lambda>(out, q). Inr (x # out, q))))"

section \<open>The interface\<close>

locale fifo =
  fixes rep :: "'q \<Rightarrow> 'a list \<Rightarrow> bool"
    and fits :: "'q \<Rightarrow> nat \<Rightarrow> bool"
    and push :: "'q \<Rightarrow> 'a \<Rightarrow> 'q res"
    and front :: "'q \<Rightarrow> 'a res"
    and pop :: "'q \<Rightarrow> 'q res"
  assumes push: "rep q xs \<Longrightarrow> fits q (Suc (length xs)) \<Longrightarrow>
      \<exists>q'. push q x = Inr q' \<and> rep q' (xs @ [x]) \<and> fits q' = fits q"
    and front: "rep q (x # xs) \<Longrightarrow> front q = Inr x"
    and pop: "rep q (x # xs) \<Longrightarrow> \<exists>q'. pop q = Inr q' \<and> rep q' xs \<and> fits q' = fits q"
begin

lemma run_refines:
  assumes "rep q xs" and "spec_run (fits q) xs ops = Some (out, ys)"
  shows "\<exists>q'. run_ops push front pop q ops = Inr (out, q') \<and> rep q' ys"
  using assms
proof (induction ops arbitrary: q xs out)
  case Nil
  then show ?case by auto
next
  case (Cons op ops)
  show ?case
  proof (cases op)
    case (Push x)
    then have "fits q (Suc (length xs))" and s: "spec_run (fits q) (xs @ [x]) ops = Some (out, ys)"
      using Cons.prems(2) by (auto split: if_splits)
    then obtain q' where q': "push q x = Inr q'" "rep q' (xs @ [x])" "fits q' = fits q"
      using local.push [OF Cons.prems(1)] by blast
    from Cons.IH [OF q'(2) s [folded q'(3)]] show ?thesis using Push q'(1) by simp
  next
    case Pop
    then obtain x zs out' where xs: "xs = x # zs" "out = x # out'" and s: "spec_run (fits q) zs ops = Some (out', ys)"
      using Cons.prems(2) by (cases xs) auto
    obtain q' where q': "pop q = Inr q'" "rep q' zs" "fits q' = fits q"
      using local.pop Cons.prems(1) unfolding xs by blast
    from Cons.IH [OF q'(2) s [folded q'(3)]] show ?thesis
      using Pop q'(1) local.front Cons.prems(1) unfolding xs by fastforce
  qed
qed

text \<open>Whatever is pushed comes out in the order it went in, and nothing else does.\<close>

lemma run_fifo:
  assumes "rep q xs" and "spec_run (fits q) xs ops = Some (out, ys)"
  shows "\<exists>q'. run_ops push front pop q ops = Inr (out, q') \<and> rep q' ys \<and> out @ ys = xs @ pushed ops"
  using run_refines [OF assms] spec_run_fifo [OF assms(2)] by blast

end

section \<open>Powers of two\<close>

lemma and_pow2_minus_1: "(x :: int) AND (2 ^ k - 1) = x mod 2 ^ k"
  by (simp add: mask_eq_exp_minus_1 [symmetric] take_bit_eq_mask [symmetric] take_bit_eq_mod)

definition is_pow2 :: "int \<Rightarrow> bool" where
  "is_pow2 n \<longleftrightarrow> (\<exists>k. n = 2 ^ k)"

lemma is_pow2_mask: "is_pow2 n \<Longrightarrow> x AND (n - 1) = x mod n"
  unfolding is_pow2_def using and_pow2_minus_1 by blast

lemma is_pow2_numeral: "is_pow2 (2 ^ k)"
  unfolding is_pow2_def by blast

text \<open>The test of the constructors.\<close>

lemma is_pow2_check: "0 < n \<Longrightarrow> n AND (n - 1) = 0 \<Longrightarrow> is_pow2 n" for n :: int
  unfolding is_pow2_def
proof (induction "nat n" arbitrary: n rule: less_induct)
  case less
  show ?case
  proof (cases "even n")
    case True
    then obtain m where n: "n = 2 * m" by (elim evenE)
    have "(2 * m - 1) div 2 = m - 1" by presburger
    then have "(2 * m) AND (2 * (m - 1) + 1) = 2 * (m AND (m - 1))" by (simp add: and_int_rec [of "2 * m"])
    then have "m AND (m - 1) = 0" using less.prems(2) by (simp add: n algebra_simps)
    then obtain k where "m = 2 ^ k" using less.hyps [of m] less.prems(1) by (auto simp: n)
    then have "n = 2 ^ Suc k" by (simp add: n)
    then show ?thesis ..
  next
    case False
    then obtain m where n: "n = 2 * m + 1" by (elim oddE)
    have "(2 * m + 1) AND (2 * m) = 2 * m" by (simp add: and_int_rec [of "2 * m + 1"])
    then have "n = 2 ^ 0" using less.prems(2) by (simp add: n)
    then show ?thesis ..
  qed
qed

section \<open>Rotated arrays\<close>

lemma mod_add_inj: "(h + i) mod n = (h + j) mod n \<Longrightarrow> i < n \<Longrightarrow> j < n \<Longrightarrow> i = j" for h :: nat
  using nth_eq_iff_index_eq [of "rotate h [0..<n]" i j] by (simp add: nth_rotate)

lemma rotate_update:
  assumes "i < length v"
  shows "rotate h (v[(h + i) mod length v := x]) = (rotate h v)[i := x]"
proof (rule nth_equalityI)
  fix j assume "j < length (rotate h (v[(h + i) mod length v := x]))"
  then have j: "j < length v" by simp
  then have "0 < length v" by (cases v) auto
  then have p: "(h + k) mod length v < length v" for k by (rule mod_less_divisor)
  have "(h + i) mod length v = (h + j) mod length v \<longleftrightarrow> i = j"
    using assms j mod_add_inj by blast
  then show "rotate h (v[(h + i) mod length v := x]) ! j = (rotate h v)[i := x] ! j"
    using assms j by (cases "i = j") (auto simp: nth_rotate nth_list_update_eq [OF p])
qed simp

lemma rotate_succ: "rotate ((h + 1) mod length v) v = rotate1 (rotate h v)"
proof -
  have "rotate ((h + 1) mod length v) v = rotate (Suc h) v" by (metis Suc_eq_plus1 rotate_conv_mod)
  then show ?thesis by simp
qed

end
