(* ===== verification/Circular_Queue.thy ===== *)
theory Circular_Queue
  imports Fifo_Spec
begin

text \<open>
  The fixed size ring queue of \<open>src/terark/circular_queue.hpp\<close>.  \<open>ptrdiff_t\<close> is \<open>int\<close>; the template argument
  \<open>CapIsPower2\<close> is the first argument of the operations.  A cell of the array is \<open>None\<close> while it holds no
  object: placement new makes it \<open>Some\<close>, a destructor call makes it \<open>None\<close>, and reading a cell without an
  object, which is undefined in the code, is \<open>Abort\<close> like a failed \<open>assert\<close>.  The overloads that copy,
  move or construct in place differ only in how the new object is made.  The increments of the
  iterators are not modelled: they assign members in \<open>const\<close> functions and \<open>+=\<close> calls \<open>next_n\<close> with one
  argument, so they do not compile when they are used.
\<close>

section \<open>State and operations\<close>

record 'a circular_queue =
  cq_vec :: "'a option list"
  cq_head :: int
  cq_tail :: int
  cq_nlen :: int

definition cq_prev :: "bool \<Rightarrow> 'a circular_queue \<Rightarrow> int \<Rightarrow> int" where
  "cq_prev pow2 q current =
     (if pow2 then (current - 1) AND (cq_nlen q - 1)
      else let i = current - 1 in if 0 \<le> i then i else i + cq_nlen q)"

definition cq_next :: "bool \<Rightarrow> 'a circular_queue \<Rightarrow> int \<Rightarrow> int" where
  "cq_next pow2 q current =
     (if pow2 then (current + 1) AND (cq_nlen q - 1)
      else let i = current + 1 in if i < cq_nlen q then i else i - cq_nlen q)"

definition cq_prev_n :: "bool \<Rightarrow> 'a circular_queue \<Rightarrow> int \<Rightarrow> int \<Rightarrow> int res" where
  "cq_prev_n pow2 q current n =
     (if \<not> n < cq_nlen q then Inl Abort
      else Inr (if pow2 then (current - n) AND (cq_nlen q - 1)
                else let i = current - n in if 0 \<le> i then i else i + cq_nlen q))"

definition cq_next_n :: "bool \<Rightarrow> 'a circular_queue \<Rightarrow> int \<Rightarrow> int \<Rightarrow> int res" where
  "cq_next_n pow2 q current n =
     (if \<not> n < cq_nlen q then Inl Abort
      else Inr (if pow2 then (current + n) AND (cq_nlen q - 1)
                else let c = cq_nlen q; i = current + n in if i < c then i else i - c))"

definition cq_default :: "'a circular_queue" where
  "cq_default = \<lparr>cq_vec = [], cq_head = 0, cq_tail = 0, cq_nlen = 0\<rparr>"

text \<open>\<open>alloc\<close> says whether \<open>malloc\<close> of that many elements succeeds.\<close>

definition cq_construct :: "bool \<Rightarrow> (nat \<Rightarrow> bool) \<Rightarrow> int \<Rightarrow> 'a circular_queue res" where
  "cq_construct pow2 alloc cap =
     (if pow2 \<and> (cap AND (cap - 1) \<noteq> 0 \<or> 0 = cap) then Inl Logic_error
      else if cap \<noteq> 0 \<and> \<not> alloc (nat cap) then Inl Bad_alloc
      else Inr \<lparr>cq_vec = replicate (nat cap) None, cq_head = 0, cq_tail = 0, cq_nlen = cap\<rparr>)"

definition cq_init :: "bool \<Rightarrow> (nat \<Rightarrow> bool) \<Rightarrow> 'a circular_queue \<Rightarrow> int \<Rightarrow> 'a circular_queue res" where
  "cq_init pow2 alloc q cap = (if cq_nlen q \<noteq> 0 then Inl Abort else cq_construct pow2 alloc cap)"

definition cq_empty :: "'a circular_queue \<Rightarrow> bool" where
  "cq_empty q = (cq_head q = cq_tail q)"

definition cq_full :: "bool \<Rightarrow> 'a circular_queue \<Rightarrow> bool" where
  "cq_full pow2 q = (cq_next pow2 q (cq_tail q) = cq_head q)"

definition cq_size :: "bool \<Rightarrow> 'a circular_queue \<Rightarrow> int" where
  "cq_size pow2 q =
     (if pow2 then (cq_tail q - cq_head q) AND (cq_nlen q - 1)
      else if cq_head q \<le> cq_tail q then cq_tail q - cq_head q
      else cq_tail q + cq_nlen q - cq_head q)"

definition cq_capacity :: "'a circular_queue \<Rightarrow> int" where
  "cq_capacity q = cq_nlen q"

definition cq_construct_at :: "'a circular_queue \<Rightarrow> int \<Rightarrow> 'a \<Rightarrow> 'a circular_queue" where
  "cq_construct_at q i x = q\<lparr>cq_vec := (cq_vec q)[nat i := Some x]\<rparr>"

definition cq_destroy_at :: "'a circular_queue \<Rightarrow> int \<Rightarrow> 'a circular_queue" where
  "cq_destroy_at q i = q\<lparr>cq_vec := (cq_vec q)[nat i := None]\<rparr>"

definition cq_read :: "'a circular_queue \<Rightarrow> int \<Rightarrow> 'a res" where
  "cq_read q i =
     (if 0 \<le> i \<and> nat i < length (cq_vec q)
      then case cq_vec q ! nat i of Some x \<Rightarrow> Inr x | None \<Rightarrow> Inl Abort
      else Inl Abort)"

definition cq_push_back :: "bool \<Rightarrow> 'a circular_queue \<Rightarrow> 'a \<Rightarrow> 'a circular_queue res" where
  "cq_push_back pow2 q val =
     (if cq_full pow2 q then Inl Abort
      else let q = cq_construct_at q (cq_tail q) val
           in Inr (q\<lparr>cq_tail := cq_next pow2 q (cq_tail q)\<rparr>))"

definition cq_front :: "'a circular_queue \<Rightarrow> 'a res" where
  "cq_front q = (if cq_empty q then Inl Abort else cq_read q (cq_head q))"

definition cq_pop_front :: "bool \<Rightarrow> 'a circular_queue \<Rightarrow> 'a circular_queue res" where
  "cq_pop_front pow2 q =
     (if cq_empty q then Inl Abort
      else let q = cq_destroy_at q (cq_head q)
           in Inr (q\<lparr>cq_head := cq_next pow2 q (cq_head q)\<rparr>))"

definition cq_pop_front_val :: "bool \<Rightarrow> 'a circular_queue \<Rightarrow> ('a \<times> 'a circular_queue) res" where
  "cq_pop_front_val pow2 q =
     (if cq_empty q then Inl Abort
      else bind_res (cq_read q (cq_head q)) (\<lambda>val.
        let q = cq_destroy_at q (cq_head q)
        in Inr (val, q\<lparr>cq_head := cq_next pow2 q (cq_head q)\<rparr>)))"

text \<open>The loop of \<open>clear\<close> ends when the queue is empty; \<open>None\<close> is a loop that does not end.\<close>

partial_function (option) cq_clear_loop :: "bool \<Rightarrow> 'a circular_queue \<Rightarrow> 'a circular_queue res option" where
  "cq_clear_loop pow2 q =
     (if cq_empty q then Some (Inr q)
      else case cq_pop_front pow2 q of
             Inl e \<Rightarrow> Some (Inl e)
           | Inr q \<Rightarrow> cq_clear_loop pow2 q)"

definition cq_clear :: "bool \<Rightarrow> 'a circular_queue \<Rightarrow> 'a circular_queue res option" where
  "cq_clear pow2 q =
     map_option (\<lambda>r. bind_res r (\<lambda>q. Inr (q\<lparr>cq_head := 0, cq_tail := 0\<rparr>))) (cq_clear_loop pow2 q)"

definition cq_virtual_index :: "bool \<Rightarrow> 'a circular_queue \<Rightarrow> int \<Rightarrow> int res" where
  "cq_virtual_index pow2 q real_index =
     (if pow2
      then let i = (real_index - cq_head q) AND (cq_nlen q - 1)
           in if i \<le> cq_size pow2 q then Inr i else Inl Abort
      else let i = real_index - cq_head q; i = (if i < 0 then i + cq_nlen q else i)
           in if 0 \<le> i \<and> i \<le> cq_size pow2 q then Inr i else Inl Abort)"

definition cq_real_index :: "bool \<Rightarrow> 'a circular_queue \<Rightarrow> int \<Rightarrow> int res" where
  "cq_real_index pow2 q virtual_index =
     (if \<not> (0 \<le> virtual_index \<and> virtual_index \<le> cq_size pow2 q) then Inl Abort
      else Inr (if pow2 then (virtual_index + cq_head q) AND (cq_nlen q - 1)
                else let i = virtual_index + cq_head q in if i < cq_nlen q then i else i - cq_nlen q))"

fun cq_pop_front_loop :: "bool \<Rightarrow> nat \<Rightarrow> 'a circular_queue \<Rightarrow> 'a circular_queue res" where
  "cq_pop_front_loop pow2 0 q = Inr q"
| "cq_pop_front_loop pow2 (Suc count) q = bind_res (cq_pop_front pow2 q) (cq_pop_front_loop pow2 count)"

definition cq_pop_lower :: "bool \<Rightarrow> 'a circular_queue \<Rightarrow> int \<Rightarrow> 'a circular_queue res" where
  "cq_pop_lower pow2 q real_index =
     (if cq_empty q then Inl Abort
      else bind_res (cq_virtual_index pow2 q real_index) (\<lambda>i.
        let count = i + 1
        in if \<not> count \<le> cq_size pow2 q then Inl Abort else cq_pop_front_loop pow2 (nat count) q))"

definition cq_push_front :: "bool \<Rightarrow> 'a circular_queue \<Rightarrow> 'a \<Rightarrow> 'a circular_queue res" where
  "cq_push_front pow2 q val =
     (if cq_full pow2 q then Inl Abort
      else let head = cq_prev pow2 q (cq_head q)
           in Inr ((cq_construct_at q head val)\<lparr>cq_head := head\<rparr>))"

definition cq_back :: "bool \<Rightarrow> 'a circular_queue \<Rightarrow> 'a res" where
  "cq_back pow2 q = (if cq_empty q then Inl Abort else cq_read q (cq_prev pow2 q (cq_tail q)))"

definition cq_pop_back :: "bool \<Rightarrow> 'a circular_queue \<Rightarrow> 'a circular_queue res" where
  "cq_pop_back pow2 q =
     (if cq_empty q then Inl Abort
      else let q = q\<lparr>cq_tail := cq_prev pow2 q (cq_tail q)\<rparr>
           in Inr (cq_destroy_at q (cq_tail q)))"

definition cq_pop_back_val :: "bool \<Rightarrow> 'a circular_queue \<Rightarrow> ('a \<times> 'a circular_queue) res" where
  "cq_pop_back_val pow2 q =
     (if cq_empty q then Inl Abort
      else let q = q\<lparr>cq_tail := cq_prev pow2 q (cq_tail q)\<rparr>
           in bind_res (cq_read q (cq_tail q)) (\<lambda>val. Inr (val, cq_destroy_at q (cq_tail q))))"

fun cq_pop_back_loop :: "bool \<Rightarrow> nat \<Rightarrow> 'a circular_queue \<Rightarrow> 'a circular_queue res" where
  "cq_pop_back_loop pow2 0 q = Inr q"
| "cq_pop_back_loop pow2 (Suc count) q = bind_res (cq_pop_back pow2 q) (cq_pop_back_loop pow2 count)"

definition cq_pop_upper :: "bool \<Rightarrow> 'a circular_queue \<Rightarrow> int \<Rightarrow> 'a circular_queue res" where
  "cq_pop_upper pow2 q real_index =
     (if cq_empty q then Inl Abort
      else bind_res (cq_virtual_index pow2 q real_index) (\<lambda>i.
        let count = cq_size pow2 q - i
        in if \<not> count \<le> cq_size pow2 q then Inl Abort else cq_pop_back_loop pow2 (nat count) q))"

definition cq_at :: "bool \<Rightarrow> 'a circular_queue \<Rightarrow> int \<Rightarrow> 'a res" where
  "cq_at pow2 q virtual_index =
     (if \<not> (0 \<le> virtual_index \<and> virtual_index < cq_size pow2 q) then Inl Abort
      else let c = cq_nlen q; i = cq_head q + virtual_index
           in if pow2 then cq_read q (i AND (c - 1))
              else cq_read q (if i < c then i else i - c))"

definition cq_head_real_index :: "'a circular_queue \<Rightarrow> int" where
  "cq_head_real_index q = cq_head q"

definition cq_tail_real_index :: "'a circular_queue \<Rightarrow> int" where
  "cq_tail_real_index q = cq_tail q"

text \<open>An iterator is the index it points to; iterators compare by the distance from the head.\<close>

definition cq_begin :: "'a circular_queue \<Rightarrow> int" where "cq_begin q = cq_head q"
definition cq_end :: "'a circular_queue \<Rightarrow> int" where "cq_end q = cq_tail q"

definition cq_iter_less :: "bool \<Rightarrow> 'a circular_queue \<Rightarrow> int \<Rightarrow> int \<Rightarrow> bool res" where
  "cq_iter_less pow2 q p r =
     bind_res (cq_virtual_index pow2 q p) (\<lambda>i. bind_res (cq_virtual_index pow2 q r) (\<lambda>j. Inr (i < j)))"

section \<open>The list in the ring\<close>

definition cq_rep :: "bool \<Rightarrow> 'a circular_queue \<Rightarrow> 'a list \<Rightarrow> bool" where
  "cq_rep pow2 q xs \<longleftrightarrow>
     cq_nlen q = int (length (cq_vec q)) \<and> (pow2 \<longrightarrow> is_pow2 (cq_nlen q)) \<and>
     length xs < length (cq_vec q) \<and> 0 \<le> cq_head q \<and> cq_head q < cq_nlen q \<and>
     cq_tail q = (cq_head q + int (length xs)) mod cq_nlen q \<and>
     rotate (nat (cq_head q)) (cq_vec q) = map Some xs @ replicate (length (cq_vec q) - length xs) None"

lemma cq_repD:
  assumes "cq_rep pow2 q xs"
  shows "cq_nlen q = int (length (cq_vec q))" and "0 < cq_nlen q" and "length xs < length (cq_vec q)"
    and "0 \<le> cq_head q" and "cq_head q < cq_nlen q" and "0 \<le> cq_tail q" and "cq_tail q < cq_nlen q"
    and "cq_tail q = (cq_head q + int (length xs)) mod cq_nlen q"
    and "rotate (nat (cq_head q)) (cq_vec q) = map Some xs @ replicate (length (cq_vec q) - length xs) None"
  using assms by (auto simp: cq_rep_def intro!: pos_mod_bound pos_mod_sign)

text \<open>An operation keeps the array and changes the ends.\<close>

lemma cq_rep_upd:
  assumes "cq_rep pow2 q xs" and "length v = length (cq_vec q)" and "length ys < length v"
    and "0 \<le> h" "h < cq_nlen q" "t = (h + int (length ys)) mod cq_nlen q"
    and "rotate (nat h) v = map Some ys @ replicate (length v - length ys) None"
  shows "cq_rep pow2 \<lparr>cq_vec = v, cq_head = h, cq_tail = t, cq_nlen = cq_nlen q\<rparr> ys"
  using assms unfolding cq_rep_def by auto

lemma cq_rep_mask: "cq_rep pow2 q xs \<Longrightarrow> pow2 \<Longrightarrow> x AND (cq_nlen q - 1) = x mod cq_nlen q"
  unfolding cq_rep_def using is_pow2_mask by blast

text \<open>The steps of an index depend on the length only.\<close>

lemma cq_index_frame [simp]:
  "cq_next pow2 (cq_construct_at q i x) = cq_next pow2 q" "cq_next pow2 (cq_destroy_at q i) = cq_next pow2 q"
  "cq_prev pow2 (cq_construct_at q i x) = cq_prev pow2 q" "cq_prev pow2 (cq_destroy_at q i) = cq_prev pow2 q"
  by (auto simp: cq_next_def cq_prev_def cq_construct_at_def cq_destroy_at_def fun_eq_iff Let_def)

text \<open>Both ways of wrapping an index, by a comparison and by a mask, are the remainder.\<close>

lemma cq_wrap:
  fixes i c :: int
  assumes "0 < c" "- c \<le> i" "i < 2 * c"
  shows "i < c \<Longrightarrow> 0 \<le> i \<Longrightarrow> i mod c = i" and "c \<le> i \<Longrightarrow> i mod c = i - c" and "i < 0 \<Longrightarrow> i mod c = i + c"
  using assms mod_pos_pos_trivial [of i c] mod_pos_pos_trivial [of "i - c" c] mod_pos_pos_trivial [of "i + c" c] by simp_all

lemma cq_step_mod:
  assumes r: "cq_rep pow2 q xs" and c: "0 \<le> c" "c < cq_nlen q" and n: "0 \<le> n" "n < cq_nlen q"
  shows "cq_prev pow2 q c = (c - 1) mod cq_nlen q" and "cq_next pow2 q c = (c + 1) mod cq_nlen q"
    and "cq_prev_n pow2 q c n = Inr ((c - n) mod cq_nlen q)" and "cq_next_n pow2 q c n = Inr ((c + n) mod cq_nlen q)"
  using cq_repD(2) [OF r] cq_rep_mask [OF r] c n
  by (auto simp: cq_prev_def cq_next_def cq_prev_n_def cq_next_n_def Let_def cq_wrap)

lemma cq_size_rep: "cq_rep pow2 q xs \<Longrightarrow> cq_size pow2 q = int (length xs)"
proof -
  assume r: "cq_rep pow2 q xs"
  note d = cq_repD [OF r]
  have "(cq_tail q - cq_head q) mod cq_nlen q = int (length xs) mod cq_nlen q"
    unfolding d(8) by (simp add: mod_diff_left_eq)
  also have "\<dots> = int (length xs)" using d(1,3) by simp
  finally have m: "(cq_tail q - cq_head q) mod cq_nlen q = int (length xs)" .
  then show ?thesis using d(2,4,5,6,7) cq_rep_mask [OF r] by (auto simp: cq_size_def cq_wrap)
qed

lemma cq_empty_rep: "cq_rep pow2 q xs \<Longrightarrow> cq_empty q \<longleftrightarrow> xs = []"
proof -
  assume r: "cq_rep pow2 q xs"
  note d = cq_repD [OF r]
  have "cq_tail q = cq_head q \<longleftrightarrow> xs = []"
  proof
    assume "cq_tail q = cq_head q"
    then have "cq_size False q = 0" "cq_size True q = 0" by (simp_all add: cq_size_def)
    then show "xs = []" using cq_size_rep [OF r] by (cases pow2) auto
  qed (use d in simp)
  then show ?thesis by (auto simp: cq_empty_def)
qed

lemma cq_full_rep: "cq_rep pow2 q xs \<Longrightarrow> cq_full pow2 q \<longleftrightarrow> length xs + 1 = length (cq_vec q)"
proof -
  assume r: "cq_rep pow2 q xs"
  note d = cq_repD [OF r]
  have "(cq_next pow2 q (cq_tail q) - cq_head q) mod cq_nlen q = int (length xs + 1) mod cq_nlen q"
    unfolding cq_step_mod(2) [OF r d(6,7) order_refl d(2)] by (simp add: d(8) mod_simps algebra_simps)
  moreover have "cq_next pow2 q (cq_tail q) = cq_head q \<longleftrightarrow> (cq_next pow2 q (cq_tail q) - cq_head q) mod cq_nlen q = 0"
    unfolding cq_step_mod(2) [OF r d(6,7) order_refl d(2)]
    using d(4,5) by (metis diff_self mod_0 mod_eq_dvd_iff mod_pos_pos_trivial mod_mod_trivial dvd_eq_mod_eq_0)
  moreover have "int (length xs + 1) mod cq_nlen q = 0 \<longleftrightarrow> length xs + 1 = length (cq_vec q)"
    using d(1,3) by (cases "length xs + 1 = length (cq_vec q)") auto
  ultimately show ?thesis by (simp add: cq_full_def)
qed

text \<open>Where the elements are.\<close>

lemma cq_cell:
  assumes r: "cq_rep pow2 q xs" and i: "i < length (cq_vec q)" and p: "p = (cq_head q + int i) mod cq_nlen q"
  shows "nat p = (nat (cq_head q) + i) mod length (cq_vec q)" and "0 \<le> p" and "nat p < length (cq_vec q)"
    and "cq_vec q ! nat p = (if i < length xs then Some (xs ! i) else None)"
proof -
  note d = cq_repD [OF r]
  show n: "nat p = (nat (cq_head q) + i) mod length (cq_vec q)"
    unfolding p using d(1,4) by (simp add: nat_mod_distrib nat_add_distrib)
  show "0 \<le> p" "nat p < length (cq_vec q)" unfolding p using d(1,2) by (simp_all add: nat_less_iff)
  have "cq_vec q ! nat p = rotate (nat (cq_head q)) (cq_vec q) ! i" unfolding n using i by (simp add: nth_rotate)
  then show "cq_vec q ! nat p = (if i < length xs then Some (xs ! i) else None)"
    unfolding d(9) using i by (simp add: nth_append)
qed

lemma cq_read_rep:
  "cq_rep pow2 q xs \<Longrightarrow> i < length xs \<Longrightarrow> cq_read q ((cq_head q + int i) mod cq_nlen q) = Inr (xs ! i)"
  using cq_cell [of pow2 q xs i, OF _ _ refl] cq_repD(3) [of pow2 q xs] by (simp add: cq_read_def)

lemma cq_update_rep:
  assumes r: "cq_rep pow2 q xs" and i: "i < length (cq_vec q)"
  shows "rotate (nat (cq_head q)) ((cq_vec q)[nat ((cq_head q + int i) mod cq_nlen q) := x]) =
    (map Some xs @ replicate (length (cq_vec q) - length xs) None)[i := x]"
  unfolding cq_cell(1) [OF r i refl] rotate_update [OF i] cq_repD(9) [OF r] ..

text \<open>Moving the head by one rotates once more.\<close>

lemma cq_rotate_next:
  assumes "0 \<le> h" and "length v = nat c" and "0 < c"
  shows "rotate (nat ((h + 1) mod c)) v = rotate1 (rotate (nat h) v)"
proof -
  have "nat ((h + 1) mod c) = (nat h + 1) mod length v" using assms by (simp add: nat_mod_distrib nat_add_distrib)
  then show ?thesis by (simp only: rotate_succ)
qed

section \<open>What the operations do\<close>

lemma cq_push_back_rep:
  assumes r: "cq_rep pow2 q xs" and n: "length xs + 1 < length (cq_vec q)"
  shows "\<exists>q'. cq_push_back pow2 q x = Inr q' \<and> cq_rep pow2 q' (xs @ [x]) \<and> length (cq_vec q') = length (cq_vec q)"
proof -
  note d = cq_repD [OF r]
  have l: "length xs < length (cq_vec q)" using n by simp
  define k where "k = length (cq_vec q) - length xs - 1"
  have k: "length (cq_vec q) - length xs = Suc k" using n by (simp add: k_def)
  have "rotate (nat (cq_head q)) ((cq_vec q)[nat (cq_tail q) := Some x]) = map Some (xs @ [x]) @ replicate k None"
    unfolding d(8) cq_update_rep [OF r l] k by (simp add: list_update_append)
  moreover have "cq_next pow2 (cq_construct_at q (cq_tail q) x) (cq_tail q) = (cq_head q + int (length (xs @ [x]))) mod cq_nlen q"
    unfolding cq_index_frame cq_step_mod(2) [OF r d(6,7) order_refl d(2)] by (simp add: d(8) mod_simps algebra_simps)
  ultimately have "cq_rep pow2 \<lparr>cq_vec = (cq_vec q)[nat (cq_tail q) := Some x], cq_head = cq_head q,
      cq_tail = cq_next pow2 (cq_construct_at q (cq_tail q) x) (cq_tail q), cq_nlen = cq_nlen q\<rparr> (xs @ [x])"
    using n d(4,5) by (intro cq_rep_upd [OF r]) (simp_all add: k_def)
  then show ?thesis
    using n cq_full_rep [OF r] by (cases q) (simp add: cq_push_back_def Let_def cq_construct_at_def)
qed

lemma cq_front_rep: "cq_rep pow2 q (x # xs) \<Longrightarrow> cq_front q = Inr x"
  using cq_read_rep [of pow2 q "x # xs" 0] cq_repD [of pow2 q "x # xs"] cq_empty_rep [of pow2 q "x # xs"]
  by (simp add: cq_front_def)

lemma cq_pop_front_rep:
  assumes r: "cq_rep pow2 q (x # xs)"
  shows "\<exists>q'. cq_pop_front pow2 q = Inr q' \<and> cq_rep pow2 q' xs \<and> length (cq_vec q') = length (cq_vec q)"
    and "cq_pop_front_val pow2 q = bind_res (cq_pop_front pow2 q) (\<lambda>q'. Inr (x, q'))"
proof -
  note d = cq_repD [OF r]
  define v where "v = (cq_vec q)[nat (cq_head q) := None]"
  have h: "(cq_head q + int 0) mod cq_nlen q = cq_head q" using d(4,5) by simp
  have l0: "0 < length (cq_vec q)" using d(1,2) by simp
  define k where "k = length (cq_vec q) - length (x # xs)"
  have lk: "length (cq_vec q) - length xs = k + 1" using d(3) by (simp add: k_def)
  have "rotate (nat (cq_head q)) v = (map Some (x # xs) @ replicate k None)[0 := None]"
    using cq_update_rep [OF r l0, of None] h by (simp add: v_def k_def)
  then have "rotate (nat ((cq_head q + 1) mod cq_nlen q)) v = map Some xs @ replicate (k + 1) None"
    using cq_rotate_next [of "cq_head q" v "cq_nlen q"] d(1,2,4) by (simp add: v_def replicate_append_same)
  moreover have nx: "cq_next pow2 (cq_destroy_at q (cq_head q)) (cq_head q) = (cq_head q + 1) mod cq_nlen q"
    unfolding cq_index_frame by (rule cq_step_mod(2) [OF r d(4,5) order_refl d(2)])
  moreover have "cq_tail q = ((cq_head q + 1) mod cq_nlen q + int (length xs)) mod cq_nlen q"
    unfolding d(8) by (simp add: mod_simps algebra_simps)
  ultimately have "cq_rep pow2 \<lparr>cq_vec = v, cq_head = (cq_head q + 1) mod cq_nlen q, cq_tail = cq_tail q, cq_nlen = cq_nlen q\<rparr> xs"
    using d(2,3) by (intro cq_rep_upd [OF r]) (simp_all add: v_def lk)
  moreover have "cq_pop_front pow2 q = Inr \<lparr>cq_vec = v, cq_head = (cq_head q + 1) mod cq_nlen q, cq_tail = cq_tail q, cq_nlen = cq_nlen q\<rparr>"
    using cq_empty_rep [OF r] nx by (cases q) (simp add: cq_pop_front_def Let_def cq_destroy_at_def v_def)
  ultimately show "\<exists>q'. cq_pop_front pow2 q = Inr q' \<and> cq_rep pow2 q' xs \<and> length (cq_vec q') = length (cq_vec q)"
    by (simp add: v_def)
  show "cq_pop_front_val pow2 q = bind_res (cq_pop_front pow2 q) (\<lambda>q'. Inr (x, q'))"
    using cq_front_rep [OF r] cq_empty_rep [OF r] by (simp add: cq_pop_front_val_def cq_pop_front_def cq_front_def Let_def)
qed

lemma cq_push_front_rep:
  assumes r: "cq_rep pow2 q xs" and n: "length xs + 1 < length (cq_vec q)"
  shows "\<exists>q'. cq_push_front pow2 q x = Inr q' \<and> cq_rep pow2 q' (x # xs) \<and> length (cq_vec q') = length (cq_vec q)"
proof -
  note d = cq_repD [OF r]
  define h where "h = (cq_head q - 1) mod cq_nlen q"
  define v where "v = (cq_vec q)[nat h := Some x]"
  define k where "k = length (cq_vec q) - length xs - 2"
  have k: "length (cq_vec q) - length xs = k + 2" using n by (simp add: k_def)
  have pv: "cq_prev pow2 q (cq_head q) = h" unfolding h_def by (rule cq_step_mod(1) [OF r d(4,5) order_refl d(2)])
  have h: "0 \<le> h" "h < cq_nlen q" unfolding h_def using d(2) by simp_all
  define i where "i = length (cq_vec q) - 1"
  have i: "i < length (cq_vec q)" "int i = cq_nlen q - 1" using d(1,2) unfolding i_def by linarith+
  have h': "h = (cq_head q + int i) mod cq_nlen q" unfolding h_def i(2) by (metis add_diff_eq mod_add_self2 add.commute diff_add_eq)
  have lx: "i - length xs = k + 1" "\<not> i < length xs" using n by (simp_all add: i_def k_def)
  have "rotate (nat (cq_head q)) v = (map Some xs @ replicate (k + 1 + 1) None)[i := Some x]"
    unfolding v_def h' using cq_update_rep [OF r i(1)] by (simp add: k)
  also have "\<dots> = (map Some xs @ replicate (k + 1) None) @ [Some x]"
    unfolding replicate_add using lx by (simp add: list_update_append)
  finally have "rotate1 (rotate (nat h) v) = (map Some xs @ replicate (k + 1) None) @ [Some x]"
    using cq_rotate_next [of h v "cq_nlen q"] h(1) d(1,2,4,5) by (simp add: v_def h_def mod_simps)
  then have "rotate (nat h) v = map Some (x # xs) @ replicate (k + 1) None"
    by (cases "rotate (nat h) v") auto
  moreover have "cq_tail q = (h + int (length (x # xs))) mod cq_nlen q" unfolding d(8) h_def by (simp add: mod_simps)
  moreover have len: "length v - length (x # xs) = k + 1" using k by (simp add: v_def)
  ultimately have "cq_rep pow2 \<lparr>cq_vec = v, cq_head = h, cq_tail = cq_tail q, cq_nlen = cq_nlen q\<rparr> (x # xs)"
    using h n k len by (intro cq_rep_upd [OF r]) (simp_all add: v_def)
  then show ?thesis
    using n cq_full_rep [OF r] pv by (cases q) (simp add: cq_push_front_def Let_def cq_construct_at_def v_def)
qed

lemma cq_tail_prev:
  assumes r: "cq_rep pow2 q (xs @ [x])"
  shows "cq_prev pow2 q (cq_tail q) = (cq_head q + int (length xs)) mod cq_nlen q"
  by (subst cq_step_mod(1) [OF r cq_repD(6,7) [OF r] order_refl cq_repD(2) [OF r]])
    (simp add: cq_repD(8) [OF r] mod_simps)

lemma cq_back_rep: "cq_rep pow2 q (xs @ [x]) \<Longrightarrow> cq_back pow2 q = Inr x"
  using cq_read_rep [of pow2 q "xs @ [x]" "length xs"] cq_empty_rep [of pow2 q "xs @ [x]"]
  by (simp add: cq_back_def cq_tail_prev)

lemma cq_pop_back_rep:
  assumes r: "cq_rep pow2 q (xs @ [x])"
  shows "\<exists>q'. cq_pop_back pow2 q = Inr q' \<and> cq_rep pow2 q' xs \<and> length (cq_vec q') = length (cq_vec q)"
    and "cq_pop_back_val pow2 q = bind_res (cq_pop_back pow2 q) (\<lambda>q'. Inr (x, q'))"
proof -
  note d = cq_repD [OF r]
  define t where "t = cq_prev pow2 q (cq_tail q)"
  have t: "t = (cq_head q + int (length xs)) mod cq_nlen q" unfolding t_def by (rule cq_tail_prev [OF r])
  define v where "v = (cq_vec q)[nat t := None]"
  define k where "k = length (cq_vec q) - length (xs @ [x])"
  have k: "length (cq_vec q) - length xs = k + 1" using d(3) by (simp add: k_def)
  have "rotate (nat (cq_head q)) v = (map Some (xs @ [x]) @ replicate k None)[length xs := None]"
    unfolding v_def t k_def using d(3) by (intro cq_update_rep [OF r]) simp
  then have rot: "rotate (nat (cq_head q)) v = map Some xs @ replicate (k + 1) None"
    by (simp add: list_update_append)
  have "cq_rep pow2 \<lparr>cq_vec = v, cq_head = cq_head q, cq_tail = t, cq_nlen = cq_nlen q\<rparr> xs"
    by (rule cq_rep_upd [OF r]) (use d(3,4,5) t k rot in \<open>simp_all add: v_def\<close>)
  moreover have "cq_pop_back pow2 q = Inr \<lparr>cq_vec = v, cq_head = cq_head q, cq_tail = t, cq_nlen = cq_nlen q\<rparr>"
    using cq_empty_rep [OF r] by (cases q) (simp add: cq_pop_back_def Let_def cq_destroy_at_def v_def t_def)
  ultimately show "\<exists>q'. cq_pop_back pow2 q = Inr q' \<and> cq_rep pow2 q' xs \<and> length (cq_vec q') = length (cq_vec q)"
    by (simp add: v_def)
  have "cq_read (q\<lparr>cq_tail := t\<rparr>) i = cq_read q i" for i by (simp add: cq_read_def)
  then show "cq_pop_back_val pow2 q = bind_res (cq_pop_back pow2 q) (\<lambda>q'. Inr (x, q'))"
    using cq_back_rep [OF r] cq_empty_rep [OF r]
    by (simp add: cq_pop_back_val_def cq_pop_back_def cq_back_def Let_def t_def)
qed

text \<open>Positions: the distance from the head and back.\<close>

lemma cq_index_rep:
  assumes r: "cq_rep pow2 q xs" and i: "i \<le> length xs"
  shows "cq_real_index pow2 q (int i) = Inr ((cq_head q + int i) mod cq_nlen q)"
    and "cq_virtual_index pow2 q ((cq_head q + int i) mod cq_nlen q) = Inr (int i)"
proof -
  note d = cq_repD [OF r]
  have il: "int i < cq_nlen q" using i d(1,3) by simp
  have w: "(cq_head q + int i) mod cq_nlen q = (if cq_head q + int i < cq_nlen q then cq_head q + int i else cq_head q + int i - cq_nlen q)"
    using d(2,4,5) il by (simp add: cq_wrap)
  have m: "((cq_head q + int i) mod cq_nlen q - cq_head q) mod cq_nlen q = int i"
    using il by (simp add: mod_simps)
  show "cq_real_index pow2 q (int i) = Inr ((cq_head q + int i) mod cq_nlen q)"
    using i w cq_rep_mask [OF r] cq_size_rep [OF r] by (auto simp: cq_real_index_def Let_def add.commute)
  show "cq_virtual_index pow2 q ((cq_head q + int i) mod cq_nlen q) = Inr (int i)"
  proof (cases pow2)
    case True
    then show ?thesis using i m cq_rep_mask [OF r] cq_size_rep [OF r] by (simp add: cq_virtual_index_def Let_def)
  next
    case False
    then show ?thesis using i w d(4,5) il cq_size_rep [OF r] by (auto simp: cq_virtual_index_def Let_def)
  qed
qed

lemma cq_at_rep: "cq_rep pow2 q xs \<Longrightarrow> i < length xs \<Longrightarrow> cq_at pow2 q (int i) = Inr (xs ! i)"
  using cq_index_rep(1) [of pow2 q xs i] cq_size_rep [of pow2 q xs] cq_read_rep [of pow2 q xs i]
  by (auto simp: cq_at_def cq_real_index_def Let_def add.commute split: if_splits)

lemma cq_iter_less_rep:
  "cq_rep pow2 q xs \<Longrightarrow> i \<le> length xs \<Longrightarrow> j \<le> length xs \<Longrightarrow>
    cq_iter_less pow2 q ((cq_head q + int i) mod cq_nlen q) ((cq_head q + int j) mod cq_nlen q) = Inr (i < j)"
  by (simp add: cq_iter_less_def cq_index_rep)

lemma cq_pop_front_loop_rep:
  "cq_rep pow2 q xs \<Longrightarrow> n \<le> length xs \<Longrightarrow> \<exists>q'. cq_pop_front_loop pow2 n q = Inr q' \<and> cq_rep pow2 q' (drop n xs)"
proof (induction n arbitrary: q xs)
  case (Suc n)
  then obtain x ys where xs: "xs = x # ys" by (cases xs) auto
  from cq_pop_front_rep(1) [OF Suc.prems(1) [unfolded xs]] obtain q' where
    "cq_pop_front pow2 q = Inr q'" "cq_rep pow2 q' ys" by blast
  then show ?case using Suc.IH [of q' ys] Suc.prems(2) by (simp add: xs)
qed simp

lemma cq_pop_back_loop_rep:
  "cq_rep pow2 q xs \<Longrightarrow> n \<le> length xs \<Longrightarrow> \<exists>q'. cq_pop_back_loop pow2 n q = Inr q' \<and> cq_rep pow2 q' (take (length xs - n) xs)"
proof (induction n arbitrary: q xs)
  case (Suc n)
  then obtain x ys where xs: "xs = ys @ [x]" by (cases xs rule: rev_cases) auto
  from cq_pop_back_rep(1) [OF Suc.prems(1) [unfolded xs]] obtain q' where
    "cq_pop_back pow2 q = Inr q'" "cq_rep pow2 q' ys" by blast
  then show ?case using Suc.IH [of q' ys] Suc.prems(2) by (simp add: xs)
qed simp

lemma cq_clear_loop_rep:
  "cq_rep pow2 q xs \<Longrightarrow> \<exists>q'. cq_clear_loop pow2 q = Some (Inr q') \<and> cq_rep pow2 q' [] \<and> length (cq_vec q') = length (cq_vec q)"
proof (induction xs arbitrary: q)
  case Nil
  then show ?case using cq_empty_rep [OF Nil] by (subst cq_clear_loop.simps) simp
next
  case (Cons x xs)
  from cq_pop_front_rep(1) [OF Cons.prems] obtain q' where
    q': "cq_pop_front pow2 q = Inr q'" "cq_rep pow2 q' xs" "length (cq_vec q') = length (cq_vec q)" by blast
  show ?case using Cons.IH [OF q'(2)] cq_empty_rep [OF Cons.prems] q' by (subst cq_clear_loop.simps) simp
qed

lemma cq_clear_rep:
  assumes r: "cq_rep pow2 q xs"
  shows "\<exists>q'. cq_clear pow2 q = Some (Inr q') \<and> cq_rep pow2 q' [] \<and> length (cq_vec q') = length (cq_vec q) \<and> cq_head q' = 0"
proof -
  obtain q' where q': "cq_clear_loop pow2 q = Some (Inr q')" "cq_rep pow2 q' []" "length (cq_vec q') = length (cq_vec q)"
    using cq_clear_loop_rep [OF r] by blast
  have "rotate (nat (cq_head q')) (cq_vec q') = replicate (length (cq_vec q')) None" using cq_repD(9) [OF q'(2)] by simp
  then have "cq_vec q' = replicate (length (cq_vec q')) None"
    by (metis length_replicate in_set_replicate replicate_eqI set_rotate)
  then have "cq_rep pow2 \<lparr>cq_vec = cq_vec q', cq_head = 0, cq_tail = 0, cq_nlen = cq_nlen q'\<rparr> []"
    using cq_repD(1,2) [OF q'(2)] by (intro cq_rep_upd [OF q'(2)]) simp_all
  then show ?thesis using q'(1,3) by (cases q') (simp add: cq_clear_def)
qed

lemma cq_construct_rep:
  assumes "0 < cap" and "alloc (nat cap)" and "pow2 \<Longrightarrow> cap AND (cap - 1) = 0"
  shows "\<exists>q. cq_construct pow2 alloc cap = Inr q \<and> cq_rep pow2 q [] \<and> cq_capacity q = cap"
  using assms is_pow2_check [of cap] by (auto simp: cq_construct_def cq_rep_def cq_capacity_def)

interpretation cq: fifo "\<lambda>q xs. cq_rep pow2 q xs" "\<lambda>q n. n < length (cq_vec q)" "cq_push_back pow2" cq_front "cq_pop_front pow2"
  for pow2
proof (unfold_locales, goal_cases)
  case (1 q xs x)
  then show ?case using cq_push_back_rep [of pow2 q xs x] by auto
next
  case (2 q x xs)
  then show ?case by (rule cq_front_rep)
next
  case (3 q x xs)
  then show ?case using cq_pop_front_rep(1) [of pow2 q x xs] by auto
qed

section \<open>Properties\<close>

text \<open>C15: A queue constructed with a capacity \<open>cap\<close>, a power of two if the template argument says so, runs every
  sequence of pushes and pops that never holds more than \<open>cap - 1\<close> elements without an assertion failing,
  and returns the elements in the order they were pushed.\<close>

theorem circular_queue_fifo:
  fixes ops :: "'a qop list"
  assumes "0 < cap" and "alloc (nat cap)" and "pow2 \<Longrightarrow> cap AND (cap - 1) = 0"
    and "spec_run (\<lambda>n. n < nat cap) [] ops = Some (out, ys)"
  shows "\<exists>q q'. cq_construct pow2 alloc cap = Inr q \<and>
    run_ops (cq_push_back pow2) cq_front (cq_pop_front pow2) q ops = Inr (out, q') \<and>
    cq_rep pow2 q' ys \<and> out @ ys = pushed ops"
proof -
  obtain q :: "'a circular_queue" where q: "cq_construct pow2 alloc cap = Inr q" "cq_rep pow2 q []" "cq_capacity q = cap"
    using cq_construct_rep [of cap alloc pow2] assms(1-3) by blast
  have l: "length (cq_vec q) = nat cap" using cq_repD(1) [OF q(2)] q(3) by (simp add: cq_capacity_def)
  show ?thesis using cq.run_fifo [OF q(2), unfolded l, OF assms(4)] q(1) by auto
qed

theorem circular_queue_fifo_witness:
  "\<exists>q q'. cq_construct False (\<lambda>_. True) 3 = Inr q \<and>
    run_ops (cq_push_back False) cq_front (cq_pop_front False) q
      [Push (7::nat), Push 8, Pop, Push 9, Pop, Push 10, Pop] = Inr ([7, 8, 9], q') \<and>
    cq_rep False q' [10] \<and> [7, 8, 9, 10] = pushed [Push (7::nat), Push 8, Pop, Push 9, Pop, Push 10, Pop]"
  using circular_queue_fifo [of 3 "\<lambda>_. True" False "[Push (7::nat), Push 8, Pop, Push 9, Pop, Push 10, Pop]" "[7, 8, 9]" "[10]"]
  by simp

text \<open>C22: Every operation at either end does on the ring what it does on the list: it keeps the invariant (no
  destructor of a cell without an object, no construction over one), and the observers read the list.\<close>

theorem circular_queue_deque:
  assumes "cq_rep pow2 q xs"
  shows "cq_size pow2 q = int (length xs) \<and> (cq_empty q \<longleftrightarrow> xs = []) \<and> (cq_full pow2 q \<longleftrightarrow> length xs + 1 = nat (cq_capacity q)) \<and>
    (\<forall>i < length xs. cq_at pow2 q (int i) = Inr (xs ! i)) \<and>
    (\<forall>x. \<not> cq_full pow2 q \<longrightarrow> (\<exists>q'. cq_push_back pow2 q x = Inr q' \<and> cq_rep pow2 q' (xs @ [x])) \<and>
       (\<exists>q'. cq_push_front pow2 q x = Inr q' \<and> cq_rep pow2 q' (x # xs))) \<and>
    (xs \<noteq> [] \<longrightarrow> cq_front q = Inr (hd xs) \<and> cq_back pow2 q = Inr (last xs) \<and>
       (\<exists>q'. cq_pop_front_val pow2 q = Inr (hd xs, q') \<and> cq_rep pow2 q' (tl xs)) \<and>
       (\<exists>q'. cq_pop_back_val pow2 q = Inr (last xs, q') \<and> cq_rep pow2 q' (butlast xs))) \<and>
    (\<exists>q'. cq_clear pow2 q = Some (Inr q') \<and> cq_rep pow2 q' [])"
proof -
  have f: "length xs + 1 < length (cq_vec q)" if "\<not> cq_full pow2 q"
    using that cq_full_rep [OF assms] cq_repD(3) [OF assms] by simp
  have p: "cq_front q = Inr (hd xs) \<and> cq_back pow2 q = Inr (last xs) \<and>
       (\<exists>q'. cq_pop_front_val pow2 q = Inr (hd xs, q') \<and> cq_rep pow2 q' (tl xs)) \<and>
       (\<exists>q'. cq_pop_back_val pow2 q = Inr (last xs, q') \<and> cq_rep pow2 q' (butlast xs))" if ne: "xs \<noteq> []"
  proof -
    obtain x ys where x: "xs = x # ys" using ne by (cases xs) auto
    obtain y zs where y: "xs = zs @ [y]" using ne by (cases xs rule: rev_cases) auto
    show ?thesis
      using cq_front_rep [OF assms [unfolded x]] cq_back_rep [OF assms [unfolded y]]
        cq_pop_front_rep [OF assms [unfolded x]] cq_pop_back_rep [OF assms [unfolded y]] x y
      by (metis bind_res_simps(2) butlast_snoc last_snoc list.sel(1,3))
  qed
  have pb: "\<exists>q'. cq_push_back pow2 q x = Inr q' \<and> cq_rep pow2 q' (xs @ [x])" if "\<not> cq_full pow2 q" for x
    using cq_push_back_rep [OF assms f [OF that]] by blast
  have pf: "\<exists>q'. cq_push_front pow2 q x = Inr q' \<and> cq_rep pow2 q' (x # xs)" if "\<not> cq_full pow2 q" for x
    using cq_push_front_rep [OF assms f [OF that]] by blast
  have full: "cq_full pow2 q \<longleftrightarrow> length xs + 1 = nat (cq_capacity q)"
    using cq_full_rep [OF assms] cq_repD(1) [OF assms] by (simp add: cq_capacity_def)
  show ?thesis
    using cq_size_rep [OF assms] cq_empty_rep [OF assms] full cq_at_rep [OF assms] p pb pf cq_clear_rep [OF assms] by blast
qed

theorem circular_queue_deque_witness:
  "cq_size True \<lparr>cq_vec = [Some (5::nat), None, None, Some 4], cq_head = 3, cq_tail = 1, cq_nlen = 4\<rparr> = 2"
  using circular_queue_deque [of True "\<lparr>cq_vec = [Some (5::nat), None, None, Some 4], cq_head = 3, cq_tail = 1, cq_nlen = 4\<rparr>" "[4, 5]"]
    is_pow2_numeral [of 2] by (simp add: cq_rep_def numeral_eq_Suc)

text \<open>Dropping the elements up to a position, or from a position on: \<open>pop_lower\<close> removes the elements before
  and at the real index of element \<open>i\<close>, \<open>pop_upper\<close> those at and behind it, and the indices of elements
  compare as the elements are ordered.\<close>

theorem circular_queue_pop_range:
  assumes "cq_rep pow2 q xs" and "i < length xs" and "cq_real_index pow2 q (int i) = Inr p"
  shows "(\<exists>q'. cq_pop_lower pow2 q p = Inr q' \<and> cq_rep pow2 q' (drop (i + 1) xs)) \<and>
    (\<exists>q'. cq_pop_upper pow2 q p = Inr q' \<and> cq_rep pow2 q' (take i xs)) \<and>
    cq_iter_less pow2 q (cq_begin q) p = Inr (0 < i) \<and> cq_iter_less pow2 q p (cq_end q) = Inr True"
proof -
  note d = cq_repD [OF assms(1)]
  have le: "i \<le> length xs" "i + 1 \<le> length xs" "length xs - i \<le> length xs" and ne: "xs \<noteq> []" using assms(2) by auto
  have p: "p = (cq_head q + int i) mod cq_nlen q" using cq_index_rep(1) [OF assms(1) le(1)] assms(3) by simp
  note v = cq_index_rep(2) [OF assms(1) le(1), folded p]
  have n: "\<not> cq_empty q" using cq_empty_rep [OF assms(1)] ne by simp
  have h: "(cq_head q + int 0) mod cq_nlen q = cq_begin q" "(cq_head q + int (length xs)) mod cq_nlen q = cq_end q"
    using d(4,5,8) by (simp_all add: cq_begin_def cq_end_def)
  show ?thesis
    using cq_pop_front_loop_rep [OF assms(1) le(2)] cq_pop_back_loop_rep [OF assms(1) le(3)] n v cq_size_rep [OF assms(1)] assms(2)
      cq_iter_less_rep [OF assms(1), of 0 i] cq_iter_less_rep [OF assms(1), of i "length xs"]
    unfolding h p [symmetric] by (auto simp: cq_pop_lower_def cq_pop_upper_def nat_add_distrib nat_diff_distrib)
qed

theorem circular_queue_pop_range_witness:
  "\<exists>q'. cq_pop_lower False \<lparr>cq_vec = [Some (5::nat), None, Some 3, Some 4], cq_head = 2, cq_tail = 1, cq_nlen = 4\<rparr> 3 = Inr q' \<and>
     cq_rep False q' [5]"
  using circular_queue_pop_range
    [of False "\<lparr>cq_vec = [Some (5::nat), None, Some 3, Some 4], cq_head = 2, cq_tail = 1, cq_nlen = 4\<rparr>" "[3, 4, 5]" 1 3]
  by (simp add: cq_rep_def numeral_eq_Suc cq_real_index_def cq_size_def)

end
