(* ===== verification/Auto_Grow_Queue.thy ===== *)
theory Auto_Grow_Queue
  imports Fifo_Spec
begin

text \<open>
  The growing ring queues of \<open>src/terark/util/auto_grow_circular_queue.hpp\<close>: \<open>AutoGrowCircularQueue\<close>, whose
  capacity is a power of two and doubles when a push finds it full, and \<open>AutoGrowCircularQueue2d\<close>, a queue
  of such queues.  Elements are moved by \<open>memcpy\<close>, so a cell of the array is a plain value; destructors of
  elements have no effect on the array.  \<open>size_t\<close> differences under the mask \<open>m_cap - 1\<close> are taken on
  integers: the mask is smaller than the word, so the wrap-around of the difference is not seen.
\<close>

section \<open>State and operations\<close>

text \<open>\<open>malloc\<close> and \<open>realloc\<close>, in elements: which sizes are granted and what new cells hold.\<close>

record 'a qmem =
  grants :: "nat \<Rightarrow> bool"
  junk :: "nat \<Rightarrow> 'a"

record 'a ag_queue =
  agq_vec :: "'a list"
  agq_cap :: nat
  agq_head :: nat
  agq_tail :: nat

definition agq_mask :: "nat \<Rightarrow> int \<Rightarrow> nat" where
  "agq_mask cap i = nat (i AND (int cap - 1))"

definition agq_check_cap :: "nat \<Rightarrow> bool" where
  "agq_check_cap cap = (\<not> (int cap AND (int cap - 1) \<noteq> 0 \<or> 0 = cap))"

definition agq_construct :: "'a qmem \<Rightarrow> nat \<Rightarrow> 'a ag_queue res" where
  "agq_construct mem cap =
     (if \<not> agq_check_cap cap then Inl Abort
      else if \<not> grants mem cap then Inl Abort
      else Inr \<lparr>agq_vec = map (junk mem) [0..<cap], agq_cap = cap, agq_head = 0, agq_tail = 0\<rparr>)"

definition agq_copy :: "'a qmem \<Rightarrow> 'a ag_queue \<Rightarrow> 'a ag_queue res" where
  "agq_copy mem y =
     (if \<not> agq_check_cap (agq_cap y) then Inl Abort
      else if \<not> grants mem (agq_cap y) then Inl Abort
      else Inr \<lparr>agq_vec = take (agq_cap y) (agq_vec y), agq_cap = agq_cap y, agq_head = agq_head y, agq_tail = agq_tail y\<rparr>)"

text \<open>The new queue and what is left of the old one.\<close>

definition agq_move :: "'a ag_queue \<Rightarrow> 'a ag_queue \<times> 'a ag_queue" where
  "agq_move y = (y, \<lparr>agq_vec = [], agq_cap = 0, agq_head = 0, agq_tail = 0\<rparr>)"

definition agq_assign :: "'a qmem \<Rightarrow> bool \<Rightarrow> 'a ag_queue \<Rightarrow> 'a ag_queue \<Rightarrow> 'a ag_queue res" where
  "agq_assign mem same_object q y = (if same_object then Inr q else agq_copy mem y)"

definition agq_swap :: "'a ag_queue \<times> 'a ag_queue \<Rightarrow> 'a ag_queue \<times> 'a ag_queue" where
  "agq_swap = (\<lambda>(x, y). (y, x))"

definition agq_capacity :: "'a ag_queue \<Rightarrow> nat" where
  "agq_capacity q = agq_cap q"
definition agq_remain :: "'a ag_queue \<Rightarrow> nat" where
  "agq_remain q = agq_mask (agq_cap q) (int (agq_head q) - int (agq_tail q))"
definition agq_size :: "'a ag_queue \<Rightarrow> nat" where
  "agq_size q = agq_mask (agq_cap q) (int (agq_tail q) - int (agq_head q))"
definition agq_empty :: "'a ag_queue \<Rightarrow> bool" where
  "agq_empty q = (agq_head q = agq_tail q)"
definition agq_needs_expand :: "'a ag_queue \<Rightarrow> bool" where
  "agq_needs_expand q = (agq_size q = agq_cap q - 1)"

definition agq_front :: "'a ag_queue \<Rightarrow> 'a res" where
  "agq_front q = (if \<not> 0 < agq_size q then Inl Abort else Inr (agq_vec q ! agq_head q))"

definition agq_pop_front :: "'a ag_queue \<Rightarrow> 'a ag_queue res" where
  "agq_pop_front q =
     (if \<not> 0 < agq_size q then Inl Abort
      else Inr (q\<lparr>agq_head := agq_mask (agq_cap q) (int (agq_head q) + 1)\<rparr>))"

definition agq_pop_front_then_check_empty :: "'a ag_queue \<Rightarrow> (bool \<times> 'a ag_queue) res" where
  "agq_pop_front_then_check_empty q =
     (if \<not> 0 < agq_size q then Inl Abort
      else let q = q\<lparr>agq_head := agq_mask (agq_cap q) (int (agq_head q) + 1)\<rparr>
           in Inr (agq_head q = agq_tail q, q))"

definition agq_pop_front_val :: "'a ag_queue \<Rightarrow> ('a \<times> 'a ag_queue) res" where
  "agq_pop_front_val q =
     (if \<not> 0 < agq_size q then Inl Abort
      else let x = agq_vec q ! agq_head q
           in Inr (x, q\<lparr>agq_head := agq_mask (agq_cap q) (int (agq_head q) + 1)\<rparr>))"

text \<open>What is copied to \<open>output\<close>, and the queue.\<close>

definition agq_pop_all :: "'a ag_queue \<Rightarrow> 'a list \<times> 'a ag_queue" where
  "agq_pop_all q =
     (let base = agq_vec q; head = agq_head q; tail = agq_tail q
      in (if head < tail then take (tail - head) (drop head base)
          else let len1 = agq_cap q - head; len2 = tail
               in take len1 (drop head base) @ take len2 base,
          q\<lparr>agq_head := 0, agq_tail := 0\<rparr>))"

definition agq_pop_n :: "'a ag_queue \<Rightarrow> nat \<Rightarrow> 'a list \<times> 'a ag_queue" where
  "agq_pop_n q n =
     (let n = min n (agq_size q); base = agq_vec q; head = agq_head q; tail = agq_tail q
      in (if head < tail then take n (drop head base)
          else let len1 = min (agq_cap q - head) n
               in take len1 (drop head base) @ (if len1 < n then take (n - len1) base else []),
          q\<lparr>agq_head := agq_mask (agq_cap q) (int head + int n)\<rparr>))"

definition agq_memcpy :: "nat \<Rightarrow> nat \<Rightarrow> nat \<Rightarrow> 'a list \<Rightarrow> 'a list" where
  "agq_memcpy dst src n v = take dst v @ take n (drop src v) @ drop (dst + n) v"

definition agq_double_cap :: "'a qmem \<Rightarrow> 'a ag_queue \<Rightarrow> 'a ag_queue res" where
  "agq_double_cap mem q =
     (let cap = agq_cap q in
      if \<not> grants mem (cap * 2) then Inl Abort
      else let base = agq_vec q @ map (junk mem) [cap..<cap * 2]; head = agq_head q; tail = agq_tail q
           in Inr (if cap div 2 < head
                   then q\<lparr>agq_vec := agq_memcpy (cap + head) head (cap - head) base, agq_head := cap + head, agq_cap := cap * 2\<rparr>
                   else if 1 < head
                   then q\<lparr>agq_vec := agq_memcpy cap 0 tail base, agq_tail := cap + tail, agq_cap := cap * 2\<rparr>
                   else if 1 = head then q\<lparr>agq_vec := base, agq_tail := cap, agq_cap := cap * 2\<rparr>
                   else q\<lparr>agq_vec := base, agq_cap := cap * 2\<rparr>))"

definition agq_store_back :: "'a ag_queue \<Rightarrow> 'a \<Rightarrow> 'a ag_queue" where
  "agq_store_back q x =
     q\<lparr>agq_vec := (agq_vec q)[agq_tail q := x], agq_tail := agq_mask (agq_cap q) (int (agq_tail q) + 1)\<rparr>"

definition agq_push_back_slow_path :: "'a qmem \<Rightarrow> 'a ag_queue \<Rightarrow> 'a \<Rightarrow> 'a ag_queue res" where
  "agq_push_back_slow_path mem q x = bind_res (agq_double_cap mem q) (\<lambda>q. Inr (agq_store_back q x))"

definition agq_push_back :: "'a qmem \<Rightarrow> 'a ag_queue \<Rightarrow> 'a \<Rightarrow> 'a ag_queue res" where
  "agq_push_back mem q x =
     (if agq_mask (agq_cap q) (int (agq_head q) - int (agq_tail q)) \<noteq> 1 then Inr (agq_store_back q x)
      else agq_push_back_slow_path mem q x)"

definition agq_back :: "'a ag_queue \<Rightarrow> 'a res" where
  "agq_back q =
     (if \<not> 0 < agq_size q then Inl Abort
      else Inr (agq_vec q ! agq_mask (agq_cap q) (int (agq_tail q) - 1)))"

section \<open>The list in the ring\<close>

definition agq_rep :: "'a ag_queue \<Rightarrow> 'a list \<Rightarrow> bool" where
  "agq_rep q xs \<longleftrightarrow>
     length (agq_vec q) = agq_cap q \<and> is_pow2 (int (agq_cap q)) \<and> length xs < agq_cap q \<and> 2 \<le> agq_cap q \<and>
     agq_head q < agq_cap q \<and> agq_tail q = (agq_head q + length xs) mod agq_cap q \<and>
     (\<forall>i < length xs. agq_vec q ! ((agq_head q + i) mod agq_cap q) = xs ! i)"

lemma agq_mask_mod: "is_pow2 (int cap) \<Longrightarrow> agq_mask cap (int i) = i mod cap"
  by (simp add: agq_mask_def is_pow2_mask nat_mod_distrib)

lemma agq_mask_diff: "is_pow2 (int cap) \<Longrightarrow> i \<le> cap \<Longrightarrow> agq_mask cap (int j - int i) = (j + (cap - i)) mod cap"
proof -
  assume a: "is_pow2 (int cap)" "i \<le> cap"
  have "int (j + (cap - i)) = (int j - int i) + int cap" using a(2) by simp
  then have "(int j - int i) mod int cap = int ((j + (cap - i)) mod cap)" by (simp only: of_nat_mod mod_add_self2)
  then show ?thesis using a(1) by (simp only: agq_mask_def is_pow2_mask nat_int)
qed

lemma agq_repD:
  assumes "agq_rep q xs"
  shows "length (agq_vec q) = agq_cap q" and "is_pow2 (int (agq_cap q))" and "length xs < agq_cap q" and "2 \<le> agq_cap q"
    and "agq_head q < agq_cap q" and "agq_tail q < agq_cap q" and "agq_tail q = (agq_head q + length xs) mod agq_cap q"
    and "\<And>i. i < length xs \<Longrightarrow> agq_vec q ! ((agq_head q + i) mod agq_cap q) = xs ! i"
  using assms by (auto simp: agq_rep_def)

lemma agq_tail_cases:
  assumes "agq_rep q xs"
  shows "agq_tail q = (if agq_head q + length xs < agq_cap q then agq_head q + length xs else agq_head q + length xs - agq_cap q)"
  using agq_repD(3,5,7) [OF assms] by (auto simp: mod_if)

lemma agq_size_rep: "agq_rep q xs \<Longrightarrow> agq_size q = length xs"
proof -
  assume r: "agq_rep q xs"
  note d = agq_repD [OF r]
  have "agq_size q = (agq_tail q + (agq_cap q - agq_head q)) mod agq_cap q"
    unfolding agq_size_def using d(2,5) by (intro agq_mask_diff) simp_all
  then show ?thesis using d(3,5) agq_tail_cases [OF r] by (auto simp: mod_if split: if_splits)
qed

lemma agq_empty_rep: "agq_rep q xs \<Longrightarrow> agq_empty q \<longleftrightarrow> xs = []"
  using agq_tail_cases [of q xs] agq_repD(3,5) [of q xs] by (auto simp: agq_empty_def split: if_splits)

lemma agq_full_rep:
  "agq_rep q xs \<Longrightarrow> agq_mask (agq_cap q) (int (agq_head q) - int (agq_tail q)) = 1 \<longleftrightarrow> length xs + 1 = agq_cap q"
proof -
  assume r: "agq_rep q xs"
  note d = agq_repD [OF r]
  have "agq_mask (agq_cap q) (int (agq_head q) - int (agq_tail q)) = (agq_head q + (agq_cap q - agq_tail q)) mod agq_cap q"
    using d(2,6) by (intro agq_mask_diff) simp_all
  then show ?thesis using d(3,4,5) agq_tail_cases [OF r] by (auto simp: mod_if split: if_splits)
qed

section \<open>What the operations do\<close>

lemma agq_construct_rep:
  assumes "agq_check_cap cap" and "2 \<le> cap" and "grants mem cap"
  shows "\<exists>q. agq_construct mem cap = Inr q \<and> agq_rep q []"
  using assms is_pow2_check [of "int cap"] by (auto simp: agq_construct_def agq_rep_def agq_check_cap_def)

lemma agq_front_rep: "agq_rep q (x # xs) \<Longrightarrow> agq_front q = Inr x"
  using agq_repD(8) [of q "x # xs" 0] agq_repD(5) [of q "x # xs"] agq_size_rep [of q "x # xs"] by (simp add: agq_front_def)

lemma agq_drop_rep:
  assumes r: "agq_rep q xs" and n: "n \<le> length xs"
  shows "agq_rep (q\<lparr>agq_head := agq_mask (agq_cap q) (int (agq_head q + n))\<rparr>) (drop n xs)"
proof -
  note d = agq_repD [OF r]
  have h: "agq_mask (agq_cap q) (int (agq_head q + n)) = (agq_head q + n) mod agq_cap q" by (rule agq_mask_mod [OF d(2)])
  have "agq_vec q ! (((agq_head q + n) mod agq_cap q + i) mod agq_cap q) = xs ! (n + i)" if "n + i < length xs" for i
    using d(8) [OF that] by (simp add: mod_simps add.assoc)
  moreover have "agq_tail q = ((agq_head q + n) mod agq_cap q + (length xs - n)) mod agq_cap q"
    using n unfolding d(7) mod_add_left_eq by simp
  ultimately show ?thesis using d n unfolding h agq_rep_def by (auto simp del: of_nat_add)
qed

lemma agq_pop_front_rep:
  assumes r: "agq_rep q (x # xs)"
  shows "\<exists>q'. agq_pop_front q = Inr q' \<and> agq_rep q' xs"
    and "agq_pop_front_then_check_empty q = bind_res (agq_pop_front q) (\<lambda>q'. Inr (xs = [], q'))"
    and "agq_pop_front_val q = bind_res (agq_pop_front q) (\<lambda>q'. Inr (x, q'))"
proof -
  have p: "agq_pop_front q = Inr (q\<lparr>agq_head := agq_mask (agq_cap q) (int (agq_head q + 1))\<rparr>)"
    using agq_size_rep [OF r] by (simp add: agq_pop_front_def add.commute)
  have d: "agq_rep (q\<lparr>agq_head := agq_mask (agq_cap q) (int (agq_head q + 1))\<rparr>) xs"
    using agq_drop_rep [OF r, of 1] by simp
  show "\<exists>q'. agq_pop_front q = Inr q' \<and> agq_rep q' xs" using p d by blast
  show "agq_pop_front_then_check_empty q = bind_res (agq_pop_front q) (\<lambda>q'. Inr (xs = [], q'))"
    using agq_empty_rep [OF d] agq_size_rep [OF r]
    by (simp add: agq_pop_front_then_check_empty_def agq_pop_front_def agq_empty_def Let_def add.commute)
  show "agq_pop_front_val q = bind_res (agq_pop_front q) (\<lambda>q'. Inr (x, q'))"
    using agq_front_rep [OF r] agq_size_rep [OF r] by (simp add: agq_pop_front_val_def agq_pop_front_def agq_front_def)
qed

lemma agq_back_rep:
  assumes r: "agq_rep q (xs @ [x])"
  shows "agq_back q = Inr x" and "agq_mask (agq_cap q) (int (agq_tail q) - 1) = (agq_head q + length xs) mod agq_cap q"
proof -
  note d = agq_repD [OF r]
  have "agq_mask (agq_cap q) (int (agq_tail q) - int 1) = (agq_tail q + (agq_cap q - 1)) mod agq_cap q"
    using d(2,4) by (intro agq_mask_diff) simp_all
  also have "\<dots> = (agq_head q + length xs) mod agq_cap q"
  proof -
    have "agq_head q + length (xs @ [x]) + (agq_cap q - 1) = agq_head q + length xs + agq_cap q" using d(4) by simp
    then show ?thesis unfolding d(7) by (simp only: mod_add_left_eq mod_add_self2)
  qed
  finally show m: "agq_mask (agq_cap q) (int (agq_tail q) - 1) = (agq_head q + length xs) mod agq_cap q" by simp
  show "agq_back q = Inr x" using d(8) [of "length xs"] agq_size_rep [OF r] by (simp add: agq_back_def m)
qed

lemma agq_store_back_rep:
  assumes r: "agq_rep q xs" and n: "length xs + 1 < agq_cap q"
  shows "agq_rep (agq_store_back q x) (xs @ [x])"
proof -
  note d = agq_repD [OF r]
  have t: "agq_mask (agq_cap q) (int (agq_tail q) + 1) = (agq_head q + length (xs @ [x])) mod agq_cap q"
    using agq_mask_mod [OF d(2), of "agq_tail q + 1"] by (simp add: d(7) mod_simps add.commute)
  have "(agq_vec q)[agq_tail q := x] ! ((agq_head q + i) mod agq_cap q) = (xs @ [x]) ! i" if i: "i < length xs + 1" for i
  proof (cases "i = length xs")
    case True
    then show ?thesis using d(1,6,7) by simp
  next
    case False
    then have "(agq_head q + length xs) mod agq_cap q \<noteq> (agq_head q + i) mod agq_cap q"
      using mod_add_inj [of "agq_head q" "length xs" "agq_cap q" i] i n by auto
    then show ?thesis using d(7,8) False i by (simp add: nth_append)
  qed
  then show ?thesis using d n t unfolding agq_store_back_def agq_rep_def by simp
qed

lemma nth_agq_memcpy:
  assumes "dst + n \<le> length v" and "src + n \<le> length v"
  shows "i < length v \<Longrightarrow> agq_memcpy dst src n v ! i = (if dst \<le> i \<and> i < dst + n then v ! (src + (i - dst)) else v ! i)"
    and "length (agq_memcpy dst src n v) = length v"
proof -
  have l: "length (take dst v) = dst" "length (take n (drop src v)) = n" using assms by auto
  show "length (agq_memcpy dst src n v) = length v" using assms by (simp add: agq_memcpy_def)
  assume i: "i < length v"
  consider "i < dst" | "dst \<le> i" "i < dst + n" | "dst + n \<le> i" by linarith
  then show "agq_memcpy dst src n v ! i = (if dst \<le> i \<and> i < dst + n then v ! (src + (i - dst)) else v ! i)"
  proof cases
    case 2
    then have "i - dst < n" by linarith
    then show ?thesis using 2 assms by (simp add: agq_memcpy_def nth_append l del: length_take)
  next
    case 3
    then have "\<not> i - dst < n" by linarith
    then show ?thesis using 3 assms i by (simp add: agq_memcpy_def nth_append l del: length_take)
  qed (use assms in \<open>simp add: agq_memcpy_def nth_append\<close>)
qed

text \<open>Doubling moves the piece that is behind the wrap, so that the elements stay in order.\<close>

lemma agq_double_cap_rep:
  assumes r: "agq_rep q xs" and full: "length xs + 1 = agq_cap q" and g: "grants mem (agq_cap q * 2)"
  shows "\<exists>q'. agq_double_cap mem q = Inr q' \<and> agq_rep q' xs \<and> agq_cap q' = 2 * agq_cap q"
proof -
  note d = agq_repD [OF r]
  define c h t where "c = agq_cap q" and "h = agq_head q" and "t = agq_tail q"
  define base where "base = agq_vec q @ map (junk mem) [c..<c * 2]"
  have c: "length (agq_vec q) = c" "length base = 2 * c" "h < c" "length xs + 1 = c" "2 \<le> c"
    using d(1,4,5) full by (simp_all add: c_def h_def base_def)
  have t: "t = (if h = 0 then c - 1 else h - 1)"
    using agq_tail_cases [OF r] c(3,4) unfolding c_def h_def t_def by auto
  obtain k where "int c = 2 ^ k" using d(2) unfolding c_def is_pow2_def by blast
  then have p2: "is_pow2 (int (2 * c))" using is_pow2_numeral [of "Suc k"] by simp
  have x: "xs ! i = base ! (if h + i < c then h + i else h + i - c)" if "i < length xs" for i
    using d(8) [OF that] c that unfolding base_def c_def [symmetric] h_def [symmetric] by (auto simp: nth_append mod_if)
  have rep: "agq_rep \<lparr>agq_vec = v, agq_cap = c * 2, agq_head = h', agq_tail = t'\<rparr> xs"
    if "length v = 2 * c" "h' < 2 * c" "t' = (h' + length xs) mod (2 * c)"
      "\<And>i. i < length xs \<Longrightarrow> v ! ((h' + i) mod (2 * c)) = base ! (if h + i < c then h + i else h + i - c)" for v h' t'
    using that p2 c x by (auto simp: agq_rep_def mult.commute)
  show ?thesis
  proof (cases "c div 2 < h")
    case True
    define v where "v = agq_memcpy (c + h) h (c - h) base"
    have v: "v ! i = (if c + h \<le> i \<and> i < 2 * c then base ! (i - c) else base ! i)" if "i < 2 * c" for i
      using that nth_agq_memcpy [of "c + h" "c - h" base h] c(2,3) by (auto simp: v_def)
    have lv: "length v = 2 * c" using nth_agq_memcpy(2) [of "c + h" "c - h" base h] c(2,3) by (auto simp: v_def)
    have "agq_rep \<lparr>agq_vec = v, agq_cap = c * 2, agq_head = c + h, agq_tail = t\<rparr> xs"
      by (rule rep) (use c t v lv True in \<open>auto simp: mod_if\<close>)
    then show ?thesis
      using True g by (cases q) (auto simp: agq_double_cap_def Let_def v_def base_def c_def h_def t_def)
  next
    case False
    then have h2: "2 * h \<le> c" by simp
    show ?thesis
    proof (cases "1 < h")
      case True
      define v where "v = agq_memcpy c 0 t base"
      have v: "v ! i = (if c \<le> i \<and> i < c + t then base ! (i - c) else base ! i)" if "i < 2 * c" for i
        using that nth_agq_memcpy [of c t base 0] c(2,3) t by (auto simp: v_def)
      have lv: "length v = 2 * c" using nth_agq_memcpy(2) [of c t base 0] c(2,3) t by (auto simp: v_def)
      have "agq_rep \<lparr>agq_vec = v, agq_cap = c * 2, agq_head = h, agq_tail = c + t\<rparr> xs"
        by (rule rep) (use c t v lv True in \<open>auto simp: mod_if\<close>)
      then show ?thesis
        using True False g by (cases q) (auto simp: agq_double_cap_def Let_def v_def base_def c_def h_def t_def)
    next
      case le: False
      have "agq_rep \<lparr>agq_vec = base, agq_cap = c * 2, agq_head = h, agq_tail = (if 1 = h then c else t)\<rparr> xs"
        by (rule rep) (use c t le in \<open>auto simp: mod_if\<close>)
      then show ?thesis
        using le False g by (cases q) (auto simp: agq_double_cap_def Let_def base_def c_def h_def t_def split: if_splits)
    qed
  qed
qed

lemma agq_push_back_rep:
  assumes r: "agq_rep q xs" and g: "length xs + 1 = agq_cap q \<Longrightarrow> grants mem (agq_cap q * 2)"
  shows "\<exists>q'. agq_push_back mem q x = Inr q' \<and> agq_rep q' (xs @ [x]) \<and>
    agq_cap q' = (if length xs + 1 = agq_cap q then 2 * agq_cap q else agq_cap q)"
proof (cases "length xs + 1 = agq_cap q")
  case False
  then show ?thesis
    using agq_store_back_rep [OF r, of x] agq_full_rep [OF r] agq_repD(3) [OF r]
    by (auto simp: agq_push_back_def agq_store_back_def)
next
  case True
  obtain q' where q': "agq_double_cap mem q = Inr q'" "agq_rep q' xs" "agq_cap q' = 2 * agq_cap q"
    using agq_double_cap_rep [OF r True] g [OF True] by blast
  then have "agq_rep (agq_store_back q' x) (xs @ [x])" using agq_store_back_rep [OF q'(2)] True agq_repD(4) [OF r] by simp
  then show ?thesis
    using True q' agq_full_rep [OF r] by (auto simp: agq_push_back_def agq_push_back_slow_path_def agq_store_back_def)
qed

lemma agq_segment:
  assumes r: "agq_rep q xs"
  shows "n \<le> length xs \<Longrightarrow> agq_head q < agq_tail q \<Longrightarrow> take n (drop (agq_head q) (agq_vec q)) = take n xs"
    and "n \<le> length xs \<Longrightarrow> \<not> agq_head q < agq_tail q \<Longrightarrow>
      take (min (agq_cap q - agq_head q) n) (drop (agq_head q) (agq_vec q)) @ take (n - (agq_cap q - agq_head q)) (agq_vec q) = take n xs"
proof -
  note d = agq_repD [OF r]
  have x: "xs ! i = agq_vec q ! (if agq_head q + i < agq_cap q then agq_head q + i else agq_head q + i - agq_cap q)" if "i < length xs" for i
    using d(8) [OF that] d(3,5) that by (auto simp: not_less le_mod_geq)
  { assume n: "n \<le> length xs" "agq_head q < agq_tail q"
    have t: "agq_head q + length xs < agq_cap q" using agq_tail_cases [OF r] n(2) d(3) by (auto split: if_splits)
    show "take n (drop (agq_head q) (agq_vec q)) = take n xs"
      by (rule nth_equalityI) (use n x t d(1) in auto) }
  assume n: "n \<le> length xs" "\<not> agq_head q < agq_tail q"
  show "take (min (agq_cap q - agq_head q) n) (drop (agq_head q) (agq_vec q)) @ take (n - (agq_cap q - agq_head q)) (agq_vec q) = take n xs"
    (is "?l = _")
  proof (rule nth_equalityI)
    show len: "length ?l = length (take n xs)" using n(1) d(1,3,5) by (auto simp: min_def)
    fix i assume "i < length ?l"
    then have "i < length (take n xs)" unfolding len .
    then have i: "i < n" "i < length xs" by simp_all
    show "?l ! i = take n xs ! i"
    proof (cases "agq_head q + i < agq_cap q")
      case True
      then have "i < min (agq_cap q - agq_head q) n" using i by simp
      then show ?thesis using True x [OF i(2)] i d(1,5) by (simp add: nth_append)
    next
      case False
      then have "\<not> i < agq_cap q - agq_head q" "i - (agq_cap q - agq_head q) < n - (agq_cap q - agq_head q)"
        "agq_cap q - agq_head q \<le> n" "i - (agq_cap q - agq_head q) = agq_head q + i - agq_cap q" using i d(5) by auto
      then show ?thesis using False x [OF i(2)] i d(1) by (simp add: nth_append min_def)
    qed
  qed
qed

lemma agq_pop_all_rep:
  assumes r: "agq_rep q xs" and ne: "xs \<noteq> []"
  shows "\<exists>q'. agq_pop_all q = (xs, q') \<and> agq_rep q' []"
proof -
  note d = agq_repD [OF r]
  have e: "agq_rep (q\<lparr>agq_head := 0, agq_tail := 0\<rparr>) []" using d(1,2,4) by (simp add: agq_rep_def)
  show ?thesis
  proof (cases "agq_head q < agq_tail q")
    case True
    then have "agq_tail q - agq_head q = length xs" using agq_tail_cases [OF r] d(3,5) by (auto split: if_splits)
    then show ?thesis using agq_segment(1) [OF r order_refl True] e True by (simp add: agq_pop_all_def Let_def)
  next
    case False
    have "0 < length xs" using ne by simp
    then have t: "agq_tail q = agq_head q + length xs - agq_cap q" "agq_cap q - agq_head q \<le> length xs"
      using agq_tail_cases [OF r] False by (auto split: if_splits)
    have t': "length xs - (agq_cap q - agq_head q) = agq_tail q" using t d(5) by simp
    show ?thesis
      using agq_segment(2) [OF r order_refl False] e False t(2) unfolding t' by (simp add: agq_pop_all_def Let_def min_def)
  qed
qed

lemma agq_pop_n_rep:
  assumes r: "agq_rep q xs"
  shows "\<exists>q'. agq_pop_n q n = (take n xs, q') \<and> agq_rep q' (drop n xs)"
proof -
  define m where "m = min n (length xs)"
  have m: "m \<le> length xs" "take m xs = take n xs" "drop m xs = drop n xs" by (auto simp: m_def min_def)
  have t: "(if m' < m then take (m - m') v else []) = take (m - m') v" for m' and v :: "'a list" by simp
  have t2: "m - min a m = m - a" for a by simp
  show ?thesis
    using agq_drop_rep [OF r m(1)] agq_segment [OF r m(1)] agq_size_rep [OF r] m(2,3)
    by (auto simp: agq_pop_n_def Let_def m_def [symmetric] t t2 simp del: of_nat_add simp: of_nat_add [symmetric])
qed

interpretation agq: fifo "\<lambda>q xs. agq_rep q xs \<and> (\<forall>n. grants mem n)" "\<lambda>q n. True" "agq_push_back mem" agq_front agq_pop_front
  for mem
proof (unfold_locales, goal_cases)
  case (1 q xs x)
  then show ?case using agq_push_back_rep [of q xs mem x] by auto
next
  case (2 q x xs)
  then show ?case using agq_front_rep [of q x xs] by simp
next
  case (3 q x xs)
  then show ?case using agq_pop_front_rep(1) [of q x xs] by auto
qed

section \<open>The queue of queues\<close>

record 'a ag_queue2d =
  aq2_cap_col :: nat
  aq2_size :: nat
  aq2_queue :: "'a ag_queue ag_queue"

definition aq2_construct :: "'a ag_queue qmem \<Rightarrow> nat \<Rightarrow> nat \<Rightarrow> 'a ag_queue2d res" where
  "aq2_construct mem cap_row cap_col =
     (if \<not> agq_check_cap cap_col then Inl Abort
      else bind_res (agq_construct mem cap_row) (\<lambda>rows.
        Inr \<lparr>aq2_cap_col = cap_col, aq2_size = 0, aq2_queue = rows\<rparr>))"

definition aq2_swap :: "'a ag_queue2d \<times> 'a ag_queue2d \<Rightarrow> 'a ag_queue2d \<times> 'a ag_queue2d" where
  "aq2_swap = (\<lambda>(x, y). (y, x))"

definition aq2_front :: "'a ag_queue2d \<Rightarrow> 'a res" where
  "aq2_front q = (if \<not> 0 < aq2_size q then Inl Abort else bind_res (agq_front (aq2_queue q)) agq_front)"

definition aq2_back :: "'a ag_queue2d \<Rightarrow> 'a res" where
  "aq2_back q = (if \<not> 0 < aq2_size q then Inl Abort else bind_res (agq_back (aq2_queue q)) agq_back)"

text \<open>An operation on the reference that \<open>front()\<close> or \<open>back()\<close> returns changes that cell.\<close>

definition agq_set_front :: "'a ag_queue \<Rightarrow> 'a \<Rightarrow> 'a ag_queue" where
  "agq_set_front q x = q\<lparr>agq_vec := (agq_vec q)[agq_head q := x]\<rparr>"

definition agq_set_back :: "'a ag_queue \<Rightarrow> 'a \<Rightarrow> 'a ag_queue" where
  "agq_set_back q x = q\<lparr>agq_vec := (agq_vec q)[agq_mask (agq_cap q) (int (agq_tail q) - 1) := x]\<rparr>"

definition aq2_pop_front :: "'a ag_queue2d \<Rightarrow> 'a ag_queue2d res" where
  "aq2_pop_front q =
     (if \<not> 0 < aq2_size q then Inl Abort
      else bind_res (agq_front (aq2_queue q)) (\<lambda>row.
        bind_res (agq_pop_front_then_check_empty row) (\<lambda>(is_empty, row).
          let rows = agq_set_front (aq2_queue q) row in
          bind_res (if is_empty then agq_pop_front rows else Inr rows) (\<lambda>rows.
            Inr (q\<lparr>aq2_queue := rows, aq2_size := aq2_size q - 1\<rparr>)))))"

definition aq2_push_back :: "'a ag_queue qmem \<Rightarrow> 'a qmem \<Rightarrow> 'a ag_queue2d \<Rightarrow> 'a \<Rightarrow> 'a ag_queue2d res" where
  "aq2_push_back mem_row mem q x =
     bind_res (if agq_empty (aq2_queue q) then Inr True
               else bind_res (agq_back (aq2_queue q)) (\<lambda>row. Inr (agq_needs_expand row)))
       (\<lambda>grow.
     bind_res (if grow
               then bind_res (agq_construct mem (aq2_cap_col q)) (\<lambda>row. agq_push_back mem_row (aq2_queue q) row)
               else Inr (aq2_queue q))
       (\<lambda>rows.
     bind_res (agq_back rows) (\<lambda>row. bind_res (agq_push_back mem row x) (\<lambda>row.
       Inr (q\<lparr>aq2_queue := agq_set_back rows row, aq2_size := aq2_size q + 1\<rparr>)))))"

lemma agq_set_rep:
  assumes r: "agq_rep q xs" and i: "i < length xs"
  shows "agq_rep (q\<lparr>agq_vec := (agq_vec q)[(agq_head q + i) mod agq_cap q := y]\<rparr>) (xs[i := y])"
proof -
  note d = agq_repD [OF r]
  have "(agq_vec q)[(agq_head q + i) mod agq_cap q := y] ! ((agq_head q + j) mod agq_cap q) = xs[i := y] ! j" if j: "j < length xs" for j
  proof (cases "i = j")
    case True
    have "(agq_head q + j) mod agq_cap q < agq_cap q" using d(4) by simp
    then show ?thesis using True j d(1) by simp
  next
    case False
    then have "(agq_head q + i) mod agq_cap q \<noteq> (agq_head q + j) mod agq_cap q"
      using mod_add_inj [of "agq_head q" i "agq_cap q" j] i j d(3) by auto
    then show ?thesis using False d(8) [OF j] by simp
  qed
  then show ?thesis using d unfolding agq_rep_def by simp
qed

lemma agq_set_front_rep: "agq_rep q (x # xs) \<Longrightarrow> agq_rep (agq_set_front q y) (y # xs)"
  using agq_set_rep [of q "x # xs" 0 y] agq_repD(5) [of q "x # xs"] by (simp add: agq_set_front_def)

lemma agq_set_back_rep: "agq_rep q (xs @ [x]) \<Longrightarrow> agq_rep (agq_set_back q y) (xs @ [y])"
  using agq_set_rep [of q "xs @ [x]" "length xs" y] agq_back_rep(2) [of q xs x] by (simp add: agq_set_back_def)

text \<open>The rows hold the list in pieces, none of them empty.\<close>

definition aq2_rep :: "'a ag_queue2d \<Rightarrow> 'a list \<Rightarrow> bool" where
  "aq2_rep q xs \<longleftrightarrow>
     agq_check_cap (aq2_cap_col q) \<and> 2 \<le> aq2_cap_col q \<and> aq2_size q = length xs \<and>
     (\<exists>rows xss. agq_rep (aq2_queue q) rows \<and> list_all2 agq_rep rows xss \<and> [] \<notin> set xss \<and> xs = concat xss)"

lemma aq2_repI:
  assumes "agq_check_cap (aq2_cap_col q)" "2 \<le> aq2_cap_col q" "aq2_size q = length (concat xss)"
    and "agq_rep (aq2_queue q) rows" "list_all2 agq_rep rows xss" "[] \<notin> set xss"
  shows "aq2_rep q (concat xss)"
  using assms unfolding aq2_rep_def by blast

lemma aq2_front_rep:
  assumes "aq2_rep q (x # xs)"
  shows "aq2_front q = Inr x"
proof -
  obtain rows xss where a: "agq_rep (aq2_queue q) rows" "list_all2 agq_rep rows xss" "[] \<notin> set xss" "x # xs = concat xss"
    using assms by (auto simp: aq2_rep_def)
  obtain ys yss where xss: "xss = (x # ys) # yss" using a(3,4) by (cases xss; cases "hd xss") auto
  then obtain row rows' where rows: "rows = row # rows'" "agq_rep row (x # ys)" using a(2) by (auto simp: list_all2_Cons2)
  have "0 < aq2_size q" using assms by (simp add: aq2_rep_def)
  then show ?thesis using agq_front_rep [OF a(1) [unfolded rows(1)]] agq_front_rep [OF rows(2)] by (simp add: aq2_front_def)
qed

lemma aq2_pop_front_rep:
  assumes "aq2_rep q (x # xs)"
  shows "\<exists>q'. aq2_pop_front q = Inr q' \<and> aq2_rep q' xs"
proof -
  obtain rows xss where a: "agq_rep (aq2_queue q) rows" "list_all2 agq_rep rows xss" "[] \<notin> set xss" "x # xs = concat xss"
    using assms by (auto simp: aq2_rep_def)
  obtain ys yss where xss: "xss = (x # ys) # yss" using a(3,4) by (cases xss; cases "hd xss") auto
  then obtain row rows' where rows: "rows = row # rows'" "agq_rep row (x # ys)" "list_all2 agq_rep rows' yss"
    using a(2) by (auto simp: list_all2_Cons2)
  obtain row' where row': "agq_pop_front row = Inr row'" "agq_rep row' ys" using agq_pop_front_rep(1) [OF rows(2)] by blast
  note set = agq_set_front_rep [OF a(1) [unfolded rows(1)], of row']
  obtain r2 where r2: "agq_pop_front (agq_set_front (aq2_queue q) row') = Inr r2" "agq_rep r2 rows'"
    using agq_pop_front_rep(1) [OF set] by blast
  have sz: "aq2_size q = Suc (length xs)" "agq_check_cap (aq2_cap_col q)" "2 \<le> aq2_cap_col q" using assms by (auto simp: aq2_rep_def)
  have xs: "xs = ys @ concat yss" using a(4) xss by simp
  have p: "aq2_pop_front q = Inr (q\<lparr>aq2_queue := (if ys = [] then r2 else agq_set_front (aq2_queue q) row'), aq2_size := length xs\<rparr>)"
    using sz agq_front_rep [OF a(1) [unfolded rows(1)]] agq_pop_front_rep(2) [OF rows(2)] row'(1) r2(1)
    by (simp add: aq2_pop_front_def Let_def)
  show ?thesis
  proof (cases "ys = []")
    case True
    then show ?thesis unfolding p aq2_rep_def using sz(2,3) r2(2) rows(3) a(3) xs xss by auto
  next
    case False
    then have "list_all2 agq_rep (row' # rows') (ys # yss)" "[] \<notin> set (ys # yss)" using rows(3) row'(2) a(3) xss by auto
    then show ?thesis unfolding p aq2_rep_def using sz(2,3) set False xs by fastforce
  qed
qed

lemma aq2_push_back_rep:
  assumes r: "aq2_rep q xs" and g: "\<And>n. grants mem_row n" "\<And>n. grants mem n"
  shows "\<exists>q'. aq2_push_back mem_row mem q x = Inr q' \<and> aq2_rep q' (xs @ [x])"
proof -
  obtain rows xss where a: "agq_rep (aq2_queue q) rows" "list_all2 agq_rep rows xss" "[] \<notin> set xss" "xs = concat xss"
    using r by (auto simp: aq2_rep_def)
  have sz: "aq2_size q = length xs" "agq_check_cap (aq2_cap_col q)" "2 \<le> aq2_cap_col q" using r by (auto simp: aq2_rep_def)
  define P where "P = (if agq_empty (aq2_queue q) then Inr True
      else bind_res (agq_back (aq2_queue q)) (\<lambda>row. Inr (agq_needs_expand row)))"
  have "\<exists>b. P = Inr b"
  proof (cases "rows = []")
    case False
    then obtain row rs where "rows = rs @ [row]" by (cases rows rule: rev_cases) auto
    then show ?thesis using a(1) agq_back_rep(1) [of "aq2_queue q" rs row] agq_empty_rep [OF a(1)] by (simp add: P_def)
  qed (use agq_empty_rep [OF a(1)] in \<open>auto simp: P_def\<close>)
  then obtain grow where grow: "P = Inr grow" ..
  have "\<exists>q2 rs row yss ys. (if grow
          then bind_res (agq_construct mem (aq2_cap_col q)) (\<lambda>row. agq_push_back mem_row (aq2_queue q) row)
          else Inr (aq2_queue q)) = Inr q2 \<and>
      agq_rep q2 (rs @ [row]) \<and> list_all2 agq_rep rs yss \<and> agq_rep row ys \<and> [] \<notin> set yss \<and> xs = concat yss @ ys"
  proof (cases grow)
    case True
    obtain row where row: "agq_construct mem (aq2_cap_col q) = Inr row" "agq_rep row []"
      using agq_construct_rep [OF sz(2,3) g(2)] by blast
    obtain q2 where "agq_push_back mem_row (aq2_queue q) row = Inr q2" "agq_rep q2 (rows @ [row])"
      using agq_push_back_rep [OF a(1), of mem_row row] g(1) by blast
    then show ?thesis using True row a(2,3,4)
      by (intro exI [of _ q2] exI [of _ rows] exI [of _ row] exI [of _ xss] exI [of _ "[]"]) simp
  next
    case False
    have "rows \<noteq> []" using grow False agq_empty_rep [OF a(1)] by (auto simp: P_def)
    then obtain row rs where rows: "rows = rs @ [row]" by (cases rows rule: rev_cases) auto
    then obtain yss ys where "xss = yss @ [ys]" "list_all2 agq_rep rs yss" "agq_rep row ys"
      using a(2) by (auto simp: list_all2_append1 list_all2_Cons1)
    then show ?thesis using False a(1,3,4) rows
      by (intro exI [of _ "aq2_queue q"] exI [of _ rs] exI [of _ row] exI [of _ yss] exI [of _ ys]) simp
  qed
  then obtain q2 rs row yss ys where q2: "(if grow
          then bind_res (agq_construct mem (aq2_cap_col q)) (\<lambda>row. agq_push_back mem_row (aq2_queue q) row)
          else Inr (aq2_queue q)) = Inr q2"
      "agq_rep q2 (rs @ [row])" "list_all2 agq_rep rs yss" "agq_rep row ys" "[] \<notin> set yss" "xs = concat yss @ ys" by blast
  obtain row' where row': "agq_push_back mem row x = Inr row'" "agq_rep row' (ys @ [x])"
    using agq_push_back_rep [OF q2(4), of mem x] g(2) by blast
  have "aq2_push_back mem_row mem q x = Inr (q\<lparr>aq2_queue := agq_set_back q2 row', aq2_size := aq2_size q + 1\<rparr>)"
    using grow agq_back_rep(1) [OF q2(2)] row'(1) q2(1) unfolding aq2_push_back_def P_def by simp
  moreover have "list_all2 agq_rep (rs @ [row']) (yss @ [ys @ [x]])" using q2(3) row'(2) by (simp add: list_all2_appendI)
  then have "aq2_rep (q\<lparr>aq2_queue := agq_set_back q2 row', aq2_size := aq2_size q + 1\<rparr>) (concat (yss @ [ys @ [x]]))"
    using sz q2(5,6) agq_set_back_rep [OF q2(2), of row'] by (intro aq2_repI [where rows = "rs @ [row']"]) simp_all
  ultimately show ?thesis using q2(6) by simp
qed

lemma aq2_construct_rep:
  assumes "agq_check_cap cap_row" "2 \<le> cap_row" "agq_check_cap cap_col" "2 \<le> cap_col" "grants mem_row cap_row"
  shows "\<exists>q. aq2_construct mem_row cap_row cap_col = Inr q \<and> aq2_rep q []"
  using assms agq_construct_rep [of cap_row mem_row] by (force simp: aq2_construct_def aq2_rep_def)

interpretation aq2: fifo "\<lambda>q xs. aq2_rep q xs \<and> (\<forall>n. grants mem_row n) \<and> (\<forall>n. grants mem n)" "\<lambda>q n. True"
  "aq2_push_back mem_row mem" aq2_front aq2_pop_front
  for mem_row mem
proof (unfold_locales, goal_cases)
  case (1 q xs x)
  then show ?case using aq2_push_back_rep [of q xs mem_row mem x] by auto
next
  case (2 q x xs)
  then show ?case using aq2_front_rep [of q x xs] by simp
next
  case (3 q x xs)
  then show ?case using aq2_pop_front_rep [of q x xs] by auto
qed

section \<open>Properties\<close>

text \<open>C17: A growing queue that starts with a capacity of two or more, a power of two, takes every sequence of
  pushes and pops that does not pop when nothing is left: nothing fails while memory is granted, and the
  elements come out in the order they went in, through every doubling.\<close>

theorem auto_grow_queue_fifo:
  fixes ops :: "'a qop list"
  assumes "agq_check_cap cap" and "2 \<le> cap" and "\<forall>n. grants mem n"
    and "spec_run (\<lambda>_. True) [] ops = Some (out, ys)"
  shows "\<exists>q q'. agq_construct mem cap = Inr q \<and>
    run_ops (agq_push_back mem) agq_front agq_pop_front q ops = Inr (out, q') \<and>
    agq_rep q' ys \<and> out @ ys = pushed ops"
proof -
  obtain q :: "'a ag_queue" where q: "agq_construct mem cap = Inr q" "agq_rep q []"
    using agq_construct_rep [of cap mem] assms(1-3) by blast
  then show ?thesis using agq.run_fifo [of q "[]" mem, OF _ assms(4)] assms(3) by auto
qed

theorem auto_grow_queue_fifo_witness:
  "\<exists>q q'. agq_construct \<lparr>grants = \<lambda>_. True, junk = \<lambda>_. 99\<rparr> 2 = Inr q \<and>
    run_ops (agq_push_back \<lparr>grants = \<lambda>_. True, junk = \<lambda>_. 99\<rparr>) agq_front agq_pop_front q
      [Push (7::nat), Push 8, Pop, Push 9, Push 10] = Inr ([7], q') \<and>
    agq_rep q' [8, 9, 10] \<and> [7] @ [8, 9, 10] = pushed [Push (7::nat), Push 8, Pop, Push 9, Push 10]"
  by (rule auto_grow_queue_fifo) (simp_all add: agq_check_cap_def)

text \<open>The two bulk reads: \<open>pop_n\<close> copies out the first \<open>n\<close> elements, or all if there are fewer, and removes
  them; \<open>pop_all\<close> of a queue that is not empty copies out all elements and empties it.\<close>

theorem auto_grow_queue_pop_many:
  assumes "agq_rep q xs"
  shows "(\<exists>q'. agq_pop_n q n = (take n xs, q') \<and> agq_rep q' (drop n xs)) \<and>
    (xs \<noteq> [] \<longrightarrow> (\<exists>q'. agq_pop_all q = (xs, q') \<and> agq_rep q' []))"
  using agq_pop_n_rep [OF assms] agq_pop_all_rep [OF assms] by blast

theorem auto_grow_queue_pop_many_witness:
  "fst (agq_pop_n \<lparr>agq_vec = [5::nat, 0, 3, 4], agq_cap = 4, agq_head = 2, agq_tail = 1\<rparr> 2) = [3, 4]"
proof -
  have "agq_rep \<lparr>agq_vec = [5::nat, 0, 3, 4], agq_cap = 4, agq_head = 2, agq_tail = 1\<rparr> [3, 4, 5]"
    using is_pow2_numeral [of 2] by (simp add: agq_rep_def All_less_Suc)
  from auto_grow_queue_pop_many [OF this, of 2] show ?thesis by auto
qed

text \<open>C20: The queue of queues is a first-in first-out queue too: a row that a pop empties is dropped and a push
  that finds the last row full starts a new row.\<close>

theorem auto_grow_queue2d_fifo:
  fixes ops :: "'a qop list"
  assumes "agq_check_cap cap_row" "2 \<le> cap_row" "agq_check_cap cap_col" "2 \<le> cap_col"
    and "\<forall>n. grants mem_row n" and "\<forall>n. grants mem n"
    and "spec_run (\<lambda>_. True) [] ops = Some (out, ys)"
  shows "\<exists>q q'. aq2_construct mem_row cap_row cap_col = Inr q \<and>
    run_ops (aq2_push_back mem_row mem) aq2_front aq2_pop_front q ops = Inr (out, q') \<and>
    aq2_rep q' ys \<and> aq2_size q' = length ys \<and> out @ ys = pushed ops"
proof -
  obtain q :: "'a ag_queue2d" where q: "aq2_construct mem_row cap_row cap_col = Inr q" "aq2_rep q []"
    using aq2_construct_rep [of cap_row cap_col mem_row] assms(1-5) by blast
  then show ?thesis
    using aq2.run_fifo [of q "[]" mem_row mem, OF _ assms(7)] assms(5,6) by (auto simp: aq2_rep_def)
qed

theorem auto_grow_queue2d_fifo_witness:
  "\<exists>q q'. aq2_construct \<lparr>grants = \<lambda>_. True, junk = \<lambda>_. undefined\<rparr> 2 2 = Inr q \<and>
    run_ops (aq2_push_back \<lparr>grants = \<lambda>_. True, junk = \<lambda>_. undefined\<rparr> \<lparr>grants = \<lambda>_. True, junk = \<lambda>_. 99\<rparr>)
      aq2_front aq2_pop_front q [Push (7::nat), Push 8, Pop, Push 9] = Inr ([7], q') \<and>
    aq2_rep q' [8, 9] \<and> aq2_size q' = length [8::nat, 9] \<and> [7] @ [8, 9] = pushed [Push (7::nat), Push 8, Pop, Push 9]"
  by (rule auto_grow_queue2d_fifo) (simp_all add: agq_check_cap_def)

text \<open>Two corners.  The check of the constructor admits a capacity of one, but then a push never finds the queue
  full and the queue stays empty: the element is lost.  And \<open>pop_all\<close> of an empty queue copies the whole
  array out, although the size is zero.\<close>

theorem auto_grow_queue_corners:
  "(\<exists>q q'. agq_construct \<lparr>grants = \<lambda>_. True, junk = \<lambda>_. 99\<rparr> 1 = Inr q \<and>
      agq_push_back \<lparr>grants = \<lambda>_. True, junk = \<lambda>_. 99\<rparr> q (7::nat) = Inr q' \<and> agq_empty q' \<and> agq_size q' = 0) \<and>
   (\<exists>q q'. agq_construct \<lparr>grants = \<lambda>_. True, junk = \<lambda>_. 99\<rparr> 4 = Inr q \<and> agq_size q = 0 \<and>
      agq_pop_all q = ([99::nat, 99, 99, 99], q'))"
  by (simp add: agq_construct_def agq_check_cap_def agq_push_back_def agq_store_back_def agq_empty_def agq_size_def
      agq_mask_def agq_pop_all_def Let_def upt_rec)

end
