(* ===== verification/Heap_Ext.thy ===== *)
theory Heap_Ext
  imports Topling_Prelude "HOL-Library.Multiset"
begin

text \<open>
  The binary heap in an array of \<open>src/terark/heap_ext.hpp\<close>: the hole that goes down to a leaf along the
  larger children and up again to the place of the new value.  The array is a list, \<open>cmp\<close> is the
  comparison of the caller, for which C++ demands a strict weak order.  The overloads with \<open>SyncIndex\<close>
  are not modelled: their \<open>terark_heap_hole_down\<close> is declared \<open>void\<close> but returns the hole, so it does not
  compile when it is used.
\<close>

section \<open>The code\<close>

function heap_hole_up :: "('a \<Rightarrow> 'a \<Rightarrow> bool) \<Rightarrow> 'a list \<Rightarrow> nat \<Rightarrow> nat \<Rightarrow> 'a \<Rightarrow> 'a list" where
  "heap_hole_up cmp first hole tp val =
     (if tp < hole \<and> cmp (first ! ((hole - 1) div 2)) val
      then let parent = (hole - 1) div 2
           in heap_hole_up cmp (first[hole := first ! parent]) parent tp val
      else first[hole := val])"
  by pat_completeness auto
termination by (relation "measure (\<lambda>(cmp, first, hole, tp, val). hole)") auto

declare heap_hole_up.simps [simp del]

function heap_hole_down :: "('a \<Rightarrow> 'a \<Rightarrow> bool) \<Rightarrow> 'a list \<Rightarrow> nat \<Rightarrow> nat \<Rightarrow> 'a list \<times> nat" where
  "heap_hole_down cmp first hole len =
     (let child2 = 2 * hole + 2 in
      if child2 < len
      then let child2 = (if cmp (first ! child2) (first ! (child2 - 1)) then child2 - 1 else child2)
           in heap_hole_down cmp (first[hole := first ! child2]) child2 len
      else if child2 = len
      then let child2 = child2 - 1 in (first[hole := first ! child2], child2)
      else (first, hole))"
  by pat_completeness auto
termination by (relation "measure (\<lambda>(cmp, first, hole, len). len - hole)") auto

declare heap_hole_down.simps [simp del]

definition adjust_heap :: "('a \<Rightarrow> 'a \<Rightarrow> bool) \<Rightarrow> 'a list \<Rightarrow> nat \<Rightarrow> nat \<Rightarrow> 'a \<Rightarrow> 'a list" where
  "adjust_heap cmp first hole len val =
     (let (first, leaf_hole) = heap_hole_down cmp first hole len; tp = hole
      in heap_hole_up cmp first leaf_hole tp val)"

definition pop_heap_ignore_top :: "('a \<Rightarrow> 'a \<Rightarrow> bool) \<Rightarrow> 'a list \<Rightarrow> nat \<Rightarrow> 'a list" where
  "pop_heap_ignore_top cmp first len =
     (if 1 < len then adjust_heap cmp first 0 (len - 1) (first ! (len - 1)) else first)"

definition adjust_heap_top :: "('a \<Rightarrow> 'a \<Rightarrow> bool) \<Rightarrow> 'a list \<Rightarrow> nat \<Rightarrow> 'a list" where
  "adjust_heap_top cmp first len =
     (if 1 < len then adjust_heap cmp first 0 len (first ! 0) else first)"

section \<open>Heaps\<close>

definition strict_weak :: "('a \<Rightarrow> 'a \<Rightarrow> bool) \<Rightarrow> bool" where
  "strict_weak cmp \<longleftrightarrow> (\<forall>x y. cmp x y \<longrightarrow> \<not> cmp y x) \<and> (\<forall>x y z. \<not> cmp x y \<longrightarrow> \<not> cmp y z \<longrightarrow> \<not> cmp x z)"

lemma strict_weakD:
  assumes "strict_weak cmp"
  shows "cmp x y \<Longrightarrow> \<not> cmp y x" and "\<not> cmp x y \<Longrightarrow> \<not> cmp y z \<Longrightarrow> \<not> cmp x z" and "\<not> cmp x x"
  using assms unfolding strict_weak_def by blast+

abbreviation parent :: "nat \<Rightarrow> nat" where "parent i \<equiv> (i - 1) div 2"

text \<open>No child is above its parent, for the parents from \<open>k\<close> on.\<close>

definition heap_from :: "('a \<Rightarrow> 'a \<Rightarrow> bool) \<Rightarrow> nat \<Rightarrow> nat \<Rightarrow> 'a list \<Rightarrow> bool" where
  "heap_from cmp k len a \<longleftrightarrow> (\<forall>i < len. 0 < i \<longrightarrow> k \<le> parent i \<longrightarrow> \<not> cmp (a ! parent i) (a ! i))"

text \<open>The nodes below \<open>tp\<close>.\<close>

inductive below :: "nat \<Rightarrow> nat \<Rightarrow> bool" for tp where
  below_root: "below tp tp"
| below_child: "below tp h \<Longrightarrow> 0 < c \<Longrightarrow> parent c = h \<Longrightarrow> below tp c"

inductive_cases belowE: "below tp h"

lemma below_ge: "below tp h \<Longrightarrow> tp \<le> h"
  by (induction rule: below.induct) auto

lemma below_parent: "below tp h \<Longrightarrow> tp < h \<Longrightarrow> below tp (parent h)"
  by (erule belowE) auto

lemma parent_iff: "0 < i \<Longrightarrow> parent i = h \<longleftrightarrow> i = 2 * h + 1 \<or> i = 2 * h + 2"
  by auto

text \<open>A heap but for a hole: the hole may hold anything, and its parent is above its children.\<close>

definition holed :: "('a \<Rightarrow> 'a \<Rightarrow> bool) \<Rightarrow> nat \<Rightarrow> nat \<Rightarrow> nat \<Rightarrow> 'a list \<Rightarrow> bool" where
  "holed cmp tp len h a \<longleftrightarrow> len \<le> length a \<and> h < len \<and> below tp h \<and>
     (\<forall>i < len. 0 < i \<longrightarrow> tp \<le> parent i \<longrightarrow> i \<noteq> h \<longrightarrow> parent i \<noteq> h \<longrightarrow> \<not> cmp (a ! parent i) (a ! i)) \<and>
     (\<forall>i < len. 0 < i \<longrightarrow> parent i = h \<longrightarrow> tp < h \<longrightarrow> \<not> cmp (a ! parent h) (a ! i))"

lemma holedD:
  assumes "holed cmp tp len h a"
  shows "len \<le> length a" and "h < len" and "below tp h"
    and "\<And>i. i < len \<Longrightarrow> 0 < i \<Longrightarrow> tp \<le> parent i \<Longrightarrow> i \<noteq> h \<Longrightarrow> parent i \<noteq> h \<Longrightarrow> \<not> cmp (a ! parent i) (a ! i)"
    and "\<And>i. i < len \<Longrightarrow> 0 < i \<Longrightarrow> parent i = h \<Longrightarrow> tp < h \<Longrightarrow> \<not> cmp (a ! parent h) (a ! i)"
  using assms unfolding holed_def by blast+

text \<open>Moving the larger child into the hole.\<close>

lemma holed_down:
  assumes sw: "strict_weak cmp" and h: "holed cmp tp len h a"
    and c: "c < len" "0 < c" "parent c = h" and best: "\<And>i. i < len \<Longrightarrow> 0 < i \<Longrightarrow> parent i = h \<Longrightarrow> \<not> cmp (a ! c) (a ! i)"
  shows "holed cmp tp len c (a[h := a ! c])"
proof -
  note d = holedD [OF h]
  have hc: "h < c" using c by auto
  have th: "tp \<le> h" by (rule below_ge [OF d(3)])
  have g: "a[h := a ! c] ! i = (if i = h then a ! c else a ! i)" if "i < len" for i
    using d(1) that by (simp add: nth_list_update)
  show ?thesis
    unfolding holed_def
  proof (intro conjI allI impI)
    show "len \<le> length (a[h := a ! c])" using d(1) by simp
    show "below tp c" by (rule below_child [OF d(3) c(2,3)])
    fix i assume i: "i < len" "0 < i"
    have pi: "parent i < len" using i by simp
    { assume t: "tp \<le> parent i" "i \<noteq> c" "parent i \<noteq> c"
      show "\<not> cmp (a[h := a ! c] ! parent i) (a[h := a ! c] ! i)"
      proof (cases "i = h")
        case True
        then have "tp < h" "parent i \<noteq> h" using t(1) i(2) by auto
        then show ?thesis using True d(5) [OF c] g [OF i(1)] g [OF pi] by simp
      next
        case False
        then show ?thesis using best [OF i] d(4) [OF i t(1)] g [OF i(1)] g [OF pi] by simp
      qed }
    { assume p: "parent i = c" "tp < c"
      have "i \<noteq> h" "parent i \<noteq> h" "tp \<le> parent i" using p hc th i by auto
      then show "\<not> cmp (a[h := a ! c] ! parent c) (a[h := a ! c] ! i)"
        using d(4) [OF i] g [OF i(1)] g [of "parent c"] c p by simp }
  qed (use c in simp)
qed

text \<open>Moving the parent into the hole, when it is smaller than the value that looks for a place.\<close>

definition fits_below :: "('a \<Rightarrow> 'a \<Rightarrow> bool) \<Rightarrow> nat \<Rightarrow> nat \<Rightarrow> 'a list \<Rightarrow> 'a \<Rightarrow> bool" where
  "fits_below cmp len h a val \<longleftrightarrow> (\<forall>i < len. 0 < i \<longrightarrow> parent i = h \<longrightarrow> \<not> cmp val (a ! i))"

lemma holed_up:
  assumes sw: "strict_weak cmp" and h: "holed cmp tp len h a" and th: "tp < h"
    and small: "cmp (a ! parent h) val"
  shows "holed cmp tp len (parent h) (a[h := a ! parent h])"
    and "fits_below cmp len (parent h) (a[h := a ! parent h]) val"
proof -
  note d = holedD [OF h]
  note s = strict_weakD [OF sw]
  define p where "p = parent h"
  have p: "p < h" "tp \<le> p" "below tp p" "0 < h"
    using th below_parent [OF d(3) th] below_ge by (auto simp: p_def)
  have g: "a[h := a ! p] ! i = (if i = h then a ! p else a ! i)" if "i < len" for i
    using d(1) that by (simp add: nth_list_update)
  have sib: "\<not> cmp (a ! p) (a ! i)" if "i < len" "0 < i" "parent i = p" "i \<noteq> h" for i
    using d(4) [OF that(1,2)] that p by simp
  show "holed cmp tp len (parent h) (a[h := a ! parent h])"
    unfolding holed_def p_def [symmetric]
  proof (intro conjI allI impI)
    fix i assume i: "i < len" "0 < i"
    have pi: "parent i < len" using i by simp
    { assume t: "tp \<le> parent i" "i \<noteq> p" "parent i \<noteq> p"
      show "\<not> cmp (a[h := a ! p] ! parent i) (a[h := a ! p] ! i)"
      proof (cases "parent i = h")
        case True
        then have "i \<noteq> h" using i by auto
        then show ?thesis using True d(5) [OF i True th] g [OF i(1)] g [OF pi] by (simp add: p_def)
      next
        case False
        have "i \<noteq> h" using t(3) by (auto simp: p_def)
        then show ?thesis using False d(4) [OF i t(1)] g [OF i(1)] g [OF pi] by simp
      qed }
    { assume c: "parent i = p" "tp < p"
      then have pp: "0 < p" "parent p \<noteq> h" "parent p < len" "p < len" using p d(2) by auto
      have tpp: "tp \<le> parent p" using below_ge [OF below_parent [OF p(3) c(2)]] .
      have up: "\<not> cmp (a ! parent p) (a ! p)" using d(4) [OF pp(4,1) tpp] p(1) pp(2) by simp
      show "\<not> cmp (a[h := a ! p] ! parent p) (a[h := a ! p] ! i)"
      proof (cases "i = h")
        case True
        then show ?thesis unfolding g [OF i(1)] g [OF pp(3)] using up pp(2) by (simp only: if_True if_False simp_thms)
      next
        case False
        then show ?thesis using s(2) [OF up sib [OF i c(1) False]] False by (simp only: g [OF i(1)] g [OF pp(3)] pp(2) if_False)
      qed }
  qed (use d(1,2) p in simp_all)
  have pv: "\<not> cmp val (a ! p)" using s(1) small by (simp add: p_def)
  show "fits_below cmp len (parent h) (a[h := a ! parent h]) val"
    unfolding fits_below_def p_def [symmetric]
  proof (intro allI impI)
    fix i assume i: "i < len" "0 < i" "parent i = p"
    then show "\<not> cmp val (a[h := a ! p] ! i)"
      using g [OF i(1)] s(2) [OF pv sib [OF i]] pv by (cases "i = h") simp_all
  qed
qed

lemma mset_move: "h < length a \<Longrightarrow> c < length a \<Longrightarrow> mset ((a[h := a ! c])[c := v]) = mset (a[h := v])"
proof (cases "h = c")
  case False
  assume "h < length a" "c < length a"
  then have "mset ((a[h := v])[h := a[h := v] ! c, c := a[h := v] ! h]) = mset (a[h := v])"
    by (intro mset_swap) simp_all
  then show ?thesis using False \<open>h < length a\<close> by simp
qed simp

text \<open>What the two loops do together.\<close>

lemma hole_up_heap:
  assumes sw: "strict_weak cmp" and "holed cmp tp len h a" and "fits_below cmp len h a val"
  shows "heap_from cmp tp len (heap_hole_up cmp a h tp val) \<and> mset (heap_hole_up cmp a h tp val) = mset (a[h := val]) \<and>
    drop len (heap_hole_up cmp a h tp val) = drop len a"
  using assms
proof (induction cmp a h tp val rule: heap_hole_up.induct)
  case (1 cmp a h tp val)
  note d = holedD [OF "1.prems"(2)]
  note s = strict_weakD [OF "1.prems"(1)]
  show ?case
  proof (cases "tp < h \<and> cmp (a ! parent h) val")
    case True
    then have p: "parent h < length a" "h < length a" "parent h < len" using d(1,2) by auto
    note up = holed_up [OF "1.prems"(1,2) True [THEN conjunct1] True [THEN conjunct2]]
    have e: "heap_hole_up cmp a h tp val = heap_hole_up cmp (a[h := a ! parent h]) (parent h) tp val"
      using True by (subst heap_hole_up.simps) (simp add: Let_def)
    show ?thesis
      using "1.IH" [OF True refl "1.prems"(1) up] d(2) mset_move [OF p(2,1), of val] unfolding e by simp
  next
    case False
    have e: "heap_hole_up cmp a h tp val = a[h := val]"
      unfolding heap_hole_up.simps [of cmp a h tp val] using False by (simp only: if_False)
    have "\<not> cmp (a[h := val] ! parent i) (a[h := val] ! i)" if i: "i < len" "0 < i" "tp \<le> parent i" for i
    proof -
      have g: "a[h := val] ! j = (if j = h then val else a ! j)" if "j < len" for j
        using d(1) that by (simp add: nth_list_update)
      have pi: "parent i < len" "parent i \<noteq> i" using i by auto
      consider "i = h" | "parent i = h" | "i \<noteq> h" "parent i \<noteq> h" by blast
      then show ?thesis
      proof cases
        case 1
        then have "tp < h" using i by auto
        then have "\<not> cmp (a ! parent i) val" using False unfolding 1 by blast
        moreover have "parent i \<noteq> h" using pi(2) unfolding 1 .
        ultimately show ?thesis unfolding g [OF i(1)] g [OF pi(1)] using 1 by (simp only: if_True if_False simp_thms)
      next
        case 2
        then have "i \<noteq> h" "\<not> cmp val (a ! i)" using pi(2) "1.prems"(3) i(1,2) by (auto simp only: fits_below_def)
        then show ?thesis unfolding g [OF i(1)] g [OF pi(1)] if_P [OF 2] by (simp only: if_False simp_thms)
      next
        case 3
        then show ?thesis using d(4) [OF i 3] unfolding g [OF i(1)] g [OF pi(1)] by (simp only: if_False simp_thms)
      qed
    qed
    then show ?thesis using e d(2) by (simp add: heap_from_def)
  qed
qed

lemma hole_down_heap:
  assumes "strict_weak cmp" and "holed cmp tp len h a" and "heap_hole_down cmp a h len = (a', l)"
  shows "holed cmp tp len l a' \<and> len \<le> 2 * l + 1 \<and> mset (a'[l := v]) = mset (a[h := v]) \<and> drop len a' = drop len a"
  using assms
proof (induction cmp a h len arbitrary: a' l rule: heap_hole_down.induct)
  case (1 cmp a h len)
  note d = holedD [OF "1.prems"(2)]
  note s = strict_weakD [OF "1.prems"(1)]
  have kids: "i = 2 * h + 1 \<or> i = 2 * h + 2" if "0 < i" "parent i = h" for i using parent_iff [OF that(1)] that(2) by blast
  show ?case
  proof (cases "2 * h + 2 < len")
    case True
    define c where "c = (if cmp (a ! (2 * h + 2)) (a ! (2 * h + 2 - 1)) then 2 * h + 2 - 1 else 2 * h + 2)"
    have c: "c < len" "0 < c" "parent c = h" using True by (auto simp: c_def)
    have "\<not> cmp (a ! c) (a ! i)" if "i < len" "0 < i" "parent i = h" for i
      using kids [OF that(2,3)] s(1) [of "a ! (2 * h + 2)" "a ! (2 * h + 1)"] s(3) by (auto simp: c_def)
    note down = holed_down [OF "1.prems"(1,2) c this]
    have "heap_hole_down cmp a h len = heap_hole_down cmp (a[h := a ! c]) c len"
      unfolding heap_hole_down.simps [of cmp a h len] Let_def c_def [symmetric] if_P [OF True] ..
    then have e: "heap_hole_down cmp (a[h := a ! c]) c len = (a', l)" using "1.prems"(3) by simp
    have "h < length a" "c < length a" using d(1,2) c(1) by simp_all
    then show ?thesis
      using "1.IH" [OF refl True c_def "1.prems"(1) down e] d(2) mset_move [of h a c v] by simp
  next
    case False
    show ?thesis
    proof (cases "2 * h + 2 = len")
      case True
      define c where "c = 2 * h + 1"
      have c: "c < len" "0 < c" "parent c = h" using True by (auto simp: c_def)
      have "\<not> cmp (a ! c) (a ! i)" if "i < len" "0 < i" "parent i = h" for i
        using kids [OF that(2,3)] that(1) True s(3) by (auto simp: c_def)
      note down = holed_down [OF "1.prems"(1,2) c this]
      have "a' = a[h := a ! c] \<and> l = c"
        using "1.prems"(3) True by (auto simp: heap_hole_down.simps [of cmp a h len] Let_def c_def)
      moreover have "h < length a" "c < length a" using d(1,2) c(1) by simp_all
      ultimately show ?thesis using down d(2) mset_move [of h a c v] True by (simp add: c_def)
    next
      case False2: False
      then have "a' = a \<and> l = h" using "1.prems"(3) False by (simp add: heap_hole_down.simps [of cmp a h len] Let_def)
      then show ?thesis using "1.prems"(2) False False2 by simp
    qed
  qed
qed

lemma adjust_heap_correct:
  assumes sw: "strict_weak cmp" and hp: "heap_from cmp (h + 1) len a" and l: "h < len" "len \<le> length a"
  shows "heap_from cmp h len (adjust_heap cmp a h len val) \<and> mset (adjust_heap cmp a h len val) = mset (a[h := val]) \<and>
    drop len (adjust_heap cmp a h len val) = drop len a"
proof -
  have hol: "holed cmp h len h a"
    using hp l below_root [of h] unfolding holed_def heap_from_def by (auto simp: Suc_le_eq le_less)
  obtain a' k where dn: "heap_hole_down cmp a h len = (a', k)" by fastforce
  note d = hole_down_heap [OF sw hol dn, of val]
  have "fits_below cmp len k a' val" unfolding fits_below_def using d by auto
  from hole_up_heap [OF sw d [THEN conjunct1] this] show ?thesis
    using d by (simp add: adjust_heap_def dn)
qed

lemma heap_from_upt:
  "heap_from cmp k len a \<longleftrightarrow> list_all (\<lambda>i. 0 < i \<longrightarrow> k \<le> parent i \<longrightarrow> \<not> cmp (a ! parent i) (a ! i)) [0..<len]"
  by (auto simp: heap_from_def list_all_iff)

lemma heap_top:
  assumes sw: "strict_weak cmp" and hp: "heap_from cmp 0 len a" and "i < len"
  shows "\<not> cmp (a ! 0) (a ! i)"
  using assms(3)
proof (induction i rule: less_induct)
  case (less i)
  show ?case
  proof (cases "i = 0")
    case False
    then have "\<not> cmp (a ! 0) (a ! parent i)" using less by simp
    moreover have "\<not> cmp (a ! parent i) (a ! i)" using hp less.prems False by (simp add: heap_from_def)
    ultimately show ?thesis by (rule strict_weakD(2) [OF sw])
  qed (simp add: strict_weakD(3) [OF sw])
qed

lemma mset_take_drop: "mset a = mset b \<Longrightarrow> drop n a = drop n b \<Longrightarrow> mset (take n a) = mset (take n b)"
  by (metis add_right_cancel append_take_drop_id mset_append)

section \<open>Properties\<close>

text \<open>C24: Adjusting the heap at a hole: if every pair of parent and child behind the hole is in order, then with the new
  value the pairs from the hole on are in order; the array has the same elements, the new value in place
  of the old, and nothing behind the heap changes.\<close>

theorem adjust_heap_invariant:
  assumes "strict_weak cmp" and "heap_from cmp (hole + 1) len first" and "hole < len" and "len \<le> length first"
  shows "heap_from cmp hole len (adjust_heap cmp first hole len val) \<and>
    mset (adjust_heap cmp first hole len val) = mset (first[hole := val]) \<and>
    drop len (adjust_heap cmp first hole len val) = drop len first"
  by (rule adjust_heap_correct [OF assms])

theorem adjust_heap_invariant_witness:
  "heap_from (<) 0 5 (adjust_heap (<) [9, 7, 8, 3, 5 :: nat] 0 5 (4 :: nat))"
proof -
  have "heap_from (<) (0 + 1) 5 [9, 7, 8, 3, 5 :: nat]"
    unfolding heap_from_upt by code_simp
  then show ?thesis using adjust_heap_invariant [of "(<)" 0 5 "[9, 7, 8, 3, 5 :: nat]" 4] by (simp add: strict_weak_def)
qed

text \<open>\<open>pop_heap_ignore_top\<close> leaves a heap of all elements but the first, which was a greatest one, and
  \<open>adjust_heap_top\<close> makes a heap again after the first element was given a new value.\<close>

theorem heap_top_operations:
  assumes "strict_weak cmp" and "len \<le> length first" and "0 < len" and "heap_from cmp 0 len first"
  shows "(\<forall>x \<in> set (take len first). \<not> cmp (first ! 0) x) \<and>
    heap_from cmp 0 (len - 1) (pop_heap_ignore_top cmp first len) \<and>
    mset (take (len - 1) (pop_heap_ignore_top cmp first len)) = mset (take len first) - {#first ! 0#} \<and>
    heap_from cmp 0 len (adjust_heap_top cmp (first[0 := val]) len) \<and>
    mset (take len (adjust_heap_top cmp (first[0 := val]) len)) = mset (take len (first[0 := val]))"
proof -
  have f0: "first[0 := val] ! 0 = val" using assms(2,3) by (cases first) simp_all
  have hp: "heap_from cmp (0 + 1) n first" if "n \<le> len" for n
    using assms(4) that by (auto simp: heap_from_def)
  have hp': "heap_from cmp (0 + 1) len (first[0 := val])"
    using hp [OF order_refl] unfolding heap_from_def by (simp add: nth_list_update)
  have greatest: "\<forall>x \<in> set (take len first). \<not> cmp (first ! 0) x"
    using heap_top [OF assms(1,4)] by (auto simp: in_set_conv_nth)
  have top: "heap_from cmp 0 len (adjust_heap_top cmp (first[0 := val]) len) \<and>
    mset (take len (adjust_heap_top cmp (first[0 := val]) len)) = mset (take len (first[0 := val]))"
  proof (cases "1 < len")
    case True
    note c = adjust_heap_correct [OF assms(1) hp' assms(3), of val]
    have "mset (take len (adjust_heap cmp (first[0 := val]) 0 len val)) = mset (take len (first[0 := val]))"
      using c assms(2,3) by (intro mset_take_drop) simp_all
    then show ?thesis using c True assms(2) f0 by (simp add: adjust_heap_top_def)
  next
    case False
    then have "len = 1" using assms(3) by simp
    then show ?thesis by (simp add: adjust_heap_top_def heap_from_def)
  qed
  have "heap_from cmp 0 (len - 1) (pop_heap_ignore_top cmp first len) \<and>
    mset (take (len - 1) (pop_heap_ignore_top cmp first len)) = mset (take len first) - {#first ! 0#}"
  proof (cases "1 < len")
    case True
    define n where "n = len - 1"
    have n: "0 < n" "n \<le> len" "n \<le> length first" "n < length first" "len = Suc n" using True assms(2) by (auto simp: n_def)
    note c = adjust_heap_correct [OF assms(1) hp [OF n(2)] n(1) n(3), of "first ! n"]
    have "mset (take n (adjust_heap cmp first 0 n (first ! n))) = mset (take n (first[0 := first ! n]))"
      using c n(1) by (intro mset_take_drop) simp_all
    also have "\<dots> = mset (take len first) - {#first ! 0#}"
      using n by (cases first) (simp_all add: take_Suc_conv_app_nth take_Cons split: nat.split)
    finally show ?thesis using c True by (simp add: pop_heap_ignore_top_def n_def)
  next
    case False
    then have "len = 1" using assms(3) by simp
    then show ?thesis using assms(2) by (cases first) (simp_all add: pop_heap_ignore_top_def heap_from_def)
  qed
  then show ?thesis using greatest top by blast
qed

theorem heap_top_operations_witness:
  "mset (take 4 (pop_heap_ignore_top (<) [9, 7, 8, 3, 5 :: nat] 5)) = mset (take 5 [9, 7, 8, 3, 5]) - {#9#}"
proof -
  have "heap_from (<) 0 5 [9, 7, 8, 3, 5 :: nat]"
    unfolding heap_from_upt by code_simp
  then show ?thesis using heap_top_operations [of "(<)" 5 "[9, 7, 8, 3, 5 :: nat]"] by (simp add: strict_weak_def)
qed

end
