(* ===== verification/Replace_Select_Sort.thy ===== *)
theory Replace_Select_Sort
  imports Heap_Ext
begin

text \<open>
  Run generation by replacement selection, \<open>src/terark/replace_select_sort.hpp\<close>, on the heap of \<open>Heap_Ext\<close>.
  What the reader returns is the list of the input; a writer is the list of what is written to it, and the
  result is the list of the runs in the order their writers are created.  \<open>std::sort\<close> and \<open>std::make_heap\<close> are
  arguments, since the standard leaves the order of equivalent elements open; \<open>sort_contract\<close> and
  \<open>make_heap_contract\<close> state what it promises.  \<open>asserts\<close> says whether assertions are compiled in.
\<close>

section \<open>The code\<close>

fun rss_fill :: "nat \<Rightarrow> 'a list \<Rightarrow> 'a list \<Rightarrow> 'a list \<times> 'a list" where
  "rss_fill vsize beg [] = (beg, [])"
| "rss_fill vsize beg (x # input) =
     (if length beg < vsize then rss_fill vsize (beg @ [x]) input else (beg, x # input))"

text \<open>The last loop and the writes behind it: \<open>runs\<close> are the finished runs, \<open>run\<close> is the open one.\<close>

fun rss_loop ::
  "(('a \<Rightarrow> 'a \<Rightarrow> bool) \<Rightarrow> 'a list \<Rightarrow> 'a list) \<Rightarrow> (('a \<Rightarrow> 'a \<Rightarrow> bool) \<Rightarrow> 'a list \<Rightarrow> 'a list) \<Rightarrow>
   ('a \<Rightarrow> 'a \<Rightarrow> bool) \<Rightarrow> ('a \<Rightarrow> 'a \<Rightarrow> bool) \<Rightarrow> nat \<Rightarrow> 'a list list \<Rightarrow> 'a list \<Rightarrow> 'a list \<Rightarrow> nat \<Rightarrow> 'a list \<Rightarrow> 'a list list" where
  "rss_loop std_sort std_make_heap lt gt vsize runs run beg hlen [] =
     (let run = run @ std_sort lt (take hlen beg)
      in if hlen < vsize then runs @ [run, std_sort lt (drop hlen beg)] else runs @ [run])"
| "rss_loop std_sort std_make_heap lt gt vsize runs run beg hlen (cur # input) =
     (let run = run @ [beg ! 0] in
      if \<not> lt cur (beg ! 0)
      then rss_loop std_sort std_make_heap lt gt vsize runs run (adjust_heap gt beg 0 hlen cur) hlen input
      else let hlen = hlen - 1 in
        if hlen \<noteq> 0
        then let beg = adjust_heap gt beg 0 hlen (beg ! hlen)
             in rss_loop std_sort std_make_heap lt gt vsize runs run (beg[hlen := cur]) hlen input
        else let beg = std_make_heap gt (beg[0 := cur])
             in rss_loop std_sort std_make_heap lt gt vsize (runs @ [run]) [] beg vsize input)"

definition replace_select_sort ::
  "bool \<Rightarrow> (('a \<Rightarrow> 'a \<Rightarrow> bool) \<Rightarrow> 'a list \<Rightarrow> 'a list) \<Rightarrow> (('a \<Rightarrow> 'a \<Rightarrow> bool) \<Rightarrow> 'a list \<Rightarrow> 'a list) \<Rightarrow>
   nat \<Rightarrow> 'a list \<Rightarrow> ('a \<Rightarrow> 'a \<Rightarrow> bool) \<Rightarrow> ('a \<Rightarrow> 'a \<Rightarrow> bool) \<Rightarrow> 'a list list res" where
  "replace_select_sort asserts std_sort std_make_heap vsize input lt gt =
     (if asserts \<and> \<not> 0 < vsize then Inl Abort
      else if 0 = vsize then Inl Invalid_argument
      else let (beg, rest) = rss_fill vsize [] input; hlen = length beg
           in if hlen < vsize then Inr [std_sort lt beg]
              else Inr (rss_loop std_sort std_make_heap lt gt vsize [] [] (std_make_heap gt beg) hlen rest))"

definition replace_select_sort_less ::
  "bool \<Rightarrow> (('a \<Rightarrow> 'a \<Rightarrow> bool) \<Rightarrow> 'a list \<Rightarrow> 'a list) \<Rightarrow> (('a \<Rightarrow> 'a \<Rightarrow> bool) \<Rightarrow> 'a list \<Rightarrow> 'a list) \<Rightarrow>
   nat \<Rightarrow> 'a list \<Rightarrow> ('a \<Rightarrow> 'a \<Rightarrow> bool) \<Rightarrow> 'a list list res" where
  "replace_select_sort_less asserts std_sort std_make_heap vsize input lt =
     replace_select_sort asserts std_sort std_make_heap vsize input lt (\<lambda>x y. lt y x)"

section \<open>Runs\<close>

definition sorted_run :: "('a \<Rightarrow> 'a \<Rightarrow> bool) \<Rightarrow> 'a list \<Rightarrow> bool" where
  "sorted_run lt xs \<longleftrightarrow> sorted_wrt (\<lambda>x y. \<not> lt y x) xs"

definition sort_contract :: "(('a \<Rightarrow> 'a \<Rightarrow> bool) \<Rightarrow> 'a list \<Rightarrow> 'a list) \<Rightarrow> ('a \<Rightarrow> 'a \<Rightarrow> bool) \<Rightarrow> bool" where
  "sort_contract std_sort lt \<longleftrightarrow>
     (strict_weak lt \<longrightarrow> (\<forall>xs. mset (std_sort lt xs) = mset xs \<and> sorted_run lt (std_sort lt xs)))"

definition make_heap_contract :: "(('a \<Rightarrow> 'a \<Rightarrow> bool) \<Rightarrow> 'a list \<Rightarrow> 'a list) \<Rightarrow> ('a \<Rightarrow> 'a \<Rightarrow> bool) \<Rightarrow> bool" where
  "make_heap_contract std_make_heap cmp \<longleftrightarrow>
     (strict_weak cmp \<longrightarrow> (\<forall>xs. mset (std_make_heap cmp xs) = mset xs \<and> heap_from cmp 0 (length xs) (std_make_heap cmp xs)))"

lemma sorted_run_append:
  "sorted_run lt (xs @ ys) \<longleftrightarrow> sorted_run lt xs \<and> sorted_run lt ys \<and> (\<forall>x \<in> set xs. \<forall>y \<in> set ys. \<not> lt y x)"
  by (auto simp: sorted_run_def sorted_wrt_append)

lemma strict_weak_swap: "strict_weak lt \<Longrightarrow> strict_weak (\<lambda>x y. lt y x)"
  unfolding strict_weak_def by blast

lemma rss_fill_spec: "length beg \<le> vsize \<Longrightarrow> rss_fill vsize beg input = (beg @ take (vsize - length beg) input, drop (vsize - length beg) input)"
proof (induction vsize beg input rule: rss_fill.induct)
  case (2 vsize beg x input)
  show ?case
  proof (cases "length beg < vsize")
    case True
    then have "vsize - length beg = Suc (vsize - length (beg @ [x]))" by simp
    then show ?thesis using 2 True by simp
  qed (use 2 in simp)
qed simp

text \<open>
  What holds before each turn: the first \<open>hlen\<close> cells are a heap whose elements may all still be written to
  the open run, and the open run will have at least \<open>vsize\<close> elements.
\<close>

definition rss_inv :: "('a \<Rightarrow> 'a \<Rightarrow> bool) \<Rightarrow> nat \<Rightarrow> 'a list list \<Rightarrow> 'a list \<Rightarrow> 'a list \<Rightarrow> nat \<Rightarrow> bool" where
  "rss_inv lt vsize runs run beg hlen \<longleftrightarrow>
     length beg = vsize \<and> 0 < hlen \<and> hlen \<le> vsize \<and> heap_from (\<lambda>x y. lt y x) 0 hlen beg \<and>
     sorted_run lt run \<and> (\<forall>r \<in> set run. \<forall>x \<in> set (take hlen beg). \<not> lt x r) \<and>
     (\<forall>r \<in> set runs. sorted_run lt r \<and> vsize \<le> length r) \<and> vsize \<le> length run + hlen"

lemma rss_loop_correct:
  assumes sw: "strict_weak lt" and srt: "sort_contract std_sort lt" and mkh: "make_heap_contract std_make_heap (\<lambda>x y. lt y x)"
    and "rss_inv lt vsize runs run beg hlen"
  shows "(\<forall>r \<in> set (rss_loop std_sort std_make_heap lt (\<lambda>x y. lt y x) vsize runs run beg hlen input). sorted_run lt r) \<and>
    (\<forall>r \<in> set (butlast (rss_loop std_sort std_make_heap lt (\<lambda>x y. lt y x) vsize runs run beg hlen input)). vsize \<le> length r) \<and>
    mset (concat (rss_loop std_sort std_make_heap lt (\<lambda>x y. lt y x) vsize runs run beg hlen input)) =
      mset (concat runs) + mset run + mset beg + mset input"
  using assms(4)
proof (induction input arbitrary: runs run beg hlen)
  case Nil
  have s: "mset (std_sort lt xs) = mset xs" "sorted_run lt (std_sort lt xs)" "set (std_sort lt xs) = set xs"
    "length (std_sort lt xs) = length xs" for xs
    using srt sw mset_eq_setD mset_eq_length unfolding sort_contract_def by blast+
  have "mset (take hlen beg) + mset (drop hlen beg) = mset beg" by (metis append_take_drop_id mset_append)
  then show ?case
    using Nil s unfolding rss_inv_def by (auto simp: Let_def sorted_run_append butlast_append)
next
  case (Cons cur input)
  note sw' = strict_weak_swap [OF sw]
  note i = Cons.prems [unfolded rss_inv_def]
  note s = strict_weakD [OF sw]
  define x0 where "x0 = beg ! 0"
  have x0: "x0 \<in> set (take hlen beg)" using i by (cases beg; cases hlen) (auto simp: x0_def)
  have least: "\<not> lt x x0" if "x \<in> set (take hlen beg)" for x
    using heap_top [OF sw', of hlen beg] i that by (auto simp: in_set_conv_nth x0_def)
  have run: "sorted_run lt (run @ [x0])" using i x0 by (auto simp: sorted_run_def sorted_wrt_append)
  have above: "\<not> lt x r" if "r \<in> set (run @ [x0])" "x \<in> set (take hlen beg)" for r x
    using i that least by auto
  have len: "length beg = vsize" "0 < hlen" "hlen \<le> length beg" using i by simp_all
  have hp: "heap_from (\<lambda>x y. lt y x) (0 + 1) n beg" if "n \<le> hlen" for n
    using i that by (auto simp: heap_from_def)
  have runs: "\<forall>r \<in> set runs. sorted_run lt r \<and> vsize \<le> length r" using i by blast
  show ?case
  proof (cases "lt cur x0")
    case False
    define b where "b = adjust_heap (\<lambda>x y. lt y x) beg 0 hlen cur"
    note a = adjust_heap_correct [OF sw' hp [OF order_refl] len(2,3), of cur, folded b_def]
    have "mset (take hlen b) = mset (take hlen (beg[0 := cur]))" using a len(2) by (intro mset_take_drop) simp_all
    then have "set (take hlen b) \<subseteq> insert cur (set (take hlen beg))"
      by (metis set_mset_mset set_update_subset_insert take_update_swap)
    moreover have "\<not> lt cur r" if "r \<in> set (run @ [x0])" for r
      using s(2) [OF False above [OF that x0]] .
    ultimately have "rss_inv lt vsize runs (run @ [x0]) b hlen"
      using a i run above runs by (auto simp: rss_inv_def dest: mset_eq_length)
    note IH = Cons.IH [OF this]
    have "mset (concat runs) + mset (run @ [x0]) + mset b + mset input = mset (concat runs) + mset run + mset beg + mset (cur # input)"
      using a len by (simp add: mset_update x0_def)
    then show ?thesis using IH False by (simp add: x0_def b_def Let_def)
  next
    case True
    show ?thesis
    proof (cases "hlen = 1")
      case False
      define n where "n = hlen - 1"
      have n: "0 < n" "n \<le> hlen" "n < length beg" "n \<le> length beg" "n < hlen" using False len by (auto simp: n_def)
      define b where "b = adjust_heap (\<lambda>x y. lt y x) beg 0 n (beg ! n)"
      note a = adjust_heap_correct [OF sw' hp [OF n(2)] n(1,4), of "beg ! n", folded b_def]
      have "mset (take n b) = mset (take n (beg[0 := beg ! n]))" using a n(1) by (intro mset_take_drop) simp_all
      then have "set (take n b) \<subseteq> insert (beg ! n) (set (take n beg))"
        by (metis set_mset_mset set_update_subset_insert take_update_swap)
      also have "\<dots> \<subseteq> set (take hlen beg)"
        using n(3,5) set_take_subset_set_take [of n hlen beg] by (auto simp: in_set_conv_nth)
      finally have sub: "set (take n b) \<subseteq> set (take hlen beg)" .
      have lb: "length b = length beg" using a by (metis length_list_update mset_eq_length)
      have bn: "b ! n = beg ! n" using a n(3) lb by (metis hd_drop_conv_nth)
      have "heap_from (\<lambda>x y. lt y x) 0 n (b[n := cur])" using a by (auto simp: heap_from_def nth_list_update)
      then have "rss_inv lt vsize runs (run @ [x0]) (b[n := cur]) n"
        using i run above runs sub lb n by (auto simp: rss_inv_def n_def)
      note IH = Cons.IH [OF this]
      have "mset (concat runs) + mset (run @ [x0]) + mset (b[n := cur]) + mset input = mset (concat runs) + mset run + mset beg + mset (cur # input)"
        using a len n lb bn by (simp add: mset_update x0_def)
      then show ?thesis using IH True n by (simp add: x0_def b_def n_def Let_def)
    next
      case hlen: True
      define b where "b = std_make_heap (\<lambda>x y. lt y x) (beg[0 := cur])"
      have b: "mset b = mset (beg[0 := cur])" "heap_from (\<lambda>x y. lt y x) 0 (length beg) b"
        using mkh sw' unfolding make_heap_contract_def b_def by (metis, metis length_list_update)
      then have "rss_inv lt vsize (runs @ [run @ [x0]]) [] b vsize"
        using i run runs hlen by (auto simp: rss_inv_def sorted_run_def dest: mset_eq_length)
      note IH = Cons.IH [OF this]
      have "mset (concat (runs @ [run @ [x0]])) + mset [] + mset b + mset input = mset (concat runs) + mset run + mset beg + mset (cur # input)"
        using b(1) len by (simp add: mset_update x0_def)
      then show ?thesis using IH True hlen by (simp add: x0_def b_def Let_def)
    qed
  qed
qed

section \<open>Properties\<close>

text \<open>C25: Every run is sorted, the runs together have exactly the elements that were read, and every run but the last
  has at least as many elements as fit in memory.\<close>

theorem replace_select_sort_runs:
  assumes "strict_weak lt" and "sort_contract std_sort lt" and "make_heap_contract std_make_heap (\<lambda>x y. lt y x)"
    and "0 < vsize"
  shows "\<exists>runs. replace_select_sort_less asserts std_sort std_make_heap vsize input lt = Inr runs \<and>
    (\<forall>r \<in> set runs. sorted_run lt r) \<and> (\<forall>r \<in> set (butlast runs). vsize \<le> length r) \<and>
    mset (concat runs) = mset input"
proof (cases "length input < vsize")
  case True
  have "mset (std_sort lt input) = mset input \<and> sorted_run lt (std_sort lt input)"
    using assms(1,2) by (simp add: sort_contract_def)
  then show ?thesis using True assms(4)
    by (simp add: replace_select_sort_less_def replace_select_sort_def rss_fill_spec)
next
  case False
  define beg where "beg = take vsize input"
  define b where "b = std_make_heap (\<lambda>x y. lt y x) beg"
  have l: "length beg = vsize" using False by (simp add: beg_def)
  have b: "mset b = mset beg" "heap_from (\<lambda>x y. lt y x) 0 vsize b"
    using assms(3) strict_weak_swap [OF assms(1)] l unfolding make_heap_contract_def b_def by auto
  then have "rss_inv lt vsize [] [] b vsize"
    using assms(4) l by (auto simp: rss_inv_def sorted_run_def dest: mset_eq_length)
  note c = rss_loop_correct [OF assms(1-3) this, of "drop vsize input"]
  have "mset beg + mset (drop vsize input) = mset input" unfolding beg_def by (metis append_take_drop_id mset_append)
  moreover have "replace_select_sort_less asserts std_sort std_make_heap vsize input lt =
      Inr (rss_loop std_sort std_make_heap lt (\<lambda>x y. lt y x) vsize [] [] b vsize (drop vsize input))"
    using False assms(4) l
    by (simp add: replace_select_sort_less_def replace_select_sort_def rss_fill_spec beg_def [symmetric] b_def)
  ultimately show ?thesis using c b(1) by simp
qed

theorem replace_select_sort_runs_witness:
  "\<exists>runs. replace_select_sort_less True (\<lambda>_. sort) (\<lambda>_. sort) 2 [3, 1, 2, 5, 0 :: nat] (<) = Inr runs \<and>
    (\<forall>r \<in> set runs. sorted_run (<) r) \<and> (\<forall>r \<in> set (butlast runs). 2 \<le> length r) \<and>
    mset (concat runs) = mset [3, 1, 2, 5, 0]"
proof (rule replace_select_sort_runs)
  have "sort xs ! parent i \<le> sort xs ! i" if "i < length xs" for i and xs :: "nat list"
    by (rule sorted_nth_mono) (use that in auto)
  then show "make_heap_contract (\<lambda>_. sort) (\<lambda>x y :: nat. y < x)"
    by (auto simp: make_heap_contract_def heap_from_def not_less)
  show "sort_contract (\<lambda>_. sort) ((<) :: nat \<Rightarrow> nat \<Rightarrow> bool)"
    using sorted_sort by (auto simp: sort_contract_def sorted_run_def not_less)
qed (auto simp: strict_weak_def)

end
