(* ===== verification/Memcmp_Coding.thy ===== *)
theory Memcmp_Coding
  imports Var_Int
begin

text \<open>
  The codings of \<open>src/terark/util/memcmp_coding.hpp\<close> and \<open>memcmp_coding.cpp\<close>, whose bytes compare as the values
  do: strings with the byte zero escaped and a terminator, integers and reals in big endian order with
  the sign bit changed.  A buffer is the list of its bytes; an output pointer with its limit is the number
  of bytes of room.  Reals are their IEEE bit patterns.  The branches for big endian machines are left out.
\<close>

section \<open>Strings\<close>

fun encode_0_01_00 :: "u8 list \<Rightarrow> nat \<Rightarrow> u8 list res" where
  "encode_0_01_00 [] room = (if \<not> 1 < room then Inl Abort else Inr [0, 0])"
| "encode_0_01_00 (b # input) room =
     (if \<not> 0 < room then Inl Abort
      else if b \<noteq> 0 then bind_res (encode_0_01_00 input (room - 1)) (\<lambda>out. Inr (b # out))
      else if \<not> 1 < room then Inl Abort
      else bind_res (encode_0_01_00 input (room - 2)) (\<lambda>out. Inr (0 # 1 # out)))"

definition encode_0_01_00_append :: "u8 list \<Rightarrow> u8 list \<Rightarrow> u8 list res" where
  "encode_0_01_00_append input output =
     (let max_encoded_size = length input * 2 + 2
      in bind_res (encode_0_01_00 input max_encoded_size) (\<lambda>out. Inr (output @ out)))"

text \<open>The version on pointers: what is written, and the distance to \<open>*ires\<close>; the caller looks at the byte before.\<close>

fun decode_01_00_ptr :: "u8 list \<Rightarrow> nat \<Rightarrow> (u8 list \<times> nat) res" where
  "decode_01_00_ptr icur room =
     (if \<not> 0 < room then Inl Abort
      else case icur of
             [] \<Rightarrow> Inl Out_of_range
           | b # rest \<Rightarrow>
             if b \<noteq> 0 then bind_res (decode_01_00_ptr rest (room - 1)) (\<lambda>(out, n). Inr (b # out, n + 1))
             else case rest of
                    [] \<Rightarrow> Inl Out_of_range
                  | b # rest \<Rightarrow>
                    if b = 1 then bind_res (decode_01_00_ptr rest (room - 1)) (\<lambda>(out, n). Inr (0 # out, n + 2))
                    else Inr ([], 2))"

declare decode_01_00_ptr.simps [simp del]

text \<open>The version on strings: the number of bytes consumed and the result; the loop has the rest of the input.\<close>

fun decode_01_00_loop :: "nat \<Rightarrow> u8 list \<Rightarrow> u8 list \<Rightarrow> (nat \<times> u8 list) res" where
  "decode_01_00_loop consumed output [] = Inl Data_format"
| "decode_01_00_loop consumed output (ch # current) =
     (if ch \<noteq> 0 then decode_01_00_loop (consumed + 1) (output @ [ch]) current
      else case current of
             [] \<Rightarrow> Inl Data_format
           | escape # current \<Rightarrow>
             if escape = 1 then decode_01_00_loop (consumed + 2) (output @ [0]) current
             else if escape \<noteq> 0 then Inl Data_format
             else Inr (consumed + 2, output))"

definition decode_01_00 :: "u8 list \<Rightarrow> (nat \<times> u8 list) res" where
  "decode_01_00 encoded = (if encoded = [] then Inl Data_format else decode_01_00_loop 0 [] encoded)"

text \<open>The end of an encoded string: an offset from the start.\<close>

fun end_of_01_00_ptr :: "u8 list \<Rightarrow> nat res" where
  "end_of_01_00_ptr [] = Inl Out_of_range"
| "end_of_01_00_ptr (e # rest) =
     (if e \<noteq> 0
      then case rest of
             _ # e1 # rest \<Rightarrow> if 1 = e1 then bind_res (end_of_01_00_ptr rest) (\<lambda>n. Inr (n + 3)) else Inr 3
           | _ \<Rightarrow> Inl Out_of_range
      else case rest of
             e1 # rest \<Rightarrow> if 1 = e1 then bind_res (end_of_01_00_ptr rest) (\<lambda>n. Inr (n + 2)) else Inr 2
           | _ \<Rightarrow> Inl Out_of_range)"

fun end_of_01_00 :: "u8 list \<Rightarrow> nat" where
  "end_of_01_00 [] = 0"
| "end_of_01_00 (e # encoded) =
     (if e \<noteq> 0 then end_of_01_00 encoded + 1
      else case encoded of
             [] \<Rightarrow> 2
           | e1 # encoded \<Rightarrow> if 1 = e1 then end_of_01_00 encoded + 2 else 2)"

text \<open>The adapters for streams.  Saving writes the pieces between the zeros.\<close>

function save_memcmp_string :: "u8 list \<Rightarrow> u8 list" where
  "save_memcmp_string current =
     (if current = [] then [0, 0]
      else let piece = takeWhile (\<lambda>b. b \<noteq> 0) current; zero = dropWhile (\<lambda>b. b \<noteq> 0) current
           in if zero = [] then current @ [0, 0]
              else piece @ [0, 1] @ save_memcmp_string (tl zero))"
  by pat_completeness auto
termination
proof (relation "measure length")
  fix current piece zero :: "u8 list"
  assume "current \<noteq> []" "zero = dropWhile (\<lambda>b. b \<noteq> 0) current" "zero \<noteq> []"
  then have "length zero \<le> length current" "0 < length zero" by (simp_all add: length_dropWhile_le)
  then show "(tl zero, current) \<in> measure length" by (cases zero) auto
qed simp

declare save_memcmp_string.simps [simp del]

text \<open>
  Loading reads byte by byte into a string whose size grows; the value of the string when an exception
  leaves the function is the first component.
\<close>

definition load_memcmp_grow :: "nat \<Rightarrow> nat \<Rightarrow> nat" where
  "load_memcmp_grow used sz = (if used = sz then sz * 103 div 64 else sz)"

fun load_memcmp_string_loop :: "nat \<Rightarrow> u8 list \<Rightarrow> u8 list \<Rightarrow> u8 list \<times> u8 list res" where
  "load_memcmp_string_loop sz used [] = (used, Inl Out_of_range)"
| "load_memcmp_string_loop sz used (ch # input) =
     (let sz' = load_memcmp_grow (length used) sz in
      if ch = 0
      then case input of
             [] \<Rightarrow> (used, Inl Out_of_range)
           | escape # input \<Rightarrow>
             if escape = 0 then (used, Inr input)
             else if escape \<noteq> 1 then (used, Inl Data_format)
             else if \<not> length used < sz' then (used, Inl Abort)
             else load_memcmp_string_loop sz' (used @ [ch]) input
      else if \<not> length used < sz' then (used, Inl Abort)
      else load_memcmp_string_loop sz' (used @ [ch]) input)"

definition load_memcmp_string :: "u8 list \<Rightarrow> u8 list \<times> u8 list res" where
  "load_memcmp_string input = load_memcmp_string_loop 15 [] input"

section \<open>Numbers\<close>

definition le_bytes :: "'a::len word \<Rightarrow> u8 list" where
  "le_bytes x = map (\<lambda>k. ucast (drop_bit (8 * k) x)) [0..<LENGTH('a) div 8]"

definition byte_swap :: "'a::len word \<Rightarrow> 'a word" where
  "byte_swap x = le_word (rev (le_bytes x))"

definition sign_bit :: "'a::len word" where
  "sign_bit = push_bit (LENGTH('a) - 1) 1"

definition encode_memcmp_real :: "'a::len word \<Rightarrow> u8 list" where
  "encode_memcmp_real nr =
     (let ui = (if nr AND sign_bit \<noteq> 0 then NOT nr else nr XOR sign_bit)
      in le_bytes (byte_swap ui))"

definition decode_memcmp_real :: "u8 list \<Rightarrow> ('a::len word \<times> u8 list) res" where
  "decode_memcmp_real src =
     (let n = LENGTH('a) div 8 in
      if length src < n then Inl Out_of_range
      else let ui = byte_swap (le_word (take n src))
           in Inr (if ui AND sign_bit \<noteq> 0 then ui XOR sign_bit else NOT ui, drop n src))"

definition save_big_endian :: "'a::len word \<Rightarrow> u8 list" where
  "save_big_endian x = le_bytes (byte_swap x)"

definition load_big_endian :: "u8 list \<Rightarrow> ('a::len word \<times> u8 list) res" where
  "load_big_endian input =
     (let n = LENGTH('a) div 8 in
      if length input < n then Inl Out_of_range else Inr (byte_swap (le_word (take n input)), drop n input))"

definition save_memcmp_signed :: "'a::len word \<Rightarrow> u8 list" where
  "save_memcmp_signed x = le_bytes (byte_swap (x XOR sign_bit))"

definition load_memcmp_signed :: "u8 list \<Rightarrow> ('a::len word \<times> u8 list) res" where
  "load_memcmp_signed input =
     (let n = LENGTH('a) div 8 in
      if length input < n then Inl Out_of_range
      else Inr (byte_swap (le_word (take n input)) XOR sign_bit, drop n input))"

definition save_memcmp_bool :: "bool \<Rightarrow> u8 list" where
  "save_memcmp_bool x = [if x then 1 else 0]"

definition load_memcmp_bool :: "u8 list \<Rightarrow> (bool \<times> u8 list) res" where
  "load_memcmp_bool input =
     (case input of [] \<Rightarrow> Inl Out_of_range
      | encoded # input \<Rightarrow> if 1 < encoded then Inl Data_format else Inr (encoded \<noteq> 0, input))"

section \<open>The order of bytes\<close>

text \<open>\<open>memcmp\<close>, and the shorter string first when one is a prefix of the other.\<close>

fun bytes_less :: "u8 list \<Rightarrow> u8 list \<Rightarrow> bool" where
  "bytes_less xs [] = False"
| "bytes_less [] (y # ys) = True"
| "bytes_less (x # xs) (y # ys) = (x < y \<or> x = y \<and> bytes_less xs ys)"

text \<open>What an encoded string is.\<close>

fun escaped :: "u8 list \<Rightarrow> u8 list" where
  "escaped [] = [0, 0]"
| "escaped (b # bs) = (if b = 0 then 0 # 1 # escaped bs else b # escaped bs)"

lemma encode_spec: "encode_0_01_00 input room = (if length (escaped input) \<le> room then Inr (escaped input) else Inl Abort)"
  by (induction input room rule: encode_0_01_00.induct) auto

lemma length_escaped: "length (escaped bs) \<le> 2 * length bs + 2" "2 \<le> length (escaped bs)"
  by (induction bs) auto

lemma escaped_piece: "\<forall>b \<in> set piece. b \<noteq> 0 \<Longrightarrow> escaped (piece @ bs) = piece @ escaped bs"
  by (induction piece) auto

lemma save_spec: "save_memcmp_string bs = escaped bs"
proof (induction bs rule: save_memcmp_string.induct)
  case (1 bs)
  define piece zero where "piece = takeWhile (\<lambda>b. b \<noteq> 0) bs" and "zero = dropWhile (\<lambda>b. b \<noteq> 0) bs"
  have pz: "bs = piece @ zero" "\<forall>b \<in> set piece. b \<noteq> 0" by (auto simp: piece_def zero_def dest: set_takeWhileD)
  show ?case
  proof (cases "zero = []")
    case True
    then have "escaped bs = bs @ [0, 0]" using escaped_piece [OF pz(2), of "[]"] pz(1) by simp
    then show ?thesis using True by (subst save_memcmp_string.simps) (auto simp: Let_def zero_def [symmetric])
  next
    case False
    then obtain rest where z: "zero = 0 # rest" using hd_dropWhile [of "\<lambda>b. b \<noteq> 0" bs] by (cases zero) (auto simp: zero_def)
    then have "bs \<noteq> []" using pz(1) by auto
    moreover have "save_memcmp_string rest = escaped rest" using 1 [OF \<open>bs \<noteq> []\<close> piece_def zero_def False] z by simp
    moreover have "escaped bs = piece @ 0 # 1 # escaped rest" using escaped_piece [OF pz(2), of zero] pz(1) z by simp
    ultimately show ?thesis using z by (subst save_memcmp_string.simps) (simp add: Let_def piece_def [symmetric] zero_def [symmetric])
  qed
qed

text \<open>
  The end of an encoded string in any input: \<open>scan_01_00\<close> gives the decoded bytes and what is wrong, or the
  number of bytes that were used.
\<close>

fun scan_01_00 :: "u8 list \<Rightarrow> u8 list \<times> nat res" where
  "scan_01_00 [] = ([], Inl Out_of_range)"
| "scan_01_00 (b # bs) =
     (if b \<noteq> 0 then (case scan_01_00 bs of (out, r) \<Rightarrow> (b # out, bind_res r (\<lambda>n. Inr (n + 1))))
      else case bs of
             [] \<Rightarrow> ([], Inl Out_of_range)
           | e # bs \<Rightarrow>
             if e = 1 then (case scan_01_00 bs of (out, r) \<Rightarrow> (0 # out, bind_res r (\<lambda>n. Inr (n + 2))))
             else if e = 0 then ([], Inr 2) else ([], Inl Data_format))"

lemma scan_escaped: "scan_01_00 (escaped bs @ rest) = (bs, Inr (length (escaped bs)))"
  by (induction bs) auto

lemma scan_bound: "scan_01_00 bs = (out, Inr n) \<Longrightarrow> n \<le> length bs"
  by (induction bs arbitrary: out n rule: scan_01_00.induct) (auto simp: bind_res_Inr split: if_splits list.splits prod.splits)

lemma decode_scan:
  "decode_01_00_loop k acc bs =
    (case scan_01_00 bs of (out, Inr n) \<Rightarrow> Inr (k + n, acc @ out) | (out, Inl e) \<Rightarrow> Inl Data_format)"
  by (induction k acc bs rule: decode_01_00_loop.induct) (auto split: list.splits sum.splits prod.splits)

lemma decode_ptr_scan:
  "scan_01_00 bs = (out, Inr n) \<Longrightarrow> decode_01_00_ptr bs room = (if length out < room then Inr (out, n) else Inl Abort)"
proof (induction bs arbitrary: out n room rule: scan_01_00.induct)
  case (2 b bs)
  show ?case
  proof (cases "b = 0")
    case False
    then obtain out' n' where "scan_01_00 bs = (out', Inr n')" "out = b # out'" "n = n' + 1"
      using "2.prems" by (auto simp: bind_res_Inr split: prod.splits)
    then show ?thesis using "2.IH"(1) [of out' n' "room - 1"] False by (subst decode_01_00_ptr.simps) auto
  next
    case True
    then obtain e bs' where bs: "bs = e # bs'" using "2.prems" by (cases bs) auto
    show ?thesis
    proof (cases "e = 1")
      case e: True
      then obtain out' n' where "scan_01_00 bs' = (out', Inr n')" "out = 0 # out'" "n = n' + 2"
        using "2.prems" True bs by (auto simp: bind_res_Inr split: prod.splits)
      then show ?thesis using "2.IH"(2) [of e bs' out' n' "room - 1"] True bs e by (subst decode_01_00_ptr.simps) auto
    next
      case False
      then have "out = []" "n = 2" "e = 0" using "2.prems" True bs by (auto split: if_splits)
      then show ?thesis using True bs by (subst decode_01_00_ptr.simps) simp
    qed
  qed
qed simp

lemma end_scan: "scan_01_00 bs = (out, Inr n) \<Longrightarrow> end_of_01_00 bs = n"
  by (induction bs arbitrary: out n rule: scan_01_00.induct) (auto simp: bind_res_Inr split: if_splits list.splits prod.splits)

text \<open>The string grows before it overflows, so the write is inside.\<close>

lemma load_grow: "2 \<le> sz \<Longrightarrow> used \<le> sz \<Longrightarrow> used < load_memcmp_grow used sz \<and> 2 \<le> load_memcmp_grow used sz"
  by (auto simp: load_memcmp_grow_def)

lemma load_scan:
  "2 \<le> sz \<Longrightarrow> length used \<le> sz \<Longrightarrow> load_memcmp_string_loop sz used bs =
    (case scan_01_00 bs of (out, r) \<Rightarrow> (used @ out, bind_res r (\<lambda>n. Inr (drop n bs))))"
proof (induction sz used bs rule: load_memcmp_string_loop.induct)
  case (2 sz used ch input)
  have g: "length used < load_memcmp_grow (length used) sz" "2 \<le> load_memcmp_grow (length used) sz"
    "length (used @ [ch]) \<le> load_memcmp_grow (length used) sz"
    using load_grow [OF "2.prems"] by auto
  have ng: "\<not> \<not> length used < load_memcmp_grow (length used) sz" using g(1) by simp
  show ?case
  proof (cases "ch = 0")
    case False
    show ?thesis
      using "2.IH"(2) [OF refl False ng g(2,3)] False g(1) by (auto simp: Let_def bind_res_assoc split: prod.splits)
  next
    case True
    show ?thesis
    proof (cases input)
      case Nil
      then show ?thesis using True by simp
    next
      case (Cons e bs)
      show ?thesis
      proof (cases "e = 1")
        case e: True
        have "e \<noteq> 0" "\<not> e \<noteq> 1" using e by simp_all
        from "2.IH"(1) [OF refl True Cons this ng g(2,3)] show ?thesis
          using True Cons e g(1) by (auto simp: Let_def bind_res_assoc split: prod.splits)
      qed (use True Cons in auto)
    qed
  qed
qed simp

lemma bytes_less_escaped: "bytes_less (escaped x @ p) (escaped y @ q) \<longleftrightarrow> bytes_less x y \<or> x = y \<and> bytes_less p q"
proof (induction x arbitrary: y)
  case Nil
  show ?case by (cases y) (auto simp: word_neq_0_conv)
next
  case (Cons a x)
  then show ?case by (cases y) (auto simp: word_neq_0_conv)
qed

section \<open>The order of numbers\<close>

fun be_nat :: "u8 list \<Rightarrow> nat" where
  "be_nat [] = 0"
| "be_nat (b # bs) = unat b * 256 ^ length bs + be_nat bs"

lemma be_nat_less: "be_nat bs < 256 ^ length bs"
proof (induction bs)
  case (Cons b bs)
  have "unat b < 2 ^ LENGTH(8)" by (rule unsigned_less)
  then have "unat b + 1 \<le> 256" by simp
  then have "(unat b + 1) * 256 ^ length bs \<le> 256 * 256 ^ length bs" by (rule mult_le_mono1)
  then show ?case using Cons unfolding be_nat.simps length_Cons power_Suc add_mult_distrib mult_1 by linarith
qed simp

lemma be_nat_inj: "length xs = length ys \<Longrightarrow> be_nat xs = be_nat ys \<longleftrightarrow> xs = ys"
proof (induction xs ys rule: list_induct2)
  case (Cons x xs y ys)
  show ?case
  proof
    assume e: "be_nat (x # xs) = be_nat (y # ys)"
    have "unat x = be_nat (x # xs) div 256 ^ length xs" using be_nat_less [of xs] by simp
    also have "\<dots> = unat y" unfolding e using be_nat_less [of ys] Cons.hyps by simp
    finally have "x = y" by (simp add: word_unat_eq_iff)
    then show "x # xs = y # ys" using e Cons by simp
  qed (use Cons in simp)
qed simp

lemma bytes_less_be:
  "length xs = length ys \<Longrightarrow>
    bytes_less (xs @ p) (ys @ q) \<longleftrightarrow> be_nat xs < be_nat ys \<or> xs = ys \<and> bytes_less p q"
proof (induction xs ys rule: list_induct2)
  case (Cons x xs y ys)
  have bx: "be_nat xs < 256 ^ length ys" and b: "be_nat ys < 256 ^ length ys"
    using be_nat_less [of xs] be_nat_less [of ys] Cons.hyps by simp_all
  have step: "be_nat (u # us) < be_nat (v # vs)" if "u < v" "length us = length vs" for u v :: u8 and us vs
  proof -
    have "unat u + 1 \<le> unat v" using that(1) by (simp add: word_less_nat_alt)
    then have "(unat u + 1) * 256 ^ length us \<le> unat v * 256 ^ length us" by (rule mult_le_mono1)
    then show ?thesis using be_nat_less [of us] that(2) by simp
  qed
  consider "x < y" | "x = y" | "y < x" by (rule linorder_cases)
  then show ?case
  proof cases
    case 1
    then show ?thesis using step [OF 1 Cons.hyps] by simp
  next
    case 3
    then have "\<not> x < y" "x \<noteq> y" by auto
    then show ?thesis using step [OF 3 Cons.hyps [symmetric]] by simp
  qed (use Cons in simp)
qed simp

lemma be_nat_snoc: "be_nat (bs @ [b]) = be_nat bs * 256 + unat b"
  by (induction bs) (simp_all add: algebra_simps)

lemma length_le_bytes [simp]: "length (le_bytes (x :: 'a::len word)) = LENGTH('a) div 8"
  by (simp add: le_bytes_def)

lemma be_nat_le_prefix:
  "be_nat (rev (map (\<lambda>k. ucast (drop_bit (8 * k) x) :: u8) [0..<n])) = unat x mod 256 ^ n" for x :: "'a::len word"
proof (induction n)
  case (Suc n)
  have "unat (ucast (drop_bit (8 * n) x) :: u8) = unat x div 256 ^ n mod 256"
    by (simp add: unsigned_ucast_eq take_bit_eq_mod unat_drop_div power_mult)
  moreover have "unat x mod 256 ^ Suc n = 256 ^ n * (unat x div 256 ^ n mod 256) + unat x mod 256 ^ n"
    unfolding power_Suc2 by (rule mod_mult2_eq)
  ultimately show ?case using Suc by simp
qed simp

lemma be_nat_le_bytes:
  fixes x :: "'a::len word"
  assumes "8 dvd LENGTH('a)"
  shows "be_nat (rev (le_bytes x)) = unat x"
proof -
  have "(256 :: nat) ^ (LENGTH('a) div 8) = 2 ^ LENGTH('a)"
    using assms power_mult [of "2 :: nat" 8 "LENGTH('a) div 8"] by simp
  moreover have "unat x < 2 ^ LENGTH('a)" by (rule unsigned_less)
  ultimately show ?thesis unfolding le_bytes_def be_nat_le_prefix by simp
qed

lemma le_bytes_le_word:
  assumes "8 dvd LENGTH('a)" and "length bs = LENGTH('a) div 8"
  shows "le_bytes (le_word bs :: 'a::len word) = bs"
proof (rule nth_equalityI)
  fix k assume "k < length (le_bytes (le_word bs :: 'a word))"
  then have k: "k < LENGTH('a) div 8" by simp
  have "le_bytes (le_word bs :: 'a word) ! k = ucast (drop_bit (8 * k) (le_word bs :: 'a word))" using k by (simp add: le_bytes_def)
  also have "\<dots> = bs ! k"
  proof (rule bit_word_eqI)
    fix j assume "j < LENGTH(8)"
    then have "(8 * k + j) div 8 = k" "(8 * k + j) mod 8 = j" "8 * k + j < LENGTH('a)" using k by auto
    then show "bit (ucast (drop_bit (8 * k) (le_word bs :: 'a word)) :: u8) j = bit (bs ! k) j"
      using \<open>j < LENGTH(8)\<close> k assms(2) by (simp add: bit_ucast_iff bit_drop_bit_eq bit_le_word)
  qed
  finally show "le_bytes (le_word bs :: 'a word) ! k = bs ! k" .
qed (use assms(2) in simp)

lemma le_word_le_bytes:
  fixes x :: "'a::len word"
  assumes "8 dvd LENGTH('a)"
  shows "le_word (le_bytes x) = x"
proof -
  have "le_bytes (le_word (le_bytes x) :: 'a word) = le_bytes x" by (rule le_bytes_le_word [OF assms]) simp
  then have "be_nat (rev (le_bytes (le_word (le_bytes x) :: 'a word))) = be_nat (rev (le_bytes x))" by simp
  then show ?thesis unfolding be_nat_le_bytes [OF assms] by (simp add: word_unat_eq_iff)
qed

lemma le_bytes_swap: "8 dvd LENGTH('a) \<Longrightarrow> le_bytes (byte_swap x) = rev (le_bytes x)" for x :: "'a::len word"
  unfolding byte_swap_def by (rule le_bytes_le_word) simp_all

lemma byte_swap_swap: "8 dvd LENGTH('a) \<Longrightarrow> byte_swap (byte_swap x) = x" for x :: "'a::len word"
  unfolding byte_swap_def [of "byte_swap x"] by (simp add: le_bytes_swap le_word_le_bytes)

lemma big_endian_less:
  fixes x y :: "'a::len word"
  assumes "8 dvd LENGTH('a)"
  shows "bytes_less (le_bytes (byte_swap x) @ p) (le_bytes (byte_swap y) @ q) \<longleftrightarrow> x < y \<or> x = y \<and> bytes_less p q"
proof -
  have "rev (le_bytes x) = rev (le_bytes y) \<longleftrightarrow> x = y" using le_word_le_bytes [OF assms] by (metis rev_rev_ident)
  then show ?thesis
    unfolding le_bytes_swap [OF assms] by (subst bytes_less_be) (simp_all add: be_nat_le_bytes [OF assms] word_less_nat_alt)
qed

lemma big_endian_load:
  fixes x :: "'a::len word"
  assumes "8 dvd LENGTH('a)"
  shows "byte_swap (le_word (take (LENGTH('a) div 8) (le_bytes (byte_swap x) @ rest))) = x"
    and "drop (LENGTH('a) div 8) (le_bytes (byte_swap x) @ rest) = rest"
    and "\<not> length (le_bytes (byte_swap x) @ rest) < LENGTH('a) div 8"
  using assms by (simp_all add: le_word_le_bytes byte_swap_swap)

text \<open>The sign bit splits the values in halves.\<close>

lemma bit_sign: "bit (sign_bit :: 'a::len word) n \<longleftrightarrow> n = LENGTH('a) - 1"
  unfolding sign_bit_def by (auto simp: bit_push_bit_iff possible_bit_word simp del: push_bit_of_1)

lemma and_sign: "x AND sign_bit \<noteq> 0 \<longleftrightarrow> bit x (LENGTH('a) - 1)" for x :: "'a::len word"
proof -
  have "x AND sign_bit = (if bit x (LENGTH('a) - 1) then sign_bit else 0)"
    by (rule bit_word_eqI) (auto simp: bit_and_iff bit_sign)
  moreover have "sign_bit \<noteq> (0 :: 'a word)" using bit_sign [where 'a = 'a, of "LENGTH('a) - 1"] by auto
  ultimately show ?thesis by simp
qed

lemma unat_halves:
  fixes x :: "'a::len word"
  defines "H \<equiv> (2 :: nat) ^ (LENGTH('a) - 1)"
  shows "unat x = unat (take_bit (LENGTH('a) - 1) x) + (if bit x (LENGTH('a) - 1) then H else 0)"
    and "unat (take_bit (LENGTH('a) - 1) x) < H" and "2 ^ LENGTH('a) = 2 * H"
proof -
  have u: "unat (take_bit (LENGTH('a) - 1) x) = unat x mod H" unfolding H_def unsigned_take_bit_eq by (rule take_bit_eq_mod)
  show two: "2 ^ LENGTH('a) = 2 * H" unfolding H_def by (metis One_nat_def Suc_pred len_gt_0 power_Suc)
  have "unat x < 2 ^ LENGTH('a)" by (rule unsigned_less)
  then have q: "unat x div H < 2" unfolding two by (simp add: div_less_iff_less_mult H_def)
  have "bit x (LENGTH('a) - 1) \<longleftrightarrow> odd (unat x div H)"
    unfolding H_def by (simp only: bit_iff_odd [of "unat x", symmetric] bit_unsigned_iff) simp
  then have "unat x div H = (if bit x (LENGTH('a) - 1) then 1 else 0)" using q by (cases "unat x div H") auto
  then show "unat x = unat (take_bit (LENGTH('a) - 1) x) + (if bit x (LENGTH('a) - 1) then H else 0)"
    unfolding u using mod_div_mult_eq [of "unat x" H] by (cases "bit x (LENGTH('a) - 1)") simp_all
  show "unat (take_bit (LENGTH('a) - 1) x) < H" unfolding u by (simp add: H_def)
qed

lemma unat_flip:
  fixes x :: "'a::len word"
  shows "unat (x XOR sign_bit) = unat (take_bit (LENGTH('a) - 1) x) + (if bit x (LENGTH('a) - 1) then 0 else 2 ^ (LENGTH('a) - 1))"
proof -
  have "take_bit (LENGTH('a) - 1) (x XOR sign_bit) = take_bit (LENGTH('a) - 1) x"
    by (rule bit_word_eqI) (auto simp: bit_take_bit_iff bit_xor_iff bit_sign)
  moreover have "bit (x XOR sign_bit) (LENGTH('a) - 1) \<longleftrightarrow> \<not> bit x (LENGTH('a) - 1)"
    by (simp add: bit_xor_iff bit_sign)
  ultimately show ?thesis using unat_halves(1) [of "x XOR sign_bit"] by simp
qed

lemma halves_less:
  "a < H \<Longrightarrow> b < H \<Longrightarrow> int a - (if p then int H else 0) < int b - (if q then int H else 0) \<longleftrightarrow>
    a + (if p then 0 else H) < b + (if q then 0 else H)"
  by auto

lemma signed_less_halves:
  fixes x y :: "'a::len word"
  shows "x <s y \<longleftrightarrow> unat (x XOR sign_bit) < unat (y XOR sign_bit)"
proof -
  have s: "sint w = int (unat w) - (if bit w (LENGTH('a) - 1) then 2 ^ LENGTH('a) else 0)" for w :: "'a word"
  proof -
    have "Suc (LENGTH('a) - Suc 0) = LENGTH('a)" by simp
    then have "sint w = take_bit LENGTH('a) (uint w) - 2 ^ LENGTH('a) * of_bool (bit (uint w) (LENGTH('a) - Suc 0))"
      unfolding sint_uint signed_take_bit_eq_take_bit_minus by simp
    moreover have "take_bit LENGTH('a) (uint w) = uint w" by (rule take_bit_int_eq_self) simp_all
    ultimately show ?thesis by (simp add: bit_uint_iff)
  qed
  have t: "sint w = int (unat (take_bit (LENGTH('a) - 1) w)) - (if bit w (LENGTH('a) - 1) then int (2 ^ (LENGTH('a) - 1)) else 0)"
    for w :: "'a word"
  proof -
    have "int (unat w) = int (unat (take_bit (LENGTH('a) - 1) w)) + (if bit w (LENGTH('a) - 1) then int (2 ^ (LENGTH('a) - 1)) else 0)"
      by (subst unat_halves(1) [of w]) (cases "bit w (LENGTH('a) - 1)"; simp only: of_nat_add of_nat_0 if_True if_False)
    moreover have "(2 :: int) ^ LENGTH('a) = 2 * int (2 ^ (LENGTH('a) - 1))"
      using arg_cong [OF unat_halves(3) [where 'a = 'a], of int] by simp
    ultimately show ?thesis unfolding s
      by (cases "bit w (LENGTH('a) - 1)"; simp only: if_True if_False; linarith)
  qed
  show ?thesis
    unfolding word_sless_alt t unat_flip by (rule halves_less) (rule unat_halves(2))+
qed

text \<open>IEEE total order on bit patterns: by sign, then by magnitude, reversed for negative numbers.\<close>

definition total_less :: "'a::len word \<Rightarrow> 'a word \<Rightarrow> bool" where
  "total_less x y \<longleftrightarrow>
     (if bit x (LENGTH('a) - 1) then (if bit y (LENGTH('a) - 1) then y < x else True)
      else \<not> bit y (LENGTH('a) - 1) \<and> x < y)"

definition real_key :: "'a::len word \<Rightarrow> 'a word" where
  "real_key nr = (if nr AND sign_bit \<noteq> 0 then NOT nr else nr XOR sign_bit)"

lemma unat_real_key:
  fixes x :: "'a::len word"
  shows "unat (real_key x) = (if bit x (LENGTH('a) - 1) then 2 ^ LENGTH('a) - 1 - unat x else unat x + 2 ^ (LENGTH('a) - 1))"
proof (cases "bit x (LENGTH('a) - 1)")
  case True
  have "unat (NOT x) = 2 ^ LENGTH('a) - 1 - unat x"
  proof -
    have "uint (NOT x) = take_bit LENGTH('a) (NOT (uint x))" by (rule unsigned_not_eq)
    also have "\<dots> = 2 ^ LENGTH('a) - 1 - uint x"
      by (simp add: take_bit_not_eq_mask_diff mask_eq_exp_minus_1 take_bit_int_eq_self)
    finally have "int (unat x + unat (NOT x)) = int (2 ^ LENGTH('a) - 1)" by (simp add: of_nat_diff)
    then have "unat x + unat (NOT x) = 2 ^ LENGTH('a) - 1" by (simp only: of_nat_eq_iff)
    then show ?thesis by simp
  qed
  then show ?thesis using True by (simp add: real_key_def and_sign)
next
  case False
  then show ?thesis using unat_flip [of x] unat_halves(1) [of x] by (simp add: real_key_def and_sign)
qed

lemma halves_total_less:
  fixes a b H X Y :: nat
  assumes "a < H" and "b < H" and "X = a + (if p then H else 0)" and "Y = b + (if q then H else 0)"
  shows "(if p then 2 * H - 1 - X else X + H) < (if q then 2 * H - 1 - Y else Y + H) \<longleftrightarrow>
    (if p then (if q then Y < X else True) else \<not> q \<and> X < Y)"
  using assms by auto

lemma real_key_less: "real_key x < real_key y \<longleftrightarrow> total_less x y" for x y :: "'a::len word"
  unfolding word_less_nat_alt total_less_def unat_real_key unat_halves(3) [where 'a = 'a]
  by (rule halves_total_less [OF unat_halves(2) [of x] unat_halves(2) [of y] unat_halves(1) [of x] unat_halves(1) [of y]])

lemma real_key_back:
  "(if real_key x AND sign_bit \<noteq> 0 then real_key x XOR sign_bit else NOT (real_key x)) = x" for x :: "'a::len word"
proof (rule bit_word_eqI)
  fix n assume "n < LENGTH('a)"
  then show "bit (if real_key x AND sign_bit \<noteq> 0 then real_key x XOR sign_bit else NOT (real_key x)) n = bit x n"
    unfolding and_sign by (auto simp: real_key_def and_sign bit_xor_iff bit_not_iff bit_sign)
qed

lemma real_key_inj: "real_key x = real_key y \<longleftrightarrow> x = y" for x y :: "'a::len word"
  using real_key_back [of x] real_key_back [of y] by metis

section \<open>Properties\<close>

text \<open>C14: Encoded strings compare, byte by byte and whatever follows them, as the strings do and then as what follows;
  so a sequence of encoded fields compares field by field, with zeros and prefixes in their place.\<close>

theorem memcmp_string_order:
  "bytes_less (save_memcmp_string x @ p) (save_memcmp_string y @ q) \<longleftrightarrow> bytes_less x y \<or> x = y \<and> bytes_less p q"
  unfolding save_spec by (rule bytes_less_escaped)

text \<open>C16: \<open>encode_0_01_00_append\<close> and the stream writer give the same bytes; \<open>load_memcmp_string\<close>, \<open>decode_01_00\<close> of
  a string, \<open>decode_01_00\<close> of pointers and \<open>end_of_01_00\<close> with an end find the string and the position right behind its
  terminator.  The pointer version of the decoder wants one byte more room than the string has, and its \<open>*ires\<close> is that
  position itself, where the comments on it say \<open>(*ires)+1\<close>.  \<open>end_of_01_00\<close> without an end is not among these readers.\<close>

theorem memcmp_string_roundtrip:
  "encode_0_01_00_append s out = Inr (out @ save_memcmp_string s) \<and>
   load_memcmp_string (save_memcmp_string s @ rest) = (s, Inr rest) \<and>
   decode_01_00 (save_memcmp_string s @ rest) = Inr (length (save_memcmp_string s), s) \<and>
   decode_01_00_ptr (save_memcmp_string s @ rest) room =
     (if length s < room then Inr (s, length (save_memcmp_string s)) else Inl Abort) \<and>
   end_of_01_00 (save_memcmp_string s @ rest) = length (save_memcmp_string s)"
proof -
  have "escaped s \<noteq> []" using length_escaped(2) [of s] by auto
  then show ?thesis
    using length_escaped(1) [of s] decode_ptr_scan [OF scan_escaped] end_scan [OF scan_escaped]
    unfolding save_spec
    by (simp add: encode_0_01_00_append_def encode_spec load_memcmp_string_def load_scan decode_01_00_def decode_scan
        scan_escaped mult.commute)
qed

text \<open>On every input the two checked readers agree: they accept the same strings, and otherwise the stream version
  keeps the bytes decoded before the error, and both throw.\<close>

theorem memcmp_string_errors:
  "(case load_memcmp_string bs of
     (s, Inr rest) \<Rightarrow> decode_01_00 bs = Inr (length bs - length rest, s) \<and> (\<exists>n. rest = drop n bs)
   | (s, Inl e) \<Rightarrow> e \<in> {Out_of_range, Data_format} \<and> decode_01_00 bs = Inl Data_format)"
proof -
  obtain out r where sc: "scan_01_00 bs = (out, r)" by fastforce
  have e: "r = Inl e \<Longrightarrow> e \<in> {Out_of_range, Data_format}" for e
    using sc
  proof (induction bs arbitrary: out r e rule: scan_01_00.induct)
    case (2 b bs)
    then show ?case by (auto simp: bind_res_Inl split: if_splits prod.splits list.splits)
  qed auto
  show ?thesis
  proof (cases r)
    case (Inl e)
    then show ?thesis using e sc by (auto simp: load_memcmp_string_def load_scan decode_01_00_def decode_scan)
  next
    case (Inr n)
    then have "n \<le> length bs" "bs \<noteq> []" using scan_bound sc by auto
    then show ?thesis using sc Inr by (auto simp: load_memcmp_string_def load_scan decode_01_00_def decode_scan)
  qed
qed

text \<open>Numbers of 16, 32 or 64 bits compare as their encodings, followed by anything: unsigned integers, signed integers
  and reals, in the IEEE total order.\<close>

lemma memcmp_number_order:
  fixes x y :: "'a::len word"
  assumes "8 dvd LENGTH('a)"
  shows "(bytes_less (save_big_endian x @ p) (save_big_endian y @ q) \<longleftrightarrow> x < y \<or> x = y \<and> bytes_less p q) \<and>
    (bytes_less (save_memcmp_signed x @ p) (save_memcmp_signed y @ q) \<longleftrightarrow> x <s y \<or> x = y \<and> bytes_less p q) \<and>
    (bytes_less (encode_memcmp_real x @ p) (encode_memcmp_real y @ q) \<longleftrightarrow> total_less x y \<or> x = y \<and> bytes_less p q)"
proof -
  have "x XOR sign_bit = y XOR sign_bit \<longleftrightarrow> x = y" by (metis bit.xor_left_self xor.commute)
  then show ?thesis
    unfolding save_big_endian_def save_memcmp_signed_def encode_memcmp_real_def Let_def real_key_def [symmetric]
      big_endian_less [OF assms] signed_less_halves real_key_less real_key_inj
    by (simp add: word_less_nat_alt)
qed

text \<open>Every number is read back from its encoding, with the rest of the input left.\<close>

lemma memcmp_number_roundtrip:
  fixes x :: "'a::len word"
  assumes "8 dvd LENGTH('a)"
  shows "load_big_endian (save_big_endian x @ rest) = Inr (x, rest) \<and>
    load_memcmp_signed (save_memcmp_signed x @ rest) = Inr (x, rest) \<and>
    decode_memcmp_real (encode_memcmp_real x @ rest) = Inr (x, rest) \<and>
    load_memcmp_bool (save_memcmp_bool b @ rest) = Inr (b, rest)"
proof (intro conjI)
  note l = big_endian_load [OF assms]
  show "load_big_endian (save_big_endian x @ rest) = Inr (x, rest)"
    unfolding load_big_endian_def save_big_endian_def Let_def l(1,2) using l(3) by (simp only: if_False)
  have "(x XOR sign_bit) XOR sign_bit = x" by (simp add: xor.assoc)
  then show "load_memcmp_signed (save_memcmp_signed x @ rest) = Inr (x, rest)"
    unfolding load_memcmp_signed_def save_memcmp_signed_def Let_def l(1,2) using l(3) [of "x XOR sign_bit" rest]
    by (simp only: if_False)
  show "decode_memcmp_real (encode_memcmp_real x @ rest) = Inr (x, rest)"
    unfolding decode_memcmp_real_def encode_memcmp_real_def Let_def real_key_def [symmetric] l(1,2) real_key_back
    using l(3) by (simp only: if_False)
  show "load_memcmp_bool (save_memcmp_bool b @ rest) = Inr (b, rest)"
    by (simp add: load_memcmp_bool_def save_memcmp_bool_def)
qed

text \<open>C19: Numbers of 16, 32 or 64 bits compare as their encodings, followed by anything: unsigned integers, signed integers
  and reals, in the IEEE total order; and every number is read back with the rest of the input left.\<close>

theorem memcmp_numbers:
  fixes x y :: "'a::len word"
  assumes "8 dvd LENGTH('a)"
  shows "(bytes_less (save_big_endian x @ p) (save_big_endian y @ q) \<longleftrightarrow> x < y \<or> x = y \<and> bytes_less p q) \<and>
    (bytes_less (save_memcmp_signed x @ p) (save_memcmp_signed y @ q) \<longleftrightarrow> x <s y \<or> x = y \<and> bytes_less p q) \<and>
    (bytes_less (encode_memcmp_real x @ p) (encode_memcmp_real y @ q) \<longleftrightarrow> total_less x y \<or> x = y \<and> bytes_less p q) \<and>
    load_big_endian (save_big_endian x @ p) = Inr (x, p) \<and> load_memcmp_signed (save_memcmp_signed x @ p) = Inr (x, p) \<and>
    decode_memcmp_real (encode_memcmp_real x @ p) = Inr (x, p) \<and> load_memcmp_bool (save_memcmp_bool b @ p) = Inr (b, p)"
  using memcmp_number_order [OF assms] memcmp_number_roundtrip [OF assms] by blast

theorem memcmp_numbers_witness:
  "bytes_less (save_memcmp_signed (- 5 :: u32) @ [9]) (save_memcmp_signed (3 :: u32) @ []) \<and>
   decode_memcmp_real (encode_memcmp_real (- 5 :: u32) @ [9]) = Inr (- 5 :: u32, [9])"
  using memcmp_numbers [where x = "- 5 :: u32" and y = "3 :: u32" and p = "[9]" and q = "[]" and b = True] by simp

text \<open>\<open>end_of_01_00\<close> for pointers looks at the wrong byte after a byte that is not zero: for the encoding of two
  letters it stops one byte early.\<close>

theorem end_of_01_00_ptr_stops_early:
  "save_memcmp_string [0x61, 0x62] = [0x61, 0x62, 0, 0] \<and> end_of_01_00 [0x61, 0x62, 0, 0] = 4 \<and>
   end_of_01_00_ptr [0x61, 0x62, 0, 0] = Inr 3"
  unfolding save_spec by simp

end
