(* ===== verification/Binary_Search.thy ===== *)
theory Binary_Search
  imports Topling_Prelude
begin

text \<open>
  The binary searches at the end of \<open>src/terark/valvec.hpp\<close>: \<open>lower_bound_n\<close>, \<open>upper_bound_n\<close>, \<open>equal_range_n\<close>,
  \<open>binary_search_n\<close> and their \<open>_ex_\<close> forms, which compare a key extracted from the element.  An array is what its
  iterator reads at an index.  The overloads without a comparator have the same text with \<open><\<close> for it, so they
  are the case \<open>comp = (<)\<close>; only \<open>equal_range_n\<close> has two texts, which search the upper half up to
  different ends.  The \<open>_0\<close>, \<open>_a\<close> and pointer forms call these with the bounds of the array.
\<close>

section \<open>The searches\<close>

function lower_bound_n :: "(nat \<Rightarrow> 'a) \<Rightarrow> nat \<Rightarrow> nat \<Rightarrow> 'k \<Rightarrow> ('a \<Rightarrow> 'k \<Rightarrow> bool) \<Rightarrow> nat" where
  "lower_bound_n a i j key comp' =
     (if i < j then
        (let mid = (i + j) div 2 in
         if comp' (a mid) key then lower_bound_n a (mid + 1) j key comp'
         else lower_bound_n a i mid key comp')
      else i)"
  by pat_completeness auto
termination by (relation "measure (\<lambda>(a, i, j, _). j - i)") auto

function upper_bound_n :: "(nat \<Rightarrow> 'a) \<Rightarrow> nat \<Rightarrow> nat \<Rightarrow> 'k \<Rightarrow> ('k \<Rightarrow> 'a \<Rightarrow> bool) \<Rightarrow> nat" where
  "upper_bound_n a i j key comp' =
     (if i < j then
        (let mid = (i + j) div 2 in
         if comp' key (a mid) then upper_bound_n a i mid key comp'
         else upper_bound_n a (mid + 1) j key comp')
      else i)"
  by pat_completeness auto
termination by (relation "measure (\<lambda>(a, i, j, _). j - i)") auto

text \<open>The comparator is applied both ways; \<open>upp\<close> is the end the search was started with.\<close>

function equal_range_n :: "(nat \<Rightarrow> 'a) \<Rightarrow> nat \<Rightarrow> nat \<Rightarrow> 'k \<Rightarrow> ('a \<Rightarrow> 'k \<Rightarrow> bool) \<Rightarrow> ('k \<Rightarrow> 'a \<Rightarrow> bool) \<Rightarrow> nat \<times> nat" where
  "equal_range_n a i j key lt gt =
     (if i < j then
        (let mid = (i + j) div 2 in
         if lt (a mid) key then equal_range_n a (mid + 1) j key lt gt
         else if gt key (a mid) then equal_range_n a i mid key lt gt
         else (lower_bound_n a i mid key lt, upper_bound_n a (mid + 1) j key gt))
      else (i, i))"
  by pat_completeness auto
termination by (relation "measure (\<lambda>(a, i, j, _). j - i)") auto

function equal_range_n_less :: "(nat \<Rightarrow> 'a :: ord) \<Rightarrow> nat \<Rightarrow> nat \<Rightarrow> nat \<Rightarrow> 'a \<Rightarrow> nat \<times> nat" where
  "equal_range_n_less a upp i j key =
     (if i < j then
        (let mid = (i + j) div 2 in
         if a mid < key then equal_range_n_less a upp (mid + 1) j key
         else if key < a mid then equal_range_n_less a upp i mid key
         else (lower_bound_n a i mid key (<), upper_bound_n a (mid + 1) upp key (<)))
      else (i, i))"
  by pat_completeness auto
termination by (relation "measure (\<lambda>(a, upp, i, j, _). j - i)") auto

definition binary_search_n :: "(nat \<Rightarrow> 'a) \<Rightarrow> nat \<Rightarrow> nat \<Rightarrow> 'k \<Rightarrow> ('a \<Rightarrow> 'k \<Rightarrow> bool) \<Rightarrow> ('k \<Rightarrow> 'a \<Rightarrow> bool) \<Rightarrow> bool" where
  "binary_search_n a low upp key lt gt =
     (let f = lower_bound_n a low upp key lt in f < upp \<and> \<not> gt key (a f))"

function lower_bound_ex_n :: "(nat \<Rightarrow> 'a) \<Rightarrow> nat \<Rightarrow> nat \<Rightarrow> 'k \<Rightarrow> ('a \<Rightarrow> 'x) \<Rightarrow> ('x \<Rightarrow> 'k \<Rightarrow> bool) \<Rightarrow> nat" where
  "lower_bound_ex_n a i j key keyEx comp' =
     (if i < j then
        (let mid = (i + j) div 2 in
         if comp' (keyEx (a mid)) key then lower_bound_ex_n a (mid + 1) j key keyEx comp'
         else lower_bound_ex_n a i mid key keyEx comp')
      else i)"
  by pat_completeness auto
termination by (relation "measure (\<lambda>(a, i, j, _). j - i)") auto

function upper_bound_ex_n :: "(nat \<Rightarrow> 'a) \<Rightarrow> nat \<Rightarrow> nat \<Rightarrow> 'k \<Rightarrow> ('a \<Rightarrow> 'x) \<Rightarrow> ('k \<Rightarrow> 'x \<Rightarrow> bool) \<Rightarrow> nat" where
  "upper_bound_ex_n a i j key keyEx comp' =
     (if i < j then
        (let mid = (i + j) div 2 in
         if comp' key (keyEx (a mid)) then upper_bound_ex_n a i mid key keyEx comp'
         else upper_bound_ex_n a (mid + 1) j key keyEx comp')
      else i)"
  by pat_completeness auto
termination by (relation "measure (\<lambda>(a, i, j, _). j - i)") auto

function equal_range_ex_n ::
  "(nat \<Rightarrow> 'a) \<Rightarrow> nat \<Rightarrow> nat \<Rightarrow> 'k \<Rightarrow> ('a \<Rightarrow> 'x) \<Rightarrow> ('x \<Rightarrow> 'k \<Rightarrow> bool) \<Rightarrow> ('k \<Rightarrow> 'x \<Rightarrow> bool) \<Rightarrow> nat \<times> nat" where
  "equal_range_ex_n a i j key keyEx lt gt =
     (if i < j then
        (let mid = (i + j) div 2 in
         if lt (keyEx (a mid)) key then equal_range_ex_n a (mid + 1) j key keyEx lt gt
         else if gt key (keyEx (a mid)) then equal_range_ex_n a i mid key keyEx lt gt
         else (lower_bound_ex_n a i mid key keyEx lt, upper_bound_ex_n a (mid + 1) j key keyEx gt))
      else (i, i))"
  by pat_completeness auto
termination by (relation "measure (\<lambda>(a, i, j, _). j - i)") auto

definition binary_search_ex_n ::
  "(nat \<Rightarrow> 'a) \<Rightarrow> nat \<Rightarrow> nat \<Rightarrow> 'k \<Rightarrow> ('a \<Rightarrow> 'x) \<Rightarrow> ('x \<Rightarrow> 'k \<Rightarrow> bool) \<Rightarrow> ('k \<Rightarrow> 'x \<Rightarrow> bool) \<Rightarrow> bool" where
  "binary_search_ex_n a low upp key keyEx lt gt =
     (let f = lower_bound_ex_n a low upp key keyEx lt in f < upp \<and> \<not> gt key (keyEx (a f)))"

definition lower_bound_0 :: "(nat \<Rightarrow> 'a) \<Rightarrow> nat \<Rightarrow> 'k \<Rightarrow> ('a \<Rightarrow> 'k \<Rightarrow> bool) \<Rightarrow> nat" where
  "lower_bound_0 a n key comp' = lower_bound_n a 0 n key comp'"

definition upper_bound_0 :: "(nat \<Rightarrow> 'a) \<Rightarrow> nat \<Rightarrow> 'k \<Rightarrow> ('k \<Rightarrow> 'a \<Rightarrow> bool) \<Rightarrow> nat" where
  "upper_bound_0 a n key comp' = upper_bound_n a 0 n key comp'"

definition lower_bound_a :: "'a list \<Rightarrow> 'k \<Rightarrow> ('a \<Rightarrow> 'k \<Rightarrow> bool) \<Rightarrow> nat" where
  "lower_bound_a a key comp' = lower_bound_n ((!) a) 0 (length a) key comp'"

definition upper_bound_a :: "'a list \<Rightarrow> 'k \<Rightarrow> ('k \<Rightarrow> 'a \<Rightarrow> bool) \<Rightarrow> nat" where
  "upper_bound_a a key comp' = upper_bound_n ((!) a) 0 (length a) key comp'"

declare lower_bound_n.simps [simp del] upper_bound_n.simps [simp del] equal_range_n.simps [simp del]
  equal_range_n_less.simps [simp del] lower_bound_ex_n.simps [simp del] upper_bound_ex_n.simps [simp del]
  equal_range_ex_n.simps [simp del]

text \<open>An empty range.\<close>

lemma search_end [simp]:
  "lower_bound_n a i i key lt = i"
  "upper_bound_n a i i key gt = i"
  "equal_range_n a i i key lt gt = (i, i)"
  "equal_range_n_less b upp i i k = (i, i)"
  by (simp_all add: lower_bound_n.simps [of a i i] upper_bound_n.simps [of a i i] equal_range_n.simps [of a i i]
      equal_range_n_less.simps [of b upp i i])

section \<open>What they find\<close>

text \<open>\<open>splits_at P i j r\<close>: between \<open>i\<close> and \<open>j\<close>, \<open>P\<close> holds exactly below \<open>r\<close>.\<close>

definition splits_at :: "(nat \<Rightarrow> bool) \<Rightarrow> nat \<Rightarrow> nat \<Rightarrow> nat \<Rightarrow> bool" where
  "splits_at P i j r \<longleftrightarrow> i \<le> r \<and> r \<le> j \<and> (\<forall>m. i \<le> m \<and> m < j \<longrightarrow> (P m \<longleftrightarrow> m < r))"

definition down_closed :: "(nat \<Rightarrow> bool) \<Rightarrow> nat \<Rightarrow> nat \<Rightarrow> bool" where
  "down_closed P i j \<longleftrightarrow> (\<forall>m n. i \<le> m \<and> m \<le> n \<and> n < j \<longrightarrow> P n \<longrightarrow> P m)"

lemma down_closed_sub: "down_closed P i j \<Longrightarrow> i \<le> i' \<Longrightarrow> j' \<le> j \<Longrightarrow> down_closed P i' j'"
  unfolding down_closed_def by (meson le_trans order_less_le_trans)

lemma splits_at_right: "down_closed P i j \<Longrightarrow> i \<le> m \<Longrightarrow> m < j \<Longrightarrow> P m \<Longrightarrow> splits_at P (Suc m) j r \<Longrightarrow> splits_at P i j r"
  unfolding splits_at_def down_closed_def
  by (metis Suc_leI le_eq_less_or_eq nat_less_le not_less order.trans order_less_le_trans)

lemma splits_at_left: "down_closed P i j \<Longrightarrow> i \<le> m \<Longrightarrow> m < j \<Longrightarrow> \<not> P m \<Longrightarrow> splits_at P i m r \<Longrightarrow> splits_at P i j r"
  unfolding splits_at_def down_closed_def
  by (metis nle_le not_less order.trans order_less_le_trans)

lemma lower_bound_n_splits:
  "i \<le> j \<Longrightarrow> down_closed (\<lambda>m. lt (a m) key) i j \<Longrightarrow> splits_at (\<lambda>m. lt (a m) key) i j (lower_bound_n a i j key lt)"
proof (induction a i j key lt rule: lower_bound_n.induct)
  case (1 a i j key lt)
  show ?case
  proof (cases "i < j")
    case True
    define mid where "mid = (i + j) div 2"
    have mid: "i \<le> mid" "mid < j" using True by (auto simp: mid_def)
    have eq: "lower_bound_n a i j key lt =
        (if lt (a mid) key then lower_bound_n a (mid + 1) j key lt else lower_bound_n a i mid key lt)"
      using True by (simp add: lower_bound_n.simps [of a i j] mid_def Let_def)
    show ?thesis
    proof (cases "lt (a mid) key")
      case True
      have "splits_at (\<lambda>m. lt (a m) key) (Suc mid) j (lower_bound_n a (mid + 1) j key lt)"
        using "1.IH"(1) [OF \<open>i < j\<close> mid_def True] mid "1.prems" by (simp add: down_closed_sub)
      then show ?thesis using splits_at_right [OF "1.prems"(2) mid True] True eq by simp
    next
      case False
      have "splits_at (\<lambda>m. lt (a m) key) i mid (lower_bound_n a i mid key lt)"
        using "1.IH"(2) [OF \<open>i < j\<close> mid_def False] mid "1.prems" by (simp add: down_closed_sub)
      then show ?thesis using splits_at_left [OF "1.prems"(2) mid False] False eq by simp
    qed
  qed (use "1.prems" in \<open>auto simp: splits_at_def\<close>)
qed

text \<open>The other searches are this one with another test or another array.\<close>

lemma upper_bound_n_lower: "upper_bound_n a i j key gt = lower_bound_n a i j key (\<lambda>x k. \<not> gt k x)"
  by (induction a i j key gt rule: upper_bound_n.induct)
    (subst upper_bound_n.simps, subst lower_bound_n.simps, simp add: Let_def)

lemma lower_bound_ex_n_lower: "lower_bound_ex_n a i j key f lt = lower_bound_n (f \<circ> a) i j key lt"
  by (induction a i j key f lt rule: lower_bound_ex_n.induct)
    (subst lower_bound_ex_n.simps, subst lower_bound_n.simps, simp add: Let_def comp_def)

lemma upper_bound_ex_n_upper: "upper_bound_ex_n a i j key f gt = upper_bound_n (f \<circ> a) i j key gt"
  by (induction a i j key f gt rule: upper_bound_ex_n.induct)
    (subst upper_bound_ex_n.simps, subst upper_bound_n.simps, simp add: Let_def comp_def)

lemma equal_range_ex_n_equal: "equal_range_ex_n a i j key f lt gt = equal_range_n (f \<circ> a) i j key lt gt"
  by (induction a i j key f lt gt rule: equal_range_ex_n.induct)
    (subst equal_range_ex_n.simps, subst equal_range_n.simps,
      simp add: Let_def comp_def lower_bound_ex_n_lower upper_bound_ex_n_upper)

lemma binary_search_ex_n_search: "binary_search_ex_n a i j key f lt gt = binary_search_n (f \<circ> a) i j key lt gt"
  by (simp add: binary_search_ex_n_def binary_search_n_def lower_bound_ex_n_lower comp_def)

lemma upper_bound_n_splits:
  "i \<le> j \<Longrightarrow> down_closed (\<lambda>m. \<not> gt key (a m)) i j \<Longrightarrow> splits_at (\<lambda>m. \<not> gt key (a m)) i j (upper_bound_n a i j key gt)"
  unfolding upper_bound_n_lower by (rule lower_bound_n_splits)

lemma splits_at_not_less: "splits_at P i j r \<Longrightarrow> splits_at P i j s \<Longrightarrow> \<not> r < s"
  unfolding splits_at_def by (meson less_irrefl order_less_le_trans)

lemma splits_at_unique: "splits_at P i j r \<Longrightarrow> splits_at P i j s \<Longrightarrow> r = s"
  using splits_at_not_less by (metis linorder_neqE_nat)

lemma splits_at_extend: "splits_at P i j r \<Longrightarrow> j \<le> j' \<Longrightarrow> \<forall>m. j \<le> m \<and> m < j' \<longrightarrow> \<not> P m \<Longrightarrow> splits_at P i j' r"
  unfolding splits_at_def by (meson le_trans not_less)

text \<open>
  Both ends of the range.  \<open>down_closed\<close> for the two tests is what a sorted array gives; \<open>lt\<close> and \<open>gt\<close>
  exclude each other.
\<close>

lemma equal_range_n_splits:
  assumes "i \<le> j"
    and "down_closed (\<lambda>m. lt (a m) key) i j" and "down_closed (\<lambda>m. \<not> gt key (a m)) i j"
    and "\<forall>m. lt (a m) key \<longrightarrow> \<not> gt key (a m)"
  shows "splits_at (\<lambda>m. lt (a m) key) i j (fst (equal_range_n a i j key lt gt)) \<and>
     splits_at (\<lambda>m. \<not> gt key (a m)) i j (snd (equal_range_n a i j key lt gt))"
  using assms
proof (induction a i j key lt gt rule: equal_range_n.induct)
  case (1 a i j key lt gt)
  show ?case
  proof (cases "i < j")
    case True
    define mid where "mid = (i + j) div 2"
    have mid: "i \<le> mid" "mid < j" using True by (auto simp: mid_def)
    have eq: "equal_range_n a i j key lt gt =
        (if lt (a mid) key then equal_range_n a (mid + 1) j key lt gt
         else if gt key (a mid) then equal_range_n a i mid key lt gt
         else (lower_bound_n a i mid key lt, upper_bound_n a (mid + 1) j key gt))"
      using True by (simp add: equal_range_n.simps [of a i j] mid_def Let_def)
    note dc = down_closed_sub [OF "1.prems"(2)] down_closed_sub [OF "1.prems"(3)]
    consider "lt (a mid) key" | "\<not> lt (a mid) key" "gt key (a mid)" | "\<not> lt (a mid) key" "\<not> gt key (a mid)"
      by blast
    then show ?thesis
    proof cases
      case 1
      with "1.prems"(4) have "\<not> gt key (a mid)" by blast
      moreover have "splits_at (\<lambda>m. lt (a m) key) (Suc mid) j (fst (equal_range_n a (mid + 1) j key lt gt)) \<and>
          splits_at (\<lambda>m. \<not> gt key (a m)) (Suc mid) j (snd (equal_range_n a (mid + 1) j key lt gt))"
        using "1.IH"(1) [OF \<open>i < j\<close> mid_def 1] mid dc "1.prems"(4) by simp
      ultimately show ?thesis
        using splits_at_right [OF "1.prems"(2) mid] splits_at_right [OF "1.prems"(3) mid] 1 eq by simp
    next
      case 2
      have "splits_at (\<lambda>m. lt (a m) key) i mid (fst (equal_range_n a i mid key lt gt)) \<and>
          splits_at (\<lambda>m. \<not> gt key (a m)) i mid (snd (equal_range_n a i mid key lt gt))"
        using "1.IH"(2) [OF \<open>i < j\<close> mid_def 2] mid dc "1.prems"(4) by simp
      then show ?thesis
        using splits_at_left [OF "1.prems"(2) mid] splits_at_left [OF "1.prems"(3) mid] 2 eq by simp
    next
      case 3
      have "splits_at (\<lambda>m. lt (a m) key) i mid (lower_bound_n a i mid key lt)"
        using mid dc(1) [of i mid] by (intro lower_bound_n_splits) auto
      moreover have "splits_at (\<lambda>m. \<not> gt key (a m)) (Suc mid) j (upper_bound_n a (mid + 1) j key gt)"
        using mid dc(2) [of "Suc mid" j] by (simp add: upper_bound_n_splits)
      ultimately show ?thesis
        using splits_at_left [OF "1.prems"(2) mid 3(1)] splits_at_right [OF "1.prems"(3) mid 3(2)] 3 eq by simp
    qed
  qed (use "1.prems" in \<open>auto simp: splits_at_def\<close>)
qed

lemma equal_range_n_less_splits:
  fixes a :: "nat \<Rightarrow> 'a :: linorder"
  assumes "i \<le> j" and "j \<le> upp" and "\<forall>m. j \<le> m \<and> m < upp \<longrightarrow> key < a m"
    and "down_closed (\<lambda>m. a m < key) i upp" and "down_closed (\<lambda>m. \<not> key < a m) i upp"
  shows "splits_at (\<lambda>m. a m < key) i upp (fst (equal_range_n_less a upp i j key)) \<and>
     splits_at (\<lambda>m. \<not> key < a m) i upp (snd (equal_range_n_less a upp i j key))"
  using assms
proof (induction a upp i j key rule: equal_range_n_less.induct)
  case (1 a upp i j key)
  show ?case
  proof (cases "i < j")
    case True
    define mid where "mid = (i + j) div 2"
    have mid: "i \<le> mid" "mid < j" "mid < upp" using True "1.prems"(2) by (auto simp: mid_def)
    have eq: "equal_range_n_less a upp i j key =
        (if a mid < key then equal_range_n_less a upp (mid + 1) j key
         else if key < a mid then equal_range_n_less a upp i mid key
         else (lower_bound_n a i mid key (<), upper_bound_n a (mid + 1) upp key (<)))"
      using True by (simp add: equal_range_n_less.simps [of a upp i j] mid_def Let_def)
    note dc = down_closed_sub [OF "1.prems"(4)] down_closed_sub [OF "1.prems"(5)]
    have above: "key < a m" if "key < a mid" "mid \<le> m" "m < upp" for m
      using "1.prems"(5) mid that unfolding down_closed_def by blast
    consider "a mid < key" | "key < a mid" | "a mid = key" by (meson linorder_less_linear)
    then show ?thesis
    proof cases
      case 1
      have "splits_at (\<lambda>m. a m < key) (Suc mid) upp (fst (equal_range_n_less a upp (mid + 1) j key)) \<and>
          splits_at (\<lambda>m. \<not> key < a m) (Suc mid) upp (snd (equal_range_n_less a upp (mid + 1) j key))"
        using "1.IH"(1) [OF \<open>i < j\<close> mid_def 1] mid dc "1.prems" by simp
      then show ?thesis
        using splits_at_right [OF "1.prems"(4) mid(1,3)] splits_at_right [OF "1.prems"(5) mid(1,3)] 1 eq by auto
    next
      case 2
      then have "\<not> a mid < key" by (rule less_not_sym)
      with "1.IH"(2) [OF \<open>i < j\<close> mid_def] 2 mid dc "1.prems" above show ?thesis by (simp add: eq)
    next
      case 3
      have "splits_at (\<lambda>m. a m < key) i mid (lower_bound_n a i mid key (<))"
        using mid dc(1) [of i mid] by (intro lower_bound_n_splits) auto
      moreover have "splits_at (\<lambda>m. \<not> key < a m) (Suc mid) upp (upper_bound_n a (mid + 1) upp key (<))"
        using mid dc(2) [of "Suc mid" upp] by (simp add: upper_bound_n_splits)
      ultimately show ?thesis
        using splits_at_left [OF "1.prems"(4) mid(1,3)] splits_at_right [OF "1.prems"(5) mid(1,3)] 3 eq by simp
    qed
  next
    case False
    then have "i = j" using "1.prems"(1) by simp
    then show ?thesis
      using "1.prems" by (auto simp: splits_at_def dest: less_not_sym)
  qed
qed

section \<open>Sorted arrays\<close>

text \<open>A comparator that orders the elements against the key: the elements before it come first, those after it last.\<close>

lemma searches_by_comparator:
  assumes "low \<le> upp"
    and "down_closed (\<lambda>m. lt (a m) key) low upp" and "down_closed (\<lambda>m. \<not> gt key (a m)) low upp"
    and "\<forall>m. lt (a m) key \<longrightarrow> \<not> gt key (a m)"
  shows "equal_range_n a low upp key lt gt = (lower_bound_n a low upp key lt, upper_bound_n a low upp key gt)"
    and "binary_search_n a low upp key lt gt \<longleftrightarrow> (\<exists>m. low \<le> m \<and> m < upp \<and> \<not> lt (a m) key \<and> \<not> gt key (a m))"
proof -
  note l = lower_bound_n_splits [where lt = lt, OF assms(1,2)]
  note u = upper_bound_n_splits [where gt = gt, OF assms(1,3)]
  note e = equal_range_n_splits [where lt = lt and gt = gt, OF assms]
  have "fst (equal_range_n a low upp key lt gt) = lower_bound_n a low upp key lt"
    using splits_at_unique [OF conjunct1 [OF e] l] .
  moreover have "snd (equal_range_n a low upp key lt gt) = upper_bound_n a low upp key gt"
    using splits_at_unique [OF conjunct2 [OF e] u] .
  ultimately show "equal_range_n a low upp key lt gt = (lower_bound_n a low upp key lt, upper_bound_n a low upp key gt)"
    by (metis prod.collapse)
  let ?f = "lower_bound_n a low upp key lt"
  have f: "low \<le> ?f" "?f \<le> upp" "\<And>m. low \<le> m \<Longrightarrow> m < upp \<Longrightarrow> lt (a m) key \<longleftrightarrow> m < ?f"
    using l unfolding splits_at_def by auto
  show "binary_search_n a low upp key lt gt \<longleftrightarrow> (\<exists>m. low \<le> m \<and> m < upp \<and> \<not> lt (a m) key \<and> \<not> gt key (a m))"
  proof
    assume "binary_search_n a low upp key lt gt"
    then show "\<exists>m. low \<le> m \<and> m < upp \<and> \<not> lt (a m) key \<and> \<not> gt key (a m)"
      using f by (auto simp: binary_search_n_def Let_def intro!: exI [of _ ?f])
  next
    assume "\<exists>m. low \<le> m \<and> m < upp \<and> \<not> lt (a m) key \<and> \<not> gt key (a m)"
    then obtain m where m: "low \<le> m" "m < upp" "\<not> lt (a m) key" "\<not> gt key (a m)" by blast
    then have "?f \<le> m" using f(3) not_less by blast
    with m assms(3) f(1) show "binary_search_n a low upp key lt gt"
      unfolding down_closed_def binary_search_n_def Let_def by (meson le_less_trans)
  qed
qed

text \<open>C26: on an array whose keys ascend between \<open>low\<close> and \<open>upp\<close>, \<open>lower_bound\<close> is the first position whose key is
  not below the key asked for and \<open>upper_bound\<close> the first whose key is above it; both texts of \<open>equal_range\<close>
  return this pair, and \<open>binary_search\<close> says whether the key is there.  The searches with a key extractor do on
  the elements what the plain ones do on their keys.\<close>

theorem binary_search_correct:
  fixes b :: "nat \<Rightarrow> 'e" and f :: "'e \<Rightarrow> 'k :: linorder"
  assumes "low \<le> upp" and "\<forall>m n. low \<le> m \<and> m \<le> n \<and> n < upp \<longrightarrow> f (b m) \<le> f (b n)"
  shows "splits_at (\<lambda>m. f (b m) < key) low upp (lower_bound_ex_n b low upp key f (<)) \<and>
    splits_at (\<lambda>m. f (b m) \<le> key) low upp (upper_bound_ex_n b low upp key f (<)) \<and>
    lower_bound_ex_n b low upp key f (<) = lower_bound_n (f \<circ> b) low upp key (<) \<and>
    upper_bound_ex_n b low upp key f (<) = upper_bound_n (f \<circ> b) low upp key (<) \<and>
    equal_range_ex_n b low upp key f (<) (<) =
      (lower_bound_ex_n b low upp key f (<), upper_bound_ex_n b low upp key f (<)) \<and>
    equal_range_n_less (f \<circ> b) upp low upp key = equal_range_ex_n b low upp key f (<) (<) \<and>
    equal_range_n (f \<circ> b) low upp key (<) (<) = equal_range_ex_n b low upp key f (<) (<) \<and>
    (binary_search_ex_n b low upp key f (<) (<) \<longleftrightarrow> key \<in> f ` b ` {low..<upp}) \<and>
    binary_search_n (f \<circ> b) low upp key (<) (<) = binary_search_ex_n b low upp key f (<) (<)"
proof -
  define a where "a = f \<circ> b"
  have dc: "down_closed (\<lambda>m. a m < key) low upp" "down_closed (\<lambda>m. \<not> key < a m) low upp"
    using assms(2) unfolding down_closed_def a_def by (auto simp: not_less) (meson order.strict_trans1 order.trans)+
  have ex: "\<forall>m. a m < key \<longrightarrow> \<not> key < a m" by (auto dest: less_not_sym)
  note l = lower_bound_n_splits [where lt = "(<)", OF assms(1) dc(1)]
  note u = upper_bound_n_splits [where gt = "(<)", OF assms(1) dc(2)]
  note c = searches_by_comparator [where lt = "(<)" and gt = "(<)", OF assms(1) dc ex]
  note e = equal_range_n_less_splits [OF assms(1) order.refl _ dc]
  have "equal_range_n_less a upp low upp key = (lower_bound_n a low upp key (<), upper_bound_n a low upp key (<))"
    using splits_at_unique [OF conjunct1 [OF e] l] splits_at_unique [OF conjunct2 [OF e] u]
    by (metis not_less order_less_le_trans prod.collapse)
  moreover have "binary_search_n a low upp key (<) (<) \<longleftrightarrow> key \<in> a ` {low..<upp}"
    unfolding c(2) by (auto simp: image_iff not_less intro: antisym)
  moreover have "f (b m) = a m" for m by (simp add: a_def)
  moreover have "f ` b ` {low..<upp} = a ` {low..<upp}" by (simp add: a_def image_comp)
  ultimately show ?thesis
    using l u c(1)
    by (simp add: a_def [symmetric] lower_bound_ex_n_lower upper_bound_ex_n_upper equal_range_ex_n_equal
        binary_search_ex_n_search not_less)
qed

lemma binary_search_correct_witness:
  "splits_at (\<lambda>m. id ([2, 3, 3, 7 :: nat] ! m) < 3) 0 4 1 \<and>
   equal_range_ex_n (\<lambda>i. [2, 3, 3, 7 :: nat] ! i) 0 4 3 id (<) (<) = (1, 3)"
proof -
  have s: "\<forall>m n. 0 \<le> m \<and> m \<le> n \<and> n < 4 \<longrightarrow> id ([2, 3, 3, 7 :: nat] ! m) \<le> id ([2, 3, 3, 7] ! n)"
    using sorted_nth_mono [of "[2, 3, 3, 7 :: nat]"] by simp
  note c = binary_search_correct [of 0 4 id "\<lambda>i. [2, 3, 3, 7 :: nat] ! i" 3, OF _ s]
  have l: "lower_bound_ex_n (\<lambda>i. [2, 3, 3, 7 :: nat] ! i) 0 4 3 id (<) = 1"
    by (simp add: lower_bound_ex_n.simps)
  have u: "upper_bound_ex_n (\<lambda>i. [2, 3, 3, 7 :: nat] ! i) 0 4 3 id (<) = 3"
    by (simp add: upper_bound_ex_n.simps)
  from c [unfolded l u] show ?thesis by blast
qed

end
