(* ===== verification/Gold_Hash.thy ===== *)
theory Gold_Hash
  imports Binary_Search
begin

text \<open>
  The hash table \<open>gold_hash_tab\<close> of \<open>src/terark/gold_hash_map.hpp\<close> with its node storage \<open>node_layout\<close> and the
  bucket sizes of \<open>hash_common.cpp\<close>, as it is compiled by default: without \<open>HSM_ENABLE_HASH_CACHE\<close> and with the
  32 bit link type \<open>unsigned\<close>.

  Elements live in the slots of \<open>m_nl\<close>, each with a link; a bucket holds the first slot of its collision list
  and the list ends in \<open>tail\<close>.  The link of a deleted slot is \<open>delmark\<close>, and the bytes of its dead element hold
  the next slot of the freelist.  A slot is \<open>Raw\<close> before an element is made in it and after one was moved out
  or destroyed, \<open>Live\<close> while it holds one and \<open>Salt\<close> while it is on the freelist; reading an element that is
  not there is \<open>Undefined\<close>.  \<open>size_t\<close> arithmetic does not wrap (the numbers are bounded by memory), the arithmetic of
  the link type does and is written with \<open>LinkTp\<close>.  Assertions are kept, failed ones are \<open>Abort\<close>.

  A walk along a collision list is given as much fuel as there are slots, and one more: a walk that has not
  met \<open>tail\<close> by then has met a slot twice and never ends.
\<close>

section \<open>State\<close>

definition LinkTp :: "nat \<Rightarrow> nat" where
  "LinkTp n = n mod 2 ^ 32"

definition tail :: nat where
  "tail = 2 ^ 32 - 1"

definition delmark :: nat where
  "delmark = tail - 1"

datatype 'e cell = Raw | Live 'e | Salt nat

text \<open>
  What the table is instantiated with: hash function and key extractor; whether elements are copied by
  \<open>memcpy\<close> (\<open>FastCopy\<close>) and whether their destructor does nothing; which sizes \<open>malloc\<close> grants for nodes and
  buckets, and what a link holds before it is written.
\<close>

record ('k, 'e) gh_env =
  hash_fn :: "'k \<Rightarrow> nat"
  key_of :: "'e \<Rightarrow> 'k"
  fast_copy :: bool
  trivial_dtor :: bool
  nodes_ok :: "nat \<Rightarrow> bool"
  buckets_ok :: "nat \<Rightarrow> bool"
  fresh_link :: "nat \<Rightarrow> nat"

record 'e gold_hash_tab =
  nl_data :: "'e cell list"
  nl_link :: "nat list"
  bucket :: "nat list"
  nBucket :: nat
  nElem :: nat
  maxElem :: nat
  maxload :: nat
  freelist_head :: nat
  freelist_size :: nat
  load_factor :: nat
  is_sorted :: bool
  m_enable_auto_gc :: bool
  m_enable_freelist_reuse :: bool

text \<open>\<open>bucket\<close> starts as a pointer to the static \<open>tail\<close>, an array of one bucket that is never written.\<close>

definition gh_init :: "'e gold_hash_tab" where
  "gh_init = \<lparr>nl_data = [], nl_link = [], bucket = [tail], nBucket = 1, nElem = 0, maxElem = 0, maxload = 0,
     freelist_head = tail, freelist_size = 0, load_factor = 179, is_sorted = True,
     m_enable_auto_gc = False, m_enable_freelist_reuse = True\<rparr>"

fun get_elem :: "'e cell \<Rightarrow> 'e res" where
  "get_elem (Live e) = Inr e"
| "get_elem Raw = Inl Undefined"
| "get_elem (Salt _) = Inl Undefined"

fun get_salt :: "'e cell \<Rightarrow> nat res" where
  "get_salt (Salt n) = Inr n"
| "get_salt Raw = Inl Undefined"
| "get_salt (Live _) = Inl Undefined"

fun is_live :: "'e cell \<Rightarrow> bool" where
  "is_live (Live e) = True"
| "is_live Raw = False"
| "is_live (Salt _) = False"

section \<open>Bucket sizes\<close>

definition primes :: "nat list" where
  "primes = [5, 11, 19, 37, 53, 97, 193, 389,
     769, 1543, 3079, 6151, 12289,
     24593, 49157, 98317, 196613, 393241,
     786433, 1572869, 3145739, 6291469, 12582917,
     25165843, 50331653, 100663319, 201326611, 402653189,
     805306457, 1610612741, 3221225473, 4294967291,
     8589934583, 17179869143, 34359738337, 68719476731, 137438953447, 274877906899,
     549755813881, 1099511627689, 2199023255531, 4398046511093, 8796093022151, 17592186044399,
     35184372088777, 70368744177643, 140737488355213, 281474976710597, 562949953421231,
     1125899906842597, 2251799813685119, 4503599627370449, 9007199254740881, 18014398509481951,
     36028797018963913, 72057594037927931, 144115188075855859, 288230376151711717,
     576460752303423433, 1152921504606846883, 2305843009213693951, 4611686018427387847,
     9223372036854775783, 18446744073709551557]"

definition hsm_stl_next_prime :: "nat \<Rightarrow> nat" where
  "hsm_stl_next_prime n =
     (let extent = length primes; pos = lower_bound_0 (\<lambda>i. primes ! i) extent n (<)
      in primes ! min pos (extent - 1))"

section \<open>Linking\<close>

fun relink_loop ::
  "('k, 'e) gh_env \<Rightarrow> 'e cell list \<Rightarrow> nat \<Rightarrow> bool \<Rightarrow> nat list \<Rightarrow> nat list \<Rightarrow> nat list \<Rightarrow> (nat list \<times> nat list) res" where
  "relink_loop env data nb no_freelist [] L B = Inr (L, B)"
| "relink_loop env data nb no_freelist (j # js) L B =
     (if no_freelist \<or> delmark \<noteq> L ! j then
        bind_res (get_elem (data ! j)) (\<lambda>e.
          let i = hash_fn env (key_of env e) mod nb in
          relink_loop env data nb no_freelist js (L[j := B ! i]) (B[i := j]))
      else relink_loop env data nb no_freelist js L B)"

text \<open>The debug walk along the freelist, with fuel for one step per slot.\<close>

fun freelist_walk :: "'e cell list \<Rightarrow> nat list \<Rightarrow> nat \<Rightarrow> nat \<Rightarrow> unit res" where
  "freelist_walk data L 0 i = Inl Endless"
| "freelist_walk data L (Suc n) i =
     (if i < delmark then
        if i < length L then verify (L ! i = delmark) (bind_res (get_salt (data ! i)) (\<lambda>nx. freelist_walk data L n nx))
        else Inl Undefined
      else Inr ())"

definition relink :: "('k, 'e) gh_env \<Rightarrow> 'e gold_hash_tab \<Rightarrow> 'e gold_hash_tab res" where
  "relink env h =
     (let nb = nBucket h in
      if nb > 1 then
        bind_res (freelist_walk (nl_data h) (nl_link h) (Suc (length (nl_link h))) (freelist_head h)) (\<lambda>_.
          bind_res (relink_loop env (nl_data h) nb (0 = freelist_size h) [0..<nElem h] (nl_link h) (replicate nb tail))
            (\<lambda>(L, B). Inr (h\<lparr>nl_link := L, bucket := B\<rparr>)))
      else Inr h)"

definition rehash :: "('k, 'e) gh_env \<Rightarrow> 'e gold_hash_tab \<Rightarrow> nat \<Rightarrow> ('e gold_hash_tab \<times> nat) res" where
  "rehash env h n =
     (let newBucketSize = hsm_stl_next_prime n in
      verify (newBucketSize \<ge> 5)
       (if newBucketSize \<noteq> nBucket h then
          verify (nBucket h \<noteq> 1 \<or> tail = bucket h ! 0)
            (verify (buckets_ok env newBucketSize)
              (bind_res (relink env (h\<lparr>bucket := map (fresh_link env) [0..<newBucketSize], nBucket := newBucketSize\<rparr>))
                (\<lambda>h. Inr (h\<lparr>maxload := LinkTp (newBucketSize * load_factor h div 256)\<rparr>, newBucketSize))))
        else Inr (h, newBucketSize)))"

section \<open>Capacity\<close>

text \<open>
  \<open>node_layout::reserve\<close>: the first \<open>old_size\<close> slots keep element or salt and link; the others are new.
  \<open>FastCopy\<close> verifies the allocation, \<open>SafeCopy\<close> throws.
\<close>

definition nl_reserve :: "('k, 'e) gh_env \<Rightarrow> 'e gold_hash_tab \<Rightarrow> nat \<Rightarrow> nat \<Rightarrow> 'e gold_hash_tab res" where
  "nl_reserve env h old_size new_capacity =
     verify (old_size < new_capacity)
      (if \<not> nodes_ok env new_capacity then Inl (if fast_copy env then Abort else Bad_alloc)
       else Inr (h\<lparr>nl_data := take old_size (nl_data h) @ replicate (new_capacity - old_size) Raw,
                   nl_link := take old_size (nl_link h) @ map (fresh_link env) [old_size..<new_capacity]\<rparr>))"

definition reserve_nodes :: "('k, 'e) gh_env \<Rightarrow> 'e gold_hash_tab \<Rightarrow> nat \<Rightarrow> 'e gold_hash_tab res" where
  "reserve_nodes env h cap =
     verify (cap \<ge> nElem h) (verify (cap \<le> delmark)
      (if cap \<noteq> maxElem h \<and> cap \<noteq> nElem h then
         bind_res (nl_reserve env h (nElem h) cap) (\<lambda>h. Inr (h\<lparr>maxElem := LinkTp cap\<rparr>))
       else Inr h))"

definition reserve :: "('k, 'e) gh_env \<Rightarrow> 'e gold_hash_tab \<Rightarrow> nat \<Rightarrow> 'e gold_hash_tab res" where
  "reserve env h cap =
     bind_res (reserve_nodes env h cap) (\<lambda>h.
       if load_factor h = 0 then Inl Undefined
       else bind_res (rehash env h (cap * 256 div load_factor h + 1)) (\<lambda>(h, _). Inr h))"

definition shrink_to_fit :: "('k, 'e) gh_env \<Rightarrow> 'e gold_hash_tab \<Rightarrow> 'e gold_hash_tab res" where
  "shrink_to_fit env h = (if nElem h < maxElem h then reserve env h (nElem h) else Inr h)"

text \<open>
  The argument is a finite \<open>double\<close>: \<open>fact256\<close> is \<open>256 * fact\<close> truncated (the product by a power of two is exact),
  \<open>too_big\<close> the result of the comparison with \<open>0.999\<close>.
\<close>

definition set_load_factor :: "'e gold_hash_tab \<Rightarrow> bool \<Rightarrow> int \<Rightarrow> 'e gold_hash_tab res" where
  "set_load_factor h too_big fact256 =
     (if too_big then Inl Logic_error
      else let lf = nat (max (min fact256 255) 10) in
        Inr (h\<lparr>load_factor := lf, maxload := (if nBucket h = 1 then 0 else LinkTp (nBucket h * lf div 256))\<rparr>))"

section \<open>Construction and destruction\<close>

text \<open>The destructor of every element of the table runs, so every such slot must hold one.\<close>

definition destroy :: "('k, 'e) gh_env \<Rightarrow> 'e gold_hash_tab \<Rightarrow> unit res" where
  "destroy env h =
     (if trivial_dtor env \<or>
         list_all (\<lambda>i. (0 = freelist_size h \<or> delmark \<noteq> nl_link h ! i) \<longrightarrow> is_live (nl_data h ! i)) [0..<nElem h]
      then Inr () else Inl Undefined)"

definition gh_clear :: "('k, 'e) gh_env \<Rightarrow> 'e gold_hash_tab \<Rightarrow> 'e gold_hash_tab res" where
  "gh_clear env h = bind_res (destroy env h) (\<lambda>_. Inr gh_init)"

definition gh_with_capacity :: "('k, 'e) gh_env \<Rightarrow> nat \<Rightarrow> 'e gold_hash_tab res" where
  "gh_with_capacity env cap = reserve env gh_init cap"

text \<open>
  The copy has room for exactly the slots in use; deleted slots are copied with their salt.
\<close>

definition gh_copy :: "('k, 'e) gh_env \<Rightarrow> 'e gold_hash_tab \<Rightarrow> 'e gold_hash_tab res" where
  "gh_copy env y =
     (if 0 = nElem y then
        Inr (y\<lparr>nl_data := [], nl_link := [], maxElem := nElem y, nBucket := 1, maxload := 0, bucket := [tail]\<rparr>)
      else
        verify (nBucket y \<noteq> 1)
          (bind_res (nl_reserve env (y\<lparr>nl_data := [], nl_link := []\<rparr>) 0 (nElem y)) (\<lambda>x.
            verify (buckets_ok env (nBucket y))
              (Inr (x\<lparr>nl_data := take (nElem y) (nl_data y), nl_link := take (nElem y) (nl_link y),
                      maxElem := nElem y, bucket := take (nBucket y) (bucket y)\<rparr>)))))"

definition gh_assign :: "('k, 'e) gh_env \<Rightarrow> bool \<Rightarrow> 'e gold_hash_tab \<Rightarrow> 'e gold_hash_tab \<Rightarrow> 'e gold_hash_tab res" where
  "gh_assign env same_object x y =
     (if \<not> same_object then bind_res (destroy env x) (\<lambda>_. gh_copy env y) else Inr x)"

text \<open>The new table and what is left of the old one.\<close>

definition gh_move :: "'e gold_hash_tab \<Rightarrow> 'e gold_hash_tab \<times> 'e gold_hash_tab" where
  "gh_move y = (y, gh_init)"

definition gh_move_assign ::
  "('k, 'e) gh_env \<Rightarrow> bool \<Rightarrow> 'e gold_hash_tab \<Rightarrow> 'e gold_hash_tab \<Rightarrow> ('e gold_hash_tab \<times> 'e gold_hash_tab) res" where
  "gh_move_assign env same_object x y =
     (if \<not> same_object then bind_res (destroy env x) (\<lambda>_. Inr (gh_move y)) else Inr (x, x))"

definition gh_swap :: "'e gold_hash_tab \<times> 'e gold_hash_tab \<Rightarrow> 'e gold_hash_tab \<times> 'e gold_hash_tab" where
  "gh_swap = (\<lambda>(x, y). (y, x))"

section \<open>Reading and iterating\<close>

definition gh_empty :: "'e gold_hash_tab \<Rightarrow> bool" where
  "gh_empty h = (nElem h = freelist_size h)"

definition gh_size :: "'e gold_hash_tab \<Rightarrow> nat" where
  "gh_size h = nElem h - freelist_size h"

definition hash_i :: "('k, 'e) gh_env \<Rightarrow> 'e gold_hash_tab \<Rightarrow> nat \<Rightarrow> nat res" where
  "hash_i env h i = verify (i < nElem h) (bind_res (get_elem (nl_data h ! i)) (\<lambda>e. Inr (hash_fn env (key_of env e))))"

function skip_deleted :: "nat list \<Rightarrow> nat \<Rightarrow> nat \<Rightarrow> nat" where
  "skip_deleted L n idx = (if idx < n \<and> delmark = L ! idx then skip_deleted L n (idx + 1) else idx)"
  by pat_completeness auto
termination by (relation "measure (\<lambda>(L, n, idx). n - idx)") auto

declare skip_deleted.simps [simp del]

fun skip_deleted_back :: "nat list \<Rightarrow> nat \<Rightarrow> nat" where
  "skip_deleted_back L 0 = 0"
| "skip_deleted_back L (Suc idx) = (if delmark = L ! Suc idx then skip_deleted_back L idx else Suc idx)"

definition next_i :: "'e gold_hash_tab \<Rightarrow> nat \<Rightarrow> nat res" where
  "next_i h idx = verify (idx < nElem h) (Inr (skip_deleted (nl_link h) (nElem h) (idx + 1)))"

definition prev_i :: "'e gold_hash_tab \<Rightarrow> nat \<Rightarrow> nat res" where
  "prev_i h idx = verify (0 < idx) (verify (idx \<le> nElem h) (Inr (skip_deleted_back (nl_link h) (idx - 1))))"

definition beg_i :: "'e gold_hash_tab \<Rightarrow> nat res" where
  "beg_i h =
     (if freelist_size h = nElem h then Inr (nElem h)
      else if freelist_size h \<noteq> 0 \<and> delmark = nl_link h ! 0 then next_i h 0
      else Inr 0)"

definition end_i :: "'e gold_hash_tab \<Rightarrow> nat" where
  "end_i h = nElem h"

definition is_deleted :: "'e gold_hash_tab \<Rightarrow> nat \<Rightarrow> bool res" where
  "is_deleted h idx = verify (idx < nElem h) (Inr (delmark = nl_link h ! idx))"

definition elem_at :: "'e gold_hash_tab \<Rightarrow> nat \<Rightarrow> 'e res" where
  "elem_at h idx =
     verify (nElem h \<ge> 1) (verify (idx < nElem h) (verify (delmark \<noteq> nl_link h ! idx) (get_elem (nl_data h ! idx))))"

definition end_elem :: "'e gold_hash_tab \<Rightarrow> nat \<Rightarrow> 'e res" where
  "end_elem h idxEnd =
     verify (nElem h \<ge> 1) (verify (idxEnd \<ge> 1) (verify (idxEnd \<le> nElem h)
      (verify (delmark \<noteq> nl_link h ! (nElem h - idxEnd)) (get_elem (nl_data h ! (nElem h - idxEnd))))))"

text \<open>The elements that \<open>op\<close> is called with, in order.\<close>

fun for_each_loop :: "'e gold_hash_tab \<Rightarrow> nat list \<Rightarrow> 'e list res" where
  "for_each_loop h [] = Inr []"
| "for_each_loop h (i # js) =
     (if freelist_size h = 0 \<or> delmark \<noteq> nl_link h ! i
      then bind_res (get_elem (nl_data h ! i)) (\<lambda>e. bind_res (for_each_loop h js) (\<lambda>es. Inr (e # es)))
      else for_each_loop h js)"

definition for_each :: "'e gold_hash_tab \<Rightarrow> 'e list res" where
  "for_each h = for_each_loop h [0..<nElem h]"

section \<open>Searching\<close>

fun find_loop :: "('k, 'e) gh_env \<Rightarrow> 'e gold_hash_tab \<Rightarrow> 'k \<Rightarrow> nat \<Rightarrow> nat \<Rightarrow> nat option res" where
  "find_loop env h k 0 p = Inl Endless"
| "find_loop env h k (Suc n) p =
     (if tail \<noteq> p then
        verify (p < nElem h)
          (bind_res (get_elem (nl_data h ! p)) (\<lambda>e.
            if k = key_of env e then Inr (Some p) else find_loop env h k n (nl_link h ! p)))
      else Inr None)"

definition find_with_hash_i :: "('k, 'e) gh_env \<Rightarrow> 'e gold_hash_tab \<Rightarrow> 'k \<Rightarrow> nat \<Rightarrow> nat res" where
  "find_with_hash_i env h k hs =
     verify (hash_fn env k = hs)
       (let i = hs mod nBucket h in
        bind_res (find_loop env h k (Suc (nElem h)) (bucket h ! i)) (\<lambda>r.
          Inr (case r of Some p \<Rightarrow> p | None \<Rightarrow> nElem h)))"

definition find_i :: "('k, 'e) gh_env \<Rightarrow> 'e gold_hash_tab \<Rightarrow> 'k \<Rightarrow> nat res" where
  "find_i env h k = find_with_hash_i env h k (hash_fn env k)"

definition find_hint_with_hash_i :: "('k, 'e) gh_env \<Rightarrow> 'e gold_hash_tab \<Rightarrow> 'k \<Rightarrow> nat \<Rightarrow> (nat \<times> nat) res" where
  "find_hint_with_hash_i env h k hs =
     verify (hash_fn env k = hs)
       (let i = hs mod nBucket h in
        bind_res (find_loop env h k (Suc (nElem h)) (bucket h ! i)) (\<lambda>r.
          Inr (case r of Some p \<Rightarrow> (p, i) | None \<Rightarrow> (nElem h, i))))"

definition gh_count :: "('k, 'e) gh_env \<Rightarrow> 'e gold_hash_tab \<Rightarrow> 'k \<Rightarrow> nat res" where
  "gh_count env h k = bind_res (find_i env h k) (\<lambda>i. Inr (if i = nElem h then 0 else 1))"

definition gh_exists :: "('k, 'e) gh_env \<Rightarrow> 'e gold_hash_tab \<Rightarrow> 'k \<Rightarrow> bool res" where
  "gh_exists env h k = bind_res (find_i env h k) (\<lambda>i. Inr (i \<noteq> nElem h))"

section \<open>Compaction\<close>

function first_deleted :: "nat list \<Rightarrow> nat \<Rightarrow> nat \<Rightarrow> nat" where
  "first_deleted L n i = (if i < n then (if delmark = L ! i then i else first_deleted L n (i + 1)) else n)"
  by pat_completeness auto
termination by (relation "measure (\<lambda>(L, n, i). n - i)") auto

declare first_deleted.simps [simp del]

text \<open>The elements move down; their links stay behind, to be written by \<open>relink\<close>.\<close>

fun compact_loop :: "nat list \<Rightarrow> nat list \<Rightarrow> nat \<Rightarrow> 'e cell list \<Rightarrow> ('e cell list \<times> nat) res" where
  "compact_loop L [] i data = Inr (data, i)"
| "compact_loop L (j # js) i data =
     (if delmark \<noteq> L ! j
      then bind_res (get_elem (data ! j)) (\<lambda>e. compact_loop L js (i + 1) (data[i := Live e, j := Raw]))
      else compact_loop L js i data)"

definition revoke_deleted_no_relink :: "'e gold_hash_tab \<Rightarrow> ('e gold_hash_tab \<times> nat) res" where
  "revoke_deleted_no_relink h =
     verify (freelist_size h > 0)
       (let n = nElem h; i = first_deleted (nl_link h) n 0 in
        verify (i < n)
          (bind_res (compact_loop (nl_link h) [i + 1..<n] i (nl_data h)) (\<lambda>(data, i).
            Inr (h\<lparr>nl_data := data, nElem := LinkTp i, freelist_head := tail, freelist_size := 0\<rparr>, n - i))))"

definition revoke_deleted :: "('k, 'e) gh_env \<Rightarrow> 'e gold_hash_tab \<Rightarrow> ('e gold_hash_tab \<times> nat) res" where
  "revoke_deleted env h =
     (if freelist_size h \<noteq> 0 then
        bind_res (revoke_deleted_no_relink h) (\<lambda>(h, erased).
          bind_res (relink env h) (\<lambda>h. Inr (h, erased)))
      else Inr (h, 0))"

section \<open>Slots\<close>

definition alloc_no_reuse :: "('k, 'e) gh_env \<Rightarrow> 'e gold_hash_tab \<Rightarrow> ('e gold_hash_tab \<times> nat) res" where
  "alloc_no_reuse env h =
     (let slot = nElem h in
      bind_res (if nElem h = maxElem h then reserve_nodes env h (if 0 = nElem h then 1 else LinkTp (2 * nElem h)) else Inr h)
        (\<lambda>h. verify (nElem h < maxElem h) (Inr (h\<lparr>nElem := LinkTp (nElem h + 1)\<rparr>, slot))))"

definition risk_slot_alloc :: "('k, 'e) gh_env \<Rightarrow> 'e gold_hash_tab \<Rightarrow> ('e gold_hash_tab \<times> nat) res" where
  "risk_slot_alloc env h =
     bind_res
       (if 0 = freelist_size h then verify (freelist_head h = tail) (alloc_no_reuse env h)
        else if \<not> m_enable_freelist_reuse h then alloc_no_reuse env h
        else verify (freelist_head h < nElem h) (verify (nl_link h ! freelist_head h = delmark)
          (bind_res (get_salt (nl_data h ! freelist_head h)) (\<lambda>nx.
            verify (nx < nElem h \<or> nx = tail)
              (Inr (h\<lparr>freelist_size := freelist_size h - 1, freelist_head := nx\<rparr>, freelist_head h))))))
       (\<lambda>(h, slot). Inr (h\<lparr>nl_link := (nl_link h)[slot := tail]\<rparr>, slot))"

definition fast_slot_free :: "('k, 'e) gh_env \<Rightarrow> 'e gold_hash_tab \<Rightarrow> nat \<Rightarrow> 'e gold_hash_tab res" where
  "fast_slot_free env h slot =
     bind_res (get_elem (nl_data h ! slot)) (\<lambda>_.
       let h = h\<lparr>nl_link := (nl_link h)[slot := delmark], nl_data := (nl_data h)[slot := Salt (freelist_head h)],
                 freelist_size := freelist_size h + 1, freelist_head := LinkTp slot\<rparr> in
       if \<not> m_enable_freelist_reuse h then Inr h
       else if m_enable_auto_gc h \<and> freelist_size h > nElem h div 2
       then bind_res (revoke_deleted env h) (\<lambda>(h, _). Inr h)
       else Inr h)"

definition risk_slot_free :: "('k, 'e) gh_env \<Rightarrow> 'e gold_hash_tab \<Rightarrow> nat \<Rightarrow> 'e gold_hash_tab res" where
  "risk_slot_free env h slot =
     verify (slot < nElem h) (verify (delmark \<noteq> nl_link h ! slot) (fast_slot_free env h slot))"

definition risk_size_inc :: "('k, 'e) gh_env \<Rightarrow> 'e gold_hash_tab \<Rightarrow> nat \<Rightarrow> 'e gold_hash_tab res" where
  "risk_size_inc env h n =
     bind_res (if LinkTp (nElem h + n) > maxElem h then reserve_nodes env h (LinkTp (nElem h + max (nElem h) n)) else Inr h)
       (\<lambda>h. verify (LinkTp (nElem h + n) \<le> maxElem h)
         (Inr (h\<lparr>nl_link := fold (\<lambda>j L. L[j := tail]) [nElem h..<nElem h + n] (nl_link h), nElem := LinkTp (nElem h + n)\<rparr>)))"

definition risk_size_dec :: "'e gold_hash_tab \<Rightarrow> nat \<Rightarrow> 'e gold_hash_tab res" where
  "risk_size_dec h n = verify (nElem h \<ge> n) (Inr (h\<lparr>nElem := nElem h - n\<rparr>))"

end
