(* ===== verification/Gold_Hash_Ops.thy ===== *)
theory Gold_Hash_Ops
  imports Gold_Hash
begin

text \<open>
  The operations of \<open>gold_hash_tab\<close> that insert and erase, sorting, comparison and (de)serialisation, and
  \<open>gold_hash_map\<close> over it.  A callback that constructs an element is the element it constructs; a callback
  that looks at elements is a function on elements.
\<close>

section \<open>Insertion\<close>

text \<open>The common tail of the insertions: construct the element and put the slot at the head of its list.\<close>

definition place_elem :: "'e gold_hash_tab \<Rightarrow> nat \<Rightarrow> nat \<Rightarrow> 'e \<Rightarrow> 'e gold_hash_tab" where
  "place_elem h slot i e =
     h\<lparr>nl_data := (nl_data h)[slot := Live e], nl_link := (nl_link h)[slot := bucket h ! i],
       bucket := (bucket h)[i := LinkTp slot], is_sorted := False\<rparr>"

definition lazy_insert_elem_with_hash_i ::
  "('k, 'e) gh_env \<Rightarrow> 'e gold_hash_tab \<Rightarrow> 'k \<Rightarrow> nat \<Rightarrow> 'e \<Rightarrow> ('e gold_hash_tab \<times> nat \<times> bool) res" where
  "lazy_insert_elem_with_hash_i env h k hs e =
     verify (hash_fn env k = hs)
       (let i = hs mod nBucket h in
        bind_res (find_loop env h k (Suc (nElem h)) (bucket h ! i)) (\<lambda>r. case r of
          Some p \<Rightarrow> Inr (h, p, False)
        | None \<Rightarrow>
            bind_res
              (if nElem h - freelist_size h \<ge> maxload h
               then bind_res (rehash env h (nBucket h + 1)) (\<lambda>(h, nb). Inr (h, hs mod nb))
               else Inr (h, i))
              (\<lambda>(h, i). bind_res (risk_slot_alloc env h) (\<lambda>(h, slot).
                Inr (place_elem h slot i e, slot, True)))))"

definition lazy_insert_elem_i :: "('k, 'e) gh_env \<Rightarrow> 'e gold_hash_tab \<Rightarrow> 'k \<Rightarrow> 'e \<Rightarrow> ('e gold_hash_tab \<times> nat \<times> bool) res" where
  "lazy_insert_elem_i env h k e = lazy_insert_elem_with_hash_i env h k (hash_fn env k) e"

definition insert_i :: "('k, 'e) gh_env \<Rightarrow> 'e gold_hash_tab \<Rightarrow> 'e \<Rightarrow> ('e gold_hash_tab \<times> nat \<times> bool) res" where
  "insert_i env h obj = lazy_insert_elem_i env h (key_of env obj) obj"

text \<open>\<open>hint\<close> is the bucket that \<open>find_hint_with_hash_i\<close> returned; the debug walk checks that the key is not there.\<close>

definition hint_insert_elem_with_hash_i ::
  "('k, 'e) gh_env \<Rightarrow> 'e gold_hash_tab \<Rightarrow> 'k \<Rightarrow> nat \<Rightarrow> nat \<Rightarrow> 'e \<Rightarrow> ('e gold_hash_tab \<times> nat) res" where
  "hint_insert_elem_with_hash_i env h k hs hint e =
     verify (hash_fn env k = hs) (verify (hs mod nBucket h = hint)
       (bind_res (find_loop env h k (Suc (nElem h)) (bucket h ! hint)) (\<lambda>r. verify (r = None)
         (bind_res
           (if nElem h - freelist_size h \<ge> maxload h
            then bind_res (rehash env h (nBucket h + 1)) (\<lambda>(h, nb). Inr (h, hs mod nb))
            else Inr (h, hint))
           (\<lambda>(h, i). bind_res (risk_slot_alloc env h) (\<lambda>(h, slot). Inr (place_elem h slot i e, slot)))))))"

text \<open>
  The second half of the insertions with \<open>pre_insert\<close>: the table may have been rehashed by it since the bucket \<open>i\<close>
  was computed.
\<close>

definition place_after_pre ::
  "('k, 'e) gh_env \<Rightarrow> 'e gold_hash_tab \<Rightarrow> nat \<Rightarrow> nat \<Rightarrow> nat \<Rightarrow> 'e \<Rightarrow> ('e gold_hash_tab \<times> nat) res" where
  "place_after_pre env h hs old_nBucket i e =
     bind_res
       (if nElem h - freelist_size h \<ge> maxload h
        then bind_res (rehash env h (nBucket h + 1)) (\<lambda>(h, nb). Inr (h, hs mod nb))
        else if nBucket h \<noteq> old_nBucket then Inr (h, hs mod nBucket h)
        else Inr (h, i))
       (\<lambda>(h, i). bind_res (risk_slot_alloc env h) (\<lambda>(h, slot). Inr (place_elem h slot i e, slot)))"

text \<open>\<open>pre_insert\<close> is called on the table once the key is known to be new, and may change it; it may refuse.\<close>

definition lazy_insert_elem_with_hash_pre ::
  "('k, 'e) gh_env \<Rightarrow> 'e gold_hash_tab \<Rightarrow> 'k \<Rightarrow> nat \<Rightarrow> 'e \<Rightarrow> ('e gold_hash_tab \<Rightarrow> ('e gold_hash_tab \<times> bool) res) \<Rightarrow>
    ('e gold_hash_tab \<times> nat \<times> bool) res" where
  "lazy_insert_elem_with_hash_pre env h k hs e pre_insert =
     (let old_nBucket = nBucket h; i = hs mod old_nBucket in
      bind_res (find_loop env h k (Suc (nElem h)) (bucket h ! i)) (\<lambda>r. case r of
        Some p \<Rightarrow> Inr (h, p, False)
      | None \<Rightarrow> bind_res (pre_insert h) (\<lambda>(h, go).
          if \<not> go then Inr (h, nElem h, True)
          else bind_res (place_after_pre env h hs old_nBucket i e) (\<lambda>(h, slot). Inr (h, slot, True)))))"

definition risk_insert_on_slot :: "('k, 'e) gh_env \<Rightarrow> 'e gold_hash_tab \<Rightarrow> nat \<Rightarrow> ('e gold_hash_tab \<times> nat) res" where
  "risk_insert_on_slot env h slot =
     verify (slot < nElem h) (verify (delmark \<noteq> nl_link h ! slot)
       (bind_res (get_elem (nl_data h ! slot)) (\<lambda>e.
         let k = key_of env e; i = hash_fn env k mod nBucket h in
         bind_res (find_loop env h k (Suc (nElem h)) (bucket h ! i)) (\<lambda>r. case r of
           Some p \<Rightarrow> verify (p \<noteq> slot) (Inr (h, p))
         | None \<Rightarrow>
             if nElem h - freelist_size h \<ge> maxload h
             then bind_res (rehash env h (nBucket h + 1)) (\<lambda>(h, _). Inr (h\<lparr>is_sorted := False\<rparr>, slot))
             else Inr (h\<lparr>nl_link := (nl_link h)[slot := bucket h ! i], bucket := (bucket h)[i := LinkTp slot],
                         is_sorted := False\<rparr>, slot)))))"

section \<open>Erasure\<close>

text \<open>Where a link is: the pointer \<open>curp\<close> of the code.\<close>

datatype link_ref = In_bucket nat | In_link nat

fun read_ref :: "'e gold_hash_tab \<Rightarrow> link_ref \<Rightarrow> nat" where
  "read_ref h (In_bucket i) = bucket h ! i"
| "read_ref h (In_link p) = nl_link h ! p"

fun write_ref :: "'e gold_hash_tab \<Rightarrow> link_ref \<Rightarrow> nat \<Rightarrow> 'e gold_hash_tab" where
  "write_ref h (In_bucket i) v = h\<lparr>bucket := (bucket h)[i := v]\<rparr>"
| "write_ref h (In_link p) v = h\<lparr>nl_link := (nl_link h)[p := v]\<rparr>"

text \<open>The loop of \<open>erase\<close>, up to the hit: the place that points to the slot, the slot and its element.\<close>

fun erase_walk :: "('k, 'e) gh_env \<Rightarrow> 'e gold_hash_tab \<Rightarrow> 'k \<Rightarrow> nat \<Rightarrow> link_ref \<Rightarrow> (link_ref \<times> nat \<times> 'e) option res" where
  "erase_walk env h k 0 curp = Inl Endless"
| "erase_walk env h k (Suc n) curp =
     (let curv = read_ref h curp in
      if tail \<noteq> curv then
        verify (curv < nElem h) (verify (nl_link h ! curv \<noteq> delmark)
          (bind_res (get_elem (nl_data h ! curv)) (\<lambda>e.
            if k = key_of env e then Inr (Some (curp, curv, e)) else erase_walk env h k n (In_link curv))))
      else Inr None)"

definition gh_erase :: "('k, 'e) gh_env \<Rightarrow> 'e gold_hash_tab \<Rightarrow> 'k \<Rightarrow> ('e gold_hash_tab \<times> nat) res" where
  "gh_erase env h k =
     (let i = hash_fn env k mod nBucket h in
      bind_res (erase_walk env h k (Suc (nElem h)) (In_bucket i)) (\<lambda>r. case r of
        Some (curp, curv, e) \<Rightarrow>
          bind_res (fast_slot_free env (write_ref h curp (nl_link h ! curv)) curv) (\<lambda>h. Inr (h, 1))
      | None \<Rightarrow> Inr (h, 0)))"

text \<open>\<open>erase(key, get_val)\<close>: what \<open>get_val\<close> is called with, if it is called.\<close>

definition gh_erase_get :: "('k, 'e) gh_env \<Rightarrow> 'e gold_hash_tab \<Rightarrow> 'k \<Rightarrow> ('e gold_hash_tab \<times> nat \<times> 'e option) res" where
  "gh_erase_get env h k =
     (let i = hash_fn env k mod nBucket h in
      bind_res (erase_walk env h k (Suc (nElem h)) (In_bucket i)) (\<lambda>r. case r of
        Some (curp, curv, e) \<Rightarrow>
          bind_res (fast_slot_free env (write_ref h curp (nl_link h ! curv)) curv) (\<lambda>h. Inr (h, 1, Some e))
      | None \<Rightarrow> Inr (h, 0, None)))"

fun unlink_walk :: "'e gold_hash_tab \<Rightarrow> nat \<Rightarrow> nat \<Rightarrow> link_ref \<Rightarrow> link_ref res" where
  "unlink_walk h idx 0 curp = Inl Endless"
| "unlink_walk h idx (Suc n) curp =
     (let curr' = read_ref h curp in
      if idx \<noteq> curr' then verify (read_ref h (In_link curr') < nElem h) (unlink_walk h idx n (In_link curr'))
      else Inr curp)"

definition risk_unlink_with_hash_i :: "('k, 'e) gh_env \<Rightarrow> 'e gold_hash_tab \<Rightarrow> nat \<Rightarrow> nat \<Rightarrow> 'e gold_hash_tab res" where
  "risk_unlink_with_hash_i env h idx hs =
     (let bucket_idx = hs mod nBucket h in
      verify (nElem h \<ge> 1) (verify (idx < nElem h) (verify (bucket h ! bucket_idx < nElem h)
        (verify (nl_link h ! idx \<noteq> delmark)
          (bind_res (unlink_walk h idx (Suc (nElem h)) (In_bucket bucket_idx)) (\<lambda>curp.
            Inr (write_ref h curp (nl_link h ! idx))))))))"

definition risk_unlink :: "('k, 'e) gh_env \<Rightarrow> 'e gold_hash_tab \<Rightarrow> nat \<Rightarrow> 'e gold_hash_tab res" where
  "risk_unlink env h idx = bind_res (hash_i env h idx) (\<lambda>hs. risk_unlink_with_hash_i env h idx hs)"

definition erase_i :: "('k, 'e) gh_env \<Rightarrow> 'e gold_hash_tab \<Rightarrow> nat \<Rightarrow> 'e gold_hash_tab res" where
  "erase_i env h idx =
     verify (nElem h \<ge> 1) (verify (idx < nElem h) (verify (delmark \<noteq> nl_link h ! idx)
       (bind_res (risk_unlink env h idx) (\<lambda>h. fast_slot_free env h idx))))"

definition erase_with_hash_i :: "('k, 'e) gh_env \<Rightarrow> 'e gold_hash_tab \<Rightarrow> nat \<Rightarrow> nat \<Rightarrow> 'e gold_hash_tab res" where
  "erase_with_hash_i env h idx hs =
     verify (nElem h \<ge> 1) (verify (idx < nElem h) (verify (delmark \<noteq> nl_link h ! idx)
       (bind_res (hash_i env h idx) (\<lambda>h0. verify (h0 = hs)
         (bind_res (risk_unlink_with_hash_i env h idx hs) (\<lambda>h. fast_slot_free env h idx))))))"

definition std_erase :: "('k, 'e) gh_env \<Rightarrow> 'e gold_hash_tab \<Rightarrow> nat \<Rightarrow> ('e gold_hash_tab \<times> nat) res" where
  "std_erase env h idx =
     verify (idx < nElem h)
       (bind_res (erase_i env h idx) (\<lambda>h. Inr (h, skip_deleted (nl_link h) (nElem h) idx)))"

text \<open>All elements are destroyed, the memory is kept.\<close>

definition erase_all :: "('k, 'e) gh_env \<Rightarrow> 'e gold_hash_tab \<Rightarrow> 'e gold_hash_tab res" where
  "erase_all env h =
     bind_res
       (if nElem h > freelist_size h
        then bind_res (destroy env h) (\<lambda>_. Inr (h\<lparr>bucket := replicate (nBucket h) tail\<rparr>))
        else Inr h)
       (\<lambda>h. bind_res
         (if freelist_head h < delmark
          then verify (freelist_head h < nElem h) (Inr (h\<lparr>freelist_head := tail, freelist_size := 0\<rparr>))
          else Inr h)
         (\<lambda>h. Inr (h\<lparr>nl_data := map (\<lambda>c. Raw) (nl_data h), nElem := 0\<rparr>)))"

section \<open>Erasing by predicate\<close>

fun first_match :: "('e \<Rightarrow> bool) \<Rightarrow> 'e cell list \<Rightarrow> nat list \<Rightarrow> nat option res" where
  "first_match pred data [] = Inr None"
| "first_match pred data (j # js) =
     bind_res (get_elem (data ! j)) (\<lambda>e. if pred e then Inr (Some j) else first_match pred data js)"

text \<open>\<open>FastCopy\<close>: an element that goes is destroyed where it is, one that stays is copied down.\<close>

fun erase_fast_loop :: "('e \<Rightarrow> bool) \<Rightarrow> nat list \<Rightarrow> nat \<Rightarrow> 'e cell list \<Rightarrow> ('e cell list \<times> nat) res" where
  "erase_fast_loop pred [] i data = Inr (data, i)"
| "erase_fast_loop pred (j # js) i data =
     bind_res (get_elem (data ! j)) (\<lambda>e.
       if pred e then erase_fast_loop pred js i (data[j := Raw])
       else erase_fast_loop pred js (i + 1) (data[i := Live e, j := Raw]))"

text \<open>\<open>SafeCopy\<close>: an element that stays is swapped down.\<close>

fun erase_safe_loop :: "('e \<Rightarrow> bool) \<Rightarrow> nat list \<Rightarrow> nat \<Rightarrow> 'e cell list \<Rightarrow> ('e cell list \<times> nat) res" where
  "erase_safe_loop pred [] i data = Inr (data, i)"
| "erase_safe_loop pred (j # js) i data =
     bind_res (get_elem (data ! j)) (\<lambda>e.
       if \<not> pred e
       then bind_res (get_elem (data ! i)) (\<lambda>e'. erase_safe_loop pred js (i + 1) (data[i := Live e, j := Live e']))
       else erase_safe_loop pred js i data)"

definition erase_if_impl :: "('k, 'e) gh_env \<Rightarrow> 'e gold_hash_tab \<Rightarrow> ('e \<Rightarrow> bool) \<Rightarrow> ('e gold_hash_tab \<times> nat) res" where
  "erase_if_impl env h pred =
     bind_res (if freelist_size h \<noteq> 0 then bind_res (revoke_deleted_no_relink h) (\<lambda>(h, _). Inr h) else Inr h) (\<lambda>h.
       let n = nElem h in
       bind_res (first_match pred (nl_data h) [0..<n]) (\<lambda>r. case r of
         None \<Rightarrow> Inr (h, 0)
       | Some i \<Rightarrow>
           bind_res
             (if fast_copy env
              then erase_fast_loop pred [i + 1..<n] i ((nl_data h)[i := Raw])
              else bind_res (erase_safe_loop pred [i + 1..<n] i (nl_data h)) (\<lambda>(data, i).
                if trivial_dtor env \<or> list_all (\<lambda>j. is_live (data ! j)) [i..<n]
                then Inr (fold (\<lambda>j d. d[j := Raw]) [i..<n] data, i) else Inl Undefined))
             (\<lambda>(data, i).
               let h = h\<lparr>nl_data := data, nElem := LinkTp i\<rparr> in
               if 0 = i then bind_res (destroy env h) (\<lambda>_. Inr (gh_init, n - i))
               else Inr (h, n - i))))"

fun keepid_loop ::
  "('k, 'e) gh_env \<Rightarrow> ('e \<Rightarrow> bool) \<Rightarrow> bool \<Rightarrow> nat list \<Rightarrow> 'e gold_hash_tab \<Rightarrow> nat \<Rightarrow> ('e gold_hash_tab \<times> nat) res" where
  "keepid_loop env pred check [] h erased = Inr (h, erased)"
| "keepid_loop env pred check (i # js) h erased =
     (if check \<and> delmark = nl_link h ! i then keepid_loop env pred check js h erased
      else bind_res (get_elem (nl_data h ! i)) (\<lambda>e.
        if pred e then bind_res (erase_i env h i) (\<lambda>h. keepid_loop env pred check js h (erased + 1))
        else keepid_loop env pred check js h erased))"

definition keepid_erase_if :: "('k, 'e) gh_env \<Rightarrow> 'e gold_hash_tab \<Rightarrow> ('e \<Rightarrow> bool) \<Rightarrow> ('e gold_hash_tab \<times> nat) res" where
  "keepid_erase_if env h pred =
     (let n = nElem h; old_auto_gc = m_enable_auto_gc h; h = h\<lparr>m_enable_auto_gc := False\<rparr> in
      bind_res
        (if 0 = freelist_size h then verify (freelist_head h = tail) (keepid_loop env pred False [0..<n] h 0)
         else verify (freelist_head h < n) (keepid_loop env pred True [0..<n] h 0))
        (\<lambda>(h, erased).
          let h = h\<lparr>m_enable_auto_gc := old_auto_gc\<rparr> in
          if old_auto_gc \<and> freelist_size h > nElem h div 2
          then bind_res (revoke_deleted env h) (\<lambda>(h, _). Inr (h, erased))
          else Inr (h, erased)))"

definition erase_if :: "('k, 'e) gh_env \<Rightarrow> 'e gold_hash_tab \<Rightarrow> ('e \<Rightarrow> bool) \<Rightarrow> ('e gold_hash_tab \<times> nat) res" where
  "erase_if env h pred =
     (if \<not> m_enable_freelist_reuse h then keepid_erase_if env h pred
      else let old_nElem = nElem h in
        bind_res (erase_if_impl env h pred) (\<lambda>(h, nErased).
          bind_res (if nElem h \<noteq> old_nElem then relink env h else Inr h) (\<lambda>h. Inr (h, nErased))))"

text \<open>Unlike in \<open>reserve\<close>, the product is one of two 32 bit numbers and wraps.\<close>

definition shrink_after_erase_if :: "('k, 'e) gh_env \<Rightarrow> 'e gold_hash_tab \<Rightarrow> ('e \<Rightarrow> bool) \<Rightarrow> ('e gold_hash_tab \<times> nat) res" where
  "shrink_after_erase_if env h pred =
     (let old_nBucket = nBucket h; old_nElem = nElem h in
      bind_res (erase_if_impl env h pred) (\<lambda>(h, nErased).
        bind_res
          (if nElem h < maxElem h then
             bind_res (reserve_nodes env h (nElem h)) (\<lambda>h. verify (nElem h \<le> old_nElem)
               (if nElem h \<noteq> old_nElem then
                  if load_factor h = 0 then Inl Undefined
                  else bind_res (rehash env h (LinkTp (nElem h * 256) div load_factor h + 1)) (\<lambda>(h, _).
                    if nBucket h = old_nBucket then relink env h else Inr h)
                else Inr h))
           else Inr h)
          (\<lambda>h. Inr (h, nErased))))"

definition no_shrink_after_erase_if :: "('k, 'e) gh_env \<Rightarrow> 'e gold_hash_tab \<Rightarrow> ('e \<Rightarrow> bool) \<Rightarrow> ('e gold_hash_tab \<times> nat) res" where
  "no_shrink_after_erase_if env h pred =
     bind_res (erase_if_impl env h pred) (\<lambda>(h, nErased). bind_res (relink env h) (\<lambda>h. Inr (h, nErased)))"

section \<open>Sorting\<close>

text \<open>\<open>srt\<close> is the library's sort with the given comparison, on the elements in slot order.\<close>

fun get_elems :: "'e cell list \<Rightarrow> 'e list res" where
  "get_elems [] = Inr []"
| "get_elems (c # cs) = bind_res (get_elem c) (\<lambda>e. bind_res (get_elems cs) (\<lambda>es. Inr (e # es)))"

definition risk_sort_no_rebuild_hash :: "('e list \<Rightarrow> 'e list) \<Rightarrow> 'e gold_hash_tab \<Rightarrow> 'e gold_hash_tab res" where
  "risk_sort_no_rebuild_hash srt h =
     bind_res (if freelist_size h \<noteq> 0 then bind_res (revoke_deleted_no_relink h) (\<lambda>(h, _). Inr h) else Inr h) (\<lambda>h.
       bind_res (get_elems (take (nElem h) (nl_data h))) (\<lambda>es.
         Inr (h\<lparr>nl_data := map Live (srt es) @ drop (nElem h) (nl_data h)\<rparr>)))"

definition gh_sort :: "('k, 'e) gh_env \<Rightarrow> ('e list \<Rightarrow> 'e list) \<Rightarrow> 'e gold_hash_tab \<Rightarrow> 'e gold_hash_tab res" where
  "gh_sort env srt h =
     bind_res (if freelist_size h \<noteq> 0 then bind_res (revoke_deleted_no_relink h) (\<lambda>(h, _). Inr h) else Inr h) (\<lambda>h.
       bind_res (get_elems (take (nElem h) (nl_data h))) (\<lambda>es.
         bind_res (relink env (h\<lparr>nl_data := map Live (srt es) @ drop (nElem h) (nl_data h)\<rparr>)) (\<lambda>h.
           Inr (h\<lparr>is_sorted := True\<rparr>))))"

section \<open>Comparison\<close>

fun equal_loop ::
  "('k, 'e) gh_env \<Rightarrow> ('e \<Rightarrow> 'e \<Rightarrow> bool) \<Rightarrow> 'e gold_hash_tab \<Rightarrow> 'e gold_hash_tab \<Rightarrow> nat list \<Rightarrow> bool res" where
  "equal_loop env elem_eq x y [] = Inr True"
| "equal_loop env elem_eq x y (i # js) =
     (if nl_link x ! i = delmark then equal_loop env elem_eq x y js
      else bind_res (get_elem (nl_data x ! i)) (\<lambda>ex.
        bind_res (find_i env y (key_of env ex)) (\<lambda>j.
          if j = end_i y then Inr False
          else bind_res (get_elem (nl_data y ! j)) (\<lambda>ey.
            if \<not> elem_eq ex ey then Inr False else equal_loop env elem_eq x y js))))"

text \<open>\<open>elem_eq\<close> compares the parts of two elements that are not the key; for a set it is always true.\<close>

definition gh_equal :: "('k, 'e) gh_env \<Rightarrow> ('e \<Rightarrow> 'e \<Rightarrow> bool) \<Rightarrow> 'e gold_hash_tab \<Rightarrow> 'e gold_hash_tab \<Rightarrow> bool res" where
  "gh_equal env elem_eq x y =
     (if gh_size x \<noteq> gh_size y then Inr False else equal_loop env elem_eq x y [0..<end_i x])"

section \<open>Serialisation\<close>

text \<open>A stream is the count and the elements after it.\<close>

definition dio_save :: "'e gold_hash_tab \<Rightarrow> (nat \<times> 'e list) res" where
  "dio_save h = bind_res (for_each h) (\<lambda>es. Inr (gh_size h, es))"

definition dio_load :: "('k, 'e) gh_env \<Rightarrow> 'e gold_hash_tab \<Rightarrow> nat \<times> 'e list \<Rightarrow> 'e gold_hash_tab res" where
  "dio_load env h s =
     (case s of (Size, es) \<Rightarrow>
       bind_res (gh_clear env h) (\<lambda>h. bind_res (reserve env h Size) (\<lambda>h.
         if length es < Size then Inl Data_format
         else relink env (h\<lparr>nl_data := map Live (take Size es) @ drop Size (nl_data h), nElem := LinkTp Size\<rparr>))))"

definition dio_save_fast :: "'e gold_hash_tab \<Rightarrow> (nat \<times> nat \<times> 'e list) res" where
  "dio_save_fast h = bind_res (get_elems (take (nElem h) (nl_data h))) (\<lambda>es. Inr (nElem h, load_factor h, es))"

definition dio_load_fast :: "('k, 'e) gh_env \<Rightarrow> 'e gold_hash_tab \<Rightarrow> nat \<times> nat \<times> 'e list \<Rightarrow> 'e gold_hash_tab res" where
  "dio_load_fast env h s =
     (case s of (Size, lf, es) \<Rightarrow>
       bind_res (gh_clear env h) (\<lambda>h.
         let h = h\<lparr>load_factor := lf\<rparr> in
         if 0 = Size then Inr h
         else bind_res (nl_reserve env h 0 Size) (\<lambda>h.
           if length es < Size then Inl Data_format
           else let h = h\<lparr>nl_data := map Live (take Size es), nElem := LinkTp Size, maxElem := LinkTp Size, maxload := LinkTp Size\<rparr> in
             if load_factor h = 0 then Inl Undefined
             else bind_res (rehash env h (maxElem h div load_factor h)) (\<lambda>(h, _). Inr h))))"

section \<open>gold_hash_map\<close>

text \<open>The table with pairs for elements and their first component for the key.\<close>

definition map_env :: "('k, 'k \<times> 'v) gh_env \<Rightarrow> ('k, 'k \<times> 'v) gh_env" where
  "map_env env = env\<lparr>key_of := fst\<rparr>"

definition map_insert_i :: "('k, 'k \<times> 'v) gh_env \<Rightarrow> ('k \<times> 'v) gold_hash_tab \<Rightarrow> 'k \<Rightarrow> 'v \<Rightarrow> (('k \<times> 'v) gold_hash_tab \<times> nat \<times> bool) res" where
  "map_insert_i env h k v = insert_i (map_env env) h (k, v)"

definition lazy_insert_i :: "('k, 'k \<times> 'v) gh_env \<Rightarrow> ('k \<times> 'v) gold_hash_tab \<Rightarrow> 'k \<Rightarrow> 'v \<Rightarrow> (('k \<times> 'v) gold_hash_tab \<times> nat \<times> bool) res" where
  "lazy_insert_i env h k cons_value = lazy_insert_elem_i (map_env env) h k (k, cons_value)"

definition set_value :: "('k \<times> 'v) gold_hash_tab \<Rightarrow> nat \<Rightarrow> 'v \<Rightarrow> ('k \<times> 'v) gold_hash_tab res" where
  "set_value h i v = bind_res (elem_at h i) (\<lambda>(k, _). Inr (h\<lparr>nl_data := (nl_data h)[i := Live (k, v)]\<rparr>))"

definition insert_or_assign :: "('k, 'k \<times> 'v) gh_env \<Rightarrow> ('k \<times> 'v) gold_hash_tab \<Rightarrow> 'k \<Rightarrow> 'v \<Rightarrow> (('k \<times> 'v) gold_hash_tab \<times> nat \<times> bool) res" where
  "insert_or_assign env h k v =
     bind_res (lazy_insert_elem_i (map_env env) h k (k, v)) (\<lambda>(h, i, fresh_key).
       if \<not> fresh_key then bind_res (set_value h i v) (\<lambda>h. Inr (h, i, fresh_key)) else Inr (h, i, fresh_key))"

text \<open>\<open>operator[]\<close>: the table and the slot whose value the reference is; \<open>dflt\<close> is the value constructed by default.\<close>

definition map_index :: "('k, 'k \<times> 'v) gh_env \<Rightarrow> 'v \<Rightarrow> ('k \<times> 'v) gold_hash_tab \<Rightarrow> 'k \<Rightarrow> (('k \<times> 'v) gold_hash_tab \<times> nat) res" where
  "map_index env dflt h k = bind_res (lazy_insert_i env h k dflt) (\<lambda>(h, i, _). Inr (h, i))"

definition map_at :: "('k, 'k \<times> 'v) gh_env \<Rightarrow> ('k \<times> 'v) gold_hash_tab \<Rightarrow> 'k \<Rightarrow> 'v res" where
  "map_at env h k =
     bind_res (find_i (map_env env) h k) (\<lambda>idx.
       if end_i h \<noteq> idx then bind_res (get_elem (nl_data h ! idx)) (\<lambda>e. Inr (snd e)) else Inl Out_of_range)"

definition map_val :: "('k \<times> 'v) gold_hash_tab \<Rightarrow> nat \<Rightarrow> 'v res" where
  "map_val h idx =
     verify (idx < nElem h) (verify (delmark \<noteq> nl_link h ! idx) (bind_res (get_elem (nl_data h ! idx)) (\<lambda>e. Inr (snd e))))"

definition map_erase_get :: "('k, 'k \<times> 'v) gh_env \<Rightarrow> ('k \<times> 'v) gold_hash_tab \<Rightarrow> 'k \<Rightarrow> (('k \<times> 'v) gold_hash_tab \<times> nat \<times> 'v option) res" where
  "map_erase_get env h k =
     bind_res (gh_erase_get (map_env env) h k) (\<lambda>(h, n, e). Inr (h, n, map_option snd e))"

definition map_equal :: "('k, 'k \<times> 'v) gh_env \<Rightarrow> ('k \<times> 'v) gold_hash_tab \<Rightarrow> ('k \<times> 'v) gold_hash_tab \<Rightarrow> bool res" where
  "map_equal env x y = gh_equal (map_env env) (\<lambda>ex ey. snd ex = snd ey) x y"

end
