(* ===== verification/Gold_Hash_Inv.thy ===== *)
theory Gold_Hash_Inv
  imports Gold_Hash_Ops
begin

text \<open>
  Collision lists, the freelist and the invariant of \<open>gold_hash_tab\<close>; what linking, rehashing, reserving and
  compaction do with it.
\<close>

section \<open>Collision lists\<close>

primrec chain :: "nat list \<Rightarrow> nat \<Rightarrow> nat list \<Rightarrow> bool" where
  "chain L p [] \<longleftrightarrow> p = tail"
| "chain L p (x # xs) \<longleftrightarrow> p = x \<and> x < length L \<and> chain L (L ! x) xs"

lemma chain_cong:
  "\<forall>x\<in>set xs. x < length L' \<and> L' ! x = L ! x \<Longrightarrow> chain L p xs \<Longrightarrow> chain L' p xs"
  by (induction xs arbitrary: p) auto

lemma chain_update: "x \<notin> set xs \<Longrightarrow> chain L p xs \<Longrightarrow> chain (L[x := v]) p xs"
  by (induction xs arbitrary: p) (auto simp: nth_list_update)

lemma chain_append: "chain L p (xs @ q # ys) \<Longrightarrow> q < length L \<and> chain L (L ! q) ys"
  by (induction xs arbitrary: p) auto

lemma chain_set: "chain L p xs \<Longrightarrow> set xs \<subseteq> {..<length L}"
  by (induction xs arbitrary: p) auto

lemma chain_unlink:
  assumes "chain L p (ys @ q # zs)" and "distinct (ys @ q # zs)" and "ys \<noteq> []"
  shows "chain (L[last ys := L ! q]) p (ys @ zs)"
  using assms
proof (induction ys arbitrary: p)
  case (Cons y ys)
  show ?case
  proof (cases "ys = []")
    case True
    with Cons.prems have "chain L (L ! q) zs" "y \<notin> set zs" "y < length L" "p = y" by auto
    with True show ?thesis by (simp add: chain_update)
  next
    case False
    moreover from False have "last ys \<noteq> y" using Cons.prems(2) last_in_set [OF False] by auto
    ultimately show ?thesis using Cons by (auto simp: nth_list_update)
  qed
qed simp

text \<open>Every link of a list leads to the list or ends it.\<close>

lemma chain_next: "chain L p xs \<Longrightarrow> x \<in> set xs \<Longrightarrow> L ! x = tail \<or> L ! x < length L"
proof (induction xs arbitrary: p)
  case (Cons y ys)
  then show ?case by (cases ys) auto
qed simp

section \<open>The index\<close>

text \<open>
  Each bucket heads a list without repetition of exactly those slots of \<open>S\<close> whose hash it is; \<open>hs\<close> is the
  hash of the element of a slot.
\<close>

definition index_ok :: "(nat \<Rightarrow> nat) \<Rightarrow> nat set \<Rightarrow> nat list \<Rightarrow> nat list \<Rightarrow> bool" where
  "index_ok hs S L B \<longleftrightarrow>
     (\<forall>i<length B. \<exists>xs. chain L (B ! i) xs \<and> distinct xs \<and> set xs = {p \<in> S. hs p mod length B = i})"

lemma index_okD:
  "index_ok hs S L B \<Longrightarrow> i < length B \<Longrightarrow>
    \<exists>xs. chain L (B ! i) xs \<and> distinct xs \<and> set xs = {p \<in> S. hs p mod length B = i}"
  by (simp add: index_ok_def)

lemma index_ok_cong:
  assumes "index_ok hs S L B" and "\<forall>x\<in>S. x < length L' \<and> L' ! x = L ! x \<and> hs' x = hs x"
  shows "index_ok hs' S L' B"
  unfolding index_ok_def
proof (intro allI impI)
  fix i
  assume "i < length B"
  with assms(1) obtain xs where xs: "chain L (B ! i) xs" "distinct xs" "set xs = {p \<in> S. hs p mod length B = i}"
    using index_okD by blast
  moreover from xs(3) assms(2) have "chain L' (B ! i) xs" by (intro chain_cong [OF _ xs(1)]) auto
  moreover from assms(2) have "{p \<in> S. hs p mod length B = i} = {p \<in> S. hs' p mod length B = i}" by auto
  ultimately show "\<exists>xs. chain L' (B ! i) xs \<and> distinct xs \<and> set xs = {p \<in> S. hs' p mod length B = i}" by auto
qed

lemma index_ok_empty: "index_ok hs {} L (replicate n tail)"
  by (auto simp: index_ok_def intro: exI [of _ "[]"])

lemma index_ok_bound:
  assumes "index_ok hs S L B" and "x \<in> S" and "0 < length B"
  shows "x < length L \<and> (L ! x = tail \<or> L ! x < length L)"
proof -
  obtain xs where xs: "chain L (B ! (hs x mod length B)) xs" "set xs = {p \<in> S. hs p mod length B = hs x mod length B}"
    using index_okD [OF assms(1), of "hs x mod length B"] assms(3) by auto
  from xs(2) assms(2) have "x \<in> set xs" by auto
  with chain_set [OF xs(1)] chain_next [OF xs(1)] show ?thesis by blast
qed

lemma index_ok_head: "index_ok hs S L B \<Longrightarrow> i < length B \<Longrightarrow> B ! i = tail \<or> B ! i < length L"
  using index_okD [of hs S L B i] by (metis chain.simps list.exhaust)

lemma index_ok_push:
  assumes "index_ok hs S L B" and "j \<notin> S" and "j < length L" and "0 < length B"
    and i: "i = hs j mod length B"
  shows "index_ok hs (insert j S) (L[j := B ! i]) (B[i := j])"
  unfolding index_ok_def
proof (intro allI impI)
  fix i'
  assume "i' < length (B[i := j])"
  then have i': "i' < length B" by simp
  with assms(1) obtain xs where xs: "chain L (B ! i') xs" "distinct xs" "set xs = {p \<in> S. hs p mod length B = i'}"
    using index_okD by blast
  have c: "chain (L[j := B ! i]) (B ! i') xs" using xs(1,3) assms(2) by (simp add: chain_update)
  show "\<exists>xs. chain (L[j := B ! i]) (B[i := j] ! i') xs \<and> distinct xs \<and>
      set xs = {p \<in> insert j S. hs p mod length (B[i := j]) = i'}"
  proof (cases "i' = i")
    case True
    with c xs assms i' show ?thesis by (intro exI [of _ "j # xs"]) auto
  next
    case False
    with c xs i show ?thesis by (intro exI [of _ xs]) auto
  qed
qed

text \<open>Taking a slot out of the list of its bucket: the link before it is the bucket or that of its predecessor.\<close>

lemma index_ok_unlink:
  assumes ok: "index_ok hs S L B" and i: "i < length B"
    and c: "chain L (B ! i) (ys @ q # zs)" and d: "distinct (ys @ q # zs)"
    and s: "set (ys @ q # zs) = {p \<in> S. hs p mod length B = i}"
  shows "if ys = [] then index_ok hs (S - {q}) L (B[i := L ! q]) else index_ok hs (S - {q}) (L[last ys := L ! q]) B"
proof (cases "ys = []")
  case True
  have "\<exists>xs. chain L (B[i := L ! q] ! i') xs \<and> distinct xs \<and> set xs = {p \<in> S - {q}. hs p mod length B = i'}"
    if i': "i' < length B" for i'
  proof (cases "i' = i")
    case T: True
    have "chain L (L ! q) zs" using c True by simp
    moreover have "set zs = {p \<in> S - {q}. hs p mod length B = i}" using s d True by auto
    ultimately show ?thesis using T i d True by (intro exI [of _ zs]) auto
  next
    case False
    obtain xs where xs: "chain L (B ! i') xs" "distinct xs" "set xs = {p \<in> S. hs p mod length B = i'}"
      using index_okD [OF ok i'] by blast
    moreover have "{p \<in> S. hs p mod length B = i'} = {p \<in> S - {q}. hs p mod length B = i'}"
      using s False by auto
    ultimately show ?thesis using False by (intro exI [of _ xs]) auto
  qed
  with True show ?thesis by (simp add: index_ok_def)
next
  case False
  then have "last ys \<in> set (ys @ q # zs)" by simp
  then have l: "hs (last ys) mod length B = i" unfolding s by blast
  have "\<exists>xs. chain (L[last ys := L ! q]) (B ! i') xs \<and> distinct xs \<and> set xs = {p \<in> S - {q}. hs p mod length B = i'}"
    if i': "i' < length B" for i'
  proof (cases "i' = i")
    case True
    have "set (ys @ zs) = set (ys @ q # zs) - {q}" using d by auto
    also have "\<dots> = {p \<in> S - {q}. hs p mod length B = i}" unfolding s by auto
    finally have "set (ys @ zs) = {p \<in> S - {q}. hs p mod length B = i'}" using True by simp
    moreover have "distinct (ys @ zs)" using d by simp
    ultimately show ?thesis using chain_unlink [OF c d False] True by blast
  next
    case N: False
    obtain xs where xs: "chain L (B ! i') xs" "distinct xs" "set xs = {p \<in> S. hs p mod length B = i'}"
      using index_okD [OF ok i'] by blast
    moreover have "chain (L[last ys := L ! q]) (B ! i') xs" using xs(1,3) l N by (intro chain_update) auto
    moreover have "{p \<in> S. hs p mod length B = i'} = {p \<in> S - {q}. hs p mod length B = i'}" using s N by auto
    ultimately show ?thesis by (intro exI [of _ xs]) auto
  qed
  with False show ?thesis by (simp add: index_ok_def)
qed

section \<open>Linking all slots\<close>

fun elem_of :: "'e cell \<Rightarrow> 'e" where
  "elem_of (Live e) = e"
| "elem_of Raw = undefined"
| "elem_of (Salt n) = undefined"

lemma get_elem_live: "is_live c \<Longrightarrow> get_elem c = Inr (elem_of c)"
  by (cases c) auto

lemma get_elem_Inr: "get_elem c = Inr e \<longleftrightarrow> c = Live e"
  by (cases c) auto

lemma is_live_iff: "is_live c \<longleftrightarrow> c = Live (elem_of c)"
  by (cases c) auto

lemma relink_loop_index:
  assumes "index_ok hs S L B" and "set js \<inter> S = {}" and "distinct js" and "set js \<subseteq> {..<length L}" and "0 < length B"
    and "\<forall>j\<in>set js. all \<or> delmark \<noteq> L ! j \<longrightarrow> is_live (data ! j) \<and> hs j = hash_fn env (key_of env (elem_of (data ! j)))"
  shows "\<exists>L' B'. relink_loop env data (length B) all js L B = Inr (L', B') \<and> length L' = length L \<and> length B' = length B \<and>
      index_ok hs (S \<union> {j \<in> set js. all \<or> delmark \<noteq> L ! j}) L' B' \<and>
      (\<forall>x. x \<notin> {j \<in> set js. all \<or> delmark \<noteq> L ! j} \<longrightarrow> L' ! x = L ! x)"
  using assms
proof (induction js arbitrary: S L B)
  case (Cons j js)
  show ?case
  proof (cases "all \<or> delmark \<noteq> L ! j")
    case True
    define i where "i = hs j mod length B"
    have live: "is_live (data ! j)" "hs j = hash_fn env (key_of env (elem_of (data ! j)))"
      using Cons.prems(6) True by auto
    have push: "index_ok hs (insert j S) (L[j := B ! i]) (B[i := j])"
      using Cons.prems i_def by (intro index_ok_push) auto
    have same: "L[j := B ! i] ! x = L ! x" if "x \<in> set js" for x
      using that Cons.prems(3) by (cases "x = j") auto
    have sel: "{x \<in> set js. all \<or> delmark \<noteq> L[j := B ! i] ! x} = {x \<in> set js. all \<or> delmark \<noteq> L ! x}"
      using same by auto
    obtain L' B' where r: "relink_loop env data (length B) all js (L[j := B ! i]) (B[i := j]) = Inr (L', B')"
        "length L' = length L" "length B' = length B"
        "index_ok hs (insert j S \<union> {x \<in> set js. all \<or> delmark \<noteq> L ! x}) L' B'"
        "\<forall>x. x \<notin> {x \<in> set js. all \<or> delmark \<noteq> L ! x} \<longrightarrow> L' ! x = L[j := B ! i] ! x"
      using Cons.IH [OF push] Cons.prems same unfolding sel by (auto simp: same)
    have "relink_loop env data (length B) all (j # js) L B = Inr (L', B')"
      using True r(1) live by (simp add: get_elem_live i_def Let_def)
    moreover have "insert j S \<union> {x \<in> set js. all \<or> delmark \<noteq> L ! x} = S \<union> {x \<in> set (j # js). all \<or> delmark \<noteq> L ! x}"
      using True by auto
    moreover have "\<forall>x. x \<notin> {x \<in> set (j # js). all \<or> delmark \<noteq> L ! x} \<longrightarrow> L' ! x = L ! x"
    proof (intro allI impI)
      fix x
      assume x: "x \<notin> {x \<in> set (j # js). all \<or> delmark \<noteq> L ! x}"
      with True have "x \<noteq> j" by auto
      with x r(5) show "L' ! x = L ! x" by auto
    qed
    ultimately show ?thesis using r(2-4) by auto
  next
    case False
    then have "{x \<in> set (j # js). all \<or> delmark \<noteq> L ! x} = {x \<in> set js. all \<or> delmark \<noteq> L ! x}" by auto
    then show ?thesis using Cons.IH [of S L B] Cons.prems False by auto
  qed
qed auto

section \<open>The invariant\<close>

primrec fchain :: "'e cell list \<Rightarrow> nat \<Rightarrow> nat list \<Rightarrow> bool" where
  "fchain data p [] \<longleftrightarrow> p = tail"
| "fchain data p (x # xs) \<longleftrightarrow> p = x \<and> x < length data \<and> (\<exists>nx. data ! x = Salt nx \<and> fchain data nx xs)"

definition used :: "'e gold_hash_tab \<Rightarrow> nat set" where
  "used h = {p. p < nElem h \<and> nl_link h ! p \<noteq> delmark}"

definition deleted :: "'e gold_hash_tab \<Rightarrow> nat set" where
  "deleted h = {p. p < nElem h \<and> nl_link h ! p = delmark}"

definition key_at :: "('k, 'e) gh_env \<Rightarrow> 'e gold_hash_tab \<Rightarrow> nat \<Rightarrow> 'k" where
  "key_at env h p = key_of env (elem_of (nl_data h ! p))"

definition hash_at :: "('k, 'e) gh_env \<Rightarrow> 'e gold_hash_tab \<Rightarrow> nat \<Rightarrow> nat" where
  "hash_at env h p = hash_fn env (key_at env h p)"

text \<open>The freelist runs through exactly the deleted slots.\<close>

definition free_ok :: "'e gold_hash_tab \<Rightarrow> bool" where
  "free_ok h \<longleftrightarrow> (\<exists>fl. fchain (nl_data h) (freelist_head h) fl \<and> distinct fl \<and> set fl = deleted h \<and> length fl = freelist_size h)"

definition sizes_ok :: "'e gold_hash_tab \<Rightarrow> bool" where
  "sizes_ok h \<longleftrightarrow> length (nl_data h) = maxElem h \<and> length (nl_link h) = maxElem h \<and> nElem h \<le> maxElem h \<and>
     maxElem h \<le> delmark \<and> 10 \<le> load_factor h \<and> load_factor h \<le> 255"

definition node_inv :: "('k, 'e) gh_env \<Rightarrow> 'e gold_hash_tab \<Rightarrow> bool" where
  "node_inv env h \<longleftrightarrow> sizes_ok h \<and> (\<forall>p\<in>used h. is_live (nl_data h ! p)) \<and> inj_on (key_at env h) (used h) \<and> free_ok h"

text \<open>Before the first insertion there is one bucket and nothing may be stored in it.\<close>

definition bucket_inv :: "'e gold_hash_tab \<Rightarrow> bool" where
  "bucket_inv h \<longleftrightarrow> length (bucket h) = nBucket h \<and>
     (nBucket h = 1 \<and> bucket h = [tail] \<and> nElem h = 0 \<and> maxload h = 0 \<or> 5 \<le> nBucket h)"

definition gh_inv :: "('k, 'e) gh_env \<Rightarrow> 'e gold_hash_tab \<Rightarrow> bool" where
  "gh_inv env h \<longleftrightarrow> node_inv env h \<and> bucket_inv h \<and> index_ok (hash_at env h) (used h) (nl_link h) (bucket h)"

text \<open>The element of each slot in use.\<close>

definition slot_map :: "'e gold_hash_tab \<Rightarrow> nat \<rightharpoonup> 'e" where
  "slot_map h p = (if p < nElem h \<and> nl_link h ! p \<noteq> delmark then Some (elem_of (nl_data h ! p)) else None)"

text \<open>The elements in slot order, and the map from keys to elements that the table stands for.\<close>

definition live_elems :: "'e gold_hash_tab \<Rightarrow> 'e list" where
  "live_elems h = map (\<lambda>p. elem_of (nl_data h ! p)) (filter (\<lambda>p. nl_link h ! p \<noteq> delmark) [0..<nElem h])"

definition table_map :: "('k, 'e) gh_env \<Rightarrow> 'e gold_hash_tab \<Rightarrow> 'k \<rightharpoonup> 'e" where
  "table_map env h = map_of (map (\<lambda>e. (key_of env e, e)) (live_elems h))"

lemma abs_update [simp]:
  "used (h\<lparr>bucket := B\<rparr>) = used h" "used (h\<lparr>nBucket := n\<rparr>) = used h" "used (h\<lparr>maxload := n\<rparr>) = used h"
  "used (h\<lparr>is_sorted := b\<rparr>) = used h" "used (h\<lparr>load_factor := n\<rparr>) = used h" "used (h\<lparr>maxElem := n\<rparr>) = used h"
  "used (h\<lparr>m_enable_auto_gc := b\<rparr>) = used h" "used (h\<lparr>m_enable_freelist_reuse := b\<rparr>) = used h"
  "used (h\<lparr>nl_data := d\<rparr>) = used h" "used (h\<lparr>freelist_head := n\<rparr>) = used h" "used (h\<lparr>freelist_size := n\<rparr>) = used h"
  by (simp_all add: used_def)

lemma key_at_update [simp]:
  "key_at env (h\<lparr>bucket := B\<rparr>) = key_at env h" "key_at env (h\<lparr>nBucket := n\<rparr>) = key_at env h"
  "key_at env (h\<lparr>maxload := n\<rparr>) = key_at env h" "key_at env (h\<lparr>is_sorted := b\<rparr>) = key_at env h"
  "key_at env (h\<lparr>nl_link := L\<rparr>) = key_at env h" "key_at env (h\<lparr>load_factor := n\<rparr>) = key_at env h"
  "key_at env (h\<lparr>m_enable_auto_gc := b\<rparr>) = key_at env h" "key_at env (h\<lparr>m_enable_freelist_reuse := b\<rparr>) = key_at env h"
  "key_at env (h\<lparr>freelist_head := n\<rparr>) = key_at env h" "key_at env (h\<lparr>freelist_size := n\<rparr>) = key_at env h"
  "key_at env (h\<lparr>nElem := n\<rparr>) = key_at env h" "key_at env (h\<lparr>maxElem := n\<rparr>) = key_at env h"
  by (simp_all add: key_at_def fun_eq_iff)

lemma hash_at_cong: "key_at env h' = key_at env h \<Longrightarrow> hash_at env h' = hash_at env h"
  by (simp add: hash_at_def fun_eq_iff)

lemma hash_at_update [simp]:
  "hash_at env (h\<lparr>bucket := B\<rparr>) = hash_at env h" "hash_at env (h\<lparr>nBucket := n\<rparr>) = hash_at env h"
  "hash_at env (h\<lparr>maxload := n\<rparr>) = hash_at env h" "hash_at env (h\<lparr>is_sorted := b\<rparr>) = hash_at env h"
  "hash_at env (h\<lparr>nl_link := L\<rparr>) = hash_at env h" "hash_at env (h\<lparr>load_factor := n\<rparr>) = hash_at env h"
  "hash_at env (h\<lparr>m_enable_auto_gc := b\<rparr>) = hash_at env h" "hash_at env (h\<lparr>m_enable_freelist_reuse := b\<rparr>) = hash_at env h"
  "hash_at env (h\<lparr>freelist_head := n\<rparr>) = hash_at env h" "hash_at env (h\<lparr>freelist_size := n\<rparr>) = hash_at env h"
  "hash_at env (h\<lparr>nElem := n\<rparr>) = hash_at env h" "hash_at env (h\<lparr>maxElem := n\<rparr>) = hash_at env h"
  by (rule hash_at_cong, simp)+

lemma delmark_less_tail [simp]: "delmark < tail" "delmark \<noteq> tail" "tail \<noteq> delmark"
  by (simp_all add: delmark_def tail_def)

lemma delmark_less_wrap: "n \<le> delmark \<Longrightarrow> LinkTp n = n"
  by (simp add: LinkTp_def delmark_def tail_def)

lemma dom_slot_map [simp]: "dom (slot_map h) = used h"
  by (auto simp: slot_map_def used_def split: if_splits)

lemma finite_used [simp]: "finite (used h)"
  by (simp add: used_def)

lemma used_less: "p \<in> used h \<Longrightarrow> p < nElem h"
  by (simp add: used_def)

lemma slot_map_used: "p \<in> used h \<Longrightarrow> slot_map h p = Some (elem_of (nl_data h ! p))"
  by (simp add: slot_map_def used_def)

lemma set_live_elems: "set (live_elems h) = ran (slot_map h)"
  by (auto simp: live_elems_def ran_def slot_map_def split: if_splits)

lemma used_Un_deleted: "used h \<union> deleted h = {..<nElem h}" "used h \<inter> deleted h = {}"
  by (auto simp: used_def deleted_def)

lemma free_ok_card: "free_ok h \<Longrightarrow> card (deleted h) = freelist_size h"
  unfolding free_ok_def by (metis distinct_card)

lemma card_used:
  assumes "free_ok h"
  shows "card (used h) = nElem h - freelist_size h" and "freelist_size h \<le> nElem h"
proof -
  have "card (used h \<union> deleted h) = card (used h) + card (deleted h)"
    by (rule card_Un_disjoint) (auto simp: used_def deleted_def)
  with used_Un_deleted(1) [of h] free_ok_card [OF assms]
  show "card (used h) = nElem h - freelist_size h" "freelist_size h \<le> nElem h" by auto
qed

lemma free_ok_none: "free_ok h \<Longrightarrow> freelist_size h = 0 \<longleftrightarrow> deleted h = {}"
  using free_ok_card [of h] by (metis card_0_eq card.empty finite_Collect_conjI finite_Collect_less_nat deleted_def)

lemma free_ok_head: "free_ok h \<Longrightarrow> freelist_size h = 0 \<Longrightarrow> freelist_head h = tail"
  unfolding free_ok_def by auto

lemma free_ok_head_less:
  "free_ok h \<Longrightarrow> freelist_size h \<noteq> 0 \<Longrightarrow> freelist_head h < nElem h \<and> nl_link h ! freelist_head h = delmark"
proof -
  assume "free_ok h" "freelist_size h \<noteq> 0"
  then obtain x xs where "fchain (nl_data h) (freelist_head h) (x # xs)" "set (x # xs) = deleted h"
    unfolding free_ok_def by (metis length_0_conv neq_Nil_conv)
  then show ?thesis by (auto simp: deleted_def)
qed

text \<open>The map of a table with distinct keys, by its slots.\<close>

lemma distinct_keys:
  assumes "inj_on (key_at env h) (used h)"
  shows "distinct (map (key_of env) (live_elems h))"
proof -
  have "inj_on (key_at env h) (set (filter (\<lambda>p. nl_link h ! p \<noteq> delmark) [0..<nElem h]))"
    using assms by (simp add: used_def)
  then have "distinct (map (key_at env h) (filter (\<lambda>p. nl_link h ! p \<noteq> delmark) [0..<nElem h]))"
    by (simp add: distinct_map)
  then show ?thesis by (simp add: live_elems_def key_at_def [abs_def] comp_def)
qed

lemma table_map_iff:
  assumes "inj_on (key_at env h) (used h)"
  shows "table_map env h k = Some e \<longleftrightarrow> key_of env e = k \<and> e \<in> ran (slot_map h)"
proof -
  have "distinct (map fst (map (\<lambda>e. (key_of env e, e)) (live_elems h)))"
    using distinct_keys [OF assms] by (simp add: comp_def)
  then have "table_map env h k = Some e \<longleftrightarrow> (k, e) \<in> set (map (\<lambda>e. (key_of env e, e)) (live_elems h))"
    unfolding table_map_def by (rule map_of_eq_Some_iff)
  then show ?thesis by (auto simp: set_live_elems)
qed

lemma table_map_None: "table_map env h k = None \<longleftrightarrow> k \<notin> key_of env ` ran (slot_map h)"
  by (auto simp: table_map_def map_of_eq_None_iff set_live_elems image_image)

lemma table_map_at:
  assumes "inj_on (key_at env h) (used h)" and "p \<in> used h"
  shows "table_map env h (key_at env h p) = Some (elem_of (nl_data h ! p))"
  using assms by (auto simp: table_map_iff key_at_def ran_def intro: slot_map_used)

lemma length_live_elems: "length (live_elems h) = card (used h)"
proof -
  have "length (live_elems h) = length (filter (\<lambda>p. nl_link h ! p \<noteq> delmark) [0..<nElem h])"
    by (simp add: live_elems_def)
  also have "\<dots> = card (used h)"
    by (subst distinct_card [symmetric]) (auto simp: used_def intro!: arg_cong [of _ _ card])
  finally show ?thesis .
qed

lemma card_table_map:
  assumes "inj_on (key_at env h) (used h)"
  shows "card (dom (table_map env h)) = card (used h)"
proof -
  have "dom (table_map env h) = set (map (key_of env) (live_elems h))"
    by (simp add: table_map_def dom_map_of_conv_image_fst image_image)
  then show ?thesis using distinct_card [OF distinct_keys [OF assms]] by (simp add: length_live_elems)
qed

section \<open>Linking and rehashing\<close>

text \<open>What operations on the index or the capacity leave as it is.\<close>

definition same_nodes :: "'e gold_hash_tab \<Rightarrow> 'e gold_hash_tab \<Rightarrow> bool" where
  "same_nodes h h' \<longleftrightarrow> nElem h' = nElem h \<and> used h' = used h \<and> (\<forall>p<nElem h. nl_data h' ! p = nl_data h ! p) \<and>
     freelist_head h' = freelist_head h \<and> freelist_size h' = freelist_size h \<and>
     load_factor h' = load_factor h \<and> m_enable_auto_gc h' = m_enable_auto_gc h \<and>
     m_enable_freelist_reuse h' = m_enable_freelist_reuse h"

lemma same_nodes_refl [simp]: "same_nodes h h"
  by (simp add: same_nodes_def)

lemma same_nodes_trans: "same_nodes h h' \<Longrightarrow> same_nodes h' h'' \<Longrightarrow> same_nodes h h''"
  by (simp add: same_nodes_def)

lemma same_nodes_data: "same_nodes h h' \<Longrightarrow> p \<in> used h \<Longrightarrow> nl_data h' ! p = nl_data h ! p"
  by (simp add: same_nodes_def used_def)

lemma same_nodes_used: "same_nodes h h' \<Longrightarrow> used h' = used h"
  by (simp add: same_nodes_def)

lemma deleted_by_used: "deleted h = {..<nElem h} - used h"
  by (auto simp: used_def deleted_def)

lemma same_nodes_deleted: "same_nodes h h' \<Longrightarrow> deleted h' = deleted h"
  by (simp add: deleted_by_used same_nodes_def)

lemma slot_map_by_used: "slot_map h p = (if p \<in> used h then Some (elem_of (nl_data h ! p)) else None)"
  by (simp add: slot_map_def used_def)

lemma live_elems_by_used: "live_elems h = map (\<lambda>p. elem_of (nl_data h ! p)) (filter (\<lambda>p. p \<in> used h) [0..<nElem h])"
  unfolding live_elems_def by (rule arg_cong, rule filter_cong) (auto simp: used_def)

lemma fchain_cong:
  "\<forall>x\<in>set xs. x < length data' \<and> data' ! x = data ! x \<Longrightarrow> fchain data p xs \<Longrightarrow> fchain data' p xs"
  by (induction xs arbitrary: p) auto

lemma same_nodes_facts:
  assumes "same_nodes h h'"
  shows "slot_map h' = slot_map h" and "live_elems h' = live_elems h" and "table_map env h' = table_map env h"
    and "gh_size h' = gh_size h" and "\<forall>p\<in>used h. key_at env h' p = key_at env h p" 
    and "\<forall>p\<in>used h. hash_at env h' p = hash_at env h p"
proof -
  show l: "live_elems h' = live_elems h" using assms by (auto simp: same_nodes_def live_elems_by_used)
  show "slot_map h' = slot_map h"
    by (simp add: slot_map_by_used fun_eq_iff same_nodes_used [OF assms] same_nodes_data [OF assms])
  show "table_map env h' = table_map env h" by (simp add: table_map_def l)
  show k: "\<forall>p\<in>used h. key_at env h' p = key_at env h p" 
    by (simp add: key_at_def same_nodes_data [OF assms])
  then show "\<forall>p\<in>used h. hash_at env h' p = hash_at env h p" by (simp add: hash_at_def)
  show "gh_size h' = gh_size h" using assms by (simp add: same_nodes_def gh_size_def)
qed

lemma same_nodes_inv:
  assumes same: "same_nodes h h'" and inv: "node_inv env h" and "sizes_ok h'"
  shows "node_inv env h'"
proof -
  obtain fl where fl: "fchain (nl_data h) (freelist_head h) fl" "distinct fl" "set fl = deleted h" "length fl = freelist_size h"
    using inv unfolding node_inv_def free_ok_def by blast
  have "\<forall>x\<in>set fl. x < length (nl_data h') \<and> nl_data h' ! x = nl_data h ! x"
    unfolding fl(3) using assms by (auto simp: same_nodes_def deleted_def sizes_ok_def)
  then have "fchain (nl_data h') (freelist_head h) fl" by (rule fchain_cong [OF _ fl(1)])
  with fl same have "free_ok h'" unfolding free_ok_def by (auto simp: same_nodes_deleted [OF same] same_nodes_def)
  moreover have "\<forall>p\<in>used h'. is_live (nl_data h' ! p)"
    using inv by (simp add: node_inv_def same_nodes_used [OF same] same_nodes_data [OF same])
  moreover have "inj_on (key_at env h') (used h')"
    using same inv same_nodes_facts(5) [OF same, of env] by (simp add: same_nodes_def node_inv_def inj_on_def)
  ultimately show ?thesis using assms(3) by (simp add: node_inv_def)
qed

lemma index_ok_not_delmark:
  assumes "index_ok hs S L B" and "p \<in> S" and "0 < length B" and "length L \<le> delmark"
  shows "L ! p \<noteq> delmark"
  using index_ok_bound [OF assms(1-3)] assms(4) by auto

text \<open>The debug walk passes on a sound freelist.\<close>

lemma freelist_walk_tail [simp]: "freelist_walk data L (Suc n) tail = Inr ()"
proof -
  have "\<not> tail < delmark" using delmark_less_tail(1) by linarith
  then show ?thesis by simp
qed

lemma freelist_walk_fchain:
  "fchain data i fl \<Longrightarrow> \<forall>p\<in>set fl. p < length L \<and> p < delmark \<and> L ! p = delmark \<Longrightarrow> length fl < n \<Longrightarrow>
    freelist_walk data L n i = Inr ()"
proof (induction fl arbitrary: i n)
  case Nil
  then show ?case by (cases n) (simp_all del: freelist_walk.simps)
next
  case (Cons x fl)
  then show ?case by (cases n) auto
qed

lemma freelist_walk_ok:
  assumes "free_ok h" and "sizes_ok h"
  shows "freelist_walk (nl_data h) (nl_link h) (Suc (length (nl_link h))) (freelist_head h) = Inr ()"
proof -
  obtain fl where fl: "fchain (nl_data h) (freelist_head h) fl" "set fl = deleted h" "length fl = freelist_size h"
    using assms(1) by (auto simp: free_ok_def)
  have "length fl < Suc (length (nl_link h))"
    using card_used(2) [OF assms(1)] fl(3) assms(2) by (auto simp: sizes_ok_def)
  moreover have "\<forall>p\<in>set fl. p < length (nl_link h) \<and> p < delmark \<and> nl_link h ! p = delmark"
    using fl(2) assms(2) by (auto simp: deleted_def sizes_ok_def)
  ultimately show ?thesis using fl(1) freelist_walk_fchain by blast
qed

lemma relink_nodes:
  assumes inv: "node_inv env h" and nb: "1 < nBucket h"
  shows "\<exists>h'. relink env h = Inr h' \<and> same_nodes h h' \<and> nBucket h' = nBucket h \<and> length (bucket h') = nBucket h \<and>
    maxload h' = maxload h \<and> is_sorted h' = is_sorted h \<and> maxElem h' = maxElem h \<and> nl_data h' = nl_data h \<and> sizes_ok h' \<and>
    index_ok (hash_at env h) (used h) (nl_link h') (bucket h')"
proof -
  let ?B = "replicate (nBucket h) tail" and ?all = "0 = freelist_size h"
  have sel: "{j \<in> set [0..<nElem h]. ?all \<or> delmark \<noteq> nl_link h ! j} = used h"
    using inv free_ok_none [of h] by (auto simp: used_def deleted_def node_inv_def)
  have live: "\<forall>j\<in>set [0..<nElem h]. ?all \<or> delmark \<noteq> nl_link h ! j \<longrightarrow>
      is_live (nl_data h ! j) \<and> hash_at env h j = hash_fn env (key_of env (elem_of (nl_data h ! j)))"
    using inv sel unfolding node_inv_def by (auto simp: hash_at_def key_at_def)
  have bound: "set [0..<nElem h] \<subseteq> {..<length (nl_link h)}"
    using inv by (auto simp: node_inv_def sizes_ok_def)
  obtain L' B' where r: "relink_loop env (nl_data h) (length ?B) ?all [0..<nElem h] (nl_link h) ?B = Inr (L', B')"
      "length L' = length (nl_link h)" "length B' = length ?B" "index_ok (hash_at env h) ({} \<union> used h) L' B'"
      "\<forall>x. x \<notin> used h \<longrightarrow> L' ! x = nl_link h ! x"
    using relink_loop_index [OF index_ok_empty _ distinct_upt bound _ live, of "nBucket h"] nb unfolding sel by auto
  let ?h = "h\<lparr>nl_link := L', bucket := B'\<rparr>"
  have "L' ! p \<noteq> delmark" if "p \<in> used h" for p
    using index_ok_not_delmark [OF r(4)] that r(2,3) nb inv by (auto simp: node_inv_def sizes_ok_def)
  then have "used ?h = used h" using r(5) by (auto simp: used_def)
  then have "same_nodes h ?h" by (simp add: same_nodes_def)
  moreover have "sizes_ok ?h" using r(2) inv by (simp add: sizes_ok_def node_inv_def)
  moreover have "relink env h = Inr ?h"
    using nb r(1) inv freelist_walk_ok [of h] by (simp add: relink_def Let_def node_inv_def del: freelist_walk.simps)
  ultimately show ?thesis using r(2-4) by auto
qed

text \<open>A table whose first slots hold elements and the rest nothing, whatever the links are.\<close>

definition dense :: "('k, 'e) gh_env \<Rightarrow> 'e gold_hash_tab \<Rightarrow> 'e list \<Rightarrow> bool" where
  "dense env h es \<longleftrightarrow> sizes_ok h \<and> nElem h = length es \<and> take (length es) (nl_data h) = map Live es \<and>
     freelist_size h = 0 \<and> freelist_head h = tail \<and> distinct (map (key_of env) es)"

lemma dense_nth: "dense env h es \<Longrightarrow> p < nElem h \<Longrightarrow> nl_data h ! p = Live (es ! p)"
  unfolding dense_def by (metis nth_map nth_take)

lemma relink_dense:
  assumes d: "dense env h es" and nb: "1 < nBucket h"
  shows "\<exists>h'. relink env h = Inr h' \<and> nBucket h' = nBucket h \<and> length (bucket h') = nBucket h \<and> used h' = {..<nElem h} \<and>
    nl_data h' = nl_data h \<and> nElem h' = nElem h \<and> maxElem h' = maxElem h \<and> freelist_size h' = 0 \<and> freelist_head h' = tail \<and>
    load_factor h' = load_factor h \<and> maxload h' = maxload h \<and> is_sorted h' = is_sorted h \<and>
    m_enable_auto_gc h' = m_enable_auto_gc h \<and> m_enable_freelist_reuse h' = m_enable_freelist_reuse h \<and>
    length (nl_link h') = length (nl_link h) \<and> index_ok (hash_at env h) (used h') (nl_link h') (bucket h')"
proof -
  let ?B = "replicate (nBucket h) tail"
  have live: "\<forall>j\<in>set [0..<nElem h]. True \<or> delmark \<noteq> nl_link h ! j \<longrightarrow>
      is_live (nl_data h ! j) \<and> hash_at env h j = hash_fn env (key_of env (elem_of (nl_data h ! j)))"
    using dense_nth [OF d] by (auto simp: hash_at_def key_at_def)
  have bound: "set [0..<nElem h] \<subseteq> {..<length (nl_link h)}"
    using d by (auto simp: dense_def sizes_ok_def)
  have sel: "{j \<in> set [0..<nElem h]. True \<or> delmark \<noteq> nl_link h ! j} = {..<nElem h}" by auto
  obtain L' B' where r: "relink_loop env (nl_data h) (length ?B) True [0..<nElem h] (nl_link h) ?B = Inr (L', B')"
      "length L' = length (nl_link h)" "length B' = length ?B" "index_ok (hash_at env h) ({} \<union> {..<nElem h}) L' B'"
    using relink_loop_index [OF index_ok_empty _ distinct_upt bound _ live, of "nBucket h"] nb unfolding sel by auto
  let ?h = "h\<lparr>nl_link := L', bucket := B'\<rparr>"
  have "L' ! p \<noteq> delmark" if "p < nElem h" for p
    using index_ok_not_delmark [OF r(4)] that r(2,3) nb d by (auto simp: dense_def sizes_ok_def)
  then have "used ?h = {..<nElem h}" by (auto simp: used_def)
  moreover have "relink env h = Inr ?h" using nb r(1) d by (simp add: relink_def Let_def dense_def del: freelist_walk.simps)
  ultimately show ?thesis using r(2-4) d by (auto simp: dense_def)
qed

text \<open>Linked, such a table keeps the invariant and holds these elements in this order.\<close>

lemma dense_linked:
  assumes "dense env h es" and "used h = {..<nElem h}"
  shows "node_inv env h" and "live_elems h = es"
proof -
  have e: "elem_of (nl_data h ! p) = es ! p" "is_live (nl_data h ! p)" if "p < nElem h" for p
    using dense_nth [OF assms(1) that] by simp_all
  have n: "nElem h = length es" using assms(1) by (simp add: dense_def)
  have "filter (\<lambda>p. p \<in> used h) [0..<nElem h] = [0..<nElem h]" using assms(2) by (simp add: filter_id_conv)
  then have "live_elems h = map (\<lambda>p. elem_of (nl_data h ! p)) [0..<nElem h]" by (simp add: live_elems_by_used)
  also have "\<dots> = map (\<lambda>p. es ! p) [0..<nElem h]" using e(1) by simp
  finally show l: "live_elems h = es" using n by (simp add: map_nth)
  have "inj_on (key_at env h) {..<nElem h}"
  proof (rule inj_onI)
    fix p q
    assume "p \<in> {..<nElem h}" "q \<in> {..<nElem h}" "key_at env h p = key_at env h q"
    moreover have "distinct (map (key_of env) es)" using assms(1) by (simp add: dense_def)
    ultimately show "p = q" using e(1) n unfolding key_at_def distinct_conv_nth by (metis length_map lessThan_iff nth_map)
  qed
  moreover have "free_ok h"
    using assms by (auto simp: free_ok_def dense_def deleted_by_used intro!: exI [of _ "[]"])
  ultimately show "node_inv env h" using assms e(2) by (simp add: node_inv_def dense_def)
qed

definition grants :: "('k, 'e) gh_env \<Rightarrow> bool" where
  "grants env \<longleftrightarrow> (\<forall>n. nodes_ok env n) \<and> (\<forall>n. buckets_ok env n)"

lemma grantsD [simp]: "grants env \<Longrightarrow> nodes_ok env n" "grants env \<Longrightarrow> buckets_ok env n"
  by (simp_all add: grants_def)

lemma next_prime_ge: "5 \<le> hsm_stl_next_prime n"
proof -
  have "\<forall>x\<in>set primes. 5 \<le> x" by (simp add: primes_def)
  moreover have "min (lower_bound_0 (\<lambda>i. primes ! i) (length primes) n (<)) (length primes - 1) < length primes"
    by (simp add: primes_def)
  ultimately show ?thesis unfolding hsm_stl_next_prime_def Let_def using nth_mem by blast
qed

lemma next_prime_5:
  assumes "n \<le> 5"
  shows "hsm_stl_next_prime n = 5"
proof -
  have p: "\<not> primes ! 32 < n" "\<not> primes ! 16 < n" "\<not> primes ! 8 < n" "\<not> primes ! 4 < n" "\<not> primes ! 2 < n"
      "\<not> primes ! Suc 0 < n" "\<not> primes ! 0 < n" "primes ! 0 = 5"
    and l: "length primes = 64"
    using assms by (simp_all add: primes_def)
  have "lower_bound_n ((!) primes) 0 64 n (<) = 0"
    using p by (simp add: lower_bound_n.simps [of _ _ "numeral _"] lower_bound_n.simps [of _ 0 "Suc 0"] lower_bound_n.simps [of _ 0 0] Let_def)
  with p l show ?thesis by (simp add: hsm_stl_next_prime_def lower_bound_0_def)
qed

lemma gh_inv_bucket: "gh_inv env h \<Longrightarrow> 0 < nBucket h \<and> length (bucket h) = nBucket h"
  by (auto simp: gh_inv_def bucket_inv_def)

lemma rehash_inv:
  assumes inv: "gh_inv env h" and g: "grants env"
  shows "\<exists>h'. rehash env h n = Inr (h', nBucket h') \<and> gh_inv env h' \<and> same_nodes h h' \<and> 5 \<le> nBucket h' \<and>
    maxElem h' = maxElem h \<and> is_sorted h' = is_sorted h"
proof -
  define nb where "nb = hsm_stl_next_prime n"
  have nb5: "5 \<le> nb" by (simp add: nb_def next_prime_ge)
  have first: "nBucket h \<noteq> 1 \<or> tail = bucket h ! 0" using inv by (auto simp: gh_inv_def bucket_inv_def)
  show ?thesis
  proof (cases "nb = nBucket h")
    case True
    then show ?thesis using inv nb5 by (intro exI [of _ h]) (simp add: rehash_def nb_def [symmetric] verify_def)
  next
    case False
    let ?h = "h\<lparr>bucket := map (fresh_link env) [0..<nb], nBucket := nb\<rparr>"
    have same: "same_nodes h ?h" by (simp add: same_nodes_def)
    have "sizes_ok ?h" using inv by (simp add: gh_inv_def node_inv_def sizes_ok_def)
    then have "node_inv env ?h" using inv by (intro same_nodes_inv [OF same]) (simp_all add: gh_inv_def)
    from relink_nodes [OF this] nb5 obtain h' where h': "relink env ?h = Inr h'" "same_nodes ?h h'" "nBucket h' = nb"
        "length (bucket h') = nb" "maxElem h' = maxElem h" "sizes_ok h'" "is_sorted h' = is_sorted h"
        "index_ok (hash_at env h) (used h) (nl_link h') (bucket h')"
      by auto
    have s': "same_nodes h h'" by (rule same_nodes_trans [OF same h'(2)])
    let ?r = "h'\<lparr>maxload := LinkTp (nb * load_factor h' div 256)\<rparr>"
    have s: "same_nodes h ?r" using s' by (simp add: same_nodes_def)
    moreover have "sizes_ok ?r" using h'(6) by (simp add: sizes_ok_def)
    then have "node_inv env ?r" using inv by (auto intro: same_nodes_inv [OF s] simp: gh_inv_def)
    moreover have "index_ok (hash_at env h') (used h) (nl_link h') (bucket h')"
      using same_nodes_facts(6) [OF s'] index_ok_bound [OF h'(8)] h'(4) nb5
      by (intro index_ok_cong [OF h'(8)]) auto
    moreover have "rehash env h n = Inr (?r, nb)"
      using False nb5 first g h'(1,3) by (simp add: rehash_def nb_def [symmetric] verify_def)
    ultimately show ?thesis
      using h'(3-5,7) nb5 by (intro exI [of _ ?r]) (simp add: gh_inv_def bucket_inv_def same_nodes_used [OF s'])
  qed
qed

text \<open>Relinking a dense table restores the invariant; the elements keep their order.\<close>

definition relinked :: "('k, 'e) gh_env \<Rightarrow> 'e gold_hash_tab \<Rightarrow> 'e list \<Rightarrow> 'e gold_hash_tab \<Rightarrow> bool" where
  "relinked env h es h' \<longleftrightarrow> gh_inv env h' \<and> live_elems h' = es \<and> nElem h' = nElem h \<and> maxElem h' = maxElem h \<and>
     load_factor h' = load_factor h \<and> m_enable_auto_gc h' = m_enable_auto_gc h \<and>
     m_enable_freelist_reuse h' = m_enable_freelist_reuse h \<and> is_sorted h' = is_sorted h"

lemma dense_transfer:
  assumes "dense env h es" and "nl_data h' = nl_data h" and "nElem h' = nElem h" and "sizes_ok h'"
    and "freelist_size h' = 0" and "freelist_head h' = tail"
  shows "dense env h' es"
  using assms by (simp add: dense_def)

lemma relink_dense_full:
  assumes d: "dense env h es" and nb: "5 \<le> nBucket h"
  shows "\<exists>h'. relink env h = Inr h' \<and> relinked env h es h' \<and> nBucket h' = nBucket h"
proof -
  obtain h' where h': "relink env h = Inr h'" "nBucket h' = nBucket h" "length (bucket h') = nBucket h" "used h' = {..<nElem h}"
      "nl_data h' = nl_data h" "nElem h' = nElem h" "maxElem h' = maxElem h" "freelist_size h' = 0" "freelist_head h' = tail"
      "load_factor h' = load_factor h" "is_sorted h' = is_sorted h" "m_enable_auto_gc h' = m_enable_auto_gc h"
      "m_enable_freelist_reuse h' = m_enable_freelist_reuse h" "length (nl_link h') = length (nl_link h)"
      "index_ok (hash_at env h) (used h') (nl_link h') (bucket h')"
    using relink_dense [OF d] nb by auto
  have "sizes_ok h'" using d h' by (simp add: dense_def sizes_ok_def)
  then have d': "dense env h' es" by (rule dense_transfer [OF d h'(5,6) _ h'(8,9)])
  have "hash_at env h' = hash_at env h" using h'(5) by (simp add: hash_at_def key_at_def fun_eq_iff)
  with h'(15) have "index_ok (hash_at env h') (used h') (nl_link h') (bucket h')" by simp
  with dense_linked [OF d'] h' nb have "relinked env h es h'"
    by (simp add: relinked_def gh_inv_def bucket_inv_def)
  with h' show ?thesis by blast
qed

lemma relink_dense_empty:
  assumes "dense env h []" and "nBucket h = 1" and "bucket h = [tail]" and "maxload h = 0"
  shows "relink env h = Inr h \<and> relinked env h [] h"
proof -
  have u: "used h = {..<nElem h}" using assms(1) by (simp add: dense_def used_def)
  have "index_ok (hash_at env h) (used h) (nl_link h) (bucket h)"
    using index_ok_empty [of _ _ 1] assms(1,3) u by (simp add: dense_def)
  then show ?thesis
    using dense_linked [OF assms(1) u] assms by (simp add: relinked_def relink_def gh_inv_def bucket_inv_def dense_def)
qed

lemma relink_dense_inv:
  assumes "dense env h es" and "bucket_inv (h\<lparr>nElem := nElem h0\<rparr>)" and "nElem h \<le> nElem h0"
  shows "\<exists>h'. relink env h = Inr h' \<and> relinked env h es h' \<and> nBucket h' = nBucket h"
proof (cases "nBucket h = 1")
  case True
  with assms have "es = []" "bucket h = [tail]" "maxload h = 0" by (auto simp: bucket_inv_def dense_def)
  with relink_dense_empty [of env h] assms(1) True show ?thesis by auto
next
  case False
  with assms(2) have "5 \<le> nBucket h" by (auto simp: bucket_inv_def)
  with relink_dense_full [OF assms(1)] show ?thesis by blast
qed

lemma rehash_dense:
  assumes d: "dense env h es" and first: "nBucket h = 1 \<longrightarrow> bucket h = [tail]" and g: "grants env"
  shows "\<exists>h' nb. rehash env h n = Inr (h', nb) \<and> nBucket h' = nb \<and> 5 \<le> nb \<and> nb = hsm_stl_next_prime n \<and>
    (nb = nBucket h \<and> h' = h \<or> nb \<noteq> nBucket h \<and> relinked env h es h')"
proof -
  define nb where "nb = hsm_stl_next_prime n"
  have nb5: "5 \<le> nb" by (simp add: nb_def next_prime_ge)
  show ?thesis
  proof (cases "nb = nBucket h")
    case True
    then show ?thesis using nb5 by (intro exI [of _ h] exI [of _ nb]) (simp add: rehash_def nb_def [symmetric] verify_def)
  next
    case False
    let ?h = "h\<lparr>bucket := map (fresh_link env) [0..<nb], nBucket := nb\<rparr>"
    have "dense env ?h es" using d by (simp add: dense_def sizes_ok_def)
    from relink_dense_full [OF this] nb5 obtain h' where h': "relink env ?h = Inr h'" "relinked env h es h'" "nBucket h' = nb"
      by (auto simp: relinked_def)
    let ?r = "h'\<lparr>maxload := LinkTp (nb * load_factor h' div 256)\<rparr>"
    have "relinked env h es ?r"
      using h'(2,3) nb5
      by (auto simp: relinked_def gh_inv_def node_inv_def sizes_ok_def free_ok_def deleted_by_used bucket_inv_def
          live_elems_by_used)
    moreover have "rehash env h n = Inr (?r, nb)"
      using False nb5 first g h'(1,3) by (simp add: rehash_def nb_def [symmetric] verify_def)
    ultimately show ?thesis using h'(3) nb5 False nb_def by (intro exI [of _ ?r] exI [of _ nb]) simp
  qed
qed

end
