(* ===== verification/Gold_Hash_Laws.thy ===== *)
theory Gold_Hash_Laws
  imports Gold_Hash_Inv
begin

text \<open>
  What each operation of \<open>gold_hash_tab\<close> does on the slots and on the map the table stands for, and that it
  keeps the invariant.
\<close>

section \<open>Capacity\<close>

lemma gh_init_inv: "gh_inv env gh_init"
proof -
  have "used gh_init = {}" "deleted gh_init = {}" by (simp_all add: used_def deleted_def gh_init_def)
  then show ?thesis
    using index_ok_empty [of "hash_at env gh_init" "[]" 1]
    by (auto simp: gh_inv_def node_inv_def sizes_ok_def bucket_inv_def gh_init_def free_ok_def intro!: exI [of _ "[]"])
qed

lemma gh_init_facts [simp]:
  "live_elems gh_init = []" "slot_map gh_init = Map.empty" "table_map env gh_init = Map.empty" "nElem gh_init = 0"
  by (simp_all add: live_elems_def slot_map_def table_map_def gh_init_def fun_eq_iff)

lemma gh_inv_same_nodes:
  assumes inv: "gh_inv env h" and same: "same_nodes h h'" and "sizes_ok h'"
    and "bucket h' = bucket h" and "nBucket h' = nBucket h" and "nBucket h = 1 \<longrightarrow> maxload h' = maxload h"
    and "\<forall>p\<in>used h. nl_link h' ! p = nl_link h ! p"
  shows "gh_inv env h'"
proof -
  have "node_inv env h'" using inv assms(3) by (intro same_nodes_inv [OF same]) (simp add: gh_inv_def)
  moreover have "bucket_inv h'" using inv assms by (auto simp: gh_inv_def bucket_inv_def same_nodes_def)
  moreover have "index_ok (hash_at env h) (used h) (nl_link h) (bucket h)" using inv by (simp add: gh_inv_def)
  then have "index_ok (hash_at env h') (used h) (nl_link h') (bucket h)"
  proof (rule index_ok_cong)
    have "p < length (nl_link h')" if "p \<in> used h" for p
      using used_less [OF that] assms(3) same by (simp add: sizes_ok_def same_nodes_def)
    then show "\<forall>p\<in>used h. p < length (nl_link h') \<and> nl_link h' ! p = nl_link h ! p \<and> hash_at env h' p = hash_at env h p"
      using assms(7) same_nodes_facts(6) [OF same] by blast
  qed
  ultimately show ?thesis using assms(4) by (simp add: gh_inv_def same_nodes_used [OF same])
qed

lemma reserve_nodes_inv:
  assumes inv: "gh_inv env h" and g: "grants env" and cap: "nElem h \<le> cap" "cap \<le> delmark"
  shows "\<exists>h'. reserve_nodes env h cap = Inr h' \<and> gh_inv env h' \<and> same_nodes h h' \<and>
    maxElem h' = (if cap = nElem h then maxElem h else cap) \<and>
    maxload h' = maxload h \<and> nBucket h' = nBucket h \<and> is_sorted h' = is_sorted h"
proof (cases "cap \<noteq> maxElem h \<and> cap \<noteq> nElem h")
  case True
  let ?h = "h\<lparr>nl_data := take (nElem h) (nl_data h) @ replicate (cap - nElem h) Raw,
              nl_link := take (nElem h) (nl_link h) @ map (fresh_link env) [nElem h..<cap], maxElem := cap\<rparr>"
  have len: "nElem h \<le> length (nl_data h)" "nElem h \<le> length (nl_link h)" "10 \<le> load_factor h" "load_factor h \<le> 255"
    using inv by (auto simp: gh_inv_def node_inv_def sizes_ok_def)
  then have link: "nl_link ?h ! p = nl_link h ! p" if "p < nElem h" for p using that by (simp add: nth_append)
  then have u: "used ?h = used h" by (auto simp: used_def)
  with len have "same_nodes h ?h" by (simp add: same_nodes_def nth_append)
  moreover have "sizes_ok ?h" using len cap by (simp add: sizes_ok_def)
  moreover have "\<forall>p\<in>used h. nl_link ?h ! p = nl_link h ! p" using link used_less by blast
  ultimately have "gh_inv env ?h" by (intro gh_inv_same_nodes [OF inv, of ?h]) simp_all
  moreover have "reserve_nodes env h cap = Inr ?h"
    using True cap g by (simp add: reserve_nodes_def nl_reserve_def delmark_less_wrap)
  ultimately show ?thesis using True \<open>same_nodes h ?h\<close> by (intro exI [of _ ?h]) simp
qed (use inv cap in \<open>auto simp: reserve_nodes_def intro!: exI [of _ h]\<close>)

lemma gh_inv_load: "gh_inv env h \<Longrightarrow> 10 \<le> load_factor h \<and> load_factor h \<le> 255"
  by (simp add: gh_inv_def node_inv_def sizes_ok_def)

lemma reserve_inv:
  assumes inv: "gh_inv env h" and g: "grants env" and cap: "nElem h \<le> cap" "cap \<le> delmark"
  shows "\<exists>h'. reserve env h cap = Inr h' \<and> gh_inv env h' \<and> same_nodes h h' \<and> 5 \<le> nBucket h' \<and>
    maxElem h' = (if cap = nElem h then maxElem h else cap)"
proof -
  obtain h1 where h1: "reserve_nodes env h cap = Inr h1" "gh_inv env h1" "same_nodes h h1"
      "maxElem h1 = (if cap = nElem h then maxElem h else cap)"
    using reserve_nodes_inv [OF assms] by blast
  obtain h2 where h2: "rehash env h1 (cap * 256 div load_factor h1 + 1) = Inr (h2, nBucket h2)" "gh_inv env h2" "same_nodes h1 h2"
      "5 \<le> nBucket h2" "maxElem h2 = maxElem h1"
    using rehash_inv [OF h1(2) g] by blast
  have "load_factor h1 \<noteq> 0" using gh_inv_load [OF h1(2)] by simp
  then show ?thesis
    using h1 h2 same_nodes_trans [OF h1(3) h2(3)] by (intro exI [of _ h2]) (simp add: reserve_def)
qed

text \<open>\<open>shrink_to_fit\<close> calls \<open>reserve(nElem)\<close>, and \<open>reserve_nodes\<close> does nothing for \<open>cap == nElem\<close>: no node is given back.\<close>

lemma shrink_to_fit_inv:
  assumes inv: "gh_inv env h" and g: "grants env"
  shows "\<exists>h'. shrink_to_fit env h = Inr h' \<and> gh_inv env h' \<and> same_nodes h h' \<and> maxElem h' = maxElem h"
proof (cases "nElem h < maxElem h")
  case True
  have "nElem h \<le> delmark" using inv by (simp add: gh_inv_def node_inv_def sizes_ok_def)
  from reserve_inv [OF inv g order.refl this] True show ?thesis by (auto simp: shrink_to_fit_def)
qed (use inv in \<open>auto simp: shrink_to_fit_def\<close>)

lemma set_load_factor_inv:
  assumes inv: "gh_inv env h"
  shows "\<exists>h'. set_load_factor h False f = Inr h' \<and> gh_inv env h' \<and> live_elems h' = live_elems h \<and> nElem h' = nElem h \<and>
    slot_map h' = slot_map h \<and> table_map env h' = table_map env h"
proof -
  define lf where "lf = nat (max (min f 255) 10)"
  have lf: "10 \<le> lf" "lf \<le> 255" by (auto simp: lf_def)
  let ?h = "h\<lparr>load_factor := lf, maxload := (if nBucket h = 1 then 0 else LinkTp (nBucket h * lf div 256))\<rparr>"
  have eq: "live_elems ?h = live_elems h" "slot_map ?h = slot_map h" 
    by (simp_all add: live_elems_def slot_map_def fun_eq_iff)
  have "free_ok ?h = free_ok h" by (simp add: free_ok_def deleted_by_used)
  then have "gh_inv env ?h"
    using inv lf by (auto simp: gh_inv_def node_inv_def sizes_ok_def bucket_inv_def)
  moreover have "table_map env ?h = table_map env h" unfolding table_map_def eq ..
  ultimately show ?thesis using eq by (intro exI [of _ ?h]) (simp add: set_load_factor_def lf_def [symmetric] Let_def)
qed

section \<open>Destruction\<close>

lemma destroy_ok: "node_inv env h \<Longrightarrow> destroy env h = Inr ()"
  using free_ok_none [of h] by (auto simp: destroy_def node_inv_def list_all_iff used_def deleted_def)

lemma gh_clear_init: "gh_inv env h \<Longrightarrow> gh_clear env h = Inr gh_init"
  by (simp add: gh_clear_def gh_inv_def destroy_ok)

section \<open>Compaction\<close>

lemma first_deleted_spec:
  "i \<le> n \<Longrightarrow> i \<le> first_deleted L n i \<and> first_deleted L n i \<le> n \<and>
     (\<forall>p. i \<le> p \<and> p < first_deleted L n i \<longrightarrow> L ! p \<noteq> delmark) \<and>
     (first_deleted L n i < n \<longrightarrow> L ! first_deleted L n i = delmark)"
proof (induction L n i rule: first_deleted.induct)
  case (1 L n i)
  show ?case
  proof (cases "i < n \<and> delmark \<noteq> L ! i")
    case True
    then have eq: "first_deleted L n i = first_deleted L n (i + 1)" by (simp add: first_deleted.simps [of L n i])
    have IH: "i + 1 \<le> first_deleted L n (i + 1) \<and> first_deleted L n (i + 1) \<le> n \<and>
        (\<forall>p. i + 1 \<le> p \<and> p < first_deleted L n (i + 1) \<longrightarrow> L ! p \<noteq> delmark) \<and>
        (first_deleted L n (i + 1) < n \<longrightarrow> L ! first_deleted L n (i + 1) = delmark)"
      using "1.IH" True by simp
    have "L ! p \<noteq> delmark" if "i \<le> p" "p < first_deleted L n (i + 1)" for p
      using IH True that by (cases "p = i") auto
    with IH show ?thesis unfolding eq by auto
  qed (use "1.prems" in \<open>auto simp: first_deleted.simps [of L n i]\<close>)
qed

lemma compact_loop_spec:
  assumes "i < j" and "j \<le> n" and "n \<le> length data" and "\<forall>p. j \<le> p \<and> p < n \<and> L ! p \<noteq> delmark \<longrightarrow> is_live (data ! p)"
    and "es = map (\<lambda>p. elem_of (data ! p)) (filter (\<lambda>p. L ! p \<noteq> delmark) [j..<n])"
  shows "\<exists>data'. compact_loop L [j..<n] i data = Inr (data', i + length es) \<and> length data' = length data \<and>
    take (i + length es) data' = take i data @ map Live es"
  using assms
proof (induction "n - j" arbitrary: i j data es)
  case 0
  then show ?case by simp
next
  case (Suc m)
  then have j: "j < n" "[j..<n] = j # [Suc j..<n]" by (simp_all add: upt_conv_Cons)
  define es' where "es' = map (\<lambda>p. elem_of (data ! p)) (filter (\<lambda>p. L ! p \<noteq> delmark) [Suc j..<n])"
  show ?case
  proof (cases "L ! j = delmark")
    case True
    then have "es = es'" using Suc.prems(5) j(2) by (simp add: es'_def)
    moreover have "m = n - Suc j" using Suc.hyps(2) by simp
    moreover have "\<forall>p. Suc j \<le> p \<and> p < n \<and> L ! p \<noteq> delmark \<longrightarrow> is_live (data ! p)" using Suc.prems(4) by simp
    ultimately show ?thesis
      using Suc.hyps(1) [of "Suc j" i data, OF _ _ _ _ _ es'_def] Suc.prems(1,3) j True by simp
  next
    case False
    define e where "e = elem_of (data ! j)"
    have live: "get_elem (data ! j) = Inr e" using Suc.prems(4) j False by (simp add: get_elem_live e_def)
    have es: "es = e # es'" using Suc.prems(5) j(2) False by (simp add: es'_def e_def)
    let ?d = "data[i := Live e, j := Raw]"
    have same: "?d ! p = data ! p" if "j < p" for p using that Suc.prems(1) by simp
    have es': "es' = map (\<lambda>p. elem_of (?d ! p)) (filter (\<lambda>p. L ! p \<noteq> delmark) [Suc j..<n])"
      unfolding es'_def using Suc.prems(1) by (intro map_cong) auto
    have live': "\<forall>p. Suc j \<le> p \<and> p < n \<and> L ! p \<noteq> delmark \<longrightarrow> is_live (?d ! p)" using Suc.prems(4) same by simp
    have "m = n - Suc j" using Suc.hyps(2) by simp
    from Suc.hyps(1) [OF this _ _ _ live' es', of "i + 1"] Suc.prems(1,3) j(1)
    obtain data' where d: "compact_loop L [Suc j..<n] (i + 1) ?d = Inr (data', i + 1 + length es')" "length data' = length data"
        "take (i + 1 + length es') data' = take (i + 1) ?d @ map Live es'"
      by auto
    have "take (i + 1) ?d = take i data @ [Live e]"
      using Suc.prems(1,3) j(1) by (simp add: take_Suc_conv_app_nth)
    with d False live j(2) es show ?thesis by simp
  qed
qed

lemma node_inv_live: "node_inv env h \<Longrightarrow> p \<in> used h \<Longrightarrow> nl_data h ! p = Live (elem_of (nl_data h ! p))"
  using is_live_iff by (auto simp: node_inv_def)

lemma revoke_no_relink:
  assumes inv: "node_inv env h" and free: "freelist_size h \<noteq> 0"
  shows "\<exists>h'. revoke_deleted_no_relink h = Inr (h', freelist_size h) \<and> dense env h' (live_elems h) \<and>
    bucket h' = bucket h \<and> nBucket h' = nBucket h \<and> maxElem h' = maxElem h \<and> maxload h' = maxload h \<and>
    load_factor h' = load_factor h \<and> is_sorted h' = is_sorted h \<and> m_enable_auto_gc h' = m_enable_auto_gc h \<and>
    m_enable_freelist_reuse h' = m_enable_freelist_reuse h"
proof -
  let ?n = "nElem h" and ?L = "nl_link h"
  define i where "i = first_deleted ?L ?n 0"
  note fd = first_deleted_spec [of 0 ?n ?L, folded i_def]
  have s: "length (nl_data h) = maxElem h" "length ?L = maxElem h" "?n \<le> maxElem h" "maxElem h \<le> delmark"
      "10 \<le> load_factor h" "load_factor h \<le> 255"
    using inv by (auto simp: node_inv_def sizes_ok_def)
  have "i < ?n"
  proof (rule ccontr)
    assume "\<not> i < ?n"
    with fd have "deleted h = {}" by (auto simp: deleted_def)
    with inv free free_ok_none [of h] show False by (simp add: node_inv_def)
  qed
  define es where "es = map (\<lambda>p. elem_of (nl_data h ! p)) (filter (\<lambda>p. ?L ! p \<noteq> delmark) [i + 1..<?n])"
  have live: "\<forall>p. i + 1 \<le> p \<and> p < ?n \<and> ?L ! p \<noteq> delmark \<longrightarrow> is_live (nl_data h ! p)"
    using inv by (auto simp: node_inv_def used_def)
  obtain data' where c: "compact_loop ?L [i + 1..<?n] i (nl_data h) = Inr (data', i + length es)"
      "length data' = length (nl_data h)" "take (i + length es) data' = take i (nl_data h) @ map Live es"
    using compact_loop_spec [OF _ _ _ live es_def, of i] \<open>i < ?n\<close> s by auto
  define pre where "pre = map (\<lambda>p. elem_of (nl_data h ! p)) [0..<i]"
  have "filter (\<lambda>p. ?L ! p \<noteq> delmark) [0..<i] = [0..<i]" using fd by (simp add: filter_id_conv)
  moreover have "[0..<?n] = [0..<i] @ i # [i + 1..<?n]"
    using \<open>i < ?n\<close> by (metis upt_add_eq_append upt_conv_Cons le_add_diff_inverse less_imp_le Suc_eq_plus1 le0 add_0)
  ultimately have le: "live_elems h = pre @ es" using fd \<open>i < ?n\<close> by (simp add: live_elems_def pre_def es_def)
  have "take i (nl_data h) = map Live pre"
  proof (rule nth_equalityI)
    fix p
    assume "p < length (take i (nl_data h))"
    then have "p < i" "p \<in> used h" using fd \<open>i < ?n\<close> by (auto simp: used_def)
    then show "take i (nl_data h) ! p = map Live pre ! p" using node_inv_live [OF inv, of p] by (simp add: pre_def)
  qed (use \<open>i < ?n\<close> s in \<open>simp add: pre_def\<close>)
  moreover have len: "length (live_elems h) = i + length es" by (simp add: le pre_def)
  ultimately have t: "take (length (live_elems h)) data' = map Live (live_elems h)" using c(3) by (simp add: le)
  have cnt: "length (live_elems h) = ?n - freelist_size h" "freelist_size h \<le> ?n"
    using card_used [of h] inv by (simp_all add: length_live_elems node_inv_def)
  let ?h = "h\<lparr>nl_data := data', nElem := i + length es, freelist_head := tail, freelist_size := 0\<rparr>"
  have wrap: "LinkTp (i + length es) = i + length es" using cnt len s by (intro delmark_less_wrap) simp
  have "revoke_deleted_no_relink h = Inr (?h, freelist_size h)"
    using free \<open>i < ?n\<close> c(1) wrap cnt len by (simp add: revoke_deleted_no_relink_def i_def [symmetric] Let_def)
  moreover have "dense env ?h (live_elems h)"
    using t s c(2) cnt len distinct_keys inv by (auto simp: dense_def sizes_ok_def node_inv_def)
  ultimately show ?thesis by (intro exI [of _ ?h]) simp
qed

lemma gh_inv_node: "gh_inv env h \<Longrightarrow> node_inv env h"
  by (simp add: gh_inv_def)

lemma table_map_elems: "live_elems h' = live_elems h \<Longrightarrow> table_map env h' = table_map env h"
  by (simp add: table_map_def)

lemma revoke_deleted_inv:
  assumes inv: "gh_inv env h"
  shows "\<exists>h'. revoke_deleted env h = Inr (h', freelist_size h) \<and> gh_inv env h' \<and> live_elems h' = live_elems h \<and>
    freelist_size h' = 0 \<and> nElem h' \<le> nElem h \<and> maxElem h' = maxElem h \<and>
    m_enable_auto_gc h' = m_enable_auto_gc h \<and> m_enable_freelist_reuse h' = m_enable_freelist_reuse h"
proof (cases "freelist_size h = 0")
  case True
  with inv show ?thesis by (intro exI [of _ h]) (simp add: revoke_deleted_def)
next
  case False
  obtain h1 where h1: "revoke_deleted_no_relink h = Inr (h1, freelist_size h)" "dense env h1 (live_elems h)"
      "bucket h1 = bucket h" "nBucket h1 = nBucket h" "maxElem h1 = maxElem h" "maxload h1 = maxload h"
      "m_enable_auto_gc h1 = m_enable_auto_gc h" "m_enable_freelist_reuse h1 = m_enable_freelist_reuse h"
    using revoke_no_relink [OF gh_inv_node [OF inv] False] by blast
  have n: "nElem h1 \<le> nElem h"
    using h1(2) card_used [of h] inv by (simp add: dense_def length_live_elems gh_inv_def node_inv_def)
  have "bucket_inv (h1\<lparr>nElem := nElem h\<rparr>)" using inv h1(3-6) by (simp add: gh_inv_def bucket_inv_def)
  from relink_dense_inv [OF h1(2) this n] obtain h2 where h2: "relink env h1 = Inr h2" "relinked env h1 (live_elems h) h2"
    by blast
  have "freelist_size h2 = 0"
  proof -
    have "card (used h2) = nElem h2"
      using h2(2) h1(2) by (simp add: relinked_def dense_def flip: length_live_elems)
    then show ?thesis using card_used [of h2] h2(2) by (auto simp: relinked_def gh_inv_def node_inv_def)
  qed
  then show ?thesis using False h1 h2 n by (intro exI [of _ h2]) (auto simp: revoke_deleted_def relinked_def)
qed

section \<open>Walking a collision list\<close>

lemma not_tail: "node_inv env h \<Longrightarrow> p < nElem h \<Longrightarrow> p \<noteq> tail"
  by (auto simp: node_inv_def sizes_ok_def delmark_def)

lemma used_slot:
  assumes "node_inv env h" and "p \<in> used h"
  shows "p < nElem h" and "get_elem (nl_data h ! p) = Inr (elem_of (nl_data h ! p))" and "p \<noteq> tail"
    and "nl_link h ! p \<noteq> delmark"
proof -
  show "p < nElem h" "nl_link h ! p \<noteq> delmark" using assms(2) by (simp_all add: used_def)
  then show "p \<noteq> tail" using not_tail assms(1) by blast
  show "get_elem (nl_data h ! p) = Inr (elem_of (nl_data h ! p))"
    using assms by (simp add: node_inv_def get_elem_live)
qed

lemma find_loop_chain:
  assumes "chain (nl_link h) p xs" and "set xs \<subseteq> used h" and "length xs < n" and "node_inv env h"
  shows "find_loop env h k n p = Inr (List.find (\<lambda>q. k = key_at env h q) xs)"
  using assms
proof (induction xs arbitrary: p n)
  case Nil
  then show ?case by (cases n) auto
next
  case (Cons x xs)
  then obtain m where m: "n = Suc m" by (cases n) auto
  have "x \<in> used h" using Cons.prems(2) by simp
  note x = used_slot [OF Cons.prems(4) this]
  with Cons m show ?case by (auto simp: key_at_def)
qed

lemma erase_walk_chain:
  assumes "chain (nl_link h) (read_ref h curp) xs" and "set xs \<subseteq> used h" and "length xs < n" and "node_inv env h"
  shows "\<forall>x\<in>set xs. k \<noteq> key_at env h x \<Longrightarrow> erase_walk env h k n curp = Inr None"
    and "xs = ys @ q # zs \<Longrightarrow> \<forall>x\<in>set ys. k \<noteq> key_at env h x \<Longrightarrow> k = key_at env h q \<Longrightarrow>
      erase_walk env h k n curp = Inr (Some (if ys = [] then curp else In_link (last ys), q, elem_of (nl_data h ! q)))"
proof -
  show "erase_walk env h k n curp = Inr None" if "\<forall>x\<in>set xs. k \<noteq> key_at env h x"
    using assms that
  proof (induction xs arbitrary: curp n)
    case Nil
    then show ?case by (cases n) auto
  next
    case (Cons x xs)
    then obtain m where m: "n = Suc m" by (cases n) auto
    have "x \<in> used h" using Cons.prems(2) by simp
    note x = used_slot [OF Cons.prems(4) this]
    with Cons m show ?case by (auto simp: key_at_def)
  qed
  show "erase_walk env h k n curp = Inr (Some (if ys = [] then curp else In_link (last ys), q, elem_of (nl_data h ! q)))"
    if "xs = ys @ q # zs" "\<forall>x\<in>set ys. k \<noteq> key_at env h x" "k = key_at env h q"
    using assms that
  proof (induction xs arbitrary: curp n ys)
    case (Cons x xs)
    then obtain m where m: "n = Suc m" by (cases n) auto
    have "x \<in> used h" using Cons.prems(2) by simp
    note x = used_slot [OF Cons.prems(4) this]
    show ?case
    proof (cases ys)
      case Nil
      with x Cons.prems m show ?thesis by (auto simp: key_at_def)
    next
      case (Cons y ys')
      with x Cons.IH [of "In_link x" m ys'] Cons.prems m show ?thesis by (auto simp: key_at_def)
    qed
  qed simp
qed

lemma unlink_walk_chain:
  assumes "chain (nl_link h) (read_ref h curp) (ys @ q # zs)" and "set (ys @ q # zs) \<subseteq> {..<nElem h}"
    and "length ys < n" and "q \<notin> set ys"
  shows "unlink_walk h q n curp = Inr (if ys = [] then curp else In_link (last ys))"
  using assms
proof (induction ys arbitrary: curp n)
  case Nil
  then show ?case by (cases n) auto
next
  case (Cons y ys)
  then obtain m where m: "n = Suc m" by (cases n) auto
  have c: "read_ref h curp = y" "chain (nl_link h) (nl_link h ! y) (ys @ q # zs)" using Cons.prems(1) by auto
  then have "nl_link h ! y \<in> set (ys @ q # zs)" by (cases ys) auto
  with Cons.prems(2) have "nl_link h ! y < nElem h" by auto
  with c Cons.IH [of "In_link y" m] Cons.prems m show ?case by auto
qed

text \<open>The list of a bucket.\<close>

lemma bucket_chain:
  assumes "gh_inv env h"
  shows "\<exists>xs. chain (nl_link h) (bucket h ! (n mod nBucket h)) xs \<and> distinct xs \<and>
    set xs = {p \<in> used h. hash_at env h p mod nBucket h = n mod nBucket h} \<and> length xs < Suc (nElem h)"
proof -
  have b: "n mod nBucket h < length (bucket h)" "length (bucket h) = nBucket h" using gh_inv_bucket [OF assms] by auto
  obtain xs where xs: "chain (nl_link h) (bucket h ! (n mod nBucket h)) xs" "distinct xs"
      "set xs = {p \<in> used h. hash_at env h p mod nBucket h = n mod nBucket h}"
    using index_okD [of "hash_at env h" "used h" "nl_link h" "bucket h" "n mod nBucket h"] assms b by (auto simp: gh_inv_def)
  then have "set xs \<subseteq> {..<nElem h}" using used_less by auto
  with xs(2) have "length xs \<le> nElem h" by (metis card_lessThan card_mono distinct_card finite_lessThan)
  with xs show ?thesis by auto
qed

lemma find_bucket:
  assumes inv: "gh_inv env h"
  shows "table_map env h k = Some e \<Longrightarrow>
      \<exists>p\<in>used h. find_loop env h k (Suc (nElem h)) (bucket h ! (hash_fn env k mod nBucket h)) = Inr (Some p) \<and>
        slot_map h p = Some e \<and> key_at env h p = k"
    and "table_map env h k = None \<Longrightarrow>
      find_loop env h k (Suc (nElem h)) (bucket h ! (hash_fn env k mod nBucket h)) = Inr None"
proof -
  obtain xs where xs: "chain (nl_link h) (bucket h ! (hash_fn env k mod nBucket h)) xs"
      "set xs = {p \<in> used h. hash_at env h p mod nBucket h = hash_fn env k mod nBucket h}" "length xs < Suc (nElem h)"
    using bucket_chain [OF inv] by blast
  then have f: "find_loop env h k (Suc (nElem h)) (bucket h ! (hash_fn env k mod nBucket h)) =
      Inr (List.find (\<lambda>q. k = key_at env h q) xs)"
    using inv by (intro find_loop_chain) (auto simp: gh_inv_def)
  have inj: "inj_on (key_at env h) (used h)" using inv by (simp add: gh_inv_def node_inv_def)
  show "\<exists>p\<in>used h. find_loop env h k (Suc (nElem h)) (bucket h ! (hash_fn env k mod nBucket h)) = Inr (Some p) \<and>
      slot_map h p = Some e \<and> key_at env h p = k" if "table_map env h k = Some e"
  proof -
    from that obtain q where q: "q \<in> used h" "elem_of (nl_data h ! q) = e" "key_at env h q = k"
      unfolding table_map_iff [OF inj] by (auto simp: ran_def slot_map_by_used key_at_def split: if_splits)
    then have "q \<in> set xs" using xs(2) by (simp add: hash_at_def)
    then obtain p where p: "List.find (\<lambda>q. k = key_at env h q) xs = Some p"
      using q(3) find_None_iff [of "\<lambda>q. k = key_at env h q" xs] by fastforce
    then have "p \<in> set xs" "key_at env h p = k" by (auto simp: find_Some_iff)
    with xs(2) q inj have "p = q" by (auto simp: inj_on_def)
    with f p q show ?thesis by (auto simp: slot_map_by_used)
  qed
  show "find_loop env h k (Suc (nElem h)) (bucket h ! (hash_fn env k mod nBucket h)) = Inr None"
    if "table_map env h k = None"
  proof -
    have "k \<noteq> key_at env h q" if "q \<in> used h" for q
      using \<open>table_map env h k = None\<close> table_map_at [OF inj that] by auto
    then have "List.find (\<lambda>q. k = key_at env h q) xs = None" using xs(2) by (auto simp: find_None_iff)
    with f show ?thesis by simp
  qed
qed

lemma find_i_spec:
  assumes "gh_inv env h"
  shows "table_map env h k = Some e \<Longrightarrow> \<exists>p\<in>used h. find_i env h k = Inr p \<and> slot_map h p = Some e \<and> key_at env h p = k"
    and "table_map env h k = None \<Longrightarrow> find_i env h k = Inr (nElem h)"
  using find_bucket [OF assms, of k] by (auto simp: find_i_def find_with_hash_i_def Let_def)

section \<open>Slots\<close>

text \<open>What allocating a slot leaves: a slot that was not in use, its link cleared, and the rest as it was.\<close>

definition alloc_ok :: "'e gold_hash_tab \<Rightarrow> 'e gold_hash_tab \<Rightarrow> nat \<Rightarrow> bool" where
  "alloc_ok h h' slot \<longleftrightarrow> sizes_ok h' \<and> nElem h \<le> nElem h' \<and> nElem h' \<le> Suc (nElem h) \<and> slot < nElem h' \<and> slot \<notin> used h \<and>
     used h' = insert slot (used h) \<and>
     (\<forall>p\<in>used h. nl_data h' ! p = nl_data h ! p \<and> nl_link h' ! p = nl_link h ! p) \<and>
     free_ok h' \<and> bucket h' = bucket h \<and> nBucket h' = nBucket h \<and>
     m_enable_auto_gc h' = m_enable_auto_gc h \<and> m_enable_freelist_reuse h' = m_enable_freelist_reuse h"

lemma alloc_no_reuse_ok:
  assumes inv: "gh_inv env h" and g: "grants env" and room: "nElem h < 2 ^ 31"
  shows "\<exists>h'. alloc_no_reuse env h = Inr (h', nElem h) \<and>
    alloc_ok h (h'\<lparr>nl_link := (nl_link h')[nElem h := tail]\<rparr>) (nElem h) \<and> nElem h' = Suc (nElem h)"
proof -
  let ?n = "nElem h" and ?cap = "if 0 = nElem h then 1 else LinkTp (2 * nElem h)"
  have s: "?n \<le> maxElem h" "maxElem h \<le> delmark" "length (nl_data h) = maxElem h" "length (nl_link h) = maxElem h"
    using inv by (auto simp: gh_inv_def node_inv_def sizes_ok_def)
  have "LinkTp (2 * ?n) = 2 * ?n" "2 * ?n \<le> delmark" "1 \<le> delmark"
    using room by (simp_all add: LinkTp_def delmark_def tail_def)
  then have cap: "?n < ?cap" "?cap \<le> delmark" by auto
  obtain h1 where h1: "(if ?n = maxElem h then reserve_nodes env h ?cap else Inr h) = Inr h1" "gh_inv env h1" "same_nodes h h1"
      "?n < maxElem h1" "bucket h1 = bucket h" "nBucket h1 = nBucket h" "\<forall>p\<in>used h. nl_link h1 ! p = nl_link h ! p"
  proof (cases "?n = maxElem h")
    case False
    with s inv show ?thesis by (intro that [of h]) auto
  next
    case True
    have "reserve_nodes env h ?cap = Inr (h\<lparr>nl_data := take ?n (nl_data h) @ replicate (?cap - ?n) Raw,
        nl_link := take ?n (nl_link h) @ map (fresh_link env) [?n..<?cap], maxElem := ?cap\<rparr>)"
      using True cap g by (simp add: reserve_nodes_def nl_reserve_def delmark_less_wrap)
    moreover obtain h' where h': "reserve_nodes env h ?cap = Inr h'" "gh_inv env h'" "same_nodes h h'" "maxElem h' = ?cap"
      using reserve_nodes_inv [OF inv g, of ?cap] cap by auto
    ultimately have eq: "h' = h\<lparr>nl_data := take ?n (nl_data h) @ replicate (?cap - ?n) Raw,
        nl_link := take ?n (nl_link h) @ map (fresh_link env) [?n..<?cap], maxElem := ?cap\<rparr>" by simp
    have "\<forall>p\<in>used h. nl_link h' ! p = nl_link h ! p" unfolding eq using s True by (auto simp: nth_append dest: used_less)
    with h' cap True show ?thesis by (intro that [of h']) (simp_all add: eq)
  qed
  have n1: "nElem h1 = ?n" "used h1 = used h" using h1(3) by (simp_all add: same_nodes_def)
  have s1: "length (nl_data h1) = maxElem h1" "length (nl_link h1) = maxElem h1" "maxElem h1 \<le> delmark"
      "10 \<le> load_factor h1" "load_factor h1 \<le> 255"
    using h1(2) by (auto simp: gh_inv_def node_inv_def sizes_ok_def)
  have wrap: "LinkTp (?n + 1) = Suc ?n" using h1(4) s1(3) by (subst delmark_less_wrap) auto
  let ?h = "h1\<lparr>nElem := Suc ?n, nl_link := (nl_link h1)[?n := tail]\<rparr>"
  have u: "used ?h = insert ?n (used h1)"
    using n1(1) h1(4) s1(2) by (auto simp: used_def nth_list_update less_Suc_eq)
  have "deleted ?h = deleted h1" using n1(1) h1(4) s1(2) by (auto simp: deleted_def nth_list_update less_Suc_eq)
  then have "free_ok ?h" using h1(2) by (simp add: gh_inv_def node_inv_def free_ok_def)
  moreover have "sizes_ok ?h" using s1 h1(4) by (simp add: sizes_ok_def)
  moreover have fresh: "?n \<notin> used h" by (simp add: used_def)
  moreover have "\<forall>p\<in>used h. nl_data ?h ! p = nl_data h ! p \<and> nl_link ?h ! p = nl_link h ! p"
  proof
    fix p
    assume p: "p \<in> used h"
    with fresh have "p \<noteq> ?n" by blast
    with p h1(7) same_nodes_data [OF h1(3) p]
    show "nl_data ?h ! p = nl_data h ! p \<and> nl_link ?h ! p = nl_link h ! p" by simp
  qed
  moreover have "m_enable_auto_gc h1 = m_enable_auto_gc h" "m_enable_freelist_reuse h1 = m_enable_freelist_reuse h"
    using h1(3) by (simp_all add: same_nodes_def)
  ultimately have ok: "alloc_ok h ?h ?n" using u h1(5,6) n1 by (simp add: alloc_ok_def)
  have "alloc_no_reuse env h = Inr (h1\<lparr>nElem := Suc ?n\<rparr>, ?n)"
    using h1(1,4) n1(1) wrap by (simp add: alloc_no_reuse_def)
  with ok show ?thesis by (intro exI [of _ "h1\<lparr>nElem := Suc ?n\<rparr>"]) simp
qed

lemma slot_reuse_ok:
  assumes inv: "gh_inv env h" and free: "freelist_size h \<noteq> 0"
  shows "\<exists>nx. nl_data h ! freelist_head h = Salt nx \<and> (nx < nElem h \<or> nx = tail) \<and>
    alloc_ok h (h\<lparr>freelist_size := freelist_size h - 1, freelist_head := nx,
                  nl_link := (nl_link h)[freelist_head h := tail]\<rparr>) (freelist_head h)"
proof -
  let ?f = "freelist_head h"
  obtain fl where fl: "fchain (nl_data h) ?f fl" "distinct fl" "set fl = deleted h" "length fl = freelist_size h"
    using inv by (auto simp: gh_inv_def node_inv_def free_ok_def)
  with free obtain xs where xs: "fl = ?f # xs" by (cases fl) auto
  then obtain nx where nx: "nl_data h ! ?f = Salt nx" "fchain (nl_data h) nx xs" using fl(1) by auto
  have f: "?f \<in> deleted h" using fl(3) xs by auto
  have s: "sizes_ok h" "?f < length (nl_link h)" "length (nl_link h) = maxElem h"
    using inv f by (auto simp: gh_inv_def node_inv_def sizes_ok_def deleted_def)
  let ?h = "h\<lparr>freelist_size := freelist_size h - 1, freelist_head := nx, nl_link := (nl_link h)[?f := tail]\<rparr>"
  have u: "used ?h = insert ?f (used h)"
    using f s(2) by (auto simp: used_def deleted_def nth_list_update)
  have "deleted ?h = deleted h - {?f}" using u f by (auto simp: deleted_by_used)
  then have "set xs = deleted ?h" using fl(2,3) xs by auto
  then have "free_ok ?h" unfolding free_ok_def using nx(2) fl(2,4) xs by (intro exI [of _ xs]) simp
  moreover have "sizes_ok ?h" using s by (simp add: sizes_ok_def)
  moreover have nf: "?f \<notin> used h" using f by (simp add: deleted_by_used)
  moreover have "\<forall>p\<in>used h. nl_link ?h ! p = nl_link h ! p"
  proof
    fix p
    assume "p \<in> used h"
    with nf have "p \<noteq> ?f" by blast
    then show "nl_link ?h ! p = nl_link h ! p" by simp
  qed
  ultimately have "alloc_ok h ?h ?f" using u f by (auto simp: alloc_ok_def deleted_by_used)
  moreover have "nx < nElem h \<or> nx = tail" using nx(2) fl(3) xs by (cases xs) (auto simp: deleted_by_used)
  ultimately show ?thesis using nx(1) by blast
qed

lemma risk_slot_alloc_ok:
  assumes inv: "gh_inv env h" and g: "grants env" and room: "nElem h < 2 ^ 31"
  shows "\<exists>h' slot. risk_slot_alloc env h = Inr (h', slot) \<and> alloc_ok h h' slot"
proof -
  obtain h1 where h1: "alloc_no_reuse env h = Inr (h1, nElem h)"
      "alloc_ok h (h1\<lparr>nl_link := (nl_link h1)[nElem h := tail]\<rparr>) (nElem h)"
    using alloc_no_reuse_ok [OF assms] by blast
  have f: "free_ok h" using inv by (simp add: gh_inv_def node_inv_def)
  consider "freelist_size h = 0" | "freelist_size h \<noteq> 0" "\<not> m_enable_freelist_reuse h"
    | "freelist_size h \<noteq> 0" "m_enable_freelist_reuse h"
    by blast
  then show ?thesis
  proof cases
    case 1
    with h1 free_ok_head [OF f] show ?thesis by (simp add: risk_slot_alloc_def)
  next
    case 2
    with h1 show ?thesis by (simp add: risk_slot_alloc_def)
  next
    case 3
    from slot_reuse_ok [OF inv 3(1)] free_ok_head_less [OF f 3(1)] 3 show ?thesis
      by (auto simp: risk_slot_alloc_def)
  qed
qed

section \<open>Insertion\<close>

lemma gh_inv_inj: "gh_inv env h \<Longrightarrow> inj_on (key_at env h) (used h)"
  by (simp add: gh_inv_def node_inv_def)

lemma table_map_insert:
  assumes "gh_inv env h" and "gh_inv env h'" and "ran (slot_map h') = insert e (ran (slot_map h))"
    and "table_map env h (key_of env e) = None"
  shows "table_map env h' = (table_map env h)(key_of env e \<mapsto> e)"
proof (rule ext, rule option.expand)
  note iff = table_map_iff [OF gh_inv_inj [OF assms(1)]] and iff' = table_map_iff [OF gh_inv_inj [OF assms(2)]]
  fix k
  have "table_map env h' k = Some x \<longleftrightarrow> ((table_map env h)(key_of env e \<mapsto> e)) k = Some x" for x
    using assms(3,4) by (auto simp: iff iff' table_map_None image_iff)
  then show "(table_map env h' k = None) = (((table_map env h)(key_of env e \<mapsto> e)) k = None)"
    and "table_map env h' k \<noteq> None \<Longrightarrow> ((table_map env h)(key_of env e \<mapsto> e)) k \<noteq> None \<Longrightarrow>
      the (table_map env h' k) = the (((table_map env h)(key_of env e \<mapsto> e)) k)"
    by (metis not_None_eq, metis option.exhaust_sel)
qed

text \<open>Which slots hold what after an element was put into an allocated slot, whatever its key.\<close>

lemma place_elem_slots:
  assumes inv: "gh_inv env h" and i: "i < nBucket h" and ok: "alloc_ok h h1 slot"
  shows "used (place_elem h1 slot i e) = insert slot (used h)"
    and "nl_data (place_elem h1 slot i e) ! slot = Live e"
    and "p \<in> used h \<Longrightarrow> nl_data (place_elem h1 slot i e) ! p = nl_data h ! p"
    and "slot_map (place_elem h1 slot i e) = (slot_map h)(slot \<mapsto> e)"
    and "\<forall>p\<in>used (place_elem h1 slot i e). is_live (nl_data (place_elem h1 slot i e) ! p) \<and>
      p < length (nl_data (place_elem h1 slot i e))"
proof -
  let ?h = "place_elem h1 slot i e"
  have b: "length (bucket h) = nBucket h" "index_ok (hash_at env h) (used h) (nl_link h) (bucket h)"
    using inv by (simp_all add: gh_inv_def bucket_inv_def)
  have a: "sizes_ok h1" "slot < nElem h1" "slot \<notin> used h" "used h1 = insert slot (used h)" "bucket h1 = bucket h"
      "\<forall>p\<in>used h. nl_data h1 ! p = nl_data h ! p"
    using ok by (simp_all add: alloc_ok_def)
  have s: "length (nl_data h1) = maxElem h1" "length (nl_link h1) = maxElem h1" "nElem h1 \<le> maxElem h1"
    using a(1) by (simp_all add: sizes_ok_def)
  have slot: "slot < maxElem h1" using a(2) s by simp
  have "length (nl_link h) \<le> delmark" using inv by (simp add: gh_inv_def node_inv_def sizes_ok_def)
  with index_ok_head [OF b(2), of i] i b(1) a(5) have head: "bucket h1 ! i \<noteq> delmark" by auto
  have in1: "slot \<in> used h1" using a(4) by simp
  show u: "used ?h = insert slot (used h)"
  proof (rule set_eqI)
    fix p
    show "p \<in> used ?h \<longleftrightarrow> p \<in> insert slot (used h)"
      unfolding a(4) [symmetric] using head a(2) slot s in1 by (cases "p = slot") (auto simp: used_def place_elem_def)
  qed
  show data: "nl_data ?h ! p = nl_data h ! p" if "p \<in> used h" for p
    using that a(3,6) by (cases "p = slot") (auto simp: place_elem_def)
  show data_slot: "nl_data ?h ! slot = Live e" using slot s by (simp add: place_elem_def)
  show "slot_map ?h = (slot_map h)(slot \<mapsto> e)"
  proof (rule ext)
    fix p
    show "slot_map ?h p = ((slot_map h)(slot \<mapsto> e)) p"
      using u data data_slot by (cases "p = slot") (simp_all add: slot_map_by_used)
  qed
  have "\<forall>p\<in>used h. is_live (nl_data h ! p)" using inv by (simp add: gh_inv_def node_inv_def)
  moreover have "p < length (nl_data ?h)" if "p \<in> used ?h" for p
    using used_less [OF that] s by (simp add: place_elem_def)
  ultimately show "\<forall>p\<in>used ?h. is_live (nl_data ?h ! p) \<and> p < length (nl_data ?h)"
    using u data data_slot by auto
qed

lemma place_elem_inv:
  assumes inv: "gh_inv env h" and nb: "5 \<le> nBucket h" and ok: "alloc_ok h h1 slot"
    and new: "table_map env h (key_of env e) = None" and i: "i = hash_fn env (key_of env e) mod nBucket h"
  shows "gh_inv env (place_elem h1 slot i e) \<and> slot_map (place_elem h1 slot i e) = (slot_map h)(slot \<mapsto> e) \<and>
    nElem (place_elem h1 slot i e) = nElem h1"
proof -
  let ?h = "place_elem h1 slot i e"
  have b: "length (bucket h) = nBucket h" "index_ok (hash_at env h) (used h) (nl_link h) (bucket h)"
    using inv by (simp_all add: gh_inv_def bucket_inv_def)
  have a: "sizes_ok h1" "slot < nElem h1" "slot \<notin> used h" "used h1 = insert slot (used h)" "free_ok h1"
      "bucket h1 = bucket h" "nBucket h1 = nBucket h"
      "\<forall>p\<in>used h. nl_data h1 ! p = nl_data h ! p \<and> nl_link h1 ! p = nl_link h ! p"
    using ok by (simp_all add: alloc_ok_def)
  have s: "length (nl_data h1) = maxElem h1" "length (nl_link h1) = maxElem h1" "nElem h1 \<le> maxElem h1" "maxElem h1 \<le> delmark"
    using a(1) by (simp_all add: sizes_ok_def)
  have slot: "LinkTp slot = slot" "slot < maxElem h1" using a(2) s by (simp_all add: delmark_less_wrap)
  have ib: "i < nBucket h" using i nb by simp
  note placed = place_elem_slots [OF inv ib ok, where e = e]
  note u = placed(1) and data_slot = placed(2) and data = placed(3)
  have hs: "\<forall>p\<in>used h. hash_at env ?h p = hash_at env h p" using data by (simp add: hash_at_def key_at_def)
  have less: "p < length (nl_link h1)" if "p \<in> used h" for p
    using that a(4) s used_less [of p h1] by auto
  have "index_ok (hash_at env ?h) (used h) (nl_link h1) (bucket h1)"
    unfolding a(6) by (rule index_ok_cong [OF b(2)]) (use less a(8) hs in blast)
  moreover have "hash_at env ?h slot mod length (bucket h1) = i"
    using data_slot i b(1) a(6) by (simp add: hash_at_def key_at_def)
  ultimately have idx: "index_ok (hash_at env ?h) (insert slot (used h)) ((nl_link h1)[slot := bucket h1 ! i]) ((bucket h1)[i := slot])"
    using a(3) slot s nb b(1) a(6) by (intro index_ok_push) auto
  have "deleted ?h = deleted h1" using a(4) u by (auto simp: deleted_by_used place_elem_def)
  moreover obtain fl where fl: "fchain (nl_data h1) (freelist_head h1) fl" "distinct fl" "set fl = deleted h1" "length fl = freelist_size h1"
    using a(5) unfolding free_ok_def by blast
  moreover have "fchain (nl_data ?h) (freelist_head h1) fl"
  proof (rule fchain_cong [OF _ fl(1)])
    show "\<forall>x\<in>set fl. x < length (nl_data ?h) \<and> nl_data ?h ! x = nl_data h1 ! x"
    proof
      fix x
      assume "x \<in> set fl"
      then have x: "x < nElem h1" "x \<noteq> slot" using fl(3) a(4) by (auto simp: deleted_by_used)
      with s show "x < length (nl_data ?h) \<and> nl_data ?h ! x = nl_data h1 ! x" by (simp add: place_elem_def)
    qed
  qed
  ultimately have "free_ok ?h" unfolding free_ok_def by (intro exI [of _ fl]) (simp add: place_elem_def)
  moreover have "\<forall>p\<in>used ?h. is_live (nl_data ?h ! p)" using placed(5) by blast
  moreover have "inj_on (key_at env ?h) (used ?h)"
  proof -
    have k: "key_at env ?h p = key_at env h p" if "p \<in> used h" for p using data [OF that] by (simp add: key_at_def)
    have "key_at env ?h slot = key_of env e" using data_slot by (simp add: key_at_def)
    moreover have "key_of env e \<noteq> key_at env h p" if "p \<in> used h" for p
      using new table_map_at [OF gh_inv_inj [OF inv] that] by auto
    ultimately show ?thesis using k u gh_inv_inj [OF inv] a(3) unfolding inj_on_def by (metis insert_iff)
  qed
  moreover have "sizes_ok ?h" using a(1) by (simp add: place_elem_def sizes_ok_def)
  ultimately have "node_inv env ?h" by (simp add: node_inv_def)
  moreover have "bucket_inv ?h" using nb b(1) a(6,7) by (simp add: bucket_inv_def place_elem_def)
  moreover have "index_ok (hash_at env ?h) (used ?h) (nl_link ?h) (bucket ?h)"
    using idx u slot by (simp add: place_elem_def)
  ultimately show ?thesis using placed(4) by (simp add: gh_inv_def place_elem_def)
qed

text \<open>Making room: after the test of \<open>maxload\<close> the table has real buckets, and \<open>i\<close> is one of them.\<close>

lemma make_room:
  assumes inv: "gh_inv env h" and g: "grants env"
  shows "\<exists>h'. (if nElem h - freelist_size h \<ge> maxload h
      then bind_res (rehash env h (nBucket h + 1)) (\<lambda>(h, nb). Inr (h, hs mod nb))
      else Inr (h, hs mod nBucket h)) = Inr (h', hs mod nBucket h') \<and>
    gh_inv env h' \<and> same_nodes h h' \<and> 5 \<le> nBucket h'"
proof (cases "nElem h - freelist_size h \<ge> maxload h")
  case True
  obtain h' where "rehash env h (nBucket h + 1) = Inr (h', nBucket h')" "gh_inv env h'" "same_nodes h h'" "5 \<le> nBucket h'"
    using rehash_inv [OF inv g, of "nBucket h + 1"] by blast
  with True show ?thesis by (intro exI [of _ h']) simp
next
  case False
  then have "nBucket h \<noteq> 1" using inv by (auto simp: gh_inv_def bucket_inv_def)
  with inv False show ?thesis by (intro exI [of _ h]) (auto simp: gh_inv_def bucket_inv_def)
qed

lemma insert_new:
  assumes inv: "gh_inv env h" and g: "grants env" and room: "nElem h < 2 ^ 31"
    and new: "table_map env h (key_of env e) = None" and k: "hs = hash_fn env (key_of env e)"
  shows "\<exists>h' slot. bind_res
      (if nElem h - freelist_size h \<ge> maxload h
       then bind_res (rehash env h (nBucket h + 1)) (\<lambda>(h, nb). Inr (h, hs mod nb))
       else Inr (h, hs mod nBucket h))
      (\<lambda>(h, i). bind_res (risk_slot_alloc env h) (\<lambda>(h, slot). Inr (place_elem h slot i e, slot))) = Inr (h', slot) \<and>
    gh_inv env h' \<and> slot_map h slot = None \<and> slot_map h' = (slot_map h)(slot \<mapsto> e) \<and>
    table_map env h' = (table_map env h)(key_of env e \<mapsto> e) \<and> nElem h' \<le> Suc (nElem h)"
proof -
  obtain h1 where h1: "(if nElem h - freelist_size h \<ge> maxload h
      then bind_res (rehash env h (nBucket h + 1)) (\<lambda>(h, nb). Inr (h, hs mod nb))
      else Inr (h, hs mod nBucket h)) = Inr (h1, hs mod nBucket h1)" "gh_inv env h1" "same_nodes h h1" "5 \<le> nBucket h1"
    using make_room [OF inv g, of hs] by blast
  note f = same_nodes_facts [OF h1(3)]
  have "nElem h1 < 2 ^ 31" using room h1(3) by (simp add: same_nodes_def)
  then obtain h2 slot where h2: "risk_slot_alloc env h1 = Inr (h2, slot)" "alloc_ok h1 h2 slot"
    using risk_slot_alloc_ok [OF h1(2) g] by blast
  let ?h = "place_elem h2 slot (hs mod nBucket h1) e"
  have p: "gh_inv env ?h" "slot_map ?h = (slot_map h1)(slot \<mapsto> e)" "nElem ?h = nElem h2"
    using place_elem_inv [OF h1(2,4) h2(2), of e "hs mod nBucket h1"] new k f(3) [of env] by simp_all
  have free: "slot_map h slot = None"
    using h2(2) h1(3) by (simp add: alloc_ok_def slot_map_by_used same_nodes_def)
  then have "ran (slot_map ?h) = insert e (ran (slot_map h))" using p(2) f(1) by (simp add: ran_map_upd)
  from table_map_insert [OF inv p(1) this new]
  have "table_map env ?h = (table_map env h)(key_of env e \<mapsto> e)" .
  moreover have "nElem ?h \<le> Suc (nElem h)" using p(3) h2(2) h1(3) by (simp add: alloc_ok_def same_nodes_def)
  ultimately show ?thesis using h1(1) h2(1) p f(1) free by (intro exI [of _ ?h] exI [of _ slot]) simp
qed

lemma insert_i_old:
  assumes "gh_inv env h" and "table_map env h (key_of env e) = Some e'"
  shows "\<exists>p. insert_i env h e = Inr (h, p, False) \<and> slot_map h p = Some e'"
  using find_bucket(1) [OF assms]
  by (fastforce simp: insert_i_def lazy_insert_elem_i_def lazy_insert_elem_with_hash_i_def Let_def)

lemma insert_i_new:
  assumes inv: "gh_inv env h" and g: "grants env" and room: "nElem h < 2 ^ 31"
    and new: "table_map env h (key_of env e) = None"
  shows "\<exists>h' p. insert_i env h e = Inr (h', p, True) \<and> gh_inv env h' \<and> slot_map h p = None \<and>
    slot_map h' = (slot_map h)(p \<mapsto> e) \<and> table_map env h' = (table_map env h)(key_of env e \<mapsto> e) \<and> nElem h' \<le> Suc (nElem h)"
proof -
  let ?hs = "hash_fn env (key_of env e)"
  obtain h' p where i: "bind_res
      (if nElem h - freelist_size h \<ge> maxload h
       then bind_res (rehash env h (nBucket h + 1)) (\<lambda>(h, nb). Inr (h, ?hs mod nb))
       else Inr (h, ?hs mod nBucket h))
      (\<lambda>(h, i). bind_res (risk_slot_alloc env h) (\<lambda>(h, slot). Inr (place_elem h slot i e, slot))) = Inr (h', p)"
    and r: "gh_inv env h'" "slot_map h p = None" "slot_map h' = (slot_map h)(p \<mapsto> e)"
      "table_map env h' = (table_map env h)(key_of env e \<mapsto> e)" "nElem h' \<le> Suc (nElem h)"
    using insert_new [OF assms refl] by blast
  have "insert_i env h e = bind_res (bind_res
      (if nElem h - freelist_size h \<ge> maxload h
       then bind_res (rehash env h (nBucket h + 1)) (\<lambda>(h, nb). Inr (h, ?hs mod nb))
       else Inr (h, ?hs mod nBucket h))
      (\<lambda>(h, i). bind_res (risk_slot_alloc env h) (\<lambda>(h, slot). Inr (place_elem h slot i e, slot)))) (\<lambda>(h, p). Inr (h, p, True))"
    using find_bucket(2) [OF inv new]
    by (simp add: insert_i_def lazy_insert_elem_i_def lazy_insert_elem_with_hash_i_def Let_def bind_res_assoc
        case_prod_unfold)
  with i r show ?thesis by simp
qed

text \<open>The insertions with a bucket computed before, and those with a \<open>pre_insert\<close> that left a sound table without
  the key.\<close>

lemma hint_insert_new:
  assumes inv: "gh_inv env h" and g: "grants env" and room: "nElem h < 2 ^ 31"
    and new: "table_map env h (key_of env e) = None" and hs: "hs = hash_fn env (key_of env e)"
  shows "\<exists>h' slot. hint_insert_elem_with_hash_i env h (key_of env e) hs (hs mod nBucket h) e = Inr (h', slot) \<and>
    gh_inv env h' \<and> slot_map h slot = None \<and> slot_map h' = (slot_map h)(slot \<mapsto> e)"
proof -
  have "hint_insert_elem_with_hash_i env h (key_of env e) hs (hs mod nBucket h) e = bind_res
      (if nElem h - freelist_size h \<ge> maxload h
       then bind_res (rehash env h (nBucket h + 1)) (\<lambda>(h, nb). Inr (h, hs mod nb))
       else Inr (h, hs mod nBucket h))
      (\<lambda>(h, i). bind_res (risk_slot_alloc env h) (\<lambda>(h, slot). Inr (place_elem h slot i e, slot)))"
    unfolding hint_insert_elem_with_hash_i_def hs find_bucket(2) [OF inv new] by simp
  with insert_new [OF assms] show ?thesis by metis
qed

lemma place_after_pre_eq:
  "place_after_pre env h hs nb (hs mod nb) e = bind_res
      (if nElem h - freelist_size h \<ge> maxload h
       then bind_res (rehash env h (nBucket h + 1)) (\<lambda>(h, nb). Inr (h, hs mod nb))
       else Inr (h, hs mod nBucket h))
      (\<lambda>(h, i). bind_res (risk_slot_alloc env h) (\<lambda>(h, slot). Inr (place_elem h slot i e, slot)))"
  by (simp add: place_after_pre_def)

lemma place_after_pre_new:
  assumes "gh_inv env h" and "grants env" and "nElem h < 2 ^ 31"
    and "table_map env h (key_of env e) = None" and "hs = hash_fn env (key_of env e)"
  shows "\<exists>h' slot. place_after_pre env h hs nb (hs mod nb) e = Inr (h', slot) \<and> gh_inv env h'"
  unfolding place_after_pre_eq using insert_new [OF assms] by metis

lemma place_after_pre_slots:
  assumes inv: "gh_inv env h" and g: "grants env" and room: "nElem h < 2 ^ 31"
  shows "\<exists>h' slot. place_after_pre env h hs nb (hs mod nb) e = Inr (h', slot) \<and> slot \<notin> used h \<and>
    slot_map h' = (slot_map h)(slot \<mapsto> e) \<and> (\<forall>p\<in>used h'. is_live (nl_data h' ! p) \<and> p < length (nl_data h'))"
proof -
  obtain h1 where h1: "(if nElem h - freelist_size h \<ge> maxload h
      then bind_res (rehash env h (nBucket h + 1)) (\<lambda>(h, nb). Inr (h, hs mod nb))
      else Inr (h, hs mod nBucket h)) = Inr (h1, hs mod nBucket h1)" "gh_inv env h1" "same_nodes h h1" "5 \<le> nBucket h1"
    using make_room [OF inv g, of hs] by blast
  note f = same_nodes_facts [OF h1(3)]
  have "nElem h1 < 2 ^ 31" using room h1(3) by (simp add: same_nodes_def)
  then obtain h2 slot where h2: "risk_slot_alloc env h1 = Inr (h2, slot)" "alloc_ok h1 h2 slot"
    using risk_slot_alloc_ok [OF h1(2) g] by blast
  have "hs mod nBucket h1 < nBucket h1" using h1(4) by simp
  note placed = place_elem_slots [OF h1(2) this h2(2), where e = e]
  have "place_after_pre env h hs nb (hs mod nb) e = Inr (place_elem h2 slot (hs mod nBucket h1) e, slot)"
    unfolding place_after_pre_eq h1(1) using h2(1) by simp
  moreover have "slot \<notin> used h" using h2(2) h1(3) by (simp add: alloc_ok_def same_nodes_def)
  ultimately show ?thesis using placed(4,5) f(1) by (intro exI [of _ "place_elem h2 slot (hs mod nBucket h1) e"] exI [of _ slot]) simp
qed

lemma lazy_insert_pre_inv:
  assumes inv: "gh_inv env h" and g: "grants env"
    and pre: "pre_insert h = Inr (h1, go)" "gh_inv env h1"
    and ready: "go \<Longrightarrow> nElem h1 < 2 ^ 31 \<and> table_map env h1 (key_of env e) = None"
  shows "\<exists>h' r. lazy_insert_elem_with_hash_pre env h (key_of env e) (hash_fn env (key_of env e)) e pre_insert = Inr (h', r) \<and>
    gh_inv env h'"
proof (cases "table_map env h (key_of env e)")
  case None
  note f = find_bucket(2) [OF inv None]
  show ?thesis
  proof (cases go)
    case True
    obtain h' slot where "place_after_pre env h1 (hash_fn env (key_of env e)) (nBucket h)
        (hash_fn env (key_of env e) mod nBucket h) e = Inr (h', slot)" "gh_inv env h'"
      using place_after_pre_new [OF pre(2) g, of e _ "nBucket h"] ready True by blast
    with True pre show ?thesis unfolding lazy_insert_elem_with_hash_pre_def Let_def f by auto
  next
    case False
    with pre show ?thesis unfolding lazy_insert_elem_with_hash_pre_def Let_def f by auto
  qed
next
  case (Some e')
  then obtain p where f: "find_loop env h (key_of env e) (Suc (nElem h))
      (bucket h ! (hash_fn env (key_of env e) mod nBucket h)) = Inr (Some p)"
    using find_bucket(1) [OF inv] by blast
  show ?thesis unfolding lazy_insert_elem_with_hash_pre_def Let_def f using inv by auto
qed

section \<open>Erasure\<close>

lemma live_elems_slot_map: "live_elems h = map (\<lambda>p. the (slot_map h p)) (filter (\<lambda>p. slot_map h p \<noteq> None) [0..<nElem h])"
proof -
  have "filter (\<lambda>p. p \<in> used h) [0..<nElem h] = filter (\<lambda>p. slot_map h p \<noteq> None) [0..<nElem h]"
    by (rule filter_cong) (auto simp: slot_map_by_used)
  then show ?thesis unfolding live_elems_by_used by (auto simp: slot_map_by_used)
qed

lemma live_elems_remove:
  assumes inj: "inj_on (key_at env h) (used h)" and q: "q \<in> used h"
    and "slot_map h' = (slot_map h)(q := None)" and "nElem h' = nElem h"
  shows "live_elems h' = filter (\<lambda>e. key_of env e \<noteq> key_at env h q) (live_elems h)"
proof -
  let ?n = "[0..<nElem h]"
  have "filter (\<lambda>e. key_of env e \<noteq> key_at env h q) (live_elems h) =
      map (\<lambda>p. elem_of (nl_data h ! p)) (filter (\<lambda>p. key_at env h p \<noteq> key_at env h q) (filter (\<lambda>p. p \<in> used h) ?n))"
    by (simp add: live_elems_by_used filter_map comp_def key_at_def)
  also have "filter (\<lambda>p. key_at env h p \<noteq> key_at env h q) (filter (\<lambda>p. p \<in> used h) ?n) = filter (\<lambda>p. p \<in> used h \<and> p \<noteq> q) ?n"
    unfolding filter_filter using inj q by (intro filter_cong) (auto simp: inj_on_def)
  also have "map (\<lambda>p. elem_of (nl_data h ! p)) (filter (\<lambda>p. p \<in> used h \<and> p \<noteq> q) ?n) =
      map (\<lambda>p. the (slot_map h' p)) (filter (\<lambda>p. slot_map h' p \<noteq> None) ?n)"
  proof -
    have "filter (\<lambda>p. p \<in> used h \<and> p \<noteq> q) ?n = filter (\<lambda>p. slot_map h' p \<noteq> None) ?n"
      unfolding assms(3) by (rule filter_cong) (auto simp: slot_map_by_used)
    then show ?thesis unfolding assms(3) by (auto simp: slot_map_by_used)
  qed
  finally show ?thesis by (simp add: live_elems_slot_map [of h'] assms(4))
qed

lemma table_map_filter:
  assumes inj: "inj_on (key_at env h) (used h)" and inj': "inj_on (key_at env h') (used h')"
    and "live_elems h' = filter P (live_elems h)"
  shows "table_map env h' k = (case table_map env h k of Some e \<Rightarrow> if P e then Some e else None | None \<Rightarrow> None)"
proof -
  have r: "ran (slot_map h') = {e \<in> ran (slot_map h). P e}"
    using assms(3) by (simp flip: set_live_elems)
  have s: "table_map env h' k = Some e \<longleftrightarrow> table_map env h k = Some e \<and> P e" for e
    unfolding table_map_iff [OF inj] table_map_iff [OF inj'] r by auto
  show "table_map env h' k = (case table_map env h k of Some e \<Rightarrow> if P e then Some e else None | None \<Rightarrow> None)"
  proof (cases "table_map env h' k")
    case None
    with s show ?thesis by (cases "table_map env h k") auto
  next
    case (Some e)
    with s [of e] show ?thesis by simp
  qed
qed

text \<open>Freeing a slot that has been taken out of its list.\<close>

lemma free_unlinked:
  assumes inv: "gh_inv env h" and q: "q \<in> used h"
    and L: "length L = length (nl_link h)" "\<forall>p<nElem h. L ! p = delmark \<longleftrightarrow> nl_link h ! p = delmark"
    and B: "length B = length (bucket h)" and idx: "index_ok (hash_at env h) (used h - {q}) L B"
  shows "\<exists>h'. fast_slot_free env (h\<lparr>nl_link := L, bucket := B\<rparr>) q = Inr h' \<and> gh_inv env h' \<and>
    live_elems h' = filter (\<lambda>e. key_of env e \<noteq> key_at env h q) (live_elems h) \<and>
    table_map env h' = (table_map env h)(key_at env h q := None) \<and> nElem h' \<le> nElem h \<and>
    m_enable_auto_gc h' = m_enable_auto_gc h \<and> m_enable_freelist_reuse h' = m_enable_freelist_reuse h \<and>
    (\<not> (m_enable_auto_gc h \<and> m_enable_freelist_reuse h) \<longrightarrow>
       slot_map h' = (slot_map h)(q := None) \<and> nElem h' = nElem h \<and> freelist_size h' = Suc (freelist_size h))"
proof -
  have s: "sizes_ok h" "length (nl_data h) = maxElem h" "length (nl_link h) = maxElem h" "nElem h \<le> maxElem h" "maxElem h \<le> delmark"
    using inv by (auto simp: gh_inv_def node_inv_def sizes_ok_def)
  have qn: "q < nElem h" "LinkTp q = q" using q used_less s(4,5) by (auto intro!: delmark_less_wrap dest!: used_less)
  let ?h = "h\<lparr>bucket := B, nl_link := L[q := delmark], nl_data := (nl_data h)[q := Salt (freelist_head h)],
              freelist_size := Suc (freelist_size h), freelist_head := q\<rparr>"
  have u: "used ?h = used h - {q}"
    using L qn s(3,4) by (auto simp: used_def nth_list_update)
  have d: "deleted ?h = insert q (deleted h)" using u qn q by (auto simp: deleted_by_used)
  have data: "nl_data ?h ! p = nl_data h ! p" if "p \<noteq> q" for p using that by simp
  obtain fl where fl: "fchain (nl_data h) (freelist_head h) fl" "distinct fl" "set fl = deleted h" "length fl = freelist_size h"
    using inv by (auto simp: gh_inv_def node_inv_def free_ok_def)
  have qfl: "q \<notin> set fl" using fl(3) q by (simp add: deleted_by_used)
  have fc: "fchain (nl_data ?h) (freelist_head h) fl"
  proof (rule fchain_cong [OF _ fl(1)])
    show "\<forall>x\<in>set fl. x < length (nl_data ?h) \<and> nl_data ?h ! x = nl_data h ! x"
    proof
      fix x
      assume "x \<in> set fl"
      then have "x < nElem h" "x \<noteq> q" using fl(3) qfl by (auto simp: deleted_def)
      with s show "x < length (nl_data ?h) \<and> nl_data ?h ! x = nl_data h ! x" by simp
    qed
  qed
  have "free_ok ?h" unfolding free_ok_def using fc qn s fl(2,4) qfl d fl(3) by (intro exI [of _ "q # fl"]) simp
  moreover have "\<forall>p\<in>used ?h. is_live (nl_data ?h ! p)"
    using inv data unfolding u by (auto simp: gh_inv_def node_inv_def)
  moreover have "inj_on (key_at env ?h) (used ?h)"
    using gh_inv_inj [OF inv] data unfolding u by (auto simp: inj_on_def key_at_def)
  moreover have "sizes_ok ?h" using s(1) L(1) by (simp add: sizes_ok_def)
  ultimately have ni: "node_inv env ?h" by (simp add: node_inv_def)
  have "index_ok (hash_at env ?h) (used h - {q}) (L[q := delmark]) B"
    by (rule index_ok_cong [OF idx]) (use L(1) s in \<open>auto simp: hash_at_def key_at_def dest!: used_less\<close>)
  then have gi: "gh_inv env ?h" using ni inv B qn(1) unfolding gh_inv_def u by (auto simp: bucket_inv_def)
  have sm: "slot_map ?h = (slot_map h)(q := None)"
  proof
    fix p
    show "slot_map ?h p = ((slot_map h)(q := None)) p"
      unfolding slot_map_by_used [of ?h] u by (simp add: slot_map_by_used)
  qed
  have le: "live_elems ?h = filter (\<lambda>e. key_of env e \<noteq> key_at env h q) (live_elems h)"
    by (rule live_elems_remove [OF gh_inv_inj [OF inv] q sm]) simp
  have tm: "table_map env h' = (table_map env h)(key_at env h q := None)"
    if "gh_inv env h'" "live_elems h' = live_elems ?h" for h'
  proof
    fix k
    have "table_map env h' k = (case table_map env h k of Some e \<Rightarrow> if key_of env e \<noteq> key_at env h q then Some e else None | None \<Rightarrow> None)"
      using that le by (intro table_map_filter gh_inv_inj inv) simp_all
    moreover have "key_of env e = k" if "table_map env h k = Some e" for e
      using that table_map_iff [OF gh_inv_inj [OF inv]] by blast
    ultimately show "table_map env h' k = ((table_map env h)(key_at env h q := None)) k"
      by (cases "table_map env h k") auto
  qed
  have free: "fast_slot_free env (h\<lparr>nl_link := L, bucket := B\<rparr>) q =
      (if \<not> m_enable_freelist_reuse h then Inr ?h
       else if m_enable_auto_gc h \<and> freelist_size ?h > nElem h div 2 then bind_res (revoke_deleted env ?h) (\<lambda>(h, _). Inr h)
       else Inr ?h)"
    using used_slot(2) [OF gh_inv_node [OF inv] q] qn by (simp add: fast_slot_free_def Let_def)
  show ?thesis
  proof (cases "m_enable_freelist_reuse h \<and> m_enable_auto_gc h \<and> freelist_size ?h > nElem h div 2")
    case True
    obtain h' where h': "revoke_deleted env ?h = Inr (h', freelist_size ?h)" "gh_inv env h'" "live_elems h' = live_elems ?h"
        "nElem h' \<le> nElem ?h" "m_enable_auto_gc h' = m_enable_auto_gc ?h" "m_enable_freelist_reuse h' = m_enable_freelist_reuse ?h"
      using revoke_deleted_inv [OF gi] by blast
    with True free tm [OF h'(2,3)] le show ?thesis by (intro exI [of _ h']) simp
  next
    case False
    then have "fast_slot_free env (h\<lparr>nl_link := L, bucket := B\<rparr>) q = Inr ?h" using free by auto
    with gi le tm [OF gi refl] sm show ?thesis by (intro exI [of _ ?h]) simp
  qed
qed

text \<open>The slot with a given key, and the list of its bucket around it.\<close>

lemma slot_in_chain:
  assumes inv: "gh_inv env h" and q: "q \<in> used h"
  shows "\<exists>ys zs. chain (nl_link h) (bucket h ! (hash_at env h q mod nBucket h)) (ys @ q # zs) \<and> distinct (ys @ q # zs) \<and>
    set (ys @ q # zs) = {p \<in> used h. hash_at env h p mod nBucket h = hash_at env h q mod nBucket h} \<and>
    length (ys @ q # zs) < Suc (nElem h)"
proof -
  obtain xs where xs: "chain (nl_link h) (bucket h ! (hash_at env h q mod nBucket h)) xs" "distinct xs"
      "set xs = {p \<in> used h. hash_at env h p mod nBucket h = hash_at env h q mod nBucket h}" "length xs < Suc (nElem h)"
    using bucket_chain [OF inv] by blast
  with q have "q \<in> set xs" by simp
  then obtain ys zs where "xs = ys @ q # zs" using split_list by metis
  with xs show ?thesis by blast
qed

text \<open>Unlinking and freeing it: what \<open>erase\<close> and \<open>erase_i\<close> do once they have found it.\<close>

lemma unlink_and_free:
  assumes inv: "gh_inv env h" and q: "q \<in> used h"
    and c: "chain (nl_link h) (bucket h ! (hash_at env h q mod nBucket h)) (ys @ q # zs)" "distinct (ys @ q # zs)"
      "set (ys @ q # zs) = {p \<in> used h. hash_at env h p mod nBucket h = hash_at env h q mod nBucket h}"
  shows "\<exists>h'. fast_slot_free env
      (write_ref h (if ys = [] then In_bucket (hash_at env h q mod nBucket h) else In_link (last ys)) (nl_link h ! q)) q = Inr h' \<and>
    gh_inv env h' \<and> live_elems h' = filter (\<lambda>e. key_of env e \<noteq> key_at env h q) (live_elems h) \<and>
    table_map env h' = (table_map env h)(key_at env h q := None) \<and> nElem h' \<le> nElem h \<and>
    m_enable_auto_gc h' = m_enable_auto_gc h \<and> m_enable_freelist_reuse h' = m_enable_freelist_reuse h \<and>
    (\<not> (m_enable_auto_gc h \<and> m_enable_freelist_reuse h) \<longrightarrow>
       slot_map h' = (slot_map h)(q := None) \<and> nElem h' = nElem h \<and> freelist_size h' = Suc (freelist_size h))"
proof -
  let ?i = "hash_at env h q mod nBucket h"
  have b: "length (bucket h) = nBucket h" "?i < length (bucket h)" using gh_inv_bucket [OF inv] by auto
  have idx: "index_ok (hash_at env h) (used h) (nl_link h) (bucket h)" using inv by (simp add: gh_inv_def)
  have s: "length (nl_link h) = maxElem h" "maxElem h \<le> delmark" "nElem h \<le> maxElem h"
    using inv by (simp_all add: gh_inv_def node_inv_def sizes_ok_def)
  note un = index_ok_unlink [OF idx b(2) c(1,2), unfolded b(1), OF c(3)]
  show ?thesis
  proof (cases "ys = []")
    case True
    have w: "write_ref h (In_bucket ?i) (nl_link h ! q) = h\<lparr>nl_link := nl_link h, bucket := (bucket h)[?i := nl_link h ! q]\<rparr>"
      by simp
    show ?thesis
      using free_unlinked [OF inv q, of "nl_link h" "(bucket h)[?i := nl_link h ! q]"] un True unfolding w by simp
  next
    case False
    define L where "L = (nl_link h)[last ys := nl_link h ! q]"
    have w: "write_ref h (In_link (last ys)) (nl_link h ! q) = h\<lparr>nl_link := L, bucket := bucket h\<rparr>"
      by (simp add: L_def)
    have "last ys \<in> set (ys @ q # zs)" using False by simp
    then have l: "last ys \<in> used h" unfolding c(3) by blast
    have "nl_link h ! q \<noteq> delmark" "nl_link h ! last ys \<noteq> delmark" using q l by (simp_all add: used_def)
    then have "L ! p = delmark \<longleftrightarrow> nl_link h ! p = delmark" if "p < nElem h" for p
      using s that by (cases "p = last ys") (auto simp: L_def)
    then show ?thesis
      using free_unlinked [OF inv q, of L "bucket h"] un False unfolding w by (simp add: L_def)
  qed
qed

text \<open>What erasing the slot \<open>q\<close> leaves.\<close>

definition erased :: "('k, 'e) gh_env \<Rightarrow> 'e gold_hash_tab \<Rightarrow> nat \<Rightarrow> 'e gold_hash_tab \<Rightarrow> bool" where
  "erased env h q h' \<longleftrightarrow>
     gh_inv env h' \<and> live_elems h' = filter (\<lambda>e. key_of env e \<noteq> key_at env h q) (live_elems h) \<and>
     table_map env h' = (table_map env h)(key_at env h q := None) \<and> nElem h' \<le> nElem h \<and>
     m_enable_auto_gc h' = m_enable_auto_gc h \<and> m_enable_freelist_reuse h' = m_enable_freelist_reuse h \<and>
     (\<not> (m_enable_auto_gc h \<and> m_enable_freelist_reuse h) \<longrightarrow>
        slot_map h' = (slot_map h)(q := None) \<and> nElem h' = nElem h \<and> freelist_size h' = Suc (freelist_size h))"

lemma erase_walk_found:
  assumes inv: "gh_inv env h" and q: "q \<in> used h"
  shows "\<exists>curp h'. erase_walk env h (key_at env h q) (Suc (nElem h)) (In_bucket (hash_at env h q mod nBucket h)) =
      Inr (Some (curp, q, elem_of (nl_data h ! q))) \<and>
    fast_slot_free env (write_ref h curp (nl_link h ! q)) q = Inr h' \<and> erased env h q h'"
proof -
  obtain ys zs where c: "chain (nl_link h) (bucket h ! (hash_at env h q mod nBucket h)) (ys @ q # zs)" "distinct (ys @ q # zs)"
      "set (ys @ q # zs) = {p \<in> used h. hash_at env h p mod nBucket h = hash_at env h q mod nBucket h}"
      "length (ys @ q # zs) < Suc (nElem h)"
    using slot_in_chain [OF assms] by blast
  have "set ys \<subseteq> used h" using c(3) by auto
  then have other: "\<forall>x\<in>set ys. key_at env h q \<noteq> key_at env h x"
    using gh_inv_inj [OF inv] q c(2) by (auto simp: inj_on_def)
  have "set (ys @ q # zs) \<subseteq> used h" using c(3) by blast
  from erase_walk_chain(2) [OF _ this c(4) gh_inv_node [OF inv] refl other refl, of "In_bucket (hash_at env h q mod nBucket h)"]
  have "erase_walk env h (key_at env h q) (Suc (nElem h)) (In_bucket (hash_at env h q mod nBucket h)) =
      Inr (Some (if ys = [] then In_bucket (hash_at env h q mod nBucket h) else In_link (last ys), q, elem_of (nl_data h ! q)))"
    using c(1) by simp
  with unlink_and_free [OF inv q c(1-3)] show ?thesis unfolding erased_def by blast
qed

lemma erase_walk_none:
  assumes inv: "gh_inv env h" and "table_map env h k = None"
  shows "erase_walk env h k (Suc (nElem h)) (In_bucket (hash_fn env k mod nBucket h)) = Inr None"
proof -
  obtain xs where xs: "chain (nl_link h) (bucket h ! (hash_fn env k mod nBucket h)) xs"
      "set xs = {p \<in> used h. hash_at env h p mod nBucket h = hash_fn env k mod nBucket h}" "length xs < Suc (nElem h)"
    using bucket_chain [OF inv] by blast
  have "\<forall>x\<in>used h. k \<noteq> key_at env h x" using assms(2) table_map_at [OF gh_inv_inj [OF inv]] by auto
  then show ?thesis using xs gh_inv_node [OF inv] by (intro erase_walk_chain(1) [of h _ xs]) auto
qed

lemma table_map_slot:
  assumes "gh_inv env h" and "table_map env h k = Some e"
  shows "\<exists>q\<in>used h. key_at env h q = k \<and> elem_of (nl_data h ! q) = e \<and> slot_map h q = Some e"
  using assms(2) unfolding table_map_iff [OF gh_inv_inj [OF assms(1)]]
  by (auto simp: ran_def slot_map_by_used key_at_def split: if_splits)

lemma gh_erase_get_spec:
  assumes inv: "gh_inv env h"
  shows "table_map env h k = Some e \<Longrightarrow>
      \<exists>q h'. q \<in> used h \<and> key_at env h q = k \<and> gh_erase_get env h k = Inr (h', 1, Some e) \<and> gh_erase env h k = Inr (h', 1) \<and>
        erased env h q h'"
    and "table_map env h k = None \<Longrightarrow> gh_erase_get env h k = Inr (h, 0, None) \<and> gh_erase env h k = Inr (h, 0)"
proof -
  show "\<exists>q h'. q \<in> used h \<and> key_at env h q = k \<and> gh_erase_get env h k = Inr (h', 1, Some e) \<and> gh_erase env h k = Inr (h', 1) \<and>
        erased env h q h'" if k: "table_map env h k = Some e"
  proof -
    from table_map_slot [OF inv k] obtain q where q: "q \<in> used h" "key_at env h q = k" "elem_of (nl_data h ! q) = e" by blast
    obtain curp h' where w: "erase_walk env h k (Suc (nElem h)) (In_bucket (hash_fn env k mod nBucket h)) = Inr (Some (curp, q, e))"
        "fast_slot_free env (write_ref h curp (nl_link h ! q)) q = Inr h'" "erased env h q h'"
      using erase_walk_found [OF inv q(1)] q(2,3) unfolding hash_at_def by auto
    then show ?thesis using q by (intro exI [of _ q] exI [of _ h']) (simp add: gh_erase_get_def gh_erase_def Let_def)
  qed
  show "gh_erase_get env h k = Inr (h, 0, None) \<and> gh_erase env h k = Inr (h, 0)" if "table_map env h k = None"
    using erase_walk_none [OF inv that] by (simp add: gh_erase_get_def gh_erase_def Let_def)
qed

lemma erase_i_spec:
  assumes inv: "gh_inv env h" and q: "q \<in> used h"
  shows "\<exists>h'. erase_i env h q = Inr h' \<and> erase_with_hash_i env h q (hash_at env h q) = Inr h' \<and> erased env h q h'"
proof -
  obtain ys zs where c: "chain (nl_link h) (bucket h ! (hash_at env h q mod nBucket h)) (ys @ q # zs)" "distinct (ys @ q # zs)"
      "set (ys @ q # zs) = {p \<in> used h. hash_at env h p mod nBucket h = hash_at env h q mod nBucket h}"
      "length (ys @ q # zs) < Suc (nElem h)"
    using slot_in_chain [OF assms] by blast
  note sq = used_slot [OF gh_inv_node [OF inv] q]
  have sub: "set (ys @ q # zs) \<subseteq> {..<nElem h}" using c(3) used_less by auto
  have "bucket h ! (hash_at env h q mod nBucket h) \<in> set (ys @ q # zs)" using c(1) by (cases ys) auto
  with sub have head: "bucket h ! (hash_at env h q mod nBucket h) < nElem h" by auto
  have w: "unlink_walk h q (Suc (nElem h)) (In_bucket (hash_at env h q mod nBucket h)) =
      Inr (if ys = [] then In_bucket (hash_at env h q mod nBucket h) else In_link (last ys))"
    using c sub by (intro unlink_walk_chain [of h _ ys q zs]) auto
  have hash: "hash_i env h q = Inr (hash_at env h q)" using sq by (simp add: hash_i_def hash_at_def key_at_def)
  obtain h' where f: "fast_slot_free env
      (write_ref h (if ys = [] then In_bucket (hash_at env h q mod nBucket h) else In_link (last ys)) (nl_link h ! q)) q = Inr h'"
      "erased env h q h'"
    using unlink_and_free [OF inv q c(1-3)] unfolding erased_def by blast
  have "risk_unlink_with_hash_i env h q (hash_at env h q) =
      Inr (write_ref h (if ys = [] then In_bucket (hash_at env h q mod nBucket h) else In_link (last ys)) (nl_link h ! q))"
    using sq head w by (simp add: risk_unlink_with_hash_i_def Let_def)
  moreover have "nElem h \<ge> 1" using sq(1) by simp
  ultimately show ?thesis
    using f hash sq by (intro exI [of _ h']) (simp add: erase_i_def erase_with_hash_i_def risk_unlink_def)
qed

end
