(* ===== verification/Gold_Hash_Bulk.thy ===== *)
theory Gold_Hash_Bulk
  imports Gold_Hash_Laws "HOL-Library.Multiset"
begin

text \<open>
  The operations of \<open>gold_hash_tab\<close> on all elements: erasing by predicate, erasing everything, sorting,
  iterating, comparing, copying, saving and loading.
\<close>

section \<open>Erasing by predicate\<close>

text \<open>The slots from \<open>j\<close> to \<open>n\<close> hold the elements \<open>es\<close>.\<close>

definition holds_elems :: "'e cell list \<Rightarrow> nat \<Rightarrow> nat \<Rightarrow> 'e list \<Rightarrow> bool" where
  "holds_elems data j n es \<longleftrightarrow> j \<le> n \<and> n \<le> length data \<and> length es = n - j \<and> (\<forall>p<n - j. data ! (j + p) = Live (es ! p))"

lemma holds_elems_Nil [simp]: "holds_elems data j n [] \<longleftrightarrow> j = n \<and> n \<le> length data"
  by (auto simp: holds_elems_def)

lemma holds_elems_Cons:
  "holds_elems data j n (e # es) \<longleftrightarrow> j < n \<and> data ! j = Live e \<and> holds_elems data (Suc j) n es"
proof
  assume h: "holds_elems data j n (e # es)"
  then have "j < n" by (auto simp: holds_elems_def)
  moreover have "data ! (j + p) = Live ((e # es) ! p)" if "p < n - j" for p using h that by (simp add: holds_elems_def)
  from this [of 0] this [of "Suc p" for p] have "data ! j = Live e" "\<forall>p<n - Suc j. data ! (Suc j + p) = Live (es ! p)"
    using \<open>j < n\<close> by auto
  ultimately show "j < n \<and> data ! j = Live e \<and> holds_elems data (Suc j) n es" using h by (auto simp: holds_elems_def)
next
  assume h: "j < n \<and> data ! j = Live e \<and> holds_elems data (Suc j) n es"
  have "data ! (j + p) = Live ((e # es) ! p)" if "p < n - j" for p
    using h that by (cases p) (auto simp: holds_elems_def)
  with h show "holds_elems data j n (e # es)" by (auto simp: holds_elems_def)
qed

lemma holds_elems_cong:
  "holds_elems data j n es \<Longrightarrow> length data' = length data \<Longrightarrow> \<forall>p. j \<le> p \<and> p < n \<longrightarrow> data' ! p = data ! p \<Longrightarrow> holds_elems data' j n es"
  by (auto simp: holds_elems_def)

lemma dense_holds: "dense env h es \<Longrightarrow> holds_elems (nl_data h) 0 (nElem h) es"
  using dense_nth [of env h es] by (auto simp: holds_elems_def dense_def sizes_ok_def)

lemma first_match_spec:
  assumes "holds_elems data j n es"
  shows "\<forall>e\<in>set es. \<not> P e \<Longrightarrow> first_match P data [j..<n] = Inr None"
    and "es = as @ e # bs \<Longrightarrow> \<forall>e\<in>set as. \<not> P e \<Longrightarrow> P e \<Longrightarrow> first_match P data [j..<n] = Inr (Some (j + length as))"
proof -
  show "first_match P data [j..<n] = Inr None" if "\<forall>e\<in>set es. \<not> P e"
    using assms that by (induction es arbitrary: j) (auto simp: holds_elems_Cons upt_conv_Cons)
  show "first_match P data [j..<n] = Inr (Some (j + length as))" if "es = as @ e # bs" "\<forall>e\<in>set as. \<not> P e" "P e"
    using assms that
  proof (induction as arbitrary: j es)
    case (Cons a as)
    from Cons.prems have "holds_elems data (Suc j) n (as @ e # bs)" "j < n" "data ! j = Live a"
      by (simp_all add: holds_elems_Cons)
    with Cons.IH [OF this(1) refl] Cons.prems show ?case by (simp add: upt_conv_Cons)
  qed (simp add: holds_elems_Cons upt_conv_Cons)
qed

lemma erase_fast_loop_spec:
  assumes "holds_elems data j n es" and "i < j"
  shows "\<exists>data'. erase_fast_loop P [j..<n] i data = Inr (data', i + length (filter (\<lambda>e. \<not> P e) es)) \<and>
    length data' = length data \<and>
    take (i + length (filter (\<lambda>e. \<not> P e) es)) data' = take i data @ map Live (filter (\<lambda>e. \<not> P e) es)"
  using assms
proof (induction es arbitrary: i j data)
  case (Cons e es)
  from Cons.prems have j: "j < n" "data ! j = Live e" "n \<le> length data" and h: "holds_elems data (Suc j) n es"
    by (auto simp: holds_elems_Cons) (auto simp: holds_elems_def)
  show ?case
  proof (cases "P e")
    case True
    have "holds_elems (data[j := Raw]) (Suc j) n es" by (rule holds_elems_cong [OF h]) auto
    from Cons.IH [OF this, of i] Cons.prems(2) j True show ?thesis by (auto simp: upt_conv_Cons)
  next
    case False
    let ?d = "data[i := Live e, j := Raw]"
    have "holds_elems ?d (Suc j) n es" by (rule holds_elems_cong [OF h]) (use Cons.prems(2) in auto)
    from Cons.IH [OF this, of "Suc i"] Cons.prems(2) obtain data' where
      d: "erase_fast_loop P [Suc j..<n] (Suc i) ?d = Inr (data', Suc i + length (filter (\<lambda>e. \<not> P e) es))" "length data' = length data"
        "take (Suc i + length (filter (\<lambda>e. \<not> P e) es)) data' = take (Suc i) ?d @ map Live (filter (\<lambda>e. \<not> P e) es)"
      by auto
    have "take (Suc i) ?d = take i data @ [Live e]" using Cons.prems(2) j by (simp add: take_Suc_conv_app_nth)
    with d j False show ?thesis by (auto simp: upt_conv_Cons)
  qed
qed simp

lemma erase_safe_loop_spec:
  assumes "holds_elems data j n es" and "i < j" and "\<forall>p. i \<le> p \<and> p < j \<longrightarrow> is_live (data ! p)"
  shows "\<exists>data'. erase_safe_loop P [j..<n] i data = Inr (data', i + length (filter (\<lambda>e. \<not> P e) es)) \<and>
    length data' = length data \<and> (\<forall>p. i \<le> p \<and> p < n \<longrightarrow> is_live (data' ! p)) \<and>
    take (i + length (filter (\<lambda>e. \<not> P e) es)) data' = take i data @ map Live (filter (\<lambda>e. \<not> P e) es)"
  using assms
proof (induction es arbitrary: i j data)
  case (Cons e es)
  from Cons.prems have j: "j < n" "data ! j = Live e" "n \<le> length data" and h: "holds_elems data (Suc j) n es"
    by (auto simp: holds_elems_Cons) (auto simp: holds_elems_def)
  show ?case
  proof (cases "P e")
    case True
    have "is_live (data ! p)" if "i \<le> p" "p < Suc j" for p
      using that Cons.prems(3) j(2) by (cases "p = j") auto
    with Cons.IH [OF h, of i] Cons.prems(2) j True show ?thesis by (auto simp: upt_conv_Cons)
  next
    case False
    obtain e' where e': "data ! i = Live e'" using Cons.prems(2,3) by (cases "data ! i") auto
    let ?d = "data[i := Live e, j := Live e']"
    have "holds_elems ?d (Suc j) n es" by (rule holds_elems_cong [OF h]) (use Cons.prems(2) in auto)
    moreover have "is_live (?d ! p)" if "Suc i \<le> p" "p < Suc j" for p
      using that Cons.prems(2,3) j by (cases "p = j") auto
    ultimately obtain data' where
      d: "erase_safe_loop P [Suc j..<n] (Suc i) ?d = Inr (data', Suc i + length (filter (\<lambda>e. \<not> P e) es))" "length data' = length data"
        "take (Suc i + length (filter (\<lambda>e. \<not> P e) es)) data' = take (Suc i) ?d @ map Live (filter (\<lambda>e. \<not> P e) es)"
        "\<forall>p. Suc i \<le> p \<and> p < n \<longrightarrow> is_live (data' ! p)"
      using Cons.IH [of ?d "Suc j" "Suc i"] Cons.prems(2) by auto
    have t: "take (Suc i) ?d = take i data @ [Live e]" using Cons.prems(2) j by (simp add: take_Suc_conv_app_nth)
    have "data' ! i = Live e"
    proof -
      have "data' ! i = take (Suc i + length (filter (\<lambda>e. \<not> P e) es)) data' ! i" by simp
      also have "\<dots> = Live e" using Cons.prems(2) j unfolding d(3) t by (simp add: nth_append)
      finally show ?thesis .
    qed
    then have "is_live (data' ! p)" if "i \<le> p" "p < n" for p using that d(4) by (cases "p = i") auto
    with d(1-3) t e' j False show ?thesis by (auto simp: upt_conv_Cons)
  qed
qed simp

lemma inv_dense:
  assumes "node_inv env h" and "freelist_size h = 0"
  shows "dense env h (live_elems h)"
proof -
  have f: "free_ok h" and s: "sizes_ok h" using assms(1) by (simp_all add: node_inv_def)
  have u: "used h = {..<nElem h}" using free_ok_none [OF f] assms(2) by (auto simp: deleted_by_used used_def)
  then have l: "live_elems h = map (\<lambda>p. elem_of (nl_data h ! p)) [0..<nElem h]"
    unfolding live_elems_by_used by (simp add: filter_id_conv)
  have "take (nElem h) (nl_data h) = map Live (live_elems h)"
  proof (rule nth_equalityI)
    fix p
    assume "p < length (take (nElem h) (nl_data h))"
    then have "p < nElem h" by simp
    with node_inv_live [OF assms(1), of p] u show "take (nElem h) (nl_data h) ! p = map Live (live_elems h) ! p"
      by (simp add: l)
  qed (use s l in \<open>simp add: sizes_ok_def\<close>)
  then show ?thesis
    using s assms l free_ok_head [OF f] distinct_keys [of env h] by (simp add: dense_def node_inv_def)
qed

text \<open>Only elements, their number and the freelist differ.\<close>

definition kept :: "'e gold_hash_tab \<Rightarrow> 'e gold_hash_tab \<Rightarrow> bool" where
  "kept h h' \<longleftrightarrow> bucket h' = bucket h \<and> nBucket h' = nBucket h \<and> maxElem h' = maxElem h \<and> maxload h' = maxload h \<and>
     load_factor h' = load_factor h \<and> m_enable_auto_gc h' = m_enable_auto_gc h \<and>
     m_enable_freelist_reuse h' = m_enable_freelist_reuse h"

lemma compacted:
  assumes inv: "gh_inv env h"
  shows "\<exists>h'. (if freelist_size h \<noteq> 0 then bind_res (revoke_deleted_no_relink h) (\<lambda>(h, _). Inr h) else Inr h) = Inr h' \<and>
    dense env h' (live_elems h) \<and> kept h h' \<and> (if freelist_size h = 0 then h' = h else nElem h' < nElem h)"
proof (cases "freelist_size h = 0")
  case True
  with inv_dense [OF gh_inv_node [OF inv]] show ?thesis by (simp add: kept_def)
next
  case False
  obtain h' where h': "revoke_deleted_no_relink h = Inr (h', freelist_size h)" "dense env h' (live_elems h)" "kept h h'"
    using revoke_no_relink [OF gh_inv_node [OF inv] False] unfolding kept_def by blast
  have "nElem h' < nElem h"
    using h'(2) False card_used [of h] inv by (simp add: dense_def length_live_elems gh_inv_def node_inv_def)
  with h' False show ?thesis by simp
qed

lemma erase_loops_dense:
  assumes d: "dense env h (as @ e # bs)" and i: "i = length as" and n: "n = nElem h"
  shows "\<exists>data'. (if fast_copy env
       then erase_fast_loop P [i + 1..<n] i ((nl_data h)[i := Raw])
       else bind_res (erase_safe_loop P [i + 1..<n] i (nl_data h)) (\<lambda>(data, i).
         if trivial_dtor env \<or> list_all (\<lambda>j. is_live (data ! j)) [i..<n]
         then Inr (fold (\<lambda>j d. d[j := Raw]) [i..<n] data, i) else Inl Undefined)) =
      Inr (data', i + length (filter (\<lambda>e. \<not> P e) bs)) \<and>
    length data' = length (nl_data h) \<and>
    take (i + length (filter (\<lambda>e. \<not> P e) bs)) data' = map Live (as @ filter (\<lambda>e. \<not> P e) bs)"
proof -
  let ?bs = "filter (\<lambda>e. \<not> P e) bs" and ?data = "nl_data h"
  have len: "n = length as + 1 + length bs" "n \<le> length ?data" using d n by (auto simp: dense_def sizes_ok_def)
  have "take n ?data = map Live (as @ e # bs)" using d n by (simp add: dense_def)
  then have pre: "take i ?data = map Live as"
    using len i by (metis append_eq_conv_conj length_map map_append min.absorb1 take_take le_add1 add.assoc)
  have hold: "holds_elems ?data (i + 1) n bs"
    unfolding holds_elems_def using dense_nth [OF d] len i n by (auto simp: nth_append)
  show ?thesis
  proof (cases "fast_copy env")
    case True
    have "holds_elems (?data[i := Raw]) (i + 1) n bs" by (rule holds_elems_cong [OF hold]) auto
    from erase_fast_loop_spec [OF this, of i P] True pre show ?thesis by auto
  next
    case False
    have "\<forall>p. i \<le> p \<and> p < i + 1 \<longrightarrow> is_live (?data ! p)" using dense_nth [OF d] len i n by auto
    from erase_safe_loop_spec [OF hold _ this, of P] obtain data' where
      s: "erase_safe_loop P [i + 1..<n] i ?data = Inr (data', i + length ?bs)" "length data' = length ?data"
        "\<forall>p. i \<le> p \<and> p < n \<longrightarrow> is_live (data' ! p)" "take (i + length ?bs) data' = take i ?data @ map Live ?bs"
      by auto
    let ?d = "fold (\<lambda>j d. d[j := Raw]) [i + length ?bs..<n] data'"
    have "take (i + length ?bs) ?d = take (i + length ?bs) data'"
    proof (rule nth_equalityI)
      fix p
      assume "p < length (take (i + length ?bs) ?d)"
      then show "take (i + length ?bs) ?d ! p = take (i + length ?bs) data' ! p" by (simp add: fold_update_nth)
    qed simp
    with False s pre show ?thesis by (auto simp: list_all_iff)
  qed
qed

lemma erase_if_impl_spec:
  assumes inv: "gh_inv env h"
  shows "\<exists>h'. erase_if_impl env h P = Inr (h', length (filter P (live_elems h))) \<and>
    (filter (\<lambda>e. \<not> P e) (live_elems h) = live_elems h \<and> freelist_size h = 0 \<and> h' = h \<or>
     dense env h' (filter (\<lambda>e. \<not> P e) (live_elems h)) \<and> nElem h' < nElem h \<and> (h' = gh_init \<or> kept h h'))"
proof -
  let ?es = "live_elems h"
  obtain h1 where h1: "(if freelist_size h \<noteq> 0 then bind_res (revoke_deleted_no_relink h) (\<lambda>(h, _). Inr h) else Inr h) = Inr h1"
      "dense env h1 ?es" "kept h h1" "if freelist_size h = 0 then h1 = h else nElem h1 < nElem h"
    using compacted [OF inv] by blast
  have n: "nElem h1 = length ?es" "nElem h1 \<le> delmark" "nElem h1 \<le> nElem h"
    using h1(2,4) by (auto simp: dense_def sizes_ok_def split: if_splits)
  note hold = dense_holds [OF h1(2)]
  show ?thesis
  proof (cases "\<exists>e\<in>set ?es. P e")
    case False
    then have "first_match P (nl_data h1) [0..<nElem h1] = Inr None" by (intro first_match_spec(1) [OF hold]) auto
    then have "erase_if_impl env h P = Inr (h1, 0)" by (simp only: erase_if_impl_def h1(1)) simp
    moreover have "filter (\<lambda>e. \<not> P e) ?es = ?es" "filter P ?es = []" using False by (auto simp: filter_id_conv filter_empty_conv)
    ultimately show ?thesis using h1 by (intro exI [of _ h1]) (auto split: if_splits)
  next
    case True
    then obtain as e bs where split: "?es = as @ e # bs" "P e" "\<forall>e\<in>set as. \<not> P e"
      using split_list_first_prop [OF True] by blast
    let ?bs = "filter (\<lambda>e. \<not> P e) bs" and ?i = "length as"
    have f: "filter (\<lambda>e. \<not> P e) ?es = as @ ?bs" using split by (simp add: filter_id_conv)
    have m: "first_match P (nl_data h1) [0..<nElem h1] = Inr (Some ?i)"
      using first_match_spec(2) [OF hold split(1,3,2)] by simp
    obtain data' where l: "(if fast_copy env
         then erase_fast_loop P [?i + 1..<nElem h1] ?i ((nl_data h1)[?i := Raw])
         else bind_res (erase_safe_loop P [?i + 1..<nElem h1] ?i (nl_data h1)) (\<lambda>(data, i).
           if trivial_dtor env \<or> list_all (\<lambda>j. is_live (data ! j)) [i..<nElem h1]
           then Inr (fold (\<lambda>j d. d[j := Raw]) [i..<nElem h1] data, i) else Inl Undefined)) =
        Inr (data', ?i + length ?bs)" "length data' = length (nl_data h1)"
        "take (?i + length ?bs) data' = map Live (as @ ?bs)"
      using erase_loops_dense [OF h1(2) [unfolded split(1)] refl refl, of P] by blast
    have less: "?i + length ?bs < nElem h1"
      using n(1) split(1) length_filter_le [of "\<lambda>e. \<not> P e" bs] by (simp add: less_Suc_eq_le)
    then have wrap: "LinkTp (?i + length ?bs) = ?i + length ?bs" using n(2) by (intro delmark_less_wrap) simp
    have cnt: "nElem h1 - (?i + length ?bs) = length (filter P ?es)"
      using n(1) sum_length_filter_compl [of P ?es] arg_cong [OF f, of length] by simp
    let ?h = "h1\<lparr>nl_data := data', nElem := ?i + length ?bs\<rparr>"
    have "erase_if_impl env h P =
        (if 0 = ?i + length ?bs then bind_res (destroy env ?h) (\<lambda>_. Inr (gh_init, length (filter P ?es)))
         else Inr (?h, length (filter P ?es)))"
      by (simp only: erase_if_impl_def h1(1) bind_res_simps Let_def m option.simps l(1) prod.case wrap cnt)
    moreover have "dense env ?h (as @ ?bs)"
      using h1(2) l(2,3) less distinct_filter [of "map (key_of env) ?es"]
      by (auto simp: dense_def sizes_ok_def split distinct_map intro: inj_on_subset)
    moreover have "kept h ?h" using h1(3) by (simp add: kept_def)
    moreover have "dense env gh_init []" by (simp add: dense_def gh_init_def sizes_ok_def delmark_def tail_def)
    moreover have "destroy env ?h = Inr ()" if "0 = ?i + length ?bs" using that by (simp add: destroy_def)
    ultimately show ?thesis
      unfolding f using less n(3)
      by (cases "0 = ?i + length ?bs") (auto intro!: exI [of _ gh_init] exI [of _ ?h])
  qed
qed

text \<open>What erasing by predicate leaves.\<close>

definition filtered :: "('k, 'e) gh_env \<Rightarrow> 'e gold_hash_tab \<Rightarrow> ('e \<Rightarrow> bool) \<Rightarrow> 'e gold_hash_tab \<Rightarrow> bool" where
  "filtered env h P h' \<longleftrightarrow> gh_inv env h' \<and> live_elems h' = filter (\<lambda>e. \<not> P e) (live_elems h) \<and> nElem h' \<le> nElem h"

lemma filtered_map:
  assumes "gh_inv env h" and "filtered env h P h'"
  shows "table_map env h' k = (case table_map env h k of Some e \<Rightarrow> if P e then None else Some e | None \<Rightarrow> None)"
proof -
  have "table_map env h' k = (case table_map env h k of Some e \<Rightarrow> if \<not> P e then Some e else None | None \<Rightarrow> None)"
    using assms by (intro table_map_filter gh_inv_inj) (auto simp: filtered_def)
  then show ?thesis by (auto split: option.splits)
qed

lemma relink_after:
  assumes inv: "gh_inv env h" and d: "dense env h1 es" and "nElem h1 \<le> nElem h" and "h1 = gh_init \<or> kept h h1"
  shows "\<exists>h2. relink env h1 = Inr h2 \<and> relinked env h1 es h2 \<and> nBucket h2 = nBucket h1"
proof (cases "h1 = gh_init")
  case True
  with d have "es = []" by (simp add: dense_def)
  with d True relink_dense_empty [of env h1] show ?thesis by (auto simp: gh_init_def)
next
  case False
  with assms have "bucket_inv (h1\<lparr>nElem := nElem h\<rparr>)" by (auto simp: gh_inv_def bucket_inv_def kept_def)
  from relink_dense_inv [OF d this assms(3)] show ?thesis by blast
qed

lemma no_shrink_after_erase_if_spec:
  assumes inv: "gh_inv env h"
  shows "\<exists>h'. no_shrink_after_erase_if env h P = Inr (h', length (filter P (live_elems h))) \<and> filtered env h P h'"
proof -
  obtain h1 where h1: "erase_if_impl env h P = Inr (h1, length (filter P (live_elems h)))"
      "filter (\<lambda>e. \<not> P e) (live_elems h) = live_elems h \<and> freelist_size h = 0 \<and> h1 = h \<or>
       dense env h1 (filter (\<lambda>e. \<not> P e) (live_elems h)) \<and> nElem h1 < nElem h \<and> (h1 = gh_init \<or> kept h h1)"
    using erase_if_impl_spec [OF inv, of P] by blast
  have "dense env h1 (filter (\<lambda>e. \<not> P e) (live_elems h)) \<and> nElem h1 \<le> nElem h \<and> (h1 = gh_init \<or> kept h h1)"
    using h1(2) inv_dense [OF gh_inv_node [OF inv]] by (auto simp: kept_def)
  with relink_after [OF inv, of h1 "filter (\<lambda>e. \<not> P e) (live_elems h)"] h1(1) show ?thesis
    by (auto simp: no_shrink_after_erase_if_def filtered_def relinked_def)
qed

lemma erase_if_reuse_spec:
  assumes inv: "gh_inv env h" and "m_enable_freelist_reuse h"
  shows "\<exists>h'. erase_if env h P = Inr (h', length (filter P (live_elems h))) \<and> filtered env h P h'"
proof -
  obtain h1 where h1: "erase_if_impl env h P = Inr (h1, length (filter P (live_elems h)))"
      "filter (\<lambda>e. \<not> P e) (live_elems h) = live_elems h \<and> freelist_size h = 0 \<and> h1 = h \<or>
       dense env h1 (filter (\<lambda>e. \<not> P e) (live_elems h)) \<and> nElem h1 < nElem h \<and> (h1 = gh_init \<or> kept h h1)"
    using erase_if_impl_spec [OF inv, of P] by blast
  from h1(2) show ?thesis
  proof
    assume "filter (\<lambda>e. \<not> P e) (live_elems h) = live_elems h \<and> freelist_size h = 0 \<and> h1 = h"
    with h1(1) inv assms(2) show ?thesis by (auto simp: erase_if_def filtered_def)
  next
    assume d: "dense env h1 (filter (\<lambda>e. \<not> P e) (live_elems h)) \<and> nElem h1 < nElem h \<and> (h1 = gh_init \<or> kept h h1)"
    then obtain h2 where "relink env h1 = Inr h2" "relinked env h1 (filter (\<lambda>e. \<not> P e) (live_elems h)) h2"
      using relink_after [OF inv, of h1] by auto
    with d h1(1) assms(2) show ?thesis by (auto simp: erase_if_def filtered_def relinked_def)
  qed
qed

lemma shrink_after_erase_if_spec:
  assumes inv: "gh_inv env h" and g: "grants env"
  shows "\<exists>h'. shrink_after_erase_if env h P = Inr (h', length (filter P (live_elems h))) \<and> filtered env h P h' \<and>
    (filter P (live_elems h) \<noteq> [] \<and> filter (\<lambda>e. \<not> P e) (live_elems h) \<noteq> [] \<longrightarrow>
      nBucket h' = hsm_stl_next_prime (LinkTp (length (live_elems h') * 256) div load_factor h + 1))"
proof -
  let ?es = "filter (\<lambda>e. \<not> P e) (live_elems h)"
  have s: "nElem h \<le> maxElem h" "nElem h \<le> delmark" using inv by (auto simp: gh_inv_def node_inv_def sizes_ok_def)
  have keep: "reserve_nodes env x (nElem x) = Inr x" if "nElem x \<le> delmark" for x
    using that by (simp add: reserve_nodes_def)
  obtain h1 where h1: "erase_if_impl env h P = Inr (h1, length (filter P (live_elems h)))"
      "?es = live_elems h \<and> freelist_size h = 0 \<and> h1 = h \<or>
       dense env h1 ?es \<and> nElem h1 < nElem h \<and> (h1 = gh_init \<or> kept h h1)"
    using erase_if_impl_spec [OF inv, of P] by blast
  from h1(2) consider "?es = live_elems h" "h1 = h" | "h1 = gh_init" "dense env h1 ?es"
    | "dense env h1 ?es" "nElem h1 < nElem h" "kept h h1" by blast
  then show ?thesis
  proof cases
    case 1
    then have "filter P (live_elems h) = []" unfolding filter_empty_conv by (metis filter_id_conv)
    with 1 h1(1) inv s keep [of h] show ?thesis by (auto simp: shrink_after_erase_if_def filtered_def Let_def)
  next
    case 2
    then have "?es = []" by (simp add: dense_def)
    moreover have "\<not> nElem h1 < maxElem h1" using 2 by (simp add: gh_init_def)
    ultimately show ?thesis
      using 2 h1(1) gh_init_inv [of env] by (auto simp: shrink_after_erase_if_def filtered_def Let_def)
  next
    case 3
    have lt: "nElem h1 < maxElem h1" "nElem h1 \<le> delmark" "load_factor h1 \<noteq> 0" "nBucket h1 = nBucket h"
        "load_factor h1 = load_factor h" "nElem h1 = length ?es"
      using 3 s gh_inv_load [OF inv] by (auto simp: kept_def dense_def)
    have "nBucket h1 = 1 \<longrightarrow> bucket h1 = [tail]" using inv 3(3) by (auto simp: gh_inv_def bucket_inv_def kept_def)
    then obtain h2 nb where h2: "rehash env h1 (LinkTp (nElem h1 * 256) div load_factor h1 + 1) = Inr (h2, nb)" "nBucket h2 = nb"
        "nb = hsm_stl_next_prime (LinkTp (nElem h1 * 256) div load_factor h1 + 1)"
        "nb = nBucket h1 \<and> h2 = h1 \<or> nb \<noteq> nBucket h1 \<and> relinked env h1 ?es h2"
      using rehash_dense [OF 3(1) _ g] by blast
    have "shrink_after_erase_if env h P =
        bind_res (if nBucket h2 = nBucket h then relink env h2 else Inr h2) (\<lambda>x. Inr (x, length (filter P (live_elems h))))"
      using h1(1) lt 3(2) keep [OF lt(2)] h2(1) by (simp add: shrink_after_erase_if_def Let_def)
    moreover from h2(4) have "\<exists>h3. (if nBucket h2 = nBucket h then relink env h2 else Inr h2) = Inr h3 \<and>
        relinked env h1 ?es h3 \<and> nBucket h3 = nBucket h2"
    proof
      assume "nb = nBucket h1 \<and> h2 = h1"
      with relink_after [OF inv 3(1)] 3(2,3) lt(4) h2(2) show ?thesis by auto
    next
      assume "nb \<noteq> nBucket h1 \<and> relinked env h1 ?es h2"
      with lt(4) h2(2) show ?thesis by auto
    qed
    ultimately show ?thesis using 3(2) lt(5,6) h2(2,3) by (auto simp: filtered_def relinked_def)
  qed
qed

lemma gh_inv_flags [simp]:
  "gh_inv env (h\<lparr>m_enable_auto_gc := b\<rparr>) = gh_inv env h"
  "gh_inv env (h\<lparr>m_enable_freelist_reuse := b\<rparr>) = gh_inv env h"
  "gh_inv env (h\<lparr>is_sorted := b\<rparr>) = gh_inv env h"
  by (simp_all add: gh_inv_def node_inv_def sizes_ok_def bucket_inv_def free_ok_def deleted_by_used)

lemma elems_flags [simp]:
  "live_elems (h\<lparr>m_enable_auto_gc := b\<rparr>) = live_elems h" "slot_map (h\<lparr>m_enable_auto_gc := b\<rparr>) = slot_map h"
  "live_elems (h\<lparr>m_enable_freelist_reuse := b\<rparr>) = live_elems h" "slot_map (h\<lparr>m_enable_freelist_reuse := b\<rparr>) = slot_map h"
  "live_elems (h\<lparr>is_sorted := b\<rparr>) = live_elems h" "slot_map (h\<lparr>is_sorted := b\<rparr>) = slot_map h"
  by (simp_all add: live_elems_def slot_map_def fun_eq_iff)

text \<open>The loop that keeps the indices: each match is erased in its slot.\<close>

lemma keepid_loop_spec:
  assumes "gh_inv env h" and "\<not> m_enable_auto_gc h" and "distinct js" and "set js \<subseteq> {..<nElem h}"
    and "\<not> check \<longrightarrow> set js \<subseteq> used h"
  shows "\<exists>h'. keepid_loop env P check js h c =
      Inr (h', c + length (filter (\<lambda>p. \<exists>e. slot_map h p = Some e \<and> P e) js)) \<and>
    gh_inv env h' \<and> nElem h' = nElem h \<and> \<not> m_enable_auto_gc h' \<and>
    m_enable_freelist_reuse h' = m_enable_freelist_reuse h \<and>
    slot_map h' = (\<lambda>p. if p \<in> set js \<and> (\<exists>e. slot_map h p = Some e \<and> P e) then None else slot_map h p)"
  using assms
proof (induction js arbitrary: h c)
  case Nil
  then show ?case by auto
next
  case (Cons i js)
  show ?case
  proof (cases "i \<in> used h")
    case False
    then have "check" "nl_link h ! i = delmark"
      using Cons.prems by (auto simp: used_def)
    moreover have "slot_map h i = None" using False by (simp add: slot_map_by_used)
    moreover from this Cons.prems have "\<not> check \<longrightarrow> set js \<subseteq> used h" by simp
    moreover from \<open>slot_map h i = None\<close> have skip: "(p \<in> set (i # js) \<and> (\<exists>e. slot_map h p = Some e \<and> P e)) =
        (p \<in> set js \<and> (\<exists>e. slot_map h p = Some e \<and> P e))" for p
      by (cases "p = i") auto
    ultimately show ?thesis using Cons.IH [of h c] Cons.prems unfolding skip by auto
  next
    case True
    define e where "e = elem_of (nl_data h ! i)"
    note sl = used_slot [OF gh_inv_node [OF Cons.prems(1)] True]
    have si: "slot_map h i = Some e" using True by (simp add: slot_map_by_used e_def)
    show ?thesis
    proof (cases "P e")
      case False
      with si have skip: "(p \<in> set (i # js) \<and> (\<exists>e. slot_map h p = Some e \<and> P e)) =
          (p \<in> set js \<and> (\<exists>e. slot_map h p = Some e \<and> P e))" for p
        by (cases "p = i") auto
      from False Cons.IH [of h c] Cons.prems sl si show ?thesis unfolding skip by (auto simp: e_def)
    next
      case P: True
      obtain h1 where h1: "erase_i env h i = Inr h1" "erased env h i h1"
        using erase_i_spec [OF Cons.prems(1) True] by blast
      then have e1: "gh_inv env h1" "slot_map h1 = (slot_map h)(i := None)" "nElem h1 = nElem h" "\<not> m_enable_auto_gc h1"
          "m_enable_freelist_reuse h1 = m_enable_freelist_reuse h"
        using Cons.prems(2) by (auto simp: erased_def)
      have "used h1 = used h - {i}" unfolding dom_slot_map [symmetric] e1(2) by auto
      then have "\<not> check \<longrightarrow> set js \<subseteq> used h1" using Cons.prems(3,5) by auto
      with Cons.IH [of h1 "c + 1"] Cons.prems e1 obtain h' where h': "keepid_loop env P check js h1 (c + 1) =
            Inr (h', c + 1 + length (filter (\<lambda>p. \<exists>e. slot_map h1 p = Some e \<and> P e) js))"
          "gh_inv env h'" "nElem h' = nElem h" "\<not> m_enable_auto_gc h'" "m_enable_freelist_reuse h' = m_enable_freelist_reuse h"
          "slot_map h' = (\<lambda>p. if p \<in> set js \<and> (\<exists>e. slot_map h1 p = Some e \<and> P e) then None else slot_map h1 p)"
        by auto
      have "filter (\<lambda>p. \<exists>e. slot_map h1 p = Some e \<and> P e) js = filter (\<lambda>p. \<exists>e. slot_map h p = Some e \<and> P e) js"
        using Cons.prems(3) unfolding e1(2) by (intro filter_cong) auto
      moreover have "slot_map h' = (\<lambda>p. if p \<in> set (i # js) \<and> (\<exists>e. slot_map h p = Some e \<and> P e) then None else slot_map h p)"
      proof
        fix p
        show "slot_map h' p = (if p \<in> set (i # js) \<and> (\<exists>e. slot_map h p = Some e \<and> P e) then None else slot_map h p)"
          unfolding h'(6) e1(2) using si P by (cases "p = i") auto
      qed
      ultimately show ?thesis using h' h1(1) sl si P by (auto simp: e_def)
    qed
  qed
qed

lemma live_elems_filter:
  assumes "nElem h' = nElem h"
    and "slot_map h' = (\<lambda>p. if p \<in> set [0..<nElem h] \<and> (\<exists>e. slot_map h p = Some e \<and> P e) then None else slot_map h p)"
  shows "live_elems h' = filter (\<lambda>e. \<not> P e) (live_elems h)"
proof -
  have "filter (\<lambda>p. slot_map h' p \<noteq> None) [0..<nElem h] =
      filter (\<lambda>p. slot_map h p \<noteq> None \<and> \<not> P (the (slot_map h p))) [0..<nElem h]"
    unfolding assms(2) by (rule filter_cong) auto
  then have "live_elems h' = map (\<lambda>p. the (slot_map h' p)) (filter (\<lambda>p. slot_map h p \<noteq> None \<and> \<not> P (the (slot_map h p))) [0..<nElem h])"
    by (simp add: live_elems_slot_map [of h'] assms(1))
  also have "\<dots> = map (\<lambda>p. the (slot_map h p)) (filter (\<lambda>p. slot_map h p \<noteq> None \<and> \<not> P (the (slot_map h p))) [0..<nElem h])"
    unfolding assms(2) by auto
  also have "\<dots> = filter (\<lambda>e. \<not> P e) (live_elems h)"
    by (simp add: live_elems_slot_map [of h] filter_map comp_def conj_commute)
  finally show ?thesis .
qed

lemma count_matches:
  "length (filter (\<lambda>p. \<exists>e. slot_map h p = Some e \<and> P e) [0..<nElem h]) = length (filter P (live_elems h))"
proof -
  have "filter (\<lambda>p. \<exists>e. slot_map h p = Some e \<and> P e) [0..<nElem h] =
      filter (\<lambda>p. slot_map h p \<noteq> None \<and> P (the (slot_map h p))) [0..<nElem h]"
    by (rule filter_cong) auto
  then show ?thesis
    by (simp add: live_elems_slot_map [of h] filter_map comp_def conj_commute)
qed

lemma keepid_erase_if_spec:
  assumes inv: "gh_inv env h"
  shows "\<exists>h'. keepid_erase_if env h P = Inr (h', length (filter P (live_elems h))) \<and> filtered env h P h' \<and>
    (\<not> m_enable_auto_gc h \<longrightarrow> nElem h' = nElem h \<and>
      slot_map h' = (\<lambda>p. if (\<exists>e. slot_map h p = Some e \<and> P e) then None else slot_map h p))"
proof -
  let ?h0 = "h\<lparr>m_enable_auto_gc := False\<rparr>" and ?check = "freelist_size h \<noteq> 0"
  have f: "free_ok h" using inv by (simp add: gh_inv_def node_inv_def)
  have sub: "{0..<nElem h} \<subseteq> {..<nElem h}" by auto
  have "\<not> ?check \<longrightarrow> set [0..<nElem h] \<subseteq> used h" using free_ok_none [OF f] by (auto simp: deleted_by_used)
  then obtain h1 where h1: "keepid_loop env P ?check [0..<nElem h] ?h0 0 = Inr (h1, length (filter P (live_elems h)))"
      "gh_inv env h1" "nElem h1 = nElem h"
      "slot_map h1 = (\<lambda>p. if p \<in> set [0..<nElem h] \<and> (\<exists>e. slot_map h p = Some e \<and> P e) then None else slot_map h p)"
    using keepid_loop_spec [of env ?h0 "[0..<nElem h]" ?check P 0, unfolded elems_flags] inv count_matches [of h P] sub by auto
  note le = live_elems_filter [OF h1(3,4)]
  let ?h2 = "h1\<lparr>m_enable_auto_gc := m_enable_auto_gc h\<rparr>"
  have eq: "keepid_erase_if env h P =
      (if m_enable_auto_gc h \<and> freelist_size h1 > nElem h1 div 2
       then bind_res (revoke_deleted env ?h2) (\<lambda>(x, _). Inr (x, length (filter P (live_elems h))))
       else Inr (?h2, length (filter P (live_elems h))))"
    using h1(1) free_ok_head [OF f] free_ok_head_less [OF f]
    by (cases "freelist_size h = 0") (simp_all add: keepid_erase_if_def Let_def)
  have sm: "slot_map h1 = (\<lambda>p. if (\<exists>e. slot_map h p = Some e \<and> P e) then None else slot_map h p)"
    unfolding h1(4) by (auto simp: fun_eq_iff slot_map_def)
  show ?thesis
  proof (cases "m_enable_auto_gc h \<and> freelist_size h1 > nElem h1 div 2")
    case True
    obtain h3 where "revoke_deleted env ?h2 = Inr (h3, freelist_size ?h2)" "gh_inv env h3" "live_elems h3 = live_elems ?h2" "nElem h3 \<le> nElem ?h2"
      using revoke_deleted_inv [of env ?h2] h1(2) by auto
    with True eq le h1(3) show ?thesis by (auto simp: filtered_def)
  next
    case False
    with eq le h1(2,3) sm show ?thesis by (auto simp: filtered_def)
  qed
qed

lemma erase_if_spec:
  assumes "gh_inv env h"
  shows "\<exists>h'. erase_if env h P = Inr (h', length (filter P (live_elems h))) \<and> filtered env h P h'"
proof (cases "m_enable_freelist_reuse h")
  case False
  with keepid_erase_if_spec [OF assms, of P] show ?thesis by (auto simp: erase_if_def)
qed (rule erase_if_reuse_spec [OF assms])

section \<open>Erasing everything, copying\<close>

lemma erase_all_spec:
  assumes inv: "gh_inv env h"
  shows "\<exists>h'. erase_all env h = Inr h' \<and> gh_inv env h' \<and> live_elems h' = [] \<and> nElem h' = 0 \<and> maxElem h' = maxElem h \<and>
    nBucket h' = nBucket h \<and> load_factor h' = load_factor h"
proof -
  have ni: "node_inv env h" and f: "free_ok h" and s: "sizes_ok h" using inv by (simp_all add: gh_inv_def node_inv_def)
  note b = gh_inv_bucket [OF inv]
  have nt: "\<not> tail < delmark" by (simp add: delmark_def)
  let ?B = "if nElem h > freelist_size h then replicate (nBucket h) tail else bucket h"
  let ?h = "h\<lparr>bucket := ?B, freelist_head := tail, freelist_size := 0, nl_data := map (\<lambda>c. Raw) (nl_data h), nElem := 0\<rparr>"
  have "erase_all env h = Inr ?h"
  proof (cases "freelist_size h = 0")
    case True
    with destroy_ok [OF ni] free_ok_head [OF f] nt show ?thesis by (cases h) (simp add: erase_all_def)
  next
    case False
    from free_ok_head_less [OF f False] have fh: "freelist_head h < nElem h" by simp
    with s have "freelist_head h < delmark" by (simp add: sizes_ok_def)
    with destroy_ok [OF ni] fh show ?thesis by (cases h) (simp add: erase_all_def)
  qed
  moreover have u: "used ?h = {}" "deleted ?h = {}" by (simp_all add: used_def deleted_def)
  moreover have "index_ok (hash_at env ?h) {} (nl_link h) ?B"
  proof (cases "nElem h > freelist_size h")
    case True
    then show ?thesis by (simp add: index_ok_empty)
  next
    case False
    with card_used [OF f] have "used h = {}" by simp
    with inv False show ?thesis unfolding gh_inv_def by (auto intro: index_ok_cong)
  qed
  moreover have "free_ok ?h" using u by (auto simp: free_ok_def intro!: exI [of _ "[]"])
  ultimately show ?thesis
    using inv s b by (intro exI [of _ ?h]) (auto simp: gh_inv_def node_inv_def sizes_ok_def bucket_inv_def live_elems_def)
qed

text \<open>A copy holds the same elements in the same slots.\<close>

lemma gh_copy_spec:
  assumes inv: "gh_inv env h" and g: "grants env"
  shows "\<exists>x. gh_copy env h = Inr x \<and> gh_inv env x \<and> live_elems x = live_elems h \<and> slot_map x = slot_map h \<and>
    nElem x = nElem h \<and> maxElem x = nElem h \<and> table_map env x = table_map env h"
proof -
  have s: "sizes_ok h" "length (nl_data h) = maxElem h" "length (nl_link h) = maxElem h" "nElem h \<le> maxElem h"
    using inv by (simp_all add: gh_inv_def node_inv_def sizes_ok_def)
  note b = gh_inv_bucket [OF inv]
  show ?thesis
  proof (cases "nElem h = 0")
    case True
    let ?x = "h\<lparr>nl_data := [], nl_link := [], maxElem := 0, nBucket := 1, maxload := 0, bucket := [tail]\<rparr>"
    have f: "free_ok h" using inv by (simp add: gh_inv_def node_inv_def)
    have "used h = {}" using True by (simp add: used_def)
    moreover have "deleted h = {}" using True by (simp add: deleted_def)
    moreover have u: "used ?x = {}" using True by (simp add: used_def)
    moreover have "freelist_size h = 0" "freelist_head h = tail"
      using free_ok_none [OF f] free_ok_head [OF f] True by (auto simp: deleted_def)
    ultimately have "free_ok ?x" using True by (auto simp: free_ok_def deleted_by_used intro!: exI [of _ "[]"])
    moreover have "index_ok (hash_at env ?x) {} [] [tail]" using index_ok_empty [of _ _ 1] by simp
    ultimately have "gh_inv env ?x"
      using s u True by (simp add: gh_inv_def node_inv_def sizes_ok_def bucket_inv_def)
    moreover have "live_elems ?x = live_elems h" "slot_map ?x = slot_map h"
      using True by (simp_all add: live_elems_def slot_map_def fun_eq_iff)
    moreover have "gh_copy env h = Inr ?x" using True by (simp add: gh_copy_def)
    ultimately show ?thesis using True table_map_elems [of ?x h env] by (intro exI [of _ ?x]) simp
  next
    case False
    let ?x = "h\<lparr>nl_data := take (nElem h) (nl_data h), nl_link := take (nElem h) (nl_link h), maxElem := nElem h\<rparr>"
    have nb: "nBucket h \<noteq> 1" using inv False by (auto simp: gh_inv_def bucket_inv_def)
    have u: "used ?x = used h" using s by (auto simp: used_def)
    have "same_nodes h ?x" using u by (simp add: same_nodes_def)
    moreover have "sizes_ok ?x" using s by (simp add: sizes_ok_def)
    ultimately have "gh_inv env ?x" by (intro gh_inv_same_nodes [OF inv]) (auto dest: used_less)
    moreover have "gh_copy env h = Inr ?x"
      using False nb g b by (cases h) (simp add: gh_copy_def nl_reserve_def)
    ultimately show ?thesis
      using same_nodes_facts(1-3) [OF \<open>same_nodes h ?x\<close>] by (intro exI [of _ ?x]) simp
  qed
qed

section \<open>Sorting\<close>

lemma get_elems_live [simp]: "get_elems (map Live es) = Inr es"
  by (induction es) auto

lemma gh_sort_spec:
  assumes inv: "gh_inv env h" and srt: "mset (srt (live_elems h)) = mset (live_elems h)"
  shows "\<exists>h'. gh_sort env srt h = Inr h' \<and> gh_inv env h' \<and> live_elems h' = srt (live_elems h) \<and> is_sorted h' \<and>
    nElem h' \<le> nElem h"
proof -
  let ?es = "live_elems h"
  obtain h1 where h1: "(if freelist_size h \<noteq> 0 then bind_res (revoke_deleted_no_relink h) (\<lambda>(h, _). Inr h) else Inr h) = Inr h1"
      "dense env h1 ?es" "kept h h1" "if freelist_size h = 0 then h1 = h else nElem h1 < nElem h"
    using compacted [OF inv] by blast
  have n: "nElem h1 \<le> nElem h" using h1(4) by (auto split: if_splits)
  have get: "get_elems (take (nElem h1) (nl_data h1)) = Inr ?es" using h1(2) by (simp add: dense_def)
  let ?h = "h1\<lparr>nl_data := map Live (srt ?es) @ drop (nElem h1) (nl_data h1)\<rparr>"
  have len: "length (srt ?es) = length ?es" using mset_eq_length [OF srt] .
  have "mset (map (key_of env) (srt ?es)) = mset (map (key_of env) ?es)" using srt by simp
  then have "distinct (map (key_of env) (srt ?es))"
    using h1(2) mset_eq_imp_distinct_iff unfolding dense_def by blast
  then have d: "dense env ?h (srt ?es)" using h1(2) len by (auto simp: dense_def sizes_ok_def)
  have "bucket_inv (?h\<lparr>nElem := nElem h\<rparr>)" using inv h1(3) by (auto simp: gh_inv_def bucket_inv_def kept_def)
  from relink_dense_inv [OF d this] n obtain h2 where h2: "relink env ?h = Inr h2" "relinked env ?h (srt ?es) h2" by auto
  have "gh_sort env srt h = Inr (h2\<lparr>is_sorted := True\<rparr>)"
    by (simp only: gh_sort_def h1(1) bind_res_simps get h2(1))
  with h2(2) n show ?thesis by (auto simp: relinked_def)
qed

section \<open>Iteration\<close>

lemma for_each_loop_spec:
  assumes "node_inv env h" and "set js \<subseteq> {..<nElem h}"
  shows "for_each_loop h js = Inr (map (\<lambda>p. elem_of (nl_data h ! p)) (filter (\<lambda>p. p \<in> used h) js))"
  using assms(2)
proof (induction js)
  case (Cons p js)
  have f: "free_ok h" using assms(1) by (simp add: node_inv_def)
  have "freelist_size h = 0 \<or> delmark \<noteq> nl_link h ! p \<longleftrightarrow> p \<in> used h"
    using free_ok_none [OF f] Cons.prems by (auto simp: deleted_by_used used_def)
  with Cons used_slot(2) [OF assms(1), of p] show ?case by auto
qed simp

lemma for_each_elems: "gh_inv env h \<Longrightarrow> for_each h = Inr (live_elems h)"
  using for_each_loop_spec [of env h "[0..<nElem h]"] by (simp add: for_each_def gh_inv_def live_elems_by_used lessThan_atLeast0)

lemma skip_deleted_next:
  "idx \<le> n \<Longrightarrow> idx \<le> skip_deleted L n idx \<and> skip_deleted L n idx \<le> n \<and>
     (\<forall>p. idx \<le> p \<and> p < skip_deleted L n idx \<longrightarrow> L ! p = delmark) \<and>
     (skip_deleted L n idx < n \<longrightarrow> L ! skip_deleted L n idx \<noteq> delmark)"
proof (induction L n idx rule: skip_deleted.induct)
  case (1 L n idx)
  show ?case
  proof (cases "idx < n \<and> delmark = L ! idx")
    case True
    then have eq: "skip_deleted L n idx = skip_deleted L n (idx + 1)" by (simp add: skip_deleted.simps [of L n idx])
    have IH: "idx + 1 \<le> skip_deleted L n (idx + 1) \<and> skip_deleted L n (idx + 1) \<le> n \<and>
        (\<forall>p. idx + 1 \<le> p \<and> p < skip_deleted L n (idx + 1) \<longrightarrow> L ! p = delmark) \<and>
        (skip_deleted L n (idx + 1) < n \<longrightarrow> L ! skip_deleted L n (idx + 1) \<noteq> delmark)"
      using "1.IH" True by simp
    have "L ! p = delmark" if "idx \<le> p" "p < skip_deleted L n (idx + 1)" for p
      using IH True that by (cases "p = idx") auto
    with IH show ?thesis unfolding eq by auto
  qed (use "1.prems" in \<open>auto simp: skip_deleted.simps [of L n idx]\<close>)
qed

lemma next_i_spec:
  assumes "idx < nElem h"
  shows "\<exists>j. next_i h idx = Inr j \<and> idx < j \<and> j \<le> nElem h \<and> (\<forall>p. idx < p \<and> p < j \<longrightarrow> p \<notin> used h) \<and> (j < nElem h \<longrightarrow> j \<in> used h)"
  using skip_deleted_next [of "idx + 1" "nElem h" "nl_link h"] assms by (auto simp: next_i_def used_def)

lemma beg_i_spec:
  assumes "gh_inv env h"
  shows "\<exists>j. beg_i h = Inr j \<and> j \<le> nElem h \<and> (\<forall>p<j. p \<notin> used h) \<and> (j < nElem h \<longrightarrow> j \<in> used h)"
proof -
  have f: "free_ok h" using assms by (simp add: gh_inv_def node_inv_def)
  consider "freelist_size h = nElem h" | "freelist_size h \<noteq> nElem h" "freelist_size h \<noteq> 0" "delmark = nl_link h ! 0"
    | "freelist_size h \<noteq> nElem h" "freelist_size h = 0 \<or> delmark \<noteq> nl_link h ! 0" by metis
  then show ?thesis
  proof cases
    case 1
    with card_used [OF f] have "used h = {}" by simp
    with 1 show ?thesis by (simp add: beg_i_def)
  next
    case 2
    then have "0 < nElem h" using card_used(2) [OF f] by simp
    from next_i_spec [OF this] obtain j where j: "next_i h 0 = Inr j" "0 < j" "j \<le> nElem h" "\<forall>p. 0 < p \<and> p < j \<longrightarrow> p \<notin> used h"
        "j < nElem h \<longrightarrow> j \<in> used h" by blast
    moreover have "0 \<notin> used h" using 2 by (simp add: used_def)
    then have "\<forall>p<j. p \<notin> used h" using j(4) by (metis neq0_conv)
    ultimately show ?thesis using 2 by (auto simp: beg_i_def)
  next
    case 3
    then have "0 < nElem h \<longrightarrow> 0 \<in> used h" using free_ok_none [OF f] by (auto simp: deleted_by_used used_def)
    with 3 show ?thesis by (auto simp: beg_i_def)
  qed
qed

end
