(* ===== verification/Gold_Hash_Files.thy ===== *)
theory Gold_Hash_Files
  imports Gold_Hash_Bulk
begin

text \<open>
  Comparing tables, saving and loading them, and the operations \<open>gold_hash_map\<close> adds for key/value pairs.
\<close>

section \<open>Comparison\<close>

lemma equal_loop_spec:
  assumes x: "gh_inv env x" and y: "gh_inv env y" and "set js \<subseteq> {..<nElem x}"
    and eq: "\<forall>a b. key_of env a = key_of env b \<longrightarrow> (elem_eq a b \<longleftrightarrow> a = b)"
  shows "equal_loop env elem_eq x y js =
    Inr (\<forall>p\<in>set js. p \<in> used x \<longrightarrow> table_map env y (key_at env x p) = Some (elem_of (nl_data x ! p)))"
  using assms(3)
proof (induction js)
  case (Cons p js)
  show ?case
  proof (cases "p \<in> used x")
    case False
    with Cons.prems have "nl_link x ! p = delmark" by (simp add: used_def)
    with Cons False show ?thesis by simp
  next
    case True
    define e where "e = elem_of (nl_data x ! p)"
    note sl = used_slot [OF gh_inv_node [OF x] True]
    have k: "key_of env e = key_at env x p" by (simp add: e_def key_at_def)
    show ?thesis
    proof (cases "table_map env y (key_at env x p)")
      case None
      with find_i_spec(2) [OF y None] sl True k show ?thesis by (auto simp: end_i_def e_def)
    next
      case (Some e')
      from find_i_spec(1) [OF y Some] obtain q where q: "q \<in> used y" "find_i env y (key_at env x p) = Inr q"
          "slot_map y q = Some e'" "key_at env y q = key_at env x p" by blast
      have q': "q \<noteq> nElem y" "get_elem (nl_data y ! q) = Inr e'" "key_of env e' = key_of env e"
        using used_slot [OF gh_inv_node [OF y] q(1)] q k by (auto simp: slot_map_by_used key_at_def)
      have "elem_eq e e' \<longleftrightarrow> e = e'" using eq q'(3) by metis
      with Cons True sl k q q' Some show ?thesis by (auto simp: end_i_def e_def)
    qed
  qed
qed simp

lemma gh_equal_spec:
  assumes x: "gh_inv env x" and y: "gh_inv env y"
    and eq: "\<forall>a b. key_of env a = key_of env b \<longrightarrow> (elem_eq a b \<longleftrightarrow> a = b)"
  shows "gh_equal env elem_eq x y = Inr (table_map env x = table_map env y)"
proof -
  let ?x = "table_map env x" and ?y = "table_map env y"
  have fin: "finite (dom ?y)" by (simp add: table_map_def finite_dom_map_of)
  have sz: "gh_size x = card (dom ?x)" "gh_size y = card (dom ?y)"
    using x y card_used [of x] card_used [of y] card_table_map [of env x] card_table_map [of env y]
    by (simp_all add: gh_size_def gh_inv_def node_inv_def)
  have loop: "equal_loop env elem_eq x y [0..<end_i x] =
      Inr (\<forall>p\<in>used x. ?y (key_at env x p) = Some (elem_of (nl_data x ! p)))"
    using equal_loop_spec [OF x y _ eq, of "[0..<end_i x]"] used_less by (auto simp: end_i_def lessThan_atLeast0)
  have sub: "(\<forall>p\<in>used x. ?y (key_at env x p) = Some (elem_of (nl_data x ! p))) \<longleftrightarrow> (\<forall>k e. ?x k = Some e \<longrightarrow> ?y k = Some e)"
  proof
    assume all: "\<forall>p\<in>used x. ?y (key_at env x p) = Some (elem_of (nl_data x ! p))"
    show "\<forall>k e. ?x k = Some e \<longrightarrow> ?y k = Some e"
    proof (intro allI impI)
      fix k e
      assume "?x k = Some e"
      from table_map_slot [OF x this] all show "?y k = Some e" by auto
    qed
  next
    assume "\<forall>k e. ?x k = Some e \<longrightarrow> ?y k = Some e"
    then show "\<forall>p\<in>used x. ?y (key_at env x p) = Some (elem_of (nl_data x ! p))"
      using table_map_at [OF gh_inv_inj [OF x]] by blast
  qed
  show ?thesis
  proof (cases "card (dom ?x) = card (dom ?y)")
    case False
    then show ?thesis by (auto simp: gh_equal_def sz)
  next
    case True
    have "(\<forall>k e. ?x k = Some e \<longrightarrow> ?y k = Some e) \<longleftrightarrow> ?x = ?y"
    proof
      assume le: "\<forall>k e. ?x k = Some e \<longrightarrow> ?y k = Some e"
      then have "dom ?x \<subseteq> dom ?y" by auto
      with fin True have d: "dom ?x = dom ?y" by (simp add: card_subset_eq)
      show "?x = ?y"
      proof
        fix k
        show "?x k = ?y k" using le d by (cases "?x k") (metis domIff, simp)
      qed
    qed simp
    with True show ?thesis by (simp add: gh_equal_def sz loop sub)
  qed
qed

section \<open>Saving and loading\<close>

lemma dio_save_elems: "gh_inv env h \<Longrightarrow> dio_save h = Inr (length (live_elems h), live_elems h)"
  using for_each_elems [of env h] card_used [of h] 
  by (simp add: dio_save_def gh_size_def length_live_elems gh_inv_def node_inv_def)

lemma dio_load_spec:
  assumes inv: "gh_inv env h" and g: "grants env" and n: "length es \<le> delmark" and d: "distinct (map (key_of env) es)"
  shows "\<exists>h'. dio_load env h (length es, es) = Inr h' \<and> gh_inv env h' \<and> live_elems h' = es"
proof -
  let ?n = "length es"
  obtain h1 where h1: "reserve env gh_init ?n = Inr h1" "gh_inv env h1" "same_nodes gh_init h1" "5 \<le> nBucket h1"
      "maxElem h1 = (if ?n = nElem (gh_init :: 'b gold_hash_tab) then maxElem (gh_init :: 'b gold_hash_tab) else ?n)"
    using reserve_inv [OF gh_init_inv g, of ?n] n by auto
  have m: "maxElem h1 = ?n" using h1(5) by (auto simp: gh_init_def)
  have f: "freelist_size h1 = 0" "freelist_head h1 = tail" using h1(3) by (simp_all add: same_nodes_def gh_init_def)
  have s: "sizes_ok h1" using h1(2) by (simp add: gh_inv_def node_inv_def)
  let ?h = "h1\<lparr>nl_data := map Live (take ?n es) @ drop ?n (nl_data h1), nElem := LinkTp ?n\<rparr>"
  have "dense env ?h es" using s m f n d by (simp add: dense_def sizes_ok_def delmark_less_wrap)
  from relink_dense_full [OF this] h1(4) obtain h2 where "relink env ?h = Inr h2" "relinked env ?h es h2" by auto
  with h1(1) gh_clear_init [OF inv] show ?thesis by (auto simp: dio_load_def relinked_def)
qed

lemma get_elems_bad: "c \<in> set cs \<Longrightarrow> \<not> is_live c \<Longrightarrow> get_elems cs = Inl Undefined"
proof (induction cs)
  case (Cons c' cs)
  show ?case
  proof (cases "is_live c'")
    case True
    with Cons show ?thesis by (auto simp: get_elem_live)
  next
    case False
    then show ?thesis by (cases c') auto
  qed
qed simp

text \<open>\<open>dio_save_fast\<close> writes every slot up to \<open>nElem\<close>, also the deleted ones.\<close>

lemma dio_save_fast_deleted:
  assumes inv: "gh_inv env h" and "freelist_size h \<noteq> 0"
  shows "dio_save_fast h = Inl Undefined"
proof -
  have f: "free_ok h" using inv by (simp add: gh_inv_def node_inv_def)
  let ?p = "freelist_head h"
  have p: "?p < nElem h" using free_ok_head_less [OF f assms(2)] by simp
  obtain nx where "nl_data h ! ?p = Salt nx" using slot_reuse_ok [OF assms] by blast
  moreover have "nl_data h ! ?p \<in> set (take (nElem h) (nl_data h))"
    using p inv by (force simp: in_set_conv_nth gh_inv_def node_inv_def sizes_ok_def)
  ultimately have "get_elems (take (nElem h) (nl_data h)) = Inl Undefined" by (auto intro: get_elems_bad)
  then show ?thesis by (simp add: dio_save_fast_def)
qed

lemma dio_save_fast_elems:
  assumes "gh_inv env h" and "freelist_size h = 0"
  shows "dio_save_fast h = Inr (length (live_elems h), load_factor h, live_elems h)"
  using inv_dense [OF gh_inv_node [OF assms(1)] assms(2)] by (simp add: dio_save_fast_def dense_def)

lemma dio_load_fast_spec:
  assumes inv: "gh_inv env h" and g: "grants env" and n: "length es \<le> delmark" and d: "distinct (map (key_of env) es)"
    and lf: "10 \<le> lf" "lf \<le> 255" and ne: "es \<noteq> []"
  shows "\<exists>h'. dio_load_fast env h (length es, lf, es) = Inr h' \<and> gh_inv env h' \<and> live_elems h' = es \<and> load_factor h' = lf"
proof -
  let ?n = "length es"
  let ?h = "gh_init\<lparr>load_factor := lf, nl_data := map Live es, nl_link := map (fresh_link env) [0..<?n],
              nElem := ?n, maxElem := ?n, maxload := ?n\<rparr> :: 'b gold_hash_tab"
  have "dense env ?h es" using n d lf by (simp add: dense_def sizes_ok_def gh_init_def)
  moreover have "nBucket ?h = 1" "bucket ?h = [tail]" by (simp_all add: gh_init_def)
  ultimately obtain h2 nb where h2: "rehash env ?h (?n div lf) = Inr (h2, nb)" "relinked env ?h es h2"
    using rehash_dense [OF _ _ g, of ?h es "?n div lf"] by fastforce
  have "dio_load_fast env h (?n, lf, es) = bind_res (rehash env ?h (?n div lf)) (\<lambda>(h, _). Inr h)"
    using gh_clear_init [OF inv] ne g lf n
    by (simp add: dio_load_fast_def Let_def nl_reserve_def delmark_less_wrap gh_init_def)
  with h2 show ?thesis by (simp add: relinked_def)
qed

section \<open>Key/value tables\<close>

lemma map_env_simps [simp]: "key_of (map_env env) = fst" "grants (map_env env) = grants env" "hash_fn (map_env env) = hash_fn env"
  unfolding map_env_def grants_def by simp_all

lemma option_eqI: "(\<And>x. a = Some x \<longleftrightarrow> b = Some x) \<Longrightarrow> a = b"
  by (cases a; cases b) auto

text \<open>Writing the value of an element changes nothing else.\<close>

lemma set_value_spec:
  assumes inv: "gh_inv (map_env env) h" and p: "slot_map h p = Some (k, v0)"
  shows "\<exists>h'. set_value h p v = Inr h' \<and> gh_inv (map_env env) h' \<and> slot_map h' = (slot_map h)(p \<mapsto> (k, v)) \<and>
    table_map (map_env env) h' = (table_map (map_env env) h)(k \<mapsto> (k, v))"
proof -
  let ?env = "map_env env" and ?h = "h\<lparr>nl_data := (nl_data h)[p := Live (k, v)]\<rparr>"
  have u: "p \<in> used h" "elem_of (nl_data h ! p) = (k, v0)" using p by (auto simp: slot_map_by_used split: if_splits)
  note sl = used_slot [OF gh_inv_node [OF inv] u(1)]
  have s: "sizes_ok h" "length (nl_data h) = maxElem h" "nElem h \<le> maxElem h"
    using inv by (simp_all add: gh_inv_def node_inv_def sizes_ok_def)
  have data: "nl_data ?h ! q = (if q = p then Live (k, v) else nl_data h ! q)" for q
    using sl(1) s by (auto simp: nth_list_update)
  have key: "key_at ?env ?h = key_at ?env h"
  proof
    fix q
    show "key_at ?env ?h q = key_at ?env h q" using u(2) unfolding key_at_def data by simp
  qed
  obtain fl where fl: "fchain (nl_data h) (freelist_head h) fl" "distinct fl" "set fl = deleted h" "length fl = freelist_size h"
    using inv by (auto simp: gh_inv_def node_inv_def free_ok_def)
  have "fchain (nl_data ?h) (freelist_head h) fl"
  proof (rule fchain_cong [OF _ fl(1)])
    show "\<forall>x\<in>set fl. x < length (nl_data ?h) \<and> nl_data ?h ! x = nl_data h ! x"
      unfolding fl(3) data using u(1) s by (auto simp: deleted_by_used)
  qed
  then have "free_ok ?h" unfolding free_ok_def using fl by (intro exI [of _ fl]) (simp add: deleted_by_used)
  moreover have "\<forall>q\<in>used h. is_live (nl_data ?h ! q)" unfolding data using inv by (simp add: gh_inv_def node_inv_def)
  moreover have "sizes_ok ?h" using s(1) by (simp add: sizes_ok_def)
  ultimately have "node_inv ?env ?h" using inv key by (simp add: gh_inv_def node_inv_def)
  then have gi: "gh_inv ?env ?h"
    using inv hash_at_cong [OF key] by (simp add: gh_inv_def bucket_inv_def)
  have sm: "slot_map ?h = (slot_map h)(p \<mapsto> (k, v))"
  proof
    fix q
    show "slot_map ?h q = ((slot_map h)(p \<mapsto> (k, v))) q"
      using u(1) unfolding slot_map_by_used [of ?h] data by (simp add: slot_map_by_used)
  qed
  have r: "x \<in> ran (slot_map ?h) \<longleftrightarrow> x = (k, v) \<or> (x \<in> ran (slot_map h) \<and> fst x \<noteq> k)" for x
  proof
    assume "x \<in> ran (slot_map ?h)"
    then obtain q where q: "slot_map ?h q = Some x" by (auto simp: ran_def)
    show "x = (k, v) \<or> (x \<in> ran (slot_map h) \<and> fst x \<noteq> k)"
    proof (cases "q = p")
      case False
      with q sm have x: "slot_map h q = Some x" by simp
      then have "q \<in> used h" "key_at ?env h q = fst x" by (auto simp: slot_map_by_used key_at_def split: if_splits)
      moreover have "key_at ?env h p = k" using u by (simp add: key_at_def)
      ultimately have "fst x \<noteq> k" using gh_inv_inj [OF inv] u(1) False by (auto simp: inj_on_def)
      with x show ?thesis by (auto simp: ran_def)
    qed (use q sm in auto)
  next
    assume "x = (k, v) \<or> (x \<in> ran (slot_map h) \<and> fst x \<noteq> k)"
    then show "x \<in> ran (slot_map ?h)"
    proof
      assume "x = (k, v)"
      with sm show ?thesis by (auto simp: ran_def)
    next
      assume x: "x \<in> ran (slot_map h) \<and> fst x \<noteq> k"
      then obtain q where "slot_map h q = Some x" by (auto simp: ran_def)
      with x p sm show ?thesis by (auto simp: ran_def intro!: exI [of _ q])
    qed
  qed
  have "table_map ?env ?h k' = ((table_map ?env h)(k \<mapsto> (k, v))) k'" for k'
  proof (rule option_eqI)
    fix x
    show "table_map ?env ?h k' = Some x \<longleftrightarrow> ((table_map ?env h)(k \<mapsto> (k, v))) k' = Some x"
      using r [of x] by (auto simp: table_map_iff [OF gh_inv_inj [OF gi]] table_map_iff [OF gh_inv_inj [OF inv]])
  qed
  moreover have "set_value h p v = Inr ?h"
    using sl u by (simp add: set_value_def elem_at_def)
  ultimately show ?thesis using gi sm by (intro exI [of _ ?h]) auto
qed

end
