(* ===== verification/Lru_Map.thy ===== *)
theory Lru_Map
  imports Gold_Hash_Files
begin

text \<open>
  The cache \<open>lru_map_impl\<close> of \<open>src/terark/lru_map.hpp\<close> over \<open>gold_hash_map\<close> (\<open>lru_gold_hash_map\<close>), with the
  waiting of \<open>lru_map.cpp\<close>.

  Every element is a node with a reference count; the nodes that nobody refers to form a circular doubly linked
  list through their slots, the most recently released first, and its last node is evicted when the table is full.
  The lock is given back while a value is computed, while an evicted one is disposed of, while waiting for another
  thread's computation and before a failed node is given up.  These are the gaps: in the gap \<open>g\<close>, what the other
  threads do meanwhile, \<open>others g\<close>, is applied to the state.  Outside the gaps a thread has the map to itself.
  With \<open>alone\<close>, which does nothing in any gap, the operation has the map to itself throughout.

  \<open>size_t(-1)\<close> as a result is \<open>None\<close>.  The callback \<open>solve\<close> gets the key and the value and returns the value and
  whether it succeeded; \<open>lru_evict\<close> is the list of keys and values handed to it.  The futex is not modelled:
  a wait ends when the state has changed, or by chance; \<open>wakeups\<close> bounds how often a thread wakes up.
\<close>

section \<open>State\<close>

record 'v lru_node =
  m_lru_hitcnt :: nat
  m_lru_refcnt :: nat
  m_lru_next :: nat
  m_lru_prev :: nat
  lru_val :: 'v

record ('k, 'v) lru_map =
  lru_tab :: "('k \<times> 'v lru_node) gold_hash_tab"
  m_lru_head :: nat
  m_lru_len :: nat
  m_num_evicting :: nat

text \<open>The gaps: \<open>Unlocked\<close> is between \<open>unlock\<close> and the first look of \<open>wait_solve\<close>, \<open>Asleep\<close> is a sleep with so many
  wakeups left, \<open>Failing\<close> is before the lock is taken again for a failed node.\<close>

datatype gap = Evicting | Solving | Unlocked | Asleep nat | Failing

type_synonym ('k, 'v) other_threads = "gap \<Rightarrow> ('k, 'v) lru_map \<Rightarrow> ('k, 'v) lru_map"

definition alone :: "('k, 'v) other_threads" where
  "alone g L = L"

type_synonym ('k, 'v) lru_env = "('k, 'k \<times> 'v lru_node) gh_env"

text \<open>\<open>unsigned(-1)\<close>, \<open>unsigned(-2)\<close> and \<open>unsigned(-3)\<close>; \<open>link_t(-1)\<close> is \<open>unsigned(-1)\<close> too.\<close>

definition inprogress :: nat where
  "inprogress = 2 ^ 32 - 1"

definition solve_fail :: nat where
  "solve_fail = 2 ^ 32 - 2"

definition solve_done :: nat where
  "solve_done = 2 ^ 32 - 3"

definition no_link :: nat where
  "no_link = 2 ^ 32 - 1"

definition new_node :: "'v \<Rightarrow> 'v lru_node" where
  "new_node dflt = \<lparr>m_lru_hitcnt = 1, m_lru_refcnt = 1, m_lru_next = inprogress, m_lru_prev = inprogress, lru_val = dflt\<rparr>"

text \<open>\<open>++\<close> and \<open>--\<close> of an \<open>unsigned\<close>.\<close>

definition inc32 :: "nat \<Rightarrow> nat" where
  "inc32 n = LinkTp (n + 1)"

definition dec32 :: "nat \<Rightarrow> nat" where
  "dec32 n = LinkTp (n + (2 ^ 32 - 1))"

definition lru_new :: "('k, 'v) lru_map" where
  "lru_new = \<lparr>lru_tab = gh_init\<lparr>m_enable_freelist_reuse := True\<rparr>, m_lru_head = no_link, m_lru_len = 0, m_num_evicting = 0\<rparr>"

definition set_lru_cap :: "('k, 'v) lru_env \<Rightarrow> ('k, 'v) lru_map \<Rightarrow> nat \<Rightarrow> ('k, 'v) lru_map res" where
  "set_lru_cap env L cap = bind_res (reserve (map_env env) (lru_tab L) cap) (\<lambda>h. Inr (L\<lparr>lru_tab := h\<rparr>))"

definition lru_construct :: "('k, 'v) lru_env \<Rightarrow> nat \<Rightarrow> ('k, 'v) lru_map res" where
  "lru_construct env cap = verify (cap > 2) (set_lru_cap env lru_new cap)"

text \<open>\<open>Map::val(idx)\<close>, read and assigned to.\<close>

definition node_at :: "('k, 'v) lru_map \<Rightarrow> nat \<Rightarrow> 'v lru_node res" where
  "node_at L idx = map_val (lru_tab L) idx"

definition update_node :: "('k, 'v) lru_map \<Rightarrow> nat \<Rightarrow> ('v lru_node \<Rightarrow> 'v lru_node) \<Rightarrow> ('k, 'v) lru_map res" where
  "update_node L idx f =
     bind_res (node_at L idx) (\<lambda>node. bind_res (set_value (lru_tab L) idx (f node)) (\<lambda>h. Inr (L\<lparr>lru_tab := h\<rparr>)))"

section \<open>The list of nodes without references\<close>

definition insert_as_new_head :: "('k, 'v) lru_map \<Rightarrow> nat \<Rightarrow> ('k, 'v) lru_map res" where
  "insert_as_new_head L slot =
     bind_res (node_at L slot) (\<lambda>node. verify (m_lru_refcnt node = 0)
       (bind_res
         (if no_link = m_lru_head L then
            verify (m_lru_len L = 0) (update_node L slot (\<lambda>n. n\<lparr>m_lru_next := slot, m_lru_prev := slot\<rparr>))
          else
            verify (m_lru_len L > 0)
              (let head = m_lru_head L in
               bind_res (node_at L head) (\<lambda>head_node.
                 let tail_slot = m_lru_prev head_node in
                 bind_res (update_node L slot (\<lambda>n. n\<lparr>m_lru_next := head, m_lru_prev := tail_slot\<rparr>)) (\<lambda>L.
                   bind_res (update_node L tail_slot (\<lambda>n. n\<lparr>m_lru_next := slot\<rparr>)) (\<lambda>L.
                     update_node L head (\<lambda>n. n\<lparr>m_lru_prev := slot\<rparr>))))))
         (\<lambda>L. Inr (L\<lparr>m_lru_head := slot, m_lru_len := inc32 (m_lru_len L)\<rparr>))))"

definition remove_node :: "('k, 'v) lru_map \<Rightarrow> nat \<Rightarrow> ('k, 'v) lru_map res" where
  "remove_node L slot =
     bind_res (node_at L slot) (\<lambda>node. verify (m_lru_refcnt node = 0)
       (let prev = m_lru_prev node; next_slot = m_lru_next node in
        bind_res (update_node L prev (\<lambda>n. n\<lparr>m_lru_next := next_slot\<rparr>)) (\<lambda>L.
          bind_res (update_node L next_slot (\<lambda>n. n\<lparr>m_lru_prev := prev\<rparr>)) (\<lambda>L.
            let L = (if slot = m_lru_head L then L\<lparr>m_lru_head := if 1 = m_lru_len L then no_link else next_slot\<rparr> else L) in
            bind_res (update_node L slot (\<lambda>n. n\<lparr>m_lru_next := solve_done, m_lru_prev := solve_done\<rparr>)) (\<lambda>L.
              Inr (L\<lparr>m_lru_len := dec32 (m_lru_len L)\<rparr>))))))"

section \<open>Eviction\<close>

text \<open>Up to \<open>unlock\<close>: the victim is off the list and out of the index, and its key and value are still there.\<close>

definition evict_begin :: "('k, 'v) lru_env \<Rightarrow> ('k, 'v) lru_map \<Rightarrow> (('k, 'v) lru_map \<times> nat \<times> 'k \<times> 'v) res" where
  "evict_begin env L =
     verify (gh_size (lru_tab L) = maxElem (lru_tab L))
       (if no_link \<noteq> m_lru_head L then
          verify (m_lru_len L > 0)
            (bind_res (node_at L (m_lru_head L)) (\<lambda>head_node.
              let victim = m_lru_prev head_node in
              bind_res (node_at L victim) (\<lambda>node. verify (m_lru_refcnt node = 0)
                (bind_res (remove_node L victim) (\<lambda>L.
                  bind_res (update_node L victim (\<lambda>n. n\<lparr>m_lru_prev := inprogress\<rparr>)) (\<lambda>L.
                    bind_res (risk_unlink (map_env env) (lru_tab L) victim) (\<lambda>h.
                      let L = L\<lparr>lru_tab := h, m_num_evicting := inc32 (m_num_evicting L)\<rparr> in
                      bind_res (elem_at (lru_tab L) victim) (\<lambda>(k, node). Inr (L, victim, k, lru_val node)))))))))
        else Inl Abort)"

text \<open>From \<open>lock\<close> on.\<close>

definition evict_end :: "('k, 'v) lru_env \<Rightarrow> ('k, 'v) lru_map \<Rightarrow> nat \<Rightarrow> ('k, 'v) lru_map res" where
  "evict_end env L victim =
     bind_res (risk_slot_free (map_env env) (lru_tab L) victim) (\<lambda>h.
       Inr (L\<lparr>lru_tab := h, m_num_evicting := dec32 (m_num_evicting L)\<rparr>))"

text \<open>\<open>evict_on_full\<close>, with the keys and values handed to \<open>lru_evict\<close>.\<close>

definition evict_on_full ::
  "('k, 'v) lru_env \<Rightarrow> ('k, 'v) other_threads \<Rightarrow> ('k, 'v) lru_map \<Rightarrow> (('k, 'v) lru_map \<times> ('k \<times> 'v) list) res" where
  "evict_on_full env others L =
     (if gh_size (lru_tab L) \<ge> maxElem (lru_tab L)
      then bind_res (evict_begin env L) (\<lambda>(L, victim, k, v). bind_res (evict_end env (others Evicting L) victim) (\<lambda>L. Inr (L, [(k, v)])))
      else Inr (L, []))"

section \<open>Waiting for another thread\<close>

fun wait_loop :: "('k, 'v) other_threads \<Rightarrow> nat \<Rightarrow> ('k, 'v) lru_map \<Rightarrow> nat \<Rightarrow> (('k, 'v) lru_map \<times> bool) res" where
  "wait_loop others 0 L idx = Inl Endless"
| "wait_loop others (Suc wakeups) L idx =
     bind_res (node_at (others (Asleep wakeups) L) idx) (\<lambda>node.
       if solve_done = m_lru_next node then Inr (others (Asleep wakeups) L, True)
       else if solve_fail = m_lru_next node then Inr (others (Asleep wakeups) L, False)
       else if inprogress = m_lru_next node then wait_loop others wakeups (others (Asleep wakeups) L) idx
       else Inl Abort)"

definition wait_solve :: "('k, 'v) other_threads \<Rightarrow> nat \<Rightarrow> ('k, 'v) lru_map \<Rightarrow> nat \<Rightarrow> (('k, 'v) lru_map \<times> bool) res" where
  "wait_solve others wakeups L idx =
     bind_res (node_at L idx) (\<lambda>node.
       if inprogress = m_lru_next node then wait_loop others wakeups L idx else Inl Abort)"

definition wake_solve :: "('k, 'v) lru_map \<Rightarrow> nat \<Rightarrow> bool \<Rightarrow> ('k, 'v) lru_map res" where
  "wake_solve L idx ok = update_node L idx (\<lambda>n. n\<lparr>m_lru_next := (if ok then solve_done else solve_fail)\<rparr>)"

section \<open>Operations\<close>

text \<open>A node whose value is there gets one more reference and, if it had none, leaves the list.\<close>

definition lru_hit :: "('k, 'v) lru_map \<Rightarrow> nat \<Rightarrow> ('k, 'v) lru_map res" where
  "lru_hit L idx =
     bind_res (node_at L idx) (\<lambda>node.
       bind_res (if 0 = m_lru_refcnt node then remove_node L idx else Inr L) (\<lambda>L.
         bind_res (node_at L idx) (\<lambda>node. verify (m_lru_next node = solve_done)
           (update_node L idx (\<lambda>n. n\<lparr>m_lru_refcnt := inc32 (m_lru_refcnt n), m_lru_hitcnt := inc32 (m_lru_hitcnt n)\<rparr>)))))"

text \<open>The reference to a node whose value could not be computed is given up; the last one erases it.\<close>

definition solve_failed :: "('k, 'v) lru_env \<Rightarrow> ('k, 'v) other_threads \<Rightarrow> ('k, 'v) lru_map \<Rightarrow> nat \<Rightarrow> ('k, 'v) lru_map res" where
  "solve_failed env others L idx =
     bind_res (node_at L idx) (\<lambda>node. verify (solve_fail = m_lru_next node)
       (bind_res (update_node (others Failing L) idx (\<lambda>n. n\<lparr>m_lru_refcnt := dec32 (m_lru_refcnt n)\<rparr>)) (\<lambda>L.
         bind_res (node_at L idx) (\<lambda>node.
           if 0 = m_lru_refcnt node
           then bind_res (erase_i (map_env env) (lru_tab L) idx) (\<lambda>h. Inr (L\<lparr>lru_tab := h\<rparr>))
           else Inr L))))"

text \<open>What \<open>lru_get\<close> and \<open>lru_add\<close> do with a node that is in the table.\<close>

definition lru_present ::
  "('k, 'v) lru_env \<Rightarrow> ('k, 'v) other_threads \<Rightarrow> nat \<Rightarrow> ('k, 'v) lru_map \<Rightarrow> nat \<Rightarrow> (('k, 'v) lru_map \<times> nat option) res" where
  "lru_present env others wakeups L idx =
     bind_res (node_at L idx) (\<lambda>node.
       if inprogress = m_lru_next node then
         verify (m_lru_refcnt node \<ge> 1)
           (bind_res (update_node L idx (\<lambda>n. n\<lparr>m_lru_refcnt := inc32 (m_lru_refcnt n)\<rparr>)) (\<lambda>L.
             bind_res (wait_solve others wakeups (others Unlocked L) idx) (\<lambda>(L, ok).
               if ok then Inr (L, Some idx)
               else bind_res (solve_failed env others L idx) (\<lambda>L. Inr (L, None)))))
       else if solve_fail = m_lru_next node then verify (m_lru_refcnt node \<ge> 1) (Inr (L, None))
       else bind_res (lru_hit L idx) (\<lambda>L. Inr (L, Some idx)))"

definition lru_get ::
  "('k, 'v) lru_env \<Rightarrow> ('k, 'v) other_threads \<Rightarrow> nat \<Rightarrow> ('k, 'v) lru_map \<Rightarrow> 'k \<Rightarrow> (('k, 'v) lru_map \<times> nat option) res" where
  "lru_get env others wakeups L k =
     bind_res (find_i (map_env env) (lru_tab L) k) (\<lambda>idx.
       if end_i (lru_tab L) = idx then Inr (L, None) else lru_present env others wakeups L idx)"

text \<open>
  \<open>lru_add\<close>: \<open>lazy_insert_i\<close> is written out, for its \<open>pre_insert\<close> works on the whole map.  The result is the slot,
  whether the key was new, and what was evicted.
\<close>

definition lru_add ::
  "('k, 'v) lru_env \<Rightarrow> ('k, 'v) other_threads \<Rightarrow> nat \<Rightarrow> 'v \<Rightarrow> ('k, 'v) lru_map \<Rightarrow> 'k \<Rightarrow> ('k \<Rightarrow> 'v \<Rightarrow> 'v \<times> bool) \<Rightarrow>
    (('k, 'v) lru_map \<times> nat option \<times> bool \<times> ('k \<times> 'v) list) res" where
  "lru_add env others wakeups dflt L k solve =
     (let hs = hash_fn env k; old_nBucket = nBucket (lru_tab L); i = hs mod old_nBucket in
      bind_res (find_loop (map_env env) (lru_tab L) k (Suc (nElem (lru_tab L))) (bucket (lru_tab L) ! i)) (\<lambda>r. case r of
        Some p \<Rightarrow> bind_res (lru_present env others wakeups L p) (\<lambda>(L, idx). Inr (L, idx, False, []))
      | None \<Rightarrow>
          bind_res (evict_on_full env others L) (\<lambda>(L, evicted).
            bind_res (place_after_pre (map_env env) (lru_tab L) hs old_nBucket i (k, new_node dflt)) (\<lambda>(h, slot).
              let L = L\<lparr>lru_tab := h\<rparr> in
              bind_res (node_at L slot) (\<lambda>node. verify (m_lru_refcnt node = 1)
                (let L = others Solving L in
                 bind_res (node_at L slot) (\<lambda>node.
                   let (v, ok) = solve k (lru_val node) in
                   bind_res (update_node L slot (\<lambda>n. n\<lparr>lru_val := v\<rparr>)) (\<lambda>L.
                     bind_res (wake_solve L slot ok) (\<lambda>L.
                       if ok then Inr (L, Some slot, True, evicted)
                       else bind_res (solve_failed env others L slot) (\<lambda>L. Inr (L, None, True, evicted)))))))))))"

definition lru_release :: "('k, 'v) lru_map \<Rightarrow> nat \<Rightarrow> ('k, 'v) lru_map res" where
  "lru_release L slot =
     verify (slot < end_i (lru_tab L)) (bind_res (is_deleted (lru_tab L) slot) (\<lambda>del. verify (\<not> del)
       (bind_res (node_at L slot) (\<lambda>node.
         let old_refcnt = m_lru_refcnt node in
         bind_res (update_node L slot (\<lambda>n. n\<lparr>m_lru_refcnt := dec32 old_refcnt\<rparr>)) (\<lambda>L.
           verify (old_refcnt > 0) (if 1 = old_refcnt then insert_as_new_head L slot else Inr L))))))"

definition get_lru_cap :: "('k, 'v) lru_map \<Rightarrow> nat" where
  "get_lru_cap L = maxElem (lru_tab L)"

definition lru_val_at :: "('k, 'v) lru_map \<Rightarrow> nat \<Rightarrow> 'v res" where
  "lru_val_at L idx =
     verify (idx < end_i (lru_tab L)) (bind_res (is_deleted (lru_tab L) idx) (\<lambda>del. verify (\<not> del)
       (bind_res (node_at L idx) (\<lambda>node. Inr (lru_val node)))))"

end
