(* ===== verification/Map_Spec.thy ===== *)
theory Map_Spec
  imports Topling_Prelude
begin

text \<open>
  What a map from keys to elements that contain their key promises: the operations a client calls, what each
  returns, and what a sequence of them does.  \<open>Tune\<close> is any operation that must not be visible in the map
  (rehashing, compaction, settings).
\<close>

section \<open>Sequences of operations\<close>

datatype ('k, 'e, 'c) mop =
    Insert 'e
  | Find 'k
  | Erase 'k
  | Erase_if "'e \<Rightarrow> bool"
  | Size
  | Tune 'c

datatype 'e mout =
    Inserted bool
  | Found "'e option"
  | Erased nat
  | Count nat
  | Done

definition drop_if :: "('e \<Rightarrow> bool) \<Rightarrow> ('k \<rightharpoonup> 'e) \<Rightarrow> 'k \<rightharpoonup> 'e" where
  "drop_if P m k = (case m k of Some e \<Rightarrow> if P e then None else Some e | None \<Rightarrow> None)"

fun spec_step :: "('e \<Rightarrow> 'k) \<Rightarrow> ('k \<rightharpoonup> 'e) \<Rightarrow> ('k, 'e, 'c) mop \<Rightarrow> 'e mout \<times> ('k \<rightharpoonup> 'e)" where
  "spec_step key m (Insert e) = (if m (key e) = None then (Inserted True, m(key e \<mapsto> e)) else (Inserted False, m))"
| "spec_step key m (Find k) = (Found (m k), m)"
| "spec_step key m (Erase k) = (Erased (if m k = None then 0 else 1), m(k := None))"
| "spec_step key m (Erase_if P) = (Count (card (dom m) - card (dom (drop_if P m))), drop_if P m)"
| "spec_step key m Size = (Count (card (dom m)), m)"
| "spec_step key m (Tune c) = (Done, m)"

fun spec_outs :: "('e \<Rightarrow> 'k) \<Rightarrow> ('k \<rightharpoonup> 'e) \<Rightarrow> ('k, 'e, 'c) mop list \<Rightarrow> 'e mout list" where
  "spec_outs key m [] = []"
| "spec_outs key m (op # ops) = fst (spec_step key m op) # spec_outs key (snd (spec_step key m op)) ops"

fun spec_final :: "('e \<Rightarrow> 'k) \<Rightarrow> ('k \<rightharpoonup> 'e) \<Rightarrow> ('k, 'e, 'c) mop list \<Rightarrow> ('k \<rightharpoonup> 'e)" where
  "spec_final key m [] = m"
| "spec_final key m (op # ops) = spec_final key (snd (spec_step key m op)) ops"

fun inserts :: "('k, 'e, 'c) mop list \<Rightarrow> nat" where
  "inserts [] = 0"
| "inserts (Insert e # ops) = Suc (inserts ops)"
| "inserts (Find k # ops) = inserts ops"
| "inserts (Erase k # ops) = inserts ops"
| "inserts (Erase_if P # ops) = inserts ops"
| "inserts (Size # ops) = inserts ops"
| "inserts (Tune c # ops) = inserts ops"

text \<open>The same operations on a table.\<close>

record ('q, 'k, 'e, 'c) map_ops =
  op_insert :: "'q \<Rightarrow> 'e \<Rightarrow> ('q \<times> bool) res"
  op_find :: "'q \<Rightarrow> 'k \<Rightarrow> 'e option res"
  op_erase :: "'q \<Rightarrow> 'k \<Rightarrow> ('q \<times> nat) res"
  op_erase_if :: "'q \<Rightarrow> ('e \<Rightarrow> bool) \<Rightarrow> ('q \<times> nat) res"
  op_size :: "'q \<Rightarrow> nat"
  op_tune :: "'q \<Rightarrow> 'c \<Rightarrow> 'q res"

fun run_step :: "('q, 'k, 'e, 'c) map_ops \<Rightarrow> 'q \<Rightarrow> ('k, 'e, 'c) mop \<Rightarrow> ('e mout \<times> 'q) res" where
  "run_step M q (Insert e) = bind_res (op_insert M q e) (\<lambda>(q, b). Inr (Inserted b, q))"
| "run_step M q (Find k) = bind_res (op_find M q k) (\<lambda>r. Inr (Found r, q))"
| "run_step M q (Erase k) = bind_res (op_erase M q k) (\<lambda>(q, n). Inr (Erased n, q))"
| "run_step M q (Erase_if P) = bind_res (op_erase_if M q P) (\<lambda>(q, n). Inr (Count n, q))"
| "run_step M q Size = Inr (Count (op_size M q), q)"
| "run_step M q (Tune c) = bind_res (op_tune M q c) (\<lambda>q. Inr (Done, q))"

fun run_map :: "('q, 'k, 'e, 'c) map_ops \<Rightarrow> 'q \<Rightarrow> ('k, 'e, 'c) mop list \<Rightarrow> ('e mout list \<times> 'q) res" where
  "run_map M q [] = Inr ([], q)"
| "run_map M q (op # ops) =
     bind_res (run_step M q op) (\<lambda>(out, q). bind_res (run_map M q ops) (\<lambda>(outs, q). Inr (out # outs, q)))"

section \<open>The interface\<close>

text \<open>\<open>rep q m\<close>: the table \<open>q\<close> is sound and stands for \<open>m\<close>; \<open>room q\<close>: how many insertions are sure to succeed.\<close>

locale keyed_map =
  fixes key :: "'e \<Rightarrow> 'k"
    and rep :: "'q \<Rightarrow> ('k \<rightharpoonup> 'e) \<Rightarrow> bool"
    and room :: "'q \<Rightarrow> nat"
    and M :: "('q, 'k, 'e, 'c) map_ops"
  assumes insert_old: "rep q m \<Longrightarrow> m (key e) = Some e' \<Longrightarrow> op_insert M q e = Inr (q, False)"
    and insert_new: "rep q m \<Longrightarrow> m (key e) = None \<Longrightarrow> 0 < room q \<Longrightarrow>
      \<exists>q'. op_insert M q e = Inr (q', True) \<and> rep q' (m(key e \<mapsto> e)) \<and> room q \<le> Suc (room q')"
    and find: "rep q m \<Longrightarrow> op_find M q k = Inr (m k)"
    and erase: "rep q m \<Longrightarrow>
      \<exists>q'. op_erase M q k = Inr (q', if m k = None then 0 else 1) \<and> rep q' (m(k := None)) \<and> room q \<le> room q'"
    and erase_if: "rep q m \<Longrightarrow>
      \<exists>q'. op_erase_if M q P = Inr (q', card (dom m) - card (dom (drop_if P m))) \<and> rep q' (drop_if P m) \<and> room q \<le> room q'"
    and size: "rep q m \<Longrightarrow> op_size M q = card (dom m)"
    and tune: "rep q m \<Longrightarrow> \<exists>q'. op_tune M q c = Inr q' \<and> rep q' m \<and> room q \<le> room q'"
begin

lemma step_refines:
  assumes "rep q m" and "inserts [op] \<le> room q"
  shows "\<exists>q'. run_step M q op = Inr (fst (spec_step key m op), q') \<and> rep q' (snd (spec_step key m op)) \<and>
    room q \<le> inserts [op] + room q'"
proof (cases op)
  case (Insert e)
  show ?thesis
  proof (cases "m (key e)")
    case None
    with insert_new [OF assms(1) None] assms(2) Insert show ?thesis by auto
  next
    case (Some e')
    with insert_old [OF assms(1) Some] assms Insert show ?thesis by auto
  qed
next
  case (Find k)
  with find [OF assms(1)] assms(1) show ?thesis by auto
next
  case (Erase k)
  with erase [OF assms(1), of k] show ?thesis by auto
next
  case (Erase_if P)
  with erase_if [OF assms(1), of P] show ?thesis by auto
next
  case Size
  with size [OF assms(1)] assms(1) show ?thesis by auto
next
  case (Tune c)
  with tune [OF assms(1), of c] show ?thesis by auto
qed

lemma inserts_Cons: "inserts (op # ops) = inserts [op] + inserts ops"
  by (cases op) auto

text \<open>Every sequence with room for its insertions runs to its end and answers as the map does.\<close>

lemma run_refines:
  assumes "rep q m" and "inserts ops \<le> room q"
  shows "\<exists>q'. run_map M q ops = Inr (spec_outs key m ops, q') \<and> rep q' (spec_final key m ops) \<and>
    room q \<le> inserts ops + room q'"
  using assms
proof (induction ops arbitrary: q m)
  case (Cons op ops)
  have "inserts [op] \<le> room q" using Cons.prems(2) inserts_Cons [of op ops] by simp
  from step_refines [OF Cons.prems(1) this] obtain q1 where q1: "run_step M q op = Inr (fst (spec_step key m op), q1)"
      "rep q1 (snd (spec_step key m op))" "room q \<le> inserts [op] + room q1" by blast
  moreover have "inserts ops \<le> room q1" using q1(3) Cons.prems(2) inserts_Cons [of op ops] by simp
  ultimately show ?case using Cons.IH [OF q1(2)] inserts_Cons [of op ops] by fastforce
qed simp

end

end
