(* ===== verification/Gold_Hash_Refine.thy ===== *)
theory Gold_Hash_Refine
  imports Gold_Hash_Files Map_Spec
begin

text \<open>
  \<open>gold_hash_tab\<close> as a map: it provides the interface of \<open>Map_Spec\<close>, whatever its settings are and however it is
  rehashed or compacted in between.  Then its slots, iteration, sorting, comparison and files, and its defects.
\<close>

section \<open>The table provides a map\<close>

datatype gh_setting =
    Auto_gc bool
  | Freelist bool
  | Load_factor int
  | Shrink_to_fit
  | Revoke_deleted
  | Rehash nat
  | Copy

definition gh_tune :: "('k, 'e) gh_env \<Rightarrow> 'e gold_hash_tab \<Rightarrow> gh_setting \<Rightarrow> 'e gold_hash_tab res" where
  "gh_tune env h c = (case c of
     Auto_gc b \<Rightarrow> Inr (h\<lparr>m_enable_auto_gc := b\<rparr>)
   | Freelist b \<Rightarrow> Inr (h\<lparr>m_enable_freelist_reuse := b\<rparr>)
   | Load_factor f \<Rightarrow> set_load_factor h False f
   | Shrink_to_fit \<Rightarrow> shrink_to_fit env h
   | Revoke_deleted \<Rightarrow> bind_res (revoke_deleted env h) (\<lambda>(h, _). Inr h)
   | Rehash n \<Rightarrow> bind_res (rehash env h n) (\<lambda>(h, _). Inr h)
   | Copy \<Rightarrow> gh_copy env h)"

definition gh_lookup :: "('k, 'e) gh_env \<Rightarrow> 'e gold_hash_tab \<Rightarrow> 'k \<Rightarrow> 'e option res" where
  "gh_lookup env h k =
     bind_res (find_i env h k) (\<lambda>i. if i = end_i h then Inr None else bind_res (elem_at h i) (\<lambda>e. Inr (Some e)))"

definition gh_ops :: "('k, 'e) gh_env \<Rightarrow> ('e gold_hash_tab, 'k, 'e, gh_setting) map_ops" where
  "gh_ops env = \<lparr>op_insert = (\<lambda>h e. bind_res (insert_i env h e) (\<lambda>(h, _, b). Inr (h, b))), op_find = gh_lookup env,
     op_erase = gh_erase env, op_erase_if = erase_if env, op_size = gh_size, op_tune = gh_tune env\<rparr>"

definition gh_rep :: "('k, 'e) gh_env \<Rightarrow> 'e gold_hash_tab \<Rightarrow> ('k \<rightharpoonup> 'e) \<Rightarrow> bool" where
  "gh_rep env h m \<longleftrightarrow> gh_inv env h \<and> table_map env h = m"

definition gh_room :: "'e gold_hash_tab \<Rightarrow> nat" where
  "gh_room h = 2 ^ 31 - nElem h"

lemma gh_size_card: "gh_inv env h \<Longrightarrow> gh_size h = card (dom (table_map env h))"
  using card_used [of h] card_table_map [of env h] by (simp add: gh_size_def gh_inv_def node_inv_def)

lemma elem_at_used: "gh_inv env h \<Longrightarrow> p \<in> used h \<Longrightarrow> elem_at h p = Inr (elem_of (nl_data h ! p))"
  using used_slot [of env h p] by (simp add: elem_at_def gh_inv_def)

lemma gh_lookup_spec:
  assumes inv: "gh_inv env h"
  shows "gh_lookup env h k = Inr (table_map env h k)"
proof (cases "table_map env h k")
  case None
  with find_i_spec(2) [OF inv] show ?thesis by (simp add: gh_lookup_def end_i_def)
next
  case (Some e)
  from find_i_spec(1) [OF inv this] obtain p where p: "p \<in> used h" "find_i env h k = Inr p" "slot_map h p = Some e" by blast
  then have "p \<noteq> end_i h" using used_less [OF p(1)] by (simp add: end_i_def)
  with p Some elem_at_used [OF inv p(1)] show ?thesis by (simp add: gh_lookup_def slot_map_by_used)
qed

lemma filtered_drop_if:
  assumes "gh_inv env h" and "filtered env h P h'"
  shows "table_map env h' = drop_if P (table_map env h)"
  using filtered_map [OF assms] by (simp add: drop_if_def fun_eq_iff)

lemma filtered_count:
  assumes inv: "gh_inv env h" and f: "filtered env h P h'"
  shows "length (filter P (live_elems h)) = card (dom (table_map env h)) - card (dom (drop_if P (table_map env h)))"
proof -
  have "card (dom (table_map env h)) = length (live_elems h)"
    using card_table_map [OF gh_inv_inj [OF inv]] by (simp add: length_live_elems)
  moreover have "card (dom (table_map env h')) = length (live_elems h')"
    using f card_table_map [OF gh_inv_inj, of env h'] by (simp add: filtered_def flip: length_live_elems)
  ultimately show ?thesis
    using f sum_length_filter_compl [of P "live_elems h"] unfolding filtered_drop_if [OF inv f, symmetric] 
    by (simp add: filtered_def)
qed

lemma gh_tune_ok:
  assumes inv: "gh_inv env h" and g: "grants env"
  shows "\<exists>h'. gh_tune env h c = Inr h' \<and> gh_inv env h' \<and> live_elems h' = live_elems h \<and> nElem h' \<le> nElem h"
proof (cases c)
  case (Load_factor f)
  with set_load_factor_inv [OF inv, of f] show ?thesis by (auto simp: gh_tune_def)
next
  case Shrink_to_fit
  obtain h' where h': "shrink_to_fit env h = Inr h'" "gh_inv env h'" "same_nodes h h'"
    using shrink_to_fit_inv [OF inv g] by blast
  have "nElem h' = nElem h" using h'(3) by (simp add: same_nodes_def)
  with h' same_nodes_facts(2) [OF h'(3)] Shrink_to_fit show ?thesis by (simp add: gh_tune_def)
next
  case Revoke_deleted
  with revoke_deleted_inv [OF inv] show ?thesis by (auto simp: gh_tune_def)
next
  case (Rehash n)
  obtain h' where h': "rehash env h n = Inr (h', nBucket h')" "gh_inv env h'" "same_nodes h h'"
    using rehash_inv [OF inv g, of n] by blast
  have "nElem h' = nElem h" using h'(3) by (simp add: same_nodes_def)
  with h' same_nodes_facts(2) [OF h'(3)] Rehash show ?thesis by (simp add: gh_tune_def)
next
  case Copy
  with gh_copy_spec [OF inv g] show ?thesis by (auto simp: gh_tune_def)
qed (use inv in \<open>auto simp: gh_tune_def\<close>)

text \<open>The environment with every allocation granted, for the interpretation.\<close>

definition granting :: "('k, 'e) gh_env \<Rightarrow> ('k, 'e) gh_env" where
  "granting env = env\<lparr>nodes_ok := (\<lambda>_. True), buckets_ok := (\<lambda>_. True)\<rparr>"

lemma granting_simps [simp]: "grants (granting env)" "key_of (granting env) = key_of env"
  by (simp_all add: granting_def grants_def)

lemma granting_id: "grants env \<Longrightarrow> granting env = env"
  by (cases env) (auto simp: granting_def grants_def fun_eq_iff)

interpretation gh: keyed_map "key_of env" "gh_rep (granting env)" gh_room "gh_ops (granting env)" for env
proof
  fix q m e e' k P c
  note g = granting_simps(1) [of env]
  let ?env = "granting env"
  assume rep: "gh_rep ?env q m"
  then have inv: "gh_inv ?env q" and m: "table_map ?env q = m" by (simp_all add: gh_rep_def)
  show "op_insert (gh_ops ?env) q e = Inr (q, False)" if "m (key_of env e) = Some e'"
    using insert_i_old [OF inv, of e e'] that m by (auto simp: gh_ops_def)
  show "\<exists>q'. op_insert (gh_ops ?env) q e = Inr (q', True) \<and> gh_rep ?env q' (m(key_of env e \<mapsto> e)) \<and> gh_room q \<le> Suc (gh_room q')"
    if "m (key_of env e) = None" "0 < gh_room q"
  proof -
    have "nElem q < 2 ^ 31" using that(2) by (simp add: gh_room_def)
    from insert_i_new [OF inv g this, of e] that(1) m show ?thesis by (auto simp: gh_ops_def gh_rep_def gh_room_def)
  qed
  show "op_find (gh_ops ?env) q k = Inr (m k)" using gh_lookup_spec [OF inv, of k] m by (simp add: gh_ops_def)
  show "\<exists>q'. op_erase (gh_ops ?env) q k = Inr (q', if m k = None then 0 else 1) \<and> gh_rep ?env q' (m(k := None)) \<and> gh_room q \<le> gh_room q'"
  proof (cases "m k")
    case None
    then have "m(k := None) = m" by auto
    with gh_erase_get_spec(2) [OF inv, of k] rep None m show ?thesis by (auto simp: gh_ops_def)
  next
    case (Some e)
    with gh_erase_get_spec(1) [OF inv, of k e] m show ?thesis
      by (auto simp: gh_ops_def gh_rep_def erased_def gh_room_def)
  qed
  show "\<exists>q'. op_erase_if (gh_ops ?env) q P = Inr (q', card (dom m) - card (dom (drop_if P m))) \<and> gh_rep ?env q' (drop_if P m) \<and>
      gh_room q \<le> gh_room q'"
  proof -
    obtain h' where h': "erase_if ?env q P = Inr (h', length (filter P (live_elems q)))" "filtered ?env q P h'"
      using erase_if_spec [OF inv] by blast
    with filtered_drop_if [OF inv h'(2)] filtered_count [OF inv h'(2)] m show ?thesis
      by (auto simp: gh_ops_def gh_rep_def gh_room_def filtered_def)
  qed
  show "op_size (gh_ops ?env) q = card (dom m)" using gh_size_card [OF inv] m by (simp add: gh_ops_def)
  show "\<exists>q'. op_tune (gh_ops ?env) q c = Inr q' \<and> gh_rep ?env q' m \<and> gh_room q \<le> gh_room q'"
  proof -
    obtain h' where h': "gh_tune ?env q c = Inr h'" "gh_inv ?env h'" "live_elems h' = live_elems q" "nElem h' \<le> nElem q"
      using gh_tune_ok [OF inv g] by blast
    with table_map_elems [OF h'(3), of ?env] m show ?thesis by (auto simp: gh_ops_def gh_rep_def gh_room_def)
  qed
qed

section \<open>Properties\<close>

text \<open>C2: from the empty table on, every sequence of insertions, lookups, erasures by key and by predicate and
  size queries runs to its end while memory is granted, and answers as the map from keys to elements does,
  with rehashing, shrinking, compaction, copying and changes of every setting anywhere in between.\<close>

theorem gold_hash_refines_map:
  assumes "grants env" and "inserts ops \<le> 2 ^ 31"
  shows "\<exists>h. run_map (gh_ops env) gh_init ops = Inr (spec_outs (key_of env) Map.empty ops, h) \<and> gh_inv env h \<and>
    table_map env h = spec_final (key_of env) Map.empty ops"
proof -
  have "gh_rep (granting env) gh_init Map.empty" by (simp add: gh_rep_def gh_init_inv)
  moreover have "inserts ops \<le> gh_room (gh_init :: 'b gold_hash_tab)" using assms(2) by (simp add: gh_room_def)
  ultimately show ?thesis
    using gh.run_refines [of env "gh_init :: 'b gold_hash_tab" Map.empty ops] granting_id [OF assms(1)]
    by (auto simp: gh_rep_def)
qed

definition nat_env :: "(nat, nat \<times> nat) gh_env" where
  "nat_env = \<lparr>hash_fn = (\<lambda>k. k), key_of = fst, fast_copy = True, trivial_dtor = True, nodes_ok = (\<lambda>_. True),
     buckets_ok = (\<lambda>_. True), fresh_link = (\<lambda>i. 7 * i)\<rparr>"

lemma nat_env_grants [simp]: "grants nat_env" "key_of nat_env = fst"
  by (simp_all add: nat_env_def grants_def)

lemma gold_hash_refines_map_witness:
  "\<exists>h. run_map (gh_ops nat_env) gh_init [Insert (3, 1), Insert (8, 2), Insert (3, 9), Tune (Auto_gc True), Erase 3, Find 3, Find 8] =
     Inr ([Inserted True, Inserted True, Inserted False, Done, Erased 1, Found None, Found (Some (8, 2))], h)"
  using gold_hash_refines_map [of nat_env "[Insert (3, 1), Insert (8, 2), Insert (3, 9), Tune (Auto_gc True), Erase 3, Find 3, Find 8]"]
  by auto

text \<open>C3: the well-formedness of the table, every bucket heading a list of exactly the elements that hash to it and
  the freelist running through exactly the deleted slots, holds of the empty table and is kept by \<open>insert_i\<close>,
  \<open>hint_insert_elem_with_hash_i\<close> of a new key, the insertion with a \<open>pre_insert\<close> that leaves a sound table without the
  key or refuses, \<open>erase\<close>, \<open>erase_i\<close>, \<open>erase_with_hash_i\<close>, \<open>std_erase\<close>, the four erasures by predicate,
  \<open>revoke_deleted\<close>, \<open>reserve\<close>, \<open>rehash\<close>, \<open>shrink_to_fit\<close>, \<open>set_load_factor\<close>, \<open>erase_all\<close>, \<open>sort\<close>, copying and
  \<open>clear\<close>, each of which returns.  The operations named \<open>risk_\<close> leave a table half done and are steps of these.\<close>

theorem gold_hash_invariant:
  assumes inv: "gh_inv env h" and g: "grants env" and room: "nElem h < 2 ^ 31" and srt: "\<forall>xs. mset (srt xs) = mset xs"
  shows "gh_inv env gh_init \<and>
    (\<exists>h' r. insert_i env h e = Inr (h', r) \<and> gh_inv env h') \<and>
    (table_map env h (key_of env e) = None \<longrightarrow>
      (\<exists>h' p. hint_insert_elem_with_hash_i env h (key_of env e) (hash_fn env (key_of env e))
        (hash_fn env (key_of env e) mod nBucket h) e = Inr (h', p) \<and> gh_inv env h')) \<and>
    (\<forall>pre_insert h1 go. pre_insert h = Inr (h1, go) \<and> gh_inv env h1 \<and>
        (go \<longrightarrow> nElem h1 < 2 ^ 31 \<and> table_map env h1 (key_of env e) = None) \<longrightarrow>
      (\<exists>h' r. lazy_insert_elem_with_hash_pre env h (key_of env e) (hash_fn env (key_of env e)) e pre_insert = Inr (h', r) \<and>
        gh_inv env h')) \<and>
    (\<exists>h' n. gh_erase env h k = Inr (h', n) \<and> gh_inv env h') \<and>
    (\<forall>q\<in>used h. \<exists>h'. erase_i env h q = Inr h' \<and> gh_inv env h') \<and>
    (\<forall>q\<in>used h. \<exists>h'. erase_with_hash_i env h q (hash_at env h q) = Inr h' \<and> gh_inv env h') \<and>
    (\<forall>q\<in>used h. \<exists>h' j. std_erase env h q = Inr (h', j) \<and> gh_inv env h') \<and>
    (\<exists>h' n. erase_if env h P = Inr (h', n) \<and> gh_inv env h') \<and>
    (\<exists>h' n. keepid_erase_if env h P = Inr (h', n) \<and> gh_inv env h') \<and>
    (\<exists>h' n. shrink_after_erase_if env h P = Inr (h', n) \<and> gh_inv env h') \<and>
    (\<exists>h' n. no_shrink_after_erase_if env h P = Inr (h', n) \<and> gh_inv env h') \<and>
    (\<exists>h' n. revoke_deleted env h = Inr (h', n) \<and> gh_inv env h') \<and>
    (\<forall>cap. nElem h \<le> cap \<and> cap \<le> delmark \<longrightarrow> (\<exists>h'. reserve env h cap = Inr h' \<and> gh_inv env h')) \<and>
    (\<exists>h' n. rehash env h b = Inr (h', n) \<and> gh_inv env h') \<and>
    (\<exists>h'. shrink_to_fit env h = Inr h' \<and> gh_inv env h') \<and>
    (\<exists>h'. set_load_factor h False f = Inr h' \<and> gh_inv env h') \<and>
    (\<exists>h'. erase_all env h = Inr h' \<and> gh_inv env h') \<and>
    (\<exists>h'. gh_sort env srt h = Inr h' \<and> gh_inv env h') \<and>
    (\<exists>h'. gh_copy env h = Inr h' \<and> gh_inv env h') \<and>
    gh_clear env h = Inr gh_init"
proof (intro conjI)
  show "\<exists>h' r. insert_i env h e = Inr (h', r) \<and> gh_inv env h'"
    using insert_i_old [OF inv, of e] insert_i_new [OF inv g room, of e] inv
    by (cases "table_map env h (key_of env e)") auto
  show "table_map env h (key_of env e) = None \<longrightarrow>
      (\<exists>h' p. hint_insert_elem_with_hash_i env h (key_of env e) (hash_fn env (key_of env e))
        (hash_fn env (key_of env e) mod nBucket h) e = Inr (h', p) \<and> gh_inv env h')"
    using hint_insert_new [OF inv g room _ refl, of e] by blast
  show "\<forall>pre_insert h1 go. pre_insert h = Inr (h1, go) \<and> gh_inv env h1 \<and>
        (go \<longrightarrow> nElem h1 < 2 ^ 31 \<and> table_map env h1 (key_of env e) = None) \<longrightarrow>
      (\<exists>h' r. lazy_insert_elem_with_hash_pre env h (key_of env e) (hash_fn env (key_of env e)) e pre_insert = Inr (h', r) \<and>
        gh_inv env h')"
    using lazy_insert_pre_inv [OF inv g, where e = e] by blast
  show "\<forall>q\<in>used h. \<exists>h'. erase_with_hash_i env h q (hash_at env h q) = Inr h' \<and> gh_inv env h'"
    using erase_i_spec [OF inv] by (auto simp: erased_def)
  show "\<forall>q\<in>used h. \<exists>h' j. std_erase env h q = Inr (h', j) \<and> gh_inv env h'"
    using erase_i_spec [OF inv] used_less by (fastforce simp: erased_def std_erase_def)
  show "\<exists>h' n. gh_erase env h k = Inr (h', n) \<and> gh_inv env h'"
    using gh_erase_get_spec [OF inv, of k] inv by (cases "table_map env h k") (auto simp: erased_def)
  show "\<forall>q\<in>used h. \<exists>h'. erase_i env h q = Inr h' \<and> gh_inv env h'"
    using erase_i_spec [OF inv] by (auto simp: erased_def)
  show "\<exists>h' n. erase_if env h P = Inr (h', n) \<and> gh_inv env h'" using erase_if_spec [OF inv, of P] by (auto simp: filtered_def)
  show "\<exists>h' n. keepid_erase_if env h P = Inr (h', n) \<and> gh_inv env h'"
    using keepid_erase_if_spec [OF inv, of P] by (auto simp: filtered_def)
  show "\<exists>h' n. shrink_after_erase_if env h P = Inr (h', n) \<and> gh_inv env h'"
    using shrink_after_erase_if_spec [OF inv g, of P] by (auto simp: filtered_def)
  show "\<exists>h' n. no_shrink_after_erase_if env h P = Inr (h', n) \<and> gh_inv env h'"
    using no_shrink_after_erase_if_spec [OF inv, of P] by (auto simp: filtered_def)
  show "\<exists>h' n. revoke_deleted env h = Inr (h', n) \<and> gh_inv env h'" using revoke_deleted_inv [OF inv] by auto
  show "\<forall>cap. nElem h \<le> cap \<and> cap \<le> delmark \<longrightarrow> (\<exists>h'. reserve env h cap = Inr h' \<and> gh_inv env h')"
    using reserve_inv [OF inv g] by blast
  show "\<exists>h' n. rehash env h b = Inr (h', n) \<and> gh_inv env h'" using rehash_inv [OF inv g, of b] by blast
  show "\<exists>h'. shrink_to_fit env h = Inr h' \<and> gh_inv env h'" using shrink_to_fit_inv [OF inv g] by blast
  show "\<exists>h'. set_load_factor h False f = Inr h' \<and> gh_inv env h'" using set_load_factor_inv [OF inv, of f] by blast
  show "\<exists>h'. erase_all env h = Inr h' \<and> gh_inv env h'" using erase_all_spec [OF inv] by blast
  show "\<exists>h'. gh_sort env srt h = Inr h' \<and> gh_inv env h'" using gh_sort_spec [OF inv, of srt] srt by blast
  show "\<exists>h'. gh_copy env h = Inr h' \<and> gh_inv env h'" using gh_copy_spec [OF inv g] by blast
qed (simp_all add: gh_init_inv gh_clear_init [OF inv])

text \<open>A table with three elements, one of them erased, whose keys share a bucket.\<close>

definition small_table :: "(nat \<times> nat) gold_hash_tab" where
  "small_table =
     \<lparr>nl_data = [Live (3, 1), Salt tail, Live (13, 5), Raw], nl_link = [tail, delmark, 0, 21],
      bucket = [tail, tail, tail, 2, tail], nBucket = 5, nElem = 3, maxElem = 4, maxload = 3, freelist_head = 1,
      freelist_size = 1, load_factor = 179, is_sorted = False, m_enable_auto_gc = False, m_enable_freelist_reuse = True\<rparr>"

lemma small_table_inv: "gh_inv nat_env small_table" and small_table_used: "used small_table = {0, 2}"
proof -
  have n: "{p. p < (3 :: nat) \<and> Q p} = {p \<in> {0, 1, 2}. Q p}" for Q by auto
  show u: "used small_table = {0, 2}"
    by (auto simp: used_def small_table_def less_Suc_eq numeral_3_eq_3 nth_Cons') (simp add: delmark_def tail_def)
  have d: "deleted small_table = {1}"
    by (auto simp: deleted_by_used u) (auto simp: small_table_def)
  have h: "hash_at nat_env small_table 0 = 3" "hash_at nat_env small_table 2 = 13"
    by (simp_all add: hash_at_def key_at_def small_table_def nat_env_def)
  have lb: "length (bucket small_table) = 5" by (simp add: small_table_def)
  have m: "hash_at nat_env small_table 0 mod length (bucket small_table) = 3"
      "hash_at nat_env small_table 2 mod length (bucket small_table) = 3"
    using h lb by simp_all
  have "index_ok (hash_at nat_env small_table) {0, 2} (nl_link small_table) (bucket small_table)"
    unfolding index_ok_def
  proof (intro allI impI)
    fix i
    assume "i < length (bucket small_table)"
    then have "i \<in> {0, 1, 2, 3, 4}" by (auto simp: small_table_def)
    then show "\<exists>xs. chain (nl_link small_table) (bucket small_table ! i) xs \<and> distinct xs \<and>
        set xs = {p \<in> {0, 2}. hash_at nat_env small_table p mod length (bucket small_table) = i}"
    proof (cases "i = 3")
      case True
      have "{p \<in> {0, 2}. hash_at nat_env small_table p mod length (bucket small_table) = i} = {0, 2}"
        using m True by (intro equalityI subsetI) (elim CollectE conjE, assumption, elim insertE, simp_all)
      moreover have "chain (nl_link small_table) (bucket small_table ! i) [2, 0]" using True by (simp add: small_table_def)
      ultimately show ?thesis by (intro exI [of _ "[2, 0]"]) auto
    next
      case False
      with \<open>i \<in> _\<close> have "bucket small_table ! i = tail" by (auto simp: small_table_def)
      moreover have "{p \<in> {0, 2}. hash_at nat_env small_table p mod length (bucket small_table) = i} = {}"
      proof -
        have "hash_at nat_env small_table p mod length (bucket small_table) \<noteq> i" if "p \<in> {0, 2}" for p
          using that False m by (elim insertE) simp_all
        then show ?thesis by blast
      qed
      ultimately show ?thesis by (intro exI [of _ "[]"]) simp
    qed
  qed
  moreover have "free_ok small_table"
    unfolding free_ok_def d by (intro exI [of _ "[1]"]) (simp add: small_table_def)
  moreover have "sizes_ok small_table" by (simp add: sizes_ok_def small_table_def delmark_def tail_def)
  moreover have "inj_on (key_at nat_env small_table) {0, 2}" by (auto simp: key_at_def small_table_def nat_env_def)
  moreover have "\<forall>p\<in>{0, 2}. is_live (nl_data small_table ! p)" by (auto simp: small_table_def)
  ultimately show "gh_inv nat_env small_table"
    by (simp add: gh_inv_def node_inv_def u bucket_inv_def) (simp add: small_table_def)
qed

lemma small_table_slots: "slot_map small_table = [0 \<mapsto> (3, 1), 2 \<mapsto> (13, 5)]"
  by (rule ext) (simp add: slot_map_by_used small_table_used, simp add: small_table_def)

lemma small_table_elems: "live_elems small_table = [(3, 1), (13, 5)]"
proof -
  have "filter (\<lambda>p. p \<in> {0, 2}) [0..<3] = [0, 2 :: nat]" by (simp add: upt_rec numeral_3_eq_3)
  moreover have "nElem small_table = 3" by (simp add: small_table_def)
  ultimately show ?thesis by (simp add: live_elems_by_used small_table_used) (simp add: small_table_def)
qed

lemma gold_hash_invariant_witness:
  "(\<exists>h' r. insert_i nat_env small_table (8, 0) = Inr (h', r) \<and> gh_inv nat_env h') \<and>
   (\<exists>h' r. lazy_insert_elem_with_hash_pre nat_env small_table 8 8 (8, 0) (\<lambda>h. Inr (h, True)) = Inr (h', r) \<and> gh_inv nat_env h') \<and>
   (\<exists>h'. erase_i nat_env small_table 2 = Inr h' \<and> gh_inv nat_env h') \<and>
   (\<exists>h' j. std_erase nat_env small_table 2 = Inr (h', j) \<and> gh_inv nat_env h')"
proof -
  have r: "nElem small_table < 2 ^ 31" by (simp add: small_table_def)
  have t: "table_map nat_env small_table 8 = None" by (simp add: table_map_def small_table_elems)
  have e: "key_of nat_env (8, 0) = 8" "hash_fn nat_env 8 = 8" by (simp_all add: nat_env_def)
  note all = gold_hash_invariant [OF small_table_inv nat_env_grants(1) r, of id "(8, 0)", unfolded e]
  have "\<exists>h' r. lazy_insert_elem_with_hash_pre nat_env small_table 8 8 (8, 0) (\<lambda>h. Inr (h, True)) = Inr (h', r) \<and>
      gh_inv nat_env h'"
    using small_table_inv r t
    by (intro all [THEN conjunct2, THEN conjunct2, THEN conjunct2, THEN conjunct1, rule_format, of _ small_table True]) simp_all
  with all small_table_used show ?thesis by simp
qed

text \<open>C9: indices are stable.  An insertion puts the element into a slot that was not in use and moves no other
  element, also when it grows or rehashes the table; an insertion of a present key returns its slot.  Unless automatic
  compaction is on, erasing by key, by index and with \<open>keepid_erase_if\<close> only empties the slots of what it erases.\<close>

theorem gold_hash_stable_slots:
  assumes inv: "gh_inv env h" and g: "grants env" and room: "nElem h < 2 ^ 31"
  shows "(table_map env h (key_of env e) = None \<longrightarrow>
      (\<exists>h' p. insert_i env h e = Inr (h', p, True) \<and> slot_map h p = None \<and> slot_map h' = (slot_map h)(p \<mapsto> e))) \<and>
    (\<forall>e'. table_map env h (key_of env e) = Some e' \<longrightarrow> (\<exists>p. insert_i env h e = Inr (h, p, False) \<and> slot_map h p = Some e')) \<and>
    (\<not> m_enable_auto_gc h \<longrightarrow>
      (\<forall>q\<in>used h. (\<exists>h'. erase_i env h q = Inr h' \<and> slot_map h' = (slot_map h)(q := None)) \<and>
        (\<exists>h'. gh_erase env h (key_at env h q) = Inr (h', 1) \<and> slot_map h' = (slot_map h)(q := None))) \<and>
      (\<exists>h' n. keepid_erase_if env h P = Inr (h', n) \<and>
        slot_map h' = (\<lambda>p. if (\<exists>e. slot_map h p = Some e \<and> P e) then None else slot_map h p)))"
proof (intro conjI impI allI ballI)
  assume "table_map env h (key_of env e) = None"
  from insert_i_new [OF inv g room this]
  show "\<exists>h' p. insert_i env h e = Inr (h', p, True) \<and> slot_map h p = None \<and> slot_map h' = (slot_map h)(p \<mapsto> e)" by blast
next
  fix e'
  assume "table_map env h (key_of env e) = Some e'"
  from insert_i_old [OF inv this] show "\<exists>p. insert_i env h e = Inr (h, p, False) \<and> slot_map h p = Some e'" .
next
  fix q
  assume gc: "\<not> m_enable_auto_gc h" and q: "q \<in> used h"
  from erase_i_spec [OF inv q] gc show "\<exists>h'. erase_i env h q = Inr h' \<and> slot_map h' = (slot_map h)(q := None)"
    by (auto simp: erased_def)
  obtain p h' where p: "p \<in> used h" "key_at env h p = key_at env h q" "gh_erase env h (key_at env h q) = Inr (h', 1)" "erased env h p h'"
    using gh_erase_get_spec(1) [OF inv table_map_at [OF gh_inv_inj [OF inv] q]] by blast
  then have "p = q" using gh_inv_inj [OF inv] q by (simp add: inj_on_def)
  with p gc show "\<exists>h'. gh_erase env h (key_at env h q) = Inr (h', 1) \<and> slot_map h' = (slot_map h)(q := None)"
    by (auto simp: erased_def)
next
  assume gc: "\<not> m_enable_auto_gc h"
  with keepid_erase_if_spec [OF inv, of P]
  show "\<exists>h' n. keepid_erase_if env h P = Inr (h', n) \<and>
      slot_map h' = (\<lambda>p. if (\<exists>e. slot_map h p = Some e \<and> P e) then None else slot_map h p)" by blast
qed

lemma gold_hash_stable_slots_witness:
  "(\<exists>h'. erase_i nat_env small_table 0 = Inr h' \<and> slot_map h' = [2 \<mapsto> (13, 5)]) \<and>
   (\<exists>h' n. keepid_erase_if nat_env small_table (\<lambda>e. snd e = 5) = Inr (h', n) \<and>
      slot_map h' = (\<lambda>p. if (\<exists>e. slot_map small_table p = Some e \<and> snd e = 5) then None else slot_map small_table p))"
proof -
  have "nElem small_table < 2 ^ 31" "\<not> m_enable_auto_gc small_table" by (simp_all add: small_table_def)
  moreover have "(slot_map small_table)(0 := None) = [2 \<mapsto> (13, 5)]" by (auto simp: small_table_slots)
  ultimately show ?thesis
    using gold_hash_stable_slots [OF small_table_inv nat_env_grants(1), of _ "\<lambda>e. snd e = 5"] small_table_used by auto
qed

text \<open>Iteration visits the slots in use in ascending order, each once: \<open>beg_i\<close> and \<open>next_i\<close> step from one to the
  next and end at \<open>end_i\<close>, and \<open>for_each\<close> sees exactly these elements; compaction and \<open>erase_if\<close> keep this order,
  \<open>erase_if\<close> removes exactly the matches and counts them, and \<open>sort\<close> leaves the order of the comparison.\<close>

theorem gold_hash_order:
  assumes inv: "gh_inv env h" and srt: "mset (srt (live_elems h)) = mset (live_elems h)"
  shows "(\<exists>j. beg_i h = Inr j \<and> (\<forall>p<j. p \<notin> used h) \<and> (j < end_i h \<and> j \<in> used h \<or> j = end_i h)) \<and>
    (\<forall>p<end_i h. \<exists>j. next_i h p = Inr j \<and> p < j \<and> (\<forall>i. p < i \<and> i < j \<longrightarrow> i \<notin> used h) \<and> (j < end_i h \<and> j \<in> used h \<or> j = end_i h)) \<and>
    for_each h = Inr (live_elems h) \<and> live_elems h = map (\<lambda>p. the (slot_map h p)) (filter (\<lambda>p. p \<in> used h) [0..<end_i h]) \<and>
    gh_size h = length (live_elems h) \<and>
    (\<exists>h' n. revoke_deleted env h = Inr (h', n) \<and> live_elems h' = live_elems h) \<and>
    (\<exists>h'. erase_if env h P = Inr (h', length (filter P (live_elems h))) \<and> live_elems h' = filter (\<lambda>e. \<not> P e) (live_elems h)) \<and>
    (\<exists>h'. gh_sort env srt h = Inr h' \<and> live_elems h' = srt (live_elems h) \<and> is_sorted h')"
proof (intro conjI)
  show "\<exists>j. beg_i h = Inr j \<and> (\<forall>p<j. p \<notin> used h) \<and> (j < end_i h \<and> j \<in> used h \<or> j = end_i h)"
    using beg_i_spec [OF inv] by (fastforce simp: end_i_def)
  show "\<forall>p<end_i h. \<exists>j. next_i h p = Inr j \<and> p < j \<and> (\<forall>i. p < i \<and> i < j \<longrightarrow> i \<notin> used h) \<and> (j < end_i h \<and> j \<in> used h \<or> j = end_i h)"
    using next_i_spec unfolding end_i_def by (metis le_neq_implies_less)
  show "for_each h = Inr (live_elems h)" by (rule for_each_elems [OF inv])
  show "live_elems h = map (\<lambda>p. the (slot_map h p)) (filter (\<lambda>p. p \<in> used h) [0..<end_i h])"
    by (auto simp: live_elems_by_used slot_map_by_used end_i_def)
  show "gh_size h = length (live_elems h)"
    using inv card_used(1) [of h] by (simp add: gh_size_def length_live_elems gh_inv_def node_inv_def)
  show "\<exists>h' n. revoke_deleted env h = Inr (h', n) \<and> live_elems h' = live_elems h" using revoke_deleted_inv [OF inv] by blast
  show "\<exists>h'. erase_if env h P = Inr (h', length (filter P (live_elems h))) \<and> live_elems h' = filter (\<lambda>e. \<not> P e) (live_elems h)"
    using erase_if_spec [OF inv, of P] by (auto simp: filtered_def)
  show "\<exists>h'. gh_sort env srt h = Inr h' \<and> live_elems h' = srt (live_elems h) \<and> is_sorted h'"
    using gh_sort_spec [of env h srt] inv srt by blast
qed

lemma gold_hash_order_witness:
  "for_each small_table = Inr [(3, 1), (13, 5)] \<and>
   (\<exists>h'. erase_if nat_env small_table (\<lambda>e. fst e = 3) = Inr (h', 1) \<and> live_elems h' = [(13, 5)]) \<and>
   (\<exists>h'. gh_sort nat_env rev small_table = Inr h' \<and> live_elems h' = [(13, 5), (3, 1)] \<and> is_sorted h')"
  using gold_hash_order [OF small_table_inv, of rev "\<lambda>e. fst e = 3"] by (simp add: small_table_elems)

text \<open>C27: two tables compare equal exactly when they are the same map, however their slots are laid out; a table
  saved and loaded into any table is equal to it and keeps the order of its elements, and so does the fast format
  of a table without deleted slots.\<close>

theorem gold_hash_file_roundtrip:
  assumes inv: "gh_inv env h" and old: "gh_inv env h0" and g: "grants env"
    and eq: "\<forall>a b. key_of env a = key_of env b \<longrightarrow> (elem_eq a b \<longleftrightarrow> a = b)"
  shows "gh_equal env elem_eq h h0 = Inr (table_map env h = table_map env h0) \<and>
    (\<exists>s h'. dio_save h = Inr s \<and> dio_load env h0 s = Inr h' \<and> gh_inv env h' \<and> live_elems h' = live_elems h \<and>
      gh_equal env elem_eq h h' = Inr True) \<and>
    (freelist_size h = 0 \<and> live_elems h \<noteq> [] \<longrightarrow>
      (\<exists>s h'. dio_save_fast h = Inr s \<and> dio_load_fast env h0 s = Inr h' \<and> gh_inv env h' \<and> live_elems h' = live_elems h \<and>
        load_factor h' = load_factor h \<and> gh_equal env elem_eq h h' = Inr True))"
proof -
  have n: "length (live_elems h) \<le> delmark"
    using inv card_used(1) [of h] by (auto simp: length_live_elems gh_inv_def node_inv_def sizes_ok_def)
  note d = distinct_keys [OF gh_inv_inj [OF inv]] and lf = gh_inv_load [OF inv]
  note cmp = gh_equal_spec [OF inv _ eq]
  obtain h1 where h1: "dio_load env h0 (length (live_elems h), live_elems h) = Inr h1" "gh_inv env h1" "live_elems h1 = live_elems h"
    using dio_load_spec [OF old g n d] by blast
  have eq1: "gh_equal env elem_eq h h1 = Inr True" using cmp [OF h1(2)] table_map_elems [OF h1(3), of env] by simp
  have "\<exists>s h'. dio_save_fast h = Inr s \<and> dio_load_fast env h0 s = Inr h' \<and> gh_inv env h' \<and> live_elems h' = live_elems h \<and>
      load_factor h' = load_factor h \<and> gh_equal env elem_eq h h' = Inr True"
    if "freelist_size h = 0" "live_elems h \<noteq> []"
  proof -
    note f0 = that(1) and ne = that(2)
    obtain h2 where h2: "dio_load_fast env h0 (length (live_elems h), load_factor h, live_elems h) = Inr h2" "gh_inv env h2"
        "live_elems h2 = live_elems h" "load_factor h2 = load_factor h"
      using dio_load_fast_spec [OF old g n d _ _ ne] lf by blast
    moreover have "gh_equal env elem_eq h h2 = Inr True" using cmp [OF h2(2)] table_map_elems [OF h2(3), of env] by simp
    ultimately show ?thesis using dio_save_fast_elems [OF inv f0] by blast
  qed
  then show ?thesis using cmp [OF old] dio_save_elems [OF inv] h1 eq1 by blast
qed

lemma gold_hash_file_roundtrip_witness:
  "\<exists>s h'. dio_save small_table = Inr s \<and> dio_load nat_env gh_init s = Inr h' \<and> gh_inv nat_env h' \<and>
     live_elems h' = [(3, 1), (13, 5)] \<and> gh_equal nat_env (\<lambda>a b. snd a = snd b) small_table h' = Inr True"
  using gold_hash_file_roundtrip [OF small_table_inv gh_init_inv nat_env_grants(1), of "\<lambda>a b. snd a = snd b"]
  by (simp add: small_table_elems prod_eq_iff)

text \<open>C29: the key/value interface.  \<open>insert_or_assign\<close> binds the key to the value, whether it was there or not;
  \<open>operator[]\<close> returns the slot of the key, made with the default value if it is new; \<open>at\<close> returns the value or
  throws \<open>out_of_range\<close>; \<open>erase(key, &val)\<close> hands out the value it removes.\<close>

theorem gold_hash_map_values:
  assumes inv: "gh_inv (map_env env) h" and g: "grants env" and room: "nElem h < 2 ^ 31"
  shows "(\<exists>h' p. insert_or_assign env h k v = Inr (h', p, table_map (map_env env) h k = None) \<and> gh_inv (map_env env) h' \<and>
      slot_map h' p = Some (k, v) \<and> table_map (map_env env) h' = (table_map (map_env env) h)(k \<mapsto> (k, v))) \<and>
    (\<exists>h' p. map_index env v h k = Inr (h', p) \<and> gh_inv (map_env env) h' \<and>
      slot_map h' p = Some (case table_map (map_env env) h k of Some kv \<Rightarrow> kv | None \<Rightarrow> (k, v))) \<and>
    map_at env h k = (case table_map (map_env env) h k of Some kv \<Rightarrow> Inr (snd kv) | None \<Rightarrow> Inl Out_of_range) \<and>
    (\<exists>h' n. map_erase_get env h k = Inr (h', n, map_option snd (table_map (map_env env) h k)) \<and> gh_inv (map_env env) h' \<and>
      table_map (map_env env) h' = (table_map (map_env env) h)(k := None))"
proof -
  let ?env = "map_env env" and ?m = "table_map (map_env env) h"
  have g': "grants ?env" using g by simp
  have lazy: "lazy_insert_elem_i ?env h k (k, v) = insert_i ?env h (k, v)" by (simp add: insert_i_def)
  show ?thesis
  proof (cases "?m k")
    case None
    obtain h1 p where h1: "insert_i ?env h (k, v) = Inr (h1, p, True)" "gh_inv ?env h1" "slot_map h1 = (slot_map h)(p \<mapsto> (k, v))"
        "table_map ?env h1 = ?m(k \<mapsto> (k, v))"
      using insert_i_new [OF inv g' room, of "(k, v)"] None by auto
    have "map_at env h k = Inl Out_of_range" using find_i_spec(2) [OF inv None] by (simp add: map_at_def end_i_def)
    moreover have "map_erase_get env h k = Inr (h, 0, None)" "?m(k := None) = ?m"
      using gh_erase_get_spec(2) [OF inv None] None by (auto simp: map_erase_get_def)
    ultimately show ?thesis
      using h1 None inv by (auto simp: insert_or_assign_def map_index_def lazy_insert_i_def lazy)
  next
    case (Some kv)
    then have fst: "fst kv = k" using table_map_iff [OF gh_inv_inj [OF inv], of k kv] by simp
    then obtain v0 where kv: "kv = (k, v0)" by (cases kv) auto
    obtain p where p: "insert_i ?env h (k, v) = Inr (h, p, False)" "slot_map h p = Some (k, v0)"
      using insert_i_old [OF inv, of "(k, v)" kv] Some kv by auto
    obtain h1 where h1: "set_value h p v = Inr h1" "gh_inv ?env h1" "slot_map h1 = (slot_map h)(p \<mapsto> (k, v))"
        "table_map ?env h1 = ?m(k \<mapsto> (k, v))"
      using set_value_spec [OF inv p(2)] by blast
    obtain q where q: "q \<in> used h" "find_i ?env h k = Inr q" "slot_map h q = Some kv"
      using find_i_spec(1) [OF inv Some] by blast
    then have "map_at env h k = Inr (snd kv)"
      using used_slot [OF gh_inv_node [OF inv] q(1)] by (auto simp: map_at_def end_i_def slot_map_by_used)
    moreover obtain q' h2 where "gh_erase_get ?env h k = Inr (h2, 1, Some kv)" "erased ?env h q' h2" "key_at ?env h q' = k"
      using gh_erase_get_spec(1) [OF inv Some] by blast
    ultimately show ?thesis
      using h1 p Some kv inv by (auto simp: insert_or_assign_def map_index_def lazy_insert_i_def lazy map_erase_get_def erased_def)
  qed
qed

lemma gold_hash_map_values_witness:
  "map_at nat_env small_table 13 = Inr 5 \<and> map_at nat_env small_table 4 = Inl Out_of_range"
proof -
  have e: "map_env nat_env = nat_env" by (simp add: map_env_def nat_env_def)
  have m: "table_map nat_env small_table = [3 \<mapsto> (3, 1), 13 \<mapsto> (13, 5)]"
    by (auto simp: table_map_def small_table_elems nat_env_def)
  have "nElem small_table < 2 ^ 31" by (simp add: small_table_def)
  from gold_hash_map_values [of nat_env, unfolded e, OF small_table_inv nat_env_grants(1) this, of 13]
    gold_hash_map_values [of nat_env, unfolded e, OF small_table_inv nat_env_grants(1) this, of 4]
  show ?thesis by (simp add: m)
qed

text \<open>C39: what does not work.  \<open>shrink_to_fit\<close> gives no node back, for \<open>reserve_nodes\<close> skips a request for exactly
  \<open>nElem\<close>; a table of \<open>2^31\<close> elements cannot grow, because doubling wraps in the link type, though the links could
  address almost twice as many; with deleted slots, \<open>reserve(size())\<close> aborts and the fast format reads dead elements;
  \<open>shrink_after_erase_if\<close> computes the number of buckets in 32 bits, so what is left with \<open>2^24\<close> elements gets 5.\<close>

theorem gold_hash_defects:
  assumes inv: "gh_inv env h" and g: "grants env"
  shows "(\<exists>h'. shrink_to_fit env h = Inr h' \<and> maxElem h' = maxElem h) \<and>
    (freelist_size h \<noteq> 0 \<longrightarrow> reserve env h (gh_size h) = Inl Abort \<and> dio_save_fast h = Inl Undefined) \<and>
    (\<forall>t :: 'e gold_hash_tab. nElem t = 2 ^ 31 \<and> maxElem t = 2 ^ 31 \<and> freelist_size t = 0 \<longrightarrow>
      risk_slot_alloc env t = Inl Abort) \<and> 2 ^ 31 < delmark \<and>
    (\<forall>P. filter P (live_elems h) \<noteq> [] \<and> length (filter (\<lambda>e. \<not> P e) (live_elems h)) = 2 ^ 24 \<longrightarrow>
      (\<exists>h' n. shrink_after_erase_if env h P = Inr (h', n) \<and> live_elems h' = filter (\<lambda>e. \<not> P e) (live_elems h) \<and>
        nBucket h' = 5))"
proof (intro conjI allI impI)
  show "\<exists>h'. shrink_to_fit env h = Inr h' \<and> maxElem h' = maxElem h" using shrink_to_fit_inv [OF inv g] by blast
next
  assume free: "freelist_size h \<noteq> 0"
  have "freelist_size h \<le> nElem h" using inv card_used(2) by (auto simp: gh_inv_def node_inv_def)
  with free have "\<not> gh_size h \<ge> nElem h" by (simp add: gh_size_def)
  then show "reserve env h (gh_size h) = Inl Abort" by (simp add: reserve_def reserve_nodes_def)
  show "dio_save_fast h = Inl Undefined" by (rule dio_save_fast_deleted [OF inv free])
next
  fix t :: "'e gold_hash_tab"
  assume "nElem t = 2 ^ 31 \<and> maxElem t = 2 ^ 31 \<and> freelist_size t = 0"
  then show "risk_slot_alloc env t = Inl Abort"
    by (simp add: risk_slot_alloc_def alloc_no_reuse_def reserve_nodes_def LinkTp_def verify_def)
next
  fix P
  assume P: "filter P (live_elems h) \<noteq> [] \<and> length (filter (\<lambda>e. \<not> P e) (live_elems h)) = 2 ^ 24"
  then have "filter (\<lambda>e. \<not> P e) (live_elems h) \<noteq> []" by auto
  moreover have "hsm_stl_next_prime (LinkTp (2 ^ 24 * 256) div load_factor h + 1) = 5"
    by (simp add: LinkTp_def next_prime_5)
  ultimately show "\<exists>h' n. shrink_after_erase_if env h P = Inr (h', n) \<and>
      live_elems h' = filter (\<lambda>e. \<not> P e) (live_elems h) \<and> nBucket h' = 5"
    using shrink_after_erase_if_spec [OF inv g, of P] P by (auto simp: filtered_def)
qed (simp add: delmark_def tail_def)

lemma gold_hash_defects_witness:
  "reserve nat_env small_table 2 = Inl Abort \<and> dio_save_fast small_table = Inl Undefined \<and>
   (\<exists>h'. shrink_to_fit nat_env small_table = Inr h' \<and> maxElem h' = 4)"
proof -
  have "gh_size small_table = 2" "freelist_size small_table \<noteq> 0" "maxElem small_table = 4"
    by (simp_all add: gh_size_def small_table_def)
  with gold_hash_defects [OF small_table_inv nat_env_grants(1)] show ?thesis by simp
qed

end
