(* ===== verification/Lru_Laws.thy ===== *)
theory Lru_Laws
  imports Lru_Map Gold_Hash_Refine
begin

text \<open>
  The list of the unreferenced nodes as a ring, the invariant of the cache and what each step does with it when
  its thread is alone.
\<close>

section \<open>Rings\<close>

text \<open>The links lead from \<open>a\<close> through the slots of the list to \<open>b\<close>, and back.\<close>

primrec linked :: "(nat \<Rightarrow> nat) \<Rightarrow> (nat \<Rightarrow> nat) \<Rightarrow> nat \<Rightarrow> nat list \<Rightarrow> nat \<Rightarrow> bool" where
  "linked nx pv a [] b \<longleftrightarrow> nx a = b \<and> pv b = a"
| "linked nx pv a (x # xs) b \<longleftrightarrow> nx a = x \<and> pv x = a \<and> linked nx pv x xs b"

fun ring :: "(nat \<Rightarrow> nat) \<Rightarrow> (nat \<Rightarrow> nat) \<Rightarrow> nat list \<Rightarrow> bool" where
  "ring nx pv [] = True"
| "ring nx pv (x # xs) = linked nx pv x xs x"

lemma linked_append: "linked nx pv a (xs @ y # ys) b \<longleftrightarrow> linked nx pv a xs y \<and> linked nx pv y ys b"
  by (induction xs arbitrary: a) auto

lemma linked_cong:
  "\<forall>x\<in>set (a # xs). nx' x = nx x \<Longrightarrow> \<forall>x\<in>set (b # xs). pv' x = pv x \<Longrightarrow> linked nx' pv' a xs b = linked nx pv a xs b"
  by (induction xs arbitrary: a) auto

lemma ring_cong: "\<forall>x\<in>set xs. nx' x = nx x \<and> pv' x = pv x \<Longrightarrow> ring nx' pv' xs = ring nx pv xs"
proof (cases xs)
  case (Cons a as)
  assume "\<forall>x\<in>set xs. nx' x = nx x \<and> pv' x = pv x"
  with Cons show ?thesis using linked_cong [of a as nx' nx a pv' pv] by simp
qed simp

lemma ring_rotate: "ring nx pv (xs @ y # ys) \<longleftrightarrow> ring nx pv (y # ys @ xs)"
  by (cases xs) (auto simp: linked_append)

lemma linked_ends: "linked nx pv a xs b \<Longrightarrow> pv b = last (a # xs) \<and> nx a = hd (xs @ [b])"
  by (induction xs arbitrary: a) auto

text \<open>The node before the head is the last one.\<close>

lemma ring_last: "ring nx pv (x # xs) \<Longrightarrow> pv x = last (x # xs)"
  using linked_ends by simp

lemma ring_mem: "ring nx pv xs \<Longrightarrow> x \<in> set xs \<Longrightarrow> nx x \<in> set xs \<and> pv x \<in> set xs"
proof -
  assume r: "ring nx pv xs" and "x \<in> set xs"
  then obtain ys zs where xs: "xs = ys @ x # zs" by (meson split_list)
  then have "ring nx pv (x # zs @ ys)" using r by (simp only: ring_rotate)
  then have "pv x \<in> set (x # zs @ ys)" "nx x \<in> set ((zs @ ys) @ [x])"
    using linked_ends [of nx pv x "zs @ ys" x] by (metis ring.simps(2) last_in_set list.distinct(1), metis ring.simps(2) hd_in_set snoc_eq_iff_butlast)
  then show ?thesis unfolding xs by auto
qed

lemma ring_insert:
  assumes r: "ring nx pv (x # xs)" and d: "distinct (x # xs)" and p: "p \<notin> set (x # xs)"
  shows "ring (nx(p := x, pv x := p)) (pv(p := pv x, x := p)) (p # x # xs)"
proof (cases xs rule: rev_cases)
  case Nil
  with r p show ?thesis by auto
next
  case (snoc ys t)
  with r have l: "linked nx pv x ys t" "nx t = x" "pv x = t" by (simp_all add: linked_append)
  from d p snoc have *: "p \<noteq> t" "t \<noteq> x" "p \<noteq> x" "t \<notin> set ys" "p \<notin> set ys" "x \<notin> set ys" by auto
  have "linked (nx(p := x, pv x := p)) (pv(p := pv x, x := p)) x ys t"
    using l * by (subst linked_cong [of _ _ _ nx _ _ pv]) auto
  with l * snoc show ?thesis by (simp add: linked_append)
qed

lemma ring_remove_head:
  assumes r: "ring nx pv (y # xs)" and d: "distinct (y # xs)"
  shows "ring (nx(pv y := nx y)) (pv(nx y := pv y)) xs"
proof (cases xs)
  case Nil
  then show ?thesis by simp
next
  case (Cons a as)
  note c = Cons
  show ?thesis
  proof (cases as rule: rev_cases)
    case Nil
    with r Cons show ?thesis by simp
  next
    case (snoc bs z)
    with r Cons have l: "nx y = a" "pv a = y" "linked nx pv a bs z" "nx z = y" "pv y = z" by (simp_all add: linked_append)
    from d Cons snoc have *: "z \<noteq> a" "z \<notin> set bs" "a \<notin> set bs" by auto
    have "linked (nx(pv y := nx y)) (pv(nx y := pv y)) a bs z"
      using l * by (subst linked_cong [of _ _ _ nx _ _ pv]) auto
    with l * Cons snoc show ?thesis by (simp add: linked_append)
  qed
qed

lemma ring_remove:
  assumes r: "ring nx pv xs" and d: "distinct xs" and y: "y \<in> set xs"
  shows "ring (nx(pv y := nx y)) (pv(nx y := pv y)) (remove1 y xs)"
proof -
  obtain as bs where xs: "xs = as @ y # bs" using y by (meson split_list)
  with d have "y \<notin> set as" by auto
  then have rm: "remove1 y xs = as @ bs" by (simp add: xs remove1_append)
  have "ring nx pv (y # bs @ as)" "distinct (y # bs @ as)" using r d unfolding xs ring_rotate by auto
  from ring_remove_head [OF this] have "ring (nx(pv y := nx y)) (pv(nx y := pv y)) (bs @ as)" .
  then show ?thesis unfolding rm by (cases bs) (auto simp: ring_rotate)
qed

lemma ring_head_next:
  assumes "ring nx pv (x # xs)" and "xs \<noteq> []"
  shows "nx x = hd xs"
  using assms linked_ends [of nx pv x xs x] by simp

section \<open>Writing a node\<close>

abbreviation slots :: "('k, 'v) lru_map \<Rightarrow> nat set" where
  "slots L \<equiv> used (lru_tab L)"

definition lru_key :: "('k, 'v) lru_map \<Rightarrow> nat \<Rightarrow> 'k" where
  "lru_key L p = fst (elem_of (nl_data (lru_tab L) ! p))"

definition nd :: "('k, 'v) lru_map \<Rightarrow> nat \<Rightarrow> 'v lru_node" where
  "nd L p = snd (elem_of (nl_data (lru_tab L) ! p))"

definition lru_upd :: "('k, 'v) lru_map \<Rightarrow> nat \<Rightarrow> 'v lru_node \<Rightarrow> ('k, 'v) lru_map" where
  "lru_upd L p n = L\<lparr>lru_tab := (lru_tab L)\<lparr>nl_data := (nl_data (lru_tab L))[p := Live (lru_key L p, n)]\<rparr>\<rparr>"

text \<open>Every slot in use holds an element; nothing is said of the index.\<close>

definition cells_ok :: "('k, 'v) lru_map \<Rightarrow> bool" where
  "cells_ok L \<longleftrightarrow> (\<forall>p\<in>slots L. p < length (nl_data (lru_tab L)) \<and> is_live (nl_data (lru_tab L) ! p))"

lemma gh_inv_cells: "gh_inv env (lru_tab L) \<Longrightarrow> cells_ok L"
  by (auto simp: gh_inv_def node_inv_def cells_ok_def sizes_ok_def dest: used_less)

lemma slot_map_nodes: "slot_map (lru_tab L) p = (if p \<in> slots L then Some (lru_key L p, nd L p) else None)"
  by (simp add: slot_map_by_used lru_key_def nd_def)

lemma lru_upd_fields [simp]:
  "m_lru_head (lru_upd L p x) = m_lru_head L" "m_lru_len (lru_upd L p x) = m_lru_len L"
  "m_num_evicting (lru_upd L p x) = m_num_evicting L"
  "maxElem (lru_tab (lru_upd L p x)) = maxElem (lru_tab L)" "nElem (lru_tab (lru_upd L p x)) = nElem (lru_tab L)"
  "nl_link (lru_tab (lru_upd L p x)) = nl_link (lru_tab L)" "slots (lru_upd L p x) = slots L"
  "freelist_size (lru_tab (lru_upd L p x)) = freelist_size (lru_tab L)"
  "m_enable_auto_gc (lru_tab (lru_upd L p x)) = m_enable_auto_gc (lru_tab L)"
  "m_enable_freelist_reuse (lru_tab (lru_upd L p x)) = m_enable_freelist_reuse (lru_tab L)"
  by (simp_all add: lru_upd_def used_def)

lemma slot_elem:
  assumes "cells_ok L" and "p \<in> slots L"
  shows "nl_data (lru_tab L) ! p = Live (lru_key L p, nd L p)" and "p < nElem (lru_tab L)"
    and "nl_link (lru_tab L) ! p \<noteq> delmark" and "p < length (nl_data (lru_tab L))"
  using assms by (auto simp: cells_ok_def used_def is_live_iff lru_key_def nd_def)

lemma node_at_eq [simp]: "cells_ok L \<Longrightarrow> p \<in> slots L \<Longrightarrow> node_at L p = Inr (nd L p)"
  using slot_elem [of L p] by (simp add: node_at_def map_val_def)

lemma update_node_eq [simp]: "cells_ok L \<Longrightarrow> p \<in> slots L \<Longrightarrow> update_node L p f = Inr (lru_upd L p (f (nd L p)))"
  using slot_elem [of L p] by (simp add: update_node_def set_value_def elem_at_def lru_upd_def)

lemma nd_upd [simp]:
  assumes "cells_ok L" and "p \<in> slots L"
  shows "nd (lru_upd L p n) = (nd L)(p := n)" and "lru_key (lru_upd L p n) = lru_key L"
proof -
  note e = slot_elem [OF assms]
  show "nd (lru_upd L p n) = (nd L)(p := n)"
    using e(4) by (rule_tac ext) (simp add: nd_def lru_upd_def nth_list_update)
  show "lru_key (lru_upd L p n) = lru_key L"
    using e(1,4) by (rule_tac ext) (simp add: lru_key_def lru_upd_def nth_list_update)
qed

lemma lru_upd_cells [simp]: "cells_ok L \<Longrightarrow> cells_ok (lru_upd L p n)"
  unfolding cells_ok_def lru_upd_fields
  by (cases "p < length (nl_data (lru_tab L))") (auto simp: lru_upd_def nth_list_update list_update_beyond)

lemma lru_upd_inv:
  assumes "gh_inv (map_env env) (lru_tab L)" and "p \<in> slots L"
  shows "gh_inv (map_env env) (lru_tab (lru_upd L p n))"
proof -
  note e = slot_elem [OF gh_inv_cells [OF assms(1)] assms(2)]
  have "slot_map (lru_tab L) p = Some (lru_key L p, nd L p)" using assms(2) by (simp add: slot_map_nodes)
  from set_value_spec [OF assms(1) this] obtain h' where "set_value (lru_tab L) p n = Inr h'" "gh_inv (map_env env) h'"
    by blast
  then show ?thesis using e by (simp add: set_value_def elem_at_def lru_upd_def)
qed

section \<open>The invariant\<close>

definition nx :: "('k, 'v) lru_map \<Rightarrow> nat \<Rightarrow> nat" where
  "nx L p = m_lru_next (nd L p)"

definition pv :: "('k, 'v) lru_map \<Rightarrow> nat \<Rightarrow> nat" where
  "pv L p = m_lru_prev (nd L p)"

definition refs :: "('k, 'v) lru_map \<Rightarrow> nat \<Rightarrow> nat" where
  "refs L p = m_lru_refcnt (nd L p)"

text \<open>
  The list \<open>ss\<close> has the slots of all nodes without references, except those of \<open>P\<close>, which are on their way onto
  it or off it; the value of every node with references is there.
\<close>

definition lru_ok :: "('k, 'v) lru_env \<Rightarrow> ('k, 'v) lru_map \<Rightarrow> nat list \<Rightarrow> nat set \<Rightarrow> bool" where
  "lru_ok env L ss P \<longleftrightarrow>
     gh_inv (map_env env) (lru_tab L) \<and> \<not> m_enable_auto_gc (lru_tab L) \<and> m_enable_freelist_reuse (lru_tab L) \<and>
     maxElem (lru_tab L) < 2 ^ 31 \<and> m_num_evicting L = 0 \<and>
     ring (nx L) (pv L) ss \<and> distinct ss \<and> set ss = {p \<in> slots L. refs L p = 0} - P \<and>
     m_lru_head L = (if ss = [] then no_link else hd ss) \<and> m_lru_len L = length ss \<and>
     (\<forall>p\<in>slots L - P. refs L p \<noteq> 0 \<longrightarrow> nx L p = solve_done)"

text \<open>What a client sees of a node, and that it is the same for all nodes.\<close>

definition entry :: "'v lru_node \<Rightarrow> 'v \<times> nat \<times> nat" where
  "entry n = (lru_val n, m_lru_refcnt n, m_lru_hitcnt n)"

definition same_view :: "('k, 'v) lru_map \<Rightarrow> ('k, 'v) lru_map \<Rightarrow> bool" where
  "same_view L L' \<longleftrightarrow> slots L' = slots L \<and> lru_key L' = lru_key L \<and> (\<forall>p. entry (nd L' p) = entry (nd L p)) \<and>
     maxElem (lru_tab L') = maxElem (lru_tab L)"

lemma nd_fields [simp]:
  "nd (L\<lparr>m_lru_head := a\<rparr>) = nd L" "nd (L\<lparr>m_lru_len := a\<rparr>) = nd L"
  "lru_key (L\<lparr>m_lru_head := a\<rparr>) = lru_key L" "lru_key (L\<lparr>m_lru_len := a\<rparr>) = lru_key L"
  "cells_ok (L\<lparr>m_lru_head := a\<rparr>) = cells_ok L" "cells_ok (L\<lparr>m_lru_len := a\<rparr>) = cells_ok L"
  by (simp_all add: nd_def lru_key_def cells_ok_def fun_eq_iff)

lemma nx_fields [simp]:
  "nx (L\<lparr>m_lru_head := a\<rparr>) = nx L" "nx (L\<lparr>m_lru_len := a\<rparr>) = nx L"
  "pv (L\<lparr>m_lru_head := a\<rparr>) = pv L" "pv (L\<lparr>m_lru_len := a\<rparr>) = pv L"
  by (simp_all add: nx_def pv_def fun_eq_iff)

lemma lru_okD:
  assumes "lru_ok env L ss P"
  shows "gh_inv (map_env env) (lru_tab L)" and "cells_ok L" and "ring (nx L) (pv L) ss" and "distinct ss"
    and "set ss = {p \<in> slots L. refs L p = 0} - P" and "m_lru_head L = (if ss = [] then no_link else hd ss)"
    and "m_lru_len L = length ss" and "p \<in> slots L \<Longrightarrow> p \<notin> P \<Longrightarrow> refs L p \<noteq> 0 \<Longrightarrow> nx L p = solve_done"
  using assms gh_inv_cells by (auto simp: lru_ok_def)

lemma slot_less: "lru_ok env L ss P \<Longrightarrow> p \<in> slots L \<Longrightarrow> p < 2 ^ 31"
  using used_less [of p "lru_tab L"] by (auto simp: lru_ok_def gh_inv_def node_inv_def sizes_ok_def)

lemma slot_marks:
  assumes "lru_ok env L ss P" and "p \<in> slots L"
  shows "p \<noteq> no_link" and "p \<noteq> inprogress" and "p \<noteq> solve_fail" and "p \<noteq> solve_done" and "LinkTp p = p"
  using slot_less [OF assms] by (auto simp: no_link_def inprogress_def solve_fail_def solve_done_def LinkTp_def)

lemma length_idle: "lru_ok env L ss P \<Longrightarrow> length ss < 2 ^ 31"
proof -
  assume ok: "lru_ok env L ss P"
  have "length ss = card (set ss)" using lru_okD(4) [OF ok] by (simp add: distinct_card)
  also have "\<dots> \<le> card (slots L)" using lru_okD(5) [OF ok] by (intro card_mono) auto
  also have "\<dots> \<le> nElem (lru_tab L)" using card_mono [of "{..<nElem (lru_tab L)}" "slots L"] used_less by fastforce
  also have "\<dots> < 2 ^ 31" using ok by (simp add: lru_ok_def gh_inv_def node_inv_def sizes_ok_def)
  finally show ?thesis .
qed

lemma inc_dec [simp]: "n < 2 ^ 32 - 1 \<Longrightarrow> inc32 n = Suc n" "0 < n \<Longrightarrow> n < 2 ^ 32 \<Longrightarrow> dec32 n = n - 1"
proof -
  show "inc32 n = Suc n" if "n < 2 ^ 32 - 1" using that by (simp add: inc32_def LinkTp_def)
  show "dec32 n = n - 1" if "0 < n" "n < 2 ^ 32"
  proof -
    have e: "n + (2 ^ 32 - 1) = (n - 1) + 2 ^ 32" using that by simp
    have "(n - 1 + 2 ^ 32) mod 2 ^ 32 = (n - 1) mod 2 ^ 32" by (rule mod_add_self2)
    also have "\<dots> = n - 1" using that by simp
    finally show ?thesis unfolding dec32_def LinkTp_def e .
  qed
qed

section \<open>The list\<close>

lemma insert_as_new_head_law:
  assumes ok: "lru_ok env L ss {p}" and p: "p \<in> slots L" and r: "refs L p = 0"
  shows "\<exists>L'. insert_as_new_head L p = Inr L' \<and> lru_ok env L' (p # ss) {} \<and> same_view L L'"
proof (cases ss)
  case Nil
  let ?L = "(lru_upd L p ((nd L p)\<lparr>m_lru_next := p, m_lru_prev := p\<rparr>))\<lparr>m_lru_head := p, m_lru_len := 1\<rparr>"
  note o = lru_okD [OF ok]
  have "insert_as_new_head L p = Inr ?L"
    using Nil o(2,6,7) p r by (simp add: insert_as_new_head_def refs_def)
  moreover have "lru_ok env ?L [p] {}"
    using ok p r Nil lru_upd_inv [OF o(1) p] o(2)
    by (auto simp: lru_ok_def nx_def pv_def refs_def)
  moreover have "same_view L ?L" using o(2) p by (simp add: same_view_def entry_def)
  ultimately show ?thesis using Nil by blast
next
  case (Cons x xs)
  note o = lru_okD [OF ok]
  let ?t = "pv L x"
  have x: "x \<in> set ss" "?t \<in> set ss" "p \<notin> set ss" using ring_mem [OF o(3)] o(5) Cons by auto
  then have xs: "x \<in> slots L" "?t \<in> slots L" "x \<noteq> p" "?t \<noteq> p" using o(5) by auto
  define L1 where "L1 = lru_upd L p ((nd L p)\<lparr>m_lru_next := x, m_lru_prev := ?t\<rparr>)"
  define L2 where "L2 = lru_upd L1 ?t ((nd L1 ?t)\<lparr>m_lru_next := p\<rparr>)"
  define L3 where "L3 = lru_upd L2 x ((nd L2 x)\<lparr>m_lru_prev := p\<rparr>)"
  let ?L = "L3\<lparr>m_lru_head := p, m_lru_len := Suc (length ss)\<rparr>"
  have "insert_as_new_head L p = Inr ?L"
    using Cons o(2,6,7) p r xs slot_marks(1) [OF ok xs(1)] length_idle [OF ok]
    by (simp add: insert_as_new_head_def refs_def L1_def L2_def L3_def pv_def Let_def)
  moreover have inv: "gh_inv (map_env env) (lru_tab L3)"
    unfolding L3_def L2_def L1_def using o(1) p xs by (intro lru_upd_inv) simp_all
  have nx: "nx L3 = (nx L)(p := x, ?t := p)" and pv: "pv L3 = (pv L)(p := ?t, x := p)"
    using o(2) p xs by (auto simp: fun_eq_iff nx_def pv_def L1_def L2_def L3_def)
  have same: "same_view L ?L"
    using o(2) p xs by (auto simp: same_view_def entry_def L1_def L2_def L3_def)
  then have refs: "refs ?L = refs L" by (auto simp: same_view_def entry_def refs_def)
  have "ring (nx ?L) (pv ?L) (p # ss)"
    using ring_insert [of "nx L" "pv L" x xs p] o(3,4) x(3) Cons by (simp add: nx pv del: ring.simps)
  moreover have "nx ?L q = solve_done" if "q \<in> slots L" "refs L q \<noteq> 0" for q
  proof -
    have np: "q \<noteq> p" using that(2) r by blast
    have "q \<notin> set ss" using that(2) unfolding o(5) by simp
    then have "q \<noteq> x" "q \<noteq> ?t" using x(1,2) by blast+
    then have "nx ?L q = nx L q" using np by (simp add: nx)
    with that np o(8) show ?thesis by simp
  qed
  moreover have "set (p # ss) = {q \<in> slots L. refs L q = 0}" using o(5) p r by auto
  moreover have "m_num_evicting ?L = m_num_evicting L" "m_enable_auto_gc (lru_tab ?L) = m_enable_auto_gc (lru_tab L)"
      "m_enable_freelist_reuse (lru_tab ?L) = m_enable_freelist_reuse (lru_tab L)" "slots ?L = slots L"
    by (simp_all add: L1_def L2_def L3_def)
  ultimately have "lru_ok env ?L (p # ss) {}"
    using ok inv same x(3) unfolding lru_ok_def refs same_view_def
    by simp
  with same \<open>insert_as_new_head L p = Inr ?L\<close> show ?thesis by blast
qed

lemma remove_node_law:
  assumes ok: "lru_ok env L ss {}" and p: "p \<in> set ss"
  shows "\<exists>L'. remove_node L p = Inr L' \<and> lru_ok env L' (remove1 p ss) {p} \<and> same_view L L' \<and>
    nx L' p = solve_done"
proof -
  note o = lru_okD [OF ok]
  let ?a = "pv L p" and ?b = "nx L p"
  have ab: "?a \<in> set ss" "?b \<in> set ss" using ring_mem [OF o(3) p] by auto
  then have s: "p \<in> slots L" "?a \<in> slots L" "?b \<in> slots L" "refs L p = 0" using o(5) p by auto
  define L1 where "L1 = lru_upd L ?a ((nd L ?a)\<lparr>m_lru_next := ?b\<rparr>)"
  define L2 where "L2 = lru_upd L1 ?b ((nd L1 ?b)\<lparr>m_lru_prev := ?a\<rparr>)"
  define L3 where "L3 = (if p = m_lru_head L then L2\<lparr>m_lru_head := if 1 = length ss then no_link else ?b\<rparr> else L2)"
  define L4 where "L4 = lru_upd L3 p ((nd L3 p)\<lparr>m_lru_next := solve_done, m_lru_prev := solve_done\<rparr>)"
  let ?L = "L4\<lparr>m_lru_len := length ss - 1\<rparr>"
  have len: "0 < length ss" using p by (cases ss) auto
  have l3: "nd L3 = nd L2" "lru_key L3 = lru_key L2" "cells_ok L3 = cells_ok L2" "lru_tab L3 = lru_tab L2" "m_lru_len L3 = m_lru_len L2"
      "m_num_evicting L3 = m_num_evicting L2"
    by (simp_all add: L3_def)
  have frame: "m_num_evicting ?L = m_num_evicting L" "m_enable_auto_gc (lru_tab ?L) = m_enable_auto_gc (lru_tab L)"
      "m_enable_freelist_reuse (lru_tab ?L) = m_enable_freelist_reuse (lru_tab L)" "slots ?L = slots L"
    by (simp_all add: L1_def L2_def L4_def l3)
  have "remove_node L p = Inr ?L"
    using o(2,7) s len length_idle [OF ok]
    by (cases "p = m_lru_head L")
      (simp_all add: remove_node_def refs_def L1_def L2_def L3_def L4_def Let_def nx_def pv_def del: fun_upd_apply)
  moreover have nx: "nx ?L = (nx L)(?a := ?b, p := solve_done)" and pv: "pv ?L = (pv L)(?b := ?a, p := solve_done)"
    using o(2) s l3 by (auto simp: fun_eq_iff nx_def pv_def L4_def L1_def L2_def)
  moreover have same: "same_view L ?L"
    using o(2) s l3 by (auto simp: same_view_def entry_def L1_def L2_def L4_def)
  moreover have "lru_ok env ?L (remove1 p ss) {p}"
  proof -
    have refs: "refs ?L = refs L" using same by (auto simp: same_view_def entry_def refs_def)
    have inv: "gh_inv (map_env env) (lru_tab ?L)"
    proof -
      have "gh_inv (map_env env) (lru_tab L2)"
        unfolding L2_def L1_def using o(1) s by (intro lru_upd_inv) simp_all
      then show ?thesis using lru_upd_inv [of env L3 p] s l3(4) by (simp add: L4_def L2_def L1_def)
    qed
    have rm: "p \<notin> set (remove1 p ss)" "set (remove1 p ss) = set ss - {p}" using o(4) by (simp_all add: set_remove1_eq)
    have "ring (nx ?L) (pv ?L) (remove1 p ss)"
      using ring_remove [OF o(3,4) p] rm(1) unfolding nx pv by (subst ring_cong) auto
    moreover have "m_lru_head ?L = (if remove1 p ss = [] then no_link else hd (remove1 p ss))"
    proof (cases ss)
      case (Cons x xs)
      then have "m_lru_head L = x" using o(6) by simp
      moreover have "nx L x = hd xs" if "xs \<noteq> []" using ring_head_next [of "nx L" "pv L" x xs] o(3) Cons that by simp
      ultimately show ?thesis using Cons o(4) p by (auto simp: L4_def L3_def L2_def L1_def)
    qed (use p in simp)
    moreover have "nx ?L q = solve_done" if "q \<in> slots L" "refs L q \<noteq> 0" for q
    proof -
      have "q \<noteq> ?a" "q \<noteq> p" using that o(5) ab(1) p by auto
      then have "nx ?L q = nx L q" unfolding nx by simp
      with that o(8) show ?thesis by simp
    qed
    ultimately show ?thesis
      using ok inv rm(2) o(4,5) p same unfolding lru_ok_def refs same_view_def frame
      by (simp add: length_remove1)
  qed
  moreover have "nx ?L p = solve_done" using nx by simp
  ultimately show ?thesis by (intro exI [of _ ?L]) simp
qed

section \<open>The table\<close>

lemma bind_res_InrE: "bind_res r f = Inr y \<Longrightarrow> \<exists>x. r = Inr x \<and> f x = Inr y"
  by (cases r) auto

lemma verify_InrD: "verify b r = Inr y \<Longrightarrow> b \<and> r = Inr y"
  by (cases b) (auto simp: verify_def)

text \<open>Unlinking a slot and freeing it later is erasing it; in between its element can still be read.\<close>

lemma unlink_then_free:
  assumes inv: "gh_inv env h" and q: "q \<in> used h" and gc: "\<not> m_enable_auto_gc h"
  shows "\<exists>h1 h'. risk_unlink env h q = Inr h1 \<and> elem_at h1 q = Inr (elem_of (nl_data h ! q)) \<and>
    risk_slot_free env h1 q = Inr h' \<and> erase_i env h q = Inr h' \<and> erased env h q h' \<and> maxElem h' = maxElem h"
proof -
  note sq = used_slot [OF gh_inv_node [OF inv] q]
  obtain h' where h': "erase_i env h q = Inr h'" "erased env h q h'" using erase_i_spec [OF inv q] by blast
  then have "bind_res (risk_unlink env h q) (\<lambda>h. fast_slot_free env h q) = Inr h'"
    unfolding erase_i_def by (blast dest: verify_InrD)
  from bind_res_InrE [OF this] obtain h1 where h1: "risk_unlink env h q = Inr h1" "fast_slot_free env h1 q = Inr h'"
    by blast
  then obtain r where r: "h1 = write_ref h r (nl_link h ! q)"
    unfolding risk_unlink_def risk_unlink_with_hash_i_def Let_def
    by (auto dest!: bind_res_InrE verify_InrD)
  then have f: "nl_data h1 = nl_data h" "nElem h1 = nElem h" "maxElem h1 = maxElem h" "\<not> m_enable_auto_gc h1"
    using gc by (cases r; simp)+
  have l: "delmark \<noteq> nl_link h1 ! q"
  proof -
    have "q < length (nl_link h)" using sq(1) inv by (simp add: gh_inv_def node_inv_def sizes_ok_def)
    with r sq(4) show ?thesis
      by (cases r) (simp_all, metis nth_list_update_eq nth_list_update_neq)
  qed
  have "maxElem h' = maxElem h" using h1(2) f unfolding fast_slot_free_def Let_def
    by (auto dest!: bind_res_InrE split: if_splits)
  moreover have "elem_at h1 q = Inr (elem_of (nl_data h ! q))" using sq f l by (simp add: elem_at_def)
  moreover have "risk_slot_free env h1 q = Inr h'" using h1(2) f l sq by (simp add: risk_slot_free_def)
  ultimately show ?thesis using h' h1(1) by blast
qed

text \<open>Inserting into a table that is not full keeps its capacity.\<close>

lemma rehash_frame:
  "rehash env h n = Inr (h', nb) \<Longrightarrow> maxElem h' = maxElem h \<and> nElem h' = nElem h \<and> freelist_size h' = freelist_size h \<and>
    m_enable_auto_gc h' = m_enable_auto_gc h \<and> m_enable_freelist_reuse h' = m_enable_freelist_reuse h"
  unfolding rehash_def relink_def Let_def
  by (auto dest!: bind_res_InrE verify_InrD split: if_splits)

lemma slot_alloc_frame:
  assumes "risk_slot_alloc env h = Inr (h', slot)" and "gh_size h < maxElem h" and "m_enable_freelist_reuse h"
  shows "maxElem h' = maxElem h \<and> m_enable_auto_gc h' = m_enable_auto_gc h \<and> m_enable_freelist_reuse h' = m_enable_freelist_reuse h"
  using assms unfolding risk_slot_alloc_def alloc_no_reuse_def Let_def gh_size_def
  by (auto dest!: bind_res_InrE verify_InrD split: if_splits)

lemma place_after_pre_law:
  assumes inv: "gh_inv env h" and g: "grants env" and cap: "gh_size h < maxElem h" "maxElem h < 2 ^ 31"
    and reuse: "m_enable_freelist_reuse h" and new: "table_map env h (key_of env e) = None" and hs: "hs = hash_fn env (key_of env e)"
  shows "\<exists>h' slot. place_after_pre env h hs nb0 (hs mod nb0) e = Inr (h', slot) \<and> gh_inv env h' \<and> slot \<notin> used h \<and>
    slot_map h' = (slot_map h)(slot \<mapsto> e) \<and> maxElem h' = maxElem h \<and> m_enable_auto_gc h' = m_enable_auto_gc h \<and>
    m_enable_freelist_reuse h'"
proof -
  have "nElem h < 2 ^ 31" using inv cap(2) by (simp add: gh_inv_def node_inv_def sizes_ok_def)
  from insert_new [OF inv g this new hs] obtain h' slot where
    h': "bind_res
        (if nElem h - freelist_size h \<ge> maxload h
         then bind_res (rehash env h (nBucket h + 1)) (\<lambda>(h, nb). Inr (h, hs mod nb))
         else Inr (h, hs mod nBucket h))
        (\<lambda>(h, i). bind_res (risk_slot_alloc env h) (\<lambda>(h, slot). Inr (place_elem h slot i e, slot))) = Inr (h', slot)"
      "gh_inv env h'" "slot_map h slot = None" "slot_map h' = (slot_map h)(slot \<mapsto> e)"
    by blast
  have p: "place_after_pre env h hs nb0 (hs mod nb0) e = Inr (h', slot)"
    using h'(1) by (auto simp: place_after_pre_def)
  from bind_res_InrE [OF p [unfolded place_after_pre_def]] obtain h1 i where
    r: "(if nElem h - freelist_size h \<ge> maxload h
        then bind_res (rehash env h (nBucket h + 1)) (\<lambda>(h, nb). Inr (h, hs mod nb))
        else if nBucket h \<noteq> nb0 then Inr (h, hs mod nBucket h)
        else Inr (h, hs mod nb0)) = Inr (h1, i)"
      "bind_res (risk_slot_alloc env h1) (\<lambda>(h, slot). Inr (place_elem h slot i e, slot)) = Inr (h', slot)"
    by auto
  from bind_res_InrE [OF r(2)] obtain h2 where h2: "risk_slot_alloc env h1 = Inr (h2, slot)" "h' = place_elem h2 slot i e"
    by auto
  have h1: "gh_size h1 = gh_size h" "maxElem h1 = maxElem h" "m_enable_auto_gc h1 = m_enable_auto_gc h"
      "m_enable_freelist_reuse h1 = m_enable_freelist_reuse h"
    using r(1) unfolding gh_size_def by (auto dest!: bind_res_InrE rehash_frame split: if_splits)
  have "maxElem h' = maxElem h \<and> m_enable_auto_gc h' = m_enable_auto_gc h \<and> m_enable_freelist_reuse h'"
    using slot_alloc_frame [OF h2(1)] h1 h2(2) cap(1) reuse by (simp add: place_elem_def)
  moreover have "slot \<notin> used h" using h'(3) by (auto simp: slot_map_by_used)
  ultimately show ?thesis using p h'(2,4) by blast
qed

section \<open>Changing the table\<close>

text \<open>The invariant follows the nodes that are not on their way.\<close>

lemma lru_ok_transfer:
  assumes ok: "lru_ok env L ss P" and inv: "gh_inv (map_env env) (lru_tab L')"
    and flags: "\<not> m_enable_auto_gc (lru_tab L')" "m_enable_freelist_reuse (lru_tab L')" "maxElem (lru_tab L') = maxElem (lru_tab L)"
      "m_num_evicting L' = 0" "m_lru_head L' = m_lru_head L" "m_lru_len L' = m_lru_len L"
    and same: "slots L' - P' = slots L - P" "\<forall>p\<in>slots L - P. nd L' p = nd L p"
  shows "lru_ok env L' ss P'"
proof -
  note o = lru_okD [OF ok]
  have refs: "refs L' p = refs L p \<and> nx L' p = nx L p \<and> pv L' p = pv L p" if "p \<in> slots L - P" for p
    using same(2) that by (simp add: refs_def nx_def pv_def)
  have "\<forall>p\<in>set ss. nx L' p = nx L p \<and> pv L' p = pv L p" using o(5) refs by auto
  then have "ring (nx L') (pv L') ss" using ring_cong [of ss "nx L'" "nx L"] o(3) by blast
  moreover have "set ss = {p \<in> slots L'. refs L' p = 0} - P'"
  proof -
    have "{p \<in> slots L'. refs L' p = 0} - P' = {p \<in> slots L' - P'. refs L' p = 0}" by blast
    also have "\<dots> = {p \<in> slots L - P. refs L p = 0}" unfolding same(1) using refs by auto
    finally show ?thesis using o(5) by auto
  qed
  moreover have "\<forall>p\<in>slots L' - P'. refs L' p \<noteq> 0 \<longrightarrow> nx L' p = solve_done" unfolding same(1) using refs o(8) by auto
  ultimately show ?thesis using ok inv flags by (simp add: lru_ok_def)
qed

lemma upd_in_transit:
  assumes ok: "lru_ok env L ss {p}" and p: "p \<in> slots L"
  shows "lru_ok env (lru_upd L p n) ss {p}"
  by (rule lru_ok_transfer [OF ok lru_upd_inv [OF lru_okD(1) [OF ok] p]])
    (use ok lru_okD(2) [OF ok] p in \<open>auto simp: lru_ok_def\<close>)

text \<open>A node with references may leave the list's books and come back.\<close>

lemma depart: "lru_ok env L ss {} \<Longrightarrow> p \<in> slots L \<Longrightarrow> refs L p \<noteq> 0 \<Longrightarrow> lru_ok env L ss {p}"
  by (auto simp: lru_ok_def)

lemma arrive: "lru_ok env L ss {p} \<Longrightarrow> refs L p \<noteq> 0 \<Longrightarrow> nx L p = solve_done \<Longrightarrow> lru_ok env L ss {}"
  unfolding lru_ok_def by auto

lemma nodes_of_map:
  assumes "slot_map (lru_tab L') = (slot_map (lru_tab L))(q := x)"
  shows "slots L' - {q} = slots L - {q}" and "\<forall>p\<in>slots L - {q}. nd L' p = nd L p \<and> lru_key L' p = lru_key L p"
    and "q \<in> slots L' \<longleftrightarrow> x \<noteq> None" and "x = Some (k, n) \<Longrightarrow> nd L' q = n \<and> lru_key L' q = k"
proof -
  have e: "slot_map (lru_tab L') p = (if p = q then x else slot_map (lru_tab L) p)" for p using assms by simp
  show "slots L' - {q} = slots L - {q}" unfolding dom_slot_map [symmetric] assms by auto
  show "q \<in> slots L' \<longleftrightarrow> x \<noteq> None" unfolding dom_slot_map [symmetric] assms by auto
  show "\<forall>p\<in>slots L - {q}. nd L' p = nd L p \<and> lru_key L' p = lru_key L p"
  proof
    fix p
    assume "p \<in> slots L - {q}"
    with e [of p] show "nd L' p = nd L p \<and> lru_key L' p = lru_key L p" by (auto simp: slot_map_nodes split: if_splits)
  qed
  show "nd L' q = n \<and> lru_key L' q = k" if "x = Some (k, n)"
    using e [of q] that by (auto simp: slot_map_nodes split: if_splits)
qed

lemma erased_slot:
  assumes ok: "lru_ok env L ss {q}" and er: "erased (map_env env) (lru_tab L) q h'" and cap: "maxElem h' = maxElem (lru_tab L)"
    and q: "q \<in> slots L"
  shows "lru_ok env (L\<lparr>lru_tab := h'\<rparr>) ss {}" and "slots (L\<lparr>lru_tab := h'\<rparr>) = slots L - {q}"
    and "\<forall>p\<in>slots L - {q}. nd (L\<lparr>lru_tab := h'\<rparr>) p = nd L p \<and> lru_key (L\<lparr>lru_tab := h'\<rparr>) p = lru_key L p"
proof -
  have gc: "\<not> m_enable_auto_gc (lru_tab L)" "m_enable_freelist_reuse (lru_tab L)" using ok by (simp_all add: lru_ok_def)
  with er have h': "gh_inv (map_env env) h'" "slot_map h' = (slot_map (lru_tab L))(q := None)"
      "\<not> m_enable_auto_gc h'" "m_enable_freelist_reuse h'"
    by (simp_all add: erased_def)
  have "slot_map (lru_tab (L\<lparr>lru_tab := h'\<rparr>)) = (slot_map (lru_tab L))(q := None)" using h'(2) by simp
  note n = nodes_of_map [OF this]
  show s: "slots (L\<lparr>lru_tab := h'\<rparr>) = slots L - {q}" using n(1,3) by blast
  show "\<forall>p\<in>slots L - {q}. nd (L\<lparr>lru_tab := h'\<rparr>) p = nd L p \<and> lru_key (L\<lparr>lru_tab := h'\<rparr>) p = lru_key L p" by (rule n(2))
  show "lru_ok env (L\<lparr>lru_tab := h'\<rparr>) ss {}"
    by (rule lru_ok_transfer [OF ok]) (use h' cap ok n s in \<open>auto simp: lru_ok_def\<close>)
qed

lemma placed_slot:
  assumes ok: "lru_ok env L ss {}" and sm: "slot_map h' = (slot_map (lru_tab L))(q \<mapsto> (k, n))" and q: "q \<notin> slots L"
    and h': "gh_inv (map_env env) h'" "\<not> m_enable_auto_gc h'" "m_enable_freelist_reuse h'" "maxElem h' = maxElem (lru_tab L)"
  shows "lru_ok env (L\<lparr>lru_tab := h'\<rparr>) ss {q}" and "slots (L\<lparr>lru_tab := h'\<rparr>) = insert q (slots L)"
    and "nd (L\<lparr>lru_tab := h'\<rparr>) q = n" and "lru_key (L\<lparr>lru_tab := h'\<rparr>) q = k"
    and "\<forall>p\<in>slots L. nd (L\<lparr>lru_tab := h'\<rparr>) p = nd L p \<and> lru_key (L\<lparr>lru_tab := h'\<rparr>) p = lru_key L p"
proof -
  have "slot_map (lru_tab (L\<lparr>lru_tab := h'\<rparr>)) = (slot_map (lru_tab L))(q := Some (k, n))" using sm by simp
  note n = nodes_of_map [OF this]
  show s: "slots (L\<lparr>lru_tab := h'\<rparr>) = insert q (slots L)" using n(1,3) by blast
  show "nd (L\<lparr>lru_tab := h'\<rparr>) q = n" "lru_key (L\<lparr>lru_tab := h'\<rparr>) q = k" using n(4) by simp_all
  show *: "\<forall>p\<in>slots L. nd (L\<lparr>lru_tab := h'\<rparr>) p = nd L p \<and> lru_key (L\<lparr>lru_tab := h'\<rparr>) p = lru_key L p" using n(2) q by blast
  show "lru_ok env (L\<lparr>lru_tab := h'\<rparr>) ss {q}"
    by (rule lru_ok_transfer [OF ok]) (use h' ok s q * in \<open>auto simp: lru_ok_def\<close>)
qed

end
