(* ===== verification/Cache_Spec.thy ===== *)
theory Cache_Spec
  imports Topling_Prelude
begin

text \<open>
  What a cache with pinned entries promises.  An entry has a slot that is its name, a key, a value, a number of
  references and of hits.  Getting or adding a key pins its entry; releasing the last reference makes the entry
  idle.  When the cache is full, adding a new key evicts the entry that has been idle for longest.
\<close>

section \<open>The cache\<close>

type_synonym ('k, 'v) held = "nat \<rightharpoonup> 'k \<times> 'v \<times> nat \<times> nat"

record ('k, 'v) cache =
  held :: "('k, 'v) held"
  idle :: "nat list"

text \<open>\<open>Add k v ok\<close> adds \<open>k\<close>; if it is new, its value is computed, which is \<open>v\<close> and succeeds or not.\<close>

datatype ('k, 'v) cache_call =
    Get 'k
  | Add 'k 'v bool
  | Release nat

text \<open>The slot, if there is one; whether the key was new; what was evicted.\<close>

datatype ('k, 'v) cache_reply =
    Got "nat option"
  | Added "nat option" bool "('k \<times> 'v) list"
  | Released

definition keys :: "('k, 'v) cache \<Rightarrow> 'k set" where
  "keys c = fst ` ran (held c)"

definition pin :: "('k, 'v) cache \<Rightarrow> nat \<Rightarrow> ('k, 'v) cache" where
  "pin c p = c\<lparr>held := (held c)(p := map_option (\<lambda>(k, v, r, n). (k, v, Suc r, (n + 1) mod 2 ^ 32)) (held c p)),
               idle := remove1 p (idle c)\<rparr>"

definition unpin :: "('k, 'v) cache \<Rightarrow> nat \<Rightarrow> ('k, 'v) cache" where
  "unpin c p = (case held c p of
       Some (k, v, r, n) \<Rightarrow> c\<lparr>held := (held c)(p \<mapsto> (k, v, r - 1, n)), idle := if r = 1 then p # idle c else idle c\<rparr>
     | None \<Rightarrow> c)"

text \<open>Making room: nothing is evicted below the capacity; a full cache without an idle entry has no room.\<close>

inductive make_way :: "nat \<Rightarrow> ('k, 'v) cache \<Rightarrow> ('k \<times> 'v) list \<Rightarrow> ('k, 'v) cache \<Rightarrow> bool" for cap where
  Room: "card (dom (held c)) < cap \<Longrightarrow> make_way cap c [] c"
| Evict: "card (dom (held c)) = cap \<Longrightarrow> idle c = ps @ [q] \<Longrightarrow> held c q = Some (k, v, 0, n) \<Longrightarrow>
    make_way cap c [(k, v)] (c\<lparr>held := (held c)(q := None), idle := ps\<rparr>)"

inductive cache_step ::
  "nat \<Rightarrow> ('k, 'v) cache \<Rightarrow> ('k, 'v) cache_call \<Rightarrow> ('k, 'v) cache_reply \<Rightarrow> ('k, 'v) cache \<Rightarrow> bool" for cap where
  Get_miss: "k \<notin> keys c \<Longrightarrow> cache_step cap c (Get k) (Got None) c"
| Get_hit: "held c p = Some (k, v, r, n) \<Longrightarrow> cache_step cap c (Get k) (Got (Some p)) (pin c p)"
| Add_hit: "held c p = Some (k, v, r, n) \<Longrightarrow> cache_step cap c (Add k w ok) (Added (Some p) False []) (pin c p)"
| Add_new: "k \<notin> keys c \<Longrightarrow> make_way cap c ev c1 \<Longrightarrow> held c1 p = None \<Longrightarrow>
    cache_step cap c (Add k v True) (Added (Some p) True ev) (c1\<lparr>held := (held c1)(p \<mapsto> (k, v, 1, 1))\<rparr>)"
| Add_failed: "k \<notin> keys c \<Longrightarrow> make_way cap c ev c1 \<Longrightarrow>
    cache_step cap c (Add k v False) (Added None True ev) c1"
| Release: "held c p = Some (k, v, r, n) \<Longrightarrow> 0 < r \<Longrightarrow> cache_step cap c (Release p) Released (unpin c p)"

inductive_cases make_wayE: "make_way cap c ev c1"
inductive_cases GetE: "cache_step cap c (Get k) out c'"
inductive_cases AddE: "cache_step cap c (Add k v ok) out c'"
inductive_cases ReleaseE: "cache_step cap c (Release p) out c'"

inductive cache_steps ::
  "nat \<Rightarrow> ('k, 'v) cache \<Rightarrow> ('k, 'v) cache_call list \<Rightarrow> ('k, 'v) cache_reply list \<Rightarrow> ('k, 'v) cache \<Rightarrow> bool" for cap where
  Stop: "cache_steps cap c [] [] c"
| Step: "cache_step cap c call out c1 \<Longrightarrow> cache_steps cap c1 calls outs c2 \<Longrightarrow>
    cache_steps cap c (call # calls) (out # outs) c2"

text \<open>The calls that the cache has an answer to.\<close>

fun allowed :: "nat \<Rightarrow> ('k, 'v) cache \<Rightarrow> ('k, 'v) cache_call \<Rightarrow> bool" where
  "allowed cap c (Get k) = True"
| "allowed cap c (Add k v ok) = (k \<in> keys c \<or> card (dom (held c)) < cap \<or> idle c \<noteq> [])"
| "allowed cap c (Release p) = (\<exists>k v r n. held c p = Some (k, v, r, n) \<and> 0 < r)"

text \<open>No entry has \<open>n\<close> references; the counters of a program are bounded.\<close>

definition pins_below :: "nat \<Rightarrow> ('k, 'v) cache \<Rightarrow> bool" where
  "pins_below n c \<longleftrightarrow> (\<forall>p k v r h. held c p = Some (k, v, r, h) \<longrightarrow> r < n)"

definition cache_ok :: "nat \<Rightarrow> ('k, 'v) cache \<Rightarrow> bool" where
  "cache_ok cap c \<longleftrightarrow> finite (dom (held c)) \<and> card (dom (held c)) \<le> cap \<and> distinct (idle c) \<and>
     set (idle c) = {p. \<exists>k v n. held c p = Some (k, v, 0, n)} \<and>
     (\<forall>p q k v r n v' r' n'. held c p = Some (k, v, r, n) \<and> held c q = Some (k, v', r', n') \<longrightarrow> p = q)"

section \<open>What follows from it\<close>

lemma keys_at: "held c p = Some (k, v, r, n) \<Longrightarrow> k \<in> keys c"
  by (force simp: keys_def ran_def)

lemma pins_below_step: "pins_below n c \<Longrightarrow> 1 < n \<Longrightarrow> cache_step cap c call out c' \<Longrightarrow> pins_below (Suc n) c'"
  by (cases call)
    (auto elim!: GetE AddE ReleaseE make_wayE simp: pins_below_def pin_def unpin_def split: if_splits option.splits
      dest: less_SucI, (metis less_SucI less_imp_diff_less)+)

lemma pins_below_steps:
  "cache_steps cap c calls outs c' \<Longrightarrow> pins_below n c \<Longrightarrow> 1 < n \<Longrightarrow> pins_below (n + length calls) c'"
proof (induction arbitrary: n rule: cache_steps.induct)
  case (Step c call out c1 calls outs c2)
  from Step.IH [OF pins_below_step [OF Step.prems Step.hyps(1)]] Step.prems(2) show ?case by simp
qed simp

text \<open>A referenced entry stays where it is, with its key and value, as long as nobody releases it.\<close>

definition pinned :: "('k, 'v) cache \<Rightarrow> nat \<Rightarrow> 'k \<Rightarrow> 'v \<Rightarrow> bool" where
  "pinned c p k v \<longleftrightarrow> (\<exists>r n. held c p = Some (k, v, r, n) \<and> 0 < r)"

lemma pinned_step:
  assumes "cache_step cap c call out c'" and "pinned c p k v" and "call \<noteq> Release p"
  shows "pinned c' p k v"
  using assms
  by cases (auto elim!: make_wayE simp: pinned_def pin_def unpin_def split: option.splits if_splits)

lemma pinned_steps: "cache_steps cap c calls outs c' \<Longrightarrow> pinned c p k v \<Longrightarrow> Release p \<notin> set calls \<Longrightarrow> pinned c' p k v"
  by (induction rule: cache_steps.induct) (auto dest: pinned_step)

lemma pinned_not_evicted:
  "make_way cap c ev c1 \<Longrightarrow> held c p = Some (k, v, r, n) \<Longrightarrow> 0 < r \<Longrightarrow> held c1 p = held c p"
  by (auto elim!: make_wayE)

section \<open>The interface\<close>

fun run_calls :: "('s \<Rightarrow> ('k, 'v) cache_call \<Rightarrow> ('s \<times> ('k, 'v) cache_reply) res) \<Rightarrow> 's \<Rightarrow> ('k, 'v) cache_call list \<Rightarrow>
    ('s \<times> ('k, 'v) cache_reply list) res" where
  "run_calls do_call s [] = Inr (s, [])"
| "run_calls do_call s (call # calls) =
     bind_res (do_call s call) (\<lambda>(s, out). bind_res (run_calls do_call s calls) (\<lambda>(s, outs). Inr (s, out # outs)))"

locale pinned_cache =
  fixes cap :: nat
    and do_call :: "'s \<Rightarrow> ('k, 'v) cache_call \<Rightarrow> ('s \<times> ('k, 'v) cache_reply) res"
    and rep :: "'s \<Rightarrow> ('k, 'v) cache \<Rightarrow> bool"
  assumes call_step: "rep s c \<Longrightarrow> pins_below (2 ^ 32 - 1) c \<Longrightarrow>
      (\<exists>s' out c'. do_call s call = Inr (s', out) \<and> cache_step cap c call out c' \<and> rep s' c') \<or>
      do_call s call = Inl Abort \<and> \<not> allowed cap c call"
begin

lemma run_calls_step:
  assumes "rep s c" and "pins_below n c" and "1 < n" and "n + length calls < 2 ^ 32"
  shows "(\<exists>s' outs c'. run_calls do_call s calls = Inr (s', outs) \<and> cache_steps cap c calls outs c' \<and> rep s' c') \<or>
    run_calls do_call s calls = Inl Abort \<and>
    (\<exists>before call after outs c1. calls = before @ call # after \<and> cache_steps cap c before outs c1 \<and> \<not> allowed cap c1 call)"
  using assms
proof (induction calls arbitrary: s c n)
  case Nil
  then show ?case using Stop by auto
next
  case (Cons call calls)
  have "pins_below (2 ^ 32 - 1) c" using Cons.prems(2,4) by (force simp: pins_below_def)
  from call_step [OF Cons.prems(1) this, of call] show ?case
  proof (elim disjE exE conjE)
    assume a: "do_call s call = Inl Abort" "\<not> allowed cap c call"
    moreover have "call # calls = [] @ call # calls" by simp
    ultimately show ?thesis using Stop [of cap c] by (intro disjI2 conjI exI) simp_all
  next
    fix s1 out c1
    assume a: "do_call s call = Inr (s1, out)" "cache_step cap c call out c1" "rep s1 c1"
    have "1 < Suc n" "Suc n + length calls < 2 ^ 32" using Cons.prems(3,4) by simp_all
    from Cons.IH [OF a(3) pins_below_step [OF Cons.prems(2,3) a(2)] this] show ?thesis
    proof (elim disjE exE conjE)
      assume "run_calls do_call s1 calls = Inl Abort"
      moreover fix before call' after outs c2
      assume "calls = before @ call' # after" "cache_steps cap c1 before outs c2" "\<not> allowed cap c2 call'"
      ultimately show ?thesis using a Step [OF a(2)]
        by (intro disjI2 conjI exI [of _ "call # before"] exI [of _ call'] exI [of _ after] exI [of _ "out # outs"] exI [of _ c2]) simp_all
    qed (use a in \<open>auto intro: Step\<close>)
  qed
qed

text \<open>The client that holds a reference can rely on its entry, whatever others do meanwhile.\<close>

lemma pinned_stays:
  assumes "rep s c" and "pins_below n c" and "1 < n" and "n + length calls < 2 ^ 32"
    and "pinned c p k v" and "Release p \<notin> set calls" and "run_calls do_call s calls = Inr (s', outs)"
  shows "\<exists>c'. cache_steps cap c calls outs c' \<and> rep s' c' \<and> pinned c' p k v"
  using run_calls_step [OF assms(1-4)] assms(5-7) pinned_steps by force

end

end
