(* ===== verification/Lru_Refine.thy ===== *)
theory Lru_Refine
  imports Lru_Laws Cache_Spec
begin

text \<open>
  \<open>lru_map\<close> implements the cache of \<open>Cache_Spec\<close> when one thread uses it, and what goes wrong between two.
\<close>

section \<open>Operations\<close>

lemma lru_hit_law:
  assumes ok: "lru_ok env L ss {}" and p: "p \<in> slots L" and r: "refs L p < 2 ^ 32 - 1"
  shows "\<exists>L'. lru_hit L p = Inr L' \<and> lru_ok env L' (remove1 p ss) {} \<and> slots L' = slots L \<and> lru_key L' = lru_key L \<and>
    maxElem (lru_tab L') = maxElem (lru_tab L) \<and>
    (\<forall>q. entry (nd L' q) = (if q = p then (lru_val (nd L p), Suc (refs L p), inc32 (m_lru_hitcnt (nd L p))) else entry (nd L q)))"
proof -
  obtain L1 where L1: "(if 0 = refs L p then remove_node L p else Inr L) = Inr L1" "lru_ok env L1 (remove1 p ss) {p}"
      "same_view L L1" "nx L1 p = solve_done"
  proof (cases "refs L p = 0")
    case True
    then have "p \<in> set ss" using lru_okD(5) [OF ok] p by simp
    with remove_node_law [OF ok this] True that show ?thesis by auto
  next
    case False
    then have "p \<notin> set ss" using lru_okD(5) [OF ok] by simp
    with False depart [OF ok p False] lru_okD(8) [OF ok p] that [of L] show ?thesis
      by (simp add: remove1_idem same_view_def)
  qed
  have v: "slots L1 = slots L" "lru_key L1 = lru_key L" "entry (nd L1 q) = entry (nd L q)" "maxElem (lru_tab L1) = maxElem (lru_tab L)" for q
    using L1(3) by (simp_all add: same_view_def)
  have p1: "p \<in> slots L1" "cells_ok L1" "refs L1 p = refs L p" "m_lru_hitcnt (nd L1 p) = m_lru_hitcnt (nd L p)" "lru_val (nd L1 p) = lru_val (nd L p)"
    using p lru_okD(2) [OF L1(2)] v(1) v(3) [of p] by (simp_all add: entry_def refs_def)
  let ?n = "(nd L1 p)\<lparr>m_lru_refcnt := inc32 (m_lru_refcnt (nd L1 p)), m_lru_hitcnt := inc32 (m_lru_hitcnt (nd L1 p))\<rparr>"
  let ?L = "lru_upd L1 p ?n"
  have "lru_hit L p = Inr ?L"
    using lru_okD(2) [OF ok] p L1(1,4) p1 by (simp add: lru_hit_def refs_def nx_def)
  moreover have "lru_ok env ?L (remove1 p ss) {}"
    using p1 L1(4) r by (intro arrive [OF upd_in_transit [OF L1(2)]]) (simp_all add: refs_def nx_def)
  moreover have "entry (nd ?L q) = (if q = p then (lru_val (nd L p), Suc (refs L p), inc32 (m_lru_hitcnt (nd L p))) else entry (nd L q))" for q
    using p1 v(3) [of q] r by (simp add: entry_def refs_def)
  ultimately show ?thesis using p1 v by (intro exI [of _ ?L]) simp
qed

lemma lru_present_law:
  assumes ok: "lru_ok env L ss {}" and p: "p \<in> slots L"
  shows "lru_present env others wakeups L p = bind_res (lru_hit L p) (\<lambda>L. Inr (L, Some p))"
proof -
  have "nx L p \<noteq> inprogress \<and> nx L p \<noteq> solve_fail"
  proof (cases "refs L p = 0")
    case True
    then have "p \<in> set ss" using lru_okD(5) [OF ok] p by simp
    then have "nx L p \<in> slots L" using ring_mem [OF lru_okD(3) [OF ok]] lru_okD(5) [OF ok] by auto
    with slot_marks [OF ok] show ?thesis by blast
  next
    case False
    with lru_okD(8) [OF ok p] show ?thesis by (simp add: solve_done_def inprogress_def solve_fail_def)
  qed
  with lru_okD(2) [OF ok] p show ?thesis by (simp add: lru_present_def nx_def)
qed

lemma lru_release_law:
  assumes ok: "lru_ok env L ss {}" and p: "p \<in> slots L" and r: "0 < refs L p" "refs L p < 2 ^ 32"
  shows "\<exists>L'. lru_release L p = Inr L' \<and> lru_ok env L' (if refs L p = 1 then p # ss else ss) {} \<and> slots L' = slots L \<and>
    lru_key L' = lru_key L \<and> maxElem (lru_tab L') = maxElem (lru_tab L) \<and>
    (\<forall>q. entry (nd L' q) = (if q = p then (lru_val (nd L p), refs L p - 1, m_lru_hitcnt (nd L p)) else entry (nd L q)))"
proof -
  have c: "cells_ok L" by (rule lru_okD(2) [OF ok])
  let ?n = "(nd L p)\<lparr>m_lru_refcnt := refs L p - 1\<rparr>"
  let ?L = "lru_upd L p ?n"
  have transit: "lru_ok env ?L ss {p}" using upd_in_transit [OF depart [OF ok p] p] r(1) by simp
  note s = slot_elem [OF c p]
  have rel: "lru_release L p = (if refs L p = 1 then insert_as_new_head ?L p else Inr ?L)"
    using c p s r by (simp add: lru_release_def end_i_def is_deleted_def refs_def Let_def)
  have e: "entry (nd ?L q) = (if q = p then (lru_val (nd L p), refs L p - 1, m_lru_hitcnt (nd L p)) else entry (nd L q))" for q
    using c p by (simp add: entry_def)
  show ?thesis
  proof (cases "refs L p = 1")
    case True
    then have "refs ?L p = 0" "p \<in> slots ?L" using c p by (simp_all add: refs_def)
    with insert_as_new_head_law [OF transit] obtain L' where
      "insert_as_new_head ?L p = Inr L'" "lru_ok env L' (p # ss) {}" "same_view ?L L'" by blast
    with True rel e c p show ?thesis by (intro exI [of _ L']) (simp add: same_view_def)
  next
    case False
    have "lru_ok env ?L ss {}"
      using False r c p lru_okD(8) [OF ok p] by (intro arrive [OF transit]) (simp_all add: refs_def nx_def)
    with False rel e c p show ?thesis by (intro exI [of _ ?L]) simp
  qed
qed

lemma lru_release_bad:
  assumes ok: "lru_ok env L ss {}" and bad: "p \<in> slots L \<Longrightarrow> refs L p = 0"
  shows "lru_release L p = Inl Abort"
proof (cases "p \<in> slots L")
  case True
  with slot_elem [OF lru_okD(2) [OF ok] True] bad lru_okD(2) [OF ok] show ?thesis
    by (simp add: lru_release_def end_i_def is_deleted_def refs_def Let_def verify_def)
next
  case False
  then show ?thesis by (auto simp: lru_release_def end_i_def is_deleted_def used_def verify_def)
qed

lemma lru_size: "lru_ok env L ss P \<Longrightarrow> gh_size (lru_tab L) = card (slots L) \<and> card (slots L) \<le> maxElem (lru_tab L)"
proof -
  assume "lru_ok env L ss P"
  then have inv: "gh_inv (map_env env) (lru_tab L)" by (rule lru_okD(1))
  then have "free_ok (lru_tab L)" "nElem (lru_tab L) \<le> maxElem (lru_tab L)"
    by (simp_all add: gh_inv_def node_inv_def sizes_ok_def)
  with card_used [of "lru_tab L"] show ?thesis by (simp add: gh_size_def)
qed

lemma evict_law:
  assumes ok: "lru_ok env L ss {}" and full: "card (slots L) = maxElem (lru_tab L)" and ss: "ss = ps @ [q]"
  shows "\<exists>L'. evict_on_full env alone L = Inr (L', [(lru_key L q, lru_val (nd L q))]) \<and> lru_ok env L' ps {} \<and>
    slots L' = slots L - {q} \<and> maxElem (lru_tab L') = maxElem (lru_tab L) \<and>
    (\<forall>p\<in>slots L - {q}. entry (nd L' p) = entry (nd L p) \<and> lru_key L' p = lru_key L p)"
proof -
  note o = lru_okD [OF ok]
  have q: "q \<in> set ss" "q \<in> slots L" "refs L q = 0" using o(5) ss by auto
  have h: "hd ss \<in> set ss" using ss by (cases ps) auto
  then have hs: "hd ss \<in> slots L" using o(5) by auto
  have vic: "m_lru_prev (nd L (hd ss)) = q"
    using ring_last [of "nx L" "pv L" "hd ss" "tl ss"] o(3) ss by (cases ps) (auto simp: pv_def)
  obtain L1 where L1: "remove_node L q = Inr L1" "lru_ok env L1 ps {q}" "same_view L L1"
  proof -
    have "remove1 q ss = ps" using o(4) ss by (simp add: remove1_append)
    with remove_node_law [OF ok q(1)] that show ?thesis by auto
  qed
  have v: "slots L1 = slots L" "lru_key L1 = lru_key L" "entry (nd L1 p) = entry (nd L p)" "maxElem (lru_tab L1) = maxElem (lru_tab L)" for p
    using L1(3) by (simp_all add: same_view_def)
  define L2 where "L2 = lru_upd L1 q ((nd L1 q)\<lparr>m_lru_prev := inprogress\<rparr>)"
  have c1: "cells_ok L1" "q \<in> slots L1" using lru_okD(2) [OF L1(2)] q(2) v(1) by simp_all
  have t2: "lru_ok env L2 ps {q}" unfolding L2_def by (rule upd_in_transit [OF L1(2) c1(2)])
  have s2: "slots L2 = slots L" "lru_key L2 = lru_key L" "entry (nd L2 p) = entry (nd L p)" "maxElem (lru_tab L2) = maxElem (lru_tab L)" for p
    using c1 v v(3) [of p] by (auto simp: L2_def entry_def)
  have q2: "q \<in> slots L2" "\<not> m_enable_auto_gc (lru_tab L2)" "m_num_evicting L2 = 0" using s2(1) q(2) t2 by (simp_all add: lru_ok_def)
  from unlink_then_free [OF lru_okD(1) [OF t2] q2(1,2)] obtain h1 h' where
    h: "risk_unlink (map_env env) (lru_tab L2) q = Inr h1" "elem_at h1 q = Inr (elem_of (nl_data (lru_tab L2) ! q))"
      "risk_slot_free (map_env env) h1 q = Inr h'" "erased (map_env env) (lru_tab L2) q h'" "maxElem h' = maxElem (lru_tab L2)"
    by blast
  have e: "elem_of (nl_data (lru_tab L2) ! q) = (lru_key L q, nd L2 q)" "lru_val (nd L2 q) = lru_val (nd L q)"
    using slot_elem(1) [OF lru_okD(2) [OF t2] q2(1)] s2(2) s2(3) [of q] by (simp_all add: entry_def)
  note er = erased_slot [OF t2 h(4,5) q2(1)]
  let ?L = "L2\<lparr>lru_tab := h'\<rparr>"
  have "evict_begin env L = Inr (L2\<lparr>lru_tab := h1, m_num_evicting := 1\<rparr>, q, lru_key L q, lru_val (nd L q))"
  proof -
    have "gh_size (lru_tab L) = maxElem (lru_tab L)" using lru_size [OF ok] full by simp
    moreover have "m_lru_head L = hd ss" "m_lru_head L \<noteq> no_link" "0 < m_lru_len L"
      using o(6,7) ss slot_marks(1) [OF ok hs] by auto
    ultimately show ?thesis
      using o(2) hs vic q L1(1) c1 h(1,2) e q2(3)
      by (simp add: evict_begin_def Let_def refs_def flip: L2_def)
  qed
  then have "evict_on_full env alone L = Inr (?L, [(lru_key L q, lru_val (nd L q))])"
    using lru_size [OF ok] full h(3) q2(3) by (simp add: evict_on_full_def evict_end_def alone_def)
  moreover have "\<forall>p\<in>slots L - {q}. entry (nd ?L p) = entry (nd L p) \<and> lru_key ?L p = lru_key L p"
    using er(3) s2 by auto
  ultimately show ?thesis using er(1,2) s2(1,4) h(5) by (intro exI [of _ ?L]) simp
qed

lemma evict_none:
  assumes ok: "lru_ok env L [] {}" and full: "card (slots L) = maxElem (lru_tab L)"
  shows "evict_on_full env others L = Inl Abort"
  using lru_size [OF ok] full lru_okD(6) [OF ok] by (simp add: evict_on_full_def evict_begin_def)

lemma evict_room: "lru_ok env L ss {} \<Longrightarrow> card (slots L) < maxElem (lru_tab L) \<Longrightarrow> evict_on_full env others L = Inr (L, [])"
  using lru_size [of env L ss "{}"] by (simp add: evict_on_full_def)

section \<open>Adding\<close>

lemma solve_failed_law:
  assumes ok: "lru_ok env L ss {q}" and q: "q \<in> slots L" and n: "refs L q = 1" "nx L q = solve_fail"
  shows "\<exists>L'. solve_failed env alone L q = Inr L' \<and> lru_ok env L' ss {} \<and> slots L' = slots L - {q} \<and>
    maxElem (lru_tab L') = maxElem (lru_tab L) \<and> (\<forall>p\<in>slots L - {q}. nd L' p = nd L p \<and> lru_key L' p = lru_key L p)"
proof -
  define L1 where "L1 = lru_upd L q ((nd L q)\<lparr>m_lru_refcnt := 0\<rparr>)"
  have c: "cells_ok L" by (rule lru_okD(2) [OF ok])
  have t1: "lru_ok env L1 ss {q}" unfolding L1_def by (rule upd_in_transit [OF ok q])
  have q1: "q \<in> slots L1" "\<not> m_enable_auto_gc (lru_tab L1)" using q t1 by (simp_all add: L1_def lru_ok_def)
  obtain h' where h': "erase_i (map_env env) (lru_tab L1) q = Inr h'" "erased (map_env env) (lru_tab L1) q h'"
      "maxElem h' = maxElem (lru_tab L1)"
    using unlink_then_free [OF lru_okD(1) [OF t1] q1] by blast
  have "solve_failed env alone L q = Inr (L1\<lparr>lru_tab := h'\<rparr>)"
    using c q n h'(1) by (simp add: solve_failed_def alone_def refs_def nx_def L1_def)
  then show ?thesis
    using erased_slot [OF t1 h'(2,3) q1(1)] h'(3) c q by (intro exI [of _ "L1\<lparr>lru_tab := h'\<rparr>"]) (simp add: L1_def)
qed

text \<open>Once there is room, a new node is made; its value is computed while others may run.\<close>

definition add_after_evict ::
  "('k, 'v) lru_env \<Rightarrow> 'v \<Rightarrow> ('k, 'v) lru_map \<Rightarrow> nat \<Rightarrow> nat \<Rightarrow> 'k \<Rightarrow> ('k \<Rightarrow> 'v \<Rightarrow> 'v \<times> bool) \<Rightarrow> (('k, 'v) lru_map \<times> nat option) res" where
  "add_after_evict env dflt L hs nb k solve =
     bind_res (place_after_pre (map_env env) (lru_tab L) hs nb (hs mod nb) (k, new_node dflt)) (\<lambda>(h, slot).
       let L = L\<lparr>lru_tab := h\<rparr> in
       bind_res (node_at L slot) (\<lambda>node. verify (m_lru_refcnt node = 1)
         (bind_res (node_at L slot) (\<lambda>node.
            let (v, ok) = solve k (lru_val node) in
            bind_res (update_node L slot (\<lambda>n. n\<lparr>lru_val := v\<rparr>)) (\<lambda>L.
              bind_res (wake_solve L slot ok) (\<lambda>L.
                if ok then Inr (L, Some slot)
                else bind_res (solve_failed env alone L slot) (\<lambda>L. Inr (L, None))))))))"

lemma add_after_evict_law:
  assumes ok: "lru_ok env L ss {}" and g: "grants env" and room: "card (slots L) < maxElem (lru_tab L)"
    and new: "k \<notin> lru_key L ` slots L" and sol: "solve k dflt = (v, good)"
  shows "\<exists>L' q. add_after_evict env dflt L (hash_fn env k) nb k solve = Inr (L', if good then Some q else None) \<and>
    lru_ok env L' ss {} \<and> q \<notin> slots L \<and> slots L' = (if good then insert q (slots L) else slots L) \<and>
    maxElem (lru_tab L') = maxElem (lru_tab L) \<and> (\<forall>p\<in>slots L. nd L' p = nd L p \<and> lru_key L' p = lru_key L p) \<and>
    (good \<longrightarrow> lru_key L' q = k \<and> entry (nd L' q) = (v, 1, 1))"
proof -
  have tm: "table_map (map_env env) (lru_tab L) (key_of (map_env env) (k, new_node dflt)) = None"
    using new by (auto simp: table_map_None ran_def slot_map_nodes image_iff split: if_splits)
  have size: "gh_size (lru_tab L) < maxElem (lru_tab L)" "maxElem (lru_tab L) < 2 ^ 31"
      "m_enable_freelist_reuse (lru_tab L)" "\<not> m_enable_auto_gc (lru_tab L)"
    using lru_size [OF ok] room ok by (simp_all add: lru_ok_def)
  have hk: "hash_fn env k = hash_fn (map_env env) (key_of (map_env env) (k, new_node dflt))" by simp
  from place_after_pre_law [OF lru_okD(1) [OF ok] _ size(1-3) tm hk, of nb] g size(4) obtain h q where
    h: "place_after_pre (map_env env) (lru_tab L) (hash_fn env k) nb (hash_fn env k mod nb) (k, new_node dflt) = Inr (h, q)"
      "gh_inv (map_env env) h" "q \<notin> slots L" "slot_map h = (slot_map (lru_tab L))(q \<mapsto> (k, new_node dflt))"
      "maxElem h = maxElem (lru_tab L)" "\<not> m_enable_auto_gc h" "m_enable_freelist_reuse h"
    by auto
  let ?L1 = "L\<lparr>lru_tab := h\<rparr>"
  note p1 = placed_slot [OF ok h(4,3,2,6,7,5)]
  have c1: "cells_ok ?L1" "q \<in> slots ?L1" using lru_okD(2) [OF p1(1)] p1(2) by simp_all
  define L3 where "L3 = lru_upd (lru_upd ?L1 q ((new_node dflt)\<lparr>lru_val := v\<rparr>)) q
    ((new_node dflt)\<lparr>lru_val := v, m_lru_next := (if good then solve_done else solve_fail)\<rparr>)"
  have t3: "lru_ok env L3 ss {q}" unfolding L3_def
    by (intro upd_in_transit p1(1)) (use c1 in simp_all)
  have n3: "nd L3 q = (new_node dflt)\<lparr>lru_val := v, m_lru_next := (if good then solve_done else solve_fail)\<rparr>"
      "slots L3 = insert q (slots L)" "lru_key L3 q = k" "maxElem (lru_tab L3) = maxElem (lru_tab L)"
    using c1 p1(2,4) h(5) by (simp_all add: L3_def)
  have o3: "\<forall>p\<in>slots L. nd L3 p = nd L p \<and> lru_key L3 p = lru_key L p" using c1 p1(5) h(3) by (auto simp: L3_def)
  have add: "add_after_evict env dflt L (hash_fn env k) nb k solve =
      (if good then Inr (L3, Some q) else bind_res (solve_failed env alone L3 q) (\<lambda>L. Inr (L, None)))"
    using h(1) c1 p1(3) sol by (simp add: add_after_evict_def wake_solve_def L3_def new_node_def)
  show ?thesis
  proof (cases good)
    case True
    have "lru_ok env L3 ss {}"
      using n3(1) True by (intro arrive [OF t3]) (simp_all add: refs_def nx_def new_node_def)
    with True add n3 o3 h(3) show ?thesis by (intro exI [of _ L3] exI [of _ q]) (simp add: entry_def new_node_def)
  next
    case False
    have q3: "q \<in> slots L3" "refs L3 q = 1" "nx L3 q = solve_fail" using n3 False by (simp_all add: refs_def nx_def new_node_def)
    obtain L' where L': "solve_failed env alone L3 q = Inr L'" "lru_ok env L' ss {}" "slots L' = slots L3 - {q}"
        "maxElem (lru_tab L') = maxElem (lru_tab L3)" "\<forall>p\<in>slots L3 - {q}. nd L' p = nd L3 p \<and> lru_key L' p = lru_key L3 p"
      using solve_failed_law [OF t3 q3] by blast
    have "slots L' = slots L" using L'(3) n3(2) h(3) by auto
    moreover have "\<forall>p\<in>slots L. nd L' p = nd L p \<and> lru_key L' p = lru_key L p" using L'(5) o3 n3(2) h(3) by auto
    ultimately show ?thesis using False add L' n3(4) h(3) by (intro exI [of _ L'] exI [of _ q]) simp
  qed
qed

lemma bind_verify: "bind_res (verify b r) f = verify b (bind_res r f)"
  by (cases b) (simp_all add: verify_def)

lemma bind_if: "bind_res (if b then r else r') f = (if b then bind_res r f else bind_res r' f)"
  by simp

lemma lru_add_new:
  assumes "find_loop (map_env env) (lru_tab L) k (Suc (nElem (lru_tab L))) (bucket (lru_tab L) ! (hash_fn env k mod nBucket (lru_tab L))) = Inr None"
  shows "lru_add env alone wakeups dflt L k solve =
    bind_res (evict_on_full env alone L) (\<lambda>(L1, ev).
      bind_res (add_after_evict env dflt L1 (hash_fn env k) (nBucket (lru_tab L)) k solve) (\<lambda>(L, r). Inr (L, r, True, ev)))"
  using assms
  by (simp add: lru_add_def add_after_evict_def alone_def [of Solving] bind_res_assoc Let_def split_def bind_verify bind_if cong: if_cong del: find_loop.simps)

section \<open>The cache that the map stands for\<close>

definition cache_of :: "('k, 'v) lru_map \<Rightarrow> nat list \<Rightarrow> ('k, 'v) cache" where
  "cache_of L ss = \<lparr>held = (\<lambda>p. if p \<in> slots L then Some (lru_key L p, entry (nd L p)) else None), idle = ss\<rparr>"

definition lru_rep :: "('k, 'v) lru_env \<Rightarrow> nat \<Rightarrow> ('k, 'v) lru_map \<Rightarrow> ('k, 'v) cache \<Rightarrow> bool" where
  "lru_rep env cap L c \<longleftrightarrow> (\<exists>ss. lru_ok env L ss {} \<and> maxElem (lru_tab L) = cap \<and> c = cache_of L ss)"

lemma keys_cache_of: "keys (cache_of L ss) = lru_key L ` slots L"
  by (force simp: keys_def cache_of_def ran_def)

lemma dom_cache_of [simp]: "dom (held (cache_of L ss)) = slots L"
  by (auto simp: cache_of_def split: if_splits)

lemma idle_cache_of [simp]: "idle (cache_of L ss) = ss"
  by (simp add: cache_of_def)

lemma held_cache_of: "held (cache_of L ss) p = (if p \<in> slots L then Some (lru_key L p, entry (nd L p)) else None)"
  by (simp add: cache_of_def)

lemma pin_cache_of:
  assumes "slots L' = slots L" "lru_key L' = lru_key L" "p \<in> slots L"
    and "\<forall>q. entry (nd L' q) = (if q = p then (lru_val (nd L p), Suc (refs L p), inc32 (m_lru_hitcnt (nd L p))) else entry (nd L q))"
  shows "cache_of L' (remove1 p ss) = pin (cache_of L ss) p"
  using assms by (auto simp: cache_of_def pin_def fun_eq_iff entry_def refs_def inc32_def LinkTp_def)

lemma unpin_cache_of:
  assumes "slots L' = slots L" "lru_key L' = lru_key L" "p \<in> slots L"
    and "\<forall>q. entry (nd L' q) = (if q = p then (lru_val (nd L p), refs L p - 1, m_lru_hitcnt (nd L p)) else entry (nd L q))"
  shows "cache_of L' (if refs L p = 1 then p # ss else ss) = unpin (cache_of L ss) p"
  using assms by (auto simp: cache_of_def unpin_def fun_eq_iff entry_def refs_def)

fun lru_call :: "('k, 'v) lru_env \<Rightarrow> 'v \<Rightarrow> ('k, 'v) lru_map \<Rightarrow> ('k, 'v) cache_call \<Rightarrow> (('k, 'v) lru_map \<times> ('k, 'v) cache_reply) res" where
  "lru_call env dflt L (Get k) = bind_res (lru_get env alone 0 L k) (\<lambda>(L, r). Inr (L, Got r))"
| "lru_call env dflt L (Add k v ok) = bind_res (lru_add env alone 0 dflt L k (\<lambda>_ _. (v, ok))) (\<lambda>(L, r, fresh, ev). Inr (L, Added r fresh ev))"
| "lru_call env dflt L (Release p) = bind_res (lru_release L p) (\<lambda>L. Inr (L, Released))"

lemma search_key:
  assumes ok: "lru_ok env L ss {}"
  shows "k \<in> lru_key L ` slots L \<Longrightarrow> \<exists>p\<in>slots L. lru_key L p = k \<and> find_i (map_env env) (lru_tab L) k = Inr p \<and>
      find_loop (map_env env) (lru_tab L) k (Suc (nElem (lru_tab L))) (bucket (lru_tab L) ! (hash_fn env k mod nBucket (lru_tab L))) = Inr (Some p)"
    and "k \<notin> lru_key L ` slots L \<Longrightarrow> find_i (map_env env) (lru_tab L) k = Inr (nElem (lru_tab L)) \<and>
      find_loop (map_env env) (lru_tab L) k (Suc (nElem (lru_tab L))) (bucket (lru_tab L) ! (hash_fn env k mod nBucket (lru_tab L))) = Inr None"
proof -
  note inv = lru_okD(1) [OF ok]
  have tm: "table_map (map_env env) (lru_tab L) k = None \<longleftrightarrow> k \<notin> lru_key L ` slots L"
    by (auto simp: table_map_None ran_def slot_map_nodes image_iff split: if_splits) 
  show "\<exists>p\<in>slots L. lru_key L p = k \<and> find_i (map_env env) (lru_tab L) k = Inr p \<and>
      find_loop (map_env env) (lru_tab L) k (Suc (nElem (lru_tab L))) (bucket (lru_tab L) ! (hash_fn env k mod nBucket (lru_tab L))) = Inr (Some p)"
    if k: "k \<in> lru_key L ` slots L"
  proof -
    from tm k obtain e where e: "table_map (map_env env) (lru_tab L) k = Some e" by blast
    from find_bucket(1) [OF inv e] obtain p where p: "p \<in> slots L" "key_at (map_env env) (lru_tab L) p = k"
        "find_loop (map_env env) (lru_tab L) k (Suc (nElem (lru_tab L))) (bucket (lru_tab L) ! (hash_fn env k mod nBucket (lru_tab L))) = Inr (Some p)"
      by auto
    then show ?thesis by (intro bexI [of _ p]) (simp_all add: key_at_def lru_key_def find_i_def find_with_hash_i_def Let_def)
  qed
  show "find_i (map_env env) (lru_tab L) k = Inr (nElem (lru_tab L)) \<and>
      find_loop (map_env env) (lru_tab L) k (Suc (nElem (lru_tab L))) (bucket (lru_tab L) ! (hash_fn env k mod nBucket (lru_tab L))) = Inr None"
    if "k \<notin> lru_key L ` slots L"
    using find_bucket(2) [OF inv, of k] that tm by (simp add: find_i_def find_with_hash_i_def Let_def)
qed

text \<open>Getting or adding a key that is there.\<close>

lemma lru_present_rep:
  assumes ok: "lru_ok env L ss {}" and p: "p \<in> slots L" and b: "pins_below (2 ^ 32 - 1) (cache_of L ss)"
  shows "\<exists>L'. lru_present env others wakeups L p = Inr (L', Some p) \<and> lru_rep env (maxElem (lru_tab L)) L' (pin (cache_of L ss) p)"
proof -
  have "held (cache_of L ss) p = Some (lru_key L p, lru_val (nd L p), refs L p, m_lru_hitcnt (nd L p))"
    using p by (simp add: held_cache_of entry_def refs_def)
  with b have "refs L p < 2 ^ 32 - 1" unfolding pins_below_def by blast
  from lru_hit_law [OF ok p this] obtain L' where L': "lru_hit L p = Inr L'" "lru_ok env L' (remove1 p ss) {}" "slots L' = slots L"
      "lru_key L' = lru_key L" "maxElem (lru_tab L') = maxElem (lru_tab L)"
      "\<forall>q. entry (nd L' q) = (if q = p then (lru_val (nd L p), Suc (refs L p), inc32 (m_lru_hitcnt (nd L p))) else entry (nd L q))"
    by blast
  then have "cache_of L' (remove1 p ss) = pin (cache_of L ss) p" using p by (intro pin_cache_of) simp_all
  with L' lru_present_law [OF ok p] show ?thesis by (auto simp: lru_rep_def intro!: exI [of _ L'])
qed

text \<open>Making room, as the specification has it.\<close>

lemma evict_rep:
  assumes ok: "lru_ok env L ss {}" and room: "card (slots L) < maxElem (lru_tab L) \<or> ss \<noteq> []"
  shows "\<exists>L1 ss1 ev. evict_on_full env alone L = Inr (L1, ev) \<and> lru_ok env L1 ss1 {} \<and> maxElem (lru_tab L1) = maxElem (lru_tab L) \<and>
    slots L1 \<subseteq> slots L \<and> card (slots L1) < maxElem (lru_tab L) \<and> lru_key L1 ` slots L1 \<subseteq> lru_key L ` slots L \<and>
    make_way (maxElem (lru_tab L)) (cache_of L ss) ev (cache_of L1 ss1)"
proof (cases "card (slots L) < maxElem (lru_tab L)")
  case True
  with evict_room [OF ok True, of alone] ok show ?thesis
    by (intro exI [of _ L] exI [of _ ss] exI [of _ "[]"]) (auto intro: Room)
next
  case False
  then have full: "card (slots L) = maxElem (lru_tab L)" using lru_size [OF ok] by simp
  from False room obtain ps q where ss: "ss = ps @ [q]" by (cases ss rule: rev_cases) auto
  from evict_law [OF ok full ss] obtain L1 where L1:
    "evict_on_full env alone L = Inr (L1, [(lru_key L q, lru_val (nd L q))])" "lru_ok env L1 ps {}" "slots L1 = slots L - {q}"
      "maxElem (lru_tab L1) = maxElem (lru_tab L)" "\<forall>p\<in>slots L - {q}. entry (nd L1 p) = entry (nd L p) \<and> lru_key L1 p = lru_key L p"
    by blast
  have "q \<in> {p \<in> slots L. refs L p = 0}" using lru_okD(5) [OF ok] ss by auto
  then have q: "q \<in> slots L" "refs L q = 0" by simp_all
  have "cache_of L1 ps = (cache_of L ss)\<lparr>held := (held (cache_of L ss))(q := None), idle := ps\<rparr>"
    using L1(3,5) by (auto simp: cache_of_def fun_eq_iff)
  moreover have "held (cache_of L ss) q = Some (lru_key L q, lru_val (nd L q), 0, m_lru_hitcnt (nd L q))"
    using q by (simp add: held_cache_of entry_def refs_def)
  ultimately have "make_way (maxElem (lru_tab L)) (cache_of L ss) [(lru_key L q, lru_val (nd L q))] (cache_of L1 ps)"
    using Evict [of "cache_of L ss" "maxElem (lru_tab L)" ps q] full ss by simp
  moreover have "card (slots L1) < maxElem (lru_tab L)" using L1(3) full q(1) by (metis card_Diff1_less finite_used)
  moreover have "lru_key L1 ` slots L1 \<subseteq> lru_key L ` slots L" "slots L1 \<subseteq> slots L" using L1(3,5) by auto
  ultimately show ?thesis using L1(1,2,4) by blast
qed

lemma lru_get_rep:
  assumes ok: "lru_ok env L ss {}" and b: "pins_below (2 ^ 32 - 1) (cache_of L ss)"
  shows "\<exists>L' r c'. lru_get env others wakeups L k = Inr (L', r) \<and>
    cache_step (maxElem (lru_tab L)) (cache_of L ss) (Get k) (Got r) c' \<and> lru_rep env (maxElem (lru_tab L)) L' c'"
proof (cases "k \<in> lru_key L ` slots L")
  case True
  from search_key(1) [OF ok True] obtain p where p: "p \<in> slots L" "lru_key L p = k" "find_i (map_env env) (lru_tab L) k = Inr p" by blast
  from lru_present_rep [OF ok p(1) b] obtain L' where
    "lru_present env others wakeups L p = Inr (L', Some p)" "lru_rep env (maxElem (lru_tab L)) L' (pin (cache_of L ss) p)" by blast
  moreover have "cache_step (maxElem (lru_tab L)) (cache_of L ss) (Get k) (Got (Some p)) (pin (cache_of L ss) p)"
    using p(1,2) by (cases "entry (nd L p)") (auto intro: Get_hit simp: held_cache_of)
  moreover have "p \<noteq> end_i (lru_tab L)" using used_less [OF p(1)] by (simp add: end_i_def)
  ultimately show ?thesis using p(3) by (auto simp: lru_get_def)
next
  case False
  with search_key(2) [OF ok False] have "lru_get env others wakeups L k = Inr (L, None)" by (simp add: lru_get_def end_i_def)
  moreover have "k \<notin> keys (cache_of L ss)" using False by (simp add: keys_cache_of)
  then have "cache_step (maxElem (lru_tab L)) (cache_of L ss) (Get k) (Got None) (cache_of L ss)" by (rule Get_miss)
  ultimately show ?thesis using ok by (auto simp: lru_rep_def)
qed

lemma lru_add_rep:
  assumes ok: "lru_ok env L ss {}" and b: "pins_below (2 ^ 32 - 1) (cache_of L ss)" and g: "grants env"
  shows "(\<exists>L' r fresh ev c'. lru_add env alone wakeups dflt L k (\<lambda>_ _. (v, good)) = Inr (L', r, fresh, ev) \<and>
      cache_step (maxElem (lru_tab L)) (cache_of L ss) (Add k v good) (Added r fresh ev) c' \<and> lru_rep env (maxElem (lru_tab L)) L' c') \<or>
    lru_add env alone wakeups dflt L k (\<lambda>_ _. (v, good)) = Inl Abort \<and> \<not> allowed (maxElem (lru_tab L)) (cache_of L ss) (Add k v good)"
proof (cases "k \<in> lru_key L ` slots L")
  case True
  from search_key(1) [OF ok True] obtain p where p: "p \<in> slots L" "lru_key L p = k"
      "find_loop (map_env env) (lru_tab L) k (Suc (nElem (lru_tab L))) (bucket (lru_tab L) ! (hash_fn env k mod nBucket (lru_tab L))) = Inr (Some p)"
    by blast
  from lru_present_rep [OF ok p(1) b] obtain L' where
    "lru_present env alone wakeups L p = Inr (L', Some p)" "lru_rep env (maxElem (lru_tab L)) L' (pin (cache_of L ss) p)" by blast
  moreover have "cache_step (maxElem (lru_tab L)) (cache_of L ss) (Add k v good) (Added (Some p) False []) (pin (cache_of L ss) p)"
    using p(1,2) by (cases "entry (nd L p)") (auto intro: Add_hit simp: held_cache_of)
  ultimately show ?thesis using p(3) by (auto simp: lru_add_def simp del: find_loop.simps)
next
  case False
  note add = lru_add_new [OF conjunct2 [OF search_key(2) [OF ok False]], of wakeups dflt "\<lambda>_ _. (v, good)"]
  have nk: "k \<notin> keys (cache_of L ss)" using False by (simp add: keys_cache_of)
  show ?thesis
  proof (cases "card (slots L) < maxElem (lru_tab L) \<or> ss \<noteq> []")
    case True
    from evict_rep [OF ok True] obtain L1 ss1 ev where L1: "evict_on_full env alone L = Inr (L1, ev)" "lru_ok env L1 ss1 {}"
        "maxElem (lru_tab L1) = maxElem (lru_tab L)" "card (slots L1) < maxElem (lru_tab L)"
        "lru_key L1 ` slots L1 \<subseteq> lru_key L ` slots L" "make_way (maxElem (lru_tab L)) (cache_of L ss) ev (cache_of L1 ss1)"
      by blast
    have "card (slots L1) < maxElem (lru_tab L1)" "k \<notin> lru_key L1 ` slots L1" using L1(3-5) False by auto
    from add_after_evict_law [OF L1(2) g this, of "\<lambda>_ _. (v, good)" dflt v good "nBucket (lru_tab L)"] obtain L' q where
      q: "add_after_evict env dflt L1 (hash_fn env k) (nBucket (lru_tab L)) k (\<lambda>_ _. (v, good)) = Inr (L', if good then Some q else None)"
        "lru_ok env L' ss1 {}" "q \<notin> slots L1" "slots L' = (if good then insert q (slots L1) else slots L1)"
        "maxElem (lru_tab L') = maxElem (lru_tab L1)" "\<forall>p\<in>slots L1. nd L' p = nd L1 p \<and> lru_key L' p = lru_key L1 p"
        "good \<longrightarrow> lru_key L' q = k \<and> entry (nd L' q) = (v, 1, 1)"
      by auto
    have rep: "lru_rep env (maxElem (lru_tab L)) L' (cache_of L' ss1)" using q(2,5) L1(3) by (auto simp: lru_rep_def)
    have "cache_step (maxElem (lru_tab L)) (cache_of L ss) (Add k v good) (Added (if good then Some q else None) True ev) (cache_of L' ss1)"
    proof (cases good)
      case True
      have "cache_of L' ss1 = (cache_of L1 ss1)\<lparr>held := (held (cache_of L1 ss1))(q \<mapsto> (k, v, 1, 1))\<rparr>"
        using q(3,4,6,7) True by (auto simp: cache_of_def fun_eq_iff)
      moreover have "held (cache_of L1 ss1) q = None" using q(3) by (simp add: held_cache_of)
      ultimately show ?thesis using Add_new [OF nk L1(6), of q v] True by simp
    next
      case g: False
      then have "cache_of L' ss1 = cache_of L1 ss1" using q(4,6) by (auto simp: cache_of_def fun_eq_iff)
      then show ?thesis using Add_failed [OF nk L1(6), of v] g by simp
    qed
    moreover have "lru_add env alone wakeups dflt L k (\<lambda>_ _. (v, good)) = Inr (L', if good then Some q else None, True, ev)"
      unfolding add L1(1) by (simp only: bind_res_simps split_conv q(1))
    ultimately show ?thesis using rep by blast
  next
    case no: False
    then have "card (slots L) = maxElem (lru_tab L)" "ss = []" using lru_size [OF ok] by auto
    with evict_none [of env L alone] ok have "evict_on_full env alone L = Inl Abort" by simp
    with add no nk show ?thesis by simp
  qed
qed

lemma lru_release_rep:
  assumes ok: "lru_ok env L ss {}" and b: "pins_below (2 ^ 32 - 1) (cache_of L ss)"
  shows "(\<exists>L' c'. lru_release L p = Inr L' \<and> cache_step (maxElem (lru_tab L)) (cache_of L ss) (Release p) Released c' \<and>
      lru_rep env (maxElem (lru_tab L)) L' c') \<or>
    lru_release L p = Inl Abort \<and> \<not> allowed (maxElem (lru_tab L)) (cache_of L ss) (Release p)"
proof (cases "p \<in> slots L \<and> 0 < refs L p")
  case True
  have h: "held (cache_of L ss) p = Some (lru_key L p, lru_val (nd L p), refs L p, m_lru_hitcnt (nd L p))"
    using True by (simp add: held_cache_of entry_def refs_def)
  with b have r: "refs L p < 2 ^ 32" unfolding pins_below_def by fastforce
  from lru_release_law [OF ok conjunct1 [OF True] conjunct2 [OF True] r] obtain L' where L': "lru_release L p = Inr L'"
      "lru_ok env L' (if refs L p = 1 then p # ss else ss) {}" "slots L' = slots L" "lru_key L' = lru_key L"
      "maxElem (lru_tab L') = maxElem (lru_tab L)"
      "\<forall>q. entry (nd L' q) = (if q = p then (lru_val (nd L p), refs L p - 1, m_lru_hitcnt (nd L p)) else entry (nd L q))"
    by blast
  then have "cache_of L' (if refs L p = 1 then p # ss else ss) = unpin (cache_of L ss) p" using True by (intro unpin_cache_of) simp_all
  with L' have "lru_rep env (maxElem (lru_tab L)) L' (unpin (cache_of L ss) p)" by (metis lru_rep_def)
  moreover have "cache_step (maxElem (lru_tab L)) (cache_of L ss) (Release p) Released (unpin (cache_of L ss) p)"
    by (rule cache_step.Release [OF h conjunct2 [OF True]])
  ultimately show ?thesis using L'(1) by blast
next
  case False
  then have "p \<in> slots L \<Longrightarrow> refs L p = 0" by simp
  then have "lru_release L p = Inl Abort" by (rule lru_release_bad [OF ok])
  moreover have "\<not> allowed (maxElem (lru_tab L)) (cache_of L ss) (Release p)"
    using False by (auto simp: held_cache_of entry_def refs_def split: if_splits)
  ultimately show ?thesis by blast
qed

interpretation lru: pinned_cache cap "lru_call (granting env) dflt" "lru_rep (granting env) cap" for env dflt cap
proof
  fix L c call
  let ?env = "granting env"
  assume "lru_rep ?env cap L c" and b: "pins_below (2 ^ 32 - 1) c"
  then obtain ss where ok: "lru_ok ?env L ss {}" and cap: "maxElem (lru_tab L) = cap" and c: "c = cache_of L ss"
    by (auto simp: lru_rep_def)
  note b' = b [unfolded c]
  show "(\<exists>L' out c'. lru_call ?env dflt L call = Inr (L', out) \<and> cache_step cap c call out c' \<and> lru_rep ?env cap L' c') \<or>
    lru_call ?env dflt L call = Inl Abort \<and> \<not> allowed cap c call"
  proof (cases call)
    case (Get k)
    with lru_get_rep [OF ok b', of alone 0 k] cap c show ?thesis by fastforce
  next
    case (Add k v good)
    with lru_add_rep [OF ok b', of 0 dflt k v good] cap c show ?thesis by fastforce
  next
    case (Release p)
    with lru_release_rep [OF ok b', of p] cap c show ?thesis by fastforce
  qed
qed

section \<open>Properties\<close>

lemma lru_construct_law:
  assumes g: "grants env" and cap: "2 < cap" "cap < 2 ^ 31"
  shows "\<exists>L. lru_construct env cap = Inr L \<and> lru_rep env cap L \<lparr>held = Map.empty, idle = []\<rparr>"
proof -
  have init: "gh_init\<lparr>m_enable_freelist_reuse := True\<rparr> = gh_init" by (simp add: gh_init_def)
  have "cap \<le> delmark" using cap(2) by (simp add: delmark_def tail_def)
  with reserve_inv [OF gh_init_inv, of "map_env env" cap] g cap obtain h where
    h: "reserve (map_env env) gh_init cap = Inr h" "gh_inv (map_env env) h" "same_nodes gh_init h" "maxElem h = cap"
    by auto
  let ?L = "lru_new\<lparr>lru_tab := h\<rparr>"
  have "slots ?L = {}" using h(3) by (simp add: same_nodes_def used_def gh_init_def lru_new_def)
  moreover have "\<not> m_enable_auto_gc h" "m_enable_freelist_reuse h" using h(3) by (simp_all add: same_nodes_def gh_init_def)
  ultimately have "lru_ok env ?L [] {}" using h(2,4) cap(2) by (auto simp: lru_ok_def lru_new_def)
  moreover have "cache_of ?L [] = \<lparr>held = Map.empty, idle = []\<rparr>" using \<open>slots ?L = {}\<close> by (simp add: cache_of_def fun_eq_iff)
  moreover have "lru_construct env cap = Inr ?L"
    using cap(1) h(1) by (simp add: lru_construct_def set_lru_cap_def lru_new_def init)
  ultimately have "lru_rep env cap ?L \<lparr>held = Map.empty, idle = []\<rparr>"
    unfolding lru_rep_def using h(4) by (intro exI [of _ "[]"]) simp
  with \<open>lru_construct env cap = Inr ?L\<close> show ?thesis by blast
qed

text \<open>C10: a cache for more than two and less than 2^31 entries, used by one thread at a time, answers every
  sequence of fewer than 2^32 - 2 calls of \<open>lru_get\<close>, \<open>lru_add\<close> and \<open>lru_release\<close> the way the abstract cache does:
  a key is found exactly when it is held, its slot is pinned and counted, adding a new key to a full cache evicts
  exactly the entry whose last reference was released longest ago, and only such an entry, and a value that could not
  be computed leaves no entry.  It stops only at a call the abstract cache has no answer to: a release without a
  reference, or a new key when the cache is full and every entry is referenced.\<close>

theorem lru_map_refines_cache:
  assumes g: "grants env" and cap: "2 < cap" "cap < 2 ^ 31" and n: "length calls + 2 < 2 ^ 32"
  shows "\<exists>L. lru_construct env cap = Inr L \<and>
    ((\<exists>L' outs c'. run_calls (lru_call env dflt) L calls = Inr (L', outs) \<and>
        cache_steps cap \<lparr>held = Map.empty, idle = []\<rparr> calls outs c' \<and> lru_rep env cap L' c') \<or>
     run_calls (lru_call env dflt) L calls = Inl Abort \<and>
     (\<exists>before call after outs c1. calls = before @ call # after \<and>
        cache_steps cap \<lparr>held = Map.empty, idle = []\<rparr> before outs c1 \<and> \<not> allowed cap c1 call))"
proof -
  obtain L where L: "lru_construct env cap = Inr L" "lru_rep env cap L \<lparr>held = Map.empty, idle = []\<rparr>"
    using lru_construct_law [OF g cap] by blast
  have "pins_below 2 \<lparr>held = Map.empty, idle = []\<rparr>" by (simp add: pins_below_def)
  with lru.run_calls_step [of env cap L _ 2 calls dflt] L(2) n show ?thesis
    unfolding granting_id [OF g] by (intro exI [of _ L] conjI L(1)) simp
qed

text \<open>C11: a reference can be relied on.  As long as a slot has a reference that is not released, no sequence of calls
  by others evicts its entry, moves it or changes its key or value, however full the cache is; getting its key returns that
  slot, and \<open>lru_val\<close> its value.\<close>

theorem lru_map_pinned_stays:
  assumes g: "grants env" and rep: "lru_rep env cap L c" and n: "pins_below n c" "1 < n" "n + length calls < 2 ^ 32 - 1"
    and pin: "pinned c p k v" and no: "Release p \<notin> set calls" and run: "run_calls (lru_call env dflt) L calls = Inr (L', outs)"
  shows "\<exists>c'. cache_steps cap c calls outs c' \<and> lru_rep env cap L' c' \<and> pinned c' p k v \<and>
    (\<exists>L''. lru_get env alone 0 L' k = Inr (L'', Some p)) \<and> lru_val_at L' p = Inr v \<and> get_lru_cap L' = cap"
proof -
  obtain c' where c': "cache_steps cap c calls outs c'" "lru_rep env cap L' c'" "pinned c' p k v"
    using lru.pinned_stays [of env cap L c n calls p k v dflt L' outs] assms unfolding granting_id [OF g] by auto
  then obtain ss where ok: "lru_ok env L' ss {}" and c: "c' = cache_of L' ss" and cap: "get_lru_cap L' = cap"
    by (auto simp: lru_rep_def get_lru_cap_def)
  from c'(3) have p: "p \<in> slots L'" "lru_key L' p = k" "lru_val (nd L' p) = v"
    unfolding c by (auto simp: pinned_def held_cache_of entry_def split: if_splits)
  have "pins_below (2 ^ 32 - 1) c'"
    using pins_below_steps [OF c'(1) n(1,2)] n(3) by (force simp: pins_below_def)
  from lru_present_rep [OF ok p(1) this [unfolded c], of alone 0] obtain L'' where
    hit: "lru_present env alone 0 L' p = Inr (L'', Some p)" by blast
  from search_key(1) [OF ok, of k] p obtain q where q: "q \<in> slots L'" "lru_key L' q = k" "find_i (map_env env) (lru_tab L') k = Inr q"
    by blast
  have "q = p"
    using gh_inv_inj [OF lru_okD(1) [OF ok]] p(1,2) q(1,2) by (auto simp: inj_on_def key_at_def lru_key_def)
  with q used_less [OF q(1)] hit have "lru_get env alone 0 L' k = Inr (L'', Some p)" by (simp add: lru_get_def end_i_def)
  moreover have "lru_val_at L' p = Inr v"
    using slot_elem [OF lru_okD(2) [OF ok] p(1)] p(1,3) lru_okD(2) [OF ok] by (simp add: lru_val_at_def end_i_def is_deleted_def)
  ultimately show ?thesis using c' cap by blast
qed

end
