(* ===== verification/Lru_Races.thy ===== *)
theory Lru_Races
  imports Lru_Refine
begin

text \<open>
  What happens in the gaps of \<open>lru_map\<close>, where the lock is given back: a thread that waits for the value another
  one computes, and two interleavings that go wrong.
\<close>

section \<open>Waiting\<close>

lemma wait_loop_done:
  assumes keep: "\<forall>i L. cells_ok L \<and> p \<in> slots L \<and> nx L p = inprogress \<longrightarrow>
      cells_ok (others (Asleep i) L) \<and> p \<in> slots (others (Asleep i) L) \<and> nx (others (Asleep i) L) p \<in> {inprogress, solve_done}"
    and "i < wakeups" and "\<forall>L. cells_ok L \<and> p \<in> slots L \<longrightarrow> nx (others (Asleep i) L) p = solve_done"
    and "cells_ok L" and "p \<in> slots L" and "nx L p = inprogress"
  shows "\<exists>L'. wait_loop others wakeups L p = Inr (L', True) \<and> cells_ok L' \<and> p \<in> slots L' \<and> nx L' p = solve_done"
  using assms(2-)
proof (induction wakeups arbitrary: L)
  case (Suc w)
  let ?L = "others (Asleep w) L"
  have k: "cells_ok ?L" "p \<in> slots ?L" "nx ?L p = inprogress \<or> nx ?L p = solve_done" using keep Suc.prems(3-5) by auto
  show ?case
  proof (cases "nx ?L p = solve_done")
    case True
    with k show ?thesis by (simp add: nx_def)
  next
    case False
    then have "i < w" "nx ?L p = inprogress" using Suc.prems(1-4) k(3) by (metis less_SucE, blast)
    from Suc.IH [OF this(1) Suc.prems(2) k(1,2) this(2)] False k show ?thesis
      by (simp add: nx_def inprogress_def solve_done_def solve_fail_def)
  qed
qed simp

text \<open>C31: a thread that looks up a key whose value is being computed by another one.  If the computation is still
  going on when \<open>wait_solve\<close> first looks, and the other threads keep the node and finish it at some wakeup, the waiting
  thread gets the slot, with the value there.  But if the computation has ended between \<open>unlock\<close> and that first look,
  \<open>wait_solve\<close> kills the program: its loop is not entered and \<open>TERARK_DIE\<close> follows.\<close>

theorem lru_map_waiting:
  assumes c: "cells_ok L" and p: "p \<in> slots L" "find_i (map_env env) (lru_tab L) k = Inr p"
    and solving: "nx L p = inprogress" "1 \<le> refs L p" and now: "seen = others Unlocked (lru_upd L p ((nd L p)\<lparr>m_lru_refcnt := inc32 (refs L p)\<rparr>))"
    and kept: "cells_ok seen" "p \<in> slots seen"
  shows "(nx seen p = inprogress \<and> i < wakeups \<and> (\<forall>L. cells_ok L \<and> p \<in> slots L \<longrightarrow> nx (others (Asleep i) L) p = solve_done) \<and>
      (\<forall>i L. cells_ok L \<and> p \<in> slots L \<and> nx L p = inprogress \<longrightarrow>
        cells_ok (others (Asleep i) L) \<and> p \<in> slots (others (Asleep i) L) \<and> nx (others (Asleep i) L) p \<in> {inprogress, solve_done}) \<longrightarrow>
      (\<exists>L'. lru_get env others wakeups L k = Inr (L', Some p) \<and> p \<in> slots L' \<and> nx L' p = solve_done)) \<and>
    (nx seen p \<noteq> inprogress \<longrightarrow> lru_get env others wakeups L k = Inl Abort)"
proof -
  have "lru_get env others wakeups L k = lru_present env others wakeups L p"
    using p used_less [OF p(1)] by (simp add: lru_get_def end_i_def)
  also have "\<dots> = bind_res (wait_solve others wakeups seen p) (\<lambda>(L, ok).
      if ok then Inr (L, Some p) else bind_res (solve_failed env others L p) (\<lambda>L. Inr (L, None)))"
    using c p solving now by (simp add: lru_present_def nx_def refs_def)
  finally have get: "lru_get env others wakeups L k = bind_res (wait_solve others wakeups seen p) (\<lambda>(L, ok).
      if ok then Inr (L, Some p) else bind_res (solve_failed env others L p) (\<lambda>L. Inr (L, None)))" .
  have w: "wait_solve others wakeups seen p = (if inprogress = nx seen p then wait_loop others wakeups seen p else Inl Abort)"
    using kept by (simp add: wait_solve_def nx_def)
  show ?thesis
  proof (intro conjI impI)
    assume a: "nx seen p = inprogress \<and> i < wakeups \<and> (\<forall>L. cells_ok L \<and> p \<in> slots L \<longrightarrow> nx (others (Asleep i) L) p = solve_done) \<and>
      (\<forall>i L. cells_ok L \<and> p \<in> slots L \<and> nx L p = inprogress \<longrightarrow>
        cells_ok (others (Asleep i) L) \<and> p \<in> slots (others (Asleep i) L) \<and> nx (others (Asleep i) L) p \<in> {inprogress, solve_done})"
    with wait_loop_done [of p others i wakeups seen] kept obtain L' where
      "wait_loop others wakeups seen p = Inr (L', True)" "p \<in> slots L'" "nx L' p = solve_done" by blast
    with get w a show "\<exists>L'. lru_get env others wakeups L k = Inr (L', Some p) \<and> p \<in> slots L' \<and> nx L' p = solve_done" by simp
  next
    assume "nx seen p \<noteq> inprogress"
    with get w show "lru_get env others wakeups L k = Inl Abort" by auto
  qed
qed

section \<open>Concrete maps\<close>

definition lru_nat_env :: "(nat, nat) lru_env" where
  "lru_nat_env = \<lparr>hash_fn = (\<lambda>k. k), key_of = fst, fast_copy = True, trivial_dtor = True, nodes_ok = (\<lambda>_. True),
     buckets_ok = (\<lambda>_. True), fresh_link = (\<lambda>i. 0)\<rparr>"

lemma lru_nat_env_grants [simp]: "grants lru_nat_env"
  by (simp add: lru_nat_env_def grants_def)

definition idle_node :: "nat \<Rightarrow> nat \<Rightarrow> nat \<Rightarrow> nat lru_node" where
  "idle_node v a b = \<lparr>m_lru_hitcnt = 1, m_lru_refcnt = 0, m_lru_next = a, m_lru_prev = b, lru_val = v\<rparr>"

text \<open>An empty cache for three entries, and a full one none of whose entries is referenced.\<close>

definition empty_cache :: "(nat, nat) lru_map" where
  "empty_cache = \<lparr>lru_tab = \<lparr>nl_data = [Raw, Raw, Raw], nl_link = [0, 0, 0],
       bucket = [tail, tail, tail, tail, tail], nBucket = 5, nElem = 0, maxElem = 3, maxload = 3,
       freelist_head = tail, freelist_size = 0, load_factor = 179, is_sorted = True, m_enable_auto_gc = False,
       m_enable_freelist_reuse = True\<rparr>,
     m_lru_head = no_link, m_lru_len = 0, m_num_evicting = 0\<rparr>"

definition full_cache :: "(nat, nat) lru_map" where
  "full_cache = \<lparr>lru_tab = \<lparr>nl_data = [Live (1, idle_node 10 2 1), Live (2, idle_node 20 0 2), Live (3, idle_node 30 1 0)],
       nl_link = [tail, tail, tail], bucket = [tail, 0, 1, 2, tail], nBucket = 5, nElem = 3, maxElem = 3, maxload = 3,
       freelist_head = tail, freelist_size = 0, load_factor = 179, is_sorted = False, m_enable_auto_gc = False,
       m_enable_freelist_reuse = True\<rparr>,
     m_lru_head = 2, m_lru_len = 3, m_num_evicting = 0\<rparr>"

text \<open>Evaluation from the outside in, with the marks as numerals.\<close>

lemma bind_res_weak_cong: "r = r' \<Longrightarrow> bind_res r f = bind_res r' f"
  by simp

lemma verify_weak_cong: "b = b' \<Longrightarrow> verify b r = verify b' r"
  by simp

lemma list_update_numeral: "(x # xs)[numeral k := v] = x # xs[pred_numeral k := v]"
  by (simp add: numeral_eq_Suc)

lemma fuel_numeral:
  "find_loop env h k (numeral n) p = (if tail \<noteq> p then
        verify (p < nElem h)
          (bind_res (get_elem (nl_data h ! p)) (\<lambda>e.
            if k = key_of env e then Inr (Some p) else find_loop env h k (pred_numeral n) (nl_link h ! p)))
      else Inr None)"
  "unlink_walk h idx (numeral n) curp = (let curr' = read_ref h curp in
      if idx \<noteq> curr' then verify (read_ref h (In_link curr') < nElem h) (unlink_walk h idx (pred_numeral n) (In_link curr'))
      else Inr curp)"
  by (simp_all add: numeral_eq_Suc)

lemma marks:
  "no_link = 4294967295" "inprogress = 4294967295" "solve_fail = 4294967294" "solve_done = 4294967293" "tail = 4294967295"
  "delmark = 4294967294" "inc32 n = (n + 1) mod 4294967296" "dec32 n = (n + 4294967295) mod 4294967296"
  "LinkTp n = n mod 4294967296"
  by (simp_all add: no_link_def inprogress_def solve_fail_def solve_done_def tail_def delmark_def inc32_def dec32_def LinkTp_def)

lemmas lru_eval = lru_add_def evict_on_full_def evict_begin_def evict_end_def remove_node_def update_node_def node_at_def
  map_val_def set_value_def elem_at_def risk_unlink_def risk_unlink_with_hash_i_def hash_i_def risk_slot_free_def fast_slot_free_def
  place_after_pre_def risk_slot_alloc_def place_elem_def wake_solve_def alone_def gh_size_def map_env_def lru_nat_env_def
  idle_node_def new_node_def list_update_numeral fuel_numeral marks Let_def

lemmas lru_eval_more = lru_release_def insert_as_new_head_def end_i_def is_deleted_def alloc_no_reuse_def empty_cache_def

lemma empty_cache_constructed: "lru_construct lru_nat_env 3 = Inr empty_cache"
proof -
  have u: "[0..<3] = [0, 1, 2 :: nat]" "[0..<5] = [0, 1, 2, 3, 4 :: nat]" by (simp_all add: upt_rec)
  have r: "replicate 3 (x :: (nat \<times> nat lru_node) cell) = [x, x, x]" "replicate 5 (y :: nat) = [y, y, y, y, y]" for x y
    by (simp_all add: numeral_eq_Suc)
  show ?thesis
    by (simp add: lru_construct_def set_lru_cap_def lru_new_def gh_init_def reserve_def reserve_nodes_def nl_reserve_def rehash_def
      relink_def next_prime_5 map_env_def lru_nat_env_def marks empty_cache_def Let_def u r)
qed

lemma full_cache_reached:
  "run_calls (lru_call lru_nat_env 0) empty_cache [Add 1 10 True, Add 2 20 True, Add 3 30 True, Release 0, Release 1, Release 2] =
    Inr (full_cache, [Added (Some 0) True [], Added (Some 1) True [], Added (Some 2) True [], Released, Released, Released])"
  by (simp add: lru_eval lru_eval_more full_cache_def cong: bind_res_weak_cong verify_weak_cong)

text \<open>What an evaluated run from the empty cache shows of the abstract one.\<close>

lemma run_reaches:
  assumes "run_calls (lru_call lru_nat_env 0) empty_cache calls = Inr (L, outs)" and "length calls < 100"
  shows "\<exists>c. cache_steps 3 \<lparr>held = Map.empty, idle = []\<rparr> calls outs c \<and> lru_rep lru_nat_env 3 L c"
proof -
  have "lru_rep lru_nat_env 3 empty_cache \<lparr>held = Map.empty, idle = []\<rparr>"
    using lru_construct_law [of lru_nat_env 3] empty_cache_constructed by auto
  moreover have "pins_below 2 \<lparr>held = Map.empty, idle = []\<rparr>" by (simp add: pins_below_def)
  ultimately show ?thesis
    using lru.run_calls_step [of lru_nat_env 3 empty_cache _ 2 calls 0] assms unfolding granting_id [OF lru_nat_env_grants] by auto
qed

lemma lru_map_refines_cache_witness:
  "\<exists>c. cache_steps 3 \<lparr>held = Map.empty, idle = []\<rparr>
      [Add 1 10 True, Add 2 20 True, Add 3 30 True, Release 0, Release 1, Release 2]
      [Added (Some 0) True [], Added (Some 1) True [], Added (Some 2) True [], Released, Released, Released] c \<and>
    lru_rep lru_nat_env 3 full_cache c"
  using lru_map_refines_cache [of lru_nat_env 3 "[Add 1 10 True, Add 2 20 True, Add 3 30 True, Release 0, Release 1, Release 2]" 0]
  by (simp add: empty_cache_constructed full_cache_reached del: run_calls.simps One_nat_def)

definition one_cache :: "(nat, nat) lru_map" where
  "one_cache = (case lru_call lru_nat_env 0 empty_cache (Add 1 10 True) of Inr (L, _) \<Rightarrow> L | Inl _ \<Rightarrow> empty_cache)"

lemma one_cache_reached: "run_calls (lru_call lru_nat_env 0) empty_cache [Add 1 10 True] = Inr (one_cache, [Added (Some 0) True []])"
  by (simp add: one_cache_def lru_eval lru_eval_more cong: bind_res_weak_cong verify_weak_cong)

lemma one_cache_rep: "lru_rep lru_nat_env 3 one_cache \<lparr>held = [0 \<mapsto> (1, 10, 1, 1)], idle = []\<rparr>"
proof -
  obtain c where c: "cache_steps 3 \<lparr>held = Map.empty, idle = []\<rparr> [Add 1 10 True] [Added (Some 0) True []] c" "lru_rep lru_nat_env 3 one_cache c"
    using run_reaches [OF one_cache_reached] by auto
  then have "c = \<lparr>held = [0 \<mapsto> (1, 10, 1, 1)], idle = []\<rparr>"
    by (auto elim!: cache_steps.cases [of _ _ "_ # _"] cache_steps.cases [of _ _ "[]"] AddE make_wayE)
  with c show ?thesis by simp
qed

lemma busy_run: "\<exists>L outs. run_calls (lru_call lru_nat_env 0) one_cache
    [Add 2 20 True, Add 3 30 True, Release 1, Release 2, Add 4 40 True, Add 5 50 True] = Inr (L, outs) \<and> lru_key L 1 = 4"
  by (simp add: one_cache_def lru_eval lru_eval_more cong: bind_res_weak_cong verify_weak_cong) (simp add: lru_key_def)

lemma lru_map_pinned_stays_witness:
  "\<exists>L outs. run_calls (lru_call lru_nat_env 0) one_cache
      [Add 2 20 True, Add 3 30 True, Release 1, Release 2, Add 4 40 True, Add 5 50 True] = Inr (L, outs) \<and>
    (\<exists>L'. lru_get lru_nat_env alone 0 L 1 = Inr (L', Some 0)) \<and> lru_val_at L 0 = Inr 10"
proof -
  obtain L outs where run: "run_calls (lru_call lru_nat_env 0) one_cache
      [Add 2 20 True, Add 3 30 True, Release 1, Release 2, Add 4 40 True, Add 5 50 True] = Inr (L, outs)"
    using busy_run by blast
  have "pins_below 2 \<lparr>held = [0 \<mapsto> (1, 10, 1, 1)], idle = []\<rparr>" "pinned \<lparr>held = [0 \<mapsto> (1 :: nat, 10, 1, 1)], idle = []\<rparr> 0 1 (10 :: nat)"
    by (simp_all add: pins_below_def pinned_def)
  from lru_map_pinned_stays [OF lru_nat_env_grants one_cache_rep this(1) _ _ this(2) _ run] run show ?thesis by simp blast
qed

text \<open>A cache that another thread is computing the value of key 1 for.\<close>

definition solving_cache :: "(nat, nat) lru_map" where
  "solving_cache = empty_cache\<lparr>lru_tab := (lru_tab empty_cache)\<lparr>nl_data := [Live (1, new_node 0), Raw, Raw], nl_link := [tail, 0, 0],
     bucket := [tail, 0, tail, tail, tail], nElem := 1, is_sorted := False\<rparr>\<rparr>"

definition finish_at :: "gap \<Rightarrow> (nat, nat) other_threads" where
  "finish_at g0 g L = (if g = g0 then lru_upd L 0 ((nd L 0)\<lparr>m_lru_next := solve_done, lru_val := 7\<rparr>) else L)"

lemma lru_map_waiting_witness:
  "(\<exists>L. lru_get lru_nat_env (finish_at (Asleep 1)) 3 solving_cache 1 = Inr (L, Some 0) \<and> nx L 0 = solve_done) \<and>
   lru_get lru_nat_env (finish_at Unlocked) 3 solving_cache 1 = Inl Abort"
proof -
  have slots: "slots solving_cache = {0}" by (auto simp: used_def solving_cache_def marks)
  then have c: "cells_ok solving_cache" by (simp add: cells_ok_def) (simp add: solving_cache_def)
  have s: "nx solving_cache 0 = inprogress" "1 \<le> refs solving_cache 0" by (simp_all add: nx_def refs_def nd_def solving_cache_def new_node_def)
  have f: "find_i (map_env lru_nat_env) (lru_tab solving_cache) 1 = Inr 0"
    by (simp add: find_i_def find_with_hash_i_def solving_cache_def empty_cache_def map_env_def lru_nat_env_def marks)
  have z: "0 \<in> slots solving_cache" using slots by simp
  have d: "solve_done \<noteq> inprogress" by (simp add: marks)
  note w = lru_map_waiting [OF c z f s refl]
  show ?thesis
  proof
    show "\<exists>L. lru_get lru_nat_env (finish_at (Asleep 1)) 3 solving_cache 1 = Inr (L, Some 0) \<and> nx L 0 = solve_done"
      using w [of "finish_at (Asleep 1)" 1 3] c z s(1) by (auto simp: finish_at_def nx_def)
    show "lru_get lru_nat_env (finish_at Unlocked) 3 solving_cache 1 = Inl Abort"
      using w [of "finish_at Unlocked" 1 3] c z d by (simp add: finish_at_def nx_def)
  qed
qed

section \<open>The same key twice\<close>

text \<open>C40: a thread adds a key to a full cache.  It has found the key absent and gives the lock back while it disposes
  of the entry it evicts; if the other threads leave a sound table with that key in some slot, be it by adding it as
  well, it puts the key in again, for it does not search again after \<open>pre_insert\<close>.  Then two slots hold the key, each
  with its own value, and the table has lost its invariant.\<close>

theorem lru_map_key_twice:
  assumes ok: "lru_ok env L ss {}" and g: "grants env"
    and full: "gh_size (lru_tab L) = maxElem (lru_tab L)" and absent: "k \<notin> lru_key L ` slots L"
    and out: "evict_begin env L = Inr (L1, victim, k0, v0)" and freed: "evict_end env (others Evicting L1) victim = Inr L2"
    and twin: "gh_inv (map_env env) (lru_tab L2)" "nElem (lru_tab L2) < 2 ^ 31" "q \<in> slots L2" "lru_key L2 q = k"
    and solving: "others Solving = (\<lambda>L. L)" "solve k dflt = (v, True)"
  shows "\<exists>L' p. lru_add env others wakeups dflt L k solve = Inr (L', Some p, True, [(k0, v0)]) \<and> p \<noteq> q \<and>
    p \<in> slots L' \<and> lru_key L' p = k \<and> lru_val (nd L' p) = v \<and> q \<in> slots L' \<and> lru_key L' q = k \<and> nd L' q = nd L2 q \<and>
    \<not> gh_inv (map_env env) (lru_tab L')"
proof -
  have "grants (map_env env)" using g by simp
  from place_after_pre_slots [OF twin(1) this twin(2), of "hash_fn env k" "nBucket (lru_tab L)" "(k, new_node dflt)"]
  obtain h p where h: "place_after_pre (map_env env) (lru_tab L2) (hash_fn env k) (nBucket (lru_tab L))
      (hash_fn env k mod nBucket (lru_tab L)) (k, new_node dflt) = Inr (h, p)"
      "p \<notin> slots L2" "slot_map h = (slot_map (lru_tab L2))(p \<mapsto> (k, new_node dflt))"
      "\<forall>p\<in>used h. is_live (nl_data h ! p) \<and> p < length (nl_data h)"
    by blast
  let ?L3 = "L2\<lparr>lru_tab := h\<rparr>"
  have "slot_map (lru_tab ?L3) = (slot_map (lru_tab L2))(p := Some (k, new_node dflt))" using h(3) by simp
  note n = nodes_of_map [OF this]
  have c: "cells_ok ?L3" using h(4) by (simp add: cells_ok_def)
  have p: "p \<in> slots ?L3" "nd ?L3 p = new_node dflt" "lru_key ?L3 p = k" "p \<noteq> q" using n(3,4) h(2) twin(3) by auto
  have q: "q \<in> slots ?L3" "nd ?L3 q = nd L2 q" "lru_key ?L3 q = k" using n(1,2) twin(3,4) p(4) by auto
  define L' where "L' = lru_upd (lru_upd ?L3 p ((new_node dflt)\<lparr>lru_val := v\<rparr>)) p
    ((new_node dflt)\<lparr>lru_val := v, m_lru_next := solve_done\<rparr>)"
  have e: "evict_on_full env others L = Inr (L2, [(k0, v0)])" using full out freed by (simp add: evict_on_full_def)
  have "lru_add env others wakeups dflt L k solve = Inr (L', Some p, True, [(k0, v0)])"
    using search_key(2) [OF ok absent] h(1) c p solving
    by (simp add: lru_add_def e wake_solve_def L'_def Let_def new_node_def del: find_loop.simps)
  moreover have "p \<in> slots L'" "lru_key L' p = k" "lru_val (nd L' p) = v" "q \<in> slots L'" "lru_key L' q = k" "nd L' q = nd L2 q"
    using c p q by (simp_all add: L'_def)
  moreover from this p(4) have "\<not> gh_inv (map_env env) (lru_tab L')"
    by (auto simp: gh_inv_def node_inv_def inj_on_def key_at_def lru_key_def)
  ultimately show ?thesis using p(4) by blast
qed

text \<open>Another thread adds key 9 while an entry is being disposed of for this one.\<close>

definition adds_too :: "(nat, nat) other_threads" where
  "adds_too g L = (if g = Evicting
     then (case lru_add lru_nat_env alone 0 0 L 9 (\<lambda>_ _. (90, True)) of Inr (L', _) \<Rightarrow> L' | Inl _ \<Rightarrow> L)
     else L)"

text \<open>What it leaves: the thread evicting key 1 sees key 9 in slot 1, where key 2 was.\<close>

definition twin_cache :: "(nat, nat) lru_map" where
  "twin_cache = \<lparr>lru_tab = \<lparr>nl_data = [Salt tail, Live (9, (new_node 90)\<lparr>m_lru_next := solve_done\<rparr>), Live (3, idle_node 30 2 2)],
       nl_link = [delmark, tail, tail], bucket = [tail, tail, tail, 2, 1], nBucket = 5, nElem = 3, maxElem = 3, maxload = 3,
       freelist_head = 0, freelist_size = 1, load_factor = 179, is_sorted = False, m_enable_auto_gc = False,
       m_enable_freelist_reuse = True\<rparr>,
     m_lru_head = 2, m_lru_len = 1, m_num_evicting = 0\<rparr>"

lemma twin_cache_left:
  "\<exists>L1. evict_begin lru_nat_env full_cache = Inr (L1, 0, 1, 10) \<and> evict_end lru_nat_env (adds_too Evicting L1) 0 = Inr twin_cache"
  by (simp add: lru_eval full_cache_def adds_too_def twin_cache_def cong: bind_res_weak_cong verify_weak_cong)

lemma twin_cache_slots: "slots twin_cache = {1, 2}"
  by (auto simp: used_def twin_cache_def marks less_Suc_eq numeral_3_eq_3 nth_Cons')

lemma twin_cache_inv: "gh_inv (map_env lru_nat_env) (lru_tab twin_cache)"
proof -
  let ?h = "lru_tab twin_cache" and ?env = "map_env lru_nat_env"
  have d: "deleted ?h = {0}" by (auto simp: deleted_by_used twin_cache_slots) (auto simp: twin_cache_def)
  have k: "key_at ?env ?h 1 = 9" "key_at ?env ?h 2 = 3" by (simp_all add: key_at_def twin_cache_def map_env_def)
  then have hash: "hash_at ?env ?h 1 = 9" "hash_at ?env ?h 2 = 3"
    by (simp_all add: hash_at_def map_env_def lru_nat_env_def)
  have five: "(\<forall>i < length (bucket ?h). Q i) \<longleftrightarrow> Q 0 \<and> Q 1 \<and> Q 2 \<and> Q 3 \<and> Q 4" for Q
    by (auto simp: twin_cache_def All_less_Suc numeral_eq_Suc)
  have sel: "{p \<in> {1, 2}. hash_at ?env ?h p mod length (bucket ?h) = i} = (if i = 3 then {2} else if i = 4 then {1} else {})" for i
  proof -
    have "length (bucket ?h) = 5" by (simp add: twin_cache_def)
    then have "hash_at ?env ?h 1 mod length (bucket ?h) = 4" "hash_at ?env ?h 2 mod length (bucket ?h) = 3" using hash by simp_all
    then show ?thesis by auto
  qed
  have b: "bucket ?h = [tail, tail, tail, 2, 1]" "nl_link ?h = [delmark, tail, tail]" by (simp_all add: twin_cache_def)
  have "index_ok (hash_at ?env ?h) {1, 2} (nl_link ?h) (bucket ?h)"
    unfolding index_ok_def five sel
    by (intro conjI; (rule exI [of _ "[]"], simp add: b; fail)?) (rule exI [of _ "[2]"], simp add: b, rule exI [of _ "[1]"], simp add: b)
  moreover have "free_ok ?h" unfolding free_ok_def d by (intro exI [of _ "[0]"]) (simp add: twin_cache_def)
  moreover have "sizes_ok ?h" by (simp add: sizes_ok_def twin_cache_def delmark_def tail_def)
  moreover have "inj_on (key_at ?env ?h) {1, 2}" using k by (simp add: inj_on_def)
  moreover have "\<forall>p\<in>{1, 2}. is_live (nl_data ?h ! p)" by (simp add: twin_cache_def)
  ultimately show ?thesis
    by (simp add: gh_inv_def node_inv_def twin_cache_slots bucket_inv_def) (simp add: twin_cache_def)
qed

lemma lru_map_key_twice_witness:
  "\<exists>L p. lru_add lru_nat_env adds_too 0 0 full_cache 9 (\<lambda>_ _. (91, True)) = Inr (L, Some p, True, [(1, 10)]) \<and> p \<noteq> 1 \<and>
    p \<in> slots L \<and> lru_key L p = 9 \<and> lru_val (nd L p) = 91 \<and> 1 \<in> slots L \<and> lru_key L 1 = 9 \<and> lru_val (nd L 1) = 90"
proof -
  obtain c where "lru_rep lru_nat_env 3 full_cache c" using run_reaches [OF full_cache_reached] by auto
  then obtain ss where ok: "lru_ok lru_nat_env full_cache ss {}" by (auto simp: lru_rep_def)
  have slots: "slots full_cache = {0, 1, 2}"
    by (auto simp: used_def full_cache_def marks less_Suc_eq numeral_3_eq_3 nth_Cons')
  have full: "gh_size (lru_tab full_cache) = maxElem (lru_tab full_cache)" by (simp add: gh_size_def full_cache_def)
  have absent: "9 \<notin> lru_key full_cache ` slots full_cache" unfolding slots by (simp add: lru_key_def full_cache_def)
  obtain L1 where L1: "evict_begin lru_nat_env full_cache = Inr (L1, 0, 1, 10)"
      "evict_end lru_nat_env (adds_too Evicting L1) 0 = Inr twin_cache"
    using twin_cache_left by blast
  have t: "nElem (lru_tab twin_cache) < 2 ^ 31" "1 \<in> slots twin_cache" "lru_key twin_cache 1 = 9" "lru_val (nd twin_cache 1) = 90"
    using twin_cache_slots by (simp_all add: lru_key_def nd_def twin_cache_def new_node_def)
  have s: "adds_too Solving = (\<lambda>L. L)" by (simp add: adds_too_def fun_eq_iff)
  from lru_map_key_twice [OF ok lru_nat_env_grants full absent L1 twin_cache_inv t(1-3) s, where solve = "\<lambda>_ _. (91, True)" and dflt = 0 and v = 91 and wakeups = 0] t(4)
  show ?thesis by fastforce
qed

end
