(* ===== verification/Lru_Lock.thy ===== *)
theory Lru_Lock
  imports Topling_Prelude
begin

text \<open>
  \<open>LruMapLock::lock\<close> and \<open>unlock\<close> of \<open>src/terark/lru_map.cpp\<close> with the futex, as a machine whose steps are the
  atomic operations on \<open>m_lru_futex\<close> and the system calls, each by one thread; the threads run in any order.

  A failed \<open>compare_exchange_weak\<close> leaves what it read in \<open>Old\<close>; it may also fail although the value is right.
  \<open>FUTEX_WAIT\<close> looks at the value and sleeps in one step, and returns \<open>EAGAIN\<close> if it is another one; \<open>FUTEX_WAKE\<close> wakes
  one sleeping thread, if there is one.  A signal may end a sleep (\<open>EINTR\<close>).  There is one atomic variable, so the
  memory orders do not matter.
\<close>

section \<open>The machine\<close>

text \<open>
  Where a thread is: \<open>Trying\<close> before the exchange of the loop condition, where \<open>Old\<close> is 0, \<open>Marking\<close> before the
  exchange of \<open>Old\<close> by 2, \<open>Going_to_sleep\<close> before \<open>FUTEX_WAIT\<close>; \<open>Inside\<close> between \<open>lock\<close> and \<open>unlock\<close>; in \<open>unlock\<close>,
  \<open>Resetting\<close> before \<open>store(0)\<close> and \<open>Waking\<close> before \<open>FUTEX_WAKE\<close>; \<open>Dead\<close> after a failed \<open>TERARK_VERIFY\<close>.
\<close>

datatype pc = Outside | Trying | Marking nat | Going_to_sleep | Sleeping | Inside | Resetting | Waking | Dead

record 't futex_lock =
  m_lru_futex :: nat
  pcs :: "'t \<Rightarrow> pc"

definition unlocked :: "'t futex_lock" where
  "unlocked = \<lparr>m_lru_futex = 0, pcs = (\<lambda>_. Outside)\<rparr>"

definition move :: "'t futex_lock \<Rightarrow> 't \<Rightarrow> pc \<Rightarrow> 't futex_lock" where
  "move s t c = s\<lparr>pcs := (pcs s)(t := c)\<rparr>"

definition put :: "'t futex_lock \<Rightarrow> nat \<Rightarrow> 't futex_lock" where
  "put s n = s\<lparr>m_lru_futex := n\<rparr>"

inductive lock_step :: "'t \<Rightarrow> 't futex_lock \<Rightarrow> 't futex_lock \<Rightarrow> bool" for t where
  Call: "pcs s t = Outside \<Longrightarrow> lock_step t s (move s t Trying)"
| Locked: "pcs s t = Trying \<Longrightarrow> m_lru_futex s = 0 \<Longrightarrow> lock_step t s (move (put s 1) t Inside)"
| False_fail: "pcs s t = Trying \<Longrightarrow> m_lru_futex s = 0 \<Longrightarrow> lock_step t s s"
| Is_marked: "pcs s t = Trying \<Longrightarrow> m_lru_futex s = 2 \<Longrightarrow> lock_step t s (move s t Going_to_sleep)"
| Is_busy: "pcs s t = Trying \<Longrightarrow> m_lru_futex s = v \<Longrightarrow> v \<noteq> 0 \<Longrightarrow> v \<noteq> 2 \<Longrightarrow> lock_step t s (move s t (Marking v))"
| Marked: "pcs s t = Marking v \<Longrightarrow> m_lru_futex s = v \<Longrightarrow> lock_step t s (move (put s 2) t Going_to_sleep)"
| Not_marked: "pcs s t = Marking v \<Longrightarrow> lock_step t s (move s t Trying)"
| Sleep: "pcs s t = Going_to_sleep \<Longrightarrow> m_lru_futex s = 2 \<Longrightarrow> lock_step t s (move s t Sleeping)"
| Eagain: "pcs s t = Going_to_sleep \<Longrightarrow> m_lru_futex s \<noteq> 2 \<Longrightarrow> lock_step t s (move s t Trying)"
| Unlock: "pcs s t = Inside \<Longrightarrow> m_lru_futex s = 1 \<Longrightarrow> lock_step t s (move (put s 0) t Outside)"
| Unlock_marked: "pcs s t = Inside \<Longrightarrow> m_lru_futex s > 1 \<Longrightarrow> lock_step t s (move (put s (m_lru_futex s - 1)) t Resetting)"
| Verify_failed: "pcs s t = Inside \<Longrightarrow> m_lru_futex s = 0 \<Longrightarrow> lock_step t s (move (put s (2 ^ 32 - 1)) t Dead)"
| Reset: "pcs s t = Resetting \<Longrightarrow> lock_step t s (move (put s 0) t Waking)"
| Wake: "pcs s t = Waking \<Longrightarrow> pcs s u = Sleeping \<Longrightarrow> lock_step t s (move (move s u Trying) t Outside)"
| Wake_nobody: "pcs s t = Waking \<Longrightarrow> \<forall>u. pcs s u \<noteq> Sleeping \<Longrightarrow> lock_step t s (move s t Outside)"

text \<open>A signal.\<close>

inductive eintr :: "'t futex_lock \<Rightarrow> 't futex_lock \<Rightarrow> bool" where
  Eintr: "pcs s t = Sleeping \<Longrightarrow> eintr s (move s t Trying)"

text \<open>The states the threads of \<open>T\<close> can get to.\<close>

inductive lock_reach :: "'t set \<Rightarrow> 't futex_lock \<Rightarrow> bool" for T where
  Start: "lock_reach T unlocked"
| Steps: "lock_reach T s \<Longrightarrow> t \<in> T \<Longrightarrow> lock_step t s s' \<Longrightarrow> lock_reach T s'"
| Signal: "lock_reach T s \<Longrightarrow> eintr s s' \<Longrightarrow> lock_reach T s'"

inductive_cases lock_stepE: "lock_step t s s'"
inductive_cases eintrE: "eintr s s'"

lemma lock_simps [simp]:
  "pcs (move s t c) = (pcs s)(t := c)" "m_lru_futex (move s t c) = m_lru_futex s"
  "pcs (put s n) = pcs s" "m_lru_futex (put s n) = n"
  "pcs unlocked t = Outside" "m_lru_futex unlocked = 0"
  by (simp_all add: move_def put_def unlocked_def)

section \<open>Mutual exclusion\<close>

text \<open>A thread has the lock until it sets the variable to 0.\<close>

definition holds_lock :: "'t futex_lock \<Rightarrow> 't \<Rightarrow> bool" where
  "holds_lock s t \<longleftrightarrow> pcs s t = Inside \<or> pcs s t = Resetting"

definition lock_inv :: "'t futex_lock \<Rightarrow> bool" where
  "lock_inv s \<longleftrightarrow> m_lru_futex s \<le> 2 \<and> (\<forall>t. pcs s t \<noteq> Dead \<and> (\<forall>v. pcs s t = Marking v \<longrightarrow> v = 1)) \<and>
     (\<forall>t u. holds_lock s t \<and> holds_lock s u \<longrightarrow> t = u) \<and> (m_lru_futex s = 0 \<longleftrightarrow> (\<forall>t. \<not> holds_lock s t))"

lemma lock_inv_start: "lock_inv unlocked"
  by (simp add: lock_inv_def holds_lock_def)

lemma holds_move: "holds_lock (move s t c) u \<longleftrightarrow> (if u = t then c = Inside \<or> c = Resetting else holds_lock s u)"
  by (simp add: holds_lock_def)

lemma holds_put: "holds_lock (put s n) u = holds_lock s u"
  by (simp add: holds_lock_def)

lemma not_holding: "pcs s t = c \<Longrightarrow> c \<noteq> Inside \<Longrightarrow> c \<noteq> Resetting \<Longrightarrow> \<not> holds_lock s t"
  by (simp add: holds_lock_def)

lemma holding: "pcs s t = Inside \<or> pcs s t = Resetting \<Longrightarrow> holds_lock s t"
  by (simp add: holds_lock_def)

text \<open>A step that neither touches the variable nor takes or gives up the lock.\<close>

lemma inv_move:
  assumes "lock_inv s" and "\<not> holds_lock s t" and "c \<notin> {Inside, Resetting, Dead}" and "\<forall>v. c = Marking v \<longrightarrow> v = 1"
  shows "lock_inv (move s t c)"
proof -
  have "holds_lock (move s t c) = holds_lock s" using assms(2,3) by (auto simp: fun_eq_iff holds_move)
  moreover have "pcs (move s t c) u \<noteq> Dead \<and> (\<forall>v. pcs (move s t c) u = Marking v \<longrightarrow> v = 1)" for u
    using assms by (cases "u = t") (simp_all add: lock_inv_def)
  ultimately show ?thesis using assms(1) by (simp add: lock_inv_def)
qed

lemma inv_free: "lock_inv s \<Longrightarrow> holds_lock s t \<Longrightarrow> c \<notin> {Inside, Resetting, Dead} \<Longrightarrow> (\<forall>v. c \<noteq> Marking v) \<Longrightarrow>
    lock_inv (move (put s 0) t c)"
  unfolding lock_inv_def holds_move holds_put by auto

lemma lock_step_inv:
  assumes "lock_step t s s'" and "lock_inv s"
  shows "lock_inv s'"
  using assms(1)
proof cases
  case Locked
  with assms(2) show ?thesis unfolding lock_inv_def by (auto simp: holds_move holds_put holds_lock_def)
next
  case (Is_busy v)
  then have "v = 1" using assms(2) by (auto simp: lock_inv_def)
  with Is_busy show ?thesis using assms(2) by (auto intro!: inv_move simp: not_holding)
next
  case (Marked v)
  then have v: "v = 1" using assms(2) by (simp add: lock_inv_def)
  have "lock_inv (put s 2)" using Marked(3) assms(2) v unfolding lock_inv_def holds_put by auto
  moreover have "\<not> holds_lock (put s 2) t" using Marked(2) by (simp add: holds_lock_def)
  ultimately show ?thesis unfolding Marked(1) by (intro inv_move) auto
next
  case Unlock
  with assms(2) show ?thesis by (auto intro!: inv_free holding)
next
  case Unlock_marked
  then have "m_lru_futex s = 2" using assms(2) by (simp add: lock_inv_def)
  with Unlock_marked assms(2) show ?thesis unfolding lock_inv_def
    by (auto simp: holds_move holds_put holding split: if_splits)
next
  case Verify_failed
  then have "holds_lock s t" by (simp add: holding)
  with Verify_failed assms(2) show ?thesis unfolding lock_inv_def by blast
next
  case Reset
  with assms(2) show ?thesis by (auto intro!: inv_free holding)
next
  case (Wake u)
  then have "t \<noteq> u" by auto
  with Wake show ?thesis using assms(2) by (auto intro!: inv_move simp: holds_move not_holding)
qed (use assms(2) in \<open>auto intro!: inv_move simp: not_holding\<close>)

lemma lock_reach_inv: "lock_reach T s \<Longrightarrow> lock_inv s"
proof (induction rule: lock_reach.induct)
  case (Signal s s')
  then show ?case by (auto elim!: eintrE intro!: inv_move simp: not_holding)
qed (use lock_inv_start lock_step_inv in auto)

text \<open>C21: the futex lock of \<open>LruMapLock\<close> excludes: whatever any number of threads do, in whatever order, with spurious
  failures and signals, never do two threads have the lock, no check of \<open>unlock\<close> fails, the variable is 0, 1 or 2, and
  it is 0 exactly when nobody has the lock.\<close>

theorem futex_lock_excludes:
  assumes "lock_reach T s"
  shows "(\<forall>t u. holds_lock s t \<and> holds_lock s u \<longrightarrow> t = u) \<and> (\<forall>t. pcs s t \<noteq> Dead) \<and> m_lru_futex s \<le> 2 \<and>
    (m_lru_futex s = 0 \<longleftrightarrow> (\<forall>t. \<not> holds_lock s t))"
  using lock_reach_inv [OF assms] by (simp add: lock_inv_def)

section \<open>Wakeups\<close>

text \<open>With two threads a sleeping one is woken: the other one has the lock and sees the mark, or is on its way.\<close>

definition will_wake :: "'t \<Rightarrow> 't \<Rightarrow> 't futex_lock \<Rightarrow> bool" where
  "will_wake t u s \<longleftrightarrow> (pcs s t = Sleeping \<longrightarrow>
     pcs s u = Inside \<and> m_lru_futex s = 2 \<or> pcs s u = Resetting \<or> pcs s u = Waking)"

lemma holder_is_other:
  assumes "lock_inv s" and "m_lru_futex s \<noteq> 0" and "\<not> holds_lock s t" and "\<forall>v. v \<notin> {t, u} \<longrightarrow> pcs s v = Outside"
  shows "holds_lock s u"
proof -
  obtain v where "holds_lock s v" using assms(1,2) by (auto simp: lock_inv_def)
  then show ?thesis using assms(3,4) by (metis insertCI insertE not_holding pc.distinct(9,11) singletonD)
qed

definition two_inv :: "'t \<Rightarrow> 't \<Rightarrow> 't futex_lock \<Rightarrow> bool" where
  "two_inv t u s \<longleftrightarrow> lock_inv s \<and> (\<forall>v. v \<notin> {t, u} \<longrightarrow> pcs s v = Outside) \<and> will_wake t u s \<and> will_wake u t s"

lemma outside_step:
  assumes "lock_step w s s'" and "w \<in> W" and "\<forall>v. v \<notin> W \<longrightarrow> pcs s v = Outside"
  shows "\<forall>v. v \<notin> W \<longrightarrow> pcs s' v = Outside"
  using assms(1) by cases (use assms(2,3) in \<open>force+\<close>)

text \<open>A step of the one that may sleep.\<close>

lemma sleeper_step:
  assumes step: "lock_step t s s'" and inv: "lock_inv s" "\<forall>v. v \<notin> {t, u} \<longrightarrow> pcs s v = Outside"
  shows "will_wake t u s'"
  using step
proof cases
  case Sleep
  then have "holds_lock s u" by (intro holder_is_other [OF inv(1) _ _ inv(2)]) (simp_all add: not_holding)
  with Sleep show ?thesis by (auto simp: will_wake_def holds_lock_def)
next
  case False_fail
  then show ?thesis by (simp add: will_wake_def)
qed (auto simp: will_wake_def)

text \<open>A step of the one that wakes it.\<close>

lemma waker_step:
  assumes step: "lock_step u s s'" and "t \<noteq> u" and "will_wake t u s" and out: "\<forall>v. v \<notin> {t, u} \<longrightarrow> pcs s v = Outside"
  shows "will_wake t u s'"
proof (cases "pcs s t = Sleeping")
  case True
  then have w: "pcs s u = Inside \<and> m_lru_futex s = 2 \<or> pcs s u = Resetting \<or> pcs s u = Waking" using assms(3) by (simp add: will_wake_def)
  from step show ?thesis
  proof cases
    case (Wake v)
    have "v \<in> {t, u}" by (rule ccontr) (use out Wake in auto)
    moreover have "v \<noteq> u" using Wake by auto
    ultimately have "v = t" by blast
    with Wake assms(2) show ?thesis by (simp add: will_wake_def)
  next
    case Wake_nobody
    with True show ?thesis by blast
  qed (use w assms(2) in \<open>auto simp: will_wake_def\<close>)
next
  case False
  with step assms(2) have "pcs s' t \<noteq> Sleeping" by cases (auto split: if_splits)
  then show ?thesis by (simp add: will_wake_def)
qed

lemma two_inv_reach:
  assumes "lock_reach {t, u} s" and "t \<noteq> u"
  shows "two_inv t u s"
  using assms
proof (induction rule: lock_reach.induct)
  case Start
  then show ?case by (simp add: two_inv_def lock_inv_start will_wake_def)
next
  case (Steps s w s')
  then have i: "lock_inv s" "\<forall>v. v \<notin> {t, u} \<longrightarrow> pcs s v = Outside" "will_wake t u s" "will_wake u t s"
    by (simp_all add: two_inv_def)
  have o: "\<forall>v. v \<notin> {u, t} \<longrightarrow> pcs s v = Outside" using i(2) by blast
  have "will_wake t u s' \<and> will_wake u t s'"
  proof (cases "w = t")
    case True
    with sleeper_step [of t s s' u] waker_step [of t s s' u] Steps i o show ?thesis by blast
  next
    case False
    with sleeper_step [of u s s' t] waker_step [of u s s' t] Steps i o show ?thesis by blast
  qed
  moreover have "\<forall>v. v \<notin> {t, u} \<longrightarrow> pcs s' v = Outside" by (rule outside_step [OF Steps.hyps(3,2) i(2)])
  ultimately show ?case using lock_step_inv [OF Steps.hyps(3) i(1)] unfolding two_inv_def by blast
next
  case (Signal s s')
  then have i: "two_inv t u s" by simp
  from Signal.hyps(2) obtain w where w: "pcs s w = Sleeping" "s' = move s w Trying" by (auto elim: eintrE)
  then have "lock_inv s'" using i by (auto simp: two_inv_def intro!: inv_move dest: not_holding)
  with i w show ?case by (auto simp: two_inv_def will_wake_def)
qed

text \<open>A thread asleep beside a free lock.\<close>

definition sleeper :: "'t \<Rightarrow> 't futex_lock" where
  "sleeper t = \<lparr>m_lru_futex = 0, pcs = (\<lambda>_. Outside)(t := Sleeping)\<rparr>"

lemma others_pass:
  assumes "(lock_step u)\<^sup>*\<^sup>* (sleeper t) s" and "t \<noteq> u"
  shows "pcs s t = Sleeping \<and> (\<forall>v. v \<noteq> t \<and> v \<noteq> u \<longrightarrow> pcs s v = Outside) \<and>
    (pcs s u \<in> {Outside, Trying} \<and> m_lru_futex s = 0 \<or> pcs s u = Inside \<and> m_lru_futex s = 1)"
  using assms(1)
proof (induction rule: rtranclp_induct)
  case base
  with assms(2) show ?case by (simp add: sleeper_def)
next
  case (step s s')
  from step(2) show ?case by cases (use step(3) assms(2) in auto)
qed

lemma lock_reach_mono: "lock_reach T s \<Longrightarrow> T \<subseteq> T' \<Longrightarrow> lock_reach T' s"
  by (induction rule: lock_reach.induct) (auto intro: lock_reach.intros)

text \<open>Thread 0 has the lock, thread 1 waits.\<close>

definition one_waits :: "nat futex_lock" where
  "one_waits = \<lparr>m_lru_futex = 2, pcs = (\<lambda>_. Outside)(0 := Inside, 1 := Sleeping)\<rparr>"

lemma one_waits_reached: "lock_reach {0, 1} one_waits"
proof -
  let ?T = "{0, 1 :: nat}"
  have r0: "lock_reach ?T unlocked" by (rule Start)
  let ?s1 = "move unlocked (0 :: nat) Trying"
  have r1: "lock_reach ?T ?s1" by (rule Steps [OF r0, of 0], simp, rule Call, simp)
  let ?s2 = "move (put ?s1 1) 0 Inside"
  have r2: "lock_reach ?T ?s2" by (rule Steps [OF r1, of 0], simp, rule Locked, simp_all)
  let ?s3 = "move ?s2 1 Trying"
  have r3: "lock_reach ?T ?s3" by (rule Steps [OF r2, of 1], simp, rule Call, simp)
  let ?s4 = "move ?s3 1 (Marking 1)"
  have r4: "lock_reach ?T ?s4" by (rule Steps [OF r3, of 1], simp, rule Is_busy, simp_all)
  let ?s5 = "move (put ?s4 2) 1 Going_to_sleep"
  have r5: "lock_reach ?T ?s5" by (rule Steps [OF r4, of 1], simp, rule Marked, simp_all)
  have "lock_reach ?T (move ?s5 1 Sleeping)" by (rule Steps [OF r5, of 1], simp, rule Sleep, simp_all)
  moreover have "move ?s5 1 Sleeping = one_waits" by (simp add: move_def put_def unlocked_def one_waits_def fun_eq_iff)
  ultimately show ?thesis by simp
qed

lemma lost_wakeup: "lock_reach {0, 1, 2} (sleeper (2 :: nat))"
proof -
  let ?T = "{0, 1, 2 :: nat}"
  let ?s6 = one_waits
  have r6: "lock_reach ?T ?s6" by (rule lock_reach_mono [OF one_waits_reached]) simp
  have w: "pcs one_waits = (\<lambda>_. Outside)(0 := Inside, 1 := Sleeping)" "m_lru_futex one_waits = 2" by (simp_all add: one_waits_def)
  let ?s7 = "move ?s6 2 Trying"
  have r7: "lock_reach ?T ?s7" by (rule Steps [OF r6, of 2], simp, rule Call, simp add: w)
  let ?s8 = "move ?s7 2 Going_to_sleep"
  have r8: "lock_reach ?T ?s8" by (rule Steps [OF r7, of 2], simp, rule Is_marked, simp_all add: w)
  let ?s9 = "move ?s8 2 Sleeping"
  have r9: "lock_reach ?T ?s9" by (rule Steps [OF r8, of 2], simp, rule Sleep, simp_all add: w)
  let ?s10 = "move (put ?s9 1) 0 Resetting"
  have "lock_step 0 ?s9 (move (put ?s9 (m_lru_futex ?s9 - 1)) 0 Resetting)" by (rule Unlock_marked) (simp_all add: w)
  then have "lock_step 0 ?s9 ?s10" by (simp add: w)
  with r9 have r10: "lock_reach ?T ?s10" by (rule_tac Steps [of _ _ 0]) simp_all
  let ?s11 = "move (put ?s10 0) 0 Waking"
  have r11: "lock_reach ?T ?s11" by (rule Steps [OF r10, of 0], simp, rule Reset, simp add: w)
  let ?s12 = "move (move ?s11 1 Trying) 0 Outside"
  have r12: "lock_reach ?T ?s12" by (rule Steps [OF r11, of 0], simp, rule Wake, simp_all add: w)
  let ?s13 = "move (put ?s12 1) 1 Inside"
  have r13: "lock_reach ?T ?s13" by (rule Steps [OF r12, of 1], simp, rule Locked, simp_all add: w)
  let ?s14 = "move (put ?s13 0) 1 Outside"
  have "lock_reach ?T ?s14" by (rule Steps [OF r13, of 1], simp, rule Unlock, simp_all add: w)
  moreover have "?s14 = sleeper 2" by (simp add: move_def put_def one_waits_def sleeper_def fun_eq_iff)
  ultimately show ?thesis by simp
qed

lemma futex_lock_excludes_witness: "m_lru_futex one_waits = 2 \<and> holds_lock one_waits 0 \<and> \<not> holds_lock one_waits 1"
proof -
  have "holds_lock one_waits 0" by (simp add: holds_lock_def one_waits_def)
  moreover have "m_lru_futex one_waits = 2" by (simp add: one_waits_def)
  ultimately show ?thesis using futex_lock_excludes [OF one_waits_reached] by (metis zero_neq_one)
qed

text \<open>C32: wakeups of the futex lock.  Between two threads none is lost: when one sleeps, the other has the lock
  with the waiter's mark on it, or is just releasing it and will wake somebody.  Among three threads one can be lost, as a
  comment in the code fears: the thread that was woken takes the lock without the mark and its \<open>unlock\<close> wakes
  nobody, so the third one sleeps although the lock is free and nobody else is there, and it keeps sleeping however
  often some other thread takes and releases the lock.\<close>

theorem futex_lock_wakeups:
  "(\<forall>(t :: 't) u s. t \<noteq> u \<and> lock_reach {t, u} s \<and> pcs s t = Sleeping \<longrightarrow>
      pcs s u = Inside \<and> m_lru_futex s = 2 \<or> pcs s u = Resetting \<or> pcs s u = Waking) \<and>
   (\<exists>s. lock_reach {0, 1, 2 :: nat} s \<and> m_lru_futex s = 0 \<and> pcs s 2 = Sleeping \<and> (\<forall>u. u \<noteq> 2 \<longrightarrow> pcs s u = Outside) \<and>
      (\<forall>u s'. u \<noteq> 2 \<and> (lock_step u)\<^sup>*\<^sup>* s s' \<longrightarrow> pcs s' 2 = Sleeping))"
proof (intro conjI allI impI)
  fix t u :: 't and s
  assume a: "t \<noteq> u \<and> lock_reach {t, u} s \<and> pcs s t = Sleeping"
  have "two_inv t u s" by (rule two_inv_reach) (use a in simp_all)
  then have "will_wake t u s" unfolding two_inv_def by blast
  with a show "pcs s u = Inside \<and> m_lru_futex s = 2 \<or> pcs s u = Resetting \<or> pcs s u = Waking"
    unfolding will_wake_def by blast
next
  show "\<exists>s. lock_reach {0, 1, 2 :: nat} s \<and> m_lru_futex s = 0 \<and> pcs s 2 = Sleeping \<and> (\<forall>u. u \<noteq> 2 \<longrightarrow> pcs s u = Outside) \<and>
      (\<forall>u s'. u \<noteq> 2 \<and> (lock_step u)\<^sup>*\<^sup>* s s' \<longrightarrow> pcs s' 2 = Sleeping)"
  proof (intro exI [of _ "sleeper 2"] conjI allI impI)
    show "lock_reach {0, 1, 2 :: nat} (sleeper 2)" by (rule lost_wakeup)
    fix u s'
    assume "u \<noteq> 2 \<and> (lock_step u)\<^sup>*\<^sup>* (sleeper (2 :: nat)) s'"
    with others_pass [of u 2 s'] show "pcs s' 2 = Sleeping" by auto
  qed (simp_all add: sleeper_def)
qed

lemma futex_lock_wakeups_witness: "pcs one_waits 0 = Inside \<and> m_lru_futex one_waits = 2 \<or> pcs one_waits 0 = Resetting \<or> pcs one_waits 0 = Waking"
proof -
  have "lock_reach {1, 0} one_waits" using one_waits_reached by (simp only: insert_commute)
  moreover have "pcs one_waits 1 = Sleeping" by (simp add: one_waits_def)
  ultimately show ?thesis using conjunct1 [OF futex_lock_wakeups [where ?'t = nat]] by (metis zero_neq_one)
qed

end
