(* ===== verification/Le_Bytes.thy ===== *)
theory Le_Bytes
  imports Topling_Prelude
begin

text \<open>A number in memory as its bytes, the least significant one first.\<close>

fun load_le :: "u8 list \<Rightarrow> nat" where
  "load_le [] = 0"
| "load_le (b # bs) = unat b + 256 * load_le bs"

fun store_le :: "nat \<Rightarrow> nat \<Rightarrow> u8 list" where
  "store_le 0 x = []"
| "store_le (Suc k) x = of_nat x # store_le k (x div 256)"

lemma length_store_le [simp]: "length (store_le k x) = k"
  by (induction k arbitrary: x) auto

lemma load_store_le [simp]: "load_le (store_le k x) = x mod 256 ^ k"
proof (induction k arbitrary: x)
  case (Suc k)
  have "unat (of_nat x :: u8) = x mod 256" by (simp add: unat_of_nat)
  with Suc mod_mult2_eq [of x 256 "256 ^ k"] show ?case by simp
qed simp

lemma pow256: "256 ^ k = (2::nat) ^ (8 * k)"
  by (simp add: power_mult)

lemma take_store_le: "take j (store_le k x) = store_le (min j k) x"
  by (induction k arbitrary: j x) (auto simp: take_Cons min_def split: nat.split)

end
