(* ===== verification/Mempool.thy ===== *)
theory Mempool
  imports Valvec Le_Bytes
begin

text \<open>
  The memory pools \<open>MemPool_LockNone\<close> of \<open>src/terark/mempool_lock_none.hpp\<close> and \<open>MemPool_FixedCap\<close> of
  \<open>mempool_fixed_cap.hpp\<close>, which differ in \<open>alloc\<close> and \<open>alloc3\<close> only.

  A pool is a vector of bytes; a block is the offset of its first byte.  Freed blocks of a size up to
  \<open>free_list_len * AlignSize\<close> are in a singly linked list for that size, the link in the first bytes of the block;
  larger ones are in one skip list, ordered by size, whose nodes are written into the blocks.  A block at the end of
  the used bytes is given back by making them fewer.

  The model is the build with assertions, which also overwrites what is freed.  Memory is bytes that were written
  or not; reading a link or a size from bytes that were not is \<open>Undefined\<close>.  A reference \<open>at<T>(pos)\<close> is its
  offset, and \<open>p\<close> may move only between uses.  A counter of type \<open>size_t\<close> wraps at \<open>2 ^ 64\<close>, one of type
  \<open>link_size_t\<close> at its width.
\<close>

section \<open>State\<close>

text \<open>\<open>rand_r\<close> of the C library: from a seed a number and the next seed.\<close>

record mp_env =
  AlignSize :: nat
  bytes_granted :: "nat \<Rightarrow> bool"
  heads_granted :: "nat \<Rightarrow> bool"
  rand_r :: "nat \<Rightarrow> nat \<times> nat"

definition byte_env :: "mp_env \<Rightarrow> u8 vv_env" where
  "byte_env env = \<lparr>trivial_destructor = True, trivial_copy = True, default_cons = 0, grant = bytes_granted env,
     size_field = (\<lambda>x. x)\<rparr>"

text \<open>\<open>sizeof(link_size_t)\<close>.\<close>

definition link_bytes :: "mp_env \<Rightarrow> nat" where
  "link_bytes env = (if AlignSize env = 4 then 4 else 8)"

definition offset_shift :: "mp_env \<Rightarrow> nat" where
  "offset_shift env = (if AlignSize env = 4 then 2 else 0)"

definition list_tail :: "mp_env \<Rightarrow> nat" where
  "list_tail env = 2 ^ (8 * link_bytes env) - 1"

definition skip_list_level_max :: nat where
  "skip_list_level_max = 8"

text \<open>A value stored in a \<open>link_size_t\<close>; the offset that a link stands for, and back.\<close>

definition link_size :: "mp_env \<Rightarrow> nat \<Rightarrow> nat" where
  "link_size env x = x mod 2 ^ (8 * link_bytes env)"

definition link_pos :: "mp_env \<Rightarrow> nat \<Rightarrow> nat" where
  "link_pos env x = x * 2 ^ offset_shift env"

definition pos_link :: "mp_env \<Rightarrow> nat \<Rightarrow> nat" where
  "pos_link env pos = pos div 2 ^ offset_shift env"

text \<open>\<open>+=\<close> and \<open>-=\<close> of a \<open>size_t\<close>.\<close>

definition add64 :: "nat \<Rightarrow> nat \<Rightarrow> nat" where
  "add64 x y = (x + y) mod 2 ^ 64"

definition sub64 :: "nat \<Rightarrow> nat \<Rightarrow> nat" where
  "sub64 x y = (x + (2 ^ 64 - y mod 2 ^ 64)) mod 2 ^ 64"

record huge_link =
  huge_size :: nat
  huge_next :: "nat list"

definition sizeof_huge_link :: "mp_env \<Rightarrow> nat" where
  "sizeof_huge_link env = (1 + skip_list_level_max) * link_bytes env"

record head_t =
  head :: nat
  cnt :: nat

definition new_head :: "mp_env \<Rightarrow> head_t" where
  "new_head env = \<lparr>head = list_tail env, cnt = 0\<rparr>"

definition empty_huge_list :: "mp_env \<Rightarrow> huge_link" where
  "empty_huge_list env = \<lparr>huge_size = 0, huge_next = replicate skip_list_level_max (list_tail env)\<rparr>"

text \<open>\<open>free_list_arr\<close> is \<open>None\<close> where the pointer is \<open>NULL\<close>.\<close>

record mempool =
  mp_mem :: "u8 valvec"
  fragment_size :: nat
  huge_size_sum :: nat
  huge_node_cnt :: nat
  huge_list :: huge_link
  free_list_arr :: "head_t list option"
  free_list_len :: nat
  m_rand_seed :: nat

definition clear_free_list :: "mp_env \<Rightarrow> mempool \<Rightarrow> mempool" where
  "clear_free_list env P = P\<lparr>free_list_arr := None, free_list_len := 0, fragment_size := 0, huge_size_sum := 0,
     huge_node_cnt := 0, huge_list := empty_huge_list env\<rparr>"

definition destroy_and_clean :: "mp_env \<Rightarrow> mempool \<Rightarrow> mempool res" where
  "destroy_and_clean env P =
     bind_res (vv_clear (byte_env env) (mp_mem P)) (\<lambda>v. Inr (clear_free_list env (P\<lparr>mp_mem := v\<rparr>)))"

definition mp_align_to :: "mp_env \<Rightarrow> nat \<Rightarrow> nat" where
  "mp_align_to env len = align_up len (AlignSize env)"

definition mp_construct :: "mp_env \<Rightarrow> nat \<Rightarrow> mempool res" where
  "mp_construct env maxBlockSize =
     verify (maxBlockSize \<ge> AlignSize env) (verify (maxBlockSize \<ge> sizeof_huge_link env)
       (let len = mp_align_to env maxBlockSize div AlignSize env in
        if heads_granted env len then
          Inr \<lparr>mp_mem = vv_new, fragment_size = 0, huge_size_sum = 0, huge_node_cnt = 0, huge_list = empty_huge_list env,
            free_list_arr = Some (replicate len (new_head env)), free_list_len = len, m_rand_seed = 1\<rparr>
        else Inl Bad_alloc))"

text \<open>The bytes of another vector, copied whether they were written or not.\<close>

definition copy_bytes :: "mp_env \<Rightarrow> u8 valvec \<Rightarrow> u8 valvec res" where
  "copy_bytes env y =
     (if vv_n y \<noteq> 0 then
        verify (bytes_granted env (vv_n y))
          (Inr \<lparr>vv_p = take (vv_n y) (vv_p y), vv_null = False, vv_n = vv_n y, vv_c = vv_n y\<rparr>)
      else Inr vv_new)"

definition mp_copy :: "mp_env \<Rightarrow> mempool \<Rightarrow> mempool res" where
  "mp_copy env y =
     bind_res (copy_bytes env (mp_mem y)) (\<lambda>v.
       if heads_granted env (free_list_len y) then
         Inr \<lparr>mp_mem = v, fragment_size = fragment_size y, huge_size_sum = huge_size_sum y, huge_node_cnt = huge_node_cnt y,
           huge_list = huge_list y,
           free_list_arr = Some (case free_list_arr y of Some arr \<Rightarrow> take (free_list_len y) arr | None \<Rightarrow> []),
           free_list_len = free_list_len y, m_rand_seed = 1\<rparr>
       else Inl Bad_alloc)"

text \<open>Both pools, after; the seeds stay where they are.\<close>

definition mp_swap :: "mempool \<times> mempool \<Rightarrow> mempool \<times> mempool" where
  "mp_swap = (\<lambda>(x, y). (y\<lparr>m_rand_seed := m_rand_seed x\<rparr>, x\<lparr>m_rand_seed := m_rand_seed y\<rparr>))"

definition mp_copy_assign :: "mp_env \<Rightarrow> bool \<Rightarrow> mempool \<Rightarrow> mempool \<Rightarrow> mempool res" where
  "mp_copy_assign env same_object x y =
     (if same_object then Inr x
      else bind_res (destroy_and_clean env x) (\<lambda>x. bind_res (mp_copy env y) (\<lambda>z. Inr (snd (mp_swap (z, x))))))"

text \<open>
  The constructor from \<open>MemPool&& y\<close>: the initializer \<open>mem(y)\<close> names \<open>y\<close>, so it is the copy constructor of the
  vector, and the assertions are on what \<open>y\<close> still has.  The new pool and what is left of \<open>y\<close>.
\<close>

definition mp_move :: "mp_env \<Rightarrow> mempool \<Rightarrow> (mempool \<times> mempool) res" where
  "mp_move env y =
     bind_res (copy_bytes env (mp_mem y)) (\<lambda>v. verify (vv_null (mp_mem y)) (verify (vv_n (mp_mem y) = 0)
       (Inr (y\<lparr>mp_mem := v, m_rand_seed := 1\<rparr>, clear_free_list env y))))"

text \<open>Assignment from \<open>MemPool&& y\<close>: \<open>MemPool(y)\<close> is the copy constructor again, which may not throw here.\<close>

definition mp_move_assign :: "mp_env \<Rightarrow> bool \<Rightarrow> mempool \<Rightarrow> mempool \<Rightarrow> (mempool \<times> mempool) res" where
  "mp_move_assign env same_object x y =
     (if same_object then Inr (x, x)
      else bind_res (vv_destructor (byte_env env) (mp_mem x)) (\<lambda>_.
        case mp_copy env y of Inl e \<Rightarrow> Inl Abort | Inr z \<Rightarrow> Inr (z, y)))"

definition get_fastbin :: "mempool \<Rightarrow> nat list res" where
  "get_fastbin P = (case free_list_arr P of
     Some arr \<Rightarrow> if free_list_len P \<le> length arr then Inr (map cnt (take (free_list_len P) arr)) else Inl Undefined
   | None \<Rightarrow> if free_list_len P = 0 then Inr [] else Inl Undefined)"

text \<open>Number and total size.\<close>

definition get_huge_stat :: "mempool \<Rightarrow> nat \<times> nat" where
  "get_huge_stat P = (huge_node_cnt P, huge_size_sum P)"

definition frag_size :: "mempool \<Rightarrow> nat" where
  "frag_size P = fragment_size P"

definition mp_risk_set_data :: "mp_env \<Rightarrow> mempool \<Rightarrow> u8 option list \<Rightarrow> mempool res" where
  "mp_risk_set_data env P bytes =
     verify (vv_null (mp_mem P)) (verify (0 = vv_n (mp_mem P)) (verify (0 = vv_c (mp_mem P))
       (Inr (clear_free_list env (P\<lparr>mp_mem := risk_set_data bytes\<rparr>)))))"

definition byte_at :: "mempool \<Rightarrow> nat \<Rightarrow> u8 res" where
  "byte_at P pos = verify (pos < vv_n (mp_mem P)) (read_cell (mp_mem P) pos)"

text \<open>What \<open>clear\<close> and \<open>erase_all\<close> begin with: every list is empty.\<close>

definition reset_lists :: "mp_env \<Rightarrow> mempool \<Rightarrow> mempool" where
  "reset_lists env P = P\<lparr>huge_list := empty_huge_list env, fragment_size := 0, huge_size_sum := 0, huge_node_cnt := 0,
     free_list_arr := map_option (\<lambda>arr. replicate (free_list_len P) (new_head env) @ drop (free_list_len P) arr) (free_list_arr P)\<rparr>"

definition mp_clear :: "mp_env \<Rightarrow> mempool \<Rightarrow> mempool res" where
  "mp_clear env P =
     (let P = reset_lists env P in bind_res (vv_clear (byte_env env) (mp_mem P)) (\<lambda>v. Inr (P\<lparr>mp_mem := v\<rparr>)))"

definition mp_erase_all :: "mp_env \<Rightarrow> mempool \<Rightarrow> mempool res" where
  "mp_erase_all env P =
     (let P = reset_lists env P in bind_res (vv_erase_all (byte_env env) (mp_mem P)) (\<lambda>v. Inr (P\<lparr>mp_mem := v\<rparr>)))"

definition mp_resize_no_init :: "mp_env \<Rightarrow> mempool \<Rightarrow> nat \<Rightarrow> mempool res" where
  "mp_resize_no_init env P newsize =
     verify (newsize mod AlignSize env = 0) (verify (newsize \<ge> vv_n (mp_mem P))
       (bind_res (vv_resize_no_init (byte_env env) (mp_mem P) newsize) (\<lambda>v. Inr (P\<lparr>mp_mem := v\<rparr>))))"

definition mp_shrink_to_fit :: "mp_env \<Rightarrow> mempool \<Rightarrow> mempool res" where
  "mp_shrink_to_fit env P = bind_res (vv_shrink_to_fit (byte_env env) (mp_mem P)) (\<lambda>v. Inr (P\<lparr>mp_mem := v\<rparr>))"

definition mp_reserve :: "mp_env \<Rightarrow> mempool \<Rightarrow> nat \<Rightarrow> mempool res" where
  "mp_reserve env P cap = bind_res (vv_reserve (byte_env env) (mp_mem P) cap) (\<lambda>v. Inr (P\<lparr>mp_mem := v\<rparr>))"

section \<open>Links in memory\<close>

text \<open>A \<open>link_size_t\<close> at an offset, read and written.\<close>

definition load_link :: "mp_env \<Rightarrow> mempool \<Rightarrow> nat \<Rightarrow> nat res" where
  "load_link env P pos =
     (let cs = take (link_bytes env) (drop pos (vv_p (mp_mem P))) in
      if length cs = link_bytes env \<and> list_all (\<lambda>c. c \<noteq> None) cs then Inr (load_le (map the cs)) else Inl Undefined)"

definition write_bytes :: "mempool \<Rightarrow> nat \<Rightarrow> u8 list \<Rightarrow> mempool res" where
  "write_bytes P pos bs = bind_res (construct_at (mp_mem P) pos bs) (\<lambda>v. Inr (P\<lparr>mp_mem := v\<rparr>))"

definition store_link :: "mp_env \<Rightarrow> mempool \<Rightarrow> nat \<Rightarrow> nat \<Rightarrow> mempool res" where
  "store_link env P pos x = write_bytes P pos (store_le (link_bytes env) x)"

text \<open>\<open>at<T>(pos)\<close>.\<close>

definition mp_at :: "mempool \<Rightarrow> nat \<Rightarrow> nat res" where
  "mp_at P pos = verify (pos < vv_n (mp_mem P)) (Inr pos)"

text \<open>A \<open>huge_link_t*\<close>: to the head of the skip list or to a node in memory; \<open>next[k]\<close> behind it.\<close>

datatype huge_ptr = Huge_list | Node nat

fun get_next :: "mp_env \<Rightarrow> mempool \<Rightarrow> huge_ptr \<Rightarrow> nat \<Rightarrow> nat res" where
  "get_next env P Huge_list k =
     (if k < length (huge_next (huge_list P)) then Inr (huge_next (huge_list P) ! k) else Inl Undefined)"
| "get_next env P (Node pos) k = load_link env P (pos + (1 + k) * link_bytes env)"

fun set_next :: "mp_env \<Rightarrow> mempool \<Rightarrow> huge_ptr \<Rightarrow> nat \<Rightarrow> nat \<Rightarrow> mempool res" where
  "set_next env P Huge_list k x =
     (if k < length (huge_next (huge_list P))
      then Inr (P\<lparr>huge_list := (huge_list P)\<lparr>huge_next := (huge_next (huge_list P))[k := link_size env x]\<rparr>\<rparr>)
      else Inl Undefined)"
| "set_next env P (Node pos) k x = store_link env P (pos + (1 + k) * link_bytes env) x"

section \<open>Searching the skip list\<close>

text \<open>
  The walk along level \<open>k\<close>, from \<open>n1\<close> on, over the nodes that are too small.  Each node is at another offset, so more steps
  than bytes are a walk that has been somewhere twice.
\<close>

fun search_level ::
  "mp_env \<Rightarrow> mempool \<Rightarrow> nat \<Rightarrow> nat \<Rightarrow> nat \<Rightarrow> huge_ptr \<Rightarrow> nat option \<Rightarrow> (huge_ptr \<times> nat option) res" where
  "search_level env P request k 0 n1 n2 = Inl Endless"
| "search_level env P request k (Suc fuel) n1 n2 =
     bind_res (get_next env P n1 k) (\<lambda>x.
       if x = list_tail env then Inr (n1, n2)
       else bind_res (mp_at P (link_pos env x)) (\<lambda>pos. bind_res (load_link env P pos) (\<lambda>size.
         if size < request then search_level env P request k fuel (Node pos) (Some pos) else Inr (n1, Some pos))))"

text \<open>All levels from the top, with the array \<open>update\<close>.\<close>

fun search_levels ::
  "mp_env \<Rightarrow> mempool \<Rightarrow> nat \<Rightarrow> nat \<Rightarrow> huge_ptr \<Rightarrow> nat option \<Rightarrow> huge_ptr option list \<Rightarrow>
    (nat option \<times> huge_ptr option list) res" where
  "search_levels env P request 0 n1 n2 update = Inr (n2, update)"
| "search_levels env P request (Suc k) n1 n2 update =
     bind_res (search_level env P request k (Suc (vv_n (mp_mem P))) n1 n2) (\<lambda>(n1, n2).
       if k < length update then search_levels env P request k n1 n2 (update[k := Some n1]) else Inl Undefined)"

definition search_huge :: "mp_env \<Rightarrow> mempool \<Rightarrow> nat \<Rightarrow> (nat option \<times> huge_ptr option list) res" where
  "search_huge env P request =
     search_levels env P request (huge_size (huge_list P)) Huge_list None (replicate skip_list_level_max None)"

definition read_update :: "huge_ptr option list \<Rightarrow> nat \<Rightarrow> huge_ptr res" where
  "read_update update k =
     (if k < length update then (case update ! k of Some p \<Rightarrow> Inr p | None \<Rightarrow> Inl Undefined) else Inl Undefined)"

section \<open>Freeing\<close>

fun random_level_loop :: "mp_env \<Rightarrow> nat \<Rightarrow> nat \<Rightarrow> nat \<Rightarrow> nat \<times> nat" where
  "random_level_loop env 0 level seed = (level, snd (rand_r env seed))"
| "random_level_loop env (Suc left) level seed =
     (let (r, seed) = rand_r env seed in
      if r mod 4 = 0 then random_level_loop env left (level + 1) seed else (level, seed))"

text \<open>\<open>level\<close> grows from 1 to at most \<open>skip_list_level_max\<close>, where \<open>rand\<close> is called once more.\<close>

definition random_level :: "mp_env \<Rightarrow> mempool \<Rightarrow> nat \<times> mempool" where
  "random_level env P =
     (let (level, seed) = random_level_loop env (skip_list_level_max - 1) 1 (m_rand_seed P) in
      (level - 1, P\<lparr>m_rand_seed := seed\<rparr>))"

text \<open>The node at \<open>pos\<close> goes behind \<open>update[k]\<close> on level \<open>k\<close> and those below.\<close>

fun link_levels :: "mp_env \<Rightarrow> mempool \<Rightarrow> huge_ptr option list \<Rightarrow> nat \<Rightarrow> nat \<Rightarrow> mempool res" where
  "link_levels env P update pos k =
     bind_res (read_update update k) (\<lambda>n1. bind_res (get_next env P n1 k) (\<lambda>x.
       bind_res (set_next env P (Node pos) k x) (\<lambda>P. bind_res (set_next env P n1 k (pos_link env pos)) (\<lambda>P.
         case k of 0 \<Rightarrow> Inr P | Suc k \<Rightarrow> link_levels env P update pos k))))"

text \<open>The level of a new node, with one more level and its \<open>update[k]\<close> where that is above all others.\<close>

definition pick_level :: "mp_env \<Rightarrow> mempool \<Rightarrow> huge_ptr option list \<Rightarrow> nat \<times> mempool \<times> huge_ptr option list" where
  "pick_level env P update =
     (let (k, P) = random_level env P; h = huge_size (huge_list P) in
      if k \<ge> h then (h, P\<lparr>huge_list := (huge_list P)\<lparr>huge_size := h + 1\<rparr>\<rparr>, update[h := Some Huge_list]) else (k, P, update))"

definition free_huge :: "mp_env \<Rightarrow> mempool \<Rightarrow> nat \<Rightarrow> nat \<Rightarrow> mempool res" where
  "free_huge env P pos len =
     verify (len \<ge> sizeof_huge_link env)
       (bind_res (search_huge env P len) (\<lambda>(_, update).
         let (k, P, update) = pick_level env P update in
         bind_res (mp_at P pos) (\<lambda>pos. bind_res (link_levels env P update pos k) (\<lambda>P.
           bind_res (store_link env P pos len) (\<lambda>P.
             Inr (P\<lparr>huge_size_sum := add64 (huge_size_sum P) len, huge_node_cnt := add64 (huge_node_cnt P) 1\<rparr>))))))"

definition get_head :: "mempool \<Rightarrow> nat \<Rightarrow> head_t res" where
  "get_head P idx = (case free_list_arr P of
     Some arr \<Rightarrow> if idx < length arr then Inr (arr ! idx) else Inl Undefined | None \<Rightarrow> Inl Undefined)"

definition set_head :: "mempool \<Rightarrow> nat \<Rightarrow> head_t \<Rightarrow> mempool" where
  "set_head P idx h = P\<lparr>free_list_arr := map_option (\<lambda>arr. arr[idx := h]) (free_list_arr P)\<rparr>"

definition free_fast :: "mp_env \<Rightarrow> mempool \<Rightarrow> nat \<Rightarrow> nat \<Rightarrow> mempool res" where
  "free_fast env P pos len =
     (let idx = len div AlignSize env - 1 in
      bind_res (get_head P idx) (\<lambda>h. bind_res (mp_at P pos) (\<lambda>pos.
        bind_res (store_link env P pos (head h)) (\<lambda>P.
          bind_res (write_bytes P (pos + link_bytes env) (replicate (len - link_bytes env) 0xDD)) (\<lambda>P.
            Inr (set_head P idx \<lparr>head = link_size env (pos_link env pos), cnt = link_size env (cnt h + 1)\<rparr>))))))"

text \<open>\<open>request\<close> and \<open>len\<close> as every operation rounds them.\<close>

definition block_len :: "mp_env \<Rightarrow> nat \<Rightarrow> nat" where
  "block_len env len =
     (let len = align_up len (AlignSize env) in
      if AlignSize env < link_bytes env then max (link_bytes env) len else len)"

definition mp_sfree :: "mp_env \<Rightarrow> mempool \<Rightarrow> nat \<Rightarrow> nat \<Rightarrow> mempool res" where
  "mp_sfree env P pos len =
     verify (len > 0) (verify (pos < vv_n (mp_mem P)) (verify (pos mod AlignSize env = 0)
       (let len = block_len env len in
        verify (pos + len \<le> vv_n (mp_mem P))
          (if pos + len = vv_n (mp_mem P) then Inr (P\<lparr>mp_mem := (mp_mem P)\<lparr>vv_n := pos\<rparr>\<rparr>)
           else bind_res
             (if len \<le> free_list_len P * AlignSize env then free_fast env P pos len else free_huge env P pos len)
             (\<lambda>P. Inr (P\<lparr>fragment_size := add64 (fragment_size P) len\<rparr>))))))"

section \<open>Allocation\<close>

text \<open>\<open>n = End\<close> after \<open>ensure_capacity(End)\<close>.\<close>

definition grow_to :: "mp_env \<Rightarrow> mempool \<Rightarrow> nat \<Rightarrow> mempool res" where
  "grow_to env P End =
     bind_res (ensure_capacity (byte_env env) (mp_mem P) End) (\<lambda>v. Inr (P\<lparr>mp_mem := v\<lparr>vv_n := End\<rparr>\<rparr>))"

definition alloc_fast :: "mp_env \<Rightarrow> mempool \<Rightarrow> nat \<Rightarrow> (mempool \<times> nat) option res" where
  "alloc_fast env P request =
     (let idx = request div AlignSize env - 1 in
      bind_res (get_head P idx) (\<lambda>h.
        if list_tail env \<noteq> head h then
          verify (fragment_size P \<ge> request)
            (let pos = link_pos env (head h) in
             verify (pos + request \<le> vv_n (mp_mem P))
               (bind_res (mp_at P pos) (\<lambda>pos. bind_res (load_link env P pos) (\<lambda>x.
                 let P = set_head P idx \<lparr>head = x, cnt = link_size env (cnt h + (2 ^ (8 * link_bytes env) - 1))\<rparr> in
                 Inr (Some (P\<lparr>fragment_size := sub64 (fragment_size P) request\<rparr>, pos))))))
        else Inr None))"

text \<open>The node at \<open>pos\<close> leaves the level \<open>k\<close>, if \<open>update[k]\<close> is followed by it there.\<close>

definition unlink_level :: "mp_env \<Rightarrow> huge_ptr option list \<Rightarrow> nat \<Rightarrow> mempool \<Rightarrow> nat \<Rightarrow> mempool res" where
  "unlink_level env update pos P k =
     bind_res (read_update update k) (\<lambda>n1. bind_res (get_next env P n1 k) (\<lambda>x.
       if x = pos_link env pos then bind_res (get_next env P (Node pos) k) (\<lambda>y. set_next env P n1 k y) else Inr P))"

fun unlink_levels :: "mp_env \<Rightarrow> huge_ptr option list \<Rightarrow> nat \<Rightarrow> mempool \<Rightarrow> nat list \<Rightarrow> mempool res" where
  "unlink_levels env update pos P [] = Inr P"
| "unlink_levels env update pos P (k # ks) =
     bind_res (unlink_level env update pos P k) (\<lambda>P. unlink_levels env update pos P ks)"

fun drop_empty_levels :: "nat \<Rightarrow> nat list \<Rightarrow> nat \<Rightarrow> nat" where
  "drop_empty_levels tail next 0 = 0"
| "drop_empty_levels tail next (Suc h) = (if next ! h = tail then drop_empty_levels tail next h else Suc h)"

definition alloc_huge :: "mp_env \<Rightarrow> mempool \<Rightarrow> nat \<Rightarrow> (mempool \<times> nat) option res" where
  "alloc_huge env P request =
     verify (request \<ge> sizeof_huge_link env)
       (bind_res (search_huge env P request) (\<lambda>(n2, update).
         case n2 of
           None \<Rightarrow> Inr None
         | Some res \<Rightarrow>
           bind_res (load_link env P res) (\<lambda>size.
             if size \<ge> request then
               (let remain = size - request in
                bind_res (unlink_levels env update res P [0..<huge_size (huge_list P)]) (\<lambda>P.
                  if huge_size (huge_list P) = 0 then Inl Undefined else
                  let h = drop_empty_levels (list_tail env) (huge_next (huge_list P)) (huge_size (huge_list P));
                      P = P\<lparr>huge_list := (huge_list P)\<lparr>huge_size := h\<rparr>\<rparr> in
                  bind_res (if remain \<noteq> 0 then mp_sfree env P (res + request) remain else Inr P) (\<lambda>P.
                    Inr (Some (P\<lparr>fragment_size := sub64 (fragment_size P) request,
                      huge_size_sum := sub64 (huge_size_sum P) request, huge_node_cnt := sub64 (huge_node_cnt P) 1\<rparr>, res)))))
             else Inr None)))"

definition alloc_free_block :: "mp_env \<Rightarrow> mempool \<Rightarrow> nat \<Rightarrow> (mempool \<times> nat) option res" where
  "alloc_free_block env P request =
     (if request \<le> free_list_len P * AlignSize env then alloc_fast env P request else alloc_huge env P request)"

definition mp_alloc :: "mp_env \<Rightarrow> mempool \<Rightarrow> nat \<Rightarrow> (mempool \<times> nat) res" where
  "mp_alloc env P request =
     verify (request > 0)
       (let request = block_len env request in
        bind_res (alloc_free_block env P request) (\<lambda>found.
          case found of
            Some r \<Rightarrow> Inr r
          | None \<Rightarrow> let pos = vv_n (mp_mem P) in bind_res (grow_to env P (pos + request)) (\<lambda>P. Inr (P, pos))))"

text \<open>\<open>memcpy(p + dst, p + src, len)\<close>.\<close>

definition copy_block :: "mempool \<Rightarrow> nat \<Rightarrow> nat \<Rightarrow> nat \<Rightarrow> mempool res" where
  "copy_block P dst src len = bind_res (memmove_cells (mp_mem P) dst src len) (\<lambda>v. Inr (P\<lparr>mp_mem := v\<rparr>))"

definition mp_alloc3 :: "mp_env \<Rightarrow> mempool \<Rightarrow> nat \<Rightarrow> nat \<Rightarrow> nat \<Rightarrow> (mempool \<times> nat) res" where
  "mp_alloc3 env P pos oldlen newlen =
     verify (newlen > 0) (verify (oldlen > 0)
       (let newlen = block_len env newlen; oldlen = block_len env oldlen in
        verify (pos < vv_n (mp_mem P)) (verify (pos + oldlen \<le> vv_n (mp_mem P))
          (if pos + oldlen = vv_n (mp_mem P) then bind_res (grow_to env P (pos + newlen)) (\<lambda>P. Inr (P, pos))
           else if newlen < oldlen then
             verify (oldlen - newlen \<ge> link_bytes env) (verify (oldlen - newlen \<ge> AlignSize env)
               (bind_res (mp_sfree env P (pos + newlen) (oldlen - newlen)) (\<lambda>P. Inr (P, pos))))
           else if newlen = oldlen then Inr (P, pos)
           else
             bind_res (mp_alloc env P newlen) (\<lambda>(P, newpos).
               bind_res (copy_block P newpos pos (min oldlen newlen)) (\<lambda>P.
                 bind_res (mp_sfree env P pos oldlen) (\<lambda>P. Inr (P, newpos))))))))"

section \<open>The pool of fixed capacity\<close>

text \<open>\<open>size_t(-1)\<close> is \<open>None\<close>.\<close>

definition fc_alloc :: "mp_env \<Rightarrow> mempool \<Rightarrow> nat \<Rightarrow> (mempool \<times> nat option) res" where
  "fc_alloc env P request =
     verify (request > 0)
       (let request = block_len env request in
        bind_res (alloc_free_block env P request) (\<lambda>found.
          case found of
            Some (P, pos) \<Rightarrow> Inr (P, Some pos)
          | None \<Rightarrow>
            let pos = vv_n (mp_mem P); End = pos + request in
            if End \<le> vv_c (mp_mem P) then Inr (P\<lparr>mp_mem := (mp_mem P)\<lparr>vv_n := End\<rparr>\<rparr>, Some pos) else Inr (P, None)))"

definition fc_alloc3 :: "mp_env \<Rightarrow> mempool \<Rightarrow> nat \<Rightarrow> nat \<Rightarrow> nat \<Rightarrow> (mempool \<times> nat option) res" where
  "fc_alloc3 env P pos oldlen newlen =
     verify (newlen > 0) (verify (oldlen > 0)
       (let newlen = block_len env newlen; oldlen = block_len env oldlen in
        verify (pos < vv_n (mp_mem P)) (verify (pos + oldlen \<le> vv_n (mp_mem P))
          (if pos + oldlen = vv_n (mp_mem P) \<and> pos + newlen \<le> vv_c (mp_mem P) then
             Inr (P\<lparr>mp_mem := (mp_mem P)\<lparr>vv_n := pos + newlen\<rparr>\<rparr>, Some pos)
           else if newlen < oldlen then
             verify (oldlen - newlen \<ge> link_bytes env) (verify (oldlen - newlen \<ge> AlignSize env)
               (bind_res (mp_sfree env P (pos + newlen) (oldlen - newlen)) (\<lambda>P. Inr (P, Some pos))))
           else if newlen = oldlen then Inr (P, Some pos)
           else
             bind_res (fc_alloc env P newlen) (\<lambda>(P, newpos).
               case newpos of
                 None \<Rightarrow> Inr (P, None)
               | Some newpos \<Rightarrow>
                 bind_res (copy_block P newpos pos (min oldlen newlen)) (\<lambda>P.
                   bind_res (mp_sfree env P pos oldlen) (\<lambda>P. Inr (P, Some newpos))))))))"

end
