(* ===== verification/Alloc_Spec.thy ===== *)
theory Alloc_Spec
  imports Topling_Prelude "HOL-Library.Multiset"
begin

text \<open>
  What a client expects of an allocator of byte blocks.  The client has variables that hold blocks; a program
  allocates, resizes, writes and frees them.  The abstract heap maps a variable to the content of its block, a byte or
  nothing known; the locale lists what an implementation promises of its operations, and its main fact is that every
  program leaves in the blocks what the abstract heap says.
\<close>

section \<open>Programs and the abstract heap\<close>

datatype 'v heap_cmd = New 'v nat | Resize 'v nat | Write 'v nat "u8 list" | Delete 'v

type_synonym 'v heap = "'v \<rightharpoonup> u8 option list"

text \<open>The second argument is whether the allocator had room.  A command that makes no sense does nothing.\<close>

fun heap_step :: "(nat \<Rightarrow> nat) \<Rightarrow> 'v heap \<Rightarrow> 'v heap_cmd \<Rightarrow> bool \<Rightarrow> 'v heap" where
  "heap_step round H (New v len) done =
     (if 0 < len \<and> H v = None \<and> done then H(v \<mapsto> replicate (round len) None) else H)"
| "heap_step round H (Resize v len) done =
     (case H v of
        Some c \<Rightarrow> if 0 < len \<and> done then H(v \<mapsto> take (round len) c @ replicate (round len - length c) None) else H
      | None \<Rightarrow> H)"
| "heap_step round H (Write v off bs) done =
     (case H v of
        Some c \<Rightarrow> if off + length bs \<le> length c then H(v \<mapsto> take off c @ map Some bs @ drop (off + length bs) c) else H
      | None \<Rightarrow> H)"
| "heap_step round H (Delete v) done = H(v := None)"

fun heap_run :: "(nat \<Rightarrow> nat) \<Rightarrow> 'v heap \<Rightarrow> 'v heap_cmd list \<Rightarrow> bool list \<Rightarrow> 'v heap" where
  "heap_run round H (c # cs) (a # answers) = heap_run round (heap_step round H c a) cs answers"
| "heap_run round H _ _ = H"

text \<open>The client of an implementation keeps where each block is and the length it asked for.\<close>

type_synonym 'v places = "'v \<rightharpoonup> nat \<times> nat"

record 's pool_ops =
  pool_alloc :: "'s \<Rightarrow> nat \<Rightarrow> ('s \<times> nat option) res"
  pool_resize :: "'s \<Rightarrow> nat \<Rightarrow> nat \<Rightarrow> nat \<Rightarrow> ('s \<times> nat option) res"
  pool_write :: "'s \<Rightarrow> nat \<Rightarrow> u8 list \<Rightarrow> 's res"
  pool_free :: "'s \<Rightarrow> nat \<Rightarrow> nat \<Rightarrow> 's res"

fun client_step ::
  "'s pool_ops \<Rightarrow> (nat \<Rightarrow> nat) \<Rightarrow> 's \<Rightarrow> 'v places \<Rightarrow> 'v heap_cmd \<Rightarrow> ('s \<times> 'v places \<times> bool) res" where
  "client_step ops round s vars (New v len) =
     (if 0 < len \<and> vars v = None then
        bind_res (pool_alloc ops s len) (\<lambda>(s, r).
          case r of None \<Rightarrow> Inr (s, vars, False) | Some pos \<Rightarrow> Inr (s, vars(v \<mapsto> (pos, len)), True))
      else Inr (s, vars, True))"
| "client_step ops round s vars (Resize v len) =
     (case vars v of
        Some (pos, old) \<Rightarrow>
          if 0 < len then
            bind_res (pool_resize ops s pos old len) (\<lambda>(s, r).
              case r of None \<Rightarrow> Inr (s, vars, False) | Some pos \<Rightarrow> Inr (s, vars(v \<mapsto> (pos, len)), True))
          else Inr (s, vars, True)
      | None \<Rightarrow> Inr (s, vars, True))"
| "client_step ops round s vars (Write v off bs) =
     (case vars v of
        Some (pos, len) \<Rightarrow>
          if off + length bs \<le> round len then bind_res (pool_write ops s (pos + off) bs) (\<lambda>s. Inr (s, vars, True))
          else Inr (s, vars, True)
      | None \<Rightarrow> Inr (s, vars, True))"
| "client_step ops round s vars (Delete v) =
     (case vars v of
        Some (pos, len) \<Rightarrow> bind_res (pool_free ops s pos len) (\<lambda>s. Inr (s, vars(v := None), True))
      | None \<Rightarrow> Inr (s, vars, True))"

fun client_run ::
  "'s pool_ops \<Rightarrow> (nat \<Rightarrow> nat) \<Rightarrow> 's \<Rightarrow> 'v places \<Rightarrow> 'v heap_cmd list \<Rightarrow> ('s \<times> 'v places \<times> bool list) res" where
  "client_run ops round s vars [] = Inr (s, vars, [])"
| "client_run ops round s vars (c # cs) =
     bind_res (client_step ops round s vars c) (\<lambda>(s, vars, a).
       bind_res (client_run ops round s vars cs) (\<lambda>(s, vars, answers). Inr (s, vars, a # answers)))"

text \<open>The bytes a program asks for, at most.\<close>

fun cmd_bytes :: "(nat \<Rightarrow> nat) \<Rightarrow> 'v heap_cmd \<Rightarrow> nat" where
  "cmd_bytes round (New v len) = round len"
| "cmd_bytes round (Resize v len) = round len"
| "cmd_bytes round (Write v off bs) = 0"
| "cmd_bytes round (Delete v) = 0"

definition prog_bytes :: "(nat \<Rightarrow> nat) \<Rightarrow> 'v heap_cmd list \<Rightarrow> nat" where
  "prog_bytes round cs = sum_list (map (cmd_bytes round) cs)"

section \<open>Blocks\<close>

type_synonym block = "nat \<times> nat"

text \<open>The byte \<open>i\<close> is in the block.\<close>

definition covers :: "nat \<Rightarrow> block \<Rightarrow> bool" where
  "covers i b \<longleftrightarrow> fst b \<le> i \<and> i < fst b + snd b"

definition kept :: "u8 option list \<Rightarrow> u8 option list \<Rightarrow> block multiset \<Rightarrow> bool" where
  "kept bs bs' M \<longleftrightarrow> (\<forall>b\<in>#M. \<forall>i. covers i b \<longrightarrow> bs' ! i = bs ! i)"

lemma kept_at: "kept bs bs' M \<Longrightarrow> (p, l) \<in># M \<Longrightarrow> i < l \<Longrightarrow> bs' ! (p + i) = bs ! (p + i)"
  by (auto simp: kept_def covers_def)

definition places_blocks :: "(nat \<Rightarrow> nat) \<Rightarrow> 'v places \<Rightarrow> block multiset" where
  "places_blocks round vars = image_mset (\<lambda>v. (fst (the (vars v)), round (snd (the (vars v))))) (mset_set (dom vars))"

lemma places_empty [simp]: "places_blocks round Map.empty = {#}"
  by (simp add: places_blocks_def)

lemma places_upd:
  assumes "finite (dom vars)"
  shows "places_blocks round (vars(v \<mapsto> (pos, len))) = add_mset (pos, round len) (places_blocks round (vars(v := None)))"
proof -
  have "dom (vars(v \<mapsto> (pos, len))) = insert v (dom (vars(v := None)))" by auto
  moreover have "v \<notin> dom (vars(v := None))" by simp
  moreover have "finite (dom (vars(v := None)))" using assms by (simp add: dom_fun_upd)
  moreover have "image_mset (\<lambda>w. (fst (the ((vars(v \<mapsto> (pos, len))) w)), round (snd (the ((vars(v \<mapsto> (pos, len))) w)))))
      (mset_set (dom (vars(v := None)))) =
    image_mset (\<lambda>w. (fst (the ((vars(v := None)) w)), round (snd (the ((vars(v := None)) w))))) (mset_set (dom (vars(v := None))))"
    by (rule image_mset_cong) (use calculation(3) in \<open>auto split: if_splits\<close>)
  ultimately show ?thesis by (simp add: places_blocks_def del: dom_fun_upd)
qed

lemma places_remove:
  assumes "finite (dom vars)" and "vars v = Some (pos, len)"
  shows "places_blocks round vars = add_mset (pos, round len) (places_blocks round (vars(v := None)))"
  using places_upd [OF assms(1), of round v pos len] assms(2) by (simp add: map_upd_triv)

lemma places_member: "finite (dom vars) \<Longrightarrow> vars v = Some (pos, len) \<Longrightarrow> (pos, round len) \<in># places_blocks round vars"
  using places_remove by fastforce

section \<open>What an implementation promises\<close>

definition apart :: "block \<Rightarrow> block \<Rightarrow> bool" where
  "apart b c \<longleftrightarrow> fst b + snd b \<le> fst c \<or> fst c + snd c \<le> fst b"

text \<open>
  A pool has a number of bytes in use and a counter that is not more than the bytes ever freed; a request is in bounds if
  neither can pass its limit.
\<close>

definition in_bounds :: "nat \<Rightarrow> nat \<Rightarrow> nat \<times> nat \<Rightarrow> nat \<Rightarrow> bool" where
  "in_bounds limit max_len = (\<lambda>(used, freed) len. freed + 2 * used + len < 2 ^ 64 \<and> used + len \<le> limit \<and> len < max_len)"

definition grown :: "nat \<times> nat \<Rightarrow> nat \<times> nat \<Rightarrow> nat \<Rightarrow> bool" where
  "grown = (\<lambda>(used, freed) (used', freed') len. used' \<le> used + len \<and> freed' \<le> freed + 2 * used + len)"

text \<open>The block of a variable has the content that the heap says.\<close>

definition block_holds :: "(nat \<Rightarrow> nat) \<Rightarrow> u8 option list \<Rightarrow> nat \<times> nat \<Rightarrow> u8 option list \<Rightarrow> bool" where
  "block_holds round bs = (\<lambda>(pos, len) c. 0 < len \<and> length c = round len \<and> (\<forall>i<length c. c ! i \<noteq> None \<longrightarrow> bs ! (pos + i) = c ! i))"

text \<open>
  With \<open>N\<close> bytes in use at the start and asked for altogether, neither counter passes its limit in \<open>k\<close> commands, if
  the bound below holds for \<open>k\<close> and \<open>N\<close>.
\<close>

definition prog_fits :: "(nat \<Rightarrow> nat) \<Rightarrow> nat \<Rightarrow> nat \<Rightarrow> nat \<times> nat \<Rightarrow> 'v heap_cmd list \<Rightarrow> bool" where
  "prog_fits round limit max_len = (\<lambda>(used, freed) cs. used + prog_bytes round cs \<le> limit \<and>
     freed + (2 * length cs + 3) * (used + prog_bytes round cs) < 2 ^ 64 \<and> list_all (\<lambda>c. cmd_bytes round c < max_len) cs)"

text \<open>\<open>full\<close> says when the implementation may refuse a request.\<close>

locale pool_allocator =
  fixes ops :: "'s pool_ops" and round :: "nat \<Rightarrow> nat" and ok :: "'s \<Rightarrow> block multiset \<Rightarrow> bool"
    and bytes :: "'s \<Rightarrow> u8 option list" and sizes :: "'s \<Rightarrow> nat \<times> nat" and limit max_len :: nat
    and G :: bool and full :: "'s \<Rightarrow> nat \<Rightarrow> bool"
  assumes alloc_ok: "ok s live \<Longrightarrow> 0 < len \<Longrightarrow> in_bounds limit max_len (sizes s) (round len) \<Longrightarrow>
      yields G (pool_alloc ops s len) (\<lambda>(s', r). case r of
          None \<Rightarrow> s' = s \<and> full s (round len)
        | Some pos \<Rightarrow> ok s' (add_mset (pos, round len) live) \<and> kept (bytes s) (bytes s') live \<and> grown (sizes s) (sizes s') (round len))"
    and resize_ok: "ok s (add_mset (pos, round old) live) \<Longrightarrow> 0 < old \<Longrightarrow> 0 < len \<Longrightarrow> in_bounds limit max_len (sizes s) (round len) \<Longrightarrow>
      yields G (pool_resize ops s pos old len) (\<lambda>(s', r). case r of
          None \<Rightarrow> s' = s \<and> full s (round len)
        | Some pos' \<Rightarrow> ok s' (add_mset (pos', round len) live) \<and> kept (bytes s) (bytes s') live \<and> grown (sizes s) (sizes s') (round len) \<and>
            (\<forall>i<min (round old) (round len). bytes s' ! (pos' + i) = bytes s ! (pos + i)))"
    and write_ok: "ok s (add_mset (pos, l) live) \<Longrightarrow> off + length bs \<le> l \<Longrightarrow>
      yields G (pool_write ops s (pos + off) bs) (\<lambda>s'. ok s' (add_mset (pos, l) live) \<and> kept (bytes s) (bytes s') live \<and>
        sizes s' = sizes s \<and>
        (\<forall>i<l. bytes s' ! (pos + i) = (if off \<le> i \<and> i < off + length bs then Some (bs ! (i - off)) else bytes s ! (pos + i))))"
    and free_ok: "ok s (add_mset (pos, round len) live) \<Longrightarrow> 0 < len \<Longrightarrow> in_bounds limit max_len (sizes s) 0 \<Longrightarrow>
      yields G (pool_free ops s pos len) (\<lambda>s'. ok s' live \<and> kept (bytes s) (bytes s') live \<and> grown (sizes s) (sizes s') 0)"
    and apart_ok: "ok s (add_mset b (add_mset c live)) \<Longrightarrow> apart b c"
begin

definition holds :: "'s \<Rightarrow> 'v places \<Rightarrow> 'v heap \<Rightarrow> bool" where
  "holds s vars H \<longleftrightarrow> finite (dom vars) \<and> ok s (places_blocks round vars) \<and> (\<forall>v. rel_option (block_holds round (bytes s)) (vars v) (H v))"

lemma holds_some: "holds s vars H \<Longrightarrow> vars v = Some (pos, len) \<Longrightarrow> \<exists>c. H v = Some c \<and> block_holds round (bytes s) (pos, len) c"
  by (auto simp: holds_def option_rel_Some1 dest!: spec [of _ v])

lemma holds_none: "holds s vars H \<Longrightarrow> vars v = None \<longleftrightarrow> H v = None"
  by (auto simp: holds_def dest!: spec [of _ v])

lemma block_holds_kept: "block_holds round (bytes s) (pos, len) c \<Longrightarrow> kept (bytes s) (bytes s') M \<Longrightarrow> (pos, round len) \<in># M \<Longrightarrow> block_holds round (bytes s') (pos, len) c"
  by (auto simp: block_holds_def kept_at)

text \<open>One variable changes, and the blocks of the others are kept.\<close>

lemma holds_others:
  assumes "holds s vars H" and "kept (bytes s) (bytes s') (places_blocks round (vars(v := None)))" and "w \<noteq> v"
  shows "rel_option (block_holds round (bytes s')) (vars w) (H w)"
proof (cases "vars w")
  case (Some b)
  obtain pos len where b: "b = (pos, len)" by fastforce
  from holds_some [OF assms(1) Some [unfolded b]] obtain c where c: "H w = Some c" "block_holds round (bytes s) (pos, len) c" by blast
  have "finite (dom (vars(v := None)))" using assms(1) by (simp add: holds_def)
  from places_member [OF this, of w pos len] Some b assms(3) have "(pos, round len) \<in># places_blocks round (vars(v := None))" by simp
  from block_holds_kept [OF c(2) assms(2) this] c(1) Some b show ?thesis by simp
qed (use holds_none [OF assms(1), of w] in simp)

lemma holds_set:
  assumes "holds s vars H" and "kept (bytes s) (bytes s') (places_blocks round (vars(v := None)))"
    and "ok s' (add_mset (pos, round len) (places_blocks round (vars(v := None))))" and "block_holds round (bytes s') (pos, len) c"
  shows "holds s' (vars(v \<mapsto> (pos, len))) (H(v \<mapsto> c))"
  unfolding holds_def
proof (intro conjI allI)
  have f: "finite (dom vars)" using assms(1) by (simp add: holds_def)
  then show "finite (dom (vars(v \<mapsto> (pos, len))))" by simp
  show "ok s' (places_blocks round (vars(v \<mapsto> (pos, len))))" using assms(3) by (simp add: places_upd [OF f])
  show "rel_option (block_holds round (bytes s')) ((vars(v \<mapsto> (pos, len))) w) ((H(v \<mapsto> c)) w)" for w
    using assms(4) holds_others [OF assms(1,2), of w] by (cases "w = v") auto
qed

lemma holds_remove:
  assumes "holds s vars H" and "kept (bytes s) (bytes s') (places_blocks round (vars(v := None)))"
    and "ok s' (places_blocks round (vars(v := None)))"
  shows "holds s' (vars(v := None)) (H(v := None))"
  unfolding holds_def using assms holds_others [OF assms(1,2)] by (auto simp: holds_def)

section \<open>Every program\<close>

lemma new_refines:
  assumes h: "holds s vars H" and b: "in_bounds limit max_len (sizes s) (round len)"
  shows "yields G (client_step ops round s vars (New v len)) (\<lambda>(s', vars', a).
    holds s' vars' (heap_step round H (New v len) a) \<and> grown (sizes s) (sizes s') (round len) \<and> (a \<or> full s (round len)))"
proof (cases "0 < len \<and> vars v = None")
  case True
  then have v: "vars(v := None) = vars" by auto
  have ok: "ok s (places_blocks round vars)" using h by (simp add: holds_def)
  have "yields G (bind_res (pool_alloc ops s len) (\<lambda>(s, r). case r of None \<Rightarrow> Inr (s, vars, False)
      | Some pos \<Rightarrow> Inr (s, vars(v \<mapsto> (pos, len)), True))) (\<lambda>(s', vars', a).
    holds s' vars' (heap_step round H (New v len) a) \<and> grown (sizes s) (sizes s') (round len) \<and> (a \<or> full s (round len)))"
  proof (rule yields_bind [OF alloc_ok [OF ok _ b]], use True in simp, clarify)
    fix s' r
    assume r: "case r of None \<Rightarrow> s' = s \<and> full s (round len)
        | Some pos \<Rightarrow> ok s' (add_mset (pos, round len) (places_blocks round vars)) \<and> kept (bytes s) (bytes s') (places_blocks round vars) \<and>
            grown (sizes s) (sizes s') (round len)"
    show "yields G (case r of None \<Rightarrow> Inr (s', vars, False) | Some pos \<Rightarrow> Inr (s', vars(v \<mapsto> (pos, len)), True)) (\<lambda>(s', vars', a).
      holds s' vars' (heap_step round H (New v len) a) \<and> grown (sizes s) (sizes s') (round len) \<and> (a \<or> full s (round len)))"
    proof (cases r)
      case None
      with r h show ?thesis by (auto simp: grown_def split: prod.splits)
    next
      case (Some pos)
      have "block_holds round (bytes s') (pos, len) (replicate (round len) None)" using True by (simp add: block_holds_def)
      with holds_set [OF h, of s' v pos len] r Some v True holds_none [OF h, of v] show ?thesis by simp
    qed
  qed
  with True show ?thesis by simp
next
  case False
  with h holds_none [OF h, of v] show ?thesis by (auto simp: grown_def split: prod.splits)
qed

lemma holds_split:
  assumes "holds s vars H" and "vars v = Some (pos, len)"
  obtains c where "H v = Some c" and "block_holds round (bytes s) (pos, len) c"
    and "ok s (add_mset (pos, round len) (places_blocks round (vars(v := None))))"
proof -
  have "places_blocks round vars = add_mset (pos, round len) (places_blocks round (vars(v := None)))"
    using assms by (intro places_remove) (auto simp: holds_def)
  with assms holds_some [OF assms] that show thesis by (auto simp: holds_def)
qed

lemma resize_refines:
  assumes h: "holds s vars H" and b: "in_bounds limit max_len (sizes s) (round len)"
  shows "yields G (client_step ops round s vars (Resize v len)) (\<lambda>(s', vars', a).
    holds s' vars' (heap_step round H (Resize v len) a) \<and> grown (sizes s) (sizes s') (round len) \<and> (a \<or> full s (round len)))"
proof (cases "\<exists>pos old. vars v = Some (pos, old) \<and> 0 < len")
  case True
  then obtain pos old where v: "vars v = Some (pos, old)" and len: "0 < len" by blast
  obtain c where c: "H v = Some c" "block_holds round (bytes s) (pos, old) c"
    and ok: "ok s (add_mset (pos, round old) (places_blocks round (vars(v := None))))" by (rule holds_split [OF h v])
  have old: "0 < old" "length c = round old" using c(2) by (auto simp: block_holds_def)
  let ?c = "take (round len) c @ replicate (round len - length c) None"
  have "yields G (bind_res (pool_resize ops s pos old len) (\<lambda>(s, r). case r of None \<Rightarrow> Inr (s, vars, False)
      | Some pos \<Rightarrow> Inr (s, vars(v \<mapsto> (pos, len)), True))) (\<lambda>(s', vars', a).
    holds s' vars' (heap_step round H (Resize v len) a) \<and> grown (sizes s) (sizes s') (round len) \<and> (a \<or> full s (round len)))"
  proof (rule yields_bind [OF resize_ok [OF ok old(1) len b]], clarify)
    fix s' r
    assume r: "case r of None \<Rightarrow> s' = s \<and> full s (round len)
        | Some pos' \<Rightarrow> ok s' (add_mset (pos', round len) (places_blocks round (vars(v := None)))) \<and>
            kept (bytes s) (bytes s') (places_blocks round (vars(v := None))) \<and> grown (sizes s) (sizes s') (round len) \<and>
            (\<forall>i<min (round old) (round len). bytes s' ! (pos' + i) = bytes s ! (pos + i))"
    show "yields G (case r of None \<Rightarrow> Inr (s', vars, False) | Some pos \<Rightarrow> Inr (s', vars(v \<mapsto> (pos, len)), True)) (\<lambda>(s', vars', a).
      holds s' vars' (heap_step round H (Resize v len) a) \<and> grown (sizes s) (sizes s') (round len) \<and> (a \<or> full s (round len)))"
    proof (cases r)
      case None
      with r h c(1) show ?thesis by (auto simp: grown_def split: prod.splits)
    next
      case (Some pos')
      have "block_holds round (bytes s') (pos', len) ?c"
        using len old(2) c(2) r Some by (auto simp: block_holds_def nth_append)
      with holds_set [OF h, of s' v pos' len] r Some len c(1) show ?thesis by simp
    qed
  qed
  with v len show ?thesis by simp
next
  case False
  then have "client_step ops round s vars (Resize v len) = Inr (s, vars, True)" by (auto split: option.splits)
  moreover have "heap_step round H (Resize v len) True = H"
    using False holds_none [OF h, of v] by (cases "vars v") (auto split: option.splits)
  ultimately show ?thesis using h by (auto simp: grown_def split: prod.splits)
qed

lemma write_refines:
  assumes h: "holds s vars H"
  shows "yields G (client_step ops round s vars (Write v off bs)) (\<lambda>(s', vars', a).
    holds s' vars' (heap_step round H (Write v off bs) a) \<and> sizes s' = sizes s \<and> a)"
proof (cases "vars v")
  case None
  with h holds_none [OF h, of v] show ?thesis by simp
next
  case (Some b)
  obtain pos len where b: "b = (pos, len)" by fastforce
  obtain c where c: "H v = Some c" "block_holds round (bytes s) (pos, len) c"
    and ok: "ok s (add_mset (pos, round len) (places_blocks round (vars(v := None))))" by (rule holds_split [OF h Some [unfolded b]])
  have l: "0 < len" "length c = round len" using c(2) by (auto simp: block_holds_def)
  show ?thesis
  proof (cases "off + length bs \<le> round len")
    case True
    let ?c = "take off c @ map Some bs @ drop (off + length bs) c"
    have "yields G (bind_res (pool_write ops s (pos + off) bs) (\<lambda>s. Inr (s, vars, True))) (\<lambda>(s', vars', a).
      holds s' vars' (heap_step round H (Write v off bs) a) \<and> sizes s' = sizes s \<and> a)"
    proof (rule yields_bind [OF write_ok [OF ok True]])
      fix s' assume s': "ok s' (add_mset (pos, round len) (places_blocks round (vars(v := None)))) \<and>
        kept (bytes s) (bytes s') (places_blocks round (vars(v := None))) \<and> sizes s' = sizes s \<and>
        (\<forall>i<round len. bytes s' ! (pos + i) = (if off \<le> i \<and> i < off + length bs then Some (bs ! (i - off)) else bytes s ! (pos + i)))"
      have "?c ! i = (if off \<le> i \<and> i < off + length bs then Some (bs ! (i - off)) else c ! i)" if "i < round len" for i
        using True l(2) that by (auto simp: nth_append)
      then have "block_holds round (bytes s') (pos, len) ?c" using True l c(2) s' by (auto simp: block_holds_def)
      with holds_set [OF h, of s' v pos len] s' True l c(1) Some b
      show "yields G (Inr (s', vars, True)) (\<lambda>(s', vars', a).
        holds s' vars' (heap_step round H (Write v off bs) a) \<and> sizes s' = sizes s \<and> a)" by (simp add: map_upd_triv)
    qed
    with Some b True show ?thesis by simp
  qed (use Some b c(1) l h in simp)
qed

lemma delete_refines:
  assumes h: "holds s vars H" and b: "in_bounds limit max_len (sizes s) 0"
  shows "yields G (client_step ops round s vars (Delete v)) (\<lambda>(s', vars', a).
    holds s' vars' (heap_step round H (Delete v) a) \<and> grown (sizes s) (sizes s') 0 \<and> a)"
proof (cases "vars v")
  case None
  then have "H(v := None) = H" using holds_none [OF h, of v] by auto
  with h None show ?thesis by (auto simp: grown_def split: prod.splits)
next
  case (Some b)
  obtain pos len where bl: "b = (pos, len)" by fastforce
  obtain c where c: "H v = Some c" "block_holds round (bytes s) (pos, len) c"
    and ok: "ok s (add_mset (pos, round len) (places_blocks round (vars(v := None))))" by (rule holds_split [OF h Some [unfolded bl]])
  have l: "0 < len" using c(2) by (auto simp: block_holds_def)
  have "yields G (bind_res (pool_free ops s pos len) (\<lambda>s. Inr (s, vars(v := None), True))) (\<lambda>(s', vars', a).
    holds s' vars' (heap_step round H (Delete v) a) \<and> grown (sizes s) (sizes s') 0 \<and> a)"
    by (rule yields_bind [OF free_ok [OF ok l b]]) (use holds_remove [OF h] in simp)
  with Some bl show ?thesis by simp
qed

lemma step_refines:
  assumes h: "holds s vars H" and b: "in_bounds limit max_len (sizes s) (cmd_bytes round c)"
  shows "yields G (client_step ops round s vars c) (\<lambda>(s', vars', a).
    holds s' vars' (heap_step round H c a) \<and> grown (sizes s) (sizes s') (cmd_bytes round c) \<and> (a \<or> full s (cmd_bytes round c)))"
proof (cases c)
  case (New v len)
  with new_refines [OF h, of len v] b show ?thesis by simp
next
  case (Resize v len)
  with resize_refines [OF h, of len v] b show ?thesis by simp
next
  case (Write v off bs)
  show ?thesis
    unfolding Write by (rule yields_mono [OF write_refines [OF h]]) (auto simp: grown_def split: prod.splits)
next
  case (Delete v)
  show ?thesis
    unfolding Delete by (rule yields_mono [OF delete_refines [OF h]]) (use b Delete in auto)
qed

lemma prog_fits_Cons:
  assumes "prog_fits round limit max_len z (c # cs)" and "0 < max_len"
  shows "in_bounds limit max_len z (cmd_bytes round c)" and "grown z z' (cmd_bytes round c) \<Longrightarrow> prog_fits round limit max_len z' cs"
proof -
  obtain u f where z: "z = (u, f)" by fastforce
  obtain u' f' where z': "z' = (u', f')" by fastforce
  define r N M where "r = cmd_bytes round c" and "N = u + prog_bytes round (c # cs)" and "M = (2 * length cs + 3) * N"
  have N: "u + r \<le> N" "u + r + prog_bytes round cs = N" by (simp_all add: prog_bytes_def r_def N_def)
  have "(2 * length (c # cs) + 3) * N = M + 2 * N" by (simp add: M_def algebra_simps)
  then have p: "N \<le> limit" "f + (M + 2 * N) < 2 ^ 64" "list_all (\<lambda>c. cmd_bytes round c < max_len) (c # cs)"
    using assms(1) unfolding prog_fits_def z prod.case N_def [symmetric] by simp_all
  have "3 * N \<le> M" unfolding M_def by (rule mult_le_mono1) simp
  then have "f + 2 * u + r < 2 ^ 64" using p(2) N(1) by linarith
  then show "in_bounds limit max_len z (cmd_bytes round c)" using p N(1) by (simp add: in_bounds_def z r_def)
  assume "grown z z' (cmd_bytes round c)"
  then have g: "u' \<le> u + r" "f' \<le> f + 2 * u + r" by (simp_all add: grown_def z z' r_def)
  then have u: "u' + prog_bytes round cs \<le> N" using N(2) by linarith
  then have "(2 * length cs + 3) * (u' + prog_bytes round cs) \<le> M" unfolding M_def by (rule mult_le_mono2)
  then have "f' + (2 * length cs + 3) * (u' + prog_bytes round cs) < 2 ^ 64" using p(2) g(2) N(1) by linarith
  then show "prog_fits round limit max_len z' cs" using u p by (simp add: prog_fits_def z')
qed

definition may_refuse :: bool where
  "may_refuse \<longleftrightarrow> (\<exists>s r. full s r)"

theorem run_refines:
  assumes "0 < max_len"
  shows "holds s vars H \<Longrightarrow> prog_fits round limit max_len (sizes s) cs \<Longrightarrow>
    yields G (client_run ops round s vars cs) (\<lambda>(s', vars', answers).
      holds s' vars' (heap_run round H cs answers) \<and> length answers = length cs \<and> (False \<in> set answers \<longrightarrow> may_refuse))"
proof (induction cs arbitrary: s vars H)
  case (Cons c cs)
  note fits = prog_fits_Cons [OF Cons.prems(2) assms]
  show ?case
    unfolding client_run.simps
  proof (rule yields_bind [OF step_refines [OF Cons.prems(1) fits(1)]], clarify)
    fix s' vars' a
    assume st: "holds s' vars' (heap_step round H c a)" "grown (sizes s) (sizes s') (cmd_bytes round c)" "a \<or> full s (cmd_bytes round c)"
    then have a: "a \<or> may_refuse" unfolding may_refuse_def by blast
    show "yields G (bind_res (client_run ops round s' vars' cs) (\<lambda>(s, vars, answers). Inr (s, vars, a # answers))) (\<lambda>(s', vars', answers).
      holds s' vars' (heap_run round H (c # cs) answers) \<and> length answers = length (c # cs) \<and> (False \<in> set answers \<longrightarrow> may_refuse))"
      by (rule yields_bind [OF Cons.IH [OF st(1) fits(2) [OF st(2)]]]) (use a in auto)
  qed
qed simp

text \<open>Blocks of different variables have no byte in common.\<close>

lemma holds_apart:
  assumes "holds s vars H" and "v \<noteq> w" and "vars v = Some (pos, len)" and "vars w = Some (pos', len')"
  shows "apart (pos, round len) (pos', round len')"
proof -
  have f: "finite (dom vars)" using assms(1) by (simp add: holds_def)
  have "places_blocks round vars = add_mset (pos, round len) (places_blocks round (vars(v := None)))"
    by (rule places_remove [OF f assms(3)])
  moreover have "places_blocks round (vars(v := None)) =
      add_mset (pos', round len') (places_blocks round ((vars(v := None))(w := None)))"
    by (rule places_remove) (use f assms in auto)
  ultimately show ?thesis using assms(1) apart_ok unfolding holds_def by metis
qed

end

end
