(* ===== verification/Mempool_Laws.thy ===== *)
theory Mempool_Laws
  imports Mempool Alloc_Spec
begin

text \<open>
  The memory of the pools: what a store of a link changes, linked lists in memory, the blocks as a tiling of the used
  bytes, and the invariant \<open>mp_shape\<close> with the counters \<open>mp_counts\<close>.
\<close>

section \<open>Alignment\<close>

definition mp_env_ok :: "mp_env \<Rightarrow> bool" where
  "mp_env_ok env \<longleftrightarrow> (\<exists>k\<ge>2. AlignSize env = 2 ^ k)"

text \<open>The offsets below this bound have a link other than \<open>list_tail\<close>.\<close>

definition link_limit :: "mp_env \<Rightarrow> nat" where
  "link_limit env = list_tail env * 2 ^ offset_shift env"

lemma link_bytes_pos [simp]: "0 < link_bytes env" "link_bytes env \<noteq> 0"
  by (simp_all add: link_bytes_def)

lemma mp_env_dvd:
  assumes "mp_env_ok env"
  shows "link_bytes env dvd AlignSize env" and "0 < AlignSize env" and "2 ^ offset_shift env dvd AlignSize env"
    and "link_bytes env \<le> AlignSize env"
proof -
  obtain k where k: "k \<ge> 2" "AlignSize env = 2 ^ k" using assms by (auto simp: mp_env_ok_def)
  have d: "link_bytes env dvd AlignSize env \<and> 2 ^ offset_shift env dvd AlignSize env"
  proof (cases "k = 2")
    case False
    then have "k \<ge> 3" using k(1) by simp
    then have "(2::nat) ^ 3 dvd 2 ^ k" by (rule le_imp_power_dvd)
    then have "8 dvd AlignSize env" using k(2) by simp
    moreover from this have "AlignSize env \<noteq> 4" by auto
    ultimately show ?thesis by (simp add: link_bytes_def offset_shift_def)
  qed (use k in \<open>simp add: link_bytes_def offset_shift_def\<close>)
  then show "link_bytes env dvd AlignSize env" "2 ^ offset_shift env dvd AlignSize env" by auto
  show p: "0 < AlignSize env" using k by simp
  show "link_bytes env \<le> AlignSize env" using d p by (simp add: dvd_imp_le)
qed

lemma block_len_eq: "mp_env_ok env \<Longrightarrow> block_len env len = align_up len (AlignSize env)"
  using mp_env_dvd(4) [of env] by (simp add: block_len_def Let_def)

lemma align_up_id:
  assumes "0 < a" and "a dvd x"
  shows "align_up x a = x"
proof -
  obtain c where c: "x = a * c" using assms(2) by auto
  have "(m + a * c) div a = m div a + c" for m using assms(1) by simp
  from this [of "a - 1"] have "(a - 1 + a * c) div a = (a - 1) div a + c" .
  moreover have "(a - 1) div a = 0" using assms(1) by simp
  moreover have "x + a - 1 = a - 1 + a * c" using c assms(1) by simp
  ultimately have "align_up x a = c * a" unfolding align_up_def by simp
  then show ?thesis using c by (simp add: mult.commute)
qed

lemma block_len_id: "mp_env_ok env \<Longrightarrow> AlignSize env dvd x \<Longrightarrow> block_len env x = x"
  by (simp add: block_len_eq align_up_id mp_env_dvd)

lemma block_len_pos: "mp_env_ok env \<Longrightarrow> 0 < x \<Longrightarrow> 0 < block_len env x"
  using align_up_ge [of "AlignSize env" x] mp_env_dvd(2) [of env] by (simp add: block_len_eq)

lemma block_len_dvd: "mp_env_ok env \<Longrightarrow> AlignSize env dvd block_len env x"
  by (simp add: block_len_eq)

lemma list_tail_less [simp]: "list_tail env < 2 ^ (8 * link_bytes env)" "2 ^ (8 * link_bytes env) - Suc 0 = list_tail env"
  by (simp_all add: list_tail_def)

lemma list_tail_plus: "list_tail env + 1 = 2 ^ (8 * link_bytes env)"
  by (simp add: list_tail_def del: list_tail_less)

lemma pos_link_less:
  assumes "p < link_limit env"
  shows "pos_link env p < list_tail env"
  using assms by (simp add: link_limit_def pos_link_def less_mult_imp_div_less)

lemma pos_link_size [simp]:
  assumes "p < link_limit env"
  shows "link_size env (pos_link env p) = pos_link env p" and "pos_link env p mod 2 ^ (8 * link_bytes env) = pos_link env p"
proof -
  have "pos_link env p < 2 ^ (8 * link_bytes env)"
    using pos_link_less [OF assms] list_tail_less(1) [of env] by (rule less_trans)
  then show "link_size env (pos_link env p) = pos_link env p" "pos_link env p mod 2 ^ (8 * link_bytes env) = pos_link env p"
    by (simp_all add: link_size_def)
qed

lemma link_pos_pos_link:
  assumes "mp_env_ok env" and "AlignSize env dvd p"
  shows "link_pos env (pos_link env p) = p"
proof -
  have "2 ^ offset_shift env dvd p" using mp_env_dvd(3) [OF assms(1)] assms(2) by (rule dvd_trans)
  then show ?thesis by (simp only: link_pos_def pos_link_def dvd_div_mult_self)
qed

lemma pos_link_link_pos [simp]: "pos_link env (link_pos env x) = x"
  by (simp add: link_pos_def pos_link_def)

lemma link_pos_eq: "mp_env_ok env \<Longrightarrow> AlignSize env dvd p \<Longrightarrow> link_pos env x = p \<longleftrightarrow> x = pos_link env p"
  using link_pos_pos_link pos_link_link_pos by metis

lemma link_pos_inj [simp]: "link_pos env x = link_pos env y \<longleftrightarrow> x = y"
  by (simp add: link_pos_def)

lemma sub64_eq:
  assumes "y \<le> x" and "x < 2 ^ 64"
  shows "sub64 x y = x - y"
proof -
  have "x + (2 ^ 64 - y mod 2 ^ 64) = (x - y) + 2 ^ 64" using assms by simp
  then have "sub64 x y = ((x - y) + 2 ^ 64) mod 2 ^ 64" by (simp only: sub64_def)
  also have "\<dots> = x - y" using assms(2) by (simp del: add_diff_assoc2 diff_add_assoc2)
  finally show ?thesis .
qed

section \<open>Bytes\<close>

text \<open>The bytes of a pool, and the pool with some of them overwritten.\<close>

abbreviation mp_bytes :: "mempool \<Rightarrow> u8 option list" where
  "mp_bytes P \<equiv> vv_p (mp_mem P)"

abbreviation mp_n :: "mempool \<Rightarrow> nat" where
  "mp_n P \<equiv> vv_n (mp_mem P)"

definition overwrite :: "mempool \<Rightarrow> nat \<Rightarrow> u8 list \<Rightarrow> mempool" where
  "overwrite P pos bs =
     P\<lparr>mp_mem := (mp_mem P)\<lparr>vv_p := take pos (mp_bytes P) @ map Some bs @ drop (pos + length bs) (mp_bytes P)\<rparr>\<rparr>"

lemma write_bytes_eq: "pos + length bs \<le> length (mp_bytes P) \<Longrightarrow> write_bytes P pos bs = Inr (overwrite P pos bs)"
  by (simp add: write_bytes_def construct_at_def overwrite_def)

lemma overwrite_simps [simp]:
  "fragment_size (overwrite P pos bs) = fragment_size P" "huge_size_sum (overwrite P pos bs) = huge_size_sum P"
  "huge_node_cnt (overwrite P pos bs) = huge_node_cnt P" "huge_list (overwrite P pos bs) = huge_list P"
  "free_list_arr (overwrite P pos bs) = free_list_arr P" "free_list_len (overwrite P pos bs) = free_list_len P"
  "m_rand_seed (overwrite P pos bs) = m_rand_seed P" "vv_n (mp_mem (overwrite P pos bs)) = mp_n P"
  "vv_c (mp_mem (overwrite P pos bs)) = vv_c (mp_mem P)" "vv_null (mp_mem (overwrite P pos bs)) = vv_null (mp_mem P)"
  by (simp_all add: overwrite_def)

lemma length_overwrite [simp]:
  "pos + length bs \<le> length (mp_bytes P) \<Longrightarrow> length (mp_bytes (overwrite P pos bs)) = length (mp_bytes P)"
  by (simp add: overwrite_def)

lemma nth_overwrite:
  assumes "pos + length bs \<le> length (mp_bytes P)"
  shows "mp_bytes (overwrite P pos bs) ! i = (if pos \<le> i \<and> i < pos + length bs then Some (bs ! (i - pos)) else mp_bytes P ! i)"
  using assms by (auto simp: overwrite_def nth_append)

text \<open>Two states with the same bytes in a range read the same link there.\<close>

lemma load_link_cong:
  assumes "length (mp_bytes P') \<ge> a + link_bytes env" and "length (mp_bytes P) \<ge> a + link_bytes env"
    and "\<And>i. a \<le> i \<Longrightarrow> i < a + link_bytes env \<Longrightarrow> mp_bytes P' ! i = mp_bytes P ! i"
  shows "load_link env P' a = load_link env P a"
proof -
  have "take (link_bytes env) (drop a (mp_bytes P')) = take (link_bytes env) (drop a (mp_bytes P))"
    by (rule nth_equalityI) (use assms in auto)
  then show ?thesis by (simp add: load_link_def)
qed

lemma load_link_stored:
  assumes "a + link_bytes env \<le> length (mp_bytes P)"
  shows "load_link env (overwrite P a (store_le (link_bytes env) x)) a = Inr (x mod 2 ^ (8 * link_bytes env))"
  using assms by (simp add: load_link_def overwrite_def list_all_iff comp_def pow256)

lemma store_link_eq:
  "a + link_bytes env \<le> length (mp_bytes P) \<Longrightarrow> store_link env P a x = Inr (overwrite P a (store_le (link_bytes env) x))"
  by (simp add: store_link_def write_bytes_eq)

section \<open>Linked lists in memory\<close>

text \<open>The list of the blocks \<open>ps\<close> from the link \<open>x\<close> on, through the field number \<open>j\<close> of each.\<close>

fun seg :: "mp_env \<Rightarrow> (nat \<Rightarrow> nat res) \<Rightarrow> nat \<Rightarrow> nat \<Rightarrow> nat list \<Rightarrow> nat \<Rightarrow> bool" where
  "seg env m j x [] z \<longleftrightarrow> x = z"
| "seg env m j x (p # ps) z \<longleftrightarrow>
     x \<noteq> list_tail env \<and> link_pos env x = p \<and> (\<exists>y. m (p + j * link_bytes env) = Inr y \<and> seg env m j y ps z)"

abbreviation chain :: "mp_env \<Rightarrow> (nat \<Rightarrow> nat res) \<Rightarrow> nat \<Rightarrow> nat \<Rightarrow> nat list \<Rightarrow> bool" where
  "chain env m j x ps \<equiv> seg env m j x ps (list_tail env)"

lemma seg_cong:
  assumes "seg env m j x ps z" and "\<And>p. p \<in> set ps \<Longrightarrow> m' (p + j * link_bytes env) = m (p + j * link_bytes env)"
  shows "seg env m' j x ps z"
  using assms
proof (induction ps arbitrary: x)
  case (Cons p ps)
  from Cons.prems(1) obtain y where y: "x \<noteq> list_tail env" "link_pos env x = p" "m (p + j * link_bytes env) = Inr y" "seg env m j y ps z"
    by auto
  have "seg env m' j y ps z" by (rule Cons.IH [OF y(4)]) (use Cons.prems(2) in simp)
  with y Cons.prems(2) [of p] show ?case by simp
qed simp

lemma seg_append: "seg env m j x (xs @ ys) z \<longleftrightarrow> (\<exists>y. seg env m j x xs y \<and> seg env m j y ys z)"
  by (induction xs arbitrary: x) auto

text \<open>The last block of a segment is linked to another place.\<close>

lemma seg_relink:
  assumes "seg env m j x xs y" and "xs \<noteq> []" and "distinct xs"
    and "m' (last xs + j * link_bytes env) = Inr z"
    and "\<And>p. p \<in> set (butlast xs) \<Longrightarrow> m' (p + j * link_bytes env) = m (p + j * link_bytes env)"
  shows "seg env m' j x xs z"
proof -
  from assms(2) obtain us u where xs: "xs = us @ [u]" by (cases xs rule: rev_cases) auto
  from assms(1) obtain v where v: "seg env m j x us v" "v \<noteq> list_tail env" "link_pos env v = u" by (auto simp: xs seg_append)
  have "seg env m' j x us v" by (rule seg_cong [OF v(1)]) (use assms(5) xs in simp)
  with v assms(4) show ?thesis by (auto simp: xs seg_append)
qed

text \<open>The link to the first block of a list.\<close>

definition link_to :: "mp_env \<Rightarrow> nat list \<Rightarrow> nat" where
  "link_to env ps = (case ps of [] \<Rightarrow> list_tail env | p # _ \<Rightarrow> pos_link env p)"

lemma link_to_simps [simp]: "link_to env [] = list_tail env" "link_to env (p # ps) = pos_link env p"
  by (simp_all add: link_to_def)

lemma chain_head: "chain env m j x ps \<Longrightarrow> x = link_to env ps"
  by (cases ps) auto

lemma chain_after:
  assumes "chain env m j x (xs @ ys)" and "xs \<noteq> []"
  shows "m (last xs + j * link_bytes env) = Inr (link_to env ys)"
proof -
  from assms(2) obtain us u where xs: "xs = us @ [u]" by (cases xs rule: rev_cases) auto
  from assms(1) obtain y where "m (u + j * link_bytes env) = Inr y" "chain env m j y ys" by (auto simp: xs seg_append)
  then show ?thesis using chain_head xs by force
qed

section \<open>Blocks that tile the used bytes\<close>

text \<open>How many blocks the byte \<open>i\<close> is in.\<close>

definition cover :: "block multiset \<Rightarrow> nat \<Rightarrow> nat" where
  "cover M i = size (filter_mset (covers i) M)"

lemma cover_simps [simp]:
  "cover {#} i = 0" "cover (M + N) i = cover M i + cover N i"
  "cover (add_mset b M) i = (if covers i b then 1 else 0) + cover M i"
  by (simp_all add: cover_def)

definition tiles :: "mp_env \<Rightarrow> nat \<Rightarrow> block multiset \<Rightarrow> bool" where
  "tiles env n M \<longleftrightarrow> (\<forall>i. cover M i = (if i < n then 1 else 0)) \<and>
     (\<forall>b\<in>#M. AlignSize env dvd fst b \<and> AlignSize env dvd snd b \<and> 0 < snd b \<and> snd b < 2 ^ (8 * link_bytes env))"

lemma apart_covers: "apart b c \<Longrightarrow> covers i b \<Longrightarrow> \<not> covers i c"
  by (auto simp: apart_def covers_def)

lemma apart_sym: "apart b c \<longleftrightarrow> apart c b"
  by (auto simp: apart_def)

lemma cover_member: "b \<in># M \<Longrightarrow> covers i b \<Longrightarrow> 0 < cover M i"
  by (auto dest!: multi_member_split)

lemma tiles_block:
  assumes "tiles env n M" and "b \<in># M"
  shows "AlignSize env dvd fst b" "AlignSize env dvd snd b" "0 < snd b" "snd b < 2 ^ (8 * link_bytes env)" "fst b + snd b \<le> n"
proof -
  show *: "AlignSize env dvd fst b" "AlignSize env dvd snd b" "0 < snd b" "snd b < 2 ^ (8 * link_bytes env)"
    using assms by (auto simp: tiles_def)
  have "covers (fst b + snd b - 1) b" using *(3) by (auto simp: covers_def)
  from cover_member [OF assms(2) this] have "fst b + snd b - 1 < n" using assms(1) by (auto simp: tiles_def split: if_splits)
  then show "fst b + snd b \<le> n" by simp
qed

lemma tiles_apart:
  assumes "tiles env n (add_mset b (add_mset c M))"
  shows "apart b c"
proof (rule ccontr)
  assume "\<not> apart b c"
  moreover have "0 < snd b" "0 < snd c" using tiles_block(3) [OF assms] by auto
  ultimately have "covers (max (fst b) (fst c)) b" "covers (max (fst b) (fst c)) c" by (auto simp: apart_def covers_def)
  moreover have "cover (add_mset b (add_mset c M)) (max (fst b) (fst c)) \<le> 1" using assms by (auto simp: tiles_def)
  ultimately show False by simp
qed

lemma tiles_grow:
  assumes "tiles env n M" and "AlignSize env dvd n" and "AlignSize env dvd r" and "0 < r" and "r < 2 ^ (8 * link_bytes env)"
  shows "tiles env (n + r) (add_mset (n, r) M)"
  using assms by (auto simp: tiles_def covers_def)

lemma tiles_trim:
  assumes "tiles env n (add_mset (p, l) M)" and "p + l = n"
  shows "tiles env p M"
proof -
  have "cover M i = (if i < p then 1 else 0)" for i
  proof -
    have "cover (add_mset (p, l) M) i = (if i < n then 1 else 0)" using assms(1) unfolding tiles_def by blast
    with assms(2) show ?thesis by (auto simp: covers_def split: if_splits)
  qed
  with assms(1) show ?thesis by (auto simp: tiles_def)
qed

lemma tiles_split:
  assumes "tiles env n (add_mset (p, a + b) M)" and "AlignSize env dvd a" and "0 < a" and "0 < b"
  shows "tiles env n (add_mset (p, a) (add_mset (p + a, b) M))"
proof -
  have c: "cover (add_mset (p, a) (add_mset (p + a, b) M)) i = cover (add_mset (p, a + b) M) i" for i
    using assms(3,4) by (auto simp: covers_def)
  have *: "AlignSize env dvd p" "AlignSize env dvd a + b" "a + b < 2 ^ (8 * link_bytes env)"
    using assms(1) by (auto simp: tiles_def)
  then have "AlignSize env dvd b" using assms(2) by (simp add: dvd_add_right_iff)
  with assms * show ?thesis unfolding tiles_def c by (auto simp: tiles_def)
qed

lemma tiles_size:
  assumes "tiles env n M"
  shows "sum_mset (image_mset snd M) = n"
proof -
  have b: "\<forall>b\<in>#M. fst b + snd b \<le> n" using tiles_block(5) [OF assms] by blast
  have "(\<Sum>i<n. cover N i) = sum_mset (image_mset snd N)" if "\<forall>b\<in>#N. fst b + snd b \<le> n" for N
    using that
  proof (induction N)
    case (add b N)
    have "(\<Sum>i<n. if covers i b then 1 else 0) = card {i \<in> {..<n}. covers i b}" by (simp add: sum.If_cases Int_def)
    also have "{i \<in> {..<n}. covers i b} = {fst b..<fst b + snd b}" using add.prems by (auto simp: covers_def)
    finally show ?case using add by (simp add: sum.distrib)
  qed simp
  from this [OF b] assms show ?thesis by (simp add: tiles_def)
qed

lemma tiles_aligned:
  assumes "tiles env n M"
  shows "AlignSize env dvd n"
proof -
  have "AlignSize env dvd sum_mset (image_mset snd M)" if "\<forall>b\<in>#M. AlignSize env dvd snd b" for M :: "block multiset"
    using that by (induction M) auto
  with assms tiles_size [OF assms] show ?thesis by (auto simp: tiles_def)
qed

section \<open>The invariant\<close>

text \<open>
  The free lists as values: the blocks of each size, the nodes of the skip list in order, on how many levels each is,
  and its size.
\<close>

record free_lists =
  fast :: "nat list list"
  huge :: "nat list"
  levels :: "nat \<Rightarrow> nat"
  siz :: "nat \<Rightarrow> nat"

definition fast_blocks :: "mp_env \<Rightarrow> nat list list \<Rightarrow> block multiset" where
  "fast_blocks env fs = (\<Sum>i<length fs. image_mset (\<lambda>p. (p, Suc i * AlignSize env)) (mset (fs ! i)))"

definition huge_blocks :: "free_lists \<Rightarrow> block multiset" where
  "huge_blocks F = image_mset (\<lambda>p. (p, siz F p)) (mset (huge F))"

definition free_blocks :: "mp_env \<Rightarrow> free_lists \<Rightarrow> block multiset" where
  "free_blocks env F = fast_blocks env (fast F) + huge_blocks F"

abbreviation total :: "block multiset \<Rightarrow> nat" where
  "total M \<equiv> sum_mset (image_mset snd M)"

definition level_list :: "free_lists \<Rightarrow> nat \<Rightarrow> nat list" where
  "level_list F k = filter (\<lambda>p. k < levels F p) (huge F)"

definition mem_ok :: "mp_env \<Rightarrow> mempool \<Rightarrow> bool" where
  "mem_ok env P \<longleftrightarrow> length (mp_bytes P) = vv_c (mp_mem P) \<and> mp_n P \<le> vv_c (mp_mem P) \<and> mp_n P \<le> link_limit env"

definition fast_ok :: "mp_env \<Rightarrow> mempool \<Rightarrow> free_lists \<Rightarrow> bool" where
  "fast_ok env P F \<longleftrightarrow> sizeof_huge_link env \<le> free_list_len P * AlignSize env \<and> length (fast F) = free_list_len P \<and>
     (\<exists>arr. free_list_arr P = Some arr \<and> length arr = free_list_len P \<and>
       (\<forall>i<free_list_len P. chain env (load_link env P) 0 (head (arr ! i)) (fast F ! i) \<and> cnt (arr ! i) = length (fast F ! i)))"

definition huge_ok :: "mp_env \<Rightarrow> mempool \<Rightarrow> free_lists \<Rightarrow> bool" where
  "huge_ok env P F \<longleftrightarrow>
     length (huge_next (huge_list P)) = skip_list_level_max \<and> huge_size (huge_list P) \<le> skip_list_level_max \<and>
     (\<forall>k < skip_list_level_max. chain env (load_link env P) (Suc k) (huge_next (huge_list P) ! k) (level_list F k)) \<and>
     (\<forall>p\<in>set (huge F). 0 < levels F p \<and> levels F p \<le> huge_size (huge_list P)) \<and>
     (huge_size (huge_list P) = 0 \<or> (\<exists>p\<in>set (huge F). levels F p = huge_size (huge_list P))) \<and>
     (\<forall>p\<in>set (huge F). load_link env P p = Inr (siz F p) \<and> free_list_len P * AlignSize env < siz F p) \<and>
     sorted (map (siz F) (huge F))"

definition mp_shape :: "mp_env \<Rightarrow> mempool \<Rightarrow> free_lists \<Rightarrow> block multiset \<Rightarrow> bool" where
  "mp_shape env P F live \<longleftrightarrow> mem_ok env P \<and> fast_ok env P F \<and> huge_ok env P F \<and>
     tiles env (mp_n P) (free_blocks env F + live)"

text \<open>The counters are too large by \<open>e1\<close>, \<open>e2\<close> and \<open>e3\<close>.\<close>

definition mp_counts :: "mp_env \<Rightarrow> mempool \<Rightarrow> free_lists \<Rightarrow> nat \<Rightarrow> nat \<Rightarrow> nat \<Rightarrow> bool" where
  "mp_counts env P F e1 e2 e3 \<longleftrightarrow> fragment_size P = total (free_blocks env F) + e1 \<and>
     huge_size_sum P = total (huge_blocks F) + e2 \<and> huge_node_cnt P = length (huge F) + e3"

lemma fast_blocks_update:
  assumes "i < length fs"
  shows "fast_blocks env (fs[i := p # fs ! i]) = add_mset (p, Suc i * AlignSize env) (fast_blocks env fs)"
proof -
  let ?b = "\<lambda>fs i. image_mset (\<lambda>p. (p, Suc i * AlignSize env)) (mset (fs ! i))"
  have "(\<Sum>j\<in>{..<length fs} - {i}. ?b (fs[i := p # fs ! i]) j) = (\<Sum>j\<in>{..<length fs} - {i}. ?b fs j)"
    by (intro sum.cong) auto
  with assms show ?thesis by (simp add: fast_blocks_def sum.remove [of "{..<length fs}" i])
qed

lemma fast_blocks_member: "i < length fs \<Longrightarrow> p \<in> set (fs ! i) \<Longrightarrow> (p, Suc i * AlignSize env) \<in># fast_blocks env fs"
  by (auto simp: fast_blocks_def set_mset_sum)

lemma huge_blocks_member: "p \<in> set (huge F) \<Longrightarrow> (p, siz F p) \<in># huge_blocks F"
  by (auto simp: huge_blocks_def)

text \<open>What the operations leave alone.\<close>

definition keeps :: "mempool \<Rightarrow> mempool \<Rightarrow> block multiset \<Rightarrow> bool" where
  "keeps P P' M \<longleftrightarrow> (\<forall>b\<in>#M. \<forall>i. covers i b \<longrightarrow> mp_bytes P' ! i = mp_bytes P ! i)"

lemma keeps_kept: "kept (mp_bytes P) (mp_bytes P') M \<longleftrightarrow> keeps P P' M"
  by (simp add: keeps_def kept_def)

lemma keeps_refl [simp]: "keeps P P M"
  by (simp add: keeps_def)

lemma keeps_trans: "keeps P P' M \<Longrightarrow> keeps P' P'' M \<Longrightarrow> keeps P P'' M"
  by (simp add: keeps_def)

lemma keeps_mono: "keeps P P' M \<Longrightarrow> set_mset N \<subseteq> set_mset M \<Longrightarrow> keeps P P' N"
  by (auto simp: keeps_def)

lemma keeps_add [simp]: "keeps P P' (M + N) \<longleftrightarrow> keeps P P' M \<and> keeps P P' N"
  by (auto simp: keeps_def)

lemma keeps_load:
  assumes "keeps P P' M" and "(p, l) \<in># M" and "p \<le> a" and "a + link_bytes env \<le> p + l"
    and "p + l \<le> length (mp_bytes P)" and "p + l \<le> length (mp_bytes P')"
  shows "load_link env P' a = load_link env P a"
proof (rule load_link_cong)
  show "mp_bytes P' ! i = mp_bytes P ! i" if "a \<le> i" "i < a + link_bytes env" for i
    using assms(1,2,3,4) that by (auto simp: keeps_def covers_def)
qed (use assms in auto)

lemma keeps_overwrite:
  assumes "tiles env n (add_mset (p, l) M)" and "p \<le> a" and "a + length bs \<le> p + l" and "n \<le> length (mp_bytes P)"
  shows "keeps P (overwrite P a bs) M"
  unfolding keeps_def
proof (intro ballI allI impI)
  fix b i
  assume b: "b \<in># M" "covers i b"
  then have "apart (p, l) b" using assms(1) by (auto dest!: multi_member_split intro: tiles_apart)
  then have "\<not> covers i (p, l)" using b(2) apart_covers by blast
  then have "\<not> (a \<le> i \<and> i < a + length bs)" using assms(2,3) by (auto simp: covers_def)
  moreover have "p + l \<le> n" using tiles_block(5) [OF assms(1), of "(p, l)"] by simp
  ultimately show "mp_bytes (overwrite P a bs) ! i = mp_bytes P ! i" using assms(2,3,4) by (subst nth_overwrite) auto
qed

text \<open>The lists survive what does not touch their blocks.\<close>

lemma fast_ok_keeps:
  assumes "mp_env_ok env" and ok: "fast_ok env P F" and k: "keeps P P' (fast_blocks env (fast F))"
    and t: "tiles env n (fast_blocks env (fast F) + M)" and n: "n \<le> length (mp_bytes P)" "n \<le> length (mp_bytes P')"
    and same: "free_list_arr P' = free_list_arr P" "free_list_len P' = free_list_len P"
  shows "fast_ok env P' F"
proof -
  have "chain env (load_link env P') 0 x (fast F ! i)"
    if c: "chain env (load_link env P) 0 x (fast F ! i)" and i: "i < free_list_len P" for x i
  proof (rule seg_cong [OF c])
    fix p assume p: "p \<in> set (fast F ! i)"
    have "i < length (fast F)" using i ok by (simp add: fast_ok_def)
    from fast_blocks_member [OF this p] have m: "(p, Suc i * AlignSize env) \<in># fast_blocks env (fast F)" .
    then have "p + Suc i * AlignSize env \<le> n" using tiles_block(5) [OF t] by fastforce
    moreover have "link_bytes env \<le> Suc i * AlignSize env" using mp_env_dvd(4) [OF assms(1)] by simp
    ultimately show "load_link env P' (p + 0 * link_bytes env) = load_link env P (p + 0 * link_bytes env)"
      using keeps_load [OF k m, of p] n by simp
  qed
  with ok same show ?thesis unfolding fast_ok_def by metis
qed

lemma huge_ok_keeps:
  assumes ok: "huge_ok env P F" and k: "keeps P P' (huge_blocks F)"
    and t: "tiles env n (huge_blocks F + M)" and n: "n \<le> length (mp_bytes P)" "n \<le> length (mp_bytes P')"
    and len: "sizeof_huge_link env \<le> free_list_len P * AlignSize env"
    and same: "huge_list P' = huge_list P" "free_list_len P' = free_list_len P"
  shows "huge_ok env P' F"
proof -
  have ld: "load_link env P' (p + j * link_bytes env) = load_link env P (p + j * link_bytes env)"
    if p: "p \<in> set (huge F)" and j: "j \<le> skip_list_level_max" for p j
  proof -
    have m: "(p, siz F p) \<in># huge_blocks F" using p by (rule huge_blocks_member)
    then have "p + siz F p \<le> n" using tiles_block(5) [OF t] by fastforce
    moreover have "free_list_len P * AlignSize env < siz F p" using ok p by (auto simp: huge_ok_def)
    moreover have "j * link_bytes env + link_bytes env \<le> sizeof_huge_link env"
      using j mult_le_mono1 [of "Suc j" "1 + skip_list_level_max" "link_bytes env"] by (simp add: sizeof_huge_link_def)
    ultimately show ?thesis using len n by (intro keeps_load [OF k m]) auto
  qed
  have "chain env (load_link env P') (Suc k) x (level_list F k)"
    if "chain env (load_link env P) (Suc k) x (level_list F k)" and "k < skip_list_level_max" for x k
    using that by (intro seg_cong [OF that(1)] ld) (auto simp: level_list_def)
  moreover have "load_link env P' p = load_link env P p" if "p \<in> set (huge F)" for p using ld [OF that, of 0] by simp
  ultimately show ?thesis using ok same unfolding huge_ok_def by simp
qed

end
