(* ===== verification/Mempool_Free.thy ===== *)
theory Mempool_Free
  imports Mempool_Laws
begin

text \<open>
  Freeing a block: at the end of the used bytes, into the list of its size, into the skip list.  The result keeps the
  invariant, without the block among the live ones and with their bytes as they were.
\<close>

section \<open>The end of the used bytes\<close>

lemma huge_ok_same:
  "huge_ok env P F \<Longrightarrow> load_link env P' = load_link env P \<Longrightarrow> huge_list P' = huge_list P \<Longrightarrow>
    free_list_len P' = free_list_len P \<Longrightarrow> huge_ok env P' F"
  by (simp add: huge_ok_def)

lemma load_link_same: "mp_bytes P' = mp_bytes P \<Longrightarrow> load_link env P' = load_link env P"
  by (simp add: load_link_def fun_eq_iff)

lemma fast_ok_same:
  "fast_ok env P F \<Longrightarrow> load_link env P' = load_link env P \<Longrightarrow> free_list_arr P' = free_list_arr P \<Longrightarrow>
    free_list_len P' = free_list_len P \<Longrightarrow> fast_ok env P' F"
  by (simp add: fast_ok_def)

lemma mp_shape_n:
  assumes "mp_shape env P F live" and "tiles env n (free_blocks env F + live')" and "n \<le> vv_c (mp_mem P)" and "n \<le> link_limit env"
  shows "mp_shape env (P\<lparr>mp_mem := (mp_mem P)\<lparr>vv_n := n\<rparr>\<rparr>) F live'"
proof -
  let ?P' = "P\<lparr>mp_mem := (mp_mem P)\<lparr>vv_n := n\<rparr>\<rparr>"
  have "load_link env ?P' = load_link env P" by (rule load_link_same) simp
  then have "fast_ok env ?P' F" "huge_ok env ?P' F"
    using assms(1) by (auto simp: mp_shape_def intro: fast_ok_same huge_ok_same)
  with assms show ?thesis by (auto simp: mp_shape_def mem_ok_def)
qed

section \<open>The list of the size\<close>

definition counts_same :: "mempool \<Rightarrow> mempool \<Rightarrow> bool" where
  "counts_same P P' \<longleftrightarrow> fragment_size P' = fragment_size P \<and> huge_size_sum P' = huge_size_sum P \<and>
     huge_node_cnt P' = huge_node_cnt P"

lemma set_head_simps [simp]:
  "mp_mem (set_head P i h) = mp_mem P" "huge_list (set_head P i h) = huge_list P" "free_list_len (set_head P i h) = free_list_len P"
  "fragment_size (set_head P i h) = fragment_size P" "huge_size_sum (set_head P i h) = huge_size_sum P"
  "huge_node_cnt (set_head P i h) = huge_node_cnt P"
  "free_list_arr (set_head P i h) = map_option (\<lambda>arr. arr[i := h]) (free_list_arr P)"
  by (simp_all add: set_head_def)

lemma link_to_less:
  assumes "\<And>p. p \<in> set ps \<Longrightarrow> p < link_limit env"
  shows "link_to env ps < 2 ^ (8 * link_bytes env)"
proof (cases ps)
  case (Cons p qs)
  then have "pos_link env p < list_tail env" using assms pos_link_less by simp
  then have "pos_link env p < 2 ^ (8 * link_bytes env)" using list_tail_less(1) by (rule less_trans)
  with Cons show ?thesis by simp
qed simp

lemma load_link_set_head [simp]: "load_link env (set_head P i h) = load_link env P"
  by (rule load_link_same) simp

lemma keeps_set_head [simp]: "keeps P (set_head Q i h) M \<longleftrightarrow> keeps P Q M"
  by (simp add: keeps_def)

text \<open>A list is too short for its counter to wrap.\<close>

lemma total_fast_blocks: "total (fast_blocks env fs) = (\<Sum>i<length fs. length (fs ! i) * (Suc i * AlignSize env))"
proof -
  have "total (\<Sum>i\<in>I. B i) = (\<Sum>i\<in>I. total (B i))" if "finite I" for I :: "nat set" and B
    using that by (induction I) auto
  then show ?thesis by (simp add: fast_blocks_def multiset.map_comp comp_def sum_mset_constant)
qed

lemma fast_count:
  assumes "mp_env_ok env" and "tiles env n (fast_blocks env fs + M)" and "n \<le> link_limit env" and "i < length fs"
  shows "length (fs ! i) < 2 ^ (8 * link_bytes env)"
proof -
  have "length (fs ! i) * (Suc i * AlignSize env) \<le> total (fast_blocks env fs)"
    unfolding total_fast_blocks by (rule member_le_sum) (use assms(4) in auto)
  also have "\<dots> \<le> list_tail env * 2 ^ offset_shift env"
    using tiles_size [OF assms(2)] assms(3) by (simp add: link_limit_def)
  also have "\<dots> \<le> list_tail env * (Suc i * AlignSize env)"
    using mp_env_dvd(2,3) [OF assms(1)] by (intro mult_le_mono2) (auto dest!: dvd_imp_le)
  finally have "length (fs ! i) \<le> list_tail env" using mp_env_dvd(2) [OF assms(1)] by (simp del: mult_Suc)
  then show ?thesis using list_tail_less(1) by (rule le_less_trans)
qed

text \<open>The number of a size, and back.\<close>

lemma size_index:
  assumes "mp_env_ok env" and "AlignSize env dvd len" and "0 < len" and "len \<le> k * AlignSize env"
  obtains "Suc (len div AlignSize env - 1) * AlignSize env = len" and "len div AlignSize env - 1 < k"
proof -
  from assms(2) obtain c where c: "len = AlignSize env * c" by auto
  then have "0 < c" "c \<le> k" using assms mp_env_dvd(2) [OF assms(1)] by (auto simp: mult.commute)
  then show thesis using that c mp_env_dvd(2) [OF assms(1)] by simp
qed

text \<open>Only the memory differs, and the sizes of it do not.\<close>

definition same_frame :: "mempool \<Rightarrow> mempool \<Rightarrow> bool" where
  "same_frame P P' \<longleftrightarrow> P' = P\<lparr>mp_mem := mp_mem P'\<rparr> \<and> mp_n P' = mp_n P \<and> vv_c (mp_mem P') = vv_c (mp_mem P) \<and>
     length (mp_bytes P') = length (mp_bytes P)"

lemma same_frame_trans: "same_frame P Q \<Longrightarrow> same_frame Q R \<Longrightarrow> same_frame P R"
  by (cases P; cases Q; cases R) (simp add: same_frame_def)

lemma same_frame_simps:
  assumes "same_frame P P'"
  shows "free_list_arr P' = free_list_arr P" "free_list_len P' = free_list_len P" "huge_list P' = huge_list P"
    "fragment_size P' = fragment_size P" "huge_size_sum P' = huge_size_sum P" "huge_node_cnt P' = huge_node_cnt P"
    "mp_n P' = mp_n P" "vv_c (mp_mem P') = vv_c (mp_mem P)" "length (mp_bytes P') = length (mp_bytes P)"
  using assms by (cases P; cases P'; simp add: same_frame_def)+

lemma same_frame_overwrite: "pos + length bs \<le> length (mp_bytes P) \<Longrightarrow> same_frame P (overwrite P pos bs)"
  by (simp add: same_frame_def overwrite_def)

text \<open>What freeing writes into the block.\<close>

lemma free_fast_writes:
  assumes env: "mp_env_ok env" and t: "tiles env (mp_n P) (add_mset (pos, len) M)" and mem: "mp_n P \<le> length (mp_bytes P)"
    and x: "x < 2 ^ (8 * link_bytes env)"
  obtains P1 P2 where "store_link env P pos x = Inr P1"
    and "write_bytes P1 (pos + link_bytes env) (replicate (len - link_bytes env) 0xDD) = Inr P2"
    and "same_frame P P2" and "keeps P P2 M" and "load_link env P2 pos = Inr x"
proof -
  let ?L = "link_bytes env"
  from tiles_block [OF t, of "(pos, len)"] have b: "AlignSize env dvd len" "0 < len" "pos + len \<le> mp_n P" by auto
  have L: "?L \<le> len" using mp_env_dvd(4) [OF env] b(1,2) dvd_imp_le le_trans by blast
  define P1 where "P1 = overwrite P pos (store_le ?L x)"
  define P2 where "P2 = overwrite P1 (pos + ?L) (replicate (len - ?L) 0xDD)"
  have f1: "same_frame P P1" unfolding P1_def by (rule same_frame_overwrite) (use L b mem in simp)
  have f2: "same_frame P1 P2" unfolding P2_def by (rule same_frame_overwrite) (use L b mem same_frame_simps(9) [OF f1] in simp)
  have k1: "keeps P P1 M" unfolding P1_def by (rule keeps_overwrite [OF t]) (use L mem in auto)
  have k2: "keeps P1 P2 M" unfolding P2_def by (rule keeps_overwrite [OF t]) (use L mem same_frame_simps(9) [OF f1] in auto)
  have "load_link env P2 pos = load_link env P1 pos"
    by (rule load_link_cong) (use L b mem same_frame_simps(9) [OF f1] same_frame_simps(9) [OF f2] in \<open>auto simp: P2_def nth_overwrite\<close>)
  also have "\<dots> = Inr x" unfolding P1_def using L b(3) mem x by (simp add: load_link_stored)
  finally have "load_link env P2 pos = Inr x" .
  moreover have "store_link env P pos x = Inr P1" unfolding P1_def by (rule store_link_eq) (use L b(3) mem in simp)
  moreover have "write_bytes P1 (pos + ?L) (replicate (len - ?L) 0xDD) = Inr P2"
    unfolding P2_def by (rule write_bytes_eq) (use L b(3) mem same_frame_simps(9) [OF f1] in simp)
  ultimately show thesis using that same_frame_trans [OF f1 f2] keeps_trans [OF k1 k2] by blast
qed

text \<open>A block that links to the old head in front of a list.\<close>

lemma fast_ok_push:
  assumes env: "mp_env_ok env" and ok: "fast_ok env P F" and i: "i < free_list_len P"
    and pos: "AlignSize env dvd pos" "pos < link_limit env"
    and ld: "load_link env P pos = Inr (head h)" and h: "get_head P i = Inr h"
    and cl: "length (fast F ! i) + 1 < 2 ^ (8 * link_bytes env)"
  shows "fast_ok env (set_head P i \<lparr>head = link_size env (pos_link env pos), cnt = link_size env (cnt h + 1)\<rparr>)
    (F\<lparr>fast := (fast F)[i := pos # fast F ! i]\<rparr>)" (is "fast_ok env ?P ?F")
proof -
  from ok obtain arr where arr: "free_list_arr P = Some arr" "length arr = free_list_len P" "length (fast F) = free_list_len P"
    and ch: "\<And>i. i < free_list_len P \<Longrightarrow> chain env (load_link env P) 0 (head (arr ! i)) (fast F ! i)"
    and ct: "\<And>i. i < free_list_len P \<Longrightarrow> cnt (arr ! i) = length (fast F ! i)"
    and sz: "sizeof_huge_link env \<le> free_list_len P * AlignSize env"
    unfolding fast_ok_def by blast
  have hi: "h = arr ! i" using h arr i by (simp add: get_head_def)
  have "chain env (load_link env P) 0 (pos_link env pos) (pos # fast F ! i)"
    using ld ch [OF i] pos_link_less [OF pos(2)] link_pos_pos_link [OF env pos(1)] hi by simp
  moreover have "link_size env (cnt h + 1) = length (pos # fast F ! i)" using cl ct [OF i] hi by (simp add: link_size_def)
  ultimately show ?thesis using arr sz ch ct i pos(2) by (auto simp: fast_ok_def nth_list_update)
qed

lemma fast_block_at:
  assumes "fast_ok env P F" and "tiles env n (free_blocks env F + live)" and "i < free_list_len P" and "p \<in> set (fast F ! i)"
  shows "(p, Suc i * AlignSize env) \<in># fast_blocks env (fast F)" and "p + Suc i * AlignSize env \<le> n"
    and "AlignSize env dvd p"
proof -
  have "i < length (fast F)" using assms(1,3) by (simp add: fast_ok_def)
  from fast_blocks_member [OF this assms(4)] show m: "(p, Suc i * AlignSize env) \<in># fast_blocks env (fast F)" .
  then have "(p, Suc i * AlignSize env) \<in># free_blocks env F + live" by (simp add: free_blocks_def)
  from tiles_block [OF assms(2) this] show "p + Suc i * AlignSize env \<le> n" "AlignSize env dvd p" by simp_all
qed

lemma free_fast_ok:
  assumes env: "mp_env_ok env" and sh: "mp_shape env P F (add_mset (pos, len) live)" and len: "len \<le> free_list_len P * AlignSize env"
  shows "\<exists>P' F'. free_fast env P pos len = Inr P' \<and> mp_shape env P' F' live \<and> keeps P P' live \<and> counts_same P P' \<and>
    mp_n P' = mp_n P \<and> vv_c (mp_mem P') = vv_c (mp_mem P) \<and>
    free_blocks env F' = add_mset (pos, len) (free_blocks env F) \<and> huge F' = huge F \<and> huge_blocks F' = huge_blocks F \<and>
    length (fast F') = length (fast F) \<and> (let i = len div AlignSize env - 1 in fast F' ! i = pos # fast F ! i)"
proof -
  define i where "i = len div AlignSize env - 1"
  let ?M = "free_blocks env F + live"
  have t: "tiles env (mp_n P) (add_mset (pos, len) ?M)" and f: "fast_ok env P F" and h: "huge_ok env P F"
    and mem: "length (mp_bytes P) = vv_c (mp_mem P)" "mp_n P \<le> vv_c (mp_mem P)" "mp_n P \<le> link_limit env"
    using sh by (simp_all add: mp_shape_def mem_ok_def)
  from tiles_block [OF t, of "(pos, len)"] have b: "AlignSize env dvd pos" "AlignSize env dvd len" "0 < len" "pos + len \<le> mp_n P" by auto
  from size_index [OF env b(2,3) len] have i: "Suc i * AlignSize env = len" "i < free_list_len P" by (auto simp: i_def)
  from f i(2) obtain hd where hd: "get_head P i = Inr hd" and ch: "chain env (load_link env P) 0 (head hd) (fast F ! i)"
    by (auto simp: fast_ok_def get_head_def)
  have "head hd < 2 ^ (8 * link_bytes env)"
    unfolding chain_head [OF ch] using fast_block_at [OF f, of "mp_n P" "add_mset (pos, len) live" i] t i b(3) mem(3)
    by (intro link_to_less) fastforce
  from free_fast_writes [OF env t _ this] mem obtain P1 P2 where
    run: "store_link env P pos (head hd) = Inr P1" "write_bytes P1 (pos + link_bytes env) (replicate (len - link_bytes env) 0xDD) = Inr P2"
    and fr: "same_frame P P2" and k: "keeps P P2 ?M" and ld: "load_link env P2 pos = Inr (head hd)" by auto
  note fr = same_frame_simps [OF fr]
  let ?P = "set_head P2 i \<lparr>head = link_size env (pos_link env pos), cnt = link_size env (cnt hd + 1)\<rparr>"
  let ?F = "F\<lparr>fast := (fast F)[i := pos # fast F ! i]\<rparr>"
  have fb: "fast_blocks env (fast ?F) = add_mset (pos, len) (fast_blocks env (fast F))"
    using fast_blocks_update [of i "fast F" env pos] i f by (simp add: fast_ok_def)
  have hb: "huge_blocks ?F = huge_blocks F" by (simp add: huge_blocks_def)
  have bl: "free_blocks env ?F = add_mset (pos, len) (free_blocks env F)" unfolding free_blocks_def fb hb by simp
  have t': "tiles env (mp_n P) (fast_blocks env (fast ?F) + (huge_blocks F + live))" using t unfolding fb free_blocks_def by (simp add: ac_simps)
  have "fast_ok env P2 F"
    by (rule fast_ok_keeps [OF env f, where n = "mp_n P" and M = "add_mset (pos, len) (huge_blocks F + live)"])
      (use k t mem fr in \<open>auto simp: free_blocks_def ac_simps\<close>)
  moreover have "length (fast F ! i) + 1 < 2 ^ (8 * link_bytes env)"
    using fast_count [OF env t' mem(3), of i] i(2) f by (simp add: fast_ok_def)
  ultimately have "fast_ok env ?P ?F"
    using i(2) b mem(3) ld hd fr by (intro fast_ok_push [OF env]) (auto simp: get_head_def)
  moreover have "huge_ok env ?P ?F"
  proof -
    have "huge_ok env P2 F"
      by (rule huge_ok_keeps [OF h, where n = "mp_n P" and M = "add_mset (pos, len) (fast_blocks env (fast F) + live)"])
        (use k t mem fr f in \<open>auto simp: free_blocks_def fast_ok_def ac_simps\<close>)
    then show ?thesis by (simp add: huge_ok_def level_list_def)
  qed
  ultimately have "mp_shape env ?P ?F live" using mem t fr by (simp add: mp_shape_def mem_ok_def bl)
  moreover have "free_fast env P pos len = Inr ?P"
    using hd b(3,4) run by (simp add: free_fast_def Let_def mp_at_def i_def [symmetric] del: One_nat_def)
  moreover have "keeps P ?P live" "counts_same P ?P" using k fr by (simp_all add: counts_same_def)
  moreover have "fast ?F ! i = pos # fast F ! i" using i f by (simp add: fast_ok_def)
  ultimately show ?thesis using bl hb fr unfolding Let_def i_def [symmetric] by (intro exI [of _ ?P] exI [of _ ?F]) auto
qed

end
