(* ===== verification/Mempool_Skip.thy ===== *)
theory Mempool_Skip
  imports Mempool_Free
begin

text \<open>
  The skip list: what the search finds on a list that keeps the invariant, and what linking and unlinking a node does
  to the lists of all levels and to memory.
\<close>

section \<open>Nodes\<close>

text \<open>The nodes as blocks of the size of \<open>huge_link_t\<close>.\<close>

definition nodes_ok :: "mp_env \<Rightarrow> nat \<Rightarrow> nat set \<Rightarrow> bool" where
  "nodes_ok env n N \<longleftrightarrow> (\<forall>p\<in>N. p + sizeof_huge_link env \<le> n \<and> AlignSize env dvd p) \<and>
     (\<forall>p\<in>N. \<forall>q\<in>N. p \<noteq> q \<longrightarrow> p + sizeof_huge_link env \<le> q \<or> q + sizeof_huge_link env \<le> p)"

lemma nodes_ok_subset: "nodes_ok env n N \<Longrightarrow> N' \<subseteq> N \<Longrightarrow> nodes_ok env n N'"
  by (auto simp: nodes_ok_def)

lemma nodes_ok_tiles:
  assumes t: "tiles env n H" and N: "\<And>q. q \<in> N \<Longrightarrow> \<exists>l\<ge>sizeof_huge_link env. (q, l) \<in># H"
  shows "nodes_ok env n N"
  unfolding nodes_ok_def
proof (intro conjI ballI impI)
  fix p assume p: "p \<in> N"
  from N [OF p] obtain l where l: "l \<ge> sizeof_huge_link env" "(p, l) \<in># H" by blast
  from tiles_block [OF t l(2)] l(1) show "p + sizeof_huge_link env \<le> n" "AlignSize env dvd p" by auto
  fix q assume q: "q \<in> N" "p \<noteq> q"
  from N [OF q(1)] obtain l' where l': "l' \<ge> sizeof_huge_link env" "(q, l') \<in># H" by blast
  from l(2) obtain H' where H': "H = add_mset (p, l) H'" by (auto dest: multi_member_split)
  with l'(2) q(2) obtain H'' where "H = add_mset (p, l) (add_mset (q, l') H'')" by (auto dest: multi_member_split)
  with t have "apart (p, l) (q, l')" by (auto dest: tiles_apart)
  with l(1) l'(1) show "p + sizeof_huge_link env \<le> q \<or> q + sizeof_huge_link env \<le> p" by (auto simp: apart_def)
qed

lemma field_inside: "j \<le> skip_list_level_max \<Longrightarrow> j * link_bytes env + link_bytes env \<le> sizeof_huge_link env"
  using mult_le_mono1 [of "Suc j" "1 + skip_list_level_max" "link_bytes env"] by (simp add: sizeof_huge_link_def)

lemma field_apart:
  "i \<noteq> j \<Longrightarrow> i * link_bytes env + link_bytes env \<le> j * link_bytes env \<or> j * link_bytes env + link_bytes env \<le> i * link_bytes env"
  using mult_le_mono1 [of "Suc i" j "link_bytes env"] mult_le_mono1 [of "Suc j" i "link_bytes env"] by fastforce

lemma mset_distinct:
  assumes "tiles env n (image_mset (\<lambda>p. (p, s p)) (mset ps) + M)"
  shows "distinct ps"
  using assms
proof (induction ps arbitrary: M)
  case (Cons p ps)
  have "p \<notin> set ps"
  proof
    assume "p \<in> set ps"
    then obtain H where "mset ps = add_mset p H" by (metis mset_add set_mset_mset)
    with Cons.prems have "tiles env n (add_mset (p, s p) (add_mset (p, s p) (image_mset (\<lambda>p. (p, s p)) H + M)))" by simp
    from tiles_apart [OF this] tiles_block(3) [OF this, of "(p, s p)"] show False by (simp add: apart_def)
  qed
  moreover have "distinct ps" using Cons.IH [of "add_mset (p, s p) M"] Cons.prems by simp
  ultimately show ?case by simp
qed simp

section \<open>The search\<close>

definition ptr_last :: "nat list \<Rightarrow> huge_ptr" where
  "ptr_last xs = (if xs = [] then Huge_list else Node (last xs))"

lemma ptr_last_simps [simp]: "ptr_last [] = Huge_list" "ptr_last (xs @ [x]) = Node x"
  by (simp_all add: ptr_last_def)

lemma get_next_chain:
  assumes "chain env (load_link env P) (Suc k) (huge_next (huge_list P) ! k) (us @ ys)" and "k < length (huge_next (huge_list P))"
  shows "get_next env P (ptr_last us) k = Inr (link_to env ys)"
  using assms chain_after [OF assms(1)] chain_head [OF assms(1)] by (cases "us = []") (auto simp: ptr_last_def)

text \<open>What the walks need to know of the nodes.\<close>

definition walkable :: "mp_env \<Rightarrow> mempool \<Rightarrow> free_lists \<Rightarrow> bool" where
  "walkable env P F \<longleftrightarrow> length (huge F) \<le> mp_n P \<and>
     (\<forall>p\<in>set (huge F). p < mp_n P \<and> p < link_limit env \<and> AlignSize env dvd p)"

lemma search_level_run:
  assumes env: "mp_env_ok env" and ok: "huge_ok env P F" and w: "walkable env P F" and k: "k < skip_list_level_max"
  shows "level_list F k = us @ xs @ ys \<Longrightarrow> \<forall>x\<in>set xs. siz F x < r \<Longrightarrow> ys = [] \<or> \<not> siz F (hd ys) < r \<Longrightarrow> length xs < fuel \<Longrightarrow>
    search_level env P r k fuel (ptr_last us) n2 =
      Inr (ptr_last (us @ xs), if ys \<noteq> [] then Some (hd ys) else if xs \<noteq> [] then Some (last xs) else n2)"
proof (induction xs arbitrary: us n2 fuel)
  have node: "link_pos env (pos_link env p) = p" "pos_link env p \<noteq> list_tail env" "mp_at P p = Inr p" "load_link env P p = Inr (siz F p)"
    if "p \<in> set (level_list F k)" for p
  proof -
    have "p \<in> set (huge F)" using that by (simp add: level_list_def)
    then show "link_pos env (pos_link env p) = p" "pos_link env p \<noteq> list_tail env" "mp_at P p = Inr p" "load_link env P p = Inr (siz F p)"
      using w ok link_pos_pos_link [OF env] pos_link_less [of p env] by (auto simp: walkable_def mp_at_def huge_ok_def)
  qed
  have nx: "get_next env P (ptr_last us) k = Inr (link_to env zs)" if "level_list F k = us @ zs" for us zs
    by (rule get_next_chain) (use ok k that in \<open>auto simp: huge_ok_def\<close>)
  {
    case Nil
    from Nil.prems(4) obtain f where f: "fuel = Suc f" by (cases fuel) auto
    show ?case
    proof (cases ys)
      case Nil
      with nx [of us "[]"] \<open>level_list F k = us @ [] @ ys\<close> f show ?thesis by simp
    next
      case (Cons y ys')
      with Nil.prems f nx [of us ys] node [of y] show ?thesis by simp
    qed
  next
    case (Cons x xs)
    from Cons.prems(4) obtain f where f: "fuel = Suc f" "length xs < f" by (cases fuel) auto
    have "search_level env P r k f (ptr_last (us @ [x])) (Some x) =
        Inr (ptr_last ((us @ [x]) @ xs), if ys \<noteq> [] then Some (hd ys) else if xs \<noteq> [] then Some (last xs) else Some x)"
      by (rule Cons.IH) (use Cons.prems f in auto)
    with Cons.prems f nx [of us "x # xs @ ys"] node [of x] show ?case by simp
  }
qed

text \<open>The nodes below the request, and the others.\<close>

abbreviation below :: "free_lists \<Rightarrow> nat \<Rightarrow> nat list" where
  "below F r \<equiv> takeWhile (\<lambda>p. siz F p < r) (huge F)"

abbreviation from_size :: "free_lists \<Rightarrow> nat \<Rightarrow> nat list" where
  "from_size F r \<equiv> dropWhile (\<lambda>p. siz F p < r) (huge F)"

definition on_level :: "free_lists \<Rightarrow> nat \<Rightarrow> nat list \<Rightarrow> nat list" where
  "on_level F k = filter (\<lambda>p. k < levels F p)"

lemma from_size_ge:
  assumes "sorted (map (siz F) (huge F))" and "p \<in> set (from_size F r)"
  shows "\<not> siz F p < r"
proof -
  from assms(2) obtain q qs where q: "from_size F r = q # qs" by (cases "from_size F r") auto
  have "map (siz F) (huge F) = map (siz F) (below F r) @ map (siz F) (q # qs)"
    unfolding q [symmetric] by (simp flip: map_append)
  with assms(1) have "sorted (map (siz F) (q # qs))" by (metis sorted_append)
  moreover have "\<not> siz F q < r" using hd_dropWhile [of "\<lambda>p. siz F p < r" "huge F"] q by force
  ultimately show ?thesis using assms(2) q by (auto simp: not_less intro: order_trans)
qed

lemma level_list_split: "level_list F k = on_level F k (below F r) @ on_level F k (from_size F r)"
  unfolding level_list_def on_level_def by (metis filter_append takeWhile_dropWhile_id)

lemma on_level_start:
  obtains us xs where "on_level F k zs = us @ xs" and "ptr_last us = ptr_last (on_level F (Suc k) zs)"
proof (cases "on_level F (Suc k) zs" rule: rev_cases)
  case Nil
  then show thesis using that [of "[]" "on_level F k zs"] by simp
next
  case (snoc vs v)
  then have "v \<in> set (on_level F (Suc k) zs)" by simp
  then have "v \<in> set (on_level F k zs)" by (auto simp: on_level_def)
  then obtain us xs where "on_level F k zs = us @ v # xs" by (meson split_list)
  then show thesis using that [of "us @ [v]" xs] snoc by simp
qed

text \<open>What \<open>n2\<close> is at the end: the first node that is large enough, or a node that is not.\<close>

definition found_node :: "free_lists \<Rightarrow> nat \<Rightarrow> nat option \<Rightarrow> bool" where
  "found_node F r n2 \<longleftrightarrow>
     (case from_size F r of [] \<Rightarrow> n2 = None \<or> (\<exists>p\<in>set (below F r). n2 = Some p) | p # _ \<Rightarrow> n2 = Some p)"

lemma search_levels_run:
  assumes env: "mp_env_ok env" and ok: "huge_ok env P F" and w: "walkable env P F"
  shows "k \<le> skip_list_level_max \<Longrightarrow> length update = skip_list_level_max \<Longrightarrow>
    (from_size F r = [] \<longrightarrow> found_node F r n2) \<Longrightarrow> (k = 0 \<longrightarrow> found_node F r n2) \<Longrightarrow>
    \<exists>n2' update'. search_levels env P r k (ptr_last (on_level F k (below F r))) n2 update = Inr (n2', update') \<and>
      length update' = skip_list_level_max \<and> found_node F r n2' \<and>
      (\<forall>j<k. update' ! j = Some (ptr_last (on_level F j (below F r)))) \<and> (\<forall>j\<ge>k. update' ! j = update ! j)"
proof (induction k arbitrary: n2 update)
  case (Suc k)
  let ?T = "below F r" and ?D = "from_size F r"
  from on_level_start [of F k ?T] obtain us xs where us: "on_level F k ?T = us @ xs"
    "ptr_last us = ptr_last (on_level F (Suc k) ?T)" by metis
  let ?ys = "on_level F k ?D"
  let ?n2 = "if ?ys \<noteq> [] then Some (hd ?ys) else if xs \<noteq> [] then Some (last xs) else n2"
  have xs: "set xs \<subseteq> set ?T" using us(1) by (metis Un_iff filter_is_subset on_level_def set_append subset_iff)
  have small: "\<forall>x\<in>set xs. siz F x < r" using xs by (auto dest: set_takeWhileD)
  have big: "?ys = [] \<or> \<not> siz F (hd ?ys) < r"
  proof (cases "?ys = []")
    case False
    then have "hd ?ys \<in> set ?D" using hd_in_set [OF False] by (simp add: on_level_def)
    moreover have "sorted (map (siz F) (huge F))" using ok by (simp add: huge_ok_def)
    ultimately show ?thesis using from_size_ge by blast
  qed simp
  have len: "length xs < Suc (mp_n P)"
  proof -
    have "length xs \<le> length (level_list F k)" using level_list_split [of F k r] us(1) by simp
    also have "\<dots> \<le> length (huge F)" by (simp add: level_list_def)
    finally show ?thesis using w by (simp add: walkable_def)
  qed
  have run: "search_level env P r k (Suc (mp_n P)) (ptr_last us) n2 = Inr (ptr_last (us @ xs), ?n2)"
    by (rule search_level_run [OF env ok w]) (use Suc.prems small big len level_list_split [of F k r] us(1) in auto)
  have all: "on_level F 0 ?D = ?D"
    using ok by (auto simp: on_level_def huge_ok_def intro!: filter_True dest: set_dropWhileD)
  have f1: "from_size F r = [] \<longrightarrow> found_node F r ?n2"
  proof
    assume D: "from_size F r = []"
    then have "found_node F r n2" "?ys = []" using Suc.prems(3) by (auto simp: on_level_def simp del: dropWhile_eq_Nil_conv)
    moreover have "xs \<noteq> [] \<Longrightarrow> last xs \<in> set ?T" using xs by auto
    ultimately show "found_node F r ?n2" using D by (auto simp: found_node_def simp del: dropWhile_eq_Nil_conv)
  qed
  have f2: "k = 0 \<longrightarrow> found_node F r ?n2"
    using f1 all by (cases ?D) (auto simp: found_node_def simp del: dropWhile_eq_Nil_conv)
  from Suc.IH [of "update[k := Some (ptr_last (us @ xs))]" ?n2] Suc.prems(1,2) f1 f2 us(1)
  obtain n2' update' where *: "search_levels env P r k (ptr_last (on_level F k ?T)) ?n2 (update[k := Some (ptr_last (us @ xs))]) = Inr (n2', update')"
    "length update' = skip_list_level_max" "found_node F r n2'"
    "\<forall>j<k. update' ! j = Some (ptr_last (on_level F j ?T))" "\<forall>j\<ge>k. update' ! j = update[k := Some (ptr_last (us @ xs))] ! j"
    by auto
  have "search_levels env P r (Suc k) (ptr_last (on_level F (Suc k) ?T)) n2 update = Inr (n2', update')"
    using run * Suc.prems(1,2) us by simp
  moreover have "\<forall>j<Suc k. update' ! j = Some (ptr_last (on_level F j ?T))"
    using * Suc.prems(1,2) us(1) by (auto simp: less_Suc_eq)
  moreover have "\<forall>j\<ge>Suc k. update' ! j = update ! j" using * by auto
  ultimately show ?case using * by blast
qed auto

lemma search_huge_run:
  assumes env: "mp_env_ok env" and ok: "huge_ok env P F" and w: "walkable env P F"
  obtains n2 update where "search_huge env P r = Inr (n2, update)" and "length update = skip_list_level_max"
    and "found_node F r n2" and "\<And>j. j < huge_size (huge_list P) \<Longrightarrow> update ! j = Some (ptr_last (on_level F j (below F r)))"
proof -
  let ?h = "huge_size (huge_list P)"
  have le: "?h \<le> skip_list_level_max" using ok by (simp add: huge_ok_def)
  have "on_level F ?h (below F r) = []"
    using ok by (auto simp: on_level_def huge_ok_def filter_empty_conv not_less dest: set_takeWhileD)
  then have top: "ptr_last (on_level F ?h (below F r)) = Huge_list" by simp
  have z: "?h = 0 \<longrightarrow> found_node F r None" using ok by (cases "huge F") (auto simp: huge_ok_def found_node_def)
  have e: "from_size F r = [] \<longrightarrow> found_node F r None" by (simp add: found_node_def del: dropWhile_eq_Nil_conv)
  have "\<exists>n2' update'. search_huge env P r = Inr (n2', update') \<and> length update' = skip_list_level_max \<and> found_node F r n2' \<and>
      (\<forall>j<?h. update' ! j = Some (ptr_last (on_level F j (below F r)))) \<and>
      (\<forall>j\<ge>?h. update' ! j = replicate skip_list_level_max None ! j)"
    using search_levels_run [OF env ok w le _ e z, of "replicate skip_list_level_max None"] unfolding top search_huge_def by simp
  then show thesis using that by blast
qed

end
