(* ===== verification/Mempool_Links.thy ===== *)
theory Mempool_Links
  imports Mempool_Skip
begin

text \<open>
  Linking a node into the skip list and unlinking it: which bytes change, and the list of every level afterwards.
\<close>

section \<open>What changes\<close>

text \<open>Links of the levels \<open>K\<close> in the nodes \<open>B\<close> and in the head of the skip list, and nothing else.\<close>

definition level_change :: "mp_env \<Rightarrow> nat set \<Rightarrow> nat set \<Rightarrow> mempool \<Rightarrow> mempool \<Rightarrow> bool" where
  "level_change env K B P P' \<longleftrightarrow>
     P' = P\<lparr>mp_mem := mp_mem P', huge_list := huge_list P'\<rparr> \<and> mp_n P' = mp_n P \<and> vv_c (mp_mem P') = vv_c (mp_mem P) \<and>
     length (mp_bytes P') = length (mp_bytes P) \<and> huge_size (huge_list P') = huge_size (huge_list P) \<and>
     length (huge_next (huge_list P')) = length (huge_next (huge_list P)) \<and>
     (\<forall>j. j \<notin> K \<longrightarrow> huge_next (huge_list P') ! j = huge_next (huge_list P) ! j) \<and>
     (\<forall>i. (\<forall>q\<in>B. \<forall>k\<in>K. \<not> covers i (q + Suc k * link_bytes env, link_bytes env)) \<longrightarrow> mp_bytes P' ! i = mp_bytes P ! i)"

lemma level_change_refl [simp]: "level_change env K B P P"
  by (simp add: level_change_def)

lemma level_change_mono: "level_change env K B P P' \<Longrightarrow> K \<subseteq> K' \<Longrightarrow> B \<subseteq> B' \<Longrightarrow> level_change env K' B' P P'"
  unfolding level_change_def by blast

lemma level_change_trans:
  assumes "level_change env K B P Q" and "level_change env K B Q R"
  shows "level_change env K B P R"
proof -
  have "R = P\<lparr>mp_mem := mp_mem R, huge_list := huge_list R\<rparr>"
    using assms by (cases P; cases Q; cases R) (simp add: level_change_def)
  with assms show ?thesis unfolding level_change_def by (metis (no_types, lifting))
qed

lemma level_change_simps:
  assumes "level_change env K B P P'"
  shows "free_list_arr P' = free_list_arr P" "free_list_len P' = free_list_len P" "fragment_size P' = fragment_size P"
    "huge_size_sum P' = huge_size_sum P" "huge_node_cnt P' = huge_node_cnt P" "mp_n P' = mp_n P"
    "vv_c (mp_mem P') = vv_c (mp_mem P)" "length (mp_bytes P') = length (mp_bytes P)"
    "huge_size (huge_list P') = huge_size (huge_list P)" "length (huge_next (huge_list P')) = length (huge_next (huge_list P))"
    "j \<notin> K \<Longrightarrow> huge_next (huge_list P') ! j = huge_next (huge_list P) ! j"
  using assms by (cases P; cases P'; simp add: level_change_def)+

text \<open>Blocks that are not nodes are left alone.\<close>

lemma level_change_keeps:
  assumes c: "level_change env K B P P'" and t: "tiles env n (H + M)" and K: "\<And>k. k \<in> K \<Longrightarrow> k < skip_list_level_max"
    and B: "\<And>q. q \<in> B \<Longrightarrow> \<exists>l\<ge>sizeof_huge_link env. (q, l) \<in># H"
  shows "keeps P P' M"
  unfolding keeps_def
proof (intro ballI allI impI)
  fix b i assume b: "b \<in># M" "covers i b"
  have "\<not> covers i (q + Suc k * link_bytes env, link_bytes env)" if q: "q \<in> B" "k \<in> K" for q k
  proof
    assume i: "covers i (q + Suc k * link_bytes env, link_bytes env)"
    from B [OF q(1)] obtain l where l: "l \<ge> sizeof_huge_link env" "(q, l) \<in># H" by blast
    have "Suc k * link_bytes env + link_bytes env \<le> l"
      using field_inside [of "Suc k" env] K [OF q(2)] l(1) by simp
    with i have "covers i (q, l)" by (auto simp: covers_def)
    moreover have "apart (q, l) b"
    proof -
      from l(2) obtain H' where H: "H = add_mset (q, l) H'" by (auto dest: multi_member_split)
      from b(1) obtain M' where M: "M = add_mset b M'" by (auto dest: multi_member_split)
      from t [unfolded H M] have "tiles env n (add_mset (q, l) (add_mset b (H' + M')))" by (simp add: add_mset_commute)
      then show ?thesis by (rule tiles_apart)
    qed
    ultimately show False using b(2) apart_covers by blast
  qed
  with c show "mp_bytes P' ! i = mp_bytes P ! i" by (auto simp: level_change_def)
qed

text \<open>Fields of the nodes that are not links of these levels are left alone.\<close>

lemma level_change_field:
  assumes c: "level_change env K B P P'" and N: "nodes_ok env n N" "B \<subseteq> N" "p \<in> N" and n: "n \<le> length (mp_bytes P)"
    and K: "\<And>k. k \<in> K \<Longrightarrow> k < skip_list_level_max" and j: "j \<le> skip_list_level_max"
    and other: "p \<notin> B \<or> (\<forall>k\<in>K. j \<noteq> Suc k)"
  shows "load_link env P' (p + j * link_bytes env) = load_link env P (p + j * link_bytes env)"
proof (rule load_link_cong)
  have p: "p + sizeof_huge_link env \<le> n" using N by (auto simp: nodes_ok_def)
  with n field_inside [OF j, of env] show l: "p + j * link_bytes env + link_bytes env \<le> length (mp_bytes P)" by simp
  then show "p + j * link_bytes env + link_bytes env \<le> length (mp_bytes P')" using level_change_simps(8) [OF c] by simp
  fix i assume i: "p + j * link_bytes env \<le> i" "i < p + j * link_bytes env + link_bytes env"
  have "\<not> covers i (q + Suc k * link_bytes env, link_bytes env)" if q: "q \<in> B" "k \<in> K" for q k
  proof (cases "q = p")
    case True
    with other q have "j \<noteq> Suc k" by auto
    from field_apart [OF this, of env] i True show ?thesis unfolding covers_def fst_conv snd_conv by linarith
  next
    case False
    with N q(1) have "p + sizeof_huge_link env \<le> q \<or> q + sizeof_huge_link env \<le> p" by (auto simp: nodes_ok_def)
    moreover have "Suc k * link_bytes env + link_bytes env \<le> sizeof_huge_link env"
      using field_inside [of "Suc k" env] K [OF q(2)] by simp
    ultimately show ?thesis using i field_inside [OF j, of env] by (auto simp: covers_def)
  qed
  with c show "mp_bytes P' ! i = mp_bytes P ! i" by (auto simp: level_change_def)
qed

lemma level_change_chain:
  assumes "level_change env K B P P'" and "nodes_ok env n N" "B \<subseteq> N" "set xs \<subseteq> N" and "n \<le> length (mp_bytes P)"
    and "\<And>k. k \<in> K \<Longrightarrow> k < skip_list_level_max" and "j < skip_list_level_max" and "j \<notin> K"
    and "chain env (load_link env P) (Suc j) (huge_next (huge_list P) ! j) xs"
  shows "chain env (load_link env P') (Suc j) (huge_next (huge_list P') ! j) xs"
  unfolding level_change_simps(11) [OF assms(1) assms(8)]
  by (rule seg_cong [OF assms(9)], rule level_change_field [OF assms(1,2,3) _ assms(5,6)]) (use assms in auto)

section \<open>One level\<close>

definition node_set :: "huge_ptr \<Rightarrow> nat set" where
  "node_set n1 = (case n1 of Huge_list \<Rightarrow> {} | Node q \<Rightarrow> {q})"

lemma set_next_ok:
  assumes N: "nodes_ok env n N" "node_set n1 \<subseteq> N" and n: "n \<le> length (mp_bytes P)" and k: "k < skip_list_level_max"
    and len: "length (huge_next (huge_list P)) = skip_list_level_max" and x: "x < 2 ^ (8 * link_bytes env)"
  obtains P' where "set_next env P n1 k x = Inr P'" and "level_change env {k} (node_set n1) P P'" and "get_next env P' n1 k = Inr x"
    and "n1 \<noteq> Huge_list \<Longrightarrow> huge_list P' = huge_list P"
proof (cases n1)
  case Huge_list
  let ?P = "P\<lparr>huge_list := (huge_list P)\<lparr>huge_next := (huge_next (huge_list P))[k := x]\<rparr>\<rparr>"
  have "set_next env P n1 k x = Inr ?P" using Huge_list k len x by (simp add: link_size_def)
  moreover have "level_change env {k} (node_set n1) P ?P" by (auto simp: level_change_def)
  moreover have "get_next env ?P n1 k = Inr x" using Huge_list k len by simp
  ultimately show thesis using that Huge_list by blast
next
  case (Node q)
  let ?a = "q + (1 + k) * link_bytes env"
  have "q + sizeof_huge_link env \<le> n" using N Node by (auto simp: nodes_ok_def node_set_def)
  then have a: "?a + link_bytes env \<le> length (mp_bytes P)" using field_inside [of "Suc k" env] k n by simp
  let ?P = "overwrite P ?a (store_le (link_bytes env) x)"
  have "set_next env P n1 k x = Inr ?P" using Node store_link_eq [OF a] by simp
  moreover have "level_change env {k} (node_set n1) P ?P"
    using Node a by (auto simp: level_change_def node_set_def covers_def nth_overwrite overwrite_def [of P ?a])
  moreover have "get_next env ?P n1 k = Inr x" using Node load_link_stored [OF a, of x] x by simp
  ultimately show thesis using that [of ?P] by simp
qed

lemma node_set_last: "node_set (ptr_last xs) = (if xs = [] then {} else {last xs})"
  by (simp add: node_set_def ptr_last_def)

text \<open>The link behind \<open>us\<close> set to \<open>z\<close>: the level goes on from there.\<close>

lemma relink_level:
  assumes c: "level_change env {k} (node_set (ptr_last us)) P P'" and g: "get_next env P' (ptr_last us) k = Inr z"
    and h: "ptr_last us \<noteq> Huge_list \<Longrightarrow> huge_list P' = huge_list P"
    and N: "nodes_ok env n N" "set us \<subseteq> N" "distinct us" and n: "n \<le> length (mp_bytes P)" and k: "k < skip_list_level_max"
    and ch: "seg env (load_link env P) (Suc k) (huge_next (huge_list P) ! k) us y"
  shows "seg env (load_link env P') (Suc k) (huge_next (huge_list P') ! k) us z"
proof (cases us rule: rev_cases)
  case Nil
  with g show ?thesis by (simp split: if_splits)
next
  case (snoc vs v)
  then have h': "huge_list P' = huge_list P" using h by simp
  show ?thesis
    unfolding h'
  proof (rule seg_relink [OF ch])
    show "load_link env P' (last us + Suc k * link_bytes env) = Inr z" using g snoc by simp
    fix p assume p: "p \<in> set (butlast us)"
    then have "p \<noteq> v" "p \<in> N" using N(2,3) snoc by auto
    moreover have "v \<in> N" using N(2) snoc by simp
    ultimately show "load_link env P' (p + Suc k * link_bytes env) = load_link env P (p + Suc k * link_bytes env)"
      using snoc k by (intro level_change_field [OF c N(1) _ _ n]) (auto simp: node_set_def)
  qed (use snoc N(3) in auto)
qed

text \<open>Behind \<open>us\<close> the list \<open>ys\<close> goes on from its own nodes, which the change did not reach.\<close>

lemma relink_rest:
  assumes c: "level_change env {k} (node_set (ptr_last us)) P P'" and N: "nodes_ok env n N" "set us \<subseteq> N" "set ys \<subseteq> N"
    and d: "set us \<inter> set ys = {}" and n: "n \<le> length (mp_bytes P)" and k: "k < skip_list_level_max"
    and ch: "chain env (load_link env P) (Suc k) x ys"
  shows "chain env (load_link env P') (Suc k) x ys"
proof (rule seg_cong [OF ch])
  fix p assume p: "p \<in> set ys"
  have "node_set (ptr_last us) \<subseteq> set us" by (auto simp: node_set_last)
  with p d N k show "load_link env P' (p + Suc k * link_bytes env) = load_link env P (p + Suc k * link_bytes env)"
    by (intro level_change_field [OF c N(1) _ _ n]) auto
qed

section \<open>Unlinking\<close>

lemma link_to_eq:
  assumes "mp_env_ok env" and "\<And>p. p \<in> insert pos (set ys) \<Longrightarrow> AlignSize env dvd p \<and> p < link_limit env"
  shows "link_to env ys = pos_link env pos \<longleftrightarrow> ys \<noteq> [] \<and> hd ys = pos"
proof (cases ys)
  case Nil
  with assms(2) [of pos] pos_link_less [of pos env] show ?thesis by simp
next
  case (Cons y zs)
  then have "link_pos env (pos_link env y) = y" "link_pos env (pos_link env pos) = pos"
    using assms(2) [of y] assms(2) [of pos] by (auto intro: link_pos_pos_link [OF assms(1)])
  then have "pos_link env y = pos_link env pos \<longleftrightarrow> y = pos" by metis
  with Cons show ?thesis by simp
qed

lemma unlink_level_run:
  assumes env: "mp_env_ok env" and N: "nodes_ok env n N" "set (us @ ys) \<subseteq> N" "pos \<in> N" "distinct (us @ ys)"
    and lim: "\<And>p. p \<in> N \<Longrightarrow> p < link_limit env" and n: "n \<le> length (mp_bytes P)" and k: "k < skip_list_level_max"
    and len: "length (huge_next (huge_list P)) = skip_list_level_max" and upd: "read_update update k = Inr (ptr_last us)"
    and ch: "chain env (load_link env P) (Suc k) (huge_next (huge_list P) ! k) (us @ ys)"
    and ys': "ys' = (if ys \<noteq> [] \<and> hd ys = pos then tl ys else ys)"
  obtains P' where "unlink_level env update pos P k = Inr P'" and "level_change env {k} N P P'"
    and "chain env (load_link env P') (Suc k) (huge_next (huge_list P') ! k) (us @ ys')"
proof -
  have nx: "get_next env P (ptr_last us) k = Inr (link_to env ys)" by (rule get_next_chain [OF ch]) (use len k in simp)
  have al: "AlignSize env dvd p" if "p \<in> N" for p using N(1) that by (auto simp: nodes_ok_def)
  have eq: "link_to env ys = pos_link env pos \<longleftrightarrow> ys \<noteq> [] \<and> hd ys = pos"
    by (rule link_to_eq [OF env]) (use N al lim in auto)
  show thesis
  proof (cases "ys \<noteq> [] \<and> hd ys = pos")
    case False
    with nx eq upd have "unlink_level env update pos P k = Inr P" by (simp add: unlink_level_def)
    with that [of P] ch False ys' show thesis by (metis level_change_refl)
  next
    case True
    then obtain zs where ys: "ys = pos # zs" by (cases ys) auto
    from ch ys obtain y where u: "seg env (load_link env P) (Suc k) (huge_next (huge_list P) ! k) us y"
      "load_link env P (pos + Suc k * link_bytes env) = Inr (link_to env zs)"
      "chain env (load_link env P) (Suc k) (link_to env zs) zs"
      by (auto simp: seg_append dest: chain_head)
    have x: "link_to env zs < 2 ^ (8 * link_bytes env)" by (rule link_to_less) (use N lim ys in auto)
    have us: "node_set (ptr_last us) \<subseteq> N" using N(2) by (auto simp: node_set_last)
    from set_next_ok [OF N(1) us n k len x] obtain P' where P': "set_next env P (ptr_last us) k (link_to env zs) = Inr P'"
      "level_change env {k} (node_set (ptr_last us)) P P'" "get_next env P' (ptr_last us) k = Inr (link_to env zs)"
      "ptr_last us \<noteq> Huge_list \<Longrightarrow> huge_list P' = huge_list P" by blast
    have "unlink_level env update pos P k = Inr P'" using upd nx eq True u(2) P'(1) by (simp add: unlink_level_def)
    moreover have "level_change env {k} N P P'" using P'(2) us by (rule level_change_mono [OF _ subset_refl])
    moreover have "seg env (load_link env P') (Suc k) (huge_next (huge_list P') ! k) us (link_to env zs)"
      by (rule relink_level [OF P'(2,3,4) N(1) _ _ n k u(1)]) (use N in auto)
    moreover have "chain env (load_link env P') (Suc k) (link_to env zs) zs"
      by (rule relink_rest [OF P'(2) N(1) _ _ _ n k u(3)]) (use N ys in auto)
    ultimately show thesis using that [of P'] ys' ys by (auto simp: seg_append)
  qed
qed

lemma unlink_levels_run:
  assumes env: "mp_env_ok env" and N: "nodes_ok env n N" "set (T @ pos # D) \<subseteq> N" "distinct (T @ pos # D)"
    and lim: "\<And>p. p \<in> N \<Longrightarrow> p < link_limit env"
  shows "n \<le> length (mp_bytes P) \<Longrightarrow> length (huge_next (huge_list P)) = skip_list_level_max \<Longrightarrow> distinct ks \<Longrightarrow>
    \<forall>k\<in>set ks. k < skip_list_level_max \<and> read_update update k = Inr (ptr_last (on_level F k T)) \<and>
      chain env (load_link env P) (Suc k) (huge_next (huge_list P) ! k) (on_level F k T @ on_level F k (pos # D)) \<Longrightarrow>
    \<exists>P'. unlink_levels env update pos P ks = Inr P' \<and> level_change env (set ks) N P P' \<and>
      (\<forall>k\<in>set ks. chain env (load_link env P') (Suc k) (huge_next (huge_list P') ! k) (on_level F k T @ on_level F k D))"
proof (induction ks arbitrary: P)
  case (Cons k ks)
  let ?us = "\<lambda>k. on_level F k T" and ?ys = "\<lambda>k. on_level F k (pos # D)"
  have sub: "set (?us j @ on_level F j D) \<subseteq> N" "set (?us j @ ?ys j) \<subseteq> N" "distinct (?us j @ ?ys j)" "pos \<in> N" for j
    using N(2,3) by (auto simp: on_level_def)
  have ys': "on_level F j D = (if ?ys j \<noteq> [] \<and> hd (?ys j) = pos then tl (?ys j) else ?ys j)" for j
  proof -
    have "pos \<notin> set (on_level F j D)" using N(3) by (auto simp: on_level_def)
    then have "on_level F j D = [] \<or> hd (on_level F j D) \<noteq> pos" using hd_in_set by force
    then show ?thesis by (auto simp: on_level_def)
  qed
  from Cons.prems have k: "k < skip_list_level_max" "read_update update k = Inr (ptr_last (?us k))"
    "chain env (load_link env P) (Suc k) (huge_next (huge_list P) ! k) (?us k @ ?ys k)" by auto
  from unlink_level_run [OF env N(1) sub(2,4,3) lim Cons.prems(1) k(1) Cons.prems(2) k(2,3) ys']
  obtain P1 where P1: "unlink_level env update pos P k = Inr P1" "level_change env {k} N P P1"
    "chain env (load_link env P1) (Suc k) (huge_next (huge_list P1) ! k) (?us k @ on_level F k D)" by blast
  note s = level_change_simps [OF P1(2)]
  have "\<forall>j\<in>set ks. j < skip_list_level_max \<and> read_update update j = Inr (ptr_last (?us j)) \<and>
      chain env (load_link env P1) (Suc j) (huge_next (huge_list P1) ! j) (?us j @ ?ys j)"
  proof (intro ballI conjI)
    fix j assume j: "j \<in> set ks"
    with Cons.prems show j': "j < skip_list_level_max" "read_update update j = Inr (ptr_last (?us j))" by auto
    have jk: "j \<notin> {k}" using j Cons.prems(3) by auto
    show "chain env (load_link env P1) (Suc j) (huge_next (huge_list P1) ! j) (?us j @ ?ys j)"
      by (rule level_change_chain [OF P1(2) N(1) subset_refl sub(2) Cons.prems(1) _ j'(1) jk]) (use k(1) j Cons.prems(4) in auto)
  qed
  with Cons.IH [of P1] Cons.prems s obtain P' where P': "unlink_levels env update pos P1 ks = Inr P'"
    "level_change env (set ks) N P1 P'"
    "\<forall>k\<in>set ks. chain env (load_link env P') (Suc k) (huge_next (huge_list P') ! k) (?us k @ on_level F k D)" by auto
  have "chain env (load_link env P') (Suc k) (huge_next (huge_list P') ! k) (?us k @ on_level F k D)"
    by (rule level_change_chain [OF P'(2) N(1) subset_refl sub(1) _ _ k(1) _ P1(3)]) (use Cons.prems s in auto)
  moreover have "level_change env (set (k # ks)) N P P'"
    by (rule level_change_trans [OF level_change_mono [OF P1(2)] level_change_mono [OF P'(2)]]) auto
  ultimately show ?case using P1(1) P'(1,3) by auto
qed auto

section \<open>Linking\<close>

lemma link_level_run:
  assumes env: "mp_env_ok env" and N: "nodes_ok env n N" "set (us @ ys) \<subseteq> N" "pos \<in> N" "distinct (us @ pos # ys)"
    and lim: "\<And>p. p \<in> N \<Longrightarrow> p < link_limit env" and n: "n \<le> length (mp_bytes P)" and k: "k < skip_list_level_max"
    and len: "length (huge_next (huge_list P)) = skip_list_level_max"
    and ch: "chain env (load_link env P) (Suc k) (huge_next (huge_list P) ! k) (us @ ys)"
  obtains P1 P2 where "get_next env P (ptr_last us) k = Inr (link_to env ys)"
    and "set_next env P (Node pos) k (link_to env ys) = Inr P1"
    and "set_next env P1 (ptr_last us) k (pos_link env pos) = Inr P2" and "level_change env {k} N P P2"
    and "chain env (load_link env P2) (Suc k) (huge_next (huge_list P2) ! k) (us @ pos # ys)"
proof -
  have nx: "get_next env P (ptr_last us) k = Inr (link_to env ys)" by (rule get_next_chain [OF ch]) (use len k in simp)
  from ch obtain y where u: "seg env (load_link env P) (Suc k) (huge_next (huge_list P) ! k) us y"
    "chain env (load_link env P) (Suc k) (link_to env ys) ys" by (auto simp: seg_append dest: chain_head)
  have ys: "set ys \<subseteq> N" "set us \<subseteq> N" using N(2) by auto
  have x: "link_to env ys < 2 ^ (8 * link_bytes env)" by (rule link_to_less) (use N lim in auto)
  have pl: "pos_link env pos < list_tail env" "link_pos env (pos_link env pos) = pos"
    using pos_link_less [OF lim [OF N(3)]] N(1,3) link_pos_pos_link [OF env] by (auto simp: nodes_ok_def)
  have x2: "pos_link env pos < 2 ^ (8 * link_bytes env)" using pl(1) list_tail_less(1) by (rule less_trans)
  have B1: "node_set (Node pos) = node_set (ptr_last [pos])" "node_set (ptr_last [pos]) \<subseteq> N" using N(3) by (simp_all add: node_set_def ptr_last_def)
  from set_next_ok [OF N(1) B1(2) n k len x] obtain P1 where P1: "set_next env P (ptr_last [pos]) k (link_to env ys) = Inr P1"
    "level_change env {k} (node_set (ptr_last [pos])) P P1" "get_next env P1 (ptr_last [pos]) k = Inr (link_to env ys)"
    "huge_list P1 = huge_list P" by (auto simp: ptr_last_def)
  note s1 = level_change_simps [OF P1(2)]
  have n1: "n \<le> length (mp_bytes P1)" and len1: "length (huge_next (huge_list P1)) = skip_list_level_max" using n len s1 by simp_all
  have B2: "node_set (ptr_last us) \<subseteq> N" using ys by (auto simp: node_set_last)
  from set_next_ok [OF N(1) B2 n1 k len1 x2] obtain P2 where P2: "set_next env P1 (ptr_last us) k (pos_link env pos) = Inr P2"
    "level_change env {k} (node_set (ptr_last us)) P1 P2" "get_next env P2 (ptr_last us) k = Inr (pos_link env pos)"
    "ptr_last us \<noteq> Huge_list \<Longrightarrow> huge_list P2 = huge_list P1" by blast
  have "level_change env {k} N P P2"
    by (rule level_change_trans [OF level_change_mono [OF P1(2) subset_refl B1(2)] level_change_mono [OF P2(2) subset_refl B2]])
  moreover have "seg env (load_link env P2) (Suc k) (huge_next (huge_list P2) ! k) us (pos_link env pos)"
  proof (rule relink_level [OF P2(2,3,4) N(1) ys(2) _ n1 k])
    show "seg env (load_link env P1) (Suc k) (huge_next (huge_list P1) ! k) us y"
      unfolding P1(4)
    proof (rule seg_cong [OF u(1)])
      fix p assume "p \<in> set us"
      with N ys k show "load_link env P1 (p + Suc k * link_bytes env) = load_link env P (p + Suc k * link_bytes env)"
        by (intro level_change_field [OF P1(2) N(1) B1(2) _ n]) (auto simp: node_set_last)
    qed
  qed (use N(4) in auto)
  moreover have "load_link env P2 (pos + Suc k * link_bytes env) = Inr (link_to env ys)"
  proof -
    have "pos \<notin> node_set (ptr_last us)" using N(4) by (auto simp: node_set_last)
    then have "load_link env P2 (pos + Suc k * link_bytes env) = load_link env P1 (pos + Suc k * link_bytes env)"
      using k by (intro level_change_field [OF P2(2) N(1) B2 N(3) n1]) auto
    with P1(3) show ?thesis by (simp add: ptr_last_def)
  qed
  moreover have "chain env (load_link env P2) (Suc k) (link_to env ys) ys"
    by (rule relink_rest [OF P2(2) N(1) ys(2,1) _ n1 k], (use N(4) in auto)[1],
        rule relink_rest [OF P1(2) N(1) _ ys(1) _ n k u(2)]) (use N in auto)
  ultimately have "level_change env {k} N P P2"
    "chain env (load_link env P2) (Suc k) (huge_next (huge_list P2) ! k) (us @ pos # ys)"
    using pl by (auto simp: seg_append)
  moreover have "set_next env P (Node pos) k (link_to env ys) = Inr P1" using P1(1) by (simp add: ptr_last_def)
  ultimately show thesis using that [OF nx _ P2(1)] by blast
qed

lemma link_levels_run:
  assumes env: "mp_env_ok env" and N: "nodes_ok env n N" "set (T @ pos # D) \<subseteq> N" "distinct (T @ pos # D)"
    and lim: "\<And>p. p \<in> N \<Longrightarrow> p < link_limit env"
  shows "n \<le> length (mp_bytes P) \<Longrightarrow> length (huge_next (huge_list P)) = skip_list_level_max \<Longrightarrow> k < skip_list_level_max \<Longrightarrow>
    \<forall>j\<le>k. read_update update j = Inr (ptr_last (on_level F j T)) \<and>
      chain env (load_link env P) (Suc j) (huge_next (huge_list P) ! j) (on_level F j T @ on_level F j D) \<Longrightarrow>
    \<exists>P'. link_levels env P update pos k = Inr P' \<and> level_change env {..k} N P P' \<and>
      (\<forall>j\<le>k. chain env (load_link env P') (Suc j) (huge_next (huge_list P') ! j) (on_level F j T @ pos # on_level F j D))"
proof (induction k arbitrary: P)
  case 0
  have sub: "set (on_level F 0 T @ on_level F 0 D) \<subseteq> N" "pos \<in> N" "distinct (on_level F 0 T @ pos # on_level F 0 D)"
    using N(2,3) by (auto simp: on_level_def)
  from link_level_run [OF env N(1) sub lim 0(1,3,2)] 0(4) obtain P1 P2 where P:
    "get_next env P (ptr_last (on_level F 0 T)) 0 = Inr (link_to env (on_level F 0 D))"
    "set_next env P (Node pos) 0 (link_to env (on_level F 0 D)) = Inr P1"
    "set_next env P1 (ptr_last (on_level F 0 T)) 0 (pos_link env pos) = Inr P2" "level_change env {0} N P P2"
    "chain env (load_link env P2) (Suc 0) (huge_next (huge_list P2) ! 0) (on_level F 0 T @ pos # on_level F 0 D)" by blast
  then show ?case using 0(4) by (auto simp: atMost_0)
next
  case (Suc k)
  let ?us = "\<lambda>k. on_level F k T" and ?ys = "\<lambda>k. on_level F k D"
  have sub: "set (?us j @ ?ys j) \<subseteq> N" "pos \<in> N" "distinct (?us j @ pos # ?ys j)" "set (?us j @ pos # ?ys j) \<subseteq> N" for j
    using N(2,3) by (auto simp: on_level_def)
  from Suc.prems(4) have ch: "chain env (load_link env P) (Suc (Suc k)) (huge_next (huge_list P) ! Suc k) (?us (Suc k) @ ?ys (Suc k))" by blast
  from link_level_run [OF env N(1) sub(1,2,3) lim Suc.prems(1,3,2) ch] obtain P1 P2 where P:
    "get_next env P (ptr_last (?us (Suc k))) (Suc k) = Inr (link_to env (?ys (Suc k)))"
    "set_next env P (Node pos) (Suc k) (link_to env (?ys (Suc k))) = Inr P1"
    "set_next env P1 (ptr_last (?us (Suc k))) (Suc k) (pos_link env pos) = Inr P2" "level_change env {Suc k} N P P2"
    "chain env (load_link env P2) (Suc (Suc k)) (huge_next (huge_list P2) ! Suc k) (?us (Suc k) @ pos # ?ys (Suc k))" by blast
  note s = level_change_simps [OF P(4)]
  have k: "k < skip_list_level_max" using Suc.prems(3) by simp
  have "\<forall>j\<le>k. read_update update j = Inr (ptr_last (?us j)) \<and>
      chain env (load_link env P2) (Suc j) (huge_next (huge_list P2) ! j) (?us j @ ?ys j)"
  proof (intro allI impI conjI)
    fix j assume j: "j \<le> k"
    with Suc.prems(4) show "read_update update j = Inr (ptr_last (?us j))" by simp
    show "chain env (load_link env P2) (Suc j) (huge_next (huge_list P2) ! j) (?us j @ ?ys j)"
      by (rule level_change_chain [OF P(4) N(1) subset_refl sub(1) Suc.prems(1)]) (use j k Suc.prems in auto)
  qed
  with Suc.IH [of P2] Suc.prems(1,2) s k obtain P' where P': "link_levels env P2 update pos k = Inr P'" "level_change env {..k} N P2 P'"
    "\<forall>j\<le>k. chain env (load_link env P') (Suc j) (huge_next (huge_list P') ! j) (?us j @ pos # ?ys j)" by auto
  have "chain env (load_link env P') (Suc (Suc k)) (huge_next (huge_list P') ! Suc k) (?us (Suc k) @ pos # ?ys (Suc k))"
    by (rule level_change_chain [OF P'(2) N(1) subset_refl sub(4) _ _ Suc.prems(3) _ P(5)]) (use Suc.prems s k in auto)
  moreover have "level_change env {..Suc k} N P P'"
    by (rule level_change_trans [OF level_change_mono [OF P(4)] level_change_mono [OF P'(2)]]) auto
  moreover have "link_levels env P update pos (Suc k) = Inr P'"
    using Suc.prems(4) P(1,2,3) P'(1) by simp
  ultimately show ?case using P'(3) by (auto simp: le_Suc_eq)
qed

end
