(* ===== verification/Mempool_Huge.thy ===== *)
theory Mempool_Huge
  imports Mempool_Links
begin

text \<open>Freeing into the skip list, with the level the random numbers give, and \<open>sfree\<close> as a whole.\<close>

section \<open>The level of a new node\<close>

lemma random_level_loop_le:
  "level \<le> fst (random_level_loop env left level seed) \<and> fst (random_level_loop env left level seed) \<le> level + left"
proof (induction left arbitrary: level seed)
  case (Suc left)
  obtain r s where "rand_r env seed = (r, s)" by fastforce
  with Suc [of "Suc level" s] show ?case by auto
qed simp

lemma random_level_less:
  obtains k seed where "random_level env P = (k, P\<lparr>m_rand_seed := seed\<rparr>)" and "k < skip_list_level_max"
proof -
  obtain l s where l: "random_level_loop env (skip_list_level_max - 1) 1 (m_rand_seed P) = (l, s)" by fastforce
  then have "l \<le> 1 + (skip_list_level_max - 1)" "1 \<le> l"
    using random_level_loop_le [of 1 env "skip_list_level_max - 1" "m_rand_seed P"] by auto
  then show thesis using that [of "l - 1" s] l by (auto simp: random_level_def skip_list_level_max_def)
qed

section \<open>The list with one more node\<close>

text \<open>The blocks of the skip list and one more as nodes.\<close>

lemma shape_nodes:
  assumes "huge_ok env P F" and "fast_ok env P F" and "tiles env n (H + M)" and "huge_blocks F \<subseteq># H"
    and "(\<forall>(q, l)\<in>#H - huge_blocks F. free_list_len P * AlignSize env < l)" and "n \<le> link_limit env"
  shows "nodes_ok env n (fst ` set_mset H)" and "\<And>q. q \<in> fst ` set_mset H \<Longrightarrow> \<exists>l\<ge>sizeof_huge_link env. (q, l) \<in># H"
    and "\<And>q. q \<in> fst ` set_mset H \<Longrightarrow> q < link_limit env"
proof -
  show *: "\<exists>l\<ge>sizeof_huge_link env. (q, l) \<in># H" if "q \<in> fst ` set_mset H" for q
  proof -
    from that obtain l where l: "(q, l) \<in># H" by auto
    then have "(q, l) \<in># huge_blocks F \<or> (q, l) \<in># H - huge_blocks F"
      using assms(4) by (metis subset_mset.add_diff_inverse union_iff)
    moreover have "sizeof_huge_link env \<le> free_list_len P * AlignSize env" using assms(2) by (simp add: fast_ok_def)
    ultimately have "sizeof_huge_link env \<le> l" using assms(1,5) by (fastforce simp: huge_blocks_def huge_ok_def)
    with l show ?thesis by blast
  qed
  show "nodes_ok env n (fst ` set_mset H)" by (rule nodes_ok_tiles [OF assms(3)]) (use * in fastforce)
  show "q < link_limit env" if "q \<in> fst ` set_mset H" for q
  proof -
    from that obtain l where l: "(q, l) \<in># H" by auto
    with tiles_block(3,5) [OF assms(3), of "(q, l)"] assms(6) show ?thesis by simp
  qed
qed

lemma huge_count:
  assumes "tiles env n (huge_blocks F + M)"
  shows "length (huge F) \<le> total (huge_blocks F)"
proof -
  have "0 < siz F p" if "p \<in> set (huge F)" for p
    using tiles_block(3) [OF assms, of "(p, siz F p)"] huge_blocks_member [OF that] by auto
  moreover have "length ps \<le> sum_list (map s ps)" if "\<forall>p\<in>set ps. 0 < s p" for ps :: "nat list" and s :: "nat \<Rightarrow> nat"
    using that by (induction ps) auto
  ultimately show ?thesis by (simp add: huge_blocks_def multiset.map_comp comp_def flip: sum_mset_sum_list)
qed

lemma shape_walkable:
  assumes "mp_shape env P F live"
  shows "walkable env P F"
proof -
  have t: "tiles env (mp_n P) (huge_blocks F + (fast_blocks env (fast F) + live))" and lim: "mp_n P \<le> link_limit env"
    using assms by (simp_all add: mp_shape_def mem_ok_def free_blocks_def ac_simps)
  have b: "AlignSize env dvd p" "0 < siz F p" "p + siz F p \<le> mp_n P" if "p \<in> set (huge F)" for p
    using tiles_block [OF t, of "(p, siz F p)"] huge_blocks_member [OF that] by auto
  with tiles_size [OF t] huge_count [OF t] lim show ?thesis by (fastforce simp: walkable_def)
qed

definition with_node :: "free_lists \<Rightarrow> nat \<Rightarrow> nat \<Rightarrow> nat \<Rightarrow> free_lists" where
  "with_node F pos len k = F\<lparr>huge := below F len @ pos # from_size F len, levels := (levels F)(pos := Suc k), siz := (siz F)(pos := len)\<rparr>"

lemma with_node_blocks:
  assumes "pos \<notin> set (huge F)"
  shows "huge_blocks (with_node F pos len k) = add_mset (pos, len) (huge_blocks F)"
proof -
  have "mset (huge F) = mset (below F len) + mset (from_size F len)" by (metis mset_append takeWhile_dropWhile_id)
  moreover have "image_mset (\<lambda>p. (p, ((siz F)(pos := len)) p)) (mset ps) = image_mset (\<lambda>p. (p, siz F p)) (mset ps)"
    if "set ps \<subseteq> set (huge F)" for ps
    by (rule image_mset_cong) (use assms that in auto)
  moreover have "set (below F len) \<subseteq> set (huge F)" "set (from_size F len) \<subseteq> set (huge F)"
    by (auto dest: set_takeWhileD set_dropWhileD)
  ultimately show ?thesis by (simp add: huge_blocks_def with_node_def)
qed

lemma with_node_level:
  assumes "pos \<notin> set (huge F)"
  shows "level_list (with_node F pos len k) j =
    on_level F j (below F len) @ (if j \<le> k then [pos] else []) @ on_level F j (from_size F len)"
proof -
  have "filter (\<lambda>p. j < ((levels F)(pos := Suc k)) p) ps = on_level F j ps" if "set ps \<subseteq> set (huge F)" for ps
    unfolding on_level_def by (rule filter_cong) (use assms that in auto)
  moreover have "set (below F len) \<subseteq> set (huge F)" "set (from_size F len) \<subseteq> set (huge F)"
    by (auto dest: set_takeWhileD set_dropWhileD)
  ultimately show ?thesis by (auto simp: level_list_def with_node_def)
qed

lemma with_node_sorted:
  assumes "sorted (map (siz F) (huge F))" and "pos \<notin> set (huge F)"
  shows "sorted (map (siz (with_node F pos len k)) (huge (with_node F pos len k)))"
proof -
  let ?s = "(siz F)(pos := len)"
  have s: "map ?s ps = map (siz F) ps" if "set ps \<subseteq> set (huge F)" for ps using assms(2) that by (intro map_cong) auto
  have sub: "set (below F len) \<subseteq> set (huge F)" "set (from_size F len) \<subseteq> set (huge F)"
    by (auto dest: set_takeWhileD set_dropWhileD)
  have "sorted (map (siz F) (below F len @ from_size F len))" using assms(1) by simp
  moreover have "\<forall>p\<in>set (below F len). siz F p < len" by (auto dest: set_takeWhileD)
  moreover have "\<forall>p\<in>set (from_size F len). len \<le> siz F p" using from_size_ge [OF assms(1)] by (auto simp: not_less)
  ultimately show ?thesis
    unfolding map_append sorted_append
    by (simp add: with_node_def s [OF sub(1)] s [OF sub(2)] sorted_append) (meson less_imp_le)
qed

text \<open>The new node with its links, before and after its size is written.\<close>

lemma overwrite_size_field:
  assumes "nodes_ok env n N" and "pos \<in> N" "p \<in> N" and "n \<le> length (mp_bytes P)" and "j \<le> skip_list_level_max" and "p \<noteq> pos \<or> 0 < j"
  shows "load_link env (overwrite P pos (store_le (link_bytes env) x)) (p + j * link_bytes env) = load_link env P (p + j * link_bytes env)"
proof (rule load_link_cong)
  have p: "p + sizeof_huge_link env \<le> n" "pos + sizeof_huge_link env \<le> n" using assms(1,2,3) by (auto simp: nodes_ok_def)
  with assms(4) field_inside [OF assms(5), of env] field_inside [of 0 env]
  show l: "p + j * link_bytes env + link_bytes env \<le> length (mp_bytes P)"
    "p + j * link_bytes env + link_bytes env \<le> length (mp_bytes (overwrite P pos (store_le (link_bytes env) x)))"
    by simp_all
  fix i assume i: "p + j * link_bytes env \<le> i" "i < p + j * link_bytes env + link_bytes env"
  have "\<not> (pos \<le> i \<and> i < pos + link_bytes env)"
  proof (cases "p = pos")
    case True
    with assms(6) obtain j' where "j = Suc j'" by (cases j) auto
    with True i show ?thesis by auto
  next
    case False
    then have "p + sizeof_huge_link env \<le> pos \<or> pos + sizeof_huge_link env \<le> p" using assms(1,2,3) by (auto simp: nodes_ok_def)
    then show ?thesis using i field_inside [OF assms(5), of env] field_inside [of 0 env] by auto
  qed
  then show "mp_bytes (overwrite P pos (store_le (link_bytes env) x)) ! i = mp_bytes P ! i"
    using p(2) assms(4) field_inside [of 0 env] by (subst nth_overwrite) auto
qed

lemma huge_ok_with_node:
  assumes ok: "huge_ok env P F" and N: "nodes_ok env n N" "insert pos (set (huge F)) \<subseteq> N" "pos \<notin> set (huge F)"
    and n: "n \<le> length (mp_bytes P)" and k: "k \<le> huge_size (huge_list P)" "k < skip_list_level_max"
    and P0: "P0 = P\<lparr>m_rand_seed := seed, huge_list := (huge_list P)\<lparr>huge_size := max (huge_size (huge_list P)) (Suc k)\<rparr>\<rparr>"
    and c: "level_change env {..k} N P0 P1"
    and ch: "\<And>j. j \<le> k \<Longrightarrow> chain env (load_link env P1) (Suc j) (huge_next (huge_list P1) ! j)
      (on_level F j (below F len) @ pos # on_level F j (from_size F len))"
    and len: "free_list_len P * AlignSize env < len" "len < 2 ^ (8 * link_bytes env)"
  shows "huge_ok env (overwrite P1 pos (store_le (link_bytes env) len)) (with_node F pos len k)" (is "huge_ok env ?P ?F")
proof -
  note s = level_change_simps [OF c]
  have n1: "n \<le> length (mp_bytes P1)" using n s(8) P0 by simp
  have l0: "load_link env P0 = load_link env P" by (rule load_link_same) (simp add: P0)
  have pos: "pos \<in> N" and sub: "set (huge F) \<subseteq> N" using N(2) by auto
  have sub': "set (level_list ?F j) \<subseteq> N" for j
    using N(2) by (auto simp: with_node_level [OF N(3)] on_level_def dest: set_takeWhileD set_dropWhileD)
  have c1: "chain env (load_link env P1) (Suc j) (huge_next (huge_list P1) ! j) (level_list ?F j)" if j: "j < skip_list_level_max" for j
  proof (cases "j \<le> k")
    case True
    with ch show ?thesis by (simp add: with_node_level [OF N(3)])
  next
    case False
    have "chain env (load_link env P0) (Suc j) (huge_next (huge_list P0) ! j) (level_list F j)"
      unfolding l0 using ok j P0 by (simp add: huge_ok_def)
    then have "chain env (load_link env P1) (Suc j) (huge_next (huge_list P1) ! j) (level_list F j)"
      by (rule level_change_chain [OF c N(1) subset_refl, rotated -1]) (use False k(2) j n P0 sub in \<open>auto simp: level_list_def\<close>)
    with False show ?thesis by (simp add: with_node_level [OF N(3)] level_list_split [of F j len])
  qed
  have chs: "chain env (load_link env ?P) (Suc j) (huge_next (huge_list ?P) ! j) (level_list ?F j)" if j: "j < skip_list_level_max" for j
    unfolding overwrite_simps
  proof (rule seg_cong)
    show "chain env (load_link env P1) (Suc j) (huge_next (huge_list P1) ! j) (level_list ?F j)" by (rule c1 [OF j])
    fix p assume "p \<in> set (level_list ?F j)"
    with sub' have "p \<in> N" by blast
    then show "load_link env ?P (p + Suc j * link_bytes env) = load_link env P1 (p + Suc j * link_bytes env)"
      by (rule overwrite_size_field [OF N(1) pos _ n1]) (use j in auto)
  qed
  have old: "load_link env ?P p = Inr (siz F p)" if p: "p \<in> set (huge F)" for p
  proof -
    have "load_link env ?P p = load_link env P1 p"
      using overwrite_size_field [OF N(1) pos _ n1, of p 0] p sub N(3) by auto
    also have "\<dots> = load_link env P0 p"
      using level_change_field [OF c N(1) subset_refl _ _ , of p 0] p sub n P0 k(2) by auto
    finally show ?thesis unfolding l0 using ok p by (simp add: huge_ok_def)
  qed
  have "pos + sizeof_huge_link env \<le> n" using N(1) pos by (auto simp: nodes_ok_def)
  then have new: "load_link env ?P pos = Inr len"
    using load_link_stored [of pos env P1 len] field_inside [of 0 env] n1 len(2) by simp
  have h: "huge_size (huge_list ?P) = max (huge_size (huge_list P)) (Suc k)" "length (huge_next (huge_list ?P)) = skip_list_level_max"
    "free_list_len ?P = free_list_len P"
    using s P0 ok by (simp_all add: huge_ok_def)
  have set: "set (huge ?F) = insert pos (set (huge F))"
    unfolding with_node_def using set_append [of "below F len" "from_size F len"] by (auto dest: set_takeWhileD set_dropWhileD)
  have top: "\<exists>p\<in>set (huge ?F). levels ?F p = max (huge_size (huge_list P)) (Suc k)"
  proof (cases "k = huge_size (huge_list P)")
    case False
    with k(1) have "huge_size (huge_list P) \<noteq> 0" by simp
    with ok obtain p where "p \<in> set (huge F)" "levels F p = huge_size (huge_list P)" by (auto simp: huge_ok_def)
    with False k(1) N(3) set show ?thesis by (intro bexI [of _ p]) (auto simp: with_node_def)
  qed (use set in \<open>auto simp: with_node_def\<close>)
  have lv: "\<forall>p\<in>set (huge ?F). 0 < levels ?F p \<and> levels ?F p \<le> max (huge_size (huge_list P)) (Suc k)"
    using ok set by (auto simp: huge_ok_def with_node_def le_max_iff_disj)
  have sz: "\<forall>p\<in>set (huge ?F). load_link env ?P p = Inr (siz ?F p) \<and> free_list_len P * AlignSize env < siz ?F p"
  proof
    fix p assume "p \<in> set (huge ?F)"
    then consider "p = pos" | "p \<in> set (huge F)" "p \<noteq> pos" using set N(3) by auto
    then show "load_link env ?P p = Inr (siz ?F p) \<and> free_list_len P * AlignSize env < siz ?F p"
      using old new ok len(1) by cases (auto simp: with_node_def huge_ok_def)
  qed
  have so: "sorted (map (siz ?F) (huge ?F))" using ok N(3) by (intro with_node_sorted) (simp_all add: huge_ok_def)
  have m: "max (huge_size (huge_list P)) (Suc k) \<le> skip_list_level_max" using ok k(2) by (simp add: huge_ok_def)
  show ?thesis
    unfolding huge_ok_def h using chs lv sz so top m by blast
qed

section \<open>Freeing into the skip list\<close>

text \<open>What the search has found, and where the new node goes on each level up to its own.\<close>

lemma free_huge_update:
  assumes env: "mp_env_ok env" and ok: "huge_ok env P F" and w: "walkable env P F"
  obtains n2 update k seed P0 up where "search_huge env P len = Inr (n2, update)"
    and "pick_level env P update = (k, P0, up)"
    and "P0 = P\<lparr>m_rand_seed := seed, huge_list := (huge_list P)\<lparr>huge_size := max (huge_size (huge_list P)) (Suc k)\<rparr>\<rparr>"
    and "k \<le> huge_size (huge_list P)" and "k < skip_list_level_max"
    and "\<And>j. j \<le> k \<Longrightarrow> read_update up j = Inr (ptr_last (on_level F j (below F len)))"
proof -
  let ?h = "huge_size (huge_list P)"
  obtain n2 update where s: "search_huge env P len = Inr (n2, update)" "length update = skip_list_level_max"
    "\<And>j. j < ?h \<Longrightarrow> update ! j = Some (ptr_last (on_level F j (below F len)))"
    using search_huge_run [OF env ok w] by metis
  obtain l seed where r: "random_level env P = (l, P\<lparr>m_rand_seed := seed\<rparr>)" "l < skip_list_level_max"
    by (rule random_level_less)
  have top: "on_level F ?h (below F len) = []"
    using ok by (auto simp: on_level_def huge_ok_def filter_empty_conv not_less dest: set_takeWhileD)
  let ?k = "min l ?h"
  have "read_update (if ?k = ?h then update[?k := Some Huge_list] else update) j = Inr (ptr_last (on_level F j (below F len)))"
    if "j \<le> ?k" for j
    using that s(2,3) r(2) top by (cases "j = ?h") (auto simp: read_update_def nth_list_update)
  moreover have "huge_list P\<lparr>huge_size := max ?h (Suc l)\<rparr> = huge_list P" if "l < ?h" using that by (simp add: max_def)
  ultimately show thesis
    using that [OF s(1), of ?k "P\<lparr>m_rand_seed := seed, huge_list := (huge_list P)\<lparr>huge_size := max ?h (Suc ?k)\<rparr>\<rparr>"
      "if ?k = ?h then update[?k := Some Huge_list] else update" seed] r
    by (cases "l < ?h") (simp_all add: pick_level_def Let_def)
qed

lemma free_huge_ok:
  assumes env: "mp_env_ok env" and sh: "mp_shape env P F (add_mset (pos, len) live)" and big: "free_list_len P * AlignSize env < len"
  shows "\<exists>P' F'. free_huge env P pos len = Inr P' \<and> mp_shape env P' F' live \<and> keeps P P' live \<and>
    mp_n P' = mp_n P \<and> vv_c (mp_mem P') = vv_c (mp_mem P) \<and>
    free_blocks env F' = add_mset (pos, len) (free_blocks env F) \<and> huge_blocks F' = add_mset (pos, len) (huge_blocks F) \<and>
    length (huge F') = length (huge F) + 1 \<and> (\<exists>k. F' = with_node F pos len k) \<and> fragment_size P' = fragment_size P \<and>
    huge_size_sum P' = add64 (huge_size_sum P) len \<and> huge_node_cnt P' = add64 (huge_node_cnt P) 1"
proof -
  let ?L = "link_bytes env" and ?H = "add_mset (pos, len) (huge_blocks F)" and ?M = "fast_blocks env (fast F) + live"
  define N where "N = fst ` set_mset ?H"
  have t: "tiles env (mp_n P) (?H + ?M)" and f: "fast_ok env P F" and h: "huge_ok env P F"
    and mem: "length (mp_bytes P) = vv_c (mp_mem P)" "mp_n P \<le> vv_c (mp_mem P)" "mp_n P \<le> link_limit env"
    using sh by (simp_all add: mp_shape_def mem_ok_def free_blocks_def ac_simps)
  from tiles_block [OF t, of "(pos, len)"] have b: "AlignSize env dvd pos" "0 < len" "pos + len \<le> mp_n P" "len < 2 ^ (8 * ?L)" by auto
  note nodes = shape_nodes [OF h f t, folded N_def]
  have N: "nodes_ok env (mp_n P) N" and lim: "\<And>q. q \<in> N \<Longrightarrow> q < link_limit env"
    and big_N: "\<And>q. q \<in> N \<Longrightarrow> \<exists>l\<ge>sizeof_huge_link env. (q, l) \<in># ?H"
    using nodes big mem(3) by (auto simp: subset_mset.le_iff_add)
  have sub: "insert pos (set (huge F)) \<subseteq> N" by (auto simp: N_def huge_blocks_def image_iff)
  have new: "pos \<notin> set (huge F)"
  proof
    assume "pos \<in> set (huge F)"
    then obtain H where "huge_blocks F = add_mset (pos, siz F pos) H" by (metis huge_blocks_member multi_member_split)
    with t have "tiles env (mp_n P) (add_mset (pos, len) (add_mset (pos, siz F pos) (H + ?M)))" by simp
    from tiles_apart [OF this] tiles_block(3) [OF this, of "(pos, siz F pos)"] b(2) show False by (simp add: apart_def)
  qed
  have dist: "distinct (huge F)"
    using mset_distinct [of env "mp_n P" "siz F" "huge F" "add_mset (pos, len) ?M"] t by (simp add: huge_blocks_def)
  obtain n2 update k seed P0 up where se: "search_huge env P len = Inr (n2, update)"
    and up: "pick_level env P update = (k, P0, up)"
    and P0: "P0 = P\<lparr>m_rand_seed := seed, huge_list := (huge_list P)\<lparr>huge_size := max (huge_size (huge_list P)) (Suc k)\<rparr>\<rparr>"
    and k: "k \<le> huge_size (huge_list P)" "k < skip_list_level_max"
    and rd: "\<And>j. j \<le> k \<Longrightarrow> read_update up j = Inr (ptr_last (on_level F j (below F len)))"
    by (rule free_huge_update [OF env h shape_walkable [OF sh], of len]) (rule that)
  have l0: "load_link env P0 = load_link env P" by (rule load_link_same) (simp add: P0)
  have "\<exists>P1. link_levels env P0 up pos k = Inr P1 \<and> level_change env {..k} N P0 P1 \<and>
      (\<forall>j\<le>k. chain env (load_link env P1) (Suc j) (huge_next (huge_list P1) ! j)
        (on_level F j (below F len) @ pos # on_level F j (from_size F len)))"
  proof (rule link_levels_run [OF env N])
    show "set (below F len @ pos # from_size F len) \<subseteq> N" using sub by (auto dest: set_takeWhileD set_dropWhileD)
    have "distinct (below F len) \<and> distinct (from_size F len) \<and> set (below F len) \<inter> set (from_size F len) = {}"
      using dist by (metis distinct_append takeWhile_dropWhile_id)
    then show "distinct (below F len @ pos # from_size F len)" using new by (auto dest: set_takeWhileD set_dropWhileD)
    show "\<forall>j\<le>k. read_update up j = Inr (ptr_last (on_level F j (below F len))) \<and>
        chain env (load_link env P0) (Suc j) (huge_next (huge_list P0) ! j) (on_level F j (below F len) @ on_level F j (from_size F len))"
      using rd h k(2) P0 unfolding l0 level_list_split [symmetric] by (auto simp: huge_ok_def)
  qed (use lim mem k h P0 in \<open>auto simp: huge_ok_def\<close>)
  then obtain P1 where P1: "link_levels env P0 up pos k = Inr P1" and c: "level_change env {..k} N P0 P1"
    and ch: "\<And>j. j \<le> k \<Longrightarrow> chain env (load_link env P1) (Suc j) (huge_next (huge_list P1) ! j)
      (on_level F j (below F len) @ pos # on_level F j (from_size F len))" by blast
  note s = level_change_simps [OF c]
  let ?P2 = "overwrite P1 pos (store_le ?L len)" and ?F = "with_node F pos len k"
  let ?P = "?P2\<lparr>huge_size_sum := add64 (huge_size_sum P) len, huge_node_cnt := add64 (huge_node_cnt P) 1\<rparr>"
  have same: "mp_n P1 = mp_n P" "vv_c (mp_mem P1) = vv_c (mp_mem P)" "length (mp_bytes P1) = length (mp_bytes P)"
    "free_list_arr P1 = free_list_arr P" "free_list_len P1 = free_list_len P" "fragment_size P1 = fragment_size P"
    "huge_size_sum P1 = huge_size_sum P" "huge_node_cnt P1 = huge_node_cnt P"
    using s P0 by simp_all
  have L: "pos + ?L \<le> pos + len" "pos + ?L \<le> length (mp_bytes P1)"
    using mp_env_dvd(4) [OF env] tiles_block [OF t, of "(pos, len)"] dvd_imp_le [of "AlignSize env" len] mem same by auto
  have big': "len \<ge> sizeof_huge_link env" using big f by (simp add: fast_ok_def)
  have run: "free_huge env P pos len = Inr ?P"
    using big' se up P1 b(2,3) same L(2) P0
    by (simp add: free_huge_def mp_at_def store_link_eq del: link_levels.simps)
  have kp: "keeps P P1 ?M"
    using level_change_keeps [OF c t] big_N k(2) by (simp add: keeps_def P0)
  have t2: "tiles env (mp_n P) (add_mset (pos, len) (huge_blocks F + ?M))" using t by simp
  have kp2: "keeps P ?P ?M"
  proof -
    have "keeps P1 ?P2 (huge_blocks F + ?M)"
      by (rule keeps_overwrite [OF t2]) (use L mem same in auto)
    then have "keeps P1 ?P2 ?M" by simp
    with kp have "keeps P ?P2 ?M" by (rule keeps_trans)
    then show ?thesis by (simp add: keeps_def)
  qed
  have lp: "load_link env ?P = load_link env ?P2" by (rule load_link_same) simp
  have "huge_ok env ?P2 ?F"
    by (rule huge_ok_with_node [OF h N sub new _ k P0 c ch big b(4)]) (use mem in auto)
  then have hok: "huge_ok env ?P ?F" by (rule huge_ok_same [OF _ lp]) simp_all
  have fok: "fast_ok env ?P ?F"
  proof -
    have "fast_ok env ?P F"
      by (rule fast_ok_keeps [OF env f, where n = "mp_n P" and M = "?H + live"]) (use kp2 t mem same L in \<open>auto simp: ac_simps\<close>)
    then show ?thesis by (simp add: fast_ok_def with_node_def)
  qed
  have hb: "huge_blocks ?F = add_mset (pos, len) (huge_blocks F)" by (rule with_node_blocks [OF new])
  have fb: "free_blocks env ?F = add_mset (pos, len) (free_blocks env F)"
    unfolding free_blocks_def hb by (simp add: with_node_def)
  have t': "tiles env (mp_n P) (free_blocks env ?F + live)"
    unfolding fb using t by (simp add: free_blocks_def ac_simps)
  have "mp_shape env ?P ?F live"
    using hok fok mem same L t' by (simp add: mp_shape_def mem_ok_def)
  moreover have "length (huge ?F) = length (huge F) + 1"
    unfolding with_node_def using length_append [of "below F len" "from_size F len"] by simp
  ultimately show ?thesis using run kp2 hb fb same by (intro exI [of _ ?P] exI [of _ ?F]) auto
qed

section \<open>sfree\<close>

lemma total_add [simp]: "total (add_mset (p, l) M) = l + total M"
  by simp

text \<open>A block that is not at the end comes first of those of its size.\<close>

definition freed_into :: "mp_env \<Rightarrow> mempool \<Rightarrow> free_lists \<Rightarrow> free_lists \<Rightarrow> nat \<Rightarrow> nat \<Rightarrow> bool" where
  "freed_into env P F F' pos len \<longleftrightarrow>
     (if len \<le> free_list_len P * AlignSize env
      then let i = len div AlignSize env - 1 in fast F' ! i = pos # fast F ! i
      else \<exists>k. F' = with_node F pos len k)"

lemma mp_sfree_ok:
  assumes env: "mp_env_ok env" and sh: "mp_shape env P F (add_mset (pos, len) live)" and c: "mp_counts env P F e1 e2 e3"
    and room: "fragment_size P + len < 2 ^ 64" "huge_size_sum P + len < 2 ^ 64" "huge_node_cnt P + 1 < 2 ^ 64"
    and l: "block_len env len' = len" "0 < len'"
  shows "\<exists>P' F'. mp_sfree env P pos len' = Inr P' \<and> mp_shape env P' F' live \<and> mp_counts env P' F' e1 e2 e3 \<and>
    keeps P P' live \<and> mp_n P' \<le> mp_n P \<and> vv_c (mp_mem P') = vv_c (mp_mem P) \<and> free_list_len P' = free_list_len P \<and>
    (pos + len \<noteq> mp_n P \<longrightarrow> mp_n P' = mp_n P \<and> freed_into env P F F' pos len)"
proof -
  have t: "tiles env (mp_n P) (add_mset (pos, len) (free_blocks env F + live))" using sh by (simp add: mp_shape_def)
  from tiles_block [OF t, of "(pos, len)"] have b: "AlignSize env dvd pos" "AlignSize env dvd len" "0 < len" "pos + len \<le> mp_n P" by auto
  have start: "mp_sfree env P pos len' = (if pos + len = mp_n P then Inr (P\<lparr>mp_mem := (mp_mem P)\<lparr>vv_n := pos\<rparr>\<rparr>)
    else bind_res (if len \<le> free_list_len P * AlignSize env then free_fast env P pos len else free_huge env P pos len)
      (\<lambda>P. Inr (P\<lparr>fragment_size := add64 (fragment_size P) len\<rparr>)))"
    using b l by (auto simp: mp_sfree_def Let_def)
  consider (trim) "pos + len = mp_n P" | (fast) "pos + len \<noteq> mp_n P" "len \<le> free_list_len P * AlignSize env"
    | (huge) "pos + len \<noteq> mp_n P" "free_list_len P * AlignSize env < len" by linarith
  then show ?thesis
  proof cases
    case trim
    let ?P = "P\<lparr>mp_mem := (mp_mem P)\<lparr>vv_n := pos\<rparr>\<rparr>"
    have "mp_shape env ?P F live"
      by (rule mp_shape_n [OF sh tiles_trim [OF t trim]]) (use sh b in \<open>auto simp: mp_shape_def mem_ok_def\<close>)
    moreover have "mp_counts env ?P F e1 e2 e3" using c by (simp add: mp_counts_def)
    ultimately show ?thesis using start trim b(4) by (intro exI [of _ ?P] exI [of _ F]) (simp add: keeps_def)
  next
    case fast
    from free_fast_ok [OF env sh fast(2)] obtain P' F' where *: "free_fast env P pos len = Inr P'" "mp_shape env P' F' live"
      "keeps P P' live" "counts_same P P'" "mp_n P' = mp_n P" "vv_c (mp_mem P') = vv_c (mp_mem P)"
      "free_blocks env F' = add_mset (pos, len) (free_blocks env F)" "huge F' = huge F" "huge_blocks F' = huge_blocks F" "length (fast F') = length (fast F)"
      "let i = len div AlignSize env - 1 in fast F' ! i = pos # fast F ! i" by blast
    let ?P = "P'\<lparr>fragment_size := add64 (fragment_size P') len\<rparr>"
    have "load_link env ?P = load_link env P'" by (rule load_link_same) simp
    then have "mp_shape env ?P F' live" using *(2) by (simp add: mp_shape_def mem_ok_def fast_ok_def huge_ok_def)
    moreover have "mp_counts env ?P F' e1 e2 e3" using c room * by (simp add: mp_counts_def counts_same_def add64_def)
    moreover have "free_list_len P' = free_list_len P" using *(2,10) sh by (simp add: mp_shape_def fast_ok_def)
    ultimately show ?thesis using start fast * by (intro exI [of _ ?P] exI [of _ F']) (simp add: keeps_def freed_into_def)
  next
    case huge
    from free_huge_ok [OF env sh huge(2)] obtain P' F' where *: "free_huge env P pos len = Inr P'" "mp_shape env P' F' live"
      "keeps P P' live" "mp_n P' = mp_n P" "vv_c (mp_mem P') = vv_c (mp_mem P)"
      "free_blocks env F' = add_mset (pos, len) (free_blocks env F)" "huge_blocks F' = add_mset (pos, len) (huge_blocks F)"
      "length (huge F') = length (huge F) + 1" "\<exists>k. F' = with_node F pos len k" "fragment_size P' = fragment_size P"
      "huge_size_sum P' = add64 (huge_size_sum P) len" "huge_node_cnt P' = add64 (huge_node_cnt P) 1" by blast
    let ?P = "P'\<lparr>fragment_size := add64 (fragment_size P') len\<rparr>"
    have "load_link env ?P = load_link env P'" by (rule load_link_same) simp
    then have "mp_shape env ?P F' live" using *(2) by (simp add: mp_shape_def mem_ok_def fast_ok_def huge_ok_def)
    moreover have "mp_counts env ?P F' e1 e2 e3" using c room * by (simp add: mp_counts_def add64_def)
    moreover have "free_list_len P' = free_list_len P"
      using *(2,9) sh by (auto simp: mp_shape_def fast_ok_def with_node_def)
    ultimately show ?thesis using start huge * by (intro exI [of _ ?P] exI [of _ F']) (simp add: keeps_def freed_into_def)
  qed
qed

end
