(* ===== verification/Mempool_Alloc.thy ===== *)
theory Mempool_Alloc
  imports Mempool_Huge
begin

text \<open>
  Allocation: from the list of the size, from the skip list with the rest of the block given back, from the end of the
  used bytes; \<open>alloc3\<close>, which moves a block; and the same for the pool of fixed capacity.
\<close>

section \<open>From the list of the size\<close>

text \<open>The list of a size is a stack: its first block is taken.\<close>

lemma alloc_fast_pop:
  assumes env: "mp_env_ok env" and sh: "mp_shape env P F live" and c: "mp_counts env P F e1 e2 e3"
    and len: "len \<le> free_list_len P * AlignSize env" "AlignSize env dvd len" "0 < len" and fs: "fragment_size P < 2 ^ 64"
    and Cons: "fast F ! (len div AlignSize env - 1) = pos # ps"
  shows "\<exists>P'. alloc_fast env P len = Inr (Some (P', pos)) \<and>
    mp_shape env P' (F\<lparr>fast := (fast F)[len div AlignSize env - 1 := ps]\<rparr>) (add_mset (pos, len) live) \<and>
    mp_counts env P' (F\<lparr>fast := (fast F)[len div AlignSize env - 1 := ps]\<rparr>) e1 e2 e3 \<and> mp_mem P' = mp_mem P \<and>
    free_list_len P' = free_list_len P"
proof -
  define i where "i = len div AlignSize env - 1"
  have t: "tiles env (mp_n P) (free_blocks env F + live)" and f: "fast_ok env P F" and h: "huge_ok env P F"
    and mem: "mem_ok env P"
    using sh by (simp_all add: mp_shape_def)
  from size_index [OF env len(2,3,1)] have i: "Suc i * AlignSize env = len" "i < free_list_len P" by (auto simp: i_def)
  from f obtain arr where arr: "free_list_arr P = Some arr" "length arr = free_list_len P" "length (fast F) = free_list_len P"
    and ch: "\<And>i. i < free_list_len P \<Longrightarrow> chain env (load_link env P) 0 (head (arr ! i)) (fast F ! i)"
    and ct: "\<And>i. i < free_list_len P \<Longrightarrow> cnt (arr ! i) = length (fast F ! i)"
    and sz: "sizeof_huge_link env \<le> free_list_len P * AlignSize env"
    unfolding fast_ok_def by blast
  have hd: "get_head P i = Inr (arr ! i)" using arr i(2) by (simp add: get_head_def)
  note Cons = Cons [folded i_def]
  with ch [OF i(2)] obtain y where y: "head (arr ! i) \<noteq> list_tail env" "link_pos env (head (arr ! i)) = pos"
    "load_link env P pos = Inr y" "chain env (load_link env P) 0 y ps" by auto
  from fast_block_at [OF f t i(2), of pos] Cons i(1) have b: "pos + len \<le> mp_n P" by simp
  let ?F = "F\<lparr>fast := (fast F)[i := ps]\<rparr>"
  have fb: "fast_blocks env (fast F) = add_mset (pos, len) (fast_blocks env (fast ?F))"
    using fast_blocks_update [of i "fast ?F" env pos] i arr Cons list_update_id [of "fast F" i] by simp
  have hb: "huge_blocks ?F = huge_blocks F" by (simp add: huge_blocks_def)
  have fr: "len \<le> fragment_size P" using c fb by (simp add: mp_counts_def free_blocks_def)
  have cn: "link_size env (cnt (arr ! i) + (2 ^ (8 * link_bytes env) - 1)) = length ps"
  proof -
    have "cnt (arr ! i) = Suc (length ps)" using ct [OF i(2)] Cons by simp
    then have "cnt (arr ! i) + (2 ^ (8 * link_bytes env) - 1) = length ps + 2 ^ (8 * link_bytes env)"
      using list_tail_plus [of env] unfolding list_tail_def by linarith
    moreover have "length (fast F ! i) < 2 ^ (8 * link_bytes env)"
      using fast_count [OF env, of "mp_n P" "fast F" "huge_blocks F + live" i] t mem i(2) arr(3)
      by (simp add: free_blocks_def mem_ok_def ac_simps)
    ultimately show ?thesis using Cons by (simp add: link_size_def)
  qed
  let ?h = "\<lparr>head = y, cnt = length ps\<rparr>"
  let ?P = "(set_head P i ?h)\<lparr>fragment_size := fragment_size P - len\<rparr>"
  have run: "alloc_fast env P len = Inr (Some (?P, pos))"
    using hd y fr b len(3) cn sub64_eq [OF fr fs] by (simp add: alloc_fast_def i_def [symmetric] mp_at_def del: One_nat_def)
  have l: "load_link env ?P = load_link env P" by (rule load_link_same) simp
  have "fast_ok env ?P ?F"
    using arr sz ch ct y i(2) Cons by (auto simp: fast_ok_def l nth_list_update)
  moreover have "huge_ok env ?P ?F" using h by (simp add: huge_ok_def l level_list_def)
  moreover have "tiles env (mp_n P) (free_blocks env ?F + add_mset (pos, len) live)"
    using t unfolding free_blocks_def fb hb by (simp add: ac_simps)
  moreover have "mp_counts env ?P ?F e1 e2 e3" using c fb hb by (simp add: mp_counts_def free_blocks_def)
  ultimately show ?thesis using run mem
    by (intro exI [of _ ?P]) (simp add: mp_shape_def mem_ok_def i_def [symmetric] del: One_nat_def)
qed

lemma alloc_fast_ok:
  assumes env: "mp_env_ok env" and sh: "mp_shape env P F live" and c: "mp_counts env P F e1 e2 e3"
    and len: "len \<le> free_list_len P * AlignSize env" "AlignSize env dvd len" "0 < len" and fs: "fragment_size P < 2 ^ 64"
  shows "alloc_fast env P len = Inr None \<or>
    (\<exists>P' pos F'. alloc_fast env P len = Inr (Some (P', pos)) \<and> mp_shape env P' F' (add_mset (pos, len) live) \<and>
      mp_counts env P' F' e1 e2 e3 \<and> mp_mem P' = mp_mem P)"
proof (cases "fast F ! (len div AlignSize env - 1)")
  case Nil
  from size_index [OF env len(2,3,1)] have i: "len div AlignSize env - 1 < free_list_len P" by simp
  with sh obtain h where "get_head P (len div AlignSize env - 1) = Inr h"
      "chain env (load_link env P) 0 (head h) (fast F ! (len div AlignSize env - 1))"
    by (auto simp: mp_shape_def fast_ok_def get_head_def)
  with Nil show ?thesis by (simp add: alloc_fast_def del: One_nat_def)
next
  case (Cons pos ps)
  from alloc_fast_pop [OF assms this] show ?thesis by blast
qed

section \<open>From the skip list\<close>

lemma drop_empty_levels_spec:
  "drop_empty_levels tail nx h \<le> h \<and> (\<forall>j. drop_empty_levels tail nx h \<le> j \<and> j < h \<longrightarrow> nx ! j = tail) \<and>
    (drop_empty_levels tail nx h = 0 \<or> nx ! (drop_empty_levels tail nx h - 1) \<noteq> tail)"
  by (induction h) (auto simp: less_Suc_eq)

definition without_node :: "free_lists \<Rightarrow> nat \<Rightarrow> free_lists" where
  "without_node F r = F\<lparr>huge := below F r @ tl (from_size F r)\<rparr>"

lemma huge_ok_drop:
  assumes len: "length (huge_next (huge_list P)) = skip_list_level_max" and h: "h \<le> skip_list_level_max"
    and ch: "\<And>k. k < skip_list_level_max \<Longrightarrow> chain env (load_link env P) (Suc k) (huge_next (huge_list P) ! k) (level_list F k)"
    and lv: "\<And>p. p \<in> set (huge F) \<Longrightarrow> 0 < levels F p \<and> levels F p \<le> h"
    and sz: "\<And>p. p \<in> set (huge F) \<Longrightarrow> load_link env P p = Inr (siz F p) \<and> free_list_len P * AlignSize env < siz F p"
    and so: "sorted (map (siz F) (huge F))"
  shows "huge_ok env (P\<lparr>huge_list := (huge_list P)\<lparr>huge_size := drop_empty_levels (list_tail env) (huge_next (huge_list P)) h\<rparr>\<rparr>) F"
    (is "huge_ok env ?P F")
proof -
  let ?h = "drop_empty_levels (list_tail env) (huge_next (huge_list P)) h"
  have l: "load_link env ?P = load_link env P" by (rule load_link_same) simp
  have d: "?h \<le> h" "\<And>j. ?h \<le> j \<Longrightarrow> j < h \<Longrightarrow> huge_next (huge_list P) ! j = list_tail env"
    "?h = 0 \<or> huge_next (huge_list P) ! (?h - 1) \<noteq> list_tail env"
    using drop_empty_levels_spec [of "list_tail env" "huge_next (huge_list P)" h] by blast+
  have empty: "level_list F k = [] \<longleftrightarrow> huge_next (huge_list P) ! k = list_tail env" if "k < skip_list_level_max" for k
    using ch [OF that] by (cases "level_list F k") auto
  have lv': "levels F p \<le> ?h" if p: "p \<in> set (huge F)" for p
  proof (rule ccontr)
    assume *: "\<not> levels F p \<le> ?h"
    with lv [OF p] d(2) [of "levels F p - 1"] h empty [of "levels F p - 1"] have "level_list F (levels F p - 1) = []" by auto
    moreover have "p \<in> set (level_list F (levels F p - 1))" using p * by (simp add: level_list_def)
    ultimately show False by simp
  qed
  have top: "?h = 0 \<or> (\<exists>p\<in>set (huge F). levels F p = ?h)"
  proof (cases "?h = 0")
    case False
    with d h empty [of "?h - 1"] have "level_list F (?h - 1) \<noteq> []" by auto
    then obtain p where "p \<in> set (level_list F (?h - 1))" using list.set_sel(1) by blast
    then have "p \<in> set (huge F)" "?h \<le> levels F p" using False by (auto simp: level_list_def)
    with lv' [of p] show ?thesis by auto
  qed simp
  show ?thesis
    unfolding huge_ok_def l using len d(1) h ch lv lv' top sz so by auto
qed

lemma alloc_huge_unlink:
  assumes env: "mp_env_ok env" and sh: "mp_shape env P F live" and c: "mp_counts env P F e1 e2 e3"
    and se: "search_huge env P r = Inr (n2, update)" "length update = skip_list_level_max"
      "\<And>j. j < huge_size (huge_list P) \<Longrightarrow> update ! j = Some (ptr_last (on_level F j (below F r)))"
    and D: "from_size F r = pos # D"
  obtains P1 where "unlink_levels env update pos P [0..<huge_size (huge_list P)] = Inr P1"
    and "huge_size (huge_list P1) \<noteq> 0"
    and "mp_shape env (P1\<lparr>huge_list := (huge_list P1)\<lparr>huge_size :=
        drop_empty_levels (list_tail env) (huge_next (huge_list P1)) (huge_size (huge_list P1))\<rparr>\<rparr>)
      (without_node F r) (add_mset (pos, siz F pos) live)"
    and "mp_counts env P1 (without_node F r) (e1 + siz F pos) (e2 + siz F pos) (e3 + 1)"
    and "keeps P P1 live" and "mp_n P1 = mp_n P" and "vv_c (mp_mem P1) = vv_c (mp_mem P)"
    and "fragment_size P1 = fragment_size P" and "huge_size_sum P1 = huge_size_sum P" and "huge_node_cnt P1 = huge_node_cnt P"
    and "free_list_len P1 = free_list_len P"
proof -
  let ?H = "huge_blocks F" and ?M = "fast_blocks env (fast F) + live" and ?h = "huge_size (huge_list P)"
  define N where "N = fst ` set_mset ?H"
  have t: "tiles env (mp_n P) (?H + ?M)" and f: "fast_ok env P F" and h: "huge_ok env P F"
    and mem: "length (mp_bytes P) = vv_c (mp_mem P)" "mp_n P \<le> vv_c (mp_mem P)" "mp_n P \<le> link_limit env"
    using sh by (simp_all add: mp_shape_def mem_ok_def free_blocks_def ac_simps)
  note nodes = shape_nodes [OF h f t, folded N_def]
  have N: "nodes_ok env (mp_n P) N" and lim: "\<And>q. q \<in> N \<Longrightarrow> q < link_limit env"
    and big_N: "\<And>q. q \<in> N \<Longrightarrow> \<exists>l\<ge>sizeof_huge_link env. (q, l) \<in># ?H"
    using nodes mem(3) by auto
  have NF: "N = set (huge F)" by (auto simp: N_def huge_blocks_def image_iff)
  have all: "huge F = below F r @ pos # D" using D by (metis takeWhile_dropWhile_id)
  have dist: "distinct (below F r @ pos # D)"
    using mset_distinct [of env "mp_n P" "siz F" "huge F" ?M] t all by (simp add: huge_blocks_def)
  have h8: "?h \<le> skip_list_level_max" "length (huge_next (huge_list P)) = skip_list_level_max" using h by (simp_all add: huge_ok_def)
  have "\<exists>P1. unlink_levels env update pos P [0..<?h] = Inr P1 \<and> level_change env (set [0..<?h]) N P P1 \<and>
      (\<forall>k\<in>set [0..<?h]. chain env (load_link env P1) (Suc k) (huge_next (huge_list P1) ! k)
        (on_level F k (below F r) @ on_level F k D))"
  proof (rule unlink_levels_run [OF env N _ dist lim])
    show "set (below F r @ pos # D) \<subseteq> N" using NF all by simp
    have "chain env (load_link env P) (Suc k) (huge_next (huge_list P) ! k) (on_level F k (below F r) @ on_level F k (pos # D))"
      if "k < skip_list_level_max" for k
      using h that unfolding D [symmetric] level_list_split [symmetric] by (simp add: huge_ok_def)
    then show "\<forall>k\<in>set [0..<?h]. k < skip_list_level_max \<and> read_update update k = Inr (ptr_last (on_level F k (below F r))) \<and>
        chain env (load_link env P) (Suc k) (huge_next (huge_list P) ! k) (on_level F k (below F r) @ on_level F k (pos # D))"
      using se(2,3) h8 by (auto simp: read_update_def)
  qed (use mem h8 in auto)
  then obtain P1 where P1: "unlink_levels env update pos P [0..<?h] = Inr P1" and c1: "level_change env (set [0..<?h]) N P P1"
    and ch: "\<And>k. k < ?h \<Longrightarrow> chain env (load_link env P1) (Suc k) (huge_next (huge_list P1) ! k)
      (on_level F k (below F r) @ on_level F k D)" by (auto simp del: upt_conv_Cons)
  note s = level_change_simps [OF c1]
  let ?F = "without_node F r"
  have hF: "huge ?F = below F r @ D" "levels ?F = levels F" "siz ?F = siz F" "fast ?F = fast F" using D by (simp_all add: without_node_def)
  have posN: "pos \<in> set (huge F)" using all by (metis in_set_conv_decomp)
  have sub: "set (huge ?F) \<subseteq> set (huge F)" unfolding hF(1) by (subst all) auto
  have ll: "level_list ?F k = on_level F k (below F r) @ on_level F k D" for k
    by (simp add: level_list_def on_level_def hF)
  have chs: "chain env (load_link env P1) (Suc k) (huge_next (huge_list P1) ! k) (level_list ?F k)" if k: "k < skip_list_level_max" for k
  proof (cases "k < ?h")
    case False
    moreover have "levels F p \<le> ?h" if "p \<in> set (huge F)" for p using h that by (simp add: huge_ok_def)
    ultimately have "\<forall>p\<in>set (huge F). \<not> k < levels F p" by fastforce
    then have "level_list F k = []" "level_list ?F k = []"
      using sub by (auto simp: level_list_def filter_empty_conv hF(2) simp del: hF(1))
    moreover have "huge_next (huge_list P1) ! k = huge_next (huge_list P) ! k" using s(11) [of k] False by simp
    moreover have "chain env (load_link env P) (Suc k) (huge_next (huge_list P) ! k) (level_list F k)" using h k by (simp add: huge_ok_def)
    ultimately show ?thesis by simp
  qed (use ch ll in simp)
  have sz: "load_link env P1 p = Inr (siz ?F p) \<and> free_list_len P1 * AlignSize env < siz ?F p" if p: "p \<in> set (huge ?F)" for p
  proof -
    have "load_link env P1 (p + 0 * link_bytes env) = load_link env P (p + 0 * link_bytes env)"
      by (rule level_change_field [OF c1 N subset_refl]) (use p sub NF mem h8 in auto)
    then show ?thesis using h p sub s by (auto simp: huge_ok_def hF)
  qed
  have so: "sorted (map (siz ?F) (huge ?F))"
  proof -
    have "sorted (map (siz F) (below F r @ pos # D))" using h unfolding all [symmetric] by (simp add: huge_ok_def)
    then show ?thesis unfolding hF by (auto simp: sorted_append)
  qed
  let ?P = "P1\<lparr>huge_list := (huge_list P1)\<lparr>huge_size := drop_empty_levels (list_tail env) (huge_next (huge_list P1)) (huge_size (huge_list P1))\<rparr>\<rparr>"
  have "huge_ok env ?P ?F"
    by (rule huge_ok_drop) (use chs sz so s h8 h sub in \<open>auto simp: huge_ok_def hF\<close>)
  moreover have kp: "keeps P P1 ?M" by (rule level_change_keeps [OF c1 t]) (use h8 big_N in auto)
  moreover have "fast_ok env ?P ?F"
  proof -
    have "fast_ok env ?P F"
      by (rule fast_ok_keeps [OF env f, where n = "mp_n P" and M = "?H + live"])
        (use kp t mem s in \<open>auto simp: keeps_def ac_simps\<close>)
    then show ?thesis by (simp add: fast_ok_def hF)
  qed
  moreover have hb: "huge_blocks F = add_mset (pos, siz F pos) (huge_blocks ?F)"
    unfolding huge_blocks_def hF by (subst all) simp
  moreover have "tiles env (mp_n P) (free_blocks env ?F + add_mset (pos, siz F pos) live)"
    using t unfolding free_blocks_def hb hF by (simp add: ac_simps)
  ultimately have "mp_shape env ?P ?F (add_mset (pos, siz F pos) live)" using mem s by (simp add: mp_shape_def mem_ok_def)
  moreover have "length (huge F) = Suc (length (huge ?F))" unfolding hF by (subst all) simp
  then have "mp_counts env P1 ?F (e1 + siz F pos) (e2 + siz F pos) (e3 + 1)"
    using c s hb hF by (simp add: mp_counts_def free_blocks_def)
  moreover have "?h \<noteq> 0" using h posN by (auto simp: huge_ok_def)
  ultimately show thesis using that P1 kp s by simp
qed

lemma mp_counts_size:
  assumes "mp_counts env P F e1 e2 e3" and "mp_shape env P F live"
  shows "total (huge_blocks F) \<le> total (free_blocks env F)" and "total (free_blocks env F) \<le> mp_n P" and "length (huge F) \<le> mp_n P"
  using assms tiles_size [of env "mp_n P" "free_blocks env F + live"] shape_walkable [OF assms(2)]
  by (auto simp: mp_shape_def free_blocks_def walkable_def)

lemma mp_shape_same:
  assumes "mp_shape env P F live" and "mp_mem P' = mp_mem P" and "huge_list P' = huge_list P"
    and "free_list_arr P' = free_list_arr P" and "free_list_len P' = free_list_len P"
  shows "mp_shape env P' F live"
proof -
  have "load_link env P' = load_link env P" by (rule load_link_same) (simp add: assms(2))
  with assms show ?thesis by (simp add: mp_shape_def mem_ok_def fast_ok_def huge_ok_def)
qed

text \<open>
  The rest of a larger block is given back, as a block of its own, before the counters are lowered by the request: the
  counter of the free bytes has counted the rest a second time, and \<open>huge_size_sum\<close> too.
\<close>

lemma alloc_huge_ok:
  assumes env: "mp_env_ok env" and sh: "mp_shape env P F live" and c: "mp_counts env P F e1 e2 e3"
    and len: "free_list_len P * AlignSize env < len" "AlignSize env dvd len"
    and room: "fragment_size P + mp_n P < 2 ^ 64" "huge_size_sum P + mp_n P < 2 ^ 64" "huge_node_cnt P + mp_n P < 2 ^ 64"
  shows "alloc_huge env P len = Inr None \<or>
    (\<exists>P' pos F' e. alloc_huge env P len = Inr (Some (P', pos)) \<and> mp_shape env P' F' (add_mset (pos, len) live) \<and>
      mp_counts env P' F' (e1 + e) (e2 + e) e3 \<and> e = siz F pos - len \<and> e \<le> mp_n P \<and> keeps P P' live \<and> mp_n P' \<le> mp_n P \<and>
      vv_c (mp_mem P') = vv_c (mp_mem P))"
proof -
  have h: "huge_ok env P F" and f: "fast_ok env P F" using sh by (simp_all add: mp_shape_def)
  from search_huge_run [OF env h shape_walkable [OF sh], of len] obtain n2 update where
    se: "search_huge env P len = Inr (n2, update)" "length update = skip_list_level_max" "found_node F len n2"
      "\<And>j. j < huge_size (huge_list P) \<Longrightarrow> update ! j = Some (ptr_last (on_level F j (below F len)))" by metis
  have big: "sizeof_huge_link env \<le> len" using f len by (simp add: fast_ok_def)
  show ?thesis
  proof (cases "from_size F len")
    case Nil
    from Nil se(3) consider "n2 = None" | p where "n2 = Some p" "p \<in> set (below F len)"
      unfolding found_node_def by (auto simp del: dropWhile_eq_Nil_conv)
    then show ?thesis
    proof cases
      case 2
      then have "p \<in> set (huge F)" "siz F p < len" by (auto dest: set_takeWhileD)
      then have "load_link env P p = Inr (siz F p)" "\<not> len \<le> siz F p" using h by (simp_all add: huge_ok_def)
      with 2 se big show ?thesis by (simp add: alloc_huge_def)
    qed (use se big in \<open>simp add: alloc_huge_def\<close>)
  next
    case (Cons pos D)
    then have n2: "n2 = Some pos" using se(3) by (simp add: found_node_def)
    have pos: "pos \<in> set (from_size F len)" "pos \<in> set (huge F)"
      using Cons set_dropWhileD [of pos "\<lambda>p. siz F p < len" "huge F"] by auto
    from from_size_ge [OF _ pos(1)] h have S: "len \<le> siz F pos" by (simp add: huge_ok_def not_less)
    obtain P1 where un: "unlink_levels env update pos P [0..<huge_size (huge_list P)] = Inr P1" "huge_size (huge_list P1) \<noteq> 0"
      and sh1: "mp_shape env (P1\<lparr>huge_list := (huge_list P1)\<lparr>huge_size :=
          drop_empty_levels (list_tail env) (huge_next (huge_list P1)) (huge_size (huge_list P1))\<rparr>\<rparr>)
        (without_node F len) (add_mset (pos, siz F pos) live)"
      and c1: "mp_counts env P1 (without_node F len) (e1 + siz F pos) (e2 + siz F pos) (e3 + 1)"
      and k1: "keeps P P1 live" and same: "mp_n P1 = mp_n P" "vv_c (mp_mem P1) = vv_c (mp_mem P)" "fragment_size P1 = fragment_size P"
        "huge_size_sum P1 = huge_size_sum P" "huge_node_cnt P1 = huge_node_cnt P"
      by (rule alloc_huge_unlink [OF env sh c se(1,2,4) Cons]) blast+
    define Q where "Q = P1\<lparr>huge_list := (huge_list P1)\<lparr>huge_size :=
      drop_empty_levels (list_tail env) (huge_next (huge_list P1)) (huge_size (huge_list P1))\<rparr>\<rparr>"
    have Q: "mp_mem Q = mp_mem P1" "fragment_size Q = fragment_size P1" "huge_size_sum Q = huge_size_sum P1" "huge_node_cnt Q = huge_node_cnt P1"
      by (simp_all add: Q_def)
    have cQ: "mp_counts env Q (without_node F len) (e1 + siz F pos) (e2 + siz F pos) (e3 + 1)" using c1 by (simp add: mp_counts_def Q)
    have ld: "load_link env P pos = Inr (siz F pos)" using h pos(2) by (simp add: huge_ok_def)
    have run: "alloc_huge env P len =
        bind_res (if siz F pos - len \<noteq> 0 then mp_sfree env Q (pos + len) (siz F pos - len) else Inr Q) (\<lambda>P.
          Inr (Some (P\<lparr>fragment_size := sub64 (fragment_size P) len, huge_size_sum := sub64 (huge_size_sum P) len,
            huge_node_cnt := sub64 (huge_node_cnt P) 1\<rparr>, pos)))"
      using big se n2 ld S un by (simp add: alloc_huge_def Let_def Q_def del: One_nat_def)
    have inb: "(pos, siz F pos) \<in># huge_blocks F" by (rule huge_blocks_member [OF pos(2)])
    then have e: "siz F pos \<le> total (huge_blocks F)" "1 \<le> length (huge F)" using pos(2) by (auto dest!: multi_member_split) (cases "huge F"; simp)
    note tot = mp_counts_size [OF c sh]
    have n1: "1 \<le> mp_n P" using tot e(2) by linarith
    obtain R F' where R: "(if siz F pos - len \<noteq> 0 then mp_sfree env Q (pos + len) (siz F pos - len) else Inr Q) = Inr R"
      "mp_shape env R F' (add_mset (pos, len) live)" "mp_counts env R F' (e1 + siz F pos) (e2 + siz F pos) (e3 + 1)"
      "keeps Q R live" "mp_n R \<le> mp_n Q" "vv_c (mp_mem R) = vv_c (mp_mem Q)"
    proof (cases "siz F pos = len")
      case True
      then show thesis using that [of Q "without_node F len"] sh1 cQ by (simp add: Q_def)
    next
      case False
      then have S': "len < siz F pos" "siz F pos = len + (siz F pos - len)" using S by simp_all
      have "tiles env (mp_n Q) (add_mset (pos, len + (siz F pos - len)) (free_blocks env (without_node F len) + live))"
        using sh1 S'(2) by (simp add: mp_shape_def Q_def)
      from tiles_split [OF this len(2)] have t2: "tiles env (mp_n Q)
          (add_mset (pos, len) (add_mset (pos + len, siz F pos - len) (free_blocks env (without_node F len) + live)))"
        using S'(1) len(1) by simp
      then have shQ: "mp_shape env Q (without_node F len) (add_mset (pos + len, siz F pos - len) (add_mset (pos, len) live))"
        using sh1 by (simp add: mp_shape_def Q_def add_mset_commute)
      have d: "AlignSize env dvd siz F pos - len" using tiles_block(2) [OF t2, of "(pos + len, siz F pos - len)"] by simp
      have le: "siz F pos - len \<le> mp_n P" using tiles_block(5) [OF t2, of "(pos + len, siz F pos - len)"] same Q by simp
      have rooms: "fragment_size Q + (siz F pos - len) < 2 ^ 64" "huge_size_sum Q + (siz F pos - len) < 2 ^ 64" "huge_node_cnt Q + 1 < 2 ^ 64"
        using room same Q le n1 by auto
      have "0 < siz F pos - len" using S'(1) by simp
      from mp_sfree_ok [OF env shQ cQ rooms block_len_id [OF env d] this] obtain R F' where
        "mp_sfree env Q (pos + len) (siz F pos - len) = Inr R" "mp_shape env R F' (add_mset (pos, len) live)"
        "mp_counts env R F' (e1 + siz F pos) (e2 + siz F pos) (e3 + 1)" "keeps Q R (add_mset (pos, len) live)"
        "mp_n R \<le> mp_n Q" "vv_c (mp_mem R) = vv_c (mp_mem Q)" by blast
      then show thesis using that S' by (auto simp: keeps_def)
    qed
    let ?R = "R\<lparr>fragment_size := sub64 (fragment_size R) len, huge_size_sum := sub64 (huge_size_sum R) len,
      huge_node_cnt := sub64 (huge_node_cnt R) 1\<rparr>"
    have "mp_shape env ?R F' (add_mset (pos, len) live)" by (rule mp_shape_same [OF R(2)]) simp_all
    moreover have "mp_counts env ?R F' (e1 + (siz F pos - len)) (e2 + (siz F pos - len)) e3"
    proof -
      note totR = mp_counts_size [OF R(3,2)]
      have nR: "mp_n R \<le> mp_n P" using R(5) Q same by simp
      have "fragment_size R < 2 ^ 64" "huge_size_sum R < 2 ^ 64" "huge_node_cnt R < 2 ^ 64"
        using R(3) c room tot totR e nR unfolding mp_counts_def by - linarith+
      moreover have "len \<le> fragment_size R" "len \<le> huge_size_sum R" "1 \<le> huge_node_cnt R"
        using R(3) S unfolding mp_counts_def by - linarith+
      ultimately show ?thesis using R(3) S by (simp add: mp_counts_def sub64_eq del: One_nat_def)
    qed
    moreover have "keeps P ?R live" using k1 R(4) by (auto simp: keeps_def Q)
    moreover have "alloc_huge env P len = Inr (Some (?R, pos))" unfolding run R(1) by simp
    ultimately show ?thesis using R(5,6) Q same e(1) tot(1,2)
      by (intro disjI2 exI [of _ ?R] exI [of _ pos] exI [of _ F'] exI [of _ "siz F pos - len"]) simp
  qed
qed

end
