(* ===== verification/Mempool_Pool.thy ===== *)
theory Mempool_Pool
  imports Mempool_Alloc
begin

text \<open>
  The operations of the pools on states that keep the invariant \<open>mp_ok\<close>: the live blocks are given, the free lists are
  some lists that tile the rest.
\<close>

section \<open>The invariant of a pool\<close>

definition mp_ok :: "mp_env \<Rightarrow> mempool \<Rightarrow> block multiset \<Rightarrow> bool" where
  "mp_ok env P live \<longleftrightarrow> (\<exists>F e. mp_shape env P F live \<and> mp_counts env P F e e 0)"

lemma mp_ok_live:
  assumes "mp_ok env P live" and "(p, l) \<in># live"
  shows "AlignSize env dvd p" "AlignSize env dvd l" "0 < l" "l < 2 ^ (8 * link_bytes env)" "p + l \<le> mp_n P"
proof -
  from assms obtain F where "tiles env (mp_n P) (free_blocks env F + live)" by (auto simp: mp_ok_def mp_shape_def)
  from tiles_block [OF this, of "(p, l)"] assms(2)
  show "AlignSize env dvd p" "AlignSize env dvd l" "0 < l" "l < 2 ^ (8 * link_bytes env)" "p + l \<le> mp_n P" by simp_all
qed

lemma mp_ok_apart:
  assumes "mp_ok env P (add_mset b (add_mset c live))"
  shows "apart b c"
proof -
  from assms obtain F where "tiles env (mp_n P) (free_blocks env F + add_mset b (add_mset c live))" by (auto simp: mp_ok_def mp_shape_def)
  then have "tiles env (mp_n P) (add_mset b (add_mset c (free_blocks env F + live)))" by simp
  then show ?thesis by (rule tiles_apart)
qed

lemma mp_ok_mem:
  assumes "mp_ok env P live"
  shows "length (mp_bytes P) = vv_c (mp_mem P)" "mp_n P \<le> vv_c (mp_mem P)" "mp_n P \<le> link_limit env" "AlignSize env dvd mp_n P"
  using assms tiles_aligned by (auto simp: mp_ok_def mp_shape_def mem_ok_def)

text \<open>Room in the counters.\<close>

lemma mp_ok_counts:
  assumes sh: "mp_shape env P F live" and c: "mp_counts env P F e e 0"
  shows "huge_size_sum P \<le> fragment_size P" and "huge_node_cnt P \<le> huge_size_sum P" and "total (free_blocks env F) \<le> mp_n P"
proof -
  have t: "tiles env (mp_n P) (huge_blocks F + (fast_blocks env (fast F) + live))"
    using sh by (simp add: mp_shape_def free_blocks_def ac_simps)
  show "huge_size_sum P \<le> fragment_size P" "huge_node_cnt P \<le> huge_size_sum P" "total (free_blocks env F) \<le> mp_n P"
    using c mp_counts_size [OF c sh] huge_count [OF t] by (auto simp: mp_counts_def)
qed

section \<open>Freeing\<close>

lemma mp_sfree_law:
  assumes env: "mp_env_ok env" and ok: "mp_ok env P (add_mset (pos, block_len env len) live)" and len: "0 < len"
    and room: "fragment_size P + mp_n P < 2 ^ 64"
  shows "\<exists>P'. mp_sfree env P pos len = Inr P' \<and> mp_ok env P' live \<and> keeps P P' live \<and> mp_n P' \<le> mp_n P \<and>
    vv_c (mp_mem P') = vv_c (mp_mem P) \<and> fragment_size P' \<le> fragment_size P + mp_n P"
proof -
  from ok obtain F e where sh: "mp_shape env P F (add_mset (pos, block_len env len) live)" and c: "mp_counts env P F e e 0"
    by (auto simp: mp_ok_def)
  have "block_len env len \<le> mp_n P" "1 \<le> mp_n P" using mp_ok_live [OF ok, of pos "block_len env len"] by auto
  with mp_sfree_ok [OF env sh c _ _ _ refl len] mp_ok_counts [OF sh c] room obtain P' F' where
    P': "mp_sfree env P pos len = Inr P'" "mp_shape env P' F' live" "mp_counts env P' F' e e 0" "keeps P P' live"
      "mp_n P' \<le> mp_n P" "vv_c (mp_mem P') = vv_c (mp_mem P)" by fastforce
  have "fragment_size P' \<le> fragment_size P + mp_n P"
    using mp_ok_counts(3) [OF P'(2,3)] P'(3,5) c by (simp add: mp_counts_def)
  with P' show ?thesis unfolding mp_ok_def by blast
qed

section \<open>The end of the used bytes\<close>

lemma mp_shape_memory:
  assumes env: "mp_env_ok env" and sh: "mp_shape env P F live" and t: "tiles env n (free_blocks env F + live')"
    and mem: "length (mp_bytes P') = vv_c (mp_mem P')" "n \<le> vv_c (mp_mem P')" "n \<le> link_limit env" "mp_n P' = n"
    and c: "mp_n P \<le> length (mp_bytes P')"
    and k: "keeps P P' (free_blocks env F)"
    and same: "huge_list P' = huge_list P" "free_list_arr P' = free_list_arr P" "free_list_len P' = free_list_len P"
  shows "mp_shape env P' F live'"
proof -
  have f: "fast_ok env P F" and h: "huge_ok env P F" and m: "mem_ok env P" and t0: "tiles env (mp_n P) (free_blocks env F + live)"
    using sh by (simp_all add: mp_shape_def)
  have "fast_ok env P' F"
    by (rule fast_ok_keeps [OF env f, where n = "mp_n P" and M = "huge_blocks F + live"])
      (use k t0 m c same in \<open>auto simp: free_blocks_def mem_ok_def ac_simps\<close>)
  moreover have "huge_ok env P' F"
    by (rule huge_ok_keeps [OF h, where n = "mp_n P" and M = "fast_blocks env (fast F) + live"])
      (use k t0 m c f same in \<open>auto simp: free_blocks_def mem_ok_def fast_ok_def ac_simps\<close>)
  ultimately show ?thesis using t mem by (simp add: mp_shape_def mem_ok_def)
qed

lemma keeps_prefix:
  assumes "\<And>i. i < n \<Longrightarrow> mp_bytes P' ! i = mp_bytes P ! i" and "\<And>b. b \<in># M \<Longrightarrow> fst b + snd b \<le> n"
  shows "keeps P P' M"
  unfolding keeps_def covers_def by (meson assms order_less_le_trans)

lemma grow_to_ok:
  assumes env: "mp_env_ok env" and sh: "mp_shape env P F live" and t: "tiles env End (free_blocks env F + live')"
    and lim: "End \<le> link_limit env"
  shows "yields (\<forall>k. bytes_granted env k) (grow_to env P End) (\<lambda>P'. mp_shape env P' F live' \<and> keeps P P' live \<and>
    mp_n P' = End \<and> counts_same P P' \<and> (\<forall>i<mp_n P. mp_bytes P' ! i = mp_bytes P ! i))"
proof -
  let ?v = "mp_mem P"
  have m: "length (vv_p ?v) = vv_c ?v" "vv_n ?v \<le> vv_c ?v" and t0: "tiles env (mp_n P) (free_blocks env F + live)"
    using sh by (simp_all add: mp_shape_def mem_ok_def)
  have *: "mp_shape env (P\<lparr>mp_mem := v\<lparr>vv_n := End\<rparr>\<rparr>) F live' \<and> keeps P (P\<lparr>mp_mem := v\<lparr>vv_n := End\<rparr>\<rparr>) live \<and>
      mp_n (P\<lparr>mp_mem := v\<lparr>vv_n := End\<rparr>\<rparr>) = End \<and> counts_same P (P\<lparr>mp_mem := v\<lparr>vv_n := End\<rparr>\<rparr>) \<and>
      (\<forall>i<mp_n P. mp_bytes (P\<lparr>mp_mem := v\<lparr>vv_n := End\<rparr>\<rparr>) ! i = mp_bytes P ! i)"
    if v: "length (vv_p v) = vv_c v" "End \<le> vv_c v" "vv_c ?v \<le> vv_c v" "\<And>i. i < vv_c ?v \<Longrightarrow> vv_p v ! i = vv_p ?v ! i" for v
  proof -
    have k: "keeps P (P\<lparr>mp_mem := v\<lparr>vv_n := End\<rparr>\<rparr>) (free_blocks env F + live)"
      by (rule keeps_prefix [of "mp_n P"]) (use v m tiles_block(5) [OF t0] in auto)
    have "mp_shape env (P\<lparr>mp_mem := v\<lparr>vv_n := End\<rparr>\<rparr>) F live'"
      by (rule mp_shape_memory [OF env sh t]) (use v m lim k in auto)
    then show ?thesis using k v m by (auto simp: counts_same_def)
  qed
  show ?thesis
  proof (cases "End \<le> vv_c ?v")
    case True
    with m * [of ?v] show ?thesis by (simp add: grow_to_def ensure_capacity_def)
  next
    case False
    let ?c = "max (larger_capacity (vv_c ?v)) End"
    let ?w = "?v\<lparr>vv_p := realloc_cells (vv_p ?v) ?c, vv_null := False, vv_c := ?c\<rparr>"
    have run: "grow_to env P End = verify (bytes_granted env ?c) (Inr (P\<lparr>mp_mem := ?w\<lparr>vv_n := End\<rparr>\<rparr>))"
      using False m by (cases "bytes_granted env ?c")
        (simp_all add: grow_to_def ensure_capacity_def ensure_capacity_slow_def byte_env_def Let_def del: max_def)
    have "length (vv_p ?w) = vv_c ?w" "End \<le> vv_c ?w" "vv_c ?v \<le> vv_c ?w" using False m by (auto simp: realloc_cells_def min_def)
    moreover have "vv_p ?w ! i = vv_p ?v ! i" if "i < vv_c ?v" for i
      using that m False by (simp add: realloc_cells_def nth_append)
    ultimately show ?thesis unfolding run using * [of ?w] by (cases "bytes_granted env ?c") (auto simp: yields_def)
  qed
qed

section \<open>Allocation\<close>

text \<open>What a client gets: a new block, its others as they were.\<close>

definition got_block :: "mp_env \<Rightarrow> mempool \<Rightarrow> block multiset \<Rightarrow> nat \<Rightarrow> mempool \<Rightarrow> nat \<Rightarrow> bool" where
  "got_block env P live len P' pos \<longleftrightarrow> mp_ok env P' (add_mset (pos, len) live) \<and> keeps P P' live \<and>
     mp_n P' \<le> mp_n P + len \<and> fragment_size P' \<le> fragment_size P + mp_n P"

lemma alloc_free_block_ok:
  assumes env: "mp_env_ok env" and ok: "mp_ok env P live" and len: "AlignSize env dvd len" "0 < len"
    and room: "fragment_size P + mp_n P < 2 ^ 64"
  shows "alloc_free_block env P len = Inr None \<or>
    (\<exists>P' pos. alloc_free_block env P len = Inr (Some (P', pos)) \<and> got_block env P live len P' pos \<and> mp_n P' \<le> mp_n P \<and>
      vv_c (mp_mem P') = vv_c (mp_mem P))"
proof -
  from ok obtain F e where sh: "mp_shape env P F live" and c: "mp_counts env P F e e 0" by (auto simp: mp_ok_def)
  note cs = mp_ok_counts [OF sh c]
  show ?thesis
  proof (cases "len \<le> free_list_len P * AlignSize env")
    case True
    have "fragment_size P < 2 ^ 64" using room by simp
    from alloc_fast_ok [OF env sh c True len this] True consider "alloc_free_block env P len = Inr None"
      | P' pos F' where "alloc_free_block env P len = Inr (Some (P', pos))" "mp_shape env P' F' (add_mset (pos, len) live)"
        "mp_counts env P' F' e e 0" "mp_mem P' = mp_mem P" by (auto simp: alloc_free_block_def)
    then show ?thesis
    proof cases
      case 2
      have "fragment_size P' \<le> fragment_size P + mp_n P"
        using mp_ok_counts(3) [OF 2(2,3)] 2(3,4) c by (simp add: mp_counts_def)
      moreover have "keeps P P' live" using 2(4) by (simp add: keeps_def)
      moreover have "mp_ok env P' (add_mset (pos, len) live)" using 2(2,3) unfolding mp_ok_def by blast
      ultimately show ?thesis using 2(1,4) by (simp add: got_block_def)
    qed simp
  next
    case False
    then have "free_list_len P * AlignSize env < len" by simp
    with alloc_huge_ok [OF env sh c this len(1) room] cs room False consider "alloc_free_block env P len = Inr None"
      | P' pos F' d where "alloc_free_block env P len = Inr (Some (P', pos))" "mp_shape env P' F' (add_mset (pos, len) live)"
        "mp_counts env P' F' (e + d) (e + d) 0" "keeps P P' live" "mp_n P' \<le> mp_n P" "vv_c (mp_mem P') = vv_c (mp_mem P)" "d \<le> mp_n P"
      by (auto simp: alloc_free_block_def)
    then show ?thesis
    proof cases
      case 2
      have "total (free_blocks env F') + len + total live = mp_n P'" "total (free_blocks env F) + total live = mp_n P"
        using tiles_size [of env "mp_n P'" "free_blocks env F' + add_mset (pos, len) live"]
          tiles_size [of env "mp_n P" "free_blocks env F + live"] sh 2(2) by (simp_all add: mp_shape_def)
      then have "fragment_size P' \<le> fragment_size P + mp_n P" using 2(3,5,7) c unfolding mp_counts_def by linarith
      moreover have "mp_ok env P' (add_mset (pos, len) live)" using 2(2,3) unfolding mp_ok_def by blast
      ultimately show ?thesis using 2 by (simp add: got_block_def)
    qed simp
  qed
qed

lemma mp_alloc_law:
  assumes env: "mp_env_ok env" and ok: "mp_ok env P live" and req: "0 < request" "block_len env request < 2 ^ (8 * link_bytes env)"
    and room: "fragment_size P + mp_n P < 2 ^ 64" and fit: "mp_n P + block_len env request \<le> link_limit env"
  shows "yields (\<forall>k. bytes_granted env k) (mp_alloc env P request)
    (\<lambda>(P', pos). got_block env P live (block_len env request) P' pos)"
proof -
  let ?len = "block_len env request"
  have len: "AlignSize env dvd ?len" "0 < ?len" using block_len_dvd [OF env] block_len_pos [OF env req(1)] by auto
  from alloc_free_block_ok [OF env ok len room] show ?thesis
  proof (elim disjE exE conjE)
    assume none: "alloc_free_block env P ?len = Inr None"
    from ok obtain F e where sh: "mp_shape env P F live" and c: "mp_counts env P F e e 0" by (auto simp: mp_ok_def)
    have "tiles env (mp_n P) (free_blocks env F + live)" using sh by (simp add: mp_shape_def)
    from tiles_grow [OF this mp_ok_mem(4) [OF ok] len req(2)]
    have "tiles env (mp_n P + ?len) (free_blocks env F + add_mset (mp_n P, ?len) live)" by simp
    from grow_to_ok [OF env sh this fit]
    have "yields (\<forall>k. bytes_granted env k) (bind_res (grow_to env P (mp_n P + ?len)) (\<lambda>P'. Inr (P', mp_n P)))
        (\<lambda>(P', pos). got_block env P live ?len P' pos)"
    proof (rule yields_bind)
      fix P' assume P': "mp_shape env P' F (add_mset (mp_n P, ?len) live) \<and> keeps P P' live \<and> mp_n P' = mp_n P + ?len \<and>
        counts_same P P' \<and> (\<forall>i<mp_n P. mp_bytes P' ! i = mp_bytes P ! i)"
      then have "mp_counts env P' F e e 0" using c by (simp add: mp_counts_def counts_same_def)
      with P' show "yields (\<forall>k. bytes_granted env k) (Inr (P', mp_n P)) (\<lambda>(P', pos). got_block env P live ?len P' pos)"
        by (auto simp: got_block_def mp_ok_def counts_same_def)
    qed
    with none req(1) show ?thesis by (simp add: mp_alloc_def Let_def)
  next
    fix P' pos
    assume "alloc_free_block env P ?len = Inr (Some (P', pos))" "got_block env P live ?len P' pos"
    with req(1) show ?thesis by (simp add: mp_alloc_def Let_def)
  qed
qed

section \<open>Writing into a live block\<close>

text \<open>What changes bytes of one live block only keeps the invariant and the other live blocks.\<close>

lemma mp_ok_write:
  assumes env: "mp_env_ok env" and ok: "mp_ok env P (add_mset (p, l) live)"
    and P': "P' = P\<lparr>mp_mem := (mp_mem P)\<lparr>vv_p := bs\<rparr>\<rparr>" "length bs = length (mp_bytes P)"
    and out: "\<And>i. \<not> covers i (p, l) \<Longrightarrow> i < length bs \<Longrightarrow> bs ! i = mp_bytes P ! i"
  shows "mp_ok env P' (add_mset (p, l) live)" and "keeps P P' live"
proof -
  from ok obtain F e where sh: "mp_shape env P F (add_mset (p, l) live)" and c: "mp_counts env P F e e 0" by (auto simp: mp_ok_def)
  have t: "tiles env (mp_n P) (add_mset (p, l) (free_blocks env F + live))" using sh by (simp add: mp_shape_def)
  have m: "length (mp_bytes P) = vv_c (mp_mem P)" "mp_n P \<le> vv_c (mp_mem P)" "mp_n P \<le> link_limit env" using mp_ok_mem [OF ok] by auto
  have k: "keeps P P' (free_blocks env F + live)"
    unfolding keeps_def
  proof (intro ballI allI impI)
    fix b i assume b: "b \<in># free_blocks env F + live" "covers i b"
    from b(1) obtain M where "free_blocks env F + live = add_mset b M" by (auto dest: multi_member_split)
    with t have "apart (p, l) b" by (auto intro: tiles_apart)
    then have "\<not> covers i (p, l)" using b(2) apart_covers by blast
    moreover have "i < length bs" using tiles_block(5) [OF t, of b] b m P'(2) by (auto simp: covers_def)
    ultimately show "mp_bytes P' ! i = mp_bytes P ! i" using out P'(1) by simp
  qed
  then show "keeps P P' live" by simp
  have "mp_shape env P' F (add_mset (p, l) live)"
    by (rule mp_shape_memory [OF env sh]) (use sh m k P' in \<open>auto simp: mp_shape_def\<close>)
  moreover have "mp_counts env P' F e e 0" using c P' by (simp add: mp_counts_def)
  ultimately show "mp_ok env P' (add_mset (p, l) live)" unfolding mp_ok_def by blast
qed

lemma write_bytes_law:
  assumes env: "mp_env_ok env" and ok: "mp_ok env P (add_mset (p, l) live)" and a: "p \<le> a" "a + length bs \<le> p + l"
  shows "\<exists>P'. write_bytes P a bs = Inr P' \<and> mp_ok env P' (add_mset (p, l) live) \<and> keeps P P' live \<and>
    (\<forall>i. mp_bytes P' ! i = (if a \<le> i \<and> i < a + length bs then Some (bs ! (i - a)) else mp_bytes P ! i)) \<and>
    counts_same P P' \<and> mp_n P' = mp_n P \<and> vv_c (mp_mem P') = vv_c (mp_mem P)"
proof -
  have fit: "a + length bs \<le> length (mp_bytes P)" using mp_ok_mem [OF ok] mp_ok_live(5) [OF ok, of p l] a(2) by simp
  let ?P = "overwrite P a bs"
  have P': "?P = P\<lparr>mp_mem := (mp_mem P)\<lparr>vv_p := mp_bytes ?P\<rparr>\<rparr>" by (simp add: overwrite_def)
  have out: "mp_bytes ?P ! i = mp_bytes P ! i" if "\<not> covers i (p, l)" for i
    using that a by (auto simp: nth_overwrite [OF fit] covers_def)
  have *: "mp_ok env ?P (add_mset (p, l) live)" "keeps P ?P live"
    using mp_ok_write [OF env ok P' length_overwrite [OF fit] out] by blast+
  with write_bytes_eq [OF fit] nth_overwrite [OF fit] show ?thesis
    by (intro exI [of _ ?P]) (auto simp: counts_same_def)
qed

lemma copy_block_law:
  assumes env: "mp_env_ok env" and ok: "mp_ok env P (add_mset (p, l) live)" and len: "len \<le> l" and src: "src + len \<le> mp_n P"
  shows "\<exists>P'. copy_block P p src len = Inr P' \<and> mp_ok env P' (add_mset (p, l) live) \<and> keeps P P' live \<and>
    (\<forall>i<len. mp_bytes P' ! (p + i) = mp_bytes P ! (src + i)) \<and>
    counts_same P P' \<and> mp_n P' = mp_n P \<and> vv_c (mp_mem P') = vv_c (mp_mem P)"
proof -
  let ?b = "mp_bytes P"
  have fit: "p + len \<le> length ?b" "src + len \<le> length ?b" using mp_ok_mem [OF ok] mp_ok_live(5) [OF ok, of p l] len src by simp_all
  let ?bs = "take p ?b @ take len (drop src ?b) @ drop (p + len) ?b"
  let ?P = "P\<lparr>mp_mem := (mp_mem P)\<lparr>vv_p := ?bs\<rparr>\<rparr>"
  have l: "length ?bs = length ?b" using fit by simp
  have nth: "?bs ! i = (if p \<le> i \<and> i < p + len then ?b ! (src + (i - p)) else ?b ! i)" for i using fit by (auto simp: nth_append)
  have "mp_ok env ?P (add_mset (p, l) live)" "keeps P ?P live"
    by (rule mp_ok_write [OF env ok refl l], use len in \<open>auto simp: nth covers_def\<close>)+
  moreover have "copy_block P p src len = Inr ?P" using fit by (simp add: copy_block_def memmove_cells_def)
  moreover have "\<forall>i<len. mp_bytes ?P ! (p + i) = ?b ! (src + i)" using nth by simp
  ultimately show ?thesis by (intro exI [of _ ?P]) (simp add: counts_same_def)
qed

section \<open>Changing the size of a block\<close>

definition mp_room :: "mp_env \<Rightarrow> mempool \<Rightarrow> nat \<Rightarrow> bool" where
  "mp_room env P len \<longleftrightarrow> fragment_size P + 2 * mp_n P + len < 2 ^ 64 \<and> mp_n P + len \<le> link_limit env \<and>
     len < 2 ^ (8 * link_bytes env)"

definition grows :: "mempool \<Rightarrow> mempool \<Rightarrow> nat \<Rightarrow> bool" where
  "grows P P' len \<longleftrightarrow> mp_n P' \<le> mp_n P + len \<and> fragment_size P' \<le> fragment_size P + 2 * mp_n P + len"

definition same_content :: "mempool \<Rightarrow> nat \<Rightarrow> mempool \<Rightarrow> nat \<Rightarrow> nat \<Rightarrow> bool" where
  "same_content P p P' p' len \<longleftrightarrow> (\<forall>i<len. mp_bytes P' ! (p' + i) = mp_bytes P ! (p + i))"

lemma keeps_content: "keeps P P' (add_mset (p, l) M) \<Longrightarrow> len \<le> l \<Longrightarrow> same_content P p P' p len"
  by (simp add: keeps_def same_content_def covers_def)

lemma mp_ok_split:
  assumes "mp_env_ok env" and "mp_ok env P (add_mset (p, a + b) live)" and "AlignSize env dvd a" and "0 < a" and "0 < b"
  shows "mp_ok env P (add_mset (p + a, b) (add_mset (p, a) live))"
proof -
  from assms(2) obtain F e where F: "mp_shape env P F (add_mset (p, a + b) live)" "mp_counts env P F e e 0" by (auto simp: mp_ok_def)
  then have "tiles env (mp_n P) (add_mset (p, a + b) (free_blocks env F + live))" by (simp add: mp_shape_def)
  from tiles_split [OF this assms(3-5)] F show ?thesis by (auto simp: mp_ok_def mp_shape_def add_mset_commute)
qed

text \<open>The end of the used bytes moved, for the block that ends there.\<close>

lemma tiles_last:
  assumes "mp_ok env P (add_mset (pos, old) live)" and "pos + old = mp_n P" and "mp_shape env P F (add_mset (pos, old) live)"
    and "AlignSize env dvd new" and "0 < new" and "new < 2 ^ (8 * link_bytes env)"
  shows "tiles env (pos + new) (free_blocks env F + add_mset (pos, new) live)"
proof -
  have "tiles env (mp_n P) (add_mset (pos, old) (free_blocks env F + live))" using assms(3) by (simp add: mp_shape_def)
  moreover have "AlignSize env dvd pos" using mp_ok_live(1) [OF assms(1), of pos old] by simp
  ultimately show ?thesis using tiles_grow [OF tiles_trim [OF _ assms(2)] _ assms(4-6)] by simp
qed

text \<open>A block that is given up for another one, with what fits copied.\<close>

lemma move_block:
  assumes env: "mp_env_ok env" and got: "got_block env P (add_mset (pos, block_len env oldlen) live) new P1 p1"
    and len: "0 < oldlen" and room: "fragment_size P + 2 * mp_n P + new < 2 ^ 64"
  shows "\<exists>P'. bind_res (copy_block P1 p1 pos (min (block_len env oldlen) new)) (\<lambda>P. mp_sfree env P pos (block_len env oldlen)) = Inr P' \<and>
    mp_ok env P' (add_mset (p1, new) live) \<and> keeps P P' live \<and>
    same_content P pos P' p1 (min (block_len env oldlen) new) \<and> vv_c (mp_mem P') = vv_c (mp_mem P1) \<and> grows P P' new"
proof -
  let ?old = "block_len env oldlen"
  let ?m = "min ?old new"
  have ok1: "mp_ok env P1 (add_mset (p1, new) (add_mset (pos, ?old) live))" and k1: "keeps P P1 (add_mset (pos, ?old) live)"
    and n1: "mp_n P1 \<le> mp_n P + new" and f1: "fragment_size P1 \<le> fragment_size P + mp_n P"
    using got by (auto simp: got_block_def)
  have "pos + ?m \<le> mp_n P1" using mp_ok_live(5) [OF ok1, of pos ?old] by simp
  with copy_block_law [OF env ok1, of ?m pos] obtain P2 where c: "copy_block P1 p1 pos ?m = Inr P2"
    and P2: "mp_ok env P2 (add_mset (p1, new) (add_mset (pos, ?old) live))" "keeps P1 P2 (add_mset (pos, ?old) live)"
      "same_content P1 pos P2 p1 ?m" "counts_same P1 P2" "mp_n P2 = mp_n P1" "vv_c (mp_mem P2) = vv_c (mp_mem P1)"
    unfolding same_content_def by auto
  have bl: "block_len env ?old = ?old" by (rule block_len_id [OF env block_len_dvd [OF env]])
  from P2(1) have ok2: "mp_ok env P2 (add_mset (pos, block_len env ?old) (add_mset (p1, new) live))" by (simp add: bl add_mset_commute)
  have "fragment_size P2 + mp_n P2 < 2 ^ 64" using P2(4,5) n1 f1 room by (simp add: counts_same_def)
  from mp_sfree_law [OF env ok2 block_len_pos [OF env len] this] obtain P3 where
    P3: "mp_sfree env P2 pos ?old = Inr P3" "mp_ok env P3 (add_mset (p1, new) live)" "keeps P2 P3 (add_mset (p1, new) live)"
      "vv_c (mp_mem P3) = vv_c (mp_mem P2)" "mp_n P3 \<le> mp_n P2" "fragment_size P3 \<le> fragment_size P2 + mp_n P2" by blast
  have "same_content P pos P1 pos ?m" by (rule keeps_content [OF k1]) simp
  moreover have "same_content P2 p1 P3 p1 ?m" by (rule keeps_content [OF P3(3)]) simp
  ultimately have "same_content P pos P3 p1 ?m" using P2(3) by (simp add: same_content_def)
  moreover have "keeps P P3 live" using k1 P2(2) P3(3) by (auto simp: keeps_def)
  moreover have "grows P P3 new" using P3(5,6) P2(4,5) n1 f1 by (simp add: grows_def counts_same_def)
  ultimately show ?thesis using c P3 P2(6) by simp
qed

lemma mp_alloc3_law:
  assumes env: "mp_env_ok env" and ok: "mp_ok env P (add_mset (pos, block_len env oldlen) live)"
    and len: "0 < oldlen" "0 < newlen" and room: "mp_room env P (block_len env newlen)"
  shows "yields (\<forall>k. bytes_granted env k) (mp_alloc3 env P pos oldlen newlen) (\<lambda>(P', pos').
    mp_ok env P' (add_mset (pos', block_len env newlen) live) \<and> keeps P P' live \<and>
    same_content P pos P' pos' (min (block_len env oldlen) (block_len env newlen)) \<and> grows P P' (block_len env newlen))" (is "yields ?G _ ?Q")
proof -
  let ?old = "block_len env oldlen" and ?new = "block_len env newlen"
  have d: "AlignSize env dvd ?old" "0 < ?old" "AlignSize env dvd ?new" "0 < ?new"
    using block_len_dvd [OF env] block_len_pos [OF env] len by auto
  have b: "pos + ?old \<le> mp_n P" using mp_ok_live(5) [OF ok] by simp
  have r: "fragment_size P + 2 * mp_n P + ?new < 2 ^ 64" "mp_n P + ?new \<le> link_limit env" "?new < 2 ^ (8 * link_bytes env)"
    using room by (simp_all add: mp_room_def)
  have start: "mp_alloc3 env P pos oldlen newlen =
      (if pos + ?old = mp_n P then bind_res (grow_to env P (pos + ?new)) (\<lambda>P. Inr (P, pos))
       else if ?new < ?old then verify (?old - ?new \<ge> link_bytes env) (verify (?old - ?new \<ge> AlignSize env)
         (bind_res (mp_sfree env P (pos + ?new) (?old - ?new)) (\<lambda>P. Inr (P, pos))))
       else if ?new = ?old then Inr (P, pos)
       else bind_res (mp_alloc env P ?new) (\<lambda>(P, newpos).
         bind_res (bind_res (copy_block P newpos pos (min ?old ?new)) (\<lambda>P. mp_sfree env P pos ?old)) (\<lambda>P. Inr (P, newpos))))"
    using len b d(2) by (simp add: mp_alloc3_def Let_def bind_res_assoc)
  consider (last) "pos + ?old = mp_n P" | (less) "pos + ?old \<noteq> mp_n P" "?new < ?old" | (same) "?new = ?old"
    | (more) "pos + ?old \<noteq> mp_n P" "?old < ?new" by linarith
  then show ?thesis
  proof cases
    case last
    from ok obtain F e where sh: "mp_shape env P F (add_mset (pos, ?old) live)" and c: "mp_counts env P F e e 0" by (auto simp: mp_ok_def)
    have "pos + ?new \<le> link_limit env" using r(2) b by simp
    from grow_to_ok [OF env sh tiles_last [OF ok last sh d(3,4) r(3)] this]
    have "yields ?G (bind_res (grow_to env P (pos + ?new)) (\<lambda>P. Inr (P, pos))) ?Q"
    proof (rule yields_bind)
      fix P' assume "mp_shape env P' F (add_mset (pos, ?new) live) \<and> keeps P P' (add_mset (pos, ?old) live) \<and> mp_n P' = pos + ?new \<and>
        counts_same P P' \<and> (\<forall>i<mp_n P. mp_bytes P' ! i = mp_bytes P ! i)"
      then have P': "mp_shape env P' F (add_mset (pos, ?new) live)" "keeps P P' (add_mset (pos, ?old) live)" "counts_same P P'"
        "mp_n P' = pos + ?new" by auto
      have "mp_counts env P' F e e 0" using c P'(3) by (simp add: mp_counts_def counts_same_def)
      then have "mp_ok env P' (add_mset (pos, ?new) live)" using P'(1) unfolding mp_ok_def by blast
      moreover have "grows P P' ?new" using P'(3,4) b by (simp add: grows_def counts_same_def)
      ultimately show "yields ?G (Inr (P', pos)) ?Q" using P'(2) keeps_content [OF P'(2), of "min ?old ?new"] by (auto simp: keeps_def)
    qed
    with start last show ?thesis by simp
  next
    case less
    then have ge: "AlignSize env \<le> ?old - ?new" using d by (simp add: dvd_imp_le dvd_diff_nat)
    have dd: "block_len env (?old - ?new) = ?old - ?new" by (rule block_len_id [OF env]) (use d in \<open>simp add: dvd_diff_nat\<close>)
    have ok2: "mp_ok env P (add_mset (pos + ?new, block_len env (?old - ?new)) (add_mset (pos, ?new) live))"
      unfolding dd by (rule mp_ok_split [OF env _ d(3,4)]) (use ok less in auto)
    have "fragment_size P + mp_n P < 2 ^ 64" using r(1) by simp
    from mp_sfree_law [OF env ok2 _ this] less obtain P' where P': "mp_sfree env P (pos + ?new) (?old - ?new) = Inr P'"
      "mp_ok env P' (add_mset (pos, ?new) live)" "keeps P P' (add_mset (pos, ?new) live)" "grows P P' ?new" by (auto simp: grows_def)
    with start less ge mp_env_dvd(4) [OF env] keeps_content [OF P'(3), of "min ?old ?new"] show ?thesis
      by (auto simp: keeps_def)
  next
    case same
    show ?thesis
    proof (cases "pos + ?old = mp_n P")
      case True
      have "mp_alloc3 env P pos oldlen newlen = Inr (P, pos)"
        using start same True mp_ok_mem(1,2) [OF ok] by (simp add: grow_to_def ensure_capacity_def)
      with ok same show ?thesis by (simp add: same_content_def grows_def)
    qed (use start same ok in \<open>simp add: same_content_def grows_def\<close>)
  next
    case more
    have bl: "block_len env ?new = ?new" by (rule block_len_id [OF env d(3)])
    have "fragment_size P + mp_n P < 2 ^ 64" using r(1) by simp
    from mp_alloc_law [OF env ok d(4) _ this] r(2,3) bl
    have "yields ?G (mp_alloc env P ?new) (\<lambda>(P', p'). got_block env P (add_mset (pos, ?old) live) ?new P' p')" by simp
    then have "yields ?G (bind_res (mp_alloc env P ?new) (\<lambda>(P, newpos).
         bind_res (bind_res (copy_block P newpos pos (min ?old ?new)) (\<lambda>P. mp_sfree env P pos ?old)) (\<lambda>P. Inr (P, newpos)))) ?Q"
    proof (rule yields_bind, clarify)
      fix P1 p1 assume "got_block env P (add_mset (pos, ?old) live) ?new P1 p1"
      from move_block [OF env this len(1) r(1)]
      show "yields ?G (bind_res (bind_res (copy_block P1 p1 pos (min ?old ?new)) (\<lambda>P. mp_sfree env P pos ?old)) (\<lambda>P. Inr (P, p1))) ?Q" by auto
    qed
    with start more show ?thesis by simp
  qed
qed

end
