(* ===== verification/Mempool_Ops.thy ===== *)
theory Mempool_Ops
  imports Mempool_Pool
begin

text \<open>
  The pool of fixed capacity, and the operations on a pool as a whole: construction, copying, clearing, growing by hand.
\<close>

section \<open>The pool of fixed capacity\<close>

lemma mp_ok_n:
  assumes "mp_ok env P live" and "AlignSize env dvd len" "0 < len" "len < 2 ^ (8 * link_bytes env)"
    and "mp_n P + len \<le> vv_c (mp_mem P)" and "mp_n P + len \<le> link_limit env"
  shows "got_block env P live len (P\<lparr>mp_mem := (mp_mem P)\<lparr>vv_n := mp_n P + len\<rparr>\<rparr>) (mp_n P)"
proof -
  from assms(1) obtain F e where sh: "mp_shape env P F live" and c: "mp_counts env P F e e 0" by (auto simp: mp_ok_def)
  have "tiles env (mp_n P) (free_blocks env F + live)" using sh by (simp add: mp_shape_def)
  from tiles_grow [OF this mp_ok_mem(4) [OF assms(1)] assms(2-4)]
  have "tiles env (mp_n P + len) (free_blocks env F + add_mset (mp_n P, len) live)" by simp
  from mp_shape_n [OF sh this assms(5,6)] c show ?thesis
    by (auto simp: got_block_def mp_ok_def mp_counts_def keeps_def)
qed

lemma fc_alloc_law:
  assumes env: "mp_env_ok env" and ok: "mp_ok env P live" and req: "0 < request" and room: "mp_room env P (block_len env request)"
  shows "\<exists>P' r. fc_alloc env P request = Inr (P', r) \<and> vv_c (mp_mem P') = vv_c (mp_mem P) \<and>
    (case r of None \<Rightarrow> P' = P \<and> vv_c (mp_mem P) < mp_n P + block_len env request \<and>
         alloc_free_block env P (block_len env request) = Inr None
     | Some pos \<Rightarrow> got_block env P live (block_len env request) P' pos)"
proof -
  let ?len = "block_len env request"
  have len: "AlignSize env dvd ?len" "0 < ?len" using block_len_dvd [OF env] block_len_pos [OF env req] by auto
  have r: "fragment_size P + mp_n P < 2 ^ 64" "mp_n P + ?len \<le> link_limit env" "?len < 2 ^ (8 * link_bytes env)"
    using room by (simp_all add: mp_room_def)
  from alloc_free_block_ok [OF env ok len r(1)] show ?thesis
  proof (elim disjE exE conjE)
    assume none: "alloc_free_block env P ?len = Inr None"
    show ?thesis
    proof (cases "mp_n P + ?len \<le> vv_c (mp_mem P)")
      case True
      from mp_ok_n [OF ok len r(3) True r(2)] none req True show ?thesis by (simp add: fc_alloc_def Let_def)
    qed (use none req in \<open>simp add: fc_alloc_def Let_def\<close>)
  qed (use req in \<open>simp add: fc_alloc_def Let_def\<close>)
qed

lemma fc_alloc3_law:
  assumes env: "mp_env_ok env" and ok: "mp_ok env P (add_mset (pos, block_len env oldlen) live)"
    and len: "0 < oldlen" "0 < newlen" and room: "mp_room env P (block_len env newlen)"
  shows "\<exists>P' r. fc_alloc3 env P pos oldlen newlen = Inr (P', r) \<and> vv_c (mp_mem P') = vv_c (mp_mem P) \<and>
    (case r of None \<Rightarrow> P' = P \<and> vv_c (mp_mem P) < mp_n P + block_len env newlen
     | Some pos' \<Rightarrow> mp_ok env P' (add_mset (pos', block_len env newlen) live) \<and> keeps P P' live \<and>
         same_content P pos P' pos' (min (block_len env oldlen) (block_len env newlen)) \<and> grows P P' (block_len env newlen))" (is "\<exists>P' r. _ \<and> _ \<and> ?Q P' r")
proof -
  let ?old = "block_len env oldlen" and ?new = "block_len env newlen"
  have d: "AlignSize env dvd ?old" "0 < ?old" "AlignSize env dvd ?new" "0 < ?new"
    using block_len_dvd [OF env] block_len_pos [OF env] len by auto
  have b: "pos + ?old \<le> mp_n P" using mp_ok_live(5) [OF ok] by simp
  have r: "fragment_size P + 2 * mp_n P + ?new < 2 ^ 64" "mp_n P + ?new \<le> link_limit env" "?new < 2 ^ (8 * link_bytes env)"
    using room by (simp_all add: mp_room_def)
  have start: "fc_alloc3 env P pos oldlen newlen =
      (if pos + ?old = mp_n P \<and> pos + ?new \<le> vv_c (mp_mem P) then
         Inr (P\<lparr>mp_mem := (mp_mem P)\<lparr>vv_n := pos + ?new\<rparr>\<rparr>, Some pos)
       else if ?new < ?old then verify (?old - ?new \<ge> link_bytes env) (verify (?old - ?new \<ge> AlignSize env)
         (bind_res (mp_sfree env P (pos + ?new) (?old - ?new)) (\<lambda>P. Inr (P, Some pos))))
       else if ?new = ?old then Inr (P, Some pos)
       else bind_res (fc_alloc env P ?new) (\<lambda>(P, newpos). case newpos of None \<Rightarrow> Inr (P, None) | Some newpos \<Rightarrow>
         bind_res (bind_res (copy_block P newpos pos (min ?old ?new)) (\<lambda>P. mp_sfree env P pos ?old)) (\<lambda>P. Inr (P, Some newpos))))"
    using len b d(2) by (simp add: fc_alloc3_def Let_def bind_res_assoc)
  consider (last) "pos + ?old = mp_n P" "pos + ?new \<le> vv_c (mp_mem P)"
    | (less) "\<not> (pos + ?old = mp_n P \<and> pos + ?new \<le> vv_c (mp_mem P))" "?new < ?old"
    | (same) "\<not> (pos + ?old = mp_n P \<and> pos + ?new \<le> vv_c (mp_mem P))" "?new = ?old"
    | (more) "\<not> (pos + ?old = mp_n P \<and> pos + ?new \<le> vv_c (mp_mem P))" "?old < ?new" by linarith
  then show ?thesis
  proof cases
    case last
    from ok obtain F e where sh: "mp_shape env P F (add_mset (pos, ?old) live)" and c: "mp_counts env P F e e 0" by (auto simp: mp_ok_def)
    have lim: "pos + ?new \<le> link_limit env" using r(2) b by simp
    from mp_shape_n [OF sh tiles_last [OF ok last(1) sh d(3,4) r(3)] last(2) lim] c
    have "mp_ok env (P\<lparr>mp_mem := (mp_mem P)\<lparr>vv_n := pos + ?new\<rparr>\<rparr>) (add_mset (pos, ?new) live)"
      by (auto simp: mp_ok_def mp_counts_def)
    with start last b show ?thesis by (simp add: keeps_def same_content_def grows_def)
  next
    case less
    then have ge: "AlignSize env \<le> ?old - ?new" using d by (simp add: dvd_imp_le dvd_diff_nat)
    have dd: "block_len env (?old - ?new) = ?old - ?new" by (rule block_len_id [OF env]) (use d in \<open>simp add: dvd_diff_nat\<close>)
    have ok2: "mp_ok env P (add_mset (pos + ?new, block_len env (?old - ?new)) (add_mset (pos, ?new) live))"
      unfolding dd by (rule mp_ok_split [OF env _ d(3,4)]) (use ok less in auto)
    have "fragment_size P + mp_n P < 2 ^ 64" using r(1) by simp
    from mp_sfree_law [OF env ok2 _ this] less obtain P' where P': "mp_sfree env P (pos + ?new) (?old - ?new) = Inr P'"
      "mp_ok env P' (add_mset (pos, ?new) live)" "keeps P P' (add_mset (pos, ?new) live)" "vv_c (mp_mem P') = vv_c (mp_mem P)"
      "grows P P' ?new" by (auto simp: grows_def)
    with start less ge mp_env_dvd(4) [OF env] keeps_content [OF P'(3), of "min ?old ?new"] show ?thesis
      by (auto simp: keeps_def)
  next
    case same
    with start ok show ?thesis by (simp add: same_content_def grows_def)
  next
    case more
    have bl: "block_len env ?new = ?new" by (rule block_len_id [OF env d(3)])
    from fc_alloc_law [OF env ok d(4)] room bl obtain P1 r1 where a: "fc_alloc env P ?new = Inr (P1, r1)"
      "vv_c (mp_mem P1) = vv_c (mp_mem P)"
      "case r1 of None \<Rightarrow> P1 = P \<and> vv_c (mp_mem P) < mp_n P + ?new | Some p1 \<Rightarrow> got_block env P (add_mset (pos, ?old) live) ?new P1 p1"
      by (auto split: option.splits)
    show ?thesis
    proof (cases r1)
      case None
      with a start more show ?thesis by simp
    next
      case (Some p1)
      with a(3) have "got_block env P (add_mset (pos, ?old) live) ?new P1 p1" by simp
      from move_block [OF env this len(1) r(1)] a(1,2) Some start more show ?thesis by auto
    qed
  qed
qed

section \<open>Empty pools\<close>

lemma mp_ok_new:
  assumes "mp_n P = 0" and "length (mp_bytes P) = vv_c (mp_mem P)" and "huge_list P = empty_huge_list env"
    and "free_list_arr P = Some (replicate (free_list_len P) (new_head env))"
    and "sizeof_huge_link env \<le> free_list_len P * AlignSize env"
    and "fragment_size P = 0" "huge_size_sum P = 0" "huge_node_cnt P = 0"
  shows "mp_ok env P {#}"
proof -
  let ?F = "\<lparr>fast = replicate (free_list_len P) [], huge = [], levels = (\<lambda>_. 0), siz = (\<lambda>_. 0)\<rparr>"
  have b: "free_blocks env ?F = {#}" "huge_blocks ?F = {#}" by (simp_all add: free_blocks_def fast_blocks_def huge_blocks_def)
  have "mp_shape env P ?F {#}"
    using assms by (simp add: mp_shape_def mem_ok_def fast_ok_def huge_ok_def b tiles_def level_list_def new_head_def empty_huge_list_def)
  moreover have "mp_counts env P ?F 0 0 0" using assms by (simp add: mp_counts_def b)
  ultimately show ?thesis unfolding mp_ok_def by blast
qed

lemma mp_construct_law:
  assumes env: "mp_env_ok env" and "AlignSize env \<le> maxBlockSize" and "sizeof_huge_link env \<le> maxBlockSize"
    and "\<And>k. heads_granted env k"
  shows "\<exists>P. mp_construct env maxBlockSize = Inr P \<and> mp_ok env P {#} \<and> mp_n P = 0 \<and>
    free_list_len P * AlignSize env = align_up maxBlockSize (AlignSize env) \<and> fragment_size P = 0"
proof -
  have "maxBlockSize \<le> align_up maxBlockSize (AlignSize env)" using align_up_ge mp_env_dvd(2) [OF env] by blast
  then have "sizeof_huge_link env \<le> align_up maxBlockSize (AlignSize env)" using assms(3) by simp
  with assms show ?thesis by (auto simp: mp_construct_def mp_align_to_def Let_def vv_new_def intro!: mp_ok_new)
qed

lemma mp_construct_ok:
  assumes "mp_env_ok env" and "mp_construct env maxBlockSize = Inr P"
  shows "mp_ok env P {#}" and "mp_n P = 0" and "fragment_size P = 0"
proof -
  have "AlignSize env \<le> maxBlockSize" "sizeof_huge_link env \<le> maxBlockSize"
    and P: "free_list_len P = align_up maxBlockSize (AlignSize env) div AlignSize env" "mp_mem P = vv_new" "fragment_size P = 0"
      "huge_size_sum P = 0" "huge_node_cnt P = 0" "huge_list P = empty_huge_list env"
      "free_list_arr P = Some (replicate (free_list_len P) (new_head env))"
    using assms(2) by (auto simp: mp_construct_def mp_align_to_def Let_def verify_def split: if_splits)
  moreover have "maxBlockSize \<le> align_up maxBlockSize (AlignSize env)" using align_up_ge mp_env_dvd(2) [OF assms(1)] by blast
  ultimately show "mp_ok env P {#}" "mp_n P = 0" "fragment_size P = 0" by (auto simp: vv_new_def intro!: mp_ok_new)
qed

lemma mp_ok_lists:
  assumes "mp_ok env P live"
  obtains arr where "free_list_arr P = Some arr" and "length arr = free_list_len P"
    and "sizeof_huge_link env \<le> free_list_len P * AlignSize env"
  using assms by (auto simp: mp_ok_def mp_shape_def fast_ok_def)

lemma mp_erase_all_law:
  assumes "mp_ok env P live"
  shows "\<exists>P'. mp_erase_all env P = Inr P' \<and> mp_ok env P' {#} \<and> mp_n P' = 0 \<and> vv_c (mp_mem P') = vv_c (mp_mem P) \<and>
    fragment_size P' = 0"
proof -
  obtain arr where arr: "free_list_arr P = Some arr" "length arr = free_list_len P" "sizeof_huge_link env \<le> free_list_len P * AlignSize env"
    by (rule mp_ok_lists [OF assms])
  let ?P = "(reset_lists env P)\<lparr>mp_mem := (mp_mem P)\<lparr>vv_n := 0\<rparr>\<rparr>"
  have "mp_erase_all env P = Inr ?P"
    by (simp add: mp_erase_all_def Let_def vv_erase_all_def destroy_range_def byte_env_def reset_lists_def)
  moreover have "mp_ok env ?P {#}"
    by (rule mp_ok_new) (use arr mp_ok_mem [OF assms] in \<open>simp_all add: reset_lists_def\<close>)
  ultimately show ?thesis by (auto simp: reset_lists_def)
qed

lemma mp_clear_law:
  assumes "mp_ok env P live" and "vv_c (mp_mem P) \<noteq> 0 \<Longrightarrow> \<not> vv_null (mp_mem P)"
  shows "\<exists>P'. mp_clear env P = Inr P' \<and> mp_ok env P' {#} \<and> mp_n P' = 0 \<and> fragment_size P' = 0"
proof -
  obtain arr where arr: "free_list_arr P = Some arr" "length arr = free_list_len P" "sizeof_huge_link env \<le> free_list_len P * AlignSize env"
    by (rule mp_ok_lists [OF assms(1)])
  let ?P = "(reset_lists env P)\<lparr>mp_mem := vv_new\<rparr>"
  have "mp_clear env P = Inr ?P"
    using assms mp_ok_mem [OF assms(1)]
    by (auto simp: mp_clear_def Let_def vv_clear_def destroy_and_free_def destroy_range_def byte_env_def reset_lists_def)
  moreover have "mp_ok env ?P {#}"
    by (rule mp_ok_new) (use arr in \<open>simp_all add: reset_lists_def vv_new_def\<close>)
  ultimately show ?thesis by (auto simp: reset_lists_def vv_new_def)
qed

section \<open>Copies and more memory\<close>

text \<open>A copy has the same bytes and the same lists.\<close>

lemma mp_copy_law:
  assumes env: "mp_env_ok env" and ok: "mp_ok env y live" and "\<And>k. heads_granted env k"
  shows "yields (\<forall>k. bytes_granted env k) (mp_copy env y) (\<lambda>P. mp_ok env P live \<and> keeps y P live \<and> mp_n P = mp_n y \<and>
    fragment_size P = fragment_size y)"
proof -
  from ok obtain F e where sh: "mp_shape env y F live" and c: "mp_counts env y F e e 0" by (auto simp: mp_ok_def)
  obtain arr where arr: "free_list_arr y = Some arr" "length arr = free_list_len y" by (rule mp_ok_lists [OF ok])
  have m: "length (mp_bytes y) = vv_c (mp_mem y)" "mp_n y \<le> vv_c (mp_mem y)" "mp_n y \<le> link_limit env" using mp_ok_mem [OF ok] by auto
  have t: "tiles env (mp_n y) (free_blocks env F + live)" using sh by (simp add: mp_shape_def)
  let ?z = "\<lambda>v. y\<lparr>mp_mem := v, m_rand_seed := 1\<rparr>"
  have run: "mp_copy env y = bind_res (copy_bytes env (mp_mem y)) (\<lambda>v. Inr (?z v))"
    using arr assms(3) by (cases y) (simp add: mp_copy_def)
  have *: "mp_ok env (?z v) live \<and> keeps y (?z v) live \<and> mp_n (?z v) = mp_n y \<and> fragment_size (?z v) = fragment_size y"
    if v: "vv_p v = take (mp_n y) (mp_bytes y)" "vv_n v = mp_n y" "vv_c v = mp_n y" for v
  proof -
    have k: "keeps y (?z v) (free_blocks env F + live)"
      by (rule keeps_prefix [of "mp_n y"]) (use v m tiles_block(5) [OF t] in auto)
    have "mp_shape env (?z v) F live" by (rule mp_shape_memory [OF env sh t]) (use v m k in auto)
    then show ?thesis using c k v by (auto simp: mp_ok_def mp_counts_def)
  qed
  show ?thesis
    unfolding run
  proof (rule yields_bind)
    show "yields (\<forall>k. bytes_granted env k) (copy_bytes env (mp_mem y)) (\<lambda>v. vv_p v = take (mp_n y) (mp_bytes y) \<and>
        vv_n v = mp_n y \<and> vv_c v = mp_n y)"
      by (auto simp: copy_bytes_def vv_new_def yields_def verify_def)
  qed (use * in auto)
qed

text \<open>Memory asked for by hand: the new bytes are a live block.\<close>

lemma mp_resize_no_init_law:
  assumes env: "mp_env_ok env" and ok: "mp_ok env P live" and len: "AlignSize env dvd len" "0 < len" and room: "mp_room env P len"
  shows "yields (\<forall>k. bytes_granted env k) (mp_resize_no_init env P (mp_n P + len))
    (\<lambda>P'. mp_ok env P' (add_mset (mp_n P, len) live) \<and> keeps P P' live)"
proof -
  from ok obtain F e where sh: "mp_shape env P F live" and c: "mp_counts env P F e e 0" by (auto simp: mp_ok_def)
  have r: "mp_n P + len \<le> link_limit env" "len < 2 ^ (8 * link_bytes env)" using room by (simp_all add: mp_room_def)
  have "tiles env (mp_n P) (free_blocks env F + live)" using sh by (simp add: mp_shape_def)
  from tiles_grow [OF this mp_ok_mem(4) [OF ok] len r(2)]
  have t: "tiles env (mp_n P + len) (free_blocks env F + add_mset (mp_n P, len) live)" by simp
  have "(mp_n P + len) mod AlignSize env = 0" using mp_ok_mem(4) [OF ok] len(1) by auto
  then have run: "mp_resize_no_init env P (mp_n P + len) = grow_to env P (mp_n P + len)"
    using mp_ok_mem(2) [OF ok]
    by (simp add: mp_resize_no_init_def vv_resize_no_init_def grow_to_def bind_res_assoc byte_env_def)
  show ?thesis
    unfolding run by (rule yields_mono [OF grow_to_ok [OF env sh t r(1)]]) (use c in \<open>auto simp: mp_ok_def mp_counts_def counts_same_def\<close>)
qed

text \<open>More or less capacity.\<close>

lemma mp_ok_capacity:
  assumes env: "mp_env_ok env" and ok: "mp_ok env P live" and v: "length (vv_p v) = vv_c v" "vv_n v = mp_n P" "mp_n P \<le> vv_c v"
    and same: "\<And>i. i < mp_n P \<Longrightarrow> vv_p v ! i = mp_bytes P ! i"
  shows "mp_ok env (P\<lparr>mp_mem := v\<rparr>) live" and "keeps P (P\<lparr>mp_mem := v\<rparr>) live"
proof -
  from ok obtain F e where sh: "mp_shape env P F live" and c: "mp_counts env P F e e 0" by (auto simp: mp_ok_def)
  have t: "tiles env (mp_n P) (free_blocks env F + live)" using sh by (simp add: mp_shape_def)
  have k: "keeps P (P\<lparr>mp_mem := v\<rparr>) (free_blocks env F + live)"
    by (rule keeps_prefix [of "mp_n P"]) (use same tiles_block(5) [OF t] in auto)
  have "mp_shape env (P\<lparr>mp_mem := v\<rparr>) F live"
    by (rule mp_shape_memory [OF env sh t]) (use v mp_ok_mem [OF ok] k in auto)
  then show "mp_ok env (P\<lparr>mp_mem := v\<rparr>) live" "keeps P (P\<lparr>mp_mem := v\<rparr>) live" using c k by (auto simp: mp_ok_def mp_counts_def)
qed

lemma mp_reserve_law:
  assumes env: "mp_env_ok env" and ok: "mp_ok env P live"
  shows "yields (\<forall>k. bytes_granted env k) (mp_reserve env P cap) (\<lambda>P'. mp_ok env P' live \<and> keeps P P' live \<and>
    mp_n P' = mp_n P \<and> fragment_size P' = fragment_size P \<and> vv_c (mp_mem P') = max cap (vv_c (mp_mem P)))"
proof -
  note m = mp_ok_mem [OF ok]
  show ?thesis
  proof (cases "cap \<le> vv_c (mp_mem P)")
    case True
    with m have "mp_reserve env P cap = Inr P" by (simp add: mp_reserve_def vv_reserve_def)
    with ok True show ?thesis by (simp add: max_def)
  next
    case False
    define v where "v = (mp_mem P)\<lparr>vv_p := if mp_n P \<noteq> 0 then realloc_cells (mp_bytes P) cap else replicate cap None,
      vv_null := False, vv_c := cap\<rparr>"
    have "mp_reserve env P cap = verify (bytes_granted env cap) (Inr (P\<lparr>mp_mem := v\<rparr>))"
      using False m(2) by (cases "bytes_granted env cap") (simp_all add: mp_reserve_def vv_reserve_def vv_reserve_slow_def byte_env_def v_def)
    moreover have "length (vv_p v) = vv_c v" "vv_n v = mp_n P" "mp_n P \<le> vv_c v"
      using False m(1,2) by (auto simp: v_def realloc_cells_def min_def)
    moreover have "vv_p v ! i = mp_bytes P ! i" if "i < mp_n P" for i
      using that m(1,2) False by (auto simp: v_def realloc_cells_def nth_append)
    moreover have "vv_c v = cap" by (simp add: v_def)
    ultimately show ?thesis using mp_ok_capacity [OF env ok, of v] False by (auto simp: yields_def verify_def max_def)
  qed
qed

lemma mp_shrink_to_fit_law:
  assumes env: "mp_env_ok env" and ok: "mp_ok env P live"
  shows "\<exists>P'. mp_shrink_to_fit env P = Inr P' \<and> mp_ok env P' live \<and> keeps P P' live \<and> mp_n P' = mp_n P"
proof -
  note m = mp_ok_mem [OF ok]
  define v where "v = (if mp_n P = vv_c (mp_mem P) then mp_mem P else if mp_n P \<noteq> 0 then
    (if bytes_granted env (mp_n P) then (mp_mem P)\<lparr>vv_p := realloc_cells (mp_bytes P) (mp_n P), vv_c := mp_n P\<rparr> else mp_mem P) else vv_new)"
  have "mp_shrink_to_fit env P = Inr (P\<lparr>mp_mem := v\<rparr>)"
    using m(2) by (simp add: mp_shrink_to_fit_def vv_shrink_to_fit_def byte_env_def v_def)
  moreover have "length (vv_p v) = vv_c v" "vv_n v = mp_n P" "mp_n P \<le> vv_c v"
    using m(1,2) by (auto simp: v_def realloc_cells_def vv_new_def)
  moreover have "vv_p v ! i = mp_bytes P ! i" if "i < mp_n P" for i
    using that m(1,2) by (auto simp: v_def realloc_cells_def)
  ultimately show ?thesis using mp_ok_capacity [OF env ok, of v] by auto
qed

end
