(* ===== verification/Mempool_Refine.thy ===== *)
theory Mempool_Refine
  imports Mempool_Ops
begin

text \<open>
  Both pools are allocators in the sense of \<open>Alloc_Spec\<close>: whatever a client does with its blocks, each holds what the
  client wrote into it.
\<close>

section \<open>The operations as a client sees them\<close>

definition lock_none_ops :: "mp_env \<Rightarrow> mempool pool_ops" where
  "lock_none_ops env = \<lparr>pool_alloc = (\<lambda>P len. bind_res (mp_alloc env P len) (\<lambda>(P, pos). Inr (P, Some pos))),
     pool_resize = (\<lambda>P pos old len. bind_res (mp_alloc3 env P pos old len) (\<lambda>(P, pos). Inr (P, Some pos))),
     pool_write = write_bytes, pool_free = mp_sfree env\<rparr>"

definition fixed_cap_ops :: "mp_env \<Rightarrow> mempool pool_ops" where
  "fixed_cap_ops env = \<lparr>pool_alloc = fc_alloc env, pool_resize = fc_alloc3 env, pool_write = write_bytes, pool_free = mp_sfree env\<rparr>"

definition pool_ok :: "mp_env \<Rightarrow> mempool \<Rightarrow> block multiset \<Rightarrow> bool" where
  "pool_ok env P live \<longleftrightarrow> mp_env_ok env \<and> mp_ok env P live"

definition pool_sizes :: "mempool \<Rightarrow> nat \<times> nat" where
  "pool_sizes P = (mp_n P, fragment_size P)"

abbreviation max_block :: "mp_env \<Rightarrow> nat" where
  "max_block env \<equiv> 2 ^ (8 * link_bytes env)"

lemma in_bounds_room: "in_bounds (link_limit env) (max_block env) (pool_sizes P) len \<longleftrightarrow> mp_room env P len"
  by (simp add: in_bounds_def pool_sizes_def mp_room_def)

lemma grown_grows: "grown (pool_sizes P) (pool_sizes P') len \<longleftrightarrow> grows P P' len"
  by (simp add: grown_def pool_sizes_def grows_def)

text \<open>Writing and freeing are the same for both.\<close>

lemma pool_write_law:
  assumes "pool_ok env P (add_mset (pos, l) live)" and "off + length bs \<le> l" and "pool_write ops = write_bytes"
  shows "yields G (pool_write ops P (pos + off) bs) (\<lambda>P'. pool_ok env P' (add_mset (pos, l) live) \<and>
    kept (mp_bytes P) (mp_bytes P') live \<and> pool_sizes P' = pool_sizes P \<and>
    (\<forall>i<l. mp_bytes P' ! (pos + i) = (if off \<le> i \<and> i < off + length bs then Some (bs ! (i - off)) else mp_bytes P ! (pos + i))))"
proof -
  have env: "mp_env_ok env" and ok: "mp_ok env P (add_mset (pos, l) live)" using assms(1) by (simp_all add: pool_ok_def)
  have "pos \<le> pos + off" "pos + off + length bs \<le> pos + l" using assms(2) by simp_all
  from write_bytes_law [OF env ok this] show ?thesis
    using env assms(3) by (auto simp: pool_ok_def keeps_kept pool_sizes_def counts_same_def)
qed

lemma pool_free_law:
  assumes "pool_ok env P (add_mset (pos, block_len env len) live)" and "0 < len"
    and "in_bounds (link_limit env) (max_block env) (pool_sizes P) 0" and "pool_free ops = mp_sfree env"
  shows "yields G (pool_free ops P pos len) (\<lambda>P'. pool_ok env P' live \<and> kept (mp_bytes P) (mp_bytes P') live \<and>
    grown (pool_sizes P) (pool_sizes P') 0)"
proof -
  have env: "mp_env_ok env" and ok: "mp_ok env P (add_mset (pos, block_len env len) live)" using assms(1) by (simp_all add: pool_ok_def)
  have "fragment_size P + mp_n P < 2 ^ 64" using assms(3) by (simp add: in_bounds_room mp_room_def)
  from mp_sfree_law [OF env ok assms(2) this] show ?thesis
    using env assms(4) by (auto simp: pool_ok_def keeps_kept grown_grows grows_def)
qed

lemma got_block_law:
  assumes "mp_env_ok env" and "got_block env P live len P' pos"
  shows "pool_ok env P' (add_mset (pos, len) live)" and "kept (mp_bytes P) (mp_bytes P') live" and "grows P P' len"
  using assms by (auto simp: got_block_def pool_ok_def keeps_kept grows_def)

lemma lock_none_alloc_law:
  assumes "pool_ok env P live" and "0 < len" and "in_bounds (link_limit env) (max_block env) (pool_sizes P) (block_len env len)"
  shows "yields (\<forall>k. bytes_granted env k) (pool_alloc (lock_none_ops env) P len) (\<lambda>(P', r). case r of None \<Rightarrow> P' = P \<and> False
    | Some pos \<Rightarrow> pool_ok env P' (add_mset (pos, block_len env len) live) \<and> kept (mp_bytes P) (mp_bytes P') live \<and>
        grown (pool_sizes P) (pool_sizes P') (block_len env len))"
proof -
  have env: "mp_env_ok env" and ok: "mp_ok env P live" using assms(1) by (simp_all add: pool_ok_def)
  have r: "block_len env len < max_block env" "fragment_size P + mp_n P < 2 ^ 64" "mp_n P + block_len env len \<le> link_limit env"
    using assms(3) by (simp_all add: in_bounds_room mp_room_def)
  show ?thesis
    unfolding lock_none_ops_def pool_ops.simps grown_grows
    by (rule yields_bind [OF mp_alloc_law [OF env ok assms(2) r]]) (use got_block_law [OF env] in auto)
qed

lemma lock_none_resize_law:
  assumes "pool_ok env P (add_mset (pos, block_len env old) live)" and "0 < old" "0 < len" and "in_bounds (link_limit env) (max_block env) (pool_sizes P) (block_len env len)"
  shows "yields (\<forall>k. bytes_granted env k) (pool_resize (lock_none_ops env) P pos old len) (\<lambda>(P', r). case r of None \<Rightarrow> P' = P \<and> False
    | Some pos' \<Rightarrow> pool_ok env P' (add_mset (pos', block_len env len) live) \<and> kept (mp_bytes P) (mp_bytes P') live \<and>
        grown (pool_sizes P) (pool_sizes P') (block_len env len) \<and>
        (\<forall>i<min (block_len env old) (block_len env len). mp_bytes P' ! (pos' + i) = mp_bytes P ! (pos + i)))"
proof -
  have env: "mp_env_ok env" and ok: "mp_ok env P (add_mset (pos, block_len env old) live)" using assms(1) by (simp_all add: pool_ok_def)
  show ?thesis
    unfolding lock_none_ops_def pool_ops.simps grown_grows
    by (rule yields_bind [OF mp_alloc3_law [OF env ok assms(2-3) assms(4) [unfolded in_bounds_room]]]) (use env in \<open>auto simp: pool_ok_def keeps_kept same_content_def\<close>)
qed

lemma fixed_cap_alloc_law:
  assumes "pool_ok env P live" and "0 < len" and "in_bounds (link_limit env) (max_block env) (pool_sizes P) (block_len env len)"
  shows "yields True (pool_alloc (fixed_cap_ops env) P len) (\<lambda>(P', r). case r of
      None \<Rightarrow> P' = P \<and> vv_c (mp_mem P) < mp_n P + block_len env len
    | Some pos \<Rightarrow> pool_ok env P' (add_mset (pos, block_len env len) live) \<and> kept (mp_bytes P) (mp_bytes P') live \<and>
        grown (pool_sizes P) (pool_sizes P') (block_len env len))"
proof -
  have env: "mp_env_ok env" and ok: "mp_ok env P live" using assms(1) by (simp_all add: pool_ok_def)
  from fc_alloc_law [OF env ok assms(2) assms(3) [unfolded in_bounds_room]] show ?thesis
    unfolding fixed_cap_ops_def pool_ops.simps grown_grows using got_block_law [OF env] by (auto split: option.splits)
qed

lemma fixed_cap_resize_law:
  assumes "pool_ok env P (add_mset (pos, block_len env old) live)" and "0 < old" "0 < len" and "in_bounds (link_limit env) (max_block env) (pool_sizes P) (block_len env len)"
  shows "yields True (pool_resize (fixed_cap_ops env) P pos old len) (\<lambda>(P', r). case r of
      None \<Rightarrow> P' = P \<and> vv_c (mp_mem P) < mp_n P + block_len env len
    | Some pos' \<Rightarrow> pool_ok env P' (add_mset (pos', block_len env len) live) \<and> kept (mp_bytes P) (mp_bytes P') live \<and>
        grown (pool_sizes P) (pool_sizes P') (block_len env len) \<and>
        (\<forall>i<min (block_len env old) (block_len env len). mp_bytes P' ! (pos' + i) = mp_bytes P ! (pos + i)))"
proof -
  have env: "mp_env_ok env" and ok: "mp_ok env P (add_mset (pos, block_len env old) live)" using assms(1) by (simp_all add: pool_ok_def)
  from fc_alloc3_law [OF env ok assms(2-3) assms(4) [unfolded in_bounds_room]] env show ?thesis
    unfolding fixed_cap_ops_def pool_ops.simps grown_grows by (auto simp: pool_ok_def keeps_kept same_content_def split: option.splits)
qed

lemma pool_apart: "pool_ok env P (add_mset b (add_mset c live)) \<Longrightarrow> apart b c"
  unfolding pool_ok_def by (auto intro: mp_ok_apart)

interpretation lock_none: pool_allocator "lock_none_ops env" "block_len env" "pool_ok env" mp_bytes pool_sizes
  "link_limit env" "max_block env" "\<forall>k. bytes_granted env k" "\<lambda>_ _. False"
  by (unfold_locales; (rule lock_none_alloc_law | rule lock_none_resize_law | rule pool_write_law | rule pool_free_law | rule pool_apart)?)
    (simp_all add: lock_none_ops_def)

interpretation fixed_cap: pool_allocator "fixed_cap_ops env" "block_len env" "pool_ok env" mp_bytes pool_sizes
  "link_limit env" "max_block env" True "\<lambda>P len. vv_c (mp_mem P) < mp_n P + len"
  by (unfold_locales; (rule fixed_cap_alloc_law | rule fixed_cap_resize_law | rule pool_write_law | rule pool_free_law | rule pool_apart)?)
    (simp_all add: fixed_cap_ops_def)

section \<open>Properties\<close>

text \<open>The blocks of a client: content as the heap says, no byte in two blocks, aligned, in the used bytes.\<close>

definition client_blocks :: "mp_env \<Rightarrow> mempool \<Rightarrow> 'v places \<Rightarrow> 'v heap \<Rightarrow> bool" where
  "client_blocks env P vars H \<longleftrightarrow>
     (\<forall>v. rel_option (block_holds (block_len env) (mp_bytes P)) (vars v) (H v)) \<and>
     (\<forall>v w pos len pos' len'. v \<noteq> w \<and> vars v = Some (pos, len) \<and> vars w = Some (pos', len') \<longrightarrow>
       apart (pos, block_len env len) (pos', block_len env len')) \<and>
     (\<forall>v pos len. vars v = Some (pos, len) \<longrightarrow> AlignSize env dvd pos \<and> pos + block_len env len \<le> mp_n P)"

lemma client_blocks_lock_none:
  assumes "lock_none.holds env P vars H"
  shows "client_blocks env P vars H"
  unfolding client_blocks_def
proof (intro conjI allI impI)
  show "rel_option (block_holds (block_len env) (mp_bytes P)) (vars v) (H v)" for v
    using assms by (simp add: lock_none.holds_def)
  show "apart (pos, block_len env len) (pos', block_len env len')"
    if "v \<noteq> w \<and> vars v = Some (pos, len) \<and> vars w = Some (pos', len')" for v w pos len pos' len'
    using lock_none.holds_apart [OF assms, of v w] that by blast
  fix v pos len assume v: "vars v = Some (pos, len)"
  have "pool_ok env P (places_blocks (block_len env) vars)" "finite (dom vars)" using assms by (simp_all add: lock_none.holds_def)
  with places_member [OF this(2) v] show "AlignSize env dvd pos" "pos + block_len env len \<le> mp_n P"
    by (auto simp: pool_ok_def dest: mp_ok_live)
qed

lemma holds_start:
  assumes "mp_env_ok env" and "mp_ok env P {#}"
  shows "lock_none.holds env P Map.empty Map.empty"
  using assms by (simp add: lock_none.holds_def pool_ok_def)

lemma all_true: "False \<notin> set as \<Longrightarrow> as = replicate (length as) True"
  by (induction as) auto

text \<open>C8: every program of allocations, changes of size, writes and frees on a new \<open>MemPool_LockNone\<close> runs through,
  and then each block has the bytes that the client wrote into it, whatever was freed, moved and reused meanwhile; the
  blocks are aligned and share no byte.\<close>

theorem mempool_refines_heap:
  assumes "mp_env_ok env" and "\<forall>k. bytes_granted env k" and "mp_construct env maxBlockSize = Inr P"
    and "prog_fits (block_len env) (link_limit env) (max_block env) (0, 0) cs"
  shows "\<exists>P' vars. client_run (lock_none_ops env) (block_len env) P Map.empty cs = Inr (P', vars, replicate (length cs) True) \<and>
    client_blocks env P' vars (heap_run (block_len env) Map.empty cs (replicate (length cs) True))"
proof -
  have "prog_fits (block_len env) (link_limit env) (max_block env) (pool_sizes P) cs"
    using assms(4) mp_construct_ok [OF assms(1,3)] by (simp add: pool_sizes_def)
  from yields_total [OF lock_none.run_refines [OF _ holds_start [OF assms(1) mp_construct_ok(1) [OF assms(1,3)]] this] assms(2)]
  obtain P' vars as where run: "client_run (lock_none_ops env) (block_len env) P Map.empty cs = Inr (P', vars, as)"
    and h: "lock_none.holds env P' vars (heap_run (block_len env) Map.empty cs as)" "length as = length cs" "False \<notin> set as"
    by (auto simp: lock_none.may_refuse_def)
  from all_true [OF h(3)] h(2) have "as = replicate (length cs) True" by simp
  with run client_blocks_lock_none [OF h(1)] show ?thesis by blast
qed

text \<open>C18: the same for \<open>MemPool_FixedCap\<close> with a capacity that was reserved; a request may be refused, and then nothing
  changes.\<close>

theorem fixed_cap_refines_heap:
  assumes "mp_env_ok env" and "mp_construct env maxBlockSize = Inr P" and "mp_reserve env P cap = Inr P0"
    and "prog_fits (block_len env) (link_limit env) (max_block env) (0, 0) cs"
  shows "\<exists>P' vars answers. client_run (fixed_cap_ops env) (block_len env) P0 Map.empty cs = Inr (P', vars, answers) \<and>
    length answers = length cs \<and> client_blocks env P' vars (heap_run (block_len env) Map.empty cs answers)"
proof -
  note c = mp_construct_ok [OF assms(1,2)]
  from mp_reserve_law [OF assms(1) c(1), of cap] assms(3) c have P0: "mp_ok env P0 {#}" "mp_n P0 = 0" "fragment_size P0 = 0" by simp_all
  have "prog_fits (block_len env) (link_limit env) (max_block env) (pool_sizes P0) cs" using assms(4) P0 by (simp add: pool_sizes_def)
  from yields_total [OF fixed_cap.run_refines [OF _ holds_start [OF assms(1) P0(1)] this]]
  obtain P' vars as where "client_run (fixed_cap_ops env) (block_len env) P0 Map.empty cs = Inr (P', vars, as)"
    "fixed_cap.holds env P' vars (heap_run (block_len env) Map.empty cs as)" "length as = length cs" by auto
  with client_blocks_lock_none show ?thesis by blast
qed

text \<open>\<open>MemPool_FixedCap::alloc\<close> gives a block if a free one or the rest of the capacity will do, and otherwise
  \<open>size_t(-1)\<close> with the pool unchanged; the capacity stays what it is.\<close>

theorem fixed_cap_fails_when_full:
  assumes "mp_env_ok env" and "mp_ok env P live" and "0 < request" and "mp_room env P (block_len env request)"
  shows "\<exists>P' r. fc_alloc env P request = Inr (P', r) \<and> vv_c (mp_mem P') = vv_c (mp_mem P) \<and>
    (r = None \<longleftrightarrow> alloc_free_block env P (block_len env request) = Inr None \<and>
       vv_c (mp_mem P) < mp_n P + block_len env request) \<and>
    (r = None \<longrightarrow> P' = P) \<and>
    (\<forall>pos. r = Some pos \<longrightarrow> mp_ok env P' (add_mset (pos, block_len env request) live) \<and> keeps P P' live)"
proof -
  have "fc_alloc env P request = Inr (P, None)"
    if "alloc_free_block env P (block_len env request) = Inr None" "vv_c (mp_mem P) < mp_n P + block_len env request"
    using that assms(3) by (simp add: fc_alloc_def Let_def)
  with fc_alloc_law [OF assms] show ?thesis by (auto simp: got_block_def split: option.splits)
qed

section \<open>Concrete runs\<close>

definition pool_env :: mp_env where
  "pool_env = \<lparr>AlignSize = 4, bytes_granted = (\<lambda>_. True), heads_granted = (\<lambda>_. True), rand_r = (\<lambda>seed. (seed, seed + 1))\<rparr>"

lemma pool_env_simps [simp]:
  "mp_env_ok pool_env" "AlignSize pool_env = 4" "bytes_granted pool_env k" "heads_granted pool_env k" "link_bytes pool_env = 4"
  "list_tail pool_env = 2 ^ 32 - 1" "offset_shift pool_env = 2" "link_limit pool_env = 4 * (2 ^ 32 - 1)"
  "rand_r pool_env seed = (seed, seed + 1)" "sizeof_huge_link pool_env = 36" "block_len pool_env len = align_up len 4"
proof -
  show ok: "mp_env_ok pool_env" by (auto simp: mp_env_ok_def pool_env_def intro: exI [of _ 2])
  show "AlignSize pool_env = 4" "bytes_granted pool_env k" "heads_granted pool_env k" "rand_r pool_env seed = (seed, seed + 1)"
    by (simp_all add: pool_env_def)
  then show "link_bytes pool_env = 4" "list_tail pool_env = 2 ^ 32 - 1" "offset_shift pool_env = 2"
      "link_limit pool_env = 4 * (2 ^ 32 - 1)" "sizeof_huge_link pool_env = 36" "block_len pool_env len = align_up len 4"
    by (simp_all add: link_bytes_def list_tail_def offset_shift_def link_limit_def sizeof_huge_link_def skip_list_level_max_def
        block_len_eq [OF ok])
qed

definition demo_prog :: "nat heap_cmd list" where
  "demo_prog = [New 0 40, New 1 4, Write 1 0 [7, 8], Delete 0, New 2 8, Write 2 7 [9], Resize 1 12]"

lemma demo_fits: "prog_fits (block_len pool_env) (link_limit pool_env) (max_block pool_env) (0, 0) demo_prog"
  by (simp add: prog_fits_def demo_prog_def prog_bytes_def align_up_def)

lemma demo_new: obtains P where "mp_construct pool_env 36 = Inr P"
  using mp_construct_law [of pool_env 36] by auto

lemma demo_len: "length demo_prog = 7"
  by (simp add: demo_prog_def)

lemma demo_heap:
  "heap_run (block_len pool_env) Map.empty demo_prog (replicate 7 True) 1 = Some (Some 7 # Some 8 # replicate 10 None)"
  "heap_run (block_len pool_env) Map.empty demo_prog (replicate 7 True) 2 = Some (replicate 7 None @ [Some 9])"
proof -
  have "align_up 40 4 = 40" "align_up 4 4 = 4" "align_up 8 4 = 8" "align_up 12 4 = 12" by (simp_all add: align_up_def)
  then show "heap_run (block_len pool_env) Map.empty demo_prog (replicate 7 True) 1 = Some (Some 7 # Some 8 # replicate 10 None)"
    "heap_run (block_len pool_env) Map.empty demo_prog (replicate 7 True) 2 = Some (replicate 7 None @ [Some 9])"
    by (simp_all add: demo_prog_def numeral_eq_Suc)
qed

lemma client_blocks_at:
  assumes "client_blocks env P vars H" and "H v = Some c" and "i < length c" and "c ! i = Some b"
  obtains p l where "vars v = Some (p, l)" and "block_len env l = length c" and "mp_bytes P ! (p + i) = Some b"
proof -
  have "rel_option (block_holds (block_len env) (mp_bytes P)) (vars v) (Some c)" using assms(1,2) by (metis client_blocks_def)
  then obtain p l where "vars v = Some (p, l)" "block_holds (block_len env) (mp_bytes P) (p, l) c" by (auto simp: option_rel_Some2)
  with that assms(3,4) show thesis by (auto simp: block_holds_def)
qed

lemma mempool_refines_heap_witness:
  "\<exists>P P' vars p l q l'. mp_construct pool_env 36 = Inr P \<and>
     client_run (lock_none_ops pool_env) (block_len pool_env) P Map.empty demo_prog = Inr (P', vars, replicate 7 True) \<and>
     vars 1 = Some (p, l) \<and> block_len pool_env l = 12 \<and> mp_bytes P' ! p = Some 7 \<and>
     vars 2 = Some (q, l') \<and> block_len pool_env l' = 8 \<and> mp_bytes P' ! (q + 7) = Some 9"
proof -
  obtain P where P: "mp_construct pool_env 36 = Inr P" by (rule demo_new)
  from mempool_refines_heap [OF _ _ P demo_fits, unfolded demo_len] obtain P' vars where
    run: "client_run (lock_none_ops pool_env) (block_len pool_env) P Map.empty demo_prog = Inr (P', vars, replicate 7 True)"
    and c: "client_blocks pool_env P' vars (heap_run (block_len pool_env) Map.empty demo_prog (replicate 7 True))"
    by (metis pool_env_simps(1,3))
  from client_blocks_at [OF c demo_heap(1), of 0 7] obtain p l where 1: "vars 1 = Some (p, l)" "block_len pool_env l = 12" "mp_bytes P' ! p = Some 7"
    by auto
  from client_blocks_at [OF c demo_heap(2), of 7 9] obtain q l' where 2: "vars 2 = Some (q, l')" "block_len pool_env l' = 8" "mp_bytes P' ! (q + 7) = Some 9"
    by (auto simp: nth_append)
  from P run 1 2 show ?thesis by blast
qed

lemma fixed_cap_refines_heap_witness:
  "\<exists>P P0 P' vars answers. mp_construct pool_env 36 = Inr P \<and> mp_reserve pool_env P 100 = Inr P0 \<and>
     client_run (fixed_cap_ops pool_env) (block_len pool_env) P0 Map.empty demo_prog = Inr (P', vars, answers) \<and> length answers = 7 \<and>
     client_blocks pool_env P' vars (heap_run (block_len pool_env) Map.empty demo_prog answers)"
proof -
  obtain P where P: "mp_construct pool_env 36 = Inr P" by (rule demo_new)
  have "\<forall>k. bytes_granted pool_env k" by simp
  from yields_total [OF mp_reserve_law [OF _ mp_construct_ok(1) [OF _ P]] this] obtain P0 where P0: "mp_reserve pool_env P 100 = Inr P0"
    by (metis pool_env_simps(1))
  from fixed_cap_refines_heap [OF _ P P0 demo_fits] P P0 show ?thesis unfolding demo_len by (metis pool_env_simps(1))
qed

lemma fixed_cap_fails_when_full_witness:
  "\<exists>P r. mp_construct pool_env 36 = Inr P \<and> fc_alloc pool_env P 4 = Inr (P, None)"
proof -
  obtain P where P: "mp_construct pool_env 36 = Inr P" by (rule demo_new)
  note ok = mp_construct_ok [OF _ P]
  have "vv_c (mp_mem P) = 0" "free_list_arr P = Some (replicate 9 (new_head pool_env))" "free_list_len P = 9" "mp_n P = 0" "fragment_size P = 0"
    using P by (auto simp: mp_construct_def Let_def mp_align_to_def align_up_def vv_new_def)
  then have "alloc_free_block pool_env P (block_len pool_env 4) = Inr None" "vv_c (mp_mem P) < mp_n P + block_len pool_env 4"
    "mp_room pool_env P (block_len pool_env 4)"
    by (simp_all add: alloc_free_block_def alloc_fast_def get_head_def new_head_def align_up_def Let_def mp_room_def)
  with fixed_cap_fails_when_full [OF _ ok(1), of 4] P show ?thesis by (metis pool_env_simps(1) zero_less_numeral)
qed

end
