(* ===== verification/Mempool_Policy.thy ===== *)
theory Mempool_Policy
  imports Mempool_Refine
begin

text \<open>
  Which block \<open>alloc\<close> takes, what the counters say, and the states that the operations cannot go on from.
\<close>

section \<open>The block that is taken\<close>

lemma alloc_fast_which:
  assumes env: "mp_env_ok env" and sh: "mp_shape env P F live" and len: "len \<le> free_list_len P * AlignSize env" "AlignSize env dvd len" "0 < len"
  shows "let ps = fast F ! (len div AlignSize env - 1) in
    (ps = [] \<longrightarrow> alloc_fast env P len = Inr None) \<and>
    (ps \<noteq> [] \<longrightarrow> (\<forall>r. alloc_fast env P len = Inr r \<longrightarrow> (\<exists>P'. r = Some (P', hd ps))))"
proof -
  define i where "i = len div AlignSize env - 1"
  from size_index [OF env len(2,3,1)] have i: "i < free_list_len P" by (auto simp: i_def)
  from sh i obtain h where h: "get_head P i = Inr h" and ch: "chain env (load_link env P) 0 (head h) (fast F ! i)"
    by (auto simp: mp_shape_def fast_ok_def get_head_def)
  have "(fast F ! i = [] \<longrightarrow> alloc_fast env P len = Inr None) \<and>
    (fast F ! i \<noteq> [] \<longrightarrow> (\<forall>r. alloc_fast env P len = Inr r \<longrightarrow> (\<exists>P'. r = Some (P', hd (fast F ! i)))))"
  proof (cases "fast F ! i")
    case Nil
    with ch h show ?thesis by (simp add: alloc_fast_def i_def [symmetric] del: One_nat_def)
  next
    case (Cons p ps)
    with ch have "head h \<noteq> list_tail env" "link_pos env (head h) = p" by auto
    with Cons h show ?thesis
      by (auto simp: alloc_fast_def i_def [symmetric] Let_def verify_def mp_at_def bind_res_Inr split: if_splits simp del: One_nat_def)
  qed
  then show ?thesis unfolding Let_def i_def .
qed

lemma alloc_huge_which:
  assumes env: "mp_env_ok env" and sh: "mp_shape env P F live" and len: "free_list_len P * AlignSize env < len"
  shows "(from_size F len = [] \<longrightarrow> alloc_huge env P len = Inr None) \<and>
    (from_size F len \<noteq> [] \<longrightarrow> (\<forall>r. alloc_huge env P len = Inr r \<longrightarrow> (\<exists>P'. r = Some (P', hd (from_size F len)))))"
proof -
  have h: "huge_ok env P F" and f: "fast_ok env P F" using sh by (simp_all add: mp_shape_def)
  from search_huge_run [OF env h shape_walkable [OF sh], of len] obtain n2 update where
    se: "search_huge env P len = Inr (n2, update)" "found_node F len n2" by metis
  have big: "sizeof_huge_link env \<le> len" using f len by (simp add: fast_ok_def)
  show ?thesis
  proof (cases "from_size F len")
    case Nil
    from Nil se(2) consider "n2 = None" | p where "n2 = Some p" "p \<in> set (below F len)"
      unfolding found_node_def by (auto simp del: dropWhile_eq_Nil_conv)
    then have "alloc_huge env P len = Inr None"
    proof cases
      case 2
      then have "p \<in> set (huge F)" "siz F p < len" by (auto dest: set_takeWhileD)
      then have "load_link env P p = Inr (siz F p)" "\<not> len \<le> siz F p" using h by (simp_all add: huge_ok_def)
      with 2 se big show ?thesis by (simp add: alloc_huge_def)
    qed (use se big in \<open>simp add: alloc_huge_def\<close>)
    with Nil show ?thesis by simp
  next
    case (Cons pos D)
    then have n2: "n2 = Some pos" using se(2) by (simp add: found_node_def)
    have pos: "pos \<in> set (from_size F len)" "pos \<in> set (huge F)"
      using Cons set_dropWhileD [of pos "\<lambda>p. siz F p < len" "huge F"] by auto
    from from_size_ge [OF _ pos(1)] h have S: "len \<le> siz F pos" by (simp add: huge_ok_def not_less)
    have ld: "load_link env P pos = Inr (siz F pos)" using h pos(2) by (simp add: huge_ok_def)
    have "\<exists>P'. r = Some (P', pos)" if "alloc_huge env P len = Inr r" for r
      using that big se n2 ld S by (auto simp: alloc_huge_def Let_def bind_res_Inr split: if_splits)
    with Cons show ?thesis by simp
  qed
qed

text \<open>The free blocks of the right list: those of exactly this size, or the nodes that are large enough.\<close>

definition fitting :: "mp_env \<Rightarrow> mempool \<Rightarrow> free_lists \<Rightarrow> nat \<Rightarrow> nat list" where
  "fitting env P F len =
     (if len \<le> free_list_len P * AlignSize env then fast F ! (len div AlignSize env - 1)
      else filter (\<lambda>p. len \<le> siz F p) (huge F))"

lemma from_size_filter:
  assumes "sorted (map (siz F) (huge F))"
  shows "from_size F len = filter (\<lambda>p. len \<le> siz F p) (huge F)"
proof -
  have "filter (\<lambda>p. len \<le> siz F p) (huge F) =
      filter (\<lambda>p. len \<le> siz F p) (below F len) @ filter (\<lambda>p. len \<le> siz F p) (from_size F len)"
    by (metis filter_append takeWhile_dropWhile_id)
  moreover have "filter (\<lambda>p. len \<le> siz F p) (below F len) = []" by (auto simp: filter_empty_conv dest: set_takeWhileD)
  moreover have "filter (\<lambda>p. len \<le> siz F p) (from_size F len) = from_size F len"
    using from_size_ge [OF assms] by (auto intro!: filter_True simp: not_less)
  ultimately show ?thesis by simp
qed

lemma alloc_free_block_which:
  assumes env: "mp_env_ok env" and sh: "mp_shape env P F live" and c: "mp_counts env P F e e 0"
    and len: "AlignSize env dvd len" "0 < len" and room: "fragment_size P + mp_n P < 2 ^ 64"
  shows "if fitting env P F len = [] then alloc_free_block env P len = Inr None
    else \<exists>P'. alloc_free_block env P len = Inr (Some (P', hd (fitting env P F len)))"
proof -
  have ok: "mp_ok env P live" using sh c unfolding mp_ok_def by blast
  obtain r where r: "alloc_free_block env P len = Inr r" using alloc_free_block_ok [OF env ok len room] by blast
  show ?thesis
  proof (cases "len \<le> free_list_len P * AlignSize env")
    case True
    with alloc_fast_which [OF env sh True len] r show ?thesis
      by (auto simp: alloc_free_block_def fitting_def Let_def)
  next
    case False
    then have f: "fitting env P F len = from_size F len"
      using sh by (simp add: fitting_def from_size_filter mp_shape_def huge_ok_def)
    from False alloc_huge_which [OF env sh, of len] r show ?thesis
      unfolding f by (auto simp: alloc_free_block_def)
  qed
qed

lemma mp_alloc_which:
  assumes env: "mp_env_ok env" and sh: "mp_shape env P F live" and c: "mp_counts env P F e e 0"
    and req: "0 < request" and room: "mp_room env P (block_len env request)" and g: "\<forall>k. bytes_granted env k"
  shows "\<exists>P'. mp_alloc env P request =
    Inr (P', if fitting env P F (block_len env request) = [] then mp_n P else hd (fitting env P F (block_len env request)))"
proof -
  let ?len = "block_len env request"
  have ok: "mp_ok env P live" using sh c unfolding mp_ok_def by blast
  have len: "AlignSize env dvd ?len" "0 < ?len" using block_len_dvd [OF env] block_len_pos [OF env req] by auto
  have r: "fragment_size P + mp_n P < 2 ^ 64" "mp_n P + ?len \<le> link_limit env" "?len < 2 ^ (8 * link_bytes env)"
    using room by (simp_all add: mp_room_def)
  obtain P' p where P': "mp_alloc env P request = Inr (P', p)"
    using yields_total [OF mp_alloc_law [OF env ok req r(3,1,2)] g] by fastforce
  from alloc_free_block_which [OF env sh c len r(1)] req P' show ?thesis
    by (auto simp: mp_alloc_def Let_def bind_res_Inr split: if_splits)
qed

lemma best_fit:
  assumes so: "sorted (map (siz F) (huge F))" and xs: "xs = filter (\<lambda>p. len \<le> siz F p) (huge F)" and ne: "xs \<noteq> []"
  shows "hd xs \<in> set (huge F) \<and> len \<le> siz F (hd xs) \<and> (\<forall>q\<in>set (huge F). len \<le> siz F q \<longrightarrow> siz F (hd xs) \<le> siz F q)"
proof -
  have min: "siz F (hd xs) \<le> siz F q" if "sorted (map (siz F) xs)" "q \<in> set xs" for xs q
    using that by (cases xs) auto
  have "hd xs \<in> set xs" using ne by simp
  moreover have "sorted (map (siz F) xs)" unfolding xs by (rule sorted_filter [OF so])
  ultimately show ?thesis using min xs by auto
qed

text \<open>Freeing blocks of the same length one after the other, and as many requests of that length.\<close>

fun free_all :: "mp_env \<Rightarrow> mempool \<Rightarrow> nat list \<Rightarrow> nat \<Rightarrow> mempool res" where
  "free_all env P [] len = Inr P"
| "free_all env P (p # ps) len = bind_res (mp_sfree env P p len) (\<lambda>P. free_all env P ps len)"

fun alloc_times :: "mp_env \<Rightarrow> mempool \<Rightarrow> nat \<Rightarrow> nat \<Rightarrow> (mempool \<times> nat list) res" where
  "alloc_times env P 0 request = Inr (P, [])"
| "alloc_times env P (Suc n) request =
     bind_res (mp_alloc env P request) (\<lambda>(P, p). bind_res (alloc_times env P n request) (\<lambda>(P, ps). Inr (P, p # ps)))"

abbreviation size_list :: "mp_env \<Rightarrow> free_lists \<Rightarrow> nat \<Rightarrow> nat list" where
  "size_list env F len \<equiv> fast F ! (len div AlignSize env - 1)"

lemma counts_below:
  assumes "mp_shape env P F live" and "mp_counts env P F e e 0"
  shows "fragment_size P \<le> mp_n P + e" and "huge_size_sum P \<le> mp_n P + e" and "huge_node_cnt P \<le> mp_n P + e"
  using mp_ok_counts [OF assms] assms(2) by (auto simp: mp_counts_def)

lemma free_all_stack:
  assumes env: "mp_env_ok env" and req: "len = block_len env request" "0 < request" "len \<le> free_list_len P * AlignSize env"
    and bound: "2 * mp_n P + len + e < 2 ^ 64"
    and sh: "mp_shape env P F (mset (map (\<lambda>p. (p, len)) ps) + live)" and c: "mp_counts env P F e e 0"
    and inner: "\<forall>p\<in>set ps. p + len \<noteq> mp_n P"
  shows "\<exists>P1 F1. free_all env P ps request = Inr P1 \<and> mp_shape env P1 F1 live \<and> mp_counts env P1 F1 e e 0 \<and>
    mp_n P1 = mp_n P \<and> free_list_len P1 = free_list_len P \<and> size_list env F1 len = rev ps @ size_list env F len"
  using req(3) bound sh c inner
proof (induction ps arbitrary: P F)
  case (Cons p ps)
  have sh: "mp_shape env P F (add_mset (p, len) (mset (map (\<lambda>p. (p, len)) ps) + live))" using Cons.prems(3) by simp
  have pos: "0 < len" unfolding req(1) by (rule block_len_pos [OF env req(2)])
  have "fragment_size P + len < 2 ^ 64" "huge_size_sum P + len < 2 ^ 64" "huge_node_cnt P + 1 < 2 ^ 64"
    using counts_below [OF sh Cons.prems(4)] Cons.prems(2) pos by linarith+
  from mp_sfree_ok [OF env sh Cons.prems(4) this req(1) [symmetric] req(2)] Cons.prems(5) obtain P' F' where
    P': "mp_sfree env P p request = Inr P'" "mp_shape env P' F' (mset (map (\<lambda>p. (p, len)) ps) + live)"
      "mp_counts env P' F' e e 0" "free_list_len P' = free_list_len P" "mp_n P' = mp_n P" "freed_into env P F F' p len"
    by auto
  have l: "size_list env F' len = p # size_list env F len"
    using P'(6) Cons.prems(1) by (simp add: freed_into_def Let_def del: One_nat_def)
  from Cons.IH [OF _ _ P'(2,3)] Cons.prems(1,2,5) P'(4,5) obtain P1 F1 where
    "free_all env P' ps request = Inr P1" "mp_shape env P1 F1 live" "mp_counts env P1 F1 e e 0" "mp_n P1 = mp_n P"
    "free_list_len P1 = free_list_len P" "size_list env F1 len = rev ps @ size_list env F' len"
    by auto
  then show ?case using P'(1) l by auto
qed auto

lemma alloc_times_stack:
  assumes env: "mp_env_ok env" and req: "len = block_len env request" "0 < request" "len \<le> free_list_len P * AlignSize env"
    and bound: "2 * mp_n P + len + e < 2 ^ 64"
    and sh: "mp_shape env P F live" and c: "mp_counts env P F e e 0" and top: "size_list env F len = qs @ rest"
  shows "\<exists>P1 F1 live1. alloc_times env P (length qs) request = Inr (P1, qs) \<and> mp_shape env P1 F1 live1 \<and> mp_counts env P1 F1 e e 0 \<and>
    mp_n P1 = mp_n P \<and> free_list_len P1 = free_list_len P \<and> size_list env F1 len = rest"
  using req(3) bound sh c top
proof (induction qs arbitrary: P F live)
  case (Cons q qs)
  have len: "AlignSize env dvd len" "0 < len"
    unfolding req(1) by (rule block_len_dvd [OF env], rule block_len_pos [OF env req(2)])
  have "fragment_size P < 2 ^ 64" using counts_below [OF Cons.prems(3,4)] Cons.prems(2) by linarith
  with Cons.prems(5) alloc_fast_pop [OF env Cons.prems(3,4,1) len, of q "qs @ rest"] obtain P' where
    a: "alloc_fast env P len = Inr (Some (P', q))"
    and P': "mp_shape env P' (F\<lparr>fast := (fast F)[len div AlignSize env - 1 := qs @ rest]\<rparr>) (add_mset (q, len) live)"
      "mp_counts env P' (F\<lparr>fast := (fast F)[len div AlignSize env - 1 := qs @ rest]\<rparr>) e e 0"
    and same: "mp_n P' = mp_n P" "free_list_len P' = free_list_len P"
    by auto
  have "len div AlignSize env - 1 < length (fast F)"
    using size_index [OF env len Cons.prems(1)] Cons.prems(3) by (simp add: mp_shape_def fast_ok_def)
  then have "size_list env (F\<lparr>fast := (fast F)[len div AlignSize env - 1 := qs @ rest]\<rparr>) len = qs @ rest" by simp
  from Cons.IH [OF _ _ P' this] Cons.prems(1,2) same obtain P1 F1 live1 where
    "alloc_times env P' (length qs) request = Inr (P1, qs)" "mp_shape env P1 F1 live1" "mp_counts env P1 F1 e e 0"
    "mp_n P1 = mp_n P" "free_list_len P1 = free_list_len P" "size_list env F1 len = rest"
    by auto
  moreover have "mp_alloc env P request = Inr (P', q)"
    using a Cons.prems(1) req(1,2) by (simp add: mp_alloc_def alloc_free_block_def Let_def)
  ultimately show ?case by auto
qed auto

text \<open>C23: which block \<open>alloc\<close> takes.  Small blocks of one size are a stack: after blocks of one small length, none at
  the end of the used bytes, were freed one after the other, as many requests of that length get them back in the opposite
  order, the one freed last first, and the next request gets what the list began with before they were freed, or new bytes
  if it was empty.  A large request gets a smallest free block that is large enough, and new bytes only if there is none.\<close>

theorem mempool_which_block:
  assumes env: "mp_env_ok env" and sh: "mp_shape env P F (mset (map (\<lambda>p. (p, len)) ps) + live)" and c: "mp_counts env P F e e 0"
    and req: "0 < request" "len = block_len env request" and room: "mp_room env P len" "fragment_size P + 4 * mp_n P + len < 2 ^ 64"
    and g: "\<forall>k. bytes_granted env k" and inner: "\<forall>p\<in>set ps. p + len \<noteq> mp_n P"
  shows "(len \<le> free_list_len P * AlignSize env \<longrightarrow>
      (\<exists>P1 P2 P3. free_all env P ps request = Inr P1 \<and> alloc_times env P1 (length ps) request = Inr (P2, rev ps) \<and>
        mp_alloc env P2 request = Inr (P3, case fast F ! (len div AlignSize env - 1) of [] \<Rightarrow> mp_n P | p # _ \<Rightarrow> p))) \<and>
    (free_list_len P * AlignSize env < len \<longrightarrow>
      (\<exists>P' pos. mp_alloc env P request = Inr (P', pos) \<and>
        (if \<exists>p\<in>set (huge F). len \<le> siz F p
         then pos \<in> set (huge F) \<and> len \<le> siz F pos \<and> (\<forall>q\<in>set (huge F). len \<le> siz F q \<longrightarrow> siz F pos \<le> siz F q)
         else pos = mp_n P)))"
proof (intro conjI impI)
  assume small: "len \<le> free_list_len P * AlignSize env"
  have e: "e \<le> fragment_size P" using c by (simp add: mp_counts_def)
  then have bound: "2 * mp_n P + len + e < 2 ^ 64" using room(2) by linarith
  obtain P1 F1 where P1: "free_all env P ps request = Inr P1" "mp_shape env P1 F1 live" "mp_counts env P1 F1 e e 0"
      "mp_n P1 = mp_n P" "free_list_len P1 = free_list_len P" "size_list env F1 len = rev ps @ size_list env F len"
    using free_all_stack [OF env req(2,1) small bound sh c inner] by blast
  obtain P2 F2 live2 where P2: "alloc_times env P1 (length ps) request = Inr (P2, rev ps)" "mp_shape env P2 F2 live2"
      "mp_counts env P2 F2 e e 0" "mp_n P2 = mp_n P" "free_list_len P2 = free_list_len P" "size_list env F2 len = size_list env F len"
    using alloc_times_stack [OF env req(2,1) _ _ P1(2,3,6)] small bound P1(4,5) by auto
  have "fragment_size P2 + 2 * mp_n P2 + len < 2 ^ 64" using counts_below(1) [OF P2(2,3)] P2(4) e room(2) by linarith
  then have "mp_room env P2 (block_len env request)" using room(1) P2(4) req(2) by (simp add: mp_room_def)
  from mp_alloc_which [OF env P2(2,3) req(1) this g, folded req(2)] obtain P3 where
    "mp_alloc env P2 request = Inr (P3, if size_list env F len = [] then mp_n P else hd (size_list env F len))"
    using small P2(4-6) by (auto simp: fitting_def)
  then have "mp_alloc env P2 request = Inr (P3, case size_list env F len of [] \<Rightarrow> mp_n P | p # _ \<Rightarrow> p)"
    by (simp split: list.split)
  with P1(1) P2(1) show "\<exists>P1 P2 P3. free_all env P ps request = Inr P1 \<and> alloc_times env P1 (length ps) request = Inr (P2, rev ps) \<and>
      mp_alloc env P2 request = Inr (P3, case size_list env F len of [] \<Rightarrow> mp_n P | p # _ \<Rightarrow> p)"
    by blast
next
  assume large: "free_list_len P * AlignSize env < len"
  then have f: "fitting env P F len = filter (\<lambda>p. len \<le> siz F p) (huge F)" by (simp add: fitting_def)
  from mp_alloc_which [OF env sh c req(1) room(1) [unfolded req(2)] g, folded req(2)] obtain P' where
    P': "mp_alloc env P request = Inr (P', if fitting env P F len = [] then mp_n P else hd (fitting env P F len))" by blast
  have so: "sorted (map (siz F) (huge F))" using sh by (simp add: mp_shape_def huge_ok_def)
  show "\<exists>P' pos. mp_alloc env P request = Inr (P', pos) \<and>
      (if \<exists>p\<in>set (huge F). len \<le> siz F p
       then pos \<in> set (huge F) \<and> len \<le> siz F pos \<and> (\<forall>q\<in>set (huge F). len \<le> siz F q \<longrightarrow> siz F pos \<le> siz F q)
       else pos = mp_n P)"
  proof (cases "\<exists>p\<in>set (huge F). len \<le> siz F p")
    case True
    then have "fitting env P F len \<noteq> []" by (auto simp: f filter_empty_conv)
    with P' True best_fit [OF so f] show ?thesis by auto
  next
    case False
    then have "fitting env P F len = []" by (auto simp: f filter_empty_conv)
    with P' False show ?thesis by auto
  qed
qed

text \<open>C33: a block that is freed and was not the last is the one the next request of its length gets.\<close>

theorem mempool_free_then_alloc:
  assumes "mp_env_ok env" and "mp_ok env P (add_mset (pos, block_len env len) live)" and "0 < len"
    and "pos + block_len env len \<noteq> mp_n P" and "mp_room env P (block_len env len)"
    and "fragment_size P + 4 * mp_n P + block_len env len < 2 ^ 64" and "\<forall>k. bytes_granted env k"
  shows "\<exists>P1 P2. mp_sfree env P pos len = Inr P1 \<and> mp_alloc env P1 len = Inr (P2, pos) \<and>
    mp_ok env P2 (add_mset (pos, block_len env len) live) \<and> keeps P P2 live \<and> mp_n P2 \<le> mp_n P"
proof -
  let ?len = "block_len env len"
  from assms(2) obtain F e where sh: "mp_shape env P F (add_mset (pos, ?len) live)" and c: "mp_counts env P F e e 0" by (auto simp: mp_ok_def)
  note live = mp_ok_live [OF assms(2), of pos ?len]
  have room: "fragment_size P + ?len < 2 ^ 64" "huge_size_sum P + ?len < 2 ^ 64" "huge_node_cnt P + 1 < 2 ^ 64"
    using mp_ok_counts [OF sh c] assms(6) live(3) by simp_all
  from mp_sfree_ok [OF assms(1) sh c room refl assms(3)] assms(4) obtain P1 F1 where
    P1: "mp_sfree env P pos len = Inr P1" "mp_shape env P1 F1 live" "mp_counts env P1 F1 e e 0" "keeps P P1 live"
      "free_list_len P1 = free_list_len P" "mp_n P1 = mp_n P" "freed_into env P F F1 pos ?len" by blast
  have fr: "fragment_size P1 \<le> fragment_size P + mp_n P"
    using mp_ok_counts(3) [OF P1(2,3)] P1(3,6) c by (simp add: mp_counts_def)
  have hd: "fitting env P1 F1 ?len \<noteq> [] \<and> hd (fitting env P1 F1 ?len) = pos"
  proof (cases "?len \<le> free_list_len P * AlignSize env")
    case True
    with P1(5,7) show ?thesis by (simp add: fitting_def freed_into_def Let_def)
  next
    case False
    with P1(7) obtain k where F1: "F1 = with_node F pos ?len k" by (auto simp: freed_into_def)
    have "filter (\<lambda>p. ?len \<le> siz F1 p) (below F ?len) = filter (\<lambda>p. p = pos) (below F ?len)"
      by (rule filter_cong) (auto simp: F1 with_node_def dest: set_takeWhileD)
    moreover have "pos \<notin> set (below F ?len)"
    proof
      assume "pos \<in> set (below F ?len)"
      then have "\<not> distinct (huge F1)" by (simp add: F1 with_node_def)
      moreover have "distinct (huge F1)"
        using P1(2) mset_distinct [of env "mp_n P1" "siz F1" "huge F1" "fast_blocks env (fast F1) + live"]
        by (simp add: mp_shape_def free_blocks_def huge_blocks_def ac_simps)
      ultimately show False by simp
    qed
    ultimately have "filter (\<lambda>p. ?len \<le> siz F1 p) (below F ?len) = []" by (auto simp: filter_empty_conv)
    with False P1(5) show ?thesis by (simp add: fitting_def F1 with_node_def)
  qed
  have r1: "mp_room env P1 ?len" using assms(5,6) fr P1(6) by (simp add: mp_room_def)
  have ok1: "mp_ok env P1 live" using P1(2,3) unfolding mp_ok_def by blast
  have len: "AlignSize env dvd ?len" "0 < ?len" using block_len_dvd [OF assms(1)] block_len_pos [OF assms(1,3)] by auto
  have "fragment_size P1 + mp_n P1 < 2 ^ 64" using r1 by (simp add: mp_room_def)
  with alloc_free_block_which [OF assms(1) P1(2,3) len] hd obtain P2 where
    a: "alloc_free_block env P1 ?len = Inr (Some (P2, pos))" by auto
  then have "mp_alloc env P1 len = Inr (P2, pos)" using assms(3) by (simp add: mp_alloc_def Let_def)
  moreover from alloc_free_block_ok [OF assms(1) ok1 len \<open>fragment_size P1 + mp_n P1 < 2 ^ 64\<close>] a
  have "got_block env P1 live ?len P2 pos" "mp_n P2 \<le> mp_n P1" by simp_all
  ultimately show ?thesis using P1(1,4,6) keeps_trans by (auto simp: got_block_def)
qed

section \<open>The counters\<close>

text \<open>C38: a large request that splits a free block leaves \<open>fragment_size\<close> and \<open>huge_size_sum\<close> too large by what was
  split off, on top of what they were too large by before; the number of nodes is right.\<close>

theorem mempool_split_counts_twice:
  assumes "mp_env_ok env" and "mp_shape env P F live" and "mp_counts env P F e e 0"
    and "0 < request" and "mp_room env P (block_len env request)" and "free_list_len P * AlignSize env < block_len env request"
    and "p \<in> set (huge F)" and "block_len env request \<le> siz F p"
  shows "\<exists>P' F' pos. mp_alloc env P request = Inr (P', pos) \<and> mp_shape env P' F' (add_mset (pos, block_len env request) live) \<and>
    pos \<in> set (huge F) \<and> frag_size P' = total (free_blocks env F') + e + (siz F pos - block_len env request) \<and>
    get_huge_stat P' = (length (huge F'), total (huge_blocks F') + e + (siz F pos - block_len env request))"
proof -
  let ?len = "block_len env request"
  have so: "sorted (map (siz F) (huge F))" using assms(2) by (simp add: mp_shape_def huge_ok_def)
  have ne: "from_size F ?len \<noteq> []" unfolding from_size_filter [OF so] using assms(7,8) by (auto simp: filter_empty_conv)
  then have pos: "hd (from_size F ?len) \<in> set (huge F)" by (metis list.set_sel(1) set_dropWhileD)
  note cs = mp_ok_counts [OF assms(2,3)]
  have room: "fragment_size P + mp_n P < 2 ^ 64" using assms(5) by (simp add: mp_room_def)
  then have r: "huge_size_sum P + mp_n P < 2 ^ 64" "huge_node_cnt P + mp_n P < 2 ^ 64" using cs by linarith+
  have d: "AlignSize env dvd ?len" by (rule block_len_dvd [OF assms(1)])
  have "\<not> alloc_huge env P ?len = Inr None"
  proof
    assume "alloc_huge env P ?len = Inr None"
    with alloc_huge_which [OF assms(1,2,6)] ne show False by auto
  qed
  with alloc_huge_ok [OF assms(1-3,6) d room r] obtain P' pos' F' where
    P': "alloc_huge env P ?len = Inr (Some (P', pos'))" "mp_shape env P' F' (add_mset (pos', ?len) live)"
      "mp_counts env P' F' (e + (siz F pos' - ?len)) (e + (siz F pos' - ?len)) 0" by auto
  with alloc_huge_which [OF assms(1,2,6)] ne have "pos' = hd (from_size F ?len)" by auto
  with pos have "pos' \<in> set (huge F)" by simp
  moreover have "mp_alloc env P request = Inr (P', pos')"
    using P'(1) assms(4,6) by (simp add: mp_alloc_def Let_def alloc_free_block_def)
  ultimately show ?thesis using P'(2,3) by (auto simp: mp_counts_def frag_size_def get_huge_stat_def)
qed

section \<open>Pools that the operations cannot go on from\<close>

text \<open>A pool that was given its bytes by \<open>risk_set_data\<close> has no list for small blocks, and every small \<open>alloc\<close>, and
  every \<open>sfree\<close> of a small block before the last, fails an assertion.\<close>

theorem mempool_data_has_no_lists:
  assumes "mp_env_ok env" and "mp_risk_set_data env P bytes = Inr P'" and "0 < len" and "block_len env len < sizeof_huge_link env"
  shows "mp_alloc env P' len = Inl Abort \<and>
    (AlignSize env dvd pos \<and> pos + block_len env len < length bytes \<longrightarrow> mp_sfree env P' pos len = Inl Abort) \<and>
    byte_at P' i = (if i < length bytes then (case bytes ! i of Some b \<Rightarrow> Inr b | None \<Rightarrow> Inl Undefined) else Inl Abort)"
proof (intro conjI impI)
  from assms(2) have P': "free_list_len P' = 0" "mp_mem P' = risk_set_data bytes"
    by (auto simp: mp_risk_set_data_def clear_free_list_def verify_def split: if_splits)
  have len: "0 < block_len env len" by (rule block_len_pos [OF assms(1,3)])
  show "mp_alloc env P' len = Inl Abort"
    using P' assms(3,4) len by (simp add: mp_alloc_def Let_def alloc_free_block_def alloc_huge_def)
  show "byte_at P' i = (if i < length bytes then (case bytes ! i of Some b \<Rightarrow> Inr b | None \<Rightarrow> Inl Undefined) else Inl Abort)"
    using P' by (auto simp: byte_at_def risk_set_data_def read_cell_def verify_def split: option.splits)
  assume "AlignSize env dvd pos \<and> pos + block_len env len < length bytes"
  with P' assms(3,4) len show "mp_sfree env P' pos len = Inl Abort"
    by (auto simp: mp_sfree_def Let_def free_huge_def risk_set_data_def verify_def)
qed

text \<open>The constructor from an rvalue copies the bytes and then asserts that the source has none: it succeeds only on
  a pool that never had memory; the assignment from an rvalue copies and leaves the source as it was.\<close>

theorem mempool_move_copies:
  assumes "\<forall>k. bytes_granted env k" and "\<not> vv_null (mp_mem y)"
  shows "mp_move env y = Inl Abort \<and>
    (\<forall>x' y'. mp_move_assign env False x y = Inr (x', y') \<longrightarrow> y' = y \<and> mp_copy env y = Inr x')"
  using assms by (auto simp: mp_move_def copy_bytes_def mp_move_assign_def bind_res_def split: sum.splits)

section \<open>Concrete runs\<close>

lemma demo_state:
  assumes "mp_construct pool_env 36 = Inr P"
  shows "free_list_arr P = Some (replicate 9 (new_head pool_env))" and "free_list_len P = 9" and "huge_size (huge_list P) = 0"
    and "mp_n P = 0" and "fragment_size P = 0" and "mp_mem P = vv_new" and "mp_ok pool_env P {#}"
  using assms mp_construct_ok [OF pool_env_simps(1) assms]
  by (auto simp: mp_construct_def Let_def mp_align_to_def align_up_def empty_huge_list_def)

text \<open>As long as nothing was freed, blocks come from the end.\<close>

definition nothing_freed :: "mempool \<Rightarrow> bool" where
  "nothing_freed P \<longleftrightarrow> free_list_arr P = Some (replicate 9 (new_head pool_env)) \<and> free_list_len P = 9 \<and>
     huge_size (huge_list P) = 0 \<and> fragment_size P = 0"

lemma alloc_at_end:
  assumes "nothing_freed P" and "mp_ok pool_env P live" and "0 < len" "4 dvd len" and "mp_n P + len < 1000"
  shows "\<exists>P'. mp_alloc pool_env P len = Inr (P', mp_n P) \<and> nothing_freed P' \<and> mp_ok pool_env P' (add_mset (mp_n P, len) live) \<and>
    mp_n P' = mp_n P + len"
proof -
  have len: "block_len pool_env len = len" using assms(4) by (simp add: align_up_id)
  have fr: "fragment_size P = 0" using assms(1) by (simp add: nothing_freed_def)
  have "yields (\<forall>k. bytes_granted pool_env k) (mp_alloc pool_env P len) (\<lambda>(P', pos). got_block pool_env P live len P' pos)"
    using mp_alloc_law [OF pool_env_simps(1) assms(2,3), unfolded len] assms(5) fr by simp
  from yields_total [OF this] obtain P' pos where
    a: "mp_alloc pool_env P len = Inr (P', pos)" "mp_ok pool_env P' (add_mset (pos, len) live)" by (auto simp: got_block_def)
  obtain k where k: "len = 4 * k" "0 < k" using assms(3,4) by auto
  have "alloc_free_block pool_env P len = Inr None"
  proof (cases "k \<le> 9")
    case True
    with assms(1) k show ?thesis
      by (simp add: alloc_free_block_def alloc_fast_def nothing_freed_def get_head_def Let_def new_head_def)
  qed (use assms(1) k in \<open>simp add: alloc_free_block_def alloc_huge_def search_huge_def nothing_freed_def\<close>)
  with a(1) assms(3) len have g: "grow_to pool_env P (mp_n P + len) = Inr P'" and pos: "pos = mp_n P"
    by (auto simp: mp_alloc_def bind_res_Inr Let_def)
  from g have "mp_n P' = mp_n P + len" "nothing_freed P' = nothing_freed P"
    by (auto simp: grow_to_def bind_res_Inr nothing_freed_def ensure_capacity_def ensure_capacity_slow_def Let_def verify_def split: if_splits)
  with a assms(1) pos show ?thesis by blast
qed

lemma demo_two:
  assumes "0 < a" "4 dvd a" "a < 500"
  obtains P P1 P2 where "mp_construct pool_env 36 = Inr P" and "mp_alloc pool_env P a = Inr (P1, 0)" and "mp_alloc pool_env P1 8 = Inr (P2, a)"
    and "mp_ok pool_env P2 {#(0, a), (a, 8)#}" and "mp_n P2 = a + 8" and "fragment_size P2 = 0" and "free_list_len P2 = 9"
    and "nothing_freed P2"
proof -
  obtain P where P: "mp_construct pool_env 36 = Inr P" by (rule demo_new)
  note d = demo_state [OF P]
  have "nothing_freed P" using d by (simp add: nothing_freed_def)
  from alloc_at_end [OF this d(7) assms(1,2)] d(4) assms(3) obtain P1 where
    1: "mp_alloc pool_env P a = Inr (P1, 0)" "nothing_freed P1" "mp_ok pool_env P1 {#(0, a)#}" "mp_n P1 = a" by auto
  from alloc_at_end [OF 1(2,3), of 8] 1(4) assms(3) obtain P2 where
    2: "mp_alloc pool_env P1 8 = Inr (P2, a)" "nothing_freed P2" "mp_ok pool_env P2 {#(a, 8), (0, a)#}" "mp_n P2 = a + 8" by auto
  show thesis by (rule that [OF P 1(1) 2(1)]) (use 2 in \<open>simp_all add: nothing_freed_def add_mset_commute\<close>)
qed

lemma no_nodes: "mp_shape pool_env P F live \<Longrightarrow> nothing_freed P \<Longrightarrow> huge F = []"
proof (rule ccontr)
  assume "mp_shape pool_env P F live" "nothing_freed P" "huge F \<noteq> []"
  then show False by (auto simp: mp_shape_def huge_ok_def nothing_freed_def dest!: bspec [of _ _ "hd (huge F)"])
qed

lemma mempool_which_block_witness:
  "\<exists>P P1 P2 P3 pos Q Q1 Q2. mp_ok pool_env P {#(0, 8), (8, 8), (16, 8)#} \<and>
     free_all pool_env P [0, 8] 8 = Inr P1 \<and> alloc_times pool_env P1 2 8 = Inr (P2, [8, 0]) \<and> mp_alloc pool_env P2 8 = Inr (P3, pos) \<and>
     mp_ok pool_env Q {#(0, 80), (80, 8)#} \<and> mp_sfree pool_env Q 0 80 = Inr Q1 \<and> mp_n Q1 = 88 \<and> mp_alloc pool_env Q1 40 = Inr (Q2, 0)"
proof -
  have len: "block_len pool_env 8 = 8" "block_len pool_env 80 = 80" "block_len pool_env 40 = 40" by (simp_all add: align_up_def)
  obtain P0 where P0: "mp_ok pool_env P0 {#(0, 8), (8, 8)#}" "mp_n P0 = 16" "nothing_freed P0" using demo_two [of 8] by auto
  from alloc_at_end [OF P0(3,1), of 8] P0(2) obtain P where
    P: "mp_ok pool_env P {#(16, 8), (0, 8), (8, 8)#}" "mp_n P = 24" "nothing_freed P" by auto
  from P(1) obtain F e where F: "mp_shape pool_env P F {#(16, 8), (0, 8), (8, 8)#}" "mp_counts pool_env P F e e 0" by (auto simp: mp_ok_def)
  have ms: "{#(16, 8), (0, 8), (8, 8)#} = mset (map (\<lambda>p. (p, 8)) [0, 8]) + {#(16, 8 :: nat)#}" by (simp add: add_mset_commute)
  have n: "free_list_len P = 9" "fragment_size P = 0" using P(3) by (simp_all add: nothing_freed_def)
  then have room: "mp_room pool_env P 8" "fragment_size P + 4 * mp_n P + 8 < 2 ^ 64" using P(2) by (simp_all add: mp_room_def)
  have rest: "\<forall>k. bytes_granted pool_env k" "\<forall>p\<in>set [0, 8]. p + 8 \<noteq> mp_n P" "8 \<le> free_list_len P * AlignSize pool_env"
      "0 < (8 :: nat)" "8 = block_len pool_env 8" and two: "length [0, 8 :: nat] = 2" "rev [0, 8 :: nat] = [8, 0]"
    using P(2) n len(1) by simp_all
  obtain P1 P2 P3 pos where
    small: "free_all pool_env P [0, 8] 8 = Inr P1" "alloc_times pool_env P1 2 8 = Inr (P2, [8, 0])" "mp_alloc pool_env P2 8 = Inr (P3, pos)"
    using mempool_which_block [OF pool_env_simps(1) F(1) [unfolded ms] F(2) rest(4,5) room rest(1,2), THEN conjunct1, THEN mp, OF rest(3), unfolded two]
    by blast
  obtain Q where Q: "mp_ok pool_env Q {#(0, 80), (80, 8)#}" "mp_n Q = 88" "fragment_size Q = 0" "free_list_len Q = 9" "nothing_freed Q"
    using demo_two [of 80] by auto
  from Q(1) obtain G d where sh: "mp_shape pool_env Q G {#(0, 80), (80, 8)#}" and c: "mp_counts pool_env Q G d d 0" by (auto simp: mp_ok_def)
  note cs = mp_ok_counts [OF sh c]
  from mp_sfree_ok [OF pool_env_simps(1) sh c, of 80] cs Q len obtain Q1 G1 where
    Q1: "mp_sfree pool_env Q 0 80 = Inr Q1" "mp_shape pool_env Q1 G1 {#(80, 8)#}" "mp_counts pool_env Q1 G1 d d 0" "free_list_len Q1 = 9"
      "mp_n Q1 = 88" "freed_into pool_env Q G G1 0 80" by auto
  have n: "huge G1 = [0]" "siz G1 0 = 80" using Q1(6) Q(4) no_nodes [OF sh Q(5)] by (auto simp: freed_into_def with_node_def)
  have "d = 0" using c Q(3) by (simp add: mp_counts_def)
  then have "fragment_size Q1 \<le> 88" using mp_ok_counts [OF Q1(2,3)] Q1(3,5) by (simp add: mp_counts_def)
  then have "mp_room pool_env Q1 40" "fragment_size Q1 + 4 * mp_n Q1 + 40 < 2 ^ 64" using Q1(5) by (simp_all add: mp_room_def)
  with mempool_which_block [OF pool_env_simps(1) _ Q1(3), of 40 "[]" "{#(80, 8)#}" 40] Q1(2,4) len n obtain Q2 where
    "mp_alloc pool_env Q1 40 = Inr (Q2, 0)" by auto
  moreover have "mp_ok pool_env P {#(0, 8), (8, 8), (16, 8)#}" using P(1) by (simp add: add_mset_commute)
  ultimately show ?thesis using small Q(1) Q1(1,5) by blast
qed

lemma mempool_free_then_alloc_witness:
  "\<exists>P P1 P2. mp_ok pool_env P {#(0, 8), (8, 8)#} \<and> mp_sfree pool_env P 0 8 = Inr P1 \<and> mp_alloc pool_env P1 8 = Inr (P2, 0) \<and>
     mp_ok pool_env P2 {#(0, 8), (8, 8)#}"
proof -
  obtain P where P: "mp_ok pool_env P {#(0, 8), (8, 8)#}" "mp_n P = 16" "fragment_size P = 0"
    using demo_two [of 8] by auto
  have len: "block_len pool_env 8 = 8" by (simp add: align_up_def)
  have "mp_room pool_env P 8" using P by (simp add: mp_room_def)
  with mempool_free_then_alloc [OF pool_env_simps(1), of P 0 8 "{#(8, 8)#}", unfolded len] P show ?thesis by auto
qed

lemma mempool_split_counts_twice_witness:
  "\<exists>P F e P' F' pos. mp_shape pool_env P F {#(80, 8)#} \<and> mp_counts pool_env P F e e 0 \<and> 0 \<in> set (huge F) \<and> siz F 0 = 80 \<and>
     mp_alloc pool_env P 40 = Inr (P', pos) \<and> mp_shape pool_env P' F' {#(pos, 40), (80, 8)#} \<and>
     frag_size P' = total (free_blocks pool_env F') + e + (siz F pos - 40)"
proof -
  obtain P where P: "mp_ok pool_env P {#(0, 80), (80, 8)#}" "mp_n P = 88" "fragment_size P = 0" "free_list_len P = 9"
    using demo_two [of 80] by auto
  from P(1) obtain F e where sh: "mp_shape pool_env P F {#(0, 80), (80, 8)#}" and c: "mp_counts pool_env P F e e 0" by (auto simp: mp_ok_def)
  have len: "block_len pool_env 80 = 80" "block_len pool_env 40 = 40" by (simp_all add: align_up_def)
  note cs = mp_ok_counts [OF sh c]
  from mp_sfree_ok [OF pool_env_simps(1) sh c, of 80] cs P len obtain P1 F1 where
    P1: "mp_shape pool_env P1 F1 {#(80, 8)#}" "mp_counts pool_env P1 F1 e e 0" "free_list_len P1 = 9" "mp_n P1 = 88"
      "freed_into pool_env P F F1 0 80" by auto
  have n: "0 \<in> set (huge F1)" "siz F1 0 = 80" using P1(5) P(4) by (auto simp: freed_into_def with_node_def)
  have "fragment_size P1 \<le> 88 + e" using mp_ok_counts [OF P1(1,2)] P1(2,4) by (simp add: mp_counts_def)
  moreover have "e = 0" using c P(3) by (simp add: mp_counts_def)
  ultimately have "mp_room pool_env P1 40" using P1(4) by (simp add: mp_room_def)
  with mempool_split_counts_twice [OF pool_env_simps(1) P1(1,2), of 40 0, unfolded len] n P1(3) obtain P' F' pos where
    "mp_alloc pool_env P1 40 = Inr (P', pos)" "mp_shape pool_env P' F' {#(pos, 40), (80, 8)#}"
    "frag_size P' = total (free_blocks pool_env F') + e + (siz F1 pos - 40)" by auto
  with P1(1,2) n show ?thesis by blast
qed

lemma mempool_data_has_no_lists_witness:
  "\<exists>P P'. mp_construct pool_env 36 = Inr P \<and> mp_risk_set_data pool_env P (replicate 8 (Some 1)) = Inr P' \<and>
     mp_alloc pool_env P' 4 = Inl Abort \<and> mp_sfree pool_env P' 0 4 = Inl Abort \<and> byte_at P' 7 = Inr 1 \<and> byte_at P' 8 = Inl Abort"
proof -
  obtain P where P: "mp_construct pool_env 36 = Inr P" by (rule demo_new)
  have "mp_mem P = vv_new" by (rule demo_state(6) [OF P])
  then obtain P' where P': "mp_risk_set_data pool_env P (replicate 8 (Some 1)) = Inr P'" by (auto simp: mp_risk_set_data_def vv_new_def)
  have "block_len pool_env 4 = 4" by (simp add: align_up_def)
  with mempool_data_has_no_lists [OF pool_env_simps(1) P', of 4 0 7] mempool_data_has_no_lists [OF pool_env_simps(1) P', of 4 0 8]
  show ?thesis using P P' by auto
qed

lemma mempool_move_copies_witness:
  "\<exists>P P1. mp_construct pool_env 36 = Inr P \<and> mp_alloc pool_env P 8 = Inr (P1, 0) \<and> mp_move pool_env P1 = Inl Abort"
proof -
  obtain P P1 P2 where P: "mp_construct pool_env 36 = Inr P" "mp_alloc pool_env P 8 = Inr (P1, 0)" by (rule demo_two [of 8]) auto
  have "\<not> vv_null (mp_mem P1)"
    using P demo_state [OF P(1)]
    by (auto simp: mp_alloc_def align_up_def alloc_free_block_def alloc_fast_def get_head_def new_head_def Let_def grow_to_def bind_res_Inr
        ensure_capacity_def ensure_capacity_slow_def vv_new_def verify_def split: if_splits)
  with mempool_move_copies [of pool_env P1] P show ?thesis by auto
qed

end
