(* ===== verification/Mempool_Files.thy ===== *)
theory Mempool_Files
  imports Mempool_Policy Var_Int
begin

text \<open>
  \<open>DataIO_saveObject\<close> and \<open>DataIO_loadObject\<close> of the memory pools: the counters, the skip list head and the heads of the
  lists as variable length integers (\<open>Var_Int\<close>; \<open>var_size_t\<close> has 64 bits), then the bytes as the streams save and load a
  \<open>valvec<unsigned char>\<close> (\<open>io/DataOutput.hpp\<close>, \<open>io/DataInput.hpp\<close>).  A byte that was never written is saved as
  whatever it is, the parameter \<open>garbage\<close>.
\<close>

section \<open>Writing\<close>

fun save_vars :: "nat list \<Rightarrow> u8 list" where
  "save_vars [] = []"
| "save_vars (x # xs) = save_var_uint64 (of_nat x) @ save_vars xs"

fun save_heads :: "head_t list \<Rightarrow> u8 list" where
  "save_heads [] = []"
| "save_heads (h # hs) = save_var_uint64 (of_nat (head h)) @ save_var_uint64 (of_nat (cnt h)) @ save_heads hs"

fun saved_cells :: "(nat \<Rightarrow> u8) \<Rightarrow> nat \<Rightarrow> u8 option list \<Rightarrow> u8 list" where
  "saved_cells garbage i [] = []"
| "saved_cells garbage i (c # cs) = (case c of Some b \<Rightarrow> b | None \<Rightarrow> garbage i) # saved_cells garbage (i + 1) cs"

definition save_byte_vec :: "(nat \<Rightarrow> u8) \<Rightarrow> u8 valvec \<Rightarrow> u8 list res" where
  "save_byte_vec garbage v =
     (if vv_n v \<le> length (vv_p v)
      then Inr (save_var_uint64 (of_nat (vv_n v)) @ saved_cells garbage 0 (take (vv_n v) (vv_p v))) else Inl Undefined)"

definition mp_heads :: "mempool \<Rightarrow> head_t list res" where
  "mp_heads P = (case free_list_arr P of
     Some arr \<Rightarrow> if free_list_len P \<le> length arr then Inr (take (free_list_len P) arr) else Inl Undefined
   | None \<Rightarrow> if free_list_len P = 0 then Inr [] else Inl Undefined)"

definition mp_save :: "(nat \<Rightarrow> u8) \<Rightarrow> mempool \<Rightarrow> u8 list res" where
  "mp_save garbage P =
     bind_res (mp_heads P) (\<lambda>fastbin. bind_res (save_byte_vec garbage (mp_mem P)) (\<lambda>bytes.
       Inr (save_var_uint64 (of_nat (huge_size (huge_list P))) @ save_vars (huge_next (huge_list P)) @
         save_vars [fragment_size P, huge_size_sum P, huge_node_cnt P, free_list_len P] @ save_heads fastbin @ bytes)))"

section \<open>Reading\<close>

definition load_var :: "u8 list \<Rightarrow> (nat \<times> u8 list) res" where
  "load_var dio = bind_res (load_var_uint64 dio) (\<lambda>(x, dio). Inr (unat x, dio))"

fun load_links :: "mp_env \<Rightarrow> nat \<Rightarrow> u8 list \<Rightarrow> (nat list \<times> u8 list) res" where
  "load_links env 0 dio = Inr ([], dio)"
| "load_links env (Suc k) dio = bind_res (load_var dio) (\<lambda>(x, dio).
     bind_res (load_links env k dio) (\<lambda>(xs, dio). Inr (link_size env x # xs, dio)))"

fun load_heads :: "mp_env \<Rightarrow> nat \<Rightarrow> u8 list \<Rightarrow> (head_t list \<times> u8 list) res" where
  "load_heads env 0 dio = Inr ([], dio)"
| "load_heads env (Suc k) dio = bind_res (load_var dio) (\<lambda>(x, dio). bind_res (load_var dio) (\<lambda>(y, dio).
     bind_res (load_heads env k dio) (\<lambda>(hs, dio). Inr (\<lparr>head = link_size env x, cnt = link_size env y\<rparr> # hs, dio))))"

definition load_byte_vec :: "mp_env \<Rightarrow> u8 valvec \<Rightarrow> u8 list \<Rightarrow> (u8 valvec \<times> u8 list) res" where
  "load_byte_vec env v dio = bind_res (load_var dio) (\<lambda>(n, dio).
     bind_res (vv_resize_no_init (byte_env env) v n) (\<lambda>v.
       if n \<noteq> 0 then
         if n \<le> length dio then bind_res (construct_at v 0 (take n dio)) (\<lambda>v. Inr (v, drop n dio)) else Inl Out_of_range
       else Inr (v, dio)))"

definition mp_load :: "mp_env \<Rightarrow> mempool \<Rightarrow> u8 list \<Rightarrow> (mempool \<times> u8 list) res" where
  "mp_load env P dio =
     bind_res (mp_clear env P) (\<lambda>P. let P = clear_free_list env P in
       bind_res (load_var dio) (\<lambda>(size, dio). bind_res (load_links env skip_list_level_max dio) (\<lambda>(next, dio).
         bind_res (load_var dio) (\<lambda>(frag, dio). bind_res (load_var dio) (\<lambda>(sum, dio). bind_res (load_var dio) (\<lambda>(nodes, dio).
           bind_res (load_var dio) (\<lambda>(fastnum, dio).
             if heads_granted env fastnum then
               bind_res (load_heads env fastnum dio) (\<lambda>(fastbin, dio). bind_res (load_byte_vec env (mp_mem P) dio) (\<lambda>(v, dio).
                 Inr (P\<lparr>mp_mem := v, fragment_size := frag, huge_size_sum := sum, huge_node_cnt := nodes,
                   huge_list := \<lparr>huge_size = size, huge_next = next\<rparr>, free_list_arr := Some fastbin, free_list_len := fastnum\<rparr>, dio)))
             else Inl Bad_alloc)))))))"

section \<open>What is read is what was written\<close>

lemma load_var_saved: "x < 2 ^ 64 \<Longrightarrow> load_var (save_var_uint64 (of_nat x) @ dio) = Inr (x, dio)"
  using load_save_var_uint [where 'a = 64, of "of_nat x" dio]
  by (simp add: load_var_def load_var_uint64_def save_var_uint64_def unat_of_nat take_bit_nat_eq_self)

lemma link_size_id: "x \<le> list_tail env \<Longrightarrow> link_size env x = x"
  unfolding link_size_def by (rule mod_less) (rule le_less_trans [OF _ list_tail_less(1)])

lemma link_width: "(2::nat) ^ (8 * link_bytes env) \<le> 2 ^ 64"
  by (rule power_increasing) (simp_all add: link_bytes_def)

lemma tail_width: "x \<le> list_tail env \<Longrightarrow> x < 2 ^ 64"
  by (rule less_le_trans [OF le_less_trans [OF _ list_tail_less(1)] link_width])

lemma load_links_saved:
  "list_all (\<lambda>x. x \<le> list_tail env) xs \<Longrightarrow> load_links env (length xs) (save_vars xs @ dio) = Inr (xs, dio)"
  by (induction xs) (simp_all add: load_var_saved [OF tail_width [where env = env]] link_size_id)

lemma load_heads_saved:
  "list_all (\<lambda>h. head h \<le> list_tail env \<and> cnt h \<le> list_tail env) hs \<Longrightarrow>
    load_heads env (length hs) (save_heads hs @ dio) = Inr (hs, dio)"
  by (induction hs) (simp_all add: load_var_saved [OF tail_width [where env = env]] link_size_id)

lemma length_saved_cells [simp]: "length (saved_cells garbage i cs) = length cs"
  by (induction cs arbitrary: i) simp_all

lemma saved_cells_nth:
  "j < length cs \<Longrightarrow> saved_cells garbage i cs ! j = (case cs ! j of Some b \<Rightarrow> b | None \<Rightarrow> garbage (i + j))"
  by (induction cs arbitrary: i j) (auto simp: nth_Cons split: nat.splits option.splits)

text \<open>The vector that is read, from an empty one.\<close>

lemma load_byte_vec_saved:
  assumes "vv_n v \<le> length (vv_p v)" and "vv_n v < 2 ^ 64" and "\<And>k. bytes_granted env k"
  shows "\<exists>bs v'. save_byte_vec garbage v = Inr bs \<and> load_byte_vec env vv_new (bs @ dio) = Inr (v', dio) \<and> vv_n v' = vv_n v \<and>
    length (vv_p v') = vv_c v' \<and> vv_n v \<le> vv_c v' \<and> (vv_c v' \<noteq> 0 \<longrightarrow> \<not> vv_null v') \<and>
    (\<forall>i<vv_n v. vv_p v' ! i = Some (saved_cells garbage 0 (take (vv_n v) (vv_p v)) ! i))"
proof (cases "vv_n v = 0")
  case True
  then show ?thesis
    using load_var_saved [of 0 dio]
    by (auto simp: save_byte_vec_def load_byte_vec_def vv_resize_no_init_def ensure_capacity_def vv_new_def byte_env_def)
next
  case False
  let ?cells = "saved_cells garbage 0 (take (vv_n v) (vv_p v))"
  let ?c = "max (larger_capacity 0) (vv_n v)"
  let ?w = "\<lparr>vv_p = map Some ?cells @ drop (vv_n v) (replicate ?c None), vv_null = False, vv_n = vv_n v, vv_c = ?c\<rparr>"
  have len: "length ?cells = vv_n v" using assms(1) by simp
  have "load_byte_vec env vv_new ((save_var_uint64 (of_nat (vv_n v)) @ ?cells) @ dio) = Inr (?w, dio)"
    using False assms(2,3) len
    by (simp add: load_byte_vec_def load_var_saved vv_resize_no_init_def ensure_capacity_def ensure_capacity_slow_def vv_new_def
        byte_env_def Let_def realloc_cells_def construct_at_def del: max_def)
  moreover have "save_byte_vec garbage v = Inr (save_var_uint64 (of_nat (vv_n v)) @ ?cells)" using assms(1) by (simp add: save_byte_vec_def)
  ultimately show ?thesis using len by (auto simp: nth_append)
qed

section \<open>The lists survive\<close>

text \<open>Bytes that were not written get some value.\<close>

definition filled :: "mempool \<Rightarrow> u8 option list \<Rightarrow> mempool" where
  "filled P cells = P\<lparr>mp_mem := (mp_mem P)\<lparr>vv_p := cells\<rparr>\<rparr>"

lemma filled_simps [simp]:
  "mp_bytes (filled P cells) = cells" "mp_n (filled P cells) = mp_n P" "vv_c (mp_mem (filled P cells)) = vv_c (mp_mem P)"
  "huge_list (filled P cells) = huge_list P" "free_list_arr (filled P cells) = free_list_arr P"
  "free_list_len (filled P cells) = free_list_len P" "fragment_size (filled P cells) = fragment_size P"
  "huge_size_sum (filled P cells) = huge_size_sum P" "huge_node_cnt (filled P cells) = huge_node_cnt P"
  by (simp_all add: filled_def)

definition only_fills :: "u8 option list \<Rightarrow> u8 option list \<Rightarrow> bool" where
  "only_fills xs ys \<longleftrightarrow> length ys = length xs \<and> (\<forall>i<length xs. xs ! i \<noteq> None \<longrightarrow> ys ! i = xs ! i)"

lemma load_link_filled:
  assumes "load_link env P a = Inr x" and "only_fills (mp_bytes P) cells"
  shows "load_link env (filled P cells) a = Inr x"
proof -
  let ?l = "take (link_bytes env) (drop a (mp_bytes P))" and ?r = "take (link_bytes env) (drop a cells)"
  from assms(1) have l: "length ?l = link_bytes env" "list_all (\<lambda>c. c \<noteq> None) ?l"
    by (auto simp: load_link_def Let_def split: if_splits)
  have "?r = ?l"
  proof (rule nth_equalityI)
    show "length ?r = length ?l" using assms(2) by (simp add: only_fills_def)
    fix i assume "i < length ?r"
    with l(1) assms(2) have i: "i < link_bytes env" "a + i < length (mp_bytes P)" by (auto simp: only_fills_def)
    then have "?l ! i = mp_bytes P ! (a + i)" by simp
    moreover have "?l ! i \<noteq> None" using l i by (auto simp: list_all_length)
    ultimately show "?r ! i = ?l ! i" using i assms(2) by (simp add: only_fills_def)
  qed
  then show ?thesis using assms(1) by (simp add: load_link_def)
qed

lemma seg_mono:
  assumes "seg env m j x ps z" and "\<And>a y. m a = Inr y \<Longrightarrow> m' a = Inr y"
  shows "seg env m' j x ps z"
  using assms(1)
proof (induction ps arbitrary: x)
  case (Cons p ps)
  then show ?case using assms(2) by auto
qed simp

lemma mp_shape_filled:
  assumes "mp_shape env P F live" and "only_fills (mp_bytes P) cells"
  shows "mp_shape env (filled P cells) F live"
proof -
  note ld = load_link_filled [OF _ assms(2)]
  note sg = seg_mono [where m = "load_link env P" and m' = "load_link env (filled P cells)", OF _ ld]
  have "mem_ok env (filled P cells)" using assms by (simp add: mp_shape_def mem_ok_def only_fills_def)
  moreover have "fast_ok env (filled P cells) F" using assms(1) sg unfolding mp_shape_def fast_ok_def filled_simps by blast
  moreover have "huge_ok env (filled P cells) F" using assms(1) sg ld unfolding mp_shape_def huge_ok_def filled_simps by blast
  ultimately show ?thesis using assms(1) by (simp add: mp_shape_def)
qed

text \<open>Every link and counter fits into its type.\<close>

lemma chain_width:
  assumes "chain env m j x ps" and "\<And>p. p \<in> set ps \<Longrightarrow> p \<le> link_limit env"
  shows "x \<le> list_tail env"
proof (cases ps)
  case (Cons p qs)
  with assms have "x * 2 ^ offset_shift env \<le> list_tail env * 2 ^ offset_shift env" by (auto simp: link_pos_def link_limit_def)
  then show ?thesis by simp
qed (use assms in simp)

lemma link_limit_width: "link_limit env < 2 ^ 64"
  by (simp add: link_limit_def list_tail_def link_bytes_def offset_shift_def)

lemma mp_shape_width:
  assumes env: "mp_env_ok env" and sh: "mp_shape env P F live"
  shows "list_all (\<lambda>x. x \<le> list_tail env) (huge_next (huge_list P))" and "huge_size (huge_list P) \<le> list_tail env" and "mp_n P < 2 ^ 64"
    and "\<exists>arr. free_list_arr P = Some arr \<and> length arr = free_list_len P \<and>
      list_all (\<lambda>h. head h \<le> list_tail env \<and> cnt h \<le> list_tail env) arr"
proof -
  have h: "huge_ok env P F" and f: "fast_ok env P F" and lim: "mp_n P \<le> link_limit env"
    and t: "tiles env (mp_n P) (free_blocks env F + live)" using sh by (simp_all add: mp_shape_def mem_ok_def)
  have at: "p \<le> link_limit env" if "(p, l) \<in># free_blocks env F" for p l
    using tiles_block(5) [OF t, of "(p, l)"] that lim by simp
  have hp: "p \<le> link_limit env" if "p \<in> set (huge F)" for p
    using at huge_blocks_member [OF that] by (fastforce simp: free_blocks_def)
  have "huge_next (huge_list P) ! k \<le> list_tail env" if "k < skip_list_level_max" for k
    by (rule chain_width [of _ "load_link env P" "Suc k" _ "level_list F k"]) (use h that hp in \<open>auto simp: huge_ok_def level_list_def\<close>)
  then show "list_all (\<lambda>x. x \<le> list_tail env) (huge_next (huge_list P))" using h by (simp add: list_all_length huge_ok_def)
  have "skip_list_level_max \<le> list_tail env" by (simp add: skip_list_level_max_def list_tail_def link_bytes_def)
  then show "huge_size (huge_list P) \<le> list_tail env" using h by (simp add: huge_ok_def)
  show "mp_n P < 2 ^ 64" using lim link_limit_width by (rule le_less_trans)
  obtain arr where arr: "free_list_arr P = Some arr" "length arr = free_list_len P"
    "\<And>i. i < free_list_len P \<Longrightarrow> chain env (load_link env P) 0 (head (arr ! i)) (fast F ! i) \<and> cnt (arr ! i) = length (fast F ! i)"
    and lf: "length (fast F) = free_list_len P"
    using f by (auto simp: fast_ok_def)
  have "head (arr ! i) \<le> list_tail env \<and> cnt (arr ! i) \<le> list_tail env" if i: "i < free_list_len P" for i
  proof
    have "p \<le> link_limit env" if "p \<in> set (fast F ! i)" for p
      using at fast_blocks_member [of i "fast F" p env] that i lf by (fastforce simp: free_blocks_def)
    then show "head (arr ! i) \<le> list_tail env" using chain_width arr(3) [OF i] by blast
    have "tiles env (mp_n P) (fast_blocks env (fast F) + (huge_blocks F + live))" using t by (simp add: free_blocks_def ac_simps)
    from fast_count [OF env this lim] i lf have "length (fast F ! i) < list_tail env + 1" unfolding list_tail_plus by simp
    then show "cnt (arr ! i) \<le> list_tail env" using arr(3) [OF i] by linarith
  qed
  with arr show "\<exists>arr. free_list_arr P = Some arr \<and> length arr = free_list_len P \<and>
    list_all (\<lambda>h. head h \<le> list_tail env \<and> cnt h \<le> list_tail env) arr" by (auto simp: list_all_length)
qed

section \<open>A pool that is saved and loaded\<close>

text \<open>\<open>clear\<close> leaves no memory.\<close>

lemma mp_clear_mem: "mp_clear env P = Inr P' \<Longrightarrow> mp_mem P' = vv_new"
  by (auto simp: mp_clear_def Let_def vv_clear_def bind_res_def split: sum.splits)

lemma mp_load_saved:
  assumes env: "mp_env_ok env" and sh: "mp_shape env P F live" and c: "mp_counts env P F e e 0"
    and w: "fragment_size P < 2 ^ 64" "free_list_len P < 2 ^ 64"
    and g: "\<And>k. bytes_granted env k" "\<And>k. heads_granted env k" and P0: "mp_clear env P0 = Inr P1"
  shows "\<exists>bs v. mp_save garbage P = Inr bs \<and>
    mp_load env P0 (bs @ dio) = Inr (P\<lparr>mp_mem := v, m_rand_seed := m_rand_seed P1\<rparr>, dio) \<and>
    vv_n v = mp_n P \<and> length (vv_p v) = vv_c v \<and> mp_n P \<le> vv_c v \<and> (vv_c v \<noteq> 0 \<longrightarrow> \<not> vv_null v) \<and>
    (\<forall>i<mp_n P. vv_p v ! i = Some (saved_cells garbage 0 (take (mp_n P) (mp_bytes P)) ! i))"
proof -
  note width = mp_shape_width [OF env sh]
  obtain arr where arr: "free_list_arr P = Some arr" "length arr = free_list_len P"
    "list_all (\<lambda>h. head h \<le> list_tail env \<and> cnt h \<le> list_tail env) arr" using width(4) by blast
  have next_len: "length (huge_next (huge_list P)) = skip_list_level_max" using sh by (simp add: mp_shape_def huge_ok_def)
  have cs: "huge_size_sum P < 2 ^ 64" "huge_node_cnt P < 2 ^ 64" using mp_ok_counts [OF sh c] w(1) by linarith+
  have mem: "mp_n P \<le> length (mp_bytes P)" using sh by (simp add: mp_shape_def mem_ok_def)
  from load_byte_vec_saved [OF mem width(3) g(1)] obtain bs v where
    b: "save_byte_vec garbage (mp_mem P) = Inr bs" "load_byte_vec env vv_new (bs @ dio) = Inr (v, dio)" "vv_n v = mp_n P"
      "length (vv_p v) = vv_c v" "mp_n P \<le> vv_c v" "vv_c v \<noteq> 0 \<longrightarrow> \<not> vv_null v"
      "\<forall>i<mp_n P. vv_p v ! i = Some (saved_cells garbage 0 (take (mp_n P) (mp_bytes P)) ! i)" by blast
  let ?bs = "save_var_uint64 (of_nat (huge_size (huge_list P))) @ save_vars (huge_next (huge_list P)) @
    save_vars [fragment_size P, huge_size_sum P, huge_node_cnt P, free_list_len P] @ save_heads arr @ bs"
  have "mp_save garbage P = Inr ?bs" using arr b(1) by (simp add: mp_save_def mp_heads_def)
  moreover have "mp_load env P0 (?bs @ dio) = Inr (P\<lparr>mp_mem := v, m_rand_seed := m_rand_seed P1\<rparr>, dio)"
  proof -
    note ln = load_links_saved [OF width(1), unfolded next_len] and lh = load_heads_saved [OF arr(3), unfolded arr(2)]
    let ?Q = "clear_free_list env P1"
    have Q: "mp_mem ?Q = vv_new" using mp_clear_mem [OF P0] by (simp add: clear_free_list_def)
    have "?Q\<lparr>mp_mem := v, fragment_size := fragment_size P, huge_size_sum := huge_size_sum P, huge_node_cnt := huge_node_cnt P,
        huge_list := \<lparr>huge_size = huge_size (huge_list P), huge_next = huge_next (huge_list P)\<rparr>,
        free_list_arr := Some arr, free_list_len := free_list_len P\<rparr> = P\<lparr>mp_mem := v, m_rand_seed := m_rand_seed P1\<rparr>"
      using arr(1) by (cases P; cases P1) (simp add: clear_free_list_def)
    then show ?thesis
      by (simp add: mp_load_def P0 load_var_saved tail_width [OF width(2), simplified] cs [simplified] w [simplified] ln lh b(2) g(2) Q)
  qed
  ultimately show ?thesis using b by blast
qed

text \<open>C28: a pool that is saved and loaded into any other is the same pool: the same blocks are in use and free, in the
  same lists, the counters are the same, and every byte that was written is.\<close>

theorem mempool_roundtrip:
  assumes "mp_env_ok env" and "mp_ok env P live" and "fragment_size P < 2 ^ 64" and "free_list_len P < 2 ^ 64"
    and "\<forall>k. bytes_granted env k \<and> heads_granted env k" and "mp_clear env P0 = Inr P1"
  shows "\<exists>bs Q. mp_save garbage P = Inr bs \<and> mp_load env P0 (bs @ dio) = Inr (Q, dio) \<and> mp_ok env Q live \<and>
    mp_n Q = mp_n P \<and> frag_size Q = frag_size P \<and> get_huge_stat Q = get_huge_stat P \<and> get_fastbin Q = get_fastbin P \<and>
    huge_list Q = huge_list P \<and> free_list_arr Q = free_list_arr P \<and>
    (\<forall>i<mp_n P. byte_at Q i = Inr (case mp_bytes P ! i of Some b \<Rightarrow> b | None \<Rightarrow> garbage i))"
proof -
  from assms(2) obtain F e where sh: "mp_shape env P F live" and c: "mp_counts env P F e e 0" by (auto simp: mp_ok_def)
  from assms(5) have g: "bytes_granted env k" "heads_granted env k" for k by simp_all
  from mp_load_saved [OF assms(1) sh c assms(3,4) g assms(6), of garbage dio] obtain bs v where
    b: "mp_save garbage P = Inr bs" "mp_load env P0 (bs @ dio) = Inr (P\<lparr>mp_mem := v, m_rand_seed := m_rand_seed P1\<rparr>, dio)"
    and v: "vv_n v = mp_n P" "length (vv_p v) = vv_c v" "mp_n P \<le> vv_c v"
      "\<And>i. i < mp_n P \<Longrightarrow> vv_p v ! i = Some (saved_cells garbage 0 (take (mp_n P) (mp_bytes P)) ! i)" by blast
  define cells where "cells = take (mp_n P) (vv_p v) @ drop (mp_n P) (mp_bytes P)"
  note m = mp_ok_mem [OF assms(2)]
  have val: "vv_p v ! i = Some (case mp_bytes P ! i of Some b \<Rightarrow> b | None \<Rightarrow> garbage i)" if "i < mp_n P" for i
    using that v m by (simp add: saved_cells_nth split: option.split)
  have nth: "cells ! i = vv_p v ! i" if "i < mp_n P" for i using that v by (simp add: cells_def nth_append)
  have old: "cells ! i = mp_bytes P ! i" if "mp_n P \<le> i" "i < length (mp_bytes P)" for i
    using that v m by (simp add: cells_def nth_append min_def)
  have len: "length cells = length (mp_bytes P)" using v m by (simp add: cells_def)
  have "cells ! i = mp_bytes P ! i" if "i < length (mp_bytes P)" "mp_bytes P ! i \<noteq> None" for i
    using that val [of i] nth [of i] old [of i] by (cases "i < mp_n P") auto
  then have "only_fills (mp_bytes P) cells" using len by (simp add: only_fills_def)
  from mp_shape_filled [OF sh this] c have ok: "mp_ok env (filled P cells) live" by (auto simp: mp_ok_def mp_counts_def)
  have "mp_ok env ((filled P cells)\<lparr>mp_mem := v\<rparr>) live"
    by (rule mp_ok_capacity [OF assms(1) ok]) (use v nth in auto)
  then have "mp_ok env (P\<lparr>mp_mem := v, m_rand_seed := m_rand_seed P1\<rparr>) live"
    using load_link_same [of "P\<lparr>mp_mem := v, m_rand_seed := m_rand_seed P1\<rparr>" "(filled P cells)\<lparr>mp_mem := v\<rparr>" env]
    by (simp add: mp_ok_def mp_shape_def mem_ok_def fast_ok_def huge_ok_def mp_counts_def filled_def)
  moreover have "get_fastbin (P\<lparr>mp_mem := v, m_rand_seed := m_rand_seed P1\<rparr>) = get_fastbin P"
    by (simp add: get_fastbin_def split: option.split)
  ultimately show ?thesis using b v val
    by (auto simp: frag_size_def get_huge_stat_def byte_at_def read_cell_def cong: option.case_cong)
qed

lemma mempool_roundtrip_witness:
  "\<exists>P P1 pos bs Q. mp_construct pool_env 36 = Inr P \<and> mp_alloc pool_env P 100 = Inr (P1, pos) \<and>
     mp_save (\<lambda>i. 7) P1 = Inr bs \<and> mp_load pool_env P bs = Inr (Q, []) \<and> mp_ok pool_env Q {#(pos, 100)#}"
proof -
  obtain P where P: "mp_construct pool_env 36 = Inr P" by (rule demo_new)
  note ok = mp_construct_ok [OF pool_env_simps(1) P]
  have len: "block_len pool_env 100 = 100" by (simp add: align_up_def)
  from mp_alloc_law [OF pool_env_simps(1) ok(1), of 100, unfolded len] ok(2,3)
  have "yields (\<forall>k. bytes_granted pool_env k) (mp_alloc pool_env P 100) (\<lambda>(P', pos). got_block pool_env P {#} 100 P' pos)" by simp
  from yields_total [OF this] obtain P1 pos where
    P1: "mp_alloc pool_env P 100 = Inr (P1, pos)" "got_block pool_env P {#} 100 P1 pos" by auto
  then have ok1: "mp_ok pool_env P1 {#(pos, 100)#}" "fragment_size P1 = 0" using ok by (simp_all add: got_block_def)
  have mem: "mp_mem P = vv_new" "free_list_len P = 9" using P by (auto simp: mp_construct_def Let_def mp_align_to_def align_up_def)
  from mp_clear_law [OF ok(1)] mem obtain P2 where P2: "mp_clear pool_env P = Inr P2" by (auto simp: vv_new_def)
  have "huge_size (huge_list P) = 0" using P by (auto simp: mp_construct_def Let_def empty_huge_list_def)
  with P1(1) mem(2) have "free_list_len P1 = 9"
    by (auto simp: mp_alloc_def alloc_free_block_def alloc_huge_def search_huge_def align_up_def grow_to_def bind_res_Inr Let_def)
  with mempool_roundtrip [OF pool_env_simps(1) ok1(1) _ _ _ P2, of "\<lambda>i. 7" "[]"] ok1(2) P P1(1) show ?thesis by auto
qed

end
