(* ===== verification/Spec2Isabelle.thy ===== *)
theory Spec2Isabelle
  imports Febitvec_Refine Valvec_Refine Rank_Select_SE512 Var_Int Circular_Queue Auto_Grow_Queue Replace_Select_Sort Memcmp_Coding Lru_Races Lru_Lock Mempool_Files
begin

text \<open>
  A verification development for the core of topling-zip, the library of succinct data structures,
  containers and compressed stores under \<open>src/terark\<close>.

  The program.  Bit arrays (\<open>bitmanip.hpp\<close>, \<open>bitmap.hpp\<close>, \<open>bitmap.cpp\<close>) are the base: \<open>febitvec\<close> is a growing bit
  vector in memory that may be malloced or mapped.  The rank/select dictionaries
  (\<open>succinct/rank_select_*\<close>) are bit vectors with a cache of counts in the same memory, built once and then
  queried by the tries and the blob stores.  Beside them stand containers (ring queues, hash maps, heaps,
  trees, memory pools), integer codings (\<open>io/var_int\<close>, packed integer vectors), and on top of these the
  tries (\<open>fsa\<close>), the blob stores (\<open>zbs\<close>), the composite index (\<open>idx\<close>) and the streams (\<open>io\<close>).

  Platform and conventions.  64 bit little endian, GCC; \<open>size_t\<close> and \<open>bm_uint_t\<close> have 64 bits.  Words whose bits
  matter are machine words; lengths and indices are naturals (bounded by the address space), pointer
  differences are integers where they may be negative.  Exceptions, failed VERIFYs, calls of \<open>abort\<close> and
  failed assertions are values of \<open>exn\<close> on the left of a sum (\<open>Topling_Prelude\<close>).  \<open>malloc\<close> and \<open>realloc\<close> are
  parameters: which sizes are granted, and what fresh memory holds; theorems hold for every content of
  fresh memory.

  The theories, in the order in which they build on each other:

  \<^item> \<open>Topling_Prelude\<close>: result type, heap parameters, shared lemmas on lists and alignment.
  \<^item> \<open>Bit_Manip\<close>: the bit arrays of \<open>bitmanip.hpp\<close> and \<open>bitmap.hpp\<close> (test, set, clear, ranges).
  \<^item> \<open>Bit_Count\<close>: population counts, zero counts and select inside a word (\<open>bitmanip.hpp\<close>,
    \<open>rank_select_inline_slow.hpp\<close>); \<open>popcount_lanes_correct\<close> and \<open>UintSelect1_selects\<close> relate them to the list of set bits.
  \<^item> \<open>Febitvec\<close>, \<open>Febitvec_Ops\<close>, \<open>Febitvec_Refine\<close>: the class \<open>febitvec\<close>.  Its record has the words, the size in
    bits, the capacity and the ownership flag of the source; the invariant says what the fields promise
    each other; \<open>Febitvec_Refine\<close> proves that every program of operations does on the vector what it does
    on a list of booleans (packed integers of at least one bit), and records the defects found (\<open>febitvec_defects\<close>: \<open>padding_constructor_flips_bit0\<close>,
    \<open>self_assignment_loses_bits\<close>, \<open>one_seq_len_overruns\<close>, \<open>uint_of_no_bits\<close>).
  \<^item> \<open>Word_Mem\<close>: bytes, halfwords and words of mapped memory.
  \<^item> \<open>Rank_Select_Spec\<close>: rank and select of a list of booleans, and the locale of a dictionary; the locale's
    lemmas (rank and select are inverse, monotone, bounded) are proved once.
  \<^item> \<open>Rank_Select_Simple\<close>: \<open>rank_select_allzero\<close>, \<open>rank_select_allone\<close> and \<open>rank_select_simple\<close>, with \<open>build_cache\<close>,
    the queries, copying and mapping.
  \<^item> \<open>Select_Table\<close>: the loops that fill the select caches, shared by the two layouts below.
  \<^item> \<open>Rank_Select_SE256\<close>, \<open>Rank_Select_SE512\<close>: the layouts with a side entry per line of 256 and 512 bits; a built
    dictionary answers all queries as the bits do, building ends, and a dictionary mapped from the memory
    of another is the same.  The branches that use AVX512 or BMI2 instructions are modelled by the portable ones.
  \<^item> \<open>Le_Bytes\<close>: numbers stored in memory as bytes, the lowest first.
  \<^item> \<open>Var_Int\<close>: the variable length integers of \<open>io/var_int\<close>: round trips for all formats, behaviour on every
    input, lengths, reading backwards, and what the byte by byte readers read instead.
  \<^item> \<open>Fifo_Spec\<close>: what a first-in first-out queue promises, as a locale over its operations, and the
    arithmetic of ring buffers.
  \<^item> \<open>Circular_Queue\<close>, \<open>Auto_Grow_Queue\<close>: the three ring queues, each an instance of the locale.
  \<^item> \<open>Heap_Ext\<close>, \<open>Replace_Select_Sort\<close>: the array heap and the run generation that uses it.
  \<^item> \<open>Memcmp_Coding\<close>: the codings of \<open>util/memcmp_coding\<close> whose bytes compare as the values do (strings,
    integers): order, round trips, malformed and truncated input.
  \<^item> \<open>Array_Spec\<close>: what a growing array promises, as a locale; \<open>febitvec\<close> and \<open>valvec\<close> are instances, and this
    theory states what follows for both.
  \<^item> \<open>Valvec\<close>, \<open>Valvec_Laws\<close>, \<open>Valvec_Refine\<close>: the growing array \<open>valvec\<close> (\<open>valvec.hpp\<close>) and, with 32 bit size fields,
    \<open>valvec32\<close>: its memory is a list of cells that hold an object or not; the laws of every operation; programs of
    member calls refine programs on lists; the cost of growing; the corners where references into the vector go wrong.
  \<^item> \<open>Binary_Search\<close>: the index based binary searches of \<open>valvec.hpp\<close>, which the bucket sizes of the hash tables
    are looked up with.
  \<^item> \<open>Gold_Hash\<close>, \<open>Gold_Hash_Ops\<close>: the state and the operations of \<open>gold_hash_tab\<close> and \<open>gold_hash_map\<close>
    (\<open>gold_hash_map.hpp\<close>, \<open>node_layout.hpp\<close>, \<open>hash_common.cpp\<close>): buckets, collision lists through the links,
    the freelist in dead elements, growth, rehashing and compaction.
  \<^item> \<open>Gold_Hash_Inv\<close>, \<open>Gold_Hash_Laws\<close>, \<open>Gold_Hash_Bulk\<close>, \<open>Gold_Hash_Files\<close>: the invariant (every bucket is the list of
    the live slots with its hash, the freelist is the list of the others), what each operation does to it and
    to the table read as a map from slots and from keys to elements, operations on many elements, files.
  \<^item> \<open>Map_Spec\<close>, \<open>Gold_Hash_Refine\<close>: a map from keys to elements as a locale over its operations, and the table as
    an instance of it: every program of operations answers as the map does.

  \<^item> \<open>Cache_Spec\<close>: a cache with pinned entries as a step relation, and the locale of its implementations: a run is a
    run of the relation or stops where the relation has no step, and what is pinned stays.
  \<^item> \<open>Lru_Map\<close>, \<open>Lru_Laws\<close>, \<open>Lru_Refine\<close>, \<open>Lru_Races\<close>: \<open>lru_map\<close> (\<open>lru_map.hpp\<close>) over \<open>gold_hash_map\<close>.  What other threads do
    while the lock is given back is a parameter for each such gap.  Alone, the map refines the cache; waiting for
    the value another thread computes; the interleavings that go wrong.
  \<^item> \<open>Lru_Lock\<close>: the futex lock of \<open>lru_map.cpp\<close> as a machine of any number of threads: mutual exclusion, and when a
    wakeup is lost.  \<open>lru_add\<close> is modelled as if its callback \<open>evict_on_full\<close> got the map; as written it gets a pointer to
    the base class, which does not compile.
  \<^item> \<open>Alloc_Spec\<close>: a client of an allocator and the heap it expects (each block holds what was written into it), and the
    locale of the allocators: the laws of one operation each give the refinement of whole programs.
  \<^item> \<open>Mempool\<close>: the memory pools of \<open>mempool_lock_none.hpp\<close> and \<open>mempool_fixed_cap.hpp\<close>: a vector of bytes, the lists of
    free blocks for each small size and the skip list of the large ones, both written into the free blocks.
  \<^item> \<open>Mempool_Laws\<close> (linked lists in memory, blocks that tile the used bytes, the invariant), \<open>Mempool_Free\<close>, \<open>Mempool_Skip\<close>,
    \<open>Mempool_Links\<close>, \<open>Mempool_Huge\<close>, \<open>Mempool_Alloc\<close>, \<open>Mempool_Pool\<close>, \<open>Mempool_Ops\<close>: what each operation does to the lists and
    the blocks of the client, from one link up to \<open>alloc\<close>, \<open>alloc3\<close> and \<open>sfree\<close>.
  \<^item> \<open>Mempool_Refine\<close>, \<open>Mempool_Policy\<close>, \<open>Mempool_Files\<close>: both pools as instances of the locale; which block is taken; the
    counters after a split; states that the operations cannot go on from; saving and loading.

  Loops and termination.  Loops are total functions with their measures, except the loop of
  \<open>circular_queue::clear\<close>, which is a partial function into \<open>option\<close> and proved to end on every queue that keeps
  the invariant, and the walks along a collision list of the hash tables, which have as fuel the number of slots
  and one more: a list has no more slots, so a walk that uses all of it has met a slot twice (\<open>Endless\<close>), and on a
  table that keeps the invariant no walk does.  The debug walk along the freelist before linking has the same fuel.  A walk along a level of the skip list of a memory pool has as fuel the
  number of used bytes and one more, for the same reason: its nodes are at different offsets.  The loop of \<open>wait_solve\<close> has as fuel the number of times the thread wakes
  up: any number will do, if the value is finished by then.

  Not modelled.  The other rank/select layouts, the other hash containers,
  trees, the memory pools with locks or thread caches, string vectors, tries, blob stores and the composite index are not modelled yet.  Streams, threads and the
  tools are input and output or scheduling by the operating system; \<open>json.hpp\<close> and \<open>3rdparty\<close> are vendored.
\<close>

text \<open>Both growing arrays are stacks and random access memory: what is pushed is popped in reverse order and leaves
  what was there, and writing a list in the middle replaces exactly that part.\<close>

theorem growing_arrays_are_stacks:
  assumes "vv_rep v xs" and "i + length ys \<le> length xs" and "bv_holds b bs" and "j + length cs \<le> length bs"
  shows "(\<exists>v1 v2. push_list (vv_push env) v zs = Inr v1 \<and>
      pop_list vv_n vv_get (vv_pop_back env) v1 (length zs) = Inr (v2, rev zs) \<and> vv_rep v2 xs) \<and>
    (\<exists>v'. put_list (vv_put env) v i ys = Inr v' \<and> vv_rep v' (take i xs @ ys @ drop (i + length ys) xs)) \<and>
    (\<exists>b1 b2. push_list (bv_push heap) b ds = Inr b1 \<and>
      pop_list m_size (\<lambda>v i. Inr (febitvec_is1 v i)) (\<lambda>v. Inr (febitvec_pop_back v)) b1 (length ds) = Inr (b2, rev ds) \<and>
      bv_holds b2 bs) \<and>
    (\<exists>b'. put_list (\<lambda>v i x. Inr (febitvec_set v i x)) b j cs = Inr b' \<and> bv_holds b' (take j bs @ cs @ drop (j + length cs) bs))"
  using vv.lifo [OF assms(1)] vv.put_list_holds [OF assms(1,2)] bv.lifo [OF assms(3)] bv.put_list_holds [OF assms(3,4)] by blast

lemma growing_arrays_are_stacks_witness:
  "\<exists>v1 v2. push_list (vv_push nat_vec_env) vv_new [1, 2, 3] = Inr v1 \<and>
     pop_list vv_n vv_get (vv_pop_back nat_vec_env) v1 3 = Inr (v2, [3, 2, 1]) \<and> vv_rep v2 []"
proof -
  have "bv_holds febitvec_null []" using febitvec_null_ok by (simp add: bv_holds_def)
  from growing_arrays_are_stacks [OF vv_new_rep _ this, of 0 "[]" 0 "[]" nat_vec_env "[1, 2, 3]"] show ?thesis
    by (simp add: eval_nat_numeral)
qed

end
